(* ===== verification/Prelude.thy ===== *)
theory Prelude
  imports Main "HOL-Library.Word" "HOL-Library.Monad_Syntax"
begin

text \<open>
  Shared vocabulary of the development: the machine integers of the C++ sources, the
  little-endian byte codecs, windows of a byte buffer (\<open>slice\<close>, \<open>overwrite\<close>, \<open>view\<close>)
  and the generic facts on lists, words and invariants the component theories use.

  Conventions.  An unsigned \<open>n\<close>-bit integer of the source is an \<open>n word\<close>.  A \<open>size_t\<close>
  that only counts or indexes in-memory data is a \<open>nat\<close>; where the source lets a
  subtraction go negative before it becomes a \<open>size_t\<close>, the wrap-around is written out
  with \<open>size_t_of_int\<close>.  An operation whose C++ counterpart could touch memory outside
  of its buffer returns an \<open>option\<close>: \<open>None\<close> stands for the access the language leaves
  undefined, and a memory-safety theorem is that the result is never \<open>None\<close>.
\<close>

unbundle bit_operations_syntax

type_synonym byte = "8 word"
type_synonym u16 = "16 word"
type_synonym u32 = "32 word"
type_synonym u64 = "64 word"
type_synonym PageId = u32

text \<open>Collections: \<open>buf_simps\<close> rewrites windows of buffers, \<open>codec_simps\<close> the byte codecs.\<close>

named_theorems buf_simps
named_theorems codec_simps

definition size_t_of_int :: "int \<Rightarrow> nat" where
  "size_t_of_int i = nat (i mod 2 ^ 64)"

lemma size_t_of_int_nonneg: "0 \<le> i \<Longrightarrow> i < 2 ^ 64 \<Longrightarrow> size_t_of_int i = nat i"
  by (simp add: size_t_of_int_def)

lemma size_t_of_int_u16_diff:
  fixes a b :: u16
  assumes "unat b \<le> unat a"
  shows "size_t_of_int (uint a - uint b) = unat a - unat b"
proof -
  have d: "uint a - uint b = int (unat a - unat b)"
    using assms by (simp add: of_nat_diff)
  have "unat a < 65536" using unsigned_less [of a, where ?'a = nat] by simp
  then have "unat a - unat b < 2 ^ 64" by simp
  then have "int (unat a - unat b) < 2 ^ 64" using of_nat_less_iff [where ?'a = int] by fastforce
  then show ?thesis unfolding d by (simp add: size_t_of_int_nonneg)
qed

subsection \<open>Windows of a buffer\<close>

definition slice :: "'a list \<Rightarrow> nat \<Rightarrow> nat \<Rightarrow> 'a list" where
  "slice xs off n = take n (drop off xs)"

text \<open>\<open>overwrite xs off ys\<close> stores \<open>ys\<close> at offset \<open>off\<close>, as \<open>memcpy\<close> or a byte loop does.\<close>

definition overwrite :: "'a list \<Rightarrow> nat \<Rightarrow> 'a list \<Rightarrow> 'a list" where
  "overwrite xs off ys = take off xs @ ys @ drop (off + length ys) xs"

text \<open>A span over \<open>[off, off + n)\<close>; \<open>None\<close> when it leaves the buffer.\<close>

definition view :: "'a list \<Rightarrow> nat \<Rightarrow> nat \<Rightarrow> 'a list option" where
  "view xs off n = (if off + n \<le> length xs then Some (slice xs off n) else None)"

lemma length_slice [simp]: "length (slice xs off n) = min n (length xs - off)"
  by (simp add: slice_def)

lemma nth_slice: "i < n \<Longrightarrow> off + i < length xs \<Longrightarrow> slice xs off n ! i = xs ! (off + i)"
  by (simp add: slice_def)

lemma length_overwrite [simp]:
  "off + length ys \<le> length xs \<Longrightarrow> length (overwrite xs off ys) = length xs"
  by (simp add: overwrite_def)

lemma nth_overwrite:
  "off + length ys \<le> length xs \<Longrightarrow> i < length xs \<Longrightarrow>
   overwrite xs off ys ! i = (if off \<le> i \<and> i < off + length ys then ys ! (i - off) else xs ! i)"
  by (auto simp: overwrite_def nth_append min_def)

lemma slice_overwrite_same [buf_simps]:
  "off + length ys \<le> length xs \<Longrightarrow> n = length ys \<Longrightarrow> slice (overwrite xs off ys) off n = ys"
  by (simp add: slice_def overwrite_def)

lemma slice_overwrite_inside [buf_simps]:
  assumes "off + length ys \<le> length xs" "off \<le> k" "k + n \<le> off + length ys"
  shows "slice (overwrite xs off ys) k n = slice ys (k - off) n"
  using assms by (simp add: slice_def overwrite_def)

lemma slice_overwrite_before [buf_simps]:
  assumes "off + length ys \<le> length xs" "k + n \<le> off"
  shows "slice (overwrite xs off ys) k n = slice xs k n"
proof -
  have "take n (drop k (take off xs)) = take n (drop k xs)"
    using assms by (simp add: drop_take min_def)
  with assms show ?thesis by (simp add: slice_def overwrite_def)
qed

lemma slice_overwrite_after [buf_simps]:
  assumes "off + length ys \<le> length xs" "off + length ys \<le> k"
  shows "slice (overwrite xs off ys) k n = slice xs k n"
  using assms by (simp add: slice_def overwrite_def)

lemma slice_slice [buf_simps]:
  "k + m \<le> n \<Longrightarrow> slice (slice xs off n) k m = slice xs (off + k) m"
  by (simp add: slice_def drop_take min_def add.commute)

lemma overwrite_slice [buf_simps]:
  assumes "off + n \<le> length xs" "k + length ys \<le> n"
  shows "overwrite xs off (overwrite (slice xs off n) k ys) = overwrite xs (off + k) ys"
  using assms by (intro nth_equalityI) (auto simp: nth_slice nth_overwrite)

lemma overwrite_overwrite_adjacent [buf_simps]:
  assumes "off + length ys + length zs \<le> length xs" "k = off + length ys"
  shows "overwrite (overwrite xs off ys) k zs = overwrite xs off (ys @ zs)"
  using assms by (intro nth_equalityI) (auto simp: nth_overwrite nth_append)

lemma slice_all [simp]: "length xs \<le> n \<Longrightarrow> slice xs 0 n = xs"
  by (simp add: slice_def)

lemma overwrite_all [simp]: "length ys = length xs \<Longrightarrow> overwrite xs 0 ys = ys"
  by (simp add: overwrite_def)

lemma slice_append_left: "k + n \<le> length xs \<Longrightarrow> slice (xs @ ys) k n = slice xs k n"
  by (simp add: slice_def)

lemma slice_append_right: "length xs \<le> k \<Longrightarrow> slice (xs @ ys) k n = slice ys (k - length xs) n"
  by (simp add: slice_def)

lemma slice_Cons: "0 < k \<Longrightarrow> slice (x # xs) k n = slice xs (k - 1) n"
  by (cases k) (simp_all add: slice_def)

lemma slice_full [simp]: "n = length xs \<Longrightarrow> slice xs 0 n = xs"
  by simp

lemma view_Some [simp]: "off + n \<le> length xs \<Longrightarrow> view xs off n = Some (slice xs off n)"
  by (simp add: view_def)

subsection \<open>Little-endian codecs\<close>

text \<open>
  The byte arrays \<open>Serializer::writeUIntN\<close> builds and the expressions
  \<open>Deserializer::readUIntN\<close> evaluates.
\<close>

definition bytes_of_u16 :: "u16 \<Rightarrow> byte list" where
  "bytes_of_u16 v = [ucast (v AND 0xFF), ucast (drop_bit 8 v AND 0xFF)]"

definition bytes_of_u32 :: "u32 \<Rightarrow> byte list" where
  "bytes_of_u32 v = [ucast (v AND 0xFF), ucast (drop_bit 8 v AND 0xFF),
     ucast (drop_bit 16 v AND 0xFF), ucast (drop_bit 24 v AND 0xFF)]"

definition bytes_of_u64 :: "u64 \<Rightarrow> byte list" where
  "bytes_of_u64 v = [ucast (v AND 0xFF), ucast (drop_bit 8 v AND 0xFF),
     ucast (drop_bit 16 v AND 0xFF), ucast (drop_bit 24 v AND 0xFF),
     ucast (drop_bit 32 v AND 0xFF), ucast (drop_bit 40 v AND 0xFF),
     ucast (drop_bit 48 v AND 0xFF), ucast (drop_bit 56 v AND 0xFF)]"

definition u16_of_bytes :: "byte list \<Rightarrow> u16" where
  "u16_of_bytes bs = ucast (bs ! 0) OR push_bit 8 (ucast (bs ! 1))"

definition u32_of_bytes :: "byte list \<Rightarrow> u32" where
  "u32_of_bytes bs = ((ucast (bs ! 0) OR push_bit 8 (ucast (bs ! 1))) OR
     push_bit 16 (ucast (bs ! 2))) OR push_bit 24 (ucast (bs ! 3))"

definition u64_of_bytes :: "byte list \<Rightarrow> u64" where
  "u64_of_bytes bs = ((((((ucast (bs ! 0) OR push_bit 8 (ucast (bs ! 1))) OR
     push_bit 16 (ucast (bs ! 2))) OR push_bit 24 (ucast (bs ! 3))) OR
     push_bit 32 (ucast (bs ! 4))) OR push_bit 40 (ucast (bs ! 5))) OR
     push_bit 48 (ucast (bs ! 6))) OR push_bit 56 (ucast (bs ! 7))"

lemma mask_255: "(0xFF :: 'a::len word) = mask 8"
  by (simp add: mask_eq_exp_minus_1)

lemma ucast_and_255 [codec_simps]: "(ucast ((v :: 'a::len word) AND 0xFF) :: byte) = ucast v"
  unfolding mask_255 by (rule bit_word_eqI) (auto simp: bit_simps dest: bit_imp_le_length)

text \<open>A word is assembled byte by byte: the bits below \<open>k + 8\<close> are those below \<open>k\<close> and a byte.\<close>

lemma take_bit_byte:
  fixes v :: "'a::len word"
  shows "take_bit k v OR push_bit k (take_bit 8 (drop_bit k v)) = take_bit (k + 8) v"
  by (rule bit_word_eqI) (auto simp: bit_simps not_less)

lemma ucast_ucast_byte:
  fixes v :: "'a::len word"
  shows "ucast (ucast v :: byte) = take_bit 8 v"
  by (rule bit_word_eqI) (auto simp: bit_simps)

lemma u16_roundtrip [codec_simps]: "u16_of_bytes (bytes_of_u16 v) = v"
proof -
  have "take_bit 16 v = v" by (simp add: take_bit_word_eq_self)
  then show ?thesis
    by (simp add: u16_of_bytes_def bytes_of_u16_def ucast_and_255 ucast_ucast_byte take_bit_byte)
qed

lemma u32_roundtrip [codec_simps]: "u32_of_bytes (bytes_of_u32 v) = v"
proof -
  have "take_bit 32 v = v" by (simp add: take_bit_word_eq_self)
  then show ?thesis
    by (simp add: u32_of_bytes_def bytes_of_u32_def ucast_and_255 ucast_ucast_byte take_bit_byte)
qed

lemma u64_roundtrip [codec_simps]: "u64_of_bytes (bytes_of_u64 v) = v"
proof -
  have "take_bit 64 v = v" by (simp add: take_bit_word_eq_self)
  then show ?thesis
    by (simp add: u64_of_bytes_def bytes_of_u64_def ucast_and_255 ucast_ucast_byte take_bit_byte)
qed

text \<open>The contract a fixed-width byte codec offers to the code that stores values in a buffer.\<close>

locale byte_codec =
  fixes enc :: "'a \<Rightarrow> byte list" and dec :: "byte list \<Rightarrow> 'a" and width :: nat
  assumes enc_length: "length (enc x) = width"
    and dec_enc: "dec (enc x) = x"
begin

lemma get_put_same:
  "off + width \<le> length xs \<Longrightarrow> dec (slice (overwrite xs off (enc x)) off width) = x"
  by (simp add: slice_overwrite_same enc_length dec_enc)

lemma get_put_other:
  assumes "off + width \<le> length xs" "k + n \<le> off \<or> off + width \<le> k"
  shows "slice (overwrite xs off (enc x)) k n = slice xs k n"
  using assms by (auto simp: enc_length slice_overwrite_before slice_overwrite_after)

lemma put_length:
  "off + width \<le> length xs \<Longrightarrow> length (overwrite xs off (enc x)) = length xs"
  by (simp add: enc_length)

lemma dec_enc_append: "dec (slice (enc x @ ys) 0 width) = x"
  by (simp add: slice_append_left enc_length dec_enc)

end

interpretation c16: byte_codec bytes_of_u16 u16_of_bytes 2
  by unfold_locales (simp_all add: u16_roundtrip bytes_of_u16_def [THEN arg_cong [of _ _ length]])

interpretation c32: byte_codec bytes_of_u32 u32_of_bytes 4
  by unfold_locales (simp_all add: u32_roundtrip bytes_of_u32_def [THEN arg_cong [of _ _ length]])

interpretation c64: byte_codec bytes_of_u64 u64_of_bytes 8
  by unfold_locales (simp_all add: u64_roundtrip bytes_of_u64_def [THEN arg_cong [of _ _ length]])

lemmas codec_lengths [simp] = c16.enc_length c32.enc_length c64.enc_length

subsection \<open>Invariants of state machines\<close>

text \<open>
  A component run as a sequence of operations: a set of initial states and a step
  relation.  The contract asks for an inductive invariant; the lemma gives it in
  every reachable state.
\<close>

inductive reachable :: "('s \<Rightarrow> bool) \<Rightarrow> ('s \<Rightarrow> 's \<Rightarrow> bool) \<Rightarrow> 's \<Rightarrow> bool"
  for init :: "'s \<Rightarrow> bool" and step :: "'s \<Rightarrow> 's \<Rightarrow> bool" where
  reach_init: "init s \<Longrightarrow> reachable init step s"
| reach_step: "reachable init step s \<Longrightarrow> step s t \<Longrightarrow> reachable init step t"

locale state_machine =
  fixes init :: "'s \<Rightarrow> bool" and step :: "'s \<Rightarrow> 's \<Rightarrow> bool" and inv :: "'s \<Rightarrow> bool"
  assumes inv_init: "init s \<Longrightarrow> inv s"
    and inv_step: "inv s \<Longrightarrow> step s t \<Longrightarrow> inv t"
begin

lemma reachable_inv: "reachable init step s \<Longrightarrow> inv s"
  by (induction rule: reachable.induct) (auto intro: inv_init inv_step)

end

end
