(* ===== verification/Common.thy ===== *)
theory Common
  imports Prelude
begin

text \<open>
  The shared vocabulary of the engine: \<^verbatim>\<open>include/common/constants.hpp\<close> and
  \<^verbatim>\<open>include/common/enums.hpp\<close>.
\<close>

datatype Status = Ok | NotFound | InvalidArg | IoError | OutOfMemory | Corruption
  | NotSupported | AlreadyExists | BufferPoolFull | PageFull | Unknown

fun statusToString :: "Status \<Rightarrow> string" where
  "statusToString Ok = ''Ok''"
| "statusToString NotFound = ''NotFound''"
| "statusToString InvalidArg = ''InvalidArg''"
| "statusToString IoError = ''IoError''"
| "statusToString OutOfMemory = ''OutOfMemory''"
| "statusToString Corruption = ''Corruption''"
| "statusToString NotSupported = ''NotSupported''"
| "statusToString AlreadyExists = ''AlreadyExists''"
| "statusToString BufferPoolFull = ''BufferPoolFull''"
| "statusToString PageFull = ''PageFull''"
| "statusToString Unknown = ''Unknown''"

text \<open>
  \<open>PageType\<close> is an \<open>enum class\<close> over \<open>uint8_t\<close>: casting any byte to it is defined, so
  a byte with no enumerator is kept as \<open>PageTypeRaw\<close>.
\<close>

datatype PageType = Free | Metadata | Table | Index | Overflow | BTreeInternal | BTreeLeaf
  | PageTypeRaw byte

fun byte_of_PageType :: "PageType \<Rightarrow> byte" where
  "byte_of_PageType Free = 0"
| "byte_of_PageType Metadata = 1"
| "byte_of_PageType Table = 2"
| "byte_of_PageType Index = 3"
| "byte_of_PageType Overflow = 4"
| "byte_of_PageType BTreeInternal = 5"
| "byte_of_PageType BTreeLeaf = 6"
| "byte_of_PageType (PageTypeRaw b) = b"

definition PageType_of_byte :: "byte \<Rightarrow> PageType" where
  "PageType_of_byte b =
    (if b = 0 then Free else if b = 1 then Metadata else if b = 2 then Table
     else if b = 3 then Index else if b = 4 then Overflow else if b = 5 then BTreeInternal
     else if b = 6 then BTreeLeaf else PageTypeRaw b)"

text \<open>A \<open>PageType\<close> in canonical form: \<open>PageTypeRaw\<close> only for bytes with no enumerator.\<close>

definition wf_PageType :: "PageType \<Rightarrow> bool" where
  "wf_PageType t = (PageType_of_byte (byte_of_PageType t) = t)"

lemma PageType_byte [simp]: "byte_of_PageType (PageType_of_byte b) = b"
  by (simp add: PageType_of_byte_def)

lemma wf_PageType_of_byte [simp]: "wf_PageType (PageType_of_byte b)"
  by (simp add: wf_PageType_def)

lemma wf_PageType_named [simp]:
  "wf_PageType Free" "wf_PageType Metadata" "wf_PageType Table" "wf_PageType Index"
  "wf_PageType Overflow" "wf_PageType BTreeInternal" "wf_PageType BTreeLeaf"
  by (simp_all add: wf_PageType_def PageType_of_byte_def)

definition kPageSize :: nat where "kPageSize = 4096"
definition kPageHeaderSize :: nat where "kPageHeaderSize = 24"
definition kPageBodySize :: nat where "kPageBodySize = kPageSize - kPageHeaderSize"
definition kInvalidPageId :: PageId where "kInvalidPageId = 0xFFFFFFFF"
definition kFormatVersion :: u16 where "kFormatVersion = 1"

definition kDbMagic :: "byte list" where
  "kDbMagic = [0x48, 0x41, 0x4D, 0x44, 0x42, 0x30, 0x30, 0x31]"

lemmas page_consts = kPageSize_def kPageHeaderSize_def kPageBodySize_def

text \<open>
  The source's \<open>if (const Status s = op(); s != Ok) return s;\<close>: run the continuation on
  the state the operation left only when it reported \<open>Ok\<close>.
\<close>

definition and_then :: "Status \<times> 's \<Rightarrow> ('s \<Rightarrow> Status \<times> 's) \<Rightarrow> Status \<times> 's" where
  "and_then r k = (if fst r = Ok then k (snd r) else r)"

lemma and_then_Ok [simp]: "and_then (Ok, s) k = k s"
  by (simp add: and_then_def)

lemma and_then_id [simp]: "and_then r (\<lambda>s. (Ok, s)) = r"
  by (cases r) (simp add: and_then_def)

lemma and_then_fail: "st \<noteq> Ok \<Longrightarrow> and_then (st, s) k = (st, s)"
  by (simp add: and_then_def)

lemma and_then_eq_Ok:
  "and_then r k = (Ok, t) \<longleftrightarrow> (\<exists>s. r = (Ok, s) \<and> k s = (Ok, t))"
  by (cases r) (auto simp: and_then_def)

end
