(* ===== verification/Serde.thy ===== *)
theory Serde
  imports Common
begin

text \<open>
  \<^verbatim>\<open>Serializer\<close> and \<^verbatim>\<open>Deserializer\<close> (\<^verbatim>\<open>src/utils/serializer.cpp\<close>,
  \<^verbatim>\<open>src/utils/deserializer.cpp\<close>): a cursor over a caller-owned byte span.  A write
  returns the status and the new state; a read also returns the out-parameter, which keeps
  the caller's value on failure.  Bytes of a \<open>std::string\<close> are bytes.
\<close>

record Serializer =
  ser_buffer :: "byte list"
  ser_cursor :: nat

record Deserializer =
  des_buffer :: "byte list"
  des_cursor :: nat

definition mk_Serializer :: "byte list \<Rightarrow> Serializer" where
  "mk_Serializer buf = \<lparr>ser_buffer = buf, ser_cursor = 0\<rparr>"

definition mk_Deserializer :: "byte list \<Rightarrow> Deserializer" where
  "mk_Deserializer buf = \<lparr>des_buffer = buf, des_cursor = 0\<rparr>"

subsection \<open>Writers\<close>

definition writeRaw :: "Serializer \<Rightarrow> byte list \<Rightarrow> Status \<times> Serializer" where
  "writeRaw s src =
    (if length src > length (ser_buffer s) - ser_cursor s then (IoError, s)
     else (Ok, s\<lparr>ser_buffer := overwrite (ser_buffer s) (ser_cursor s) src,
                 ser_cursor := ser_cursor s + length src\<rparr>))"

definition writeUInt8 :: "Serializer \<Rightarrow> byte \<Rightarrow> Status \<times> Serializer" where
  "writeUInt8 s v = writeRaw s [v]"

definition writeUInt16 :: "Serializer \<Rightarrow> u16 \<Rightarrow> Status \<times> Serializer" where
  "writeUInt16 s v = writeRaw s (bytes_of_u16 v)"

definition writeUInt32 :: "Serializer \<Rightarrow> u32 \<Rightarrow> Status \<times> Serializer" where
  "writeUInt32 s v = writeRaw s (bytes_of_u32 v)"

definition writeUInt64 :: "Serializer \<Rightarrow> u64 \<Rightarrow> Status \<times> Serializer" where
  "writeUInt64 s v = writeRaw s (bytes_of_u64 v)"

text \<open>An \<open>int32_t\<close> is an integer; the cast to \<open>uint32_t\<close> reduces it modulo \<open>2 ^ 32\<close>.\<close>

definition writeInt32 :: "Serializer \<Rightarrow> int \<Rightarrow> Status \<times> Serializer" where
  "writeInt32 s v = writeUInt32 s (word_of_int v)"

definition writeBool :: "Serializer \<Rightarrow> bool \<Rightarrow> Status \<times> Serializer" where
  "writeBool s v = writeUInt8 s (if v then 1 else 0)"

definition writeBytes :: "Serializer \<Rightarrow> byte list \<Rightarrow> Status \<times> Serializer" where
  "writeBytes s bs =
    (if length bs > length (ser_buffer s) - ser_cursor s then (IoError, s)
     else (Ok, s\<lparr>ser_buffer := overwrite (ser_buffer s) (ser_cursor s) bs,
                 ser_cursor := ser_cursor s + length bs\<rparr>))"

text \<open>\<open>std::array<uint8_t, 16>\<close>: the sixteen bytes of the argument.\<close>

definition writeUUID :: "Serializer \<Rightarrow> byte list \<Rightarrow> Status \<times> Serializer" where
  "writeUUID s uuid = writeRaw s (take 16 uuid)"

definition writeString :: "Serializer \<Rightarrow> byte list \<Rightarrow> Status \<times> Serializer" where
  "writeString s v =
    (if length v > 2 ^ 32 - 1 then (InvalidArg, s)
     else and_then (writeUInt32 s (word_of_nat (length v)))
       (\<lambda>s1. if length v = 0 then (Ok, s1) else writeRaw s1 v))"

definition ser_position :: "Serializer \<Rightarrow> nat" where
  "ser_position s = ser_cursor s"

definition ser_remaining :: "Serializer \<Rightarrow> nat" where
  "ser_remaining s = length (ser_buffer s) - ser_cursor s"

definition ser_reset :: "Serializer \<Rightarrow> Serializer" where
  "ser_reset s = s\<lparr>ser_cursor := 0\<rparr>"

subsection \<open>Readers\<close>

definition readRaw :: "Deserializer \<Rightarrow> nat \<Rightarrow> Status \<times> byte list \<times> Deserializer" where
  "readRaw d n =
    (if n > length (des_buffer d) - des_cursor d then (IoError, replicate n 0, d)
     else (Ok, slice (des_buffer d) (des_cursor d) n, d\<lparr>des_cursor := des_cursor d + n\<rparr>))"

definition readUInt8 :: "Deserializer \<Rightarrow> byte \<Rightarrow> Status \<times> byte \<times> Deserializer" where
  "readUInt8 d out = (case readRaw d 1 of (st, bs, d1) \<Rightarrow>
     if st \<noteq> Ok then (st, out, d1) else (Ok, bs ! 0, d1))"

definition readUInt16 :: "Deserializer \<Rightarrow> u16 \<Rightarrow> Status \<times> u16 \<times> Deserializer" where
  "readUInt16 d out = (case readRaw d 2 of (st, bs, d1) \<Rightarrow>
     if st \<noteq> Ok then (st, out, d1) else (Ok, u16_of_bytes bs, d1))"

definition readUInt32 :: "Deserializer \<Rightarrow> u32 \<Rightarrow> Status \<times> u32 \<times> Deserializer" where
  "readUInt32 d out = (case readRaw d 4 of (st, bs, d1) \<Rightarrow>
     if st \<noteq> Ok then (st, out, d1) else (Ok, u32_of_bytes bs, d1))"

definition readUInt64 :: "Deserializer \<Rightarrow> u64 \<Rightarrow> Status \<times> u64 \<times> Deserializer" where
  "readUInt64 d out = (case readRaw d 8 of (st, bs, d1) \<Rightarrow>
     if st \<noteq> Ok then (st, out, d1) else (Ok, u64_of_bytes bs, d1))"

definition readInt32 :: "Deserializer \<Rightarrow> int \<Rightarrow> Status \<times> int \<times> Deserializer" where
  "readInt32 d out = (case readUInt32 d 0 of (st, raw, d1) \<Rightarrow>
     if st \<noteq> Ok then (st, out, d1) else (Ok, sint raw, d1))"

definition readBool :: "Deserializer \<Rightarrow> bool \<Rightarrow> Status \<times> bool \<times> Deserializer" where
  "readBool d out = (case readUInt8 d 0 of (st, b, d1) \<Rightarrow>
     if st \<noteq> Ok then (st, out, d1) else (Ok, b \<noteq> 0, d1))"

definition readBytes :: "Deserializer \<Rightarrow> nat \<Rightarrow> byte list \<Rightarrow> Status \<times> byte list \<times> Deserializer" where
  "readBytes d n out =
    (if n > length (des_buffer d) - des_cursor d then (IoError, out, d)
     else (Ok, slice (des_buffer d) (des_cursor d) n, d\<lparr>des_cursor := des_cursor d + n\<rparr>))"

text \<open>\<open>readUUID\<close> reads straight into the caller's array, which a failing \<open>readRaw\<close> leaves alone.\<close>

definition readUUID :: "Deserializer \<Rightarrow> byte list \<Rightarrow> Status \<times> byte list \<times> Deserializer" where
  "readUUID d out = (case readRaw d 16 of (st, bs, d1) \<Rightarrow>
     if st \<noteq> Ok then (st, out, d1) else (Ok, bs, d1))"

definition readString :: "Deserializer \<Rightarrow> byte list \<Rightarrow> Status \<times> byte list \<times> Deserializer" where
  "readString d out = (case readUInt32 d 0 of (st, len, d1) \<Rightarrow>
     if st \<noteq> Ok then (st, out, d1)
     else if unat len > length (des_buffer d1) - des_cursor d1
     then (IoError, out, d1\<lparr>des_cursor := des_cursor d1 - 4\<rparr>)
     else (Ok, slice (des_buffer d1) (des_cursor d1) (unat len),
           d1\<lparr>des_cursor := des_cursor d1 + unat len\<rparr>))"

definition des_position :: "Deserializer \<Rightarrow> nat" where
  "des_position d = des_cursor d"

definition des_remaining :: "Deserializer \<Rightarrow> nat" where
  "des_remaining d = length (des_buffer d) - des_cursor d"

definition des_reset :: "Deserializer \<Rightarrow> Deserializer" where
  "des_reset d = d\<lparr>des_cursor := 0\<rparr>"

subsection \<open>Bounds: the cursor never leaves the buffer\<close>

text \<open>
  With \<open>cursor \<le> size\<close> the \<open>size_t\<close> subtraction of the bounds checks cannot wrap; every
  operation keeps it.
\<close>

definition ser_wf :: "Serializer \<Rightarrow> bool" where
  "ser_wf s = (ser_cursor s \<le> length (ser_buffer s))"

definition des_wf :: "Deserializer \<Rightarrow> bool" where
  "des_wf d = (des_cursor d \<le> length (des_buffer d))"

lemma ser_wf_mk [simp]: "ser_wf (mk_Serializer buf)"
  by (simp add: ser_wf_def mk_Serializer_def)

lemma des_wf_mk [simp]: "des_wf (mk_Deserializer buf)"
  by (simp add: des_wf_def mk_Deserializer_def)

text \<open>What a raw write does, on both branches.\<close>

lemma writeRaw_Ok:
  "ser_cursor s + length src \<le> length (ser_buffer s) \<Longrightarrow>
   writeRaw s src = (Ok, s\<lparr>ser_buffer := overwrite (ser_buffer s) (ser_cursor s) src,
                           ser_cursor := ser_cursor s + length src\<rparr>)"
  by (auto simp: writeRaw_def)

lemma writeRaw_cases:
  assumes "ser_wf s"
  obtains (ok) "ser_cursor s + length src \<le> length (ser_buffer s)"
      "writeRaw s src = (Ok, s\<lparr>ser_buffer := overwrite (ser_buffer s) (ser_cursor s) src,
                               ser_cursor := ser_cursor s + length src\<rparr>)"
  | (full) "length (ser_buffer s) < ser_cursor s + length src" "writeRaw s src = (IoError, s)"
  using assms by (cases "length src > length (ser_buffer s) - ser_cursor s")
    (auto simp: writeRaw_def ser_wf_def)

lemma writeBytes_eq: "writeBytes s bs = writeRaw s bs"
  by (simp add: writeBytes_def writeRaw_def)

lemma readRaw_Ok:
  "des_cursor d + n \<le> length (des_buffer d) \<Longrightarrow>
   readRaw d n = (Ok, slice (des_buffer d) (des_cursor d) n, d\<lparr>des_cursor := des_cursor d + n\<rparr>)"
  by (auto simp: readRaw_def)

lemma readRaw_fail:
  "des_wf d \<Longrightarrow> length (des_buffer d) < des_cursor d + n \<Longrightarrow> readRaw d n = (IoError, replicate n 0, d)"
  by (auto simp: readRaw_def des_wf_def)

lemma readUInt8_Ok [buf_simps]:
  "des_cursor d + 1 \<le> length (des_buffer d) \<Longrightarrow>
   readUInt8 d out = (Ok, slice (des_buffer d) (des_cursor d) 1 ! 0,
     d\<lparr>des_cursor := des_cursor d + 1\<rparr>)"
  by (simp add: readUInt8_def readRaw_Ok)

lemma readUInt16_Ok [buf_simps]:
  "des_cursor d + 2 \<le> length (des_buffer d) \<Longrightarrow>
   readUInt16 d out = (Ok, u16_of_bytes (slice (des_buffer d) (des_cursor d) 2),
     d\<lparr>des_cursor := des_cursor d + 2\<rparr>)"
  by (simp add: readUInt16_def readRaw_Ok)

lemma readUInt32_Ok [buf_simps]:
  "des_cursor d + 4 \<le> length (des_buffer d) \<Longrightarrow>
   readUInt32 d out = (Ok, u32_of_bytes (slice (des_buffer d) (des_cursor d) 4),
     d\<lparr>des_cursor := des_cursor d + 4\<rparr>)"
  by (simp add: readUInt32_def readRaw_Ok)

lemma readUInt64_Ok [buf_simps]:
  "des_cursor d + 8 \<le> length (des_buffer d) \<Longrightarrow>
   readUInt64 d out = (Ok, u64_of_bytes (slice (des_buffer d) (des_cursor d) 8),
     d\<lparr>des_cursor := des_cursor d + 8\<rparr>)"
  by (simp add: readUInt64_def readRaw_Ok)

lemmas read_defs = readUInt8_def readUInt16_def readUInt32_def readUInt64_def readInt32_def
  readBool_def readUUID_def readString_def

lemmas write_defs = writeUInt8_def writeUInt16_def writeUInt32_def writeUInt64_def
  writeInt32_def writeBool_def writeBytes_eq writeUUID_def

subsection \<open>A sequence of values over the wire\<close>

text \<open>
  One constructor per writer.  \<open>write_value\<close> and \<open>read_value\<close> dispatch to the operations;
  a reader is given the shape of the value it expects.
\<close>

datatype wire = WU8 byte | WU16 u16 | WU32 u32 | WU64 u64 | WI32 int | WBool bool
  | WBytes "byte list" | WUUID "byte list" | WString "byte list"

fun wire_wf :: "wire \<Rightarrow> bool" where
  "wire_wf (WI32 i) = (- (2 ^ 31) \<le> i \<and> i < 2 ^ 31)"
| "wire_wf (WUUID u) = (length u = 16)"
| "wire_wf _ = True"

fun write_value :: "Serializer \<Rightarrow> wire \<Rightarrow> Status \<times> Serializer" where
  "write_value s (WU8 v) = writeUInt8 s v"
| "write_value s (WU16 v) = writeUInt16 s v"
| "write_value s (WU32 v) = writeUInt32 s v"
| "write_value s (WU64 v) = writeUInt64 s v"
| "write_value s (WI32 v) = writeInt32 s v"
| "write_value s (WBool v) = writeBool s v"
| "write_value s (WBytes v) = writeBytes s v"
| "write_value s (WUUID v) = writeUUID s v"
| "write_value s (WString v) = writeString s v"

fun read_value :: "Deserializer \<Rightarrow> wire \<Rightarrow> Status \<times> wire \<times> Deserializer" where
  "read_value d (WU8 _) = map_prod id (map_prod WU8 id) (readUInt8 d 0)"
| "read_value d (WU16 _) = map_prod id (map_prod WU16 id) (readUInt16 d 0)"
| "read_value d (WU32 _) = map_prod id (map_prod WU32 id) (readUInt32 d 0)"
| "read_value d (WU64 _) = map_prod id (map_prod WU64 id) (readUInt64 d 0)"
| "read_value d (WI32 _) = map_prod id (map_prod WI32 id) (readInt32 d 0)"
| "read_value d (WBool _) = map_prod id (map_prod WBool id) (readBool d False)"
| "read_value d (WBytes v) = map_prod id (map_prod WBytes id) (readBytes d (length v) [])"
| "read_value d (WUUID _) = map_prod id (map_prod WUUID id) (readUUID d (replicate 16 0))"
| "read_value d (WString _) = map_prod id (map_prod WString id) (readString d [])"

fun write_all :: "Serializer \<Rightarrow> wire list \<Rightarrow> Status \<times> Serializer" where
  "write_all s [] = (Ok, s)"
| "write_all s (v # vs) = and_then (write_value s v) (\<lambda>s1. write_all s1 vs)"

fun read_all :: "Deserializer \<Rightarrow> wire list \<Rightarrow> Status \<times> wire list \<times> Deserializer" where
  "read_all d [] = (Ok, [], d)"
| "read_all d (v # vs) = (case read_value d v of (st, w, d1) \<Rightarrow>
     if st \<noteq> Ok then (st, [], d1)
     else (case read_all d1 vs of (st2, ws, d2) \<Rightarrow> (st2, w # ws, d2)))"

text \<open>The bytes a value occupies.\<close>

fun wire_bytes :: "wire \<Rightarrow> byte list" where
  "wire_bytes (WU8 v) = [v]"
| "wire_bytes (WU16 v) = bytes_of_u16 v"
| "wire_bytes (WU32 v) = bytes_of_u32 v"
| "wire_bytes (WU64 v) = bytes_of_u64 v"
| "wire_bytes (WI32 v) = bytes_of_u32 (word_of_int v)"
| "wire_bytes (WBool v) = [if v then 1 else 0]"
| "wire_bytes (WBytes v) = v"
| "wire_bytes (WUUID v) = take 16 v"
| "wire_bytes (WString v) = bytes_of_u32 (word_of_nat (length v)) @ v"

definition ser_put :: "Serializer \<Rightarrow> byte list \<Rightarrow> Serializer" where
  "ser_put s bs = s\<lparr>ser_buffer := overwrite (ser_buffer s) (ser_cursor s) bs,
                     ser_cursor := ser_cursor s + length bs\<rparr>"

lemma ser_put_simps [simp]:
  "ser_cursor (ser_put s bs) = ser_cursor s + length bs"
  "ser_buffer (ser_put s bs) = overwrite (ser_buffer s) (ser_cursor s) bs"
  by (simp_all add: ser_put_def)

lemma ser_put_mk: "ser_put (mk_Serializer b) xs = \<lparr>ser_buffer = overwrite b 0 xs, ser_cursor = length xs\<rparr>"
  by (simp add: ser_put_def mk_Serializer_def)

lemma ser_put_append:
  "ser_cursor s + length bs + length cs \<le> length (ser_buffer s) \<Longrightarrow>
   ser_put (ser_put s bs) cs = ser_put s (bs @ cs)"
  by (simp add: ser_put_def overwrite_overwrite_adjacent)

lemma ser_put_Nil [simp]: "ser_put s [] = s"
  by (simp add: ser_put_def overwrite_def)

lemma writeRaw_put:
  "ser_cursor s + length src \<le> length (ser_buffer s) \<Longrightarrow> writeRaw s src = (Ok, ser_put s src)"
  by (simp add: writeRaw_Ok ser_put_def)

lemma writeRaw_eq_Ok:
  "ser_wf s \<Longrightarrow> writeRaw s src = (Ok, s') \<longleftrightarrow>
   ser_cursor s + length src \<le> length (ser_buffer s) \<and> s' = ser_put s src"
  by (rule writeRaw_cases [of s src]) (auto simp: ser_put_def)

lemma ser_wf_put:
  "ser_cursor s + length bs \<le> length (ser_buffer s) \<Longrightarrow> ser_wf (ser_put s bs)"
  by (simp add: ser_wf_def)

lemma writeString_eq_Ok:
  assumes "ser_wf s"
  shows "writeString s v = (Ok, s') \<longleftrightarrow> length v < 2 ^ 32 \<and>
    ser_cursor s + (4 + length v) \<le> length (ser_buffer s) \<and>
    s' = ser_put s (bytes_of_u32 (word_of_nat (length v)) @ v)"
proof (cases "length v < 2 ^ 32 \<and> ser_cursor s + 4 \<le> length (ser_buffer s)")
  case True
  then have w: "writeUInt32 s (word_of_nat (length v)) =
      (Ok, ser_put s (bytes_of_u32 (word_of_nat (length v))))"
    by (simp add: writeUInt32_def writeRaw_put)
  from True have "ser_wf (ser_put s (bytes_of_u32 (word_of_nat (length v))))"
    by (simp add: ser_wf_put)
  with True w show ?thesis
    by (cases "v = []")
      (auto simp: writeString_def writeRaw_eq_Ok ser_put_append add.assoc)
next
  case False
  with assms show ?thesis
    by (auto simp: writeString_def and_then_eq_Ok writeUInt32_def writeRaw_eq_Ok)
qed

lemma write_value_eq_Ok:
  assumes "ser_wf s" "wire_wf v"
  shows "write_value s v = (Ok, s') \<longleftrightarrow>
    ser_cursor s + length (wire_bytes v) \<le> length (ser_buffer s) \<and>
    s' = ser_put s (wire_bytes v) \<and> (\<forall>x. v = WString x \<longrightarrow> length x < 2 ^ 32)"
  using assms by (cases v) (auto simp: write_defs writeRaw_eq_Ok writeString_eq_Ok)

lemma write_all_eq_Ok:
  assumes "ser_wf s" "list_all wire_wf vs" "write_all s vs = (Ok, s')"
  shows "ser_cursor s + length (concat (map wire_bytes vs)) \<le> length (ser_buffer s) \<and>
    s' = ser_put s (concat (map wire_bytes vs)) \<and>
    (\<forall>x. WString x \<in> set vs \<longrightarrow> length x < 2 ^ 32)"
  using assms
proof (induction vs arbitrary: s)
  case Nil
  then show ?case by (simp add: ser_wf_def)
next
  case (Cons v vs)
  then have len: "ser_cursor s + length (wire_bytes v) \<le> length (ser_buffer s)"
    and str: "\<forall>x. v = WString x \<longrightarrow> length x < 2 ^ 32"
    and rest: "write_all (ser_put s (wire_bytes v)) vs = (Ok, s')"
    by (auto simp: and_then_eq_Ok write_value_eq_Ok)
  from Cons.IH [OF ser_wf_put [OF len] _ rest] Cons.prems(2) len str show ?case
    by (auto simp: ser_put_append)
qed

lemma take_16_self [simp]: "length u = 16 \<Longrightarrow> take 16 u = u"
  by simp

lemma readString_Ok:
  assumes "des_cursor d + (4 + length v) \<le> length (des_buffer d)" "length v < 2 ^ 32"
    "slice (des_buffer d) (des_cursor d) (4 + length v) = bytes_of_u32 (word_of_nat (length v)) @ v"
  shows "readString d out = (Ok, v, d\<lparr>des_cursor := des_cursor d + (4 + length v)\<rparr>)"
proof -
  let ?b = "des_buffer d" and ?c = "des_cursor d"
  have "slice ?b ?c 4 = slice (slice ?b ?c (4 + length v)) 0 4"
    by (simp add: slice_slice)
  then have len: "slice ?b ?c 4 = bytes_of_u32 (word_of_nat (length v))"
    by (simp add: assms(3) slice_append_left)
  have "slice ?b (?c + 4) (length v) = slice (slice ?b ?c (4 + length v)) 4 (length v)"
    by (simp add: slice_slice)
  then have str: "slice ?b (?c + 4) (length v) = v"
    by (simp add: assms(3) slice_append_right)
  have "unat (word_of_nat (length v) :: u32) = length v"
    using assms(2) by (simp add: unat_of_nat take_bit_nat_eq_self)
  then show ?thesis
    using assms(1) len str
    by (simp add: readString_def readUInt32_def readRaw_Ok u32_roundtrip add.assoc)
qed

lemma read_value_Ok:
  assumes "des_cursor d + length (wire_bytes v) \<le> length (des_buffer d)" "wire_wf v"
    "slice (des_buffer d) (des_cursor d) (length (wire_bytes v)) = wire_bytes v"
    "\<forall>x. v = WString x \<longrightarrow> length x < 2 ^ 32"
  shows "read_value d v = (Ok, v, d\<lparr>des_cursor := des_cursor d + length (wire_bytes v)\<rparr>)"
proof (cases v)
  case (WI32 i)
  with assms have "sint (word_of_int i :: u32) = i"
    by (auto simp: signed_of_int signed_take_bit_int_eq_self)
  with WI32 assms show ?thesis
    by (simp add: read_defs readRaw_Ok u32_roundtrip)
next
  case (WString x)
  with assms show ?thesis by (simp add: readString_Ok)
qed (use assms in \<open>auto simp: read_defs readBytes_def readRaw_Ok u16_roundtrip u32_roundtrip u64_roundtrip\<close>)

lemma read_all_Ok:
  assumes "des_cursor d + length (concat (map wire_bytes vs)) \<le> length (des_buffer d)"
    "list_all wire_wf vs"
    "slice (des_buffer d) (des_cursor d) (length (concat (map wire_bytes vs))) = concat (map wire_bytes vs)"
    "\<forall>x. WString x \<in> set vs \<longrightarrow> length x < 2 ^ 32"
  shows "read_all d vs =
    (Ok, vs, d\<lparr>des_cursor := des_cursor d + length (concat (map wire_bytes vs))\<rparr>)"
  using assms
proof (induction vs arbitrary: d)
  case Nil
  then show ?case by simp
next
  case (Cons v vs)
  let ?b = "des_buffer d" and ?c = "des_cursor d"
  let ?n = "length (wire_bytes v)" and ?m = "length (concat (map wire_bytes vs))"
  have all: "slice ?b ?c (?n + ?m) = wire_bytes v @ concat (map wire_bytes vs)"
    using Cons.prems(3) by simp
  have "slice ?b ?c ?n = slice (slice ?b ?c (?n + ?m)) 0 ?n"
    by (simp add: slice_slice)
  then have hd: "slice ?b ?c ?n = wire_bytes v"
    by (simp add: all slice_append_left)
  have "slice ?b (?c + ?n) ?m = slice (slice ?b ?c (?n + ?m)) ?n ?m"
    by (simp add: slice_slice)
  then have tl: "slice ?b (?c + ?n) ?m = concat (map wire_bytes vs)"
    by (simp add: all slice_append_right)
  have v: "read_value d v = (Ok, v, d\<lparr>des_cursor := ?c + ?n\<rparr>)"
    using Cons.prems hd by (intro read_value_Ok) auto
  have "read_all (d\<lparr>des_cursor := ?c + ?n\<rparr>) vs = (Ok, vs, d\<lparr>des_cursor := ?c + ?n + ?m\<rparr>)"
    using Cons.prems tl Cons.IH [of "d\<lparr>des_cursor := ?c + ?n\<rparr>"] by (simp add: add.assoc)
  with v show ?case by (simp add: add.assoc)
qed

lemma write_all_fits:
  assumes "ser_wf s" "list_all wire_wf vs" "\<forall>x. WString x \<notin> set vs"
    "ser_cursor s + length (concat (map wire_bytes vs)) \<le> length (ser_buffer s)"
  shows "write_all s vs = (Ok, ser_put s (concat (map wire_bytes vs)))"
  using assms
proof (induction vs arbitrary: s)
  case (Cons v vs)
  have "write_value s v = (Ok, ser_put s (wire_bytes v))"
    using Cons.prems write_value_eq_Ok [of s v "ser_put s (wire_bytes v)"] by auto
  moreover have "write_all (ser_put s (wire_bytes v)) vs =
      (Ok, ser_put (ser_put s (wire_bytes v)) (concat (map wire_bytes vs)))"
    by (rule Cons.IH) (use Cons.prems in \<open>auto simp: ser_wf_put add.assoc\<close>)
  ultimately show ?case using Cons.prems by (simp add: ser_put_append add.assoc)
qed simp

text \<open>The bytes that lie ahead of a deserializer, and reading one value off them.\<close>

definition ahead :: "Deserializer \<Rightarrow> byte list \<Rightarrow> bool" where
  "ahead d bs = (des_cursor d + length bs \<le> length (des_buffer d)
     \<and> slice (des_buffer d) (des_cursor d) (length bs) = bs)"

definition des_skip :: "Deserializer \<Rightarrow> nat \<Rightarrow> Deserializer" where
  "des_skip d n = d\<lparr>des_cursor := des_cursor d + n\<rparr>"

lemma skip_skip: "des_skip (des_skip d m) n = des_skip d (m + n)"
  by (simp add: des_skip_def)

lemma ahead_append:
  assumes "ahead d (a @ b)"
  shows "ahead d a" "ahead (des_skip d (length a)) b"
proof -
  let ?s = "slice (des_buffer d) (des_cursor d) (length a + length b)"
  have s: "?s = a @ b" using assms by (simp add: ahead_def)
  have "slice ?s 0 (length a) = a" "slice ?s (length a) (length b) = b"
    by (simp_all add: s slice_append_left slice_append_right)
  then show "ahead d a" "ahead (des_skip d (length a)) b"
    using assms by (simp_all add: ahead_def des_skip_def slice_slice)
qed

lemma read_ahead:
  "ahead d (bytes_of_u32 a) \<Longrightarrow> readUInt32 d o1 = (Ok, a, des_skip d 4)"
  "ahead d [b] \<Longrightarrow> readUInt8 d o2 = (Ok, b, des_skip d (Suc 0))"
  "ahead d (bytes_of_u64 c) \<Longrightarrow> readUInt64 d o3 = (Ok, c, des_skip d 8)"
  "ahead d (bytes_of_u16 e) \<Longrightarrow> readUInt16 d o4 = (Ok, e, des_skip d 2)"
  "ahead d bs \<Longrightarrow> readBytes d (length bs) o5 = (Ok, bs, des_skip d (length bs))"
  by (auto simp: ahead_def des_skip_def read_defs readBytes_def readRaw_Ok u16_roundtrip u32_roundtrip u64_roundtrip)

lemma read_next:
  "ahead d (bytes_of_u32 a @ rest) \<Longrightarrow> readUInt32 d o1 = (Ok, a, des_skip d 4)"
  "ahead d (b # rest) \<Longrightarrow> readUInt8 d o2 = (Ok, b, des_skip d (Suc 0))"
  "ahead d (bytes_of_u64 c @ rest) \<Longrightarrow> readUInt64 d o3 = (Ok, c, des_skip d 8)"
  "ahead d (bytes_of_u16 e @ rest) \<Longrightarrow> readUInt16 d o4 = (Ok, e, des_skip d 2)"
  "ahead d (bs @ rest) \<Longrightarrow> n = length bs \<Longrightarrow> readBytes d n o5 = (Ok, bs, des_skip d n)"
  using ahead_append(1) [of d "bytes_of_u32 a" rest] ahead_append(1) [of d "[b]" rest]
    ahead_append(1) [of d "bytes_of_u64 c" rest] ahead_append(1) [of d "bytes_of_u16 e" rest]
    ahead_append(1) [of d bs rest] by (simp_all add: read_ahead)

lemma ahead_rest:
  "ahead d (bytes_of_u32 a @ rest) \<Longrightarrow> ahead (des_skip d 4) rest"
  "ahead d (b # rest) \<Longrightarrow> ahead (des_skip d (Suc 0)) rest"
  "ahead d (bytes_of_u64 c @ rest) \<Longrightarrow> ahead (des_skip d 8) rest"
  "ahead d (bytes_of_u16 e @ rest) \<Longrightarrow> ahead (des_skip d 2) rest"
  "ahead d (bs @ rest) \<Longrightarrow> n = length bs \<Longrightarrow> ahead (des_skip d n) rest"
  using ahead_append(2) [of d "bytes_of_u32 a" rest] ahead_append(2) [of d "[b]" rest]
    ahead_append(2) [of d "bytes_of_u64 c" rest] ahead_append(2) [of d "bytes_of_u16 e" rest]
    ahead_append(2) [of d bs rest] by simp_all

text \<open>
  C8. Whatever sequence of values a \<open>Serializer\<close> accepts (every write returned \<open>Ok\<close>), a
  \<open>Deserializer\<close> placed on the same buffer at the position where writing began reads the
  same values back, all with \<open>Ok\<close>, and stops at the position where the writer stopped.
\<close>

theorem serializer_deserializer_roundtrip:
  assumes "ser_wf s" "list_all wire_wf vs" "write_all s vs = (Ok, s')"
  shows "read_all \<lparr>des_buffer = ser_buffer s', des_cursor = ser_position s\<rparr> vs =
    (Ok, vs, \<lparr>des_buffer = ser_buffer s', des_cursor = ser_position s'\<rparr>)"
proof -
  let ?bs = "concat (map wire_bytes vs)"
  from write_all_eq_Ok [OF assms]
  have len: "ser_cursor s + length ?bs \<le> length (ser_buffer s)"
    and s': "s' = ser_put s ?bs"
    and str: "\<forall>x. WString x \<in> set vs \<longrightarrow> length x < 2 ^ 32" by auto
  have "slice (ser_buffer s') (ser_cursor s) (length ?bs) = ?bs"
    using len by (simp add: s' slice_overwrite_same)
  with len str assms(2) show ?thesis
    using read_all_Ok [of "\<lparr>des_buffer = ser_buffer s', des_cursor = ser_cursor s\<rparr>" vs]
    by (simp add: s' ser_position_def)
qed

theorem serializer_deserializer_roundtrip_witness:
  "read_all \<lparr>des_buffer = [0, 0x34, 0x12, 2, 0, 0, 0, 0x68, 0x69, 0], des_cursor = 1\<rparr>
     [WU16 0x1234, WString [0x68, 0x69]] =
   (Ok, [WU16 0x1234, WString [0x68, 0x69]],
    \<lparr>des_buffer = [0, 0x34, 0x12, 2, 0, 0, 0, 0x68, 0x69, 0], des_cursor = 9\<rparr>)"
proof -
  let ?s = "\<lparr>ser_buffer = [0, 0, 0, 0, 0, 0, 0, 0, 0, 0], ser_cursor = 1\<rparr>"
  let ?s' = "\<lparr>ser_buffer = [0, 0x34, 0x12, 2, 0, 0, 0, 0x68, 0x69, 0], ser_cursor = 9\<rparr>"
  have "write_all ?s [WU16 0x1234, WString [0x68, 0x69]] = (Ok, ?s')"
    by (simp add: writeUInt16_def writeString_def writeUInt32_def writeRaw_def overwrite_def
      bytes_of_u16_def bytes_of_u32_def)
  moreover have "ser_wf ?s" by (simp add: ser_wf_def)
  ultimately show ?thesis
    using serializer_deserializer_roundtrip [of ?s "[WU16 0x1234, WString [0x68, 0x69]]" ?s']
    by (simp add: ser_position_def)
qed

text \<open>
  A read that fails reports \<open>IoError\<close> and leaves the deserializer exactly as it was
  (also \<open>readString\<close>, which has consumed the length prefix by then and puts the cursor
  back); a read that succeeds reports \<open>Ok\<close> and keeps the cursor inside the buffer.
\<close>

theorem deserializer_failure_atomic:
  assumes "des_wf d" "read_value d v = (st, w, d')"
  shows "st = Ok \<and> des_wf d' \<or> st = IoError \<and> d' = d"
  using assms
  by (cases v) (auto simp: read_defs readBytes_def readRaw_def des_wf_def split: if_splits)

theorem deserializer_failure_atomic_witness:
  "read_value \<lparr>des_buffer = [9, 0, 0, 0, 1], des_cursor = 0\<rparr> (WString []) =
    (IoError, WString [], \<lparr>des_buffer = [9, 0, 0, 0, 1], des_cursor = 0\<rparr>) \<and>
   (IoError = Ok \<and> des_wf \<lparr>des_buffer = [9, 0, 0, 0, 1], des_cursor = 0\<rparr> \<or>
    IoError = IoError \<and> \<lparr>des_buffer = [9, 0, 0, 0, 1], des_cursor = 0\<rparr> =
      \<lparr>des_buffer = [9, 0, 0, 0, 1 :: byte], des_cursor = 0\<rparr>)"
proof -
  let ?d = "\<lparr>des_buffer = [9, 0, 0, 0, 1 :: byte], des_cursor = 0\<rparr>"
  have wf: "des_wf ?d" by (simp add: des_wf_def)
  have rd: "read_value ?d (WString []) = (IoError, WString [], ?d)"
    by (simp add: readString_def readUInt32_def readRaw_def slice_def u32_of_bytes_def)
  show ?thesis using rd deserializer_failure_atomic [OF wf rd] by blast
qed

end
