(* ===== verification/Pages.thy ===== *)
theory Pages
  imports Serde
begin

text \<open>
  The in-memory objects of the storage layer: \<^verbatim>\<open>PageHeader\<close>, \<^verbatim>\<open>Page\<close>,
  \<^verbatim>\<open>RID\<close>, \<^verbatim>\<open>TupleSlot\<close>, \<^verbatim>\<open>SlottedPageHeader\<close> and \<^verbatim>\<open>Tuple\<close>
  (\<^verbatim>\<open>src/storage/page.cpp\<close>, \<^verbatim>\<open>page_header.cpp\<close>, \<^verbatim>\<open>rid.cpp\<close>,
  \<^verbatim>\<open>tuple_slot.cpp\<close>, \<^verbatim>\<open>tuple.cpp\<close>).  A \<open>Tuple\<close> is the byte vector it owns.
\<close>

type_synonym Tuple = "byte list"
type_synonym SlotId = u16

record PageHeader =
  page_lsn :: u64
  page_id :: PageId
  page_type :: PageType
  free_space_ptr :: u16
  slot_count :: u16
  checksum :: u32

definition default_PageHeader :: PageHeader where
  "default_PageHeader = \<lparr>page_lsn = 0, page_id = kInvalidPageId, page_type = Free,
     free_space_ptr = 0, slot_count = 0, checksum = 0\<rparr>"

definition mk_PageHeader :: "PageId \<Rightarrow> PageType \<Rightarrow> PageHeader" where
  "mk_PageHeader i t = default_PageHeader\<lparr>page_id := i, page_type := t\<rparr>"

text \<open>\<open>pg_data\<close> is a \<open>std::array\<close> of \<open>kPageSize\<close> bytes: \<open>wf_Page\<close> states its length.\<close>

record Page =
  pg_data :: "byte list"
  pg_header :: PageHeader

definition wf_Page :: "Page \<Rightarrow> bool" where
  "wf_Page p = (length (pg_data p) = kPageSize)"

definition default_Page :: Page where
  "default_Page = \<lparr>pg_data = replicate kPageSize 0, pg_header = default_PageHeader\<rparr>"

definition mk_Page :: "PageHeader \<Rightarrow> Page" where
  "mk_Page h = \<lparr>pg_data = replicate kPageSize 0, pg_header = h\<rparr>"

definition body :: "Page \<Rightarrow> byte list" where
  "body p = drop kPageHeaderSize (pg_data p)"

text \<open>Writing through the span \<open>body()\<close> returns.\<close>

definition set_body :: "Page \<Rightarrow> byte list \<Rightarrow> Page" where
  "set_body p b = p\<lparr>pg_data := take kPageHeaderSize (pg_data p) @ b\<rparr>"

definition Page_clear :: "Page \<Rightarrow> Page" where
  "Page_clear p = p\<lparr>pg_data := replicate (length (pg_data p)) 0, pg_header := default_PageHeader\<rparr>"

definition Page_id :: "Page \<Rightarrow> PageId" where
  "Page_id p = page_id (pg_header p)"

lemma wf_Page_simps [simp]:
  "wf_Page default_Page" "wf_Page (mk_Page h)" "wf_Page p \<Longrightarrow> wf_Page (Page_clear p)"
  "wf_Page (p\<lparr>pg_header := h\<rparr>) = wf_Page p"
  by (simp_all add: wf_Page_def default_Page_def mk_Page_def Page_clear_def)

lemma mk_Page_header [simp]: "pg_header (mk_Page h) = h" "page_type (mk_PageHeader i t) = t"
  "page_id (mk_PageHeader i t) = i"
  by (simp_all add: mk_Page_def mk_PageHeader_def)

lemma length_body [simp]: "wf_Page p \<Longrightarrow> length (body p) = kPageBodySize"
  by (simp add: wf_Page_def body_def page_consts)

lemma set_body_simps [simp]:
  "pg_header (set_body p b) = pg_header p"
  "wf_Page p \<Longrightarrow> body (set_body p b) = b"
  "wf_Page p \<Longrightarrow> wf_Page (set_body p b) \<longleftrightarrow> length b = kPageBodySize"
  by (auto simp: set_body_def body_def wf_Page_def page_consts)

lemma body_header_update [simp]: "body (p\<lparr>pg_header := h\<rparr>) = body p"
  by (simp add: body_def)

lemma set_body_set_body [simp]: "wf_Page p \<Longrightarrow> set_body (set_body p b) c = set_body p c"
  by (simp add: set_body_def wf_Page_def page_consts)

subsection \<open>Record identifiers\<close>

record RID =
  rid_page_id :: PageId
  rid_slot_id :: u16

definition mk_RID :: "PageId \<Rightarrow> u16 \<Rightarrow> RID" where
  "mk_RID p s = \<lparr>rid_page_id = p, rid_slot_id = s\<rparr>"

definition default_RID :: RID where
  "default_RID = mk_RID kInvalidPageId 0"

definition RID_isValid :: "RID \<Rightarrow> bool" where
  "RID_isValid r = (rid_page_id r \<noteq> kInvalidPageId)"

definition RID_less :: "RID \<Rightarrow> RID \<Rightarrow> bool" where
  "RID_less a b = (if rid_page_id a \<noteq> rid_page_id b then rid_page_id a < rid_page_id b
     else rid_slot_id a < rid_slot_id b)"

definition RID_less_eq :: "RID \<Rightarrow> RID \<Rightarrow> bool" where
  "RID_less_eq a b = (\<not> RID_less b a)"

lemma mk_RID_simps [simp]:
  "rid_page_id (mk_RID p s) = p" "rid_slot_id (mk_RID p s) = s"
  "mk_RID p s = mk_RID q t \<longleftrightarrow> p = q \<and> s = t"
  "mk_RID (rid_page_id r) (rid_slot_id r) = r"
  by (simp_all add: mk_RID_def)

subsection \<open>Slot directory entries\<close>

record TupleSlot =
  slot_offset :: u16
  slot_length :: u16
  slot_flags :: u16
  slot_reserved :: u16

definition kFlagDeleted :: u16 where "kFlagDeleted = 1"

definition default_TupleSlot :: TupleSlot where
  "default_TupleSlot = \<lparr>slot_offset = 0, slot_length = 0, slot_flags = 0, slot_reserved = 0\<rparr>"

definition mk_TupleSlot :: "u16 \<Rightarrow> u16 \<Rightarrow> TupleSlot" where
  "mk_TupleSlot off len = \<lparr>slot_offset = off, slot_length = len, slot_flags = 0, slot_reserved = 0\<rparr>"

definition isDeleted :: "TupleSlot \<Rightarrow> bool" where
  "isDeleted s = (slot_flags s AND kFlagDeleted \<noteq> 0)"

definition markDeleted :: "TupleSlot \<Rightarrow> TupleSlot" where
  "markDeleted s = s\<lparr>slot_flags := slot_flags s OR kFlagDeleted\<rparr>"

definition clearDeleted :: "TupleSlot \<Rightarrow> TupleSlot" where
  "clearDeleted s = s\<lparr>slot_flags := slot_flags s AND NOT kFlagDeleted\<rparr>"

lemma isDeleted_mk [simp]: "\<not> isDeleted (mk_TupleSlot off len)"
  by (simp add: isDeleted_def mk_TupleSlot_def)

lemma isDeleted_mark [simp]: "isDeleted (markDeleted s)"
proof -
  have "bit ((slot_flags s OR 1) AND 1) 0" by (simp add: bit_simps)
  then show ?thesis unfolding isDeleted_def markDeleted_def kFlagDeleted_def by auto
qed

lemma isDeleted_clear [simp]: "\<not> isDeleted (clearDeleted s)"
  by (simp add: isDeleted_def clearDeleted_def kFlagDeleted_def and.assoc)

lemma isDeleted_offset [simp]: "isDeleted (s\<lparr>slot_offset := x\<rparr>) = isDeleted s"
  by (simp add: isDeleted_def)

text \<open>Eight bytes per directory entry.\<close>

definition enc_slot :: "TupleSlot \<Rightarrow> byte list" where
  "enc_slot s = bytes_of_u16 (slot_offset s) @ bytes_of_u16 (slot_length s) @
     bytes_of_u16 (slot_flags s) @ bytes_of_u16 (slot_reserved s)"

definition dec_slot :: "byte list \<Rightarrow> TupleSlot" where
  "dec_slot bs = \<lparr>slot_offset = u16_of_bytes (slice bs 0 2), slot_length = u16_of_bytes (slice bs 2 2),
     slot_flags = u16_of_bytes (slice bs 4 2), slot_reserved = u16_of_bytes (slice bs 6 2)\<rparr>"

lemma slice_append_at: "length xs = k \<Longrightarrow> n \<le> length ys \<Longrightarrow> slice (xs @ ys) k n = take n ys"
  by (simp add: slice_def)

interpretation cslot: byte_codec enc_slot dec_slot 8
  by unfold_locales
    (simp_all add: enc_slot_def dec_slot_def slice_append_left slice_append_right u16_roundtrip)

subsection \<open>The slotted-page header\<close>

record SlottedPageHeader =
  tuple_count :: u16
  free_space_start :: u16
  free_space_end :: u16
  sph_reserved :: u16
  prev_page_id :: PageId
  next_page_id :: PageId

definition enc_sph :: "SlottedPageHeader \<Rightarrow> byte list" where
  "enc_sph h = bytes_of_u16 (tuple_count h) @ bytes_of_u16 (free_space_start h) @
     bytes_of_u16 (free_space_end h) @ bytes_of_u16 (sph_reserved h) @
     bytes_of_u32 (prev_page_id h) @ bytes_of_u32 (next_page_id h)"

definition dec_sph :: "byte list \<Rightarrow> SlottedPageHeader" where
  "dec_sph bs = \<lparr>tuple_count = u16_of_bytes (slice bs 0 2),
     free_space_start = u16_of_bytes (slice bs 2 2),
     free_space_end = u16_of_bytes (slice bs 4 2), sph_reserved = u16_of_bytes (slice bs 6 2),
     prev_page_id = u32_of_bytes (slice bs 8 4), next_page_id = u32_of_bytes (slice bs 12 4)\<rparr>"

interpretation csph: byte_codec enc_sph dec_sph 16
  by unfold_locales
    (simp_all add: enc_sph_def dec_sph_def slice_append_left slice_append_right
      u16_roundtrip u32_roundtrip)

lemmas slot_codec_simps = cslot.enc_length cslot.dec_enc csph.enc_length csph.dec_enc

declare cslot.enc_length [simp] csph.enc_length [simp]

end
