(* ===== verification/SlottedPage.thy ===== *)
theory SlottedPage
  imports Pages
begin

text \<open>
  \<^verbatim>\<open>SlottedPage\<close> (\<^verbatim>\<open>src/storage/slotted_page.cpp\<close>): the slotted record format
  over a page body.  Each operation works on the bytes of the body through the serializer,
  as the source does; \<open>None\<close> is an access outside of the body.  \<open>slots_of\<close> abstracts a
  page to the list of its slots, each deleted (\<open>None\<close>) or holding a tuple, and the
  refinement theorems say what every operation does to that list.
\<close>

abbreviation kSlotSize :: nat where "kSlotSize \<equiv> 8"
abbreviation kSpHeaderSize :: nat where "kSpHeaderSize \<equiv> 16"

definition slotOffset :: "u16 \<Rightarrow> nat" where
  "slotOffset idx = kSpHeaderSize + unat idx * kSlotSize"

definition upd_header :: "(PageHeader \<Rightarrow> PageHeader) \<Rightarrow> Page \<Rightarrow> Page" where
  "upd_header f p = p\<lparr>pg_header := f (pg_header p)\<rparr>"

subsection \<open>Header and slot input/output\<close>

definition readSpHeader :: "Page \<Rightarrow> SlottedPageHeader" where
  "readSpHeader p =
    (let (_, tc, d1) = readUInt16 (mk_Deserializer (slice (body p) 0 kSpHeaderSize)) 0;
         (_, fss, d2) = readUInt16 d1 tc;
         (_, fse, d3) = readUInt16 d2 fss;
         (_, res, d4) = readUInt16 d3 fse;
         (_, prv, d5) = readUInt32 d4 0;
         (_, nxt, d6) = readUInt32 d5 prv
     in \<lparr>tuple_count = tc, free_space_start = fss, free_space_end = fse, sph_reserved = res,
         prev_page_id = prv, next_page_id = nxt\<rparr>)"

definition writeSpHeader :: "Page \<Rightarrow> SlottedPageHeader \<Rightarrow> Page" where
  "writeSpHeader p h =
    (let s0 = mk_Serializer (slice (body p) 0 kSpHeaderSize);
         s1 = snd (writeUInt16 s0 (tuple_count h));
         s2 = snd (writeUInt16 s1 (free_space_start h));
         s3 = snd (writeUInt16 s2 (free_space_end h));
         s4 = snd (writeUInt16 s3 (sph_reserved h));
         s5 = snd (writeUInt32 s4 (prev_page_id h));
         s6 = snd (writeUInt32 s5 (next_page_id h))
     in set_body p (overwrite (body p) 0 (ser_buffer s6)))"

definition readSlot :: "Page \<Rightarrow> u16 \<Rightarrow> TupleSlot option" where
  "readSlot p idx = do {
     v \<leftarrow> view (body p) (slotOffset idx) kSlotSize;
     let (_, off, d1) = readUInt16 (mk_Deserializer v) 0;
     let (_, len, d2) = readUInt16 d1 off;
     let (_, flg, d3) = readUInt16 d2 len;
     let (_, res, d4) = readUInt16 d3 flg;
     Some \<lparr>slot_offset = off, slot_length = len, slot_flags = flg, slot_reserved = res\<rparr>
   }"

definition writeSlot :: "Page \<Rightarrow> u16 \<Rightarrow> TupleSlot \<Rightarrow> Page option" where
  "writeSlot p idx slot = do {
     v \<leftarrow> view (body p) (slotOffset idx) kSlotSize;
     let s1 = snd (writeUInt16 (mk_Serializer v) (slot_offset slot));
     let s2 = snd (writeUInt16 s1 (slot_length slot));
     let s3 = snd (writeUInt16 s2 (slot_flags slot));
     let s4 = snd (writeUInt16 s3 (slot_reserved slot));
     Some (set_body p (overwrite (body p) (slotOffset idx) (ser_buffer s4)))
   }"

subsection \<open>Operations\<close>

definition SlottedPage_initialize :: "Page \<Rightarrow> Status \<times> Page" where
  "SlottedPage_initialize p =
    (let p1 = set_body p (replicate kPageBodySize 0);
         h = \<lparr>tuple_count = 0, free_space_start = word_of_nat kSpHeaderSize,
              free_space_end = word_of_nat kPageBodySize, sph_reserved = 0,
              prev_page_id = kInvalidPageId, next_page_id = kInvalidPageId\<rparr>;
         p2 = writeSpHeader p1 h
     in (Ok, upd_header (\<lambda>g. g\<lparr>slot_count := 0, free_space_ptr := free_space_start h\<rparr>) p2))"

text \<open>The scan for a deleted slot: \<open>Some None\<close> when every slot of the list is live.\<close>

fun find_deleted :: "Page \<Rightarrow> nat list \<Rightarrow> nat option option" where
  "find_deleted p [] = Some None"
| "find_deleted p (i # is) = do {
     s \<leftarrow> readSlot p (word_of_nat i);
     if isDeleted s then Some (Some i) else find_deleted p is
   }"

definition sp_available :: "SlottedPageHeader \<Rightarrow> nat" where
  "sp_available h = size_t_of_int (uint (free_space_end h) - uint (free_space_start h))"

text \<open>Tuple bytes go to the high end of the free zone.\<close>

definition place_tuple :: "Page \<Rightarrow> SlottedPageHeader \<Rightarrow> Tuple \<Rightarrow> (u16 \<times> Page) option" where
  "place_tuple p h t = do {
     let tlen = (word_of_nat (length t) :: u16);
     let nfe = free_space_end h - tlen;
     dest \<leftarrow> view (body p) (unat nfe) (unat tlen);
     let s = snd (writeBytes (mk_Serializer dest) t);
     Some (nfe, set_body p (overwrite (body p) (unat nfe) (ser_buffer s)))
   }"

definition SlottedPage_insertTuple :: "Page \<Rightarrow> Tuple \<Rightarrow> SlotId \<Rightarrow> (Status \<times> SlotId \<times> Page) option" where
  "SlottedPage_insertTuple p t sid =
    (if t = [] then Some (InvalidArg, sid, p) else do {
       let h = readSpHeader p;
       let sc = slot_count (pg_header p);
       reuse \<leftarrow> find_deleted p [0..<unat sc];
       let needed_total = length t + (if reuse = None then kSlotSize else 0);
       if needed_total > sp_available h then Some (IoError, sid, p) else do {
         (nfe, p1) \<leftarrow> place_tuple p h t;
         let new_slot = mk_TupleSlot nfe (word_of_nat (length t));
         (sid1, h1, p2) \<leftarrow> (case reuse of
             Some i \<Rightarrow> do {
               p2 \<leftarrow> writeSlot p1 (word_of_nat i) new_slot;
               Some (word_of_nat i, h, p2) }
           | None \<Rightarrow> do {
               p2 \<leftarrow> writeSlot p1 sc new_slot;
               Some (sc, h\<lparr>free_space_start := free_space_start h + word_of_nat kSlotSize\<rparr>,
                     upd_header (\<lambda>g. g\<lparr>slot_count := sc + 1\<rparr>) p2) });
         let h2 = h1\<lparr>free_space_end := nfe, tuple_count := tuple_count h1 + 1\<rparr>;
         let p3 = writeSpHeader p2 h2;
         Some (Ok, sid1, upd_header (\<lambda>g. g\<lparr>free_space_ptr := free_space_start h2\<rparr>) p3)
       }
     })"

text \<open>Marking the slots \<open>[slot_count, slot_id]\<close> as deleted before the last one is filled.\<close>

fun write_empty_slots :: "Page \<Rightarrow> nat list \<Rightarrow> Page option" where
  "write_empty_slots p [] = Some p"
| "write_empty_slots p (i # is) = do {
     p1 \<leftarrow> writeSlot p (word_of_nat i) (markDeleted default_TupleSlot);
     write_empty_slots p1 is
   }"

definition SlottedPage_insertTupleAtSlot :: "Page \<Rightarrow> SlotId \<Rightarrow> Tuple \<Rightarrow> (Status \<times> Page) option" where
  "SlottedPage_insertTupleAtSlot p sid t =
    (if t = [] then Some (InvalidArg, p) else do {
       let h = readSpHeader p;
       let sc = slot_count (pg_header p);
       let new_slots = kSlotSize * (unat sid - unat sc + 1);
       let needed_total = length t + (if sid \<ge> sc then new_slots else 0);
       if needed_total > sp_available h then Some (IoError, p) else do {
         (nfe, p1) \<leftarrow> place_tuple p h t;
         let new_slot = mk_TupleSlot nfe (word_of_nat (length t));
         (h1, p3) \<leftarrow> (if sid \<ge> sc then do {
               p2 \<leftarrow> write_empty_slots p1 [unat sc..<Suc (unat sid)];
               p3 \<leftarrow> writeSlot p2 sid new_slot;
               Some (h\<lparr>free_space_start := free_space_start h + word_of_nat new_slots\<rparr>,
                     upd_header (\<lambda>g. g\<lparr>slot_count := sid + 1\<rparr>) p3) }
             else do {
               old_slot \<leftarrow> readSlot p1 sid;
               p3 \<leftarrow> writeSlot p1 sid new_slot;
               Some (if isDeleted old_slot then h
                     else h\<lparr>tuple_count := tuple_count h - 1\<rparr>, p3) });
         let h2 = h1\<lparr>free_space_end := nfe, tuple_count := tuple_count h1 + 1\<rparr>;
         let p4 = writeSpHeader p3 h2;
         Some (Ok, upd_header (\<lambda>g. g\<lparr>free_space_ptr := free_space_start h2\<rparr>) p4)
       }
     })"

definition SlottedPage_updateTuple :: "Page \<Rightarrow> SlotId \<Rightarrow> Tuple \<Rightarrow> (Status \<times> Page) option" where
  "SlottedPage_updateTuple p sid t =
    (if t = [] then Some (InvalidArg, p)
     else if sid \<ge> slot_count (pg_header p) then Some (NotFound, p) else do {
       old_slot \<leftarrow> readSlot p sid;
       if isDeleted old_slot then Some (InvalidArg, p) else do {
         let h = readSpHeader p;
         if length t > sp_available h then Some (IoError, p) else do {
           (nfe, p1) \<leftarrow> place_tuple p h t;
           p2 \<leftarrow> writeSlot p1 sid (mk_TupleSlot nfe (word_of_nat (length t)));
           Some (Ok, writeSpHeader p2 (h\<lparr>free_space_end := nfe\<rparr>))
         }
       }
     })"

definition SlottedPage_deleteTuple :: "Page \<Rightarrow> SlotId \<Rightarrow> (Status \<times> Page) option" where
  "SlottedPage_deleteTuple p sid =
    (if sid \<ge> slot_count (pg_header p) then Some (NotFound, p) else do {
       slot \<leftarrow> readSlot p sid;
       if isDeleted slot then Some (InvalidArg, p) else do {
         p1 \<leftarrow> writeSlot p sid (markDeleted slot);
         let h = readSpHeader p1;
         Some (Ok, writeSpHeader p1 (h\<lparr>tuple_count := tuple_count h - 1\<rparr>))
       }
     })"

text \<open>
  The loop of \<open>compact\<close> over the slots of the given list (the source walks them from the
  last to the first): state is the page, the scratch buffer and the write pointer.
\<close>

fun compact_loop :: "Page \<Rightarrow> byte list \<Rightarrow> u16 \<Rightarrow> nat list \<Rightarrow> (Page \<times> byte list \<times> u16) option" where
  "compact_loop p scratch wp [] = Some (p, scratch, wp)"
| "compact_loop p scratch wp (i # is) = do {
     slot \<leftarrow> readSlot p (word_of_nat i);
     if isDeleted slot then compact_loop p scratch wp is else do {
       let wp1 = wp - slot_length slot;
       src \<leftarrow> view (body p) (unat (slot_offset slot)) (unat (slot_length slot));
       _ \<leftarrow> view scratch (unat wp1) (unat (slot_length slot));
       p1 \<leftarrow> writeSlot p (word_of_nat i) (slot\<lparr>slot_offset := wp1\<rparr>);
       compact_loop p1 (overwrite scratch (unat wp1) src) wp1 is
     }
   }"

definition SlottedPage_compact :: "Page \<Rightarrow> (Status \<times> nat \<times> Page) option" where
  "SlottedPage_compact p = do {
     let h = readSpHeader p;
     (p1, scratch, wp) \<leftarrow> compact_loop p (replicate kPageBodySize 0) (word_of_nat kPageBodySize)
         (rev [0..<unat (slot_count (pg_header p))]);
     let old_end = free_space_end h;
     let reclaimed = (if wp \<ge> old_end then unat wp - unat old_end else 0);
     let p2 = set_body p1 (take (unat wp) (body p1) @ drop (unat wp) scratch);
     Some (Ok, reclaimed, writeSpHeader p2 (h\<lparr>free_space_end := wp\<rparr>))
   }"

definition SlottedPage_readTuple :: "Page \<Rightarrow> SlotId \<Rightarrow> Tuple \<Rightarrow> (Status \<times> Tuple) option" where
  "SlottedPage_readTuple p sid out =
    (if sid \<ge> slot_count (pg_header p) then Some (NotFound, out) else do {
       slot \<leftarrow> readSlot p sid;
       if isDeleted slot then Some (InvalidArg, out) else do {
         t \<leftarrow> view (body p) (unat (slot_offset slot)) (unat (slot_length slot));
         Some (Ok, t)
       }
     })"

definition SlottedPage_freeSpace :: "Page \<Rightarrow> nat" where
  "SlottedPage_freeSpace p =
    (let h = readSpHeader p in
     if free_space_end h > free_space_start h
     then unat (free_space_end h) - unat (free_space_start h) else 0)"

definition SlottedPage_slotCount :: "Page \<Rightarrow> u16" where
  "SlottedPage_slotCount p = slot_count (pg_header p)"

definition SlottedPage_tupleCount :: "Page \<Rightarrow> u16" where
  "SlottedPage_tupleCount p = tuple_count (readSpHeader p)"

definition SlottedPage_isFull :: "Page \<Rightarrow> nat \<Rightarrow> bool option" where
  "SlottedPage_isFull p tuple_size = do {
     r \<leftarrow> find_deleted p [0..<unat (slot_count (pg_header p))];
     let needed = (if r = None then tuple_size + kSlotSize else tuple_size);
     Some (SlottedPage_freeSpace p < needed)
   }"

definition getPrevPageId :: "Page \<Rightarrow> PageId" where
  "getPrevPageId p = prev_page_id (readSpHeader p)"

definition setPrevPageId :: "Page \<Rightarrow> PageId \<Rightarrow> Page" where
  "setPrevPageId p i = writeSpHeader p ((readSpHeader p)\<lparr>prev_page_id := i\<rparr>)"

definition getNextPageId :: "Page \<Rightarrow> PageId" where
  "getNextPageId p = next_page_id (readSpHeader p)"

definition setNextPageId :: "Page \<Rightarrow> PageId \<Rightarrow> Page" where
  "setNextPageId p i = writeSpHeader p ((readSpHeader p)\<lparr>next_page_id := i\<rparr>)"

subsection \<open>The layout of a body\<close>

definition sph_of :: "byte list \<Rightarrow> SlottedPageHeader" where
  "sph_of b = dec_sph (slice b 0 kSpHeaderSize)"

definition slot_at :: "byte list \<Rightarrow> nat \<Rightarrow> TupleSlot" where
  "slot_at b i = dec_slot (slice b (kSpHeaderSize + i * kSlotSize) kSlotSize)"

definition put_sph :: "byte list \<Rightarrow> SlottedPageHeader \<Rightarrow> byte list" where
  "put_sph b h = overwrite b 0 (enc_sph h)"

definition put_slot :: "byte list \<Rightarrow> nat \<Rightarrow> TupleSlot \<Rightarrow> byte list" where
  "put_slot b i s = overwrite b (kSpHeaderSize + i * kSlotSize) (enc_slot s)"

named_theorems layout

lemma readSpHeader_eq [layout]:
  assumes "wf_Page p"
  shows "readSpHeader p = sph_of (body p)"
  using assms unfolding readSpHeader_def sph_of_def dec_sph_def
  by (simp add: mk_Deserializer_def buf_simps page_consts) (simp add: numeral_eq_Suc)

lemma writeSpHeader_eq [layout]:
  assumes "wf_Page p"
  shows "writeSpHeader p h = set_body p (put_sph (body p) h)"
proof -
  let ?s = "mk_Serializer (slice (body p) 0 kSpHeaderSize)"
  have len: "length (ser_buffer ?s) = kSpHeaderSize" "ser_cursor ?s = 0"
    using assms by (simp_all add: mk_Serializer_def page_consts)
  show ?thesis
    using assms len unfolding writeSpHeader_def put_sph_def enc_sph_def
    by (simp add: writeUInt16_def writeUInt32_def writeRaw_put ser_put_append page_consts
        del: overwrite_all) (simp add: mk_Serializer_def page_consts)
qed

lemma readSlot_eq [layout]:
  assumes "wf_Page p" "kSpHeaderSize + Suc (unat i) * kSlotSize \<le> kPageBodySize"
  shows "readSlot p i = Some (slot_at (body p) (unat i))"
  using assms unfolding readSlot_def slot_at_def dec_slot_def slotOffset_def
  by (simp add: mk_Deserializer_def buf_simps)

lemma writeSlot_eq [layout]:
  assumes "wf_Page p" "kSpHeaderSize + Suc (unat i) * kSlotSize \<le> kPageBodySize"
  shows "writeSlot p i s = Some (set_body p (put_slot (body p) (unat i) s))"
proof -
  let ?v = "slice (body p) (kSpHeaderSize + unat i * kSlotSize) kSlotSize"
  have len: "length (ser_buffer (mk_Serializer ?v)) = kSlotSize" "ser_cursor (mk_Serializer ?v) = 0"
    using assms by (simp_all add: mk_Serializer_def)
  show ?thesis
    using assms len unfolding writeSlot_def put_slot_def enc_slot_def slotOffset_def
    by (simp add: writeUInt16_def writeRaw_put ser_put_append del: overwrite_all)
      (simp add: mk_Serializer_def)
qed

lemma place_tuple_eq [layout]:
  assumes "wf_Page p" "length t \<le> unat (free_space_end h)" "unat (free_space_end h) \<le> kPageBodySize"
  defines "nfe \<equiv> free_space_end h - word_of_nat (length t)"
  shows "unat nfe = unat (free_space_end h) - length t"
    and "place_tuple p h t = Some (nfe, set_body p (overwrite (body p) (unat nfe) t))"
proof -
  have tl: "unat (word_of_nat (length t) :: u16) = length t"
    using assms by (simp add: unat_of_nat take_bit_nat_eq_self page_consts)
  then have "(word_of_nat (length t) :: u16) \<le> free_space_end h"
    using assms by (simp add: word_le_nat_alt)
  then show nfe: "unat nfe = unat (free_space_end h) - length t"
    using tl by (simp add: nfe_def unat_sub)
  show "place_tuple p h t = Some (nfe, set_body p (overwrite (body p) (unat nfe) t))"
    using assms(1-3) tl nfe unfolding place_tuple_def
    by (simp add: nfe_def [symmetric] writeBytes_def mk_Serializer_def)
qed

text \<open>The laws of the layout: what each store leaves of the header, the slots and the tuples.\<close>

lemma layout_length [simp]:
  "length b = kPageBodySize \<Longrightarrow> length (put_sph b h) = kPageBodySize"
  "length b = kPageBodySize \<Longrightarrow> kSpHeaderSize + Suc i * kSlotSize \<le> kPageBodySize \<Longrightarrow>
   length (put_slot b i s) = kPageBodySize"
  by (simp_all add: put_sph_def put_slot_def page_consts)

lemma sph_of_put_sph [layout]: "length b = kPageBodySize \<Longrightarrow> sph_of (put_sph b h) = h"
  by (simp add: sph_of_def put_sph_def csph.get_put_same page_consts)

lemma slot_at_put_sph [layout]: "length b = kPageBodySize \<Longrightarrow> slot_at (put_sph b h) i = slot_at b i"
  by (simp add: slot_at_def put_sph_def csph.get_put_other page_consts)

lemma slice_put_sph [layout]:
  "length b = kPageBodySize \<Longrightarrow> kSpHeaderSize \<le> k \<Longrightarrow> slice (put_sph b h) k n = slice b k n"
  by (simp add: put_sph_def csph.get_put_other page_consts)

lemma sph_of_put_slot [layout]:
  "length b = kPageBodySize \<Longrightarrow> kSpHeaderSize + Suc i * kSlotSize \<le> kPageBodySize \<Longrightarrow>
   sph_of (put_slot b i s) = sph_of b"
  by (simp add: sph_of_def put_slot_def cslot.get_put_other page_consts)

lemma slot_at_put_slot [layout]:
  assumes "length b = kPageBodySize" "kSpHeaderSize + Suc i * kSlotSize \<le> kPageBodySize"
  shows "slot_at (put_slot b i s) j = (if i = j then s else slot_at b j)"
proof (cases "i = j")
  case True
  with assms show ?thesis by (simp add: slot_at_def put_slot_def cslot.get_put_same)
next
  case False
  then have "Suc j \<le> i \<or> Suc i \<le> j" by auto
  with assms False show ?thesis
    by (auto simp: slot_at_def put_slot_def intro!: arg_cong [where f = dec_slot] cslot.get_put_other)
qed

lemma slice_put_slot [layout]:
  "length b = kPageBodySize \<Longrightarrow> kSpHeaderSize + Suc i * kSlotSize \<le> k \<Longrightarrow> k \<le> kPageBodySize \<Longrightarrow>
   slice (put_slot b i s) k n = slice b k n"
  by (simp add: put_slot_def cslot.get_put_other)

lemma sph_of_overwrite [layout]:
  "off + length t \<le> length b \<Longrightarrow> kSpHeaderSize \<le> off \<Longrightarrow> sph_of (overwrite b off t) = sph_of b"
  by (simp add: sph_of_def slice_overwrite_before)

lemma slot_at_overwrite [layout]:
  "off + length t \<le> length b \<Longrightarrow> kSpHeaderSize + Suc i * kSlotSize \<le> off \<Longrightarrow>
   slot_at (overwrite b off t) i = slot_at b i"
  by (simp add: slot_at_def slice_overwrite_before)

subsection \<open>Abstraction: a page as the list of its slots\<close>

definition slot_val :: "byte list \<Rightarrow> TupleSlot \<Rightarrow> Tuple option" where
  "slot_val b s = (if isDeleted s then None
     else Some (slice b (unat (slot_offset s)) (unat (slot_length s))))"

definition slots_of :: "Page \<Rightarrow> Tuple option list" where
  "slots_of p = map (\<lambda>i. slot_val (body p) (slot_at (body p) i))
     [0..<unat (slot_count (pg_header p))]"

definition live_bytes :: "Tuple option list \<Rightarrow> nat" where
  "live_bytes xs = sum_list (map (\<lambda>x. case x of None \<Rightarrow> 0 | Some t \<Rightarrow> length t) xs)"

definition live_count :: "Tuple option list \<Rightarrow> nat" where
  "live_count xs = sum_list (map (\<lambda>x. case x of None \<Rightarrow> 0 | Some t \<Rightarrow> 1) xs)"

text \<open>
  The invariant of an initialised page: the directory ends where the free zone starts, the
  free zone ends before the tuple area, every live slot points into the tuple area, the live
  bytes fit there, and the counters of the two headers agree with the directory.
\<close>

definition slot_ok :: "byte list \<Rightarrow> TupleSlot \<Rightarrow> bool" where
  "slot_ok b s = (isDeleted s \<or>
     unat (free_space_end (sph_of b)) \<le> unat (slot_offset s) \<and>
     unat (slot_offset s) + unat (slot_length s) \<le> kPageBodySize)"

definition wf_sp :: "Page \<Rightarrow> bool" where
  "wf_sp p = (wf_Page p \<and>
    (let b = body p; h = sph_of b; n = unat (slot_count (pg_header p)) in
     unat (free_space_start h) = kSpHeaderSize + n * kSlotSize \<and>
     unat (free_space_start h) \<le> unat (free_space_end h) \<and>
     unat (free_space_end h) \<le> kPageBodySize \<and>
     free_space_ptr (pg_header p) = free_space_start h \<and>
     (\<forall>i<n. slot_ok b (slot_at b i)) \<and>
     live_bytes (slots_of p) \<le> kPageBodySize - unat (free_space_end h) \<and>
     unat (tuple_count h) = live_count (slots_of p)))"

lemma wf_spD:
  assumes "wf_sp p"
  shows "wf_Page p"
    "unat (free_space_start (sph_of (body p))) = kSpHeaderSize + unat (slot_count (pg_header p)) * kSlotSize"
    "kSpHeaderSize + unat (slot_count (pg_header p)) * kSlotSize \<le> unat (free_space_end (sph_of (body p)))"
    "unat (free_space_end (sph_of (body p))) \<le> kPageBodySize"
    "free_space_ptr (pg_header p) = free_space_start (sph_of (body p))"
    "i < unat (slot_count (pg_header p)) \<Longrightarrow> slot_ok (body p) (slot_at (body p) i)"
    "live_bytes (slots_of p) \<le> kPageBodySize - unat (free_space_end (sph_of (body p)))"
    "unat (tuple_count (sph_of (body p))) = live_count (slots_of p)"
  using assms by (auto simp: wf_sp_def Let_def)

lemma length_slots_of [simp]: "length (slots_of p) = unat (slot_count (pg_header p))"
  by (simp add: slots_of_def)

lemma nth_slots_of:
  "i < unat (slot_count (pg_header p)) \<Longrightarrow> slots_of p ! i = slot_val (body p) (slot_at (body p) i)"
  by (simp add: slots_of_def)

lemma slot_val_None [simp]: "slot_val b s = None \<longleftrightarrow> isDeleted s"
  by (simp add: slot_val_def)

lemma live_bytes_simps [simp]:
  "live_bytes [] = 0" "live_bytes (None # xs) = live_bytes xs"
  "live_bytes (Some t # xs) = length t + live_bytes xs" "live_bytes (xs @ ys) = live_bytes xs + live_bytes ys"
  by (simp_all add: live_bytes_def)

lemma live_count_simps [simp]:
  "live_count [] = 0" "live_count (None # xs) = live_count xs"
  "live_count (Some t # xs) = Suc (live_count xs)" "live_count (xs @ ys) = live_count xs + live_count ys"
  by (simp_all add: live_count_def)

lemma live_replicate_None [simp]: "live_bytes (replicate n None) = 0" "live_count (replicate n None) = 0"
  by (induction n) simp_all

lemma live_count_le: "live_count xs \<le> length xs"
  by (induction xs rule: list.induct) (auto simp: live_count_def split: option.splits)

lemma live_split: "i < length xs \<Longrightarrow>
  live_bytes xs = live_bytes (take i xs) + live_bytes [xs ! i] + live_bytes (drop (Suc i) xs)"
  "i < length xs \<Longrightarrow>
  live_count xs = live_count (take i xs) + live_count [xs ! i] + live_count (drop (Suc i) xs)"
  by (metis append_Cons append_Nil id_take_nth_drop live_bytes_simps(4) add.assoc,
      metis append_Cons append_Nil id_take_nth_drop live_count_simps(4) add.assoc)

lemma live_update:
  assumes "i < length xs"
  shows "live_bytes (xs[i := x]) = live_bytes xs - live_bytes [xs ! i] + live_bytes [x]"
    and "live_count (xs[i := x]) = live_count xs - live_count [xs ! i] + live_count [x]"
  using assms live_split [of i xs] live_split [of i "xs[i := x]"]
  by (simp_all add: drop_update_cancel)

lemma live_at_le:
  assumes "i < length xs"
  shows "live_bytes [xs ! i] \<le> live_bytes xs" and "live_count [xs ! i] \<le> live_count xs"
  using live_split [OF assms] by linarith+

text \<open>Storing a tuple at a slot index, past the end of the directory if need be.\<close>

definition store :: "'a option list \<Rightarrow> nat \<Rightarrow> 'a \<Rightarrow> 'a option list" where
  "store xs i t = (if i < length xs then xs[i := Some t]
     else xs @ replicate (i - length xs) None @ [Some t])"

definition first_none :: "'a option list \<Rightarrow> nat option" where
  "first_none xs = find (\<lambda>i. xs ! i = None) [0..<length xs]"

lemma length_store [simp]: "length (store xs i t) = max (length xs) (Suc i)"
  by (auto simp: store_def)

lemma nth_store:
  "j < max (length xs) (Suc i) \<Longrightarrow>
   store xs i t ! j = (if j = i then Some t else if j < length xs then xs ! j else None)"
  by (auto simp: store_def nth_append not_less less_Suc_eq_le le_Suc_eq max_def split: if_splits)

lemma live_store:
  "live_bytes (store xs i t) =
     (if i < length xs then live_bytes xs - live_bytes [xs ! i] else live_bytes xs) + length t"
  "live_count (store xs i t) =
     Suc (if i < length xs then live_count xs - live_count [xs ! i] else live_count xs)"
  by (simp_all add: store_def live_update)

lemma first_none_Some:
  "first_none xs = Some i \<Longrightarrow> i < length xs \<and> xs ! i = None \<and> (\<forall>j<i. xs ! j \<noteq> None)"
  by (auto simp: first_none_def find_Some_iff)

lemma first_none_None: "first_none xs = None \<longleftrightarrow> None \<notin> set xs"
  by (auto simp: first_none_def find_None_iff in_set_conv_nth)

lemma unat_u16_small [simp]: "n < 65536 \<Longrightarrow> unat (word_of_nat n :: u16) = n"
  by (simp add: unat_of_nat take_bit_nat_eq_self)

lemma word_of_nat_u16_eq: "n < 65536 \<Longrightarrow> unat (x :: u16) = n \<Longrightarrow> word_of_nat n = x"
  by auto

lemma find_deleted_eq:
  assumes "wf_Page p" "\<forall>i\<in>set is. kSpHeaderSize + Suc i * kSlotSize \<le> kPageBodySize"
  shows "find_deleted p is = Some (find (\<lambda>i. isDeleted (slot_at (body p) i)) is)"
  using assms(2)
proof (induction "is")
  case (Cons i "is")
  then have "i < 65536" by (simp add: page_consts)
  then show ?case using Cons assms(1) by (simp add: readSlot_eq)
qed simp

lemma slot_in_page:
  "wf_sp p \<Longrightarrow> i < unat (slot_count (pg_header p)) \<Longrightarrow>
   kSpHeaderSize + Suc i * kSlotSize \<le> kPageBodySize"
  using wf_spD(3,4) [of p] by simp

lemma find_deleted_first_none:
  assumes "wf_sp p"
  shows "find_deleted p [0..<unat (slot_count (pg_header p))] = Some (first_none (slots_of p))"
proof -
  have "find_deleted p [0..<unat (slot_count (pg_header p))] =
      Some (find (\<lambda>i. isDeleted (slot_at (body p) i)) [0..<unat (slot_count (pg_header p))])"
    using assms slot_in_page [OF assms] by (intro find_deleted_eq) (auto simp: wf_spD)
  also have "\<dots> = Some (first_none (slots_of p))"
    by (auto simp: first_none_def nth_slots_of intro!: find_cong)
  finally show ?thesis .
qed

lemma sp_available_wf:
  "wf_sp p \<Longrightarrow> sp_available (sph_of (body p)) =
     unat (free_space_end (sph_of (body p))) - unat (free_space_start (sph_of (body p)))"
  using wf_spD(2,3) [of p] by (simp add: sp_available_def size_t_of_int_u16_diff)

lemma freeSpace_wf:
  "wf_sp p \<Longrightarrow> SlottedPage_freeSpace p =
     unat (free_space_end (sph_of (body p))) - unat (free_space_start (sph_of (body p)))"
  by (auto simp: SlottedPage_freeSpace_def readSpHeader_eq wf_spD(1) word_less_nat_alt Let_def)

text \<open>
  A page is well-formed with slots \<open>xs\<close> when its directory describes them and the counters
  fit: the way every mutation re-establishes the invariant.
\<close>

lemma wf_spI:
  fixes p :: Page and xs :: "Tuple option list"
  defines "h \<equiv> sph_of (body p)"
  assumes "wf_Page p" "unat (slot_count (pg_header p)) = length xs"
    and "\<And>j. j < length xs \<Longrightarrow> slot_val (body p) (slot_at (body p) j) = xs ! j \<and>
      slot_ok (body p) (slot_at (body p) j)"
    and "unat (free_space_start h) = kSpHeaderSize + length xs * kSlotSize"
      "unat (free_space_start h) \<le> unat (free_space_end h)"
      "unat (free_space_end h) + live_bytes xs \<le> kPageBodySize"
      "free_space_ptr (pg_header p) = free_space_start h"
      "unat (tuple_count h) = live_count xs"
  shows "wf_sp p" "slots_of p = xs"
    "SlottedPage_freeSpace p = unat (free_space_end h) - (kSpHeaderSize + length xs * kSlotSize)"
proof -
  show s: "slots_of p = xs"
    using assms(3,4) by (intro nth_equalityI) (auto simp: nth_slots_of)
  show wf: "wf_sp p" using assms by (auto simp: wf_sp_def Let_def s)
  show "SlottedPage_freeSpace p = unat (free_space_end h) - (kSpHeaderSize + length xs * kSlotSize)"
    using assms(5) by (simp add: freeSpace_wf [OF wf] h_def)
qed

text \<open>
  The common core of the three operations that store a tuple: whatever sequence of byte
  stores produced the body \<open>b3\<close>, if its slots and its tuple area are as described, then
  writing a header with the right counters gives a well-formed page whose slots are
  the old ones with the tuple stored at index \<open>i\<close>.
\<close>

lemma sp_store:
  fixes p p' :: Page and b3 :: "byte list" and h' :: SlottedPageHeader and i nfe :: nat
  defines "n \<equiv> unat (slot_count (pg_header p))"
  defines "n' \<equiv> max n (Suc i)"
  assumes wf: "wf_sp p" and wf': "wf_Page p'"
    and room: "kSpHeaderSize + n' * kSlotSize \<le> nfe"
      "nfe + length t = unat (free_space_end (sph_of (body p)))"
    and b3: "length b3 = kPageBodySize"
      "slot_at b3 i = mk_TupleSlot (word_of_nat nfe) (word_of_nat (length t))"
      "\<And>j. j < n \<Longrightarrow> j \<noteq> i \<Longrightarrow> slot_at b3 j = slot_at (body p) j"
      "\<And>j. n \<le> j \<Longrightarrow> j < i \<Longrightarrow> isDeleted (slot_at b3 j)"
      "\<And>k m. nfe \<le> k \<Longrightarrow> k \<le> kPageBodySize \<Longrightarrow>
         slice b3 k m = slice (overwrite (body p) nfe t) k m"
    and h': "unat (free_space_start h') = kSpHeaderSize + n' * kSlotSize"
      "unat (free_space_end h') = nfe"
      "unat (tuple_count h') = live_count (store (slots_of p) i t)"
    and p': "body p' = put_sph b3 h'" "unat (slot_count (pg_header p')) = n'"
      "free_space_ptr (pg_header p') = free_space_start h'"
  shows "wf_sp p' \<and> slots_of p' = store (slots_of p) i t \<and>
    SlottedPage_freeSpace p' = nfe - (kSpHeaderSize + n' * kSlotSize)"
proof -
  note wfp = wf_spD [OF wf]
  let ?b = "body p"
  have fse: "nfe + length t \<le> kPageBodySize" using room(2) wfp(4) by simp
  then have small: "nfe < 65536" "length t < 65536" by (simp_all add: page_consts)
  have slotb: "slot_at (body p') j = slot_at b3 j" for j
    by (simp add: p'(1) slot_at_put_sph b3(1))
  have sl: "slice (body p') k m = slice (overwrite ?b nfe t) k m"
    if "nfe \<le> k" "k \<le> kPageBodySize" for k m
    using that room(1) b3(5) by (simp add: p'(1) slice_put_sph b3(1))
  have old: "slot_val (body p') (slot_at b3 j) = slot_val ?b (slot_at ?b j) \<and>
      slot_ok (body p') (slot_at b3 j)" if j: "j < n" "j \<noteq> i" for j
  proof -
    have "slot_ok ?b (slot_at ?b j)" using wfp(6) j(1) by (simp add: n_def)
    then show ?thesis
      using b3(3) [OF j] sl fse room
      by (auto simp: slot_ok_def slot_val_def p'(1) sph_of_put_sph b3(1) h'(2)
          slice_overwrite_after wfp(1))
  qed
  have new: "slot_val (body p') (slot_at b3 i) = Some t \<and> slot_ok (body p') (slot_at b3 i)"
    using small fse sl [of nfe "length t"]
    by (simp add: b3(2) slot_val_def slot_ok_def p'(1) sph_of_put_sph b3(1) h'(2)
        mk_TupleSlot_def slice_overwrite_same wfp(1) isDeleted_def)
  have "live_bytes (store (slots_of p) i t) \<le> live_bytes (slots_of p) + length t"
    by (simp add: live_store)
  then have space: "nfe + live_bytes (store (slots_of p) i t) \<le> kPageBodySize"
    using wfp(7) room(2) fse by simp
  have entry: "slot_val (body p') (slot_at (body p') j) = store (slots_of p) i t ! j \<and>
      slot_ok (body p') (slot_at (body p') j)" if "j < length (store (slots_of p) i t)" for j
    using that old [of j] new b3(4) [of j]
    by (cases "j < n") (auto simp: slotb nth_store nth_slots_of n_def [symmetric] slot_ok_def)
  have sph: "sph_of (body p') = h'" by (simp add: p'(1) sph_of_put_sph b3(1))
  show ?thesis
    using wf_spI [where p = p' and xs = "store (slots_of p) i t"] wf' p'(2,3) entry space h' room
    by (simp add: sph n'_def n_def)
qed

subsection \<open>Refinement of the operations\<close>

text \<open>What no record operation touches: the links and the identity of the page.\<close>

definition sp_frame :: "Page \<Rightarrow> PageId \<times> PageId \<times> u64 \<times> PageId \<times> PageType \<times> u32" where
  "sp_frame p = (getPrevPageId p, getNextPageId p, page_lsn (pg_header p), page_id (pg_header p),
     page_type (pg_header p), checksum (pg_header p))"

lemma upd_header_simps [simp]:
  "pg_header (upd_header f p) = f (pg_header p)" "body (upd_header f p) = body p"
  "pg_data (upd_header f p) = pg_data p" "wf_Page (upd_header f p) = wf_Page p"
  by (simp_all add: upd_header_def body_def wf_Page_def)

lemma sp_frame_eq:
  "wf_Page p \<Longrightarrow> sp_frame p = (prev_page_id (sph_of (body p)), next_page_id (sph_of (body p)),
     page_lsn (pg_header p), page_id (pg_header p), page_type (pg_header p), checksum (pg_header p))"
  by (simp add: sp_frame_def getPrevPageId_def getNextPageId_def readSpHeader_eq)

definition insert_index :: "'a option list \<Rightarrow> nat" where
  "insert_index xs = (case first_none xs of Some i \<Rightarrow> i | None \<Rightarrow> length xs)"

definition insert_need :: "Tuple option list \<Rightarrow> Tuple \<Rightarrow> nat" where
  "insert_need xs t = length t + (if None \<in> set xs then 0 else kSlotSize)"

lemma set_body_upd_header [simp]: "set_body (upd_header f p) b = upd_header f (set_body p b)"
  by (simp add: set_body_def upd_header_def)

lemma upd_header_upd_header [simp]: "upd_header f (upd_header g p) = upd_header (f \<circ> g) p"
  by (simp add: upd_header_def)

lemma length_overwrite_page [simp]:
  "wf_Page p \<Longrightarrow> off + length t \<le> kPageBodySize \<Longrightarrow> length (overwrite (body p) off t) = kPageBodySize"
  by simp

lemma place_tuple_wf:
  assumes wf: "wf_sp p" and room: "length t \<le> SlottedPage_freeSpace p"
  defines "nfe \<equiv> unat (free_space_end (sph_of (body p))) - length t"
  shows "place_tuple p (sph_of (body p)) t =
      Some (word_of_nat nfe, set_body p (overwrite (body p) nfe t))"
    and "nfe + length t = unat (free_space_end (sph_of (body p)))"
    and "nfe + length t \<le> kPageBodySize"
    and "kSpHeaderSize + unat (slot_count (pg_header p)) * kSlotSize \<le> nfe"
    and "length (overwrite (body p) nfe t) = kPageBodySize"
    and "nfe < 65536"
proof -
  note wfp = wf_spD [OF wf]
  let ?fse = "free_space_end (sph_of (body p))"
  have le: "length t + (kSpHeaderSize + unat (slot_count (pg_header p)) * kSlotSize) \<le> unat ?fse"
    using room wfp(2,3) by (simp add: freeSpace_wf [OF wf])
  then show sum: "nfe + length t = unat ?fse" by (simp add: nfe_def)
  then show body: "nfe + length t \<le> kPageBodySize" using wfp(4) by simp
  show "kSpHeaderSize + unat (slot_count (pg_header p)) * kSlotSize \<le> nfe"
    using le by (simp add: nfe_def)
  show "length (overwrite (body p) nfe t) = kPageBodySize" using wfp(1) body by simp
  show small: "nfe < 65536" using body by (simp add: page_consts)
  have lt: "length t \<le> unat ?fse" using le by simp
  have "unat (?fse - word_of_nat (length t)) = nfe"
    using place_tuple_eq(1) [OF wfp(1) lt wfp(4)] by (simp add: nfe_def)
  with place_tuple_eq(2) [OF wfp(1) lt wfp(4)] small
  show "place_tuple p (sph_of (body p)) t =
      Some (word_of_nat nfe, set_body p (overwrite (body p) nfe t))"
    by (metis word_of_nat_u16_eq)
qed

text \<open>The page \<open>insertTuple\<close> builds, as one expression over the layout.\<close>

definition inserted_page :: "Page \<Rightarrow> nat \<Rightarrow> Tuple \<Rightarrow> Page" where
  "inserted_page p i t =
    (let h = sph_of (body p);
         grow = (i = unat (slot_count (pg_header p)));
         nfe = unat (free_space_end h) - length t;
         h2 = h\<lparr>free_space_start := (if grow then free_space_start h + 8 else free_space_start h),
                free_space_end := word_of_nat nfe, tuple_count := tuple_count h + 1\<rparr>;
         b3 = put_slot (overwrite (body p) nfe t) i
                (mk_TupleSlot (word_of_nat nfe) (word_of_nat (length t)))
     in upd_header (\<lambda>g. g\<lparr>slot_count := (if grow then slot_count g + 1 else slot_count g),
            free_space_ptr := free_space_start h2\<rparr>) (set_body p (put_sph b3 h2)))"

lemma insert_index_cases:
  obtains (grow) "insert_index xs = length xs" "None \<notin> set xs" "first_none xs = None"
  | (reuse) "insert_index xs < length xs" "None \<in> set xs" "xs ! insert_index xs = None"
      "first_none xs = Some (insert_index xs)"
  using first_none_Some [of xs] first_none_None [of xs]
  by (cases "first_none xs") (auto simp: insert_index_def)

lemma insert_room:
  assumes "wf_sp p" "insert_need (slots_of p) t \<le> SlottedPage_freeSpace p"
  shows "length t \<le> SlottedPage_freeSpace p"
    and "kSpHeaderSize + max (unat (slot_count (pg_header p))) (Suc (insert_index (slots_of p))) * kSlotSize
      \<le> unat (free_space_end (sph_of (body p))) - length t"
  using assms wf_spD(2,3) [OF assms(1)]
  by (cases rule: insert_index_cases [of "slots_of p"];
      auto simp: insert_need_def freeSpace_wf max_def)+

lemma dir_bound:
  "kSpHeaderSize + max n (Suc i) * kSlotSize \<le> x \<Longrightarrow> x \<le> y \<Longrightarrow> kSpHeaderSize + Suc i * kSlotSize \<le> y"
  by (auto simp: max_def split: if_splits)

lemma insertTuple_run:
  assumes wf: "wf_sp p" and t: "t \<noteq> []"
    and room: "insert_need (slots_of p) t \<le> SlottedPage_freeSpace p"
  defines "i \<equiv> insert_index (slots_of p)"
  shows "SlottedPage_insertTuple p t sid = Some (Ok, word_of_nat i, inserted_page p i t)"
proof -
  note wfp = wf_spD [OF wf] and ir = insert_room [OF wf room]
  note pl = place_tuple_wf [OF wf ir(1)]
  have i: "kSpHeaderSize + Suc i * kSlotSize \<le> kPageBodySize"
    using pl(3) unfolding i_def by (intro dir_bound [OF ir(2)]) simp
  then have isz: "i < 65536" by (simp add: page_consts)
  have len: "\<not> sp_available (sph_of (body p)) < insert_need (slots_of p) t"
    using room by (simp add: sp_available_wf [OF wf] freeSpace_wf [OF wf])
  show ?thesis
  proof (cases rule: insert_index_cases [of "slots_of p"])
    case grow
    with t len pl i isz wfp(1) show ?thesis
      by (simp add: SlottedPage_insertTuple_def readSpHeader_eq find_deleted_first_none wf
          insert_need_def writeSlot_eq writeSpHeader_eq inserted_page_def i_def comp_def Let_def)
  next
    case reuse
    with t len pl i isz wfp(1) show ?thesis
      by (simp add: SlottedPage_insertTuple_def readSpHeader_eq find_deleted_first_none wf
          insert_need_def writeSlot_eq writeSpHeader_eq inserted_page_def i_def comp_def Let_def)
  qed
qed

lemma unat_u16_add: "unat a + unat b < 65536 \<Longrightarrow> unat (a + b :: u16) = unat a + unat b"
  by (simp add: unat_word_ariths)

lemma inserted_page_ok:
  assumes wf: "wf_sp p" and room: "insert_need (slots_of p) t \<le> SlottedPage_freeSpace p"
  defines "i \<equiv> insert_index (slots_of p)"
  shows "wf_sp (inserted_page p i t) \<and> slots_of (inserted_page p i t) = store (slots_of p) i t \<and>
    SlottedPage_freeSpace (inserted_page p i t) =
      unat (free_space_end (sph_of (body p))) - length t -
      (kSpHeaderSize + max (unat (slot_count (pg_header p))) (Suc i) * kSlotSize) \<and>
    sp_frame (inserted_page p i t) = sp_frame p"
proof -
  note wfp = wf_spD [OF wf] and ir = insert_room [OF wf room]
  note pl = place_tuple_wf [OF wf ir(1)]
  let ?n = "unat (slot_count (pg_header p))" and ?h = "sph_of (body p)"
  define nfe where "nfe = unat (free_space_end ?h) - length t"
  note pl = pl [folded nfe_def]
  have dir: "kSpHeaderSize + max ?n (Suc i) * kSlotSize \<le> nfe" using ir(2) by (simp add: i_def nfe_def)
  have i: "kSpHeaderSize + Suc i * kSlotSize \<le> kPageBodySize"
    using pl(3) by (intro dir_bound [OF dir]) simp
  have ile: "i \<le> ?n" by (cases rule: insert_index_cases [of "slots_of p"]) (auto simp: i_def)
  have sizes: "?n < 509" "live_count (slots_of p) \<le> ?n" "Suc i < 509"
    using wfp(3,4) live_count_le [of "slots_of p"] i by (simp_all add: page_consts)
  have tc: "unat (tuple_count ?h + 1) = live_count (store (slots_of p) i t)"
    using sizes by (cases rule: insert_index_cases [of "slots_of p"])
      (auto simp: i_def live_store unat_u16_add wfp(8))
  have fss: "unat (if i = ?n then free_space_start ?h + 8 else free_space_start ?h) =
      kSpHeaderSize + max ?n (Suc i) * kSlotSize"
    using sizes ile wfp(2) by (auto simp: unat_u16_add max_def)
  have sc: "unat (if i = ?n then slot_count (pg_header p) + 1 else slot_count (pg_header p)) = max ?n (Suc i)"
    using sizes ile by (auto simp: unat_u16_add max_def)
  let ?b3 = "put_slot (overwrite (body p) nfe t) i (mk_TupleSlot (word_of_nat nfe) (word_of_nat (length t)))"
  have b3: "slot_at ?b3 j = slot_at (body p) j" if "j < ?n" "j \<noteq> i" for j
    using that pl dir i by (auto simp: slot_at_put_slot slot_at_overwrite wfp(1))
  have b3s: "slice ?b3 k m = slice (overwrite (body p) nfe t) k m"
    if "nfe \<le> k" "k \<le> kPageBodySize" for k m
    using that pl(5) dir_bound [OF dir that(1)] by (intro slice_put_slot) auto
  let ?h2 = "?h\<lparr>free_space_start := (if i = ?n then free_space_start ?h + 8 else free_space_start ?h),
      free_space_end := word_of_nat nfe, tuple_count := tuple_count ?h + 1\<rparr>"
  have p': "wf_Page (inserted_page p i t)" "body (inserted_page p i t) = put_sph ?b3 ?h2"
    "unat (slot_count (pg_header (inserted_page p i t))) = max ?n (Suc i)"
    "free_space_ptr (pg_header (inserted_page p i t)) = free_space_start ?h2"
    using sc wfp(1) pl(5) i unfolding inserted_page_def Let_def nfe_def [symmetric]
    by (simp_all split: if_splits)
  have "sp_frame (inserted_page p i t) = sp_frame p"
    using pl(5) i by (simp add: sp_frame_eq p' wfp(1) sph_of_put_sph) (simp add: inserted_page_def Let_def)
  moreover have "wf_sp (inserted_page p i t) \<and> slots_of (inserted_page p i t) = store (slots_of p) i t \<and>
      SlottedPage_freeSpace (inserted_page p i t) = nfe - (kSpHeaderSize + max ?n (Suc i) * kSlotSize)"
    by (rule sp_store [where nfe = nfe and ?b3.0 = ?b3 and h' = ?h2, OF wf p'(1) dir pl(2)])
      (use pl(5,6) i ile tc fss b3 b3s p' in \<open>simp_all add: slot_at_put_slot\<close>)
  ultimately show ?thesis by (simp add: nfe_def)
qed

text \<open>
  On a well-formed page \<open>insertTuple\<close> never leaves the body (the result is not \<open>None\<close>).
  It rejects an empty tuple; it reports \<open>IoError\<close> and changes nothing when the free zone
  cannot take the tuple and, unless a deleted slot is reused, a new directory entry; otherwise
  it stores the tuple in the first deleted slot, or in a new last slot, and every other slot
  keeps its tuple.  The page stays well-formed and the links and identity are untouched.
\<close>

lemma insertTuple_spec:
  assumes "wf_sp p"
  shows "if t = [] then SlottedPage_insertTuple p t sid = Some (InvalidArg, sid, p)
    else if insert_need (slots_of p) t > SlottedPage_freeSpace p
    then SlottedPage_insertTuple p t sid = Some (IoError, sid, p)
    else \<exists>p'. SlottedPage_insertTuple p t sid = Some (Ok, word_of_nat (insert_index (slots_of p)), p') \<and>
      wf_sp p' \<and> slots_of p' = store (slots_of p) (insert_index (slots_of p)) t \<and>
      SlottedPage_freeSpace p' = SlottedPage_freeSpace p - insert_need (slots_of p) t \<and>
      sp_frame p' = sp_frame p"
proof -
  note wfp = wf_spD [OF assms]
  have fail: "SlottedPage_insertTuple p t sid = Some (IoError, sid, p)"
    if "t \<noteq> []" "insert_need (slots_of p) t > SlottedPage_freeSpace p"
    using that assms wfp(1) unfolding SlottedPage_insertTuple_def
    by (auto simp: readSpHeader_eq find_deleted_first_none sp_available_wf freeSpace_wf
        insert_need_def first_none_None Let_def split: if_splits)
  let ?i = "insert_index (slots_of p)"
  have ok: "\<exists>p'. SlottedPage_insertTuple p t sid = Some (Ok, word_of_nat ?i, p') \<and>
      wf_sp p' \<and> slots_of p' = store (slots_of p) ?i t \<and>
      SlottedPage_freeSpace p' = SlottedPage_freeSpace p - insert_need (slots_of p) t \<and>
      sp_frame p' = sp_frame p"
    if t: "t \<noteq> []" and room: "insert_need (slots_of p) t \<le> SlottedPage_freeSpace p"
  proof (intro exI conjI)
    let ?p' = "inserted_page p ?i t"
    note ok = inserted_page_ok [OF assms room] and pl = place_tuple_wf [OF assms insert_room(1) [OF assms room]]
    show "SlottedPage_insertTuple p t sid = Some (Ok, word_of_nat ?i, ?p')"
      by (rule insertTuple_run [OF assms t room])
    show wf': "wf_sp ?p'" and "slots_of ?p' = store (slots_of p) ?i t" using ok by simp_all
    show "SlottedPage_freeSpace ?p' = SlottedPage_freeSpace p - insert_need (slots_of p) t"
      using ok wfp(2,3) room by (cases rule: insert_index_cases [of "slots_of p"])
        (auto simp: freeSpace_wf [OF assms] insert_need_def max_def)
    show "sp_frame ?p' = sp_frame p" using ok by simp
  qed
  show ?thesis using fail ok by (auto simp: SlottedPage_insertTuple_def)
qed

subsubsection \<open>Initialisation, reading, deletion\<close>

lemma initialize_ok:
  assumes "wf_Page p"
  shows "fst (SlottedPage_initialize p) = Ok" "wf_sp (snd (SlottedPage_initialize p))"
    "slots_of (snd (SlottedPage_initialize p)) = []"
    "SlottedPage_freeSpace (snd (SlottedPage_initialize p)) = 4056"
    "sp_frame (snd (SlottedPage_initialize p)) = (kInvalidPageId, kInvalidPageId, page_lsn (pg_header p),
       page_id (pg_header p), page_type (pg_header p), checksum (pg_header p))"
proof -
  let ?h = "\<lparr>tuple_count = 0, free_space_start = 16, free_space_end = 4072, sph_reserved = 0,
      prev_page_id = kInvalidPageId, next_page_id = kInvalidPageId\<rparr> :: SlottedPageHeader"
  let ?p = "snd (SlottedPage_initialize p)"
  have p: "?p = upd_header (\<lambda>g. g\<lparr>slot_count := 0, free_space_ptr := 16\<rparr>)
      (set_body p (put_sph (replicate kPageBodySize 0) ?h))" "fst (SlottedPage_initialize p) = Ok"
    using assms by (simp_all add: SlottedPage_initialize_def writeSpHeader_eq Let_def page_consts)
  have b: "wf_Page ?p" "sph_of (body ?p) = ?h" "slot_count (pg_header ?p) = 0"
    "free_space_ptr (pg_header ?p) = 16"
    using assms by (simp_all add: p sph_of_put_sph)
  show "fst (SlottedPage_initialize p) = Ok" by (rule p(2))
  show s: "slots_of ?p = []" by (simp add: slots_of_def b)
  show wf: "wf_sp ?p" using b s by (simp add: wf_sp_def page_consts)
  show "SlottedPage_freeSpace ?p = 4056" by (simp add: freeSpace_wf wf b)
  show "sp_frame ?p = (kInvalidPageId, kInvalidPageId, page_lsn (pg_header p),
       page_id (pg_header p), page_type (pg_header p), checksum (pg_header p))"
    using b by (simp add: sp_frame_eq) (simp add: p)
qed

lemma slot_ok_view:
  assumes "wf_sp p" "i < unat (slot_count (pg_header p))" "\<not> isDeleted (slot_at (body p) i)"
  shows "unat (slot_offset (slot_at (body p) i)) + unat (slot_length (slot_at (body p) i)) \<le> kPageBodySize"
    and "unat (free_space_end (sph_of (body p))) \<le> unat (slot_offset (slot_at (body p) i))"
  using wf_spD(6) [OF assms(1,2)] assms(3) by (auto simp: slot_ok_def)

lemma readSlot_wf:
  "wf_sp p \<Longrightarrow> sid < slot_count (pg_header p) \<Longrightarrow> readSlot p sid = Some (slot_at (body p) (unat sid))"
  using slot_in_page [of p "unat sid"] by (simp add: readSlot_eq wf_spD(1) word_less_nat_alt)

text \<open>
  On a well-formed page \<open>readTuple\<close> stays inside the body and reports exactly the state
  of the slot: \<open>NotFound\<close> past the directory, \<open>InvalidArg\<close> for a deleted slot, otherwise
  \<open>Ok\<close> and the stored tuple.
\<close>

lemma readTuple_spec:
  assumes "wf_sp p"
  shows "SlottedPage_readTuple p sid out = Some
    (if unat sid \<ge> length (slots_of p) then (NotFound, out)
     else case slots_of p ! unat sid of None \<Rightarrow> (InvalidArg, out) | Some t \<Rightarrow> (Ok, t))"
  using slot_ok_view(1) [OF assms, of "unat sid"] wf_spD(1) [OF assms]
  by (auto simp: SlottedPage_readTuple_def readSlot_wf [OF assms] nth_slots_of slot_val_def
      word_le_nat_alt word_less_nat_alt not_le)

text \<open>Deleting marks the slot and keeps the bytes; the slot list loses the tuple.\<close>

lemma deleteTuple_spec:
  assumes "wf_sp p"
  shows "if unat sid \<ge> length (slots_of p) then SlottedPage_deleteTuple p sid = Some (NotFound, p)
    else if slots_of p ! unat sid = None then SlottedPage_deleteTuple p sid = Some (InvalidArg, p)
    else \<exists>p'. SlottedPage_deleteTuple p sid = Some (Ok, p') \<and> wf_sp p' \<and>
      slots_of p' = (slots_of p)[unat sid := None] \<and>
      SlottedPage_freeSpace p' = SlottedPage_freeSpace p \<and> sp_frame p' = sp_frame p"
proof (cases "unat sid < length (slots_of p) \<and> slots_of p ! unat sid \<noteq> None")
  case False
  then show ?thesis
    by (auto simp: SlottedPage_deleteTuple_def readSlot_wf [OF assms] nth_slots_of slot_val_def
        word_le_nat_alt word_less_nat_alt not_le split: if_splits)
next
  case True
  note wfp = wf_spD [OF assms]
  define i where "i = unat sid"
  define b where "b = body p"
  define b' where "b' = put_slot b i (markDeleted (slot_at b i))"
  define h' where "h' = (sph_of b)\<lparr>tuple_count := tuple_count (sph_of b) - 1\<rparr>"
  define p' where "p' = set_body p (put_sph b' h')"
  have i: "i < unat (slot_count (pg_header p))" "sid < slot_count (pg_header p)"
    and live: "\<not> isDeleted (slot_at b i)"
    using True by (auto simp: i_def b_def word_less_nat_alt nth_slots_of slot_val_def split: if_splits)
  have dir: "kSpHeaderSize + Suc i * kSlotSize \<le> kPageBodySize"
    "kSpHeaderSize + Suc i * kSlotSize \<le> unat (free_space_end (sph_of b))"
    using slot_in_page [OF assms i(1)] i(1) wfp(3) by (simp_all add: b_def)
  have len: "length b = kPageBodySize" "length b' = kPageBodySize"
    using wfp(1) dir by (simp_all add: b_def b'_def)
  have run: "SlottedPage_deleteTuple p sid = Some (Ok, p')"
    using i live wfp(1) dir len
    by (simp add: SlottedPage_deleteTuple_def readSlot_wf [OF assms] writeSlot_eq readSpHeader_eq
        writeSpHeader_eq i_def [symmetric] b_def [symmetric] p'_def h'_def
        sph_of_put_slot b'_def Let_def not_le)
  have body': "body p' = put_sph b' h'" "wf_Page p'" "pg_header p' = pg_header p" "sph_of (body p') = h'"
    using wfp(1) len by (simp_all add: p'_def sph_of_put_sph)
  have sl: "slice (body p') k m = slice b k m"
    if "unat (free_space_end (sph_of b)) \<le> k" "k \<le> kPageBodySize" for k m
    using that dir len by (simp add: body' slice_put_sph b'_def slice_put_slot)
  have slot: "slot_at (body p') j = (if j = i then markDeleted (slot_at b i) else slot_at b j)" for j
    using dir len by (auto simp: body'(1) slot_at_put_sph b'_def slot_at_put_slot)
  have entry: "slot_val (body p') (slot_at (body p') j) = (slots_of p)[i := None] ! j \<and>
      slot_ok (body p') (slot_at (body p') j)" if "j < length ((slots_of p)[i := None])" for j
    using slot_ok_view [OF assms, of j] that sl
    by (auto simp: slot slot_val_def slot_ok_def b_def nth_list_update nth_slots_of body'(4) h'_def)
  have cnt: "live_count (slots_of p) = Suc (live_count ((slots_of p)[i := None]))"
    using live_at_le(2) [of i "slots_of p"] True by (auto simp: i_def live_update)
  have tc: "unat (tuple_count (sph_of b) - 1) = live_count ((slots_of p)[i := None])"
    using cnt wfp(8) by (simp add: b_def unat_minus_one word_unat_eq_iff)
  have "live_bytes ((slots_of p)[i := None]) \<le> live_bytes (slots_of p)"
    using i(1) by (simp add: live_update)
  then have counters: "unat (slot_count (pg_header p')) = length ((slots_of p)[i := None])"
    "unat (free_space_start (sph_of (body p'))) = kSpHeaderSize + length ((slots_of p)[i := None]) * kSlotSize"
    "unat (free_space_start (sph_of (body p'))) \<le> unat (free_space_end (sph_of (body p')))"
    "unat (free_space_end (sph_of (body p'))) + live_bytes ((slots_of p)[i := None]) \<le> kPageBodySize"
    "free_space_ptr (pg_header p') = free_space_start (sph_of (body p'))"
    "unat (tuple_count (sph_of (body p'))) = live_count ((slots_of p)[i := None])"
    using wfp(2-5,7) tc by (simp_all add: body'(3,4) h'_def b_def)
  note res = wf_spI [OF body'(2) counters(1) entry counters(2-6)]
  have "SlottedPage_freeSpace p' = SlottedPage_freeSpace p" "sp_frame p' = sp_frame p"
    using res(3) wfp(1,2) body' by (simp_all add: freeSpace_wf [OF assms] sp_frame_eq h'_def b_def)
  with True run res show ?thesis by (auto simp: i_def)
qed

subsubsection \<open>Storing at a given slot\<close>

definition empties :: "byte list \<Rightarrow> nat list \<Rightarrow> byte list" where
  "empties b is = foldl (\<lambda>b i. put_slot b i (markDeleted default_TupleSlot)) b is"

lemma empties_layout:
  assumes "length b = kPageBodySize" "\<forall>i\<in>set is. kSpHeaderSize + Suc i * kSlotSize \<le> kPageBodySize"
  shows "length (empties b is) = kPageBodySize \<and>
    (\<forall>j. slot_at (empties b is) j = (if j \<in> set is then markDeleted default_TupleSlot else slot_at b j)) \<and>
    (\<forall>k m. (\<forall>i\<in>set is. kSpHeaderSize + Suc i * kSlotSize \<le> k) \<longrightarrow> k \<le> kPageBodySize \<longrightarrow>
       slice (empties b is) k m = slice b k m)"
  using assms
proof (induction "is" arbitrary: b)
  case Nil
  then show ?case by (simp add: empties_def)
next
  case (Cons i "is")
  let ?b = "put_slot b i (markDeleted default_TupleSlot)"
  have "empties b (i # is) = empties ?b is" by (simp add: empties_def)
  moreover have "length ?b = kPageBodySize" using Cons.prems by simp
  ultimately show ?case
    using Cons.IH [of ?b] Cons.prems by (auto simp: slot_at_put_slot slice_put_slot)
qed

lemma write_empty_slots_eq:
  assumes "wf_Page p" "\<forall>i\<in>set is. kSpHeaderSize + Suc i * kSlotSize \<le> kPageBodySize"
  shows "write_empty_slots p is = Some (set_body p (empties (body p) is))"
  using assms
proof (induction "is" arbitrary: p)
  case Nil
  then show ?case by (simp add: empties_def set_body_def body_def)
next
  case (Cons i "is")
  then have "i < 65536" by (simp add: page_consts)
  with Cons show ?case by (simp add: writeSlot_eq empties_def)
qed

text \<open>The page both recovery operations build: slot \<open>i\<close> holds \<open>t\<close>, the directory is extended to it.\<close>

definition stored_page :: "Page \<Rightarrow> nat \<Rightarrow> Tuple \<Rightarrow> u16 \<Rightarrow> Page" where
  "stored_page p i t tc =
    (let h = sph_of (body p);
         n = unat (slot_count (pg_header p));
         nfe = unat (free_space_end h) - length t;
         h2 = h\<lparr>free_space_start := free_space_start h + word_of_nat (kSlotSize * (Suc i - n)),
                free_space_end := word_of_nat nfe, tuple_count := tc\<rparr>;
         b3 = put_slot (empties (overwrite (body p) nfe t) [n..<Suc i]) i
                (mk_TupleSlot (word_of_nat nfe) (word_of_nat (length t)))
     in upd_header (\<lambda>g. g\<lparr>slot_count := (if i < n then slot_count g else word_of_nat (Suc i)),
            free_space_ptr := free_space_start h2\<rparr>) (set_body p (put_sph b3 h2)))"

definition store_need :: "Tuple option list \<Rightarrow> nat \<Rightarrow> Tuple \<Rightarrow> nat" where
  "store_need xs i t = length t + kSlotSize * (Suc i - length xs)"

lemma store_room:
  assumes "wf_sp p" "store_need (slots_of p) i t \<le> SlottedPage_freeSpace p"
  shows "length t \<le> SlottedPage_freeSpace p"
    and "kSpHeaderSize + max (unat (slot_count (pg_header p))) (Suc i) * kSlotSize
      \<le> unat (free_space_end (sph_of (body p))) - length t"
  using assms wf_spD(2,3) [OF assms(1)]
  by (auto simp: store_need_def freeSpace_wf max_def algebra_simps)

lemma stored_page_ok:
  assumes wf: "wf_sp p" and room: "store_need (slots_of p) i t \<le> SlottedPage_freeSpace p"
    and tc: "unat tc = live_count (store (slots_of p) i t)"
  shows "wf_sp (stored_page p i t tc) \<and> slots_of (stored_page p i t tc) = store (slots_of p) i t \<and>
    SlottedPage_freeSpace (stored_page p i t tc) = SlottedPage_freeSpace p - store_need (slots_of p) i t \<and>
    sp_frame (stored_page p i t tc) = sp_frame p"
proof -
  note wfp = wf_spD [OF wf] and ir = store_room [OF wf room]
  note pl = place_tuple_wf [OF wf ir(1)]
  let ?n = "unat (slot_count (pg_header p))" and ?h = "sph_of (body p)"
  define nfe where "nfe = unat (free_space_end ?h) - length t"
  note pl = pl [folded nfe_def] and dir = ir(2) [folded nfe_def]
  have i: "kSpHeaderSize + Suc i * kSlotSize \<le> nfe" by (rule dir_bound [OF dir]) simp
  then have ib: "kSpHeaderSize + Suc i * kSlotSize \<le> kPageBodySize" "Suc i < 509" "?n < 509"
    using pl(3) wfp(3,4) by (simp_all add: page_consts)
  let ?e = "empties (overwrite (body p) nfe t) [?n..<Suc i]"
  have all: "\<forall>j\<in>set [?n..<Suc i]. kSpHeaderSize + Suc j * kSlotSize \<le> kPageBodySize"
    using ib by auto
  note e = empties_layout [OF pl(5) all]
  have es: "slice ?e k m = slice (overwrite (body p) nfe t) k m" if "nfe \<le> k" "k \<le> kPageBodySize" for k m
    using e that i by fastforce
  let ?b3 = "put_slot ?e i (mk_TupleSlot (word_of_nat nfe) (word_of_nat (length t)))"
  let ?h2 = "?h\<lparr>free_space_start := free_space_start ?h + word_of_nat (kSlotSize * (Suc i - ?n)),
                free_space_end := word_of_nat nfe, tuple_count := tc\<rparr>"
  have b3: "length ?b3 = kPageBodySize"
      "\<And>j. j < ?n \<Longrightarrow> j \<noteq> i \<Longrightarrow> slot_at ?b3 j = slot_at (body p) j"
      "\<And>j. ?n \<le> j \<Longrightarrow> j < i \<Longrightarrow> isDeleted (slot_at ?b3 j)"
      "\<And>k m. nfe \<le> k \<Longrightarrow> k \<le> kPageBodySize \<Longrightarrow> slice ?b3 k m = slice (overwrite (body p) nfe t) k m"
    using e ib pl(3,4) i es by (auto simp: slot_at_put_slot slot_at_overwrite wfp(1) slice_put_slot)
  have fss: "unat (free_space_start ?h2) = kSpHeaderSize + max ?n (Suc i) * kSlotSize"
  proof -
    have "kSlotSize * (Suc i - ?n) < 65536" using ib by simp
    then have "unat (word_of_nat (kSlotSize * (Suc i - ?n)) :: u16) = kSlotSize * (Suc i - ?n)"
      by (rule unat_u16_small)
    with ib wfp(2) show ?thesis
      by (simp add: unat_u16_add max_def del: of_nat_diff of_nat_Suc of_nat_mult) arith
  qed
  have p': "wf_Page (stored_page p i t tc)" "body (stored_page p i t tc) = put_sph ?b3 ?h2"
    "unat (slot_count (pg_header (stored_page p i t tc))) = max ?n (Suc i)"
    "free_space_ptr (pg_header (stored_page p i t tc)) = free_space_start ?h2"
    using wfp(1) e ib unfolding stored_page_def Let_def nfe_def [symmetric] by (auto simp del: of_nat_Suc)
  have frame: "sp_frame (stored_page p i t tc) = sp_frame p"
    using b3(1) by (simp add: sp_frame_eq p' wfp(1) sph_of_put_sph) (simp add: stored_page_def Let_def)
  have "wf_sp (stored_page p i t tc) \<and> slots_of (stored_page p i t tc) = store (slots_of p) i t \<and>
      SlottedPage_freeSpace (stored_page p i t tc) = nfe - (kSpHeaderSize + max ?n (Suc i) * kSlotSize)"
    by (rule sp_store [where nfe = nfe and ?b3.0 = ?b3 and h' = ?h2, OF wf p'(1) dir pl(2) b3(1) _ b3(2-4)])
      (use e ib tc fss pl(6) p' in \<open>simp_all add: slot_at_put_slot\<close>)
  then show ?thesis
    using frame dir pl(2) wfp(2) by (auto simp: store_need_def freeSpace_wf [OF wf] nfe_def max_def)
qed

lemma insertTupleAtSlot_run:
  assumes wf: "wf_sp p" and t: "t \<noteq> []"
    and room: "store_need (slots_of p) (unat sid) t \<le> SlottedPage_freeSpace p"
  shows "SlottedPage_insertTupleAtSlot p sid t = Some (Ok, stored_page p (unat sid) t
    (if slot_count (pg_header p) \<le> sid \<or> isDeleted (slot_at (body p) (unat sid))
     then tuple_count (sph_of (body p)) + 1 else tuple_count (sph_of (body p))))"
proof -
  note wfp = wf_spD [OF wf] and ir = store_room [OF wf room]
  define i where "i = unat sid"
  define nfe where "nfe = unat (free_space_end (sph_of (body p))) - length t"
  note pl = place_tuple_wf [OF wf ir(1), folded nfe_def]
  have dir: "kSpHeaderSize + max (unat (slot_count (pg_header p))) (Suc i) * kSlotSize \<le> nfe"
    using ir(2) by (simp add: nfe_def i_def)
  have i: "kSpHeaderSize + Suc i * kSlotSize \<le> nfe" by (rule dir_bound [OF dir]) simp
  then have ib: "kSpHeaderSize + Suc i * kSlotSize \<le> kPageBodySize" using pl(3) by simp
  then have all: "\<forall>j\<in>set [unat (slot_count (pg_header p))..<Suc i]. kSpHeaderSize + Suc j * kSlotSize \<le> kPageBodySize"
    by auto
  have su: "unat sid = i" by (simp add: i_def)
  have len: "store_need (slots_of p) i t \<le> sp_available (sph_of (body p))"
    using room by (simp add: sp_available_wf [OF wf] freeSpace_wf [OF wf] i_def)
  have wf1: "wf_Page (set_body p (overwrite (body p) nfe t))" using wfp(1) pl(5) by simp
  have sl: "slot_at (overwrite (body p) nfe t) i = slot_at (body p) i"
    using i pl(3) wfp(1) by (simp add: slot_at_overwrite)
  have e: "length (empties (overwrite (body p) nfe t) [unat (slot_count (pg_header p))..<Suc i]) = kPageBodySize"
    using empties_layout [OF pl(5) all] by simp
  have wi: "(1 :: u16) + word_of_nat i = sid + 1" by (simp add: i_def)
  show ?thesis
  proof (cases "slot_count (pg_header p) \<le> sid")
    case True
    then have ge: "unat (slot_count (pg_header p)) \<le> i" by (simp add: i_def word_le_nat_alt)
    with True t len pl ib wf1 e show ?thesis
      by (simp add: SlottedPage_insertTupleAtSlot_def readSpHeader_eq Let_def store_need_def su Suc_diff_le
          stored_page_def nfe_def [symmetric] write_empty_slots_eq [OF wf1 all] writeSlot_eq
          writeSpHeader_eq wfp(1) comp_def wi not_less [symmetric] del: of_nat_diff of_nat_mult upt_Suc)
  next
    case False
    then have lt: "i < unat (slot_count (pg_header p))" by (simp add: i_def word_le_nat_alt)
    with False t len pl ib wf1 sl show ?thesis
      by (simp add: SlottedPage_insertTupleAtSlot_def readSpHeader_eq Let_def store_need_def su
          stored_page_def nfe_def [symmetric] readSlot_eq writeSlot_eq
          writeSpHeader_eq wfp(1) comp_def empties_def not_less [symmetric])
  qed
qed

lemma stored_tuple_count:
  assumes wf: "wf_sp p" and sid: "unat sid < 65535" "kSpHeaderSize + unat (slot_count (pg_header p)) * kSlotSize \<le> kPageBodySize"
  shows "unat (if slot_count (pg_header p) \<le> sid \<or> isDeleted (slot_at (body p) (unat sid))
     then tuple_count (sph_of (body p)) + 1 else tuple_count (sph_of (body p))) =
    live_count (store (slots_of p) (unat sid) t)"
proof -
  note wfp = wf_spD [OF wf]
  have lc: "live_count (slots_of p) \<le> unat (slot_count (pg_header p))"
    using live_count_le [of "slots_of p"] by simp
  then have small: "live_count (slots_of p) < 509" using sid(2) by (simp add: page_consts)
  show ?thesis
    using small live_at_le(2) [of "unat sid" "slots_of p"]
    by (cases "slots_of p ! unat sid")
      (auto simp: live_store wfp(8) unat_u16_add word_le_nat_alt nth_slots_of slot_val_def not_le
        split: if_splits)
qed

lemma stored_page_run_ok:
  assumes wf: "wf_sp p" and room: "store_need (slots_of p) (unat sid) t \<le> SlottedPage_freeSpace p"
  defines "tc \<equiv> (if slot_count (pg_header p) \<le> sid \<or> isDeleted (slot_at (body p) (unat sid))
     then tuple_count (sph_of (body p)) + 1 else tuple_count (sph_of (body p)))"
  shows "wf_sp (stored_page p (unat sid) t tc) \<and>
    slots_of (stored_page p (unat sid) t tc) = store (slots_of p) (unat sid) t \<and>
    SlottedPage_freeSpace (stored_page p (unat sid) t tc) =
      SlottedPage_freeSpace p - store_need (slots_of p) (unat sid) t \<and>
    sp_frame (stored_page p (unat sid) t tc) = sp_frame p"
proof (rule stored_page_ok [OF wf room])
  have "kSpHeaderSize + Suc (unat sid) * kSlotSize \<le> kPageBodySize"
    using place_tuple_wf(3) [OF wf store_room(1) [OF wf room]]
    by (intro dir_bound [OF store_room(2) [OF wf room]]) simp
  then show "unat tc = live_count (store (slots_of p) (unat sid) t)"
    unfolding tc_def using wf_spD(3,4) [OF wf] by (intro stored_tuple_count [OF wf]) (simp_all add: page_consts)
qed

text \<open>
  \<open>insertTupleAtSlot\<close>, the operation redo and undo use: on a well-formed page it never
  leaves the body; it refuses an empty tuple, it refuses a tuple that does not fit together
  with the directory entries needed to reach the slot, and otherwise puts the tuple at
  exactly the requested slot, creating deleted slots in between and replacing what was there.
\<close>

lemma insertTupleAtSlot_spec:
  assumes "wf_sp p"
  shows "if t = [] then SlottedPage_insertTupleAtSlot p sid t = Some (InvalidArg, p)
    else if SlottedPage_freeSpace p < store_need (slots_of p) (unat sid) t
    then SlottedPage_insertTupleAtSlot p sid t = Some (IoError, p)
    else \<exists>p'. SlottedPage_insertTupleAtSlot p sid t = Some (Ok, p') \<and> wf_sp p' \<and>
      slots_of p' = store (slots_of p) (unat sid) t \<and>
      SlottedPage_freeSpace p' = SlottedPage_freeSpace p - store_need (slots_of p) (unat sid) t \<and>
      sp_frame p' = sp_frame p"
proof -
  have "sp_available (sph_of (body p)) = SlottedPage_freeSpace p"
    by (simp add: sp_available_wf freeSpace_wf assms)
  then have fail: "SlottedPage_insertTupleAtSlot p sid t = Some (IoError, p)"
    if "t \<noteq> []" "SlottedPage_freeSpace p < store_need (slots_of p) (unat sid) t"
    using that by (auto simp: SlottedPage_insertTupleAtSlot_def readSpHeader_eq wf_spD(1) [OF assms]
        store_need_def word_le_nat_alt Suc_diff_le Let_def)
  show ?thesis
    using fail insertTupleAtSlot_run [OF assms, of t sid] stored_page_run_ok [OF assms, of sid t]
    by (auto simp: SlottedPage_insertTupleAtSlot_def not_less simp del: length_store)
qed

lemma updateTuple_run:
  assumes wf: "wf_sp p" and sid: "sid < slot_count (pg_header p)" "\<not> isDeleted (slot_at (body p) (unat sid))"
    and t: "t \<noteq> []" and room: "length t \<le> SlottedPage_freeSpace p"
  shows "SlottedPage_updateTuple p sid t =
    Some (Ok, stored_page p (unat sid) t (tuple_count (sph_of (body p))))"
proof -
  note wfp = wf_spD [OF wf]
  define i where "i = unat sid"
  have su: "unat sid = i" and lt: "i < unat (slot_count (pg_header p))"
    using sid(1) by (simp_all add: i_def word_less_nat_alt)
  define nfe where "nfe = unat (free_space_end (sph_of (body p))) - length t"
  note pl = place_tuple_wf [OF wf room, folded nfe_def]
  have len: "length t \<le> sp_available (sph_of (body p))"
    using room by (simp add: sp_available_wf freeSpace_wf wf)
  have wf1: "wf_Page (set_body p (overwrite (body p) nfe t))" using wfp(1) pl(5) by simp
  have hdr: "upd_header (\<lambda>g. g\<lparr>free_space_ptr := free_space_start (sph_of (body p))\<rparr>) (set_body p b) = set_body p b" for b
    by (simp add: upd_header_def set_body_def wfp(5) [symmetric])
  show ?thesis
    using sid lt t len pl wf1 slot_in_page [OF wf lt] readSlot_wf [OF wf sid(1)] hdr
    by (simp add: SlottedPage_updateTuple_def readSpHeader_eq Let_def su stored_page_def
        nfe_def [symmetric] writeSlot_eq writeSpHeader_eq wfp(1) empties_def not_le not_less)
qed

text \<open>
  \<open>updateTuple\<close> replaces the tuple of a live slot and nothing else; it reports \<open>NotFound\<close>
  past the directory, \<open>InvalidArg\<close> for a deleted slot or an empty tuple and \<open>IoError\<close> when the
  new bytes do not fit in the free zone (the old ones are only reclaimed by \<open>compact\<close>).
\<close>

lemma updateTuple_spec:
  assumes "wf_sp p"
  shows "if t = [] then SlottedPage_updateTuple p sid t = Some (InvalidArg, p)
    else if unat sid \<ge> length (slots_of p) then SlottedPage_updateTuple p sid t = Some (NotFound, p)
    else if slots_of p ! unat sid = None then SlottedPage_updateTuple p sid t = Some (InvalidArg, p)
    else if SlottedPage_freeSpace p < length t then SlottedPage_updateTuple p sid t = Some (IoError, p)
    else \<exists>p'. SlottedPage_updateTuple p sid t = Some (Ok, p') \<and> wf_sp p' \<and>
      slots_of p' = (slots_of p)[unat sid := Some t] \<and>
      SlottedPage_freeSpace p' = SlottedPage_freeSpace p - length t \<and> sp_frame p' = sp_frame p"
proof (cases "t \<noteq> [] \<and> unat sid < length (slots_of p) \<and> slots_of p ! unat sid \<noteq> None \<and>
    length t \<le> SlottedPage_freeSpace p")
  case False
  have "sp_available (sph_of (body p)) = SlottedPage_freeSpace p"
    by (simp add: sp_available_wf freeSpace_wf assms)
  with False show ?thesis
    by (auto simp: SlottedPage_updateTuple_def readSlot_wf [OF assms] readSpHeader_eq wf_spD(1) [OF assms]
        nth_slots_of slot_val_def word_le_nat_alt word_less_nat_alt not_le)
next
  case True
  then have sid: "sid < slot_count (pg_header p)" "\<not> isDeleted (slot_at (body p) (unat sid))"
    "\<not> slot_count (pg_header p) \<le> sid"
    by (auto simp: word_less_nat_alt nth_slots_of word_le_nat_alt slot_val_def split: if_splits)
  have need: "store_need (slots_of p) (unat sid) t = length t"
    using True by (simp add: store_need_def)
  then have "store_need (slots_of p) (unat sid) t \<le> SlottedPage_freeSpace p" using True by simp
  note ok = stored_page_run_ok [OF assms this]
  show ?thesis
    using True sid ok need updateTuple_run [OF assms sid(1,2)] by (auto simp: store_def)
qed

subsubsection \<open>Compaction\<close>

lemma slot_val_deleted [simp]: "isDeleted s \<Longrightarrow> slot_val b s = None"
  by simp

definition vals_at :: "byte list \<Rightarrow> nat list \<Rightarrow> Tuple option list" where
  "vals_at b is = map (\<lambda>i. slot_val b (slot_at b i)) is"

text \<open>
  The state of the compaction loop after the slots \<open>is\<close>: the directory entries of \<open>is\<close> point
  into the scratch buffer between the write pointers and describe the same tuples there;
  nothing else of the page moved.
\<close>

definition compacted :: "Page \<Rightarrow> byte list \<Rightarrow> u16 \<Rightarrow> nat list \<Rightarrow> Page \<times> byte list \<times> u16 \<Rightarrow> bool" where
  "compacted p scratch wp is r = (case r of (p1, scratch1, wp1) \<Rightarrow>
     pg_header p1 = pg_header p \<and> wf_Page p1 \<and> length scratch1 = kPageBodySize \<and>
     sph_of (body p1) = sph_of (body p) \<and>
     unat wp1 + live_bytes (vals_at (body p) is) = unat wp \<and>
     (\<forall>j. j \<notin> set is \<longrightarrow> slot_at (body p1) j = slot_at (body p) j) \<and>
     (\<forall>j\<in>set is. slot_val scratch1 (slot_at (body p1) j) = slot_val (body p) (slot_at (body p) j) \<and>
        (\<not> isDeleted (slot_at (body p1) j) \<longrightarrow> unat wp1 \<le> unat (slot_offset (slot_at (body p1) j)) \<and>
           unat (slot_offset (slot_at (body p1) j)) + unat (slot_length (slot_at (body p1) j)) \<le> unat wp)) \<and>
     (\<forall>k m. unat wp \<le> k \<longrightarrow> slice scratch1 k m = slice scratch k m))"

lemma compact_loop_ok:
  assumes "wf_Page p" "length scratch = kPageBodySize" "distinct is"
    and "\<forall>i\<in>set is. kSpHeaderSize + Suc i * kSlotSize \<le> D \<and> (isDeleted (slot_at (body p) i) \<or>
      D \<le> unat (slot_offset (slot_at (body p) i)) \<and>
      unat (slot_offset (slot_at (body p) i)) + unat (slot_length (slot_at (body p) i)) \<le> kPageBodySize)"
    and "live_bytes (vals_at (body p) is) \<le> unat wp" "unat wp \<le> kPageBodySize" "D \<le> kPageBodySize"
  shows "\<exists>r. compact_loop p scratch wp is = Some r \<and> compacted p scratch wp is r"
  using assms
proof (induction "is" arbitrary: p scratch wp)
  case Nil
  then show ?case by (simp add: compacted_def vals_at_def)
next
  case (Cons i "is")
  let ?b = "body p"
  define s where "s = slot_at ?b i"
  have i: "i < 65536" "kSpHeaderSize + Suc i * kSlotSize \<le> D" "kSpHeaderSize + Suc i * kSlotSize \<le> kPageBodySize"
    using Cons.prems(4,7) by (auto simp: page_consts)
  have rs: "readSlot p (word_of_nat i) = Some s"
    using Cons.prems(1) i by (simp add: readSlot_eq s_def)
  show ?case
  proof (cases "isDeleted s")
    case True
    then have v: "vals_at ?b (i # is) = None # vals_at ?b is" by (simp add: vals_at_def s_def slot_val_def)
    obtain r where r: "compact_loop p scratch wp is = Some r" "compacted p scratch wp is r"
      using Cons.IH [of p scratch wp] Cons.prems v by auto
    then have "compacted p scratch wp (i # is) r"
      using True Cons.prems(3) v by (auto simp: compacted_def s_def split: prod.splits)
    with r True rs show ?thesis by auto
  next
    case False
    define len off where "len = unat (slot_length s)" and "off = unat (slot_offset s)"
    define t where "t = slice ?b off len"
    have so: "D \<le> off" "off + len \<le> kPageBodySize" using Cons.prems(4) False by (auto simp: s_def len_def off_def)
    have tl: "length t = len" using so Cons.prems(1) by (simp add: t_def)
    have v: "vals_at ?b (i # is) = Some t # vals_at ?b is"
      using False by (simp add: vals_at_def s_def slot_val_def t_def off_def len_def)
    then have le: "len \<le> unat wp" "len + live_bytes (vals_at ?b is) \<le> unat wp" using Cons.prems(5) tl by auto
    define wp1 where "wp1 = wp - slot_length s"
    have wp1: "unat wp1 = unat wp - len" using le(1) by (simp add: wp1_def len_def unat_sub word_le_nat_alt)
    define p1 where "p1 = set_body p (put_slot ?b i (s\<lparr>slot_offset := wp1\<rparr>))"
    define sc1 where "sc1 = overwrite scratch (unat wp1) t"
    have b1: "wf_Page p1" "pg_header p1 = pg_header p" "sph_of (body p1) = sph_of ?b"
      "\<And>j. slot_at (body p1) j = (if j = i then s\<lparr>slot_offset := wp1\<rparr> else slot_at ?b j)"
      "\<And>k m. D \<le> k \<Longrightarrow> k \<le> kPageBodySize \<Longrightarrow> slice (body p1) k m = slice ?b k m"
      using Cons.prems(1) i by (auto simp: p1_def sph_of_put_slot slot_at_put_slot slice_put_slot)
    have sc: "length sc1 = kPageBodySize" using Cons.prems(2,6) wp1 le tl by (simp add: sc1_def)
    have same: "slot_val (body p1) (slot_at (body p1) j) = slot_val ?b (slot_at ?b j)" if "j \<in> set is" for j
      using that Cons.prems(3,4) b1(4,5) by (auto simp: slot_val_def)
    then have vs: "vals_at (body p1) is = vals_at ?b is" by (simp add: vals_at_def)
    have sub: "\<forall>j\<in>set is. kSpHeaderSize + Suc j * kSlotSize \<le> D \<and> (isDeleted (slot_at (body p1) j) \<or>
        D \<le> unat (slot_offset (slot_at (body p1) j)) \<and>
        unat (slot_offset (slot_at (body p1) j)) + unat (slot_length (slot_at (body p1) j)) \<le> kPageBodySize)"
    proof
      fix j assume "j \<in> set is"
      moreover from this Cons.prems(3) have "slot_at (body p1) j = slot_at ?b j" by (auto simp: b1(4))
      ultimately show "kSpHeaderSize + Suc j * kSlotSize \<le> D \<and> (isDeleted (slot_at (body p1) j) \<or>
        D \<le> unat (slot_offset (slot_at (body p1) j)) \<and>
        unat (slot_offset (slot_at (body p1) j)) + unat (slot_length (slot_at (body p1) j)) \<le> kPageBodySize)"
        using Cons.prems(4) by simp
    qed
    have room: "live_bytes (vals_at (body p1) is) \<le> unat wp1" "unat wp1 \<le> kPageBodySize"
      unfolding vs wp1 using le(2) Cons.prems(6) by linarith+
    obtain p2 sc2 wp2 where r: "compact_loop p1 sc1 wp1 is = Some (p2, sc2, wp2)"
        "compacted p1 sc1 wp1 is (p2, sc2, wp2)"
      using Cons.IH [OF b1(1) sc _ sub room Cons.prems(7)] Cons.prems(3) by auto
    have run: "compact_loop p scratch wp (i # is) = compact_loop p1 sc1 wp1 is"
      using rs False so tl i Cons.prems(1,2,6) wp1 le
      by (simp add: writeSlot_eq p1_def sc1_def t_def off_def [symmetric] len_def [symmetric] wp1_def [symmetric] Let_def)
    have i2: "slot_at (body p2) i = s\<lparr>slot_offset := wp1\<rparr>" "i \<notin> set is"
      using r(2) Cons.prems(3) b1(4) by (auto simp: compacted_def)
    have "slice sc2 (unat wp1) len = t"
      using r(2) Cons.prems(2,6) wp1 le tl by (simp add: compacted_def sc1_def slice_overwrite_same)
    then have iv: "slot_val sc2 (slot_at (body p2) i) = slot_val ?b (slot_at ?b i)"
      using False by (simp add: i2 slot_val_def isDeleted_def s_def [symmetric] t_def len_def off_def)
    have "slice sc2 k m = slice scratch k m" if "unat wp \<le> k" for k m
      using r(2) that Cons.prems(2,6) wp1 le tl
      by (simp add: compacted_def sc1_def slice_overwrite_after)
    then have "compacted p scratch wp (i # is) (p2, sc2, wp2)"
      using r(2) i2 iv same vs v tl wp1 le b1 by (auto simp: compacted_def len_def)
    with r(1) run show ?thesis by auto
  qed
qed

lemma vals_at_rev: "live_bytes (vals_at b (rev is)) = live_bytes (vals_at b is)"
  by (simp add: vals_at_def live_bytes_def rev_map [symmetric])

lemma slots_of_vals_at: "slots_of p = vals_at (body p) [0..<unat (slot_count (pg_header p))]"
  by (simp add: slots_of_def vals_at_def)

lemma slice_splice:
  assumes "length b = n" "length c = n" "w \<le> n"
  shows "k + m \<le> w \<Longrightarrow> slice (take w b @ drop w c) k m = slice b k m"
    and "w \<le> k \<Longrightarrow> slice (take w b @ drop w c) k m = slice c k m"
  using assms by (auto simp: slice_def drop_take min_def)

lemma compact_run:
  fixes p :: Page
  defines "n \<equiv> unat (slot_count (pg_header p))"
  assumes wf: "wf_sp p"
  obtains p1 sc1 wp where
    "compact_loop p (replicate kPageBodySize 0) (word_of_nat kPageBodySize) (rev [0..<n]) = Some (p1, sc1, wp)"
    "compacted p (replicate kPageBodySize 0) (word_of_nat kPageBodySize) (rev [0..<n]) (p1, sc1, wp)"
    "unat wp = kPageBodySize - live_bytes (slots_of p)"
    "unat (free_space_end (sph_of (body p))) \<le> unat wp" "unat wp \<le> kPageBodySize"
proof -
  note wfp = wf_spD [OF wf]
  let ?D = "kSpHeaderSize + n * kSlotSize" and ?w = "word_of_nat kPageBodySize :: u16"
  have w: "unat ?w = kPageBodySize" by (simp add: page_consts)
  have D: "?D \<le> unat (free_space_end (sph_of (body p)))" "?D \<le> kPageBodySize"
    using wfp(3,4) by (simp_all add: n_def)
  have lb: "live_bytes (vals_at (body p) (rev [0..<n])) = live_bytes (slots_of p)"
    by (simp add: vals_at_rev slots_of_vals_at n_def)
  have all: "\<forall>i\<in>set (rev [0..<n]). kSpHeaderSize + Suc i * kSlotSize \<le> ?D \<and> (isDeleted (slot_at (body p) i) \<or>
      ?D \<le> unat (slot_offset (slot_at (body p) i)) \<and>
      unat (slot_offset (slot_at (body p) i)) + unat (slot_length (slot_at (body p) i)) \<le> kPageBodySize)"
    using wfp(6) D(1) by (fastforce simp: slot_ok_def n_def)
  have lw: "live_bytes (vals_at (body p) (rev [0..<n])) \<le> unat ?w" unfolding lb w using wfp(7) by simp
  obtain p1 sc1 wp where r: "compact_loop p (replicate kPageBodySize 0) ?w (rev [0..<n]) = Some (p1, sc1, wp)"
      "compacted p (replicate kPageBodySize 0) ?w (rev [0..<n]) (p1, sc1, wp)"
    using compact_loop_ok [OF wfp(1) _ _ all, of "replicate kPageBodySize 0" ?w] D lw w by auto
  from r(2) have "unat wp + live_bytes (slots_of p) = kPageBodySize" by (simp add: compacted_def lb w)
  with wfp(4,7) show thesis by (intro that [OF r]) auto
qed

lemma compact_spec:
  assumes wf: "wf_sp p"
  shows "\<exists>p'. SlottedPage_compact p = Some (Ok, SlottedPage_freeSpace p' - SlottedPage_freeSpace p, p') \<and>
    wf_sp p' \<and> slots_of p' = slots_of p \<and> sp_frame p' = sp_frame p \<and>
    SlottedPage_freeSpace p \<le> SlottedPage_freeSpace p' \<and>
    SlottedPage_freeSpace p' = kPageBodySize - (kSpHeaderSize + length (slots_of p) * kSlotSize) - live_bytes (slots_of p)"
proof -
  note wfp = wf_spD [OF wf]
  let ?n = "unat (slot_count (pg_header p))" and ?h = "sph_of (body p)"
  obtain p1 sc1 wp where r: "compact_loop p (replicate kPageBodySize 0) (word_of_nat kPageBodySize) (rev [0..<?n]) = Some (p1, sc1, wp)"
    and c: "compacted p (replicate kPageBodySize 0) (word_of_nat kPageBodySize) (rev [0..<?n]) (p1, sc1, wp)"
    and wp: "unat wp = kPageBodySize - live_bytes (slots_of p)" "unat (free_space_end ?h) \<le> unat wp" "unat wp \<le> kPageBodySize"
    by (rule compact_run [OF wf])
  define b2 where "b2 = take (unat wp) (body p1) @ drop (unat wp) sc1"
  define h' where "h' = ?h\<lparr>free_space_end := wp\<rparr>"
  define p' where "p' = set_body p1 (put_sph b2 h')"
  have c1: "pg_header p1 = pg_header p" "wf_Page p1" "length sc1 = kPageBodySize" "sph_of (body p1) = ?h"
    using c by (simp_all add: compacted_def)
  have b2: "length b2 = kPageBodySize" using c1 wp by (simp add: b2_def)
  have p': "wf_Page p'" "pg_header p' = pg_header p" "body p' = put_sph b2 h'" "sph_of (body p') = h'"
    using c1 b2 by (simp_all add: p'_def sph_of_put_sph)
  have run: "SlottedPage_compact p = Some (Ok, unat wp - unat (free_space_end ?h), p')"
    using r wp(2) c1 b2 unfolding SlottedPage_compact_def b2_def [symmetric]
    by (simp add: readSpHeader_eq wfp(1) writeSpHeader_eq Let_def b2_def [symmetric] p'_def h'_def word_le_nat_alt)
  have dir: "kSpHeaderSize + Suc j * kSlotSize \<le> unat wp" if "j < ?n" for j
    using that wfp(3) wp(2) by simp
  have slot: "slot_at (body p') j = slot_at (body p1) j" if "j < ?n" for j
    using dir [OF that] slice_splice(1) [OF _ c1(3) wp(3), of "body p1"] c1(2)
    by (simp add: p' slot_at_put_sph b2) (simp add: slot_at_def b2_def)
  have sl: "slice (body p') k m = slice sc1 k m" if "unat wp \<le> k" for k m
    using that slice_splice(2) [OF _ c1(3) wp(3), of "body p1"] c1(2) wfp(3) wp(2)
    by (simp add: p' slice_put_sph b2) (simp add: b2_def)
  have entry: "slot_val (body p') (slot_at (body p') j) = slots_of p ! j \<and> slot_ok (body p') (slot_at (body p') j)"
    if "j < length (slots_of p)" for j
    using that c sl slot [of j] by (auto simp: compacted_def nth_slots_of slot_val_def slot_ok_def p'(4) h'_def page_consts
        split: if_splits)
  have counters: "unat (free_space_start (sph_of (body p'))) = kSpHeaderSize + length (slots_of p) * kSlotSize"
    "unat (free_space_start (sph_of (body p'))) \<le> unat (free_space_end (sph_of (body p')))"
    "unat (free_space_end (sph_of (body p'))) + live_bytes (slots_of p) \<le> kPageBodySize"
    "free_space_ptr (pg_header p') = free_space_start (sph_of (body p'))"
    "unat (tuple_count (sph_of (body p'))) = live_count (slots_of p)"
    using wfp(2-5,7,8) wp by (simp_all add: p'(2,4) h'_def)
  note res = wf_spI [OF p'(1) _ entry counters, simplified p'(2) length_slots_of, simplified]
  have "sp_frame p' = sp_frame p" using wfp(1) by (simp add: sp_frame_eq p'(1,2,4) h'_def)
  with run res wp wfp(2,3) show ?thesis by (auto simp: freeSpace_wf [OF wf] p'(2,4) h'_def)
qed

subsubsection \<open>Links and fullness\<close>

lemma set_links_spec:
  assumes "wf_sp p" and "q = setNextPageId p i \<or> q = setPrevPageId p i"
  shows "wf_sp q" "slots_of q = slots_of p" "SlottedPage_freeSpace q = SlottedPage_freeSpace p"
    "pg_header q = pg_header p"
proof -
  note wfp = wf_spD [OF assms(1)]
  obtain h' where q: "q = set_body p (put_sph (body p) h')" and h':
      "free_space_start h' = free_space_start (sph_of (body p))" "free_space_end h' = free_space_end (sph_of (body p))"
      "tuple_count h' = tuple_count (sph_of (body p))"
    using assms(2) by (auto simp: setNextPageId_def setPrevPageId_def readSpHeader_eq writeSpHeader_eq wfp(1))
  have b: "wf_Page q" "pg_header q = pg_header p" "sph_of (body q) = h'"
    "\<And>j. slot_at (body q) j = slot_at (body p) j"
    "\<And>k m. kSpHeaderSize \<le> k \<Longrightarrow> slice (body q) k m = slice (body p) k m"
    using wfp(1) by (simp_all add: q sph_of_put_sph slot_at_put_sph slice_put_sph)
  have entry: "slot_val (body q) (slot_at (body q) j) = slots_of p ! j \<and> slot_ok (body q) (slot_at (body q) j)"
    if "j < length (slots_of p)" for j
    using that slot_ok_view [OF assms(1), of j] wfp(3) b(5)
    by (auto simp: b(3,4) nth_slots_of slot_val_def slot_ok_def h')
  have counters: "unat (free_space_start (sph_of (body q))) = kSpHeaderSize + length (slots_of p) * kSlotSize"
    "unat (free_space_start (sph_of (body q))) \<le> unat (free_space_end (sph_of (body q)))"
    "unat (free_space_end (sph_of (body q))) + live_bytes (slots_of p) \<le> kPageBodySize"
    "free_space_ptr (pg_header q) = free_space_start (sph_of (body q))"
    "unat (tuple_count (sph_of (body q))) = live_count (slots_of p)"
    using wfp(2-5,7,8) by (simp_all add: b h')
  note res = wf_spI [OF b(1) _ entry counters, simplified b(2) length_slots_of, simplified]
  show "wf_sp q" "slots_of q = slots_of p" "pg_header q = pg_header p" using res b by simp_all
  show "SlottedPage_freeSpace q = SlottedPage_freeSpace p"
    using res(3) wfp(2) by (simp add: freeSpace_wf [OF assms(1)] b(3) h')
qed

lemma links_set [simp]:
  assumes "wf_Page p"
  shows "getNextPageId (setNextPageId p i) = i" "getPrevPageId (setNextPageId p i) = getPrevPageId p"
    "getPrevPageId (setPrevPageId p i) = i" "getNextPageId (setPrevPageId p i) = getNextPageId p"
  using assms by (simp_all add: setNextPageId_def setPrevPageId_def getNextPageId_def getPrevPageId_def
      readSpHeader_eq writeSpHeader_eq sph_of_put_sph)

lemma isFull_spec:
  assumes "wf_sp p"
  shows "SlottedPage_isFull p n = Some (SlottedPage_freeSpace p < n + (if None \<in> set (slots_of p) then 0 else kSlotSize))"
  using assms first_none_None [of "slots_of p"]
  by (cases "first_none (slots_of p)") (auto simp: SlottedPage_isFull_def find_deleted_first_none)

lemma tupleCount_spec: "wf_sp p \<Longrightarrow> unat (SlottedPage_tupleCount p) = live_count (slots_of p)"
  by (simp add: SlottedPage_tupleCount_def readSpHeader_eq wf_spD)

subsection \<open>The contract of a record page\<close>

text \<open>
  What a client of the record format relies on: an invariant, the slots of a page, and what
  insertion, deletion and reading do to them.  The lemmas are the facts a heap or recovery
  needs; they hold for the slotted page by interpretation.
\<close>

locale record_page =
  fixes inv :: "'p \<Rightarrow> bool" and slots :: "'p \<Rightarrow> Tuple option list" and room :: "'p \<Rightarrow> nat"
    and ins :: "'p \<Rightarrow> Tuple \<Rightarrow> SlotId \<Rightarrow> (Status \<times> SlotId \<times> 'p) option"
    and del :: "'p \<Rightarrow> SlotId \<Rightarrow> (Status \<times> 'p) option"
    and rd :: "'p \<Rightarrow> SlotId \<Rightarrow> Tuple \<Rightarrow> (Status \<times> Tuple) option"
  assumes slots_bound: "inv p \<Longrightarrow> length (slots p) < 65536"
    and ins_law: "inv p \<Longrightarrow> if t = [] then ins p t sid = Some (InvalidArg, sid, p)
      else if insert_need (slots p) t > room p then ins p t sid = Some (IoError, sid, p)
      else \<exists>p'. ins p t sid = Some (Ok, word_of_nat (insert_index (slots p)), p') \<and>
        inv p' \<and> slots p' = store (slots p) (insert_index (slots p)) t"
    and del_law: "inv p \<Longrightarrow> if unat sid \<ge> length (slots p) then del p sid = Some (NotFound, p)
      else if slots p ! unat sid = None then del p sid = Some (InvalidArg, p)
      else \<exists>p'. del p sid = Some (Ok, p') \<and> inv p' \<and> slots p' = (slots p)[unat sid := None]"
    and rd_law: "inv p \<Longrightarrow> rd p sid out = Some
      (if unat sid \<ge> length (slots p) then (NotFound, out)
       else case slots p ! unat sid of None \<Rightarrow> (InvalidArg, out) | Some t \<Rightarrow> (Ok, t))"
begin

lemma ins_Ok:
  assumes "inv p" "ins p t sid = Some (Ok, i, p')"
  shows "t \<noteq> []" "inv p'" "slots p' = store (slots p) (insert_index (slots p)) t"
    "unat i = insert_index (slots p)" "insert_need (slots p) t \<le> room p"
proof -
  have len: "slots p' = store (slots p) (insert_index (slots p)) t \<and>
      inv p' \<and> t \<noteq> [] \<and> i = word_of_nat (insert_index (slots p)) \<and> insert_need (slots p) t \<le> room p"
    using ins_law [OF assms(1), of t sid] assms(2) by (auto split: if_splits)
  then have "insert_index (slots p) < 65536" using slots_bound [of p'] by simp
  with len show "t \<noteq> []" "inv p'" "slots p' = store (slots p) (insert_index (slots p)) t"
    "unat i = insert_index (slots p)" "insert_need (slots p) t \<le> room p" by auto
qed

lemma insert_index_bounds:
  "insert_index xs \<le> length xs" "insert_index xs < length xs \<Longrightarrow> xs ! insert_index xs = None"
  by (cases rule: insert_index_cases [of xs]; simp)+

text \<open>A stored tuple is read back, and no stored tuple is lost by an insertion.\<close>

lemma read_inserted:
  assumes "inv p" "ins p t sid = Some (Ok, i, p')"
  shows "rd p' i out = Some (Ok, t)"
  using ins_Ok [OF assms] by (simp add: rd_law nth_store)

lemma read_kept:
  assumes "inv p" "ins p t sid = Some (Ok, i, p')" "rd p j out = Some (Ok, u)"
  shows "rd p' j out = Some (Ok, u) \<and> j \<noteq> i"
proof -
  have j: "unat j < length (slots p)" "slots p ! unat j = Some u"
    using assms(3) by (auto simp: rd_law [OF assms(1)] split: if_splits option.splits)
  then have "unat j \<noteq> insert_index (slots p)" using insert_index_bounds [of "slots p"] by auto
  with j ins_Ok [OF assms(1,2)] show ?thesis by (auto simp: rd_law nth_store)
qed

lemma read_deleted:
  assumes "inv p" "del p i = Some (Ok, p')"
  shows "rd p' i out = Some (InvalidArg, out) \<and>
    (\<forall>j. j \<noteq> i \<longrightarrow> rd p' j out = rd p j out)"
proof -
  have "inv p' \<and> slots p' = (slots p)[unat i := None] \<and> unat i < length (slots p)"
    using del_law [OF assms(1), of i] assms(2) by (auto split: if_splits)
  then show ?thesis by (auto simp: rd_law assms(1) nth_list_update word_unat_eq_iff)
qed

end

interpretation sp: record_page wf_sp slots_of SlottedPage_freeSpace SlottedPage_insertTuple
    SlottedPage_deleteTuple SlottedPage_readTuple
proof
  fix p :: Page and t :: Tuple and sid :: SlotId and out :: Tuple
  assume wf: "wf_sp p"
  show "length (slots_of p) < 65536" using unsigned_less [of "slot_count (pg_header p)", where ?'a = nat] by simp
  show "if t = [] then SlottedPage_insertTuple p t sid = Some (InvalidArg, sid, p)
      else if insert_need (slots_of p) t > SlottedPage_freeSpace p
      then SlottedPage_insertTuple p t sid = Some (IoError, sid, p)
      else \<exists>p'. SlottedPage_insertTuple p t sid = Some (Ok, word_of_nat (insert_index (slots_of p)), p') \<and>
        wf_sp p' \<and> slots_of p' = store (slots_of p) (insert_index (slots_of p)) t"
    using insertTuple_spec [OF wf, of t sid] by (auto split: if_splits)
  show "if unat sid \<ge> length (slots_of p) then SlottedPage_deleteTuple p sid = Some (NotFound, p)
      else if slots_of p ! unat sid = None then SlottedPage_deleteTuple p sid = Some (InvalidArg, p)
      else \<exists>p'. SlottedPage_deleteTuple p sid = Some (Ok, p') \<and> wf_sp p' \<and>
        slots_of p' = (slots_of p)[unat sid := None]"
    using deleteTuple_spec [OF wf, of sid] by (auto split: if_splits)
  show "SlottedPage_readTuple p sid out = Some
      (if unat sid \<ge> length (slots_of p) then (NotFound, out)
       else case slots_of p ! unat sid of None \<Rightarrow> (InvalidArg, out) | Some t \<Rightarrow> (Ok, t))"
    by (rule readTuple_spec [OF wf])
qed

subsection \<open>Properties\<close>

text \<open>
  C7. On a well-formed page \<open>insertTuple\<close> never leaves the body (the result is not \<open>None\<close>).
  It rejects an empty tuple; it reports \<open>IoError\<close> and changes nothing when the free zone
  cannot take the tuple and, unless a deleted slot is reused, a new directory entry; otherwise
  it stores the tuple in the first deleted slot, or in a new last slot, and every other slot
  keeps its tuple.  The page stays well-formed and the links and identity are untouched.
\<close>

theorem insertTuple_refines:
  assumes "wf_sp p"
  shows "if t = [] then SlottedPage_insertTuple p t sid = Some (InvalidArg, sid, p)
    else if insert_need (slots_of p) t > SlottedPage_freeSpace p
    then SlottedPage_insertTuple p t sid = Some (IoError, sid, p)
    else \<exists>p'. SlottedPage_insertTuple p t sid = Some (Ok, word_of_nat (insert_index (slots_of p)), p') \<and>
      wf_sp p' \<and> slots_of p' = store (slots_of p) (insert_index (slots_of p)) t \<and>
      SlottedPage_freeSpace p' = SlottedPage_freeSpace p - insert_need (slots_of p) t \<and>
      sp_frame p' = sp_frame p"
  using insertTuple_spec [OF assms] .

definition empty_page :: Page where
  "empty_page = snd (SlottedPage_initialize default_Page)"

lemma empty_page_ok [simp]:
  "wf_sp empty_page" "slots_of empty_page = []" "SlottedPage_freeSpace empty_page = 4056"
  "unat (slot_count (pg_header empty_page)) = 0"
  using initialize_ok [of default_Page] length_slots_of [of empty_page]
  by (simp_all add: empty_page_def)

lemma store_Nil [simp]: "insert_index ([] :: 'a option list) = 0" "store [] 0 t = [Some t]"
  "insert_need [] u = length u + 8"
  by (simp_all add: insert_index_def first_none_def store_def insert_need_def)

theorem insertTuple_refines_witness:
  "\<exists>p'. SlottedPage_insertTuple empty_page [7, 8, 9] 0 = Some (Ok, 0, p') \<and> slots_of p' = [Some [7, 8, 9]] \<and>
     SlottedPage_freeSpace p' = 4045"
  using insertTuple_refines [of empty_page "[7, 8, 9]" 0] by auto

text \<open>
  Record round trip on a page.  After a successful insertion the tuple is read back from
  the slot that was returned, and every tuple readable before is still readable, unchanged,
  at its own slot.  (Derived in the record-page contract and instantiated at the slotted page.)
\<close>

theorem insert_read_roundtrip:
  assumes "wf_sp p" "SlottedPage_insertTuple p t sid = Some (Ok, i, p')"
  shows "SlottedPage_readTuple p' i out = Some (Ok, t) \<and>
    (\<forall>j u. SlottedPage_readTuple p j out = Some (Ok, u) \<longrightarrow>
       j \<noteq> i \<and> SlottedPage_readTuple p' j out = Some (Ok, u))"
  using sp.read_inserted [OF assms] sp.read_kept [OF assms] by blast

definition one_tuple_page :: Page where
  "one_tuple_page = inserted_page empty_page 0 [1, 2]"

lemma one_tuple_page_run: "SlottedPage_insertTuple empty_page [1, 2] 0 = Some (Ok, 0, one_tuple_page)"
  using insertTuple_run [of empty_page "[1, 2]" 0] by (simp add: one_tuple_page_def)

lemma one_tuple_page_ok [simp]:
  "wf_sp one_tuple_page" "slots_of one_tuple_page = [Some [1, 2]]"
  "SlottedPage_freeSpace one_tuple_page = 4046" "unat (slot_count (pg_header one_tuple_page)) = 1"
  using insertTuple_spec [of empty_page "[1, 2]" 0] one_tuple_page_run length_slots_of [of one_tuple_page]
  by auto

theorem insert_read_roundtrip_witness:
  "SlottedPage_insertTuple empty_page [1, 2] 0 = Some (Ok, 0, one_tuple_page) \<and>
   SlottedPage_readTuple one_tuple_page 0 [] = Some (Ok, [1, 2])"
  using insert_read_roundtrip [OF _ one_tuple_page_run, of "[]"] one_tuple_page_run by simp

text \<open>
  Deletion: \<open>deleteTuple\<close> marks exactly the slot of the tuple and keeps the others, the
  free space, the links and the identity; past the directory it is \<open>NotFound\<close>, on a slot
  already deleted \<open>InvalidArg\<close>, with no change.
\<close>

theorem deleteTuple_refines:
  assumes "wf_sp p"
  shows "if unat sid \<ge> length (slots_of p) then SlottedPage_deleteTuple p sid = Some (NotFound, p)
    else if slots_of p ! unat sid = None then SlottedPage_deleteTuple p sid = Some (InvalidArg, p)
    else \<exists>p'. SlottedPage_deleteTuple p sid = Some (Ok, p') \<and> wf_sp p' \<and>
      slots_of p' = (slots_of p)[unat sid := None] \<and>
      SlottedPage_freeSpace p' = SlottedPage_freeSpace p \<and> sp_frame p' = sp_frame p"
  using deleteTuple_spec [OF assms] .

theorem deleteTuple_refines_witness:
  "\<exists>p'. SlottedPage_deleteTuple one_tuple_page 0 = Some (Ok, p') \<and> slots_of p' = [None]"
  using deleteTuple_refines [of one_tuple_page 0] by auto

text \<open>
  \<open>insertTupleAtSlot\<close>, the operation redo and undo use: on a well-formed page it never
  leaves the body; it refuses an empty tuple, it refuses a tuple that does not fit together
  with the directory entries needed to reach the slot, and otherwise puts the tuple at
  exactly the requested slot, creating deleted slots in between and replacing what was there.
\<close>

theorem insertTupleAtSlot_refines:
  assumes "wf_sp p"
  shows "if t = [] then SlottedPage_insertTupleAtSlot p sid t = Some (InvalidArg, p)
    else if SlottedPage_freeSpace p < store_need (slots_of p) (unat sid) t
    then SlottedPage_insertTupleAtSlot p sid t = Some (IoError, p)
    else \<exists>p'. SlottedPage_insertTupleAtSlot p sid t = Some (Ok, p') \<and> wf_sp p' \<and>
      slots_of p' = store (slots_of p) (unat sid) t \<and>
      SlottedPage_freeSpace p' = SlottedPage_freeSpace p - store_need (slots_of p) (unat sid) t \<and>
      sp_frame p' = sp_frame p"
  using insertTupleAtSlot_spec [OF assms] .

theorem insertTupleAtSlot_refines_witness:
  "\<exists>p'. SlottedPage_insertTupleAtSlot empty_page 1 [5] = Some (Ok, p') \<and> slots_of p' = [None, Some [5]]"
  using insertTupleAtSlot_refines [of empty_page "[5]" 1]
  by (auto simp: store_need_def store_def)

text \<open>
  C11. \<open>updateTuple\<close> replaces the tuple of a live slot and nothing else; it reports \<open>NotFound\<close>
  past the directory, \<open>InvalidArg\<close> for a deleted slot or an empty tuple and \<open>IoError\<close> when the
  new bytes do not fit in the free zone (the old ones are only reclaimed by \<open>compact\<close>).
\<close>

theorem updateTuple_refines:
  assumes "wf_sp p"
  shows "if t = [] then SlottedPage_updateTuple p sid t = Some (InvalidArg, p)
    else if unat sid \<ge> length (slots_of p) then SlottedPage_updateTuple p sid t = Some (NotFound, p)
    else if slots_of p ! unat sid = None then SlottedPage_updateTuple p sid t = Some (InvalidArg, p)
    else if SlottedPage_freeSpace p < length t then SlottedPage_updateTuple p sid t = Some (IoError, p)
    else \<exists>p'. SlottedPage_updateTuple p sid t = Some (Ok, p') \<and> wf_sp p' \<and>
      slots_of p' = (slots_of p)[unat sid := Some t] \<and>
      SlottedPage_freeSpace p' = SlottedPage_freeSpace p - length t \<and> sp_frame p' = sp_frame p"
  using updateTuple_spec [OF assms] .

theorem updateTuple_refines_witness:
  "\<exists>p'. SlottedPage_updateTuple one_tuple_page 0 [4, 4, 4] = Some (Ok, p') \<and> slots_of p' = [Some [4, 4, 4]]"
  using updateTuple_refines [of one_tuple_page "[4, 4, 4]" 0] by auto

text \<open>
  Compaction loses nothing and reclaims everything: \<open>compact\<close> succeeds on every well-formed
  page without leaving the body or the scratch buffer, keeps every slot and its tuple, reports
  exactly the bytes gained, and afterwards the free zone is the whole body less the header,
  the directory and the live tuples.
\<close>

theorem compact_refines:
  assumes "wf_sp p"
  shows "\<exists>p'. SlottedPage_compact p = Some (Ok, SlottedPage_freeSpace p' - SlottedPage_freeSpace p, p') \<and>
    wf_sp p' \<and> slots_of p' = slots_of p \<and> sp_frame p' = sp_frame p \<and>
    SlottedPage_freeSpace p \<le> SlottedPage_freeSpace p' \<and>
    SlottedPage_freeSpace p' = kPageBodySize - (kSpHeaderSize + length (slots_of p) * kSlotSize) - live_bytes (slots_of p)"
  using compact_spec [OF assms] .

theorem compact_refines_witness:
  "\<exists>p'. SlottedPage_compact one_tuple_page = Some (Ok, 0, p') \<and> slots_of p' = [Some [1, 2]]"
  using compact_refines [of one_tuple_page] by (auto simp: page_consts)

end
