(* ===== verification/DiskManager.thy ===== *)
theory DiskManager
  imports Pages
begin

text \<open>
  \<^verbatim>\<open>DatabaseMetadata\<close> and \<^verbatim>\<open>DiskManager\<close>
  (\<^verbatim>\<open>src/storage/database_metadata.cpp\<close>, \<^verbatim>\<open>src/storage/disk_manager.cpp\<close>).

  The database file is a byte list, \<open>None\<close> when it does not exist.  \<open>dm_stream\<close> and
  \<open>dm_good\<close> are \<open>stream_.is_open()\<close> and \<open>stream_.good()\<close>.  The operating system is the
  oracle \<open>dm_faults\<close>: each input/output call consumes its head, \<open>Some k\<close> makes the call
  fail after it has moved \<open>k\<close> bytes, and past the end of the list no call fails any more.  A
  failing write thus leaves any prefix of its bytes in the file; a read past the end of the file
  copies what there is and fails, a write past it extends the file.  Buffering inside the stream
  is not modelled.
  The random bits of the UUID and the clock are arguments of \<open>createDatabase\<close>.
\<close>

subsection \<open>The metadata record\<close>

record DatabaseMetadata =
  magic :: "byte list"
  version :: u16
  reserved0 :: u16
  page_size :: u32
  meta_page_count :: u64
  free_page_ptr :: PageId
  reserved1 :: u32
  uuid :: "byte list"
  created_at :: u64
  reserved2 :: u64

definition kMetaSize :: nat where "kMetaSize = 64"

definition DatabaseMetadata_bytes :: "DatabaseMetadata \<Rightarrow> byte list" where
  "DatabaseMetadata_bytes m = magic m @ bytes_of_u16 (version m) @ bytes_of_u16 (reserved0 m) @
     bytes_of_u32 (page_size m) @ bytes_of_u64 (meta_page_count m) @
     bytes_of_u32 (DatabaseMetadata.free_page_ptr m) @ bytes_of_u32 (reserved1 m) @ uuid m @
     bytes_of_u64 (created_at m) @ bytes_of_u64 (reserved2 m)"

text \<open>The source copies the host's integers with \<open>memcpy\<close>: little-endian hosts.\<close>

definition DatabaseMetadata_serialize :: "DatabaseMetadata \<Rightarrow> byte list \<Rightarrow> byte list" where
  "DatabaseMetadata_serialize m out = overwrite out 0 (DatabaseMetadata_bytes m)"

definition DatabaseMetadata_deserialize :: "byte list \<Rightarrow> DatabaseMetadata" where
  "DatabaseMetadata_deserialize bs = \<lparr>magic = slice bs 0 8, version = u16_of_bytes (slice bs 8 2),
     reserved0 = u16_of_bytes (slice bs 10 2), page_size = u32_of_bytes (slice bs 12 4),
     meta_page_count = u64_of_bytes (slice bs 16 8),
     free_page_ptr = u32_of_bytes (slice bs 24 4), reserved1 = u32_of_bytes (slice bs 28 4),
     uuid = slice bs 32 16, created_at = u64_of_bytes (slice bs 48 8),
     reserved2 = u64_of_bytes (slice bs 56 8)\<rparr>"

definition hasMagic :: "DatabaseMetadata \<Rightarrow> bool" where
  "hasMagic m = (magic m = kDbMagic)"

definition hasValidVersion :: "DatabaseMetadata \<Rightarrow> bool" where
  "hasValidVersion m = (version m = kFormatVersion)"

subsection \<open>State and stream calls\<close>

record DiskManager =
  dm_file :: "byte list option"
  dm_stream :: bool
  dm_good :: bool
  dm_page_count :: nat
  dm_is_open :: bool
  dm_faults :: "nat option list"

definition mk_DiskManager :: "byte list option \<Rightarrow> nat option list \<Rightarrow> DiskManager" where
  "mk_DiskManager f faults = \<lparr>dm_file = f, dm_stream = False, dm_good = True, dm_page_count = 0,
     dm_is_open = False, dm_faults = faults\<rparr>"

text \<open>\<open>Some k\<close> is a call that fails after it has moved \<open>k\<close> bytes; past the end of the list every call succeeds.\<close>

definition next_fault :: "DiskManager \<Rightarrow> nat option \<times> DiskManager" where
  "next_fault d = (case dm_faults d of [] \<Rightarrow> (None, d) | b # bs \<Rightarrow> (b, d\<lparr>dm_faults := bs\<rparr>))"

definition file_bytes :: "DiskManager \<Rightarrow> byte list" where
  "file_bytes d = (case dm_file d of None \<Rightarrow> [] | Some f \<Rightarrow> f)"

definition file_write :: "byte list \<Rightarrow> nat \<Rightarrow> byte list \<Rightarrow> byte list" where
  "file_write f off bs = overwrite (f @ replicate (off + length bs - length f) 0) off bs"

definition stream_clear :: "DiskManager \<Rightarrow> DiskManager" where
  "stream_clear d = d\<lparr>dm_good := True\<rparr>"

definition stream_read :: "DiskManager \<Rightarrow> nat \<Rightarrow> nat \<Rightarrow> byte list \<times> DiskManager" where
  "stream_read d off n =
    (let (fault, d1) = next_fault d in
     if \<not> dm_stream d \<or> \<not> dm_good d then ([], d1\<lparr>dm_good := False\<rparr>)
     else case fault of
       Some k \<Rightarrow> (slice (file_bytes d) off (min k n), d1\<lparr>dm_good := False\<rparr>)
     | None \<Rightarrow> if off + n \<le> length (file_bytes d) then (slice (file_bytes d) off n, d1)
         else (slice (file_bytes d) off n, d1\<lparr>dm_good := False\<rparr>))"

text \<open>A write that fails may have stored a part of its bytes.\<close>

definition partial_write :: "byte list \<Rightarrow> nat \<Rightarrow> byte list \<Rightarrow> nat \<Rightarrow> byte list" where
  "partial_write f off bs k = (if k = 0 then f else file_write f off (take k bs))"

definition stream_write :: "DiskManager \<Rightarrow> nat \<Rightarrow> byte list \<Rightarrow> DiskManager" where
  "stream_write d off bs =
    (let (fault, d1) = next_fault d in
     if \<not> dm_stream d \<or> \<not> dm_good d then d1\<lparr>dm_good := False\<rparr>
     else case fault of
       Some k \<Rightarrow> d1\<lparr>dm_file := Some (partial_write (file_bytes d) off bs k), dm_good := False\<rparr>
     | None \<Rightarrow> d1\<lparr>dm_file := Some (file_write (file_bytes d) off bs)\<rparr>)"

definition stream_flush :: "DiskManager \<Rightarrow> DiskManager" where
  "stream_flush d =
    (let (fault, d1) = next_fault d in
     if fault \<noteq> None \<or> \<not> dm_stream d \<or> \<not> dm_good d then d1\<lparr>dm_good := False\<rparr> else d1)"

subsection \<open>Lifecycle\<close>

definition generateUuid :: "u64 \<Rightarrow> u64 \<Rightarrow> byte list" where
  "generateUuid hi lo =
    (let buf = bytes_of_u64 hi @ bytes_of_u64 lo;
         buf1 = buf[6 := (buf ! 6 AND 0x0F) OR 0x40]
     in buf1[8 := (buf1 ! 8 AND 0x3F) OR 0x80])"

definition createDatabase :: "u64 \<Rightarrow> u64 \<Rightarrow> u64 \<Rightarrow> DiskManager \<Rightarrow> Status \<times> DiskManager" where
  "createDatabase hi lo now d =
    (if dm_file d \<noteq> None then (AlreadyExists, d)
     else let meta = \<lparr>magic = kDbMagic, version = kFormatVersion, reserved0 = 0,
                page_size = word_of_nat kPageSize, meta_page_count = 1,
                free_page_ptr = kInvalidPageId, reserved1 = 0, uuid = generateUuid hi lo,
                created_at = now, reserved2 = 0\<rparr>;
              meta_buf = DatabaseMetadata_serialize meta (replicate kMetaSize 0);
              page_buf = overwrite (replicate kPageSize 0) 0 meta_buf;
              (open_fault, d1) = next_fault d
          in if open_fault \<noteq> None then (IoError, d1)
             else let d2 = d1\<lparr>dm_file := Some []\<rparr>;
                      (write_fault, d3) = next_fault d2
                  in case write_fault of
                       Some k \<Rightarrow> (IoError, d3\<lparr>dm_file := Some (take k page_buf)\<rparr>)
                     | None \<Rightarrow>
                         let (flush_fault, d4) = next_fault d3
                         in (Ok, d4\<lparr>dm_file := Some (case flush_fault of Some k \<Rightarrow> take k page_buf | None \<Rightarrow> page_buf)\<rparr>))"

text \<open>The flush and the close of the output stream are not checked: a file they leave short is reported as created.\<close>

text \<open>
  \<open>stream_.open\<close> on a stream that is already open fails and sets the error state, but
  \<open>is_open()\<close> stays true: the following read fails and the stream is closed.
\<close>

definition openDatabase :: "DiskManager \<Rightarrow> Status \<times> DiskManager" where
  "openDatabase d = (case dm_file d of None \<Rightarrow> (NotFound, d)
   | Some f \<Rightarrow>
      let (size_fault, d1) = next_fault d in
      if size_fault \<noteq> None \<or> length f < kPageSize then (Corruption, d1)
      else let (open_fault, d2) = next_fault d1;
               d3 = (if dm_stream d2 then d2\<lparr>dm_good := False\<rparr>
                     else if open_fault \<noteq> None then d2\<lparr>dm_good := False\<rparr>
                     else d2\<lparr>dm_stream := True, dm_good := True\<rparr>)
           in if \<not> dm_stream d3 then (IoError, d3)
              else let (bs, d4) = stream_read d3 0 kMetaSize in
                   if \<not> dm_good d4 then (IoError, d4\<lparr>dm_stream := False\<rparr>)
                   else let meta = DatabaseMetadata_deserialize bs in
                        if \<not> hasMagic meta then (Corruption, d4\<lparr>dm_stream := False\<rparr>)
                        else if \<not> hasValidVersion meta then (Corruption, d4\<lparr>dm_stream := False\<rparr>)
                        else (Ok, d4\<lparr>dm_page_count := unat (meta_page_count meta), dm_is_open := True\<rparr>))"

definition closeDatabase :: "DiskManager \<Rightarrow> Status \<times> DiskManager" where
  "closeDatabase d =
    (if \<not> dm_is_open d then (Ok, d)
     else if dm_stream d then
       (let d1 = stream_flush d in
        if \<not> dm_good d1 then (IoError, d1\<lparr>dm_stream := False, dm_is_open := False, dm_page_count := 0\<rparr>)
        else (Ok, d1\<lparr>dm_stream := False, dm_is_open := False, dm_page_count := 0\<rparr>))
     else (Ok, d\<lparr>dm_is_open := False, dm_page_count := 0\<rparr>))"

subsection \<open>Page input and output\<close>

definition read_page_header :: "byte list \<Rightarrow> PageHeader \<Rightarrow> PageHeader" where
  "read_page_header bs h =
    (let (_, lsn, d1) = readUInt64 (mk_Deserializer (slice bs 0 kPageHeaderSize)) (page_lsn h);
         (_, pid, d2) = readUInt32 d1 (page_id h);
         (_, ty, d3) = readUInt8 d2 0;
         (_, fsp, d4) = readUInt16 d3 (PageHeader.free_space_ptr h);
         (_, sc, d5) = readUInt16 d4 (slot_count h);
         (_, ck, d6) = readUInt32 d5 (checksum h)
     in \<lparr>page_lsn = lsn, page_id = pid, page_type = PageType_of_byte ty, free_space_ptr = fsp,
         slot_count = sc, checksum = ck\<rparr>)"

definition write_page_header :: "PageHeader \<Rightarrow> byte list \<Rightarrow> byte list" where
  "write_page_header h bs =
    (let s1 = snd (writeUInt64 (mk_Serializer (slice bs 0 kPageHeaderSize)) (page_lsn h));
         s2 = snd (writeUInt32 s1 (page_id h));
         s3 = snd (writeUInt8 s2 (byte_of_PageType (page_type h)));
         s4 = snd (writeUInt16 s3 (PageHeader.free_space_ptr h));
         s5 = snd (writeUInt16 s4 (slot_count h));
         s6 = snd (writeUInt32 s5 (checksum h))
     in overwrite bs 0 (ser_buffer s6))"

definition readPage :: "DiskManager \<Rightarrow> PageId \<Rightarrow> Page \<Rightarrow> Status \<times> Page \<times> DiskManager" where
  "readPage d i pg =
    (if \<not> dm_is_open d then (IoError, pg, d)
     else if unat i \<ge> dm_page_count d then (InvalidArg, pg, d)
     else let (bs, d1) = stream_read d (unat i * kPageSize) kPageSize;
              pg1 = pg\<lparr>pg_data := overwrite (pg_data pg) 0 bs\<rparr>
          in if \<not> dm_good d1 then (IoError, pg1, stream_clear d1)
             else (Ok, pg1\<lparr>pg_header := read_page_header (pg_data pg1) (pg_header pg1)\<rparr>, d1))"

text \<open>\<open>writePage\<close> stores the header into the page's own bytes first (through a \<open>const_cast\<close>).\<close>

definition writePage :: "DiskManager \<Rightarrow> PageId \<Rightarrow> Page \<Rightarrow> Status \<times> Page \<times> DiskManager" where
  "writePage d i pg =
    (if \<not> dm_is_open d then (IoError, pg, d)
     else if unat i \<ge> dm_page_count d then (InvalidArg, pg, d)
     else let pg1 = pg\<lparr>pg_data := write_page_header (pg_header pg) (pg_data pg)\<rparr>;
              d1 = stream_write d (unat i * kPageSize) (pg_data pg1)
          in if \<not> dm_good d1 then (IoError, pg1, stream_clear d1) else (Ok, pg1, d1))"

definition allocatePage :: "DiskManager \<Rightarrow> PageId \<Rightarrow> Status \<times> PageId \<times> DiskManager" where
  "allocatePage d out =
    (if \<not> dm_is_open d then (IoError, out, d)
     else let new_id = (word_of_nat (dm_page_count d) :: PageId);
              d1 = d\<lparr>dm_page_count := dm_page_count d + 1\<rparr>;
              d2 = stream_write d1 (unat new_id * kPageSize) (pg_data default_Page)
          in if \<not> dm_good d2 then (IoError, new_id, stream_clear d2)
             else let (bs, d3) = stream_read d2 0 kMetaSize;
                      d4 = (if dm_good d3 then
                              (let meta = (DatabaseMetadata_deserialize bs)
                                     \<lparr>meta_page_count := word_of_nat (dm_page_count d3)\<rparr>
                               in stream_write d3 0 (DatabaseMetadata_serialize meta bs))
                            else d3)
                  in (Ok, new_id, stream_clear d4))"

definition sync :: "DiskManager \<Rightarrow> Status \<times> DiskManager" where
  "sync d =
    (if \<not> dm_is_open d \<or> \<not> dm_stream d then (Ok, d)
     else let d1 = stream_flush d in (if dm_good d1 then Ok else IoError, d1))"

subsection \<open>Codecs of the metadata and of the page header\<close>

definition wf_Metadata :: "DatabaseMetadata \<Rightarrow> bool" where
  "wf_Metadata m = (length (magic m) = 8 \<and> length (uuid m) = 16)"

lemma length_Metadata_bytes [simp]: "wf_Metadata m \<Longrightarrow> length (DatabaseMetadata_bytes m) = kMetaSize"
  by (simp add: wf_Metadata_def DatabaseMetadata_bytes_def kMetaSize_def)

lemma Metadata_roundtrip:
  "wf_Metadata m \<Longrightarrow> DatabaseMetadata_deserialize (DatabaseMetadata_bytes m) = m"
  by (simp add: wf_Metadata_def DatabaseMetadata_deserialize_def DatabaseMetadata_bytes_def
      slice_append_left slice_append_right u16_roundtrip u32_roundtrip u64_roundtrip)

lemma Metadata_serialize_eq:
  "wf_Metadata m \<Longrightarrow> length out = kMetaSize \<Longrightarrow>
   DatabaseMetadata_serialize m out = DatabaseMetadata_bytes m"
  by (simp add: DatabaseMetadata_serialize_def)

lemma wf_Metadata_deserialize [simp]:
  "length bs = kMetaSize \<Longrightarrow> wf_Metadata (DatabaseMetadata_deserialize bs)"
  by (simp add: wf_Metadata_def DatabaseMetadata_deserialize_def kMetaSize_def)

lemma wf_Metadata_count [simp]: "wf_Metadata (m\<lparr>meta_page_count := n\<rparr>) = wf_Metadata m"
  by (simp add: wf_Metadata_def)

definition hdr_bytes :: "PageHeader \<Rightarrow> byte list" where
  "hdr_bytes h = bytes_of_u64 (page_lsn h) @ bytes_of_u32 (page_id h) @
     [byte_of_PageType (page_type h)] @ bytes_of_u16 (PageHeader.free_space_ptr h) @
     bytes_of_u16 (slot_count h) @ bytes_of_u32 (checksum h)"

definition dec_hdr :: "byte list \<Rightarrow> PageHeader" where
  "dec_hdr bs = \<lparr>page_lsn = u64_of_bytes (slice bs 0 8), page_id = u32_of_bytes (slice bs 8 4),
     page_type = PageType_of_byte (slice bs 12 1 ! 0), free_space_ptr = u16_of_bytes (slice bs 13 2),
     slot_count = u16_of_bytes (slice bs 15 2), checksum = u32_of_bytes (slice bs 17 4)\<rparr>"

lemma length_hdr_bytes [simp]: "length (hdr_bytes h) = 21"
  by (simp add: hdr_bytes_def)

lemma dec_hdr_roundtrip:
  assumes "wf_PageType (page_type h)" "21 \<le> length bs"
  shows "dec_hdr (overwrite bs 0 (hdr_bytes h)) = h"
  using assms unfolding dec_hdr_def
  by (simp add: slice_overwrite_inside)
    (simp add: hdr_bytes_def slice_append_left slice_append_right u16_roundtrip u32_roundtrip
      u64_roundtrip wf_PageType_def nth_append nth_slice slice_Cons)

lemma read_page_header_eq:
  "length bs = kPageSize \<Longrightarrow> read_page_header bs h = dec_hdr bs"
  unfolding read_page_header_def dec_hdr_def
  by (simp add: mk_Deserializer_def buf_simps page_consts)

lemma write_page_header_eq:
  assumes "length bs = kPageSize"
  shows "write_page_header h bs = overwrite bs 0 (hdr_bytes h)"
proof -
  let ?s = "mk_Serializer (slice bs 0 kPageHeaderSize)"
  have len: "length (ser_buffer ?s) = 24" "ser_cursor ?s = 0"
    using assms by (simp_all add: mk_Serializer_def page_consts)
  have "ser_buffer (snd (writeUInt32 (snd (writeUInt16 (snd (writeUInt16 (snd (writeUInt8
      (snd (writeUInt32 (snd (writeUInt64 ?s (page_lsn h))) (page_id h)))
      (byte_of_PageType (page_type h)))) (PageHeader.free_space_ptr h))) (slot_count h))) (checksum h)))
    = overwrite (slice bs 0 kPageHeaderSize) 0 (hdr_bytes h)"
    using len by (simp add: write_defs writeRaw_put ser_put_append hdr_bytes_def)
      (simp add: mk_Serializer_def)
  then show ?thesis
    using assms overwrite_slice [of 0 kPageHeaderSize bs 0 "hdr_bytes h"]
    by (simp add: write_page_header_def Let_def page_consts)
qed

subsection \<open>The pages of an open database\<close>

definition disk_page :: "DiskManager \<Rightarrow> PageId \<Rightarrow> Page" where
  "disk_page d i = (let bs = slice (file_bytes d) (unat i * kPageSize) kPageSize
     in \<lparr>pg_data = bs, pg_header = dec_hdr bs\<rparr>)"

text \<open>What is on disk after a page was written: its own bytes with the header stored in front.\<close>

definition flushed :: "Page \<Rightarrow> Page" where
  "flushed pg = pg\<lparr>pg_data := overwrite (pg_data pg) 0 (hdr_bytes (pg_header pg))\<rparr>"

lemma flushed_simps [simp]:
  "pg_header (flushed pg) = pg_header pg"
  "wf_Page pg \<Longrightarrow> body (flushed pg) = body pg"
  "wf_Page pg \<Longrightarrow> wf_Page (flushed pg)"
  by (simp_all add: flushed_def body_def wf_Page_def page_consts)
    (simp add: overwrite_def)

definition disk_meta :: "DiskManager \<Rightarrow> DatabaseMetadata" where
  "disk_meta d = DatabaseMetadata_deserialize (slice (file_bytes d) 0 kMetaSize)"

definition dm_file_ok :: "nat \<Rightarrow> DiskManager \<Rightarrow> bool" where
  "dm_file_ok n d = (dm_file d \<noteq> None \<and> 0 < n \<and> n < 2 ^ 32 \<and> n * kPageSize \<le> length (file_bytes d) \<and>
     hasMagic (disk_meta d) \<and> hasValidVersion (disk_meta d) \<and> unat (meta_page_count (disk_meta d)) = n)"

text \<open>An open database on a device that does not fail any more.\<close>

definition dm_ok :: "DiskManager \<Rightarrow> bool" where
  "dm_ok d = (dm_is_open d \<and> dm_stream d \<and> dm_good d \<and> dm_faults d = [] \<and> dm_file_ok (dm_page_count d) d)"

definition data_page :: "DiskManager \<Rightarrow> PageId \<Rightarrow> bool" where
  "data_page d i = (0 < unat i \<and> unat i < dm_page_count d)"

lemma length_file_write:
  "length (file_write f off bs) = max (length f) (off + length bs)"
  by (auto simp: file_write_def)

lemma slice_file_write_same: "slice (file_write f off bs) off (length bs) = bs"
  by (simp add: file_write_def slice_overwrite_same)

lemma slice_file_write_other:
  assumes "k + n \<le> off \<or> off + length bs \<le> k" "k + n \<le> length f"
  shows "slice (file_write f off bs) k n = slice f k n"
proof -
  have "slice (file_write f off bs) k n = slice (f @ replicate (off + length bs - length f) 0) k n"
    using assms(1) by (auto simp: file_write_def slice_overwrite_before slice_overwrite_after)
  with assms(2) show ?thesis by (simp add: slice_append_left)
qed

lemma next_fault_none [simp]: "dm_faults d = [] \<Longrightarrow> next_fault d = (None, d)"
  by (simp add: next_fault_def)

lemma page_extent:
  assumes "i < n" "n * kPageSize \<le> len"
  shows "i * kPageSize + kPageSize \<le> len"
proof -
  have "i * kPageSize + kPageSize = Suc i * kPageSize" by simp
  also have "\<dots> \<le> n * kPageSize" using assms(1) by (intro mult_le_mono1) simp
  finally show ?thesis using assms(2) by simp
qed

lemma other_page:
  assumes "i \<noteq> j"
  shows "i * kPageSize + kPageSize \<le> j * kPageSize \<or> j * kPageSize + kPageSize \<le> i * kPageSize"
  using assms page_extent [of i j "j * kPageSize"] page_extent [of j i "i * kPageSize"] by (cases i j rule: linorder_cases) auto

lemma wf_disk_page: "unat i < n \<Longrightarrow> dm_file_ok n d \<Longrightarrow> wf_Page (disk_page d i)"
  using page_extent [of "unat i" n "length (file_bytes d)"]
  by (simp add: dm_file_ok_def disk_page_def Let_def wf_Page_def)

lemma readPage_ok:
  assumes "dm_ok d" "unat i < dm_page_count d" "wf_Page pg"
  shows "readPage d i pg = (Ok, disk_page d i, d)"
proof -
  have "unat i * kPageSize + kPageSize \<le> length (file_bytes d)"
    using assms by (intro page_extent) (auto simp: dm_ok_def dm_file_ok_def)
  with assms show ?thesis
    by (simp add: readPage_def dm_ok_def stream_read_def disk_page_def Let_def wf_Page_def read_page_header_eq)
qed

lemma readPage_out_of_range: "dm_ok d \<Longrightarrow> dm_page_count d \<le> unat i \<Longrightarrow> readPage d i pg = (InvalidArg, pg, d)"
  by (simp add: readPage_def dm_ok_def)

lemma file_ok_write:
  assumes ok: "dm_file_ok n d" and f: "dm_file d' = Some (file_write (file_bytes d) off bs)"
    and off: "kPageSize \<le> off"
  shows "dm_file_ok n d'"
proof -
  have m: "kMetaSize \<le> length (file_bytes d)" "kMetaSize \<le> off"
    using ok off page_extent [of 0 n "length (file_bytes d)"] by (auto simp: dm_file_ok_def page_consts kMetaSize_def)
  have "disk_meta d' = disk_meta d"
    using m f by (simp add: disk_meta_def file_bytes_def slice_file_write_other)
  moreover have "length (file_bytes d) \<le> length (file_bytes d')"
    using f by (simp add: file_bytes_def [of d'] length_file_write)
  ultimately show ?thesis using ok f by (auto simp: dm_file_ok_def)
qed

lemma disk_page_write:
  assumes f: "dm_file d' = Some (file_write (file_bytes d) (unat i * kPageSize) (pg_data q))"
    and q: "wf_Page q" "pg_header q = dec_hdr (pg_data q)"
  shows "disk_page d' i = q"
    and "j \<noteq> i \<Longrightarrow> unat j < n \<Longrightarrow> dm_file_ok n d \<Longrightarrow> disk_page d' j = disk_page d j"
proof -
  have "slice (file_write (file_bytes d) (unat i * kPageSize) (pg_data q)) (unat i * kPageSize) kPageSize = pg_data q"
    using q(1) slice_file_write_same [of "file_bytes d" "unat i * kPageSize" "pg_data q"] by (simp add: wf_Page_def)
  with f q(2) show "disk_page d' i = q" by (simp add: disk_page_def file_bytes_def Let_def)
  assume j: "j \<noteq> i" "unat j < n" and ok: "dm_file_ok n d"
  have "unat j * kPageSize + kPageSize \<le> length (file_bytes d)"
    using page_extent [OF j(2)] ok by (simp add: dm_file_ok_def)
  then have "slice (file_write (file_bytes d) (unat i * kPageSize) (pg_data q)) (unat j * kPageSize) kPageSize
      = slice (file_bytes d) (unat j * kPageSize) kPageSize"
    using other_page [of "unat j" "unat i"] j(1) q(1)
    by (intro slice_file_write_other) (auto simp: wf_Page_def word_unat_eq_iff)
  with f show "disk_page d' j = disk_page d j" by (simp add: disk_page_def file_bytes_def)
qed

lemma header_flushed:
  "wf_Page pg \<Longrightarrow> wf_PageType (page_type (pg_header pg)) \<Longrightarrow> dec_hdr (pg_data (flushed pg)) = pg_header pg"
  by (simp add: flushed_def dec_hdr_roundtrip wf_Page_def page_consts)

lemma writePage_ok:
  assumes ok: "dm_ok d" and i: "data_page d i" and pg: "wf_Page pg" "wf_PageType (page_type (pg_header pg))"
  shows "\<exists>d'. writePage d i pg = (Ok, flushed pg, d') \<and> dm_ok d' \<and> dm_page_count d' = dm_page_count d \<and>
    disk_page d' i = flushed pg \<and>
    (\<forall>j. j \<noteq> i \<longrightarrow> unat j < dm_page_count d \<longrightarrow> disk_page d' j = disk_page d j)"
proof -
  let ?d = "d\<lparr>dm_file := Some (file_write (file_bytes d) (unat i * kPageSize) (pg_data (flushed pg)))\<rparr>"
  have run: "writePage d i pg = (Ok, flushed pg, ?d)"
    using ok i pg by (simp add: writePage_def dm_ok_def data_page_def stream_write_def Let_def
        write_page_header_eq wf_Page_def flushed_def)
  have fo: "dm_file_ok (dm_page_count d) d" using ok by (simp add: dm_ok_def)
  have "kPageSize \<le> unat i * kPageSize" using i by (cases "unat i") (auto simp: data_page_def)
  from file_ok_write [OF fo _ this, of ?d] have "dm_ok ?d" using ok by (simp add: dm_ok_def)
  moreover note disk_page_write [of ?d d i "flushed pg", OF _ flushed_simps(3) [OF pg(1)]] fo
  ultimately show ?thesis
    using run header_flushed [OF pg] by (intro exI [of _ ?d]) (simp add: flushed_simps)
qed

lemma stream_read_file: "dm_file (snd (stream_read d off n)) = dm_file d" "dm_page_count (snd (stream_read d off n)) = dm_page_count d"
  by (auto simp: stream_read_def next_fault_def Let_def split: list.split option.split)

lemma readPage_unchanged:
  assumes "readPage d i pg = (st, pg', d')"
  shows "dm_file d' = dm_file d \<and> dm_page_count d' = dm_page_count d"
  using assms stream_read_file [of d "unat i * kPageSize" kPageSize]
  by (auto simp: readPage_def stream_clear_def Let_def split: if_splits prod.splits)

definition zero_page :: Page where
  "zero_page = \<lparr>pg_data = replicate kPageSize 0, pg_header = dec_hdr (replicate kPageSize 0)\<rparr>"

lemma wf_zero_page [simp]: "wf_Page zero_page"
  by (simp add: zero_page_def wf_Page_def)

text \<open>Overwriting the metadata record in place: only page 0 changes.\<close>

lemma file_ok_meta:
  assumes ok: "dm_file_ok n d" and f: "dm_file d' = Some (file_write (file_bytes d) 0 (DatabaseMetadata_bytes m))"
    and m: "wf_Metadata m" "hasMagic m" "hasValidVersion m" "unat (meta_page_count m) = n'"
    and n': "0 < n'" "n' < 2 ^ 32" "n' * kPageSize \<le> length (file_bytes d)"
  shows "dm_file_ok n' d'" and "0 < unat j \<Longrightarrow> unat j < n' \<Longrightarrow> disk_page d' j = disk_page d j"
proof -
  have len: "length (DatabaseMetadata_bytes m) = kMetaSize" using m by simp
  have "slice (file_bytes d') 0 kMetaSize = DatabaseMetadata_bytes m"
    using slice_file_write_same [of "file_bytes d" 0 "DatabaseMetadata_bytes m"] len f
    by (simp add: file_bytes_def)
  then have "disk_meta d' = m" using m by (simp add: disk_meta_def Metadata_roundtrip)
  moreover have "length (file_bytes d) \<le> length (file_bytes d')"
    using f by (simp add: file_bytes_def [of d'] length_file_write)
  ultimately show "dm_file_ok n' d'" using f m n' by (auto simp: dm_file_ok_def)
  assume j: "0 < unat j" "unat j < n'"
  have "kMetaSize \<le> unat j * kPageSize" using j by (cases "unat j") (auto simp: kMetaSize_def page_consts)
  then have "slice (file_bytes d') (unat j * kPageSize) kPageSize = slice (file_bytes d) (unat j * kPageSize) kPageSize"
    using page_extent [OF j(2) n'(3)] f len by (simp add: file_bytes_def [of d'] slice_file_write_other)
  then show "disk_page d' j = disk_page d j" by (simp add: disk_page_def)
qed

lemma allocatePage_ok:
  assumes ok: "dm_ok d" and n: "Suc (dm_page_count d) < 2 ^ 32"
  shows "\<exists>d'. allocatePage d out = (Ok, word_of_nat (dm_page_count d), d') \<and> dm_ok d' \<and>
    dm_page_count d' = Suc (dm_page_count d) \<and>
    disk_page d' (word_of_nat (dm_page_count d)) = zero_page \<and>
    (\<forall>j. data_page d j \<longrightarrow> disk_page d' j = disk_page d j)"
proof -
  let ?n = "dm_page_count d" and ?i = "word_of_nat (dm_page_count d) :: PageId"
  have i: "unat ?i = ?n" using n by (simp add: unat_of_nat take_bit_nat_eq_self)
  have fo: "dm_file_ok ?n d" and pos: "0 < ?n" using ok by (simp_all add: dm_ok_def dm_file_ok_def)
  define d1 where "d1 = d\<lparr>dm_page_count := Suc ?n,
      dm_file := Some (file_write (file_bytes d) (?n * kPageSize) (pg_data zero_page))\<rparr>"
  have f1: "dm_file d1 = Some (file_write (file_bytes d) (unat ?i * kPageSize) (pg_data zero_page))"
    "dm_is_open d1" "dm_stream d1" "dm_good d1" "dm_faults d1 = []" "dm_page_count d1 = Suc ?n"
    using ok i by (simp_all add: d1_def dm_ok_def)
  have "kPageSize \<le> unat ?i * kPageSize" using pos i by (cases ?n) auto
  note fo1 = file_ok_write [OF fo f1(1) this]
  have len1: "Suc ?n * kPageSize \<le> length (file_bytes d1)" "kMetaSize \<le> length (file_bytes d1)"
    using f1(1) i by (simp_all add: file_bytes_def [of d1] length_file_write zero_page_def kMetaSize_def page_consts)
  define m where "m = (disk_meta d1)\<lparr>meta_page_count := word_of_nat (Suc ?n)\<rparr>"
  have m: "wf_Metadata m" "hasMagic m" "hasValidVersion m" "unat (meta_page_count m) = Suc ?n"
    using fo1 n len1 by (simp_all add: m_def dm_file_ok_def hasMagic_def hasValidVersion_def disk_meta_def
        unat_of_nat take_bit_nat_eq_self del: of_nat_Suc)
  define d2 where "d2 = d1\<lparr>dm_file := Some (file_write (file_bytes d1) 0 (DatabaseMetadata_bytes m))\<rparr>"
  have run: "allocatePage d out = (Ok, ?i, d2)"
    using ok len1 m f1 i
    by (simp add: allocatePage_def dm_ok_def stream_write_def stream_read_def d1_def [symmetric] zero_page_def default_Page_def Let_def)
      (simp add: d1_def d2_def m_def disk_meta_def Metadata_serialize_eq stream_clear_def file_bytes_def zero_page_def)
  note fm = file_ok_meta [OF fo1 _ m _ n len1(1), of d2]
  have ok2: "dm_ok d2" "dm_page_count d2 = Suc ?n" using fm(1) f1 by (simp_all add: dm_ok_def d2_def)
  have hz: "pg_header zero_page = dec_hdr (pg_data zero_page)" by (simp add: zero_page_def)
  note dp = disk_page_write [OF f1(1) wf_zero_page hz]
  have z: "disk_page d1 ?i = zero_page" by (rule dp(1))
  have old: "disk_page d1 j = disk_page d j" if "data_page d j" for j
    using dp(2) [of j ?n] that fo i by (cases "j = ?i") (simp_all add: data_page_def)
  have "disk_page d2 j = disk_page d1 j" if "0 < unat j" "unat j < Suc ?n" for j
    using fm(2) [of j] that by (simp add: d2_def)
  with run ok2 z old i pos show ?thesis by (auto simp: data_page_def)
qed

subsection \<open>Lifecycle\<close>

lemma length_uuid [simp]: "length (generateUuid hi lo) = 16"
  by (simp add: generateUuid_def Let_def)

lemma create_ok:
  assumes "dm_file d = None" "dm_faults d = []"
  shows "\<exists>f. createDatabase hi lo now d = (Ok, d\<lparr>dm_file := Some f\<rparr>) \<and> length f = kPageSize \<and>
    dm_file_ok 1 (d\<lparr>dm_file := Some f\<rparr>)"
proof -
  define m where "m = \<lparr>magic = kDbMagic, version = kFormatVersion, reserved0 = 0,
      page_size = word_of_nat kPageSize, meta_page_count = 1, free_page_ptr = kInvalidPageId,
      reserved1 = 0, uuid = generateUuid hi lo, created_at = now, reserved2 = 0\<rparr>"
  have m: "wf_Metadata m" "hasMagic m" "hasValidVersion m" "meta_page_count m = 1"
    by (simp_all add: m_def wf_Metadata_def kDbMagic_def hasMagic_def hasValidVersion_def)
  let ?f = "overwrite (replicate kPageSize 0) 0 (DatabaseMetadata_bytes m)"
  have len: "length ?f = kPageSize" "slice ?f 0 kMetaSize = DatabaseMetadata_bytes m"
    using m(1) by (simp_all add: slice_overwrite_same page_consts kMetaSize_def)
  have "dm_file_ok 1 (d\<lparr>dm_file := Some ?f\<rparr>)"
    using len m by (simp add: dm_file_ok_def disk_meta_def file_bytes_def Metadata_roundtrip)
  moreover have "createDatabase hi lo now d = (Ok, d\<lparr>dm_file := Some ?f\<rparr>)"
    using assms m(1) unfolding createDatabase_def m_def [symmetric]
    by (simp add: Metadata_serialize_eq)
  ultimately show ?thesis using len(1) by blast
qed

lemma open_ok:
  assumes fo: "dm_file_ok n d" and d: "dm_faults d = []" "\<not> dm_stream d"
  shows "openDatabase d = (Ok, d\<lparr>dm_stream := True, dm_good := True, dm_page_count := n, dm_is_open := True\<rparr>)"
proof -
  from fo obtain f where f: "dm_file d = Some f" by (auto simp: dm_file_ok_def)
  have "kPageSize \<le> length f" using fo f page_extent [of 0 n "length f"] by (simp add: dm_file_ok_def file_bytes_def)
  moreover from this have "kMetaSize \<le> length f" by (simp add: kMetaSize_def page_consts)
  ultimately show ?thesis
    using fo d f by (simp add: openDatabase_def stream_read_def file_bytes_def dm_file_ok_def disk_meta_def)
qed

lemma close_ok:
  "dm_ok d \<Longrightarrow> closeDatabase d = (Ok, d\<lparr>dm_stream := False, dm_is_open := False, dm_page_count := 0\<rparr>)"
  by (simp add: closeDatabase_def dm_ok_def stream_flush_def)

lemma reopen:
  assumes "dm_ok d"
  shows "openDatabase (snd (closeDatabase d)) = (Ok, d)"
  using assms open_ok [of "dm_page_count d" "snd (closeDatabase d)"]
  by (simp add: close_ok) (simp add: dm_ok_def dm_file_ok_def disk_meta_def file_bytes_def)

subsection \<open>The contract of a page store\<close>

text \<open>
  What the layers above rely on: a finite map from page identifiers to pages which reads
  return, a write replaces one page of, and an allocation extends by a zeroed page.
\<close>

locale page_store =
  fixes inv :: "'s \<Rightarrow> bool" and pages :: "'s \<Rightarrow> PageId \<Rightarrow> Page option" and room :: "'s \<Rightarrow> bool"
    and rd :: "'s \<Rightarrow> PageId \<Rightarrow> Page \<Rightarrow> Status \<times> Page \<times> 's"
    and wr :: "'s \<Rightarrow> PageId \<Rightarrow> Page \<Rightarrow> Status \<times> Page \<times> 's"
    and al :: "'s \<Rightarrow> PageId \<Rightarrow> Status \<times> PageId \<times> 's"
  assumes rd_law: "inv s \<Longrightarrow> pages s i = Some q \<Longrightarrow> wf_Page p \<Longrightarrow> rd s i p = (Ok, q, s)"
    and pages_wf: "inv s \<Longrightarrow> pages s i = Some q \<Longrightarrow> wf_Page q"
    and wr_law: "inv s \<Longrightarrow> pages s i \<noteq> None \<Longrightarrow> wf_Page p \<Longrightarrow> wf_PageType (page_type (pg_header p)) \<Longrightarrow>
      \<exists>s'. wr s i p = (Ok, flushed p, s') \<and> inv s' \<and> pages s' = (pages s)(i \<mapsto> flushed p) \<and> room s' = room s"
    and al_law: "inv s \<Longrightarrow> room s \<Longrightarrow> \<exists>s' i. al s out = (Ok, i, s') \<and> inv s' \<and> pages s i = None \<and>
      i \<noteq> kInvalidPageId \<and> pages s' = (pages s)(i \<mapsto> zero_page)"
begin

text \<open>A page written is read back with its header and body, and other pages are not disturbed.\<close>

lemma read_written:
  assumes "inv s" "pages s i \<noteq> None" "wf_Page p" "wf_PageType (page_type (pg_header p))" "wf_Page p0"
  shows "\<exists>s' q. wr s i p = (Ok, q, s') \<and> rd s' i p0 = (Ok, q, s') \<and> pg_header q = pg_header p \<and> body q = body p \<and>
    (\<forall>j r. j \<noteq> i \<longrightarrow> pages s j = Some r \<longrightarrow> rd s' j p0 = (Ok, r, s'))"
proof -
  from wr_law [OF assms(1-4)] obtain s' where s': "wr s i p = (Ok, flushed p, s')" "inv s'"
      "pages s' = (pages s)(i \<mapsto> flushed p)" by blast
  then show ?thesis using assms(3,5) rd_law [OF s'(2)] by (intro exI [of _ s'] exI [of _ "flushed p"]) auto
qed

lemma read_allocated:
  assumes "inv s" "room s" "wf_Page p0"
  shows "\<exists>s' i. al s out = (Ok, i, s') \<and> pages s i = None \<and> rd s' i p0 = (Ok, zero_page, s') \<and>
    (\<forall>j r. pages s j = Some r \<longrightarrow> rd s' j p0 = (Ok, r, s'))"
proof -
  from al_law [OF assms(1,2), of out] obtain s' i where s': "al s out = (Ok, i, s')" "inv s'"
      "pages s i = None" "pages s' = (pages s)(i \<mapsto> zero_page)" by blast
  have "rd s' j p0 = (Ok, r, s')" if "pages s j = Some r" for j r
    using that s'(3,4) by (intro rd_law [OF s'(2) _ assms(3)]) auto
  with s' assms(3) rd_law [OF s'(2)] show ?thesis by (intro exI [of _ s'] exI [of _ i]) auto
qed

end

definition dm_pages :: "DiskManager \<Rightarrow> PageId \<Rightarrow> Page option" where
  "dm_pages d i = (if data_page d i then Some (disk_page d i) else None)"

definition dm_room :: "DiskManager \<Rightarrow> bool" where
  "dm_room d = (Suc (dm_page_count d) < 2 ^ 32)"

interpretation dm: page_store dm_ok dm_pages dm_room readPage writePage allocatePage
proof
  fix d :: DiskManager and i :: PageId and p q :: Page and out :: PageId
  assume ok: "dm_ok d"
  then have fo: "dm_file_ok (dm_page_count d) d" by (simp add: dm_ok_def)
  show "dm_pages d i = Some q \<Longrightarrow> wf_Page p \<Longrightarrow> readPage d i p = (Ok, q, d)"
    using readPage_ok [OF ok, of i p] by (auto simp: dm_pages_def data_page_def split: if_splits)
  show "dm_pages d i = Some q \<Longrightarrow> wf_Page q"
    using wf_disk_page [of i "dm_page_count d" d] fo by (auto simp: dm_pages_def data_page_def split: if_splits)
  show "\<exists>s'. writePage d i p = (Ok, flushed p, s') \<and> dm_ok s' \<and> dm_pages s' = (dm_pages d)(i \<mapsto> flushed p) \<and>
      dm_room s' = dm_room d"
    if "dm_pages d i \<noteq> None" "wf_Page p" "wf_PageType (page_type (pg_header p))"
  proof -
    have i: "data_page d i" using that(1) by (auto simp: dm_pages_def split: if_splits)
    note wf = that(2,3)
    obtain d' where d': "writePage d i p = (Ok, flushed p, d')" "dm_ok d'" "dm_page_count d' = dm_page_count d"
        "disk_page d' i = flushed p" "\<forall>j. j \<noteq> i \<longrightarrow> unat j < dm_page_count d \<longrightarrow> disk_page d' j = disk_page d j"
      using writePage_ok [OF ok i wf] by blast
    then show ?thesis using i by (intro exI [of _ d']) (auto simp: dm_pages_def data_page_def dm_room_def)
  qed
  show "\<exists>s' i. allocatePage d out = (Ok, i, s') \<and> dm_ok s' \<and> dm_pages d i = None \<and> i \<noteq> kInvalidPageId \<and>
      dm_pages s' = (dm_pages d)(i \<mapsto> zero_page)" if "dm_room d"
  proof -
    let ?i = "word_of_nat (dm_page_count d) :: PageId"
    have n: "Suc (dm_page_count d) < 2 ^ 32" "0 < dm_page_count d"
      using that fo by (simp_all add: dm_room_def dm_file_ok_def)
    have u: "unat ?i = dm_page_count d" using n by (simp add: unat_of_nat take_bit_nat_eq_self)
    then have inv: "?i \<noteq> kInvalidPageId" using n by (auto simp: kInvalidPageId_def)
    obtain d' where d': "allocatePage d out = (Ok, ?i, d')" "dm_ok d'" "dm_page_count d' = Suc (dm_page_count d)"
        "disk_page d' ?i = zero_page" "\<forall>j. data_page d j \<longrightarrow> disk_page d' j = disk_page d j"
      using allocatePage_ok [OF ok n(1), of out] by blast
    have "data_page d' j = (data_page d j \<or> j = ?i)" for j
      using d'(3) u n by (auto simp: data_page_def word_unat_eq_iff less_Suc_eq)
    then have "dm_pages d' = (dm_pages d)(?i \<mapsto> zero_page)"
      using d'(4,5) u by (auto simp: dm_pages_def)
    moreover have "dm_pages d ?i = None" using u by (simp add: dm_pages_def data_page_def)
    ultimately show ?thesis using d' inv by blast
  qed
qed

subsection \<open>Properties\<close>

text \<open>A database that was just created and opened, and one with a first data page.\<close>

definition fresh_db :: DiskManager where
  "fresh_db = snd (openDatabase (snd (createDatabase 1 2 3 (mk_DiskManager None []))))"

definition one_page_db :: DiskManager where
  "one_page_db = snd (snd (allocatePage fresh_db 0))"

lemma create_open:
  assumes "dm_file d = None" "dm_faults d = []" "\<not> dm_stream d"
  shows "\<exists>d1 d2. createDatabase hi lo now d = (Ok, d1) \<and> openDatabase d1 = (Ok, d2) \<and> dm_ok d2 \<and>
    dm_page_count d2 = 1 \<and> (\<forall>i. dm_pages d2 i = None)"
proof -
  obtain f where f: "createDatabase hi lo now d = (Ok, d\<lparr>dm_file := Some f\<rparr>)"
      "dm_file_ok 1 (d\<lparr>dm_file := Some f\<rparr>)"
    using create_ok [OF assms(1,2)] by blast
  with assms open_ok [OF f(2)] show ?thesis
    by (intro exI conjI) (auto simp: dm_ok_def dm_file_ok_def disk_meta_def file_bytes_def dm_pages_def data_page_def)
qed

lemma fresh_db_ok: "dm_ok fresh_db" "dm_page_count fresh_db = 1"
  using create_open [of "mk_DiskManager None []" 1 2 3] by (auto simp: fresh_db_def mk_DiskManager_def)

lemma one_page_db_ok: "dm_ok one_page_db" "dm_page_count one_page_db = 2" "data_page one_page_db 1"
  using allocatePage_ok [of fresh_db 0] fresh_db_ok by (auto simp: one_page_db_def data_page_def)

text \<open>
  Read your writes: on an open database whose device works, a page written to a data page
  number is read back with the same header and the same body, and every other data page
  still reads as before.
\<close>

theorem page_write_read:
  assumes "dm_ok d" "data_page d i" "wf_Page p" "wf_PageType (page_type (pg_header p))" "wf_Page p0"
  shows "\<exists>d' q. writePage d i p = (Ok, q, d') \<and> readPage d' i p0 = (Ok, q, d') \<and>
    pg_header q = pg_header p \<and> body q = body p \<and>
    (\<forall>j. j \<noteq> i \<longrightarrow> data_page d j \<longrightarrow> readPage d' j p0 = (Ok, disk_page d j, d'))"
  using dm.read_written [of d i p p0] assms by (auto simp: dm_pages_def)

theorem page_write_read_witness:
  "\<exists>d' q. writePage one_page_db 1 (mk_Page (mk_PageHeader 1 Table)) = (Ok, q, d') \<and>
     readPage d' 1 default_Page = (Ok, q, d') \<and> page_type (pg_header q) = Table"
  using page_write_read [of one_page_db 1 "mk_Page (mk_PageHeader 1 Table)" default_Page] one_page_db_ok
  by auto

text \<open>
  Allocation extends the database: \<open>allocatePage\<close> hands out the next page number, which was
  not a data page before and reads as zeroes now; the other data pages keep their contents
  and the page count in memory and in the metadata record on disk both grow by one.
\<close>

theorem allocate_extends:
  assumes "dm_ok d" "Suc (dm_page_count d) < 2 ^ 32"
  shows "\<exists>d' i. allocatePage d out = (Ok, i, d') \<and> dm_ok d' \<and> \<not> data_page d i \<and> unat i = dm_page_count d \<and>
    dm_page_count d' = Suc (dm_page_count d) \<and> unat (meta_page_count (disk_meta d')) = Suc (dm_page_count d) \<and>
    disk_page d' i = zero_page \<and> (\<forall>j. data_page d j \<longrightarrow> disk_page d' j = disk_page d j)"
proof -
  have "unat (word_of_nat (dm_page_count d) :: PageId) = dm_page_count d"
    using assms(2) by (simp add: unat_of_nat take_bit_nat_eq_self)
  moreover obtain d' where "allocatePage d out = (Ok, word_of_nat (dm_page_count d), d')" "dm_ok d'"
      "dm_page_count d' = Suc (dm_page_count d)" "disk_page d' (word_of_nat (dm_page_count d)) = zero_page"
      "\<forall>j. data_page d j \<longrightarrow> disk_page d' j = disk_page d j"
    using allocatePage_ok [OF assms] by blast
  ultimately show ?thesis
    by (intro exI [of _ d'] exI) (auto simp: data_page_def dm_ok_def dm_file_ok_def)
qed

theorem allocate_extends_witness:
  "\<exists>d' i. allocatePage fresh_db 0 = (Ok, i, d') \<and> unat i = 1 \<and> dm_page_count d' = 2"
  using allocate_extends [of fresh_db 0] fresh_db_ok by auto

text \<open>
  Closing and reopening loses nothing: the state after \<open>closeDatabase\<close> and
  \<open>openDatabase\<close> is the state before, the page count being recovered from the metadata record.
\<close>

theorem close_reopen:
  assumes "dm_ok d"
  shows "fst (closeDatabase d) = Ok \<and> openDatabase (snd (closeDatabase d)) = (Ok, d)"
  using reopen [OF assms] close_ok [OF assms] by simp

theorem close_reopen_witness:
  "openDatabase (snd (closeDatabase one_page_db)) = (Ok, one_page_db)"
  using close_reopen [OF one_page_db_ok(1)] by simp

text \<open>
  A database that is created and opened is usable: metadata accepted, one page, no data pages.
\<close>

theorem create_then_open:
  "\<exists>d1 d2. createDatabase hi lo now (mk_DiskManager None []) = (Ok, d1) \<and> openDatabase d1 = (Ok, d2) \<and>
     dm_ok d2 \<and> dm_page_count d2 = 1 \<and> (\<forall>i. dm_pages d2 i = None)"
  using create_open [of "mk_DiskManager None []" hi lo now] by (simp add: mk_DiskManager_def)

lemma length_partial_write: "length f \<le> length (partial_write f off bs k)"
  by (simp add: partial_write_def length_file_write)

lemma slice_partial_other:
  assumes "i + n \<le> off \<or> off + length bs \<le> i" "i + n \<le> length f"
  shows "slice (partial_write f off bs k) i n = slice f i n"
  using assms by (auto simp: partial_write_def intro!: slice_file_write_other)

lemma slice_partial_same:
  assumes "length bs = n" "off + n \<le> length f"
  shows "slice (partial_write f off bs k) off n = take (min k n) bs @ drop (min k n) (slice f off n)"
proof (cases "k = 0")
  case True
  then show ?thesis by (simp add: partial_write_def)
next
  case False
  let ?m = "min k n"
  have "file_write f off (take k bs) = take off f @ take ?m bs @ drop (off + ?m) f"
    using assms by (cases "k \<le> n") (simp_all add: file_write_def overwrite_def)
  moreover have "slice (take off f @ take ?m bs @ drop (off + ?m) f) off n = take ?m bs @ take (n - ?m) (drop (off + ?m) f)"
    using assms by (simp add: slice_def)
  moreover have "drop ?m (slice f off n) = take (n - ?m) (drop (off + ?m) f)"
    by (simp add: slice_def drop_take add.commute)
  ultimately show ?thesis using False by (simp add: partial_write_def)
qed

text \<open>What a call does to the file, whatever the device does.\<close>

lemma writePage_cases:
  assumes "writePage d i p = (st, q, d')" "wf_Page p"
  obtains (closed) "\<not> dm_is_open d" "st = IoError" "d' = d"
  | (range) "dm_is_open d" "dm_page_count d \<le> unat i" "st = InvalidArg" "d' = d"
  | (torn) k where "unat i < dm_page_count d" "st = IoError" "dm_good d'" "dm_page_count d' = dm_page_count d"
      "file_bytes d' = partial_write (file_bytes d) (unat i * kPageSize) (pg_data (flushed p)) k"
  | (stored) "unat i < dm_page_count d" "st = Ok" "dm_page_count d' = dm_page_count d"
      "file_bytes d' = file_write (file_bytes d) (unat i * kPageSize) (pg_data (flushed p))"
proof -
  let ?f = "file_bytes d" and ?bs = "pg_data (flushed p)" and ?off = "unat i * kPageSize"
  have "p\<lparr>pg_data := write_page_header (pg_header p) (pg_data p)\<rparr> = flushed p"
    using assms(2) by (simp add: flushed_def wf_Page_def write_page_header_eq)
  then have w: "writePage d i p = (if \<not> dm_is_open d then (IoError, p, d) else if unat i \<ge> dm_page_count d then (InvalidArg, p, d)
      else let d1 = stream_write d ?off ?bs in if \<not> dm_good d1 then (IoError, flushed p, stream_clear d1) else (Ok, flushed p, d1))"
    by (simp add: writePage_def Let_def)
  have s: "dm_page_count (stream_write d ?off ?bs) = dm_page_count d \<and>
      (if dm_good (stream_write d ?off ?bs) then file_bytes (stream_write d ?off ?bs) = file_write ?f ?off ?bs
       else \<exists>k. file_bytes (stream_write d ?off ?bs) = partial_write ?f ?off ?bs k)"
  proof (cases "dm_stream d \<and> dm_good d")
    case False
    then show ?thesis by (auto simp: stream_write_def next_fault_def file_bytes_def partial_write_def split: list.split intro: exI [of _ 0])
  next
    case True
    show ?thesis
    proof (cases "fst (next_fault d)")
      case None
      then show ?thesis using True by (auto simp: stream_write_def next_fault_def file_bytes_def split: list.split)
    next
      case (Some k)
      then show ?thesis using True by (auto simp: stream_write_def next_fault_def file_bytes_def split: list.splits)
    qed
  qed
  have c: "file_bytes (stream_clear e) = file_bytes e" "dm_page_count (stream_clear e) = dm_page_count e" "dm_good (stream_clear e)" for e
    by (simp_all add: stream_clear_def file_bytes_def)
  show ?thesis using w assms(1) s c that by (auto simp: Let_def split: if_splits)
qed

lemma readPage_cases:
  assumes "readPage d i p = (st, q, d')" "wf_Page p" "dm_page_count d * kPageSize \<le> length (file_bytes d)"
  obtains (closed) "\<not> dm_is_open d" "st = IoError" "q = p" "d' = d"
  | (range) "dm_is_open d" "dm_page_count d \<le> unat i" "st = InvalidArg" "q = p" "d' = d"
  | (short) k where "unat i < dm_page_count d" "st = IoError" "dm_good d'" "pg_header q = pg_header p"
      "pg_data q = take k (pg_data (disk_page d i)) @ drop k (pg_data p)"
  | (got) "unat i < dm_page_count d" "st = Ok" "q = disk_page d i"
proof -
  let ?sl = "slice (file_bytes d) (unat i * kPageSize) kPageSize"
  have dat: "pg_data (disk_page d i) = ?sl" by (simp add: disk_page_def Let_def)
  obtain bs d1 where s: "stream_read d (unat i * kPageSize) kPageSize = (bs, d1)" by fastforce
  have r: "if dm_good d1 then bs = ?sl \<and> length bs = kPageSize else \<exists>k. bs = take k ?sl"
  proof (cases "dm_stream d \<and> dm_good d")
    case False
    then show ?thesis using s by (auto simp: stream_read_def next_fault_def split: list.splits intro: exI [of _ 0])
  next
    case True
    show ?thesis
    proof (cases "fst (next_fault d)")
      case None
      then have "dm_good d1 = (unat i * kPageSize + kPageSize \<le> length (file_bytes d))" "bs = ?sl"
        using True s by (auto simp: stream_read_def next_fault_def Let_def split: list.splits if_splits)
      then show ?thesis by (auto intro: exI [of _ kPageSize])
    next
      case (Some k)
      then have "\<not> dm_good d1" "bs = take k ?sl"
        using True s by (auto simp: stream_read_def next_fault_def Let_def slice_def split: list.splits if_splits)
      then show ?thesis by auto
    qed
  qed
  have ow: "overwrite (pg_data p) 0 (take k ?sl) = take (min k (length ?sl)) ?sl @ drop (min k (length ?sl)) (pg_data p)" for k
    by (cases "k \<le> length ?sl") (simp_all add: overwrite_def min_absorb1 min_absorb2 del: length_slice)
  have all: "overwrite (pg_data p) 0 bs = bs" if "length bs = kPageSize" using that assms(2) by (simp add: overwrite_all wf_Page_def)
  consider "\<not> dm_is_open d" | "dm_is_open d" "dm_page_count d \<le> unat i" | "dm_is_open d" "unat i < dm_page_count d" by linarith
  then show ?thesis
  proof cases
    case 1
    then show ?thesis using assms(1) by (intro closed) (simp_all add: readPage_def)
  next
    case 2
    then show ?thesis using assms(1) by (intro range) (simp_all add: readPage_def)
  next
    case 3
    show ?thesis
    proof (cases "dm_good d1")
      case True
      then have "overwrite (pg_data p) 0 bs = ?sl" "length ?sl = kPageSize" using r all by auto
      then show ?thesis using 3 True assms(1) s by (intro got) (auto simp: readPage_def disk_page_def read_page_header_eq Let_def)
    next
      case False
      then obtain k where "bs = take k ?sl" using r by auto
      then show ?thesis using 3 False assms(1) s ow [of k] dat
        by (intro short [of "min k (length ?sl)"]) (auto simp: readPage_def stream_clear_def)
    qed
  qed
qed

lemma disk_page_eqI: "slice (file_bytes d') (unat j * kPageSize) kPageSize = slice (file_bytes d) (unat j * kPageSize) kPageSize \<Longrightarrow> disk_page d' j = disk_page d j"
  by (simp add: disk_page_def)

text \<open>
  C10. Failing page writes and reads, whatever the device does and however many bytes it moves before it fails.  A \<open>writePage\<close> never
  changes another page, nor the page count; afterwards its own page holds a prefix of the new bytes followed by the rest of the
  old ones, and all new bytes if it returns \<open>Ok\<close>; a page number out of range changes nothing; after an error the stream can be used again.
  A \<open>readPage\<close> changes no page; if it returns \<open>Ok\<close> it gives the page on disk, and otherwise its buffer holds a prefix of that page over
  the old bytes, with the old header.
\<close>

theorem page_io_faults:
  assumes "wf_Page p" "dm_page_count d * kPageSize \<le> length (file_bytes d)"
  shows "(case writePage d i p of (st, q, d') \<Rightarrow>
      (\<forall>j. j \<noteq> i \<longrightarrow> unat j < dm_page_count d \<longrightarrow> disk_page d' j = disk_page d j) \<and> dm_page_count d' = dm_page_count d \<and>
      (unat i < dm_page_count d \<longrightarrow> (\<exists>k\<le>kPageSize. (st = Ok \<longrightarrow> k = kPageSize) \<and>
        pg_data (disk_page d' i) = take k (pg_data (flushed p)) @ drop k (pg_data (disk_page d i)))) \<and>
      (st = InvalidArg \<longrightarrow> dm_page_count d \<le> unat i \<and> d' = d) \<and> (st = IoError \<longrightarrow> dm_is_open d \<longrightarrow> dm_good d') \<and> st \<in> {Ok, IoError, InvalidArg}) \<and>
    (case readPage d i p of (st, q, d') \<Rightarrow> (\<forall>j. disk_page d' j = disk_page d j) \<and> dm_page_count d' = dm_page_count d \<and>
      (st = Ok \<longrightarrow> q = disk_page d i) \<and> (st = IoError \<longrightarrow> dm_is_open d \<longrightarrow> dm_good d') \<and> (st = InvalidArg \<longrightarrow> dm_page_count d \<le> unat i \<and> q = p) \<and>
      (st \<noteq> Ok \<longrightarrow> pg_header q = pg_header p \<and> (\<exists>k. pg_data q = take k (pg_data (disk_page d i)) @ drop k (pg_data p))))"
proof
  have len: "length (pg_data (flushed p)) = kPageSize" using flushed_simps(3) [OF assms(1)] by (simp add: wf_Page_def)
  have ext: "unat j * kPageSize + kPageSize \<le> length (file_bytes d)" if "unat j < dm_page_count d" for j :: PageId
    by (rule page_extent [OF that assms(2)])
  have apart: "unat j * kPageSize + kPageSize \<le> unat i * kPageSize \<or> unat i * kPageSize + length (pg_data (flushed p)) \<le> unat j * kPageSize"
    if "j \<noteq> i" for j using other_page [of "unat j" "unat i"] that len by (simp add: word_unat_eq_iff)
  obtain st q d' where w: "writePage d i p = (st, q, d')" by (cases "writePage d i p") auto
  then show "case writePage d i p of (st, q, d') \<Rightarrow>
      (\<forall>j. j \<noteq> i \<longrightarrow> unat j < dm_page_count d \<longrightarrow> disk_page d' j = disk_page d j) \<and> dm_page_count d' = dm_page_count d \<and>
      (unat i < dm_page_count d \<longrightarrow> (\<exists>k\<le>kPageSize. (st = Ok \<longrightarrow> k = kPageSize) \<and>
        pg_data (disk_page d' i) = take k (pg_data (flushed p)) @ drop k (pg_data (disk_page d i)))) \<and>
      (st = InvalidArg \<longrightarrow> dm_page_count d \<le> unat i \<and> d' = d) \<and> (st = IoError \<longrightarrow> dm_is_open d \<longrightarrow> dm_good d') \<and> st \<in> {Ok, IoError, InvalidArg}"
    using assms(1)
  proof (cases rule: writePage_cases)
    case (torn k)
    have "pg_data (disk_page d' i) = take (min k kPageSize) (pg_data (flushed p)) @ drop (min k kPageSize) (pg_data (disk_page d i))"
      using slice_partial_same [OF len ext [OF torn(1)], of k] torn(5) by (simp add: disk_page_def Let_def)
    moreover have "disk_page d' j = disk_page d j" if "j \<noteq> i" "unat j < dm_page_count d" for j
      using slice_partial_other [OF apart [OF that(1)] ext [OF that(2)]] torn(5) by (intro disk_page_eqI) simp
    ultimately show ?thesis using w torn by (auto intro!: exI [of _ "min k kPageSize"])
  next
    case stored
    have "pg_data (disk_page d' i) = pg_data (flushed p)"
      using slice_file_write_same [of "file_bytes d" "unat i * kPageSize" "pg_data (flushed p)"] len stored(4) by (simp add: disk_page_def Let_def)
    moreover have "disk_page d' j = disk_page d j" if "j \<noteq> i" "unat j < dm_page_count d" for j
      using slice_file_write_other [OF apart [OF that(1)] ext [OF that(2)]] stored(4) by (intro disk_page_eqI) simp
    moreover have "length (pg_data (disk_page d i)) = kPageSize" using ext [OF stored(1)] by (simp add: disk_page_def Let_def)
    ultimately show ?thesis using w stored len by auto
  qed (use w in \<open>auto intro: exI [of _ 0]\<close>)
  obtain st q d' where r: "readPage d i p = (st, q, d')" by (cases "readPage d i p") auto
  have "disk_page d' j = disk_page d j" for j using readPage_unchanged [OF r] by (intro disk_page_eqI) (simp add: file_bytes_def)
  moreover have "dm_page_count d' = dm_page_count d" using readPage_unchanged [OF r] by simp
  moreover have "(st = Ok \<longrightarrow> q = disk_page d i) \<and> (st = IoError \<longrightarrow> dm_is_open d \<longrightarrow> dm_good d') \<and> (st = InvalidArg \<longrightarrow> dm_page_count d \<le> unat i \<and> q = p) \<and>
      (st \<noteq> Ok \<longrightarrow> pg_header q = pg_header p \<and> (\<exists>k. pg_data q = take k (pg_data (disk_page d i)) @ drop k (pg_data p)))"
    using r assms by (cases rule: readPage_cases) (auto intro: exI [of _ 0])
  ultimately show "case readPage d i p of (st, q, d') \<Rightarrow> (\<forall>j. disk_page d' j = disk_page d j) \<and> dm_page_count d' = dm_page_count d \<and>
      (st = Ok \<longrightarrow> q = disk_page d i) \<and> (st = IoError \<longrightarrow> dm_is_open d \<longrightarrow> dm_good d') \<and> (st = InvalidArg \<longrightarrow> dm_page_count d \<le> unat i \<and> q = p) \<and>
      (st \<noteq> Ok \<longrightarrow> pg_header q = pg_header p \<and> (\<exists>k. pg_data q = take k (pg_data (disk_page d i)) @ drop k (pg_data p)))"
    using r by simp
qed

text \<open>A write that fails after five bytes of the page.\<close>

theorem page_io_faults_witness:
  "\<exists>q d' k. writePage (one_page_db\<lparr>dm_faults := [Some 5]\<rparr>) 1 default_Page = (IoError, q, d') \<and> dm_good d' \<and>
     pg_data (disk_page d' 1) = take k (pg_data (flushed default_Page)) @ drop k (pg_data (disk_page one_page_db 1))"
proof -
  let ?d = "one_page_db\<lparr>dm_faults := [Some 5]\<rparr>"
  have d: "dm_is_open one_page_db" "dm_stream one_page_db" "dm_good one_page_db" "dm_page_count one_page_db = 2"
      "dm_page_count one_page_db * kPageSize \<le> length (file_bytes one_page_db)"
    using one_page_db_ok by (simp_all add: dm_ok_def dm_file_ok_def)
  obtain q d' where w: "writePage ?d 1 default_Page = (IoError, q, d')"
    using d by (simp add: writePage_def stream_write_def next_fault_def Let_def)
  have same: "file_bytes ?d = file_bytes one_page_db" "disk_page ?d 1 = disk_page one_page_db 1" by (simp_all add: file_bytes_def disk_page_def)
  have "dm_good d' \<and> (\<exists>k. pg_data (disk_page d' 1) = take k (pg_data (flushed default_Page)) @ drop k (pg_data (disk_page ?d 1)))"
    using page_io_faults [of default_Page ?d 1] w d same by auto
  then show ?thesis using w same(2) by auto
qed

end
