(* ===== verification/TableHeap.thy ===== *)
theory TableHeap
  imports SlottedPage DiskManager
begin

text \<open>
  \<^verbatim>\<open>TableHeap\<close> and \<^verbatim>\<open>HeapIterator\<close>
  (\<^verbatim>\<open>src/storage/table_heap.cpp\<close>, \<^verbatim>\<open>src/storage/heap_iterator.cpp\<close>): a
  table as a linked list of slotted pages.  The heap holds a reference to the disk manager;
  its state is passed beside the heap's own fields.  The loops follow page links that are
  read from disk, so they are partial functions: \<open>None\<close> is a loop that does not end or an
  access outside of a page.
\<close>

definition kInvalidSlotId :: SlotId where "kInvalidSlotId = 0xFFFF"

record TableHeap =
  first_page_id :: PageId
  last_page_id :: PageId
  heap_page_count :: nat
  heap_tuple_count :: nat

definition mk_TableHeap :: "PageId \<Rightarrow> PageId \<Rightarrow> nat \<Rightarrow> nat \<Rightarrow> TableHeap" where
  "mk_TableHeap f l pc tc = \<lparr>first_page_id = f, last_page_id = l, heap_page_count = pc, heap_tuple_count = tc\<rparr>"

definition TableHeap_create :: "DiskManager \<Rightarrow> TableHeap option \<times> DiskManager" where
  "TableHeap_create d =
    (let (st, i, d1) = allocatePage d kInvalidPageId in
     if st \<noteq> Ok then (None, d1)
     else let page = mk_Page (mk_PageHeader i Table);
              (_, page1) = SlottedPage_initialize page;
              (st2, _, d2) = writePage d1 i page1
          in if st2 \<noteq> Ok then (None, d2) else (Some (mk_TableHeap i i 1 0), d2))"

partial_function (option) bootstrap_loop ::
  "DiskManager \<Rightarrow> PageId \<Rightarrow> PageId \<Rightarrow> nat \<Rightarrow> nat \<Rightarrow> ((Status \<times> PageId \<times> nat \<times> nat) \<times> DiskManager) option" where
  "bootstrap_loop d cur lst pages tuples =
    (if cur = kInvalidPageId then Some ((Ok, lst, pages, tuples), d)
     else case readPage d cur default_Page of (st, page, d1) \<Rightarrow>
       if st \<noteq> Ok then Some ((IoError, lst, pages, tuples), d1)
       else bootstrap_loop d1 (getNextPageId page) cur (pages + 1)
              (tuples + unat (SlottedPage_tupleCount page)))"

definition bootstrapMetadata :: "DiskManager \<Rightarrow> TableHeap \<Rightarrow> (Status \<times> TableHeap \<times> DiskManager) option" where
  "bootstrapMetadata d h =
    (case bootstrap_loop d (first_page_id h) kInvalidPageId 0 0 of
       None \<Rightarrow> None
     | Some ((st, lst, pages, tuples), d1) \<Rightarrow>
         if st \<noteq> Ok then Some (st, h, d1)
         else Some (Ok, h\<lparr>last_page_id := lst, heap_page_count := pages, heap_tuple_count := tuples\<rparr>, d1))"

definition TableHeap_open :: "DiskManager \<Rightarrow> PageId \<Rightarrow> (TableHeap option \<times> DiskManager) option" where
  "TableHeap_open d i =
    (case bootstrapMetadata d (mk_TableHeap i i 0 0) of
       None \<Rightarrow> None
     | Some (st, h, d1) \<Rightarrow> Some (if st \<noteq> Ok then None else Some h, d1))"

subsection \<open>Insertion\<close>

text \<open>
  The walk along the pages: \<open>Inl\<close> when it returned from inside the loop (with the status and,
  on success, the record identifier), \<open>Inr\<close> when it left the loop at the last page.
\<close>

partial_function (option) insert_loop ::
  "DiskManager \<Rightarrow> Tuple \<Rightarrow> PageId \<Rightarrow> Page \<Rightarrow>
   (((Status \<times> RID option) + (PageId \<times> Page)) \<times> DiskManager) option" where
  "insert_loop d t cur page =
    (if cur = kInvalidPageId then Some (Inr (cur, page), d)
     else case readPage d cur page of (st, page1, d1) \<Rightarrow>
       if st \<noteq> Ok then Some (Inl (IoError, None), d1)
       else Option.bind (SlottedPage_isFull page1 (length t)) (\<lambda>full.
         Option.bind (if full then Some (IoError, kInvalidSlotId, page1)
                      else SlottedPage_insertTuple page1 t kInvalidSlotId) (\<lambda>(st2, sid, page2).
           if st2 = Ok then
             (case writePage d1 cur page2 of (st3, _, d2) \<Rightarrow>
                if st3 \<noteq> Ok then Some (Inl (IoError, None), d2)
                else Some (Inl (Ok, Some (mk_RID cur sid)), d2))
           else if getNextPageId page2 = kInvalidPageId then Some (Inr (cur, page2), d1)
           else insert_loop d1 t (getNextPageId page2) page2)))"

definition TableHeap_insertTuple ::
  "DiskManager \<Rightarrow> TableHeap \<Rightarrow> Tuple \<Rightarrow> RID \<Rightarrow> (Status \<times> RID \<times> TableHeap \<times> DiskManager) option" where
  "TableHeap_insertTuple d h t rid =
    (if t = [] then Some (InvalidArg, rid, h, d)
     else Option.bind (insert_loop d t (first_page_id h) default_Page) (\<lambda>(r, d1).
       case r of
         Inl (st, Some new_rid) \<Rightarrow> Some (Ok, new_rid, h\<lparr>heap_tuple_count := heap_tuple_count h + 1\<rparr>, d1)
       | Inl (st, None) \<Rightarrow> Some (st, rid, h, d1)
       | Inr (cur, page) \<Rightarrow>
           (case allocatePage d1 kInvalidPageId of (st, new_id, d2) \<Rightarrow>
            if st \<noteq> Ok then Some (IoError, rid, h, d2)
            else case (if cur \<noteq> kInvalidPageId then writePage d2 cur (setNextPageId page new_id)
                       else (Ok, page, d2)) of (st2, _, d3) \<Rightarrow>
              if st2 \<noteq> Ok then Some (IoError, rid, h, d3)
              else let new_page = setPrevPageId
                         (snd (SlottedPage_initialize (mk_Page (mk_PageHeader new_id Table)))) cur in
                Option.bind (SlottedPage_insertTuple new_page t kInvalidSlotId) (\<lambda>(st3, sid, new_page1).
                  if st3 \<noteq> Ok then Some (IoError, rid, h, d3)
                  else case writePage d3 new_id new_page1 of (st4, _, d4) \<Rightarrow>
                    if st4 \<noteq> Ok then Some (IoError, rid, h, d4)
                    else Some (Ok, mk_RID new_id sid,
                           h\<lparr>last_page_id := new_id, heap_page_count := heap_page_count h + 1,
                             heap_tuple_count := heap_tuple_count h + 1\<rparr>, d4)))))"

subsection \<open>Reading and deletion\<close>

definition TableHeap_readTuple ::
  "DiskManager \<Rightarrow> TableHeap \<Rightarrow> RID \<Rightarrow> Tuple \<Rightarrow> (Status \<times> Tuple \<times> DiskManager) option" where
  "TableHeap_readTuple d h rid out =
    (if \<not> RID_isValid rid then Some (InvalidArg, out, d)
     else case readPage d (rid_page_id rid) default_Page of (st, page, d1) \<Rightarrow>
       if st \<noteq> Ok then Some (NotFound, out, d1)
       else map_option (\<lambda>(st2, t). (st2, t, d1)) (SlottedPage_readTuple page (rid_slot_id rid) out))"

definition TableHeap_deleteTuple ::
  "DiskManager \<Rightarrow> TableHeap \<Rightarrow> RID \<Rightarrow> (Status \<times> TableHeap \<times> DiskManager) option" where
  "TableHeap_deleteTuple d h rid =
    (if \<not> RID_isValid rid then Some (InvalidArg, h, d)
     else case readPage d (rid_page_id rid) default_Page of (st, page, d1) \<Rightarrow>
       if st \<noteq> Ok then Some (NotFound, h, d1)
       else Option.bind (SlottedPage_deleteTuple page (rid_slot_id rid)) (\<lambda>(s, page1).
         if s = Ok then
           (case writePage d1 (rid_page_id rid) page1 of (st2, _, d2) \<Rightarrow>
              if st2 \<noteq> Ok then Some (IoError, h, d2)
              else Some (s, h\<lparr>heap_tuple_count := size_t_of_int (int (heap_tuple_count h) - 1)\<rparr>, d2))
         else Some (s, h, d1)))"

subsection \<open>The iterator\<close>

record HeapIterator =
  current_page_id :: PageId
  current_slot_id :: SlotId
  cached_page :: "Page option"

definition end_iterator :: HeapIterator where
  "end_iterator = \<lparr>current_page_id = kInvalidPageId, current_slot_id = 0, cached_page = None\<rparr>"

definition HeapIterator_eq :: "HeapIterator \<Rightarrow> HeapIterator \<Rightarrow> bool" where
  "HeapIterator_eq a b = (current_page_id a = current_page_id b \<and> current_slot_id a = current_slot_id b)"

definition loadPage :: "DiskManager \<Rightarrow> HeapIterator \<Rightarrow> PageId \<Rightarrow> HeapIterator \<times> DiskManager" where
  "loadPage d it i = (case readPage d i default_Page of (st, page, d1) \<Rightarrow>
     if st = Ok then (it\<lparr>cached_page := Some page\<rparr>, d1)
     else (it\<lparr>cached_page := None, current_page_id := kInvalidPageId\<rparr>, d1))"

text \<open>The inner loop: the first slot of the list that can be read.\<close>

fun skip_slots :: "Page \<Rightarrow> nat list \<Rightarrow> nat option option" where
  "skip_slots p [] = Some None"
| "skip_slots p (i # is) = do {
     (st, _) \<leftarrow> SlottedPage_readTuple p (word_of_nat i) [];
     if st = Ok then Some (Some i) else skip_slots p is
   }"

partial_function (option) advanceToNextValid ::
  "DiskManager \<Rightarrow> HeapIterator \<Rightarrow> (HeapIterator \<times> DiskManager) option" where
  "advanceToNextValid d it =
    (if current_page_id it = kInvalidPageId then Some (it, d)
     else case cached_page it of
       None \<Rightarrow> Some (it, d)
     | Some page \<Rightarrow>
         Option.bind (skip_slots page [unat (current_slot_id it)..<unat (SlottedPage_slotCount page)]) (\<lambda>r.
           case r of
             Some i \<Rightarrow> Some (it\<lparr>current_slot_id := word_of_nat i\<rparr>, d)
           | None \<Rightarrow>
               (let it1 = it\<lparr>current_page_id := getNextPageId page, current_slot_id := 0\<rparr>;
                    (it2, d2) = (if current_page_id it1 \<noteq> kInvalidPageId
                                 then loadPage d it1 (current_page_id it1)
                                 else (it1\<lparr>cached_page := None\<rparr>, d))
                in advanceToNextValid d2 it2)))"

definition mk_HeapIterator :: "DiskManager \<Rightarrow> PageId \<Rightarrow> (HeapIterator \<times> DiskManager) option" where
  "mk_HeapIterator d i =
    (let it = \<lparr>current_page_id = i, current_slot_id = 0, cached_page = None\<rparr> in
     if i \<noteq> kInvalidPageId then (case loadPage d it i of (it1, d1) \<Rightarrow> advanceToNextValid d1 it1)
     else Some (it, d))"

definition HeapIterator_next :: "DiskManager \<Rightarrow> HeapIterator \<Rightarrow> (HeapIterator \<times> DiskManager) option" where
  "HeapIterator_next d it =
    (if current_page_id it = kInvalidPageId then Some (it, d)
     else advanceToNextValid d (it\<lparr>current_slot_id := current_slot_id it + 1\<rparr>))"

definition HeapIterator_deref :: "HeapIterator \<Rightarrow> Tuple option" where
  "HeapIterator_deref it = (case cached_page it of None \<Rightarrow> Some []
     | Some page \<Rightarrow> map_option (\<lambda>(st, t). if st = Ok then t else [])
         (SlottedPage_readTuple page (current_slot_id it) []))"

definition getRID :: "HeapIterator \<Rightarrow> RID" where
  "getRID it = mk_RID (current_page_id it) (current_slot_id it)"

definition TableHeap_begin :: "DiskManager \<Rightarrow> TableHeap \<Rightarrow> (HeapIterator \<times> DiskManager) option" where
  "TableHeap_begin d h = mk_HeapIterator d (first_page_id h)"

text \<open>The loop \<open>for (it = heap.begin(); it != heap.end(); ++it)\<close> of a client that collects the records.\<close>

partial_function (option) heap_collect :: "DiskManager \<Rightarrow> HeapIterator \<Rightarrow> (RID \<times> Tuple) list option" where
  "heap_collect d it =
    (if HeapIterator_eq it end_iterator then Some []
     else Option.bind (HeapIterator_deref it) (\<lambda>t.
       Option.bind (HeapIterator_next d it) (\<lambda>(it1, d1).
         Option.bind (heap_collect d1 it1) (\<lambda>rest. Some ((getRID it, t) # rest)))))"

subsection \<open>A heap as a chain of record pages\<close>

fun chain :: "(PageId \<Rightarrow> Page option) \<Rightarrow> PageId \<Rightarrow> PageId list \<Rightarrow> bool" where
  "chain P i [] = (i = kInvalidPageId)"
| "chain P i (x # xs) = (i = x \<and> x \<noteq> kInvalidPageId \<and> (case P x of None \<Rightarrow> False
     | Some p \<Rightarrow> wf_sp p \<and> wf_PageType (page_type (pg_header p)) \<and> chain P (getNextPageId p) xs))"

definition heap_tuples :: "(PageId \<Rightarrow> Page option) \<Rightarrow> PageId list \<Rightarrow> nat" where
  "heap_tuples P ids = sum_list (map (\<lambda>x. live_count (slots_of (the (P x)))) ids)"

text \<open>The invariant of a heap whose pages are \<open>ids\<close>, in order.\<close>

definition heap_ok :: "DiskManager \<Rightarrow> TableHeap \<Rightarrow> PageId list \<Rightarrow> bool" where
  "heap_ok d h ids = (dm_ok d \<and> ids \<noteq> [] \<and> distinct ids \<and> chain (dm_pages d) (first_page_id h) ids \<and>
     last_page_id h = last ids \<and> heap_page_count h = length ids \<and>
     heap_tuple_count h = heap_tuples (dm_pages d) ids \<and> heap_tuple_count h < 2 ^ 64)"

text \<open>The contents: which record each identifier denotes.\<close>

definition slot_lookup :: "Page \<Rightarrow> SlotId \<Rightarrow> Tuple option" where
  "slot_lookup p s = (if unat s < length (slots_of p) then slots_of p ! unat s else None)"

definition heap_lookup :: "(PageId \<Rightarrow> Page option) \<Rightarrow> PageId list \<Rightarrow> RID \<Rightarrow> Tuple option" where
  "heap_lookup P ids r = (if rid_page_id r \<in> set ids then slot_lookup (the (P (rid_page_id r))) (rid_slot_id r)
     else None)"

lemma sp_cong:
  assumes "body p = body q" "pg_header p = pg_header q" "wf_Page p = wf_Page q"
  shows "wf_sp p = wf_sp q" "slots_of p = slots_of q" "wf_Page q \<Longrightarrow> getNextPageId p = getNextPageId q"
    "wf_Page q \<Longrightarrow> SlottedPage_freeSpace p = SlottedPage_freeSpace q"
  using assms by (simp_all add: wf_sp_def slots_of_def getNextPageId_def readSpHeader_eq SlottedPage_freeSpace_def)

lemma flushed_sp [simp]:
  assumes "wf_Page p"
  shows "wf_sp (flushed p) = wf_sp p" "slots_of (flushed p) = slots_of p" "getNextPageId (flushed p) = getNextPageId p"
  using sp_cong [of "flushed p" p] assms by simp_all

lemma chain_page:
  assumes "chain P i xs" "x \<in> set xs"
  shows "\<exists>p. P x = Some p \<and> wf_sp p \<and> wf_PageType (page_type (pg_header p)) \<and> x \<noteq> kInvalidPageId"
  using assms by (induction P i xs rule: chain.induct) (auto split: option.splits)

lemma chain_upd_other [simp]: "x \<notin> set xs \<Longrightarrow> chain (P(x \<mapsto> q)) i xs = chain P i xs"
  by (induction P i xs rule: chain.induct) (auto split: option.splits)

lemma chain_upd_same:
  assumes "chain P i xs" "P x = Some p" "wf_sp q" "wf_PageType (page_type (pg_header q))" "getNextPageId q = getNextPageId p"
  shows "chain (P(x \<mapsto> q)) i xs"
  using assms by (induction P i xs rule: chain.induct) (auto split: option.splits)

lemma chain_extend:
  assumes "chain P i xs" "xs \<noteq> []" "distinct xs" "n \<notin> set xs" "n \<noteq> kInvalidPageId" "P' n = Some q"
    and q: "wf_sp q" "wf_PageType (page_type (pg_header q))" "getNextPageId q = kInvalidPageId"
    and l: "P' (last xs) = Some l" "wf_sp l" "wf_PageType (page_type (pg_header l))" "getNextPageId l = n"
    and "\<forall>x\<in>set (butlast xs). P' x = P x"
  shows "chain P' i (xs @ [n])"
  using assms by (induction P i xs rule: chain.induct) (auto split: option.splits if_splits)

lemma chain_last:
  "chain P i xs \<Longrightarrow> xs \<noteq> [] \<Longrightarrow> \<exists>p. P (last xs) = Some p \<and> wf_sp p \<and> wf_PageType (page_type (pg_header p)) \<and>
    getNextPageId p = kInvalidPageId"
proof (induction P i xs rule: chain.induct)
  case (2 P i x xs)
  then show ?case by (cases xs) (auto split: option.splits)
qed simp

lemma heap_tuples_simps [simp]:
  "heap_tuples P [] = 0" "heap_tuples P (x # xs) = live_count (slots_of (the (P x))) + heap_tuples P xs"
  "heap_tuples P (xs @ ys) = heap_tuples P xs + heap_tuples P ys"
  by (simp_all add: heap_tuples_def)

lemma heap_tuples_cong: "\<forall>x\<in>set ids. P x = Q x \<Longrightarrow> heap_tuples P ids = heap_tuples Q ids"
  by (induction ids) auto

lemma heap_tuples_other [simp]: "x \<notin> set ids \<Longrightarrow> heap_tuples (P(x \<mapsto> q)) ids = heap_tuples P ids"
  by (rule heap_tuples_cong) auto

lemma heap_tuples_upd:
  assumes "distinct ids" "x \<in> set ids" "P x = Some p"
  shows "heap_tuples (P(x \<mapsto> q)) ids + live_count (slots_of p) = heap_tuples P ids + live_count (slots_of q)"
  using assms by (induction ids) auto

lemma isFull_fits:
  "wf_sp p \<Longrightarrow> SlottedPage_isFull p (length t) = Some (SlottedPage_freeSpace p < insert_need (slots_of p) t)"
  by (simp add: isFull_spec insert_need_def)

definition fits :: "Page \<Rightarrow> Tuple \<Rightarrow> bool" where
  "fits p t = (insert_need (slots_of p) t \<le> SlottedPage_freeSpace p)"

lemma insert_loop_spec:
  assumes "dm_ok d" "chain (dm_pages d) cur ids" "ids \<noteq> []" "wf_Page page" "t \<noteq> []"
  shows "insert_loop d t cur page =
    (case find (\<lambda>x. fits (the (dm_pages d x)) t) ids of
       None \<Rightarrow> Some (Inr (last ids, the (dm_pages d (last ids))), d)
     | Some x \<Rightarrow> Option.bind (SlottedPage_insertTuple (the (dm_pages d x)) t kInvalidSlotId) (\<lambda>(st, sid, p2).
         case writePage d x p2 of (st3, _, d2) \<Rightarrow>
           if st3 \<noteq> Ok then Some (Inl (IoError, None), d2) else Some (Inl (Ok, Some (mk_RID x sid)), d2)))"
  using assms(2-4)
proof (induction ids arbitrary: cur page)
  case (Cons x xs)
  then obtain p where x: "cur = x" "x \<noteq> kInvalidPageId" "dm_pages d x = Some p" "wf_sp p"
      "chain (dm_pages d) (getNextPageId p) xs"
    by (auto split: option.splits)
  have rd: "readPage d x page = (Ok, p, d)" by (rule dm.rd_law [OF assms(1) x(3) Cons.prems(3)])
  show ?case
  proof (cases "fits p t")
    case True
    then obtain p2 where "SlottedPage_insertTuple p t kInvalidSlotId = Some (Ok, word_of_nat (insert_index (slots_of p)), p2)"
      using insertTuple_spec [OF x(4), of t kInvalidSlotId] assms(5) by (auto simp: fits_def)
    with True x rd show ?thesis
      by (simp add: insert_loop.simps [of d t x page] isFull_fits fits_def)
  next
    case False
    then have step: "insert_loop d t cur page = (if getNextPageId p = kInvalidPageId then Some (Inr (x, p), d)
        else insert_loop d t (getNextPageId p) p)"
      using x rd by (simp add: insert_loop.simps [of d t x page] isFull_fits fits_def)
    show ?thesis
    proof (cases "xs = []")
      case True
      with step False x show ?thesis by simp
    next
      case ne: False
      with x(5) have "getNextPageId p \<noteq> kInvalidPageId" by (cases xs) auto
      with step False x(1-4) ne Cons.IH [OF x(5) ne, of p] show ?thesis
        by (simp add: wf_spD(1) split: option.split)
    qed
  qed
qed simp

lemma sp_frameD:
  assumes "sp_frame q = sp_frame p"
  shows "getNextPageId q = getNextPageId p" "page_type (pg_header q) = page_type (pg_header p)"
  using assms by (simp_all add: sp_frame_def)

text \<open>Replacing one page of the chain by a page with the same links.\<close>

lemma heap_replace:
  assumes ok: "heap_ok d h ids" and x: "x \<in> set ids" "dm_pages d x = Some p"
    and q: "wf_sp q" "sp_frame q = sp_frame p"
  shows "\<exists>d'. writePage d x q = (Ok, flushed q, d') \<and> dm_pages d' = (dm_pages d)(x \<mapsto> flushed q) \<and>
    (\<forall>c. c + live_count (slots_of p) = heap_tuple_count h + live_count (slots_of q) \<longrightarrow> c < 2 ^ 64 \<longrightarrow>
       heap_ok d' (h\<lparr>heap_tuple_count := c\<rparr>) ids)"
proof -
  have wfp: "wf_sp p" "wf_PageType (page_type (pg_header p))"
    using chain_page [of "dm_pages d" _ ids x] ok x by (auto simp: heap_ok_def)
  have qt: "wf_Page q" "wf_PageType (page_type (pg_header q))" "getNextPageId q = getNextPageId p"
    using q wfp sp_frameD [OF q(2)] by (simp_all add: wf_spD(1))
  obtain d' where d': "writePage d x q = (Ok, flushed q, d')" "dm_ok d'" "dm_pages d' = (dm_pages d)(x \<mapsto> flushed q)"
    using dm.wr_law [of d x q] ok x qt by (auto simp: heap_ok_def)
  have "chain (dm_pages d') (first_page_id h) ids"
    unfolding d'(3) using ok x q(1) qt by (intro chain_upd_same) (auto simp: heap_ok_def)
  moreover have "heap_tuples (dm_pages d') ids + live_count (slots_of p) = heap_tuple_count h + live_count (slots_of q)"
    using heap_tuples_upd [of ids x "dm_pages d" p "flushed q"] ok x qt(1) by (simp add: heap_ok_def d'(3))
  ultimately show ?thesis using ok d' by (intro exI [of _ d']) (auto simp: heap_ok_def)
qed

lemma slot_lookup_store:
  assumes "wf_sp p" "wf_sp q" "slots_of q = store (slots_of p) (insert_index (slots_of p)) t"
  shows "slot_lookup p (word_of_nat (insert_index (slots_of p))) = None"
    and "slot_lookup q = (slot_lookup p)(word_of_nat (insert_index (slots_of p)) \<mapsto> t)"
proof -
  let ?i = "insert_index (slots_of p)"
  have "length (slots_of q) < 65536" using sp.slots_bound [OF assms(2)] .
  then have small: "?i < 65536" by (simp add: assms(3))
  show "slot_lookup p (word_of_nat ?i) = None"
    using small sp.insert_index_bounds [of "slots_of p"] by (auto simp: slot_lookup_def)
  have "slot_lookup q s = ((slot_lookup p)(word_of_nat ?i \<mapsto> t)) s" for s
    using small sp.insert_index_bounds(1) [of "slots_of p"]
    by (cases "s = word_of_nat ?i")
      (auto simp: slot_lookup_def assms(3) nth_store max_def word_unat_eq_iff split: if_splits)
  then show "slot_lookup q = (slot_lookup p)(word_of_nat ?i \<mapsto> t)" ..
qed

lemma heap_lookup_upd:
  assumes "x \<in> set ids" "P x = Some p" "slot_lookup q = (slot_lookup p)(s := v)"
  shows "heap_lookup (P(x \<mapsto> q)) ids = (heap_lookup P ids)(mk_RID x s := v)"
proof
  fix r :: RID
  have "r = mk_RID x s \<longleftrightarrow> rid_page_id r = x \<and> rid_slot_id r = s"
    by (metis mk_RID_simps)
  then show "heap_lookup (P(x \<mapsto> q)) ids r = ((heap_lookup P ids)(mk_RID x s := v)) r"
    using assms by (simp add: heap_lookup_def)
qed

lemma flushed_lookup [simp]: "wf_Page p \<Longrightarrow> slot_lookup (flushed p) = slot_lookup p"
  by (rule ext) (simp add: slot_lookup_def del: length_slots_of)

lemma insert_into_existing:
  assumes ok: "heap_ok d h ids" "heap_tuple_count h + 1 < 2 ^ 64" and t: "t \<noteq> []"
    and x: "find (\<lambda>x. fits (the (dm_pages d x)) t) ids = Some x"
  shows "\<exists>s d'. TableHeap_insertTuple d h t rid0 =
      Some (Ok, mk_RID x s, h\<lparr>heap_tuple_count := heap_tuple_count h + 1\<rparr>, d') \<and>
    heap_ok d' (h\<lparr>heap_tuple_count := heap_tuple_count h + 1\<rparr>) ids \<and>
    heap_lookup (dm_pages d) ids (mk_RID x s) = None \<and>
    heap_lookup (dm_pages d') ids = (heap_lookup (dm_pages d) ids)(mk_RID x s \<mapsto> t)"
proof -
  have xin: "x \<in> set ids" "fits (the (dm_pages d x)) t" using x by (auto simp: find_Some_iff)
  obtain p where p: "dm_pages d x = Some p" "wf_sp p"
    using chain_page [of "dm_pages d" _ ids x] ok(1) xin by (auto simp: heap_ok_def)
  let ?i = "insert_index (slots_of p)"
  obtain q where q: "SlottedPage_insertTuple p t kInvalidSlotId = Some (Ok, word_of_nat ?i, q)" "wf_sp q"
      "slots_of q = store (slots_of p) ?i t" "sp_frame q = sp_frame p"
    using insertTuple_spec [OF p(2), of t kInvalidSlotId] xin(2) t p(1) by (auto simp: fits_def)
  obtain d' where d': "writePage d x q = (Ok, flushed q, d')" "dm_pages d' = (dm_pages d)(x \<mapsto> flushed q)"
      "\<forall>c. c + live_count (slots_of p) = heap_tuple_count h + live_count (slots_of q) \<longrightarrow> c < 2 ^ 64 \<longrightarrow>
         heap_ok d' (h\<lparr>heap_tuple_count := c\<rparr>) ids"
    using heap_replace [OF ok(1) xin(1) p(1) q(2,4)] by blast
  have "insert_loop d t (first_page_id h) default_Page = Some (Inl (Ok, Some (mk_RID x (word_of_nat ?i))), d')"
    using insert_loop_spec [of d "first_page_id h" ids default_Page t] ok(1) t x p q d' by (simp add: heap_ok_def)
  then have run: "TableHeap_insertTuple d h t rid0 =
      Some (Ok, mk_RID x (word_of_nat ?i), h\<lparr>heap_tuple_count := heap_tuple_count h + 1\<rparr>, d')"
    using t by (simp add: TableHeap_insertTuple_def)
  have "live_count (slots_of q) = Suc (live_count (slots_of p))"
    using sp.insert_index_bounds(2) [of "slots_of p"] by (auto simp: q(3) live_store)
  then have ok': "heap_ok d' (h\<lparr>heap_tuple_count := heap_tuple_count h + 1\<rparr>) ids" using d'(3) ok(2) by simp
  note sl = slot_lookup_store [OF p(2) q(2,3)]
  have "heap_lookup (dm_pages d) ids (mk_RID x (word_of_nat ?i)) = None"
    using sl(1) p(1) by (simp add: heap_lookup_def)
  moreover have "heap_lookup (dm_pages d') ids = (heap_lookup (dm_pages d) ids)(mk_RID x (word_of_nat ?i) \<mapsto> t)"
    unfolding d'(2) by (rule heap_lookup_upd [where p = p]) (simp_all add: xin p sl(2) q(2) wf_spD(1))
  ultimately show ?thesis using run ok' by blast
qed

text \<open>The page a heap appends: initialised, linked back, with the first tuple in slot 0.\<close>

lemma appended_page:
  fixes n l :: PageId
  assumes "t \<noteq> []" "length t \<le> 4048"
  defines "np \<equiv> setPrevPageId (snd (SlottedPage_initialize (mk_Page (mk_PageHeader n Table)))) l"
  shows "\<exists>q. SlottedPage_insertTuple np t kInvalidSlotId = Some (Ok, 0, q) \<and> wf_sp q \<and> slots_of q = [Some t] \<and>
    getNextPageId q = kInvalidPageId \<and> page_type (pg_header q) = Table"
proof -
  let ?p0 = "mk_Page (mk_PageHeader n Table)"
  let ?p1 = "snd (SlottedPage_initialize ?p0)"
  note init = initialize_ok [of ?p0, simplified]
  have np: "wf_sp np" "slots_of np = []" "SlottedPage_freeSpace np = 4056" "pg_header np = pg_header ?p1"
    using set_links_spec [OF init(2), of np l] init(3,4) by (simp_all add: np_def)
  have nxt: "getNextPageId ?p1 = kInvalidPageId" "page_type (pg_header ?p1) = Table"
    using init(5) by (simp_all add: sp_frame_def)
  have nx: "getNextPageId np = kInvalidPageId" using nxt(1) init(2) by (simp add: np_def wf_spD(1))
  obtain q where "SlottedPage_insertTuple np t kInvalidSlotId = Some (Ok, 0, q)" "wf_sp q"
      "slots_of q = [Some t]" "sp_frame q = sp_frame np"
    using insertTuple_spec [OF np(1), of t kInvalidSlotId] np(2,3) assms(1,2) by auto
  then show ?thesis using nx nxt(2) np(4) sp_frameD [of q np] by auto
qed

lemma insert_into_new:
  assumes ok: "heap_ok d h ids" "heap_tuple_count h + 1 < 2 ^ 64" "dm_room d" and t: "t \<noteq> []" "length t \<le> 4048"
    and none: "find (\<lambda>x. fits (the (dm_pages d x)) t) ids = None"
  shows "\<exists>n h' d'. TableHeap_insertTuple d h t rid0 = Some (Ok, mk_RID n 0, h', d') \<and> heap_ok d' h' (ids @ [n]) \<and>
    heap_lookup (dm_pages d) ids (mk_RID n 0) = None \<and>
    heap_lookup (dm_pages d') (ids @ [n]) = (heap_lookup (dm_pages d) ids)(mk_RID n 0 \<mapsto> t)"
proof -
  let ?P = "dm_pages d" and ?l = "last ids"
  have hk: "dm_ok d" "ids \<noteq> []" "distinct ids" "chain ?P (first_page_id h) ids"
    using ok(1) by (simp_all add: heap_ok_def)
  obtain p where p: "?P ?l = Some p" "wf_sp p" "wf_PageType (page_type (pg_header p))" "getNextPageId p = kInvalidPageId"
    using chain_last [OF hk(4,2)] by blast
  obtain d1 n where al: "allocatePage d kInvalidPageId = (Ok, n, d1)" "dm_ok d1" "?P n = None" "n \<noteq> kInvalidPageId"
      "dm_pages d1 = ?P(n \<mapsto> zero_page)"
    using dm.al_law [OF hk(1) ok(3), of kInvalidPageId] by blast
  have nl: "n \<notin> set ids" "?l \<in> set ids" using al(3) chain_page [OF hk(4), of n] hk(2) by auto
  define lp where "lp = setNextPageId p n"
  have lp: "wf_sp lp" "slots_of lp = slots_of p" "pg_header lp = pg_header p" "getNextPageId lp = n"
    using set_links_spec [OF p(2), of lp n] p(2) by (simp_all add: lp_def wf_spD(1))
  obtain d2 where d2: "writePage d1 ?l lp = (Ok, flushed lp, d2)" "dm_ok d2"
      "dm_pages d2 = ?P(n \<mapsto> zero_page, ?l \<mapsto> flushed lp)"
  proof -
    have "dm_pages d1 ?l \<noteq> None" using al(5) p(1) nl by auto
    moreover have "wf_Page lp" "wf_PageType (page_type (pg_header lp))" using lp p(3) by (simp_all add: wf_spD(1))
    ultimately show thesis using dm.wr_law [OF al(2), of ?l lp] that by (auto simp: al(5))
  qed
  obtain q where q: "SlottedPage_insertTuple (setPrevPageId (snd (SlottedPage_initialize
        (mk_Page (mk_PageHeader n Table)))) ?l) t kInvalidSlotId = Some (Ok, 0, q)" "wf_sp q" "slots_of q = [Some t]"
      "getNextPageId q = kInvalidPageId" "page_type (pg_header q) = Table"
    using appended_page [OF t] by blast
  obtain d3 where d3: "writePage d2 n q = (Ok, flushed q, d3)" "dm_ok d3"
      "dm_pages d3 = ?P(n \<mapsto> zero_page, ?l \<mapsto> flushed lp, n \<mapsto> flushed q)"
  proof -
    have "dm_pages d2 n \<noteq> None" by (simp add: d2(3))
    moreover have "wf_Page q" "wf_PageType (page_type (pg_header q))" using q(2,5) by (simp_all add: wf_spD(1))
    ultimately show thesis using dm.wr_law [OF d2(2), of n q] that by (auto simp: d2(3))
  qed
  define Q where "Q = dm_pages d3"
  have Q: "Q n = Some (flushed q)" "Q ?l = Some (flushed lp)" "\<And>x. x \<noteq> n \<Longrightarrow> x \<noteq> ?l \<Longrightarrow> Q x = ?P x"
    using nl by (auto simp: Q_def d3(3))
  have wfs: "wf_Page q" "wf_Page lp" "?l \<noteq> kInvalidPageId"
    using q(2) lp(1) chain_page [OF hk(4) nl(2)] by (auto simp: wf_spD(1))
  let ?h = "h\<lparr>last_page_id := n, heap_page_count := heap_page_count h + 1, heap_tuple_count := heap_tuple_count h + 1\<rparr>"
  have "insert_loop d t (first_page_id h) default_Page = Some (Inr (?l, p), d)"
    using insert_loop_spec [OF hk(1,4,2), of default_Page t] t none p(1) by simp
  then have run: "TableHeap_insertTuple d h t rid0 = Some (Ok, mk_RID n 0, ?h, d3)"
    using t(1) al(1) d2(1) d3(1) q(1) wfs(3) by (simp add: TableHeap_insertTuple_def lp_def)
  have bl: "\<forall>x\<in>set (butlast ids). Q x = ?P x"
    using hk(2,3) nl(1) Q(3) by (metis append_butlast_last_id distinct_append in_set_butlastD distinct.simps(2)
        not_distinct_conv_prefix disjoint_iff list.set_intros(1))
  have ch: "chain Q (first_page_id h) (ids @ [n])"
    by (rule chain_extend [OF hk(4,2,3) nl(1) al(4) Q(1) _ _ _ Q(2) _ _ _ bl]) (use q lp p wfs in simp_all)
  have tc: "heap_tuples Q (ids @ [n]) = heap_tuples ?P ids + 1"
  proof -
    have "heap_tuples Q (butlast ids @ [?l]) = heap_tuples ?P (butlast ids @ [?l])"
      using heap_tuples_cong [OF bl] Q(2) lp(2) p(1) wfs by simp
    then show ?thesis using hk(2) Q(1) q(3) wfs by simp
  qed
  have "heap_ok d3 ?h (ids @ [n])"
    using ok(1,2) d3(2) ch tc nl hk by (simp add: heap_ok_def Q_def)
  moreover have "heap_lookup ?P ids (mk_RID n 0) = None" using nl by (simp add: heap_lookup_def)
  moreover have "heap_lookup Q (ids @ [n]) = (heap_lookup ?P ids)(mk_RID n 0 \<mapsto> t)"
  proof
    fix r :: RID
    have "slot_lookup (flushed q) (rid_slot_id r) = (if rid_slot_id r = 0 then Some t else None)"
      using wfs by (auto simp: slot_lookup_def q(3) unat_eq_0 simp del: length_slots_of)
    moreover have "slot_lookup (flushed lp) = slot_lookup p"
      using lp(2) wfs by (intro ext) (simp add: slot_lookup_def del: length_slots_of)
    moreover have "r = mk_RID n 0 \<longleftrightarrow> rid_page_id r = n \<and> rid_slot_id r = 0" by (metis mk_RID_simps)
    ultimately show "heap_lookup Q (ids @ [n]) r = ((heap_lookup ?P ids)(mk_RID n 0 \<mapsto> t)) r"
      using nl Q p(1) by (cases "rid_page_id r = ?l") (auto simp: heap_lookup_def)
  qed
  ultimately show ?thesis using run by (intro exI [of _ n] exI [of _ ?h] exI [of _ d3]) (simp add: Q_def)
qed

subsection \<open>Reading, deletion, reopening\<close>

lemma heap_read_spec:
  assumes ok: "heap_ok d h ids" and r: "rid_page_id rid \<in> set ids"
  shows "TableHeap_readTuple d h rid out = Some (case heap_lookup (dm_pages d) ids rid of
      Some t \<Rightarrow> (Ok, t, d)
    | None \<Rightarrow> (if unat (rid_slot_id rid) < length (slots_of (the (dm_pages d (rid_page_id rid))))
               then InvalidArg else NotFound, out, d))"
proof -
  obtain p where p: "dm_pages d (rid_page_id rid) = Some p" "wf_sp p" "rid_page_id rid \<noteq> kInvalidPageId"
    using chain_page [OF _ r] ok by (auto simp: heap_ok_def)
  have "readPage d (rid_page_id rid) default_Page = (Ok, p, d)"
    using ok p by (intro dm.rd_law) (simp_all add: heap_ok_def)
  with p r readTuple_spec [OF p(2), of "rid_slot_id rid" out] show ?thesis
    by (auto simp: TableHeap_readTuple_def RID_isValid_def heap_lookup_def slot_lookup_def split: option.splits)
qed

lemma heap_delete_spec:
  assumes ok: "heap_ok d h ids" and r: "heap_lookup (dm_pages d) ids rid = Some t"
  shows "\<exists>h' d'. TableHeap_deleteTuple d h rid = Some (Ok, h', d') \<and> heap_ok d' h' ids \<and>
    heap_lookup (dm_pages d') ids = (heap_lookup (dm_pages d) ids)(rid := None) \<and>
    Suc (heap_tuple_count h') = heap_tuple_count h"
proof -
  let ?x = "rid_page_id rid" and ?s = "rid_slot_id rid"
  have x: "?x \<in> set ids" using r by (auto simp: heap_lookup_def split: if_splits)
  obtain p where p: "dm_pages d ?x = Some p" "wf_sp p" "?x \<noteq> kInvalidPageId"
    using chain_page [OF _ x] ok by (auto simp: heap_ok_def)
  have s: "unat ?s < length (slots_of p)" "slots_of p ! unat ?s = Some t"
    using r x p(1) by (auto simp: heap_lookup_def slot_lookup_def simp del: length_slots_of split: if_splits)
  obtain q where q: "SlottedPage_deleteTuple p ?s = Some (Ok, q)" "wf_sp q"
      "slots_of q = (slots_of p)[unat ?s := None]" "sp_frame q = sp_frame p"
    using deleteTuple_spec [OF p(2), of ?s] s by auto
  obtain d' where d': "writePage d ?x q = (Ok, flushed q, d')" "dm_pages d' = (dm_pages d)(?x \<mapsto> flushed q)"
      "\<forall>c. c + live_count (slots_of p) = heap_tuple_count h + live_count (slots_of q) \<longrightarrow> c < 2 ^ 64 \<longrightarrow>
         heap_ok d' (h\<lparr>heap_tuple_count := c\<rparr>) ids"
    using heap_replace [OF ok x p(1) q(2,4)] by blast
  have lc: "live_count (slots_of p) = Suc (live_count (slots_of q))"
    using live_update(2) [OF s(1), of None] live_at_le(2) [OF s(1)] s(2) by (simp add: q(3))
  have tot: "live_count (slots_of p) \<le> heap_tuple_count h" "heap_tuple_count h < 2 ^ 64"
    using ok x p(1) member_le_sum_list [of "live_count (slots_of p)" "map (\<lambda>x. live_count (slots_of (the (dm_pages d x)))) ids"]
    by (force simp: heap_ok_def heap_tuples_def)+
  then have pos: "0 < heap_tuple_count h" using lc by simp
  have dec: "size_t_of_int (int (heap_tuple_count h) - 1) = heap_tuple_count h - 1"
    using pos tot(2) by (simp add: size_t_of_int_def nat_mod_distrib nat_diff_distrib)
  let ?h = "h\<lparr>heap_tuple_count := heap_tuple_count h - 1\<rparr>"
  have ok': "heap_ok d' ?h ids" using d'(3) [rule_format, of "heap_tuple_count h - 1"] lc pos tot by simp
  have "readPage d ?x default_Page = (Ok, p, d)" using ok p by (intro dm.rd_law) (simp_all add: heap_ok_def)
  with p(3) q(1) d'(1) dec have run: "TableHeap_deleteTuple d h rid = Some (Ok, ?h, d')"
    by (simp add: TableHeap_deleteTuple_def RID_isValid_def)
  have "slot_lookup (flushed q) = (slot_lookup p)(?s := None)"
    using q(2,3) by (intro ext) (auto simp: slot_lookup_def wf_spD(1) nth_list_update word_unat_eq_iff
        simp del: length_slots_of)
  then have "heap_lookup (dm_pages d') ids = (heap_lookup (dm_pages d) ids)(mk_RID ?x ?s := None)"
    unfolding d'(2) using x p(1) by (intro heap_lookup_upd [where p = p])
  with run ok' pos show ?thesis by auto
qed

lemma bootstrap_loop_spec:
  assumes "dm_ok d" "chain (dm_pages d) cur ids"
  shows "bootstrap_loop d cur lst pages tuples =
    Some ((Ok, last (lst # ids), pages + length ids, tuples + heap_tuples (dm_pages d) ids), d)"
  using assms(2)
proof (induction ids arbitrary: cur lst pages tuples)
  case Nil
  then show ?case by (simp add: bootstrap_loop.simps)
next
  case (Cons x xs)
  then obtain p where x: "cur = x" "x \<noteq> kInvalidPageId" "dm_pages d x = Some p" "wf_sp p"
      "chain (dm_pages d) (getNextPageId p) xs"
    by (auto split: option.splits)
  have "readPage d x default_Page = (Ok, p, d)" by (intro dm.rd_law [OF assms(1) x(3)]) simp
  with x show ?case
    by (simp add: bootstrap_loop.simps [of d x] Cons.IH [OF x(5)] tupleCount_spec)
qed

lemma heap_open_spec:
  assumes "heap_ok d h ids"
  shows "TableHeap_open d (first_page_id h) = Some (Some h, d)"
  using assms bootstrap_loop_spec [of d "first_page_id h" ids kInvalidPageId 0 0]
  by (simp add: heap_ok_def TableHeap_open_def bootstrapMetadata_def mk_TableHeap_def)

subsection \<open>Iteration\<close>

definition page_records :: "PageId \<Rightarrow> Page \<Rightarrow> nat \<Rightarrow> (RID \<times> Tuple) list" where
  "page_records x p s = List.map_filter (\<lambda>i. map_option (\<lambda>t. (mk_RID x (word_of_nat i), t)) (slots_of p ! i))
     [s..<length (slots_of p)]"

definition heap_records :: "(PageId \<Rightarrow> Page option) \<Rightarrow> PageId list \<Rightarrow> (RID \<times> Tuple) list" where
  "heap_records P ids = concat (map (\<lambda>x. page_records x (the (P x)) 0) ids)"

lemma skip_slots_spec:
  assumes "wf_sp p" "\<forall>i\<in>set is. i < length (slots_of p)"
  shows "skip_slots p is = Some (find (\<lambda>i. slots_of p ! i \<noteq> None) is)"
  using assms(2)
proof (induction "is")
  case (Cons i "is")
  then have "i < 65536" using sp.slots_bound [OF assms(1)] by simp
  with Cons show ?case
    by (auto simp: readTuple_spec [OF assms(1)] simp del: length_slots_of split: option.splits)
qed simp

lemma page_records_find:
  assumes "find (\<lambda>i. slots_of p ! i \<noteq> None) [s..<length (slots_of p)] = r"
  shows "page_records x p s = (case r of None \<Rightarrow> []
    | Some i \<Rightarrow> (mk_RID x (word_of_nat i), the (slots_of p ! i)) # page_records x p (Suc i))"
proof (cases r)
  case None
  with assms show ?thesis
    by (auto simp: page_records_def find_None_iff map_filter_def filter_empty_conv simp del: length_slots_of)
next
  case (Some i)
  let ?n = "length (slots_of p)"
  have i: "s \<le> i" "i < ?n" "slots_of p ! i \<noteq> None" "\<forall>j\<in>{s..<i}. slots_of p ! j = None"
  proof -
    have "find (\<lambda>i. slots_of p ! i \<noteq> None) [s..<?n] = Some i" using assms Some by simp
    then obtain k where k: "k < ?n - s" "i = s + k" "slots_of p ! (s + k) \<noteq> None"
        "\<forall>j<k. slots_of p ! (s + j) = None"
      unfolding find_Some_iff by (auto simp del: length_slots_of not_None_eq)
    then have "\<forall>j\<in>{s..<i}. slots_of p ! j = None" by (metis atLeastLessThan_iff le_add_diff_inverse nat_add_left_cancel_less)
    with k show "s \<le> i" "i < ?n" "slots_of p ! i \<noteq> None" "\<forall>j\<in>{s..<i}. slots_of p ! j = None" by auto
  qed
  then have "[s..<?n] = [s..<i] @ i # [Suc i..<?n]"
    by (metis le_add_diff_inverse less_imp_le upt_add_eq_append upt_conv_Cons)
  moreover have "filter (\<lambda>j. slots_of p ! j \<noteq> None) [s..<i] = []" using i(4) by (auto simp: filter_empty_conv)
  ultimately show ?thesis using i Some by (auto simp add: page_records_def map_filter_def simp del: length_slots_of)
qed

text \<open>Where the iterator goes when a page is exhausted.\<close>

definition iterate_rest :: "DiskManager \<Rightarrow> Page \<Rightarrow> (RID \<times> Tuple) list option" where
  "iterate_rest d p =
    (let it1 = \<lparr>current_page_id = getNextPageId p, current_slot_id = 0, cached_page = Some p\<rparr>;
         (it2, d2) = (if current_page_id it1 \<noteq> kInvalidPageId then loadPage d it1 (current_page_id it1)
                      else (it1\<lparr>cached_page := None\<rparr>, d))
     in Option.bind (advanceToNextValid d2 it2) (\<lambda>(it, d1). heap_collect d1 it))"

lemma iterate_step:
  assumes "wf_sp p" "x \<noteq> kInvalidPageId" "iterate_rest d p = Some R" "s \<le> length (slots_of p)"
  shows "Option.bind (advanceToNextValid d \<lparr>current_page_id = x, current_slot_id = word_of_nat s, cached_page = Some p\<rparr>)
      (\<lambda>(it, d1). heap_collect d1 it) = Some (page_records x p s @ R)"
  using assms(4)
proof (induction "length (slots_of p) - s" arbitrary: s rule: less_induct)
  case less
  let ?n = "length (slots_of p)" and ?f = "find (\<lambda>i. slots_of p ! i \<noteq> None) [s..<length (slots_of p)]"
  let ?it = "\<lambda>s. \<lparr>current_page_id = x, current_slot_id = word_of_nat s, cached_page = Some p\<rparr> :: HeapIterator"
  have n: "?n < 65536" by (rule sp.slots_bound [OF assms(1)])
  have sk: "skip_slots p [s..<?n] = Some ?f" by (intro skip_slots_spec [OF assms(1)]) auto
  have adv: "advanceToNextValid d (?it s) = (case ?f of Some i \<Rightarrow> Some (?it i, d)
      | None \<Rightarrow> (let it1 = \<lparr>current_page_id = getNextPageId p, current_slot_id = 0, cached_page = Some p\<rparr>;
           (it2, d2) = (if current_page_id it1 \<noteq> kInvalidPageId then loadPage d it1 (current_page_id it1)
                        else (it1\<lparr>cached_page := None\<rparr>, d)) in advanceToNextValid d2 it2))"
    using sk n less.prems assms(2)
    by (subst advanceToNextValid.simps) (simp add: SlottedPage_slotCount_def Let_def split: option.split)
  show ?case
  proof (cases ?f)
    case None
    then show ?thesis
      using adv assms(3) page_records_find [OF None, of x]
      by (simp add: iterate_rest_def Let_def split: prod.splits if_splits)
  next
    case (Some i)
    have "i \<in> set [s..<?n]" "slots_of p ! i \<noteq> None"
      using Some find_Some_iff [of _ "[s..<?n]" i] by (auto simp del: length_slots_of)
    then obtain t where i: "s \<le> i" "i < ?n" "slots_of p ! i = Some t" "unat (word_of_nat i :: SlotId) = i"
      using n by (auto simp del: length_slots_of)
    have IH: "Option.bind (advanceToNextValid d (?it (Suc i))) (\<lambda>(it, d1). heap_collect d1 it) =
        Some (page_records x p (Suc i) @ R)"
      using i less.hyps [of "Suc i"] by simp
    have "heap_collect d (?it i) = Option.bind (Option.bind (advanceToNextValid d (?it (Suc i)))
        (\<lambda>(it, d1). heap_collect d1 it)) (\<lambda>rest. Some ((mk_RID x (word_of_nat i), t) # rest))"
      using i assms(2)
      by (subst heap_collect.simps) (simp add: HeapIterator_eq_def end_iterator_def HeapIterator_deref_def
          HeapIterator_next_def getRID_def readTuple_spec [OF assms(1)] add.commute split_def)
    then have "heap_collect d (?it i) = Some ((mk_RID x (word_of_nat i), t) # page_records x p (Suc i) @ R)"
      unfolding IH by simp
    then show ?thesis using adv Some i page_records_find [OF Some, of x] by simp
  qed
qed

lemma iterate_page:
  assumes "dm_ok d" "wf_sp p" "x \<noteq> kInvalidPageId" "chain (dm_pages d) (getNextPageId p) xs" "s \<le> length (slots_of p)"
  shows "Option.bind (advanceToNextValid d \<lparr>current_page_id = x, current_slot_id = word_of_nat s, cached_page = Some p\<rparr>)
      (\<lambda>(it, d1). heap_collect d1 it) = Some (page_records x p s @ heap_records (dm_pages d) xs)"
  using assms(2-)
proof (induction xs arbitrary: x p s)
  case Nil
  have "iterate_rest d p = Some []"
    using Nil.prems(3) by (simp add: iterate_rest_def advanceToNextValid.simps heap_collect.simps
        HeapIterator_eq_def end_iterator_def)
  with Nil iterate_step [of p x d "[]" s] show ?case by (simp add: heap_records_def)
next
  case (Cons y ys)
  then obtain q where y: "getNextPageId p = y" "y \<noteq> kInvalidPageId" "dm_pages d y = Some q" "wf_sp q"
      "chain (dm_pages d) (getNextPageId q) ys"
    by (auto split: option.splits)
  have "readPage d y default_Page = (Ok, q, d)" by (intro dm.rd_law [OF assms(1) y(3)]) simp
  then have "iterate_rest d p = Some (page_records y q 0 @ heap_records (dm_pages d) ys)"
    using Cons.IH [OF y(4,2,5), of 0] y(1,2) by (simp add: iterate_rest_def loadPage_def)
  with Cons.prems iterate_step [of p x d _ s] y(3) show ?case by (simp add: heap_records_def)
qed

lemma heap_iteration_spec:
  assumes "heap_ok d h ids"
  shows "Option.bind (TableHeap_begin d h) (\<lambda>(it, d1). heap_collect d1 it) = Some (heap_records (dm_pages d) ids)"
proof -
  obtain x xs where ids: "ids = x # xs" using assms by (cases ids) (auto simp: heap_ok_def)
  then obtain p where x: "first_page_id h = x" "x \<noteq> kInvalidPageId" "dm_pages d x = Some p" "wf_sp p"
      "chain (dm_pages d) (getNextPageId p) xs" and ok: "dm_ok d"
    using assms by (auto simp: heap_ok_def split: option.splits)
  have "readPage d x default_Page = (Ok, p, d)" by (intro dm.rd_law [OF ok x(3)]) simp
  with x iterate_page [OF ok x(4,2,5), of 0] show ?thesis
    by (simp add: TableHeap_begin_def mk_HeapIterator_def loadPage_def ids heap_records_def)
qed

text \<open>The records of a scan are exactly the contents of the heap, each once.\<close>

lemma map_filter_conv: "List.map_filter (\<lambda>i. map_option (f i) (g i)) is =
    map (\<lambda>i. f i (the (g i))) (filter (\<lambda>i. g i \<noteq> None) is)"
  by (induction "is") (auto simp: map_filter_def)

lemma page_records_set:
  assumes "wf_sp p"
  shows "set (page_records x p 0) = {(r, t). rid_page_id r = x \<and> slot_lookup p (rid_slot_id r) = Some t}"
    and "distinct (map fst (page_records x p 0))"
proof -
  let ?n = "length (slots_of p)"
  have n: "?n < 65536" by (rule sp.slots_bound [OF assms])
  have eq: "page_records x p 0 = map (\<lambda>i. (mk_RID x (word_of_nat i), the (slots_of p ! i)))
      (filter (\<lambda>i. slots_of p ! i \<noteq> None) [0..<?n])"
    unfolding page_records_def by (rule map_filter_conv)
  show "set (page_records x p 0) = {(r, t). rid_page_id r = x \<and> slot_lookup p (rid_slot_id r) = Some t}"
  proof (rule set_eqI)
    fix rt :: "RID \<times> Tuple"
    obtain r t where rt: "rt = (r, t)" by (cases rt)
    have "(r, t) \<in> set (page_records x p 0) \<longleftrightarrow>
        (\<exists>i<?n. r = mk_RID x (word_of_nat i) \<and> slots_of p ! i = Some t)"
      unfolding eq by (auto simp: image_iff simp del: length_slots_of)
    also have "\<dots> \<longleftrightarrow> rid_page_id r = x \<and> slot_lookup p (rid_slot_id r) = Some t" (is "?L = ?R")
    proof
      assume ?L
      then show ?R using n by (auto simp: slot_lookup_def simp del: length_slots_of)
    next
      assume ?R
      then show ?L
        by (intro exI [of _ "unat (rid_slot_id r)"])
          (auto simp: slot_lookup_def simp del: length_slots_of split: if_splits)
    qed
    finally show "rt \<in> set (page_records x p 0) \<longleftrightarrow>
        rt \<in> {(r, t). rid_page_id r = x \<and> slot_lookup p (rid_slot_id r) = Some t}" by (simp add: rt)
  qed
  have "inj_on (\<lambda>i. word_of_nat i :: SlotId) {0..<?n}"
    using n by (intro inj_on_inverseI [where g = unat]) simp
  then show "distinct (map fst (page_records x p 0))"
    unfolding eq by (auto simp: distinct_map inj_on_def comp_def simp del: length_slots_of)
qed

lemma heap_records_set:
  assumes "chain P i ids" "distinct ids"
  shows "set (heap_records P ids) = {(r, t). heap_lookup P ids r = Some t} \<and> distinct (map fst (heap_records P ids))"
  using assms
proof (induction P i ids rule: chain.induct)
  case (1 P i)
  then show ?case by (simp add: heap_records_def heap_lookup_def)
next
  case (2 P i x xs)
  then obtain p where p: "P x = Some p" "wf_sp p" "chain P (getNextPageId p) xs" by (auto split: option.splits)
  note IH = "2.IH" [OF p(1,3)] and pr = page_records_set [OF p(2), of x]
  have split: "heap_records P (x # xs) = page_records x p 0 @ heap_records P xs"
    by (simp add: heap_records_def p(1))
  have "fst ` set (page_records x p 0) \<inter> fst ` set (heap_records P xs) = {}"
    using IH pr "2.prems"(2) by (auto simp: heap_lookup_def split: if_splits)
  with IH pr "2.prems"(2) p(1) show ?case
    unfolding split by (auto simp: heap_lookup_def split: if_splits)
qed

lemma heap_create_spec:
  assumes "dm_ok d" "dm_room d"
  shows "\<exists>h d' n. TableHeap_create d = (Some h, d') \<and> heap_ok d' h [n] \<and> heap_tuple_count h = 0 \<and>
    heap_lookup (dm_pages d') [n] = Map.empty \<and> dm_pages d n = None \<and> (\<forall>x. x \<noteq> n \<longrightarrow> dm_pages d' x = dm_pages d x)"
proof -
  obtain d1 n where al: "allocatePage d kInvalidPageId = (Ok, n, d1)" "dm_ok d1" "dm_pages d n = None"
      "n \<noteq> kInvalidPageId" "dm_pages d1 = (dm_pages d)(n \<mapsto> zero_page)"
    using dm.al_law [OF assms, of kInvalidPageId] by blast
  let ?page = "mk_Page (mk_PageHeader n Table)"
  let ?p = "snd (SlottedPage_initialize ?page)"
  note init = initialize_ok [of ?page, simplified]
  have p: "wf_Page ?p" "getNextPageId ?p = kInvalidPageId" "page_type (pg_header ?p) = Table"
    using init(2,5) by (simp_all add: sp_frame_def wf_spD(1))
  obtain d2 where d2: "writePage d1 n ?p = (Ok, flushed ?p, d2)" "dm_ok d2"
      "dm_pages d2 = (dm_pages d)(n \<mapsto> flushed ?p)"
    using dm.wr_law [OF al(2), of n ?p] al(5) p by auto
  let ?h = "mk_TableHeap n n 1 0"
  have "TableHeap_create d = (Some ?h, d2)"
    using al(1) d2(1) by (simp add: TableHeap_create_def case_prod_beta)
  moreover have "heap_ok d2 ?h [n]"
    using d2 al(4) p init(2,3) by (simp add: heap_ok_def mk_TableHeap_def)
  moreover have "heap_lookup (dm_pages d2) [n] r = None" for r
    using d2(3) p(1) init(3) by (auto simp: heap_lookup_def slot_lookup_def simp del: length_slots_of)
  ultimately show ?thesis
    using al(3) d2(3) by (intro exI [of _ ?h] exI [of _ d2] exI [of _ n]) (auto simp: mk_TableHeap_def)
qed

text \<open>
  A tuple that fits in no page, not even in an empty one: the insertion fails, but only after
  the last page was linked to a page that is never initialised.
\<close>

lemma oversize_insert:
  assumes ok: "heap_ok d h ids" "dm_room d" and t: "4048 < length t"
  shows "\<exists>n d'. TableHeap_insertTuple d h t rid0 = Some (IoError, rid0, h, d') \<and> n \<notin> set ids \<and>
    dm_pages d' n = Some zero_page \<and> getNextPageId (the (dm_pages d' (last ids))) = n"
proof -
  let ?P = "dm_pages d" and ?l = "last ids"
  have hk: "dm_ok d" "ids \<noteq> []" "chain ?P (first_page_id h) ids" using ok(1) by (simp_all add: heap_ok_def)
  have "\<not> fits (the (?P x)) t" if x: "x \<in> set ids" for x
  proof -
    obtain p where p: "?P x = Some p" "wf_sp p" using chain_page [OF hk(3) x] by blast
    then have "SlottedPage_freeSpace p \<le> 4056 - 8 * length (slots_of p)"
      using wf_spD(2-4) [OF p(2)] by (simp add: freeSpace_wf page_consts)
    moreover have "slots_of p = [] \<Longrightarrow> None \<notin> set (slots_of p)" by simp
    ultimately show ?thesis
      using t p(1) by (cases "slots_of p") (auto simp: fits_def insert_need_def simp del: length_slots_of)
  qed
  then have none: "find (\<lambda>x. fits (the (?P x)) t) ids = None" by (auto simp: find_None_iff)
  obtain p where p: "?P ?l = Some p" "wf_sp p" "wf_PageType (page_type (pg_header p))"
    using chain_last [OF hk(3,2)] by blast
  obtain d1 n where al: "allocatePage d kInvalidPageId = (Ok, n, d1)" "dm_ok d1" "?P n = None"
      "dm_pages d1 = ?P(n \<mapsto> zero_page)"
    using dm.al_law [OF hk(1) ok(2), of kInvalidPageId] by blast
  have nl: "n \<notin> set ids" "?l \<in> set ids" "?l \<noteq> kInvalidPageId"
    using al(3) chain_page [OF hk(3), of n] chain_page [OF hk(3), of ?l] hk(2) by auto
  define lp where "lp = setNextPageId p n"
  have lp: "wf_sp lp" "pg_header lp = pg_header p" "getNextPageId lp = n"
    using set_links_spec [OF p(2), of lp n] p(2) by (simp_all add: lp_def wf_spD(1))
  obtain d2 where d2: "writePage d1 ?l lp = (Ok, flushed lp, d2)" "dm_pages d2 = ?P(n \<mapsto> zero_page, ?l \<mapsto> flushed lp)"
  proof -
    have "dm_pages d1 ?l \<noteq> None" using al(4) p(1) nl by auto
    then show thesis using dm.wr_law [OF al(2), of ?l lp] lp p(3) that by (auto simp: al(4) wf_spD(1))
  qed
  have tn: "t \<noteq> []" using t by auto
  let ?np = "setPrevPageId (snd (SlottedPage_initialize (mk_Page (mk_PageHeader n Table)))) ?l"
  have "wf_sp ?np" "slots_of ?np = []" "SlottedPage_freeSpace ?np = 4056"
    using set_links_spec [of "snd (SlottedPage_initialize (mk_Page (mk_PageHeader n Table)))" ?np ?l]
      initialize_ok [of "mk_Page (mk_PageHeader n Table)"] by simp_all
  then have "SlottedPage_insertTuple ?np t kInvalidSlotId = Some (IoError, kInvalidSlotId, ?np)"
    using insertTuple_spec [of ?np t kInvalidSlotId] t tn by simp
  moreover have "insert_loop d t (first_page_id h) default_Page = Some (Inr (?l, p), d)"
    using insert_loop_spec [OF hk(1,3,2), of default_Page t] tn none p(1) by simp
  ultimately have "TableHeap_insertTuple d h t rid0 = Some (IoError, rid0, h, d2)"
    using tn al(1) d2(1) nl(3) by (simp add: TableHeap_insertTuple_def lp_def)
  then show ?thesis
    using nl(1,2) d2(2) lp by (intro exI [of _ n] exI [of _ d2]) (auto simp: wf_spD(1))
qed

subsection \<open>Properties\<close>

definition fresh_heap :: TableHeap where "fresh_heap = the (fst (TableHeap_create fresh_db))"
definition fresh_heap_db :: DiskManager where "fresh_heap_db = snd (TableHeap_create fresh_db)"
definition fresh_heap_id :: PageId where "fresh_heap_id = first_page_id fresh_heap"

lemma fresh_heap_ok:
  "heap_ok fresh_heap_db fresh_heap [fresh_heap_id]" "heap_tuple_count fresh_heap = 0"
  "heap_lookup (dm_pages fresh_heap_db) [fresh_heap_id] = Map.empty" "dm_room fresh_heap_db"
proof -
  have r: "dm_room fresh_db" using fresh_db_ok by (simp add: dm_room_def)
  obtain h d' n where h: "TableHeap_create fresh_db = (Some h, d')" "heap_ok d' h [n]" "heap_tuple_count h = 0"
      "heap_lookup (dm_pages d') [n] = Map.empty" "\<forall>x. x \<noteq> n \<longrightarrow> dm_pages d' x = dm_pages fresh_db x"
    using heap_create_spec [OF fresh_db_ok(1) r] by blast
  have n: "first_page_id h = n" using h(2) by (auto simp: heap_ok_def)
  show "heap_ok fresh_heap_db fresh_heap [fresh_heap_id]" "heap_tuple_count fresh_heap = 0"
    "heap_lookup (dm_pages fresh_heap_db) [fresh_heap_id] = Map.empty"
    using h n by (simp_all add: fresh_heap_def fresh_heap_db_def fresh_heap_id_def)
  have "\<not> data_page fresh_db 2" using fresh_db_ok by (simp add: data_page_def)
  moreover have "dm_pages fresh_db i = None" for i using fresh_db_ok by (auto simp: dm_pages_def data_page_def)
  ultimately have none: "dm_pages d' x = None" if "x \<noteq> n" for x using h(5) that by simp
  have "dm_page_count d' \<le> 3"
  proof (rule ccontr)
    assume "\<not> dm_page_count d' \<le> 3"
    then have "dm_pages d' 1 \<noteq> None" "dm_pages d' 2 \<noteq> None" by (simp_all add: dm_pages_def data_page_def)
    then have "(1 :: PageId) = 2" using none [of 1] none [of 2] by metis
    then show False by simp
  qed
  then show "dm_room fresh_heap_db" using h(1) by (simp add: fresh_heap_db_def dm_room_def)
qed

text \<open>
  C2. Inserting a record into a table heap terminates and behaves as a map update: on a
  well-formed heap, a non-empty tuple that fits an empty page is stored under a record
  identifier that denoted nothing before, every other identifier keeps its record, and the
  heap (its chain of pages, its page and tuple counters) stays well-formed, growing by at
  most one page at the end.
\<close>

theorem heap_insert:
  assumes "heap_ok d h ids" "heap_tuple_count h + 1 < 2 ^ 64" "dm_room d" "t \<noteq> []" "length t \<le> 4048"
  shows "\<exists>rid h' d' ids'. TableHeap_insertTuple d h t rid0 = Some (Ok, rid, h', d') \<and> heap_ok d' h' ids' \<and>
    (ids' = ids \<or> ids' = ids @ [rid_page_id rid]) \<and> heap_lookup (dm_pages d) ids rid = None \<and>
    heap_lookup (dm_pages d') ids' = (heap_lookup (dm_pages d) ids)(rid \<mapsto> t)"
proof (cases "find (\<lambda>x. fits (the (dm_pages d x)) t) ids")
  case None
  show ?thesis using insert_into_new [OF assms None, of rid0] by (metis mk_RID_simps(1))
next
  case (Some x)
  show ?thesis using insert_into_existing [OF assms(1,2,4) Some, of rid0] by blast
qed

theorem heap_insert_witness:
  "\<exists>rid h' d' ids'. TableHeap_insertTuple fresh_heap_db fresh_heap [1, 2, 3] default_RID = Some (Ok, rid, h', d') \<and>
     heap_lookup (dm_pages d') ids' = [rid \<mapsto> [1, 2, 3]]"
  using heap_insert [OF fresh_heap_ok(1), of "[1, 2, 3]" default_RID] fresh_heap_ok(2-4) by auto

text \<open>
  Reading a record by its identifier, on a page of the heap: the record the identifier
  denotes, \<open>InvalidArg\<close> for a deleted slot, \<open>NotFound\<close> past the directory; no state changes.
\<close>

theorem heap_read:
  assumes "heap_ok d h ids" "rid_page_id rid \<in> set ids"
  shows "TableHeap_readTuple d h rid out = Some (case heap_lookup (dm_pages d) ids rid of
      Some t \<Rightarrow> (Ok, t, d)
    | None \<Rightarrow> (if unat (rid_slot_id rid) < length (slots_of (the (dm_pages d (rid_page_id rid))))
               then InvalidArg else NotFound, out, d))"
  using heap_read_spec [OF assms] .

theorem heap_read_witness:
  "\<exists>st. st \<noteq> Ok \<and> TableHeap_readTuple fresh_heap_db fresh_heap (mk_RID fresh_heap_id 0) [] = Some (st, [], fresh_heap_db)"
  using heap_read [OF fresh_heap_ok(1), of "mk_RID fresh_heap_id 0" "[]"] fresh_heap_ok(3) by simp

text \<open>
  Deleting a record removes exactly it: the identifier denotes nothing afterwards, all
  others keep their records, the tuple counter drops by one and the heap stays well-formed.
\<close>

theorem heap_delete:
  assumes "heap_ok d h ids" "heap_lookup (dm_pages d) ids rid = Some t"
  shows "\<exists>h' d'. TableHeap_deleteTuple d h rid = Some (Ok, h', d') \<and> heap_ok d' h' ids \<and>
    heap_lookup (dm_pages d') ids = (heap_lookup (dm_pages d) ids)(rid := None) \<and>
    Suc (heap_tuple_count h') = heap_tuple_count h"
  using heap_delete_spec [OF assms] .

lemma one_record_heap_of:
  assumes "t \<noteq> []" "length t \<le> 4048"
  shows "\<exists>rid h' d' ids'. TableHeap_insertTuple fresh_heap_db fresh_heap t default_RID = Some (Ok, rid, h', d') \<and>
     heap_ok d' h' ids' \<and> heap_lookup (dm_pages d') ids' = [rid \<mapsto> t]"
proof (cases "find (\<lambda>x. fits (the (dm_pages fresh_heap_db x)) t) [fresh_heap_id]")
  case None
  show ?thesis
    using insert_into_new [OF fresh_heap_ok(1) _ fresh_heap_ok(4) _ _ None, of default_RID] fresh_heap_ok(2,3) assms by auto
next
  case (Some x)
  show ?thesis
    using insert_into_existing [OF fresh_heap_ok(1) _ _ Some, of default_RID] fresh_heap_ok(2,3) assms by auto
qed

lemma one_record_heap:
  "\<exists>rid h' d' ids'. TableHeap_insertTuple fresh_heap_db fresh_heap [1, 2, 3] default_RID = Some (Ok, rid, h', d') \<and>
     heap_ok d' h' ids' \<and> heap_lookup (dm_pages d') ids' = [rid \<mapsto> [1, 2, 3]]"
  by (rule one_record_heap_of) simp_all

theorem heap_delete_witness:
  "\<exists>rid h d ids h' d'. heap_lookup (dm_pages d) ids = [rid \<mapsto> [1, 2, 3]] \<and>
     TableHeap_deleteTuple d h rid = Some (Ok, h', d') \<and> heap_lookup (dm_pages d') ids = Map.empty"
proof -
  obtain rid h d ids where h: "heap_ok d h ids" "heap_lookup (dm_pages d) ids = [rid \<mapsto> [1, 2, 3]]"
    using one_record_heap by blast
  then show ?thesis using heap_delete [OF h(1), of rid "[1, 2, 3]"] by fastforce
qed

text \<open>
  C14. Reopening a heap from its first page recovers it: the walk of \<open>bootstrapMetadata\<close>
  terminates and rebuilds the last page, the page count and the tuple count exactly.
\<close>

theorem heap_reopen:
  assumes "heap_ok d h ids"
  shows "TableHeap_open d (first_page_id h) = Some (Some h, d)"
  using heap_open_spec [OF assms] .

theorem heap_reopen_witness: "TableHeap_open fresh_heap_db fresh_heap_id = Some (Some fresh_heap, fresh_heap_db)"
  using heap_reopen [OF fresh_heap_ok(1)] by (simp add: fresh_heap_id_def)

text \<open>
  C6. A scan with the iterator terminates and yields every record exactly once, with its
  identifier, page by page along the chain and by slot number within a page.
\<close>

theorem heap_iteration:
  assumes "heap_ok d h ids"
  shows "\<exists>rs. Option.bind (TableHeap_begin d h) (\<lambda>(it, d1). heap_collect d1 it) = Some rs \<and>
    rs = concat (map (\<lambda>x. page_records x (the (dm_pages d x)) 0) ids) \<and>
    distinct (map fst rs) \<and> set rs = {(r, t). heap_lookup (dm_pages d) ids r = Some t}"
  using heap_iteration_spec [OF assms] heap_records_set [of "dm_pages d" "first_page_id h" ids] assms
  by (simp add: heap_ok_def heap_records_def)

theorem heap_iteration_witness:
  "\<exists>rid h d. Option.bind (TableHeap_begin d h) (\<lambda>(it, d1). heap_collect d1 it) = Some [(rid, [1, 2, 3])]"
proof -
  obtain rid h d ids where h: "heap_ok d h ids" "heap_lookup (dm_pages d) ids = [rid \<mapsto> [1, 2, 3]]"
    using one_record_heap by blast
  from heap_iteration [OF h(1)] obtain rs
    where rs: "Option.bind (TableHeap_begin d h) (\<lambda>(it, d1). heap_collect d1 it) = Some rs"
      "distinct (map fst rs)" "set rs = {(r, t). heap_lookup (dm_pages d) ids r = Some t}" by blast
  have "set rs = {(rid, [1, 2, 3])}" unfolding rs(3) h(2) by (auto split: if_splits)
  note rs = rs(1,2) this
  have "length rs = 1" using rs(2,3) distinct_card [of rs] by (simp add: distinct_map)
  with rs(3) have "rs = [(rid, [1, 2, 3])]" by (cases rs) auto
  with rs(1) show ?thesis by blast
qed

text \<open>
  A record too large for any page: \<open>insertTuple\<close> reports \<open>IoError\<close>, but it has already
  allocated a page and linked it behind the last page of the heap without initialising it, so
  the chain of the heap on disk now runs into a page of zeroes.
\<close>

theorem heap_insert_oversize:
  assumes "heap_ok d h ids" "dm_room d" "4048 < length t"
  shows "\<exists>n d'. TableHeap_insertTuple d h t rid0 = Some (IoError, rid0, h, d') \<and> n \<notin> set ids \<and>
    dm_pages d' n = Some zero_page \<and> getNextPageId (the (dm_pages d' (last ids))) = n"
  using oversize_insert [OF assms] .

theorem heap_insert_oversize_witness:
  "\<exists>n d'. TableHeap_insertTuple fresh_heap_db fresh_heap (replicate 4049 7) default_RID =
     Some (IoError, default_RID, fresh_heap, d') \<and> dm_pages d' n = Some zero_page \<and>
     getNextPageId (the (dm_pages d' fresh_heap_id)) = n"
  using heap_insert_oversize [OF fresh_heap_ok(1,4), of "replicate 4049 7" default_RID] by auto

end
