(* ===== verification/LRUKReplacer.thy ===== *)
theory LRUKReplacer
  imports Common
begin

text \<open>
  \<^verbatim>\<open>LRUKReplacer\<close> (\<^verbatim>\<open>src/buffer/lruk_replacer.cpp\<close>): the eviction policy of the
  buffer pool.  A thrown \<open>std::invalid_argument\<close> is a value of \<open>LRUK_error\<close>.  A \<open>FrameId\<close>
  is a \<open>nat\<close>: pools have fewer than \<open>2 ^ 32\<close> frames, so the casts of the source do not
  truncate.  Time stamps are 64-bit words.
\<close>

type_synonym FrameId = nat

datatype LRUK_error = Invalid_frame_id | Cannot_remove_non_evictable

record LRUKNode =
  history :: "u64 list"
  is_evictable :: bool

record LRUKReplacer =
  lru_k :: nat
  num_frames :: nat
  curr_size :: nat
  current_timestamp :: u64
  node_store :: "LRUKNode list"

definition mk_LRUKReplacer :: "nat \<Rightarrow> nat \<Rightarrow> LRUKReplacer" where
  "mk_LRUKReplacer n k = \<lparr>lru_k = k, num_frames = n, curr_size = 0, current_timestamp = 0,
     node_store = replicate n \<lparr>history = [], is_evictable = False\<rparr>\<rparr>"

definition recordAccess :: "LRUKReplacer \<Rightarrow> FrameId \<Rightarrow> LRUK_error + LRUKReplacer" where
  "recordAccess r f =
    (if f \<ge> num_frames r then Inl Invalid_frame_id
     else let ts = current_timestamp r + 1;
              node = node_store r ! f;
              h = history node @ [ts];
              h' = (if length h > lru_k r then tl h else h)
          in Inr (r\<lparr>current_timestamp := ts, node_store := (node_store r)[f := node\<lparr>history := h'\<rparr>]\<rparr>))"

definition setEvictable :: "LRUKReplacer \<Rightarrow> FrameId \<Rightarrow> bool \<Rightarrow> LRUK_error + LRUKReplacer" where
  "setEvictable r f b =
    (if f \<ge> num_frames r then Inl Invalid_frame_id
     else let node = node_store r ! f in
       if history node = [] then Inr r
       else if is_evictable node \<noteq> b then
         Inr (r\<lparr>node_store := (node_store r)[f := node\<lparr>is_evictable := b\<rparr>],
                curr_size := (if b then curr_size r + 1
                              else size_t_of_int (int (curr_size r) - 1))\<rparr>)
       else Inr r)"

text \<open>One iteration of the search: \<open>best\<close> is the best frame so far with its two keys.\<close>

definition evict_step :: "LRUKReplacer \<Rightarrow> (FrameId \<times> bool \<times> u64) option \<Rightarrow> FrameId \<Rightarrow> (FrameId \<times> bool \<times> u64) option" where
  "evict_step r best i =
    (let node = node_store r ! i in
     if \<not> is_evictable node \<or> history node = [] then best
     else let is_inf = length (history node) < lru_k r;
              earliest = hd (history node)
          in case best of
               None \<Rightarrow> Some (i, is_inf, earliest)
             | Some (best_fid, best_is_inf, best_timestamp) \<Rightarrow>
                 if is_inf \<and> \<not> best_is_inf then Some (i, is_inf, earliest)
                 else if is_inf = best_is_inf then
                   (if earliest < best_timestamp then Some (i, best_is_inf, earliest)
                    else if earliest = best_timestamp
                    then (if i < best_fid then Some (i, best_is_inf, best_timestamp) else best)
                    else best)
                 else best)"

definition evict :: "LRUKReplacer \<Rightarrow> FrameId option" where
  "evict r = map_option fst (foldl (evict_step r) None [0..<num_frames r])"

definition remove :: "LRUKReplacer \<Rightarrow> FrameId \<Rightarrow> LRUK_error + LRUKReplacer" where
  "remove r f =
    (if f \<ge> num_frames r then Inl Invalid_frame_id
     else let node = node_store r ! f in
       if history node = [] then Inr r
       else if \<not> is_evictable node then Inl Cannot_remove_non_evictable
       else Inr (r\<lparr>node_store := (node_store r)[f := \<lparr>history = [], is_evictable = False\<rparr>],
                   curr_size := size_t_of_int (int (curr_size r) - 1)\<rparr>))"

definition lru_size :: "LRUKReplacer \<Rightarrow> nat" where
  "lru_size r = curr_size r"

subsection \<open>Invariant\<close>

definition tracked :: "LRUKReplacer \<Rightarrow> FrameId set" where
  "tracked r = {f. f < num_frames r \<and> history (node_store r ! f) \<noteq> []}"

definition evictable :: "LRUKReplacer \<Rightarrow> FrameId set" where
  "evictable r = {f. f < num_frames r \<and> is_evictable (node_store r ! f)}"

text \<open>
  The counter counts the evictable frames, only frames with a history are evictable, a
  history keeps at most \<open>k\<close> time stamps, oldest first, none younger than the clock.
\<close>

definition lruk_ok :: "LRUKReplacer \<Rightarrow> bool" where
  "lruk_ok r = (0 < lru_k r \<and> length (node_store r) = num_frames r \<and> num_frames r < 2 ^ 64 \<and>
     curr_size r = card (evictable r) \<and> evictable r \<subseteq> tracked r \<and>
     (\<forall>f<num_frames r. length (history (node_store r ! f)) \<le> lru_k r))"

definition sorted_history :: "LRUKReplacer \<Rightarrow> bool" where
  "sorted_history r = (\<forall>f<num_frames r. sorted_wrt (<) (history (node_store r ! f)) \<and>
     (\<forall>t\<in>set (history (node_store r ! f)). t \<le> current_timestamp r))"

lemma finite_evictable [simp]: "finite (evictable r)"
  by (simp add: evictable_def)

lemma card_evictable_le: "card (evictable r) \<le> num_frames r"
  using card_mono [of "{..<num_frames r}" "evictable r"] by (auto simp: evictable_def)

lemma mk_lruk_ok: "0 < k \<Longrightarrow> n < 2 ^ 64 \<Longrightarrow> lruk_ok (mk_LRUKReplacer n k)"
  "tracked (mk_LRUKReplacer n k) = {}" "num_frames (mk_LRUKReplacer n k) = n" "evictable (mk_LRUKReplacer n k) = {}"
  by (auto simp: lruk_ok_def mk_LRUKReplacer_def tracked_def evictable_def)

lemma recordAccess_ok:
  assumes "lruk_ok r" "f < num_frames r"
  shows "\<exists>r'. recordAccess r f = Inr r' \<and> lruk_ok r' \<and> num_frames r' = num_frames r \<and>
    tracked r' = insert f (tracked r) \<and> evictable r' = evictable r"
proof -
  let ?node = "node_store r ! f" and ?ts = "current_timestamp r + 1"
  let ?h = "if length (history ?node @ [?ts]) > lru_k r then tl (history ?node @ [?ts]) else history ?node @ [?ts]"
  let ?r = "r\<lparr>current_timestamp := ?ts, node_store := (node_store r)[f := ?node\<lparr>history := ?h\<rparr>]\<rparr>"
  have run: "recordAccess r f = Inr ?r" using assms(2) by (simp add: recordAccess_def Let_def)
  have len: "f < length (node_store r)" using assms by (simp add: lruk_ok_def)
  have h: "?h \<noteq> []" "length ?h \<le> lru_k r"
    using assms by (auto simp: lruk_ok_def tl_append split: list.splits)
  have ev: "evictable ?r = evictable r" using len by (auto simp: evictable_def nth_list_update)
  have tr: "tracked ?r = insert f (tracked r)" using len h(1) assms(2) by (auto simp: tracked_def nth_list_update)
  have "lruk_ok ?r" using assms h(2) len ev tr by (auto simp: lruk_ok_def nth_list_update)
  with run ev tr show ?thesis by simp
qed

lemma size_t_pred: "0 < n \<Longrightarrow> n < 2 ^ 64 \<Longrightarrow> size_t_of_int (int n - 1) = n - 1"
  by (simp add: size_t_of_int_def nat_mod_distrib nat_diff_distrib)

lemma setEvictable_ok:
  assumes "lruk_ok r" "f < num_frames r"
  shows "\<exists>r'. setEvictable r f b = Inr r' \<and> lruk_ok r' \<and> num_frames r' = num_frames r \<and>
    tracked r' = tracked r \<and>
    evictable r' = (if f \<in> tracked r then if b then insert f (evictable r) else evictable r - {f} else evictable r)"
proof (cases "history (node_store r ! f) = [] \<or> is_evictable (node_store r ! f) = b")
  case True
  with assms show ?thesis by (auto simp: setEvictable_def tracked_def evictable_def Let_def)
next
  case False
  let ?r = "r\<lparr>node_store := (node_store r)[f := (node_store r ! f)\<lparr>is_evictable := b\<rparr>],
      curr_size := (if b then curr_size r + 1 else size_t_of_int (int (curr_size r) - 1))\<rparr>"
  have len: "f < length (node_store r)" using assms by (simp add: lruk_ok_def)
  have tr: "tracked ?r = tracked r" using len by (auto simp: tracked_def nth_list_update)
  have ev: "evictable ?r = (if b then insert f (evictable r) else evictable r - {f})"
    using len assms(2) by (auto simp: evictable_def nth_list_update split: if_splits)
  have mem: "f \<in> evictable r \<longleftrightarrow> \<not> b" "f \<in> tracked r" using False assms(2) by (auto simp: evictable_def tracked_def)
  have cs: "curr_size ?r = card (evictable ?r)"
    using mem assms(1) card_evictable_le [of r] card_gt_0_iff [of "evictable r"]
    by (auto simp: ev lruk_ok_def size_t_pred)
  have "\<forall>g<num_frames r. length (history (node_store ?r ! g)) \<le> lru_k r"
    using assms(1) len by (auto simp: lruk_ok_def nth_list_update)
  then have "lruk_ok ?r" using assms(1) cs ev tr mem by (auto simp: lruk_ok_def)
  moreover have "setEvictable r f b = Inr ?r" using False assms(2) by (simp add: setEvictable_def Let_def)
  ultimately show ?thesis using ev tr mem by simp
qed

lemma remove_ok:
  assumes "lruk_ok r" "f \<in> evictable r"
  shows "\<exists>r'. remove r f = Inr r' \<and> lruk_ok r' \<and> num_frames r' = num_frames r \<and>
    tracked r' = tracked r - {f} \<and> evictable r' = evictable r - {f}"
proof -
  let ?r = "r\<lparr>node_store := (node_store r)[f := \<lparr>history = [], is_evictable = False\<rparr>],
      curr_size := size_t_of_int (int (curr_size r) - 1)\<rparr>"
  have f: "f < num_frames r" "is_evictable (node_store r ! f)" "history (node_store r ! f) \<noteq> []"
    using assms by (auto simp: lruk_ok_def evictable_def tracked_def)
  have len: "f < length (node_store r)" using f(1) assms(1) by (simp add: lruk_ok_def)
  have run: "remove r f = Inr ?r" using f by (simp add: remove_def Let_def)
  have ev: "evictable ?r = evictable r - {f}" "tracked ?r = tracked r - {f}"
    using len by (auto simp: evictable_def tracked_def nth_list_update split: if_splits)
  have "0 < card (evictable r)" using assms(2) card_gt_0_iff [of "evictable r"] by auto
  then have "curr_size ?r = card (evictable ?r)"
    unfolding ev using assms card_evictable_le [of r] by (simp add: lruk_ok_def size_t_pred)
  then have "lruk_ok ?r" using assms(1) ev len by (auto simp: lruk_ok_def nth_list_update)
  with run ev show ?thesis by simp
qed

subsection \<open>The victim\<close>

definition victim_inf :: "LRUKReplacer \<Rightarrow> FrameId \<Rightarrow> bool" where
  "victim_inf r i = (length (history (node_store r ! i)) < lru_k r)"

definition victim_ts :: "LRUKReplacer \<Rightarrow> FrameId \<Rightarrow> u64" where
  "victim_ts r i = hd (history (node_store r ! i))"

text \<open>
  The order of LRU-K: a frame with fewer than \<open>k\<close> recorded accesses (infinite distance)
  goes first; then the one whose oldest recorded access is oldest; then the smaller frame.
\<close>

definition evicts_before :: "LRUKReplacer \<Rightarrow> FrameId \<Rightarrow> FrameId \<Rightarrow> bool" where
  "evicts_before r i j = (victim_inf r i \<and> \<not> victim_inf r j \<or>
     victim_inf r i = victim_inf r j \<and> (victim_ts r i < victim_ts r j \<or> victim_ts r i = victim_ts r j \<and> i \<le> j))"

definition cand :: "LRUKReplacer \<Rightarrow> FrameId \<Rightarrow> bool" where
  "cand r i = (is_evictable (node_store r ! i) \<and> history (node_store r ! i) \<noteq> [])"

lemma evict_step_eqs:
  "\<not> cand r n \<Longrightarrow> evict_step r b n = b"
  "cand r n \<Longrightarrow> evict_step r None n = Some (n, victim_inf r n, victim_ts r n)"
  "cand r n \<Longrightarrow> i < n \<Longrightarrow> evict_step r (Some (i, victim_inf r i, victim_ts r i)) n =
     Some (if evicts_before r i n then (i, victim_inf r i, victim_ts r i) else (n, victim_inf r n, victim_ts r n))"
  by (auto simp: evict_step_def cand_def Let_def victim_inf_def victim_ts_def evicts_before_def)

lemma evict_loop:
  "case foldl (evict_step r) None [0..<n] of
     None \<Rightarrow> \<forall>i<n. \<not> cand r i
   | Some (i, far, ts) \<Rightarrow> i < n \<and> cand r i \<and> far = victim_inf r i \<and> ts = victim_ts r i \<and>
       (\<forall>j<n. cand r j \<longrightarrow> evicts_before r i j)"
proof (induction n)
  case (Suc n)
  show ?case
  proof (cases "cand r n")
    case False
    then have "foldl (evict_step r) None [0..<Suc n] = foldl (evict_step r) None [0..<n]"
      by (simp add: evict_step_eqs(1))
    with Suc False show ?thesis by (auto split: option.splits simp: less_Suc_eq)
  next
    case True
    show ?thesis
    proof (cases "foldl (evict_step r) None [0..<n]")
      case None
      with Suc True show ?thesis
        by (simp add: evict_step_eqs(2)) (auto simp: evicts_before_def less_Suc_eq)
    next
      case (Some b)
      obtain i where b: "b = (i, victim_inf r i, victim_ts r i)" "i < n" "cand r i"
          "\<forall>j<n. cand r j \<longrightarrow> evicts_before r i j"
        using Suc Some by (cases b) auto
      have step: "foldl (evict_step r) None [0..<Suc n] = Some
          (if evicts_before r i n then b else (n, victim_inf r n, victim_ts r n))"
        using True Some b(1,2) by (simp add: evict_step_eqs(3))
      have trans: "evicts_before r n j" if "\<not> evicts_before r i n" "evicts_before r i j" for j
        using that b(2) by (auto simp: evicts_before_def)
      have "evicts_before r n n" by (simp add: evicts_before_def)
      with step b trans True show ?thesis by (auto simp: less_Suc_eq)
    qed
  qed
qed simp

lemma cand_evictable: "lruk_ok r \<Longrightarrow> i < num_frames r \<Longrightarrow> cand r i = (i \<in> evictable r)"
  by (auto simp: lruk_ok_def cand_def evictable_def tracked_def)

lemma evict_ok:
  assumes "lruk_ok r"
  shows "evict r = None \<longleftrightarrow> evictable r = {}"
    and "evict r = Some i \<Longrightarrow> i \<in> evictable r \<and> (\<forall>j\<in>evictable r. evicts_before r i j)"
  using evict_loop [where r = r and n = "num_frames r"] cand_evictable [OF assms]
  by (auto simp: evict_def evictable_def split: option.splits)

subsection \<open>Recorded accesses\<close>

lemma recordAccess_history:
  assumes "lruk_ok r" "f < num_frames r" "recordAccess r f = Inr r'"
  shows "history (node_store r' ! f) =
      (let h = history (node_store r ! f) @ [current_timestamp r'] in drop (length h - lru_k r) h)"
    and "g \<noteq> f \<Longrightarrow> history (node_store r' ! g) = history (node_store r ! g)"
    and "current_timestamp r' = current_timestamp r + 1" "num_frames r' = num_frames r"
proof -
  have le: "length (history (node_store r ! f)) \<le> lru_k r" "f < length (node_store r)"
    using assms(1,2) by (auto simp: lruk_ok_def)
  then have "tl h = drop (length h - lru_k r) h" if "length h > lru_k r" "h = history (node_store r ! f) @ [t]" for h t
  proof -
    have "length h - lru_k r = 1" using that le(1) by simp
    then show ?thesis by (simp add: drop_Suc)
  qed
  with assms(2,3) le show "history (node_store r' ! f) =
      (let h = history (node_store r ! f) @ [current_timestamp r'] in drop (length h - lru_k r) h)"
    by (auto simp: recordAccess_def Let_def)
  show "g \<noteq> f \<Longrightarrow> history (node_store r' ! g) = history (node_store r ! g)"
    "current_timestamp r' = current_timestamp r + 1" "num_frames r' = num_frames r"
    using assms(2,3) by (auto simp: recordAccess_def Let_def)
qed

text \<open>Until the 64-bit clock wraps, histories are in the order of the accesses.\<close>

lemma recordAccess_sorted:
  assumes "lruk_ok r" "f < num_frames r" "recordAccess r f = Inr r'" "sorted_history r"
    and "current_timestamp r \<noteq> - 1"
  shows "sorted_history r'"
proof -
  note h = recordAccess_history [OF assms(1-3)]
  have lt: "current_timestamp r < current_timestamp r'"
  proof -
    have "1 + current_timestamp r \<noteq> 0" using assms(5) by (metis add.commute eq_neg_iff_add_eq_0)
    from unatSuc [OF this] show ?thesis by (simp add: h(3) word_less_nat_alt add.commute)
  qed
  have old: "t < current_timestamp r'" if "t \<in> set (history (node_store r ! g))" "g < num_frames r" for t g
    using that assms(4) lt unfolding sorted_history_def by (meson le_less_trans)
  have "sorted_wrt (<) (history (node_store r ! f) @ [current_timestamp r'])"
    using assms(2,4) old by (auto simp: sorted_history_def sorted_wrt_append)
  then have "sorted_wrt (<) (history (node_store r' ! f))"
    unfolding h(1) Let_def by (rule sorted_wrt_drop)
  moreover have "\<forall>t\<in>set (history (node_store r' ! f)). t \<le> current_timestamp r'"
    unfolding h(1) Let_def using old [OF _ assms(2)] by (auto dest!: in_set_dropD simp: less_imp_le)
  ultimately show ?thesis
    using assms(4) h(2,4) old unfolding sorted_history_def by (metis less_imp_le)
qed

subsection \<open>The contract of a replacer\<close>

text \<open>
  What the buffer pool relies on, with the policy left open: which frames are tracked and
  which may be evicted, and how each operation changes the two sets.
\<close>

locale replacer =
  fixes inv :: "'r \<Rightarrow> bool" and frames_of :: "'r \<Rightarrow> nat" and known :: "'r \<Rightarrow> FrameId set"
    and free :: "'r \<Rightarrow> FrameId set"
    and touch :: "'r \<Rightarrow> FrameId \<Rightarrow> 'e + 'r" and mark :: "'r \<Rightarrow> FrameId \<Rightarrow> bool \<Rightarrow> 'e + 'r"
    and pick :: "'r \<Rightarrow> FrameId option" and forget :: "'r \<Rightarrow> FrameId \<Rightarrow> 'e + 'r"
  assumes free_known: "inv r \<Longrightarrow> free r \<subseteq> known r" and known_bound: "f \<in> known r \<Longrightarrow> f < frames_of r"
    and touch_law: "inv r \<Longrightarrow> f < frames_of r \<Longrightarrow> \<exists>r'. touch r f = Inr r' \<and> inv r' \<and> frames_of r' = frames_of r \<and>
      known r' = insert f (known r) \<and> free r' = free r"
    and mark_law: "inv r \<Longrightarrow> f \<in> known r \<Longrightarrow> \<exists>r'. mark r f b = Inr r' \<and> inv r' \<and> frames_of r' = frames_of r \<and>
      known r' = known r \<and> free r' = (if b then insert f (free r) else free r - {f})"
    and pick_law: "inv r \<Longrightarrow> (case pick r of None \<Rightarrow> free r = {} | Some f \<Rightarrow> f \<in> free r)"
    and forget_law: "inv r \<Longrightarrow> f \<in> free r \<Longrightarrow> \<exists>r'. forget r f = Inr r' \<and> inv r' \<and> frames_of r' = frames_of r \<and>
      known r' = known r - {f} \<and> free r' = free r - {f}"
begin

text \<open>Pinning a frame: record the access, then make it non-evictable.\<close>

lemma pin_frame:
  assumes "inv r" "f < frames_of r"
  shows "\<exists>r1 r2. touch r f = Inr r1 \<and> mark r1 f False = Inr r2 \<and> inv r2 \<and> frames_of r2 = frames_of r \<and>
    known r2 = insert f (known r) \<and> free r2 = free r - {f}"
proof -
  from touch_law [OF assms] obtain r1 where r1: "touch r f = Inr r1" "inv r1" "frames_of r1 = frames_of r"
      "known r1 = insert f (known r)" "free r1 = free r" by blast
  with mark_law [of r1 f False] show ?thesis by auto
qed

text \<open>Evicting: the victim was evictable and is forgotten.\<close>

lemma take_victim:
  assumes "inv r" "pick r = Some f"
  shows "f < frames_of r" "f \<in> free r" "f \<in> known r" "\<exists>r'. forget r f = Inr r' \<and> inv r' \<and> frames_of r' = frames_of r \<and>
    known r' = known r - {f} \<and> free r' = free r - {f}"
proof -
  show f: "f \<in> free r" using pick_law [OF assms(1)] assms(2) by simp
  then show "f \<in> known r" "f < frames_of r" using free_known [OF assms(1)] known_bound by auto
  show "\<exists>r'. forget r f = Inr r' \<and> inv r' \<and> frames_of r' = frames_of r \<and>
    known r' = known r - {f} \<and> free r' = free r - {f}" by (rule forget_law [OF assms(1) f])
qed

end

interpretation lru: replacer lruk_ok num_frames tracked evictable recordAccess setEvictable evict remove
proof
  fix r :: LRUKReplacer and f :: FrameId and b :: bool
  show "f \<in> tracked r \<Longrightarrow> f < num_frames r" by (simp add: tracked_def)
  assume ok: "lruk_ok r"
  show "evictable r \<subseteq> tracked r" using ok by (simp add: lruk_ok_def)
  show "\<exists>r'. recordAccess r f = Inr r' \<and> lruk_ok r' \<and> num_frames r' = num_frames r \<and>
      tracked r' = insert f (tracked r) \<and> evictable r' = evictable r" if "f < num_frames r"
    by (rule recordAccess_ok [OF ok that])
  show "\<exists>r'. setEvictable r f b = Inr r' \<and> lruk_ok r' \<and> num_frames r' = num_frames r \<and> tracked r' = tracked r \<and>
      evictable r' = (if b then insert f (evictable r) else evictable r - {f})" if "f \<in> tracked r"
    using setEvictable_ok [OF ok, of f b] that by (auto simp: tracked_def)
  show "case evict r of None \<Rightarrow> evictable r = {} | Some f \<Rightarrow> f \<in> evictable r"
    using evict_ok [OF ok] by (auto split: option.split)
  show "\<exists>r'. remove r f = Inr r' \<and> lruk_ok r' \<and> num_frames r' = num_frames r \<and> tracked r' = tracked r - {f} \<and>
      evictable r' = evictable r - {f}" if "f \<in> evictable r"
    by (rule remove_ok [OF ok that])
qed

subsection \<open>Properties\<close>

text \<open>
  C9. Eviction follows LRU-K: on a replacer in its invariant, \<open>evict\<close> finds no victim only when
  no frame is evictable, and otherwise returns an evictable frame that comes before every other
  evictable frame: fewer than \<open>k\<close> recorded accesses first, then the oldest of the last \<open>k\<close>
  accesses, then the smaller frame number.
\<close>

theorem evict_is_lru_k:
  assumes "lruk_ok r"
  shows "(evict r = None \<longleftrightarrow> evictable r = {}) \<and>
    (\<forall>i. evict r = Some i \<longrightarrow> i \<in> evictable r \<and> (\<forall>j\<in>evictable r. evicts_before r i j))"
  using evict_ok [OF assms] by blast

definition sample_replacer :: LRUKReplacer where
  "sample_replacer = \<lparr>lru_k = 2, num_frames = 3, curr_size = 2, current_timestamp = 5,
     node_store = [\<lparr>history = [1, 4], is_evictable = True\<rparr>, \<lparr>history = [2, 5], is_evictable = False\<rparr>,
       \<lparr>history = [3], is_evictable = True\<rparr>]\<rparr>"

lemma sample_replacer_ok: "lruk_ok sample_replacer" "evictable sample_replacer = {0, 2}" "0 < num_frames sample_replacer"
proof -
  have three: "i < 3 \<longleftrightarrow> i = 0 \<or> i = Suc 0 \<or> i = 2" for i :: nat by auto
  show ev: "evictable sample_replacer = {0, 2}"
    by (auto simp: evictable_def sample_replacer_def three)
  have "{0, 2} \<subseteq> tracked sample_replacer" by (auto simp: tracked_def sample_replacer_def)
  moreover have "\<forall>f<3. length (history (node_store sample_replacer ! f)) \<le> 2"
    by (auto simp: sample_replacer_def three)
  ultimately show "lruk_ok sample_replacer" using ev by (simp add: lruk_ok_def) (simp add: sample_replacer_def)
  show "0 < num_frames sample_replacer" by (simp add: sample_replacer_def)
qed

theorem evict_is_lru_k_witness: "evict sample_replacer = Some 2"
proof -
  obtain i where i: "evict sample_replacer = Some i" using evict_is_lru_k [OF sample_replacer_ok(1)] sample_replacer_ok(2) by auto
  then have "i \<in> {0, 2}" "evicts_before sample_replacer i 2"
    using evict_is_lru_k [OF sample_replacer_ok(1)] sample_replacer_ok(2) by auto
  then have "i = 2" by (auto simp: evicts_before_def victim_inf_def victim_ts_def sample_replacer_def)
  with i show ?thesis by simp
qed

text \<open>
  The replacer's bookkeeping: a recorded access is kept as the youngest of at most \<open>k\<close> time
  stamps of the frame, other histories do not change, and, as long as the 64-bit clock has not
  wrapped, all histories stay in chronological order, so that the front of a full history is
  the \<open>k\<close>-th most recent access.
\<close>

theorem recordAccess_keeps_last_k:
  assumes "lruk_ok r" "f < num_frames r" "sorted_history r" "current_timestamp r \<noteq> - 1"
  shows "\<exists>r'. recordAccess r f = Inr r' \<and> lruk_ok r' \<and> sorted_history r' \<and>
    (let h = history (node_store r ! f) @ [current_timestamp r + 1]
     in history (node_store r' ! f) = drop (length h - lru_k r) h) \<and>
    (\<forall>g. g \<noteq> f \<longrightarrow> history (node_store r' ! g) = history (node_store r ! g)) \<and> evictable r' = evictable r"
proof -
  obtain r' where r': "recordAccess r f = Inr r'" "lruk_ok r'" "evictable r' = evictable r"
    using recordAccess_ok [OF assms(1,2)] by blast
  with recordAccess_history [OF assms(1,2) r'(1)] recordAccess_sorted [OF assms(1,2) r'(1) assms(3,4)]
  show ?thesis by (auto simp: Let_def)
qed

theorem recordAccess_keeps_last_k_witness:
  "\<exists>r'. recordAccess sample_replacer 0 = Inr r' \<and> history (node_store r' ! 0) = [4, 6]"
proof -
  have "sorted_history sample_replacer"
    by (auto simp: sorted_history_def sample_replacer_def numeral_3_eq_3 less_Suc_eq)
  then show ?thesis
    using recordAccess_keeps_last_k [OF sample_replacer_ok(1,3)] by (auto simp: sample_replacer_def)
qed

end
