(* ===== verification/BufferPool.thy ===== *)
theory BufferPool
  imports LRUKReplacer DiskManager
begin

text \<open>
  \<^verbatim>\<open>BufferFrame\<close>, \<^verbatim>\<open>BufferPoolManager\<close> and the page guards
  (\<^verbatim>\<open>src/buffer/buffer_frame.cpp\<close>, \<^verbatim>\<open>src/buffer/buffer_pool_manager.cpp\<close>,
  \<^verbatim>\<open>src/buffer/page_guard.cpp\<close>): a write-back cache of pages over the disk manager.
  A pointer to a frame is the frame's index.  \<open>None\<close> as the result of an operation is an
  exception of the replacer that nobody catches.
\<close>

subsection \<open>Frames\<close>

record BufferFrame =
  fr_page_id :: PageId
  fr_frame_id :: FrameId
  fr_page :: Page
  pin_count :: int
  fr_dirty :: bool
  fr_valid :: bool

definition default_BufferFrame :: BufferFrame where
  "default_BufferFrame = \<lparr>fr_page_id = kInvalidPageId, fr_frame_id = 0, fr_page = default_Page, pin_count = 0,
     fr_dirty = False, fr_valid = False\<rparr>"

definition frame_pin :: "BufferFrame \<Rightarrow> BufferFrame" where
  "frame_pin fr = fr\<lparr>pin_count := pin_count fr + 1\<rparr>"

definition frame_unpin :: "bool \<Rightarrow> BufferFrame \<Rightarrow> BufferFrame" where
  "frame_unpin dirty fr =
    (let fr1 = (if pin_count fr > 0 then fr\<lparr>pin_count := pin_count fr - 1\<rparr> else fr)
     in if dirty then fr1\<lparr>fr_dirty := True\<rparr> else fr1)"

definition frame_markClean :: "BufferFrame \<Rightarrow> BufferFrame" where
  "frame_markClean fr = fr\<lparr>fr_dirty := False\<rparr>"

definition frame_invalidate :: "BufferFrame \<Rightarrow> BufferFrame" where
  "frame_invalidate fr = fr\<lparr>fr_valid := False, pin_count := 0, fr_dirty := False, fr_page_id := kInvalidPageId,
     fr_page := Page_clear (fr_page fr)\<rparr>"

definition frame_reset :: "PageId \<Rightarrow> BufferFrame \<Rightarrow> BufferFrame" where
  "frame_reset p fr = fr\<lparr>fr_page_id := p, pin_count := 1, fr_dirty := False, fr_valid := True,
     fr_page := Page_clear (fr_page fr)\<rparr>"

subsection \<open>The pool\<close>

record BufferPoolManager =
  pool_size :: nat
  bpm_disk :: DiskManager
  frames :: "BufferFrame list"
  page_table :: "PageId \<Rightarrow> FrameId option"
  bpm_replacer :: LRUKReplacer

definition mk_BufferPoolManager :: "nat \<Rightarrow> DiskManager \<Rightarrow> BufferPoolManager" where
  "mk_BufferPoolManager n d = \<lparr>pool_size = n, bpm_disk = d,
     frames = map (\<lambda>i. default_BufferFrame\<lparr>fr_frame_id := i\<rparr>) [0..<n], page_table = Map.empty,
     bpm_replacer = mk_LRUKReplacer n 2\<rparr>"

definition no_throw :: "'e + 'a \<Rightarrow> 'a option" where
  "no_throw r = (case r of Inl _ \<Rightarrow> None | Inr x \<Rightarrow> Some x)"

definition upd_frame :: "FrameId \<Rightarrow> (BufferFrame \<Rightarrow> BufferFrame) \<Rightarrow> BufferPoolManager \<Rightarrow> BufferPoolManager" where
  "upd_frame f g b = b\<lparr>frames := (frames b)[f := g (frames b ! f)]\<rparr>"

definition flushPage :: "BufferPoolManager \<Rightarrow> PageId \<Rightarrow> Status \<times> BufferPoolManager" where
  "flushPage b p = (case page_table b p of None \<Rightarrow> (NotFound, b)
   | Some f \<Rightarrow>
      let fr = frames b ! f in
      if \<not> fr_valid fr then (InvalidArg, b)
      else if \<not> fr_dirty fr then (Ok, b)
      else let (st, pg, d1) = writePage (bpm_disk b) p (fr_page fr);
               b1 = upd_frame f (\<lambda>x. x\<lparr>fr_page := pg\<rparr>) (b\<lparr>bpm_disk := d1\<rparr>)
           in if st \<noteq> Ok then (st, b1) else (Ok, upd_frame f frame_markClean b1))"

definition findFreeFrame :: "BufferPoolManager \<Rightarrow> (Status \<times> FrameId \<times> BufferPoolManager) option" where
  "findFreeFrame b = (case find (\<lambda>i. \<not> fr_valid (frames b ! i)) [0..<pool_size b] of
     Some i \<Rightarrow> Some (Ok, i, b)
   | None \<Rightarrow> (case evict (bpm_replacer b) of
       None \<Rightarrow> Some (BufferPoolFull, 0, b)
     | Some v \<Rightarrow>
         let pid = fr_page_id (frames b ! v);
             (st, b1) = (if fr_dirty (frames b ! v) then flushPage b pid else (Ok, b))
         in if st \<noteq> Ok then Some (st, 0, b1)
            else let b2 = upd_frame v frame_invalidate (b1\<lparr>page_table := (page_table b1)(pid := None)\<rparr>)
                 in map_option (\<lambda>r. (Ok, v, b2\<lparr>bpm_replacer := r\<rparr>)) (no_throw (remove (bpm_replacer b2) v))))"

text \<open>\<open>recordAccess\<close> then \<open>setEvictable(frame, false)\<close>.\<close>

definition touch_pinned :: "FrameId \<Rightarrow> BufferPoolManager \<Rightarrow> BufferPoolManager option" where
  "touch_pinned f b = do {
     r1 \<leftarrow> no_throw (recordAccess (bpm_replacer b) f);
     r2 \<leftarrow> no_throw (setEvictable r1 f False);
     Some (b\<lparr>bpm_replacer := r2\<rparr>)
   }"

definition fetchPage :: "BufferPoolManager \<Rightarrow> PageId \<Rightarrow> (Status \<times> FrameId option \<times> BufferPoolManager) option" where
  "fetchPage b p = (case page_table b p of
     Some f \<Rightarrow> do {
       b1 \<leftarrow> touch_pinned f (upd_frame f frame_pin b);
       Some (Ok, Some f, b1) }
   | None \<Rightarrow> do {
       (st, f, b1) \<leftarrow> findFreeFrame b;
       if st \<noteq> Ok then Some (st, None, b1)
       else do {
         let b2 = upd_frame f (frame_reset p) b1;
         let (st2, pg, d2) = readPage (bpm_disk b2) p (fr_page (frames b2 ! f));
         let b3 = upd_frame f (\<lambda>x. x\<lparr>fr_page := pg\<rparr>) (b2\<lparr>bpm_disk := d2\<rparr>);
         if st2 \<noteq> Ok then Some (st2, None, upd_frame f frame_invalidate b3)
         else do {
           b4 \<leftarrow> touch_pinned f (b3\<lparr>page_table := (page_table b3)(p \<mapsto> f)\<rparr>);
           Some (Ok, Some f, b4) } } })"

definition newPage :: "BufferPoolManager \<Rightarrow> (Status \<times> PageId \<times> FrameId option \<times> BufferPoolManager) option" where
  "newPage b = do {
     (st, f, b1) \<leftarrow> findFreeFrame b;
     if st \<noteq> Ok then Some (st, kInvalidPageId, None, b1)
     else do {
       let (st2, p, d2) = allocatePage (bpm_disk b1) kInvalidPageId;
       if st2 \<noteq> Ok then Some (st2, kInvalidPageId, None, b1\<lparr>bpm_disk := d2\<rparr>)
       else do {
         let b2 = upd_frame f (frame_reset p) (b1\<lparr>bpm_disk := d2\<rparr>);
         b3 \<leftarrow> touch_pinned f (b2\<lparr>page_table := (page_table b2)(p \<mapsto> f)\<rparr>);
         Some (Ok, p, Some f, b3) } } }"

definition unpinPage :: "BufferPoolManager \<Rightarrow> PageId \<Rightarrow> bool \<Rightarrow> (Status \<times> BufferPoolManager) option" where
  "unpinPage b p dirty = (case page_table b p of None \<Rightarrow> Some (NotFound, b)
   | Some f \<Rightarrow>
      if pin_count (frames b ! f) \<le> 0 then Some (InvalidArg, b)
      else let b1 = upd_frame f (frame_unpin dirty) b in
           if pin_count (frames b1 ! f) = 0
           then map_option (\<lambda>r. (Ok, b1\<lparr>bpm_replacer := r\<rparr>)) (no_throw (setEvictable (bpm_replacer b1) f True))
           else Some (Ok, b1))"

fun flush_frames :: "BufferPoolManager \<Rightarrow> nat list \<Rightarrow> Status \<times> BufferPoolManager" where
  "flush_frames b [] = (Ok, b)"
| "flush_frames b (i # is) =
    (if fr_valid (frames b ! i) \<and> fr_dirty (frames b ! i)
     then and_then (flushPage b (fr_page_id (frames b ! i))) (\<lambda>b1. flush_frames b1 is)
     else flush_frames b is)"

definition flushAllPages :: "BufferPoolManager \<Rightarrow> Status \<times> BufferPoolManager" where
  "flushAllPages b = flush_frames b [0..<pool_size b]"

subsection \<open>Page guards\<close>

text \<open>\<open>g_bpm\<close> tells whether \<open>bpm_\<close> is set; there is one pool.\<close>

record PageGuard =
  g_bpm :: bool
  g_frame :: "FrameId option"
  g_page_id :: PageId
  g_dirty :: bool

definition empty_guard :: PageGuard where
  "empty_guard = \<lparr>g_bpm = False, g_frame = None, g_page_id = kInvalidPageId, g_dirty = False\<rparr>"

definition mk_guard :: "BufferPoolManager \<Rightarrow> FrameId \<Rightarrow> PageGuard" where
  "mk_guard b f = \<lparr>g_bpm = True, g_frame = Some f, g_page_id = fr_page_id (frames b ! f), g_dirty = False\<rparr>"

definition guard_isValid :: "PageGuard \<Rightarrow> bool" where
  "guard_isValid g = (g_bpm g \<and> g_frame g \<noteq> None \<and> g_page_id g \<noteq> kInvalidPageId)"

definition guard_markDirty :: "PageGuard \<Rightarrow> PageGuard" where
  "guard_markDirty g = g\<lparr>g_dirty := True\<rparr>"

definition guard_drop :: "BufferPoolManager \<Rightarrow> PageGuard \<Rightarrow> (PageGuard \<times> BufferPoolManager) option" where
  "guard_drop b g =
    (if \<not> guard_isValid g then Some (g, b)
     else map_option (\<lambda>(_, b1). (empty_guard, b1)) (unpinPage b (g_page_id g) (g_dirty g)))"

text \<open>Move assignment between two distinct guards: the target, the source, the pool.\<close>

definition guard_assign :: "BufferPoolManager \<Rightarrow> PageGuard \<Rightarrow> PageGuard \<Rightarrow> (PageGuard \<times> PageGuard \<times> BufferPoolManager) option" where
  "guard_assign b g other = map_option (\<lambda>(_, b1). (other, empty_guard, b1)) (guard_drop b g)"

definition fetchPageGuard :: "BufferPoolManager \<Rightarrow> PageId \<Rightarrow> PageGuard \<Rightarrow> (Status \<times> PageGuard \<times> BufferPoolManager) option" where
  "fetchPageGuard b p out = do {
     (g0, b0) \<leftarrow> guard_drop b out;
     (st, f, b1) \<leftarrow> fetchPage b0 p;
     if st \<noteq> Ok then Some (st, g0, b1)
     else do {
       (g1, _, b2) \<leftarrow> guard_assign b1 g0 (mk_guard b1 (the f));
       Some (Ok, g1, b2) } }"

definition newPageGuard :: "BufferPoolManager \<Rightarrow> PageId \<Rightarrow> PageGuard \<Rightarrow> (Status \<times> PageId \<times> PageGuard \<times> BufferPoolManager) option" where
  "newPageGuard b out_id out = do {
     (g0, b0) \<leftarrow> guard_drop b out;
     (st, p, f, b1) \<leftarrow> newPage b0;
     if st \<noteq> Ok then Some (st, out_id, g0, b1)
     else do {
       (g1, _, b2) \<leftarrow> guard_assign b1 g0 (mk_guard b1 (the f));
       Some (Ok, p, g1, b2) } }"

text \<open>A client writing to the page of a frame it has pinned, through \<open>pageMut()\<close>.\<close>

definition write_frame_page :: "BufferPoolManager \<Rightarrow> FrameId \<Rightarrow> Page \<Rightarrow> BufferPoolManager" where
  "write_frame_page b f pg = upd_frame f (\<lambda>x. x\<lparr>fr_page := pg\<rparr>) b"

subsection \<open>Invariant and logical contents\<close>

text \<open>What a page means to a client: its header and body.\<close>

definition content :: "Page \<Rightarrow> PageHeader \<times> byte list" where
  "content p = (pg_header p, body p)"

lemma content_flushed [simp]: "wf_Page p \<Longrightarrow> content (flushed p) = content p"
  by (simp add: content_def)

definition storable :: "Page \<Rightarrow> bool" where
  "storable p = (wf_Page p \<and> wf_PageType (page_type (pg_header p)))"

text \<open>
  One frame: a valid frame is the one the page table names for its page, it is tracked and
  evictable exactly when unpinned, and when it is unpinned and clean the disk has its contents.
\<close>

definition frame_ok :: "DiskManager \<Rightarrow> LRUKReplacer \<Rightarrow> (PageId \<Rightarrow> FrameId option) \<Rightarrow> FrameId \<Rightarrow> BufferFrame \<Rightarrow> bool" where
  "frame_ok d r pt f fr = (storable (fr_page fr) \<and>
     (if fr_valid fr then pt (fr_page_id fr) = Some f \<and> f \<in> tracked r \<and> 0 \<le> pin_count fr \<and>
        (f \<in> evictable r \<longleftrightarrow> pin_count fr = 0) \<and> dm_pages d (fr_page_id fr) \<noteq> None \<and>
        (pin_count fr = 0 \<longrightarrow> \<not> fr_dirty fr \<longrightarrow>
          content (fr_page fr) = content (the (dm_pages d (fr_page_id fr))))
      else f \<notin> tracked r))"

definition bpm_ok :: "BufferPoolManager \<Rightarrow> bool" where
  "bpm_ok b = (dm_ok (bpm_disk b) \<and> (\<forall>i p. dm_pages (bpm_disk b) i = Some p \<longrightarrow> storable p) \<and>
     lruk_ok (bpm_replacer b) \<and> num_frames (bpm_replacer b) = pool_size b \<and>
     length (frames b) = pool_size b \<and>
     (\<forall>p f. page_table b p = Some f \<longrightarrow> f < pool_size b \<and> fr_valid (frames b ! f) \<and> fr_page_id (frames b ! f) = p) \<and>
     (\<forall>f<pool_size b. frame_ok (bpm_disk b) (bpm_replacer b) (page_table b) f (frames b ! f)))"

definition bpm_content :: "BufferPoolManager \<Rightarrow> PageId \<Rightarrow> (PageHeader \<times> byte list) option" where
  "bpm_content b p = (case page_table b p of Some f \<Rightarrow> Some (content (fr_page (frames b ! f)))
     | None \<Rightarrow> map_option content (dm_pages (bpm_disk b) p))"

definition pin_of :: "BufferPoolManager \<Rightarrow> PageId \<Rightarrow> int" where
  "pin_of b p = (case page_table b p of Some f \<Rightarrow> pin_count (frames b ! f) | None \<Rightarrow> 0)"

text \<open>
  The step every operation takes: one frame changes, with its entries in the replacer, the
  page table and the disk.
\<close>

lemma bpm_ok_step:
  assumes ok: "bpm_ok b" and f: "f < pool_size b"
    and r: "lruk_ok r'" "num_frames r' = pool_size b"
      "\<And>g. g \<noteq> f \<Longrightarrow> (g \<in> tracked r' \<longleftrightarrow> g \<in> tracked (bpm_replacer b)) \<and> (g \<in> evictable r' \<longleftrightarrow> g \<in> evictable (bpm_replacer b))"
    and d: "dm_ok d'" "\<And>i p. dm_pages d' i = Some p \<Longrightarrow> storable p"
      "\<And>q g. g \<noteq> f \<Longrightarrow> page_table b q = Some g \<Longrightarrow> dm_pages d' q = dm_pages (bpm_disk b) q"
    and pt: "\<And>q g. g \<noteq> f \<Longrightarrow> pt' q = Some g \<longleftrightarrow> page_table b q = Some g"
      "\<And>q. pt' q = Some f \<Longrightarrow> fr_valid fr' \<and> fr_page_id fr' = q"
    and fr: "frame_ok d' r' pt' f fr'"
  shows "bpm_ok (b\<lparr>bpm_disk := d', frames := (frames b)[f := fr'], page_table := pt', bpm_replacer := r'\<rparr>)"
proof -
  have len: "length (frames b) = pool_size b" using ok by (simp add: bpm_ok_def)
  have other: "frame_ok d' r' pt' g (frames b ! g)" if g: "g < pool_size b" "g \<noteq> f" for g
  proof -
    let ?fr = "frames b ! g"
    have gk: "frame_ok (bpm_disk b) (bpm_replacer b) (page_table b) g ?fr" using ok g(1) by (simp add: bpm_ok_def)
    show ?thesis
    proof (cases "fr_valid ?fr")
      case True
      with gk have p: "page_table b (fr_page_id ?fr) = Some g" by (simp add: frame_ok_def)
      then have "pt' (fr_page_id ?fr) = Some g" "dm_pages d' (fr_page_id ?fr) = dm_pages (bpm_disk b) (fr_page_id ?fr)"
        using pt(1) d(3) g(2) by auto
      with gk True r(3) [OF g(2)] show ?thesis by (simp add: frame_ok_def)
    next
      case False
      with gk r(3) [OF g(2)] show ?thesis by (simp add: frame_ok_def)
    qed
  qed
  have tab: "g < pool_size b \<and> fr_valid ((frames b)[f := fr'] ! g) \<and> fr_page_id ((frames b)[f := fr'] ! g) = q"
    if "pt' q = Some g" for q g
    using that pt f len ok by (cases "g = f") (auto simp: bpm_ok_def)
  have "\<forall>g<pool_size b. frame_ok d' r' pt' g ((frames b)[f := fr'] ! g)"
    using other fr f len by (auto simp: nth_list_update)
  with r(1,2) d(1,2) tab len show ?thesis by (auto simp: bpm_ok_def)
qed

lemma upd_frame_simps [simp]:
  "pool_size (upd_frame f g b) = pool_size b" "bpm_disk (upd_frame f g b) = bpm_disk b"
  "page_table (upd_frame f g b) = page_table b" "bpm_replacer (upd_frame f g b) = bpm_replacer b"
  "f < length (frames b) \<Longrightarrow> frames (upd_frame f g b) ! f = g (frames b ! f)"
  "h \<noteq> f \<Longrightarrow> frames (upd_frame f g b) ! h = frames b ! h"
  "length (frames (upd_frame f g b)) = length (frames b)"
  by (simp_all add: upd_frame_def)

lemma bpm_okD:
  assumes "bpm_ok b"
  shows "dm_ok (bpm_disk b)" "lruk_ok (bpm_replacer b)" "num_frames (bpm_replacer b) = pool_size b"
    "length (frames b) = pool_size b"
    "page_table b p = Some f \<Longrightarrow> f < pool_size b \<and> fr_valid (frames b ! f) \<and> fr_page_id (frames b ! f) = p"
    "f < pool_size b \<Longrightarrow> frame_ok (bpm_disk b) (bpm_replacer b) (page_table b) f (frames b ! f)"
    "dm_pages (bpm_disk b) i = Some q \<Longrightarrow> storable q"
  using assms by (auto simp: bpm_ok_def)

lemma valid_frameD:
  assumes "bpm_ok b" "f < pool_size b" "fr_valid (frames b ! f)"
  shows "page_table b (fr_page_id (frames b ! f)) = Some f" "f \<in> tracked (bpm_replacer b)" "0 \<le> pin_count (frames b ! f)"
    "f \<in> evictable (bpm_replacer b) \<longleftrightarrow> pin_count (frames b ! f) = 0"
    "dm_pages (bpm_disk b) (fr_page_id (frames b ! f)) \<noteq> None" "storable (fr_page (frames b ! f))"
    "pin_count (frames b ! f) = 0 \<Longrightarrow> \<not> fr_dirty (frames b ! f) \<Longrightarrow>
      content (fr_page (frames b ! f)) = content (the (dm_pages (bpm_disk b) (fr_page_id (frames b ! f))))"
  using bpm_okD(6) [OF assms(1,2)] assms(3) by (simp_all add: frame_ok_def)

subsection \<open>Flushing\<close>

lemma flushPage_spec:
  assumes ok: "bpm_ok b" and p: "page_table b p = Some f"
  shows "\<exists>b'. flushPage b p = (Ok, b') \<and> bpm_ok b' \<and> bpm_content b' = bpm_content b \<and>
    page_table b' = page_table b \<and> bpm_replacer b' = bpm_replacer b \<and> pool_size b' = pool_size b \<and>
    (\<forall>g. g \<noteq> f \<longrightarrow> frames b' ! g = frames b ! g) \<and>
    (\<exists>pg. frames b' ! f = (frames b ! f)\<lparr>fr_page := pg, fr_dirty := False\<rparr>) \<and>
    (fr_dirty (frames b ! f) \<longrightarrow> map_option content (dm_pages (bpm_disk b') p) = bpm_content b p) \<and>
    (\<forall>q. q \<noteq> p \<longrightarrow> dm_pages (bpm_disk b') q = dm_pages (bpm_disk b) q) \<and>
    dm_pages (bpm_disk b') p \<noteq> None \<and> dm_room (bpm_disk b') = dm_room (bpm_disk b)"
proof -
  let ?fr = "frames b ! f"
  have f: "f < pool_size b" "fr_valid ?fr" "fr_page_id ?fr = p" using bpm_okD(5) [OF ok p] by simp_all
  note v = valid_frameD [OF ok f(1,2), unfolded f(3)]
  have len: "length (frames b) = pool_size b" by (rule bpm_okD(4) [OF ok])
  show ?thesis
  proof (cases "fr_dirty ?fr")
    case False
    then have "flushPage b p = (Ok, b)" using p f by (simp add: flushPage_def)
    moreover have "frames b ! f = (frames b ! f)\<lparr>fr_page := fr_page ?fr, fr_dirty := False\<rparr>" using False by simp
    ultimately show ?thesis using ok v(5) False by blast
  next
    case True
    have pg: "wf_Page (fr_page ?fr)" "wf_PageType (page_type (pg_header (fr_page ?fr)))"
      using v(6) by (simp_all add: storable_def)
    obtain d' where d': "writePage (bpm_disk b) p (fr_page ?fr) = (Ok, flushed (fr_page ?fr), d')" "dm_ok d'"
        "dm_pages d' = (dm_pages (bpm_disk b))(p \<mapsto> flushed (fr_page ?fr))" "dm_room d' = dm_room (bpm_disk b)"
      using dm.wr_law [OF bpm_okD(1) [OF ok] v(5) pg] by blast
    let ?fr' = "?fr\<lparr>fr_page := flushed (fr_page ?fr), fr_dirty := False\<rparr>"
    let ?b = "b\<lparr>bpm_disk := d', frames := (frames b)[f := ?fr'], page_table := page_table b, bpm_replacer := bpm_replacer b\<rparr>"
    have run: "flushPage b p = (Ok, ?b)"
      using p f True d'(1) len by (simp add: flushPage_def upd_frame_def frame_markClean_def Let_def)
    have st: "storable (flushed (fr_page ?fr))" using pg by (simp add: storable_def)
    have fok: "frame_ok d' (bpm_replacer b) (page_table b) f ?fr'"
      using v st pg f p d'(3) by (simp add: frame_ok_def)
    have "bpm_ok ?b"
    proof (rule bpm_ok_step [OF ok f(1)])
      show "dm_pages d' q = dm_pages (bpm_disk b) q" if "g \<noteq> f" "page_table b q = Some g" for q g
        using that p d'(3) by auto
      show "storable q" if "dm_pages d' i = Some q" for i q
        using that st bpm_okD(7) [OF ok] d'(3) by (auto split: if_splits)
    qed (use d' fok f bpm_okD [OF ok] in auto)
    moreover have "bpm_content ?b = bpm_content b"
    proof
      fix q
      show "bpm_content ?b q = bpm_content b q"
        using bpm_okD(5) [OF ok, of q] pg f p d'(3) len
        by (cases "page_table b q") (auto simp: bpm_content_def nth_list_update)
    qed
    moreover have "bpm_content b p = Some (content (fr_page ?fr))" using p by (simp add: bpm_content_def)
    ultimately show ?thesis using run d' f(1) len pg by (intro exI [of _ ?b]) auto
  qed
qed

text \<open>Fetching is preceded by finding a frame: what it may change, and when it fails.\<close>

lemma findFreeFrame_spec:
  assumes ok: "bpm_ok b"
  shows "(\<exists>f b'. findFreeFrame b = Some (Ok, f, b') \<and> bpm_ok b' \<and> bpm_content b' = bpm_content b \<and>
      pool_size b' = pool_size b \<and> f < pool_size b \<and> \<not> fr_valid (frames b' ! f) \<and>
      (\<forall>q. pin_of b' q = pin_of b q) \<and> (\<forall>q. page_table b q = None \<longrightarrow> page_table b' q = None) \<and>
      (\<forall>q. (dm_pages (bpm_disk b') q = None) = (dm_pages (bpm_disk b) q = None)) \<and>
      dm_room (bpm_disk b') = dm_room (bpm_disk b)) \<or>
    (findFreeFrame b = Some (BufferPoolFull, 0, b) \<and> (\<forall>f<pool_size b. fr_valid (frames b ! f) \<and> 0 < pin_count (frames b ! f)))"
proof (cases "find (\<lambda>i. \<not> fr_valid (frames b ! i)) [0..<pool_size b]")
  case (Some i)
  then have "i < pool_size b" "\<not> fr_valid (frames b ! i)" by (auto simp: find_Some_iff)
  with Some ok show ?thesis by (auto simp: findFreeFrame_def)
next
  case None
  then have all: "fr_valid (frames b ! f)" if "f < pool_size b" for f using that by (auto simp: find_None_iff)
  note D = bpm_okD [OF ok]
  show ?thesis
  proof (cases "evict (bpm_replacer b)")
    case full: None
    then have "evictable (bpm_replacer b) = {}" using lru.pick_law [OF D(2)] by simp
    then have "0 < pin_count (frames b ! f)" if "f < pool_size b" for f
      using valid_frameD(3,4) [OF ok that all [OF that]] by auto
    with None full all show ?thesis by (auto simp: findFreeFrame_def)
  next
    case (Some v)
    note tv = lru.take_victim [OF D(2) Some]
    have v: "v < pool_size b" "fr_valid (frames b ! v)" using tv(1) D(3) all by auto
    let ?pid = "fr_page_id (frames b ! v)"
    note vf = valid_frameD [OF ok v]
    have pin: "pin_count (frames b ! v) = 0" using vf(4) tv(2) by simp
    define r1 where "r1 = (if fr_dirty (frames b ! v) then flushPage b ?pid else (Ok, b))"
    obtain b1 where b1: "r1 = (Ok, b1)" "bpm_ok b1" "bpm_content b1 = bpm_content b" "page_table b1 = page_table b"
        "bpm_replacer b1 = bpm_replacer b" "pool_size b1 = pool_size b" "\<forall>g. g \<noteq> v \<longrightarrow> frames b1 ! g = frames b ! g"
        "\<exists>pg. frames b1 ! v = (frames b ! v)\<lparr>fr_page := pg, fr_dirty := False\<rparr>"
        "\<forall>q. (dm_pages (bpm_disk b1) q = None) = (dm_pages (bpm_disk b) q = None)" "dm_room (bpm_disk b1) = dm_room (bpm_disk b)"
    proof (cases "fr_dirty (frames b ! v)")
      case True
      obtain b1 where fl: "flushPage b ?pid = (Ok, b1)" "bpm_ok b1" "bpm_content b1 = bpm_content b"
          "page_table b1 = page_table b" "bpm_replacer b1 = bpm_replacer b" "pool_size b1 = pool_size b"
          "\<forall>g. g \<noteq> v \<longrightarrow> frames b1 ! g = frames b ! g" "\<exists>pg. frames b1 ! v = (frames b ! v)\<lparr>fr_page := pg, fr_dirty := False\<rparr>"
          "\<forall>q. q \<noteq> ?pid \<longrightarrow> dm_pages (bpm_disk b1) q = dm_pages (bpm_disk b) q" "dm_pages (bpm_disk b1) ?pid \<noteq> None"
          "dm_room (bpm_disk b1) = dm_room (bpm_disk b)"
        using flushPage_spec [OF ok vf(1)] by blast
      have "(dm_pages (bpm_disk b1) q = None) = (dm_pages (bpm_disk b) q = None)" for q
        using fl(9,10) vf(5) by (cases "q = ?pid") auto
      with fl True show thesis by (intro that [of b1]) (simp_all add: r1_def)
    next
      case False
      then have ex: "\<exists>pg. frames b ! v = (frames b ! v)\<lparr>fr_page := pg, fr_dirty := False\<rparr>"
        by (intro exI [of _ "fr_page (frames b ! v)"]) simp
      show thesis by (rule that [of b, OF _ ok _ _ _ _ _ ex]) (simp_all add: r1_def False)
    qed
    have len1: "length (frames b1) = pool_size b" using bpm_okD(4) [OF b1(2)] b1(6) by simp
    have v1: "v < pool_size b1" "fr_valid (frames b1 ! v)" "fr_page_id (frames b1 ! v) = ?pid"
        "pin_count (frames b1 ! v) = 0" "\<not> fr_dirty (frames b1 ! v)"
      using v b1(6,8) pin by auto
    note vf1 = valid_frameD [OF b1(2) v1(1,2), unfolded v1(3)]
    have clean: "content (fr_page (frames b1 ! v)) = content (the (dm_pages (bpm_disk b1) ?pid))"
      by (rule vf1(7) [OF v1(4,5)])
    obtain r' where r': "remove (bpm_replacer b) v = Inr r'" "lruk_ok r'" "num_frames r' = pool_size b"
        "tracked r' = tracked (bpm_replacer b) - {v}" "evictable r' = evictable (bpm_replacer b) - {v}"
      using tv(4) D(3) by auto
    let ?fr' = "frame_invalidate (frames b1 ! v)"
    let ?pt = "(page_table b1)(?pid := None)"
    let ?b = "b1\<lparr>bpm_disk := bpm_disk b1, frames := (frames b1)[v := ?fr'], page_table := ?pt, bpm_replacer := r'\<rparr>"
    have run: "findFreeFrame b = Some (Ok, v, ?b)"
      using None Some b1(1,5) r'(1) by (simp add: findFreeFrame_def r1_def [symmetric] no_throw_def upd_frame_def)
    have "storable ((fr_page ?fr'))"
      using vf1(6) by (simp add: storable_def frame_invalidate_def Page_clear_def wf_Page_def default_PageHeader_def)
    then have fok: "frame_ok (bpm_disk b1) r' ?pt v ?fr'"
      using r'(4) by (simp add: frame_ok_def) (simp add: frame_invalidate_def)
    have uniq: "page_table b1 q = Some v \<longleftrightarrow> q = ?pid" for q
      using bpm_okD(5) [OF b1(2), of q v] v1(3) vf1(1) by auto
    have okb: "bpm_ok ?b"
    proof (rule bpm_ok_step [OF b1(2) v1(1) r'(2) _ _ bpm_okD(1) [OF b1(2)] _ _ _ _ fok])
      show "?pt q = Some g \<longleftrightarrow> page_table b1 q = Some g" if "g \<noteq> v" for q g
        using that vf1(1) by auto
      show "fr_valid ?fr' \<and> fr_page_id ?fr' = q" if "?pt q = Some v" for q
        using that uniq by (auto split: if_splits)
    qed (use r' b1(5,6) bpm_okD(7) [OF b1(2)] in auto)
    have cont: "bpm_content ?b = bpm_content b"
    proof -
      have "bpm_content ?b q = bpm_content b1 q" for q
      proof (cases "q = ?pid")
        case True
        obtain pg where "dm_pages (bpm_disk b1) ?pid = Some pg" using vf1(5) by auto
        with True clean vf1(1) show ?thesis by (simp add: bpm_content_def)
      next
        case False
        then have "page_table b1 q \<noteq> Some v" using uniq by simp
        with False show ?thesis by (auto simp: bpm_content_def nth_list_update split: option.splits)
      qed
      then show ?thesis using b1(3) by auto
    qed
    have pins: "pin_of ?b q = pin_of b q" for q
    proof (cases "q = ?pid")
      case True
      with pin vf(1) show ?thesis by (simp add: pin_of_def)
    next
      case False
      then have "page_table b1 q \<noteq> Some v" using uniq by simp
      with False b1(4,7) show ?thesis by (auto simp: pin_of_def nth_list_update split: option.splits)
    qed
    have "\<not> fr_valid (frames ?b ! v)" using v(1) len1 by (simp add: frame_invalidate_def)
    with run okb cont pins v(1) b1(4,6,9,10) show ?thesis
      by (intro disjI1 exI [of _ v] exI [of _ ?b]) auto
  qed
qed

subsection \<open>Fetching, allocating, unpinning\<close>

lemma touch_pinned_spec:
  assumes "lruk_ok (bpm_replacer b)" "f < num_frames (bpm_replacer b)"
  shows "\<exists>r. touch_pinned f b = Some (b\<lparr>bpm_replacer := r\<rparr>) \<and> lruk_ok r \<and> num_frames r = num_frames (bpm_replacer b) \<and>
    tracked r = insert f (tracked (bpm_replacer b)) \<and> evictable r = evictable (bpm_replacer b) - {f}"
  using lru.pin_frame [OF assms] by (auto simp: touch_pinned_def no_throw_def)

text \<open>A page that may be unpinned as clean: the disk has its contents, or some pin or the dirty flag remains.\<close>

definition clean_ok :: "BufferPoolManager \<Rightarrow> PageId \<Rightarrow> FrameId \<Rightarrow> bool" where
  "clean_ok b p f = (fr_dirty (frames b ! f) \<or> 1 < pin_count (frames b ! f) \<or>
     bpm_content b p = map_option content (dm_pages (bpm_disk b) p))"

lemma fetch_hit:
  assumes ok: "bpm_ok b" and p: "page_table b p = Some f"
  shows "\<exists>b'. fetchPage b p = Some (Ok, Some f, b') \<and> bpm_ok b' \<and> bpm_content b' = bpm_content b \<and>
    pool_size b' = pool_size b \<and> page_table b' = page_table b \<and> bpm_disk b' = bpm_disk b \<and>
    pin_of b' = (pin_of b)(p := pin_of b p + 1) \<and> clean_ok b' p f"
proof -
  have f: "f < pool_size b" "fr_valid (frames b ! f)" "fr_page_id (frames b ! f) = p" using bpm_okD(5) [OF ok p] by simp_all
  note D = bpm_okD [OF ok] and v = valid_frameD [OF ok f(1,2), unfolded f(3)]
  obtain r where r: "touch_pinned f (upd_frame f frame_pin b) = Some ((upd_frame f frame_pin b)\<lparr>bpm_replacer := r\<rparr>)"
      "lruk_ok r" "num_frames r = pool_size b" "tracked r = insert f (tracked (bpm_replacer b))"
      "evictable r = evictable (bpm_replacer b) - {f}"
    using touch_pinned_spec [of "upd_frame f frame_pin b" f] D(2,3) f(1) by auto
  let ?b = "b\<lparr>bpm_disk := bpm_disk b, frames := (frames b)[f := frame_pin (frames b ! f)], page_table := page_table b, bpm_replacer := r\<rparr>"
  have run: "fetchPage b p = Some (Ok, Some f, ?b)" using p r(1) by (simp add: fetchPage_def upd_frame_def)
  have fok: "frame_ok (bpm_disk b) r (page_table b) f (frame_pin (frames b ! f))"
    using v f r p by (simp add: frame_ok_def frame_pin_def)
  have "bpm_ok ?b"
    by (rule bpm_ok_step [OF ok f(1) r(2,3) _ D(1) D(7) _ _ _ fok])
      (use r(4,5) f p D(5) in \<open>auto simp: frame_pin_def\<close>)
  moreover have "bpm_content ?b = bpm_content b"
    using D(4) f(1) by (intro ext) (auto simp: bpm_content_def nth_list_update frame_pin_def split: option.split)
  moreover have "pin_of ?b q = ((pin_of b)(p := pin_of b p + 1)) q" for q
    using D(4) f(1,3) p D(5) [of q] by (cases "page_table b q") (auto simp: pin_of_def nth_list_update frame_pin_def)
  moreover have "clean_ok ?b p f"
    using v f(1) D(4) p by (cases "pin_count (frames b ! f) = 0"; cases "fr_dirty (frames b ! f)")
      (auto simp: clean_ok_def frame_pin_def bpm_content_def)
  ultimately show ?thesis using run by (intro exI [of _ ?b]) auto
qed

text \<open>Installing a page in a free frame, the common part of a miss and of a new page.\<close>

lemma install_page:
  assumes ok: "bpm_ok b" and f: "f < pool_size b" "\<not> fr_valid (frames b ! f)" and p: "page_table b p = None"
    and d: "dm_ok d'" "\<forall>i q. dm_pages d' i = Some q \<longrightarrow> storable q" "dm_pages d' p \<noteq> None"
      "\<forall>q. dm_pages (bpm_disk b) q \<noteq> None \<longrightarrow> dm_pages d' q = dm_pages (bpm_disk b) q"
    and pg: "storable pg" and fr: "fr' = (frames b ! f)\<lparr>fr_page_id := p, pin_count := 1, fr_dirty := False, fr_valid := True, fr_page := pg\<rparr>"
  shows "\<exists>r. touch_pinned f (b\<lparr>bpm_disk := d', frames := (frames b)[f := fr'], page_table := (page_table b)(p \<mapsto> f)\<rparr>) =
      Some (b\<lparr>bpm_disk := d', frames := (frames b)[f := fr'], page_table := (page_table b)(p \<mapsto> f), bpm_replacer := r\<rparr>) \<and>
    bpm_ok (b\<lparr>bpm_disk := d', frames := (frames b)[f := fr'], page_table := (page_table b)(p \<mapsto> f), bpm_replacer := r\<rparr>)"
proof -
  note D = bpm_okD [OF ok]
  let ?b = "b\<lparr>bpm_disk := d', frames := (frames b)[f := fr'], page_table := (page_table b)(p \<mapsto> f)\<rparr>"
  obtain r where r: "touch_pinned f ?b = Some (?b\<lparr>bpm_replacer := r\<rparr>)" "lruk_ok r" "num_frames r = pool_size b"
      "tracked r = insert f (tracked (bpm_replacer b))" "evictable r = evictable (bpm_replacer b) - {f}"
    using touch_pinned_spec [of ?b f] D(2,3) f(1) by auto
  have nof: "page_table b q \<noteq> Some f" for q using D(5) [of q f] f(2) by auto
  have fok: "frame_ok d' r ((page_table b)(p \<mapsto> f)) f fr'"
    using r(4,5) d(3) pg by (simp add: frame_ok_def fr)
  have "bpm_ok (b\<lparr>bpm_disk := d', frames := (frames b)[f := fr'], page_table := (page_table b)(p \<mapsto> f), bpm_replacer := r\<rparr>)"
  proof (rule bpm_ok_step [OF ok f(1) r(2,3) _ d(1) d(2) [rule_format] _ _ _ fok])
    show "((page_table b)(p \<mapsto> f)) q = Some g \<longleftrightarrow> page_table b q = Some g" if "g \<noteq> f" for q g using that p by auto
    show "fr_valid fr' \<and> fr_page_id fr' = q" if "((page_table b)(p \<mapsto> f)) q = Some f" for q
      using that nof fr by (auto split: if_splits)
    show "dm_pages d' q = dm_pages (bpm_disk b) q" if "page_table b q = Some g" for q g
      using valid_frameD(5) [OF ok, of g] D(5) [OF that] by (intro d(4) [rule_format]) auto
  qed (use r(4,5) in auto)
  with r(1) show ?thesis by (intro exI [of _ r]) simp
qed

lemma default_page_storable: "storable pg \<Longrightarrow> storable (Page_clear pg)"
  by (simp add: storable_def) (simp add: Page_clear_def default_PageHeader_def)

lemma fetch_miss:
  assumes ok: "bpm_ok b" and p: "page_table b p = None" "dm_pages (bpm_disk b) p \<noteq> None"
  shows "(\<exists>f b'. fetchPage b p = Some (Ok, Some f, b') \<and> bpm_ok b' \<and> bpm_content b' = bpm_content b \<and>
      pool_size b' = pool_size b \<and> page_table b' p = Some f \<and> pin_of b' = (pin_of b)(p := 1) \<and> clean_ok b' p f) \<or>
    (fetchPage b p = Some (BufferPoolFull, None, b) \<and> (\<forall>f<pool_size b. fr_valid (frames b ! f) \<and> 0 < pin_count (frames b ! f)))"
proof (cases "findFreeFrame b = Some (BufferPoolFull, 0, b)")
  case True
  then show ?thesis using findFreeFrame_spec [OF ok] p(1) by (auto simp: fetchPage_def)
next
  case False
  then obtain f b1 where b1: "findFreeFrame b = Some (Ok, f, b1)" "bpm_ok b1" "bpm_content b1 = bpm_content b"
      "pool_size b1 = pool_size b" "f < pool_size b1" "\<not> fr_valid (frames b1 ! f)" "\<forall>q. pin_of b1 q = pin_of b q"
      "page_table b1 p = None" "dm_pages (bpm_disk b1) p \<noteq> None"
    using findFreeFrame_spec [OF ok] p by (auto simp del: not_None_eq)
  then obtain pg where pg: "dm_pages (bpm_disk b1) p = Some pg" by auto
  note D = bpm_okD [OF b1(2)]
  have st: "storable (fr_page (frames b1 ! f))" using D(6) [OF b1(5)] by (simp add: frame_ok_def)
  have "wf_Page (Page_clear (fr_page (frames b1 ! f)))" using st by (simp add: storable_def)
  then have rd: "readPage (bpm_disk b1) p (Page_clear (fr_page (frames b1 ! f))) = (Ok, pg, bpm_disk b1)"
    by (rule dm.rd_law [OF D(1) pg])
  let ?fr = "(frames b1 ! f)\<lparr>fr_page_id := p, pin_count := 1, fr_dirty := False, fr_valid := True, fr_page := pg\<rparr>"
  obtain r where r: "touch_pinned f (b1\<lparr>bpm_disk := bpm_disk b1, frames := (frames b1)[f := ?fr], page_table := (page_table b1)(p \<mapsto> f)\<rparr>) =
      Some (b1\<lparr>bpm_disk := bpm_disk b1, frames := (frames b1)[f := ?fr], page_table := (page_table b1)(p \<mapsto> f), bpm_replacer := r\<rparr>)"
      "bpm_ok (b1\<lparr>bpm_disk := bpm_disk b1, frames := (frames b1)[f := ?fr], page_table := (page_table b1)(p \<mapsto> f), bpm_replacer := r\<rparr>)"
    using install_page [OF b1(2,5,6,8) D(1) _ b1(9) _ D(7) [OF pg] refl] D(7) by blast
  let ?b = "b1\<lparr>bpm_disk := bpm_disk b1, frames := (frames b1)[f := ?fr], page_table := (page_table b1)(p \<mapsto> f), bpm_replacer := r\<rparr>"
  have len: "f < length (frames b1)" using b1(5) D(4) by simp
  have run: "fetchPage b p = Some (Ok, Some f, ?b)"
    using p(1) b1(1) rd r(1) len by (simp add: fetchPage_def upd_frame_def frame_reset_def Let_def)
  have nof: "page_table b1 q \<noteq> Some f" for q using D(5) [of q f] b1(6) by auto
  have cont: "bpm_content ?b = bpm_content b"
  proof -
    have "bpm_content ?b q = bpm_content b1 q" for q
      using nof [of q] len b1(8) pg by (cases "q = p") (auto simp: bpm_content_def nth_list_update split: option.splits)
    then show ?thesis using b1(3) by auto
  qed
  have "pin_of ?b q = ((pin_of b)(p := 1)) q" for q
    using nof [of q] len b1(7) [rule_format, of q] by (cases "q = p") (auto simp: pin_of_def nth_list_update split: option.splits)
  then have "pin_of ?b = (pin_of b)(p := 1)" ..
  moreover have "clean_ok ?b p f" using len pg by (simp add: clean_ok_def bpm_content_def)
  ultimately show ?thesis using run r(2) cont b1(4) by (intro disjI1 exI [of _ f] exI [of _ ?b]) simp
qed

lemma dm_pages_zero: "storable zero_page"
  by (simp add: storable_def) (simp add: zero_page_def dec_hdr_def)

lemma newPage_spec:
  assumes ok: "bpm_ok b" and room: "dm_room (bpm_disk b)"
  shows "(\<exists>p f b'. newPage b = Some (Ok, p, Some f, b') \<and> bpm_ok b' \<and> bpm_content b p = None \<and> p \<noteq> kInvalidPageId \<and>
      bpm_content b' = (bpm_content b)(p \<mapsto> content (fr_page (frames b' ! f))) \<and>
      body (fr_page (frames b' ! f)) = replicate kPageBodySize 0 \<and>
      pool_size b' = pool_size b \<and> page_table b' p = Some f \<and> pin_of b' = (pin_of b)(p := 1)) \<or>
    (newPage b = Some (BufferPoolFull, kInvalidPageId, None, b) \<and>
      (\<forall>f<pool_size b. fr_valid (frames b ! f) \<and> 0 < pin_count (frames b ! f)))"
proof (cases "findFreeFrame b = Some (BufferPoolFull, 0, b)")
  case True
  then show ?thesis using findFreeFrame_spec [OF ok] by (auto simp: newPage_def)
next
  case False
  then obtain f b1 where b1: "findFreeFrame b = Some (Ok, f, b1)" "bpm_ok b1" "bpm_content b1 = bpm_content b"
      "pool_size b1 = pool_size b" "f < pool_size b1" "\<not> fr_valid (frames b1 ! f)" "\<forall>q. pin_of b1 q = pin_of b q"
      "dm_room (bpm_disk b1)"
    using findFreeFrame_spec [OF ok] room by (auto simp del: not_None_eq)
  note D = bpm_okD [OF b1(2)]
  obtain d' p where al: "allocatePage (bpm_disk b1) kInvalidPageId = (Ok, p, d')" "dm_ok d'" "dm_pages (bpm_disk b1) p = None"
      "p \<noteq> kInvalidPageId" "dm_pages d' = (dm_pages (bpm_disk b1))(p \<mapsto> zero_page)"
    using dm.al_law [OF D(1) b1(8), of kInvalidPageId] by blast
  have noq: "page_table b1 p = None"
  proof (cases "page_table b1 p")
    case (Some g)
    then show ?thesis using valid_frameD(5) [OF b1(2), of g] D(5) [OF Some] al(3) by simp
  qed simp
  let ?pg = "Page_clear (fr_page (frames b1 ! f))"
  have st: "storable ?pg" using D(6) [OF b1(5)] by (intro default_page_storable) (simp add: frame_ok_def)
  let ?fr = "(frames b1 ! f)\<lparr>fr_page_id := p, pin_count := 1, fr_dirty := False, fr_valid := True, fr_page := ?pg\<rparr>"
  have dst: "\<forall>i q. dm_pages d' i = Some q \<longrightarrow> storable q"
    using D(7) dm_pages_zero al(5) by (auto split: if_splits)
  have dpg: "dm_pages d' p \<noteq> None" "\<forall>q. dm_pages (bpm_disk b1) q \<noteq> None \<longrightarrow> dm_pages d' q = dm_pages (bpm_disk b1) q"
    using al(3,5) by auto
  obtain r where r: "touch_pinned f (b1\<lparr>bpm_disk := d', frames := (frames b1)[f := ?fr], page_table := (page_table b1)(p \<mapsto> f)\<rparr>) =
      Some (b1\<lparr>bpm_disk := d', frames := (frames b1)[f := ?fr], page_table := (page_table b1)(p \<mapsto> f), bpm_replacer := r\<rparr>)"
      "bpm_ok (b1\<lparr>bpm_disk := d', frames := (frames b1)[f := ?fr], page_table := (page_table b1)(p \<mapsto> f), bpm_replacer := r\<rparr>)"
    using install_page [OF b1(2,5,6) noq al(2) dst dpg st refl] by blast
  let ?b = "b1\<lparr>bpm_disk := d', frames := (frames b1)[f := ?fr], page_table := (page_table b1)(p \<mapsto> f), bpm_replacer := r\<rparr>"
  have len: "f < length (frames b1)" using b1(5) D(4) by simp
  have run: "newPage b = Some (Ok, p, Some f, ?b)"
    using b1(1) al(1) r(1) len by (simp add: newPage_def upd_frame_def frame_reset_def Let_def)
  have nof: "page_table b1 q \<noteq> Some f" for q using D(5) [of q f] b1(6) by auto
  have "bpm_content ?b q = ((bpm_content b1)(p \<mapsto> content ?pg)) q" for q
    using nof [of q] len al(5) by (cases "q = p") (auto simp: bpm_content_def nth_list_update split: option.splits)
  then have cont: "bpm_content ?b = (bpm_content b)(p \<mapsto> content (fr_page (frames ?b ! f)))" using b1(3) len by auto
  have "pin_of ?b q = ((pin_of b)(p := 1)) q" for q
    using nof [of q] len b1(7) [rule_format, of q] by (cases "q = p") (auto simp: pin_of_def nth_list_update split: option.splits)
  then have pins: "pin_of ?b = (pin_of b)(p := 1)" ..
  have "bpm_content b p = None" using b1(3) noq al(3) by (simp add: bpm_content_def [of b1] flip: b1(3))
  moreover have "body (fr_page (frames ?b ! f)) = replicate kPageBodySize 0"
    using st len by (simp add: storable_def body_def Page_clear_def wf_Page_def page_consts)
  moreover have "page_table ?b p = Some f" "pool_size ?b = pool_size b" using b1(4) by simp_all
  ultimately show ?thesis using run r(2) cont pins al(4) by blast
qed

lemma unpinPage_spec:
  assumes ok: "bpm_ok b" and p: "page_table b p = Some f" "0 < pin_count (frames b ! f)"
    and safe: "dirty \<or> fr_dirty (frames b ! f) \<or> 1 < pin_count (frames b ! f) \<or>
      bpm_content b p = map_option content (dm_pages (bpm_disk b) p)"
  shows "\<exists>b'. unpinPage b p dirty = Some (Ok, b') \<and> bpm_ok b' \<and> bpm_content b' = bpm_content b \<and>
    pool_size b' = pool_size b \<and> page_table b' = page_table b \<and> bpm_disk b' = bpm_disk b \<and>
    pin_of b' = (pin_of b)(p := pin_of b p - 1)"
proof -
  have f: "f < pool_size b" "fr_valid (frames b ! f)" "fr_page_id (frames b ! f) = p" using bpm_okD(5) [OF ok p(1)] by simp_all
  note D = bpm_okD [OF ok] and v = valid_frameD [OF ok f(1,2), unfolded f(3)]
  let ?fr = "frame_unpin dirty (frames b ! f)"
  have fr: "pin_count ?fr = pin_count (frames b ! f) - 1" "fr_page ?fr = fr_page (frames b ! f)" "fr_valid ?fr"
      "fr_page_id ?fr = p" "fr_dirty ?fr = (dirty \<or> fr_dirty (frames b ! f))"
    using p(2) f by (auto simp: frame_unpin_def Let_def)
  obtain r where r: "(if pin_count ?fr = 0 then no_throw (setEvictable (bpm_replacer b) f True) else Some (bpm_replacer b)) = Some r"
      "lruk_ok r" "num_frames r = pool_size b" "tracked r = tracked (bpm_replacer b)"
      "evictable r = (if pin_count ?fr = 0 then insert f (evictable (bpm_replacer b)) else evictable (bpm_replacer b))"
    using lru.mark_law [OF D(2) v(2), of True] D(2,3) by (cases "pin_count ?fr = 0") (auto simp: no_throw_def)
  let ?b = "b\<lparr>bpm_disk := bpm_disk b, frames := (frames b)[f := ?fr], page_table := page_table b, bpm_replacer := r\<rparr>"
  have run: "unpinPage b p dirty = Some (Ok, ?b)"
    using p r(1) D(4) f(1) by (auto simp: unpinPage_def upd_frame_def Let_def no_throw_def split: if_splits sum.splits)
  have same: "content (fr_page ?fr) = content (the (dm_pages (bpm_disk b) p))" if "pin_count ?fr = 0" "\<not> fr_dirty ?fr"
    using that safe fr p v(5) by (auto simp: bpm_content_def)
  have fok: "frame_ok (bpm_disk b) r (page_table b) f ?fr"
    using v fr r(4,5) p same by (auto simp: frame_ok_def)
  have "bpm_ok ?b"
    by (rule bpm_ok_step [OF ok f(1) r(2,3) _ D(1) D(7) _ _ _ fok])
      (use r(4,5) fr D(5) p f in auto)
  moreover have "bpm_content ?b = bpm_content b"
    using D(4) f(1) fr(2) by (intro ext) (auto simp: bpm_content_def nth_list_update split: option.split)
  moreover have "pin_of ?b q = ((pin_of b)(p := pin_of b p - 1)) q" for q
    using D(4) f(1,3) p D(5) [of q] fr(1) by (cases "page_table b q") (auto simp: pin_of_def nth_list_update)
  ultimately show ?thesis using run by (intro exI [of _ ?b]) auto
qed

lemma write_frame_page_spec:
  assumes ok: "bpm_ok b" and p: "page_table b p = Some f" "0 < pin_count (frames b ! f)" and pg: "storable pg"
  shows "bpm_ok (write_frame_page b f pg)" "bpm_content (write_frame_page b f pg) = (bpm_content b)(p \<mapsto> content pg)"
    "pin_of (write_frame_page b f pg) = pin_of b"
proof -
  have f: "f < pool_size b" "fr_valid (frames b ! f)" "fr_page_id (frames b ! f) = p" using bpm_okD(5) [OF ok p(1)] by simp_all
  note D = bpm_okD [OF ok] and v = valid_frameD [OF ok f(1,2), unfolded f(3)]
  let ?fr = "(frames b ! f)\<lparr>fr_page := pg\<rparr>"
  have fok: "frame_ok (bpm_disk b) (bpm_replacer b) (page_table b) f ?fr" using v f p pg by (simp add: frame_ok_def)
  have eq: "write_frame_page b f pg = b\<lparr>bpm_disk := bpm_disk b, frames := (frames b)[f := ?fr], page_table := page_table b,
      bpm_replacer := bpm_replacer b\<rparr>" by (simp add: write_frame_page_def upd_frame_def)
  show "bpm_ok (write_frame_page b f pg)"
    unfolding eq by (rule bpm_ok_step [OF ok f(1) D(2,3) _ D(1) D(7) _ _ _ fok]) (use f D(5) p in auto)
  show "bpm_content (write_frame_page b f pg) = (bpm_content b)(p \<mapsto> content pg)"
  proof
    fix q
    show "bpm_content (write_frame_page b f pg) q = ((bpm_content b)(p \<mapsto> content pg)) q"
      using D(4) D(5) [of q] f p(1) by (cases "page_table b q") (auto simp: eq bpm_content_def nth_list_update)
  qed
  show "pin_of (write_frame_page b f pg) = pin_of b"
    by (intro ext) (use D(4) f(1) in \<open>auto simp: eq pin_of_def nth_list_update split: option.split\<close>)
qed

subsection \<open>Flushing everything\<close>

definition on_disk :: "BufferPoolManager \<Rightarrow> FrameId \<Rightarrow> bool" where
  "on_disk b f = (map_option content (dm_pages (bpm_disk b) (fr_page_id (frames b ! f))) = Some (content (fr_page (frames b ! f))))"

text \<open>What flushing the frames of a set does to one frame.\<close>

definition frame_flushed :: "BufferPoolManager \<Rightarrow> BufferPoolManager \<Rightarrow> FrameId set \<Rightarrow> FrameId \<Rightarrow> bool" where
  "frame_flushed b b' S f = (fr_valid (frames b' ! f) = fr_valid (frames b ! f) \<and>
     fr_page_id (frames b' ! f) = fr_page_id (frames b ! f) \<and>
     (fr_valid (frames b ! f) \<longrightarrow> fr_dirty (frames b' ! f) = (fr_dirty (frames b ! f) \<and> f \<notin> S) \<and>
       (on_disk b f \<or> f \<in> S \<and> fr_dirty (frames b ! f) \<longrightarrow> on_disk b' f)))"

lemma flushPage_frame:
  assumes ok: "bpm_ok b" and i: "i < pool_size b" "fr_valid (frames b ! i)" "fr_dirty (frames b ! i)"
  shows "\<exists>b1. flushPage b (fr_page_id (frames b ! i)) = (Ok, b1) \<and> bpm_ok b1 \<and> bpm_content b1 = bpm_content b \<and>
    page_table b1 = page_table b \<and> pool_size b1 = pool_size b \<and> pin_of b1 = pin_of b \<and>
    (\<forall>f<pool_size b. frame_flushed b b1 {i} f)"
proof -
  let ?p = "fr_page_id (frames b ! i)"
  have p: "page_table b ?p = Some i" by (rule valid_frameD(1) [OF ok i(1,2)])
  obtain b1 pg where b1: "flushPage b ?p = (Ok, b1)" "bpm_ok b1" "bpm_content b1 = bpm_content b"
      "page_table b1 = page_table b" "pool_size b1 = pool_size b" "\<forall>g. g \<noteq> i \<longrightarrow> frames b1 ! g = frames b ! g"
      "frames b1 ! i = (frames b ! i)\<lparr>fr_page := pg, fr_dirty := False\<rparr>"
      "map_option content (dm_pages (bpm_disk b1) ?p) = bpm_content b ?p"
      "\<forall>q. q \<noteq> ?p \<longrightarrow> dm_pages (bpm_disk b1) q = dm_pages (bpm_disk b) q"
    using flushPage_spec [OF ok p] i(3) by blast
  have "pin_count (frames b1 ! g) = pin_count (frames b ! g)" for g using b1(6,7) by (cases "g = i") simp_all
  then have pins: "pin_of b1 = pin_of b" using b1(4) by (intro ext) (simp add: pin_of_def split: option.split)
  have "bpm_content b1 ?p = Some (content (fr_page (frames b1 ! i)))" using p b1(4) by (simp add: bpm_content_def)
  then have di: "on_disk b1 i" using b1(3,7,8) by (simp add: on_disk_def)
  have "frame_flushed b b1 {i} f" if f: "f < pool_size b" for f
  proof (cases "f = i")
    case True
    with b1(7) di show ?thesis by (simp add: frame_flushed_def)
  next
    case False
    have "on_disk b1 f = on_disk b f" if "fr_valid (frames b ! f)"
    proof -
      have "fr_page_id (frames b ! f) \<noteq> ?p" using valid_frameD(1) [OF ok f that] p False by auto
      with False b1(6,9) show ?thesis by (simp add: on_disk_def)
    qed
    with False b1(6) show ?thesis by (simp add: frame_flushed_def)
  qed
  with b1 pins show ?thesis by blast
qed

lemma flush_frames_spec:
  assumes "bpm_ok b" "\<forall>i\<in>set is. i < pool_size b"
  shows "\<exists>b'. flush_frames b is = (Ok, b') \<and> bpm_ok b' \<and> bpm_content b' = bpm_content b \<and>
    page_table b' = page_table b \<and> pool_size b' = pool_size b \<and> pin_of b' = pin_of b \<and>
    (\<forall>f<pool_size b. frame_flushed b b' (set is) f)"
  using assms
proof (induction "is" arbitrary: b)
  case Nil
  then show ?case by (auto simp: frame_flushed_def)
next
  case (Cons i "is")
  have i: "i < pool_size b" using Cons.prems(2) by simp
  show ?case
  proof (cases "fr_valid (frames b ! i) \<and> fr_dirty (frames b ! i)")
    case False
    obtain b' where b': "flush_frames b is = (Ok, b')" "bpm_ok b'" "bpm_content b' = bpm_content b"
        "page_table b' = page_table b" "pool_size b' = pool_size b" "pin_of b' = pin_of b"
        "\<forall>f<pool_size b. frame_flushed b b' (set is) f"
      using Cons.IH [OF Cons.prems(1)] Cons.prems(2) by auto
    have "frame_flushed b b' (set (i # is)) f" if "f < pool_size b" for f
      using b'(7) that False by (auto simp: frame_flushed_def)
    with b' False show ?thesis by (intro exI [of _ b']) auto
  next
    case True
    obtain b1 where b1: "flushPage b (fr_page_id (frames b ! i)) = (Ok, b1)" "bpm_ok b1" "bpm_content b1 = bpm_content b"
        "page_table b1 = page_table b" "pool_size b1 = pool_size b" "pin_of b1 = pin_of b"
        "\<forall>f<pool_size b. frame_flushed b b1 {i} f"
      using flushPage_frame [OF Cons.prems(1) i] True by blast
    obtain b' where b': "flush_frames b1 is = (Ok, b')" "bpm_ok b'" "bpm_content b' = bpm_content b1"
        "page_table b' = page_table b1" "pool_size b' = pool_size b1" "pin_of b' = pin_of b1"
        "\<forall>f<pool_size b1. frame_flushed b1 b' (set is) f"
      using Cons.IH [OF b1(2)] Cons.prems(2) b1(5) by auto
    have "frame_flushed b b' (set (i # is)) f" if "f < pool_size b" for f
      using b1(7) [rule_format, OF that] b'(7) [rule_format, of f] that b1(5) True
      by (auto simp: frame_flushed_def)
    with b' b1 True show ?thesis by (intro exI [of _ b']) auto
  qed
qed

lemma flushAll_spec:
  assumes ok: "bpm_ok b"
  shows "\<exists>b'. flushAllPages b = (Ok, b') \<and> bpm_ok b' \<and> bpm_content b' = bpm_content b \<and> pin_of b' = pin_of b \<and>
    (\<forall>p. bpm_content b p \<noteq> None \<longrightarrow> (pin_of b p = 0 \<or> (\<exists>f. page_table b p = Some f \<and> fr_dirty (frames b ! f))) \<longrightarrow>
       map_option content (dm_pages (bpm_disk b') p) = bpm_content b p)"
proof -
  obtain b' where b': "flush_frames b [0..<pool_size b] = (Ok, b')" "bpm_ok b'" "bpm_content b' = bpm_content b"
      "page_table b' = page_table b" "pool_size b' = pool_size b" "pin_of b' = pin_of b"
      "\<forall>f<pool_size b. frame_flushed b b' {0..<pool_size b} f"
    using flush_frames_spec [OF ok, of "[0..<pool_size b]"] by auto
  have "map_option content (dm_pages (bpm_disk b') p) = bpm_content b p"
    if c: "bpm_content b p \<noteq> None" and q: "pin_of b p = 0 \<or> (\<exists>f. page_table b p = Some f \<and> fr_dirty (frames b ! f))" for p
  proof (cases "page_table b p")
    case None
    with b'(3,4) show ?thesis by (metis bpm_content_def option.simps(4))
  next
    case (Some f)
    have f: "f < pool_size b" "fr_valid (frames b ! f)" "fr_page_id (frames b ! f) = p" using bpm_okD(5) [OF ok Some] by simp_all
    note v = valid_frameD [OF ok f(1,2)]
    have "on_disk b f \<or> fr_dirty (frames b ! f)"
      using q v(5,7) Some by (auto simp: pin_of_def on_disk_def)
    then have "on_disk b' f" "fr_page_id (frames b' ! f) = p" using b'(7) f by (auto simp: frame_flushed_def)
    moreover have "bpm_content b' p = Some (content (fr_page (frames b' ! f)))" using Some b'(4) by (simp add: bpm_content_def)
    ultimately show ?thesis using b'(3) by (simp add: on_disk_def)
  qed
  with b' show ?thesis by (simp add: flushAllPages_def)
qed

lemma dm_pages_storable: "dm_ok d \<Longrightarrow> dm_pages d i = Some p \<Longrightarrow> storable p"
  using wf_disk_page [of i "dm_page_count d" d]
  by (auto simp: dm_pages_def data_page_def dm_ok_def storable_def disk_page_def dec_hdr_def Let_def split: if_splits)

lemma storable_default [simp]: "storable default_Page"
  by (simp add: storable_def) (simp add: default_Page_def default_PageHeader_def)

lemma mk_bpm_ok:
  assumes "dm_ok d" "n < 2 ^ 64"
  shows "bpm_ok (mk_BufferPoolManager n d)" "bpm_content (mk_BufferPoolManager n d) p = map_option content (dm_pages d p)"
    "pin_of (mk_BufferPoolManager n d) p = 0" "bpm_disk (mk_BufferPoolManager n d) = d"
proof -
  show "bpm_ok (mk_BufferPoolManager n d)"
    using assms(1) mk_lruk_ok(1) [of 2 n] assms(2) dm_pages_storable [OF assms(1)]
    by (auto simp: bpm_ok_def mk_BufferPoolManager_def frame_ok_def default_BufferFrame_def mk_lruk_ok(2-4))
qed (simp_all add: mk_BufferPoolManager_def bpm_content_def pin_of_def)

subsection \<open>Guards\<close>

lemma guard_drop_invalid: "\<not> guard_isValid g \<Longrightarrow> guard_drop b g = Some (g, b)"
  by (simp add: guard_drop_def)

lemma empty_guard_invalid [simp]: "\<not> guard_isValid empty_guard"
  by (simp add: guard_isValid_def empty_guard_def)

lemma fetchPageGuard_eq:
  assumes "fetchPage b p = Some (Ok, Some f, b1)"
  shows "fetchPageGuard b p empty_guard = Some (Ok, mk_guard b1 f, b1)"
  using assms by (simp add: fetchPageGuard_def guard_drop_invalid guard_assign_def)

subsection \<open>Properties\<close>

definition sample_pool :: BufferPoolManager where
  "sample_pool = mk_BufferPoolManager 1 one_page_db"

lemma sample_pool_ok: "bpm_ok sample_pool" "dm_pages (bpm_disk sample_pool) 1 \<noteq> None" "dm_room (bpm_disk sample_pool)"
    "pin_of sample_pool p = 0" "pool_size sample_pool = 1" "\<not> fr_valid (frames sample_pool ! 0)" "page_table sample_pool p = None"
  using mk_bpm_ok [OF one_page_db_ok(1), of 1] one_page_db_ok
  by (simp_all add: sample_pool_def dm_pages_def dm_room_def)
    (simp_all add: mk_BufferPoolManager_def default_BufferFrame_def)

text \<open>
  C3. Fetching through the cache: for a page of the database, \<open>fetchPage\<close> either returns a frame
  that holds the page's current contents, pinned once more, or fails with \<open>BufferPoolFull\<close> when
  every frame is pinned, and then nothing changed.  In both cases no page's contents changes,
  even if another page had to be written back and evicted, and no other page's pin count does.
\<close>

theorem fetch_transparent:
  assumes "bpm_ok b" "dm_pages (bpm_disk b) p \<noteq> None"
  shows "(\<exists>f b'. fetchPage b p = Some (Ok, Some f, b') \<and> bpm_ok b' \<and> bpm_content b' = bpm_content b \<and>
      page_table b' p = Some f \<and> bpm_content b p = Some (content (fr_page (frames b' ! f))) \<and>
      pin_of b' = (pin_of b)(p := pin_of b p + 1)) \<or>
    (fetchPage b p = Some (BufferPoolFull, None, b) \<and> page_table b p = None \<and>
      (\<forall>f<pool_size b. fr_valid (frames b ! f) \<and> 0 < pin_count (frames b ! f)))"
proof (cases "page_table b p")
  case None
  then have "pin_of b p = 0" by (simp add: pin_of_def)
  moreover have "bpm_content b' p = Some (content (fr_page (frames b' ! f)))" if "page_table b' p = Some f" for b' f
    using that by (simp add: bpm_content_def)
  ultimately show ?thesis using fetch_miss [OF assms(1) None assms(2)] None by (metis add_0)
next
  case (Some f)
  from fetch_hit [OF assms(1) Some] obtain b' where b': "fetchPage b p = Some (Ok, Some f, b')" "bpm_ok b'"
      "bpm_content b' = bpm_content b" "page_table b' = page_table b" "pin_of b' = (pin_of b)(p := pin_of b p + 1)"
    by blast
  moreover have "bpm_content b' p = Some (content (fr_page (frames b' ! f)))" using Some b'(4) by (simp add: bpm_content_def)
  ultimately show ?thesis using Some by metis
qed

theorem fetch_transparent_witness:
  "\<exists>f b'. fetchPage sample_pool 1 = Some (Ok, Some f, b') \<and> pin_of b' 1 = 1 \<and> bpm_content b' = bpm_content sample_pool"
  using fetch_transparent [OF sample_pool_ok(1,2)] sample_pool_ok(4-6) by auto

text \<open>
  Unpinning: a pinned page gives up one pin; its contents and those of all other pages stay
  what they were, provided the caller declares the page dirty if it changed it (or someone did
  before, or still holds a pin).  A page that is not cached is \<open>NotFound\<close>, one that is not
  pinned \<open>InvalidArg\<close>.
\<close>

theorem unpin_transparent:
  assumes "bpm_ok b"
    and "\<forall>f. page_table b p = Some f \<longrightarrow> dirty \<or> fr_dirty (frames b ! f) \<or> 1 < pin_count (frames b ! f) \<or>
      bpm_content b p = map_option content (dm_pages (bpm_disk b) p)"
  shows "if page_table b p = None then unpinPage b p dirty = Some (NotFound, b)
    else if pin_of b p \<le> 0 then unpinPage b p dirty = Some (InvalidArg, b)
    else \<exists>b'. unpinPage b p dirty = Some (Ok, b') \<and> bpm_ok b' \<and> bpm_content b' = bpm_content b \<and>
      bpm_disk b' = bpm_disk b \<and> pin_of b' = (pin_of b)(p := pin_of b p - 1)"
proof (cases "page_table b p")
  case None
  then show ?thesis by (simp add: unpinPage_def)
next
  case (Some f)
  then have pin: "pin_of b p = pin_count (frames b ! f)" by (simp add: pin_of_def)
  show ?thesis
  proof (cases "pin_of b p \<le> 0")
    case True
    with Some pin show ?thesis by (simp add: unpinPage_def)
  next
    case False
    with unpinPage_spec [OF assms(1) Some, of dirty] assms(2) Some pin show ?thesis by auto
  qed
qed

theorem unpin_transparent_witness:
  "\<exists>f b1 b2. fetchPage sample_pool 1 = Some (Ok, f, b1) \<and> unpinPage b1 1 True = Some (Ok, b2) \<and> pin_of b2 1 = 0"
proof -
  obtain f b1 where f: "fetchPage sample_pool 1 = Some (Ok, Some f, b1)" "bpm_ok b1" "page_table b1 1 = Some f"
      "pin_of b1 = (pin_of sample_pool)(1 := 1)"
    using fetch_miss [OF sample_pool_ok(1,7,2)] sample_pool_ok(5,6) by auto
  then show ?thesis using unpin_transparent [OF f(2), of 1 True] by auto
qed

text \<open>
  A new page: \<open>newPage\<close> either reports \<open>BufferPoolFull\<close> with every frame pinned and nothing
  changed, or adds exactly one page to the database, zeroed, cached and pinned once; every
  other page keeps its contents and its pins.
\<close>

theorem newPage_adds_page:
  assumes "bpm_ok b" "dm_room (bpm_disk b)"
  shows "(\<exists>p f b'. newPage b = Some (Ok, p, Some f, b') \<and> bpm_ok b' \<and> bpm_content b p = None \<and> p \<noteq> kInvalidPageId \<and>
      bpm_content b' = (bpm_content b)(p \<mapsto> content (fr_page (frames b' ! f))) \<and>
      body (fr_page (frames b' ! f)) = replicate kPageBodySize 0 \<and>
      pool_size b' = pool_size b \<and> page_table b' p = Some f \<and> pin_of b' = (pin_of b)(p := 1)) \<or>
    (newPage b = Some (BufferPoolFull, kInvalidPageId, None, b) \<and>
      (\<forall>f<pool_size b. fr_valid (frames b ! f) \<and> 0 < pin_count (frames b ! f)))"
  using newPage_spec [OF assms] .

theorem newPage_adds_page_witness:
  "\<exists>p f b'. newPage sample_pool = Some (Ok, p, Some f, b') \<and> bpm_content sample_pool p = None \<and> pin_of b' p = 1"
  using newPage_adds_page [OF sample_pool_ok(1,3)] sample_pool_ok(5,6) by auto

text \<open>
  C5. A checkpoint: \<open>flushAllPages\<close> succeeds on a working device, changes no page's contents,
  and afterwards the disk holds the current contents of every page that is not pinned or was
  marked dirty.
\<close>

theorem flushAll_durable:
  assumes "bpm_ok b"
  shows "\<exists>b'. flushAllPages b = (Ok, b') \<and> bpm_ok b' \<and> bpm_content b' = bpm_content b \<and> pin_of b' = pin_of b \<and>
    (\<forall>p. bpm_content b p \<noteq> None \<longrightarrow> (pin_of b p = 0 \<or> (\<exists>f. page_table b p = Some f \<and> fr_dirty (frames b ! f))) \<longrightarrow>
       map_option content (dm_pages (bpm_disk b') p) = bpm_content b p)"
  using flushAll_spec [OF assms] .

theorem flushAll_durable_witness:
  "\<exists>b'. flushAllPages sample_pool = (Ok, b') \<and>
     map_option content (dm_pages (bpm_disk b') 1) = bpm_content sample_pool 1"
  using flushAll_durable [OF sample_pool_ok(1)] sample_pool_ok(2,4,7) by (force simp: bpm_content_def)

text \<open>
  C4. Guards balance pins: fetching a page into an empty guard and dropping the guard restores
  every pin count, and everything a client wrote through the guard in between, having marked it
  dirty, is the page's contents afterwards; dropping the guard again does nothing.
\<close>

theorem guard_pin_balance:
  assumes "bpm_ok b" "fetchPage b p = Some (Ok, Some f, b1)" "dm_pages (bpm_disk b) p \<noteq> None" "p \<noteq> kInvalidPageId" "storable pg"
  shows "\<exists>g b2. fetchPageGuard b p empty_guard = Some (Ok, g, b1) \<and> guard_isValid g \<and> g_page_id g = p \<and>
    guard_drop (write_frame_page b1 f pg) (guard_markDirty g) = Some (empty_guard, b2) \<and> bpm_ok b2 \<and>
    pin_of b2 = pin_of b \<and> bpm_content b2 = (bpm_content b)(p \<mapsto> content pg) \<and>
    guard_drop b2 empty_guard = Some (empty_guard, b2)"
proof -
  have "bpm_ok b1 \<and> bpm_content b1 = bpm_content b \<and> page_table b1 p = Some f \<and> pin_of b1 = (pin_of b)(p := pin_of b p + 1)"
  proof (cases "page_table b p")
    case None
    then have "pin_of b p = 0" by (simp add: pin_of_def)
    with fetch_miss [OF assms(1) None assms(3)] assms(2) show ?thesis by auto
  next
    case (Some h)
    with fetch_hit [OF assms(1) Some] assms(2) show ?thesis by auto
  qed
  then have b1: "bpm_ok b1" "bpm_content b1 = bpm_content b" "page_table b1 p = Some f"
    "pin_of b1 = (pin_of b)(p := pin_of b p + 1)" by blast+
  have pid: "fr_page_id (frames b1 ! f) = p" using bpm_okD(5) [OF b1(1,3)] by simp
  have f: "f < pool_size b1" "fr_valid (frames b1 ! f)" using bpm_okD(5) [OF b1(1,3)] by simp_all
  have nn: "0 \<le> pin_of b p"
    using valid_frameD(3) [OF assms(1)] bpm_okD(5) [OF assms(1), of p] by (auto simp: pin_of_def split: option.split)
  then have pin: "0 < pin_count (frames b1 ! f)" using fun_cong [OF b1(4), of p] b1(3) by (simp add: pin_of_def [of b1])
  let ?g = "mk_guard b1 f" and ?b = "write_frame_page b1 f pg"
  have g: "guard_isValid ?g" "g_page_id ?g = p" using pid assms(4) by (simp_all add: guard_isValid_def mk_guard_def)
  note w = write_frame_page_spec [OF b1(1,3) pin assms(5)]
  have w2: "page_table ?b p = Some f" "0 < pin_count (frames ?b ! f)"
    using b1(3) pin bpm_okD(4) [OF b1(1)] f(1) by (simp_all add: write_frame_page_def)
  obtain b2 where b2: "unpinPage ?b p True = Some (Ok, b2)" "bpm_ok b2" "bpm_content b2 = bpm_content ?b"
      "pin_of b2 = (pin_of ?b)(p := pin_of ?b p - 1)"
    using unpinPage_spec [OF w(1) w2, of True] by blast
  have "guard_drop ?b (guard_markDirty ?g) = Some (empty_guard, b2)"
    using g b2(1) by (simp add: guard_drop_def guard_markDirty_def guard_isValid_def)
  moreover have "pin_of b2 = pin_of b" using b2(4) w(3) b1(4) by auto
  ultimately show ?thesis
    using fetchPageGuard_eq [OF assms(2)] g b2 w(2) b1(2) by (intro exI [of _ ?g] exI [of _ b2]) (auto simp: guard_drop_invalid)
qed

theorem guard_pin_balance_witness:
  "\<exists>f b1 g b2. fetchPageGuard sample_pool 1 empty_guard = Some (Ok, g, b1) \<and>
     guard_drop (write_frame_page b1 f default_Page) (guard_markDirty g) = Some (empty_guard, b2) \<and>
     pin_of b2 = pin_of sample_pool \<and> bpm_content b2 1 = Some (content default_Page)"
proof -
  obtain f b1 where f: "fetchPage sample_pool 1 = Some (Ok, Some f, b1)"
    using fetch_miss [OF sample_pool_ok(1,7,2)] sample_pool_ok(5,6) by auto
  have "(1 :: PageId) \<noteq> kInvalidPageId" by (simp add: kInvalidPageId_def)
  from guard_pin_balance [OF sample_pool_ok(1) f sample_pool_ok(2) this storable_default] obtain g b2
    where "fetchPageGuard sample_pool 1 empty_guard = Some (Ok, g, b1)"
      "guard_drop (write_frame_page b1 f default_Page) (guard_markDirty g) = Some (empty_guard, b2)"
      "pin_of b2 = pin_of sample_pool" "bpm_content b2 = (bpm_content sample_pool)(1 \<mapsto> content default_Page)"
    by blast
  then show ?thesis by (intro exI [of _ f] exI [of _ b1] exI [of _ g] exI [of _ b2]) simp
qed

end
