(* ===== verification/Transactions.thy ===== *)
theory Transactions
  imports Pages
begin

text \<open>
  Transactions and their life cycle: \<^verbatim>\<open>include/transaction/transaction.hpp\<close>,
  \<^verbatim>\<open>src/transaction/transaction.cpp\<close> and \<^verbatim>\<open>src/transaction/transaction_manager.cpp\<close>.

  Transaction and time-stamp counters are 64-bit words, so \<open>fetch_add(1)\<close> wraps; the
  results about fresh identifiers state how far the counter may run.  The pointer a
  caller gets from \<open>begin\<close> is the identifier under which the manager owns the object.
\<close>

type_synonym txn_id_t = u64

datatype TransactionState = ACTIVE | COMMITTED | ABORTED

record Transaction =
  txn_id :: txn_id_t
  txn_state :: TransactionState
  begin_ts :: u64
  commit_ts :: u64
  shared_lock_set :: "RID set"
  exclusive_lock_set :: "RID set"

definition mk_Transaction :: "txn_id_t \<Rightarrow> Transaction" where
  "mk_Transaction t = \<lparr>txn_id = t, txn_state = ACTIVE, begin_ts = 0, commit_ts = 0,
     shared_lock_set = {}, exclusive_lock_set = {}\<rparr>"

record TransactionManager =
  next_txn_id :: u64
  active_txns :: "txn_id_t \<Rightarrow> Transaction option"

definition mk_TransactionManager :: TransactionManager where
  "mk_TransactionManager = \<lparr>next_txn_id = 0, active_txns = Map.empty\<rparr>"

definition tm_begin :: "TransactionManager \<Rightarrow> txn_id_t \<times> TransactionManager" where
  "tm_begin tm = (let t = next_txn_id tm;
      txn = (mk_Transaction t)\<lparr>begin_ts := t\<rparr>
    in (t, tm\<lparr>next_txn_id := t + 1, active_txns := (active_txns tm)(t \<mapsto> txn)\<rparr>))"

text \<open>
  \<open>commit\<close> and \<open>abort\<close> erase the object from the map, which destroys it: the second
  component is the state the object had when it was destroyed.  A null pointer is \<open>None\<close>.
\<close>

definition tm_commit ::
  "TransactionManager \<Rightarrow> txn_id_t option \<Rightarrow> TransactionManager \<times> Transaction option" where
  "tm_commit tm txn =
    (case txn of None \<Rightarrow> (tm, None)
     | Some t \<Rightarrow>
       (case active_txns tm t of
          None \<Rightarrow> (tm, None)
        | Some x \<Rightarrow>
            (tm\<lparr>next_txn_id := next_txn_id tm + 1, active_txns := (active_txns tm)(t := None)\<rparr>,
             Some (x\<lparr>txn_state := COMMITTED, commit_ts := next_txn_id tm\<rparr>))))"

definition tm_abort ::
  "TransactionManager \<Rightarrow> txn_id_t option \<Rightarrow> TransactionManager \<times> Transaction option" where
  "tm_abort tm txn =
    (case txn of None \<Rightarrow> (tm, None)
     | Some t \<Rightarrow>
       (case active_txns tm t of
          None \<Rightarrow> (tm, None)
        | Some x \<Rightarrow> (tm\<lparr>active_txns := (active_txns tm)(t := None)\<rparr>,
                     Some (x\<lparr>txn_state := ABORTED\<rparr>))))"

definition getTransaction :: "TransactionManager \<Rightarrow> txn_id_t \<Rightarrow> Transaction option" where
  "getTransaction tm t = active_txns tm t"

definition getActiveTxnCount :: "TransactionManager \<Rightarrow> nat" where
  "getActiveTxnCount tm = card (dom (active_txns tm))"

subsection \<open>The manager as a state machine\<close>

inductive tm_step :: "TransactionManager \<Rightarrow> TransactionManager \<Rightarrow> bool" where
  step_begin: "unat (next_txn_id tm) + 1 < 2 ^ 64 \<Longrightarrow> tm_step tm (snd (tm_begin tm))"
| step_commit: "unat (next_txn_id tm) + 1 < 2 ^ 64 \<Longrightarrow> tm_step tm (fst (tm_commit tm t))"
| step_abort: "tm_step tm (fst (tm_abort tm t))"

text \<open>
  Every active transaction is stored under its own identifier, which is below the
  counter, is \<open>ACTIVE\<close>, reads the snapshot of its identifier and has no commit stamp.
\<close>

definition txn_ok :: "TransactionManager \<Rightarrow> txn_id_t \<Rightarrow> Transaction \<Rightarrow> bool" where
  "txn_ok tm t x = (txn_id x = t \<and> begin_ts x = t \<and> txn_state x = ACTIVE \<and> t < next_txn_id tm)"

definition tm_ok :: "TransactionManager \<Rightarrow> bool" where
  "tm_ok tm = ((\<forall>t x. active_txns tm t = Some x \<longrightarrow> txn_ok tm t x) \<and> finite (dom (active_txns tm)))"

lemma mk_Transaction_simps [simp]:
  "txn_id (mk_Transaction t) = t" "txn_state (mk_Transaction t) = ACTIVE"
  "begin_ts (mk_Transaction t) = 0"
  "shared_lock_set (mk_Transaction t) = {}" "exclusive_lock_set (mk_Transaction t) = {}"
  by (simp_all add: mk_Transaction_def)

lemma less_next:
  fixes n :: u64
  assumes "unat n + 1 < 2 ^ 64"
  shows "unat (n + 1) = unat n + 1" and "n < n + 1" and "t < n \<Longrightarrow> t < n + 1"
proof -
  show 1: "unat (n + 1) = unat n + 1"
    using assms by (simp add: unat_word_ariths)
  then show "n < n + 1" by (simp add: word_less_nat_alt)
  show "t < n \<Longrightarrow> t < n + 1" using 1 by (simp add: word_less_nat_alt)
qed

lemma tm_ok_init: "tm_ok mk_TransactionManager"
  by (simp add: tm_ok_def mk_TransactionManager_def)

lemma tm_begin_ok:
  "\<lbrakk>tm_ok tm; unat (next_txn_id tm) + 1 < 2 ^ 64\<rbrakk> \<Longrightarrow> tm_ok (snd (tm_begin tm))"
  by (auto simp: tm_ok_def tm_begin_def txn_ok_def Let_def less_next)

lemma tm_commit_ok:
  "\<lbrakk>tm_ok tm; unat (next_txn_id tm) + 1 < 2 ^ 64\<rbrakk> \<Longrightarrow> tm_ok (fst (tm_commit tm t))"
  by (auto simp: tm_ok_def tm_commit_def txn_ok_def less_next split: option.splits)

lemma tm_abort_ok: "tm_ok tm \<Longrightarrow> tm_ok (fst (tm_abort tm t))"
  by (auto simp: tm_ok_def tm_abort_def txn_ok_def split: option.splits)

interpretation tms: state_machine "\<lambda>tm. tm = mk_TransactionManager" tm_step tm_ok
proof
  fix s t assume "tm_ok s" "tm_step s t"
  from this(2,1) show "tm_ok t"
    by (cases rule: tm_step.cases) (auto simp: tm_begin_ok tm_commit_ok tm_abort_ok)
qed (simp add: tm_ok_init)

abbreviation tm_reachable :: "TransactionManager \<Rightarrow> bool" where
  "tm_reachable \<equiv> reachable (\<lambda>tm. tm = mk_TransactionManager) tm_step"

text \<open>
  In every state the transaction manager reaches (before its 64-bit counter wraps),
  \<open>begin\<close> returns an identifier no active transaction has, larger than all of theirs, and
  registers an \<open>ACTIVE\<close> transaction under it whose snapshot time stamp is that
  identifier; the other transactions are unchanged.
\<close>

theorem begin_fresh:
  assumes "tm_reachable tm" and "tm_begin tm = (t, tm1)"
  shows "active_txns tm t = None \<and> (\<forall>u \<in> dom (active_txns tm). u < t)
    \<and> getTransaction tm1 t = Some ((mk_Transaction t)\<lparr>begin_ts := t\<rparr>)
    \<and> (\<forall>u. u \<noteq> t \<longrightarrow> getTransaction tm1 u = getTransaction tm u)
    \<and> getActiveTxnCount tm1 = getActiveTxnCount tm + 1"
proof -
  have ok: "tm_ok tm" using assms(1) by (rule tms.reachable_inv)
  have t: "t = next_txn_id tm" and tm1: "tm1 = tm\<lparr>next_txn_id := t + 1,
      active_txns := (active_txns tm)(t \<mapsto> (mk_Transaction t)\<lparr>begin_ts := t\<rparr>)\<rparr>"
    using assms(2) by (auto simp: tm_begin_def Let_def)
  have lt: "\<forall>u \<in> dom (active_txns tm). u < t"
    using ok t by (auto simp: tm_ok_def txn_ok_def)
  then have "t \<notin> dom (active_txns tm)" by blast
  moreover have "finite (dom (active_txns tm))" using ok by (simp add: tm_ok_def)
  ultimately show ?thesis using lt
    by (simp add: tm1 getTransaction_def getActiveTxnCount_def domIff)
qed

text \<open>
  Ending a transaction: \<open>commit\<close> and \<open>abort\<close> of an active transaction remove exactly
  it from the active set, the destroyed object is left \<open>COMMITTED\<close> with a commit stamp
  later than its snapshot, respectively \<open>ABORTED\<close>; a null pointer or a transaction that
  is not active changes nothing.
\<close>

theorem commit_abort_end:
  assumes "tm_reachable tm"
  shows "(case getTransaction tm t of
      None \<Rightarrow> tm_commit tm (Some t) = (tm, None) \<and> tm_abort tm (Some t) = (tm, None)
    | Some x \<Rightarrow> (\<exists>c a. snd (tm_commit tm (Some t)) = Some c \<and> snd (tm_abort tm (Some t)) = Some a
        \<and> txn_state c = COMMITTED \<and> begin_ts c < commit_ts c \<and> txn_state a = ABORTED
        \<and> getTransaction (fst (tm_commit tm (Some t))) = (getTransaction tm)(t := None)
        \<and> getTransaction (fst (tm_abort tm (Some t))) = (getTransaction tm)(t := None)))
    \<and> tm_commit tm None = (tm, None) \<and> tm_abort tm None = (tm, None)"
  using tms.reachable_inv [OF assms]
  by (auto simp: tm_ok_def txn_ok_def tm_commit_def tm_abort_def getTransaction_def fun_eq_iff
      split: option.splits)

lemma tm_reach_begun: "tm_reachable (snd (tm_begin mk_TransactionManager))"
  by (rule reach_step [where s = mk_TransactionManager])
    (auto intro: reach_init step_begin simp: mk_TransactionManager_def)

theorem begin_fresh_witness:
  "active_txns (snd (tm_begin mk_TransactionManager)) 1 = None
    \<and> getActiveTxnCount (snd (tm_begin (snd (tm_begin mk_TransactionManager)))) = 2"
  using begin_fresh [OF tm_reach_begun, of 1 "snd (tm_begin (snd (tm_begin mk_TransactionManager)))"]
  by (simp add: tm_begin_def mk_TransactionManager_def getActiveTxnCount_def)

theorem commit_abort_end_witness:
  "\<exists>c. snd (tm_commit (snd (tm_begin mk_TransactionManager)) (Some 0)) = Some c
    \<and> txn_state c = COMMITTED \<and> begin_ts c < commit_ts c"
  using commit_abort_end [OF tm_reach_begun, of 0]
  by (auto simp: getTransaction_def tm_begin_def mk_TransactionManager_def)

end
