(* ===== verification/LockManager.thy ===== *)
theory LockManager
  imports Transactions
begin

text \<open>
  The two-phase lock manager: \<^verbatim>\<open>include/transaction/lock_manager.hpp\<close> and
  \<^verbatim>\<open>src/transaction/lock_manager.cpp\<close>.

  A lock call runs under the manager's latch up to its \<open>cv.wait\<close>.  It is modelled by
  two functions: the call itself, which ends in \<open>Returned\<close> or \<open>Waiting\<close>, and the
  wake-up, which re-evaluates the wait predicate and either finishes the call or
  stays \<open>Waiting\<close>.  The call runs the wake-up once itself, as \<open>cv.wait\<close> tests its
  predicate first.  The step relation interleaves the calls, wake-ups and unlocks of
  all transactions with changes of any transaction's state; a transaction has at most
  one call in progress.
\<close>

datatype LockMode = SHARED | EXCLUSIVE

record LockRequest =
  req_txn :: txn_id_t
  lock_mode :: LockMode
  granted :: bool

definition mk_LockRequest :: "txn_id_t \<Rightarrow> LockMode \<Rightarrow> LockRequest" where
  "mk_LockRequest t md = \<lparr>req_txn = t, lock_mode = md, granted = False\<rparr>"

record LockRequestQueue =
  request_queue :: "LockRequest list"
  upgrading :: bool
  upgrading_txn :: txn_id_t

definition mk_LockRequestQueue :: LockRequestQueue where
  "mk_LockRequestQueue = \<lparr>request_queue = [], upgrading = False, upgrading_txn = 0\<rparr>"

type_synonym LockTable = "RID \<Rightarrow> LockRequestQueue option"

text \<open>\<open>lock_table_[rid]\<close> creates an empty queue for a record that has none.\<close>

definition queue_of :: "LockTable \<Rightarrow> RID \<Rightarrow> LockRequestQueue" where
  "queue_of tbl rid = (case tbl rid of None \<Rightarrow> mk_LockRequestQueue | Some q \<Rightarrow> q)"

fun shared_scan :: "LockRequest list \<Rightarrow> txn_id_t \<Rightarrow> bool" where
  "shared_scan [] t = False"
| "shared_scan (r # rs) t = (if req_txn r = t then True
     else if lock_mode r = EXCLUSIVE then False else shared_scan rs t)"

definition canGrantShared :: "LockRequestQueue \<Rightarrow> txn_id_t \<Rightarrow> bool" where
  "canGrantShared q t = (if upgrading q \<and> upgrading_txn q \<noteq> t then False
     else shared_scan (request_queue q) t)"

definition canGrantExclusive :: "LockRequestQueue \<Rightarrow> txn_id_t \<Rightarrow> bool" where
  "canGrantExclusive q t =
    (if list_ex (\<lambda>r. req_txn r \<noteq> t \<and> granted r) (request_queue q) then False
     else case request_queue q of [] \<Rightarrow> False | r # _ \<Rightarrow> req_txn r = t)"

text \<open>Updating the first request of a transaction, and erasing it.\<close>

fun update_first :: "(LockRequest \<Rightarrow> LockRequest) \<Rightarrow> txn_id_t \<Rightarrow> LockRequest list \<Rightarrow> LockRequest list" where
  "update_first f t [] = []"
| "update_first f t (r # rs) = (if req_txn r = t then f r # rs else r # update_first f t rs)"

fun erase_first :: "txn_id_t \<Rightarrow> LockRequest list \<Rightarrow> LockRequest list" where
  "erase_first t [] = []"
| "erase_first t (r # rs) = (if req_txn r = t then rs else r # erase_first t rs)"

definition grantLock :: "LockRequestQueue \<Rightarrow> txn_id_t \<Rightarrow> LockRequestQueue" where
  "grantLock q t = q\<lparr>request_queue := update_first (granted_update (\<lambda>_. True)) t (request_queue q)\<rparr>"

definition removeRequest :: "LockRequestQueue \<Rightarrow> txn_id_t \<Rightarrow> LockRequestQueue" where
  "removeRequest q t = q\<lparr>request_queue := erase_first t (request_queue q)\<rparr>"

datatype CallResult = Returned bool | Waiting

definition lockShared_wake ::
  "LockTable \<Rightarrow> Transaction \<Rightarrow> RID \<Rightarrow> CallResult \<times> LockTable \<times> Transaction" where
  "lockShared_wake tbl x rid = (let q = queue_of tbl rid; t = txn_id x in
     if txn_state x = ABORTED then (Returned False, tbl(rid \<mapsto> removeRequest q t), x)
     else if canGrantShared q t then
       (Returned True, tbl(rid \<mapsto> grantLock q t), x\<lparr>shared_lock_set := insert rid (shared_lock_set x)\<rparr>)
     else (Waiting, tbl, x))"

definition lockShared ::
  "LockTable \<Rightarrow> Transaction \<Rightarrow> RID \<Rightarrow> CallResult \<times> LockTable \<times> Transaction" where
  "lockShared tbl x rid =
    (if txn_state x = ABORTED then (Returned False, tbl, x)
     else if rid \<in> shared_lock_set x \<or> rid \<in> exclusive_lock_set x then (Returned True, tbl, x)
     else let q = queue_of tbl rid;
              q1 = q\<lparr>request_queue := request_queue q @ [mk_LockRequest (txn_id x) SHARED]\<rparr>
          in lockShared_wake (tbl(rid \<mapsto> q1)) x rid)"

definition lockExclusive_wake ::
  "LockTable \<Rightarrow> Transaction \<Rightarrow> RID \<Rightarrow> CallResult \<times> LockTable \<times> Transaction" where
  "lockExclusive_wake tbl x rid = (let q = queue_of tbl rid; t = txn_id x in
     if txn_state x = ABORTED then (Returned False, tbl(rid \<mapsto> removeRequest q t), x)
     else if canGrantExclusive q t then
       (Returned True, tbl(rid \<mapsto> grantLock q t), x\<lparr>exclusive_lock_set := insert rid (exclusive_lock_set x)\<rparr>)
     else (Waiting, tbl, x))"

definition lockExclusive ::
  "LockTable \<Rightarrow> Transaction \<Rightarrow> RID \<Rightarrow> CallResult \<times> LockTable \<times> Transaction" where
  "lockExclusive tbl x rid =
    (if txn_state x = ABORTED then (Returned False, tbl, x)
     else if rid \<in> exclusive_lock_set x then (Returned True, tbl, x)
     else if rid \<in> shared_lock_set x then (Returned False, tbl, x\<lparr>txn_state := ABORTED\<rparr>)
     else let q = queue_of tbl rid;
              q1 = q\<lparr>request_queue := request_queue q @ [mk_LockRequest (txn_id x) EXCLUSIVE]\<rparr>
          in lockExclusive_wake (tbl(rid \<mapsto> q1)) x rid)"

definition lockUpgrade_wake ::
  "LockTable \<Rightarrow> Transaction \<Rightarrow> RID \<Rightarrow> CallResult \<times> LockTable \<times> Transaction" where
  "lockUpgrade_wake tbl x rid = (let q = queue_of tbl rid; t = txn_id x in
     if txn_state x = ABORTED then
       (Returned False, tbl(rid \<mapsto> (removeRequest q t)\<lparr>upgrading := False, upgrading_txn := 0\<rparr>), x)
     else if canGrantExclusive q t then
       (Returned True, tbl(rid \<mapsto> (grantLock q t)\<lparr>upgrading := False, upgrading_txn := 0\<rparr>),
        x\<lparr>exclusive_lock_set := insert rid (exclusive_lock_set x)\<rparr>)
     else (Waiting, tbl, x))"

definition lockUpgrade ::
  "LockTable \<Rightarrow> Transaction \<Rightarrow> RID \<Rightarrow> CallResult \<times> LockTable \<times> Transaction" where
  "lockUpgrade tbl x rid =
    (if txn_state x = ABORTED then (Returned False, tbl, x)
     else let q = queue_of tbl rid; tbl1 = tbl(rid \<mapsto> q); t = txn_id x in
       if rid \<notin> shared_lock_set x then (Returned False, tbl1, x\<lparr>txn_state := ABORTED\<rparr>)
       else if upgrading q then (Returned False, tbl1, x\<lparr>txn_state := ABORTED\<rparr>)
       else let q1 = q\<lparr>upgrading := True, upgrading_txn := t,
                request_queue := update_first (\<lambda>r. r\<lparr>lock_mode := EXCLUSIVE, granted := False\<rparr>) t (request_queue q)\<rparr>
            in lockUpgrade_wake (tbl(rid \<mapsto> q1)) (x\<lparr>shared_lock_set := shared_lock_set x - {rid}\<rparr>) rid)"

definition unlock :: "LockTable \<Rightarrow> Transaction \<Rightarrow> RID \<Rightarrow> bool \<times> LockTable \<times> Transaction" where
  "unlock tbl x rid =
    (if rid \<notin> shared_lock_set x \<and> rid \<notin> exclusive_lock_set x then (False, tbl, x)
     else (True, tbl(rid \<mapsto> removeRequest (queue_of tbl rid) (txn_id x)),
           x\<lparr>shared_lock_set := shared_lock_set x - {rid},
             exclusive_lock_set := exclusive_lock_set x - {rid}\<rparr>))"

text \<open>
  \<open>releaseAll\<close> iterates over copies of the two hash sets; their iteration orders are the
  arguments \<open>so\<close> and \<open>eo\<close>.
\<close>

fun unlock_each :: "RID list \<Rightarrow> LockTable \<Rightarrow> Transaction \<Rightarrow> LockTable \<times> Transaction" where
  "unlock_each [] tbl x = (tbl, x)"
| "unlock_each (rid # rids) tbl x = (let (_, tbl1, x1) = unlock tbl x rid in unlock_each rids tbl1 x1)"

definition releaseAll ::
  "RID list \<Rightarrow> RID list \<Rightarrow> LockTable \<Rightarrow> Transaction \<Rightarrow> LockTable \<times> Transaction" where
  "releaseAll so eo tbl x = (let (tbl1, x1) = unlock_each so tbl x in unlock_each eo tbl1 x1)"

subsection \<open>Interleavings\<close>

datatype LockCall = CallShared | CallExclusive | CallUpgrade

record LockSys =
  lock_table :: LockTable
  txn_of :: "txn_id_t \<Rightarrow> Transaction"
  call_of :: "txn_id_t \<Rightarrow> (LockCall \<times> RID) option"

fun enter_call :: "LockCall \<Rightarrow> LockTable \<Rightarrow> Transaction \<Rightarrow> RID \<Rightarrow> CallResult \<times> LockTable \<times> Transaction" where
  "enter_call CallShared = lockShared"
| "enter_call CallExclusive = lockExclusive"
| "enter_call CallUpgrade = lockUpgrade"

fun wake_call :: "LockCall \<Rightarrow> LockTable \<Rightarrow> Transaction \<Rightarrow> RID \<Rightarrow> CallResult \<times> LockTable \<times> Transaction" where
  "wake_call CallShared = lockShared_wake"
| "wake_call CallExclusive = lockExclusive_wake"
| "wake_call CallUpgrade = lockUpgrade_wake"

definition set_txn :: "LockSys \<Rightarrow> txn_id_t \<Rightarrow> LockTable \<Rightarrow> Transaction \<Rightarrow> (LockCall \<times> RID) option \<Rightarrow> LockSys" where
  "set_txn s t tbl x c = \<lparr>lock_table = tbl, txn_of = (txn_of s)(t := x), call_of = (call_of s)(t := c)\<rparr>"

definition after_call :: "LockSys \<Rightarrow> txn_id_t \<Rightarrow> LockCall \<Rightarrow> RID \<Rightarrow> CallResult \<times> LockTable \<times> Transaction \<Rightarrow> LockSys" where
  "after_call s t c rid res = set_txn s t (fst (snd res)) (snd (snd res))
     (if fst res = Waiting then Some (c, rid) else None)"

definition do_enter :: "LockSys \<Rightarrow> txn_id_t \<Rightarrow> LockCall \<Rightarrow> RID \<Rightarrow> LockSys" where
  "do_enter s t c rid = after_call s t c rid (enter_call c (lock_table s) (txn_of s t) rid)"

definition do_wake :: "LockSys \<Rightarrow> txn_id_t \<Rightarrow> LockCall \<Rightarrow> RID \<Rightarrow> LockSys" where
  "do_wake s t c rid = after_call s t c rid (wake_call c (lock_table s) (txn_of s t) rid)"

definition do_unlock :: "LockSys \<Rightarrow> txn_id_t \<Rightarrow> RID \<Rightarrow> LockSys" where
  "do_unlock s t rid = (let (_, tbl, x) = unlock (lock_table s) (txn_of s t) rid in set_txn s t tbl x None)"

definition do_state :: "LockSys \<Rightarrow> txn_id_t \<Rightarrow> TransactionState \<Rightarrow> LockSys" where
  "do_state s t st = s\<lparr>txn_of := (txn_of s)(t := (txn_of s t)\<lparr>txn_state := st\<rparr>)\<rparr>"

inductive lock_step :: "LockSys \<Rightarrow> LockSys \<Rightarrow> bool" where
  step_enter: "call_of s t = None \<Longrightarrow> lock_step s (do_enter s t c rid)"
| step_wake: "call_of s t = Some (c, rid) \<Longrightarrow> lock_step s (do_wake s t c rid)"
| step_unlock: "call_of s t = None \<Longrightarrow> lock_step s (do_unlock s t rid)"
| step_state: "lock_step s (do_state s t st)"

definition lock_init :: "LockSys \<Rightarrow> bool" where
  "lock_init s = (lock_table s = Map.empty \<and> txn_of s = mk_Transaction \<and> call_of s = (\<lambda>_. None))"

abbreviation lock_reachable :: "LockSys \<Rightarrow> bool" where
  "lock_reachable \<equiv> reachable lock_init lock_step"

subsection \<open>What a queue holds\<close>

text \<open>The request of a transaction in a queue: its mode and whether it is granted.\<close>

definition reqs :: "LockRequest list \<Rightarrow> txn_id_t \<Rightarrow> (LockMode \<times> bool) option" where
  "reqs rs = map_of (map (\<lambda>r. (req_txn r, (lock_mode r, granted r))) rs)"

lemma in_ids: "t \<in> req_txn ` set rs \<longleftrightarrow> (\<exists>x \<in> set rs. req_txn x = t)"
  by auto

lemma reqs_simps [simp]:
  "reqs [] = Map.empty"
  "reqs (r # rs) = (reqs rs)(req_txn r \<mapsto> (lock_mode r, granted r))"
  by (simp_all add: reqs_def)

lemma reqs_None: "reqs rs t = None \<longleftrightarrow> t \<notin> req_txn ` set rs"
  by (induction rs) auto

lemma reqs_mem: "distinct (map req_txn rs) \<Longrightarrow>
   reqs rs t = Some (md, g) \<longleftrightarrow> (\<exists>r \<in> set rs. req_txn r = t \<and> lock_mode r = md \<and> granted r = g)"
proof (induction rs)
  case (Cons r rs)
  then have "\<forall>x \<in> set rs. req_txn x \<noteq> req_txn r" by (simp add: in_ids)
  then show ?case using Cons by auto
qed simp

lemma reqs_append_new:
  "reqs rs t = None \<Longrightarrow> reqs (rs @ [mk_LockRequest t md]) = (reqs rs)(t \<mapsto> (md, False))"
  by (induction rs) (auto simp: mk_LockRequest_def fun_eq_iff)

lemma reqs_update_first:
  assumes "\<And>r. req_txn (f r) = req_txn r"
    and "\<And>r. (lock_mode (f r), granted (f r)) = h (lock_mode r, granted r)"
  shows "reqs (update_first f t rs) = (reqs rs)(t := map_option h (reqs rs t))"
  using assms by (induction rs) (auto simp: fun_eq_iff)

lemma reqs_erase_first:
  "distinct (map req_txn rs) \<Longrightarrow> reqs (erase_first t rs) = (reqs rs)(t := None)"
  by (induction rs) (auto simp: fun_eq_iff reqs_None)

lemma update_first_ids:
  "(\<And>r. req_txn (f r) = req_txn r) \<Longrightarrow> map req_txn (update_first f t rs) = map req_txn rs"
  by (induction rs) auto

lemma set_erase_first: "set (erase_first t rs) \<subseteq> set rs"
  by (induction rs) auto

lemma erase_first_distinct:
  "distinct (map req_txn rs) \<Longrightarrow> distinct (map req_txn (erase_first t rs))"
  using set_erase_first by (induction rs) fastforce+

text \<open>A granted exclusive request is at the head of its queue and the only granted one.\<close>

fun excl_ok :: "LockRequest list \<Rightarrow> bool" where
  "excl_ok [] = True"
| "excl_ok (r # rs) = ((\<forall>x \<in> set rs. \<not> (granted x \<and> lock_mode x = EXCLUSIVE))
     \<and> (granted r \<and> lock_mode r = EXCLUSIVE \<longrightarrow> (\<forall>x \<in> set rs. \<not> granted x)))"

lemma mk_LockRequest_simps [simp]:
  "req_txn (mk_LockRequest t md) = t" "lock_mode (mk_LockRequest t md) = md" "\<not> granted (mk_LockRequest t md)"
  by (simp_all add: mk_LockRequest_def)

lemma excl_ok_append: "excl_ok rs \<Longrightarrow> excl_ok (rs @ [mk_LockRequest t md])"
  by (cases rs) (auto simp: mk_LockRequest_def)

lemma excl_ok_tail: "excl_ok (r # rs) \<Longrightarrow> excl_ok rs"
  by (cases rs) auto

lemma excl_ok_erase: "excl_ok rs \<Longrightarrow> excl_ok (erase_first t rs)"
  by (cases rs) (use excl_ok_tail in \<open>auto dest!: subsetD [OF set_erase_first]\<close>)

lemma set_update_first: "x \<in> set (update_first f t rs) \<Longrightarrow> x \<in> set rs \<or> (\<exists>r \<in> set rs. req_txn r = t \<and> x = f r)"
  by (induction rs) (auto split: if_splits)

lemma excl_ok_ungrant:
  "excl_ok rs \<Longrightarrow> excl_ok (update_first (\<lambda>r. r\<lparr>lock_mode := EXCLUSIVE, granted := False\<rparr>) t rs)"
  by (cases rs) (auto dest!: set_update_first)

lemma shared_scan_before:
  "\<lbrakk>shared_scan rs t; reqs rs t = Some (SHARED, g); distinct (map req_txn rs)\<rbrakk> \<Longrightarrow>
   \<exists>as r bs. rs = as @ r # bs \<and> req_txn r = t \<and> lock_mode r = SHARED \<and> (\<forall>a \<in> set as. lock_mode a = SHARED)"
proof (induction rs)
  case (Cons r rs)
  show ?case
  proof (cases "req_txn r = t")
    case True
    then show ?thesis using Cons.prems by (intro exI [of _ "[]"] exI [of _ r] exI [of _ rs]) auto
  next
    case False
    then have "lock_mode r \<noteq> EXCLUSIVE" "shared_scan rs t" "reqs rs t = Some (SHARED, g)"
      using Cons.prems by (auto split: if_splits)
    then obtain as r' bs where "rs = as @ r' # bs" "req_txn r' = t" "lock_mode r' = SHARED"
      "\<forall>a \<in> set as. lock_mode a = SHARED" using Cons by auto
    moreover have "lock_mode r = SHARED" using \<open>lock_mode r \<noteq> EXCLUSIVE\<close> by (cases "lock_mode r") auto
    ultimately show ?thesis by (intro exI [of _ "r # as"]) auto
  qed
qed simp

lemma excl_ok_grant_shared:
  assumes "excl_ok rs" "shared_scan rs t" "reqs rs t = Some (SHARED, g)" "distinct (map req_txn rs)"
  shows "excl_ok (update_first (granted_update (\<lambda>_. True)) t rs)"
proof (cases rs)
  case (Cons r rs')
  obtain as r' bs where d: "rs = as @ r' # bs" "req_txn r' = t" "lock_mode r' = SHARED"
    "\<forall>a \<in> set as. lock_mode a = SHARED" using shared_scan_before [OF assms(2-4)] by blast
  have S: "lock_mode r = SHARED" using d Cons by (cases as) auto
  have "\<forall>x \<in> set rs. req_txn x = t \<longrightarrow> x = r'"
    using assms(4) d by (auto simp: in_ids)
  then show ?thesis using assms(1) S d(3) Cons by (auto dest!: set_update_first)
qed (use assms in simp)

lemma excl_ok_grant_exclusive:
  assumes "canGrantExclusive q t" "distinct (map req_txn (request_queue q))"
  shows "excl_ok (update_first (granted_update (\<lambda>_. True)) t (request_queue q))"
proof -
  obtain r rs where q: "request_queue q = r # rs" and r: "req_txn r = t"
    and "\<forall>x \<in> set (r # rs). req_txn x \<noteq> t \<longrightarrow> \<not> granted x"
    using assms(1) by (auto simp: canGrantExclusive_def list_ex_iff split: if_splits list.splits)
  then have "\<forall>x \<in> set rs. \<not> granted x" using assms(2) by (simp add: in_ids)
  then show ?thesis by (simp add: q r)
qed


subsection \<open>The invariant\<close>

fun call_mode :: "LockCall \<Rightarrow> LockMode" where
  "call_mode CallShared = SHARED"
| "call_mode CallExclusive = EXCLUSIVE"
| "call_mode CallUpgrade = EXCLUSIVE"

text \<open>The request a transaction must have in a record's queue: what its lock sets and its call in progress say.\<close>

definition expected :: "Transaction \<Rightarrow> (LockCall \<times> RID) option \<Rightarrow> RID \<Rightarrow> (LockMode \<times> bool) option" where
  "expected x c rid =
    (if rid \<in> exclusive_lock_set x then Some (EXCLUSIVE, True)
     else if rid \<in> shared_lock_set x then Some (SHARED, True)
     else case c of None \<Rightarrow> None
       | Some (k, r) \<Rightarrow> if r = rid then Some (call_mode k, False) else None)"

definition locks_ok :: "txn_id_t \<Rightarrow> Transaction \<Rightarrow> (LockCall \<times> RID) option \<Rightarrow> bool" where
  "locks_ok t x c = (txn_id x = t \<and> shared_lock_set x \<inter> exclusive_lock_set x = {}
     \<and> (\<forall>k r. c = Some (k, r) \<longrightarrow> r \<notin> shared_lock_set x \<union> exclusive_lock_set x))"

definition queue_ok :: "LockRequestQueue \<Rightarrow> bool" where
  "queue_ok q = (distinct (map req_txn (request_queue q)) \<and> excl_ok (request_queue q))"

definition upgrader :: "LockRequestQueue \<Rightarrow> txn_id_t \<Rightarrow> bool" where
  "upgrader q t = (upgrading q \<and> upgrading_txn q = t)"

definition lock_inv :: "LockSys \<Rightarrow> bool" where
  "lock_inv s = ((\<forall>t. locks_ok t (txn_of s t) (call_of s t))
     \<and> (\<forall>rid. queue_ok (queue_of (lock_table s) rid))
     \<and> (\<forall>rid t. reqs (request_queue (queue_of (lock_table s) rid)) t = expected (txn_of s t) (call_of s t) rid)
     \<and> (\<forall>rid t. upgrader (queue_of (lock_table s) rid) t \<longleftrightarrow> call_of s t = Some (CallUpgrade, rid)))"

lemma queue_of_upd [simp]: "queue_of (tbl(rid \<mapsto> q)) r = (if r = rid then q else queue_of tbl r)"
  by (simp add: queue_of_def)

lemma lock_invD:
  assumes "lock_inv s"
  shows "locks_ok t (txn_of s t) (call_of s t)" "queue_ok (queue_of (lock_table s) rid)"
    "reqs (request_queue (queue_of (lock_table s) rid)) t = expected (txn_of s t) (call_of s t) rid"
    "upgrader (queue_of (lock_table s) rid) t \<longleftrightarrow> call_of s t = Some (CallUpgrade, rid)"
    "txn_id (txn_of s t) = t"
  using assms by (simp_all add: lock_inv_def locks_ok_def)

text \<open>A step of one transaction on one record keeps the invariant if it keeps it there.\<close>

lemma lock_inv_set_txn:
  assumes inv: "lock_inv s" and x: "locks_ok t x c"
    and other: "\<And>r. r \<noteq> rid \<Longrightarrow> expected x c r = expected (txn_of s t) (call_of s t) r
        \<and> (c = Some (CallUpgrade, r) \<longleftrightarrow> call_of s t = Some (CallUpgrade, r))"
    and q: "queue_ok q" "reqs (request_queue q) = (reqs (request_queue (queue_of (lock_table s) rid)))(t := expected x c rid)"
    and up: "\<And>u. upgrader q u \<longleftrightarrow> (if u = t then c = Some (CallUpgrade, rid) else upgrader (queue_of (lock_table s) rid) u)"
  shows "lock_inv (set_txn s t ((lock_table s)(rid \<mapsto> q)) x c)"
  unfolding lock_inv_def set_txn_def
  using x q up other lock_invD [OF inv] by simp

lemma grantLock_ok:
  assumes "queue_ok q" and "canGrantExclusive q t \<or> (shared_scan (request_queue q) t \<and> reqs (request_queue q) t = Some (SHARED, g))"
  shows "queue_ok (grantLock q t)"
    "reqs (request_queue (grantLock q t)) = (reqs (request_queue q))(t := map_option (\<lambda>(md, g). (md, True)) (reqs (request_queue q) t))"
  using assms by (auto simp: queue_ok_def grantLock_def update_first_ids excl_ok_grant_exclusive
      excl_ok_grant_shared intro!: reqs_update_first)

lemma removeRequest_ok:
  assumes "queue_ok q"
  shows "queue_ok (removeRequest q t)"
    "reqs (request_queue (removeRequest q t)) = (reqs (request_queue q))(t := None)"
  using assms by (auto simp: queue_ok_def removeRequest_def erase_first_distinct excl_ok_erase reqs_erase_first)

lemma upgrader_simps [simp]:
  "upgrader (grantLock q t) = upgrader q" "upgrader (removeRequest q t) = upgrader q"
  "upgrader (q\<lparr>upgrading := False, upgrading_txn := n\<rparr>) u = False"
  "upgrader (q\<lparr>request_queue := rs\<rparr>) = upgrader q"
  by (simp_all add: upgrader_def grantLock_def removeRequest_def fun_eq_iff)

lemma queue_ok_flags [simp]:
  "queue_ok (q\<lparr>upgrading := b, upgrading_txn := n\<rparr>) = queue_ok q"
  by (simp add: queue_ok_def)

text \<open>Finishing a waiting call: withdrawn because the transaction was aborted, or granted.\<close>

lemma expected_waiting:
  "\<lbrakk>lock_inv s; call_of s t = Some (c, rid)\<rbrakk> \<Longrightarrow>
   reqs (request_queue (queue_of (lock_table s) rid)) t = Some (call_mode c, False)"
  using lock_invD(1) [of s t] lock_invD(3) [of s rid t] by (auto simp: expected_def locks_ok_def)

lemma lock_inv_withdraw:
  assumes inv: "lock_inv s" and c: "call_of s t = Some (c, rid)"
    and q: "queue_ok q" "reqs (request_queue q) = (reqs (request_queue (queue_of (lock_table s) rid)))(t := None)"
    and up: "\<And>u. upgrader q u \<longleftrightarrow> u \<noteq> t \<and> upgrader (queue_of (lock_table s) rid) u"
  shows "lock_inv (set_txn s t ((lock_table s)(rid \<mapsto> q)) (txn_of s t) None)"
  using lock_invD(1) [OF inv, of t] c q up
  by (intro lock_inv_set_txn [OF inv]) (auto simp: locks_ok_def expected_def)

lemma lock_inv_granted:
  assumes inv: "lock_inv s" and c: "call_of s t = Some (c, rid)"
    and x: "x = (if call_mode c = SHARED then (txn_of s t)\<lparr>shared_lock_set := insert rid (shared_lock_set (txn_of s t))\<rparr>
                 else (txn_of s t)\<lparr>exclusive_lock_set := insert rid (exclusive_lock_set (txn_of s t))\<rparr>)"
    and q: "queue_ok q" "reqs (request_queue q) = (reqs (request_queue (queue_of (lock_table s) rid)))(t \<mapsto> (call_mode c, True))"
    and up: "\<And>u. upgrader q u \<longleftrightarrow> u \<noteq> t \<and> upgrader (queue_of (lock_table s) rid) u"
  shows "lock_inv (set_txn s t ((lock_table s)(rid \<mapsto> q)) x None)"
proof -
  have "call_mode c = SHARED \<or> call_mode c = EXCLUSIVE" by (cases c) auto
  then show ?thesis
    using lock_invD(1) [OF inv, of t] c q up x
    by (intro lock_inv_set_txn [OF inv]) (auto simp: locks_ok_def expected_def)
qed

lemma set_txn_same [simp]: "call_of s t = c \<Longrightarrow> set_txn s t (lock_table s) (txn_of s t) c = s"
  by (simp add: set_txn_def fun_upd_idem)

lemma canGrantShared_scan: "canGrantShared q t \<Longrightarrow> shared_scan (request_queue q) t"
  by (simp add: canGrantShared_def split: if_splits)

lemma wake_shared_inv:
  assumes inv: "lock_inv s" and c: "call_of s t = Some (CallShared, rid)"
  shows "lock_inv (do_wake s t CallShared rid)"
proof -
  note w = expected_waiting [OF assms] and ok = lock_invD(2) [OF inv, of rid]
  note rem = removeRequest_ok [OF ok, of t] and gr = grantLock_ok [OF ok, of t False]
  have nu: "\<not> upgrader (queue_of (lock_table s) rid) t"
    using lock_invD(4) [OF inv, of rid t] c by simp
  show ?thesis
    using inv c w rem gr nu lock_invD(5) [OF inv, of t]
    by (auto simp: do_wake_def after_call_def lockShared_wake_def Let_def
        dest!: canGrantShared_scan intro!: lock_inv_withdraw [OF inv c] lock_inv_granted [OF inv c] split: if_splits)
qed

lemma wake_exclusive_inv:
  assumes inv: "lock_inv s" and c: "call_of s t = Some (CallExclusive, rid)"
  shows "lock_inv (do_wake s t CallExclusive rid)"
proof -
  note w = expected_waiting [OF assms] and ok = lock_invD(2) [OF inv, of rid]
  note rem = removeRequest_ok [OF ok, of t] and gr = grantLock_ok [OF ok, of t False]
  have nu: "\<not> upgrader (queue_of (lock_table s) rid) t"
    using lock_invD(4) [OF inv, of rid t] c by simp
  show ?thesis
    using inv c w rem gr nu lock_invD(5) [OF inv, of t]
    by (auto simp: do_wake_def after_call_def lockExclusive_wake_def Let_def
        intro!: lock_inv_withdraw [OF inv c] lock_inv_granted [OF inv c] split: if_splits)
qed

lemma wake_upgrade_inv:
  assumes inv: "lock_inv s" and c: "call_of s t = Some (CallUpgrade, rid)"
  shows "lock_inv (do_wake s t CallUpgrade rid)"
proof -
  note w = expected_waiting [OF assms] and ok = lock_invD(2) [OF inv, of rid]
  note rem = removeRequest_ok [OF ok, of t] and gr = grantLock_ok [OF ok, of t False]
  have "upgrader (queue_of (lock_table s) rid) t"
    using lock_invD(4) [OF inv, of rid t] c by simp
  then have nu: "upgrader (queue_of (lock_table s) rid) u \<Longrightarrow> u = t" for u
    by (simp add: upgrader_def)
  show ?thesis
    using inv c w rem gr nu lock_invD(5) [OF inv, of t]
    by (auto simp: do_wake_def after_call_def lockUpgrade_wake_def Let_def
        intro!: lock_inv_withdraw [OF inv c] lock_inv_granted [OF inv c] split: if_splits)
qed

lemma wake_inv: "\<lbrakk>lock_inv s; call_of s t = Some (c, rid)\<rbrakk> \<Longrightarrow> lock_inv (do_wake s t c rid)"
  by (cases c) (auto intro: wake_shared_inv wake_exclusive_inv wake_upgrade_inv)


subsection \<open>Entering a call\<close>

text \<open>Joining the queue of a record: the state in which the call then waits.\<close>

lemma lock_inv_join:
  assumes inv: "lock_inv s" and c: "call_of s t = None" and k: "k \<noteq> CallUpgrade"
    and free: "rid \<notin> shared_lock_set (txn_of s t)" "rid \<notin> exclusive_lock_set (txn_of s t)"
    and q: "q = queue_of (lock_table s) rid"
  shows "lock_inv (set_txn s t ((lock_table s)(rid \<mapsto>
      q\<lparr>request_queue := request_queue q @ [mk_LockRequest t (call_mode k)]\<rparr>)) (txn_of s t) (Some (k, rid)))"
proof (rule lock_inv_set_txn [OF inv])
  have none: "reqs (request_queue q) t = None"
    using lock_invD(3) [OF inv, of rid t] c free q by (simp add: expected_def)
  then show "queue_ok (q\<lparr>request_queue := request_queue q @ [mk_LockRequest t (call_mode k)]\<rparr>)"
    using lock_invD(2) [OF inv, of rid] q
    by (auto simp: queue_ok_def excl_ok_append reqs_None)
  show "reqs (request_queue (q\<lparr>request_queue := request_queue q @ [mk_LockRequest t (call_mode k)]\<rparr>)) =
      (reqs (request_queue (queue_of (lock_table s) rid)))(t := expected (txn_of s t) (Some (k, rid)) rid)"
    using none free q by (simp add: reqs_append_new expected_def)
  show "locks_ok t (txn_of s t) (Some (k, rid))"
    using lock_invD(1) [OF inv, of t] free by (auto simp: locks_ok_def)
qed (use c k q lock_invD(4) [OF inv, of rid t] in \<open>auto simp: expected_def\<close>)

lemma lock_inv_start_upgrade:
  assumes inv: "lock_inv s" and c: "call_of s t = None"
    and held: "rid \<in> shared_lock_set (txn_of s t)" and q: "q = queue_of (lock_table s) rid" and nu: "\<not> upgrading q"
  shows "lock_inv (set_txn s t ((lock_table s)(rid \<mapsto> q\<lparr>upgrading := True, upgrading_txn := t,
      request_queue := update_first (\<lambda>r. r\<lparr>lock_mode := EXCLUSIVE, granted := False\<rparr>) t (request_queue q)\<rparr>))
      ((txn_of s t)\<lparr>shared_lock_set := shared_lock_set (txn_of s t) - {rid}\<rparr>) (Some (CallUpgrade, rid)))"
proof (rule lock_inv_set_txn [OF inv])
  have ne: "rid \<notin> exclusive_lock_set (txn_of s t)"
    using lock_invD(1) [OF inv, of t] held by (auto simp: locks_ok_def)
  then have some: "reqs (request_queue q) t = Some (SHARED, True)"
    using lock_invD(3) [OF inv, of rid t] held q by (simp add: expected_def)
  show "queue_ok (q\<lparr>upgrading := True, upgrading_txn := t,
      request_queue := update_first (\<lambda>r. r\<lparr>lock_mode := EXCLUSIVE, granted := False\<rparr>) t (request_queue q)\<rparr>)"
    using lock_invD(2) [OF inv, of rid] q by (simp add: queue_ok_def update_first_ids excl_ok_ungrant)
  have "reqs (update_first (\<lambda>r. r\<lparr>lock_mode := EXCLUSIVE, granted := False\<rparr>) t (request_queue q)) =
      (reqs (request_queue q))(t := map_option (\<lambda>_. (EXCLUSIVE, False)) (reqs (request_queue q) t))"
    by (rule reqs_update_first) auto
  then show "reqs (request_queue (q\<lparr>upgrading := True, upgrading_txn := t,
      request_queue := update_first (\<lambda>r. r\<lparr>lock_mode := EXCLUSIVE, granted := False\<rparr>) t (request_queue q)\<rparr>)) =
      (reqs (request_queue (queue_of (lock_table s) rid)))(t := expected ((txn_of s t)\<lparr>shared_lock_set :=
        shared_lock_set (txn_of s t) - {rid}\<rparr>) (Some (CallUpgrade, rid)) rid)"
    using some q ne by (simp add: expected_def)
  show "locks_ok t ((txn_of s t)\<lparr>shared_lock_set := shared_lock_set (txn_of s t) - {rid}\<rparr>) (Some (CallUpgrade, rid))"
    using lock_invD(1) [OF inv, of t] ne by (auto simp: locks_ok_def)
qed (use c nu q in \<open>auto simp: expected_def upgrader_def\<close>)

text \<open>Changes that touch no lock: another transaction state, an empty queue for an unknown record.\<close>

lemma lock_inv_state: "lock_inv s \<Longrightarrow> lock_inv (do_state s t st)"
  by (simp add: lock_inv_def do_state_def locks_ok_def expected_def)

lemma lock_inv_touch:
  assumes "lock_inv s"
  shows "lock_inv (s\<lparr>lock_table := (lock_table s)(rid \<mapsto> queue_of (lock_table s) rid)\<rparr>)"
proof -
  have "queue_of ((lock_table s)(rid \<mapsto> queue_of (lock_table s) rid)) = queue_of (lock_table s)"
    by (simp add: fun_eq_iff)
  then show ?thesis using assms unfolding lock_inv_def by simp
qed

text \<open>A call that does not return at once joins the queue and tests its predicate.\<close>

definition joined :: "LockSys \<Rightarrow> txn_id_t \<Rightarrow> LockCall \<Rightarrow> RID \<Rightarrow> LockSys" where
  "joined s t k rid = (let q = queue_of (lock_table s) rid in
     set_txn s t ((lock_table s)(rid \<mapsto> q\<lparr>request_queue := request_queue q @ [mk_LockRequest t (call_mode k)]\<rparr>))
       (txn_of s t) (Some (k, rid)))"

definition upgrade_started :: "LockSys \<Rightarrow> txn_id_t \<Rightarrow> RID \<Rightarrow> LockSys" where
  "upgrade_started s t rid = (let q = queue_of (lock_table s) rid in
     set_txn s t ((lock_table s)(rid \<mapsto> q\<lparr>upgrading := True, upgrading_txn := t,
       request_queue := update_first (\<lambda>r. r\<lparr>lock_mode := EXCLUSIVE, granted := False\<rparr>) t (request_queue q)\<rparr>))
       ((txn_of s t)\<lparr>shared_lock_set := shared_lock_set (txn_of s t) - {rid}\<rparr>) (Some (CallUpgrade, rid)))"

definition holds_lock :: "LockSys \<Rightarrow> txn_id_t \<Rightarrow> RID \<Rightarrow> bool" where
  "holds_lock s t rid = (rid \<in> shared_lock_set (txn_of s t) \<or> rid \<in> exclusive_lock_set (txn_of s t))"

lemma do_enter_joins:
  assumes "lock_inv s" "txn_state (txn_of s t) \<noteq> ABORTED" "\<not> holds_lock s t rid" "k \<noteq> CallUpgrade"
  shows "do_enter s t k rid = do_wake (joined s t k rid) t k rid"
  using assms lock_invD(5) [of s t]
  by (cases k) (simp_all add: do_enter_def do_wake_def joined_def after_call_def set_txn_def Let_def
      holds_lock_def lockShared_def lockExclusive_def)

lemma do_enter_upgrades:
  assumes "lock_inv s" "txn_state (txn_of s t) \<noteq> ABORTED" "rid \<in> shared_lock_set (txn_of s t)"
    "\<not> upgrading (queue_of (lock_table s) rid)"
  shows "do_enter s t CallUpgrade rid = do_wake (upgrade_started s t rid) t CallUpgrade rid"
  using assms lock_invD(5) [of s t]
  by (simp add: do_enter_def do_wake_def upgrade_started_def after_call_def set_txn_def Let_def lockUpgrade_def)

lemma call_of_started [simp]:
  "call_of (joined s t k rid) t = Some (k, rid)"
  "call_of (upgrade_started s t rid) t = Some (CallUpgrade, rid)"
  by (simp_all add: joined_def upgrade_started_def set_txn_def Let_def)

lemma enter_joins_inv:
  assumes "lock_inv s" "call_of s t = None" "txn_state (txn_of s t) \<noteq> ABORTED" "\<not> holds_lock s t rid" "k \<noteq> CallUpgrade"
  shows "lock_inv (do_enter s t k rid)"
  using assms lock_inv_join [of s t k rid]
  by (auto simp: do_enter_joins joined_def holds_lock_def Let_def set_txn_def intro!: wake_inv)

lemma enter_upgrade_inv:
  assumes inv: "lock_inv s" and c: "call_of s t = None"
  shows "lock_inv (do_enter s t CallUpgrade rid)"
proof -
  let ?q = "queue_of (lock_table s) rid" and ?x = "txn_of s t"
  consider "txn_state ?x = ABORTED"
    | "txn_state ?x \<noteq> ABORTED" "rid \<notin> shared_lock_set ?x \<or> upgrading ?q"
    | "txn_state ?x \<noteq> ABORTED" "rid \<in> shared_lock_set ?x" "\<not> upgrading ?q" by blast
  then show ?thesis
  proof cases
    case 1
    then show ?thesis using inv c by (simp add: do_enter_def after_call_def lockUpgrade_def)
  next
    case 2
    then have "do_enter s t CallUpgrade rid = do_state (s\<lparr>lock_table := (lock_table s)(rid \<mapsto> ?q)\<rparr>) t ABORTED"
      using c by (auto simp: do_enter_def after_call_def lockUpgrade_def Let_def set_txn_def do_state_def fun_upd_idem)
    then show ?thesis using inv by (simp add: lock_inv_state lock_inv_touch)
  next
    case 3
    then have "lock_inv (upgrade_started s t rid)"
      using lock_inv_start_upgrade [OF inv c _ refl] by (simp add: upgrade_started_def Let_def)
    then show ?thesis using 3 inv by (simp add: do_enter_upgrades wake_inv)
  qed
qed

lemma enter_inv:
  assumes inv: "lock_inv s" and c: "call_of s t = None"
  shows "lock_inv (do_enter s t k rid)"
proof (cases "k = CallUpgrade \<or> (txn_state (txn_of s t) \<noteq> ABORTED \<and> \<not> holds_lock s t rid)")
  case True
  then show ?thesis using enter_upgrade_inv [OF inv c] enter_joins_inv [OF inv c] by (cases "k = CallUpgrade") auto
next
  case False
  then have "do_enter s t k rid = s \<or> do_enter s t k rid = do_state s t ABORTED"
    using c by (cases k) (auto simp: do_enter_def after_call_def lockShared_def lockExclusive_def holds_lock_def
        do_state_def set_txn_def fun_upd_idem)
  then show ?thesis using inv lock_inv_state by metis
qed

lemma unlock_inv:
  assumes inv: "lock_inv s" and c: "call_of s t = None"
  shows "lock_inv (do_unlock s t rid)"
proof (cases "holds_lock s t rid")
  case False
  then show ?thesis using inv c by (simp add: do_unlock_def unlock_def holds_lock_def)
next
  case True
  let ?x = "(txn_of s t)\<lparr>shared_lock_set := shared_lock_set (txn_of s t) - {rid},
             exclusive_lock_set := exclusive_lock_set (txn_of s t) - {rid}\<rparr>"
  have "lock_inv (set_txn s t ((lock_table s)(rid \<mapsto> removeRequest (queue_of (lock_table s) rid) t)) ?x None)"
    using lock_invD(1) [OF inv, of t] lock_invD(4) [OF inv, of rid t] c removeRequest_ok [OF lock_invD(2) [OF inv]]
    by (intro lock_inv_set_txn [OF inv]) (auto simp: locks_ok_def expected_def)
  then show ?thesis using True lock_invD(5) [OF inv, of t]
    by (auto simp: do_unlock_def unlock_def holds_lock_def)
qed

lemma lock_inv_init: "lock_init s \<Longrightarrow> lock_inv s"
  by (simp add: lock_init_def lock_inv_def locks_ok_def queue_of_def mk_LockRequestQueue_def
      queue_ok_def expected_def upgrader_def)

interpretation locks: state_machine lock_init lock_step lock_inv
proof
  fix s u assume "lock_inv s" "lock_step s u"
  from this(2,1) show "lock_inv u"
    by (cases rule: lock_step.cases) (auto intro: enter_inv wake_inv unlock_inv lock_inv_state)
qed (rule lock_inv_init)


subsection \<open>What the invariant gives\<close>

lemma excl_ok_head:
  assumes "excl_ok rs" "distinct (map req_txn rs)" "reqs rs t = Some (EXCLUSIVE, True)"
  shows "\<exists>r rs'. rs = r # rs' \<and> req_txn r = t \<and> lock_mode r = EXCLUSIVE \<and> granted r"
proof -
  have "\<exists>x \<in> set rs. req_txn x = t \<and> lock_mode x = EXCLUSIVE \<and> granted x"
    using assms(2,3) by (simp add: reqs_mem)
  then show ?thesis using assms(1) by (cases rs) auto
qed

lemma excl_ok_unique:
  assumes "excl_ok rs" "distinct (map req_txn rs)" "reqs rs t = Some (EXCLUSIVE, True)" "reqs rs u = Some (md, True)"
  shows "u = t"
proof -
  obtain r rs' where "rs = r # rs'" "req_txn r = t" "lock_mode r = EXCLUSIVE" "granted r"
    using excl_ok_head [OF assms(1-3)] by blast
  moreover have "\<exists>y \<in> set rs. req_txn y = u \<and> granted y"
    using assms(2,4) by (auto simp: reqs_mem)
  ultimately show ?thesis using assms(1) by auto
qed

lemma excl_holder:
  assumes inv: "lock_inv s" and t: "rid \<in> exclusive_lock_set (txn_of s t)"
  shows "\<exists>r rs. request_queue (queue_of (lock_table s) rid) = r # rs \<and> req_txn r = t \<and> lock_mode r = EXCLUSIVE \<and> granted r"
    and "holds_lock s u rid \<Longrightarrow> u = t"
proof -
  let ?rs = "request_queue (queue_of (lock_table s) rid)"
  have r: "reqs ?rs t = Some (EXCLUSIVE, True)"
    using lock_invD(3) [OF inv, of rid t] t by (simp add: expected_def)
  have q: "excl_ok ?rs" "distinct (map req_txn ?rs)"
    using lock_invD(2) [OF inv, of rid] by (simp_all add: queue_ok_def)
  show "\<exists>r rs. ?rs = r # rs \<and> req_txn r = t \<and> lock_mode r = EXCLUSIVE \<and> granted r"
    by (rule excl_ok_head [OF q r])
  assume "holds_lock s u rid"
  then have "\<exists>md. reqs ?rs u = Some (md, True)"
    using lock_invD(3) [OF inv, of rid u] by (auto simp: expected_def holds_lock_def)
  then show "u = t" using excl_ok_unique [OF q r] by blast
qed

lemma unlock_each_reach:
  assumes "lock_reachable s" "call_of s t = None"
  shows "lock_reachable (set_txn s t (fst (unlock_each rids (lock_table s) (txn_of s t)))
      (snd (unlock_each rids (lock_table s) (txn_of s t))) None)"
  using assms
proof (induction rids arbitrary: s)
  case (Cons rid rids)
  let ?s = "do_unlock s t rid"
  obtain b tbl x where u: "unlock (lock_table s) (txn_of s t) rid = (b, tbl, x)"
    by (cases "unlock (lock_table s) (txn_of s t) rid") auto
  have s: "?s = set_txn s t tbl x None" by (simp add: do_unlock_def u)
  have "lock_reachable ?s" using Cons.prems by (blast intro: reach_step step_unlock)
  then have "lock_reachable (set_txn ?s t (fst (unlock_each rids (lock_table ?s) (txn_of ?s t)))
      (snd (unlock_each rids (lock_table ?s) (txn_of ?s t))) None)"
    by (rule Cons.IH) (simp add: s set_txn_def)
  then show ?case by (simp add: s u) (simp add: set_txn_def)
qed simp

lemma unlock_each_sets:
  "shared_lock_set (snd (unlock_each rids tbl x)) = shared_lock_set x - set rids
   \<and> exclusive_lock_set (snd (unlock_each rids tbl x)) = exclusive_lock_set x - set rids"
  by (induction rids arbitrary: tbl x) (auto simp: unlock_def)

lemma releaseAll_reach:
  assumes "lock_reachable s" "call_of s t = None"
    and "releaseAll so eo (lock_table s) (txn_of s t) = (tbl, x)"
  shows "lock_reachable (set_txn s t tbl x None)"
proof -
  define a where "a = unlock_each so (lock_table s) (txn_of s t)"
  define s1 where "s1 = set_txn s t (fst a) (snd a) None"
  have s1: "lock_table s1 = fst a" "txn_of s1 t = snd a" by (simp_all add: s1_def set_txn_def)
  have eq: "(tbl, x) = unlock_each eo (fst a) (snd a)"
    using assms(3) by (simp add: releaseAll_def a_def split: prod.splits)
  have "lock_reachable (set_txn s1 t (fst (unlock_each eo (lock_table s1) (txn_of s1 t)))
      (snd (unlock_each eo (lock_table s1) (txn_of s1 t))) None)"
    using unlock_each_reach [OF assms(1,2), of so]
    by (intro unlock_each_reach) (auto simp: s1_def a_def set_txn_def)
  then have "lock_reachable (set_txn s1 t tbl x None)" unfolding s1 eq [symmetric] by simp
  then show ?thesis by (simp add: s1_def set_txn_def)
qed

subsection \<open>Properties\<close>

text \<open>
  C11. Mutual exclusion.  In every interleaving of lock, upgrade and unlock calls, wake-ups
  and aborts: when a transaction has an exclusive lock on a record, no other
  transaction has any lock on it, and it does not have it in its shared set too.
\<close>

theorem lock_mutual_exclusion:
  assumes "lock_reachable s" and "rid \<in> exclusive_lock_set (txn_of s t)"
  shows "rid \<notin> shared_lock_set (txn_of s t)
    \<and> (\<forall>u. rid \<in> shared_lock_set (txn_of s u) \<union> exclusive_lock_set (txn_of s u) \<longrightarrow> u = t)"
proof -
  have inv: "lock_inv s" using assms(1) by (rule locks.reachable_inv)
  have "\<forall>u. rid \<in> shared_lock_set (txn_of s u) \<union> exclusive_lock_set (txn_of s u) \<longrightarrow> u = t"
    using excl_holder(2) [OF inv assms(2)] by (auto simp: holds_lock_def)
  moreover have "rid \<notin> shared_lock_set (txn_of s t)"
    using lock_invD(1) [OF inv, of t] assms(2) by (auto simp: locks_ok_def)
  ultimately show ?thesis by blast
qed

text \<open>
  The lock table and the transactions agree.  In every reachable state a record is in
  a transaction's shared or exclusive set exactly when its queue has a granted request
  of that transaction and mode, the transaction waits on the record exactly when it has
  a request there that is not granted, and a queue has at most one request per transaction.
\<close>

theorem lock_table_agrees:
  assumes "lock_reachable s"
  shows "(rid \<in> shared_lock_set (txn_of s t) \<longleftrightarrow> (\<exists>r \<in> set (request_queue (queue_of (lock_table s) rid)).
            req_txn r = t \<and> lock_mode r = SHARED \<and> granted r))
    \<and> (rid \<in> exclusive_lock_set (txn_of s t) \<longleftrightarrow> (\<exists>r \<in> set (request_queue (queue_of (lock_table s) rid)).
            req_txn r = t \<and> lock_mode r = EXCLUSIVE \<and> granted r))
    \<and> ((\<exists>c. call_of s t = Some (c, rid)) \<longleftrightarrow> (\<exists>r \<in> set (request_queue (queue_of (lock_table s) rid)).
            req_txn r = t \<and> \<not> granted r))
    \<and> distinct (map req_txn (request_queue (queue_of (lock_table s) rid)))"
proof -
  have inv: "lock_inv s" using assms by (rule locks.reachable_inv)
  let ?rs = "request_queue (queue_of (lock_table s) rid)"
  have d: "distinct (map req_txn ?rs)" using lock_invD(2) [OF inv, of rid] by (simp add: queue_ok_def)
  have e: "reqs ?rs t = expected (txn_of s t) (call_of s t) rid" by (rule lock_invD(3) [OF inv])
  have l: "locks_ok t (txn_of s t) (call_of s t)" by (rule lock_invD(1) [OF inv])
  have "rid \<in> shared_lock_set (txn_of s t) \<longleftrightarrow> reqs ?rs t = Some (SHARED, True)"
    using l by (auto simp: e expected_def locks_ok_def split: option.splits)
  moreover have "rid \<in> exclusive_lock_set (txn_of s t) \<longleftrightarrow> reqs ?rs t = Some (EXCLUSIVE, True)"
    using l by (auto simp: e expected_def locks_ok_def split: option.splits)
  moreover have "(\<exists>c. call_of s t = Some (c, rid)) \<longleftrightarrow> (\<exists>md. reqs ?rs t = Some (md, False))"
    using l by (auto simp: e expected_def locks_ok_def split: option.splits)
  moreover have "(\<exists>md. reqs ?rs t = Some (md, False)) \<longleftrightarrow> (\<exists>r \<in> set ?rs. req_txn r = t \<and> \<not> granted r)"
    by (auto simp: reqs_mem [OF d])
  ultimately show ?thesis using d by (simp add: reqs_mem [OF d])
qed

text \<open>
  C12. No head is stuck.  In a reachable state where no request of a record's queue is
  granted, the transaction at its head waits there, and its wake-up ends the call (with
  the lock, unless the transaction was aborted), provided that no other transaction is
  upgrading its lock on the record.
\<close>

theorem head_request_proceeds:
  assumes "lock_reachable s" and q: "queue_of (lock_table s) rid = q" "request_queue q = r # rs"
    and "\<forall>x \<in> set (request_queue q). \<not> granted x" and "\<not> upgrading q \<or> upgrading_txn q = req_txn r"
  shows "\<exists>c. call_of s (req_txn r) = Some (c, rid)
    \<and> fst (wake_call c (lock_table s) (txn_of s (req_txn r)) rid)
        = Returned (txn_state (txn_of s (req_txn r)) \<noteq> ABORTED)"
proof -
  have inv: "lock_inv s" using assms(1) by (rule locks.reachable_inv)
  have "reqs (request_queue q) (req_txn r) = Some (lock_mode r, False)" using assms(3,4) by simp
  then have "expected (txn_of s (req_txn r)) (call_of s (req_txn r)) rid = Some (lock_mode r, False)"
    using lock_invD(3) [OF inv, of rid "req_txn r"] q(1) by simp
  then obtain c where c: "call_of s (req_txn r) = Some (c, rid)"
    by (auto simp: expected_def split: if_splits option.splits)
  have "canGrantShared q (req_txn r)" "canGrantExclusive q (req_txn r)"
    using assms(3-5) by (auto simp: canGrantShared_def canGrantExclusive_def list_ex_iff)
  then show ?thesis using c lock_invD(5) [OF inv, of "req_txn r"] q(1)
    by (cases c) (simp_all add: lockShared_wake_def lockExclusive_wake_def lockUpgrade_wake_def Let_def)
qed

text \<open>
  \<open>releaseAll\<close> of a transaction with no call in progress, whatever order the two hash
  sets are iterated in, is a sequence of unlock steps that leaves the transaction with no
  lock and no request in any queue, and every other transaction's requests as they were.
\<close>

theorem releaseAll_releases:
  assumes "lock_reachable s" "call_of s t = None"
    and "set so = shared_lock_set (txn_of s t)" "set eo = exclusive_lock_set (txn_of s t)"
    and "releaseAll so eo (lock_table s) (txn_of s t) = (tbl, x)"
  shows "shared_lock_set x = {} \<and> exclusive_lock_set x = {}
    \<and> lock_reachable (set_txn s t tbl x None)
    \<and> (\<forall>rid u. reqs (request_queue (queue_of tbl rid)) u =
         (if u = t then None else reqs (request_queue (queue_of (lock_table s) rid)) u))"
proof -
  let ?s = "set_txn s t tbl x None"
  have reach: "lock_reachable ?s" by (rule releaseAll_reach [OF assms(1,2,5)])
  note inv = locks.reachable_inv [OF assms(1)] and inv1 = locks.reachable_inv [OF reach]
  have x: "x = snd (unlock_each eo (fst (unlock_each so (lock_table s) (txn_of s t))) (snd (unlock_each so (lock_table s) (txn_of s t))))"
    using assms(5) by (simp add: releaseAll_def split: prod.splits)
  have e: "shared_lock_set x = {}" "exclusive_lock_set x = {}"
    using assms(3,4) by (simp_all add: x unlock_each_sets)
  have "reqs (request_queue (queue_of tbl rid)) u =
      (if u = t then None else reqs (request_queue (queue_of (lock_table s) rid)) u)" for rid u
    using lock_invD(3) [OF inv, of rid u] lock_invD(3) [OF inv1, of rid u] e
    by (auto simp: set_txn_def expected_def)
  then show ?thesis using reach e by blast
qed

text \<open>
  An exclusive lock blocks.  While a transaction has an exclusive lock on a record,
  every shared or exclusive lock call of another transaction that is not aborted waits,
  and neither that transaction's locks nor the holder's change.
\<close>

theorem exclusive_lock_blocks:
  assumes "lock_reachable s" "rid \<in> exclusive_lock_set (txn_of s t)"
    and "u \<noteq> t" "call_of s u = None" "txn_state (txn_of s u) \<noteq> ABORTED"
  shows "fst (lockShared (lock_table s) (txn_of s u) rid) = Waiting
    \<and> fst (lockExclusive (lock_table s) (txn_of s u) rid) = Waiting
    \<and> snd (snd (lockShared (lock_table s) (txn_of s u) rid)) = txn_of s u
    \<and> snd (snd (lockExclusive (lock_table s) (txn_of s u) rid)) = txn_of s u"
proof -
  have inv: "lock_inv s" using assms(1) by (rule locks.reachable_inv)
  obtain r rs where r: "request_queue (queue_of (lock_table s) rid) = r # rs" "req_txn r = t"
      "lock_mode r = EXCLUSIVE" "granted r"
    using excl_holder(1) [OF inv assms(2)] by blast
  have "\<not> holds_lock s u rid" using excl_holder(2) [OF inv assms(2)] assms(3) by blast
  then show ?thesis
    using r assms(3,5) lock_invD(5) [OF inv, of u]
    by (auto simp: lockShared_def lockExclusive_def lockShared_wake_def lockExclusive_wake_def Let_def
        holds_lock_def canGrantShared_def canGrantExclusive_def)
qed

subsection \<open>A run of three transactions on one record\<close>

definition rec0 :: RID where "rec0 = mk_RID 1 0"

definition sys0 :: LockSys where
  "sys0 = \<lparr>lock_table = Map.empty, txn_of = mk_Transaction, call_of = \<lambda>_. None\<rparr>"

definition sys1 :: LockSys where "sys1 = do_enter sys0 1 CallExclusive rec0"
definition sys2 :: LockSys where "sys2 = do_enter sys1 2 CallShared rec0"
definition sys3 :: LockSys where "sys3 = do_enter sys2 3 CallShared rec0"
definition sys4 :: LockSys where "sys4 = do_unlock sys3 1 rec0"
definition sys5 :: LockSys where "sys5 = do_wake sys4 3 CallShared rec0"
definition sys6 :: LockSys where "sys6 = do_enter sys5 3 CallUpgrade rec0"

lemmas lock_eval = set_txn_def after_call_def do_enter_def do_wake_def do_unlock_def Let_def
  lockShared_def lockExclusive_def lockUpgrade_def lockShared_wake_def lockExclusive_wake_def
  lockUpgrade_wake_def unlock_def queue_of_def mk_LockRequestQueue_def mk_LockRequest_def
  canGrantShared_def canGrantExclusive_def grantLock_def removeRequest_def mk_Transaction_def

abbreviation queue0 :: "LockRequest list \<Rightarrow> LockRequestQueue" where
  "queue0 rs \<equiv> \<lparr>request_queue = rs, upgrading = False, upgrading_txn = 0\<rparr>"

abbreviation request :: "txn_id_t \<Rightarrow> LockMode \<Rightarrow> bool \<Rightarrow> LockRequest" where
  "request t md g \<equiv> \<lparr>req_txn = t, lock_mode = md, granted = g\<rparr>"

lemma sys1_eq: "sys1 = \<lparr>lock_table = [rec0 \<mapsto> queue0 [request 1 EXCLUSIVE True]],
   txn_of = mk_Transaction(1 := (mk_Transaction 1)\<lparr>exclusive_lock_set := {rec0}\<rparr>), call_of = \<lambda>_. None\<rparr>"
  by (simp add: sys1_def sys0_def lock_eval)

lemma sys2_eq: "sys2 = \<lparr>lock_table = [rec0 \<mapsto> queue0 [request 1 EXCLUSIVE True, request 2 SHARED False]],
   txn_of = mk_Transaction(1 := (mk_Transaction 1)\<lparr>exclusive_lock_set := {rec0}\<rparr>),
   call_of = [2 \<mapsto> (CallShared, rec0)]\<rparr>"
  by (simp add: sys2_def sys1_eq lock_eval fun_eq_iff)

lemma sys3_eq: "sys3 = \<lparr>lock_table = [rec0 \<mapsto> queue0 [request 1 EXCLUSIVE True, request 2 SHARED False, request 3 SHARED False]],
   txn_of = mk_Transaction(1 := (mk_Transaction 1)\<lparr>exclusive_lock_set := {rec0}\<rparr>),
   call_of = [2 \<mapsto> (CallShared, rec0), 3 \<mapsto> (CallShared, rec0)]\<rparr>"
  by (simp add: sys3_def sys2_eq lock_eval fun_eq_iff)

lemma sys4_eq: "sys4 = \<lparr>lock_table = [rec0 \<mapsto> queue0 [request 2 SHARED False, request 3 SHARED False]],
   txn_of = mk_Transaction, call_of = [2 \<mapsto> (CallShared, rec0), 3 \<mapsto> (CallShared, rec0)]\<rparr>"
  by (simp add: sys4_def sys3_eq lock_eval fun_eq_iff)

lemma sys5_eq: "sys5 = \<lparr>lock_table = [rec0 \<mapsto> queue0 [request 2 SHARED False, request 3 SHARED True]],
   txn_of = mk_Transaction(3 := (mk_Transaction 3)\<lparr>shared_lock_set := {rec0}\<rparr>),
   call_of = [2 \<mapsto> (CallShared, rec0)]\<rparr>"
  by (simp add: sys5_def sys4_eq lock_eval fun_eq_iff)

lemma sys6_eq: "sys6 = \<lparr>lock_table = [rec0 \<mapsto> \<lparr>request_queue = [request 2 SHARED False, request 3 EXCLUSIVE False],
     upgrading = True, upgrading_txn = 3\<rparr>],
   txn_of = mk_Transaction, call_of = [2 \<mapsto> (CallShared, rec0), 3 \<mapsto> (CallUpgrade, rec0)]\<rparr>"
  by (simp add: sys6_def sys5_eq lock_eval fun_eq_iff)

lemma sys_reach:
  shows "lock_reachable sys0" "lock_reachable sys1" "lock_reachable sys2" "lock_reachable sys3"
    "lock_reachable sys4" "lock_reachable sys5" "lock_reachable sys6"
proof -
  note st = reach_step [of lock_init lock_step]
  show 0: "lock_reachable sys0" by (rule reach_init) (simp add: lock_init_def sys0_def)
  show 1: "lock_reachable sys1" unfolding sys1_def by (rule st [OF 0 step_enter]) (simp add: sys0_def)
  show 2: "lock_reachable sys2" unfolding sys2_def by (rule st [OF 1 step_enter]) (simp add: sys1_eq)
  show 3: "lock_reachable sys3" unfolding sys3_def by (rule st [OF 2 step_enter]) (simp add: sys2_eq)
  show 4: "lock_reachable sys4" unfolding sys4_def by (rule st [OF 3 step_unlock]) (simp add: sys3_eq)
  show 5: "lock_reachable sys5" unfolding sys5_def by (rule st [OF 4 step_wake]) (simp add: sys4_eq)
  show 6: "lock_reachable sys6" unfolding sys6_def by (rule st [OF 5 step_enter]) (simp add: sys5_eq)
qed

text \<open>
  Upgrading can deadlock two active transactions on one record with no lock granted on
  it.  Two readers queue behind a writer; when it unlocks, the second reader is woken
  first, gets the lock and asks for an upgrade.  The first reader then waits because an
  upgrade is pending, and the upgrade waits because the first reader heads the queue.
\<close>

theorem upgrade_deadlock:
  "lock_reachable sys6
    \<and> list_all (\<lambda>r. \<not> granted r) (request_queue (queue_of (lock_table sys6) rec0))
    \<and> call_of sys6 2 = Some (CallShared, rec0) \<and> call_of sys6 3 = Some (CallUpgrade, rec0)
    \<and> txn_state (txn_of sys6 2) = ACTIVE \<and> txn_state (txn_of sys6 3) = ACTIVE
    \<and> do_wake sys6 2 CallShared rec0 = sys6 \<and> do_wake sys6 3 CallUpgrade rec0 = sys6"
  using sys_reach(7) by (simp add: sys6_eq lock_eval fun_eq_iff)

subsection \<open>The properties at work\<close>

theorem lock_mutual_exclusion_witness:
  "rec0 \<in> exclusive_lock_set (txn_of sys3 1) \<and> rec0 \<notin> shared_lock_set (txn_of sys3 2)"
  using lock_mutual_exclusion [OF sys_reach(4), of rec0 1]
  by (auto simp: sys3_eq)

theorem lock_table_agrees_witness:
  "\<exists>r \<in> set (request_queue (queue_of (lock_table sys5) rec0)). req_txn r = 3 \<and> lock_mode r = SHARED \<and> granted r"
proof -
  have "rec0 \<in> shared_lock_set (txn_of sys5 3)" by (simp add: sys5_eq)
  then show ?thesis using lock_table_agrees [OF sys_reach(6), of rec0 3] by simp
qed

theorem head_request_proceeds_witness:
  "\<exists>c. call_of sys4 2 = Some (c, rec0) \<and> fst (wake_call c (lock_table sys4) (txn_of sys4 2) rec0) = Returned True"
  using head_request_proceeds [OF sys_reach(5), of rec0 "queue0 [request 2 SHARED False, request 3 SHARED False]"
      "request 2 SHARED False" "[request 3 SHARED False]"]
  by (simp add: sys4_eq queue_of_def)

theorem exclusive_lock_blocks_witness:
  "fst (lockExclusive (lock_table sys1) (txn_of sys1 7) rec0) = Waiting"
  using exclusive_lock_blocks [OF sys_reach(2), of rec0 1 7] by (simp add: sys1_eq)

theorem releaseAll_releases_witness:
  "\<exists>tbl x. releaseAll [] [rec0] (lock_table sys3) (txn_of sys3 1) = (tbl, x) \<and> exclusive_lock_set x = {}
    \<and> reqs (request_queue (queue_of tbl rec0)) 1 = None"
proof -
  obtain tbl x where r: "releaseAll [] [rec0] (lock_table sys3) (txn_of sys3 1) = (tbl, x)" by fastforce
  show ?thesis using releaseAll_releases [OF sys_reach(4) _ _ _ r] r by (auto simp: sys3_eq)
qed

end
