(* ===== verification/Mvcc.thy ===== *)
theory Mvcc
  imports Transactions
begin

text \<open>
  Multi-version concurrency control: \<^verbatim>\<open>include/transaction/tuple_version.hpp\<close> and
  \<^verbatim>\<open>src/transaction/mvcc_manager.cpp\<close>.

  A version chain is the list of its nodes from newest to oldest: the \<open>prev\<close> pointers
  are only ever followed, and each node belongs to one chain.  A head pointer that
  \<open>abort\<close> leaves null is the empty chain, which differs from no entry in the map.
  Every operation runs under the manager's latch, so operations interleave as whole steps.
\<close>

record TupleVersion =
  begin_txn_id :: txn_id_t
  end_txn_id :: txn_id_t
  is_committed :: bool
  is_deleted :: bool
  version_data :: "byte list"

definition kTxnIdInfinity :: txn_id_t where "kTxnIdInfinity = 0xFFFFFFFFFFFFFFFF"

definition mk_TupleVersion :: "txn_id_t \<Rightarrow> byte list \<Rightarrow> bool \<Rightarrow> TupleVersion" where
  "mk_TupleVersion t payload deleted = \<lparr>begin_txn_id = t, end_txn_id = kTxnIdInfinity,
     is_committed = False, is_deleted = deleted, version_data = payload\<rparr>"

definition isVisibleTo :: "TupleVersion \<Rightarrow> u64 \<Rightarrow> bool" where
  "isVisibleTo v snapshot_ts =
    (is_committed v \<and> begin_txn_id v \<le> snapshot_ts \<and> snapshot_ts < end_txn_id v)"

type_synonym MvccManager = "RID \<Rightarrow> TupleVersion list option"

definition snapshotOf :: "Transaction \<Rightarrow> u64" where
  "snapshotOf x = begin_ts x"

definition hasWriteConflict :: "TupleVersion option \<Rightarrow> txn_id_t \<Rightarrow> bool" where
  "hasWriteConflict head t = (case head of None \<Rightarrow> False
     | Some h \<Rightarrow> \<not> is_committed h \<and> begin_txn_id h \<noteq> t)"

definition mvcc_insert :: "MvccManager \<Rightarrow> Transaction \<Rightarrow> RID \<Rightarrow> byte list \<Rightarrow> bool \<times> MvccManager" where
  "mvcc_insert m x rid d =
    (let fresh = (True, m(rid \<mapsto> [mk_TupleVersion (txn_id x) d False])) in
     case m rid of
       None \<Rightarrow> fresh
     | Some [] \<Rightarrow> fresh
     | Some (h # _) \<Rightarrow>
         if \<not> is_deleted h then
           (if hasWriteConflict (Some h) (txn_id x) then (False, m)
            else if begin_txn_id h = txn_id x \<and> \<not> is_committed h then (False, m)
            else if is_committed h then (False, m)
            else fresh)
         else fresh)"

definition mvcc_update :: "MvccManager \<Rightarrow> Transaction \<Rightarrow> RID \<Rightarrow> byte list \<Rightarrow> bool \<times> MvccManager" where
  "mvcc_update m x rid d =
    (case m rid of
       None \<Rightarrow> (False, m)
     | Some [] \<Rightarrow> (False, m)
     | Some (h # older) \<Rightarrow>
         if is_deleted h then (False, m)
         else if hasWriteConflict (Some h) (txn_id x) then (False, m)
         else (True, m(rid \<mapsto> mk_TupleVersion (txn_id x) d False # h\<lparr>end_txn_id := txn_id x\<rparr> # older)))"

definition mvcc_remove :: "MvccManager \<Rightarrow> Transaction \<Rightarrow> RID \<Rightarrow> bool \<times> MvccManager" where
  "mvcc_remove m x rid =
    (case m rid of
       None \<Rightarrow> (False, m)
     | Some [] \<Rightarrow> (False, m)
     | Some (h # older) \<Rightarrow>
         if is_deleted h then (False, m)
         else if hasWriteConflict (Some h) (txn_id x) then (False, m)
         else (True, m(rid \<mapsto> mk_TupleVersion (txn_id x) [] True # h\<lparr>end_txn_id := txn_id x\<rparr> # older)))"

definition commit_chain :: "txn_id_t \<Rightarrow> TupleVersion list \<Rightarrow> TupleVersion list" where
  "commit_chain t c = map (\<lambda>v. if begin_txn_id v = t then v\<lparr>is_committed := True\<rparr> else v) c"

definition mvcc_commit :: "MvccManager \<Rightarrow> Transaction \<Rightarrow> MvccManager" where
  "mvcc_commit m x = (\<lambda>rid. map_option (commit_chain (txn_id x)) (m rid))"

definition abort_chain :: "txn_id_t \<Rightarrow> TupleVersion list \<Rightarrow> TupleVersion list" where
  "abort_chain t c = (case filter (\<lambda>v. begin_txn_id v \<noteq> t) c of
     [] \<Rightarrow> []
   | h # older \<Rightarrow> (if end_txn_id h = t then h\<lparr>end_txn_id := kTxnIdInfinity\<rparr> else h) # older)"

definition mvcc_abort :: "MvccManager \<Rightarrow> Transaction \<Rightarrow> MvccManager" where
  "mvcc_abort m x = (\<lambda>rid. map_option (abort_chain (txn_id x)) (m rid))"

fun read_chain :: "u64 \<Rightarrow> txn_id_t \<Rightarrow> TupleVersion list \<Rightarrow> byte list option" where
  "read_chain snap t [] = None"
| "read_chain snap t (v # older) =
    (let own_write = (\<not> is_committed v \<and> begin_txn_id v = t); visible = isVisibleTo v snap in
     if own_write \<or> visible then (if is_deleted v then None else Some (version_data v))
     else read_chain snap t older)"

definition mvcc_read :: "MvccManager \<Rightarrow> Transaction \<Rightarrow> RID \<Rightarrow> byte list option" where
  "mvcc_read m x rid = (case m rid of None \<Rightarrow> None | Some c \<Rightarrow> read_chain (snapshotOf x) (txn_id x) c)"

definition mvcc_exists :: "MvccManager \<Rightarrow> Transaction \<Rightarrow> RID \<Rightarrow> bool" where
  "mvcc_exists m x rid = (mvcc_read m x rid \<noteq> None)"

definition versionCount :: "MvccManager \<Rightarrow> RID \<Rightarrow> nat" where
  "versionCount m rid = (case m rid of None \<Rightarrow> 0 | Some c \<Rightarrow> length c)"

subsection \<open>Chains\<close>

text \<open>The chain of a record, with no entry and a null head read alike by every operation but the map itself.\<close>

definition chain_of :: "MvccManager \<Rightarrow> RID \<Rightarrow> TupleVersion list" where
  "chain_of m rid = (case m rid of None \<Rightarrow> [] | Some c \<Rightarrow> c)"

lemma chain_of_upd [simp]: "chain_of (m(rid \<mapsto> c)) r = (if r = rid then c else chain_of m r)"
  by (simp add: chain_of_def)

lemma mk_TupleVersion_simps [simp]:
  "begin_txn_id (mk_TupleVersion t d b) = t" "end_txn_id (mk_TupleVersion t d b) = kTxnIdInfinity"
  "\<not> is_committed (mk_TupleVersion t d b)" "is_deleted (mk_TupleVersion t d b) = b"
  "version_data (mk_TupleVersion t d b) = d"
  by (simp_all add: mk_TupleVersion_def)

lemma chain_of_commit [simp]: "chain_of (mvcc_commit m x) rid = commit_chain (txn_id x) (chain_of m rid)"
  by (simp add: chain_of_def mvcc_commit_def commit_chain_def split: option.splits)

lemma chain_of_abort [simp]: "chain_of (mvcc_abort m x) rid = abort_chain (txn_id x) (chain_of m rid)"
  by (simp add: chain_of_def mvcc_abort_def abort_chain_def split: option.splits)

lemma read_chain_of: "mvcc_read m x rid = read_chain (snapshotOf x) (txn_id x) (chain_of m rid)"
  by (simp add: mvcc_read_def chain_of_def split: option.splits)

text \<open>
  The three writes on a chain: where they refuse they change nothing; where they succeed
  \<open>insert\<close> starts a new chain and \<open>update\<close> and \<open>remove\<close> close the head and push a version.
\<close>

definition push :: "txn_id_t \<Rightarrow> byte list \<Rightarrow> bool \<Rightarrow> TupleVersion list \<Rightarrow> TupleVersion list" where
  "push t d b c = (case c of [] \<Rightarrow> [] | h # older \<Rightarrow> mk_TupleVersion t d b # h\<lparr>end_txn_id := t\<rparr> # older)"

definition writable :: "txn_id_t \<Rightarrow> TupleVersion list \<Rightarrow> bool" where
  "writable t c = (case c of [] \<Rightarrow> False | h # _ \<Rightarrow> \<not> is_deleted h \<and> (is_committed h \<or> begin_txn_id h = t))"

definition insertable :: "TupleVersion list \<Rightarrow> bool" where
  "insertable c = (case c of [] \<Rightarrow> True | h # _ \<Rightarrow> is_deleted h)"

lemma mvcc_update_chain:
  "mvcc_update m x rid d = (if writable (txn_id x) (chain_of m rid)
     then (True, m(rid \<mapsto> push (txn_id x) d False (chain_of m rid))) else (False, m))"
  by (auto simp: mvcc_update_def writable_def push_def chain_of_def hasWriteConflict_def split: option.splits list.splits)

lemma mvcc_remove_chain:
  "mvcc_remove m x rid = (if writable (txn_id x) (chain_of m rid)
     then (True, m(rid \<mapsto> push (txn_id x) [] True (chain_of m rid))) else (False, m))"
  by (auto simp: mvcc_remove_def writable_def push_def chain_of_def hasWriteConflict_def split: option.splits list.splits)

lemma mvcc_insert_chain:
  "mvcc_insert m x rid d = (if insertable (chain_of m rid)
     then (True, m(rid \<mapsto> [mk_TupleVersion (txn_id x) d False])) else (False, m))"
  by (auto simp: mvcc_insert_def insertable_def chain_of_def hasWriteConflict_def Let_def split: option.splits list.splits)

lemmas write_chains = mvcc_update_chain mvcc_remove_chain mvcc_insert_chain

lemma read_own_push:
  "writable t c \<Longrightarrow> read_chain snap t (push t d b c) = (if b then None else Some d)"
  by (auto simp: writable_def push_def split: list.splits)

text \<open>
  The shape of a chain: every version ends where the next newer one begins, the head never;
  its uncommitted versions are the newest ones and belong to one active transaction, and the
  committed ones belong to transactions that have ended.
\<close>

fun linked :: "txn_id_t \<Rightarrow> TupleVersion list \<Rightarrow> bool" where
  "linked e [] = True"
| "linked e (v # c) = (end_txn_id v = e \<and> linked (begin_txn_id v) c)"

definition owned :: "txn_id_t set \<Rightarrow> TupleVersion list \<Rightarrow> bool" where
  "owned A c = (\<exists>us cs w. c = us @ cs \<and> (\<forall>v \<in> set us. \<not> is_committed v \<and> begin_txn_id v = w \<and> w \<in> A)
     \<and> (\<forall>v \<in> set cs. is_committed v \<and> begin_txn_id v \<notin> A))"

definition chain_ok :: "TransactionManager \<Rightarrow> TupleVersion list \<Rightarrow> bool" where
  "chain_ok tm c = (linked kTxnIdInfinity c \<and> owned (dom (active_txns tm)) c
     \<and> (\<forall>v \<in> set c. begin_txn_id v < next_txn_id tm))"

lemma linked_append: "linked e (us @ cs) \<longleftrightarrow> linked e us \<and> linked (if us = [] then e else begin_txn_id (last us)) cs"
  by (induction us arbitrary: e) auto

lemma linked_tail_end: "linked e c \<Longrightarrow> v \<in> set (tl c) \<Longrightarrow> \<exists>u \<in> set c. end_txn_id v = begin_txn_id u"
proof (induction c arbitrary: e)
  case (Cons u c)
  show ?case
  proof (cases c)
    case Nil
    then show ?thesis using Cons.prems by simp
  next
    case (Cons h c')
    then show ?thesis using Cons.prems Cons.IH [of "begin_txn_id u"] by (cases "v = h") auto
  qed
qed simp

lemma ownedI:
  "\<lbrakk>\<forall>v \<in> set us. \<not> is_committed v \<and> begin_txn_id v = w \<and> w \<in> A; \<forall>v \<in> set cs. is_committed v \<and> begin_txn_id v \<notin> A\<rbrakk>
   \<Longrightarrow> owned A (us @ cs)"
  by (auto simp: owned_def)

lemma owned_writer:
  assumes "owned A c" "v \<in> set c" "\<not> is_committed v"
  shows "begin_txn_id v \<in> A" "u \<in> set c \<Longrightarrow> \<not> is_committed u \<Longrightarrow> begin_txn_id u = begin_txn_id v"
  using assms by (auto simp: owned_def)

lemma owned_push:
  assumes "owned A c" "writable t c" "t \<in> A"
  shows "owned A (push t d b c)"
proof -
  obtain h older where c: "c = h # older" using assms(2) by (cases c) (auto simp: writable_def)
  obtain us cs w where d: "c = us @ cs" "\<forall>v \<in> set us. \<not> is_committed v \<and> begin_txn_id v = w \<and> w \<in> A"
    "\<forall>v \<in> set cs. is_committed v \<and> begin_txn_id v \<notin> A" using assms(1) by (auto simp: owned_def)
  show ?thesis
  proof (cases us)
    case Nil
    then have "push t d b c = [mk_TupleVersion t d b] @ (h\<lparr>end_txn_id := t\<rparr> # older)"
      by (simp add: c push_def)
    moreover have "owned A ([mk_TupleVersion t d b] @ (h\<lparr>end_txn_id := t\<rparr> # older))"
      by (rule ownedI [where w = t]) (use d c Nil assms(3) in auto)
    ultimately show ?thesis by simp
  next
    case (Cons u us')
    then have e: "push t d b c = (mk_TupleVersion t d b # h\<lparr>end_txn_id := t\<rparr> # us') @ cs" and w: "w = t"
      using c d assms(2) by (auto simp: push_def writable_def)
    have "owned A ((mk_TupleVersion t d b # h\<lparr>end_txn_id := t\<rparr> # us') @ cs)"
      by (rule ownedI [where w = t]) (use d c w Cons assms(3) in auto)
    then show ?thesis by (simp add: e)
  qed
qed

lemma linked_push: "linked kTxnIdInfinity c \<Longrightarrow> linked kTxnIdInfinity (push t d b c)"
  by (auto simp: push_def split: list.splits)

lemma chain_ok_push:
  assumes "chain_ok tm c" "writable t c" "t \<in> dom (active_txns tm)" "t < next_txn_id tm"
  shows "chain_ok tm (push t d b c)"
  using assms owned_push linked_push by (auto simp: chain_ok_def push_def split: list.splits)

lemma chain_ok_new: "\<lbrakk>t \<in> dom (active_txns tm); t < next_txn_id tm\<rbrakk> \<Longrightarrow> chain_ok tm [mk_TupleVersion t d b]"
  using ownedI [of "[mk_TupleVersion t d b]" t "dom (active_txns tm)" "[]"] by (simp add: chain_ok_def)

text \<open>Committing and aborting a chain, by who owns its uncommitted versions.\<close>

lemma linked_commit [simp]: "linked e (commit_chain t c) = linked e c"
  by (induction c arbitrary: e) (auto simp: commit_chain_def)

lemma owned_commit:
  assumes "owned A c" "t \<in> A"
  shows "owned (A - {t}) (commit_chain t c)"
proof -
  obtain us cs w where d: "c = us @ cs" "\<forall>v \<in> set us. \<not> is_committed v \<and> begin_txn_id v = w \<and> w \<in> A"
    "\<forall>v \<in> set cs. is_committed v \<and> begin_txn_id v \<notin> A" using assms(1) by (auto simp: owned_def)
  have cs: "commit_chain t cs = cs"
    using d(3) assms(2) by (auto simp: commit_chain_def intro!: map_idI)
  show ?thesis
  proof (cases "w = t")
    case True
    have "owned (A - {t}) ([] @ (commit_chain t us @ cs))"
      by (rule ownedI) (use d True in \<open>auto simp: commit_chain_def\<close>)
    then show ?thesis using cs by (simp add: d(1) commit_chain_def)
  next
    case False
    have us: "commit_chain t us = us" using d(2) False by (auto simp: commit_chain_def intro!: map_idI)
    have "owned (A - {t}) (us @ cs)" by (rule ownedI [where w = w]) (use d False in auto)
    then show ?thesis using us cs by (simp add: d(1) commit_chain_def)
  qed
qed

lemma abort_chain_split:
  assumes "owned A c" "t \<in> A" "linked kTxnIdInfinity c" "t \<noteq> kTxnIdInfinity"
  shows "abort_chain t c = c \<and> (\<forall>v \<in> set c. begin_txn_id v \<noteq> t)
    \<or> (\<exists>us cs. c = us @ cs \<and> us \<noteq> [] \<and> (\<forall>v \<in> set us. begin_txn_id v = t)
         \<and> (\<forall>v \<in> set cs. is_committed v \<and> begin_txn_id v \<notin> A)
         \<and> abort_chain t c = (case cs of [] \<Rightarrow> [] | h # older \<Rightarrow> h\<lparr>end_txn_id := kTxnIdInfinity\<rparr> # older))"
proof -
  obtain us cs w where d: "c = us @ cs" "\<forall>v \<in> set us. \<not> is_committed v \<and> begin_txn_id v = w \<and> w \<in> A"
    "\<forall>v \<in> set cs. is_committed v \<and> begin_txn_id v \<notin> A" using assms(1) by (auto simp: owned_def)
  have fcs: "filter (\<lambda>v. begin_txn_id v \<noteq> t) cs = cs" using d(3) assms(2) by (auto intro!: filter_True)
  show ?thesis
  proof (cases "w = t \<and> us \<noteq> []")
    case True
    then have "filter (\<lambda>v. begin_txn_id v \<noteq> t) us = []" and l: "begin_txn_id (last us) = t"
      using d(2) by auto
    then have f: "filter (\<lambda>v. begin_txn_id v \<noteq> t) c = cs" using fcs d(1) by simp
    have "linked t cs" using assms(3) True l by (simp add: d(1) linked_append)
    then have "abort_chain t c = (case cs of [] \<Rightarrow> [] | h # older \<Rightarrow> h\<lparr>end_txn_id := kTxnIdInfinity\<rparr> # older)"
      by (auto simp: abort_chain_def f split: list.splits)
    then show ?thesis using d True by blast
  next
    case False
    then have n: "\<forall>v \<in> set c. begin_txn_id v \<noteq> t" using d assms(2) by auto
    then have f: "filter (\<lambda>v. begin_txn_id v \<noteq> t) c = c" by (auto intro!: filter_True)
    have "abort_chain t c = c"
      using assms(3,4) by (auto simp: abort_chain_def f split: list.splits)
    then show ?thesis using n by blast
  qed
qed

lemma owned_mono:
  assumes "owned A c" "\<And>v. v \<in> set c \<Longrightarrow> begin_txn_id v \<in> A \<longleftrightarrow> begin_txn_id v \<in> B"
  shows "owned B c"
proof -
  obtain us cs w where d: "c = us @ cs" "\<forall>v \<in> set us. \<not> is_committed v \<and> begin_txn_id v = w \<and> w \<in> A"
    "\<forall>v \<in> set cs. is_committed v \<and> begin_txn_id v \<notin> A" using assms(1) by (auto simp: owned_def)
  show ?thesis unfolding d(1) by (rule ownedI [where w = w]) (use d assms(2) in auto)
qed

lemma abort_chain_ok:
  assumes "owned A c" "t \<in> A" "linked kTxnIdInfinity c" "t \<noteq> kTxnIdInfinity"
  shows "owned (A - {t}) (abort_chain t c)" "linked kTxnIdInfinity (abort_chain t c)"
    "begin_txn_id ` set (abort_chain t c) \<subseteq> begin_txn_id ` set c"
proof -
  consider "abort_chain t c = c" "\<forall>v \<in> set c. begin_txn_id v \<noteq> t"
    | us cs where "c = us @ cs" "us \<noteq> []" "\<forall>v \<in> set us. begin_txn_id v = t"
      "\<forall>v \<in> set cs. is_committed v \<and> begin_txn_id v \<notin> A"
      "abort_chain t c = (case cs of [] \<Rightarrow> [] | h # older \<Rightarrow> h\<lparr>end_txn_id := kTxnIdInfinity\<rparr> # older)"
    using abort_chain_split [OF assms] by blast
  then have "owned (A - {t}) (abort_chain t c) \<and> linked kTxnIdInfinity (abort_chain t c)
    \<and> begin_txn_id ` set (abort_chain t c) \<subseteq> begin_txn_id ` set c"
  proof cases
    case 1
    then show ?thesis using owned_mono [OF assms(1), of "A - {t}"] assms(3) by auto
  next
    case 2
    have "owned (A - {t}) ([] @ abort_chain t c)"
      by (rule ownedI) (use 2 in \<open>auto split: list.splits\<close>)
    moreover have "linked kTxnIdInfinity (abort_chain t c)"
      using assms(3) 2 by (auto simp: linked_append split: list.splits)
    ultimately show ?thesis using 2 by (auto split: list.splits)
  qed
  then show "owned (A - {t}) (abort_chain t c)" "linked kTxnIdInfinity (abort_chain t c)"
    "begin_txn_id ` set (abort_chain t c) \<subseteq> begin_txn_id ` set c" by auto
qed


subsection \<open>Transactions over the version store\<close>

text \<open>
  The transaction manager and the version store run together: a transaction begins, writes
  while it is active, and ends by \<open>MvccManager::commit\<close> (or \<open>abort\<close>) followed by
  \<open>TransactionManager::commit\<close> (or \<open>abort\<close>).  The counter guards keep the 64-bit identifiers
  from wrapping.
\<close>

inductive mvcc_step :: "TransactionManager \<times> MvccManager \<Rightarrow> TransactionManager \<times> MvccManager \<Rightarrow> bool" where
  mv_begin: "unat (next_txn_id tm) + 1 < 2 ^ 64 \<Longrightarrow> mvcc_step (tm, m) (snd (tm_begin tm), m)"
| mv_insert: "getTransaction tm t = Some x \<Longrightarrow> mvcc_step (tm, m) (tm, snd (mvcc_insert m x rid d))"
| mv_update: "getTransaction tm t = Some x \<Longrightarrow> mvcc_step (tm, m) (tm, snd (mvcc_update m x rid d))"
| mv_remove: "getTransaction tm t = Some x \<Longrightarrow> mvcc_step (tm, m) (tm, snd (mvcc_remove m x rid))"
| mv_commit: "\<lbrakk>getTransaction tm t = Some x; unat (next_txn_id tm) + 1 < 2 ^ 64\<rbrakk> \<Longrightarrow>
    mvcc_step (tm, m) (fst (tm_commit tm (Some t)), mvcc_commit m x)"
| mv_abort: "getTransaction tm t = Some x \<Longrightarrow> mvcc_step (tm, m) (fst (tm_abort tm (Some t)), mvcc_abort m x)"

definition mvcc_init :: "TransactionManager \<times> MvccManager \<Rightarrow> bool" where
  "mvcc_init s = (s = (mk_TransactionManager, Map.empty))"

abbreviation mvcc_reachable :: "TransactionManager \<Rightarrow> MvccManager \<Rightarrow> bool" where
  "mvcc_reachable tm m \<equiv> reachable mvcc_init mvcc_step (tm, m)"

definition mvcc_inv :: "TransactionManager \<times> MvccManager \<Rightarrow> bool" where
  "mvcc_inv s = (tm_ok (fst s) \<and> (\<forall>rid. chain_ok (fst s) (chain_of (snd s) rid)))"

lemma infinity_greatest: "n \<le> kTxnIdInfinity"
proof -
  have "kTxnIdInfinity = - 1" by (simp add: kTxnIdInfinity_def)
  then show ?thesis using word_order.extremum [of n] by simp
qed

lemma active_txn:
  assumes "tm_ok tm" "getTransaction tm t = Some x"
  shows "txn_id x = t" "snapshotOf x = t" "t \<in> dom (active_txns tm)" "t < next_txn_id tm" "t \<noteq> kTxnIdInfinity"
proof -
  show *: "txn_id x = t" "snapshotOf x = t" "t \<in> dom (active_txns tm)" "t < next_txn_id tm"
    using assms by (auto simp: tm_ok_def txn_ok_def getTransaction_def snapshotOf_def)
  then show "t \<noteq> kTxnIdInfinity" using infinity_greatest [of "next_txn_id tm"] by auto
qed

lemma chain_ok_begin:
  assumes "tm_ok tm" "chain_ok tm c" "unat (next_txn_id tm) + 1 < 2 ^ 64"
  shows "chain_ok (snd (tm_begin tm)) c"
proof -
  have "owned (insert (next_txn_id tm) (dom (active_txns tm))) c"
    by (rule owned_mono [where A = "dom (active_txns tm)"]) (use assms(2) in \<open>auto simp: chain_ok_def\<close>)
  then show ?thesis using assms by (auto simp: chain_ok_def tm_begin_def Let_def less_next)
qed

lemma chain_ok_commit:
  assumes "tm_ok tm" "getTransaction tm t = Some x" "chain_ok tm c" "unat (next_txn_id tm) + 1 < 2 ^ 64"
  shows "chain_ok (fst (tm_commit tm (Some t))) (commit_chain t c)"
proof -
  have "owned (dom (active_txns tm) - {t}) (commit_chain t c)"
    using owned_commit active_txn(3) [OF assms(1,2)] assms(3) by (auto simp: chain_ok_def)
  moreover have "\<forall>v \<in> set (commit_chain t c). begin_txn_id v < next_txn_id tm + 1"
    using assms(3,4) by (auto simp: chain_ok_def commit_chain_def less_next)
  ultimately show ?thesis using assms(2,3)
    by (simp add: chain_ok_def tm_commit_def getTransaction_def)
qed

lemma chain_ok_abort:
  assumes "tm_ok tm" "getTransaction tm t = Some x" "chain_ok tm c"
  shows "chain_ok (fst (tm_abort tm (Some t))) (abort_chain t c)"
proof -
  have c: "owned (dom (active_txns tm)) c" "linked kTxnIdInfinity c" "\<forall>v \<in> set c. begin_txn_id v < next_txn_id tm"
    using assms(3) by (simp_all add: chain_ok_def)
  note a = active_txn(3,5) [OF assms(1,2)]
  have "\<forall>v \<in> set (abort_chain t c). begin_txn_id v < next_txn_id tm"
    using abort_chain_ok(3) [OF c(1) a(1) c(2) a(2)] c(3) by fastforce
  then show ?thesis using abort_chain_ok(1,2) [OF c(1) a(1) c(2) a(2)] assms(2)
    by (simp add: chain_ok_def tm_abort_def getTransaction_def)
qed

lemma mvcc_inv_write:
  assumes "mvcc_inv (tm, m)" "chain_ok tm c"
  shows "mvcc_inv (tm, m(rid \<mapsto> c))"
  using assms by (simp add: mvcc_inv_def)

lemma mvcc_inv_step: "mvcc_step s u \<Longrightarrow> mvcc_inv s \<Longrightarrow> mvcc_inv u"
proof (induction rule: mvcc_step.induct)
  case (mv_begin tm m)
  then show ?case by (auto simp: mvcc_inv_def tm_begin_ok chain_ok_begin)
next
  case (mv_commit tm t x m)
  then have "tm_ok tm" by (simp add: mvcc_inv_def)
  note a = active_txn(1) [OF this mv_commit.hyps(1)]
  show ?case using mv_commit a chain_ok_commit [of tm t x] by (auto simp: mvcc_inv_def tm_commit_ok)
next
  case (mv_abort tm t x m)
  then have "tm_ok tm" by (simp add: mvcc_inv_def)
  note a = active_txn(1) [OF this mv_abort.hyps(1)]
  show ?case using mv_abort a chain_ok_abort [of tm t x] by (auto simp: mvcc_inv_def tm_abort_ok)
next
  case (mv_insert tm t x m rid d)
  then have "tm_ok tm" by (simp add: mvcc_inv_def)
  note a = active_txn [OF this mv_insert.hyps(1)]
  show ?case using mv_insert a chain_ok_new [of t tm]
    by (auto simp: write_chains intro!: mvcc_inv_write)
next
  case (mv_update tm t x m rid d)
  then have "tm_ok tm" by (simp add: mvcc_inv_def)
  note a = active_txn [OF this mv_update.hyps(1)]
  show ?case using mv_update a chain_ok_push [of tm "chain_of m rid" t]
    by (auto simp: write_chains mvcc_inv_def)
next
  case (mv_remove tm t x m rid)
  then have "tm_ok tm" by (simp add: mvcc_inv_def)
  note a = active_txn [OF this mv_remove.hyps(1)]
  show ?case using mv_remove a chain_ok_push [of tm "chain_of m rid" t]
    by (auto simp: write_chains mvcc_inv_def)
qed

interpretation mvcc: state_machine mvcc_init mvcc_step mvcc_inv
proof
  show "mvcc_inv s" if "mvcc_init s" for s
    using that ownedI [of "[]" 0 "{}" "[]"]
    by (auto simp: mvcc_init_def mvcc_inv_def tm_ok_init chain_of_def chain_ok_def owned_def)
qed (rule mvcc_inv_step)

lemma reachable_mvccD:
  assumes "mvcc_reachable tm m"
  shows "tm_ok tm" "chain_ok tm (chain_of m rid)"
  using mvcc.reachable_inv [OF assms] by (simp_all add: mvcc_inv_def)

subsection \<open>Reading under concurrent writers\<close>

text \<open>A reader whose snapshot is older than the writer sees none of the writer's effects.\<close>

lemma read_older_push:
  assumes "snap < w" "t \<noteq> w" "linked kTxnIdInfinity c" "writable w c" "w < kTxnIdInfinity"
  shows "read_chain snap t (push w d b c) = read_chain snap t c"
  using assms by (auto simp: push_def writable_def isVisibleTo_def split: list.splits)

lemma read_older_commit:
  "\<lbrakk>snap < w; t \<noteq> w\<rbrakk> \<Longrightarrow> read_chain snap t (commit_chain w c) = read_chain snap t c"
  by (induction c) (auto simp: commit_chain_def isVisibleTo_def)

lemma read_filter:
  "\<lbrakk>snap < w; t \<noteq> w\<rbrakk> \<Longrightarrow> read_chain snap t (filter (\<lambda>v. begin_txn_id v \<noteq> w) c) = read_chain snap t c"
  by (induction c) (auto simp: isVisibleTo_def)

lemma read_older_abort:
  assumes "snap < w" "t \<noteq> w" "w < kTxnIdInfinity"
  shows "read_chain snap t (abort_chain w c) = read_chain snap t c"
proof -
  have "read_chain snap t (abort_chain w c) = read_chain snap t (filter (\<lambda>v. begin_txn_id v \<noteq> w) c)"
    using assms by (auto simp: abort_chain_def isVisibleTo_def split: list.splits)
  then show ?thesis using read_filter [OF assms(1,2)] by simp
qed


text \<open>
  What transactions that began after \<open>r\<close> may do: begin, write, commit and abort, without restriction.  The
  set \<open>S\<close> records where one of their inserts succeeds over a record that \<open>r\<close> can read: an insert starts a
  new chain, and where it replaces one (over an uncommitted delete marker or over a committed one) the older
  versions are gone for every reader.
\<close>

inductive later_step :: "txn_id_t \<Rightarrow> RID set \<Rightarrow> TransactionManager \<times> MvccManager \<Rightarrow> TransactionManager \<times> MvccManager \<Rightarrow> bool"
  for r :: txn_id_t and S :: "RID set" where
  lt_begin: "unat (next_txn_id tm) + 1 < 2 ^ 64 \<Longrightarrow> later_step r S (tm, m) (snd (tm_begin tm), m)"
| lt_insert: "\<lbrakk>getTransaction tm w = Some y; r < w; fst (mvcc_insert m y rid d) \<longrightarrow> read_chain r r (chain_of m rid) \<noteq> None \<longrightarrow> rid \<in> S\<rbrakk> \<Longrightarrow>
    later_step r S (tm, m) (tm, snd (mvcc_insert m y rid d))"
| lt_update: "\<lbrakk>getTransaction tm w = Some y; r < w\<rbrakk> \<Longrightarrow> later_step r S (tm, m) (tm, snd (mvcc_update m y rid d))"
| lt_remove: "\<lbrakk>getTransaction tm w = Some y; r < w\<rbrakk> \<Longrightarrow> later_step r S (tm, m) (tm, snd (mvcc_remove m y rid))"
| lt_commit: "\<lbrakk>getTransaction tm w = Some y; r < w; unat (next_txn_id tm) + 1 < 2 ^ 64\<rbrakk> \<Longrightarrow>
    later_step r S (tm, m) (fst (tm_commit tm (Some w)), mvcc_commit m y)"
| lt_abort: "\<lbrakk>getTransaction tm w = Some y; r < w\<rbrakk> \<Longrightarrow>
    later_step r S (tm, m) (fst (tm_abort tm (Some w)), mvcc_abort m y)"

lemma later_step_mvcc: "later_step r S s u \<Longrightarrow> mvcc_step s u"
  by (induction rule: later_step.induct) (auto intro: mvcc_step.intros)

lemma later_step_active:
  "\<lbrakk>later_step r S s u; tm_ok (fst s); getTransaction (fst s) r = Some x\<rbrakk> \<Longrightarrow> getTransaction (fst u) r = Some x"
  by (induction rule: later_step.induct)
    (auto simp: getTransaction_def tm_begin_def tm_commit_def tm_abort_def tm_ok_def txn_ok_def Let_def)

lemma later_step_read:
  assumes "later_step r S s u" "mvcc_inv s" "getTransaction (fst s) r = Some x"
  shows "mvcc_read (snd u) x q = mvcc_read (snd s) x q \<or> q \<in> S \<and> mvcc_read (snd u) x q = None"
  using assms
proof (induction rule: later_step.induct)
  case (lt_begin tm m)
  then show ?case by simp
next
  case (lt_insert tm w y m rid d)
  then have ok: "tm_ok tm" by (simp add: mvcc_inv_def)
  have r: "txn_id x = r" "snapshotOf x = r" using active_txn [OF ok] lt_insert.prems by auto
  have w: "txn_id y = w" using active_txn [OF ok lt_insert.hyps(1)] by auto
  show ?case using lt_insert.hyps r w by (auto simp: write_chains read_chain_of isVisibleTo_def)
next
  case (lt_update tm w y m rid d)
  then have ok: "tm_ok tm" and c: "chain_ok tm (chain_of m rid)" by (simp_all add: mvcc_inv_def)
  have r: "txn_id x = r" "snapshotOf x = r" using active_txn [OF ok] lt_update.prems by auto
  have w: "txn_id y = w" "w < kTxnIdInfinity"
    using active_txn [OF ok lt_update.hyps(1)] infinity_greatest [of w] by auto
  show ?case using lt_update.hyps c r w read_older_push [of r w r "chain_of m rid"]
    by (auto simp: write_chains read_chain_of chain_ok_def)
next
  case (lt_remove tm w y m rid)
  then have ok: "tm_ok tm" and c: "chain_ok tm (chain_of m rid)" by (simp_all add: mvcc_inv_def)
  have r: "txn_id x = r" "snapshotOf x = r" using active_txn [OF ok] lt_remove.prems by auto
  have w: "txn_id y = w" "w < kTxnIdInfinity"
    using active_txn [OF ok lt_remove.hyps(1)] infinity_greatest [of w] by auto
  show ?case using lt_remove.hyps c r w read_older_push [of r w r "chain_of m rid"]
    by (auto simp: write_chains read_chain_of chain_ok_def)
next
  case (lt_commit tm w y m)
  then have ok: "tm_ok tm" by (simp add: mvcc_inv_def)
  have r: "txn_id x = r" "snapshotOf x = r" using active_txn [OF ok] lt_commit.prems by auto
  have w: "txn_id y = w" using active_txn [OF ok lt_commit.hyps(1)] by auto
  show ?case using lt_commit.hyps r w by (simp add: read_chain_of read_older_commit)
next
  case (lt_abort tm w y m)
  then have ok: "tm_ok tm" by (simp add: mvcc_inv_def)
  have r: "txn_id x = r" "snapshotOf x = r" using active_txn [OF ok] lt_abort.prems by auto
  have w: "txn_id y = w" "w < kTxnIdInfinity"
    using active_txn [OF ok lt_abort.hyps(1)] infinity_greatest [of w] by auto
  show ?case using lt_abort.hyps r w by (simp add: read_chain_of read_older_abort)
qed

text \<open>No version but the head is visible to a snapshot past every identifier in the chain.\<close>

lemma read_fresh_none:
  assumes "\<forall>v \<in> set c. end_txn_id v \<le> s \<and> begin_txn_id v \<noteq> s"
  shows "read_chain s s c = None"
  using assms by (induction c) (auto simp: isVisibleTo_def)

lemma read_fresh_chain:
  assumes "linked kTxnIdInfinity c" "\<forall>v \<in> set c. begin_txn_id v < s" "s < kTxnIdInfinity"
  shows "read_chain s s c = (case c of [] \<Rightarrow> None
    | h # _ \<Rightarrow> if is_committed h \<and> \<not> is_deleted h then Some (version_data h) else None)"
proof (cases c)
  case (Cons h older)
  have "\<forall>v \<in> set older. end_txn_id v \<le> s \<and> begin_txn_id v \<noteq> s"
  proof
    fix v assume v: "v \<in> set older"
    then obtain u where "u \<in> set c" "end_txn_id v = begin_txn_id u"
      using linked_tail_end [OF assms(1), of v] Cons by auto
    then show "end_txn_id v \<le> s \<and> begin_txn_id v \<noteq> s" using assms(2) v Cons by auto
  qed
  then have "read_chain s s older = None" by (rule read_fresh_none)
  moreover have "end_txn_id h = kTxnIdInfinity" "begin_txn_id h < s" using assms(1,2) Cons by auto
  ultimately show ?thesis using assms(3) Cons by (auto simp: isVisibleTo_def)
qed simp

subsection \<open>Undoing writes\<close>

datatype MvccWrite = WInsert RID "byte list" | WUpdate RID "byte list" | WRemove RID

fun apply_write :: "Transaction \<Rightarrow> MvccManager \<Rightarrow> MvccWrite \<Rightarrow> MvccManager" where
  "apply_write x m (WInsert rid d) = snd (mvcc_insert m x rid d)"
| "apply_write x m (WUpdate rid d) = snd (mvcc_update m x rid d)"
| "apply_write x m (WRemove rid) = snd (mvcc_remove m x rid)"

definition open_heads :: "MvccManager \<Rightarrow> bool" where
  "open_heads m = (\<forall>rid h older. chain_of m rid = h # older \<longrightarrow> end_txn_id h = kTxnIdInfinity)"

lemma abort_push:
  assumes "writable t c" "end_txn_id (hd c) = kTxnIdInfinity"
  shows "abort_chain t (push t d b c) = abort_chain t c"
proof (cases c)
  case (Cons h older)
  then have "h\<lparr>end_txn_id := kTxnIdInfinity\<rparr> = h" using assms(2) by simp
  then show ?thesis using Cons by (auto simp: push_def abort_chain_def)
qed (use assms in \<open>simp add: writable_def\<close>)

text \<open>Whether one of the writes is an insert that succeeds over a record that has versions.\<close>

fun reinserts :: "Transaction \<Rightarrow> MvccManager \<Rightarrow> MvccWrite list \<Rightarrow> RID \<Rightarrow> bool" where
  "reinserts x m [] q = False"
| "reinserts x m (w # ws) q = ((case w of WInsert rid d \<Rightarrow> rid = q \<and> chain_of m q \<noteq> [] \<and> fst (mvcc_insert m x q d) | _ \<Rightarrow> False)
     \<or> reinserts x (apply_write x m w) ws q)"

lemma abort_undoes_write:
  assumes "open_heads m"
  shows "open_heads (apply_write x m w)
    \<and> abort_chain (txn_id x) (chain_of (apply_write x m w) q)
      = (if reinserts x m [w] q then [] else abort_chain (txn_id x) (chain_of m q))"
proof (cases w)
  case (WInsert rid d)
  have "abort_chain (txn_id x) [mk_TupleVersion (txn_id x) d False] = []" "abort_chain (txn_id x) [] = []"
    by (simp_all add: abort_chain_def)
  then show ?thesis using assms WInsert by (auto simp: write_chains open_heads_def)
next
  case (WUpdate rid d)
  have "writable (txn_id x) (chain_of m rid) \<Longrightarrow> end_txn_id (hd (chain_of m rid)) = kTxnIdInfinity"
    using assms(1) by (cases "chain_of m rid") (auto simp: open_heads_def writable_def)
  then show ?thesis using assms(1) WUpdate
    by (auto simp: write_chains open_heads_def abort_push) (auto simp: push_def split: list.splits)
next
  case (WRemove rid)
  have "writable (txn_id x) (chain_of m rid) \<Longrightarrow> end_txn_id (hd (chain_of m rid)) = kTxnIdInfinity"
    using assms(1) by (cases "chain_of m rid") (auto simp: open_heads_def writable_def)
  then show ?thesis using assms(1) WRemove
    by (auto simp: write_chains open_heads_def abort_push) (auto simp: push_def split: list.splits)
qed

lemma abort_undoes_writes:
  assumes "open_heads m"
  shows "abort_chain (txn_id x) (chain_of (foldl (apply_write x) m ws) q)
    = (if reinserts x m ws q then [] else abort_chain (txn_id x) (chain_of m q))"
  using assms
proof (induction ws arbitrary: m)
  case (Cons w ws)
  then show ?case using abort_undoes_write [OF Cons.prems, of x w q] by simp
qed simp

lemma abort_chain_foreign:
  assumes "\<forall>v \<in> set c. begin_txn_id v \<noteq> t" "c \<noteq> [] \<Longrightarrow> end_txn_id (hd c) \<noteq> t"
  shows "abort_chain t c = c"
proof -
  have "filter (\<lambda>v. begin_txn_id v \<noteq> t) c = c" using assms(1) by (auto intro!: filter_True)
  then show ?thesis using assms(2) by (auto simp: abort_chain_def split: list.splits)
qed


subsection \<open>Properties\<close>

text \<open>
  C13. Repeatable reads.  Whatever transactions that began after \<open>r\<close> do (begin, write, commit,
  abort, in any order and number), every record reads the same for the active transaction \<open>r\<close>, with
  one exception: a record over which one of them succeeded with an insert (the set \<open>S\<close>) may read as
  absent.  No value that \<open>r\<close> reads ever changes to another value, and nothing absent appears.
\<close>

theorem repeatable_read:
  assumes "mvcc_reachable tm m" "getTransaction tm r = Some x" "(later_step r S)\<^sup>*\<^sup>* (tm, m) (tm1, m1)"
  shows "(rid \<notin> S \<longrightarrow> mvcc_read m1 x rid = mvcc_read m x rid \<and> mvcc_exists m1 x rid = mvcc_exists m x rid)
    \<and> (mvcc_read m1 x rid = mvcc_read m x rid \<or> mvcc_read m1 x rid = None) \<and> getTransaction tm1 r = Some x"
proof -
  have "mvcc_inv s1 \<and> getTransaction (fst s1) r = Some x
      \<and> (mvcc_read (snd s1) x rid = mvcc_read m x rid \<or> rid \<in> S \<and> mvcc_read (snd s1) x rid = None)"
    if "(later_step r S)\<^sup>*\<^sup>* (tm, m) s1" for s1
    using that
  proof (induction rule: rtranclp_induct)
    case base
    then show ?case using mvcc.reachable_inv [OF assms(1)] assms(2) by simp
  next
    case (step s u)
    then have ok: "tm_ok (fst s)" by (simp add: mvcc_inv_def)
    have "mvcc_inv u" using mvcc_inv_step [OF later_step_mvcc [OF step.hyps(2)]] step.IH by blast
    then show ?case
      using step later_step_active [OF step.hyps(2) ok] later_step_read [OF step.hyps(2), of x rid] by auto
  qed
  from this [OF assms(3)] show ?thesis by (simp add: mvcc_exists_def) (metis (lifting))
qed

text \<open>
  The exception is real: a successful insert of another transaction hides the record from the reader,
  whatever it read before.
\<close>

theorem insert_hides_record:
  assumes "mvcc_insert m y rid d = (True, m1)" "txn_id y \<noteq> txn_id x"
  shows "mvcc_read m1 x rid = None"
  using assms by (auto simp: mvcc_insert_chain read_chain_of isVisibleTo_def split: if_splits)

text \<open>
  Read your own writes.  When a write of a transaction succeeds it reads its own new
  value back (nothing after a delete), the versions of other records are untouched, and
  the chain grows by one version (an insert starts a new one); when a write fails nothing changes.
\<close>

theorem read_your_writes:
  "(case mvcc_insert m x rid d of (ok, m1) \<Rightarrow> if ok then mvcc_read m1 x rid = Some d \<and> versionCount m1 rid = 1
        \<and> (\<forall>q. q \<noteq> rid \<longrightarrow> m1 q = m q) else m1 = m)
   \<and> (case mvcc_update m x rid d of (ok, m1) \<Rightarrow> if ok then mvcc_read m1 x rid = Some d
        \<and> versionCount m1 rid = versionCount m rid + 1 \<and> (\<forall>q. q \<noteq> rid \<longrightarrow> m1 q = m q) else m1 = m)
   \<and> (case mvcc_remove m x rid of (ok, m1) \<Rightarrow> if ok then \<not> mvcc_exists m1 x rid
        \<and> versionCount m1 rid = versionCount m rid + 1 \<and> (\<forall>q. q \<noteq> rid \<longrightarrow> m1 q = m q) else m1 = m)"
proof -
  have len: "versionCount m rid = length (chain_of m rid)" for m
    by (simp add: versionCount_def chain_of_def split: option.splits)
  have push: "writable t c \<Longrightarrow> length (push t e b c) = length c + 1" for t e b c
    by (auto simp: push_def writable_def split: list.splits)
  have new: "read_chain s t [mk_TupleVersion t e False] = Some e" for s t e by simp
  show ?thesis
    by (simp add: write_chains read_chain_of len push read_own_push mvcc_exists_def)
qed

text \<open>
  One writer per record.  In every reachable state the uncommitted versions of a record
  belong to one transaction, which is active.  While its version heads the chain, every
  update and delete by another transaction is refused without effect, and so is every
  insert unless that version is a delete marker.
\<close>

theorem single_writer:
  assumes "mvcc_reachable tm m" "chain_of m rid = h # older" "\<not> is_committed h"
  shows "begin_txn_id h \<in> dom (active_txns tm)
    \<and> (\<forall>v \<in> set older. \<not> is_committed v \<longrightarrow> begin_txn_id v = begin_txn_id h)
    \<and> (\<forall>y d. txn_id y \<noteq> begin_txn_id h \<longrightarrow> mvcc_update m y rid d = (False, m) \<and> mvcc_remove m y rid = (False, m)
         \<and> (\<not> is_deleted h \<longrightarrow> mvcc_insert m y rid d = (False, m)))"
proof -
  have o: "owned (dom (active_txns tm)) (chain_of m rid)"
    using reachable_mvccD(2) [OF assms(1), of rid] by (simp add: chain_ok_def)
  have "h \<in> set (chain_of m rid)" using assms(2) by simp
  note own = owned_writer [OF o this assms(3)]
  have "\<forall>v \<in> set older. \<not> is_committed v \<longrightarrow> begin_txn_id v = begin_txn_id h"
    using own(2) assms(2) by simp
  then show ?thesis using own(1) assms(2,3)
    by (auto simp: write_chains writable_def insertable_def)
qed

text \<open>
  What a new transaction reads.  In every reachable state (before the identifiers run
  out) a transaction that begins now reads the newest version of a record if that is
  committed and no delete marker, and otherwise nothing.
\<close>

theorem new_transaction_reads:
  assumes "mvcc_reachable tm m" "unat (next_txn_id tm) + 1 < 2 ^ 64"
    and "tm_begin tm = (s, tm1)" "getTransaction tm1 s = Some x"
  shows "mvcc_read m x rid = (case chain_of m rid of [] \<Rightarrow> None
    | h # _ \<Rightarrow> if is_committed h \<and> \<not> is_deleted h then Some (version_data h) else None)"
proof -
  have c: "linked kTxnIdInfinity (chain_of m rid)" "\<forall>v \<in> set (chain_of m rid). begin_txn_id v < s"
    using reachable_mvccD(2) [OF assms(1), of rid] assms(3) by (auto simp: chain_ok_def tm_begin_def Let_def)
  have x: "txn_id x = s" "snapshotOf x = s"
    using assms(3,4) by (auto simp: tm_begin_def Let_def getTransaction_def snapshotOf_def)
  have "s < s + 1" using assms(2,3) less_next(2) by (auto simp: tm_begin_def Let_def)
  then have "s < kTxnIdInfinity" using infinity_greatest [of "s + 1"] by simp
  then show ?thesis using read_fresh_chain [OF c] x by (simp add: read_chain_of)
qed

text \<open>
  C14. Abort undoes.  Take any active transaction in any reachable state, whatever it has written before,
  run any sequence of its inserts, updates and deletes, and abort it: every version chain is what aborting
  before these writes would have left, and exactly what it was if the transaction had no version in it.  The
  only exception is a record that had versions and over which one of the inserts succeeded (\<open>reinserts\<close>: after
  the transaction's own delete, or over a committed delete marker): such a record is left without any version.
\<close>

theorem abort_undoes:
  assumes "mvcc_reachable tm m" "getTransaction tm t = Some x"
  shows "chain_of (mvcc_abort (foldl (apply_write x) m ws) x) rid
      = (if reinserts x m ws rid then [] else chain_of (mvcc_abort m x) rid)
    \<and> ((\<forall>v \<in> set (chain_of m rid). begin_txn_id v \<noteq> t) \<longrightarrow> chain_of (mvcc_abort m x) rid = chain_of m rid)"
proof -
  note a = active_txn [OF reachable_mvccD(1) [OF assms(1)] assms(2)]
  have l: "linked kTxnIdInfinity (chain_of m q)" for q
    using reachable_mvccD(2) [OF assms(1), of q] by (simp add: chain_ok_def)
  have open_hd: "end_txn_id h = kTxnIdInfinity" if "chain_of m q = h # older" for q h older
    using l [of q] that by simp
  then have "open_heads m" by (simp add: open_heads_def)
  moreover have "abort_chain t (chain_of m q) = chain_of m q" if "\<forall>v \<in> set (chain_of m q). begin_txn_id v \<noteq> t" for q
    by (rule abort_chain_foreign [OF that]) (use open_hd a(5) in \<open>auto simp: neq_Nil_conv\<close>)
  ultimately show ?thesis using abort_undoes_writes [of m x ws rid] a(1) by simp
qed

text \<open>
  An aborted delete-and-reinsert loses a committed record.  When a transaction deletes a
  committed record, inserts it again and aborts, both writes succeed and no version of
  the record is left: the insert replaced the chain that \<open>abort\<close> would restore.
\<close>

theorem reinsert_abort_loses_record:
  assumes "chain_of m rid = h # older" "is_committed h" "\<not> is_deleted h"
  shows "(case mvcc_remove m x rid of (ok1, m1) \<Rightarrow> (case mvcc_insert m1 x rid d of (ok2, m2) \<Rightarrow>
      ok1 \<and> ok2 \<and> versionCount (mvcc_abort m2 x) rid = 0))"
  using assms by (simp add: write_chains writable_def insertable_def push_def mvcc_abort_def
      abort_chain_def versionCount_def)


subsection \<open>A run: one committed record, two active transactions\<close>

definition rec1 :: RID where "rec1 = mk_RID 1 0"

definition version1 :: TupleVersion where
  "version1 = \<lparr>begin_txn_id = 0, end_txn_id = kTxnIdInfinity, is_committed = True, is_deleted = False, version_data = [1]\<rparr>"

definition txn_at :: "txn_id_t \<Rightarrow> Transaction" where
  "txn_at t = (mk_Transaction t)\<lparr>begin_ts := t\<rparr>"

definition tm_run :: TransactionManager where
  "tm_run = \<lparr>next_txn_id = 4, active_txns = [2 \<mapsto> txn_at 2, 3 \<mapsto> txn_at 3]\<rparr>"

definition store_run :: MvccManager where "store_run = [rec1 \<mapsto> [version1]]"

lemma txn_at_simps [simp]: "txn_id (txn_at t) = t" "snapshotOf (txn_at t) = t" "begin_ts (txn_at t) = t"
  by (simp_all add: txn_at_def snapshotOf_def)

lemma tm_run_txns [simp]: "getTransaction tm_run 2 = Some (txn_at 2)" "getTransaction tm_run 3 = Some (txn_at 3)"
  "next_txn_id tm_run = 4" "unat (next_txn_id tm_run) + 1 < 2 ^ 64"
  by (simp_all add: tm_run_def getTransaction_def)

lemma chain_run [simp]: "chain_of store_run rec1 = [version1]" "rid \<noteq> rec1 \<Longrightarrow> chain_of store_run rid = []"
  by (simp_all add: store_run_def chain_of_def)

lemma version1_simps [simp]:
  "begin_txn_id version1 = 0" "end_txn_id version1 = kTxnIdInfinity" "is_committed version1"
  "\<not> is_deleted version1" "version_data version1 = [1]"
  by (simp_all add: version1_def)

lemma run_reachable: "mvcc_reachable tm_run store_run"
proof -
  let ?t0 = "mk_TransactionManager"
  let ?t1 = "snd (tm_begin ?t0)"
  let ?t2 = "fst (tm_commit ?t1 (Some 0))"
  let ?t3 = "snd (tm_begin ?t2)"
  let ?m1 = "snd (mvcc_insert Map.empty (txn_at 0) rec1 [1])"
  note st = reach_step [of mvcc_init mvcc_step]
  have x: "getTransaction ?t1 0 = Some (txn_at 0)"
    by (simp add: tm_begin_def mk_TransactionManager_def getTransaction_def txn_at_def)
  have n: "next_txn_id ?t0 = 0" "next_txn_id ?t1 = 1" "next_txn_id ?t2 = 2" "next_txn_id ?t3 = 3"
    by (simp_all add: tm_begin_def tm_commit_def mk_TransactionManager_def)
  have "mvcc_reachable ?t0 Map.empty" by (rule reach_init) (simp add: mvcc_init_def)
  then have "mvcc_reachable ?t1 Map.empty" by (rule st [OF _ mv_begin]) (simp add: n)
  then have "mvcc_reachable ?t1 ?m1" by (rule st [OF _ mv_insert]) (rule x)
  then have "mvcc_reachable ?t2 (mvcc_commit ?m1 (txn_at 0))" by (rule st [OF _ mv_commit]) (simp_all add: n x)
  then have "mvcc_reachable ?t3 (mvcc_commit ?m1 (txn_at 0))" by (rule st [OF _ mv_begin]) (simp add: n)
  then have "mvcc_reachable (snd (tm_begin ?t3)) (mvcc_commit ?m1 (txn_at 0))" by (rule st [OF _ mv_begin]) (simp add: n)
  moreover have "snd (tm_begin ?t3) = tm_run"
    by (simp add: tm_begin_def tm_commit_def mk_TransactionManager_def tm_run_def txn_at_def)
  moreover have "mvcc_commit ?m1 (txn_at 0) = store_run"
    by (simp add: mvcc_insert_def mvcc_commit_def commit_chain_def store_run_def mk_TupleVersion_def version1_def fun_eq_iff)
  ultimately show ?thesis by simp
qed

text \<open>
  Snapshots do not hold against older writers.  In a reachable state with one committed
  record and two active transactions 2 and 3, transaction 3 reads the record; after
  transaction 2 updates it without committing, transaction 3 reads nothing, and after it
  commits, transaction 3 reads the new value.
\<close>

theorem older_writer_changes_snapshot:
  "mvcc_reachable tm_run store_run
    \<and> mvcc_read store_run (txn_at 3) rec1 = Some [1]
    \<and> mvcc_read (snd (mvcc_update store_run (txn_at 2) rec1 [9])) (txn_at 3) rec1 = None
    \<and> mvcc_read (mvcc_commit (snd (mvcc_update store_run (txn_at 2) rec1 [9])) (txn_at 2)) (txn_at 3) rec1 = Some [9]"
  using run_reachable
  by (simp add: read_chain_of write_chains writable_def push_def isVisibleTo_def commit_chain_def kTxnIdInfinity_def)

theorem repeatable_read_witness:
  "mvcc_read (snd (mvcc_update store_run (txn_at 3) rec1 [9])) (txn_at 2) rec1 = Some [1]"
proof -
  have "later_step 2 {} (tm_run, store_run) (tm_run, snd (mvcc_update store_run (txn_at 3) rec1 [9]))"
    by (rule lt_update [of _ 3]) simp_all
  then have s: "(later_step 2 {})\<^sup>*\<^sup>* (tm_run, store_run) (tm_run, snd (mvcc_update store_run (txn_at 3) rec1 [9]))" ..
  show ?thesis using repeatable_read [OF run_reachable tm_run_txns(1) s, of rec1]
    by (simp add: read_chain_of [of store_run] isVisibleTo_def kTxnIdInfinity_def)
qed

theorem single_writer_witness:
  "fst (mvcc_update (snd (mvcc_update store_run (txn_at 3) rec1 [9])) (txn_at 2) rec1 [7]) = False"
proof -
  have "mvcc_reachable tm_run (snd (mvcc_update store_run (txn_at 3) rec1 [9]))"
    by (rule reach_step [OF run_reachable mv_update]) (rule tm_run_txns(2))
  then show ?thesis
    using single_writer [of tm_run "snd (mvcc_update store_run (txn_at 3) rec1 [9])" rec1
        "mk_TupleVersion 3 [9] False" "[version1\<lparr>end_txn_id := 3\<rparr>]"]
    by (simp add: mvcc_update_chain [of store_run] writable_def push_def)
qed

theorem new_transaction_reads_witness:
  "mvcc_read store_run (txn_at 4) rec1 = Some [1]"
  using new_transaction_reads [OF run_reachable tm_run_txns(4), of 4 "snd (tm_begin tm_run)" "txn_at 4" rec1]
  by (simp add: tm_begin_def Let_def getTransaction_def txn_at_def)

theorem abort_undoes_witness:
  "chain_of (mvcc_abort (foldl (apply_write (txn_at 3)) store_run
      [WUpdate rec1 [5], WInsert (mk_RID 9 9) [6], WInsert rec1 [4], WRemove rec1]) (txn_at 3)) rec1 = [version1]"
proof -
  have i: "\<not> reinserts (txn_at 3) store_run [WUpdate rec1 [5], WInsert (mk_RID 9 9) [6], WInsert rec1 [4], WRemove rec1] rec1"
    by (simp add: write_chains writable_def insertable_def push_def rec1_def chain_of_def store_run_def)
  show ?thesis using abort_undoes [OF run_reachable tm_run_txns(2),
      of "[WUpdate rec1 [5], WInsert (mk_RID 9 9) [6], WInsert rec1 [4], WRemove rec1]" rec1] i by simp
qed

theorem reinsert_abort_loses_record_witness:
  "versionCount (mvcc_abort (snd (mvcc_insert (snd (mvcc_remove store_run (txn_at 2) rec1)) (txn_at 2) rec1 [8])) (txn_at 2)) rec1 = 0"
  using reinsert_abort_loses_record [of store_run rec1 version1 "[]" "txn_at 2" "[8]"]
  by (simp add: case_prod_beta)

end
