(* ===== verification/LogRecords.thy ===== *)
theory LogRecords
  imports Serde Transactions
begin

text \<open>
  Write-ahead log records and their encoding: \<^verbatim>\<open>include/wal/log_record.hpp\<close> and
  \<^verbatim>\<open>src/wal/log_record.cpp\<close>.

  \<open>LogRecordType\<close> is an \<open>enum class\<close> over \<open>uint8_t\<close>; a byte with no enumerator is kept as
  \<open>LogRecordTypeRaw\<close>.  The size field is a 32-bit word and wraps as in the source.
\<close>

type_synonym lsn_t = u64

definition kInvalidLSN :: lsn_t where "kInvalidLSN = 0"

datatype LogRecordType = BEGIN | INSERT | UPDATE | DELETE | COMMIT | ABORT | LogRecordTypeRaw byte

fun byte_of_LogRecordType :: "LogRecordType \<Rightarrow> byte" where
  "byte_of_LogRecordType BEGIN = 0"
| "byte_of_LogRecordType INSERT = 1"
| "byte_of_LogRecordType UPDATE = 2"
| "byte_of_LogRecordType DELETE = 3"
| "byte_of_LogRecordType COMMIT = 4"
| "byte_of_LogRecordType ABORT = 5"
| "byte_of_LogRecordType (LogRecordTypeRaw b) = b"

definition LogRecordType_of_byte :: "byte \<Rightarrow> LogRecordType" where
  "LogRecordType_of_byte b =
    (if b = 0 then BEGIN else if b = 1 then INSERT else if b = 2 then UPDATE
     else if b = 3 then DELETE else if b = 4 then COMMIT else if b = 5 then ABORT
     else LogRecordTypeRaw b)"

fun recordTypeToString :: "LogRecordType \<Rightarrow> string" where
  "recordTypeToString BEGIN = ''BEGIN''"
| "recordTypeToString INSERT = ''INSERT''"
| "recordTypeToString UPDATE = ''UPDATE''"
| "recordTypeToString DELETE = ''DELETE''"
| "recordTypeToString COMMIT = ''COMMIT''"
| "recordTypeToString ABORT = ''ABORT''"
| "recordTypeToString (LogRecordTypeRaw _) = ''UNKNOWN''"

record LogRecord =
  log_size :: u32
  record_type :: LogRecordType
  log_txn_id :: txn_id_t
  prev_lsn :: lsn_t
  rec_lsn :: lsn_t
  log_rid :: RID
  old_tuple :: Tuple
  new_tuple :: Tuple
  rec_tuple :: Tuple

definition default_LogRecord :: LogRecord where
  "default_LogRecord = \<lparr>log_size = 0, record_type = BEGIN, log_txn_id = 0, prev_lsn = kInvalidLSN,
     rec_lsn = kInvalidLSN, log_rid = default_RID, old_tuple = [], new_tuple = [], rec_tuple = []\<rparr>"

definition HEADER_SIZE :: u32 where "HEADER_SIZE = 4 + 1 + 8 + 8 + 8"

text \<open>The three constructors: of a \<open>BEGIN\<close>, \<open>COMMIT\<close> or \<open>ABORT\<close>, of an \<open>INSERT\<close> or \<open>DELETE\<close>, of an \<open>UPDATE\<close>.\<close>

definition mk_LogRecord :: "txn_id_t \<Rightarrow> LogRecordType \<Rightarrow> lsn_t \<Rightarrow> LogRecord" where
  "mk_LogRecord t ty prev = default_LogRecord\<lparr>log_size := HEADER_SIZE, record_type := ty,
     log_txn_id := t, prev_lsn := prev\<rparr>"

definition mk_LogRecord_tuple :: "txn_id_t \<Rightarrow> LogRecordType \<Rightarrow> lsn_t \<Rightarrow> RID \<Rightarrow> Tuple \<Rightarrow> LogRecord" where
  "mk_LogRecord_tuple t ty prev rid tup = default_LogRecord\<lparr>
     log_size := HEADER_SIZE + 4 + 2 + 4 + word_of_nat (length tup), record_type := ty,
     log_txn_id := t, prev_lsn := prev, log_rid := rid, rec_tuple := tup\<rparr>"

definition mk_LogRecord_update :: "txn_id_t \<Rightarrow> LogRecordType \<Rightarrow> lsn_t \<Rightarrow> RID \<Rightarrow> Tuple \<Rightarrow> Tuple \<Rightarrow> LogRecord" where
  "mk_LogRecord_update t ty prev rid old_tup new_tup = default_LogRecord\<lparr>
     log_size := HEADER_SIZE + 4 + 2 + 4 + word_of_nat (length old_tup) + 4 + word_of_nat (length new_tup),
     record_type := ty, log_txn_id := t, prev_lsn := prev, log_rid := rid,
     old_tuple := old_tup, new_tuple := new_tup\<rparr>"

definition LogRecord_serialize :: "LogRecord \<Rightarrow> Serializer \<Rightarrow> Status \<times> Serializer" where
  "LogRecord_serialize r s =
    and_then (writeUInt32 s (log_size r)) (\<lambda>s.
    and_then (writeUInt8 s (byte_of_LogRecordType (record_type r))) (\<lambda>s.
    and_then (writeUInt64 s (log_txn_id r)) (\<lambda>s.
    and_then (writeUInt64 s (prev_lsn r)) (\<lambda>s.
    and_then (writeUInt64 s (rec_lsn r)) (\<lambda>s.
      if record_type r = INSERT \<or> record_type r = DELETE then
        and_then (writeUInt32 s (rid_page_id (log_rid r))) (\<lambda>s.
        and_then (writeUInt16 s (rid_slot_id (log_rid r))) (\<lambda>s.
        and_then (writeUInt32 s (word_of_nat (length (rec_tuple r)))) (\<lambda>s.
        and_then (writeBytes s (rec_tuple r)) (\<lambda>s. (Ok, s)))))
      else if record_type r = UPDATE then
        and_then (writeUInt32 s (rid_page_id (log_rid r))) (\<lambda>s.
        and_then (writeUInt16 s (rid_slot_id (log_rid r))) (\<lambda>s.
        and_then (writeUInt32 s (word_of_nat (length (old_tuple r)))) (\<lambda>s.
        and_then (writeBytes s (old_tuple r)) (\<lambda>s.
        and_then (writeUInt32 s (word_of_nat (length (new_tuple r)))) (\<lambda>s.
        and_then (writeBytes s (new_tuple r)) (\<lambda>s. (Ok, s)))))))
      else (Ok, s))))))"

text \<open>
  A read that fails returns its status with the record as far as it has been filled in; one
  that succeeds passes the value on.
\<close>

definition bind_read :: "Status \<times> 'a \<times> Deserializer \<Rightarrow> LogRecord \<Rightarrow>
   ('a \<Rightarrow> Deserializer \<Rightarrow> Status \<times> LogRecord \<times> Deserializer) \<Rightarrow> Status \<times> LogRecord \<times> Deserializer" where
  "bind_read res r k = (case res of (st, v, d) \<Rightarrow> if st \<noteq> Ok then (st, r, d) else k v d)"

definition LogRecord_deserialize :: "LogRecord \<Rightarrow> Deserializer \<Rightarrow> Status \<times> LogRecord \<times> Deserializer" where
  "LogRecord_deserialize r d =
    bind_read (readUInt32 d (log_size r)) r (\<lambda>v d. let r = r\<lparr>log_size := v\<rparr> in
    bind_read (readUInt8 d 0) r (\<lambda>ty d. let r = r\<lparr>record_type := LogRecordType_of_byte ty\<rparr> in
    bind_read (readUInt64 d (log_txn_id r)) r (\<lambda>v d. let r = r\<lparr>log_txn_id := v\<rparr> in
    bind_read (readUInt64 d (prev_lsn r)) r (\<lambda>v d. let r = r\<lparr>prev_lsn := v\<rparr> in
    bind_read (readUInt64 d (rec_lsn r)) r (\<lambda>v d. let r = r\<lparr>rec_lsn := v\<rparr> in
      if record_type r = INSERT \<or> record_type r = DELETE then
        bind_read (readUInt32 d 0) r (\<lambda>page_id d.
        bind_read (readUInt16 d 0) r (\<lambda>slot_id d. let r = r\<lparr>log_rid := mk_RID page_id slot_id\<rparr> in
        bind_read (readUInt32 d 0) r (\<lambda>tuple_size d.
        bind_read (readBytes d (unat tuple_size) []) r (\<lambda>bs d. (Ok, r\<lparr>rec_tuple := bs\<rparr>, d)))))
      else if record_type r = UPDATE then
        bind_read (readUInt32 d 0) r (\<lambda>page_id d.
        bind_read (readUInt16 d 0) r (\<lambda>slot_id d. let r = r\<lparr>log_rid := mk_RID page_id slot_id\<rparr> in
        bind_read (readUInt32 d 0) r (\<lambda>old_tuple_size d.
        bind_read (readBytes d (unat old_tuple_size) []) r (\<lambda>bs d. let r = r\<lparr>old_tuple := bs\<rparr> in
        bind_read (readUInt32 d 0) r (\<lambda>new_tuple_size d.
        bind_read (readBytes d (unat new_tuple_size) []) r (\<lambda>bs d. (Ok, r\<lparr>new_tuple := bs\<rparr>, d)))))))
      else (Ok, r, d))))))"

subsection \<open>The wire form of a record\<close>

definition record_wires :: "LogRecord \<Rightarrow> wire list" where
  "record_wires r = [WU32 (log_size r), WU8 (byte_of_LogRecordType (record_type r)), WU64 (log_txn_id r),
     WU64 (prev_lsn r), WU64 (rec_lsn r)] @
    (if record_type r = INSERT \<or> record_type r = DELETE then
       [WU32 (rid_page_id (log_rid r)), WU16 (rid_slot_id (log_rid r)), WU32 (word_of_nat (length (rec_tuple r))), WBytes (rec_tuple r)]
     else if record_type r = UPDATE then
       [WU32 (rid_page_id (log_rid r)), WU16 (rid_slot_id (log_rid r)),
        WU32 (word_of_nat (length (old_tuple r))), WBytes (old_tuple r),
        WU32 (word_of_nat (length (new_tuple r))), WBytes (new_tuple r)]
     else [])"

lemma serialize_wires: "LogRecord_serialize r s = write_all s (record_wires r)"
  by (simp add: LogRecord_serialize_def record_wires_def)

lemma record_wires_wf: "list_all wire_wf (record_wires r)" "WString x \<notin> set (record_wires r)"
  by (auto simp: record_wires_def)

definition record_bytes :: "LogRecord \<Rightarrow> byte list" where
  "record_bytes r = concat (map wire_bytes (record_wires r))"

lemma bind_ahead:
  "ahead d (bytes_of_u32 a @ rest) \<Longrightarrow> bind_read (readUInt32 d o1) r k1 = k1 a (des_skip d 4)"
  "ahead d (b # rest) \<Longrightarrow> bind_read (readUInt8 d o2) r k2 = k2 b (des_skip d (Suc 0))"
  "ahead d (bytes_of_u64 c @ rest) \<Longrightarrow> bind_read (readUInt64 d o3) r k3 = k3 c (des_skip d 8)"
  "ahead d (bytes_of_u16 e @ rest) \<Longrightarrow> bind_read (readUInt16 d o4) r k4 = k4 e (des_skip d 2)"
  "ahead d (bs @ rest) \<Longrightarrow> n = length bs \<Longrightarrow> bind_read (readBytes d n o5) r k5 = k5 bs (des_skip d n)"
  by (simp_all add: bind_read_def read_next)

text \<open>
  A record whose bytes lie ahead is read back: the header fields always, the payload the type
  says it has, and the target's own values in the other fields.
\<close>

definition record_wf :: "LogRecord \<Rightarrow> bool" where
  "record_wf r = (LogRecordType_of_byte (byte_of_LogRecordType (record_type r)) = record_type r
     \<and> length (rec_tuple r) < 2 ^ 32 \<and> length (old_tuple r) < 2 ^ 32 \<and> length (new_tuple r) < 2 ^ 32)"

definition read_over :: "LogRecord \<Rightarrow> LogRecord \<Rightarrow> LogRecord" where
  "read_over r r0 = (let h = r0\<lparr>log_size := log_size r, record_type := record_type r, log_txn_id := log_txn_id r,
       prev_lsn := prev_lsn r, rec_lsn := rec_lsn r\<rparr> in
     if record_type r = INSERT \<or> record_type r = DELETE then h\<lparr>log_rid := log_rid r, rec_tuple := rec_tuple r\<rparr>
     else if record_type r = UPDATE then h\<lparr>log_rid := log_rid r, old_tuple := old_tuple r, new_tuple := new_tuple r\<rparr>
     else h)"

lemma unat_length32: "n < 2 ^ 32 \<Longrightarrow> unat (word_of_nat n :: u32) = n"
  by (simp add: unsigned_of_nat take_bit_nat_eq_self)

lemma deserialize_ahead:
  assumes "ahead d (record_bytes r)" "record_wf r"
  shows "LogRecord_deserialize r0 d = (Ok, read_over r r0, des_skip d (length (record_bytes r)))"
proof -
  define rest where "rest = concat (map wire_bytes (drop 5 (record_wires r)))"
  have bytes: "record_bytes r = bytes_of_u32 (log_size r) @ byte_of_LogRecordType (record_type r) #
      bytes_of_u64 (log_txn_id r) @ bytes_of_u64 (prev_lsn r) @ bytes_of_u64 (rec_lsn r) @ rest"
    by (simp add: record_bytes_def record_wires_def rest_def)
  note a0 = assms(1) [unfolded bytes]
  note a1 = ahead_rest(1) [OF a0] note a2 = ahead_rest(2) [OF a1] note a3 = ahead_rest(3) [OF a2]
  note a4 = ahead_rest(3) [OF a3] note a5 = ahead_rest(3) [OF a4]
  note hdr = bind_ahead(1) [OF a0] bind_ahead(2) [OF a1] bind_ahead(3) [OF a2] bind_ahead(3) [OF a3] bind_ahead(3) [OF a4]
  have ty: "LogRecordType_of_byte (byte_of_LogRecordType (record_type r)) = record_type r"
    and len: "length (rec_tuple r) < 2 ^ 32" "length (old_tuple r) < 2 ^ 32" "length (new_tuple r) < 2 ^ 32"
    using assms(2) by (simp_all add: record_wf_def)
  consider "record_type r = INSERT \<or> record_type r = DELETE" | "record_type r = UPDATE"
    | "record_type r \<noteq> INSERT" "record_type r \<noteq> DELETE" "record_type r \<noteq> UPDATE" by blast
  then show ?thesis
  proof cases
    case 1
    then have rest: "rest = bytes_of_u32 (rid_page_id (log_rid r)) @ bytes_of_u16 (rid_slot_id (log_rid r)) @
        bytes_of_u32 (word_of_nat (length (rec_tuple r))) @ rec_tuple r @ []"
      by (auto simp: rest_def record_wires_def)
    note b0 = a5 [unfolded rest] note b1 = ahead_rest(1) [OF b0] note b2 = ahead_rest(4) [OF b1]
    note b3 = ahead_rest(1) [OF b2]
    note pay = bind_ahead(1) [OF b0] bind_ahead(4) [OF b1] bind_ahead(1) [OF b2] bind_ahead(5) [OF b3]
    show ?thesis using 1 ty len(1) by (simp add: LogRecord_deserialize_def Let_def hdr pay unat_length32 bytes rest
        read_over_def) (simp add: skip_skip add.assoc)
  next
    case 2
    then have rest: "rest = bytes_of_u32 (rid_page_id (log_rid r)) @ bytes_of_u16 (rid_slot_id (log_rid r)) @
        bytes_of_u32 (word_of_nat (length (old_tuple r))) @ old_tuple r @
        bytes_of_u32 (word_of_nat (length (new_tuple r))) @ new_tuple r @ []"
      by (auto simp: rest_def record_wires_def)
    note b0 = a5 [unfolded rest] note b1 = ahead_rest(1) [OF b0] note b2 = ahead_rest(4) [OF b1]
    note b3 = ahead_rest(1) [OF b2] note b4 = ahead_rest(5) [OF b3 refl] note b5 = ahead_rest(1) [OF b4]
    note pay = bind_ahead(1) [OF b0] bind_ahead(4) [OF b1] bind_ahead(1) [OF b2] bind_ahead(5) [OF b3]
      bind_ahead(1) [OF b4] bind_ahead(5) [OF b5]
    show ?thesis using 2 ty len(2,3) pay by (simp add: LogRecord_deserialize_def Let_def hdr unat_length32 bytes rest
        read_over_def) (simp add: skip_skip add.assoc)
  next
    case 3
    then have rest: "rest = []" by (simp add: rest_def record_wires_def)
    show ?thesis using 3 ty by (simp add: LogRecord_deserialize_def Let_def hdr bytes rest read_over_def)
      (simp add: skip_skip add.assoc)
  qed
qed


subsection \<open>Properties\<close>

lemma serialize_put:
  assumes "ser_wf s" "LogRecord_serialize r s = (Ok, s1)"
  shows "ser_cursor s + length (record_bytes r) \<le> length (ser_buffer s)" "s1 = ser_put s (record_bytes r)"
  using write_all_eq_Ok [OF assms(1) record_wires_wf(1) assms(2) [unfolded serialize_wires]]
  by (simp_all add: record_bytes_def)

text \<open>
  Log records round-trip.  When a record is serialized with \<open>Ok\<close>, deserializing at the
  position where it was written succeeds, stops where the writer stopped and gives the
  record's header and the payload of its type, over whatever the target record held before.
\<close>

theorem log_record_roundtrip:
  assumes "ser_wf s" "record_wf r" "LogRecord_serialize r s = (Ok, s1)"
  shows "LogRecord_deserialize r0 \<lparr>des_buffer = ser_buffer s1, des_cursor = ser_position s\<rparr> =
    (Ok, read_over r r0, \<lparr>des_buffer = ser_buffer s1, des_cursor = ser_position s1\<rparr>)"
proof -
  note p = serialize_put [OF assms(1,3)]
  have "ahead \<lparr>des_buffer = ser_buffer s1, des_cursor = ser_position s\<rparr> (record_bytes r)"
    using p by (simp add: ahead_def ser_position_def slice_overwrite_same)
  then show ?thesis using deserialize_ahead [OF _ assms(2)] p(2)
    by (simp add: des_skip_def ser_position_def)
qed

text \<open>What the three constructors build, with the LSN the log manager stamps later.\<close>

inductive constructed :: "LogRecord \<Rightarrow> bool" where
  con_control: "ty \<in> {BEGIN, COMMIT, ABORT} \<Longrightarrow> constructed ((mk_LogRecord t ty prev)\<lparr>rec_lsn := l\<rparr>)"
| con_tuple: "\<lbrakk>ty \<in> {INSERT, DELETE}; length a + 39 < 2 ^ 32\<rbrakk> \<Longrightarrow>
    constructed ((mk_LogRecord_tuple t ty prev rid a)\<lparr>rec_lsn := l\<rparr>)"
| con_update: "length a + length b + 43 < 2 ^ 32 \<Longrightarrow>
    constructed ((mk_LogRecord_update t UPDATE prev rid a b)\<lparr>rec_lsn := l\<rparr>)"

lemma unat_size: "n + k < 2 ^ 32 \<Longrightarrow> unat (word_of_nat n + word_of_nat k :: u32) = n + k"
  using unat_length32 [of "n + k"] by simp

lemma constructed_size:
  assumes "constructed r"
  shows "length (record_bytes r) = unat (log_size r) \<and> record_wf r \<and> read_over r default_LogRecord = r"
  using assms
proof (induction rule: constructed.induct)
  case (con_control ty t prev l)
  then show ?case
    by (auto simp: record_bytes_def record_wires_def mk_LogRecord_def default_LogRecord_def HEADER_SIZE_def
        record_wf_def read_over_def LogRecordType_of_byte_def)
next
  case (con_tuple ty a t prev rid l)
  have "unat (39 + word_of_nat (length a) :: u32) = 39 + length a"
    using unat_size [of 39 "length a"] con_tuple(2) by simp
  then show ?case using con_tuple
    by (auto simp: record_bytes_def record_wires_def mk_LogRecord_tuple_def default_LogRecord_def HEADER_SIZE_def
        record_wf_def read_over_def LogRecordType_of_byte_def)
next
  case (con_update a b t prev rid l)
  have "unat (43 + (word_of_nat (length a) + word_of_nat (length b)) :: u32) = 43 + (length a + length b)"
    using unat_size [of 43 "length a + length b"] con_update by simp
  then have "unat (43 + word_of_nat (length a) + word_of_nat (length b) :: u32) = 43 + (length a + length b)"
    by (simp only: add.assoc)
  then show ?case using con_update
    by (simp add: record_bytes_def record_wires_def mk_LogRecord_update_def default_LogRecord_def HEADER_SIZE_def
        record_wf_def read_over_def LogRecordType_of_byte_def)
qed

text \<open>
  The size field is honest.  For the records the three constructors build, of types that
  match the constructor and with tuples small enough for the 32-bit size, the serialized form
  has exactly \<open>getSerializedSize()\<close> bytes, it is written with \<open>Ok\<close> exactly when that many are
  left, and a fresh record reads it back as the record that was written.
\<close>

theorem log_record_size:
  assumes "constructed r" "ser_wf s"
  shows "(fst (LogRecord_serialize r s) = Ok \<longleftrightarrow> ser_cursor s + unat (log_size r) \<le> length (ser_buffer s))
    \<and> (\<forall>s1. LogRecord_serialize r s = (Ok, s1) \<longrightarrow> ser_position s1 = ser_position s + unat (log_size r)
        \<and> fst (snd (LogRecord_deserialize default_LogRecord \<lparr>des_buffer = ser_buffer s1, des_cursor = ser_position s\<rparr>)) = r)"
proof -
  note c = constructed_size [OF assms(1)]
  have fits: "LogRecord_serialize r s = (Ok, ser_put s (record_bytes r))"
    if "ser_cursor s + unat (log_size r) \<le> length (ser_buffer s)"
    unfolding serialize_wires record_bytes_def
    by (rule write_all_fits) (use assms(2) record_wires_wf c that in \<open>auto simp: record_bytes_def\<close>)
  have room: "ser_cursor s + unat (log_size r) \<le> length (ser_buffer s)" if "fst (LogRecord_serialize r s) = Ok"
    using serialize_put(1) [OF assms(2), of r "snd (LogRecord_serialize r s)"] that c
    by (metis prod.collapse)
  have "ser_position s1 = ser_position s + unat (log_size r)
      \<and> fst (snd (LogRecord_deserialize default_LogRecord \<lparr>des_buffer = ser_buffer s1, des_cursor = ser_position s\<rparr>)) = r"
    if ok: "LogRecord_serialize r s = (Ok, s1)" for s1
  proof -
    note p = serialize_put [OF assms(2) ok]
    have "ahead \<lparr>des_buffer = ser_buffer s1, des_cursor = ser_position s\<rparr> (record_bytes r)"
      using p by (simp add: ahead_def ser_position_def slice_overwrite_same)
    then show ?thesis using deserialize_ahead c p(2) by (simp add: ser_position_def)
  qed
  then show ?thesis using fits room by (metis fst_conv)
qed

text \<open>A record to run the properties on.\<close>

definition sample_update :: LogRecord where
  "sample_update = (mk_LogRecord_update 7 UPDATE 0 (mk_RID 1 2) [1, 2] [3])\<lparr>rec_lsn := 5\<rparr>"

theorem log_record_roundtrip_witness:
  "\<exists>s1. LogRecord_serialize sample_update (mk_Serializer (replicate 64 0)) = (Ok, s1)
    \<and> fst (snd (LogRecord_deserialize default_LogRecord \<lparr>des_buffer = ser_buffer s1, des_cursor = 0\<rparr>))
      = read_over sample_update default_LogRecord"
proof -
  have c: "constructed sample_update" unfolding sample_update_def by (rule con_update) simp
  note k = constructed_size [OF c]
  have len: "length (record_bytes sample_update) = 46"
    by (simp add: record_bytes_def record_wires_def sample_update_def mk_LogRecord_update_def default_LogRecord_def)
  have "write_all (mk_Serializer (replicate 64 0)) (record_wires sample_update) =
      (Ok, ser_put (mk_Serializer (replicate 64 0)) (concat (map wire_bytes (record_wires sample_update))))"
    by (rule write_all_fits) (use record_wires_wf len in \<open>auto simp: mk_Serializer_def record_bytes_def ser_wf_def\<close>)
  then have ok: "LogRecord_serialize sample_update (mk_Serializer (replicate 64 0)) =
      (Ok, ser_put (mk_Serializer (replicate 64 0)) (record_bytes sample_update))"
    by (simp add: serialize_wires record_bytes_def)
  have "ser_position (mk_Serializer (replicate 64 0)) = 0" by (simp add: ser_position_def mk_Serializer_def)
  then show ?thesis using log_record_roundtrip [OF ser_wf_mk _ ok, of default_LogRecord] k ok by simp
qed

theorem log_record_size_witness:
  "fst (LogRecord_serialize sample_update (mk_Serializer (replicate 46 0))) = Ok
    \<and> fst (LogRecord_serialize sample_update (mk_Serializer (replicate 45 0))) \<noteq> Ok"
proof -
  have c: "constructed sample_update" unfolding sample_update_def by (rule con_update) simp
  have sz: "unat (log_size sample_update) = 46"
    by (simp add: sample_update_def mk_LogRecord_update_def default_LogRecord_def HEADER_SIZE_def)
  show ?thesis using log_record_size [OF c ser_wf_mk, of "replicate 46 0"] log_record_size [OF c ser_wf_mk, of "replicate 45 0"] sz
    by (simp add: mk_Serializer_def)
qed

end
