(* ===== verification/LogManager.thy ===== *)
theory LogManager
  imports LogRecords
begin

text \<open>
  The write-ahead log: \<^verbatim>\<open>include/wal/log_manager.hpp\<close> and \<^verbatim>\<open>src/wal/log_manager.cpp\<close>.  The
  simulated disk is the vector the source keeps for it; log sequence numbers are 64-bit words.
\<close>

record LogManager =
  next_lsn :: lsn_t
  persistent_lsn :: lsn_t
  log_buffer :: "LogRecord list"
  disk_log_buffer :: "LogRecord list"

definition mk_LogManager :: LogManager where
  "mk_LogManager = \<lparr>next_lsn = 1, persistent_lsn = kInvalidLSN, log_buffer = [], disk_log_buffer = []\<rparr>"

text \<open>\<open>append\<close> returns the LSN and also stamps the caller's record, the second component.\<close>

definition log_append :: "LogManager \<Rightarrow> LogRecord \<Rightarrow> lsn_t \<times> LogRecord \<times> LogManager" where
  "log_append lm r = (let l = next_lsn lm; r1 = r\<lparr>rec_lsn := l\<rparr> in
     (l, r1, lm\<lparr>next_lsn := l + 1, log_buffer := log_buffer lm @ [r1]\<rparr>))"

text \<open>The loop of \<open>flush\<close>: the records that remain and those appended to the disk, in order.\<close>

fun flush_split :: "lsn_t \<Rightarrow> LogRecord list \<Rightarrow> LogRecord list \<Rightarrow> LogRecord list \<Rightarrow> LogRecord list \<times> LogRecord list" where
  "flush_split l [] remaining disk = (remaining, disk)"
| "flush_split l (r # rs) remaining disk =
    (if rec_lsn r > l then flush_split l rs (remaining @ [r]) disk
     else flush_split l rs remaining (disk @ [r]))"

definition log_flush :: "LogManager \<Rightarrow> lsn_t \<Rightarrow> LogManager" where
  "log_flush lm l =
    (let p = (if l > persistent_lsn lm then l else persistent_lsn lm);
         (remaining, disk) = flush_split l (log_buffer lm) [] (disk_log_buffer lm)
     in lm\<lparr>persistent_lsn := p, log_buffer := remaining, disk_log_buffer := disk\<rparr>)"

definition log_flushAll :: "LogManager \<Rightarrow> LogManager" where
  "log_flushAll lm =
    (if log_buffer lm \<noteq> [] then
       (let highest = rec_lsn (last (log_buffer lm)) in
        lm\<lparr>persistent_lsn := (if highest > persistent_lsn lm then highest else persistent_lsn lm),
           disk_log_buffer := disk_log_buffer lm @ log_buffer lm, log_buffer := []\<rparr>)
     else lm)"

subsection \<open>The log as a sequence\<close>

definition whole_log :: "LogManager \<Rightarrow> LogRecord list" where
  "whole_log lm = disk_log_buffer lm @ log_buffer lm"

lemma flush_split_filter:
  "flush_split l rs remaining disk =
    (remaining @ filter (\<lambda>r. rec_lsn r > l) rs, disk @ filter (\<lambda>r. \<not> rec_lsn r > l) rs)"
  by (induction rs arbitrary: remaining disk) auto

text \<open>
  What a client does to the log; \<open>flush\<close> is asked for a sequence number already handed out, as
  the write-ahead rule asks for the LSN of a page.  The guard keeps the LSN from wrapping.
\<close>

inductive log_step :: "LogManager \<Rightarrow> LogManager \<Rightarrow> bool" where
  step_append: "unat (next_lsn lm) + 1 < 2 ^ 64 \<Longrightarrow> log_step lm (snd (snd (log_append lm r)))"
| step_flush: "l < next_lsn lm \<Longrightarrow> log_step lm (log_flush lm l)"
| step_flushAll: "log_step lm (log_flushAll lm)"

abbreviation log_reachable :: "LogManager \<Rightarrow> bool" where
  "log_reachable \<equiv> reachable (\<lambda>lm. lm = mk_LogManager) log_step"

text \<open>
  The records are numbered 1, 2, 3, ... across disk and buffer, and the disk holds exactly
  those up to the persistent LSN.
\<close>

definition log_inv :: "LogManager \<Rightarrow> bool" where
  "log_inv lm = (map (\<lambda>r. unat (rec_lsn r)) (whole_log lm) = [1..<unat (next_lsn lm)]
     \<and> unat (persistent_lsn lm) = length (disk_log_buffer lm) \<and> 0 < unat (next_lsn lm))"

lemma log_invD:
  assumes "log_inv lm"
  shows "length (whole_log lm) = unat (next_lsn lm) - 1"
    and "i < length (whole_log lm) \<Longrightarrow> unat (rec_lsn (whole_log lm ! i)) = i + 1"
proof -
  have m: "map (\<lambda>r. unat (rec_lsn r)) (whole_log lm) = [1..<unat (next_lsn lm)]"
    using assms by (simp add: log_inv_def)
  show l: "length (whole_log lm) = unat (next_lsn lm) - 1"
    using arg_cong [OF m, of length] by simp
  assume "i < length (whole_log lm)"
  then show "unat (rec_lsn (whole_log lm ! i)) = i + 1"
    using arg_cong [OF m, of "\<lambda>xs. xs ! i"] l by simp
qed

lemma buffer_lsn:
  assumes "log_inv lm" "i < length (log_buffer lm)"
  shows "unat (rec_lsn (log_buffer lm ! i)) = length (disk_log_buffer lm) + i + 1"
  using log_invD(2) [OF assms(1), of "length (disk_log_buffer lm) + i"] assms(2)
  by (simp add: whole_log_def nth_append)

text \<open>In a buffer numbered consecutively, the records up to an LSN are a prefix.\<close>

lemma filter_numbered:
  assumes "\<And>i. i < length rs \<Longrightarrow> unat (rec_lsn (rs ! i)) = n + i + 1"
  shows "filter (\<lambda>r. \<not> rec_lsn r > l) rs = take (unat l - n) rs \<and> filter (\<lambda>r. rec_lsn r > l) rs = drop (unat l - n) rs"
  using assms
proof (induction rs arbitrary: n)
  case (Cons r rs)
  have r: "unat (rec_lsn r) = n + 1" using Cons.prems [of 0] by simp
  have rs: "unat (rec_lsn (rs ! i)) = Suc n + i + 1" if "i < length rs" for i
    using Cons.prems [of "Suc i"] that by simp
  show ?case
  proof (cases "unat l < n + 1")
    case True
    then have "\<forall>x \<in> set rs. rec_lsn x > l" using rs by (auto simp: in_set_conv_nth word_less_nat_alt)
    then show ?thesis using True r by (auto simp: word_less_nat_alt)
  next
    case False
    then have "unat l - n = Suc (unat l - Suc n)" by simp
    then show ?thesis using r Cons.IH [OF rs] False by (simp add: word_less_nat_alt)
  qed
qed simp

lemma flush_prefix:
  assumes "log_inv lm"
  shows "log_buffer (log_flush lm l) = drop (unat l - length (disk_log_buffer lm)) (log_buffer lm)"
    "disk_log_buffer (log_flush lm l) = disk_log_buffer lm @ take (unat l - length (disk_log_buffer lm)) (log_buffer lm)"
  using filter_numbered [of "log_buffer lm" "length (disk_log_buffer lm)" l] buffer_lsn [OF assms]
  by (simp_all add: log_flush_def flush_split_filter Let_def)

lemma whole_log_flush: "log_inv lm \<Longrightarrow> whole_log (log_flush lm l) = whole_log lm"
  by (simp add: whole_log_def flush_prefix)

lemma whole_log_flushAll: "whole_log (log_flushAll lm) = whole_log lm"
  by (simp add: whole_log_def log_flushAll_def Let_def)

lemma log_inv_append:
  assumes "log_inv lm" "unat (next_lsn lm) + 1 < 2 ^ 64"
  shows "log_inv (snd (snd (log_append lm r)))"
  using assms less_next(1) [OF assms(2)] by (simp add: log_inv_def log_append_def whole_log_def Let_def)

lemma persistent_flush: "persistent_lsn (log_flush lm l) = max l (persistent_lsn lm)"
  by (auto simp: log_flush_def Let_def max_def split: prod.splits)

lemma log_inv_flush:
  assumes "log_inv lm" "l < next_lsn lm"
  shows "log_inv (log_flush lm l)"
proof -
  have len: "length (disk_log_buffer lm) + length (log_buffer lm) = unat (next_lsn lm) - 1"
    using log_invD(1) [OF assms(1)] by (simp add: whole_log_def)
  have p: "unat (persistent_lsn lm) = length (disk_log_buffer lm)" using assms(1) by (simp add: log_inv_def)
  have "unat l < unat (next_lsn lm)" using assms(2) by (simp add: word_less_nat_alt)
  then have "unat (persistent_lsn (log_flush lm l)) = length (disk_log_buffer (log_flush lm l))"
    using p len by (simp add: flush_prefix(2) [OF assms(1)] persistent_flush max_def word_le_nat_alt)
  moreover have "next_lsn (log_flush lm l) = next_lsn lm" by (simp add: log_flush_def Let_def split: prod.splits)
  ultimately show ?thesis using assms(1) by (simp add: log_inv_def whole_log_flush [OF assms(1)])
qed

lemma log_inv_flushAll:
  assumes "log_inv lm"
  shows "log_inv (log_flushAll lm)"
proof (cases "log_buffer lm = []")
  case False
  have "unat (rec_lsn (last (log_buffer lm))) = length (disk_log_buffer lm) + length (log_buffer lm)"
    using buffer_lsn [OF assms, of "length (log_buffer lm) - 1"] False by (simp add: last_conv_nth)
  moreover have "unat (persistent_lsn lm) = length (disk_log_buffer lm)" using assms by (simp add: log_inv_def)
  ultimately have "unat (persistent_lsn (log_flushAll lm)) = length (disk_log_buffer (log_flushAll lm))"
    using False by (simp add: log_flushAll_def Let_def word_less_nat_alt)
  moreover have "next_lsn (log_flushAll lm) = next_lsn lm" by (simp add: log_flushAll_def Let_def)
  ultimately show ?thesis using assms by (simp add: log_inv_def whole_log_flushAll)
qed (use assms in \<open>simp add: log_flushAll_def\<close>)

interpretation wal: state_machine "\<lambda>lm. lm = mk_LogManager" log_step log_inv
proof
  fix s t assume "log_inv s" "log_step s t"
  from this(2,1) show "log_inv t"
    by (cases rule: log_step.cases) (auto intro: log_inv_append log_inv_flush log_inv_flushAll)
qed (simp add: log_inv_def mk_LogManager_def whole_log_def kInvalidLSN_def)

subsection \<open>Properties\<close>

text \<open>
  C15. The log loses and reorders nothing.  After any sequence of appends and flushes the
  records on disk followed by those in the buffer carry the LSNs 1, 2, 3, ... up to the last
  one handed out, and a record is on disk exactly when its LSN is at most the persistent one.
\<close>

theorem log_durable_prefix:
  assumes "log_reachable lm"
  shows "map (\<lambda>r. unat (rec_lsn r)) (disk_log_buffer lm @ log_buffer lm) = [1..<unat (next_lsn lm)]
    \<and> (\<forall>r \<in> set (disk_log_buffer lm @ log_buffer lm). r \<in> set (disk_log_buffer lm) \<longleftrightarrow> rec_lsn r \<le> persistent_lsn lm)"
proof -
  have inv: "log_inv lm" using assms by (rule wal.reachable_inv)
  have p: "unat (persistent_lsn lm) = length (disk_log_buffer lm)" using inv by (simp add: log_inv_def)
  have d: "rec_lsn r \<le> persistent_lsn lm" if "r \<in> set (disk_log_buffer lm)" for r
  proof -
    have "\<exists>i < length (disk_log_buffer lm). disk_log_buffer lm ! i = r" using that by (simp add: in_set_conv_nth)
    then obtain i where "i < length (disk_log_buffer lm)" "r = disk_log_buffer lm ! i" by blast
    then show ?thesis using log_invD(2) [OF inv, of i] p by (simp add: whole_log_def nth_append word_le_nat_alt)
  qed
  moreover have "\<not> rec_lsn r \<le> persistent_lsn lm" if "r \<in> set (log_buffer lm)" for r
    using that buffer_lsn [OF inv] p by (auto simp: in_set_conv_nth word_le_nat_alt)
  ultimately show ?thesis using inv by (auto simp: log_inv_def whole_log_def)
qed

text \<open>
  Flushing makes records durable in order: \<open>flush(l)\<close> of an LSN already handed out moves
  exactly the records up to \<open>l\<close> to the disk, after those that were there, and leaves the rest;
  \<open>flushAll\<close> moves them all; neither changes the log as a whole.
\<close>

theorem log_flush_moves_prefix:
  assumes "log_reachable lm" "l < next_lsn lm"
  shows "disk_log_buffer (log_flush lm l) =
      disk_log_buffer lm @ take (unat l - unat (persistent_lsn lm)) (log_buffer lm)
    \<and> log_buffer (log_flush lm l) = drop (unat l - unat (persistent_lsn lm)) (log_buffer lm)
    \<and> persistent_lsn (log_flush lm l) = max l (persistent_lsn lm)
    \<and> disk_log_buffer (log_flushAll lm) = disk_log_buffer lm @ log_buffer lm \<and> log_buffer (log_flushAll lm) = []"
proof -
  have inv: "log_inv lm" using assms(1) by (rule wal.reachable_inv)
  have p: "unat (persistent_lsn lm) = length (disk_log_buffer lm)" using inv by (simp add: log_inv_def)
  show ?thesis using flush_prefix [OF inv, of l] p persistent_flush [of lm l] by (simp add: log_flushAll_def Let_def)
qed

text \<open>
  Flushing ahead breaks the write-ahead rule: \<open>flush\<close> of an LSN that was not handed out yet
  raises the persistent LSN to it, and the record appended next is below the persistent LSN
  although it is only in the buffer.
\<close>

theorem flush_ahead_claims_durability:
  "case log_append (log_flush mk_LogManager 100) r of (l, r1, lm) \<Rightarrow>
     l \<le> persistent_lsn lm \<and> disk_log_buffer lm = [] \<and> log_buffer lm = [r1]"
  by (simp add: mk_LogManager_def log_flush_def log_append_def Let_def kInvalidLSN_def)

lemma log_reach_two:
  "log_reachable (snd (snd (log_append (snd (snd (log_append mk_LogManager r))) r2)))"
proof -
  note st = reach_step [of "\<lambda>lm. lm = mk_LogManager" log_step]
  have "log_reachable mk_LogManager" by (rule reach_init) simp
  then have "log_reachable (snd (snd (log_append mk_LogManager r)))"
    by (rule st [OF _ step_append]) (simp add: mk_LogManager_def)
  then show ?thesis by (rule st [OF _ step_append]) (simp add: mk_LogManager_def log_append_def Let_def)
qed

theorem log_durable_prefix_witness:
  "map (\<lambda>r. unat (rec_lsn r)) (log_buffer (snd (snd (log_append (snd (snd (log_append mk_LogManager sample_update))) sample_update)))) = [1, 2]"
  using log_durable_prefix [OF log_reach_two [of sample_update sample_update]]
  by (simp add: log_append_def mk_LogManager_def Let_def)

theorem log_flush_moves_prefix_witness:
  "length (disk_log_buffer (log_flush (snd (snd (log_append (snd (snd (log_append mk_LogManager sample_update))) sample_update))) 1)) = 1"
  using log_flush_moves_prefix [OF log_reach_two [of sample_update sample_update], of 1]
  by (simp add: log_append_def mk_LogManager_def Let_def kInvalidLSN_def)

end
