(* ===== verification/Recovery.thy ===== *)
theory Recovery
  imports SlottedPage BufferPool LogManager "HOL-Library.Monad_Syntax"
begin

text \<open>
  Crash recovery: \<^verbatim>\<open>include/wal/recovery_manager.hpp\<close> and \<^verbatim>\<open>src/wal/recovery_manager.cpp\<close>.

  Redo and undo fetch the page of a record through a write guard, change it with the
  operations of the slotted page, whose status they ignore, and drop the guard at the end of
  the loop body.  \<open>None\<close> is a run outside the defined behaviour of a called operation (a
  slot array read outside the page, an exception of the replacer).
\<close>

record RecoveryManager =
  rm_active_txns :: "txn_id_t set"
  log_records :: "LogRecord list"

definition mk_RecoveryManager :: RecoveryManager where
  "mk_RecoveryManager = \<lparr>rm_active_txns = {}, log_records = []\<rparr>"

fun analyze :: "txn_id_t set \<Rightarrow> LogRecord list \<Rightarrow> txn_id_t set" where
  "analyze A [] = A"
| "analyze A (r # rs) = analyze
    (if record_type r = BEGIN then insert (log_txn_id r) A
     else if record_type r = COMMIT \<or> record_type r = ABORT then A - {log_txn_id r}
     else A) rs"

definition changes_page :: "LogRecord \<Rightarrow> bool" where
  "changes_page r = (record_type r = INSERT \<or> record_type r = UPDATE \<or> record_type r = DELETE)"

text \<open>The part of redo between fetching and dropping the guard, on the fetched page.\<close>

definition redo_page :: "LogRecord \<Rightarrow> Page \<Rightarrow> Page option" where
  "redo_page r p =
    (if page_lsn (pg_header p) \<ge> rec_lsn r then Some p
     else do {
       p1 \<leftarrow> (if record_type r = INSERT then
                map_option snd (SlottedPage_insertTupleAtSlot p (rid_slot_id (log_rid r)) (rec_tuple r))
              else if record_type r = UPDATE then
                map_option snd (SlottedPage_updateTuple p (rid_slot_id (log_rid r)) (new_tuple r))
              else if record_type r = DELETE then
                map_option snd (SlottedPage_deleteTuple p (rid_slot_id (log_rid r)))
              else Some p);
       Some (upd_header (\<lambda>h. h\<lparr>page_lsn := rec_lsn r\<rparr>) p1)
     })"

definition undo_page :: "LogRecord \<Rightarrow> Page \<Rightarrow> Page option" where
  "undo_page r p =
    (if record_type r = INSERT then
       map_option snd (SlottedPage_deleteTuple p (rid_slot_id (log_rid r)))
     else if record_type r = UPDATE then
       map_option snd (SlottedPage_updateTuple p (rid_slot_id (log_rid r)) (old_tuple r))
     else if record_type r = DELETE then
       map_option snd (SlottedPage_insertTupleAtSlot p (rid_slot_id (log_rid r)) (rec_tuple r))
     else Some p)"

text \<open>The body of both loops: fetch with a fresh guard, change the page, destroy the guard.\<close>

definition with_page :: "(Page \<Rightarrow> Page option) \<Rightarrow> PageId \<Rightarrow> BufferPoolManager \<Rightarrow> BufferPoolManager option" where
  "with_page change p b = do {
     (st, g, b1) \<leftarrow> fetchPageGuard b p empty_guard;
     if st \<noteq> Ok then map_option snd (guard_drop b1 g)
     else do {
       let f = the (g_frame g);
       pg \<leftarrow> change (fr_page (frames b1 ! f));
       map_option snd (guard_drop (write_frame_page b1 f pg) g)
     } }"

fun redo :: "LogRecord list \<Rightarrow> BufferPoolManager \<Rightarrow> BufferPoolManager option" where
  "redo [] b = Some b"
| "redo (r # rs) b =
    (if changes_page r then Option.bind (with_page (redo_page r) (rid_page_id (log_rid r)) b) (redo rs)
     else redo rs b)"

text \<open>\<open>undo\<close> walks the log backwards: it is given the reversed log.\<close>

fun undo :: "txn_id_t set \<Rightarrow> LogRecord list \<Rightarrow> BufferPoolManager \<Rightarrow> BufferPoolManager option" where
  "undo A [] b = Some b"
| "undo A (r # rs) b =
    (if log_txn_id r \<notin> A then undo A rs b
     else if changes_page r then Option.bind (with_page (undo_page r) (rid_page_id (log_rid r)) b) (undo A rs)
     else undo A rs b)"

definition recover ::
  "RecoveryManager \<Rightarrow> BufferPoolManager \<Rightarrow> LogManager \<Rightarrow> (RecoveryManager \<times> BufferPoolManager) option" where
  "recover rm b lm =
    (let log = disk_log_buffer lm; rm1 = rm\<lparr>log_records := log\<rparr> in
     if log = [] then Some (rm1, b)
     else do {
       let rm2 = rm1\<lparr>rm_active_txns := analyze (rm_active_txns rm1) log\<rparr>;
       b1 \<leftarrow> redo log b;
       b2 \<leftarrow> undo (rm_active_txns rm2) (rev log) b1;
       Some (rm2, b2)
     })"

subsection \<open>Analysis\<close>

definition ends :: "txn_id_t \<Rightarrow> LogRecord \<Rightarrow> bool" where
  "ends t r = ((record_type r = COMMIT \<or> record_type r = ABORT) \<and> log_txn_id r = t)"

lemma analyze_iff:
  "t \<in> analyze A rs \<longleftrightarrow> (t \<in> A \<and> (\<forall>r \<in> set rs. \<not> ends t r))
    \<or> (\<exists>pre r post. rs = pre @ r # post \<and> record_type r = BEGIN \<and> log_txn_id r = t \<and> (\<forall>x \<in> set post. \<not> ends t x))"
  (is "_ \<longleftrightarrow> _ \<or> ?begun rs")
proof (induction rs arbitrary: A)
  case (Cons r rs)
  have begun: "?begun (r # rs) \<longleftrightarrow> (record_type r = BEGIN \<and> log_txn_id r = t \<and> (\<forall>x \<in> set rs. \<not> ends t x)) \<or> ?begun rs"
    by (auto simp: Cons_eq_append_conv)
  show ?case unfolding analyze.simps Cons.IH begun by (auto simp: ends_def)
qed simp

subsection \<open>Redo on a page\<close>

text \<open>The records of a log applied to one page, in order.\<close>

fun redo_all :: "LogRecord list \<Rightarrow> Page \<Rightarrow> Page option" where
  "redo_all [] p = Some p"
| "redo_all (r # rs) p = Option.bind (redo_page r p) (redo_all rs)"

lemma page_lsn_frame: "sp_frame q = sp_frame p \<Longrightarrow> page_lsn (pg_header q) = page_lsn (pg_header p)"
  by (simp add: sp_frame_def)

lemma upd_lsn_spec:
  assumes "wf_sp p"
  shows "wf_sp (upd_header (\<lambda>h. h\<lparr>page_lsn := l\<rparr>) p)" "slots_of (upd_header (\<lambda>h. h\<lparr>page_lsn := l\<rparr>) p) = slots_of p"
    "SlottedPage_freeSpace (upd_header (\<lambda>h. h\<lparr>page_lsn := l\<rparr>) p) = SlottedPage_freeSpace p"
    "page_lsn (pg_header (upd_header (\<lambda>h. h\<lparr>page_lsn := l\<rparr>) p)) = l"
proof -
  let ?p = "upd_header (\<lambda>h. h\<lparr>page_lsn := l\<rparr>) p"
  show s: "slots_of ?p = slots_of p" by (simp add: slots_of_def)
  show w: "wf_sp ?p" using assms s by (simp add: wf_sp_def Let_def)
  show "SlottedPage_freeSpace ?p = SlottedPage_freeSpace p"
    using freeSpace_wf [OF assms] freeSpace_wf [OF w] by simp
qed simp

text \<open>What each kind of record does to the slots of a page, when it applies at all.\<close>

definition redo_slots :: "LogRecord \<Rightarrow> nat \<Rightarrow> Tuple option list \<Rightarrow> Tuple option list" where
  "redo_slots r room xs = (let i = unat (rid_slot_id (log_rid r)) in
     if record_type r = INSERT then
       (if rec_tuple r \<noteq> [] \<and> store_need xs i (rec_tuple r) \<le> room then store xs i (rec_tuple r) else xs)
     else if record_type r = UPDATE then
       (if new_tuple r \<noteq> [] \<and> i < length xs \<and> xs ! i \<noteq> None \<and> length (new_tuple r) \<le> room then xs[i := Some (new_tuple r)] else xs)
     else if record_type r = DELETE then (if i < length xs then xs[i := None] else xs)
     else xs)"

text \<open>The space a record may take from a page.\<close>

definition redo_cost :: "LogRecord \<Rightarrow> Tuple option list \<Rightarrow> nat" where
  "redo_cost r xs = (if record_type r = INSERT then store_need xs (unat (rid_slot_id (log_rid r))) (rec_tuple r)
     else if record_type r = UPDATE then length (new_tuple r) else 0)"

lemma op_on_page:
  assumes "wf_sp p"
  shows "\<exists>q. (if record_type r = INSERT then map_option snd (SlottedPage_insertTupleAtSlot p (rid_slot_id (log_rid r)) (rec_tuple r))
              else if record_type r = UPDATE then map_option snd (SlottedPage_updateTuple p (rid_slot_id (log_rid r)) (new_tuple r))
              else if record_type r = DELETE then map_option snd (SlottedPage_deleteTuple p (rid_slot_id (log_rid r)))
              else Some p) = Some q
    \<and> wf_sp q \<and> sp_frame q = sp_frame p \<and> slots_of q = redo_slots r (SlottedPage_freeSpace p) (slots_of p)
    \<and> SlottedPage_freeSpace p - redo_cost r (slots_of p) \<le> SlottedPage_freeSpace q"
proof -
  let ?i = "unat (rid_slot_id (log_rid r))"
  have noop: "(slots_of p)[?i := None] = slots_of p" if "?i < length (slots_of p)" "slots_of p ! ?i = None"
    using that by (metis list_update_id)
  consider "record_type r = INSERT" | "record_type r = UPDATE" | "record_type r = DELETE"
    | "record_type r \<notin> {INSERT, UPDATE, DELETE}" by blast
  then show ?thesis
  proof cases
    case 1
    then show ?thesis using assms insertTupleAtSlot_spec [OF assms, of "rec_tuple r" "rid_slot_id (log_rid r)"]
      by (auto simp: redo_slots_def redo_cost_def Let_def not_less split: if_splits)
  next
    case 2
    then show ?thesis using assms updateTuple_spec [OF assms, of "new_tuple r" "rid_slot_id (log_rid r)"]
      by (auto simp: redo_slots_def redo_cost_def Let_def not_less split: if_splits)
  next
    case 3
    then show ?thesis using assms noop deleteTuple_spec [OF assms, of "rid_slot_id (log_rid r)"]
      by (auto simp: redo_slots_def redo_cost_def Let_def not_less split: if_splits)
  next
    case 4
    then show ?thesis using assms by (auto simp: redo_slots_def redo_cost_def Let_def)
  qed
qed

lemma redo_page_spec:
  assumes "wf_sp p"
  shows "\<exists>q. redo_page r p = Some q \<and> wf_sp q \<and> page_lsn (pg_header q) = max (page_lsn (pg_header p)) (rec_lsn r)
    \<and> slots_of q = (if rec_lsn r \<le> page_lsn (pg_header p) then slots_of p
                    else redo_slots r (SlottedPage_freeSpace p) (slots_of p))
    \<and> SlottedPage_freeSpace p - redo_cost r (slots_of p) \<le> SlottedPage_freeSpace q"
  using op_on_page [OF assms, of r] assms upd_lsn_spec
  by (auto simp: redo_page_def max_def)

lemma redo_all_spec:
  assumes "wf_sp p"
  shows "\<exists>q. redo_all rs p = Some q \<and> wf_sp q \<and> page_lsn (pg_header p) \<le> page_lsn (pg_header q)
    \<and> (\<forall>r \<in> set rs. rec_lsn r \<le> page_lsn (pg_header q))"
  using assms
proof (induction rs arbitrary: p)
  case (Cons r rs)
  obtain q where q: "redo_page r p = Some q" "wf_sp q" "page_lsn (pg_header q) = max (page_lsn (pg_header p)) (rec_lsn r)"
    using redo_page_spec [OF Cons.prems, of r] by blast
  obtain s where s: "redo_all rs q = Some s" "wf_sp s" "page_lsn (pg_header q) \<le> page_lsn (pg_header s)"
      "\<forall>x \<in> set rs. rec_lsn x \<le> page_lsn (pg_header s)" using Cons.IH [OF q(2)] by blast
  then show ?case using q by (intro exI [of _ s]) auto
qed auto

lemma redo_all_skips:
  "\<forall>r \<in> set rs. rec_lsn r \<le> page_lsn (pg_header p) \<Longrightarrow> redo_all rs p = Some p"
  by (induction rs) (auto simp: redo_page_def)


lemma redo_page_lsn: "\<lbrakk>wf_sp p; redo_page r p = Some q\<rbrakk> \<Longrightarrow> wf_sp q \<and> page_lsn (pg_header p) \<le> page_lsn (pg_header q)"
  using redo_page_spec [of p r] by auto

lemma redo_all_newer:
  assumes "wf_sp p" "l \<le> page_lsn (pg_header p)"
  shows "redo_all (filter (\<lambda>r. \<not> rec_lsn r \<le> l) rs) p = redo_all rs p"
  using assms
proof (induction rs arbitrary: p)
  case (Cons r rs)
  show ?case
  proof (cases "rec_lsn r \<le> l")
    case True
    then have "redo_page r p = Some p" using Cons.prems by (auto simp: redo_page_def)
    then show ?thesis using True Cons by simp
  next
    case False
    obtain q where q: "redo_page r p = Some q" using redo_page_spec [OF Cons.prems(1), of r] by blast
    then have "wf_sp q" "l \<le> page_lsn (pg_header q)" using redo_page_lsn [OF Cons.prems(1) q] Cons.prems(2) by auto
    then show ?thesis using False q Cons.IH [of q] by simp
  qed
qed simp

subsection \<open>Undo on a page\<close>

text \<open>A record describes a page: what it says was there is there, and there is room to go both ways.\<close>

definition describes :: "LogRecord \<Rightarrow> Page \<Rightarrow> bool" where
  "describes r p = (let i = unat (rid_slot_id (log_rid r)); xs = slots_of p; room = SlottedPage_freeSpace p in
     if record_type r = INSERT then rec_tuple r \<noteq> [] \<and> (i < length xs \<longrightarrow> xs ! i = None) \<and> store_need xs i (rec_tuple r) \<le> room
     else if record_type r = UPDATE then new_tuple r \<noteq> [] \<and> old_tuple r \<noteq> [] \<and> i < length xs \<and> xs ! i = Some (old_tuple r)
       \<and> length (new_tuple r) + length (old_tuple r) \<le> room
     else if record_type r = DELETE then rec_tuple r \<noteq> [] \<and> i < length xs \<and> xs ! i = Some (rec_tuple r) \<and> length (rec_tuple r) \<le> room
     else False)"

text \<open>Undoing a record is applying the opposite one.\<close>

definition opposite :: "LogRecord \<Rightarrow> LogRecord" where
  "opposite r = r\<lparr>record_type := (if record_type r = INSERT then DELETE else if record_type r = DELETE then INSERT else record_type r),
     new_tuple := old_tuple r\<rparr>"

lemma undo_page_spec:
  assumes "wf_sp p"
  shows "\<exists>q. undo_page r p = Some q \<and> wf_sp q \<and> sp_frame q = sp_frame p
    \<and> slots_of q = redo_slots (opposite r) (SlottedPage_freeSpace p) (slots_of p)"
proof -
  have "undo_page r p = (if record_type (opposite r) = INSERT then map_option snd (SlottedPage_insertTupleAtSlot p (rid_slot_id (log_rid (opposite r))) (rec_tuple (opposite r)))
              else if record_type (opposite r) = UPDATE then map_option snd (SlottedPage_updateTuple p (rid_slot_id (log_rid (opposite r))) (new_tuple (opposite r)))
              else if record_type (opposite r) = DELETE then map_option snd (SlottedPage_deleteTuple p (rid_slot_id (log_rid (opposite r))))
              else Some p)"
    by (auto simp: undo_page_def opposite_def)
  then show ?thesis using op_on_page [OF assms, of "opposite r"] by auto
qed

definition slot_lookup :: "Tuple option list \<Rightarrow> nat \<Rightarrow> Tuple option" where
  "slot_lookup xs j = (if j < length xs then xs ! j else None)"

lemma undo_redo_slots:
  assumes "describes r p" "room1 \<ge> SlottedPage_freeSpace p - redo_cost r (slots_of p)"
  shows "slot_lookup (redo_slots (opposite r) room1 (redo_slots r (SlottedPage_freeSpace p) (slots_of p))) j = slot_lookup (slots_of p) j"
proof -
  consider "record_type r = INSERT" | "record_type r = UPDATE" | "record_type r = DELETE"
    using assms(1) by (auto simp: describes_def Let_def split: if_splits)
  then show ?thesis
  proof cases
    case 1
    then show ?thesis using assms
      by (auto simp: describes_def Let_def redo_slots_def opposite_def slot_lookup_def nth_list_update nth_store)
  next
    case 2
    then show ?thesis using assms
      by (auto simp: describes_def Let_def redo_slots_def redo_cost_def opposite_def slot_lookup_def nth_list_update)
  next
    case 3
    then show ?thesis using assms
      by (auto simp: describes_def Let_def redo_slots_def redo_cost_def opposite_def slot_lookup_def nth_list_update store_def store_need_def)
  qed
qed

lemma readTuple_lookup:
  "wf_sp p \<Longrightarrow> SlottedPage_readTuple p sid [] = Some (Ok, t) \<longleftrightarrow> slot_lookup (slots_of p) (unat sid) = Some t"
  by (auto simp: readTuple_spec slot_lookup_def split: option.splits)

subsection \<open>Properties\<close>

text \<open>
  The analysis pass finds the losers: after \<open>analyze\<close> from an empty set, a transaction is
  active exactly when the log has a \<open>BEGIN\<close> of it that no \<open>COMMIT\<close> or \<open>ABORT\<close> of it follows.
\<close>

theorem analyze_finds_losers:
  "t \<in> analyze (rm_active_txns mk_RecoveryManager) log \<longleftrightarrow>
    (\<exists>pre r post. log = pre @ r # post \<and> record_type r = BEGIN \<and> log_txn_id r = t
      \<and> (\<forall>x \<in> set post. \<not> ((record_type x = COMMIT \<or> record_type x = ABORT) \<and> log_txn_id x = t)))"
  by (simp add: analyze_iff mk_RecoveryManager_def ends_def)

text \<open>
  C16. Redo repeats history once.  On a well-formed page the redo of any list of records
  succeeds, keeps the page well-formed, applies only records newer than the page's LSN,
  leaves the page's LSN at or above all of theirs, and redoing the same records again, as
  after a second crash, changes nothing.
\<close>

theorem redo_idempotent:
  assumes "wf_sp p"
  shows "\<exists>q. redo_all rs p = Some q \<and> wf_sp q \<and> redo_all rs q = Some q
    \<and> (\<forall>r \<in> set rs. rec_lsn r \<le> page_lsn (pg_header q))
    \<and> redo_all (filter (\<lambda>r. \<not> rec_lsn r \<le> page_lsn (pg_header p)) rs) p = Some q"
proof -
  obtain q where q: "redo_all rs p = Some q" "wf_sp q" "\<forall>r \<in> set rs. rec_lsn r \<le> page_lsn (pg_header q)"
    using redo_all_spec [OF assms] by blast
  then show ?thesis using redo_all_skips [of rs q] redo_all_newer [OF assms order_refl, of rs] by (intro exI [of _ q]) simp
qed

text \<open>
  Undo reverts redo.  For a log record that describes the page (an insert into a free
  slot, an update of the logged old tuple, a delete of the logged tuple, with room for the
  tuples), redoing and then undoing it gives a well-formed page on which every slot reads
  as before.
\<close>

theorem undo_reverts_redo:
  assumes "wf_sp p" "describes r p" "page_lsn (pg_header p) < rec_lsn r"
  shows "\<exists>q u. redo_page r p = Some q \<and> undo_page r q = Some u \<and> wf_sp u
    \<and> (\<forall>sid t. SlottedPage_readTuple u sid [] = Some (Ok, t) \<longleftrightarrow> SlottedPage_readTuple p sid [] = Some (Ok, t))"
proof -
  obtain q where q: "redo_page r p = Some q" "wf_sp q" "slots_of q = redo_slots r (SlottedPage_freeSpace p) (slots_of p)"
      "SlottedPage_freeSpace p - redo_cost r (slots_of p) \<le> SlottedPage_freeSpace q"
    using redo_page_spec [OF assms(1), of r] assms(3) by (auto simp: not_le [symmetric])
  obtain u where u: "undo_page r q = Some u" "wf_sp u" "slots_of u = redo_slots (opposite r) (SlottedPage_freeSpace q) (slots_of q)"
    using undo_page_spec [OF q(2), of r] by blast
  have "slot_lookup (slots_of u) j = slot_lookup (slots_of p) j" for j
    using undo_redo_slots [OF assms(2) q(4)] by (simp add: u(3) q(3))
  then show ?thesis using q(1) u assms(1) by (auto simp: readTuple_lookup)
qed


lemma touch_pinned_frames: "touch_pinned f b = Some b1 \<Longrightarrow> frames b1 = frames b \<and> bpm_disk b1 = bpm_disk b"
  by (auto simp: touch_pinned_def bind_eq_Some_conv)

lemma fetch_cold_clean:
  assumes ok: "bpm_ok b" and p: "page_table b p = None" and pg: "dm_pages (bpm_disk b) p = Some pg"
    and run: "fetchPage b p = Some (Ok, Some f, b1)"
  shows "\<not> fr_dirty (frames b1 ! f)" "map_option content (dm_pages (bpm_disk b1) p) = Some (content pg)"
proof -
  obtain st f0 b0 where b0: "findFreeFrame b = Some (st, f0, b0)"
    using run p by (cases "findFreeFrame b") (auto simp: fetchPage_def)
  define b2 where "b2 = upd_frame f0 (frame_reset p) b0"
  obtain st2 pg1 d2 where rd: "readPage (bpm_disk b2) p (fr_page (frames b2 ! f0)) = (st2, pg1, d2)"
    by (cases "readPage (bpm_disk b2) p (fr_page (frames b2 ! f0))") auto
  define b3 where "b3 = upd_frame f0 (\<lambda>x. x\<lparr>fr_page := pg1\<rparr>) (b2\<lparr>bpm_disk := d2\<rparr>)"
  have eq: "fetchPage b p = (if st \<noteq> Ok then Some (st, None, b0)
      else if st2 \<noteq> Ok then Some (st2, None, upd_frame f0 frame_invalidate b3)
      else Option.bind (touch_pinned f0 (b3\<lparr>page_table := (page_table b3)(p \<mapsto> f0)\<rparr>)) (\<lambda>b4. Some (Ok, Some f0, b4)))"
    using p b0 rd by (simp add: fetchPage_def b2_def b3_def Let_def)
  have st: "st = Ok" "st2 = Ok" "f0 = f" and t: "touch_pinned f (b3\<lparr>page_table := (page_table b3)(p \<mapsto> f)\<rparr>) = Some b1"
    using run unfolding eq by (auto simp: bind_eq_Some_conv split: if_splits)
  have fr: "pool_size b0 = pool_size b" "f < pool_size b" "bpm_ok b0" "bpm_content b0 = bpm_content b" "page_table b0 p = None"
    using findFreeFrame_spec [OF ok] p unfolding b0 st by simp_all
  then have len: "f < length (frames b0)" using bpm_okD(4) by auto
  then have "\<not> fr_dirty (frames b3 ! f)" by (simp add: b3_def b2_def st upd_frame_def frame_reset_def)
  then show "\<not> fr_dirty (frames b1 ! f)" using touch_pinned_frames [OF t] by simp
  have c: "map_option content (dm_pages (bpm_disk b0) p) = Some (content pg)"
    using fun_cong [OF fr(4), of p] fr(5) p pg by (simp add: bpm_content_def)
  then obtain pg0 where pg0: "dm_pages (bpm_disk b0) p = Some pg0" by auto
  have "storable (fr_page (frames b0 ! f))" using bpm_okD(6) [OF fr(3), of f] fr(1,2) by (simp add: frame_ok_def)
  then have "wf_Page (fr_page (frames b2 ! f))" using len by (simp add: b2_def st upd_frame_def frame_reset_def storable_def)
  then have "d2 = bpm_disk b0" using dm.rd_law [OF bpm_okD(1) [OF fr(3)] pg0] rd st by (simp add: b2_def upd_frame_def)
  then show "map_option content (dm_pages (bpm_disk b1) p) = Some (content pg)"
    using c touch_pinned_frames [OF t] by (simp add: b3_def upd_frame_def)
qed

lemma fetch_cold:
  assumes ok: "bpm_ok b" and p: "page_table b p = None" "dm_pages (bpm_disk b) p = Some pg"
    and run: "fetchPage b p = Some (Ok, Some f, b1)"
  shows "bpm_ok b1" "page_table b1 p = Some f" "pin_count (frames b1 ! f) = 1" "\<not> fr_dirty (frames b1 ! f)"
    "content (fr_page (frames b1 ! f)) = content pg"
proof -
  have b1: "bpm_ok b1" "bpm_content b1 = bpm_content b" "page_table b1 p = Some f" "pin_of b1 = (pin_of b)(p := 1)"
    using fetch_miss [OF ok p(1)] p(2) unfolding run by simp_all
  show "bpm_ok b1" "page_table b1 p = Some f" by (rule b1)+
  show "pin_count (frames b1 ! f) = 1" using fun_cong [OF b1(4), of p] b1(3) by (simp add: pin_of_def)
  show "content (fr_page (frames b1 ! f)) = content pg"
    using fun_cong [OF b1(2), of p] b1(3) p by (simp add: bpm_content_def)
  show "\<not> fr_dirty (frames b1 ! f)" by (rule fetch_cold_clean(1) [OF ok p run])
qed

text \<open>
  Recovery does not make its changes durable.  When redo changes a page that is not in
  the buffer pool, the frame is left unpinned and clean with the changed page in it, the
  disk keeps the old page, and \<open>flushPage\<close> writes nothing: no dirty mark was set through
  the guard.  The buffer pool's invariant is broken exactly there.
\<close>

theorem redo_not_durable:
  assumes "bpm_ok b" "changes_page r" "rid_page_id (log_rid r) = p" "p \<noteq> kInvalidPageId"
    and "page_table b p = None" "dm_pages (bpm_disk b) p = Some pg" "fetchPage b p = Some (Ok, Some f, b1)"
    and "redo_page r (fr_page (frames b1 ! f)) = Some new" "storable new" "content new \<noteq> content pg"
  shows "\<exists>b2. redo [r] b = Some b2 \<and> page_table b2 p = Some f \<and> fr_page (frames b2 ! f) = new
    \<and> pin_count (frames b2 ! f) = 0 \<and> \<not> fr_dirty (frames b2 ! f) \<and> map_option content (dm_pages (bpm_disk b2) p) = Some (content pg)
    \<and> flushPage b2 p = (Ok, b2) \<and> \<not> bpm_ok b2"
proof -
  note c = fetch_cold [OF assms(1,5,6,7)] and d = fetch_cold_clean(2) [OF assms(1,5,6,7)]
  have f: "f < pool_size b1" "fr_valid (frames b1 ! f)" "fr_page_id (frames b1 ! f) = p" using bpm_okD(5) [OF c(1,2)] by simp_all
  have len: "f < length (frames b1)" using f(1) bpm_okD(4) [OF c(1)] by simp
  let ?w = "write_frame_page b1 f new"
  let ?u = "upd_frame f (frame_unpin False) ?w"
  have fr: "frames ?u ! f = (frames b1 ! f)\<lparr>fr_page := new, pin_count := 0\<rparr>"
    using len c(3,4) by (simp add: write_frame_page_def upd_frame_def frame_unpin_def)
  have "lruk_ok (bpm_replacer b1)" "f < num_frames (bpm_replacer b1)" "f \<in> tracked (bpm_replacer b1)"
    using bpm_okD(2,3) [OF c(1)] f(1) valid_frameD(2) [OF c(1) f(1,2)] by simp_all
  then obtain rp where rp: "setEvictable (bpm_replacer b1) f True = Inr rp"
    by (cases "setEvictable (bpm_replacer b1) f True") (auto simp: setEvictable_def Let_def split: if_splits)
  let ?b = "?u\<lparr>bpm_replacer := rp\<rparr>"
  have "unpinPage ?w p False = Some (Ok, ?b)"
    using c(2,3) fr rp len by (simp add: unpinPage_def write_frame_page_def upd_frame_def no_throw_def frame_unpin_def Let_def)
  moreover have "g_frame (mk_guard b1 f) = Some f" "g_page_id (mk_guard b1 f) = p" "\<not> g_dirty (mk_guard b1 f)" "guard_isValid (mk_guard b1 f)"
    using f(3) assms(4) by (simp_all add: mk_guard_def guard_isValid_def)
  ultimately have run: "redo [r] b = Some ?b"
    using assms(2,3,8) fetchPageGuard_eq [OF assms(7)] by (simp add: with_page_def guard_drop_def)
  have b: "page_table ?b p = Some f" "frames ?b ! f = (frames b1 ! f)\<lparr>fr_page := new, pin_count := 0\<rparr>"
      "bpm_disk ?b = bpm_disk b1" "pool_size ?b = pool_size b1"
    using c(2) fr by (simp_all add: write_frame_page_def)
  have "\<not> bpm_ok ?b"
  proof
    assume "bpm_ok ?b"
    then have "frame_ok (bpm_disk ?b) (bpm_replacer ?b) (page_table ?b) f (frames ?b ! f)"
      using f(1) by (auto simp: bpm_ok_def write_frame_page_def)
    then show False using assms(10) d c(4) f unfolding b by (auto simp: frame_ok_def)
  qed
  moreover have "flushPage ?b p = (Ok, ?b)" using b c(4) f(2) by (simp add: flushPage_def Let_def)
  ultimately show ?thesis using run b c(4) d by (intro exI [of _ ?b]) simp
qed


subsection \<open>The properties at work\<close>

definition sample_insert :: LogRecord where
  "sample_insert = (mk_LogRecord_tuple 1 INSERT 0 (mk_RID 1 0) [1, 2])\<lparr>rec_lsn := 3\<rparr>"

definition sample_delete :: LogRecord where
  "sample_delete = (mk_LogRecord_tuple 1 DELETE 0 (mk_RID 1 0) [1, 2])\<lparr>rec_lsn := 5\<rparr>"

lemma sample_insert_simps [simp]:
  "record_type sample_insert = INSERT" "rec_lsn sample_insert = 3" "rec_tuple sample_insert = [1, 2]"
  "log_rid sample_insert = mk_RID 1 0"
  by (simp_all add: sample_insert_def mk_LogRecord_tuple_def)

lemma sample_delete_simps [simp]:
  "record_type sample_delete = DELETE" "rec_lsn sample_delete = 5" "log_rid sample_delete = mk_RID 1 0"
  by (simp_all add: sample_delete_def mk_LogRecord_tuple_def)

lemma empty_page_lsn: "page_lsn (pg_header empty_page) = 0"
proof -
  have "page_lsn (pg_header default_Page) = 0" by (simp add: default_Page_def default_PageHeader_def)
  then show ?thesis using initialize_ok(5) [of default_Page] by (simp add: empty_page_def sp_frame_def)
qed

lemma sample_page: "dm_pages (bpm_disk sample_pool) 1 = Some zero_page"
  using allocatePage_ok [of fresh_db 0] fresh_db_ok one_page_db_ok(3)
  by (auto simp: sample_pool_def mk_BufferPoolManager_def dm_pages_def one_page_db_def)

lemma zero_page_header: "page_lsn (pg_header zero_page) = 0" "slot_count (pg_header zero_page) = 0"
  by (simp_all add: zero_page_def dec_hdr_def kPageSize_def slice_def u64_of_bytes_def u16_of_bytes_def)

theorem redo_idempotent_witness:
  "\<exists>q. redo_all [sample_insert, sample_delete] empty_page = Some q \<and> redo_all [sample_insert, sample_delete] q = Some q"
  using redo_idempotent [OF empty_page_ok(1), of "[sample_insert, sample_delete]"] by blast

theorem undo_reverts_redo_witness:
  "\<exists>q u. redo_page sample_insert empty_page = Some q \<and> undo_page sample_insert q = Some u
    \<and> SlottedPage_readTuple u 0 [] \<noteq> Some (Ok, [1, 2])"
proof -
  have "describes sample_insert empty_page"
    by (simp add: describes_def empty_page_ok store_need_def)
  from undo_reverts_redo [OF empty_page_ok(1) this] obtain q u where
    "redo_page sample_insert empty_page = Some q" "undo_page sample_insert q = Some u"
    "\<forall>sid t. SlottedPage_readTuple u sid [] = Some (Ok, t) \<longleftrightarrow> SlottedPage_readTuple empty_page sid [] = Some (Ok, t)"
    by (auto simp: empty_page_lsn)
  then show ?thesis by (auto simp: readTuple_spec [OF empty_page_ok(1)] empty_page_ok)
qed

theorem redo_not_durable_witness:
  "\<exists>f b2. redo [sample_delete] sample_pool = Some b2 \<and> page_table b2 1 = Some f
    \<and> page_lsn (pg_header (fr_page (frames b2 ! f))) = 5 \<and> flushPage b2 1 = (Ok, b2)
    \<and> map_option (\<lambda>p. page_lsn (pg_header p)) (dm_pages (bpm_disk b2) 1) = Some 0"
proof -
  obtain f b1 where f: "fetchPage sample_pool 1 = Some (Ok, Some f, b1)"
    using fetch_miss [OF sample_pool_ok(1,7,2)] sample_pool_ok(5,6) by auto
  note c = fetch_cold [OF sample_pool_ok(1,7) sample_page f]
  let ?x = "fr_page (frames b1 ! f)" and ?new = "upd_header (\<lambda>h. h\<lparr>page_lsn := 5\<rparr>) (fr_page (frames b1 ! f))"
  have h: "pg_header ?x = pg_header zero_page" using c(5) by (simp add: content_def)
  have redo: "redo_page sample_delete ?x = Some ?new"
    by (simp add: redo_page_def h zero_page_header SlottedPage_deleteTuple_def)
  have "f < pool_size b1" using bpm_okD(5) [OF c(1,2)] by simp
  then have "storable ?x" using bpm_okD(6) [OF c(1)] by (simp add: frame_ok_def)
  then have st: "storable ?new" by (simp add: storable_def)
  have lsn: "page_lsn (pg_header ?new) = 5" by simp
  have ne: "content ?new \<noteq> content zero_page"
  proof
    assume "content ?new = content zero_page"
    then have "pg_header ?new = pg_header zero_page" unfolding content_def by blast
    then show False using lsn zero_page_header(1) by simp
  qed
  have ch: "changes_page sample_delete" "rid_page_id (log_rid sample_delete) = 1" "(1 :: PageId) \<noteq> kInvalidPageId"
    by (simp_all add: changes_page_def kInvalidPageId_def)
  obtain b2 where b2: "redo [sample_delete] sample_pool = Some b2" "page_table b2 1 = Some f" "fr_page (frames b2 ! f) = ?new"
      "flushPage b2 1 = (Ok, b2)" "map_option content (dm_pages (bpm_disk b2) 1) = Some (content zero_page)"
    using redo_not_durable [OF sample_pool_ok(1) ch sample_pool_ok(7) sample_page f redo st ne] by blast
  from b2(5) have "map_option (\<lambda>p. page_lsn (pg_header p)) (dm_pages (bpm_disk b2) 1) = Some 0"
    by (auto simp: content_def zero_page_header)
  then show ?thesis using b2 lsn by (intro exI [of _ f] exI [of _ b2]) simp
qed

end
