(* ===== verification/BTreePage.thy ===== *)
theory BTreePage
  imports Serde Pages
begin

text \<open>
  What the two kinds of B+ tree node share: the node header of
  \<^verbatim>\<open>include/index/btree_page.hpp\<close> and \<^verbatim>\<open>src/index/btree_page.cpp\<close>, and the loops that
  shift and copy entries inside the fixed arrays of a node.

  A node's array is a list of its capacity.  \<open>std::array::operator[]\<close> outside the array is
  undefined in the source, as reading a list past its end is here; the results about nodes
  are stated for nodes whose counters stay within the array.
\<close>

record BTreePage =
  bt_page_type :: PageType
  current_size :: u16
  max_size :: u16
  parent_page_id :: PageId
  bt_page_id :: PageId

definition kBTreeHeaderSize :: nat where "kBTreeHeaderSize = 16"

definition default_BTreePage :: BTreePage where
  "default_BTreePage = \<lparr>bt_page_type = BTreeLeaf, current_size = 0, max_size = 0,
     parent_page_id = kInvalidPageId, bt_page_id = kInvalidPageId\<rparr>"

definition mk_BTreePage :: "PageType \<Rightarrow> PageId \<Rightarrow> PageId \<Rightarrow> u16 \<Rightarrow> BTreePage" where
  "mk_BTreePage ty pid parent mx = \<lparr>bt_page_type = ty, current_size = 0, max_size = mx,
     parent_page_id = parent, bt_page_id = pid\<rparr>"

text \<open>\<open>max_size_ + 1\<close> is computed in \<open>int\<close> and cannot wrap before the division.\<close>

definition bt_minSize :: "BTreePage \<Rightarrow> u16" where
  "bt_minSize h = (if bt_page_type h = BTreeLeaf then max_size h div 2
     else word_of_nat ((unat (max_size h) + 1) div 2))"

definition bt_isFull :: "BTreePage \<Rightarrow> bool" where
  "bt_isFull h = (current_size h \<ge> max_size h)"

definition bt_isRoot :: "BTreePage \<Rightarrow> bool" where
  "bt_isRoot h = (parent_page_id h = kInvalidPageId)"

definition BTreePage_eq :: "BTreePage \<Rightarrow> BTreePage \<Rightarrow> bool" where
  "BTreePage_eq a b = (bt_page_type a = bt_page_type b \<and> current_size a = current_size b
     \<and> max_size a = max_size b \<and> parent_page_id a = parent_page_id b \<and> bt_page_id a = bt_page_id b)"

text \<open>Serialisation into a span; every failure is reported as \<open>IoError\<close>.\<close>

definition io_error :: "Status \<times> 'a \<Rightarrow> Status \<times> 'a" where
  "io_error r = (if fst r \<noteq> Ok then (IoError, snd r) else r)"

definition BTreePage_serialize :: "BTreePage \<Rightarrow> byte list \<Rightarrow> Status \<times> byte list" where
  "BTreePage_serialize h dest =
    (if length dest < kBTreeHeaderSize then (IoError, dest)
     else let r = io_error (
         and_then (writeUInt8 (mk_Serializer (take kBTreeHeaderSize dest)) (byte_of_PageType (bt_page_type h))) (\<lambda>s.
         and_then (writeUInt16 s (current_size h)) (\<lambda>s.
         and_then (writeUInt16 s (max_size h)) (\<lambda>s.
         and_then (writeUInt32 s (parent_page_id h)) (\<lambda>s.
         and_then (writeUInt32 s (bt_page_id h)) (\<lambda>s. writeBytes s [0, 0, 0]))))))
       in (fst r, overwrite dest 0 (ser_buffer (snd r))))"

definition read_or :: "Status \<times> 'a \<times> Deserializer \<Rightarrow> 'b \<Rightarrow> ('a \<Rightarrow> Deserializer \<Rightarrow> Status \<times> 'b) \<Rightarrow> Status \<times> 'b" where
  "read_or res keep k = (case res of (st, v, d) \<Rightarrow> if st \<noteq> Ok then (IoError, keep) else k v d)"

definition BTreePage_deserialize :: "BTreePage \<Rightarrow> byte list \<Rightarrow> Status \<times> BTreePage" where
  "BTreePage_deserialize h src =
    (if length src < kBTreeHeaderSize then (IoError, h)
     else read_or (readUInt8 (mk_Deserializer (take kBTreeHeaderSize src)) 0) h (\<lambda>raw_type d.
          read_or (readUInt16 d 0) h (\<lambda>cur_size d.
          read_or (readUInt16 d 0) h (\<lambda>max_sz d.
          read_or (readUInt32 d 0) h (\<lambda>parent_id d.
          read_or (readUInt32 d 0) h (\<lambda>pid d.
          read_or (readBytes d 3 []) h (\<lambda>_ d.
            (Ok, \<lparr>bt_page_type = PageType_of_byte raw_type, current_size = cur_size, max_size = max_sz,
                  parent_page_id = parent_id, bt_page_id = pid\<rparr>))))))))"

subsection \<open>Loops over the entries of a node\<close>

text \<open>\<open>for (i = pos; i < pos + n; ++i) a[i] = a[i + 1]\<close>\<close>

fun shift_left :: "nat \<Rightarrow> nat \<Rightarrow> 'a list \<Rightarrow> 'a list" where
  "shift_left i 0 xs = xs"
| "shift_left i (Suc n) xs = shift_left (Suc i) n (xs[i := xs ! Suc i])"

text \<open>\<open>for (i = pos + n; i > pos; --i) a[i] = a[i - 1]\<close>, also what \<open>std::move_backward\<close> does.\<close>

fun shift_right :: "nat \<Rightarrow> nat \<Rightarrow> 'a list \<Rightarrow> 'a list" where
  "shift_right pos 0 xs = xs"
| "shift_right pos (Suc n) xs = shift_right pos n (xs[pos + Suc n := xs ! (pos + n)])"

text \<open>\<open>for (i = 0; i < n; ++i) dst[j + i] = src[k + i]\<close> between two arrays.\<close>

fun copy_entries :: "'a list \<Rightarrow> nat \<Rightarrow> nat \<Rightarrow> nat \<Rightarrow> 'a list \<Rightarrow> 'a list" where
  "copy_entries src k j 0 dst = dst"
| "copy_entries src k j (Suc n) dst = copy_entries src (Suc k) (Suc j) n (dst[j := src ! k])"

lemma nth_shift_left:
  "i + n < length xs \<Longrightarrow> j < length xs \<Longrightarrow>
   shift_left i n xs ! j = (if i \<le> j \<and> j < i + n then xs ! Suc j else xs ! j)"
  by (induction i n xs rule: shift_left.induct) (auto simp: nth_list_update)

lemma length_shift_left [simp]: "length (shift_left i n xs) = length xs"
  by (induction i n xs rule: shift_left.induct) auto

lemma nth_shift_right:
  "pos + n < length xs \<Longrightarrow> j < length xs \<Longrightarrow>
   shift_right pos n xs ! j = (if pos < j \<and> j \<le> pos + n then xs ! (j - 1) else xs ! j)"
  by (induction pos n xs rule: shift_right.induct) (auto simp: nth_list_update)

lemma length_shift_right [simp]: "length (shift_right pos n xs) = length xs"
  by (induction pos n xs rule: shift_right.induct) auto

lemma nth_copy_entries:
  "j + n \<le> length dst \<Longrightarrow> i < length dst \<Longrightarrow>
   copy_entries src k j n dst ! i = (if j \<le> i \<and> i < j + n then src ! (k + (i - j)) else dst ! i)"
proof (induction src k j n dst rule: copy_entries.induct)
  case (2 src k j n dst)
  then show ?case by (cases "i \<le> j") (auto simp: nth_list_update Suc_diff_Suc)
qed auto

lemma length_copy_entries [simp]: "length (copy_entries src k j n dst) = length dst"
  by (induction src k j n dst rule: copy_entries.induct) auto

text \<open>The same on the first \<open>n\<close> entries, those in use.\<close>

lemma take_remove_at:
  assumes "i < n" "n \<le> length xs"
  shows "take (n - 1) (shift_left i (n - 1 - i) xs) = take i xs @ drop (Suc i) (take n xs)"
proof (rule nth_equalityI)
  fix j assume "j < length (take (n - 1) (shift_left i (n - 1 - i) xs))"
  then have j: "j < n - 1" "j < length xs" using assms by auto
  show "take (n - 1) (shift_left i (n - 1 - i) xs) ! j = (take i xs @ drop (Suc i) (take n xs)) ! j"
    using assms j by (cases "j < i") (simp_all add: nth_shift_left nth_append)
qed (use assms in auto)

lemma take_insert_at:
  assumes "i \<le> n" "n < length xs"
  shows "take (Suc n) ((shift_right i (n - i) xs)[i := x]) = take i xs @ x # drop i (take n xs)"
proof (rule nth_equalityI)
  fix j assume "j < length (take (Suc n) ((shift_right i (n - i) xs)[i := x]))"
  then have j: "j < Suc n" "j < length xs" using assms by auto
  consider "j < i" | "j = i" | k where "j = Suc k" "i \<le> k" by (metis less_Suc_eq_le linorder_neqE_nat old.nat.exhaust not_less_zero)
  then show "take (Suc n) ((shift_right i (n - i) xs)[i := x]) ! j = (take i xs @ x # drop i (take n xs)) ! j"
    using assms j by cases (simp_all add: nth_shift_right nth_append nth_list_update Suc_diff_le)
qed (use assms in auto)

lemma take_copy_after:
  assumes "m + n \<le> length dst" "k + n \<le> length src"
  shows "take (m + n) (copy_entries src k m n dst) = take m dst @ take n (drop k src)"
proof (rule nth_equalityI)
  fix j assume "j < length (take (m + n) (copy_entries src k m n dst))"
  then have j: "j < m + n" "j < length dst" using assms by auto
  show "take (m + n) (copy_entries src k m n dst) ! j = (take m dst @ take n (drop k src)) ! j"
    using assms j by (cases "j < m") (simp_all add: nth_copy_entries nth_append)
qed (use assms in auto)

subsection \<open>Encoding of the header\<close>

definition wf_header :: "BTreePage \<Rightarrow> bool" where
  "wf_header h = wf_PageType (bt_page_type h)"

definition header_bytes :: "BTreePage \<Rightarrow> byte list" where
  "header_bytes h = byte_of_PageType (bt_page_type h) # bytes_of_u16 (current_size h) @ bytes_of_u16 (max_size h)
     @ bytes_of_u32 (parent_page_id h) @ bytes_of_u32 (bt_page_id h) @ [0, 0, 0]"

lemma length_header_bytes [simp]: "length (header_bytes h) = kBTreeHeaderSize"
  by (simp add: header_bytes_def kBTreeHeaderSize_def)

lemma header_serialize:
  assumes "kBTreeHeaderSize \<le> length dest"
  shows "BTreePage_serialize h dest = (Ok, overwrite dest 0 (header_bytes h))"
proof -
  let ?ws = "[WU8 (byte_of_PageType (bt_page_type h)), WU16 (current_size h), WU16 (max_size h),
      WU32 (parent_page_id h), WU32 (bt_page_id h), WBytes [0, 0, 0]]"
  let ?s = "mk_Serializer (take kBTreeHeaderSize dest)"
  have b: "concat (map wire_bytes ?ws) = header_bytes h" by (simp add: header_bytes_def)
  have "write_all ?s ?ws = (Ok, ser_put ?s (header_bytes h))"
    using write_all_fits [of ?s ?ws] assms unfolding b by (simp add: mk_Serializer_def ser_wf_def)
  then have w: "and_then (writeUInt8 ?s (byte_of_PageType (bt_page_type h))) (\<lambda>s.
         and_then (writeUInt16 s (current_size h)) (\<lambda>s.
         and_then (writeUInt16 s (max_size h)) (\<lambda>s.
         and_then (writeUInt32 s (parent_page_id h)) (\<lambda>s.
         and_then (writeUInt32 s (bt_page_id h)) (\<lambda>s. writeBytes s [0, 0, 0]))))) = (Ok, ser_put ?s (header_bytes h))"
    by (simp add: and_then_id)
  show ?thesis using assms by (simp add: BTreePage_serialize_def w io_error_def ser_put_mk)
qed


lemma read_or_next:
  "ahead d (bytes_of_u32 a @ rest) \<Longrightarrow> read_or (readUInt32 d o1) r k1 = k1 a (des_skip d 4)"
  "ahead d (b # rest) \<Longrightarrow> read_or (readUInt8 d o2) r k2 = k2 b (des_skip d (Suc 0))"
  "ahead d (bytes_of_u16 e @ rest) \<Longrightarrow> read_or (readUInt16 d o4) r k4 = k4 e (des_skip d 2)"
  "ahead d (bs @ rest) \<Longrightarrow> n = length bs \<Longrightarrow> read_or (readBytes d n o5) r k5 = k5 bs (des_skip d n)"
  by (simp_all add: read_or_def read_next)

lemma ahead_mk: "take (length bs) src = bs \<Longrightarrow> ahead (mk_Deserializer src) bs"
  by (auto simp: ahead_def mk_Deserializer_def slice_def) (metis length_take min.cobounded1)

lemma header_deserialize:
  assumes "take kBTreeHeaderSize src = header_bytes h" "wf_header h"
  shows "BTreePage_deserialize h0 src = (Ok, h)"
proof -
  have len: "kBTreeHeaderSize \<le> length src"
    using arg_cong [OF assms(1), of length] by simp
  have a0: "ahead (mk_Deserializer (take kBTreeHeaderSize src)) (header_bytes h)"
    by (rule ahead_mk) (simp add: assms(1))
  have e: "header_bytes h = byte_of_PageType (bt_page_type h) # bytes_of_u16 (current_size h) @ bytes_of_u16 (max_size h)
     @ bytes_of_u32 (parent_page_id h) @ bytes_of_u32 (bt_page_id h) @ [0, 0, 0] @ []" by (simp add: header_bytes_def)
  note a1 = ahead_rest(2) [OF a0 [unfolded e]] note a2 = ahead_rest(4) [OF a1] note a3 = ahead_rest(4) [OF a2]
  note a4 = ahead_rest(1) [OF a3] note a5 = ahead_rest(1) [OF a4]
  note rd = read_or_next(2) [OF a0 [unfolded e]] read_or_next(3) [OF a1] read_or_next(3) [OF a2] read_or_next(1) [OF a3]
    read_or_next(1) [OF a4] read_or_next(4) [OF a5]
  have ty: "PageType_of_byte (byte_of_PageType (bt_page_type h)) = bt_page_type h"
    using assms(2) by (simp add: wf_header_def wf_PageType_def)
  show ?thesis using len ty by (simp add: BTreePage_deserialize_def not_less rd)
qed

subsection \<open>Keys in order\<close>

text \<open>
  What both binary searches do on a list of strictly increasing keys: the index of the first
  key not below the given one.
\<close>

definition rank :: "int list \<Rightarrow> int \<Rightarrow> nat" where
  "rank ks k = length (filter (\<lambda>x. x < k) ks)"

lemma rank_le: "rank ks k \<le> length ks"
  by (simp add: rank_def)

lemma rank_nth:
  assumes "sorted_wrt (<) ks"
  shows "i < rank ks k \<Longrightarrow> ks ! i < k" "rank ks k \<le> i \<Longrightarrow> i < length ks \<Longrightarrow> k \<le> ks ! i"
proof -
  have "(i < rank ks k \<longrightarrow> ks ! i < k) \<and> (rank ks k \<le> i \<and> i < length ks \<longrightarrow> k \<le> ks ! i)" for i
    using assms
  proof (induction ks arbitrary: i)
    case (Cons x ks)
    show ?case
    proof (cases "x < k")
      case True
      then show ?thesis using Cons by (cases i) (auto simp: rank_def)
    next
      case False
      then have ge: "\<forall>y \<in> set ks. k \<le> y" and "filter (\<lambda>y. y < k) ks = []"
        using Cons.prems by (auto simp: filter_empty_conv)
      then show ?thesis using False Cons.prems by (cases i) (auto simp: rank_def)
    qed
  qed (simp add: rank_def)
  then show "i < rank ks k \<Longrightarrow> ks ! i < k" "rank ks k \<le> i \<Longrightarrow> i < length ks \<Longrightarrow> k \<le> ks ! i" by auto
qed

lemma rank_unique:
  assumes "sorted_wrt (<) ks" "r \<le> length ks" "\<forall>i<r. ks ! i < k" "\<forall>i. r \<le> i \<and> i < length ks \<longrightarrow> k \<le> ks ! i"
  shows "rank ks k = r"
proof (rule linorder_cases [of "rank ks k" r])
  assume "rank ks k < r"
  then show ?thesis using rank_nth(2) [OF assms(1), of k "rank ks k"] assms(2,3) by force
next
  assume "r < rank ks k"
  then show ?thesis using rank_nth(1) [OF assms(1), of r k] assms(4) rank_le [of ks k] by force
qed

lemma rank_take_drop:
  assumes "sorted_wrt (<) ks"
  shows "\<forall>x \<in> set (take (rank ks k) ks). x < k" "\<forall>x \<in> set (drop (rank ks k) ks). k \<le> x"
proof -
  show "\<forall>x \<in> set (take (rank ks k) ks). x < k" using rank_nth(1) [OF assms] by (auto simp: in_set_conv_nth)
  show "\<forall>x \<in> set (drop (rank ks k) ks). k \<le> x" using rank_nth(2) [OF assms] by (auto simp: in_set_conv_nth)
qed

text \<open>
  The state of a binary search over \<open>ks\<close>: what is left of the window satisfies \<open>P\<close>, what is
  right of it satisfies \<open>Q\<close>.  A probe at \<open>mid\<close> moves one end of the window past \<open>mid\<close>.
\<close>

definition window :: "(int \<Rightarrow> bool) \<Rightarrow> (int \<Rightarrow> bool) \<Rightarrow> int list \<Rightarrow> int \<Rightarrow> int \<Rightarrow> bool" where
  "window P Q ks lo hi = (0 \<le> lo \<and> lo \<le> hi + 1 \<and> hi < int (length ks) \<and> (\<forall>i<nat lo. P (ks ! i))
     \<and> (\<forall>i. hi < int i \<and> i < length ks \<longrightarrow> Q (ks ! i)))"

lemma window_all: "window P Q ks 0 (int (length ks) - 1)"
  by (auto simp: window_def)

lemma window_mid:
  assumes "window P Q ks lo hi" "lo \<le> hi" "mid = lo + (hi - lo) div 2"
  shows "lo \<le> mid" "mid \<le> hi" "nat mid < length ks" "0 \<le> mid"
  using assms by (auto simp: window_def)

lemma window_up:
  assumes "sorted_wrt (<) ks" "window P Q ks lo hi" "lo \<le> mid" "mid \<le> hi" "\<forall>x\<le>ks ! nat mid. P x"
  shows "window P Q ks (mid + 1) hi"
proof -
  have "P (ks ! i)" if "i < nat (mid + 1)" for i
  proof -
    have "i = nat mid \<or> i < nat mid" "nat mid < length ks" using that assms(2,3,4) by (auto simp: window_def)
    then have "ks ! i \<le> ks ! nat mid" using sorted_wrt_nth_less [OF assms(1), of i "nat mid"] by auto
    then show ?thesis using assms(5) by blast
  qed
  then show ?thesis using assms(2,3,4) by (auto simp: window_def)
qed

lemma window_down:
  assumes "sorted_wrt (<) ks" "window P Q ks lo hi" "lo \<le> mid" "mid \<le> hi" "\<forall>x\<ge>ks ! nat mid. Q x"
  shows "window P Q ks lo (mid - 1)"
proof -
  have "Q (ks ! i)" if "mid - 1 < int i" "i < length ks" for i
  proof -
    have "nat mid = i \<or> nat mid < i" using that by linarith
    then have "ks ! nat mid \<le> ks ! i" using sorted_wrt_nth_less [OF assms(1), of "nat mid" i] that by auto
    then show ?thesis using assms(5) by blast
  qed
  then show ?thesis using assms(2,3,4) by (auto simp: window_def)
qed

lemma window_hit:
  assumes "sorted_wrt (<) ks" "nat mid < length ks" "ks ! nat mid = key"
  shows "key \<in> set ks" "rank ks key = nat mid"
proof -
  show "key \<in> set ks" using assms(2,3) by auto
  have "ks ! i < key" if "i < nat mid" for i
    using sorted_wrt_nth_less [OF assms(1) that assms(2)] assms(3) by simp
  moreover have "key \<le> ks ! i" if "nat mid \<le> i" "i < length ks" for i
    using sorted_wrt_nth_less [OF assms(1), of "nat mid" i] that assms(3) by (cases "i = nat mid") auto
  ultimately show "rank ks key = nat mid" by (intro rank_unique [OF assms(1)]) (use assms(2) in auto)
qed

lemma window_empty:
  assumes "sorted_wrt (<) ks" "window (\<lambda>x. x < key) Q ks lo hi" "hi < lo" "\<forall>x. Q x \<longrightarrow> key \<le> x"
  shows "rank ks key = nat lo" and "(\<forall>x. Q x \<longrightarrow> key < x) \<Longrightarrow> key \<notin> set ks"
proof -
  have lo: "nat lo \<le> i \<Longrightarrow> i < length ks \<Longrightarrow> Q (ks ! i)" "i < nat lo \<Longrightarrow> ks ! i < key" for i
    using assms(2,3) by (auto simp: window_def)
  show "rank ks key = nat lo"
    by (rule rank_unique [OF assms(1)]) (use lo assms(2,4) in \<open>auto simp: window_def\<close>)
  assume "\<forall>x. Q x \<longrightarrow> key < x"
  then have "ks ! i \<noteq> key" if "i < length ks" for i using lo [of i] that by (cases "i < nat lo") auto
  then show "key \<notin> set ks" by (auto simp: in_set_conv_nth)
qed

text \<open>Inserting and removing at the rank of a key, on an association list with increasing keys.\<close>

definition keys_of :: "(int \<times> 'v) list \<Rightarrow> int list" where "keys_of ps = map fst ps"

definition ins_at :: "int \<Rightarrow> 'v \<Rightarrow> (int \<times> 'v) list \<Rightarrow> (int \<times> 'v) list" where
  "ins_at k v ps = take (rank (keys_of ps) k) ps @ (k, v) # drop (rank (keys_of ps) k) ps"

definition del_at :: "int \<Rightarrow> (int \<times> 'v) list \<Rightarrow> (int \<times> 'v) list" where
  "del_at k ps = take (rank (keys_of ps) k) ps @ drop (Suc (rank (keys_of ps) k)) ps"

lemma keys_split:
  assumes "sorted_wrt (<) (keys_of ps)" and "r = rank (keys_of ps) k"
  shows "\<forall>x \<in> fst ` set (take r ps). x < k" "\<forall>x \<in> fst ` set (drop r ps). k \<le> x"
  using rank_take_drop [OF assms(1), of k] assms(2) by (simp_all add: keys_of_def take_map drop_map)

lemma ins_at_sorted:
  assumes s: "sorted_wrt (<) (keys_of ps)" and k: "k \<notin> fst ` set ps"
  shows "sorted_wrt (<) (keys_of (ins_at k v ps))" "map_of (ins_at k v ps) = (map_of ps)(k \<mapsto> v)"
proof -
  define r where "r = rank (keys_of ps) k"
  note sp = keys_split [OF s r_def]
  have ps: "ps = take r ps @ drop r ps" by simp
  have "sorted_wrt (<) (map fst (take r ps) @ map fst (drop r ps))"
    using s ps by (metis keys_of_def map_append)
  moreover have lt: "\<forall>x \<in> fst ` set (drop r ps). k < x"
  proof
    fix x assume x: "x \<in> fst ` set (drop r ps)"
    then have "x \<in> fst ` set ps" by (auto dest: in_set_dropD)
    then have "x \<noteq> k" using k by blast
    then show "k < x" using sp(2) x by force
  qed
  moreover have ins: "ins_at k v ps = take r ps @ (k, v) # drop r ps" by (simp add: ins_at_def r_def)
  ultimately show "sorted_wrt (<) (keys_of (ins_at k v ps))"
    using sp(1) by (auto simp: keys_of_def sorted_wrt_append)
  have "map_of (take r ps) k = None" using sp(1) by (auto simp: map_of_eq_None_iff)
  moreover have "map_of ps x = (map_of (drop r ps) ++ map_of (take r ps)) x" for x
    by (metis append_take_drop_id map_of_append)
  ultimately have "map_of (ins_at k v ps) x = ((map_of ps)(k \<mapsto> v)) x" for x
    by (auto simp: ins map_add_def split: option.splits)
  then show "map_of (ins_at k v ps) = (map_of ps)(k \<mapsto> v)" by auto
qed

lemma del_at_sorted:
  assumes s: "sorted_wrt (<) (keys_of ps)" and k: "k \<in> fst ` set ps"
  shows "sorted_wrt (<) (keys_of (del_at k ps))" "map_of (del_at k ps) = (map_of ps)(k := None)"
    "rank (keys_of ps) k < length ps" "fst (ps ! rank (keys_of ps) k) = k"
proof -
  define r where "r = rank (keys_of ps) k"
  note sp = keys_split [OF s r_def]
  obtain v where v: "(k, v) \<in> set ps" using k by auto
  have "set ps = set (take r ps) \<union> set (drop r ps)" by (metis append_take_drop_id set_append)
  moreover have "(k, v) \<notin> set (take r ps)" using sp(1) by force
  ultimately have inr: "(k, v) \<in> set (drop r ps)" using v by blast
  obtain x rest where d: "drop r ps = x # rest" using inr by (cases "drop r ps") auto
  have srt: "sorted_wrt (<) (map fst (take r ps) @ fst x # map fst rest)"
    using s d by (metis append_take_drop_id keys_of_def list.simps(9) map_append)
  have fx: "fst x = k"
  proof (rule ccontr)
    assume ne: "fst x \<noteq> k"
    then have "(k, v) \<in> set rest" using inr d by auto
    then have "fst x < k" using srt by (auto simp: sorted_wrt_append)
    then show False using sp(2) d by auto
  qed
  have len: "r < length ps" using d by (metis drop_all list.distinct(1) not_less)
  then show "rank (keys_of ps) k < length ps" by (simp add: r_def)
  have "ps ! r = x" using d len by (metis hd_drop_conv_nth list.sel(1))
  then show "fst (ps ! rank (keys_of ps) k) = k" using fx r_def by simp
  have del: "del_at k ps = take r ps @ rest"
    using d by (simp add: del_at_def r_def [symmetric]) (metis drop_Suc list.sel(3) tl_drop)
  show "sorted_wrt (<) (keys_of (del_at k ps))"
    using srt by (auto simp: del keys_of_def sorted_wrt_append)
  have "map_of (take r ps) k = None" "map_of rest k = None"
    using srt fx by (auto simp: sorted_wrt_append map_of_eq_None_iff)
  moreover have "ps = take r ps @ x # rest" using d by (metis append_take_drop_id)
  then have "map_of ps = map_of (take r ps @ x # rest)" by simp
  ultimately have "map_of (take r ps @ rest) y = ((map_of ps)(k := None)) y" for y
    using fx by (cases x) (auto simp: map_add_def split: option.splits)
  then show "map_of (del_at k ps) = (map_of ps)(k := None)" by (auto simp: del)
qed

lemma sorted_keys_distinct:
  assumes "sorted_wrt (<) (keys_of ps)"
  shows "distinct (map fst ps)" "card (dom (map_of ps)) = length ps"
proof -
  show d: "distinct (map fst ps)" using assms by (simp add: keys_of_def strict_sorted_iff)
  show "card (dom (map_of ps)) = length ps" using distinct_card [OF d] by (simp add: dom_map_of_conv_image_fst)
qed

subsection \<open>What a node promises its tree\<close>

text \<open>
  A client of a node uses it as a finite map of bounded size.  The map itself, with the
  status each operation reports, and the runs of a sequence of operations on it:
\<close>

datatype 'v node_op = Put int 'v | Del int | Get int

datatype 'v node_out = Said Status | Got "'v option"

definition fm_put :: "nat \<Rightarrow> (int \<rightharpoonup> 'v) \<Rightarrow> int \<Rightarrow> 'v \<Rightarrow> Status \<times> (int \<rightharpoonup> 'v)" where
  "fm_put cap m k v = (if cap \<le> card (dom m) then (InvalidArg, m)
     else if k \<in> dom m then (AlreadyExists, m) else (Ok, m(k \<mapsto> v)))"

definition fm_del :: "(int \<rightharpoonup> 'v) \<Rightarrow> int \<Rightarrow> Status \<times> (int \<rightharpoonup> 'v)" where
  "fm_del m k = (if k \<in> dom m then (Ok, m(k := None)) else (NotFound, m))"

fun node_step :: "('s \<Rightarrow> int \<Rightarrow> 'v \<Rightarrow> Status \<times> 's) \<Rightarrow> ('s \<Rightarrow> int \<Rightarrow> Status \<times> 's) \<Rightarrow> ('s \<Rightarrow> int \<Rightarrow> 'v option)
    \<Rightarrow> 's \<Rightarrow> 'v node_op \<Rightarrow> 'v node_out \<times> 's" where
  "node_step put del get s (Put k v) = (case put s k v of (st, s') \<Rightarrow> (Said st, s'))"
| "node_step put del get s (Del k) = (case del s k of (st, s') \<Rightarrow> (Said st, s'))"
| "node_step put del get s (Get k) = (Got (get s k), s)"

fun node_run :: "('s \<Rightarrow> 'o \<Rightarrow> 'r \<times> 's) \<Rightarrow> 's \<Rightarrow> 'o list \<Rightarrow> 'r list \<times> 's" where
  "node_run stp s [] = ([], s)"
| "node_run stp s (x # xs) = (case stp s x of (r, s') \<Rightarrow> case node_run stp s' xs of (rs, t) \<Rightarrow> (r # rs, t))"

locale bounded_map =
  fixes inv :: "'s \<Rightarrow> bool" and amap :: "'s \<Rightarrow> int \<rightharpoonup> 'v" and cap :: "'s \<Rightarrow> nat"
    and put :: "'s \<Rightarrow> int \<Rightarrow> 'v \<Rightarrow> Status \<times> 's" and del :: "'s \<Rightarrow> int \<Rightarrow> Status \<times> 's"
    and get :: "'s \<Rightarrow> int \<Rightarrow> 'v option"
  assumes get_law: "inv s \<Longrightarrow> get s k = amap s k"
    and put_law: "inv s \<Longrightarrow> map_prod id amap (put s k v) = fm_put (cap s) (amap s) k v"
    and put_keeps: "inv s \<Longrightarrow> inv (snd (put s k v)) \<and> cap (snd (put s k v)) = cap s"
    and del_law: "inv s \<Longrightarrow> map_prod id amap (del s k) = fm_del (amap s) k"
    and del_keeps: "inv s \<Longrightarrow> inv (snd (del s k)) \<and> cap (snd (del s k)) = cap s"
begin

lemma step_refines:
  assumes "inv s" "node_step put del get s x = (r, t)"
  shows "node_step (fm_put (cap s)) fm_del (\<lambda>m. m) (amap s) x = (r, amap t)" "inv t" "cap t = cap s"
proof -
  have "node_step (fm_put (cap s)) fm_del (\<lambda>m. m) (amap s) x = (r, amap t) \<and> inv t \<and> cap t = cap s"
  proof (cases x)
    case (Put k v)
    then show ?thesis using assms put_law [of s k v] put_keeps [of s k v]
      by (auto simp: map_prod_def split: prod.splits)
  next
    case (Del k)
    then show ?thesis using assms del_law [of s k] del_keeps [of s k]
      by (auto simp: map_prod_def split: prod.splits)
  next
    case (Get k)
    then show ?thesis using assms get_law [of s k] by auto
  qed
  then show "node_step (fm_put (cap s)) fm_del (\<lambda>m. m) (amap s) x = (r, amap t)" "inv t" "cap t = cap s" by auto
qed

lemma run_refines:
  assumes "inv s" "node_run (node_step put del get) s xs = (rs, t)"
  shows "node_run (node_step (fm_put (cap s)) fm_del (\<lambda>m. m)) (amap s) xs = (rs, amap t) \<and> inv t"
  using assms
proof (induction xs arbitrary: s rs)
  case (Cons x xs)
  obtain r s' where s: "node_step put del get s x = (r, s')" by force
  obtain rs' where rs: "node_run (node_step put del get) s' xs = (rs', t)" "rs = r # rs'"
    using Cons.prems(2) s by (auto split: prod.splits)
  note st = step_refines [OF Cons.prems(1) s]
  then show ?case using Cons.IH [OF st(2) rs(1)] rs(2) by simp
qed auto

lemma put_then_get:
  assumes "inv s" "put s k v = (Ok, s')"
  shows "get s' j = (if j = k then Some v else get s j)"
  using put_law [OF assms(1), of k v] put_keeps [OF assms(1), of k v] assms get_law
  by (auto simp: fm_put_def split: if_splits)

lemma put_then_del:
  assumes "inv s" "put s k v = (Ok, s')"
  obtains s'' where "del s' k = (Ok, s'')" "amap s'' = amap s"
proof -
  have "amap s' = (amap s)(k \<mapsto> v)" "amap s k = None" "inv s'"
    using put_law [OF assms(1), of k v] put_keeps [OF assms(1), of k v] assms
    by (auto simp: fm_put_def split: if_splits)
  moreover from this have "map_prod id amap (del s' k) = (Ok, amap s)"
    using del_law [of s' k] by (auto simp: fm_del_def)
  ultimately show thesis using that by (cases "del s' k") auto
qed

end

subsection \<open>Encoding of the entries\<close>

text \<open>Both kinds of node store a 64-bit key as two 32-bit halves, the low one first.\<close>

definition key_lo :: "int \<Rightarrow> u32" where
  "key_lo k = ucast ((word_of_int k :: u64) AND 0xFFFFFFFF)"

definition key_hi :: "int \<Rightarrow> u32" where
  "key_hi k = ucast (drop_bit 32 (word_of_int k :: u64))"

definition key_of_halves :: "u32 \<Rightarrow> u32 \<Rightarrow> int" where
  "key_of_halves lo hi = sint (push_bit 32 (ucast hi :: u64) OR ucast lo)"

definition int64 :: "int \<Rightarrow> bool" where
  "int64 k = (- (2 ^ 63) \<le> k \<and> k < 2 ^ 63)"

text \<open>The loops over the entries: they stop at the first entry that fails.\<close>

fun ser_entries :: "(Serializer \<Rightarrow> 'e \<Rightarrow> Status \<times> Serializer) \<Rightarrow> Serializer \<Rightarrow> 'e list \<Rightarrow> Status \<times> Serializer" where
  "ser_entries f s [] = (Ok, s)"
| "ser_entries f s (e # es) = and_then (f s e) (\<lambda>s. ser_entries f s es)"

fun des_entries :: "(Deserializer \<Rightarrow> 'e \<Rightarrow> Status \<times> 'e \<times> Deserializer) \<Rightarrow> Deserializer \<Rightarrow> nat \<Rightarrow> nat \<Rightarrow> 'e list
    \<Rightarrow> Status \<times> 'e list" where
  "des_entries f d i 0 es = (Ok, es)"
| "des_entries f d i (Suc n) es = (case f d (es ! i) of (st, e, d') \<Rightarrow>
     if st \<noteq> Ok then (st, es[i := e]) else des_entries f d' (Suc i) n (es[i := e]))"

lemma key_halves_roundtrip:
  assumes "int64 k"
  shows "key_of_halves (key_lo k) (key_hi k) = k"
proof -
  have "push_bit 32 (ucast (ucast (drop_bit 32 x) :: u32)) OR ucast (ucast (x AND 0xFFFFFFFF) :: u32) = x" for x :: u64
  proof -
    have m: "x AND 0xFFFFFFFF = take_bit 32 x" by (simp add: take_bit_eq_mask mask_eq_exp_minus_1)
    show ?thesis unfolding m by (rule bit_word_eqI) (auto simp: bit_simps)
  qed
  then have "key_of_halves (key_lo k) (key_hi k) = sint (word_of_int k :: u64)"
    by (simp add: key_of_halves_def key_lo_def key_hi_def)
  also have "\<dots> = k" using assms by (simp add: int64_def signed_of_int signed_take_bit_int_eq_self)
  finally show ?thesis .
qed

text \<open>What an entry format promises to the page that stores a run of entries.\<close>

locale entry_codec =
  fixes ser :: "Serializer \<Rightarrow> 'e \<Rightarrow> Status \<times> Serializer" and des :: "Deserializer \<Rightarrow> 'e \<Rightarrow> Status \<times> 'e \<times> Deserializer"
    and bytes :: "'e \<Rightarrow> byte list" and wf :: "'e \<Rightarrow> bool" and width :: nat
  assumes bytes_width: "length (bytes e) = width"
    and ser_fits: "ser_cursor s + width \<le> length (ser_buffer s) \<Longrightarrow> ser s e = (Ok, ser_put s (bytes e))"
    and des_ahead: "wf e \<Longrightarrow> ahead d (bytes e) \<Longrightarrow> des d e0 = (Ok, e, des_skip d width)"
begin

lemma concat_width: "length (concat (map bytes es)) = length es * width"
  by (induction es) (auto simp: bytes_width)

lemma ser_entries_fits:
  "ser_cursor s + length es * width \<le> length (ser_buffer s) \<Longrightarrow>
   ser_entries ser s es = (Ok, ser_put s (concat (map bytes es)))"
proof (induction es arbitrary: s)
  case (Cons e es)
  then have "ser_entries ser (ser_put s (bytes e)) es = (Ok, ser_put (ser_put s (bytes e)) (concat (map bytes es)))"
    by (intro Cons.IH) (simp add: bytes_width add.assoc)
  then show ?case using Cons.prems by (simp add: ser_fits ser_put_append bytes_width concat_width add.assoc)
qed simp

lemma des_entries_ahead:
  "\<lbrakk>list_all wf es; ahead d (concat (map bytes es)); i + length es \<le> length arr\<rbrakk> \<Longrightarrow>
   des_entries des d i (length es) arr = (Ok, overwrite arr i es)"
proof (induction es arbitrary: d i arr)
  case (Cons e es)
  have a: "ahead d (bytes e)" "ahead (des_skip d width) (concat (map bytes es))"
    using ahead_append [of d "bytes e" "concat (map bytes es)"] Cons.prems(2) by (auto simp: bytes_width)
  have "overwrite (arr[i := e]) (Suc i) es = overwrite arr i (e # es)"
    using Cons.prems(3) by (intro nth_equalityI) (auto simp: nth_overwrite nth_list_update nth_Cons')
  then show ?case using Cons.IH [of "des_skip d width" "Suc i" "arr[i := e]"] Cons.prems a
    by (simp add: des_ahead [OF _ a(1)])
qed (simp add: overwrite_def)

end

end
