(* ===== verification/BTreeLeaf.thy ===== *)
theory BTreeLeaf
  imports BTreePage
begin

text \<open>
  B+ tree leaf pages: \<^verbatim>\<open>include/index/btree_leaf_page.hpp\<close> and
  \<^verbatim>\<open>src/index/btree_leaf_page.cpp\<close>.

  A key is a 64-bit signed integer that is only compared and copied: it is an \<open>int\<close>, with
  the 64-bit range stated where a key is encoded.  The \<open>int32_t\<close> indices of the binary
  searches stay between -1 and 65536 and cannot wrap.
\<close>

record LeafEntry =
  le_key :: int
  le_rid :: RID

definition default_LeafEntry :: LeafEntry where
  "default_LeafEntry = \<lparr>le_key = 0, le_rid = default_RID\<rparr>"

definition kSiblingPtrSize :: nat where "kSiblingPtrSize = 8"
definition kLeafHeaderSize :: nat where "kLeafHeaderSize = kBTreeHeaderSize + kSiblingPtrSize"
definition kLeafEntrySize :: nat where "kLeafEntrySize = 8 + 4 + 2"
definition kLeafMaxEntries :: nat where "kLeafMaxEntries = (kPageBodySize - kLeafHeaderSize) div kLeafEntrySize"

record BTreeLeafPage =
  lf_header :: BTreePage
  lf_prev :: PageId
  lf_next :: PageId
  lf_entries :: "LeafEntry list"

definition default_BTreeLeafPage :: BTreeLeafPage where
  "default_BTreeLeafPage = \<lparr>lf_header = default_BTreePage, lf_prev = kInvalidPageId, lf_next = kInvalidPageId,
     lf_entries = replicate kLeafMaxEntries default_LeafEntry\<rparr>"

definition leaf_init :: "BTreeLeafPage \<Rightarrow> PageId \<Rightarrow> PageId \<Rightarrow> BTreeLeafPage" where
  "leaf_init l pid parent = l\<lparr>lf_header := mk_BTreePage BTreeLeaf pid parent (word_of_nat kLeafMaxEntries),
     lf_prev := kInvalidPageId, lf_next := kInvalidPageId\<rparr>"

definition leaf_size :: "BTreeLeafPage \<Rightarrow> u16" where
  "leaf_size l = current_size (lf_header l)"

definition leaf_set_size :: "BTreeLeafPage \<Rightarrow> u16 \<Rightarrow> BTreeLeafPage" where
  "leaf_set_size l n = l\<lparr>lf_header := (lf_header l)\<lparr>current_size := n\<rparr>\<rparr>"

definition leaf_keyAt :: "BTreeLeafPage \<Rightarrow> u16 \<Rightarrow> int" where
  "leaf_keyAt l i = le_key (lf_entries l ! unat i)"

definition leaf_valueAt :: "BTreeLeafPage \<Rightarrow> u16 \<Rightarrow> RID" where
  "leaf_valueAt l i = le_rid (lf_entries l ! unat i)"

function leaf_find_loop :: "LeafEntry list \<Rightarrow> int \<Rightarrow> int \<Rightarrow> int \<Rightarrow> int" where
  "leaf_find_loop es key lo hi =
    (if lo \<le> hi then
       let mid = lo + (hi - lo) div 2; k = le_key (es ! nat mid) in
       if k = key then mid
       else if k < key then leaf_find_loop es key (mid + 1) hi
       else leaf_find_loop es key lo (mid - 1)
     else - 1)"
  by pat_completeness auto
termination by (relation "measure (\<lambda>(es, key, lo, hi). nat (hi - lo + 1))") auto

declare leaf_find_loop.simps [simp del]

definition leaf_findIndex :: "BTreeLeafPage \<Rightarrow> int \<Rightarrow> int" where
  "leaf_findIndex l key =
    (if leaf_size l = 0 then - 1 else leaf_find_loop (lf_entries l) key 0 (int (unat (leaf_size l)) - 1))"

definition leaf_lookup :: "BTreeLeafPage \<Rightarrow> int \<Rightarrow> RID option" where
  "leaf_lookup l key = (let idx = leaf_findIndex l key in
     if idx < 0 then None else Some (le_rid (lf_entries l ! nat idx)))"

function leaf_lower_bound :: "LeafEntry list \<Rightarrow> int \<Rightarrow> int \<Rightarrow> int \<Rightarrow> int" where
  "leaf_lower_bound es key lo hi =
    (if lo < hi then
       let mid = lo + (hi - lo) div 2 in
       if le_key (es ! nat mid) < key then leaf_lower_bound es key (mid + 1) hi
       else leaf_lower_bound es key lo mid
     else lo)"
  by pat_completeness auto
termination by (relation "measure (\<lambda>(es, key, lo, hi). nat (hi - lo))") auto

declare leaf_lower_bound.simps [simp del]

definition leaf_insert :: "BTreeLeafPage \<Rightarrow> int \<Rightarrow> RID \<Rightarrow> Status \<times> BTreeLeafPage" where
  "leaf_insert l key rid =
    (if bt_isFull (lf_header l) then (InvalidArg, l)
     else let count = unat (leaf_size l);
              pos = unat (word_of_int (leaf_lower_bound (lf_entries l) key 0 (int count)) :: u16) in
       if pos < count \<and> le_key (lf_entries l ! pos) = key then (AlreadyExists, l)
       else let es = shift_right pos (count - pos) (lf_entries l) in
         (Ok, leaf_set_size (l\<lparr>lf_entries := es[pos := \<lparr>le_key = key, le_rid = rid\<rparr>]\<rparr>) (leaf_size l + 1)))"

definition leaf_remove :: "BTreeLeafPage \<Rightarrow> int \<Rightarrow> Status \<times> BTreeLeafPage" where
  "leaf_remove l key = (let idx = leaf_findIndex l key in
     if idx < 0 then (NotFound, l)
     else let count = leaf_size l; pos = unat (word_of_int idx :: u16) in
       (Ok, leaf_set_size (l\<lparr>lf_entries := shift_left pos (unat (count - 1) - pos) (lf_entries l)\<rparr>) (count - 1)))"

text \<open>The moves between two leaves return this leaf and the recipient.\<close>

definition leaf_moveHalfTo :: "BTreeLeafPage \<Rightarrow> BTreeLeafPage \<Rightarrow> BTreeLeafPage \<times> BTreeLeafPage" where
  "leaf_moveHalfTo l r = (let total = leaf_size l; half = total div 2; move_count = total - half in
     (leaf_set_size l half,
      leaf_set_size (r\<lparr>lf_entries := copy_entries (lf_entries l) (unat half) 0 (unat move_count) (lf_entries r)\<rparr>) move_count))"

definition leaf_moveFirstToEndOf :: "BTreeLeafPage \<Rightarrow> BTreeLeafPage \<Rightarrow> BTreeLeafPage \<times> BTreeLeafPage" where
  "leaf_moveFirstToEndOf l r =
    (leaf_set_size (l\<lparr>lf_entries := shift_left 0 (unat (leaf_size l) - 1) (lf_entries l)\<rparr>) (leaf_size l - 1),
     leaf_set_size (r\<lparr>lf_entries := (lf_entries r)[unat (leaf_size r) := lf_entries l ! 0]\<rparr>) (leaf_size r + 1))"

definition leaf_moveLastToFrontOf :: "BTreeLeafPage \<Rightarrow> BTreeLeafPage \<Rightarrow> BTreeLeafPage \<times> BTreeLeafPage" where
  "leaf_moveLastToFrontOf l r =
    (leaf_set_size l (leaf_size l - 1),
     leaf_set_size (r\<lparr>lf_entries := (shift_right 0 (unat (leaf_size r)) (lf_entries r))[0 := lf_entries l ! (unat (leaf_size l) - 1)]\<rparr>)
       (leaf_size r + 1))"

definition leaf_moveAllTo :: "BTreeLeafPage \<Rightarrow> BTreeLeafPage \<Rightarrow> BTreeLeafPage \<times> BTreeLeafPage" where
  "leaf_moveAllTo l r =
    (leaf_set_size l 0,
     leaf_set_size (r\<lparr>lf_entries := copy_entries (lf_entries l) 0 (unat (leaf_size r)) (unat (leaf_size l)) (lf_entries r)\<rparr>)
       (leaf_size r + leaf_size l))"

definition leaf_serializeEntry :: "Serializer \<Rightarrow> LeafEntry \<Rightarrow> Status \<times> Serializer" where
  "leaf_serializeEntry ser e = io_error (
     and_then (writeUInt32 ser (key_lo (le_key e))) (\<lambda>ser.
     and_then (writeUInt32 ser (key_hi (le_key e))) (\<lambda>ser.
     and_then (writeUInt32 ser (rid_page_id (le_rid e))) (\<lambda>ser. writeUInt16 ser (rid_slot_id (le_rid e))))))"

definition leaf_deserializeEntry :: "Deserializer \<Rightarrow> LeafEntry \<Rightarrow> Status \<times> LeafEntry \<times> Deserializer" where
  "leaf_deserializeEntry de e = (case readUInt32 de 0 of (st, lo, de) \<Rightarrow> if st \<noteq> Ok then (IoError, e, de)
     else case readUInt32 de 0 of (st, hi, de) \<Rightarrow> if st \<noteq> Ok then (IoError, e, de)
     else case readUInt32 de 0 of (st, pid, de) \<Rightarrow> if st \<noteq> Ok then (IoError, e, de)
     else case readUInt16 de 0 of (st, slot, de) \<Rightarrow> if st \<noteq> Ok then (IoError, e, de)
     else (Ok, \<lparr>le_key = key_of_halves lo hi, le_rid = mk_RID pid slot\<rparr>, de))"

text \<open>Each stage writes through a window of the destination.\<close>

definition leaf_serialize :: "BTreeLeafPage \<Rightarrow> byte list \<Rightarrow> Status \<times> byte list" where
  "leaf_serialize l dest = (let count = unat (leaf_size l) in
     if length dest < kLeafHeaderSize + count * kLeafEntrySize then (IoError, dest)
     else case BTreePage_serialize (lf_header l) (slice dest 0 kBTreeHeaderSize) of (st, hdr) \<Rightarrow>
       let dest = overwrite dest 0 hdr in
       if st \<noteq> Ok then (IoError, dest)
       else case and_then (writeUInt32 (mk_Serializer (slice dest kBTreeHeaderSize kSiblingPtrSize)) (lf_prev l))
           (\<lambda>ser. writeUInt32 ser (lf_next l)) of (st, ser) \<Rightarrow>
         let dest = overwrite dest kBTreeHeaderSize (ser_buffer ser) in
         if st \<noteq> Ok then (IoError, dest)
         else case ser_entries leaf_serializeEntry (mk_Serializer (slice dest kLeafHeaderSize (count * kLeafEntrySize)))
             (take count (lf_entries l)) of (st, eser) \<Rightarrow>
           (if st \<noteq> Ok then IoError else Ok, overwrite dest kLeafHeaderSize (ser_buffer eser)))"

definition leaf_deserialize :: "BTreeLeafPage \<Rightarrow> byte list \<Rightarrow> Status \<times> BTreeLeafPage" where
  "leaf_deserialize l src =
    (if length src < kLeafHeaderSize then (IoError, l)
     else case BTreePage_deserialize default_BTreePage (slice src 0 kBTreeHeaderSize) of (st, tmp_header) \<Rightarrow>
       if st \<noteq> Ok then (IoError, l)
       else let count = unat (current_size tmp_header) in
         if length src < kLeafHeaderSize + count * kLeafEntrySize then (IoError, l)
         else read_or (readUInt32 (mk_Deserializer (slice src kBTreeHeaderSize kSiblingPtrSize)) 0) l (\<lambda>prev de.
              read_or (readUInt32 de 0) l (\<lambda>nxt de.
                case des_entries leaf_deserializeEntry (mk_Deserializer (slice src kLeafHeaderSize (count * kLeafEntrySize)))
                    0 count (replicate kLeafMaxEntries default_LeafEntry) of (st, tmp_entries) \<Rightarrow>
                  if st \<noteq> Ok then (IoError, l)
                  else (Ok, \<lparr>lf_header = tmp_header, lf_prev = prev, lf_next = nxt, lf_entries = tmp_entries\<rparr>))))"

subsection \<open>What a leaf holds\<close>

definition leaf_pairs :: "BTreeLeafPage \<Rightarrow> (int \<times> RID) list" where
  "leaf_pairs l = map (\<lambda>e. (le_key e, le_rid e)) (take (unat (leaf_size l)) (lf_entries l))"

definition leaf_ok :: "BTreeLeafPage \<Rightarrow> bool" where
  "leaf_ok l = (length (lf_entries l) = kLeafMaxEntries \<and> leaf_size l \<le> max_size (lf_header l)
     \<and> unat (max_size (lf_header l)) \<le> kLeafMaxEntries \<and> sorted_wrt (<) (keys_of (leaf_pairs l)))"

lemma kLeafMaxEntries_eq: "kLeafMaxEntries = 289"
  by (simp add: kLeafMaxEntries_def kLeafHeaderSize_def kLeafEntrySize_def kSiblingPtrSize_def
      kBTreeHeaderSize_def page_consts)

lemma leaf_set_size_simps [simp]:
  "leaf_size (leaf_set_size l n) = n" "lf_entries (leaf_set_size l n) = lf_entries l"
  "lf_prev (leaf_set_size l n) = lf_prev l" "lf_next (leaf_set_size l n) = lf_next l"
  "max_size (lf_header (leaf_set_size l n)) = max_size (lf_header l)"
  "bt_page_type (lf_header (leaf_set_size l n)) = bt_page_type (lf_header l)"
  "leaf_size (l\<lparr>lf_entries := es\<rparr>) = leaf_size l"
  by (simp_all add: leaf_set_size_def leaf_size_def)

lemma leaf_okD:
  assumes "leaf_ok l"
  shows "length (lf_entries l) = 289" "unat (leaf_size l) \<le> 289" "length (leaf_pairs l) = unat (leaf_size l)"
    "sorted_wrt (<) (keys_of (leaf_pairs l))" "unat (leaf_size l) \<le> unat (max_size (lf_header l))"
    "unat (max_size (lf_header l)) \<le> 289"
  using assms by (auto simp: leaf_ok_def leaf_pairs_def kLeafMaxEntries_eq word_le_nat_alt)

lemma nth_leaf_pairs:
  "\<lbrakk>leaf_ok l; i < unat (leaf_size l)\<rbrakk> \<Longrightarrow> leaf_pairs l ! i = (le_key (lf_entries l ! i), le_rid (lf_entries l ! i))"
  using leaf_okD(1,2) [of l] by (simp add: leaf_pairs_def)

lemma nth_leaf_keys:
  "\<lbrakk>leaf_ok l; i < unat (leaf_size l)\<rbrakk> \<Longrightarrow> keys_of (leaf_pairs l) ! i = le_key (lf_entries l ! i)"
  using leaf_okD(3) [of l] by (simp add: keys_of_def nth_leaf_pairs)

subsection \<open>The searches\<close>

lemma leaf_find_loop_spec:
  assumes "sorted_wrt (<) ks" "\<And>i. i < length ks \<Longrightarrow> le_key (es ! i) = ks ! i"
    and "window (\<lambda>x. x < key) (\<lambda>x. key < x) ks lo hi"
  shows "leaf_find_loop es key lo hi = (if key \<in> set ks then int (rank ks key) else - 1)"
  using assms
proof (induction es key lo hi rule: leaf_find_loop.induct)
  case (1 es key lo hi)
  define mid where "mid = lo + (hi - lo) div 2"
  note s = "1.prems"(1) and w = "1.prems"(3)
  note unroll = leaf_find_loop.simps [of es key lo hi] mid_def [symmetric] Let_def
  show ?case
  proof (cases "lo \<le> hi")
    case False
    then show ?thesis using window_empty(2) [OF s w] by (simp add: unroll)
  next
    case True
    note mid = window_mid [OF w True mid_def]
    have k: "le_key (es ! nat mid) = ks ! nat mid" by (rule "1.prems"(2) [OF mid(3)])
    consider "ks ! nat mid = key" | "ks ! nat mid < key" | "key < ks ! nat mid" by linarith
    then show ?thesis
    proof cases
      case hit: 1
      then show ?thesis using True k mid(4) window_hit [OF s mid(3) hit] by (simp add: unroll)
    next
      case 2
      then show ?thesis
        using True k "1.IH"(1) [OF True mid_def refl _ _ s "1.prems"(2) window_up [OF s w mid(1,2)]] by (simp add: unroll)
    next
      case 3
      then show ?thesis
        using True k "1.IH"(2) [OF True mid_def refl _ _ s "1.prems"(2) window_down [OF s w mid(1,2)]] by (simp add: unroll)
    qed
  qed
qed

lemma leaf_lower_bound_spec:
  assumes "sorted_wrt (<) ks" "\<And>i. i < length ks \<Longrightarrow> le_key (es ! i) = ks ! i"
    and "window (\<lambda>x. x < key) (\<lambda>x. key \<le> x) ks lo (hi - 1)"
  shows "leaf_lower_bound es key lo hi = int (rank ks key)"
  using assms
proof (induction es key lo hi rule: leaf_lower_bound.induct)
  case (1 es key lo hi)
  define mid where "mid = lo + (hi - lo) div 2"
  note s = "1.prems"(1) and w = "1.prems"(3)
  note unroll = leaf_lower_bound.simps [of es key lo hi] mid_def [symmetric] Let_def
  show ?case
  proof (cases "lo < hi")
    case False
    have "0 \<le> lo" "rank ks key = nat lo" using False window_empty(1) [OF s w] w by (auto simp: window_def)
    then show ?thesis using False by (simp add: unroll)
  next
    case True
    then have mid: "lo \<le> mid" "mid \<le> hi - 1" "nat mid < length ks" using w by (auto simp: mid_def window_def)
    have k: "le_key (es ! nat mid) = ks ! nat mid" by (rule "1.prems"(2) [OF mid(3)])
    show ?thesis
      using True k "1.IH"(1) [OF True mid_def _ s "1.prems"(2) window_up [OF s w mid(1,2)]]
        "1.IH"(2) [OF True mid_def _ s "1.prems"(2) window_down [OF s w mid(1,2)]] by (auto simp: unroll)
  qed
qed

lemma leaf_findIndex_rank:
  assumes "leaf_ok l"
  shows "leaf_findIndex l key =
    (if key \<in> set (keys_of (leaf_pairs l)) then int (rank (keys_of (leaf_pairs l)) key) else - 1)"
proof (cases "leaf_size l = 0")
  case True
  then show ?thesis by (simp add: leaf_findIndex_def leaf_pairs_def keys_of_def)
next
  case False
  have len: "length (keys_of (leaf_pairs l)) = unat (leaf_size l)" using leaf_okD(3) [OF assms] by (simp add: keys_of_def)
  have "leaf_find_loop (lf_entries l) key 0 (int (length (keys_of (leaf_pairs l))) - 1)
    = (if key \<in> set (keys_of (leaf_pairs l)) then int (rank (keys_of (leaf_pairs l)) key) else - 1)"
    by (rule leaf_find_loop_spec [OF leaf_okD(4) [OF assms] _ window_all]) (use nth_leaf_keys [OF assms] len in simp)
  then show ?thesis using False by (simp add: leaf_findIndex_def len)
qed

lemma leaf_insert_pos:
  assumes "leaf_ok l"
  shows "unat (word_of_int (leaf_lower_bound (lf_entries l) key 0 (uint (leaf_size l))) :: u16)
    = rank (keys_of (leaf_pairs l)) key"
proof -
  have len: "length (keys_of (leaf_pairs l)) = unat (leaf_size l)" using leaf_okD(3) [OF assms] by (simp add: keys_of_def)
  have "leaf_lower_bound (lf_entries l) key 0 (int (unat (leaf_size l))) = int (rank (keys_of (leaf_pairs l)) key)"
    by (rule leaf_lower_bound_spec [OF leaf_okD(4) [OF assms]])
      (use nth_leaf_keys [OF assms] len window_all [of _ _ "keys_of (leaf_pairs l)"] in simp_all)
  moreover have "rank (keys_of (leaf_pairs l)) key < 65536"
    using rank_le [of "keys_of (leaf_pairs l)" key] len leaf_okD(2) [OF assms] by simp
  ultimately show ?thesis by (simp add: unsigned_of_nat take_bit_nat_eq_self)
qed

lemma rank_found:
  assumes "sorted_wrt (<) (keys_of ps)"
  shows "(rank (keys_of ps) k < length ps \<and> fst (ps ! rank (keys_of ps) k) = k) = (k \<in> fst ` set ps)"
  using del_at_sorted(3,4) [OF assms, of k] by (metis imageI nth_mem)

subsection \<open>A leaf as a finite map\<close>

lemma leaf_lookup_map:
  assumes "leaf_ok l"
  shows "leaf_lookup l key = map_of (leaf_pairs l) key"
proof (cases "key \<in> fst ` set (leaf_pairs l)")
  case True
  note d = del_at_sorted(3,4) [OF leaf_okD(4) [OF assms] True]
  define r where "r = rank (keys_of (leaf_pairs l)) key"
  have "distinct (map fst (leaf_pairs l))"
    using leaf_okD(4) [OF assms] by (simp add: keys_of_def strict_sorted_iff)
  then have "map_of (leaf_pairs l) key = Some (snd (leaf_pairs l ! r))"
    using d by (metis map_of_is_SomeI nth_mem prod.collapse r_def)
  then show ?thesis using True d(1) leaf_okD(3) [OF assms]
    by (simp add: leaf_lookup_def leaf_findIndex_rank [OF assms] nth_leaf_pairs [OF assms] keys_of_def r_def)
next
  case False
  then have "map_of (leaf_pairs l) key = None" by (simp add: map_of_eq_None_iff)
  then show ?thesis using False by (simp add: leaf_lookup_def leaf_findIndex_rank [OF assms] keys_of_def)
qed

lemma leaf_insert_result:
  assumes "leaf_ok l"
  shows "leaf_insert l key rid =
    (if bt_isFull (lf_header l) then (InvalidArg, l)
     else if key \<in> dom (map_of (leaf_pairs l)) then (AlreadyExists, l)
     else (Ok, snd (leaf_insert l key rid)))"
proof -
  have "(rank (keys_of (leaf_pairs l)) key < unat (leaf_size l)
      \<and> le_key (lf_entries l ! rank (keys_of (leaf_pairs l)) key) = key) = (key \<in> fst ` set (leaf_pairs l))"
    using rank_found [OF leaf_okD(4) [OF assms], of key] leaf_okD(3) [OF assms]
    by (auto simp: nth_leaf_pairs [OF assms])
  then show ?thesis
    by (simp add: leaf_insert_def leaf_insert_pos [OF assms] Let_def dom_map_of_conv_image_fst)
qed

lemma leaf_insert_pairs:
  assumes "leaf_ok l" "leaf_insert l key rid = (Ok, l')"
  shows "leaf_pairs l' = ins_at key rid (leaf_pairs l)" "leaf_ok l'"
    "leaf_size l' = leaf_size l + 1" "lf_prev l' = lf_prev l" "lf_next l' = lf_next l"
proof -
  define r where "r = rank (keys_of (leaf_pairs l)) key"
  define n where "n = unat (leaf_size l)"
  have full: "\<not> bt_isFull (lf_header l)" and new: "key \<notin> fst ` set (leaf_pairs l)"
    using assms(2) leaf_insert_result [OF assms(1), of key rid] by (auto simp: dom_map_of_conv_image_fst split: if_splits)
  have l': "l' = leaf_set_size (l\<lparr>lf_entries := (shift_right r (n - r) (lf_entries l))[r := \<lparr>le_key = key, le_rid = rid\<rparr>]\<rparr>) (leaf_size l + 1)"
    using assms(2) full by (auto simp: leaf_insert_def leaf_insert_pos [OF assms(1)] Let_def r_def n_def split: if_splits)
  have lt: "n < unat (max_size (lf_header l))" using full by (simp add: bt_isFull_def leaf_size_def n_def word_le_nat_alt)
  have n: "n < 289" "r \<le> n"
    using lt leaf_okD(6) [OF assms(1)] rank_le [of "keys_of (leaf_pairs l)" key] leaf_okD(3) [OF assms(1)]
    by (auto simp: n_def r_def keys_of_def)
  have sz: "unat (leaf_size l + 1) = Suc n" using n(1) by (simp add: n_def unat_word_ariths)
  show pairs: "leaf_pairs l' = ins_at key rid (leaf_pairs l)"
    unfolding ins_at_def r_def [symmetric]
    using n take_insert_at [OF n(2), of "lf_entries l" "\<lparr>le_key = key, le_rid = rid\<rparr>"] leaf_okD(1) [OF assms(1)]
    by (simp add: leaf_pairs_def l' sz n_def [symmetric] take_map drop_map min_def)
  show "leaf_ok l'"
    using leaf_okD(1,6) [OF assms(1)] ins_at_sorted(1) [OF leaf_okD(4) [OF assms(1)] new] lt sz
    by (simp add: leaf_ok_def pairs) (simp add: l' kLeafMaxEntries_eq word_le_nat_alt)
  show "leaf_size l' = leaf_size l + 1" "lf_prev l' = lf_prev l" "lf_next l' = lf_next l" by (simp_all add: l')
qed

lemma leaf_remove_result:
  assumes "leaf_ok l"
  shows "leaf_remove l key =
    (if key \<in> dom (map_of (leaf_pairs l)) then (Ok, snd (leaf_remove l key)) else (NotFound, l))"
  by (simp add: leaf_remove_def leaf_findIndex_rank [OF assms] Let_def dom_map_of_conv_image_fst keys_of_def)

lemma leaf_remove_pairs:
  assumes "leaf_ok l" "leaf_remove l key = (Ok, l')"
  shows "leaf_pairs l' = del_at key (leaf_pairs l)" "leaf_ok l'"
    "leaf_size l' = leaf_size l - 1" "lf_prev l' = lf_prev l" "lf_next l' = lf_next l"
proof -
  define r where "r = rank (keys_of (leaf_pairs l)) key"
  define n where "n = unat (leaf_size l)"
  have key: "key \<in> fst ` set (leaf_pairs l)"
    using assms(2) leaf_remove_result [OF assms(1), of key] by (auto simp: dom_map_of_conv_image_fst split: if_splits)
  note d = del_at_sorted [OF leaf_okD(4) [OF assms(1)] key]
  have r: "r < n" "n \<le> 289" using d(3) leaf_okD(2,3) [OF assms(1)] by (auto simp: r_def n_def)
  have sz: "unat (leaf_size l - 1) = n - 1" using r unat_minus_one [of "leaf_size l"] by (cases "leaf_size l = 0") (auto simp: n_def)
  have l': "l' = leaf_set_size (l\<lparr>lf_entries := shift_left r (n - 1 - r) (lf_entries l)\<rparr>) (leaf_size l - 1)"
  proof -
    have "leaf_findIndex l key = int r" using key by (simp add: leaf_findIndex_rank [OF assms(1)] r_def keys_of_def)
    moreover have "unat (word_of_nat r :: u16) = r" using r by (simp add: unsigned_of_nat take_bit_nat_eq_self)
    ultimately show ?thesis using assms(2) by (simp add: leaf_remove_def sz)
  qed
  show pairs: "leaf_pairs l' = del_at key (leaf_pairs l)"
    unfolding del_at_def r_def [symmetric]
    using r take_remove_at [OF r(1), of "lf_entries l"] leaf_okD(1) [OF assms(1)]
    by (simp add: leaf_pairs_def l' sz n_def [symmetric] take_map drop_map min_def)
  show "leaf_ok l'"
    using leaf_okD(1,5,6) [OF assms(1)] d(1) sz
    by (simp add: leaf_ok_def pairs) (simp add: l' kLeafMaxEntries_eq word_le_nat_alt n_def)
  show "leaf_size l' = leaf_size l - 1" "lf_prev l' = lf_prev l" "lf_next l' = lf_next l" by (simp_all add: l')
qed

definition leaf_map :: "BTreeLeafPage \<Rightarrow> int \<rightharpoonup> RID" where
  "leaf_map l = map_of (leaf_pairs l)"

definition leaf_cap :: "BTreeLeafPage \<Rightarrow> nat" where
  "leaf_cap l = unat (max_size (lf_header l))"

lemma leaf_full: "leaf_ok l \<Longrightarrow> bt_isFull (lf_header l) = (leaf_cap l \<le> card (dom (leaf_map l)))"
  using sorted_keys_distinct(2) [OF leaf_okD(4)] leaf_okD(3)
  by (simp add: bt_isFull_def leaf_cap_def leaf_map_def leaf_size_def word_le_nat_alt)

lemma leaf_cap_kept: "leaf_cap (snd (leaf_insert l k v)) = leaf_cap l" "leaf_cap (snd (leaf_remove l k)) = leaf_cap l"
  by (simp_all add: leaf_cap_def leaf_insert_def leaf_remove_def Let_def)

interpretation leaf_node: bounded_map leaf_ok leaf_map leaf_cap leaf_insert leaf_remove leaf_lookup
proof
  fix l k v assume ok: "leaf_ok l"
  show "leaf_lookup l k = leaf_map l k" by (simp add: leaf_lookup_map [OF ok] leaf_map_def)
  have put: "leaf_ok (snd (leaf_insert l k v)) \<and> map_prod id leaf_map (leaf_insert l k v) = fm_put (leaf_cap l) (leaf_map l) k v"
  proof (cases "bt_isFull (lf_header l) \<or> k \<in> dom (leaf_map l)")
    case True
    then show ?thesis using ok by (subst (1 2) leaf_insert_result [OF ok]) (auto simp: fm_put_def leaf_full leaf_map_def)
  next
    case False
    then have "leaf_insert l k v = (Ok, snd (leaf_insert l k v))"
      using leaf_insert_result [OF ok, of k v] by (auto simp: leaf_map_def)
    note p = leaf_insert_pairs(1,2) [OF ok this]
    have "leaf_map (snd (leaf_insert l k v)) = (leaf_map l)(k \<mapsto> v)"
      unfolding leaf_map_def p(1)
      using False by (intro ins_at_sorted(2) [OF leaf_okD(4) [OF ok]]) (auto simp: leaf_map_def dom_map_of_conv_image_fst)
    then show ?thesis using False p(2) \<open>leaf_insert l k v = (Ok, _)\<close>
      by (simp add: fm_put_def leaf_full [OF ok]) (metis False leaf_full map_prod_simp id_apply ok)
  qed
  then show "map_prod id leaf_map (leaf_insert l k v) = fm_put (leaf_cap l) (leaf_map l) k v"
    "leaf_ok (snd (leaf_insert l k v)) \<and> leaf_cap (snd (leaf_insert l k v)) = leaf_cap l"
    by (simp_all add: leaf_cap_kept)
  have del: "leaf_ok (snd (leaf_remove l k)) \<and> map_prod id leaf_map (leaf_remove l k) = fm_del (leaf_map l) k"
  proof (cases "k \<in> dom (leaf_map l)")
    case False
    then show ?thesis using ok by (subst (1 2) leaf_remove_result [OF ok]) (auto simp: fm_del_def leaf_map_def)
  next
    case True
    then have rm: "leaf_remove l k = (Ok, snd (leaf_remove l k))"
      using leaf_remove_result [OF ok, of k] by (simp add: leaf_map_def)
    note p = leaf_remove_pairs(1,2) [OF ok rm]
    have "leaf_map (snd (leaf_remove l k)) = (leaf_map l)(k := None)"
      unfolding leaf_map_def p(1)
      using True by (intro del_at_sorted(2) [OF leaf_okD(4) [OF ok]]) (auto simp: leaf_map_def dom_map_of_conv_image_fst)
    then show ?thesis using True p(2) by (subst (2) rm) (simp add: fm_del_def)
  qed
  then show "map_prod id leaf_map (leaf_remove l k) = fm_del (leaf_map l) k"
    "leaf_ok (snd (leaf_remove l k)) \<and> leaf_cap (snd (leaf_remove l k)) = leaf_cap l"
    by (simp_all add: leaf_cap_kept)
qed

lemma leaf_init_ok:
  assumes "length (lf_entries l) = kLeafMaxEntries"
  shows "leaf_ok (leaf_init l pid parent)" "leaf_pairs (leaf_init l pid parent) = []"
  using assms by (simp_all add: leaf_ok_def leaf_init_def leaf_size_def mk_BTreePage_def leaf_pairs_def keys_of_def
      kLeafMaxEntries_eq)

text \<open>
  C17. A leaf behaves as a finite map of bounded size: any sequence of insertions, removals and
  lookups on a well-formed leaf returns, one by one, the results the map gives (\<open>InvalidArg\<close>
  when full, \<open>AlreadyExists\<close> for a key in the leaf, \<open>NotFound\<close> for a missing one), and leaves
  a well-formed leaf that holds the map reached.
\<close>

theorem leaf_refines_map:
  assumes "leaf_ok l" "node_run (node_step leaf_insert leaf_remove leaf_lookup) l xs = (rs, l')"
  shows "node_run (node_step (fm_put (leaf_cap l)) fm_del (\<lambda>m. m)) (leaf_map l) xs = (rs, leaf_map l') \<and> leaf_ok l'"
  by (rule leaf_node.run_refines [OF assms])

definition example_leaf :: BTreeLeafPage where
  "example_leaf = leaf_init default_BTreeLeafPage 4 2"

lemma example_leaf: "leaf_ok example_leaf" "leaf_map example_leaf = Map.empty" "leaf_cap example_leaf = 289"
  unfolding example_leaf_def leaf_map_def
  by (simp_all add: leaf_init_ok default_BTreeLeafPage_def) (simp add: leaf_cap_def leaf_init_def mk_BTreePage_def kLeafMaxEntries_eq)

theorem leaf_refines_map_witness:
  "fst (node_run (node_step leaf_insert leaf_remove leaf_lookup) example_leaf
     [Put 7 (mk_RID 1 0), Put 3 (mk_RID 1 1), Put 7 (mk_RID 1 2), Get 3, Del 3, Del 3, Get 3, Get 7])
   = [Said Ok, Said Ok, Said AlreadyExists, Got (Some (mk_RID 1 1)), Said Ok, Said NotFound, Got None, Got (Some (mk_RID 1 0))]"
proof -
  let ?xs = "[Put 7 (mk_RID 1 0), Put 3 (mk_RID 1 1), Put 7 (mk_RID 1 2), Get 3, Del 3, Del 3, Get 3, Get 7]"
  obtain rs l' where r: "node_run (node_step leaf_insert leaf_remove leaf_lookup) example_leaf ?xs = (rs, l')" by force
  have "card {3, 7::int} = 2" by simp
  then show ?thesis using leaf_refines_map [OF example_leaf(1) r] unfolding example_leaf(2,3) r
    by (simp add: fm_put_def fm_del_def insert_commute)
qed

subsection \<open>Moves between siblings\<close>

lemma leaf_pairs_set [simp]:
  "leaf_pairs (leaf_set_size l n) = map (\<lambda>e. (le_key e, le_rid e)) (take (unat n) (lf_entries l))"
  by (simp add: leaf_pairs_def)

lemma leaf_okI:
  assumes "leaf_ok l" "length (lf_entries l') = length (lf_entries l)" "max_size (lf_header l') = max_size (lf_header l)"
    "length (leaf_pairs l') = unat (leaf_size l')" "unat (leaf_size l') \<le> unat (max_size (lf_header l))"
    "sorted_wrt (<) (keys_of (leaf_pairs l'))"
  shows "leaf_ok l'"
  using assms by (auto simp: leaf_ok_def word_le_nat_alt)

text \<open>
  Splitting a leaf neither loses, duplicates nor reorders an entry: the leaf keeps the
  lower half, the recipient (whatever it held before) has the upper half, and both are well
  formed.
\<close>

theorem leaf_split:
  assumes "leaf_ok l" "leaf_ok r" "max_size (lf_header l) \<le> max_size (lf_header r)" "leaf_moveHalfTo l r = (l', r')"
  shows "leaf_pairs l' @ leaf_pairs r' = leaf_pairs l \<and> length (leaf_pairs l') = length (leaf_pairs l) div 2
    \<and> leaf_ok l' \<and> leaf_ok r'"
proof -
  define n where "n = unat (leaf_size l)"
  define h where "h = unat (leaf_size l div 2)"
  have h: "h = n div 2" "h \<le> n" by (simp_all add: h_def n_def unat_div)
  have m: "unat (leaf_size l - leaf_size l div 2) = n - h"
    using h by (simp add: unat_sub word_le_nat_alt h_def n_def)
  note dl = leaf_okD [OF assms(1), folded n_def] and dr = leaf_okD [OF assms(2)]
  have l': "l' = leaf_set_size l (leaf_size l div 2)"
    and r': "r' = leaf_set_size (r\<lparr>lf_entries := copy_entries (lf_entries l) h 0 (n - h) (lf_entries r)\<rparr>)
      (leaf_size l - leaf_size l div 2)"
    using assms(4) by (simp_all add: leaf_moveHalfTo_def Let_def m h_def)
  have pl: "leaf_pairs l' = take h (leaf_pairs l)"
    using h by (simp add: l' h_def [symmetric]) (simp add: leaf_pairs_def n_def [symmetric] take_map min_def)
  have "take (n - h) (copy_entries (lf_entries l) h 0 (n - h) (lf_entries r)) = drop h (take n (lf_entries l))"
    using take_copy_after [of 0 "n - h" "lf_entries r" h "lf_entries l"] h dl dr by (simp add: drop_take)
  then have pr: "leaf_pairs r' = drop h (leaf_pairs l)"
    by (simp add: r' m) (simp add: leaf_pairs_def n_def [symmetric] drop_map)
  have srt: "sorted_wrt (<) (keys_of (leaf_pairs l'))" "sorted_wrt (<) (keys_of (leaf_pairs r'))"
    using dl(4) by (simp_all add: pl pr keys_of_def take_map [symmetric] drop_map [symmetric] sorted_wrt_take sorted_wrt_drop)
  have len: "length (leaf_pairs l') = h" "length (leaf_pairs r') = n - h" using dl(3) h by (simp_all add: pl pr)
  have mx: "unat (max_size (lf_header l)) \<le> unat (max_size (lf_header r))" using assms(3) by (simp add: word_le_nat_alt)
  have fl: "length (lf_entries l') = length (lf_entries l)" "max_size (lf_header l') = max_size (lf_header l)" "unat (leaf_size l') = h"
    and fr: "length (lf_entries r') = length (lf_entries r)" "max_size (lf_header r') = max_size (lf_header r)" "unat (leaf_size r') = n - h"
    using m by (simp_all add: l' r' h_def)
  have "leaf_ok l'" by (rule leaf_okI [OF assms(1)]) (use fl srt len dl(5) h in simp_all)
  moreover have "leaf_ok r'" by (rule leaf_okI [OF assms(2)]) (use fr srt len dl(5) h mx in simp_all)
  ultimately show ?thesis using dl(3) h len by (simp add: pl pr)
qed

definition two_leaf :: "int \<Rightarrow> int \<Rightarrow> BTreeLeafPage" where
  "two_leaf a b = leaf_set_size (example_leaf\<lparr>lf_entries :=
     [\<lparr>le_key = a, le_rid = mk_RID 1 0\<rparr>, \<lparr>le_key = b, le_rid = mk_RID 1 1\<rparr>] @ replicate 287 default_LeafEntry\<rparr>) 2"

lemma two_leaf:
  "leaf_pairs (two_leaf a b) = [(a, mk_RID 1 0), (b, mk_RID 1 1)]" "leaf_size (two_leaf a b) = 2"
  "max_size (lf_header (two_leaf a b)) = 289" "a < b \<Longrightarrow> leaf_ok (two_leaf a b)"
  by (simp_all add: two_leaf_def leaf_ok_def keys_of_def kLeafMaxEntries_eq example_leaf_def leaf_init_def mk_BTreePage_def)

theorem leaf_split_witness:
  "let (l, r) = leaf_moveHalfTo (two_leaf 3 7) (two_leaf 8 9) in
    leaf_pairs l @ leaf_pairs r = [(3, mk_RID 1 0), (7, mk_RID 1 1)] \<and> length (leaf_pairs l) = 1 \<and> leaf_ok r"
  using leaf_split [of "two_leaf 3 7" "two_leaf 8 9"] two_leaf
  by (cases "leaf_moveHalfTo (two_leaf 3 7) (two_leaf 8 9)") simp

text \<open>
  Merging a leaf into its left neighbour appends all of its entries there and leaves it
  empty; borrowing moves exactly the first entry of the right leaf, or the last of the left
  one, over the boundary.  Order is kept and no entry is lost.
\<close>

theorem leaf_merge:
  assumes "leaf_ok l" "leaf_ok r" "unat (leaf_size l) + unat (leaf_size r) \<le> unat (max_size (lf_header l))"
    "sorted_wrt (<) (keys_of (leaf_pairs l @ leaf_pairs r))" "leaf_moveAllTo r l = (r', l')"
  shows "leaf_pairs l' = leaf_pairs l @ leaf_pairs r \<and> leaf_pairs r' = [] \<and> leaf_ok l' \<and> leaf_ok r'"
proof -
  define n where "n = unat (leaf_size l)"
  define m where "m = unat (leaf_size r)"
  note dl = leaf_okD [OF assms(1), folded n_def] and dr = leaf_okD [OF assms(2), folded m_def]
  have r': "r' = leaf_set_size r 0"
    and l': "l' = leaf_set_size (l\<lparr>lf_entries := copy_entries (lf_entries r) 0 n m (lf_entries l)\<rparr>) (leaf_size l + leaf_size r)"
    using assms(5) by (simp_all add: leaf_moveAllTo_def n_def m_def)
  have sz: "unat (leaf_size l + leaf_size r) = n + m"
    using assms(3) dl(6) by (simp add: unat_word_ariths n_def m_def)
  have pl: "leaf_pairs l' = leaf_pairs l @ leaf_pairs r"
    using take_copy_after [of n m "lf_entries l" 0 "lf_entries r"] dl dr assms(3)
    by (simp add: l' sz) (simp add: leaf_pairs_def n_def [symmetric] m_def [symmetric])
  have "leaf_ok l'"
    using leaf_okI [OF assms(1), of l'] assms(3,4) dl(3) dr(3) sz by (simp add: pl) (simp add: l' n_def m_def)
  moreover have "leaf_ok r'" using leaf_okI [OF assms(2), of r'] by (simp add: r' keys_of_def)
  ultimately show ?thesis by (simp add: pl r')
qed

theorem leaf_merge_witness:
  "let (r, l) = leaf_moveAllTo (two_leaf 8 9) (two_leaf 3 7) in keys_of (leaf_pairs l) = [3, 7, 8, 9] \<and> leaf_pairs r = []"
  using leaf_merge [of "two_leaf 3 7" "two_leaf 8 9"] two_leaf
  by (cases "leaf_moveAllTo (two_leaf 8 9) (two_leaf 3 7)") (simp add: keys_of_def)

lemma leaf_borrow_first:
  assumes "leaf_ok l" "leaf_ok r" "leaf_pairs r \<noteq> []" "leaf_size l < max_size (lf_header l)"
    "sorted_wrt (<) (keys_of (leaf_pairs l @ leaf_pairs r))" "leaf_moveFirstToEndOf r l = (r', l')"
  shows "leaf_pairs l' = leaf_pairs l @ [hd (leaf_pairs r)] \<and> leaf_pairs r' = tl (leaf_pairs r) \<and> leaf_ok l' \<and> leaf_ok r'"
proof -
  define n where "n = unat (leaf_size l)"
  define m where "m = unat (leaf_size r)"
  note dl = leaf_okD [OF assms(1), folded n_def] and dr = leaf_okD [OF assms(2), folded m_def]
  have m: "0 < m" using assms(3) dr(3) by (cases m) auto
  have n: "n < unat (max_size (lf_header l))" using assms(4) by (simp add: n_def word_less_nat_alt)
  have sz: "unat (leaf_size l + 1) = Suc n" "unat (leaf_size r - 1) = m - 1"
    using n dl(6) m unat_minus_one [of "leaf_size r"]
    by (simp_all add: n_def unat_word_ariths) (cases "leaf_size r = 0"; simp add: m_def)
  have r': "r' = leaf_set_size (r\<lparr>lf_entries := shift_left 0 (m - 1) (lf_entries r)\<rparr>) (leaf_size r - 1)"
    and l': "l' = leaf_set_size (l\<lparr>lf_entries := (lf_entries l)[n := lf_entries r ! 0]\<rparr>) (leaf_size l + 1)"
    using assms(6) by (simp_all add: leaf_moveFirstToEndOf_def n_def m_def)
  have pr: "leaf_pairs r' = tl (leaf_pairs r)"
    using take_remove_at [of 0 m "lf_entries r"] m dr
    by (simp add: r' sz) (simp add: leaf_pairs_def m_def [symmetric] map_tl drop_Suc)
  have "take (Suc n) ((lf_entries l)[n := lf_entries r ! 0]) = take n (lf_entries l) @ [lf_entries r ! 0]"
    using n dl by (simp add: take_Suc_conv_app_nth)
  moreover have "hd (leaf_pairs r) = (le_key (lf_entries r ! 0), le_rid (lf_entries r ! 0))"
    using m nth_leaf_pairs [OF assms(2), of 0] assms(3) by (simp add: hd_conv_nth m_def)
  ultimately have pl: "leaf_pairs l' = leaf_pairs l @ [hd (leaf_pairs r)]"
    by (simp add: l' sz) (simp add: leaf_pairs_def n_def [symmetric])
  obtain x xs where x: "leaf_pairs r = x # xs" using assms(3) by (cases "leaf_pairs r") auto
  have srt: "sorted_wrt (<) (keys_of (leaf_pairs l'))" "sorted_wrt (<) (keys_of (leaf_pairs r'))"
    using assms(5) by (auto simp: pl pr x keys_of_def sorted_wrt_append)
  have len: "length (leaf_pairs l') = Suc n" "length (leaf_pairs r') = m - 1" using dl(3) dr(3) by (simp_all add: pl pr)
  have fl: "length (lf_entries l') = length (lf_entries l)" "max_size (lf_header l') = max_size (lf_header l)" "unat (leaf_size l') = Suc n"
    and fr: "length (lf_entries r') = length (lf_entries r)" "max_size (lf_header r') = max_size (lf_header r)" "unat (leaf_size r') = m - 1"
    using sz by (simp_all add: l' r')
  have "leaf_ok l'" by (rule leaf_okI [OF assms(1)]) (use fl srt len dl(5) dr(5) n in simp_all)
  moreover have "leaf_ok r'" by (rule leaf_okI [OF assms(2)]) (use fr srt len dl(5) dr(5) n in simp_all)
  ultimately show ?thesis by (simp add: pl pr)
qed

lemma leaf_borrow_last:
  assumes "leaf_ok l" "leaf_ok r" "leaf_pairs l \<noteq> []" "leaf_size r < max_size (lf_header r)"
    "sorted_wrt (<) (keys_of (leaf_pairs l @ leaf_pairs r))" "leaf_moveLastToFrontOf l r = (l', r')"
  shows "leaf_pairs l' = butlast (leaf_pairs l) \<and> leaf_pairs r' = last (leaf_pairs l) # leaf_pairs r \<and> leaf_ok l' \<and> leaf_ok r'"
proof -
  define n where "n = unat (leaf_size l)"
  define m where "m = unat (leaf_size r)"
  note dl = leaf_okD [OF assms(1), folded n_def] and dr = leaf_okD [OF assms(2), folded m_def]
  have n: "0 < n" using assms(3) dl(3) by (cases n) auto
  have m: "m < unat (max_size (lf_header r))" using assms(4) by (simp add: m_def word_less_nat_alt)
  have sz: "unat (leaf_size r + 1) = Suc m" "unat (leaf_size l - 1) = n - 1"
    using m dr(6) n unat_minus_one [of "leaf_size l"]
    by (simp_all add: m_def unat_word_ariths) (cases "leaf_size l = 0"; simp add: n_def)
  have l': "l' = leaf_set_size l (leaf_size l - 1)"
    and r': "r' = leaf_set_size (r\<lparr>lf_entries := (shift_right 0 m (lf_entries r))[0 := lf_entries l ! (n - 1)]\<rparr>) (leaf_size r + 1)"
    using assms(6) by (simp_all add: leaf_moveLastToFrontOf_def n_def m_def)
  have pl: "leaf_pairs l' = butlast (leaf_pairs l)"
    using dl n by (simp add: l' sz) (simp add: leaf_pairs_def n_def [symmetric] butlast_conv_take take_map min_def)
  have "last (leaf_pairs l) = (le_key (lf_entries l ! (n - 1)), le_rid (lf_entries l ! (n - 1)))"
    using n nth_leaf_pairs [OF assms(1), of "n - 1"] dl(3) assms(3) by (simp add: last_conv_nth n_def)
  then have pr: "leaf_pairs r' = last (leaf_pairs l) # leaf_pairs r"
    using take_insert_at [of 0 m "lf_entries r"] m dr by (simp add: r' sz) (simp add: leaf_pairs_def m_def [symmetric])
  obtain xs x where x: "leaf_pairs l = xs @ [x]" using assms(3) by (metis append_butlast_last_id)
  have srt: "sorted_wrt (<) (keys_of (leaf_pairs l'))" "sorted_wrt (<) (keys_of (leaf_pairs r'))"
    using assms(5) by (auto simp: pl pr x keys_of_def sorted_wrt_append)
  have len: "length (leaf_pairs l') = n - 1" "length (leaf_pairs r') = Suc m" using dl(3) dr(3) by (simp_all add: pl pr)
  have fl: "length (lf_entries l') = length (lf_entries l)" "max_size (lf_header l') = max_size (lf_header l)" "unat (leaf_size l') = n - 1"
    and fr: "length (lf_entries r') = length (lf_entries r)" "max_size (lf_header r') = max_size (lf_header r)" "unat (leaf_size r') = Suc m"
    using sz by (simp_all add: l' r')
  have "leaf_ok l'" by (rule leaf_okI [OF assms(1)]) (use fl srt len dl(5) dr(5) m in simp_all)
  moreover have "leaf_ok r'" by (rule leaf_okI [OF assms(2)]) (use fr srt len dl(5) dr(5) m in simp_all)
  ultimately show ?thesis by (simp add: pl pr)
qed

subsection \<open>Encoding\<close>

definition entry_bytes :: "LeafEntry \<Rightarrow> byte list" where
  "entry_bytes e = bytes_of_u32 (key_lo (le_key e)) @ bytes_of_u32 (key_hi (le_key e))
     @ bytes_of_u32 (rid_page_id (le_rid e)) @ bytes_of_u16 (rid_slot_id (le_rid e))"

definition wf_entry :: "LeafEntry \<Rightarrow> bool" where
  "wf_entry e = int64 (le_key e)"

interpretation leaf_codec: entry_codec leaf_serializeEntry leaf_deserializeEntry entry_bytes wf_entry kLeafEntrySize
proof
  fix s :: Serializer and d :: Deserializer and e e0 :: LeafEntry
  show w: "length (entry_bytes e) = kLeafEntrySize" by (simp add: entry_bytes_def kLeafEntrySize_def)
  show "leaf_serializeEntry s e = (Ok, ser_put s (entry_bytes e))"
    if "ser_cursor s + kLeafEntrySize \<le> length (ser_buffer s)"
    using that by (simp add: leaf_serializeEntry_def writeUInt32_def writeUInt16_def writeRaw_put ser_put_append
        io_error_def entry_bytes_def kLeafEntrySize_def)
  show "leaf_deserializeEntry d e0 = (Ok, e, des_skip d kLeafEntrySize)" if "wf_entry e" and a0: "ahead d (entry_bytes e)"
  proof -
    note a0 = a0 [unfolded entry_bytes_def]
    note a1 = ahead_rest(1) [OF a0] note a2 = ahead_rest(1) [OF a1] note a3 = ahead_rest(1) [OF a2]
    have "leaf_deserializeEntry d e0 = (Ok, e, des_skip (des_skip (des_skip (des_skip d 4) 4) 4) 2)"
      using that(1) by (simp add: leaf_deserializeEntry_def read_next(1) [OF a0] read_next(1) [OF a1] read_next(1) [OF a2]
          read_ahead(4) [OF a3] key_halves_roundtrip wf_entry_def mk_RID_def)
    then show ?thesis by (simp add: skip_skip kLeafEntrySize_def)
  qed
qed

definition leaf_bytes :: "BTreeLeafPage \<Rightarrow> byte list" where
  "leaf_bytes l = header_bytes (lf_header l) @ bytes_of_u32 (lf_prev l) @ bytes_of_u32 (lf_next l)
     @ concat (map entry_bytes (take (unat (leaf_size l)) (lf_entries l)))"

lemma leaf_consts: "kLeafHeaderSize = 24" "kLeafEntrySize = 14" "kBTreeHeaderSize = 16" "kSiblingPtrSize = 8"
  by (simp_all add: kLeafHeaderSize_def kLeafEntrySize_def kBTreeHeaderSize_def kSiblingPtrSize_def)

lemma length_leaf_bytes:
  "leaf_ok l \<Longrightarrow> length (leaf_bytes l) = 24 + unat (leaf_size l) * 14"
  using leaf_codec.concat_width [of "take (unat (leaf_size l)) (lf_entries l)"] leaf_okD(1,2) [of l]
  by (simp add: leaf_bytes_def leaf_consts)

lemma leaf_fits: "leaf_ok l \<Longrightarrow> 24 + unat (leaf_size l) * 14 \<le> kPageBodySize"
  using leaf_okD(2) [of l] by (simp add: page_consts)

lemma write_two_u32:
  assumes "length buf = 8"
  shows "and_then (writeUInt32 (mk_Serializer buf) a) (\<lambda>ser. writeUInt32 ser b)
    = (Ok, \<lparr>ser_buffer = bytes_of_u32 a @ bytes_of_u32 b, ser_cursor = 8\<rparr>)"
  using assms by (simp add: writeUInt32_def writeRaw_put mk_Serializer_def ser_put_def
      overwrite_overwrite_adjacent)

lemma leaf_serialize_bytes:
  assumes "leaf_ok l" "24 + unat (leaf_size l) * 14 \<le> length dest"
  shows "leaf_serialize l dest = (Ok, overwrite dest 0 (leaf_bytes l))"
proof -
  define n where "n = unat (leaf_size l)"
  let ?hb = "header_bytes (lf_header l)" and ?sb = "bytes_of_u32 (lf_prev l) @ bytes_of_u32 (lf_next l)"
  let ?eb = "concat (map entry_bytes (take n (lf_entries l)))"
  have es: "length (take n (lf_entries l)) = n" using leaf_okD(1,2) [OF assms(1)] by (simp add: n_def)
  have eb: "length ?eb = n * 14" using leaf_codec.concat_width [of "take n (lf_entries l)"] es by (simp add: leaf_consts)
  have hb: "length ?hb = 16" by (simp add: leaf_consts)
  have len: "24 + n * 14 \<le> length dest" using assms(2) by (simp add: n_def)
  have 1: "BTreePage_serialize (lf_header l) (slice dest 0 16) = (Ok, ?hb)"
    using header_serialize [of "slice dest 0 16" "lf_header l"] len hb by (simp add: leaf_consts)
  have 2: "and_then (writeUInt32 (mk_Serializer (slice (overwrite dest 0 ?hb) 16 8)) (lf_prev l))
      (\<lambda>ser. writeUInt32 ser (lf_next l)) = (Ok, \<lparr>ser_buffer = ?sb, ser_cursor = 8\<rparr>)"
    by (rule write_two_u32) (use len hb in simp)
  have d2: "overwrite (overwrite dest 0 ?hb) 16 ?sb = overwrite dest 0 (?hb @ ?sb)"
    by (rule overwrite_overwrite_adjacent) (use len hb in simp_all)
  let ?d2 = "overwrite dest 0 (?hb @ ?sb)"
  have 3: "ser_entries leaf_serializeEntry (mk_Serializer (slice ?d2 24 (n * 14))) (take n (lf_entries l))
      = (Ok, \<lparr>ser_buffer = ?eb, ser_cursor = n * 14\<rparr>)"
  proof -
    have "ser_entries leaf_serializeEntry (mk_Serializer (slice ?d2 24 (n * 14))) (take n (lf_entries l))
      = (Ok, ser_put (mk_Serializer (slice ?d2 24 (n * 14))) ?eb)"
      by (rule leaf_codec.ser_entries_fits) (use len es hb in \<open>simp add: mk_Serializer_def leaf_consts\<close>)
    then show ?thesis using eb len hb by (simp add: ser_put_mk)
  qed
  have d3: "overwrite ?d2 24 ?eb = overwrite dest 0 (leaf_bytes l)"
    unfolding leaf_bytes_def n_def [symmetric]
    using overwrite_overwrite_adjacent [of 0 "?hb @ ?sb" ?eb dest 24] len hb eb by simp
  show ?thesis using len 1 2 3 d2 d3 by (simp add: leaf_serialize_def Let_def n_def [symmetric] leaf_consts)
qed

lemma leaf_deserialize_bytes:
  assumes "leaf_ok l" "wf_header (lf_header l)" "list_all wf_entry (take (unat (leaf_size l)) (lf_entries l))"
    and src: "take (length (leaf_bytes l)) src = leaf_bytes l"
  shows "leaf_deserialize l0 src = (Ok, l\<lparr>lf_entries := overwrite (replicate kLeafMaxEntries default_LeafEntry) 0
    (take (unat (leaf_size l)) (lf_entries l))\<rparr>)"
proof -
  define n where "n = unat (leaf_size l)"
  let ?hb = "header_bytes (lf_header l)" and ?sb = "bytes_of_u32 (lf_prev l) @ bytes_of_u32 (lf_next l)"
  let ?eb = "concat (map entry_bytes (take n (lf_entries l)))"
  have es: "length (take n (lf_entries l)) = n" "n \<le> 289" using leaf_okD(1,2) [OF assms(1)] by (simp_all add: n_def)
  have eb: "length ?eb = n * 14" using leaf_codec.concat_width [of "take n (lf_entries l)"] es by (simp add: leaf_consts)
  have hb: "length ?hb = 16" by (simp add: leaf_consts)
  have lb: "length (leaf_bytes l) = 24 + n * 14" using length_leaf_bytes [OF assms(1)] by (simp add: n_def)
  have len: "24 + n * 14 \<le> length src" using arg_cong [OF src, of length] lb by simp
  have sl: "slice src k m = slice (leaf_bytes l) k m" if "k + m \<le> 24 + n * 14" for k m
    using arg_cong [OF src, of "\<lambda>x. slice x k m"] that lb by (simp add: slice_def take_drop min_def)
  have 1: "BTreePage_deserialize default_BTreePage (slice src 0 16) = (Ok, lf_header l)"
    by (rule header_deserialize) (use sl [of 0 16] hb assms(2) in \<open>simp_all add: leaf_bytes_def leaf_consts slice_append_left\<close>)
  have a: "ahead (mk_Deserializer (slice src 16 8)) (bytes_of_u32 (lf_prev l) @ bytes_of_u32 (lf_next l) @ [])"
    by (rule ahead_mk) (use sl [of 16 8] hb in \<open>simp add: leaf_bytes_def slice_append_right slice_def\<close>)
  note rd = read_or_next(1) [OF a] read_or_next(1) [OF ahead_rest(1) [OF a]]
  have "ahead (mk_Deserializer (slice src 24 (n * 14))) ?eb"
    by (rule ahead_mk) (use sl [of 24 "n * 14"] hb eb in \<open>simp add: leaf_bytes_def slice_append_right n_def [symmetric] slice_def\<close>)
  then have 3: "des_entries leaf_deserializeEntry (mk_Deserializer (slice src 24 (n * 14))) 0 n
      (replicate kLeafMaxEntries default_LeafEntry) = (Ok, overwrite (replicate kLeafMaxEntries default_LeafEntry) 0 (take n (lf_entries l)))"
    using leaf_codec.des_entries_ahead [of "take n (lf_entries l)" _ 0 "replicate kLeafMaxEntries default_LeafEntry"] assms(3) es
    by (simp add: n_def [symmetric] kLeafMaxEntries_eq)
  have c: "unat (current_size (lf_header l)) = n" by (simp add: n_def leaf_size_def)
  show ?thesis using len 1 3 by (simp add: rd leaf_deserialize_def Let_def leaf_consts c n_def [symmetric])
qed

text \<open>
  Every well-formed leaf fits into the body of a page, and a leaf written there and read
  back has the same header, sibling pointers and entries, whatever the reader held before.
\<close>

theorem leaf_page_roundtrip:
  assumes "leaf_ok l" "wf_header (lf_header l)" "list_all wf_entry (take (unat (leaf_size l)) (lf_entries l))"
    "length dest = kPageBodySize"
  shows "\<exists>dest' l'. leaf_serialize l dest = (Ok, dest') \<and> length dest' = kPageBodySize \<and> leaf_deserialize l0 dest' = (Ok, l')
    \<and> lf_header l' = lf_header l \<and> lf_prev l' = lf_prev l \<and> lf_next l' = lf_next l \<and> leaf_pairs l' = leaf_pairs l \<and> leaf_ok l'"
proof -
  let ?d = "overwrite dest 0 (leaf_bytes l)"
  let ?l = "l\<lparr>lf_entries := overwrite (replicate kLeafMaxEntries default_LeafEntry) 0 (take (unat (leaf_size l)) (lf_entries l))\<rparr>"
  have fits: "length (leaf_bytes l) \<le> length dest" using leaf_fits [OF assms(1)] assms(4) by (simp add: length_leaf_bytes [OF assms(1)])
  have "leaf_serialize l dest = (Ok, ?d)"
    by (rule leaf_serialize_bytes [OF assms(1)]) (use leaf_fits [OF assms(1)] assms(4) in simp)
  moreover have "leaf_deserialize l0 ?d = (Ok, ?l)"
    by (rule leaf_deserialize_bytes [OF assms(1,2,3)]) (simp add: overwrite_def)
  moreover have p: "leaf_pairs ?l = leaf_pairs l" using leaf_okD(1,2) [OF assms(1)]
    by (simp add: leaf_pairs_def overwrite_def)
  moreover have "leaf_ok ?l"
    by (rule leaf_okI [OF assms(1)]) (use leaf_okD [OF assms(1)] p in \<open>simp_all add: kLeafMaxEntries_eq\<close>)
  ultimately show ?thesis using fits assms(4) by (intro exI [of _ ?d] exI [of _ ?l]) simp
qed

theorem leaf_page_roundtrip_witness:
  "\<exists>dest' l'. leaf_serialize (two_leaf (- 3) 7) (replicate kPageBodySize 0) = (Ok, dest') \<and> leaf_deserialize default_BTreeLeafPage dest' = (Ok, l')
     \<and> leaf_pairs l' = [(- 3, mk_RID 1 0), (7, mk_RID 1 1)]"
proof -
  have "wf_header (lf_header (two_leaf (- 3) 7))"
    by (simp add: two_leaf_def wf_header_def example_leaf_def leaf_init_def mk_BTreePage_def wf_PageType_def PageType_of_byte_def)
  moreover have "list_all wf_entry (take (unat (leaf_size (two_leaf (- 3) 7))) (lf_entries (two_leaf (- 3) 7)))"
    by (simp add: two_leaf_def wf_entry_def int64_def)
  ultimately show ?thesis
    using leaf_page_roundtrip [of "two_leaf (- 3) 7" "replicate kPageBodySize 0" default_BTreeLeafPage] two_leaf(1,4)
    by fastforce
qed

end
