(* ===== verification/BTreeInternal.thy ===== *)
theory BTreeInternal
  imports BTreePage
begin

text \<open>
  B+ tree internal pages: \<^verbatim>\<open>include/index/btree_internal_page.hpp\<close> and
  \<^verbatim>\<open>src/index/btree_internal_page.cpp\<close>.

  The key of entry 0 is never compared: entry 0 holds the child for the keys below the first
  separator, entry \<open>i\<close> the child for the keys from separator \<open>i\<close> up to the next one.  The
  \<open>int32_t\<close> indices stay between 0 and 65536 and are \<open>int\<close> here.
\<close>

record InternalEntry =
  ie_key :: int
  ie_page_id :: PageId

definition default_InternalEntry :: InternalEntry where
  "default_InternalEntry = \<lparr>ie_key = 0, ie_page_id = kInvalidPageId\<rparr>"

definition kInternalEntrySize :: nat where "kInternalEntrySize = 8 + 4"
definition kInternalMaxEntries :: nat where
  "kInternalMaxEntries = (kPageBodySize - kBTreeHeaderSize) div kInternalEntrySize"

record BTreeInternalPage =
  in_header :: BTreePage
  in_entries :: "InternalEntry list"

definition default_BTreeInternalPage :: BTreeInternalPage where
  "default_BTreeInternalPage = \<lparr>in_header = default_BTreePage, in_entries = replicate kInternalMaxEntries default_InternalEntry\<rparr>"

definition internal_init :: "BTreeInternalPage \<Rightarrow> PageId \<Rightarrow> PageId \<Rightarrow> BTreeInternalPage" where
  "internal_init p pid parent = p\<lparr>in_header := (in_header p)\<lparr>bt_page_type := BTreeInternal, bt_page_id := pid,
     parent_page_id := parent, current_size := 0, max_size := word_of_nat kInternalMaxEntries\<rparr>\<rparr>"

definition internal_size :: "BTreeInternalPage \<Rightarrow> u16" where
  "internal_size p = current_size (in_header p)"

definition internal_set_size :: "BTreeInternalPage \<Rightarrow> u16 \<Rightarrow> BTreeInternalPage" where
  "internal_set_size p n = p\<lparr>in_header := (in_header p)\<lparr>current_size := n\<rparr>\<rparr>"

definition internal_keyAt :: "BTreeInternalPage \<Rightarrow> u16 \<Rightarrow> int" where
  "internal_keyAt p i = ie_key (in_entries p ! unat i)"

definition internal_setKeyAt :: "BTreeInternalPage \<Rightarrow> u16 \<Rightarrow> int \<Rightarrow> BTreeInternalPage" where
  "internal_setKeyAt p i key = p\<lparr>in_entries := (in_entries p)[unat i := (in_entries p ! unat i)\<lparr>ie_key := key\<rparr>]\<rparr>"

definition internal_childAt :: "BTreeInternalPage \<Rightarrow> u16 \<Rightarrow> PageId" where
  "internal_childAt p i = ie_page_id (in_entries p ! unat i)"

text \<open>The search loop of \<open>lookup\<close>: \<open>ans\<close> is the first separator seen above the key.\<close>

function internal_upper :: "InternalEntry list \<Rightarrow> int \<Rightarrow> int \<Rightarrow> int \<Rightarrow> int \<Rightarrow> int" where
  "internal_upper es key left right ans =
    (if left \<le> right then
       let mid = left + (right - left) div 2 in
       if ie_key (es ! nat mid) > key then internal_upper es key left (mid - 1) mid
       else internal_upper es key (mid + 1) right ans
     else ans)"
  by pat_completeness auto
termination by (relation "measure (\<lambda>(es, key, left, right, ans). nat (right - left + 1))") auto

declare internal_upper.simps [simp del]

definition internal_lookup :: "BTreeInternalPage \<Rightarrow> int \<Rightarrow> PageId" where
  "internal_lookup p key = (if internal_size p = 0 then kInvalidPageId
     else ie_page_id (in_entries p ! nat (internal_upper (in_entries p) key 1 (int (unat (internal_size p)) - 1)
       (int (unat (internal_size p))) - 1)))"

definition internal_populateNewRoot :: "BTreeInternalPage \<Rightarrow> PageId \<Rightarrow> int \<Rightarrow> PageId \<Rightarrow> BTreeInternalPage" where
  "internal_populateNewRoot p left_child key right_child =
    internal_set_size (p\<lparr>in_entries := (in_entries p)[0 := (in_entries p ! 0)\<lparr>ie_page_id := left_child\<rparr>,
       1 := \<lparr>ie_key = key, ie_page_id = right_child\<rparr>]\<rparr>) 2"

text \<open>The search loop of \<open>insert\<close>: \<open>None\<close> when the key is met, the place for it otherwise.\<close>

function internal_place :: "InternalEntry list \<Rightarrow> int \<Rightarrow> int \<Rightarrow> int \<Rightarrow> int \<Rightarrow> int option" where
  "internal_place es key left right idx =
    (if left \<le> right then
       let mid = left + (right - left) div 2 in
       if ie_key (es ! nat mid) = key then None
       else if ie_key (es ! nat mid) > key then internal_place es key left (mid - 1) mid
       else internal_place es key (mid + 1) right idx
     else Some idx)"
  by pat_completeness auto
termination by (relation "measure (\<lambda>(es, key, left, right, idx). nat (right - left + 1))") auto

declare internal_place.simps [simp del]

definition internal_insert :: "BTreeInternalPage \<Rightarrow> int \<Rightarrow> PageId \<Rightarrow> Status \<times> BTreeInternalPage" where
  "internal_insert p key child =
    (if bt_isFull (in_header p) then (InvalidArg, p)
     else let n = unat (internal_size p) in
       case internal_place (in_entries p) key 1 (int n - 1) (int n) of
         None \<Rightarrow> (AlreadyExists, p)
       | Some idx \<Rightarrow>
         (Ok, internal_set_size (p\<lparr>in_entries := (shift_right (nat idx) (n - nat idx) (in_entries p))
            [nat idx := \<lparr>ie_key = key, ie_page_id = child\<rparr>]\<rparr>) (internal_size p + 1)))"

text \<open>The search loop of \<open>remove\<close>.\<close>

function internal_find :: "InternalEntry list \<Rightarrow> int \<Rightarrow> int \<Rightarrow> int \<Rightarrow> int" where
  "internal_find es key left right =
    (if left \<le> right then
       let mid = left + (right - left) div 2 in
       if ie_key (es ! nat mid) = key then mid
       else if ie_key (es ! nat mid) > key then internal_find es key left (mid - 1)
       else internal_find es key (mid + 1) right
     else - 1)"
  by pat_completeness auto
termination by (relation "measure (\<lambda>(es, key, left, right). nat (right - left + 1))") auto

declare internal_find.simps [simp del]

definition internal_remove :: "BTreeInternalPage \<Rightarrow> int \<Rightarrow> Status \<times> BTreeInternalPage" where
  "internal_remove p key =
    (if internal_size p = 0 then (NotFound, p)
     else let n = unat (internal_size p); target = internal_find (in_entries p) key 1 (int n - 1) in
       if target = - 1 then (NotFound, p)
       else (Ok, internal_set_size (p\<lparr>in_entries := shift_left (nat target) (n - 1 - nat target) (in_entries p)\<rparr>)
         (internal_size p - 1)))"

text \<open>The moves return this page, the recipient, and the separator that goes to the parent.\<close>

definition internal_moveHalfTo :: "BTreeInternalPage \<Rightarrow> BTreeInternalPage \<Rightarrow> BTreeInternalPage \<times> BTreeInternalPage \<times> int" where
  "internal_moveHalfTo p r = (let n = unat (internal_size p); start = n div 2 in
     (internal_set_size p (word_of_nat start),
      internal_set_size (r\<lparr>in_entries := copy_entries (in_entries p) start 0 (n - start) (in_entries r)\<rparr>) (word_of_nat (n - start)),
      ie_key (in_entries p ! start)))"

definition internal_moveFirstToEndOf :: "BTreeInternalPage \<Rightarrow> BTreeInternalPage \<Rightarrow> int
    \<Rightarrow> BTreeInternalPage \<times> BTreeInternalPage \<times> int" where
  "internal_moveFirstToEndOf p r middle_key =
    (internal_set_size (p\<lparr>in_entries := shift_left 0 (unat (internal_size p) - 1) (in_entries p)\<rparr>) (internal_size p - 1),
     internal_set_size (r\<lparr>in_entries := (in_entries r)[unat (internal_size r) :=
       \<lparr>ie_key = middle_key, ie_page_id = ie_page_id (in_entries p ! 0)\<rparr>]\<rparr>) (internal_size r + 1),
     ie_key (in_entries p ! 1))"

definition internal_moveLastToFrontOf :: "BTreeInternalPage \<Rightarrow> BTreeInternalPage \<Rightarrow> int
    \<Rightarrow> BTreeInternalPage \<times> BTreeInternalPage \<times> int" where
  "internal_moveLastToFrontOf p r middle_key =
    (let lst = in_entries p ! (unat (internal_size p) - 1); es = shift_right 0 (unat (internal_size r)) (in_entries r);
         es = es[1 := (es ! 1)\<lparr>ie_key := middle_key\<rparr>]; es = es[0 := (es ! 0)\<lparr>ie_page_id := ie_page_id lst\<rparr>] in
     (internal_set_size p (internal_size p - 1), internal_set_size (r\<lparr>in_entries := es\<rparr>) (internal_size r + 1), ie_key lst))"

definition internal_moveAllTo :: "BTreeInternalPage \<Rightarrow> BTreeInternalPage \<Rightarrow> int \<Rightarrow> BTreeInternalPage \<times> BTreeInternalPage" where
  "internal_moveAllTo p r middle_key =
    (let m = unat (internal_size r);
         es = (in_entries r)[m := \<lparr>ie_key = middle_key, ie_page_id = ie_page_id (in_entries p ! 0)\<rparr>] in
     (internal_set_size p 0,
      internal_set_size (r\<lparr>in_entries := copy_entries (in_entries p) 1 (m + 1) (unat (internal_size p) - 1) es\<rparr>)
        (internal_size r + internal_size p)))"

fun find_child :: "InternalEntry list \<Rightarrow> PageId \<Rightarrow> nat \<Rightarrow> int" where
  "find_child [] child i = - 1"
| "find_child (e # es) child i = (if ie_page_id e = child then int i else find_child es child (Suc i))"

definition internal_findChildIndex :: "BTreeInternalPage \<Rightarrow> PageId \<Rightarrow> int" where
  "internal_findChildIndex p child = find_child (take (unat (internal_size p)) (in_entries p)) child 0"

definition internal_serializeEntry :: "Serializer \<Rightarrow> InternalEntry \<Rightarrow> Status \<times> Serializer" where
  "internal_serializeEntry ser e = io_error (
     and_then (writeUInt32 ser (key_lo (ie_key e))) (\<lambda>ser.
     and_then (writeUInt32 ser (key_hi (ie_key e))) (\<lambda>ser. writeUInt32 ser (ie_page_id e))))"

definition internal_deserializeEntry :: "Deserializer \<Rightarrow> InternalEntry \<Rightarrow> Status \<times> InternalEntry \<times> Deserializer" where
  "internal_deserializeEntry de e = (case readUInt32 de 0 of (st, lo, de) \<Rightarrow> if st \<noteq> Ok then (IoError, e, de)
     else case readUInt32 de 0 of (st, hi, de) \<Rightarrow> if st \<noteq> Ok then (IoError, e, de)
     else case readUInt32 de 0 of (st, pid, de) \<Rightarrow> if st \<noteq> Ok then (IoError, e, de)
     else (Ok, \<lparr>ie_key = key_of_halves lo hi, ie_page_id = pid\<rparr>, de))"

definition internal_serialize :: "BTreeInternalPage \<Rightarrow> byte list \<Rightarrow> Status \<times> byte list" where
  "internal_serialize p dest = (let n = unat (internal_size p) in
     if length dest < kBTreeHeaderSize + n * kInternalEntrySize then (IoError, dest)
     else case BTreePage_serialize (in_header p) (slice dest 0 kBTreeHeaderSize) of (st, hdr) \<Rightarrow>
       let dest = overwrite dest 0 hdr in
       if st \<noteq> Ok then (st, dest)
       else case ser_entries internal_serializeEntry (mk_Serializer (drop kBTreeHeaderSize dest)) (take n (in_entries p)) of (st, ser) \<Rightarrow>
         (st, overwrite dest kBTreeHeaderSize (ser_buffer ser)))"

text \<open>The header is replaced before the length of the source is checked against it.\<close>

definition internal_deserialize :: "BTreeInternalPage \<Rightarrow> byte list \<Rightarrow> Status \<times> BTreeInternalPage" where
  "internal_deserialize p src =
    (if length src < kBTreeHeaderSize then (IoError, p)
     else case BTreePage_deserialize (in_header p) (slice src 0 kBTreeHeaderSize) of (st, hdr) \<Rightarrow>
       if st \<noteq> Ok then (st, p\<lparr>in_header := hdr\<rparr>)
       else let p = p\<lparr>in_header := hdr\<rparr>; n = unat (internal_size p) in
         if length src < kBTreeHeaderSize + n * kInternalEntrySize then (IoError, p)
         else case des_entries internal_deserializeEntry (mk_Deserializer (drop kBTreeHeaderSize src)) 0 n (in_entries p) of (st, es) \<Rightarrow>
           (st, p\<lparr>in_entries := es\<rparr>))"

subsection \<open>What an internal page holds\<close>

definition in_pairs :: "BTreeInternalPage \<Rightarrow> (int \<times> PageId) list" where
  "in_pairs p = map (\<lambda>e. (ie_key e, ie_page_id e)) (take (unat (internal_size p)) (in_entries p))"

definition in_first :: "BTreeInternalPage \<Rightarrow> PageId" where "in_first p = ie_page_id (in_entries p ! 0)"

definition in_seps :: "BTreeInternalPage \<Rightarrow> (int \<times> PageId) list" where "in_seps p = tl (in_pairs p)"

definition internal_ok :: "BTreeInternalPage \<Rightarrow> bool" where
  "internal_ok p = (length (in_entries p) = kInternalMaxEntries \<and> internal_size p \<le> max_size (in_header p)
     \<and> unat (max_size (in_header p)) \<le> kInternalMaxEntries \<and> sorted_wrt (<) (keys_of (in_seps p)))"

text \<open>The child a key belongs to: the one of the last separator not above the key.\<close>

fun route :: "'c \<Rightarrow> (int \<times> 'c) list \<Rightarrow> int \<Rightarrow> 'c" where
  "route c [] k = c"
| "route c ((s, c') # rest) k = (if k < s then c else route c' rest k)"

lemma kInternalMaxEntries_eq: "kInternalMaxEntries = 338"
  by (simp add: kInternalMaxEntries_def kBTreeHeaderSize_def kInternalEntrySize_def page_consts)

lemma internal_set_size_simps [simp]:
  "internal_size (internal_set_size p n) = n" "in_entries (internal_set_size p n) = in_entries p"
  "max_size (in_header (internal_set_size p n)) = max_size (in_header p)"
  "internal_size (p\<lparr>in_entries := es\<rparr>) = internal_size p"
  by (simp_all add: internal_set_size_def internal_size_def)

lemma internal_okD:
  assumes "internal_ok p"
  shows "length (in_entries p) = 338" "unat (internal_size p) \<le> 338" "length (in_pairs p) = unat (internal_size p)"
    "sorted_wrt (<) (keys_of (in_seps p))" "unat (internal_size p) \<le> unat (max_size (in_header p))"
    "unat (max_size (in_header p)) \<le> 338" "length (in_seps p) = unat (internal_size p) - 1"
  using assms by (auto simp: internal_ok_def in_pairs_def in_seps_def kInternalMaxEntries_eq word_le_nat_alt)

lemma nth_in_seps:
  assumes "internal_ok p" "Suc i < unat (internal_size p)"
  shows "in_seps p ! i = (ie_key (in_entries p ! Suc i), ie_page_id (in_entries p ! Suc i))"
proof -
  have "Suc i < length (in_pairs p)" using assms internal_okD(3) by simp
  then show ?thesis using internal_okD(1) [OF assms(1)] assms(2) by (simp add: in_seps_def nth_tl) (simp add: in_pairs_def)
qed

lemma nth_in_keys:
  assumes "internal_ok p" "i < length (keys_of (in_seps p))"
  shows "ie_key (in_entries p ! Suc i) = keys_of (in_seps p) ! i"
  using nth_in_seps [OF assms(1), of i] internal_okD(7) [OF assms(1)] assms(2) by (simp add: keys_of_def)

lemma in_pairs_Cons:
  assumes "internal_ok p" "internal_size p \<noteq> 0"
  shows "in_pairs p = (ie_key (in_entries p ! 0), in_first p) # in_seps p"
proof -
  have "0 < unat (internal_size p)" using assms(2) by (simp add: unat_gt_0)
  then have "in_pairs p \<noteq> []" "in_pairs p ! 0 = (ie_key (in_entries p ! 0), in_first p)"
    using internal_okD(1,3) [OF assms(1)] by auto (simp add: in_pairs_def in_first_def)
  then show ?thesis by (cases "in_pairs p") (simp_all add: in_seps_def)
qed

subsection \<open>The searches\<close>

lemma mid_before: "mid = left + (right - left) div 2 \<Longrightarrow> mid - 1 = (left - 1) + ((right - 1) - (left - 1)) div (2::int)"
  by simp

lemma internal_upper_spec:
  assumes "sorted_wrt (<) ks" "\<And>i. i < length ks \<Longrightarrow> ie_key (es ! Suc i) = ks ! i"
    and "window (\<lambda>x. x < key + 1) (\<lambda>x. key + 1 \<le> x) ks (left - 1) (right - 1)" "ans = right + 1"
  shows "internal_upper es key left right ans = int (rank ks (key + 1)) + 1"
  using assms
proof (induction es key left right ans rule: internal_upper.induct)
  case (1 es key left right ans)
  define mid where "mid = left + (right - left) div 2"
  note s = "1.prems"(1) and w = "1.prems"(3)
  note unroll = internal_upper.simps [of es key left right ans] mid_def [symmetric] Let_def
  show ?case
  proof (cases "left \<le> right")
    case False
    then have "rank ks (key + 1) = nat (left - 1)" "0 \<le> left - 1" "left = right + 1"
      using window_empty(1) [OF s w] w by (auto simp: window_def)
    then show ?thesis using "1.prems"(4) unfolding unroll by simp
  next
    case True
    note mid = window_mid [OF w _ mid_before [OF mid_def]]
    have k: "ie_key (es ! nat mid) = ks ! nat (mid - 1)"
      using "1.prems"(2) [OF mid(3)] mid(4) True by (simp add: Suc_nat_eq_nat_zadd1)
    have up: "\<forall>x\<le>ks ! nat (mid - 1). x < key + 1 \<Longrightarrow> window (\<lambda>x. x < key + 1) (\<lambda>x. key + 1 \<le> x) ks (mid + 1 - 1) (right - 1)"
      using window_up [OF s w mid(1,2)] True by simp
    show ?thesis
      using True k "1.IH"(1) [OF True mid_def _ s "1.prems"(2) window_down [OF s w mid(1,2)]]
        "1.IH"(2) [OF True mid_def _ s "1.prems"(2) up] "1.prems"(4)
      unfolding unroll by auto
  qed
qed

lemma internal_place_spec:
  assumes "sorted_wrt (<) ks" "\<And>i. i < length ks \<Longrightarrow> ie_key (es ! Suc i) = ks ! i"
    and "window (\<lambda>x. x < key) (\<lambda>x. key < x) ks (left - 1) (right - 1)" "idx = right + 1"
  shows "internal_place es key left right idx = (if key \<in> set ks then None else Some (int (rank ks key) + 1))"
  using assms
proof (induction es key left right idx rule: internal_place.induct)
  case (1 es key left right idx)
  define mid where "mid = left + (right - left) div 2"
  note s = "1.prems"(1) and w = "1.prems"(3)
  note unroll = internal_place.simps [of es key left right idx] mid_def [symmetric] Let_def
  show ?case
  proof (cases "left \<le> right")
    case False
    then have "rank ks key = nat (left - 1)" "0 \<le> left - 1" "left = right + 1" "key \<notin> set ks"
      using window_empty [OF s w] w by (auto simp: window_def)
    then show ?thesis using "1.prems"(4) unfolding unroll by simp
  next
    case True
    note mid = window_mid [OF w _ mid_before [OF mid_def]]
    have k: "ie_key (es ! nat mid) = ks ! nat (mid - 1)"
      using "1.prems"(2) [OF mid(3)] mid(4) True by (simp add: Suc_nat_eq_nat_zadd1)
    have up: "\<forall>x\<le>ks ! nat (mid - 1). x < key \<Longrightarrow> window (\<lambda>x. x < key) (\<lambda>x. key < x) ks (mid + 1 - 1) (right - 1)"
      using window_up [OF s w mid(1,2)] True by simp
    show ?thesis
      using True k "1.IH"(1) [OF True mid_def _ _ s "1.prems"(2) window_down [OF s w mid(1,2)]]
        "1.IH"(2) [OF True mid_def _ _ s "1.prems"(2) up] "1.prems"(4)
        window_hit(1) [OF s mid(3)]
      unfolding unroll by auto
  qed
qed

lemma internal_find_spec:
  assumes "sorted_wrt (<) ks" "\<And>i. i < length ks \<Longrightarrow> ie_key (es ! Suc i) = ks ! i"
    and "window (\<lambda>x. x < key) (\<lambda>x. key < x) ks (left - 1) (right - 1)"
  shows "internal_find es key left right = (if key \<in> set ks then int (rank ks key) + 1 else - 1)"
  using assms
proof (induction es key left right rule: internal_find.induct)
  case (1 es key left right)
  define mid where "mid = left + (right - left) div 2"
  note s = "1.prems"(1) and w = "1.prems"(3)
  note unroll = internal_find.simps [of es key left right] mid_def [symmetric] Let_def
  show ?case
  proof (cases "left \<le> right")
    case False
    then show ?thesis using window_empty(2) [OF s w] by (simp add: unroll)
  next
    case True
    note mid = window_mid [OF w _ mid_before [OF mid_def]]
    have k: "ie_key (es ! nat mid) = ks ! nat (mid - 1)"
      using "1.prems"(2) [OF mid(3)] mid(4) True by (simp add: Suc_nat_eq_nat_zadd1)
    have up: "\<forall>x\<le>ks ! nat (mid - 1). x < key \<Longrightarrow> window (\<lambda>x. x < key) (\<lambda>x. key < x) ks (mid + 1 - 1) (right - 1)"
      using window_up [OF s w mid(1,2)] True by simp
    show ?thesis
      using True k "1.IH"(1) [OF True mid_def _ _ s "1.prems"(2) window_down [OF s w mid(1,2)]]
        "1.IH"(2) [OF True mid_def _ _ s "1.prems"(2) up]
        window_hit [OF s mid(3)] mid(4)
      unfolding unroll by auto
  qed
qed

subsection \<open>Routing\<close>

lemma route_rank:
  assumes "sorted_wrt (<) (keys_of ps)"
  shows "route c ps k = (let r = rank (keys_of ps) (k + 1) in if r = 0 then c else snd (ps ! (r - 1)))"
  using assms
proof (induction ps arbitrary: c)
  case (Cons x ps)
  obtain s d where x: "x = (s, d)" by force
  show ?case
  proof (cases "k < s")
    case True
    then have "filter (\<lambda>y. y < k + 1) (keys_of ps) = []"
      using Cons.prems x by (auto simp: keys_of_def filter_empty_conv)
    then show ?thesis using True x by (simp add: rank_def keys_of_def)
  next
    case False
    have r: "rank (keys_of (x # ps)) (k + 1) = Suc (rank (keys_of ps) (k + 1))" using False x by (simp add: rank_def keys_of_def)
    have "route d ps k = (let r = rank (keys_of ps) (k + 1) in if r = 0 then d else snd (ps ! (r - 1)))"
      using Cons by (simp add: keys_of_def)
    then show ?thesis using False x unfolding r by (simp add: Let_def nth_Cons')
  qed
qed (simp add: rank_def keys_of_def)

lemma route_append:
  assumes "\<forall>x \<in> set (keys_of xs). x < m"
  shows "route c (xs @ (m, c') # ys) k = (if k < m then route c xs k else route c' ys k)"
  using assms
proof (induction xs arbitrary: c)
  case (Cons x xs)
  then show ?case by (cases x) (auto simp: keys_of_def)
qed simp

definition two_internal :: "PageId \<Rightarrow> int \<Rightarrow> PageId \<Rightarrow> BTreeInternalPage" where
  "two_internal a k b = internal_populateNewRoot (internal_init default_BTreeInternalPage 9 kInvalidPageId) a k b"

lemma two_internal:
  "in_pairs (two_internal a k b) = [(0, a), (k, b)]" "in_seps (two_internal a k b) = [(k, b)]"
  "in_first (two_internal a k b) = a" "internal_size (two_internal a k b) = 2"
  "max_size (in_header (two_internal a k b)) = 338" "internal_ok (two_internal a k b)"
  "length (in_entries (two_internal a k b)) = 338" "bt_page_type (in_header (two_internal a k b)) = BTreeInternal"
proof -
  have t: "take 2 xs = [xs ! 0, xs ! 1]" if "2 \<le> length xs" for xs :: "InternalEntry list"
    using that by (cases xs; cases "tl xs") auto
  show z: "internal_size (two_internal a k b) = 2" and x: "max_size (in_header (two_internal a k b)) = 338"
    and l: "length (in_entries (two_internal a k b)) = 338"
    and "in_first (two_internal a k b) = a" "bt_page_type (in_header (two_internal a k b)) = BTreeInternal"
    by (simp_all add: two_internal_def internal_populateNewRoot_def internal_init_def default_BTreeInternalPage_def
        in_first_def internal_set_size_def internal_size_def kInternalMaxEntries_eq)
  show p: "in_pairs (two_internal a k b) = [(0, a), (k, b)]"
    using l unfolding in_pairs_def z
    by (simp add: t) (simp add: two_internal_def internal_populateNewRoot_def internal_init_def default_BTreeInternalPage_def
        default_InternalEntry_def kInternalMaxEntries_eq)
  show q: "in_seps (two_internal a k b) = [(k, b)]" by (simp add: in_seps_def p)
  show "internal_ok (two_internal a k b)" by (simp add: internal_ok_def q z x l keys_of_def kInternalMaxEntries_eq)
qed

text \<open>
  The binary search of an internal page finds the child whose range holds the key: the
  child of the last separator not above it, or the first child when all separators are above.
\<close>

theorem internal_lookup_routes:
  assumes "internal_ok p" "internal_size p \<noteq> 0"
  shows "internal_lookup p key = route (in_first p) (in_seps p) key"
proof -
  let ?ks = "keys_of (in_seps p)"
  define r where "r = rank ?ks (key + 1)"
  have n: "0 < unat (internal_size p)" using assms(2) by (simp add: unat_gt_0)
  have len: "int (length ?ks) = uint (internal_size p) - 1"
    using internal_okD(7) [OF assms(1)] n by (simp add: keys_of_def of_nat_diff)
  have "internal_upper (in_entries p) key 1 (uint (internal_size p) - 1) (uint (internal_size p)) = int r + 1"
    unfolding r_def using window_all [of _ _ ?ks] len
    by (intro internal_upper_spec [OF internal_okD(4) [OF assms(1)] nth_in_keys [OF assms(1)]]) simp_all
  then have l: "internal_lookup p key = ie_page_id (in_entries p ! r)"
    using assms(2) by (simp add: internal_lookup_def)
  have "r \<le> length ?ks" unfolding r_def by (rule rank_le)
  then have "snd (in_seps p ! (r - 1)) = ie_page_id (in_entries p ! r)" if "r \<noteq> 0"
    using nth_in_seps [OF assms(1), of "r - 1"] internal_okD(7) [OF assms(1)] that by (simp add: keys_of_def)
  then show ?thesis unfolding route_rank [OF internal_okD(4) [OF assms(1)]] l by (simp add: r_def [symmetric] in_first_def)
qed

theorem internal_lookup_routes_witness:
  "internal_lookup (two_internal 4 10 5) 9 = 4 \<and> internal_lookup (two_internal 4 10 5) 10 = 5"
  using internal_lookup_routes [of "two_internal 4 10 5"] by (simp add: two_internal)

subsection \<open>Insertion and removal of separators\<close>

lemma internal_okI:
  assumes "internal_ok p" "length (in_entries p') = length (in_entries p)" "max_size (in_header p') = max_size (in_header p)"
    "unat (internal_size p') \<le> unat (max_size (in_header p))" "sorted_wrt (<) (keys_of (in_seps p'))"
  shows "internal_ok p'"
  using assms by (auto simp: internal_ok_def word_le_nat_alt)

lemma internal_place_rank:
  assumes "internal_ok p" "internal_size p \<noteq> 0"
  shows "internal_place (in_entries p) key 1 (uint (internal_size p) - 1) (uint (internal_size p)) =
    (if key \<in> fst ` set (in_seps p) then None else Some (int (rank (keys_of (in_seps p)) key) + 1))"
    "internal_find (in_entries p) key 1 (uint (internal_size p) - 1) =
    (if key \<in> fst ` set (in_seps p) then int (rank (keys_of (in_seps p)) key) + 1 else - 1)"
proof -
  let ?ks = "keys_of (in_seps p)"
  have n: "0 < unat (internal_size p)" using assms(2) by (simp add: unat_gt_0)
  have len: "int (length ?ks) = uint (internal_size p) - 1"
    using internal_okD(7) [OF assms(1)] n by (simp add: keys_of_def of_nat_diff)
  have set: "set ?ks = fst ` set (in_seps p)" by (simp add: keys_of_def)
  show "internal_place (in_entries p) key 1 (uint (internal_size p) - 1) (uint (internal_size p)) =
      (if key \<in> fst ` set (in_seps p) then None else Some (int (rank ?ks key) + 1))"
    unfolding set [symmetric] using window_all [of _ _ ?ks] len
    by (intro internal_place_spec [OF internal_okD(4) [OF assms(1)] nth_in_keys [OF assms(1)]]) simp_all
  show "internal_find (in_entries p) key 1 (uint (internal_size p) - 1) =
      (if key \<in> fst ` set (in_seps p) then int (rank ?ks key) + 1 else - 1)"
    unfolding set [symmetric] using window_all [of _ _ ?ks] len
    by (intro internal_find_spec [OF internal_okD(4) [OF assms(1)] nth_in_keys [OF assms(1)]]) simp_all
qed

lemma internal_insert_result:
  assumes "internal_ok p" "internal_size p \<noteq> 0"
  shows "internal_insert p key child =
    (if bt_isFull (in_header p) then (InvalidArg, p)
     else if key \<in> fst ` set (in_seps p) then (AlreadyExists, p)
     else (Ok, snd (internal_insert p key child)))"
  by (simp add: internal_insert_def internal_place_rank [OF assms] Let_def)

lemma internal_insert_seps:
  assumes "internal_ok p" "internal_size p \<noteq> 0" "internal_insert p key child = (Ok, p')"
  shows "in_seps p' = ins_at key child (in_seps p)" "in_first p' = in_first p" "internal_ok p'"
    "internal_size p' = internal_size p + 1"
proof -
  define r where "r = rank (keys_of (in_seps p)) key"
  define n where "n = unat (internal_size p)"
  have full: "\<not> bt_isFull (in_header p)" and new: "key \<notin> fst ` set (in_seps p)"
    using assms(3) internal_insert_result [OF assms(1,2), of key child] by (auto split: if_splits)
  have n0: "0 < n" using assms(2) by (simp add: unat_gt_0 n_def)
  let ?e = "\<lparr>ie_key = key, ie_page_id = child\<rparr>"
  have p': "p' = internal_set_size (p\<lparr>in_entries := (shift_right (Suc r) (n - Suc r) (in_entries p))[Suc r := ?e]\<rparr>) (internal_size p + 1)"
    using assms(3) full new internal_place_rank(1) [OF assms(1,2), of key]
    by (simp add: internal_insert_def Let_def r_def n_def nat_add_distrib)
  have lt: "n < unat (max_size (in_header p))" using full by (simp add: bt_isFull_def internal_size_def n_def word_le_nat_alt)
  note d = internal_okD [OF assms(1), folded n_def]
  have r: "Suc r \<le> n" using rank_le [of "keys_of (in_seps p)" key] d(7) n0 by (simp add: r_def keys_of_def)
  have sz: "unat (internal_size p + 1) = Suc n" using lt d(6) by (simp add: n_def unat_word_ariths)
  have "in_pairs p' = take (Suc r) (in_pairs p) @ (key, child) # drop (Suc r) (in_pairs p)"
    using take_insert_at [OF r, of "in_entries p" ?e] r lt d
    by (simp add: in_pairs_def p' sz n_def [symmetric] take_map drop_map min_def)
  then show seps: "in_seps p' = ins_at key child (in_seps p)"
    unfolding in_seps_def [of p'] ins_at_def r_def [symmetric] in_pairs_Cons [OF assms(1,2)] by simp
  show "in_first p' = in_first p" using r lt d by (simp add: in_first_def p' nth_shift_right)
  show "internal_size p' = internal_size p + 1" by (simp add: p')
  show "internal_ok p'"
    by (rule internal_okI [OF assms(1)])
      (use sz lt ins_at_sorted(1) [OF d(4) new] in \<open>simp_all add: seps, simp_all add: p'\<close>)
qed

lemma internal_remove_result:
  assumes "internal_ok p" "internal_size p \<noteq> 0"
  shows "internal_remove p key =
    (if key \<in> fst ` set (in_seps p) then (Ok, snd (internal_remove p key)) else (NotFound, p))"
  using assms(2) by (simp add: internal_remove_def internal_place_rank [OF assms] Let_def)

lemma internal_remove_seps:
  assumes "internal_ok p" "internal_size p \<noteq> 0" "internal_remove p key = (Ok, p')"
  shows "in_seps p' = del_at key (in_seps p)" "in_first p' = in_first p" "internal_ok p'"
    "internal_size p' = internal_size p - 1" "internal_size p' \<noteq> 0"
proof -
  define r where "r = rank (keys_of (in_seps p)) key"
  define n where "n = unat (internal_size p)"
  have key: "key \<in> fst ` set (in_seps p)"
    using assms(3) internal_remove_result [OF assms(1,2), of key] by (auto split: if_splits)
  note d = internal_okD [OF assms(1), folded n_def]
  note del = del_at_sorted [OF d(4) key]
  have r: "Suc r < n" using del(3) d(7) by (simp add: r_def)
  have p': "p' = internal_set_size (p\<lparr>in_entries := shift_left (Suc r) (n - 1 - Suc r) (in_entries p)\<rparr>) (internal_size p - 1)"
    using assms(2,3) key internal_place_rank(2) [OF assms(1,2), of key]
    by (simp add: internal_remove_def Let_def r_def n_def nat_add_distrib)
  have sz: "unat (internal_size p - 1) = n - 1" using assms(2) unat_minus_one [of "internal_size p"] by (simp add: n_def)
  have "in_pairs p' = take (Suc r) (in_pairs p) @ drop (Suc (Suc r)) (in_pairs p)"
    using take_remove_at [OF r, of "in_entries p"] r d
    by (simp add: in_pairs_def p' sz n_def [symmetric] take_map drop_map min_def)
  then show seps: "in_seps p' = del_at key (in_seps p)"
    unfolding in_seps_def [of p'] del_at_def r_def [symmetric] in_pairs_Cons [OF assms(1,2)] by simp
  show "in_first p' = in_first p" using r d by (simp add: in_first_def p' nth_shift_left)
  show "internal_size p' = internal_size p - 1" by (simp add: p')
  show "internal_size p' \<noteq> 0" using sz r by (auto simp: p')
  show "internal_ok p'"
    by (rule internal_okI [OF assms(1)]) (use sz d(5) del(1) in \<open>simp_all add: seps, simp_all add: p'\<close>)
qed

lemma route_above: "\<forall>x \<in> set (keys_of ys). k < x \<Longrightarrow> route c (xs @ ys) k = route c xs k"
proof (induction xs arbitrary: c)
  case Nil
  then show ?case by (cases ys) (auto simp: keys_of_def)
next
  case (Cons x xs)
  then show ?case by (cases x) auto
qed

text \<open>
  A separator inserted into an internal page takes over exactly the keys from itself up to
  the next separator; every other key is routed as before.
\<close>

theorem internal_insert_routes:
  assumes "internal_ok p" "internal_size p \<noteq> 0" "internal_insert p key child = (Ok, p')"
  shows "internal_lookup p' k =
    (if key \<le> k \<and> list_all (\<lambda>s. s \<le> key \<or> k < s) (keys_of (in_seps p)) then child else internal_lookup p k)"
proof -
  note ins = internal_insert_seps [OF assms]
  define r where "r = rank (keys_of (in_seps p)) key"
  define xs where "xs = take r (in_seps p)"
  define ys where "ys = drop r (in_seps p)"
  note srt = internal_okD(4) [OF assms(1)]
  have seps: "in_seps p = xs @ ys" by (simp add: xs_def ys_def)
  have lt: "\<forall>x \<in> set (keys_of xs). x < key" "\<forall>x \<in> set (keys_of ys). key \<le> x"
    using keys_split [OF srt r_def] by (simp_all add: keys_of_def xs_def ys_def)
  have new: "key \<notin> fst ` set (in_seps p)"
    using assms(3) internal_insert_result [OF assms(1,2), of key child] by (auto split: if_splits)
  have gt: "\<forall>x \<in> set (keys_of ys). key < x"
  proof
    fix x assume x: "x \<in> set (keys_of ys)"
    then have "x \<in> fst ` set (in_seps p)" by (auto simp: seps keys_of_def)
    then have "x \<noteq> key" using new by blast
    then show "key < x" using lt(2) x by force
  qed
  have "internal_size p' \<noteq> 0" using ins(1,3) internal_okD(7) [OF ins(3)] by (auto simp: ins_at_def)
  then have l: "internal_lookup p' k = (if k < key then route (in_first p) xs k else route child ys k)"
    using internal_lookup_routes [OF ins(3)] route_append [OF lt(1)] ins(1,2)
    by (simp add: ins_at_def r_def [symmetric] xs_def [symmetric] ys_def [symmetric])
  have p: "internal_lookup p k = route (in_first p) (xs @ ys) k" using internal_lookup_routes [OF assms(1,2)] seps by simp
  have cond: "list_all (\<lambda>s. s \<le> key \<or> k < s) (keys_of (in_seps p)) = (\<forall>s \<in> set (keys_of ys). k < s)"
    using lt gt by (simp add: list_all_iff seps keys_of_def) (fastforce simp: not_le [symmetric])
  consider "k < key" | "key \<le> k" "ys = []" | s d ys' where "key \<le> k" "ys = (s, d) # ys'" "k < s"
    | s d ys' where "key \<le> k" "ys = (s, d) # ys'" "s \<le> k" by (metis list.exhaust not_less surj_pair)
  then show ?thesis
  proof cases
    case 1
    have "\<forall>x \<in> set (keys_of ys). k < x" using 1 gt by force
    then show ?thesis using 1 route_above [of ys k "in_first p" xs] by (simp add: l p)
  next
    case 2
    then show ?thesis unfolding l p cond by (simp add: keys_of_def)
  next
    case 3
    have "\<forall>x \<in> set (keys_of ys). k < x" using 3 srt by (auto simp: seps keys_of_def sorted_wrt_append)
    then show ?thesis using 3 unfolding l p cond by simp
  next
    case 4
    have "\<forall>x \<in> set (keys_of xs). x < s" using srt 4 by (auto simp: seps keys_of_def sorted_wrt_append)
    then show ?thesis using 4 route_append [of xs s "in_first p" d ys' k] unfolding l p cond by (auto simp: keys_of_def)
  qed
qed

theorem internal_insert_routes_witness:
  "let p = snd (internal_insert (two_internal 4 10 5) 20 6) in
    internal_lookup p 25 = 6 \<and> internal_lookup p 15 = 5 \<and> internal_lookup p 3 = 4"
proof -
  have "\<not> bt_isFull (in_header (two_internal 4 10 5))"
    using two_internal(4,5) [of 4 10 5] by (simp add: bt_isFull_def internal_size_def)
  then have "internal_insert (two_internal 4 10 5) 20 6 = (Ok, snd (internal_insert (two_internal 4 10 5) 20 6))"
    using internal_insert_result [of "two_internal 4 10 5" 20 6] by (simp add: two_internal)
  then show ?thesis
    using internal_insert_routes [of "two_internal 4 10 5" 20 6] internal_lookup_routes [of "two_internal 4 10 5"]
    by (simp add: two_internal keys_of_def Let_def)
qed

subsection \<open>Moves between siblings\<close>

text \<open>Two siblings under one parent separator, seen as one page.\<close>

lemma joined_routes:
  assumes "internal_ok p" "internal_ok q" "internal_size p \<noteq> 0" "internal_size q \<noteq> 0"
    and "sorted_wrt (<) (keys_of (in_seps p @ (m, in_first q) # in_seps q))"
  shows "route (in_first p) (in_seps p @ (m, in_first q) # in_seps q) k =
    (if k < m then internal_lookup p k else internal_lookup q k)"
  using assms route_append [of "in_seps p" m "in_first p" "in_first q" "in_seps q" k]
  by (auto simp: internal_lookup_routes keys_of_def sorted_wrt_append)

text \<open>
  Splitting an internal page keeps every key routed to the child it had: keys below the
  returned median find it in the page, the others in the recipient.
\<close>

theorem internal_split:
  assumes "internal_ok p" "internal_ok r" "max_size (in_header p) \<le> max_size (in_header r)" "2 \<le> internal_size p"
    "internal_moveHalfTo p r = (p', r', median)"
  shows "internal_lookup p k = (if k < median then internal_lookup p' k else internal_lookup r' k)
    \<and> internal_ok p' \<and> internal_ok r' \<and> internal_size p' \<noteq> 0 \<and> internal_size r' \<noteq> 0"
proof -
  define n where "n = unat (internal_size p)"
  define h where "h = n div 2"
  have n: "2 \<le> n" using assms(4) by (simp add: n_def word_le_nat_alt)
  then have h: "0 < h" "h < n" by (auto simp: h_def)
  note d = internal_okD [OF assms(1), folded n_def] and dr = internal_okD [OF assms(2)]
  have w: "unat (word_of_nat m :: u16) = m" if "m \<le> n" for m
    using that d(2) by (simp add: unsigned_of_nat take_bit_nat_eq_self)
  have u: "unat (word_of_nat h :: u16) = h" "unat (word_of_nat (n - h) :: u16) = n - h" by (rule w, use h in simp)+
  have p': "p' = internal_set_size p (word_of_nat h)"
    and r': "r' = internal_set_size (r\<lparr>in_entries := copy_entries (in_entries p) h 0 (n - h) (in_entries r)\<rparr>) (word_of_nat (n - h))"
    and med: "median = ie_key (in_entries p ! h)"
    using assms(5) by (simp_all add: internal_moveHalfTo_def Let_def n_def h_def)
  have mx: "unat (max_size (in_header p)) \<le> unat (max_size (in_header r))" using assms(3) by (simp add: word_le_nat_alt)
  have pp: "in_pairs p' = take h (in_pairs p)"
    using h u by (simp add: in_pairs_def p' n_def [symmetric] take_map min_def)
  have "take (n - h) (copy_entries (in_entries p) h 0 (n - h) (in_entries r)) = drop h (take n (in_entries p))"
    using take_copy_after [of 0 "n - h" "in_entries r" h "in_entries p"] h d dr mx by (simp add: drop_take)
  then have pr: "in_pairs r' = drop h (in_pairs p)" by (simp add: in_pairs_def r' u n_def [symmetric] drop_map)
  have sep: "in_seps p = take (h - 1) (in_seps p) @ in_seps p ! (h - 1) # drop h (in_seps p)"
    using id_take_nth_drop [of "h - 1" "in_seps p"] h d(7) by simp
  have s1: "in_seps p' = take (h - 1) (in_seps p)" using h by (simp add: in_seps_def pp tl_take)
  have s2: "in_seps r' = drop h (in_seps p)" by (simp add: in_seps_def pr tl_drop)
  have mid: "in_seps p ! (h - 1) = (median, in_first r')"
    using nth_in_seps [OF assms(1), of "h - 1"] h d(1) dr(1) d(2) by (simp add: n_def [symmetric] med in_first_def r' nth_copy_entries)
  have j: "in_seps p = in_seps p' @ (median, in_first r') # in_seps r'" unfolding s1 s2 mid [symmetric] by (rule sep)
  have srt: "sorted_wrt (<) (keys_of (in_seps p'))" "sorted_wrt (<) (keys_of (in_seps r'))"
    using d(4) unfolding j by (simp_all add: keys_of_def sorted_wrt_append)
  have ok: "internal_ok p'" "internal_ok r'"
    by (rule internal_okI [OF assms(1)] internal_okI [OF assms(2)]; use srt u h d(5) mx in \<open>simp add: p' r'\<close>)+
  have nz: "internal_size p' \<noteq> 0" "internal_size r' \<noteq> 0" using u h by (auto simp: p' r')
  have "in_first p' = in_first p" by (simp add: in_first_def p')
  then have "internal_lookup p k = route (in_first p') (in_seps p' @ (median, in_first r') # in_seps r') k"
    using internal_lookup_routes [OF assms(1), of k] n j by (cases "internal_size p = 0") (simp_all add: n_def)
  then show ?thesis using joined_routes [OF ok nz, of median k] d(4) ok nz j by simp
qed

theorem internal_split_witness:
  "case internal_moveHalfTo (two_internal 4 10 5) (two_internal 7 20 8) of (p, r, m) \<Rightarrow> m = 10 \<and>
     (\<forall>k. internal_lookup (two_internal 4 10 5) k = (if k < m then internal_lookup p k else internal_lookup r k)) \<and> internal_ok r"
proof (cases "internal_moveHalfTo (two_internal 4 10 5) (two_internal 7 20 8)")
  case (fields p r m)
  have "in_pairs (two_internal 4 10 5) ! 1 = (ie_key (in_entries (two_internal 4 10 5) ! 1), ie_page_id (in_entries (two_internal 4 10 5) ! 1))"
    unfolding in_pairs_def two_internal(4) by (simp add: two_internal)
  then have "m = 10" using fields by (simp add: internal_moveHalfTo_def Let_def two_internal)
  then show ?thesis using fields internal_split [OF two_internal(6) two_internal(6) _ _ fields] by (simp add: two_internal)
qed

text \<open>
  Merging an internal page into its left sibling keeps every key routed to the child it
  had below the parent separator \<open>m\<close>.
\<close>

theorem internal_merge:
  assumes "internal_ok p" "internal_ok q" "internal_size p \<noteq> 0" "internal_size q \<noteq> 0"
    and "sorted_wrt (<) (keys_of (in_seps p @ (m, in_first q) # in_seps q))"
    and "unat (internal_size p) + unat (internal_size q) \<le> unat (max_size (in_header p))"
    and "internal_moveAllTo q p m = (q', p')"
  shows "internal_lookup p' k = (if k < m then internal_lookup p k else internal_lookup q k)
    \<and> internal_ok p' \<and> internal_size p' \<noteq> 0 \<and> internal_size q' = 0"
proof -
  define n where "n = unat (internal_size p)"
  define l where "l = unat (internal_size q)"
  have nz: "0 < n" "0 < l" using assms(3,4) by (simp_all add: n_def l_def unat_gt_0)
  note d = internal_okD [OF assms(1), folded n_def] and dq = internal_okD [OF assms(2), folded l_def]
  let ?e = "\<lparr>ie_key = m, ie_page_id = in_first q\<rparr>"
  have q': "q' = internal_set_size q 0"
    and p': "p' = internal_set_size (p\<lparr>in_entries := copy_entries (in_entries q) 1 (n + 1) (l - 1) ((in_entries p)[n := ?e])\<rparr>)
      (internal_size p + internal_size q)"
    using assms(7) by (simp_all add: internal_moveAllTo_def Let_def n_def l_def in_first_def)
  have room: "n + l \<le> 338" using assms(6) d(6) by (simp add: n_def l_def)
  have sz: "unat (internal_size p + internal_size q) = n + l" using room by (simp add: unat_word_ariths n_def l_def)
  have e: "take (Suc n) ((in_entries p)[n := ?e]) = take n (in_entries p) @ [?e]"
    using nz room d(1) by (simp add: take_Suc_conv_app_nth)
  have t: "take (l - 1) (drop 1 (in_entries q)) = tl (take l (in_entries q))" by (simp add: drop_Suc tl_take)
  have "take (n + 1 + (l - 1)) (copy_entries (in_entries q) 1 (n + 1) (l - 1) ((in_entries p)[n := ?e]))
      = take n (in_entries p) @ ?e # tl (take l (in_entries q))"
    using take_copy_after [of "n + 1" "l - 1" "(in_entries p)[n := ?e]" 1 "in_entries q"] nz room d(1) dq(1,2) e t by simp
  moreover have "n + 1 + (l - 1) = n + l" using nz by simp
  ultimately have "in_pairs p' = in_pairs p @ (m, in_first q) # in_seps q"
    by (simp add: p' in_pairs_def sz n_def [symmetric]) (simp add: in_seps_def in_pairs_def map_tl l_def [symmetric])
  then have j: "in_seps p' = in_seps p @ (m, in_first q) # in_seps q"
    unfolding in_seps_def [of p'] in_pairs_Cons [OF assms(1,3)] by simp
  have ok: "internal_ok p'"
    by (rule internal_okI [OF assms(1)]) (use assms(5,6) j sz in \<open>simp_all add: n_def l_def, simp_all add: p'\<close>)
  have nz': "internal_size p' \<noteq> 0" using sz nz by (auto simp: p')
  have "in_first p' = in_first p" using nz room d(1) by (simp add: in_first_def p' nth_copy_entries)
  then have "internal_lookup p' k = route (in_first p) (in_seps p @ (m, in_first q) # in_seps q) k"
    using internal_lookup_routes [OF ok nz', of k] j by simp
  then show ?thesis using joined_routes [OF assms(1-5), of k] ok nz' by (simp add: q')
qed

theorem internal_merge_witness:
  "let p = snd (internal_moveAllTo (two_internal 7 20 8) (two_internal 4 10 5) 15) in
    internal_lookup p 12 = 5 \<and> internal_lookup p 15 = 7 \<and> internal_lookup p 30 = 8 \<and> internal_ok p"
  using internal_merge [of "two_internal 4 10 5" "two_internal 7 20 8" 15] internal_lookup_routes [of "two_internal 4 10 5"]
    internal_lookup_routes [of "two_internal 7 20 8"]
  by (cases "internal_moveAllTo (two_internal 7 20 8) (two_internal 4 10 5) 15") (simp add: two_internal keys_of_def)

lemma internal_borrow_first:
  assumes "internal_ok p" "internal_ok q" "internal_size p \<noteq> 0" "2 \<le> internal_size q"
    and "sorted_wrt (<) (keys_of (in_seps p @ (m, in_first q) # in_seps q))"
    and "internal_size p < max_size (in_header p)" "internal_moveFirstToEndOf q p m = (q', p', m')"
  shows "in_seps p' @ (m', in_first q') # in_seps q' = in_seps p @ (m, in_first q) # in_seps q"
    "in_first p' = in_first p" "internal_ok p'" "internal_ok q'"
proof -
  define n where "n = unat (internal_size p)"
  define l where "l = unat (internal_size q)"
  have nz: "0 < n" "2 \<le> l" using assms(3,4) by (simp_all add: n_def l_def unat_gt_0 word_le_nat_alt)
  have lt: "n < unat (max_size (in_header p))" using assms(6) by (simp add: n_def word_less_nat_alt)
  note d = internal_okD [OF assms(1), folded n_def] and dq = internal_okD [OF assms(2), folded l_def]
  let ?e = "\<lparr>ie_key = m, ie_page_id = in_first q\<rparr>"
  have q': "q' = internal_set_size (q\<lparr>in_entries := shift_left 0 (l - 1) (in_entries q)\<rparr>) (internal_size q - 1)"
    and p': "p' = internal_set_size (p\<lparr>in_entries := (in_entries p)[n := ?e]\<rparr>) (internal_size p + 1)"
    and m': "m' = ie_key (in_entries q ! 1)"
    using assms(7) by (simp_all add: internal_moveFirstToEndOf_def n_def l_def in_first_def)
  have q0: "internal_size q \<noteq> 0" using nz(2) by (auto simp: l_def)
  have sz: "unat (internal_size p + 1) = Suc n" "unat (internal_size q - 1) = l - 1"
    using lt d(6) q0 unat_minus_one [of "internal_size q"] by (simp_all add: n_def l_def unat_word_ariths)
  have e: "take (Suc n) ((in_entries p)[n := ?e]) = take n (in_entries p) @ [?e]"
    using lt d(1,6) by (simp add: take_Suc_conv_app_nth)
  then have "in_pairs p' = in_pairs p @ [(m, in_first q)]"
    by (simp add: p' in_pairs_def sz n_def [symmetric])
  then have sp: "in_seps p' = in_seps p @ [(m, in_first q)]"
    unfolding in_seps_def [of p'] in_pairs_Cons [OF assms(1,3)] by simp
  have "in_pairs q' = tl (in_pairs q)"
    using take_remove_at [of 0 l "in_entries q"] nz dq(1,2)
    by (simp add: q' in_pairs_def sz l_def [symmetric] map_tl drop_Suc)
  then have "in_pairs q' = in_seps q" by (simp add: in_seps_def)
  moreover have "in_seps q = (m', in_first q') # tl (in_seps q)"
  proof -
    have "0 < length (in_seps q)" using dq(7) nz by simp
    moreover have "in_seps q ! 0 = (m', in_first q')"
      using nth_in_seps [OF assms(2), of 0] nz dq(1,2) by (simp add: l_def [symmetric] m' in_first_def q' nth_shift_left)
    ultimately show ?thesis by (cases "in_seps q") auto
  qed
  ultimately have sq: "in_seps q = (m', in_first q') # in_seps q'" by (simp add: in_seps_def [of q'])
  show j: "in_seps p' @ (m', in_first q') # in_seps q' = in_seps p @ (m, in_first q) # in_seps q"
    using sq by (simp add: sp)
  show "in_first p' = in_first p" using nz lt d(6) by (simp add: in_first_def p')
  have srt: "sorted_wrt (<) (keys_of (in_seps p'))" "sorted_wrt (<) (keys_of (in_seps q'))"
    using assms(5) unfolding j [symmetric] by (simp_all add: keys_of_def sorted_wrt_append)
  show "internal_ok p'" by (rule internal_okI [OF assms(1)]) (use srt sz lt in \<open>simp_all add: p'\<close>)
  show "internal_ok q'" by (rule internal_okI [OF assms(2)]) (use srt sz dq(5) in \<open>simp_all add: q'\<close>)
qed

lemma internal_borrow_last:
  assumes "internal_ok p" "internal_ok q" "2 \<le> internal_size p" "internal_size q \<noteq> 0"
    and "sorted_wrt (<) (keys_of (in_seps p @ (m, in_first q) # in_seps q))"
    and "internal_size q < max_size (in_header q)" "internal_moveLastToFrontOf p q m = (p', q', m')"
  shows "in_seps p' @ (m', in_first q') # in_seps q' = in_seps p @ (m, in_first q) # in_seps q"
    "in_first p' = in_first p" "internal_ok p'" "internal_ok q'"
proof -
  define n where "n = unat (internal_size p)"
  define l where "l = unat (internal_size q)"
  have nz: "2 \<le> n" "0 < l" using assms(3,4) by (simp_all add: n_def l_def unat_gt_0 word_le_nat_alt)
  have lt: "l < unat (max_size (in_header q))" using assms(6) by (simp add: l_def word_less_nat_alt)
  note d = internal_okD [OF assms(1), folded n_def] and dq = internal_okD [OF assms(2), folded l_def]
  define es where "es = shift_right 0 l (in_entries q)"
  define es' where "es' = es[1 := (es ! 1)\<lparr>ie_key := m\<rparr>, 0 := (es ! 0)\<lparr>ie_page_id := ie_page_id (in_entries p ! (n - 1))\<rparr>]"
  have p': "p' = internal_set_size p (internal_size p - 1)"
    and q': "q' = internal_set_size (q\<lparr>in_entries := es'\<rparr>) (internal_size q + 1)"
    and m': "m' = ie_key (in_entries p ! (n - 1))"
    using assms(7) by (simp_all add: internal_moveLastToFrontOf_def n_def l_def es'_def es_def Let_def)
  have p0: "internal_size p \<noteq> 0" using nz(1) by (auto simp: n_def)
  have sz: "unat (internal_size q + 1) = Suc l" "unat (internal_size p - 1) = n - 1"
    using lt dq(6) p0 unat_minus_one [of "internal_size p"] by (simp_all add: n_def l_def unat_word_ariths)
  have len: "length es' = 338" using dq(1) by (simp add: es'_def es_def)
  have nth: "es' ! 0 = (in_entries q ! 0)\<lparr>ie_page_id := ie_page_id (in_entries p ! (n - 1))\<rparr>"
    "es' ! 1 = (in_entries q ! 0)\<lparr>ie_key := m\<rparr>" "2 \<le> i \<Longrightarrow> i \<le> l \<Longrightarrow> es' ! i = in_entries q ! (i - 1)" for i
    using lt nz dq(1,6) by (simp_all add: es'_def es_def nth_shift_right)
  have fq: "in_first q' = ie_page_id (in_entries p ! (n - 1))" by (simp add: in_first_def q' nth)
  have "in_seps q' = (m, in_first q) # in_seps q"
  proof (rule nth_equalityI)
    have lq': "length (in_seps q') = l" using lt dq(6) len by (simp add: in_seps_def in_pairs_def q' sz)
    then show "length (in_seps q') = length ((m, in_first q) # in_seps q)" using dq(7) nz by simp
    fix i assume "i < length (in_seps q')"
    then have i: "i < l" using lq' by simp
    have "in_seps q' ! i = (ie_key (es' ! Suc i), ie_page_id (es' ! Suc i))"
      using i len lt dq(6) by (simp add: in_seps_def in_pairs_def q' sz nth_tl)
    then show "in_seps q' ! i = ((m, in_first q) # in_seps q) ! i"
      using i nth nth_in_seps [OF assms(2), of "i - 1"] by (cases i) (simp_all add: in_first_def l_def [symmetric])
  qed
  note sq = this
  have "in_pairs p' = butlast (in_pairs p)"
    using nz d(1,2,3) by (simp add: p' in_pairs_def sz butlast_conv_take n_def [symmetric] take_map min_def)
  then have sp: "in_seps p' = butlast (in_seps p)" by (simp add: in_seps_def butlast_tl)
  have ne: "in_seps p \<noteq> []" using nz d(7) by auto
  have "Suc (n - 2) = n - 1" "length (in_seps p) - 1 = n - 2" using nz d(7) by auto
  then have "last (in_seps p) = (m', in_first q')"
    using nth_in_seps [OF assms(1), of "n - 2"] nz last_conv_nth [OF ne] by (simp add: n_def [symmetric] m' fq)
  with ne show j: "in_seps p' @ (m', in_first q') # in_seps q' = in_seps p @ (m, in_first q) # in_seps q"
    using append_butlast_last_id [of "in_seps p"] by (simp add: sq sp)
  show "in_first p' = in_first p" by (simp add: in_first_def p')
  have srt: "sorted_wrt (<) (keys_of (in_seps p'))" "sorted_wrt (<) (keys_of (in_seps q'))"
    using assms(5) unfolding j [symmetric] by (simp_all add: keys_of_def sorted_wrt_append)
  show "internal_ok p'" by (rule internal_okI [OF assms(1)]) (use srt sz d(5) in \<open>simp_all add: p'\<close>)
  show "internal_ok q'" by (rule internal_okI [OF assms(2)]) (use srt sz lt len dq(1) in \<open>simp_all add: q'\<close>)
qed

subsection \<open>Encoding\<close>

definition in_entry_bytes :: "InternalEntry \<Rightarrow> byte list" where
  "in_entry_bytes e = bytes_of_u32 (key_lo (ie_key e)) @ bytes_of_u32 (key_hi (ie_key e)) @ bytes_of_u32 (ie_page_id e)"

definition wf_in_entry :: "InternalEntry \<Rightarrow> bool" where
  "wf_in_entry e = int64 (ie_key e)"

interpretation internal_codec: entry_codec internal_serializeEntry internal_deserializeEntry in_entry_bytes wf_in_entry kInternalEntrySize
proof
  fix s :: Serializer and d :: Deserializer and e e0 :: InternalEntry
  show "length (in_entry_bytes e) = kInternalEntrySize" by (simp add: in_entry_bytes_def kInternalEntrySize_def)
  show "internal_serializeEntry s e = (Ok, ser_put s (in_entry_bytes e))"
    if "ser_cursor s + kInternalEntrySize \<le> length (ser_buffer s)"
    using that by (simp add: internal_serializeEntry_def writeUInt32_def writeRaw_put ser_put_append
        io_error_def in_entry_bytes_def kInternalEntrySize_def)
  show "internal_deserializeEntry d e0 = (Ok, e, des_skip d kInternalEntrySize)" if "wf_in_entry e" and a0: "ahead d (in_entry_bytes e)"
  proof -
    note a0 = a0 [unfolded in_entry_bytes_def]
    note a1 = ahead_rest(1) [OF a0] note a2 = ahead_rest(1) [OF a1]
    have "internal_deserializeEntry d e0 = (Ok, e, des_skip (des_skip (des_skip d 4) 4) 4)"
      using that(1) by (simp add: internal_deserializeEntry_def read_next(1) [OF a0] read_next(1) [OF a1] read_ahead(1) [OF a2]
          key_halves_roundtrip wf_in_entry_def)
    then show ?thesis by (simp add: skip_skip kInternalEntrySize_def)
  qed
qed

definition internal_bytes :: "BTreeInternalPage \<Rightarrow> byte list" where
  "internal_bytes p = header_bytes (in_header p) @ concat (map in_entry_bytes (take (unat (internal_size p)) (in_entries p)))"

lemma internal_consts: "kInternalEntrySize = 12" "kBTreeHeaderSize = 16"
  by (simp_all add: kInternalEntrySize_def kBTreeHeaderSize_def)

lemma length_internal_bytes: "internal_ok p \<Longrightarrow> length (internal_bytes p) = 16 + unat (internal_size p) * 12"
  using internal_codec.concat_width [of "take (unat (internal_size p)) (in_entries p)"] internal_okD(1,2) [of p]
  by (simp add: internal_bytes_def internal_consts)

lemma internal_fits: "internal_ok p \<Longrightarrow> 16 + unat (internal_size p) * 12 \<le> kPageBodySize"
  using internal_okD(2) [of p] by (simp add: page_consts)

lemma internal_serialize_bytes:
  assumes "internal_ok p" "16 + unat (internal_size p) * 12 \<le> length dest"
  shows "internal_serialize p dest = (Ok, overwrite dest 0 (internal_bytes p))"
proof -
  define n where "n = unat (internal_size p)"
  let ?hb = "header_bytes (in_header p)" and ?eb = "concat (map in_entry_bytes (take n (in_entries p)))"
  let ?d = "overwrite dest 0 ?hb"
  have es: "length (take n (in_entries p)) = n" using internal_okD(1,2) [OF assms(1)] by (simp add: n_def)
  have eb: "length ?eb = n * 12" using internal_codec.concat_width [of "take n (in_entries p)"] es by (simp add: internal_consts)
  have hb: "length ?hb = 16" by (simp add: internal_consts)
  have len: "16 + n * 12 \<le> length dest" using assms(2) by (simp add: n_def)
  have 1: "BTreePage_serialize (in_header p) (slice dest 0 16) = (Ok, ?hb)"
    using header_serialize [of "slice dest 0 16" "in_header p"] len hb by (simp add: internal_consts)
  have 2: "ser_entries internal_serializeEntry (mk_Serializer (drop 16 ?d)) (take n (in_entries p))
      = (Ok, ser_put (mk_Serializer (drop 16 ?d)) ?eb)"
    by (rule internal_codec.ser_entries_fits) (use len es hb in \<open>simp add: mk_Serializer_def internal_consts\<close>)
  have 3: "overwrite ?d 16 (overwrite (drop 16 ?d) 0 ?eb) = overwrite dest 0 (internal_bytes p)"
    using len hb eb by (simp add: internal_bytes_def n_def [symmetric] overwrite_def add.commute)
  show ?thesis using len 1 2 3 by (simp add: internal_serialize_def Let_def n_def [symmetric] internal_consts ser_put_mk)
qed

lemma internal_deserialize_bytes:
  assumes "internal_ok p" "wf_header (in_header p)" "list_all wf_in_entry (take (unat (internal_size p)) (in_entries p))"
    and p0: "length (in_entries p0) = kInternalMaxEntries" and src: "take (length (internal_bytes p)) src = internal_bytes p"
  shows "internal_deserialize p0 src = (Ok, p\<lparr>in_entries := overwrite (in_entries p0) 0 (take (unat (internal_size p)) (in_entries p))\<rparr>)"
proof -
  define n where "n = unat (internal_size p)"
  let ?hb = "header_bytes (in_header p)" and ?eb = "concat (map in_entry_bytes (take n (in_entries p)))"
  have es: "length (take n (in_entries p)) = n" "n \<le> 338" using internal_okD(1,2) [OF assms(1)] by (simp_all add: n_def)
  have eb: "length ?eb = n * 12" using internal_codec.concat_width [of "take n (in_entries p)"] es by (simp add: internal_consts)
  have hb: "length ?hb = 16" by (simp add: internal_consts)
  have ib: "internal_bytes p = ?hb @ ?eb" by (simp add: internal_bytes_def n_def)
  have len: "16 + n * 12 \<le> length src" using arg_cong [OF src, of length] hb eb by (simp add: ib)
  have tk: "take 16 src = ?hb" "take (n * 12) (drop 16 src) = ?eb"
    using arg_cong [OF src, of "take 16"] arg_cong [OF src, of "drop 16"] hb eb len by (simp_all add: ib take_drop min_def add.commute)
  have 1: "BTreePage_deserialize (in_header p0) (slice src 0 16) = (Ok, in_header p)"
    by (rule header_deserialize) (use tk(1) assms(2) in \<open>simp_all add: internal_consts slice_def\<close>)
  have "ahead (mk_Deserializer (drop 16 src)) ?eb" by (rule ahead_mk) (use tk(2) eb in simp)
  then have 2: "des_entries internal_deserializeEntry (mk_Deserializer (drop 16 src)) 0 n (in_entries p0)
      = (Ok, overwrite (in_entries p0) 0 (take n (in_entries p)))"
    using internal_codec.des_entries_ahead [of "take n (in_entries p)" _ 0 "in_entries p0"] assms(3) es p0
    by (simp add: n_def [symmetric] kInternalMaxEntries_eq)
  have c: "internal_size (p0\<lparr>in_header := in_header p\<rparr>) = internal_size p" by (simp add: internal_size_def)
  show ?thesis using len 1 2 by (simp add: internal_deserialize_def Let_def internal_consts c n_def [symmetric])
qed

text \<open>
  Every well-formed internal page fits into the body of a page, and one written there and
  read back has the same header, separators and children.
\<close>

theorem internal_page_roundtrip:
  assumes "internal_ok p" "wf_header (in_header p)" "list_all wf_in_entry (take (unat (internal_size p)) (in_entries p))"
    "length dest = kPageBodySize" "length (in_entries p0) = kInternalMaxEntries"
  shows "\<exists>dest' p'. internal_serialize p dest = (Ok, dest') \<and> length dest' = kPageBodySize \<and> internal_deserialize p0 dest' = (Ok, p')
    \<and> in_header p' = in_header p \<and> in_pairs p' = in_pairs p \<and> internal_ok p'"
proof -
  let ?d = "overwrite dest 0 (internal_bytes p)"
  let ?p = "p\<lparr>in_entries := overwrite (in_entries p0) 0 (take (unat (internal_size p)) (in_entries p))\<rparr>"
  note d = internal_okD [OF assms(1)]
  have fits: "length (internal_bytes p) \<le> length dest" using internal_fits [OF assms(1)] assms(4) by (simp add: length_internal_bytes [OF assms(1)])
  have "internal_serialize p dest = (Ok, ?d)"
    by (rule internal_serialize_bytes [OF assms(1)]) (use internal_fits [OF assms(1)] assms(4) in simp)
  moreover have "internal_deserialize p0 ?d = (Ok, ?p)"
    by (rule internal_deserialize_bytes [OF assms(1,2,3,5)]) (simp add: overwrite_def)
  moreover have pairs: "in_pairs ?p = in_pairs p" using d(1,2) by (simp add: in_pairs_def overwrite_def)
  moreover have "internal_ok ?p"
    by (rule internal_okI [OF assms(1)]) (use d assms(5) pairs in \<open>simp_all add: kInternalMaxEntries_eq in_seps_def\<close>)
  ultimately show ?thesis using fits assms(4) by (intro exI [of _ ?d] exI [of _ ?p]) simp
qed

theorem internal_page_roundtrip_witness:
  "\<exists>dest' p'. internal_serialize (two_internal 4 (- 10) 5) (replicate kPageBodySize 0) = (Ok, dest')
    \<and> internal_deserialize (two_internal 1 2 3) dest' = (Ok, p') \<and> in_pairs p' = [(0, 4), (- 10, 5)]"
proof -
  let ?p = "two_internal 4 (- 10) 5"
  have "wf_header (in_header ?p)" by (simp add: wf_header_def two_internal wf_PageType_def PageType_of_byte_def)
  moreover have "list_all wf_in_entry (take (unat (internal_size ?p)) (in_entries ?p))"
  proof -
    have "list_all int64 (map fst (in_pairs ?p))" by (simp add: two_internal int64_def)
    then show ?thesis by (simp add: in_pairs_def list_all_iff wf_in_entry_def)
  qed
  ultimately show ?thesis
    using internal_page_roundtrip [of ?p "replicate kPageBodySize 0" "two_internal 1 2 3"] two_internal(1,6,7)
    by (fastforce simp: kInternalMaxEntries_eq)
qed

end
