(* ===== verification/BPlusTree.thy ===== *)
theory BPlusTree
  imports BufferPool BTreeLeaf BTreeInternal
begin

text \<open>
  The B+ tree over buffered pages: \<^verbatim>\<open>include/index/bplus_tree.hpp\<close>,
  \<^verbatim>\<open>src/index/bplus_tree.cpp\<close>, and its iterator
  \<^verbatim>\<open>include/index/bplus_tree_iterator.hpp\<close>, \<^verbatim>\<open>src/index/bplus_tree_iterator.cpp\<close>.

  A tree is the id of its root; its pages live in a buffer pool that every operation takes and
  returns.  A page guard is a value; the scope of a guard ends with \<open>guard_drop\<close>, in the reverse
  order of construction.  \<open>None\<close> as the result of an operation means that it does not return:
  a descent through a cyclic structure, or an exception of the replacer.
\<close>

record BPlusTree =
  root_page_id :: PageId

definition mk_BPlusTree :: BPlusTree where
  "mk_BPlusTree = \<lparr>root_page_id = kInvalidPageId\<rparr>"

definition bt_create :: "BPlusTree \<Rightarrow> BPlusTree" where
  "bt_create t = t\<lparr>root_page_id := kInvalidPageId\<rparr>"

definition bt_open :: "BPlusTree \<Rightarrow> PageId \<Rightarrow> BPlusTree" where
  "bt_open t root = t\<lparr>root_page_id := root\<rparr>"

definition bt_isEmpty :: "BPlusTree \<Rightarrow> bool" where
  "bt_isEmpty t = (root_page_id t = kInvalidPageId)"

subsection \<open>Pages through guards\<close>

definition guard_body :: "BufferPoolManager \<Rightarrow> PageGuard \<Rightarrow> byte list" where
  "guard_body b g = body (fr_page (frames b ! the (g_frame g)))"

definition guard_write :: "BufferPoolManager \<Rightarrow> PageGuard \<Rightarrow> byte list \<Rightarrow> BufferPoolManager" where
  "guard_write b g bs = write_frame_page b (the (g_frame g)) (set_body (fr_page (frames b ! the (g_frame g))) bs)"

text \<open>A scope with one read guard: \<open>fail\<close> when the page cannot be fetched.\<close>

definition read_page :: "BufferPoolManager \<Rightarrow> PageId \<Rightarrow> 'r \<Rightarrow> (byte list \<Rightarrow> 'r) \<Rightarrow> ('r \<times> BufferPoolManager) option" where
  "read_page b p fail f = do {
     (st, g, b1) \<leftarrow> fetchPageGuard b p empty_guard;
     if st \<noteq> Ok then Some (fail, b1)
     else do { (_, b2) \<leftarrow> guard_drop b1 g; Some (f (guard_body b1 g), b2) } }"

text \<open>Serialising a node into the page of a guard.\<close>

definition put_leaf :: "BufferPoolManager \<Rightarrow> PageGuard \<Rightarrow> BTreeLeafPage \<Rightarrow> Status \<times> BufferPoolManager" where
  "put_leaf b g l = (case leaf_serialize l (guard_body b g) of (st, bs) \<Rightarrow> (st, guard_write b g bs))"

definition put_internal :: "BufferPoolManager \<Rightarrow> PageGuard \<Rightarrow> BTreeInternalPage \<Rightarrow> Status \<times> BufferPoolManager" where
  "put_internal b g p = (case internal_serialize p (guard_body b g) of (st, bs) \<Rightarrow> (st, guard_write b g bs))"

definition put_header :: "BufferPoolManager \<Rightarrow> PageGuard \<Rightarrow> BTreePage \<Rightarrow> Status \<times> BufferPoolManager" where
  "put_header b g h = (case BTreePage_serialize h (guard_body b g) of (st, bs) \<Rightarrow> (st, guard_write b g bs))"

text \<open>
  Changing the parent pointer of a page; \<open>strict\<close> is the variant that reports a failing
  \<open>serialize\<close>.  The guard is returned undropped: the caller decides when its scope ends.
\<close>

definition set_parent_guarded :: "bool \<Rightarrow> BufferPoolManager \<Rightarrow> PageId \<Rightarrow> PageId \<Rightarrow> (Status \<times> PageGuard \<times> BufferPoolManager) option" where
  "set_parent_guarded strict b child parent = do {
     (st, g, b1) \<leftarrow> fetchPageGuard b child empty_guard;
     if st \<noteq> Ok then Some (Ok, g, b1)
     else case BTreePage_deserialize default_BTreePage (guard_body b1 g) of (st, h) \<Rightarrow>
       if st \<noteq> Ok then Some (Ok, g, b1)
       else case put_header b1 g (h\<lparr>parent_page_id := parent\<rparr>) of (st, b2) \<Rightarrow>
         if st \<noteq> Ok then Some (if strict then IoError else Ok, g, b2)
         else Some (Ok, guard_markDirty g, b2) }"

definition set_parent :: "bool \<Rightarrow> BufferPoolManager \<Rightarrow> PageId \<Rightarrow> PageId \<Rightarrow> (Status \<times> BufferPoolManager) option" where
  "set_parent strict b child parent = do {
     (st, g, b1) \<leftarrow> set_parent_guarded strict b child parent;
     (_, b2) \<leftarrow> guard_drop b1 g;
     Some (st, b2) }"

fun set_parents :: "bool \<Rightarrow> BufferPoolManager \<Rightarrow> PageId list \<Rightarrow> PageId \<Rightarrow> (Status \<times> BufferPoolManager) option" where
  "set_parents strict b [] parent = Some (Ok, b)"
| "set_parents strict b (c # cs) parent = do {
     (st, b1) \<leftarrow> set_parent strict b c parent;
     if st \<noteq> Ok then Some (st, b1) else set_parents strict b1 cs parent }"

text \<open>Changing the back pointer of the leaf to the right.\<close>

definition set_prev :: "bool \<Rightarrow> BufferPoolManager \<Rightarrow> PageId \<Rightarrow> PageId \<Rightarrow> (Status \<times> BufferPoolManager) option" where
  "set_prev strict b right prev = do {
     (st, g, b1) \<leftarrow> fetchPageGuard b right empty_guard;
     if st \<noteq> Ok then Some (Ok, b1)
     else case leaf_deserialize default_BTreeLeafPage (guard_body b1 g) of (st, l) \<Rightarrow>
       if st \<noteq> Ok then do { (_, b2) \<leftarrow> guard_drop b1 g; Some (Ok, b2) }
       else case put_leaf b1 g (l\<lparr>lf_prev := prev\<rparr>) of (st, b2) \<Rightarrow>
         if st \<noteq> Ok then do { (_, b3) \<leftarrow> guard_drop b2 g; Some (if strict then IoError else Ok, b3) }
         else do { (_, b3) \<leftarrow> guard_drop b2 (guard_markDirty g); Some (Ok, b3) } }"

subsection \<open>Search\<close>

text \<open>
  The loop all descents share: \<open>off\<close> is what running off the tree gives, \<open>fail\<close> what a page that
  cannot be fetched gives, \<open>stp\<close> what the page decides: the result, or the child to go on with.
\<close>

partial_function (option) descend :: "'r \<Rightarrow> 'r \<Rightarrow> (PageId \<Rightarrow> byte list \<Rightarrow> 'r + PageId) \<Rightarrow> BufferPoolManager \<Rightarrow> PageId
    \<Rightarrow> ('r \<times> BufferPoolManager) option" where
  "descend off fail stp b cur =
    (if cur = kInvalidPageId then Some (off, b)
     else Option.bind (read_page b cur (Inl fail) (stp cur)) (\<lambda>(r, b1).
       case r of Inl v \<Rightarrow> Some (v, b1) | Inr nxt \<Rightarrow> descend off fail stp b1 nxt))"

definition getValue_step :: "int \<Rightarrow> byte list \<Rightarrow> RID option + PageId" where
  "getValue_step key bd = (case BTreePage_deserialize default_BTreePage bd of (st, header) \<Rightarrow>
     if st \<noteq> Ok then Inl None
     else if bt_page_type header = BTreeLeaf then
       (case leaf_deserialize default_BTreeLeafPage bd of (st, leaf) \<Rightarrow>
          if st \<noteq> Ok then Inl None else Inl (leaf_lookup leaf key))
     else if bt_page_type header = BTreeInternal then
       (case internal_deserialize default_BTreeInternalPage bd of (st, internal) \<Rightarrow>
          if st \<noteq> Ok then Inl None
          else let nxt = internal_lookup internal key in if nxt = kInvalidPageId then Inl None else Inr nxt)
     else Inl None)"

definition getValue :: "BPlusTree \<Rightarrow> BufferPoolManager \<Rightarrow> int \<Rightarrow> (RID option \<times> BufferPoolManager) option" where
  "getValue t b key = (if bt_isEmpty t then Some (None, b) else descend None None (\<lambda>_. getValue_step key) b (root_page_id t))"

text \<open>
  The descent of \<open>insert\<close> and \<open>remove\<close> to the leaf for a key: \<open>Inl\<close> the status an early
  return gives, \<open>Inr\<close> the leaf (invalid when the loop ran off the tree).
\<close>

definition find_leaf_step :: "int \<Rightarrow> PageId \<Rightarrow> byte list \<Rightarrow> (Status + PageId) + PageId" where
  "find_leaf_step key cur bd = (case BTreePage_deserialize default_BTreePage bd of (st, header) \<Rightarrow>
     if st \<noteq> Ok then Inl (Inl IoError)
     else if bt_page_type header = BTreeLeaf then Inl (Inr cur)
     else if bt_page_type header = BTreeInternal then
       (case internal_deserialize default_BTreeInternalPage bd of (st, internal) \<Rightarrow>
          if st \<noteq> Ok then Inl (Inl IoError) else Inr (internal_lookup internal key))
     else Inl (Inl Corruption))"

definition find_leaf :: "BufferPoolManager \<Rightarrow> int \<Rightarrow> PageId \<Rightarrow> ((Status + PageId) \<times> BufferPoolManager) option" where
  "find_leaf b key cur = descend (Inr kInvalidPageId) (Inl IoError) (find_leaf_step key) b cur"

subsection \<open>Insertion\<close>

definition insert_first :: "BPlusTree \<Rightarrow> BufferPoolManager \<Rightarrow> int \<Rightarrow> RID \<Rightarrow> (Status \<times> BPlusTree \<times> BufferPoolManager) option" where
  "insert_first t b key rid = do {
     (st, new_id, g, b1) \<leftarrow> newPageGuard b kInvalidPageId empty_guard;
     if st \<noteq> Ok then Some (BufferPoolFull, t, b1)
     else let b2 = guard_write b1 g (replicate kPageBodySize 0) in
       case leaf_insert (leaf_init default_BTreeLeafPage new_id kInvalidPageId) key rid of (status, leaf) \<Rightarrow>
       case put_leaf b2 g leaf of (st, b3) \<Rightarrow>
         if st \<noteq> Ok then do { (_, b4) \<leftarrow> guard_drop b3 g; Some (IoError, t, b4) }
         else do { (_, b4) \<leftarrow> guard_drop b3 (guard_markDirty g); Some (status, t\<lparr>root_page_id := new_id\<rparr>, b4) } }"

text \<open>A new root above a root that was split.\<close>

definition grow_root :: "BPlusTree \<Rightarrow> BufferPoolManager \<Rightarrow> PageId \<Rightarrow> int \<Rightarrow> PageId \<Rightarrow> (Status \<times> BPlusTree \<times> BufferPoolManager) option" where
  "grow_root t b old_id key new_id = do {
     (st, root_id, g, b1) \<leftarrow> newPageGuard b kInvalidPageId empty_guard;
     if st \<noteq> Ok then Some (BufferPoolFull, t, b1)
     else case put_internal b1 g (internal_populateNewRoot
           (internal_init default_BTreeInternalPage root_id kInvalidPageId) old_id key new_id) of (st, b2) \<Rightarrow>
       if st \<noteq> Ok then do { (_, b3) \<leftarrow> guard_drop b2 g; Some (IoError, t, b3) }
       else do {
         (_, lg, b3) \<leftarrow> set_parent_guarded False b2 old_id root_id;
         (_, rg, b4) \<leftarrow> set_parent_guarded False b3 new_id root_id;
         (_, b5) \<leftarrow> guard_drop b4 rg;
         (_, b6) \<leftarrow> guard_drop b5 lg;
         (_, b7) \<leftarrow> guard_drop b6 (guard_markDirty g);
         Some (Ok, t\<lparr>root_page_id := root_id\<rparr>, b7) } }"

definition header_parent :: "byte list \<Rightarrow> Status + PageId" where
  "header_parent bd = (case BTreePage_deserialize default_BTreePage bd of (st, h) \<Rightarrow>
     if st \<noteq> Ok then Inl IoError else Inr (parent_page_id h))"

text \<open>
  One level of \<open>insertIntoParent\<close>: \<open>Inl\<close> the status it returns with, \<open>Inr\<close> the arguments of the
  call for the level above.
\<close>

definition split_parent :: "BufferPoolManager \<Rightarrow> PageGuard \<Rightarrow> PageId \<Rightarrow> BTreeInternalPage \<Rightarrow> int \<Rightarrow> PageId
    \<Rightarrow> ((Status + int \<times> PageId) \<times> BufferPoolManager) option" where
  "split_parent b pg parent_id parent key new_id = do {
     (st, ni_id, ng, b1) \<leftarrow> newPageGuard b kInvalidPageId empty_guard;
     if st \<noteq> Ok then do { (_, b2) \<leftarrow> guard_drop b1 pg; Some (Inl BufferPoolFull, b2) }
     else case internal_moveHalfTo parent (internal_init default_BTreeInternalPage ni_id (parent_page_id (in_header parent)))
         of (parent1, ni, median) \<Rightarrow> do {
       (_, b2) \<leftarrow> set_parents False b1 (map ie_page_id (take (unat (internal_size ni)) (in_entries ni))) ni_id;
       (st, parent2, ni2, b3) \<leftarrow>
         (if key < median then
            (case internal_insert parent1 key new_id of (st, p) \<Rightarrow> Some (st, p, ni, b2))
          else (case internal_insert ni key new_id of (st, n) \<Rightarrow>
            if st \<noteq> Ok then Some (st, parent1, n, b2)
            else do { (_, b3) \<leftarrow> set_parent False b2 new_id ni_id; Some (st, parent1, n, b3) }));
       if st \<noteq> Ok then do { (_, b4) \<leftarrow> guard_drop b3 ng; (_, b5) \<leftarrow> guard_drop b4 pg; Some (Inl st, b5) }
       else case put_internal b3 pg parent2 of (st, b4) \<Rightarrow>
         if st \<noteq> Ok then do { (_, b5) \<leftarrow> guard_drop b4 ng; (_, b6) \<leftarrow> guard_drop b5 pg; Some (Inl IoError, b6) }
         else case put_internal b4 ng ni2 of (st, b5) \<Rightarrow>
           if st \<noteq> Ok then do { (_, b6) \<leftarrow> guard_drop b5 ng; (_, b7) \<leftarrow> guard_drop b6 (guard_markDirty pg); Some (Inl IoError, b7) }
           else do {
             (_, b6) \<leftarrow> guard_drop b5 (guard_markDirty pg);
             (_, b7) \<leftarrow> guard_drop b6 (guard_markDirty ng);
             Some (Inr (median, ni_id), b7) } } }"

definition insert_level :: "BufferPoolManager \<Rightarrow> PageId \<Rightarrow> int \<Rightarrow> PageId \<Rightarrow> ((Status + int \<times> PageId) \<times> BufferPoolManager) option" where
  "insert_level b parent_id key new_id = do {
     (st, pg, b1) \<leftarrow> fetchPageGuard b parent_id empty_guard;
     if st \<noteq> Ok then Some (Inl IoError, b1)
     else case internal_deserialize default_BTreeInternalPage (guard_body b1 pg) of (st, parent) \<Rightarrow>
       if st \<noteq> Ok then do { (_, b2) \<leftarrow> guard_drop b1 pg; Some (Inl IoError, b2) }
       else if bt_isFull (in_header parent) then split_parent b1 pg parent_id parent key new_id
       else case internal_insert parent key new_id of (st, parent1) \<Rightarrow>
         if st \<noteq> Ok then do { (_, b2) \<leftarrow> guard_drop b1 pg; Some (Inl IoError, b2) }
         else case put_internal b1 pg parent1 of (st, b2) \<Rightarrow>
           if st \<noteq> Ok then do { (_, b3) \<leftarrow> guard_drop b2 pg; Some (Inl IoError, b3) }
           else do { (_, b3) \<leftarrow> guard_drop b2 (guard_markDirty pg); Some (Inl Ok, b3) } }"

partial_function (option) insertIntoParent :: "BPlusTree \<Rightarrow> BufferPoolManager \<Rightarrow> PageId \<Rightarrow> int \<Rightarrow> PageId
    \<Rightarrow> (Status \<times> BPlusTree \<times> BufferPoolManager) option" where
  "insertIntoParent t b old_id key new_id =
     Option.bind (read_page b old_id (Inl IoError) header_parent) (\<lambda>(r, b1).
       case r of
         Inl st \<Rightarrow> Some (st, t, b1)
       | Inr parent_id \<Rightarrow>
           if parent_id = kInvalidPageId then grow_root t b1 old_id key new_id
           else Option.bind (insert_level b1 parent_id key new_id) (\<lambda>(r, b2).
             case r of
               Inl st \<Rightarrow> Some (st, t, b2)
             | Inr (median, ni_id) \<Rightarrow> insertIntoParent t b2 parent_id median ni_id))"

text \<open>The split of a full leaf, up to the call of \<open>insertIntoParent\<close>.\<close>

definition split_leaf :: "BPlusTree \<Rightarrow> BufferPoolManager \<Rightarrow> PageGuard \<Rightarrow> PageId \<Rightarrow> BTreeLeafPage \<Rightarrow> int \<Rightarrow> RID
    \<Rightarrow> (Status \<times> BPlusTree \<times> BufferPoolManager) option" where
  "split_leaf t b wg leaf_id leaf key rid = do {
     (st, sib_id, sg, b1) \<leftarrow> newPageGuard b kInvalidPageId empty_guard;
     if st \<noteq> Ok then do { (_, b2) \<leftarrow> guard_drop b1 wg; Some (BufferPoolFull, t, b2) }
     else case leaf_moveHalfTo leaf (leaf_init default_BTreeLeafPage sib_id (parent_page_id (lf_header leaf))) of (leaf, sib) \<Rightarrow>
       let sib = sib\<lparr>lf_next := lf_next leaf, lf_prev := leaf_id\<rparr>; leaf = leaf\<lparr>lf_next := sib_id\<rparr> in do {
       (_, b2) \<leftarrow> (if lf_next sib \<noteq> kInvalidPageId then set_prev False b1 (lf_next sib) sib_id else Some (Ok, b1));
       let (st, leaf, sib) = (if key < leaf_keyAt sib 0
           then (case leaf_insert leaf key rid of (st, l) \<Rightarrow> (st, l, sib))
           else (case leaf_insert sib key rid of (st, s) \<Rightarrow> (st, leaf, s)));
       if st \<noteq> Ok then do { (_, b3) \<leftarrow> guard_drop b2 sg; (_, b4) \<leftarrow> guard_drop b3 wg; Some (st, t, b4) }
       else case put_leaf b2 wg leaf of (st, b3) \<Rightarrow>
         if st \<noteq> Ok then do { (_, b4) \<leftarrow> guard_drop b3 sg; (_, b5) \<leftarrow> guard_drop b4 wg; Some (IoError, t, b5) }
         else do {
           (_, b4) \<leftarrow> guard_drop b3 (guard_markDirty wg);
           (case put_leaf b4 sg sib of (st, b5) \<Rightarrow>
             if st \<noteq> Ok then do { (_, b6) \<leftarrow> guard_drop b5 sg; Some (IoError, t, b6) }
             else do {
               (_, b6) \<leftarrow> guard_drop b5 (guard_markDirty sg);
               insertIntoParent t b6 leaf_id (leaf_keyAt sib 0) sib_id }) } } }"

definition insert_leaf :: "BPlusTree \<Rightarrow> BufferPoolManager \<Rightarrow> PageId \<Rightarrow> int \<Rightarrow> RID \<Rightarrow> (Status \<times> BPlusTree \<times> BufferPoolManager) option" where
  "insert_leaf t b leaf_id key rid = do {
     (st, wg, b1) \<leftarrow> fetchPageGuard b leaf_id empty_guard;
     if st \<noteq> Ok then Some (IoError, t, b1)
     else case leaf_deserialize default_BTreeLeafPage (guard_body b1 wg) of (st, leaf) \<Rightarrow>
       if st \<noteq> Ok then do { (_, b2) \<leftarrow> guard_drop b1 wg; Some (IoError, t, b2) }
       else if leaf_lookup leaf key \<noteq> None then do { (_, b2) \<leftarrow> guard_drop b1 wg; Some (AlreadyExists, t, b2) }
       else if bt_isFull (lf_header leaf) then split_leaf t b1 wg leaf_id leaf key rid
       else case leaf_insert leaf key rid of (status, leaf1) \<Rightarrow>
         if status = Ok then
           (case put_leaf b1 wg leaf1 of (st, b2) \<Rightarrow>
              if st \<noteq> Ok then do { (_, b3) \<leftarrow> guard_drop b2 wg; Some (IoError, t, b3) }
              else do { (_, b3) \<leftarrow> guard_drop b2 (guard_markDirty wg); Some (status, t, b3) })
         else do { (_, b2) \<leftarrow> guard_drop b1 wg; Some (status, t, b2) } }"

definition bt_insert :: "BPlusTree \<Rightarrow> BufferPoolManager \<Rightarrow> int \<Rightarrow> RID \<Rightarrow> (Status \<times> BPlusTree \<times> BufferPoolManager) option" where
  "bt_insert t b key rid =
    (if bt_isEmpty t then insert_first t b key rid
     else do {
       (r, b1) \<leftarrow> find_leaf b key (root_page_id t);
       (case r of
          Inl st \<Rightarrow> Some (st, t, b1)
        | Inr leaf_id \<Rightarrow> if leaf_id = kInvalidPageId then Some (NotFound, t, b1) else insert_leaf t b1 leaf_id key rid) })"

subsection \<open>Removal\<close>

text \<open>\<open>handleUnderflow\<close> of the root: an internal root with one child gives way to it.\<close>

definition shrink_root :: "BPlusTree \<Rightarrow> BufferPoolManager \<Rightarrow> (Status \<times> BPlusTree \<times> BufferPoolManager) option" where
  "shrink_root t b = do {
     (st, g, b1) \<leftarrow> fetchPageGuard b (root_page_id t) empty_guard;
     if st \<noteq> Ok then Some (IoError, t, b1)
     else case BTreePage_deserialize default_BTreePage (guard_body b1 g) of (st, h) \<Rightarrow>
       if st \<noteq> Ok then do { (_, b2) \<leftarrow> guard_drop b1 g; Some (IoError, t, b2) }
       else if bt_page_type h = BTreeInternal \<and> current_size h = 1 then
         (case internal_deserialize default_BTreeInternalPage (guard_body b1 g) of (st, root) \<Rightarrow>
            if st \<noteq> Ok then do { (_, b2) \<leftarrow> guard_drop b1 g; Some (IoError, t, b2) }
            else let new_root = internal_childAt root 0 in do {
              (_, cg, b2) \<leftarrow> set_parent_guarded False b1 new_root kInvalidPageId;
              (_, b3) \<leftarrow> guard_drop b2 cg;
              (_, b4) \<leftarrow> guard_drop b3 g;
              Some (Ok, t\<lparr>root_page_id := new_root\<rparr>, b4) })
       else do { (_, b2) \<leftarrow> guard_drop b1 g; Some (Ok, t, b2) } }"

text \<open>
  Borrowing, with the guards of the node, the sibling and the parent held.  The first component
  is the status the function returns with; the guards are marked dirty exactly when it is \<open>Ok\<close>.
\<close>

definition borrow_leaf :: "bool \<Rightarrow> BufferPoolManager \<Rightarrow> PageGuard \<Rightarrow> PageGuard \<Rightarrow> BTreeInternalPage \<Rightarrow> int
    \<Rightarrow> (Status + BTreeInternalPage) \<times> BufferPoolManager" where
  "borrow_leaf from_left b ng sg parent idx =
    (case leaf_deserialize default_BTreeLeafPage (guard_body b ng) of (st, node) \<Rightarrow>
     if st \<noteq> Ok then (Inl IoError, b)
     else case leaf_deserialize default_BTreeLeafPage (guard_body b sg) of (st, sib) \<Rightarrow>
     if st \<noteq> Ok then (Inl IoError, b)
     else let (sib1, node1) = (if from_left then leaf_moveLastToFrontOf sib node else leaf_moveFirstToEndOf sib node);
              parent1 = (if from_left then internal_setKeyAt parent (word_of_int idx) (leaf_keyAt node1 0)
                         else internal_setKeyAt parent (word_of_int (idx + 1)) (leaf_keyAt sib1 0)) in
       case put_leaf b ng node1 of (st, b1) \<Rightarrow>
       if st \<noteq> Ok then (Inl IoError, b1)
       else case put_leaf b1 sg sib1 of (st, b2) \<Rightarrow>
       if st \<noteq> Ok then (Inl IoError, b2) else (Inr parent1, b2))"

definition borrow_internal :: "bool \<Rightarrow> BufferPoolManager \<Rightarrow> PageGuard \<Rightarrow> PageGuard \<Rightarrow> BTreeInternalPage \<Rightarrow> int \<Rightarrow> PageId
    \<Rightarrow> ((Status + BTreeInternalPage) \<times> BufferPoolManager) option" where
  "borrow_internal from_left b ng sg parent idx pid =
    (case internal_deserialize default_BTreeInternalPage (guard_body b ng) of (st, node) \<Rightarrow>
     if st \<noteq> Ok then Some (Inl IoError, b)
     else case internal_deserialize default_BTreeInternalPage (guard_body b sg) of (st, sib) \<Rightarrow>
     if st \<noteq> Ok then Some (Inl IoError, b)
     else let at = word_of_int (if from_left then idx else idx + 1) :: u16;
              (sib1, node1, new_middle) = (if from_left then internal_moveLastToFrontOf sib node (internal_keyAt parent at)
                 else internal_moveFirstToEndOf sib node (internal_keyAt parent at));
              parent1 = internal_setKeyAt parent at new_middle;
              moved = internal_childAt node1 (if from_left then 0 else internal_size node1 - 1) in do {
       (st, mg, b1) \<leftarrow> set_parent_guarded True b moved pid;
       if st \<noteq> Ok then do { (_, b2) \<leftarrow> guard_drop b1 mg; Some (Inl IoError, b2) }
       else case put_internal b1 ng node1 of (st, b2) \<Rightarrow>
       if st \<noteq> Ok then do { (_, b3) \<leftarrow> guard_drop b2 mg; Some (Inl IoError, b3) }
       else case put_internal b2 sg sib1 of (st, b3) \<Rightarrow>
         do { (_, b4) \<leftarrow> guard_drop b3 mg; Some (if st \<noteq> Ok then Inl IoError else Inr parent1, b4) } })"

text \<open>One attempt to borrow: \<open>None\<close> in the first component when the function goes on.\<close>

definition try_borrow :: "bool \<Rightarrow> BufferPoolManager \<Rightarrow> PageGuard \<Rightarrow> PageGuard \<Rightarrow> BTreePage \<Rightarrow> BTreeInternalPage \<Rightarrow> int \<Rightarrow> PageId \<Rightarrow> PageId
    \<Rightarrow> (Status option \<times> BufferPoolManager) option" where
  "try_borrow from_left b ng pg node_header parent idx pid sib_id =
    (if sib_id = kInvalidPageId then Some (None, b)
     else do {
       (st, sg, b1) \<leftarrow> fetchPageGuard b sib_id empty_guard;
       if st \<noteq> Ok then Some (None, b1)
       else case BTreePage_deserialize default_BTreePage (guard_body b1 sg) of (st, sh) \<Rightarrow>
         if st \<noteq> Ok \<or> \<not> current_size sh > bt_minSize sh then do { (_, b2) \<leftarrow> guard_drop b1 sg; Some (None, b2) }
         else do {
           (r, b2) \<leftarrow> (if bt_page_type node_header = BTreeLeaf then Some (borrow_leaf from_left b1 ng sg parent idx)
                       else borrow_internal from_left b1 ng sg parent idx pid);
           (case r of
              Inl st \<Rightarrow> do { (_, b3) \<leftarrow> guard_drop b2 sg; Some (Some st, b3) }
            | Inr parent1 \<Rightarrow>
                (case put_internal b2 pg parent1 of (st, b3) \<Rightarrow>
                   if st \<noteq> Ok then do { (_, b4) \<leftarrow> guard_drop b3 sg; Some (Some IoError, b4) }
                   else do { (_, b4) \<leftarrow> guard_drop b3 (guard_markDirty sg); Some (Some Ok, b4) })) } })"

text \<open>Merging the right node of a pair into the left one, both held.\<close>

definition merge_leaves :: "BufferPoolManager \<Rightarrow> PageGuard \<Rightarrow> PageGuard \<Rightarrow> (Status \<times> BufferPoolManager) option" where
  "merge_leaves b lg rg =
    (case leaf_deserialize default_BTreeLeafPage (guard_body b lg) of (st, left) \<Rightarrow>
     if st \<noteq> Ok then Some (IoError, b)
     else case leaf_deserialize default_BTreeLeafPage (guard_body b rg) of (st, right) \<Rightarrow>
     if st \<noteq> Ok then Some (IoError, b)
     else case leaf_moveAllTo right left of (right1, left1) \<Rightarrow>
       let left2 = left1\<lparr>lf_next := lf_next right1\<rparr> in do {
       (st, b1) \<leftarrow> (if lf_next left2 \<noteq> kInvalidPageId then set_prev True b (lf_next left2) (bt_page_id (lf_header left2)) else Some (Ok, b));
       if st \<noteq> Ok then Some (IoError, b1)
       else case put_leaf b1 lg left2 of (st, b2) \<Rightarrow>
       if st \<noteq> Ok then Some (IoError, b2)
       else case put_leaf b2 rg right1 of (st, b3) \<Rightarrow> Some (if st \<noteq> Ok then IoError else Ok, b3) })"

definition merge_internals :: "BufferPoolManager \<Rightarrow> PageGuard \<Rightarrow> PageGuard \<Rightarrow> int \<Rightarrow> (Status \<times> BufferPoolManager) option" where
  "merge_internals b lg rg middle =
    (case internal_deserialize default_BTreeInternalPage (guard_body b lg) of (st, left) \<Rightarrow>
     if st \<noteq> Ok then Some (IoError, b)
     else case internal_deserialize default_BTreeInternalPage (guard_body b rg) of (st, right) \<Rightarrow>
     if st \<noteq> Ok then Some (IoError, b)
     else case internal_moveAllTo right left middle of (right1, left1) \<Rightarrow> do {
       (st, b1) \<leftarrow> set_parents True b
         (map (\<lambda>i. ie_page_id (in_entries left1 ! i)) [unat (internal_size left1 - internal_size right)..<unat (internal_size left1)])
         (bt_page_id (in_header left1));
       if st \<noteq> Ok then Some (IoError, b1)
       else case put_internal b1 lg left1 of (st, b2) \<Rightarrow>
       if st \<noteq> Ok then Some (IoError, b2)
       else case put_internal b2 rg right1 of (st, b3) \<Rightarrow> Some (if st \<noteq> Ok then IoError else Ok, b3) })"

text \<open>
  The merge at the end of \<open>handleUnderflow\<close>: \<open>Inl\<close> the status it returns with, \<open>Inr\<close> whether the
  parent needs the same treatment.
\<close>

definition merge_nodes :: "BPlusTree \<Rightarrow> BufferPoolManager \<Rightarrow> PageGuard \<Rightarrow> PageGuard \<Rightarrow> BTreePage \<Rightarrow> BTreeInternalPage \<Rightarrow> PageId \<Rightarrow> int
    \<Rightarrow> PageId \<Rightarrow> PageId \<Rightarrow> ((Status + bool) \<times> BufferPoolManager) option" where
  "merge_nodes t b ng pg node_header parent parent_id idx left_id right_id =
    (let with_left = (left_id \<noteq> kInvalidPageId); right_idx = word_of_int (if with_left then idx else idx + 1) :: u16 in do {
     (st, sg, b1) \<leftarrow> fetchPageGuard b (if with_left then left_id else right_id) empty_guard;
     if st \<noteq> Ok then do { (_, b2) \<leftarrow> guard_drop b1 pg; (_, b3) \<leftarrow> guard_drop b2 ng; Some (Inl IoError, b3) }
     else do {
       let lg = (if with_left then sg else ng);
       let rg = (if with_left then ng else sg);
       (st, b2) \<leftarrow> (if bt_page_type node_header = BTreeLeaf then merge_leaves b1 lg rg
                    else merge_internals b1 lg rg (internal_keyAt parent right_idx));
       if st \<noteq> Ok then do { (_, b3) \<leftarrow> guard_drop b2 sg; (_, b4) \<leftarrow> guard_drop b3 pg; (_, b5) \<leftarrow> guard_drop b4 ng; Some (Inl IoError, b5) }
       else case internal_remove parent (internal_keyAt parent right_idx) of (st, parent1) \<Rightarrow>
         if st \<noteq> Ok then do { (_, b3) \<leftarrow> guard_drop b2 sg; (_, b4) \<leftarrow> guard_drop b3 pg; (_, b5) \<leftarrow> guard_drop b4 ng; Some (Inl IoError, b5) }
         else case put_internal b2 pg parent1 of (st, b3) \<Rightarrow>
         if st \<noteq> Ok then do { (_, b4) \<leftarrow> guard_drop b3 sg; (_, b5) \<leftarrow> guard_drop b4 pg; (_, b6) \<leftarrow> guard_drop b5 ng; Some (Inl IoError, b6) }
         else do {
           (_, b4) \<leftarrow> guard_drop b3 (guard_markDirty ng);
           (_, b5) \<leftarrow> guard_drop b4 (guard_markDirty sg);
           (_, b6) \<leftarrow> guard_drop b5 (guard_markDirty pg);
           Some (Inr (if parent_id = root_page_id t then internal_size parent1 = 1
                      else internal_size parent1 < bt_minSize (in_header parent1)), b6) } } })"

text \<open>\<open>handleUnderflow\<close> of a node that is not the root, up to the recursive call.\<close>

definition fix_node :: "BPlusTree \<Rightarrow> BufferPoolManager \<Rightarrow> PageId \<Rightarrow> ((Status + PageId) \<times> BufferPoolManager) option" where
  "fix_node t b pid = do {
     (st, ng, b1) \<leftarrow> fetchPageGuard b pid empty_guard;
     if st \<noteq> Ok then Some (Inl IoError, b1)
     else case BTreePage_deserialize default_BTreePage (guard_body b1 ng) of (st, nh) \<Rightarrow>
       if st \<noteq> Ok then do { (_, b2) \<leftarrow> guard_drop b1 ng; Some (Inl IoError, b2) }
       else do {
         (st, pg, b2) \<leftarrow> fetchPageGuard b1 (parent_page_id nh) empty_guard;
         if st \<noteq> Ok then do { (_, b3) \<leftarrow> guard_drop b2 ng; Some (Inl IoError, b3) }
         else case internal_deserialize default_BTreeInternalPage (guard_body b2 pg) of (st, parent) \<Rightarrow>
           if st \<noteq> Ok then do { (_, b3) \<leftarrow> guard_drop b2 pg; (_, b4) \<leftarrow> guard_drop b3 ng; Some (Inl IoError, b4) }
           else let idx = internal_findChildIndex parent pid in
             if idx = - 1 then do { (_, b3) \<leftarrow> guard_drop b2 pg; (_, b4) \<leftarrow> guard_drop b3 ng; Some (Inl Corruption, b4) }
             else do {
               let left_id = (if idx > 0 then internal_childAt parent (word_of_int (idx - 1)) else kInvalidPageId);
               let right_id = (if idx < int (unat (internal_size parent)) - 1 then internal_childAt parent (word_of_int (idx + 1)) else kInvalidPageId);
               (r1, b3) \<leftarrow> try_borrow True b2 ng pg nh parent idx pid left_id;
               (r2, b4) \<leftarrow> (case r1 of Some st \<Rightarrow> Some (Some st, b3)
                            | None \<Rightarrow> try_borrow False b3 ng pg nh parent idx pid right_id);
               (case r2 of
                  Some st \<Rightarrow> do {
                    (_, b5) \<leftarrow> guard_drop b4 (if st = Ok then guard_markDirty pg else pg);
                    (_, b6) \<leftarrow> guard_drop b5 (if st = Ok then guard_markDirty ng else ng);
                    Some (Inl st, b6) }
                | None \<Rightarrow> do {
                    (r, b5) \<leftarrow> merge_nodes t b4 ng pg nh parent (parent_page_id nh) idx left_id right_id;
                    Some (case r of Inl st \<Rightarrow> Inl st | Inr again \<Rightarrow> if again then Inr (parent_page_id nh) else Inl Ok, b5) }) } } }"

partial_function (option) handleUnderflow :: "BPlusTree \<Rightarrow> BufferPoolManager \<Rightarrow> PageId \<Rightarrow> (Status \<times> BPlusTree \<times> BufferPoolManager) option" where
  "handleUnderflow t b pid =
    (if pid = root_page_id t then shrink_root t b
     else Option.bind (fix_node t b pid) (\<lambda>(r, b1).
       case r of Inl st \<Rightarrow> Some (st, t, b1) | Inr parent_id \<Rightarrow> handleUnderflow t b1 parent_id))"

definition remove_leaf :: "BPlusTree \<Rightarrow> BufferPoolManager \<Rightarrow> PageId \<Rightarrow> int \<Rightarrow> (Status \<times> BPlusTree \<times> BufferPoolManager) option" where
  "remove_leaf t b leaf_id key = do {
     (st, wg, b1) \<leftarrow> fetchPageGuard b leaf_id empty_guard;
     if st \<noteq> Ok then Some (IoError, t, b1)
     else case leaf_deserialize default_BTreeLeafPage (guard_body b1 wg) of (st, leaf) \<Rightarrow>
       if st \<noteq> Ok then do { (_, b2) \<leftarrow> guard_drop b1 wg; Some (IoError, t, b2) }
       else case leaf_remove leaf key of (status, leaf1) \<Rightarrow>
         if status \<noteq> Ok then do { (_, b2) \<leftarrow> guard_drop b1 wg; Some (status, t, b2) }
         else case put_leaf b1 wg leaf1 of (st, b2) \<Rightarrow>
           if st \<noteq> Ok then do { (_, b3) \<leftarrow> guard_drop b2 wg; Some (IoError, t, b3) }
           else do {
             (_, b3) \<leftarrow> guard_drop b2 (guard_markDirty wg);
             if leaf_id = root_page_id t \<and> leaf_size leaf1 = 0 then Some (Ok, t\<lparr>root_page_id := kInvalidPageId\<rparr>, b3)
             else if leaf_size leaf1 < bt_minSize (lf_header leaf1) \<and> leaf_id \<noteq> root_page_id t then handleUnderflow t b3 leaf_id
             else Some (Ok, t, b3) } }"

definition bt_remove :: "BPlusTree \<Rightarrow> BufferPoolManager \<Rightarrow> int \<Rightarrow> (Status \<times> BPlusTree \<times> BufferPoolManager) option" where
  "bt_remove t b key =
    (if bt_isEmpty t then Some (NotFound, t, b)
     else do {
       (r, b1) \<leftarrow> find_leaf b key (root_page_id t);
       (case r of
          Inl st \<Rightarrow> Some (st, t, b1)
        | Inr leaf_id \<Rightarrow> if leaf_id = kInvalidPageId then Some (NotFound, t, b1) else remove_leaf t b1 leaf_id key) })"

subsection \<open>Iteration\<close>

record BPlusTreeIterator =
  it_bpm :: bool
  it_page_id :: PageId
  it_index :: u16
  it_guard :: "PageGuard option"
  it_leaf :: BTreeLeafPage

definition end_BPlusTreeIterator :: BPlusTreeIterator where
  "end_BPlusTreeIterator = \<lparr>it_bpm = False, it_page_id = kInvalidPageId, it_index = 0, it_guard = None, it_leaf = default_BTreeLeafPage\<rparr>"

definition it_isEnd :: "BPlusTreeIterator \<Rightarrow> bool" where
  "it_isEnd it = (it_page_id it = kInvalidPageId)"

text \<open>Destroying the guard an iterator holds, if any.\<close>

definition reset_guard :: "BufferPoolManager \<Rightarrow> PageGuard option \<Rightarrow> BufferPoolManager option" where
  "reset_guard b g = (case g of None \<Rightarrow> Some b | Some g \<Rightarrow> map_option snd (guard_drop b g))"

definition it_loadPage :: "BufferPoolManager \<Rightarrow> BPlusTreeIterator \<Rightarrow> (BPlusTreeIterator \<times> BufferPoolManager) option" where
  "it_loadPage b it = do {
     b0 \<leftarrow> reset_guard b (it_guard it);
     (st, g, b1) \<leftarrow> fetchPageGuard b0 (it_page_id it) empty_guard;
     if st = Ok then
       (case leaf_deserialize (it_leaf it) (guard_body b1 g) of (st, l) \<Rightarrow>
          if st \<noteq> Ok then do { b2 \<leftarrow> reset_guard b1 (Some g); Some (it\<lparr>it_guard := None, it_page_id := kInvalidPageId, it_index := 0, it_leaf := l\<rparr>, b2) }
          else Some (it\<lparr>it_guard := Some g, it_leaf := l\<rparr>, b1))
     else do { b2 \<leftarrow> reset_guard b1 (Some g); Some (it\<lparr>it_guard := None, it_page_id := kInvalidPageId, it_index := 0\<rparr>, b2) } }"

definition mk_BPlusTreeIterator :: "BufferPoolManager \<Rightarrow> PageId \<Rightarrow> u16 \<Rightarrow> (BPlusTreeIterator \<times> BufferPoolManager) option" where
  "mk_BPlusTreeIterator b pid index =
    (let it = \<lparr>it_bpm = True, it_page_id = pid, it_index = index, it_guard = None, it_leaf = default_BTreeLeafPage\<rparr> in
     if pid \<noteq> kInvalidPageId then it_loadPage b it else Some (it, b))"

definition it_deref :: "BPlusTreeIterator \<Rightarrow> int \<times> RID" where
  "it_deref it = (if it_isEnd it then (0, default_RID) else (leaf_keyAt (it_leaf it) (it_index it), leaf_valueAt (it_leaf it) (it_index it)))"

definition it_next :: "BufferPoolManager \<Rightarrow> BPlusTreeIterator \<Rightarrow> (BPlusTreeIterator \<times> BufferPoolManager) option" where
  "it_next b it =
    (if it_isEnd it then Some (it, b)
     else if unat (it_index it) + 1 < unat (leaf_size (it_leaf it)) then Some (it\<lparr>it_index := it_index it + 1\<rparr>, b)
     else do {
       b1 \<leftarrow> reset_guard b (it_guard it);
       let it1 = it\<lparr>it_guard := None, it_page_id := lf_next (it_leaf it), it_index := 0\<rparr>;
       if it_page_id it1 \<noteq> kInvalidPageId then it_loadPage b1 it1 else Some (it1, b1) })"

definition it_eq :: "BPlusTreeIterator \<Rightarrow> BPlusTreeIterator \<Rightarrow> bool" where
  "it_eq a b = (if it_isEnd a \<and> it_isEnd b then True else it_page_id a = it_page_id b \<and> it_index a = it_index b)"

text \<open>\<open>begin()\<close> and \<open>begin(key)\<close>: the descent gives the position the iterator starts at, or the end.\<close>

definition begin_step :: "PageId \<Rightarrow> byte list \<Rightarrow> (PageId \<times> u16) option + PageId" where
  "begin_step cur bd = (case BTreePage_deserialize default_BTreePage bd of (st, header) \<Rightarrow>
     if st \<noteq> Ok then Inl None
     else if bt_page_type header = BTreeLeaf then
       (case leaf_deserialize default_BTreeLeafPage bd of (st, leaf) \<Rightarrow>
          if st \<noteq> Ok \<or> leaf_size leaf = 0 then Inl None else Inl (Some (cur, 0)))
     else if bt_page_type header = BTreeInternal then
       (case internal_deserialize default_BTreeInternalPage bd of (st, internal) \<Rightarrow>
          if st \<noteq> Ok then Inl None else Inr (internal_childAt internal 0))
     else Inl None)"

function first_not_below :: "BTreeLeafPage \<Rightarrow> int \<Rightarrow> nat \<Rightarrow> nat" where
  "first_not_below l key i =
    (if i < unat (leaf_size l) \<and> leaf_keyAt l (word_of_nat i) < key then first_not_below l key (Suc i) else i)"
  by pat_completeness auto
termination by (relation "measure (\<lambda>(l, key, i). unat (leaf_size l) - i)") auto

declare first_not_below.simps [simp del]

definition begin_key_step :: "int \<Rightarrow> PageId \<Rightarrow> byte list \<Rightarrow> (PageId \<times> u16) option + PageId" where
  "begin_key_step key cur bd = (case BTreePage_deserialize default_BTreePage bd of (st, header) \<Rightarrow>
     if st \<noteq> Ok then Inl None
     else if bt_page_type header = BTreeLeaf then
       (case leaf_deserialize default_BTreeLeafPage bd of (st, leaf) \<Rightarrow>
          if st \<noteq> Ok \<or> leaf_size leaf = 0 then Inl None
          else let i = first_not_below leaf key 0 in
            if i < unat (leaf_size leaf) then Inl (Some (cur, word_of_nat i))
            else if lf_next leaf \<noteq> kInvalidPageId then Inl (Some (lf_next leaf, 0)) else Inl None)
     else if bt_page_type header = BTreeInternal then
       (case internal_deserialize default_BTreeInternalPage bd of (st, internal) \<Rightarrow>
          if st \<noteq> Ok then Inl None else Inr (internal_lookup internal key))
     else Inl None)"

definition start_iterator :: "(PageId \<times> u16) option \<Rightarrow> BufferPoolManager \<Rightarrow> (BPlusTreeIterator \<times> BufferPoolManager) option" where
  "start_iterator r b = (case r of None \<Rightarrow> Some (end_BPlusTreeIterator, b) | Some (pid, i) \<Rightarrow> mk_BPlusTreeIterator b pid i)"

definition bt_begin :: "BPlusTree \<Rightarrow> BufferPoolManager \<Rightarrow> (BPlusTreeIterator \<times> BufferPoolManager) option" where
  "bt_begin t b = (if bt_isEmpty t then Some (end_BPlusTreeIterator, b)
     else do { (r, b1) \<leftarrow> descend None None begin_step b (root_page_id t); start_iterator r b1 })"

definition bt_begin_key :: "BPlusTree \<Rightarrow> BufferPoolManager \<Rightarrow> int \<Rightarrow> (BPlusTreeIterator \<times> BufferPoolManager) option" where
  "bt_begin_key t b key = (if bt_isEmpty t then Some (end_BPlusTreeIterator, b)
     else do { (r, b1) \<leftarrow> descend None None (begin_key_step key) b (root_page_id t); start_iterator r b1 })"

subsection \<open>Access to pages\<close>

text \<open>The body of every page, cached or on disk.\<close>

definition bodies :: "BufferPoolManager \<Rightarrow> PageId \<Rightarrow> byte list option" where
  "bodies b p = map_option snd (bpm_content b p)"

text \<open>At least \<open>n\<close> frames can be used, because at most \<open>pool_size - n\<close> pages are pinned.\<close>

definition room :: "nat \<Rightarrow> BufferPoolManager \<Rightarrow> bool" where
  "room n b = (\<exists>S. finite S \<and> card S + n \<le> pool_size b \<and> (\<forall>p. p \<notin> S \<longrightarrow> pin_of b p = 0))"

lemma room_fetch:
  assumes "bpm_ok b" "room (Suc n) b"
  shows "\<not> (\<forall>f<pool_size b. fr_valid (frames b ! f) \<and> 0 < pin_count (frames b ! f))"
proof
  assume all: "\<forall>f<pool_size b. fr_valid (frames b ! f) \<and> 0 < pin_count (frames b ! f)"
  obtain S where S: "finite S" "card S + Suc n \<le> pool_size b" "\<forall>p. p \<notin> S \<longrightarrow> pin_of b p = 0"
    using assms(2) unfolding room_def by blast
  let ?id = "\<lambda>f. fr_page_id (frames b ! f)"
  have pt: "page_table b (?id f) = Some f" if "f < pool_size b" for f using valid_frameD(1) [OF assms(1) that] all that by blast
  have "?id f \<in> S" if "f < pool_size b" for f
    using S(3) pt [OF that] all that by (force simp: pin_of_def)
  moreover have "inj_on ?id {..<pool_size b}" using pt by (intro inj_onI) (metis lessThan_iff option.inject)
  ultimately have "pool_size b \<le> card S" using card_inj_on_le [of ?id "{..<pool_size b}" S] S(1) by auto
  then show False using S(2) by simp
qed

lemma bodies_disk:
  assumes "bpm_ok b" "bodies b p = Some bd"
  shows "dm_pages (bpm_disk b) p \<noteq> None"
proof (cases "page_table b p")
  case None
  then show ?thesis using assms(2) by (auto simp: bodies_def bpm_content_def)
next
  case (Some f)
  then show ?thesis using bpm_okD(5) [OF assms(1) Some] valid_frameD(5) [OF assms(1), of f] by auto
qed

text \<open>What a scope with one guard sees and leaves behind.\<close>

lemma fetch_guard:
  assumes "bpm_ok b" "bodies b p = Some bd" "room (Suc n) b" "p \<noteq> kInvalidPageId"
  obtains f b1 where "fetchPageGuard b p empty_guard = Some (Ok, mk_guard b1 f, b1)" "bpm_ok b1" "bpm_content b1 = bpm_content b"
    "pool_size b1 = pool_size b" "page_table b1 p = Some f" "pin_of b1 = (pin_of b)(p := pin_of b p + 1)" "clean_ok b1 p f"
    "guard_body b1 (mk_guard b1 f) = bd" "0 \<le> pin_of b p"
proof -
  note disk = bodies_disk [OF assms(1,2)]
  have pin: "0 \<le> pin_of b p"
    using bpm_okD(5) [OF assms(1), of p] valid_frameD(3) [OF assms(1)] by (auto simp: pin_of_def split: option.split)
  obtain f b1 where F: "fetchPage b p = Some (Ok, Some f, b1)" "bpm_ok b1" "bpm_content b1 = bpm_content b" "pool_size b1 = pool_size b"
      "page_table b1 p = Some f" "pin_of b1 = (pin_of b)(p := pin_of b p + 1)" "clean_ok b1 p f"
  proof (cases "page_table b p")
    case None
    then have z: "pin_of b p = 0" by (simp add: pin_of_def)
    from fetch_miss [OF assms(1) None disk] room_fetch [OF assms(1,3)] obtain f b1 where
      "fetchPage b p = Some (Ok, Some f, b1)" "bpm_ok b1" "bpm_content b1 = bpm_content b" "pool_size b1 = pool_size b"
      "page_table b1 p = Some f" "pin_of b1 = (pin_of b)(p := 1)" "clean_ok b1 p f" by blast
    then show ?thesis using that z by simp
  next
    case (Some f)
    from fetch_hit [OF assms(1) Some] that Some show ?thesis by metis
  qed
  have "bodies b1 p = Some bd" using assms(2) F(3) by (simp add: bodies_def)
  then have "guard_body b1 (mk_guard b1 f) = bd"
    using F(5) by (simp add: guard_body_def mk_guard_def bodies_def bpm_content_def content_def)
  then show ?thesis using that F fetchPageGuard_eq [OF F(1)] pin by blast
qed

lemma drop_guard:
  assumes "bpm_ok b" "page_table b p = Some f" "0 < pin_of b p" "p \<noteq> kInvalidPageId" "dirty \<or> clean_ok b p f"
    and "g = (mk_guard b f)\<lparr>g_dirty := dirty\<rparr>"
  obtains b' where "guard_drop b g = Some (empty_guard, b')" "bpm_ok b'" "bpm_content b' = bpm_content b"
    "pool_size b' = pool_size b" "page_table b' = page_table b" "pin_of b' = (pin_of b)(p := pin_of b p - 1)"
    "dm_room (bpm_disk b') = dm_room (bpm_disk b)"
proof -
  have id: "fr_page_id (frames b ! f) = p" using bpm_okD(5) [OF assms(1,2)] by simp
  have "0 < pin_count (frames b ! f)" using assms(2,3) by (simp add: pin_of_def)
  from unpinPage_spec [OF assms(1,2) this, of dirty] assms(5) obtain b' where
    "unpinPage b p dirty = Some (Ok, b')" "bpm_ok b'" "bpm_content b' = bpm_content b" "pool_size b' = pool_size b"
    "page_table b' = page_table b" "bpm_disk b' = bpm_disk b" "pin_of b' = (pin_of b)(p := pin_of b p - 1)"
    by (auto simp: clean_ok_def)
  then show ?thesis using that assms(4,6) id by (simp add: guard_drop_def guard_isValid_def mk_guard_def)
qed

lemma read_page_ok:
  assumes "bpm_ok b" "bodies b p = Some bd" "room (Suc n) b" "p \<noteq> kInvalidPageId"
  obtains b' where "read_page b p fail f = Some (f bd, b')" "bpm_ok b'" "bpm_content b' = bpm_content b" "pin_of b' = pin_of b"
    "pool_size b' = pool_size b"
proof -
  from fetch_guard [OF assms] obtain fr b1 where F: "fetchPageGuard b p empty_guard = Some (Ok, mk_guard b1 fr, b1)" "bpm_ok b1"
    "bpm_content b1 = bpm_content b" "pool_size b1 = pool_size b" "page_table b1 p = Some fr" "pin_of b1 = (pin_of b)(p := pin_of b p + 1)"
    "clean_ok b1 p fr" "guard_body b1 (mk_guard b1 fr) = bd" "0 \<le> pin_of b p" .
  have g: "mk_guard b1 fr = (mk_guard b1 fr)\<lparr>g_dirty := False\<rparr>" by (simp add: mk_guard_def)
  have pin: "0 < pin_of b1 p" using F(6,9) by simp
  from drop_guard [OF F(2,5) pin assms(4) disjI2 [OF F(7)] g] obtain b2 where
    "guard_drop b1 (mk_guard b1 fr) = Some (empty_guard, b2)" "bpm_ok b2" "bpm_content b2 = bpm_content b1" "pool_size b2 = pool_size b1"
    "pin_of b2 = (pin_of b1)(p := pin_of b1 p - 1)" by auto
  then show ?thesis using that F by (simp add: read_page_def fun_upd_triv)
qed

subsection \<open>Trees in the pool\<close>

text \<open>
  The tree a set of pages holds: each node with its page and its decoded contents.  In an
  internal node every key below the \<open>i\<close>-th child lies in the \<open>i\<close>-th range of the separators, from the
  separator left of the child up to (and without) the one right of it; nothing is said here of how a search
  finds its way.
\<close>

datatype btree = TLeaf PageId BTreeLeafPage | TNode PageId BTreeInternalPage "btree list"

fun t_id :: "btree \<Rightarrow> PageId" where
  "t_id (TLeaf p l) = p"
| "t_id (TNode p n cs) = p"

fun t_ids :: "btree \<Rightarrow> PageId list" where
  "t_ids (TLeaf p l) = [p]"
| "t_ids (TNode p n cs) = p # concat (map t_ids cs)"

fun t_pairs :: "btree \<Rightarrow> (int \<times> RID) list" where
  "t_pairs (TLeaf p l) = leaf_pairs l"
| "t_pairs (TNode p n cs) = concat (map t_pairs cs)"

definition leaf_at :: "byte list option \<Rightarrow> BTreeLeafPage \<Rightarrow> bool" where
  "leaf_at bd l = (leaf_ok l \<and> bt_page_type (lf_header l) = BTreeLeaf \<and> list_all wf_entry (take (unat (leaf_size l)) (lf_entries l))
     \<and> (case bd of None \<Rightarrow> False | Some bd \<Rightarrow> leaf_deserialize default_BTreeLeafPage bd = (Ok, l)))"

definition internal_at :: "byte list option \<Rightarrow> BTreeInternalPage \<Rightarrow> bool" where
  "internal_at bd n = (internal_ok n \<and> internal_size n \<noteq> 0 \<and> bt_page_type (in_header n) = BTreeInternal
     \<and> (case bd of None \<Rightarrow> False | Some bd \<Rightarrow> internal_deserialize default_BTreeInternalPage bd = (Ok, n)))"

definition in_range :: "int list \<Rightarrow> nat \<Rightarrow> int \<Rightarrow> bool" where
  "in_range ks i k = ((0 < i \<longrightarrow> ks ! (i - 1) \<le> k) \<and> (i < length ks \<longrightarrow> k < ks ! i))"

definition routed :: "BTreeInternalPage \<Rightarrow> btree list \<Rightarrow> bool" where
  "routed n cs = (\<forall>i < length cs. \<forall>k \<in> fst ` set (t_pairs (cs ! i)). in_range (keys_of (in_seps n)) i k)"

fun stored :: "(PageId \<Rightarrow> byte list option) \<Rightarrow> btree \<Rightarrow> bool" where
  "stored S (TLeaf p l) = (p \<noteq> kInvalidPageId \<and> leaf_at (S p) l)"
| "stored S (TNode p n cs) = (p \<noteq> kInvalidPageId \<and> internal_at (S p) n \<and> map snd (in_pairs n) = map t_id cs
     \<and> routed n cs \<and> list_all (stored S) cs)"

definition tree_ok :: "(PageId \<Rightarrow> byte list option) \<Rightarrow> btree \<Rightarrow> bool" where
  "tree_ok S t = (stored S t \<and> distinct (t_ids t))"

lemma header_slice:
  assumes "kBTreeHeaderSize \<le> length bd"
  shows "BTreePage_deserialize h (slice bd 0 kBTreeHeaderSize) = BTreePage_deserialize h bd"
  using assms by (simp add: BTreePage_deserialize_def slice_def)

lemma header_keep: "BTreePage_deserialize h bd = (Ok, h1) \<Longrightarrow> BTreePage_deserialize h' bd = (Ok, h1)"
  by (auto simp: BTreePage_deserialize_def read_or_def split: if_splits prod.splits)

lemma header_of_leaf:
  assumes "leaf_deserialize l0 bd = (Ok, l)"
  shows "BTreePage_deserialize default_BTreePage bd = (Ok, lf_header l)"
  using assms header_slice [of bd default_BTreePage]
  by (auto simp: leaf_deserialize_def Let_def read_or_def leaf_consts split: if_splits prod.splits)

lemma header_of_internal:
  assumes "internal_deserialize p0 bd = (Ok, p)"
  shows "BTreePage_deserialize default_BTreePage bd = (Ok, in_header p)"
  using assms header_slice [of bd "in_header p0"]
  by (auto simp: internal_deserialize_def Let_def split: if_splits prod.splits intro: header_keep)

lemma route_in: "route c ps k \<in> insert c (snd ` set ps)"
proof (induction ps arbitrary: c)
  case (Cons x ps)
  then show ?case by (cases x) force
qed simp

lemma internal_lookup_in:
  assumes "internal_ok n" "internal_size n \<noteq> 0"
  shows "internal_lookup n k \<in> snd ` set (in_pairs n)"
  unfolding internal_lookup_routes [OF assms] in_pairs_Cons [OF assms] using route_in [of "in_first n" "in_seps n" k] by simp

text \<open>The code's search in a node finds the child whose range holds the key, and only that one.\<close>

lemma in_range_rank:
  assumes "sorted_wrt (<) ks" "i \<le> length ks"
  shows "in_range ks i k \<longleftrightarrow> rank ks (k + 1) = i"
proof
  assume r: "in_range ks i k"
  have below: "ks ! x < k + 1" if x: "x < i" for x
  proof -
    have "ks ! x \<le> ks ! (i - 1)"
    proof (cases "Suc x = i")
      case False
      then have "x < i - 1" "i - 1 < length ks" using x assms(2) by linarith+
      then show ?thesis using sorted_wrt_nth_less [OF assms(1)] by (simp add: less_imp_le)
    qed auto
    then show ?thesis using r x by (simp add: in_range_def)
  qed
  have above: "k + 1 \<le> ks ! x" if "i \<le> x" "x < length ks" for x
    using r that sorted_wrt_nth_less [OF assms(1), of i x] by (cases "x = i") (auto simp: in_range_def)
  show "rank ks (k + 1) = i" by (rule rank_unique [OF assms]) (use below above in auto)
next
  assume "rank ks (k + 1) = i"
  then show "in_range ks i k"
    using rank_nth(1) [OF assms(1), of "i - 1" "k + 1"] rank_nth(2) [OF assms(1), of "k + 1" i] by (auto simp: in_range_def)
qed

lemma internal_lookup_range:
  assumes "internal_ok n" "internal_size n \<noteq> 0" "i < length (in_pairs n)"
  shows "in_range (keys_of (in_seps n)) i k \<Longrightarrow> internal_lookup n k = snd (in_pairs n ! i)"
    and "distinct (map snd (in_pairs n)) \<Longrightarrow> internal_lookup n k = snd (in_pairs n ! i) \<Longrightarrow> in_range (keys_of (in_seps n)) i k"
proof -
  let ?ks = "keys_of (in_seps n)"
  let ?r = "rank ?ks (k + 1)"
  have srt: "sorted_wrt (<) ?ks" by (rule internal_okD(4) [OF assms(1)])
  have pc: "in_pairs n = (ie_key (in_entries n ! 0), in_first n) # in_seps n" by (rule in_pairs_Cons [OF assms(1,2)])
  have len: "length (in_pairs n) = Suc (length ?ks)" by (simp add: pc keys_of_def)
  have look: "internal_lookup n k = snd (in_pairs n ! ?r)"
    unfolding internal_lookup_routes [OF assms(1,2)] route_rank [OF srt] by (simp add: pc Let_def nth_Cons')
  have rl: "?r < length (in_pairs n)" using rank_le [of ?ks "k + 1"] len by simp
  have iff: "in_range ?ks i k \<longleftrightarrow> ?r = i" by (rule in_range_rank [OF srt]) (use assms(3) len in simp)
  show "in_range ?ks i k \<Longrightarrow> internal_lookup n k = snd (in_pairs n ! i)" using iff look by simp
  show "in_range ?ks i k" if "distinct (map snd (in_pairs n))" "internal_lookup n k = snd (in_pairs n ! i)"
  proof -
    have "map snd (in_pairs n) ! ?r = map snd (in_pairs n) ! i" using that(2) look rl assms(3) by simp
    then have "?r = i" using nth_eq_iff_index_eq [OF that(1), of ?r i] rl assms(3) by simp
    then show ?thesis using iff by simp
  qed
qed

text \<open>So the ranges of a node and what its search finds agree.\<close>

lemma routed_lookup:
  assumes "internal_ok n" "internal_size n \<noteq> 0" "map snd (in_pairs n) = map t_id cs"
  shows "routed n cs \<Longrightarrow> c \<in> set cs \<Longrightarrow> k \<in> fst ` set (t_pairs c) \<Longrightarrow> internal_lookup n k = t_id c"
    and "distinct (map t_id cs) \<Longrightarrow> \<forall>c \<in> set cs. \<forall>k \<in> fst ` set (t_pairs c). internal_lookup n k = t_id c \<Longrightarrow> routed n cs"
proof -
  have len: "length (in_pairs n) = length cs" using map_eq_imp_length_eq [OF assms(3)] .
  have nth: "snd (in_pairs n ! i) = t_id (cs ! i)" if "i < length cs" for i
    using arg_cong [OF assms(3), of "\<lambda>xs. xs ! i"] that len by simp
  show "internal_lookup n k = t_id c" if r: "routed n cs" and c: "c \<in> set cs" and k: "k \<in> fst ` set (t_pairs c)"
  proof -
    obtain i where i: "i < length cs" "c = cs ! i" using c by (auto simp: in_set_conv_nth)
    have "in_range (keys_of (in_seps n)) i k" using r k i unfolding routed_def by blast
    then show ?thesis using internal_lookup_range(1) [OF assms(1,2), of i k] i nth len by simp
  qed
  show "routed n cs" if d: "distinct (map t_id cs)" and a: "\<forall>c \<in> set cs. \<forall>k \<in> fst ` set (t_pairs c). internal_lookup n k = t_id c"
    unfolding routed_def
  proof (intro allI impI ballI)
    fix i k assume i: "i < length cs" and k: "k \<in> fst ` set (t_pairs (cs ! i))"
    have dd: "distinct (map snd (in_pairs n))" using d assms(3) by simp
    have "internal_lookup n k = t_id (cs ! i)" using a i k nth_mem [OF i] by blast
    then have "internal_lookup n k = snd (in_pairs n ! i)" using nth [OF i] by simp
    then show "in_range (keys_of (in_seps n)) i k"
      using internal_lookup_range(2) [OF assms(1,2) _ dd, of i k] i len by simp
  qed
qed

lemma t_id_in_ids: "t_id t \<in> set (t_ids t)"
  by (cases t) auto

lemma stored_id: "stored S t \<Longrightarrow> t_id t \<noteq> kInvalidPageId"
  by (cases t) auto

lemma child_unique:
  assumes "distinct (t_ids (TNode p n cs))" "c \<in> set cs" "d \<in> set cs" "x \<in> set (t_ids c)" "x \<in> set (t_ids d)"
  shows "d = c"
proof -
  have "distinct (concat (map t_ids cs))" using assms(1) by simp
  then show ?thesis using assms(2-5) by (induction cs) (auto simp: disjoint_iff)
qed

lemma distinct_children:
  assumes "distinct (t_ids (TNode p n cs))"
  shows "distinct (map t_id cs)"
proof -
  have "distinct (concat (map t_ids cs))" using assms by simp
  then show ?thesis
  proof (induction cs)
    case (Cons c cs)
    have "t_id c \<notin> set (map t_id cs)" using Cons.prems t_id_in_ids by (force simp: disjoint_iff)
    then show ?case using Cons by simp
  qed simp
qed

text \<open>The child a key is routed to, and why the search may go on there.\<close>

lemma routed_child:
  assumes "stored S (TNode p n cs)" "distinct (t_ids (TNode p n cs))"
  obtains c where "c \<in> set cs" "internal_lookup n k = t_id c" "stored S c" "distinct (t_ids c)"
    "map_of (t_pairs (TNode p n cs)) k = map_of (t_pairs c) k"
proof -
  have n: "internal_ok n" "internal_size n \<noteq> 0" using assms(1) by (auto simp: internal_at_def)
  have "internal_lookup n k \<in> set (map t_id cs)" using internal_lookup_in [OF n, of k] assms(1) by (metis list.set_map stored.simps(2))
  then obtain c where c: "c \<in> set cs" "internal_lookup n k = t_id c" by auto
  have uniq: "d = c" if "d \<in> set cs" "t_id d = t_id c" for d
    using child_unique [OF assms(2) c(1) that(1), of "t_id c"] that(2) t_id_in_ids [of c] t_id_in_ids [of d] by simp
  have other: "k \<notin> fst ` set (t_pairs d)" if "d \<in> set cs" "d \<noteq> c" for d
  proof
    assume "k \<in> fst ` set (t_pairs d)"
    then have "internal_lookup n k = t_id d" using routed_lookup(1) [OF n _ _ that(1)] assms(1) by simp
    then have "t_id c = t_id d" using c(2) by metis
    then show False using uniq that by metis
  qed
  have m: "map_of (concat (map t_pairs ds)) k = (if c \<in> set ds then map_of (t_pairs c) k else None)"
    if "set ds \<subseteq> set cs" for ds
    using that
  proof (induction ds)
    case (Cons d ds)
    show ?case
    proof (cases "d = c")
      case True
      then show ?thesis using Cons by (cases "map_of (t_pairs c) k") (auto simp: map_add_def split: option.split)
    next
      case False
      then have "map_of (t_pairs d) k = None" using other Cons.prems by (simp add: map_of_eq_None_iff)
      then show ?thesis using Cons False by (auto simp: map_add_def split: option.split)
    qed
  qed simp
  have "stored S c" "distinct (t_ids c)"
    using assms c(1) by (auto simp: list_all_iff distinct_concat_iff)
  then show ?thesis using that c m [of cs] by simp
qed

subsection \<open>Descents\<close>

text \<open>The leaf a descent reaches when every internal node chooses its child with \<open>pick\<close>.\<close>

inductive reaches :: "(BTreeInternalPage \<Rightarrow> PageId) \<Rightarrow> btree \<Rightarrow> PageId \<Rightarrow> BTreeLeafPage \<Rightarrow> bool" for pick where
  reaches_leaf: "reaches pick (TLeaf p l) p l"
| reaches_node: "\<lbrakk>c \<in> set cs; t_id c = pick n; reaches pick c p l\<rbrakk> \<Longrightarrow> reaches pick (TNode q n cs) p l"

inductive_cases reaches_leafE: "reaches pick (TLeaf q m) p l"
inductive_cases reaches_nodeE: "reaches pick (TNode q n cs) p l"

lemma reaches_stored:
  assumes "reaches pick t p l" "stored S t"
  shows "p \<noteq> kInvalidPageId" "leaf_at (S p) l"
  using assms by (induction) (auto simp: list_all_iff)

lemma reaches_lookup:
  assumes "stored S t" "distinct (t_ids t)"
  shows "\<exists>p l. reaches (\<lambda>n. internal_lookup n k) t p l \<and> map_of (t_pairs t) k = map_of (leaf_pairs l) k"
  using assms
proof (induction t)
  case (TNode p n cs)
  obtain c where c: "c \<in> set cs" "internal_lookup n k = t_id c" "stored S c" "distinct (t_ids c)"
      "map_of (t_pairs (TNode p n cs)) k = map_of (t_pairs c) k"
    using routed_child [OF TNode.prems] by metis
  from TNode.IH [OF c(1,3,4)] obtain q l where "reaches (\<lambda>n. internal_lookup n k) c q l" "map_of (t_pairs c) k = map_of (leaf_pairs l) k"
    by blast
  then show ?case using reaches_node [of c cs "\<lambda>n. internal_lookup n k" n q l p] c by metis
qed (auto intro: reaches_leaf)

lemma reaches_unique:
  assumes "reaches pick t p l" "reaches pick t q m" "distinct (t_ids t)"
  shows "q = p \<and> m = l"
  using assms
proof (induction arbitrary: q m rule: reaches.induct)
  case (reaches_node c cs n p l r)
  from reaches_node.prems(1) obtain d where d: "d \<in> set cs" "t_id d = pick n" "reaches pick d q m"
    by (auto elim: reaches_nodeE)
  have "d = c" using child_unique [OF reaches_node.prems(2) reaches_node.hyps(1) d(1), of "pick n"] d(2) reaches_node.hyps(2)
      t_id_in_ids [of c] t_id_in_ids [of d] by simp
  moreover have "distinct (t_ids c)" using reaches_node.prems(2) reaches_node.hyps(1) by (auto simp: distinct_concat_iff)
  ultimately show ?case using reaches_node.IH d(3) by blast
qed (auto elim: reaches_leafE)

lemma leaf_at_unique: "leaf_at bd l \<Longrightarrow> leaf_at bd l' \<Longrightarrow> l = l'"
  by (auto simp: leaf_at_def split: option.splits)

text \<open>
  The leaf a key belongs to, by the ranges of the separators alone, and that the code's search reaches it.
\<close>

inductive belongs :: "int \<Rightarrow> btree \<Rightarrow> PageId \<Rightarrow> BTreeLeafPage \<Rightarrow> bool" for key where
  belongs_leaf: "belongs key (TLeaf p l) p l"
| belongs_node: "\<lbrakk>i < length cs; in_range (keys_of (in_seps n)) i key; belongs key (cs ! i) p l\<rbrakk> \<Longrightarrow> belongs key (TNode q n cs) p l"

lemma belongs_reaches:
  assumes "belongs key t p l" "stored S t"
  shows "reaches (\<lambda>n. internal_lookup n key) t p l"
  using assms
proof (induction rule: belongs.induct)
  case (belongs_node i cs n p l q)
  have n: "internal_ok n" "internal_size n \<noteq> 0" "map snd (in_pairs n) = map t_id cs"
    using belongs_node.prems by (auto simp: internal_at_def)
  have len: "length (in_pairs n) = length cs" using map_eq_imp_length_eq [OF n(3)] .
  have "snd (in_pairs n ! i) = t_id (cs ! i)"
    using arg_cong [OF n(3), of "\<lambda>xs. xs ! i"] belongs_node.hyps(1) len by simp
  then have "t_id (cs ! i) = internal_lookup n key"
    using internal_lookup_range(1) [OF n(1,2) _ belongs_node.hyps(2)] belongs_node.hyps(1) len by simp
  then show ?case using belongs_node by (auto intro!: reaches_node [of "cs ! i"] simp: list_all_iff)
qed (rule reaches_leaf)

text \<open>A descent through a stored tree returns, with what the reached leaf gives, and changes nothing.\<close>

lemma descend_ok:
  assumes "reaches pick t p l" "bpm_ok b" "stored (bodies b) t" "room (Suc m) b"
    and leaf: "\<And>bd. leaf_deserialize default_BTreeLeafPage bd = (Ok, l) \<Longrightarrow> leaf_at (Some bd) l \<Longrightarrow> stp p bd = Inl r"
    and node: "\<And>q bd n. internal_deserialize default_BTreeInternalPage bd = (Ok, n) \<Longrightarrow> internal_at (Some bd) n \<Longrightarrow>
      pick n \<noteq> kInvalidPageId \<Longrightarrow> stp q bd = Inr (pick n)"
  shows "\<exists>b'. descend off fail stp b (t_id t) = Some (r, b') \<and> bpm_ok b' \<and> bpm_content b' = bpm_content b
    \<and> pin_of b' = pin_of b \<and> pool_size b' = pool_size b"
  using assms(1-4) leaf
proof (induction arbitrary: b)
  case (reaches_leaf p l)
  have at: "leaf_at (bodies b p) l" "p \<noteq> kInvalidPageId" using reaches_leaf.prems(2) by simp_all
  obtain bd where bd: "bodies b p = Some bd" "leaf_deserialize default_BTreeLeafPage bd = (Ok, l)" "p \<noteq> kInvalidPageId" "leaf_at (Some bd) l"
    using at by (cases "bodies b p") (auto simp: leaf_at_def)
  obtain b' where b': "read_page b p (Inl fail) (stp p) = Some (stp p bd, b')" "bpm_ok b'"
      "bpm_content b' = bpm_content b" "pin_of b' = pin_of b" "pool_size b' = pool_size b"
    by (rule read_page_ok [OF reaches_leaf.prems(1) bd(1) reaches_leaf.prems(3) bd(3), where fail = "Inl fail" and f = "stp p"])
  moreover have "stp p bd = Inl r" by (rule reaches_leaf.prems(4) [OF bd(2,4)])
  ultimately show ?case using bd(3) by (subst descend.simps) simp
next
  case (reaches_node c cs n p l q)
  have at: "internal_at (bodies b q) n" "q \<noteq> kInvalidPageId" using reaches_node.prems(2) by simp_all
  obtain bd where bd: "bodies b q = Some bd" "internal_deserialize default_BTreeInternalPage bd = (Ok, n)" "q \<noteq> kInvalidPageId" "internal_at (Some bd) n"
    using at by (cases "bodies b q") (auto simp: internal_at_def)
  have c: "stored (bodies b) c" using reaches_node.hyps(1) reaches_node.prems(2) by (simp add: list_all_iff)
  obtain b1 where b1: "read_page b q (Inl fail) (stp q) = Some (stp q bd, b1)" "bpm_ok b1"
      "bpm_content b1 = bpm_content b" "pin_of b1 = pin_of b" "pool_size b1 = pool_size b"
    by (rule read_page_ok [OF reaches_node.prems(1) bd(1) reaches_node.prems(3) bd(3), where fail = "Inl fail" and f = "stp q"])
  have step: "stp q bd = Inr (t_id c)" using node [OF bd(2,4)] stored_id [OF c] reaches_node.hyps(2) by simp
  have "bodies b1 = bodies b" "room (Suc m) b1" using b1(3-5) reaches_node.prems(3) by (simp_all add: bodies_def [abs_def] room_def)
  then obtain b' where "descend off fail stp b1 (t_id c) = Some (r, b')" "bpm_ok b'" "bpm_content b' = bpm_content b1"
      "pin_of b' = pin_of b1" "pool_size b' = pool_size b1"
    using reaches_node.IH [OF b1(2) _ _ reaches_node.prems(4)] c by auto
  then show ?case using b1 step bd(3) by (subst descend.simps) simp
qed

text \<open>
  C18. Searching a well-formed tree always returns, and with exactly the record stored under the
  key, if any; the search leaves every page's contents and every pin count as they were.
\<close>

theorem getValue_correct:
  assumes "bpm_ok b" "tree_ok (bodies b) T" "t_id T = root_page_id t" "room 1 b"
  shows "\<exists>b'. getValue t b key = Some (map_of (t_pairs T) key, b') \<and> bpm_ok b' \<and> bpm_content b' = bpm_content b \<and> pin_of b' = pin_of b"
proof -
  have S: "stored (bodies b) T" "distinct (t_ids T)" using assms(2) by (simp_all add: tree_ok_def)
  obtain p l where r: "reaches (\<lambda>n. internal_lookup n key) T p l" "map_of (t_pairs T) key = map_of (leaf_pairs l) key"
    using reaches_lookup [OF S] by blast
  have "getValue_step key bd = Inl (map_of (t_pairs T) key)"
    if "leaf_deserialize default_BTreeLeafPage bd = (Ok, l)" "leaf_at (Some bd) l" for bd
    using that by (simp add: getValue_step_def header_of_leaf leaf_at_def leaf_lookup_map r(2))
  moreover have "getValue_step key bd = Inr (internal_lookup n key)"
    if "internal_deserialize default_BTreeInternalPage bd = (Ok, n)" "internal_at (Some bd) n" "internal_lookup n key \<noteq> kInvalidPageId" for bd n
    using that by (simp add: getValue_step_def header_of_internal internal_at_def)
  ultimately have "\<exists>b'. descend None None (\<lambda>_. getValue_step key) b (t_id T) = Some (map_of (t_pairs T) key, b') \<and> bpm_ok b'
      \<and> bpm_content b' = bpm_content b \<and> pin_of b' = pin_of b \<and> pool_size b' = pool_size b"
    by (intro descend_ok [OF r(1) assms(1) S(1)]) (use assms(4) in auto)
  moreover have "\<not> bt_isEmpty t" using stored_id [OF S(1)] assms(3) by (simp add: bt_isEmpty_def)
  ultimately show ?thesis using assms(3) by (auto simp: getValue_def)
qed

subsection \<open>Changing one leaf\<close>

lemma bodies_length:
  assumes "bpm_ok b" "bodies b p = Some bd"
  shows "length bd = kPageBodySize"
proof (cases "page_table b p")
  case None
  then show ?thesis using assms(2) bpm_okD(7) [OF assms(1), of p] by (auto simp: bodies_def bpm_content_def content_def storable_def)
next
  case (Some f)
  then have "storable (fr_page (frames b ! f))" using bpm_okD(5) [OF assms(1) Some] valid_frameD(6) [OF assms(1)] by blast
  then show ?thesis using assms(2) Some by (auto simp: bodies_def bpm_content_def content_def storable_def)
qed

lemma guard_write_ok:
  assumes "bpm_ok b" "page_table b p = Some f" "0 < pin_of b p" "length bs = kPageBodySize" "g_frame g = Some f"
  defines "b' \<equiv> guard_write b g bs"
  shows "bpm_ok b'" "bodies b' = (bodies b)(p \<mapsto> bs)" "pin_of b' = pin_of b" "pool_size b' = pool_size b" "page_table b' = page_table b"
    "guard_body b' g = bs" "mk_guard b' f = mk_guard b f" "bpm_disk b' = bpm_disk b"
proof -
  have f: "f < pool_size b" "fr_valid (frames b ! f)" using bpm_okD(5) [OF assms(1,2)] by simp_all
  have st: "storable (fr_page (frames b ! f))" by (rule valid_frameD(6) [OF assms(1) f])
  let ?pg = "set_body (fr_page (frames b ! f)) bs"
  have pg: "storable ?pg" "content ?pg = (pg_header (fr_page (frames b ! f)), bs)"
    using st assms(4) by (simp_all add: storable_def content_def)
  have pin: "0 < pin_count (frames b ! f)" using assms(2,3) by (simp add: pin_of_def)
  have eq: "b' = write_frame_page b f ?pg" using assms(5) by (simp add: b'_def guard_write_def)
  note w = write_frame_page_spec [OF assms(1,2) pin pg(1), folded eq]
  have len: "f < length (frames b)" using f(1) bpm_okD(4) [OF assms(1)] by simp
  show "bpm_ok b'" "pin_of b' = pin_of b" by (rule w)+
  show "bodies b' = (bodies b)(p \<mapsto> bs)" using w(2) pg(2) by (auto simp: bodies_def [abs_def])
  show "pool_size b' = pool_size b" "page_table b' = page_table b" "bpm_disk b' = bpm_disk b" by (simp_all add: eq write_frame_page_def)
  show "guard_body b' g = bs" using len st assms(5) by (simp add: guard_body_def eq write_frame_page_def storable_def)
  show "mk_guard b' f = mk_guard b f" using len by (simp add: mk_guard_def eq write_frame_page_def)
qed

lemma wf_entries_keys:
  "list_all wf_entry (take (unat (leaf_size l)) (lf_entries l)) = list_all int64 (keys_of (leaf_pairs l))"
  by (simp add: leaf_pairs_def keys_of_def list_all_iff wf_entry_def)

lemma put_leaf_ok:
  assumes "bpm_ok b" "page_table b p = Some f" "0 < pin_of b p" "g_frame g = Some f"
    and l: "leaf_ok l" "bt_page_type (lf_header l) = BTreeLeaf" "list_all int64 (keys_of (leaf_pairs l))"
  obtains b' bs l' where "put_leaf b g l = (Ok, b')" "bpm_ok b'" "bodies b' = (bodies b)(p \<mapsto> bs)" "leaf_at (Some bs) l'"
    "lf_header l' = lf_header l" "lf_prev l' = lf_prev l" "lf_next l' = lf_next l" "leaf_pairs l' = leaf_pairs l"
    "pin_of b' = pin_of b" "pool_size b' = pool_size b" "page_table b' = page_table b" "mk_guard b' f = mk_guard b f" "bpm_disk b' = bpm_disk b"
proof -
  have "bodies b p = Some (guard_body b g)" using assms(2,4) by (simp add: bodies_def bpm_content_def guard_body_def content_def)
  then have len: "length (guard_body b g) = kPageBodySize" by (rule bodies_length [OF assms(1)])
  have hd: "wf_header (lf_header l)" using l(2) by (simp add: wf_header_def wf_PageType_def PageType_of_byte_def)
  from leaf_page_roundtrip [OF l(1) hd l(3) [folded wf_entries_keys] len, of default_BTreeLeafPage]
  obtain bs l' where R: "leaf_serialize l (guard_body b g) = (Ok, bs)" "length bs = kPageBodySize"
    "leaf_deserialize default_BTreeLeafPage bs = (Ok, l')" "lf_header l' = lf_header l" "lf_prev l' = lf_prev l" "lf_next l' = lf_next l"
    "leaf_pairs l' = leaf_pairs l" "leaf_ok l'" by blast
  have "leaf_at (Some bs) l'" using R l by (simp add: leaf_at_def wf_entries_keys)
  then show ?thesis
    using that [OF _ guard_write_ok(1,2) [OF assms(1-3) R(2) assms(4)] _ R(4-7) guard_write_ok(3-5,7,8) [OF assms(1-3) R(2) assms(4)]] R(1)
    by (simp add: put_leaf_def)
qed

text \<open>A tree with the leaf in page \<open>p\<close> replaced.\<close>

fun t_upd :: "PageId \<Rightarrow> BTreeLeafPage \<Rightarrow> btree \<Rightarrow> btree" where
  "t_upd p l' (TLeaf q l) = TLeaf q (if q = p then l' else l)"
| "t_upd p l' (TNode q n cs) = TNode q n (map (t_upd p l') cs)"

lemma t_upd_ids [simp]: "t_id (t_upd p l' t) = t_id t" "t_ids (t_upd p l' t) = t_ids t"
proof -
  show "t_id (t_upd p l' t) = t_id t" for t by (cases t) auto
  show "t_ids (t_upd p l' t) = t_ids t"
    by (induction t) (auto simp: comp_def intro!: arg_cong [where f = concat])
qed

lemma reaches_upd: "reaches pick t q l \<Longrightarrow> reaches pick (t_upd p l' t) q (if q = p then l' else l)"
proof (induction rule: reaches.induct)
  case (reaches_node c cs n p l q)
  then show ?case by (auto intro!: reaches.reaches_node [of "t_upd _ l' c"])
qed (auto intro: reaches_leaf)

lemma upd_not_in: "p \<notin> set (t_ids t) \<Longrightarrow> t_upd p l' t = t"
  by (induction t) (auto intro: map_idI)

lemma stored_other: "stored S t \<Longrightarrow> \<forall>q \<in> set (t_ids t). S' q = S q \<Longrightarrow> stored S' t"
  by (induction t) (auto simp: list_all_iff)

lemma reaches_in_ids: "reaches pick t p l \<Longrightarrow> p \<in> set (t_ids t)"
  by (induction rule: reaches.induct) auto

lemma stored_upd:
  assumes "reaches (\<lambda>n. internal_lookup n key) t p l" "stored S t" "distinct (t_ids t)"
    and "leaf_at (S' p) l'" "\<forall>q. q \<noteq> p \<longrightarrow> S' q = S q" "fst ` set (leaf_pairs l') \<subseteq> insert key (fst ` set (leaf_pairs l))"
  shows "stored S' (t_upd p l' t) \<and> fst ` set (t_pairs (t_upd p l' t)) \<subseteq> insert key (fst ` set (t_pairs t))"
  using assms
proof (induction rule: reaches.induct)
  case (reaches_node c cs n p l q)
  have c: "stored S c" "distinct (t_ids c)" using reaches_node.hyps(1) reaches_node.prems by (auto simp: list_all_iff distinct_concat_iff)
  note IH = reaches_node.IH [OF c reaches_node.prems(3-5)]
  have pin: "p \<in> set (t_ids c)" by (rule reaches_in_ids [OF reaches_node.hyps(3)])
  have notq: "q \<noteq> p" using pin reaches_node.hyps(1) reaches_node.prems(2) by auto
  have other: "p \<notin> set (t_ids d)" if "d \<in> set cs" "d \<noteq> c" for d
    using child_unique [OF reaches_node.prems(2) reaches_node.hyps(1) that(1) pin] that(2) by blast
  have each: "stored S' (t_upd p l' d) \<and> fst ` set (t_pairs (t_upd p l' d)) \<subseteq> (if d = c then insert key else id) (fst ` set (t_pairs d))"
    if "d \<in> set cs" for d
  proof (cases "d = c")
    case False
    then have np: "p \<notin> set (t_ids d)" using other that by blast
    moreover have "stored S d" using that reaches_node.prems(1) by (simp add: list_all_iff)
    moreover have "\<forall>q \<in> set (t_ids d). S' q = S q" using np reaches_node.prems(4) by metis
    ultimately show ?thesis using False upd_not_in [OF np, of l'] stored_other [of S d S'] by simp
  qed (use IH in simp)
  have n: "internal_ok n" "internal_size n \<noteq> 0" "map snd (in_pairs n) = map t_id cs" "routed n cs"
    using reaches_node.prems(1) by (auto simp: internal_at_def)
  have n': "map snd (in_pairs n) = map t_id (map (t_upd p l') cs)" "distinct (map t_id (map (t_upd p l') cs))"
    using n(3) distinct_children [OF reaches_node.prems(2)] by (simp_all add: comp_def)
  have "routed n (map (t_upd p l') cs)"
  proof (rule routed_lookup(2) [OF n(1,2) n'], intro ballI)
    fix e k assume "e \<in> set (map (t_upd p l') cs)" and k: "k \<in> fst ` set (t_pairs e)"
    then obtain d where d: "d \<in> set cs" "e = t_upd p l' d" by auto
    have old: "\<forall>k \<in> fst ` set (t_pairs d). internal_lookup n k = t_id d"
      using routed_lookup(1) [OF n d(1)] by blast
    have "k \<in> fst ` set (t_pairs d) \<or> d = c \<and> k = key" using each [OF d(1)] k d(2) by (auto split: if_splits)
    then show "internal_lookup n k = t_id e" using old reaches_node.hyps(2) d(2) by auto
  qed
  moreover have "map snd (in_pairs n) = map t_id (map (t_upd p l') cs)" using reaches_node.prems(1) by (simp add: comp_def)
  moreover have "fst ` set (t_pairs (t_upd p l' (TNode q n cs))) \<subseteq> insert key (fst ` set (t_pairs (TNode q n cs)))"
    using each by (force split: if_splits)
  ultimately show ?case using reaches_node.prems(1,4) each notq by (simp add: list_all_iff)
qed auto

text \<open>Replacing a leaf by one that differs from it only at the key changes the map only there.\<close>

lemma tree_upd:
  assumes "reaches (\<lambda>n. internal_lookup n key) t p l" "tree_ok S t"
    and "leaf_at (S' p) l'" "\<forall>q. q \<noteq> p \<longrightarrow> S' q = S q"
    and "map_of (leaf_pairs l') = (map_of (leaf_pairs l))(key := v)"
  shows "tree_ok S' (t_upd p l' t)" "map_of (t_pairs (t_upd p l' t)) = (map_of (t_pairs t))(key := v)"
proof -
  have t: "stored S t" "distinct (t_ids t)" using assms(2) by (simp_all add: tree_ok_def)
  have "dom (map_of (leaf_pairs l')) \<subseteq> insert key (dom (map_of (leaf_pairs l)))" using assms(5) by auto
  then have "fst ` set (leaf_pairs l') \<subseteq> insert key (fst ` set (leaf_pairs l))" by (simp add: dom_map_of_conv_image_fst)
  then have st: "stored S' (t_upd p l' t)" using stored_upd [OF assms(1) t assms(3,4)] by blast
  then show "tree_ok S' (t_upd p l' t)" using t(2) by (simp add: tree_ok_def)
  have dst: "distinct (t_ids (t_upd p l' t))" using t(2) by simp
  show "map_of (t_pairs (t_upd p l' t)) = (map_of (t_pairs t))(key := v)"
  proof
    fix k
    obtain q m where q: "reaches (\<lambda>n. internal_lookup n k) t q m" "map_of (t_pairs t) k = map_of (leaf_pairs m) k"
      using reaches_lookup [OF t] by blast
    obtain q' m' where q': "reaches (\<lambda>n. internal_lookup n k) (t_upd p l' t) q' m'" "map_of (t_pairs (t_upd p l' t)) k = map_of (leaf_pairs m') k"
      using reaches_lookup [OF st dst] by blast
    have m': "m' = (if q = p then l' else m)" using reaches_unique [OF q'(1) reaches_upd [OF q(1)] dst] by auto
    have at: "leaf_at (S p) l" "leaf_at (S q) m" using reaches_stored(2) [OF assms(1) t(1)] reaches_stored(2) [OF q(1) t(1)] .
    show "map_of (t_pairs (t_upd p l' t)) k = ((map_of (t_pairs t))(key := v)) k"
    proof (cases "k = key")
      case True
      then have "q = p" using reaches_unique [OF assms(1) _ t(2)] q(1) by blast
      then show ?thesis using True q'(2) m' assms(5) by simp
    next
      case False
      then have "map_of (leaf_pairs m') k = map_of (leaf_pairs m) k"
        using m' assms(5) leaf_at_unique [OF at(1)] at(2) by (cases "q = p") auto
      then show ?thesis using False q q' by simp
    qed
  qed
qed

subsection \<open>Insertion and removal in a leaf\<close>

lemma find_leaf_ok:
  assumes "reaches (\<lambda>n. internal_lookup n key) T p l" "bpm_ok b" "stored (bodies b) T" "room (Suc m) b"
  shows "\<exists>b'. find_leaf b key (t_id T) = Some (Inr p, b') \<and> bpm_ok b' \<and> bpm_content b' = bpm_content b
    \<and> pin_of b' = pin_of b \<and> pool_size b' = pool_size b"
  unfolding find_leaf_def
  by (rule descend_ok [OF assms]) (simp_all add: find_leaf_step_def header_of_leaf header_of_internal leaf_at_def internal_at_def)

lemma fetch_leaf:
  assumes "bpm_ok b" "leaf_at (bodies b p) l" "p \<noteq> kInvalidPageId" "room (Suc m) b"
  obtains f b1 where "fetchPageGuard b p empty_guard = Some (Ok, mk_guard b1 f, b1)" "bpm_ok b1" "bpm_content b1 = bpm_content b"
    "pool_size b1 = pool_size b" "page_table b1 p = Some f" "pin_of b1 = (pin_of b)(p := pin_of b p + 1)" "clean_ok b1 p f"
    "leaf_deserialize default_BTreeLeafPage (guard_body b1 (mk_guard b1 f)) = (Ok, l)" "0 < pin_of b1 p"
proof -
  obtain bd where bd: "bodies b p = Some bd" "leaf_deserialize default_BTreeLeafPage bd = (Ok, l)"
    using assms(2) by (auto simp: leaf_at_def split: option.splits)
  from fetch_guard [OF assms(1) bd(1) assms(4,3)] obtain f b1 where F: "fetchPageGuard b p empty_guard = Some (Ok, mk_guard b1 f, b1)"
    "bpm_ok b1" "bpm_content b1 = bpm_content b" "pool_size b1 = pool_size b" "page_table b1 p = Some f"
    "pin_of b1 = (pin_of b)(p := pin_of b p + 1)" "clean_ok b1 p f" "guard_body b1 (mk_guard b1 f) = bd" "0 \<le> pin_of b p" .
  then show ?thesis using that [OF F(1-7)] bd(2) by simp
qed

lemma drop_clean:
  assumes "bpm_ok b1" "page_table b1 p = Some f" "0 < pin_of b1 p" "p \<noteq> kInvalidPageId" "clean_ok b1 p f"
  obtains b2 where "guard_drop b1 (mk_guard b1 f) = Some (empty_guard, b2)" "bpm_ok b2" "bpm_content b2 = bpm_content b1"
    "pool_size b2 = pool_size b1" "pin_of b2 = (pin_of b1)(p := pin_of b1 p - 1)"
  using drop_guard [OF assms(1-4) disjI2 [OF assms(5)], of "mk_guard b1 f"] by (simp add: mk_guard_def) blast

lemma store_leaf:
  assumes "bpm_ok b" "page_table b p = Some f" "0 < pin_of b p" "p \<noteq> kInvalidPageId"
    and l: "leaf_ok l" "bt_page_type (lf_header l) = BTreeLeaf" "list_all int64 (keys_of (leaf_pairs l))"
  obtains b1 b2 l' where "put_leaf b (mk_guard b f) l = (Ok, b1)" "guard_drop b1 (guard_markDirty (mk_guard b f)) = Some (empty_guard, b2)"
    "bpm_ok b2" "leaf_at (bodies b2 p) l'" "\<forall>q. q \<noteq> p \<longrightarrow> bodies b2 q = bodies b q" "leaf_pairs l' = leaf_pairs l" "lf_header l' = lf_header l"
    "pool_size b2 = pool_size b" "pin_of b2 = (pin_of b)(p := pin_of b p - 1)"
proof -
  have gf: "g_frame (mk_guard b f) = Some f" by (simp add: mk_guard_def)
  obtain b1 bs l' where P: "put_leaf b (mk_guard b f) l = (Ok, b1)" "bpm_ok b1"
      "bodies b1 = (bodies b)(p \<mapsto> bs)" "leaf_at (Some bs) l'" "lf_header l' = lf_header l" "leaf_pairs l' = leaf_pairs l"
      "pin_of b1 = pin_of b" "pool_size b1 = pool_size b" "page_table b1 = page_table b" "mk_guard b1 f = mk_guard b f"
    using put_leaf_ok [OF assms(1-3) gf l] by metis
  have pin: "page_table b1 p = Some f" "0 < pin_of b1 p" using P assms(2,3) by simp_all
  have g: "guard_markDirty (mk_guard b f) = (mk_guard b1 f)\<lparr>g_dirty := True\<rparr>" using P(10) by (simp add: guard_markDirty_def)
  obtain b2 where b2: "guard_drop b1 (guard_markDirty (mk_guard b f)) = Some (empty_guard, b2)" "bpm_ok b2" "bpm_content b2 = bpm_content b1"
      "pool_size b2 = pool_size b1" "pin_of b2 = (pin_of b1)(p := pin_of b1 p - 1)"
    by (rule drop_guard [OF P(2) pin assms(4) disjI1 g]) auto
  have "bodies b2 = (bodies b)(p \<mapsto> bs)" using b2(3) P(3) by (simp add: bodies_def [abs_def])
  then show ?thesis using that [OF P(1) b2(1,2)] P b2 by simp
qed

text \<open>
  C19. Inserting a key into a well-formed tree: a key that is present is refused with
  \<open>AlreadyExists\<close> and nothing changes; a new key that belongs to a leaf with room is added to
  the tree's map, and the tree stays well formed under the same root.  All pins are released.
\<close>

theorem bt_insert_leaf:
  assumes "bpm_ok b" "tree_ok (bodies b) T" "t_id T = root_page_id t" "room 1 b" "int64 key"
    and "belongs key T p l" "key \<in> dom (map_of (t_pairs T)) \<or> \<not> bt_isFull (lf_header l)"
  shows "\<exists>b' T'. bt_insert t b key rid = Some (if key \<in> dom (map_of (t_pairs T)) then AlreadyExists else Ok, t, b') \<and> bpm_ok b'
    \<and> tree_ok (bodies b') T' \<and> t_id T' = root_page_id t \<and> pin_of b' = pin_of b
    \<and> map_of (t_pairs T') = (if key \<in> dom (map_of (t_pairs T)) then map_of (t_pairs T) else (map_of (t_pairs T))(key \<mapsto> rid))"
proof -
  have S: "stored (bodies b) T" "distinct (t_ids T)" using assms(2) by (simp_all add: tree_ok_def)
  note path = belongs_reaches [OF assms(6) S(1)]
  obtain b1 where b1: "find_leaf b key (t_id T) = Some (Inr p, b1)" "bpm_ok b1" "bpm_content b1 = bpm_content b" "pin_of b1 = pin_of b"
      "pool_size b1 = pool_size b" using find_leaf_ok [OF path assms(1) S(1), of 0] assms(4) by auto
  note at = reaches_stored [OF path S(1)]
  have bod: "bodies b1 = bodies b" "room (Suc 0) b1" using b1(3-5) assms(4) by (simp_all add: bodies_def [abs_def] room_def)
  have at1: "leaf_at (bodies b1 p) l" using at(2) bod(1) by simp
  have ne: "\<not> bt_isEmpty t" using stored_id [OF S(1)] assms(3) by (simp add: bt_isEmpty_def)
  have run: "bt_insert t b key rid = insert_leaf t b1 p key rid"
    using ne b1(1) assms(3) at(1) by (simp add: bt_insert_def)
  have lok: "leaf_ok l" "bt_page_type (lf_header l) = BTreeLeaf" "list_all int64 (keys_of (leaf_pairs l))"
    using at(2) by (simp_all add: leaf_at_def wf_entries_keys)
  obtain q m where q: "reaches (\<lambda>n. internal_lookup n key) T q m" "map_of (t_pairs T) key = map_of (leaf_pairs m) key"
    using reaches_lookup [OF S] by blast
  then have mp: "map_of (t_pairs T) key = map_of (leaf_pairs l) key" using reaches_unique [OF path q(1) S(2)] by simp
  from fetch_leaf [OF b1(2) at1 at(1) bod(2)] obtain f b2 where F: "fetchPageGuard b1 p empty_guard = Some (Ok, mk_guard b2 f, b2)" "bpm_ok b2"
    "bpm_content b2 = bpm_content b1" "page_table b2 p = Some f" "pin_of b2 = (pin_of b1)(p := pin_of b1 p + 1)" "clean_ok b2 p f"
    "leaf_deserialize default_BTreeLeafPage (guard_body b2 (mk_guard b2 f)) = (Ok, l)" "0 < pin_of b2 p" by metis
  show ?thesis
  proof (cases "key \<in> dom (map_of (t_pairs T))")
    case True
    then have look: "leaf_lookup l key \<noteq> None" using mp by (simp add: leaf_lookup_map [OF lok(1)] domIff)
    obtain b3 where b3: "guard_drop b2 (mk_guard b2 f) = Some (empty_guard, b3)" "bpm_ok b3" "bpm_content b3 = bpm_content b2"
      "pin_of b3 = (pin_of b2)(p := pin_of b2 p - 1)" using drop_clean [OF F(2,4,8) at(1) F(6)] by metis
    have "bt_insert t b key rid = Some (AlreadyExists, t, b3)" using run F b3(1) look by (simp add: insert_leaf_def)
    moreover have "bodies b3 = bodies b" "pin_of b3 = pin_of b" using b3(3,4) F(3,5) b1(3,4) by (simp_all add: bodies_def [abs_def])
    ultimately show ?thesis using True b3(2) assms(2,3) by auto
  next
    case False
    then have look: "leaf_lookup l key = None" "key \<notin> dom (map_of (leaf_pairs l))" using mp by (auto simp: leaf_lookup_map [OF lok(1)])
    have full: "\<not> bt_isFull (lf_header l)" using False assms(7) by blast
    then obtain l1 where l1: "leaf_insert l key rid = (Ok, l1)"
      using leaf_insert_result [OF lok(1), of key rid] look(2) by (metis)
    note ins = leaf_insert_pairs [OF lok(1) l1]
    have srt: "sorted_wrt (<) (keys_of (leaf_pairs l))" by (rule leaf_okD(4) [OF lok(1)])
    have new: "key \<notin> fst ` set (leaf_pairs l)" using look(2) by (simp add: dom_map_of_conv_image_fst)
    have l1k: "list_all int64 (keys_of (leaf_pairs l1))"
      using lok(3) assms(5) unfolding ins(1) by (auto simp: ins_at_def keys_of_def list_all_iff dest: in_set_takeD in_set_dropD)
    have l1t: "bt_page_type (lf_header l1) = BTreeLeaf"
      using l1 lok(2) by (auto simp: leaf_insert_def Let_def split: if_splits)
    obtain b3 b4 l' where W: "put_leaf b2 (mk_guard b2 f) l1 = (Ok, b3)" "guard_drop b3 (guard_markDirty (mk_guard b2 f)) = Some (empty_guard, b4)"
      "bpm_ok b4" "leaf_at (bodies b4 p) l'" "\<forall>q. q \<noteq> p \<longrightarrow> bodies b4 q = bodies b2 q" "leaf_pairs l' = leaf_pairs l1"
      "pin_of b4 = (pin_of b2)(p := pin_of b2 p - 1)"
      using store_leaf [OF F(2,4,8) at(1) ins(2) l1t l1k] by metis
    have "bt_insert t b key rid = Some (Ok, t, b4)"
      using run F W(1,2) look(1) full l1 by (simp add: insert_leaf_def)
    moreover have bb: "\<forall>q. q \<noteq> p \<longrightarrow> bodies b4 q = bodies b q" using W(5) F(3) b1(3) by (simp add: bodies_def)
    have mpl: "map_of (leaf_pairs l') = (map_of (leaf_pairs l))(key := Some rid)"
      using ins_at_sorted(2) [OF srt new] W(6) ins(1) by simp
    note tu = tree_upd [OF path assms(2) W(4) bb mpl]
    moreover have "pin_of b4 = pin_of b" using W(7) F(5) b1(4) by simp
    ultimately show ?thesis using False W(3) assms(3) by (intro exI [of _ b4] exI [of _ "t_upd p l' T"]) simp
  qed
qed

text \<open>The map a tree holds.\<close>

definition holds :: "BufferPoolManager \<Rightarrow> BPlusTree \<Rightarrow> (int \<rightharpoonup> RID) \<Rightarrow> bool" where
  "holds b t m = (if bt_isEmpty t then m = Map.empty
     else \<exists>T. tree_ok (bodies b) T \<and> t_id T = root_page_id t \<and> m = map_of (t_pairs T))"

lemma holds_kept: "holds b t m \<Longrightarrow> bodies b' = bodies b \<Longrightarrow> holds b' t m"
  by (simp add: holds_def)

lemma newPageGuard_eq:
  "newPage b = Some (Ok, p, Some f, b1) \<Longrightarrow> newPageGuard b q empty_guard = Some (Ok, p, mk_guard b1 f, b1)"
  by (simp add: newPageGuard_def guard_drop_invalid guard_assign_def)

lemma leaf_init_facts:
  assumes "l = leaf_init default_BTreeLeafPage pid parent"
  shows "leaf_ok l" "leaf_pairs l = []" "\<not> bt_isFull (lf_header l)" "bt_page_type (lf_header l) = BTreeLeaf" "leaf_size l = 0"
    "max_size (lf_header l) = 289"
  using leaf_init_ok [of default_BTreeLeafPage pid parent]
  by (simp_all add: assms default_BTreeLeafPage_def leaf_init_def mk_BTreePage_def bt_isFull_def leaf_size_def kLeafMaxEntries_eq)

lemma insert_first_ok:
  assumes "bpm_ok b" "dm_room (bpm_disk b)" "room 1 b" "bt_isEmpty t" "int64 key"
  obtains b' p l where "bt_insert t b key rid = Some (Ok, t\<lparr>root_page_id := p\<rparr>, b')" "bpm_ok b'" "p \<noteq> kInvalidPageId"
    "tree_ok (bodies b') (TLeaf p l)" "leaf_pairs l = [(key, rid)]" "pin_of b' = pin_of b" "pool_size b' = pool_size b"
    "\<not> bt_isFull (lf_header l)" "\<forall>q. q \<noteq> p \<longrightarrow> bodies b' q = bodies b q"
proof -
  obtain p f b1 where N: "newPage b = Some (Ok, p, Some f, b1)" "bpm_ok b1" "bpm_content b p = None" "p \<noteq> kInvalidPageId"
      "bpm_content b1 = (bpm_content b)(p \<mapsto> content (fr_page (frames b1 ! f)))" "pool_size b1 = pool_size b"
      "page_table b1 p = Some f" "pin_of b1 = (pin_of b)(p := 1)"
    using newPage_spec [OF assms(1,2)] room_fetch [OF assms(1), of 0] assms(3) by auto
  have pin0: "pin_of b p = 0"
  proof (cases "page_table b p")
    case (Some g)
    then show ?thesis using N(3) by (simp add: bpm_content_def)
  qed (simp add: pin_of_def)
  let ?g = "mk_guard b1 f"
  have gf: "g_frame ?g = Some f" by (simp add: mk_guard_def)
  have pin: "0 < pin_of b1 p" using N(8) by simp
  let ?b2 = "guard_write b1 ?g (replicate kPageBodySize 0)"
  note w = guard_write_ok [OF N(2,7) pin _ gf, of "replicate kPageBodySize 0", simplified]
  let ?l0 = "leaf_init default_BTreeLeafPage p kInvalidPageId"
  note i = leaf_init_facts [OF refl, of p kInvalidPageId]
  have "leaf_insert ?l0 key rid = (Ok, snd (leaf_insert ?l0 key rid))"
    by (subst leaf_insert_result [OF i(1)]) (simp add: i(2,3))
  then obtain l1 where l1: "leaf_insert ?l0 key rid = (Ok, l1)" by blast
  note ins = leaf_insert_pairs [OF i(1) l1]
  have pr: "leaf_pairs l1 = [(key, rid)]" using ins(1) i(2) by (simp add: ins_at_def)
  have ty: "bt_page_type (lf_header l1) = BTreeLeaf" "max_size (lf_header l1) = 289"
    using l1 i(4,6) by (auto simp: leaf_insert_def Let_def split: if_splits)
  have kk: "list_all int64 (keys_of (leaf_pairs l1))" using pr assms(5) by (simp add: keys_of_def)
  have pt2: "page_table ?b2 p = Some f" "0 < pin_of ?b2 p" using w(3,5) N(7) pin by simp_all
  obtain b3 b4 l' where W: "put_leaf ?b2 (mk_guard ?b2 f) l1 = (Ok, b3)" "guard_drop b3 (guard_markDirty (mk_guard ?b2 f)) = Some (empty_guard, b4)"
      "bpm_ok b4" "leaf_at (bodies b4 p) l'" "\<forall>q. q \<noteq> p \<longrightarrow> bodies b4 q = bodies ?b2 q" "leaf_pairs l' = leaf_pairs l1" "lf_header l' = lf_header l1"
      "pool_size b4 = pool_size ?b2" "pin_of b4 = (pin_of ?b2)(p := pin_of ?b2 p - 1)"
    using store_leaf [OF w(1) pt2 N(4) ins(2) ty(1) kk] by metis
  have run: "bt_insert t b key rid = Some (Ok, t\<lparr>root_page_id := p\<rparr>, b4)"
    using assms(4) newPageGuard_eq [OF N(1), of kInvalidPageId] l1 W(1,2)
    by (simp add: bt_insert_def insert_first_def w(7))
  have "tree_ok (bodies b4) (TLeaf p l')" using W(4) N(4) by (simp add: tree_ok_def)
  moreover have "pin_of b4 = pin_of b" using W(9) w(3) N(8) pin0 by auto
  moreover have "\<not> bt_isFull (lf_header l')" using W(7) ty(2) ins(3) i(5) by (simp add: bt_isFull_def leaf_size_def word_le_nat_alt)
  moreover have "\<forall>q. q \<noteq> p \<longrightarrow> bodies b4 q = bodies b q"
  proof -
    have "bodies b1 q = bodies b q" if "q \<noteq> p" for q using that N(5) by (simp add: bodies_def)
    then show ?thesis using W(5) w(2) by simp
  qed
  ultimately show ?thesis using that [OF run W(3) N(4)] W(6,8) pr w(4) N(6) by simp
qed

lemma root_is_leaf:
  assumes "reaches pick T (t_id T) l" "distinct (t_ids T)"
  shows "T = TLeaf (t_id T) l"
proof (cases T)
  case (TLeaf p m)
  then show ?thesis using assms(1) by (auto elim: reaches_leafE)
next
  case (TNode p n cs)
  then obtain c where "c \<in> set cs" "reaches pick c p l" using assms(1) by (auto elim: reaches_nodeE)
  then show ?thesis using reaches_in_ids [of pick c p l] assms(2) TNode by auto
qed

text \<open>
  Removing a key from a well-formed tree, when its leaf does not underflow: a missing key is
  reported as \<open>NotFound\<close> and nothing changes; a key that is present is removed from the tree's
  map and nothing else is; a tree whose only leaf becomes empty becomes the empty tree.
\<close>

theorem bt_remove_leaf:
  assumes "bpm_ok b" "tree_ok (bodies b) T" "t_id T = root_page_id t" "room 1 b"
    and "belongs key T p l"
    and "p = root_page_id t \<or> bt_minSize (lf_header l) < leaf_size l"
  shows "\<exists>b' t'. bt_remove t b key = Some (if key \<in> dom (map_of (t_pairs T)) then Ok else NotFound, t', b') \<and> bpm_ok b'
    \<and> pin_of b' = pin_of b \<and> holds b' t' ((map_of (t_pairs T))(key := None))"
proof -
  have S: "stored (bodies b) T" "distinct (t_ids T)" using assms(2) by (simp_all add: tree_ok_def)
  note path = belongs_reaches [OF assms(5) S(1)]
  obtain b1 where b1: "find_leaf b key (t_id T) = Some (Inr p, b1)" "bpm_ok b1" "bpm_content b1 = bpm_content b" "pin_of b1 = pin_of b"
      "pool_size b1 = pool_size b" using find_leaf_ok [OF path assms(1) S(1), of 0] assms(4) by auto
  note at = reaches_stored [OF path S(1)]
  have bod: "bodies b1 = bodies b" "room (Suc 0) b1" using b1(3-5) assms(4) by (simp_all add: bodies_def [abs_def] room_def)
  have at1: "leaf_at (bodies b1 p) l" using at(2) bod(1) by simp
  have ne: "\<not> bt_isEmpty t" using stored_id [OF S(1)] assms(3) by (simp add: bt_isEmpty_def)
  have run: "bt_remove t b key = remove_leaf t b1 p key" using ne b1(1) assms(3) at(1) by (simp add: bt_remove_def)
  have lok: "leaf_ok l" "bt_page_type (lf_header l) = BTreeLeaf" "list_all int64 (keys_of (leaf_pairs l))"
    using at(2) by (simp_all add: leaf_at_def wf_entries_keys)
  obtain q m where q: "reaches (\<lambda>n. internal_lookup n key) T q m" "map_of (t_pairs T) key = map_of (leaf_pairs m) key"
    using reaches_lookup [OF S] by blast
  then have mp: "map_of (t_pairs T) key = map_of (leaf_pairs l) key" using reaches_unique [OF path q(1) S(2)] by simp
  from fetch_leaf [OF b1(2) at1 at(1) bod(2)] obtain f b2 where F: "fetchPageGuard b1 p empty_guard = Some (Ok, mk_guard b2 f, b2)" "bpm_ok b2"
    "bpm_content b2 = bpm_content b1" "page_table b2 p = Some f" "pin_of b2 = (pin_of b1)(p := pin_of b1 p + 1)" "clean_ok b2 p f"
    "leaf_deserialize default_BTreeLeafPage (guard_body b2 (mk_guard b2 f)) = (Ok, l)" "0 < pin_of b2 p" by metis
  show ?thesis
  proof (cases "key \<in> dom (map_of (t_pairs T))")
    case False
    then have rm: "leaf_remove l key = (NotFound, l)" using leaf_remove_result [OF lok(1), of key] mp by (simp add: domIff)
    obtain b3 where b3: "guard_drop b2 (mk_guard b2 f) = Some (empty_guard, b3)" "bpm_ok b3" "bpm_content b3 = bpm_content b2"
      "pin_of b3 = (pin_of b2)(p := pin_of b2 p - 1)" using drop_clean [OF F(2,4,8) at(1) F(6)] by metis
    have "bt_remove t b key = Some (NotFound, t, b3)" using run F b3(1) rm by (simp add: remove_leaf_def)
    moreover have "bodies b3 = bodies b" "pin_of b3 = pin_of b" using b3(3,4) F(3,5) b1(3,4) by (simp_all add: bodies_def [abs_def])
    moreover have "(map_of (t_pairs T))(key := None) = map_of (t_pairs T)" using False by (intro fun_upd_idem) (simp add: domIff)
    ultimately show ?thesis using False b3(2) assms(2,3) ne by (auto simp: holds_def)
  next
    case True
    then have kin: "key \<in> dom (map_of (leaf_pairs l))" using mp by (simp add: domIff)
    then obtain l1 where l1: "leaf_remove l key = (Ok, l1)" using leaf_remove_result [OF lok(1), of key] by metis
    note rm = leaf_remove_pairs [OF lok(1) l1]
    have srt: "sorted_wrt (<) (keys_of (leaf_pairs l))" by (rule leaf_okD(4) [OF lok(1)])
    have kset: "key \<in> fst ` set (leaf_pairs l)" using kin by (simp add: dom_map_of_conv_image_fst)
    have l1k: "list_all int64 (keys_of (leaf_pairs l1))"
      using lok(3) unfolding rm(1) by (auto simp: del_at_def keys_of_def list_all_iff dest: in_set_takeD in_set_dropD)
    have l1t: "bt_page_type (lf_header l1) = BTreeLeaf" "bt_minSize (lf_header l1) = bt_minSize (lf_header l)"
      using l1 lok(2) by (auto simp: leaf_remove_def Let_def bt_minSize_def split: if_splits)
    obtain b3 b4 l' where W: "put_leaf b2 (mk_guard b2 f) l1 = (Ok, b3)" "guard_drop b3 (guard_markDirty (mk_guard b2 f)) = Some (empty_guard, b4)"
      "bpm_ok b4" "leaf_at (bodies b4 p) l'" "\<forall>q. q \<noteq> p \<longrightarrow> bodies b4 q = bodies b2 q" "leaf_pairs l' = leaf_pairs l1"
      "pin_of b4 = (pin_of b2)(p := pin_of b2 p - 1)"
      using store_leaf [OF F(2,4,8) at(1) rm(2) l1t(1) l1k] by metis
    have noflow: "\<not> (leaf_size l1 < bt_minSize (lf_header l1) \<and> p \<noteq> root_page_id t)"
    proof
      assume a: "leaf_size l1 < bt_minSize (lf_header l1) \<and> p \<noteq> root_page_id t"
      then have lt: "bt_minSize (lf_header l) < leaf_size l" using assms(6) by blast
      then have "leaf_size l \<noteq> 0" by auto
      then show False using a lt rm(3) l1t(2) unat_minus_one [of "leaf_size l"] by (auto simp: word_less_nat_alt)
    qed
    let ?t = "if p = root_page_id t \<and> leaf_size l1 = 0 then t\<lparr>root_page_id := kInvalidPageId\<rparr> else t"
    have go: "bt_remove t b key = Some (Ok, ?t, b4)" using run F W(1,2) l1 noflow by (auto simp: remove_leaf_def)
    have bb: "\<forall>q. q \<noteq> p \<longrightarrow> bodies b4 q = bodies b q" using W(5) F(3) b1(3) by (simp add: bodies_def)
    have mpl: "map_of (leaf_pairs l') = (map_of (leaf_pairs l))(key := None)"
      using del_at_sorted(2) [OF srt kset] W(6) rm(1) by simp
    note tu = tree_upd [OF path assms(2) W(4) bb mpl]
    have "holds b4 ?t ((map_of (t_pairs T))(key := None))"
    proof (cases "p = root_page_id t \<and> leaf_size l1 = 0")
      case True
      then have "T = TLeaf p l" using root_is_leaf [of "\<lambda>n. internal_lookup n key" T l] assms(3) path S(2) by metis
      moreover have "leaf_pairs l1 = []" using True leaf_okD(3) [OF rm(2)] by simp
      ultimately show ?thesis using True mpl W(6) by (simp add: holds_def bt_isEmpty_def)
    next
      case False
      then show ?thesis using tu ne assms(3) by (auto simp: holds_def intro!: exI [of _ "t_upd p l' T"])
    qed
    moreover have "pin_of b4 = pin_of b" using W(7) F(5) b1(4) by simp
    ultimately show ?thesis using True go W(3) by (intro exI [of _ b4] exI [of _ ?t]) simp
  qed
qed

lemma room_sample: "room 1 sample_pool"
  using sample_pool_ok(4,5) by (auto simp: room_def intro!: exI [of _ "{}"])

text \<open>A tree with one record, in a pool of one frame.\<close>

lemma one_record_tree:
  obtains b p l where "bt_insert mk_BPlusTree sample_pool 5 (mk_RID 1 0) = Some (Ok, \<lparr>root_page_id = p\<rparr>, b)" "bpm_ok b" "room 1 b"
    "tree_ok (bodies b) (TLeaf p l)" "leaf_pairs l = [(5, mk_RID 1 0)]" "\<not> bt_isFull (lf_header l)"
proof -
  have "bt_isEmpty mk_BPlusTree" "int64 5" by (simp_all add: bt_isEmpty_def mk_BPlusTree_def int64_def)
  from insert_first_ok [OF sample_pool_ok(1,3) room_sample this, of "mk_RID 1 0"] obtain b p l where
    I: "bt_insert mk_BPlusTree sample_pool 5 (mk_RID 1 0) = Some (Ok, mk_BPlusTree\<lparr>root_page_id := p\<rparr>, b)" "bpm_ok b"
    "tree_ok (bodies b) (TLeaf p l)" "leaf_pairs l = [(5, mk_RID 1 0)]" "pin_of b = pin_of sample_pool" "pool_size b = pool_size sample_pool"
    "\<not> bt_isFull (lf_header l)" by metis
  have "room 1 b" using room_sample I(5,6) by (simp add: room_def)
  then show ?thesis using that [OF _ I(2) _ I(3,4,7)] I(1) by (simp add: mk_BPlusTree_def)
qed

text \<open>A tree of two levels: a root in page 3 with the leaves in pages 1 and 2, in a pool of one frame.\<close>

lemma put_body:
  assumes "dm_ok d" "data_page d i" "length bs = kPageBodySize"
  obtains d' where "dm_ok d'" "dm_page_count d' = dm_page_count d" "dm_pages d' = (dm_pages d)(i \<mapsto> flushed (set_body default_Page bs))"
proof -
  have pg: "wf_Page (set_body default_Page bs)" "wf_PageType (page_type (pg_header (set_body default_Page bs)))"
    using storable_default assms(3) by (simp_all add: storable_def)
  obtain d' where d': "dm_ok d'" "dm_page_count d' = dm_page_count d" "disk_page d' i = flushed (set_body default_Page bs)"
      "\<forall>j. j \<noteq> i \<longrightarrow> unat j < dm_page_count d \<longrightarrow> disk_page d' j = disk_page d j"
    using writePage_ok [OF assms(1,2) pg] by blast
  then have "dm_pages d' = (dm_pages d)(i \<mapsto> flushed (set_body default_Page bs))"
    using assms(2) by (auto simp: dm_pages_def data_page_def)
  then show ?thesis using that d'(1,2) by blast
qed

lemma leaf_bytes_at:
  assumes "a < b" "int64 a" "int64 b"
  obtains bs l where "length bs = kPageBodySize" "leaf_at (Some bs) l" "leaf_pairs l = [(a, mk_RID 1 0), (b, mk_RID 1 1)]"
proof -
  have h: "wf_header (lf_header (two_leaf a b))" "bt_page_type (lf_header (two_leaf a b)) = BTreeLeaf"
    by (simp_all add: two_leaf_def wf_header_def example_leaf_def leaf_init_def mk_BTreePage_def wf_PageType_def PageType_of_byte_def)
  have w: "list_all wf_entry (take (unat (leaf_size (two_leaf a b))) (lf_entries (two_leaf a b)))"
    unfolding wf_entries_keys using assms by (simp add: two_leaf keys_of_def)
  obtain bs l where R: "length bs = kPageBodySize" "leaf_deserialize default_BTreeLeafPage bs = (Ok, l)" "lf_header l = lf_header (two_leaf a b)"
    "leaf_pairs l = leaf_pairs (two_leaf a b)" "leaf_ok l"
    using leaf_page_roundtrip [OF two_leaf(4) [OF assms(1)] h(1) w, of "replicate kPageBodySize 0" default_BTreeLeafPage] by auto
  then have "leaf_at (Some bs) l" using h(2) assms by (simp add: leaf_at_def wf_entries_keys two_leaf keys_of_def)
  then show ?thesis using that R by (simp add: two_leaf)
qed

lemma internal_bytes_at:
  assumes "int64 k"
  obtains bs n where "length bs = kPageBodySize" "internal_at (Some bs) n" "in_pairs n = [(0, p), (k, q)]"
proof -
  let ?n = "two_internal p k q"
  have h: "wf_header (in_header ?n)" by (simp add: wf_header_def two_internal wf_PageType_def PageType_of_byte_def)
  have "list_all int64 (map fst (in_pairs ?n))" using assms by (simp add: two_internal int64_def)
  then have w: "list_all wf_in_entry (take (unat (internal_size ?n)) (in_entries ?n))"
    by (simp add: in_pairs_def list_all_iff wf_in_entry_def)
  obtain bs n where R: "length bs = kPageBodySize" "internal_deserialize default_BTreeInternalPage bs = (Ok, n)" "in_header n = in_header ?n"
      "in_pairs n = in_pairs ?n" "internal_ok n"
    using internal_page_roundtrip [OF two_internal(6) h w, of "replicate kPageBodySize 0" default_BTreeInternalPage]
    by (auto simp: default_BTreeInternalPage_def)
  moreover have "internal_size n = 2" using R(3) two_internal(4) [of p k q] by (simp add: internal_size_def)
  ultimately have "internal_at (Some bs) n" by (simp add: internal_at_def two_internal)
  then show ?thesis using that R by (simp add: two_internal)
qed

lemma two_level_tree:
  obtains b l1 l2 n where "bpm_ok b" "room 1 b" "tree_ok (bodies b) (TNode 3 n [TLeaf 1 l1, TLeaf 2 l2])"
    "leaf_pairs l1 = [(3, mk_RID 1 0), (7, mk_RID 1 1)]" "leaf_pairs l2 = [(10, mk_RID 1 0), (15, mk_RID 1 1)]"
proof -
  obtain d1 where d1: "dm_ok d1" "dm_page_count d1 = 3" using allocatePage_ok [OF one_page_db_ok(1), of 0] one_page_db_ok(2) by auto
  obtain d2 where d2: "dm_ok d2" "dm_page_count d2 = 4" using allocatePage_ok [OF d1(1), of 0] d1(2) by auto
  obtain b1 l1 where l1: "length b1 = kPageBodySize" "leaf_at (Some b1) l1" "leaf_pairs l1 = [(3, mk_RID 1 0), (7, mk_RID 1 1)]"
    using leaf_bytes_at [of 3 7] by (auto simp: int64_def)
  obtain b2 l2 where l2: "length b2 = kPageBodySize" "leaf_at (Some b2) l2" "leaf_pairs l2 = [(10, mk_RID 1 0), (15, mk_RID 1 1)]"
    using leaf_bytes_at [of 10 15] by (auto simp: int64_def)
  obtain b3 n where n: "length b3 = kPageBodySize" "internal_at (Some b3) n" "in_pairs n = [(0, 1), (10, 2)]"
    using internal_bytes_at [of 10 1 2] by (auto simp: int64_def)
  have dp: "data_page e 1" "data_page e 2" "data_page e 3" if "dm_page_count e = 4" for e using that by (simp_all add: data_page_def)
  obtain e1 where e1: "dm_ok e1" "dm_page_count e1 = 4" "dm_pages e1 = (dm_pages d2)(1 \<mapsto> flushed (set_body default_Page b1))"
    using put_body [OF d2(1) dp(1) [OF d2(2)] l1(1)] d2(2) by metis
  obtain e2 where e2: "dm_ok e2" "dm_page_count e2 = 4" "dm_pages e2 = (dm_pages e1)(2 \<mapsto> flushed (set_body default_Page b2))"
    using put_body [OF e1(1) dp(2) [OF e1(2)] l2(1)] e1(2) by metis
  obtain e3 where e3: "dm_ok e3" "dm_page_count e3 = 4" "dm_pages e3 = (dm_pages e2)(3 \<mapsto> flushed (set_body default_Page b3))"
    using put_body [OF e2(1) dp(3) [OF e2(2)] n(1)] e2(2) by metis
  let ?b = "mk_BufferPoolManager 1 e3"
  have one: "(1 :: nat) < 2 ^ 64" by simp
  note ok = mk_bpm_ok [OF e3(1) one]
  have wf: "wf_Page default_Page" using storable_default by (simp add: storable_def)
  have "content (flushed (set_body default_Page bs)) = (pg_header default_Page, bs)" if "length bs = kPageBodySize" for bs
    using that wf by (simp add: content_def)
  then have bd: "bodies ?b 1 = Some b1" "bodies ?b 2 = Some b2" "bodies ?b 3 = Some b3"
    using ok(2) e1(3) e2(3) e3(3) l1(1) l2(1) n(1) by (simp_all add: bodies_def)
  have "in_seps n = [(10, 2)]" using n(3) by (simp add: in_seps_def)
  then have "routed n [TLeaf 1 l1, TLeaf 2 l2]"
    using l1(3) l2(3) by (auto simp: routed_def in_range_def keys_of_def less_Suc_eq)
  then have "tree_ok (bodies ?b) (TNode 3 n [TLeaf 1 l1, TLeaf 2 l2])"
    using bd l1 l2 n by (simp add: tree_ok_def kInvalidPageId_def)
  moreover have "room 1 ?b" using ok(3) by (auto simp: room_def mk_BufferPoolManager_def intro!: exI [of _ "{}"])
  ultimately show ?thesis using that ok(1) l1(3) l2(3) by blast
qed

theorem getValue_correct_witness:
  "\<exists>b b1 b2 n l1 l2. tree_ok (bodies b) (TNode 3 n [TLeaf 1 l1, TLeaf 2 l2])
    \<and> getValue \<lparr>root_page_id = 3\<rparr> b 15 = Some (Some (mk_RID 1 1), b1) \<and> getValue \<lparr>root_page_id = 3\<rparr> b 5 = Some (None, b2)"
proof -
  obtain b l1 l2 n where T: "bpm_ok b" "room 1 b" "tree_ok (bodies b) (TNode 3 n [TLeaf 1 l1, TLeaf 2 l2])"
    "leaf_pairs l1 = [(3, mk_RID 1 0), (7, mk_RID 1 1)]" "leaf_pairs l2 = [(10, mk_RID 1 0), (15, mk_RID 1 1)]" using two_level_tree .
  have m: "map_of (t_pairs (TNode 3 n [TLeaf 1 l1, TLeaf 2 l2])) 15 = Some (mk_RID 1 1)"
    "map_of (t_pairs (TNode 3 n [TLeaf 1 l1, TLeaf 2 l2])) 5 = None" using T(4,5) by simp_all
  have g: "\<exists>b'. getValue \<lparr>root_page_id = 3\<rparr> b key = Some (map_of (t_pairs (TNode 3 n [TLeaf 1 l1, TLeaf 2 l2])) key, b')" for key
    using getValue_correct [OF T(1,3) _ T(2), of "\<lparr>root_page_id = 3\<rparr>" key] by auto
  show ?thesis using T(3) g [of 15] g [of 5] unfolding m by blast
qed

theorem bt_insert_leaf_witness:
  "\<exists>t b b' T. bt_insert mk_BPlusTree sample_pool 5 (mk_RID 1 0) = Some (Ok, t, b) \<and> bt_insert t b 7 (mk_RID 1 1) = Some (Ok, t, b')
    \<and> tree_ok (bodies b') T \<and> map_of (t_pairs T) = [5 \<mapsto> mk_RID 1 0, 7 \<mapsto> mk_RID 1 1]"
proof -
  obtain b p l where T: "bt_insert mk_BPlusTree sample_pool 5 (mk_RID 1 0) = Some (Ok, \<lparr>root_page_id = p\<rparr>, b)" "bpm_ok b" "room 1 b"
    "tree_ok (bodies b) (TLeaf p l)" "leaf_pairs l = [(5, mk_RID 1 0)]" "\<not> bt_isFull (lf_header l)" using one_record_tree by metis
  have k: "int64 7" by (simp add: int64_def)
  have d: "7 \<notin> dom (map_of (t_pairs (TLeaf p l)))" using T(5) by simp
  from bt_insert_leaf [OF T(2,4) _ T(3) k belongs_leaf, of "\<lparr>root_page_id = p\<rparr>" "mk_RID 1 1"] T(6) d
  have "\<exists>b' T'. bt_insert \<lparr>root_page_id = p\<rparr> b 7 (mk_RID 1 1) = Some (Ok, \<lparr>root_page_id = p\<rparr>, b') \<and> tree_ok (bodies b') T'
      \<and> map_of (t_pairs T') = (map_of (t_pairs (TLeaf p l)))(7 \<mapsto> mk_RID 1 1)" by auto
  then show ?thesis using T(1,5) by auto
qed

theorem bt_remove_leaf_witness:
  "\<exists>t b t' b'. bt_insert mk_BPlusTree sample_pool 5 (mk_RID 1 0) = Some (Ok, t, b) \<and> bt_remove t b 5 = Some (Ok, t', b')
    \<and> holds b' t' Map.empty"
proof -
  obtain b p l where T: "bt_insert mk_BPlusTree sample_pool 5 (mk_RID 1 0) = Some (Ok, \<lparr>root_page_id = p\<rparr>, b)" "bpm_ok b" "room 1 b"
    "tree_ok (bodies b) (TLeaf p l)" "leaf_pairs l = [(5, mk_RID 1 0)]" using one_record_tree by metis
  have d: "5 \<in> dom (map_of (t_pairs (TLeaf p l)))" "(map_of (t_pairs (TLeaf p l)))(5 := None) = Map.empty" using T(5) by auto
  from bt_remove_leaf [OF T(2,4) _ T(3) belongs_leaf, of "\<lparr>root_page_id = p\<rparr>" 5] d
  have "\<exists>b' t'. bt_remove \<lparr>root_page_id = p\<rparr> b 5 = Some (Ok, t', b') \<and> holds b' t' Map.empty" by auto
  then show ?thesis using T(1) by blast
qed

end
