(* ===== verification/Schemas.thy ===== *)
theory Schemas
  imports Serde
begin

text \<open>
  \<^verbatim>\<open>Column\<close>, \<^verbatim>\<open>Schema\<close> and \<^verbatim>\<open>TableInfo\<close>
  (\<^verbatim>\<open>src/catalog/schema.cpp\<close>, \<^verbatim>\<open>src/catalog/table_info.cpp\<close>) with their encodings.
  A schema is the vector of its columns; strings are byte lists.  The enumeration
  \<open>ColumnType\<close> is read with a cast from any byte, so it has a constructor for the bytes that
  name no type.  The interface \<open>field_codec\<close> states what the encodings share; it gives the
  encoding of a counted sequence from that of its elements.  Exhaustion of memory by
  \<open>columns_.reserve(count)\<close> is not modelled.
\<close>

subsection \<open>Columns, schemas and tables\<close>

datatype ColumnType = ColInteger | ColFloat | ColBoolean | ColVarchar | ColOther byte

definition byte_of_ColumnType :: "ColumnType \<Rightarrow> byte" where
  "byte_of_ColumnType t = (case t of ColInteger \<Rightarrow> 0 | ColFloat \<Rightarrow> 1 | ColBoolean \<Rightarrow> 2 | ColVarchar \<Rightarrow> 3 | ColOther b \<Rightarrow> b)"

definition ColumnType_of_byte :: "byte \<Rightarrow> ColumnType" where
  "ColumnType_of_byte b = (if b = 0 then ColInteger else if b = 1 then ColFloat else if b = 2 then ColBoolean
     else if b = 3 then ColVarchar else ColOther b)"

record Column =
  col_name :: "byte list"
  col_type :: ColumnType

type_synonym Schema = "Column list"

definition default_Column :: Column where
  "default_Column = \<lparr>col_name = [], col_type = ColInteger\<rparr>"

definition getColumn :: "Schema \<Rightarrow> nat \<Rightarrow> Column option" where
  "getColumn s i = (if i < length s then Some (s ! i) else None)"

definition getColumnCount :: "Schema \<Rightarrow> nat" where
  "getColumnCount s = length s"

definition Column_serialize :: "Serializer \<Rightarrow> Column \<Rightarrow> Status \<times> Serializer" where
  "Column_serialize s c = and_then (writeString s (col_name c)) (\<lambda>s1. writeUInt8 s1 (byte_of_ColumnType (col_type c)))"

definition Column_deserialize :: "Deserializer \<Rightarrow> Column \<Rightarrow> Status \<times> Column \<times> Deserializer" where
  "Column_deserialize d c = (case readString d (col_name c) of (st, nm, d1) \<Rightarrow>
     if st \<noteq> Ok then (st, c, d1)
     else (case readUInt8 d1 0 of (st2, ty, d2) \<Rightarrow>
       if st2 \<noteq> Ok then (st2, c\<lparr>col_name := nm\<rparr>, d2)
       else (Ok, \<lparr>col_name = nm, col_type = ColumnType_of_byte ty\<rparr>, d2)))"

text \<open>The loops over a vector; the reading loop appends to \<open>acc\<close> and stops at the first failure.\<close>

fun ser_each :: "(Serializer \<Rightarrow> 'a \<Rightarrow> Status \<times> Serializer) \<Rightarrow> Serializer \<Rightarrow> 'a list \<Rightarrow> Status \<times> Serializer" where
  "ser_each w s [] = (Ok, s)"
| "ser_each w s (x # xs) = and_then (w s x) (\<lambda>s1. ser_each w s1 xs)"

fun des_each :: "(Deserializer \<Rightarrow> Status \<times> 'a \<times> Deserializer) \<Rightarrow> Deserializer \<Rightarrow> nat \<Rightarrow> 'a list \<Rightarrow> Status \<times> 'a list \<times> Deserializer" where
  "des_each r d 0 acc = (Ok, acc, d)"
| "des_each r d (Suc n) acc = (case r d of (st, x, d1) \<Rightarrow>
     if st \<noteq> Ok then (st, acc, d1) else des_each r d1 n (acc @ [x]))"

definition Schema_serialize :: "Serializer \<Rightarrow> Schema \<Rightarrow> Status \<times> Serializer" where
  "Schema_serialize s cols = and_then (writeUInt32 s (word_of_nat (length cols))) (\<lambda>s1. ser_each Column_serialize s1 cols)"

definition Schema_deserialize :: "Deserializer \<Rightarrow> Schema \<Rightarrow> Status \<times> Schema \<times> Deserializer" where
  "Schema_deserialize d cols = (case readUInt32 d 0 of (st, count, d1) \<Rightarrow>
     if st \<noteq> Ok then (st, cols, d1)
     else des_each (\<lambda>d. Column_deserialize d default_Column) d1 (unat count) [])"

record TableInfo =
  ti_table_id :: u32
  ti_table_name :: "byte list"
  ti_heap_root_page :: PageId
  ti_index_root_page :: PageId
  ti_schema :: Schema

definition default_TableInfo :: TableInfo where
  "default_TableInfo = \<lparr>ti_table_id = 0, ti_table_name = [], ti_heap_root_page = kInvalidPageId,
     ti_index_root_page = kInvalidPageId, ti_schema = []\<rparr>"

definition mk_TableInfo :: "u32 \<Rightarrow> byte list \<Rightarrow> PageId \<Rightarrow> PageId \<Rightarrow> Schema \<Rightarrow> TableInfo" where
  "mk_TableInfo i nm h x sch = \<lparr>ti_table_id = i, ti_table_name = nm, ti_heap_root_page = h, ti_index_root_page = x, ti_schema = sch\<rparr>"

definition TableInfo_serialize :: "Serializer \<Rightarrow> TableInfo \<Rightarrow> Status \<times> Serializer" where
  "TableInfo_serialize s t =
    and_then (writeUInt32 s (ti_table_id t)) (\<lambda>s1.
    and_then (writeString s1 (ti_table_name t)) (\<lambda>s2.
    and_then (writeUInt32 s2 (ti_heap_root_page t)) (\<lambda>s3.
    and_then (writeUInt32 s3 (ti_index_root_page t)) (\<lambda>s4.
    Schema_serialize s4 (ti_schema t)))))"

definition TableInfo_deserialize :: "Deserializer \<Rightarrow> TableInfo \<Rightarrow> Status \<times> TableInfo \<times> Deserializer" where
  "TableInfo_deserialize d t = (case readUInt32 d (ti_table_id t) of (st1, i, d1) \<Rightarrow>
     if st1 \<noteq> Ok then (st1, t, d1)
     else (case readString d1 (ti_table_name t) of (st2, nm, d2) \<Rightarrow>
       if st2 \<noteq> Ok then (st2, t\<lparr>ti_table_id := i\<rparr>, d2)
       else (case readUInt32 d2 (ti_heap_root_page t) of (st3, h, d3) \<Rightarrow>
         if st3 \<noteq> Ok then (st3, t\<lparr>ti_table_id := i, ti_table_name := nm\<rparr>, d3)
         else (case readUInt32 d3 (ti_index_root_page t) of (st4, x, d4) \<Rightarrow>
           if st4 \<noteq> Ok then (st4, t\<lparr>ti_table_id := i, ti_table_name := nm, ti_heap_root_page := h\<rparr>, d4)
           else (case Schema_deserialize d4 (ti_schema t) of (st5, sch, d5) \<Rightarrow>
             (st5, mk_TableInfo i nm h x sch, d5))))))"

subsection \<open>The interface of an encoding\<close>

locale field_codec =
  fixes wr :: "Serializer \<Rightarrow> 'a \<Rightarrow> Status \<times> Serializer"
    and rd :: "Deserializer \<Rightarrow> 'a \<Rightarrow> Status \<times> 'a \<times> Deserializer"
    and bytes :: "'a \<Rightarrow> byte list"
    and ok :: "'a \<Rightarrow> bool"
  assumes write_iff: "ser_wf s \<Longrightarrow> ok x \<Longrightarrow>
      wr s x = (Ok, s') \<longleftrightarrow> ser_cursor s + length (bytes x) \<le> length (ser_buffer s) \<and> s' = ser_put s (bytes x)"
    and read_back: "ok x \<Longrightarrow> ahead d (bytes x) \<Longrightarrow> rd d out = (Ok, x, des_skip d (length (bytes x)))"
begin

definition "seq_bytes xs = concat (map bytes xs)"

lemma seq_bytes_simps [simp]: "seq_bytes [] = []" "seq_bytes (x # xs) = bytes x @ seq_bytes xs"
  by (simp_all add: seq_bytes_def)

lemma ser_each_iff:
  assumes "ser_wf s" "list_all ok xs"
  shows "ser_each wr s xs = (Ok, s') \<longleftrightarrow>
    ser_cursor s + length (seq_bytes xs) \<le> length (ser_buffer s) \<and> s' = ser_put s (seq_bytes xs)"
  using assms
proof (induction xs arbitrary: s)
  case (Cons x xs)
  show ?case
  proof (cases "ser_cursor s + length (bytes x) \<le> length (ser_buffer s)")
    case True
    then show ?thesis using Cons by (auto simp: and_then_eq_Ok write_iff ser_wf_put ser_put_append add.assoc)
  next
    case False
    then show ?thesis using Cons.prems by (auto simp: and_then_eq_Ok write_iff)
  qed
qed (auto simp: ser_wf_def)

lemma des_each_back:
  assumes "list_all ok xs" "ahead d (seq_bytes xs)"
  shows "des_each (\<lambda>d. rd d out) d (length xs) acc = (Ok, acc @ xs, des_skip d (length (seq_bytes xs)))"
  using assms
proof (induction xs arbitrary: d acc)
  case (Cons x xs)
  then have "ahead d (bytes x)" "ahead (des_skip d (length (bytes x))) (seq_bytes xs)"
    by (auto dest: ahead_append)
  with Cons read_back [of x d out] show ?case by (simp add: skip_skip)
qed (simp add: des_skip_def)

lemma roundtrip:
  assumes "ser_wf s" "ok x" "wr s x = (Ok, s')"
  shows "rd \<lparr>des_buffer = ser_buffer s', des_cursor = ser_cursor s\<rparr> out =
    (Ok, x, \<lparr>des_buffer = ser_buffer s', des_cursor = ser_cursor s'\<rparr>)"
proof -
  have s': "ser_cursor s + length (bytes x) \<le> length (ser_buffer s)" "s' = ser_put s (bytes x)"
    using assms by (auto simp: write_iff)
  then have "ahead \<lparr>des_buffer = ser_buffer s', des_cursor = ser_cursor s\<rparr> (bytes x)"
    by (simp add: ahead_def slice_overwrite_same)
  from read_back [OF assms(2) this] s' show ?thesis by (simp add: des_skip_def)
qed

end

subsection \<open>The encodings of the catalog implement it\<close>

definition string_bytes :: "byte list \<Rightarrow> byte list" where
  "string_bytes v = bytes_of_u32 (word_of_nat (length v)) @ v"

definition small :: "'a list \<Rightarrow> bool" where
  "small v = (length v < 2 ^ 32)"

lemma readString_ahead: "small v \<Longrightarrow> ahead d (string_bytes v) \<Longrightarrow> readString d out = (Ok, v, des_skip d (length (string_bytes v)))"
  unfolding string_bytes_def small_def by (subst readString_Ok) (auto simp: ahead_def des_skip_def)

lemma writeUInt32_iff:
  "ser_wf s \<Longrightarrow> writeUInt32 s v = (Ok, s') \<longleftrightarrow> ser_cursor s + 4 \<le> length (ser_buffer s) \<and> s' = ser_put s (bytes_of_u32 v)"
  by (simp add: writeUInt32_def writeRaw_eq_Ok)

interpretation u32c: field_codec writeUInt32 readUInt32 bytes_of_u32 "\<lambda>_. True"
  by unfold_locales (simp_all add: writeUInt32_iff read_ahead)

interpretation strc: field_codec writeString readString string_bytes small
  by unfold_locales (auto simp: writeString_eq_Ok string_bytes_def small_def readString_ahead [unfolded string_bytes_def small_def])

lemma ColumnType_roundtrip: "(\<forall>b. t = ColOther b \<longrightarrow> 3 < b) \<Longrightarrow> ColumnType_of_byte (byte_of_ColumnType t) = t"
  by (cases t) (auto simp: ColumnType_of_byte_def byte_of_ColumnType_def)

definition ok_type :: "ColumnType \<Rightarrow> bool" where
  "ok_type t = (case t of ColOther b \<Rightarrow> 3 < b | _ \<Rightarrow> True)"

definition Column_bytes :: "Column \<Rightarrow> byte list" where
  "Column_bytes c = string_bytes (col_name c) @ [byte_of_ColumnType (col_type c)]"

definition ok_Column :: "Column \<Rightarrow> bool" where
  "ok_Column c = (small (col_name c) \<and> ok_type (col_type c))"

lemma seq_write_iff:
  assumes "\<And>s'. w1 = (Ok, s') \<longleftrightarrow> ser_cursor s + length a \<le> length (ser_buffer s) \<and> s' = ser_put s a"
    "\<And>s1 s'. ser_wf s1 \<Longrightarrow> k s1 = (Ok, s') \<longleftrightarrow> ser_cursor s1 + length b \<le> length (ser_buffer s1) \<and> s' = ser_put s1 b"
  shows "and_then w1 k = (Ok, s') \<longleftrightarrow> ser_cursor s + length (a @ b) \<le> length (ser_buffer s) \<and> s' = ser_put s (a @ b)"
proof (cases "ser_cursor s + length a \<le> length (ser_buffer s)")
  case True
  then show ?thesis
    using assms(1) assms(2) [OF ser_wf_put [OF True]]
    by (auto simp: and_then_eq_Ok ser_put_append add.assoc)
qed (use assms(1) in \<open>auto simp: and_then_eq_Ok\<close>)

lemma Column_write:
  assumes "ser_wf s" "ok_Column c"
  shows "Column_serialize s c = (Ok, s') \<longleftrightarrow>
    ser_cursor s + length (Column_bytes c) \<le> length (ser_buffer s) \<and> s' = ser_put s (Column_bytes c)"
  unfolding Column_serialize_def Column_bytes_def
  by (rule seq_write_iff) (use assms in \<open>simp_all add: strc.write_iff ok_Column_def writeUInt8_def writeRaw_eq_Ok\<close>)

lemma Column_read:
  assumes "ok_Column c" "ahead d (Column_bytes c)"
  shows "Column_deserialize d out = (Ok, c, des_skip d (length (Column_bytes c)))"
proof -
  have "ahead d (string_bytes (col_name c))"
    "ahead (des_skip d (length (string_bytes (col_name c)))) [byte_of_ColumnType (col_type c)]"
    using assms(2) ahead_append by (auto simp: Column_bytes_def)
  moreover have "ColumnType_of_byte (byte_of_ColumnType (col_type c)) = col_type c"
    using assms(1) by (intro ColumnType_roundtrip) (auto simp: ok_Column_def ok_type_def)
  ultimately show ?thesis using assms(1) strc.read_back [of "col_name c" d "col_name out"]
      read_ahead(2) [of "des_skip d (length (string_bytes (col_name c)))" "byte_of_ColumnType (col_type c)" 0]
    by (simp add: Column_deserialize_def ok_Column_def skip_skip Column_bytes_def)
qed

interpretation columnc: field_codec Column_serialize Column_deserialize Column_bytes ok_Column
  by unfold_locales (simp_all add: Column_write Column_read)

definition Schema_bytes :: "Schema \<Rightarrow> byte list" where
  "Schema_bytes cols = bytes_of_u32 (word_of_nat (length cols)) @ columnc.seq_bytes cols"

definition ok_Schema :: "Schema \<Rightarrow> bool" where
  "ok_Schema cols = (small cols \<and> list_all ok_Column cols)"

lemma unat_small: "small xs \<Longrightarrow> unat (word_of_nat (length xs) :: u32) = length xs"
  by (simp add: small_def unat_of_nat take_bit_nat_eq_self)

lemma Schema_write:
  assumes "ser_wf s" "ok_Schema cols"
  shows "Schema_serialize s cols = (Ok, s') \<longleftrightarrow>
    ser_cursor s + length (Schema_bytes cols) \<le> length (ser_buffer s) \<and> s' = ser_put s (Schema_bytes cols)"
  unfolding Schema_serialize_def Schema_bytes_def
  by (rule seq_write_iff) (use assms in \<open>simp_all add: writeUInt32_iff columnc.ser_each_iff ok_Schema_def\<close>)

lemma Schema_read:
  assumes "ok_Schema cols" "ahead d (Schema_bytes cols)"
  shows "Schema_deserialize d out = (Ok, cols, des_skip d (length (Schema_bytes cols)))"
proof -
  have "readUInt32 d 0 = (Ok, word_of_nat (length cols), des_skip d 4)" "ahead (des_skip d 4) (columnc.seq_bytes cols)"
    using assms(2) by (auto simp: Schema_bytes_def read_next ahead_rest)
  then show ?thesis using assms(1) columnc.des_each_back [of cols "des_skip d 4" default_Column "[]"]
    by (simp add: Schema_deserialize_def unat_small ok_Schema_def skip_skip Schema_bytes_def)
qed

interpretation schemac: field_codec Schema_serialize Schema_deserialize Schema_bytes ok_Schema
  by unfold_locales (simp_all add: Schema_write Schema_read)

definition TableInfo_bytes :: "TableInfo \<Rightarrow> byte list" where
  "TableInfo_bytes t = bytes_of_u32 (ti_table_id t) @ string_bytes (ti_table_name t) @
     bytes_of_u32 (ti_heap_root_page t) @ bytes_of_u32 (ti_index_root_page t) @ Schema_bytes (ti_schema t)"

definition ok_TableInfo :: "TableInfo \<Rightarrow> bool" where
  "ok_TableInfo t = (small (ti_table_name t) \<and> ok_Schema (ti_schema t))"

lemma TableInfo_write:
  assumes "ser_wf s" "ok_TableInfo t"
  shows "TableInfo_serialize s t = (Ok, s') \<longleftrightarrow>
    ser_cursor s + length (TableInfo_bytes t) \<le> length (ser_buffer s) \<and> s' = ser_put s (TableInfo_bytes t)"
proof -
  have nm: "small (ti_table_name t)" and sch: "ok_Schema (ti_schema t)" using assms(2) by (auto simp: ok_TableInfo_def)
  show ?thesis unfolding TableInfo_serialize_def TableInfo_bytes_def
    by (intro seq_write_iff)
      (use assms(1) in \<open>simp_all add: writeUInt32_iff strc.write_iff [OF _ nm] schemac.write_iff [OF _ sch]\<close>)
qed

lemma TableInfo_read:
  assumes "ok_TableInfo t" "ahead d (TableInfo_bytes t)"
  shows "TableInfo_deserialize d out = (Ok, t, des_skip d (length (TableInfo_bytes t)))"
proof -
  let ?n = "length (string_bytes (ti_table_name t))"
  have nm: "small (ti_table_name t)" and sch: "ok_Schema (ti_schema t)" using assms(1) by (auto simp: ok_TableInfo_def)
  note a = assms(2) [unfolded TableInfo_bytes_def]
  note r1 = ahead_rest(1) [OF a]
  have b: "ahead (des_skip d 4) (string_bytes (ti_table_name t))" by (rule ahead_append(1) [OF r1])
  have r2: "ahead (des_skip d (4 + ?n)) (bytes_of_u32 (ti_heap_root_page t) @ bytes_of_u32 (ti_index_root_page t) @ Schema_bytes (ti_schema t))"
    using ahead_append(2) [OF r1] by (simp add: skip_skip)
  note r3 = ahead_rest(1) [OF r2, unfolded skip_skip]
  note r4 = ahead_rest(1) [OF r3, unfolded skip_skip]
  show ?thesis
    using read_next(1) [OF a] strc.read_back [OF nm b] read_next(1) [OF r2] read_next(1) [OF r3] schemac.read_back [OF sch r4]
    by (simp add: TableInfo_deserialize_def skip_skip TableInfo_bytes_def mk_TableInfo_def add.assoc)
qed

interpretation tablec: field_codec TableInfo_serialize TableInfo_deserialize TableInfo_bytes ok_TableInfo
  by unfold_locales (simp_all add: TableInfo_write TableInfo_read)

end
