(* ===== verification/Catalog.thy ===== *)
theory Catalog
  imports BufferPool Schemas "HOL-Library.AList" "HOL-Library.Multiset"
begin

text \<open>
  \<^verbatim>\<open>CatalogManager\<close> (\<^verbatim>\<open>src/catalog/catalog_manager.cpp\<close>): the tables of the
  database, kept in memory and in page 0 behind the database metadata.

  \<open>tables_\<close>, an \<open>unordered_map\<close>, is an association list with distinct keys.  The order in which the
  map is iterated is the argument \<open>iter\<close>, of which only is assumed that it is a permutation.  The pool is
  passed along.  Guards are dropped in the reverse order of their declarations, on
  every return.  \<open>None\<close> is an exception of the replacer.
\<close>

record CatalogManager =
  cat_tables :: "(byte list \<times> TableInfo) list"
  next_table_id :: u32

type_synonym iteration = "(byte list \<times> TableInfo) list \<Rightarrow> (byte list \<times> TableInfo) list"

subsection \<open>Page 0\<close>

definition catalog_write :: "iteration \<Rightarrow> CatalogManager \<Rightarrow> Serializer \<Rightarrow> Status \<times> Serializer" where
  "catalog_write iter cat s =
    and_then (writeUInt32 s (next_table_id cat)) (\<lambda>s1.
    and_then (writeUInt32 s1 (word_of_nat (length (cat_tables cat)))) (\<lambda>s2.
    ser_each TableInfo_serialize s2 (map snd (iter (cat_tables cat)))))"

definition saveToDisk :: "iteration \<Rightarrow> CatalogManager \<Rightarrow> BufferPoolManager \<Rightarrow> (Status \<times> BufferPoolManager) option" where
  "saveToDisk iter cat b = do {
     (st, guard, b1) \<leftarrow> fetchPageGuard b 0 empty_guard;
     if st \<noteq> Ok then map_option (\<lambda>(_, b2). (st, b2)) (guard_drop b1 guard)
     else do {
       let f = the (g_frame guard);
       let pg = fr_page (frames b1 ! f);
       let (st2, s) = catalog_write iter cat (mk_Serializer (drop kMetaSize (pg_data pg)));
       let b2 = write_frame_page b1 f (pg\<lparr>pg_data := take kMetaSize (pg_data pg) @ ser_buffer s\<rparr>);
       (_, b3) \<leftarrow> guard_drop b2 (if st2 = Ok then guard_markDirty guard else guard);
       Some (st2, b3) } }"

definition catalog_read :: "Deserializer \<Rightarrow> CatalogManager \<Rightarrow> Status \<times> CatalogManager" where
  "catalog_read d cat = (case readUInt32 d 0 of (st1, next_id, d1) \<Rightarrow>
     if st1 \<noteq> Ok then (Ok, cat)
     else let cat1 = cat\<lparr>next_table_id := next_id\<rparr> in
       (case readUInt32 d1 0 of (st2, table_count, d2) \<Rightarrow>
          if st2 \<noteq> Ok then (Ok, cat1)
          else (case des_each (\<lambda>d. TableInfo_deserialize d default_TableInfo) d2 (unat table_count) [] of (st3, infos, _) \<Rightarrow>
            (st3, cat1\<lparr>cat_tables := foldl (\<lambda>ts i. AList.update (ti_table_name i) i ts) (cat_tables cat1) infos\<rparr>))))"

definition loadFromDisk :: "CatalogManager \<Rightarrow> BufferPoolManager \<Rightarrow> (Status \<times> CatalogManager \<times> BufferPoolManager) option" where
  "loadFromDisk cat b = do {
     (st, guard, b1) \<leftarrow> fetchPageGuard b 0 empty_guard;
     if st \<noteq> Ok then map_option (\<lambda>(_, b2). (st, cat, b2)) (guard_drop b1 guard)
     else do {
       let (st2, cat1) = catalog_read (mk_Deserializer (drop kMetaSize (pg_data (fr_page (frames b1 ! the (g_frame guard)))))) cat;
       (_, b2) \<leftarrow> guard_drop b1 guard;
       Some (st2, cat1, b2) } }"

subsection \<open>Operations\<close>

definition mk_CatalogManager :: "BufferPoolManager \<Rightarrow> (CatalogManager \<times> BufferPoolManager) option" where
  "mk_CatalogManager b = map_option snd (loadFromDisk \<lparr>cat_tables = [], next_table_id = 0\<rparr> b)"

definition createTable :: "iteration \<Rightarrow> CatalogManager \<Rightarrow> BufferPoolManager \<Rightarrow> byte list \<Rightarrow> Schema \<Rightarrow>
    (Status \<times> TableInfo option \<times> CatalogManager \<times> BufferPoolManager) option" where
  "createTable iter cat b nm sch =
    (if map_of (cat_tables cat) nm \<noteq> None then Some (AlreadyExists, None, cat, b)
     else do {
       (st1, heap_root, heap_guard, b1) \<leftarrow> newPageGuard b kInvalidPageId empty_guard;
       if st1 \<noteq> Ok then map_option (\<lambda>(_, b2). (st1, None, cat, b2)) (guard_drop b1 heap_guard)
       else do {
         (st2, index_root, index_guard, b2) \<leftarrow> newPageGuard b1 kInvalidPageId empty_guard;
         if st2 \<noteq> Ok then do {
           (_, b3) \<leftarrow> guard_drop b2 index_guard;
           (_, b4) \<leftarrow> guard_drop b3 heap_guard;
           Some (st2, None, cat, b4) }
         else do {
           let info = mk_TableInfo (next_table_id cat) nm heap_root index_root sch;
           let cat1 = \<lparr>cat_tables = AList.update nm info (cat_tables cat), next_table_id = next_table_id cat + 1\<rparr>;
           (st3, b3) \<leftarrow> saveToDisk iter cat1 b2;
           (_, b4) \<leftarrow> guard_drop b3 index_guard;
           (_, b5) \<leftarrow> guard_drop b4 heap_guard;
           Some (st3, Some info, cat1, b5) } } })"

definition getTable :: "CatalogManager \<Rightarrow> byte list \<Rightarrow> Status \<times> TableInfo option" where
  "getTable cat nm = (case map_of (cat_tables cat) nm of None \<Rightarrow> (NotFound, None) | Some info \<Rightarrow> (Ok, Some info))"

definition dropTable :: "iteration \<Rightarrow> CatalogManager \<Rightarrow> BufferPoolManager \<Rightarrow> byte list \<Rightarrow> (Status \<times> CatalogManager \<times> BufferPoolManager) option" where
  "dropTable iter cat b nm =
    (if map_of (cat_tables cat) nm = None then Some (NotFound, cat, b)
     else let cat1 = cat\<lparr>cat_tables := AList.delete nm (cat_tables cat)\<rparr>
          in map_option (\<lambda>(st, b1). (st, cat1, b1)) (saveToDisk iter cat1 b))"

definition listTables :: "iteration \<Rightarrow> CatalogManager \<Rightarrow> byte list list" where
  "listTables iter cat = map fst (iter (cat_tables cat))"

subsection \<open>The encoding of a catalog\<close>

definition cat_ok :: "CatalogManager \<Rightarrow> bool" where
  "cat_ok cat = (distinct (map fst (cat_tables cat)) \<and> small (cat_tables cat) \<and>
     (\<forall>(k, i)\<in>set (cat_tables cat). ti_table_name i = k \<and> ok_TableInfo i))"

definition permutes_tables :: "iteration \<Rightarrow> bool" where
  "permutes_tables iter = (\<forall>ts. mset (iter ts) = mset ts)"

definition catalog_bytes :: "iteration \<Rightarrow> CatalogManager \<Rightarrow> byte list" where
  "catalog_bytes iter cat = bytes_of_u32 (next_table_id cat) @ bytes_of_u32 (word_of_nat (length (cat_tables cat))) @
     tablec.seq_bytes (map snd (iter (cat_tables cat)))"

lemma iter_ok:
  assumes "cat_ok cat" "permutes_tables iter"
  shows "list_all ok_TableInfo (map snd (iter (cat_tables cat)))" "length (iter (cat_tables cat)) = length (cat_tables cat)"
    "map_of (iter (cat_tables cat)) = map_of (cat_tables cat)"
    "iter (cat_tables cat) = map (\<lambda>i. (ti_table_name i, i)) (map snd (iter (cat_tables cat)))"
    "distinct (map fst (iter (cat_tables cat)))"
proof -
  have m: "mset (iter (cat_tables cat)) = mset (cat_tables cat)" using assms(2) by (simp add: permutes_tables_def)
  then have s: "set (iter (cat_tables cat)) = set (cat_tables cat)" by (rule mset_eq_setD)
  show d: "distinct (map fst (iter (cat_tables cat)))"
    using assms(1) mset_eq_imp_distinct_iff [of "map fst (iter (cat_tables cat))" "map fst (cat_tables cat)"] m
    by (simp add: cat_ok_def)
  show "length (iter (cat_tables cat)) = length (cat_tables cat)" using m by (rule mset_eq_length)
  show "list_all ok_TableInfo (map snd (iter (cat_tables cat)))"
    using assms(1) s by (auto simp: list_all_iff cat_ok_def)
  show "map_of (iter (cat_tables cat)) = map_of (cat_tables cat)"
    using d assms(1) s by (intro map_of_inject_set [THEN iffD2]) (auto simp: cat_ok_def)
  show "iter (cat_tables cat) = map (\<lambda>i. (ti_table_name i, i)) (map snd (iter (cat_tables cat)))"
    using assms(1) s by (auto simp: cat_ok_def intro!: map_idI [symmetric])
qed

lemma catalog_write_iff:
  assumes "ser_wf s" "cat_ok cat" "permutes_tables iter"
  shows "catalog_write iter cat s = (Ok, s') \<longleftrightarrow>
    ser_cursor s + length (catalog_bytes iter cat) \<le> length (ser_buffer s) \<and> s' = ser_put s (catalog_bytes iter cat)"
  unfolding catalog_write_def catalog_bytes_def
  by (intro seq_write_iff)
    (use assms iter_ok(1) [OF assms(2,3)] in \<open>simp_all add: writeUInt32_iff tablec.ser_each_iff\<close>)

lemma update_new: "k \<notin> set (map fst ts) \<Longrightarrow> AList.update k v ts = ts @ [(k, v)]"
  by (induction ts) auto

lemma fold_update:
  assumes "distinct (map fst ts @ map ti_table_name infos)"
  shows "foldl (\<lambda>ts i. AList.update (ti_table_name i) i ts) ts infos = ts @ map (\<lambda>i. (ti_table_name i, i)) infos"
  using assms
proof (induction infos arbitrary: ts)
  case (Cons i infos)
  then have "AList.update (ti_table_name i) i ts = ts @ [(ti_table_name i, i)]"
    by (intro update_new) simp
  with Cons show ?case by simp
qed simp

lemma catalog_read_back:
  assumes "cat_ok cat" "permutes_tables iter" "ahead d (catalog_bytes iter cat)"
  shows "catalog_read d \<lparr>cat_tables = [], next_table_id = n\<rparr> =
    (Ok, \<lparr>cat_tables = iter (cat_tables cat), next_table_id = next_table_id cat\<rparr>)"
proof -
  let ?infos = "map snd (iter (cat_tables cat))"
  note I = iter_ok [OF assms(1,2)]
  note a = assms(3) [unfolded catalog_bytes_def]
  note r1 = ahead_rest(1) [OF a]
  note r2 = ahead_rest(1) [OF r1]
  have "unat (word_of_nat (length (cat_tables cat)) :: u32) = length ?infos"
    using assms(1) unat_small [of "cat_tables cat"] I(2) by (simp add: cat_ok_def)
  moreover have "distinct (map ti_table_name ?infos)"
    using I(5) arg_cong [OF I(4), of "map fst"] by (simp add: comp_def)
  then have "foldl (\<lambda>ts i. AList.update (ti_table_name i) i ts) [] ?infos = iter (cat_tables cat)"
    using fold_update [of "[]" ?infos] I(4) by simp
  ultimately show ?thesis
    using read_next(1) [OF a, of 0] read_next(1) [OF r1, of 0] tablec.des_each_back [OF I(1) r2, of default_TableInfo "[]"]
    by (simp add: catalog_read_def)
qed

subsection \<open>Page 0 in the pool\<close>

text \<open>
  Page 0 is in frame \<open>f\<close>.  (The invariant \<open>bpm_ok\<close> covers the data pages only: page 0 belongs to the disk
  manager, which changes it on disk behind the pool's back; see \<open>stale_page_count\<close> below.)
\<close>

definition resident :: "BufferPoolManager \<Rightarrow> FrameId \<Rightarrow> bool" where
  "resident b f = (page_table b 0 = Some f \<and> f < length (frames b) \<and> length (frames b) = num_frames (bpm_replacer b) \<and>
     lruk_ok (bpm_replacer b) \<and> fr_page_id (frames b ! f) = 0 \<and> 0 \<le> pin_count (frames b ! f) \<and> wf_Page (fr_page (frames b ! f)))"

lemma resident_fetch:
  assumes "resident b f"
  obtains b1 where "fetchPageGuard b 0 empty_guard = Some (Ok, mk_guard b1 f, b1)" "resident b1 f"
    "fr_page (frames b1 ! f) = fr_page (frames b ! f)" "0 < pin_count (frames b1 ! f)" "fr_dirty (frames b1 ! f) = fr_dirty (frames b ! f)"
    "bpm_disk b1 = bpm_disk b"
proof -
  obtain r where r: "touch_pinned f (upd_frame f frame_pin b) = Some ((upd_frame f frame_pin b)\<lparr>bpm_replacer := r\<rparr>)"
      "lruk_ok r" "num_frames r = num_frames (bpm_replacer b)"
    using touch_pinned_spec [of "upd_frame f frame_pin b" f] assms by (auto simp: resident_def)
  let ?b1 = "(upd_frame f frame_pin b)\<lparr>bpm_replacer := r\<rparr>"
  have "fetchPage b 0 = Some (Ok, Some f, ?b1)" using assms r(1) by (simp add: fetchPage_def resident_def)
  then show thesis
    by (intro that [of ?b1]) (use assms r(2,3) in \<open>simp_all add: fetchPageGuard_eq resident_def upd_frame_def frame_pin_def\<close>)
qed

lemma resident_drop:
  assumes "resident b f" "0 < pin_count (frames b ! f)" "g_bpm g" "g_frame g = Some f" "g_page_id g = 0"
  obtains b1 where "guard_drop b g = Some (empty_guard, b1)" "resident b1 f"
    "fr_page (frames b1 ! f) = fr_page (frames b ! f)" "fr_dirty (frames b1 ! f) = (fr_dirty (frames b ! f) \<or> g_dirty g)"
    "bpm_disk b1 = bpm_disk b"
proof -
  let ?b = "upd_frame f (frame_unpin (g_dirty g)) b"
  have f: "f < num_frames (bpm_replacer ?b)" and rok: "lruk_ok (bpm_replacer ?b)" using assms(1) by (auto simp: resident_def)
  obtain r where r: "setEvictable (bpm_replacer ?b) f True = Inr r" "lruk_ok r" "num_frames r = num_frames (bpm_replacer b)"
    using setEvictable_ok [OF rok f, of True] by auto
  have v: "guard_isValid g" using assms(3-5) by (simp add: guard_isValid_def kInvalidPageId_def)
  let ?b1 = "if pin_count (frames ?b ! f) = 0 then ?b\<lparr>bpm_replacer := r\<rparr> else ?b"
  have "unpinPage b 0 (g_dirty g) = Some (Ok, ?b1)"
    using assms(1,2) r(1) by (simp add: unpinPage_def resident_def no_throw_def)
  then show thesis
    by (intro that [of ?b1]) (use assms r(2,3) v in \<open>auto simp: guard_drop_def resident_def upd_frame_def frame_unpin_def Let_def\<close>)
qed

lemma resident_write:
  "resident b f \<Longrightarrow> wf_Page pg \<Longrightarrow> resident (write_frame_page b f pg) f"
  by (simp add: resident_def write_frame_page_def upd_frame_def)

lemma saveToDisk_resident:
  assumes res: "resident b f" and ok: "cat_ok cat" "permutes_tables iter"
    and fits: "kMetaSize + length (catalog_bytes iter cat) \<le> kPageSize"
  obtains b' where "saveToDisk iter cat b = Some (Ok, b')" "resident b' f" "fr_dirty (frames b' ! f)" "bpm_disk b' = bpm_disk b"
    "fr_page (frames b' ! f) = (fr_page (frames b ! f))\<lparr>pg_data := overwrite (pg_data (fr_page (frames b ! f))) kMetaSize (catalog_bytes iter cat)\<rparr>"
proof -
  obtain b1 where b1: "fetchPageGuard b 0 empty_guard = Some (Ok, mk_guard b1 f, b1)" "resident b1 f"
      "fr_page (frames b1 ! f) = fr_page (frames b ! f)" "0 < pin_count (frames b1 ! f)" "bpm_disk b1 = bpm_disk b"
    by (rule resident_fetch [OF res])
  let ?pg = "fr_page (frames b ! f)"
  let ?d = "pg_data ?pg" and ?bs = "catalog_bytes iter cat"
  let ?s = "mk_Serializer (drop kMetaSize ?d)"
  have len: "length ?d = kPageSize" using res by (simp add: resident_def wf_Page_def)
  have w: "catalog_write iter cat ?s = (Ok, ser_put ?s ?bs)"
    by (rule catalog_write_iff [OF _ ok, THEN iffD2]) (use len fits in \<open>simp_all add: mk_Serializer_def ser_wf_def\<close>)
  let ?pg' = "?pg\<lparr>pg_data := overwrite ?d kMetaSize ?bs\<rparr>"
  have data: "take kMetaSize ?d @ ser_buffer (ser_put ?s ?bs) = overwrite ?d kMetaSize ?bs"
    using len fits by (simp add: mk_Serializer_def overwrite_def drop_drop add.commute min_def)
  let ?b2 = "write_frame_page b1 f ?pg'"
  have res2: "resident ?b2 f" by (rule resident_write [OF b1(2)]) (use len fits in \<open>simp add: wf_Page_def\<close>)
  have f: "f < length (frames b1)" using b1(2) by (simp add: resident_def)
  obtain b3 where b3: "guard_drop ?b2 (guard_markDirty (mk_guard b1 f)) = Some (empty_guard, b3)" "resident b3 f"
      "fr_page (frames b3 ! f) = fr_page (frames ?b2 ! f)" "fr_dirty (frames b3 ! f)" "bpm_disk b3 = bpm_disk ?b2"
    by (rule resident_drop [OF res2, of "guard_markDirty (mk_guard b1 f)"])
      (use b1(2,4) f in \<open>auto simp: write_frame_page_def upd_frame_def guard_markDirty_def mk_guard_def resident_def\<close>)
  have "saveToDisk iter cat b = Some (Ok, b3)"
    using b1(1,3) w b3(1) data by (simp add: saveToDisk_def mk_guard_def Let_def)
  then show thesis using b3(2-5) f b1(5) by (intro that [of b3]) (simp_all add: write_frame_page_def upd_frame_def)
qed

lemma loadFromDisk_resident:
  assumes res: "resident b f" and rd: "catalog_read (mk_Deserializer (drop kMetaSize (pg_data (fr_page (frames b ! f))))) cat = (st, cat')"
  obtains b' where "loadFromDisk cat b = Some (st, cat', b')" "resident b' f" "fr_page (frames b' ! f) = fr_page (frames b ! f)"
proof -
  obtain b1 where b1: "fetchPageGuard b 0 empty_guard = Some (Ok, mk_guard b1 f, b1)" "resident b1 f"
      "fr_page (frames b1 ! f) = fr_page (frames b ! f)" "0 < pin_count (frames b1 ! f)"
    by (rule resident_fetch [OF res])
  obtain b2 where b2: "guard_drop b1 (mk_guard b1 f) = Some (empty_guard, b2)" "resident b2 f"
      "fr_page (frames b2 ! f) = fr_page (frames b1 ! f)"
    by (rule resident_drop [OF b1(2,4), of "mk_guard b1 f"]) (use b1(2) in \<open>auto simp: mk_guard_def resident_def\<close>)
  have "loadFromDisk cat b = Some (st, cat', b2)"
    using b1 b2(1) rd by (simp add: loadFromDisk_def mk_guard_def)
  then show thesis using b2 b1(3) by (intro that [of b2]) simp_all
qed

subsection \<open>Properties\<close>

text \<open>
  C38. The catalog survives being written to page 0 and loaded again: when page 0 is in the pool and the encoding
  fits behind the metadata, \<open>saveToDisk\<close> succeeds, marks the page dirty and leaves the metadata bytes in front of it alone; a
  \<open>CatalogManager\<close> constructed afterwards has the same tables under the same names and the same next table id,
  whatever order the hash map was iterated in.
\<close>

theorem catalog_save_load:
  assumes "resident b f" "cat_ok cat" "permutes_tables iter" "kMetaSize + length (catalog_bytes iter cat) \<le> kPageSize"
  shows "\<exists>b' cat' b''. saveToDisk iter cat b = Some (Ok, b') \<and> fr_dirty (frames b' ! f) \<and>
    take kMetaSize (pg_data (fr_page (frames b' ! f))) = take kMetaSize (pg_data (fr_page (frames b ! f))) \<and>
    mk_CatalogManager b' = Some (cat', b'') \<and> next_table_id cat' = next_table_id cat \<and>
    (\<forall>nm. getTable cat' nm = getTable cat nm)"
proof -
  obtain b' where b': "saveToDisk iter cat b = Some (Ok, b')" "resident b' f" "fr_dirty (frames b' ! f)"
    "fr_page (frames b' ! f) = (fr_page (frames b ! f))\<lparr>pg_data := overwrite (pg_data (fr_page (frames b ! f))) kMetaSize (catalog_bytes iter cat)\<rparr>"
    using saveToDisk_resident [OF assms] by metis
  let ?d = "pg_data (fr_page (frames b ! f))"
  let ?des = "mk_Deserializer (drop kMetaSize (pg_data (fr_page (frames b' ! f))))"
  have len: "length ?d = kPageSize" using assms(1) by (simp add: resident_def wf_Page_def)
  have "ahead ?des (catalog_bytes iter cat)"
    using len assms(4) b'(4) by (simp add: ahead_def mk_Deserializer_def slice_def overwrite_def min_def)
  note rd = catalog_read_back [OF assms(2,3) this, of 0]
  obtain b'' where b'': "loadFromDisk \<lparr>cat_tables = [], next_table_id = 0\<rparr> b' =
      Some (Ok, \<lparr>cat_tables = iter (cat_tables cat), next_table_id = next_table_id cat\<rparr>, b'')"
    by (rule loadFromDisk_resident [OF b'(2) rd]) auto
  have "take kMetaSize (pg_data (fr_page (frames b' ! f))) = take kMetaSize ?d"
    using len assms(4) b'(4) by (simp add: overwrite_def min_def)
  then show ?thesis
    using b' b'' iter_ok(3) [OF assms(2,3)] by (simp add: mk_CatalogManager_def getTable_def)
qed

text \<open>A catalog with one table, and a pool that holds page 0.\<close>

definition sample_catalog :: CatalogManager where
  "sample_catalog = \<lparr>cat_tables = [([116], mk_TableInfo 0 [116] 1 2 [\<lparr>col_name = [97], col_type = ColInteger\<rparr>])], next_table_id = 1\<rparr>"

definition sample_meta_pool :: BufferPoolManager where
  "sample_meta_pool = (mk_BufferPoolManager 1 one_page_db)\<lparr>
     frames := [default_BufferFrame\<lparr>fr_page_id := 0, fr_valid := True\<rparr>], page_table := [0 \<mapsto> 0]\<rparr>"

lemma sample_meta_pool_resident: "resident sample_meta_pool 0"
  using mk_bpm_ok [OF one_page_db_ok(1), of 1]
  by (simp add: resident_def sample_meta_pool_def bpm_ok_def default_BufferFrame_def mk_BufferPoolManager_def)

lemma sample_catalog_ok:
  "cat_ok sample_catalog" "permutes_tables id" "kMetaSize + length (catalog_bytes id sample_catalog) \<le> kPageSize"
  by (simp_all add: cat_ok_def sample_catalog_def small_def ok_TableInfo_def mk_TableInfo_def ok_Schema_def ok_Column_def ok_type_def
      permutes_tables_def catalog_bytes_def TableInfo_bytes_def Schema_bytes_def Column_bytes_def string_bytes_def kMetaSize_def page_consts)

theorem catalog_save_load_witness:
  "\<exists>b' cat' b''. saveToDisk id sample_catalog sample_meta_pool = Some (Ok, b') \<and> mk_CatalogManager b' = Some (cat', b'') \<and>
     getTable cat' [116] = (Ok, Some (mk_TableInfo 0 [116] 1 2 [\<lparr>col_name = [97], col_type = ColInteger\<rparr>]))"
proof -
  have "getTable sample_catalog [116] = (Ok, Some (mk_TableInfo 0 [116] 1 2 [\<lparr>col_name = [97], col_type = ColInteger\<rparr>]))"
    by (simp add: getTable_def sample_catalog_def)
  with catalog_save_load [OF sample_meta_pool_resident sample_catalog_ok] show ?thesis by auto
qed

text \<open>
  \<open>createTable\<close> and \<open>dropTable\<close> as updates of the map of tables, on every branch: a name that exists (does not
  exist) is refused without any change; otherwise either a page could not be allocated and the catalog is as
  before, or the table is registered under the next id with the pages allocated for it and no other table
  changes.  The status of the final save is returned, and a failing save does not undo the change in memory.
\<close>

theorem catalog_updates:
  "(\<forall>st out cat' b'. createTable iter cat b nm sch = Some (st, out, cat', b') \<longrightarrow>
      (if fst (getTable cat nm) = Ok then st = AlreadyExists \<and> out = None \<and> cat' = cat \<and> b' = b
       else st \<noteq> Ok \<and> out = None \<and> cat' = cat \<or>
         (\<exists>info. out = Some info \<and> ti_table_id info = next_table_id cat \<and> ti_table_name info = nm \<and> ti_schema info = sch \<and>
           next_table_id cat' = next_table_id cat + 1 \<and> getTable cat' = (getTable cat)(nm := (Ok, Some info))))) \<and>
   (\<forall>st cat' b'. dropTable iter cat b nm = Some (st, cat', b') \<longrightarrow>
      (if fst (getTable cat nm) = Ok then getTable cat' = (getTable cat)(nm := (NotFound, None)) \<and> next_table_id cat' = next_table_id cat
       else st = NotFound \<and> cat' = cat \<and> b' = b))"
proof (intro conjI allI impI)
  fix st out cat' b'
  assume *: "createTable iter cat b nm sch = Some (st, out, cat', b')"
  show "if fst (getTable cat nm) = Ok then st = AlreadyExists \<and> out = None \<and> cat' = cat \<and> b' = b
       else st \<noteq> Ok \<and> out = None \<and> cat' = cat \<or>
         (\<exists>info. out = Some info \<and> ti_table_id info = next_table_id cat \<and> ti_table_name info = nm \<and> ti_schema info = sch \<and>
           next_table_id cat' = next_table_id cat + 1 \<and> getTable cat' = (getTable cat)(nm := (Ok, Some info)))"
    using * unfolding createTable_def Let_def
    by (auto simp: getTable_def [abs_def] update_conv' mk_TableInfo_def bind_eq_Some_conv fun_eq_iff split: if_splits option.splits)
next
  fix st cat' b'
  assume "dropTable iter cat b nm = Some (st, cat', b')"
  then show "if fst (getTable cat nm) = Ok then getTable cat' = (getTable cat)(nm := (NotFound, None)) \<and> next_table_id cat' = next_table_id cat
       else st = NotFound \<and> cat' = cat \<and> b' = b"
    by (auto simp: dropTable_def getTable_def delete_conv' fun_eq_iff Let_def split: if_splits option.splits)
qed

theorem catalog_updates_witness:
  "\<exists>b' cat'. dropTable id sample_catalog sample_meta_pool [116] = Some (Ok, cat', b') \<and> getTable cat' [116] = (NotFound, None)"
proof -
  let ?cat = "sample_catalog\<lparr>cat_tables := AList.delete [116] (cat_tables sample_catalog)\<rparr>"
  have "cat_ok ?cat" "kMetaSize + length (catalog_bytes id ?cat) \<le> kPageSize"
    by (simp_all add: cat_ok_def sample_catalog_def small_def catalog_bytes_def kMetaSize_def page_consts)
  then obtain b' where "saveToDisk id ?cat sample_meta_pool = Some (Ok, b')"
    using saveToDisk_resident [OF sample_meta_pool_resident _ sample_catalog_ok(2)] by metis
  then have "dropTable id sample_catalog sample_meta_pool [116] = Some (Ok, ?cat, b')"
    by (simp add: dropTable_def) (simp add: sample_catalog_def)
  moreover have "fst (getTable sample_catalog [116]) = Ok" by (simp add: getTable_def sample_catalog_def)
  ultimately show ?thesis using catalog_updates [of id sample_catalog sample_meta_pool "[116]"] by auto
qed

subsection \<open>The page count in the cached copy of page 0\<close>

lemma byte_high_bits: "8 \<le> k \<Longrightarrow> \<not> bit (a :: byte) k"
  by (auto dest: bit_imp_le_length)

lemma u16_bytes_back:
  assumes "length xs = 2"
  shows "bytes_of_u16 (u16_of_bytes xs) = xs"
proof -
  obtain a b where xs: "xs = [a, b]"
    using assms by (auto simp: numeral_eq_Suc length_Suc_conv)
  show ?thesis
    by (auto simp: xs bytes_of_u16_def u16_of_bytes_def ucast_and_255 bit_simps byte_high_bits intro!: bit_word_eqI)
qed

lemma u32_bytes_back:
  assumes "length xs = 4"
  shows "bytes_of_u32 (u32_of_bytes xs) = xs"
proof -
  obtain a b c d where xs: "xs = [a, b, c, d]"
    using assms by (auto simp: numeral_eq_Suc length_Suc_conv)
  show ?thesis
    by (auto simp: xs bytes_of_u32_def u32_of_bytes_def ucast_and_255 bit_simps byte_high_bits intro!: bit_word_eqI)
qed

lemma u64_bytes_back:
  assumes "length xs = 8"
  shows "bytes_of_u64 (u64_of_bytes xs) = xs"
proof -
  obtain a b c d e f g h where xs: "xs = [a, b, c, d, e, f, g, h]"
    using assms by (auto simp: numeral_eq_Suc length_Suc_conv)
  show ?thesis
    by (auto simp: xs bytes_of_u64_def u64_of_bytes_def ucast_and_255 bit_simps byte_high_bits intro!: bit_word_eqI)
qed

lemma slice_1: "k < length xs \<Longrightarrow> [slice xs k 1 ! 0] = slice xs k 1"
  by (simp add: slice_def take_Suc hd_drop_conv_nth)

lemma hdr_bytes_back:
  assumes "21 \<le> length bs"
  shows "hdr_bytes (dec_hdr bs) = take 21 bs"
proof -
  have "slice bs 0 8 @ slice bs 8 4 @ slice bs 12 1 @ slice bs 13 2 @ slice bs 15 2 @ slice bs 17 4 = take 21 bs"
    by (simp add: slice_def take_add [of 17 4 bs, simplified] take_add [of 15 2 bs, simplified] take_add [of 13 2 bs, simplified]
        take_add [of 12 1 bs, simplified] take_add [of 8 4 bs, simplified])
  then show ?thesis using assms slice_1 [of 12 bs]
    by (simp add: hdr_bytes_def dec_hdr_def u16_bytes_back u32_bytes_back u64_bytes_back)
qed

lemma flushed_back: "wf_Page pg \<Longrightarrow> pg_header pg = dec_hdr (pg_data pg) \<Longrightarrow> flushed pg = pg"
  by (simp add: flushed_def hdr_bytes_back wf_Page_def page_consts overwrite_def)

text \<open>
  The page count in a database's metadata is lost when page 0 is written back from the pool: \<open>allocatePage\<close> updates the count on disk only,
  while the catalog keeps, and dirties, the copy of page 0 it read earlier.  Flushing that copy, closing and
  reopening the database restores the count the copy was read with, and every page allocated since
  (the heap and index pages of new tables) is refused as out of range.
\<close>

theorem stale_page_count:
  assumes "resident b f" "fr_valid (frames b ! f)" "fr_dirty (frames b ! f)" "dm_ok (bpm_disk b)"
    and "fr_page (frames b ! f) = \<lparr>pg_data = bs, pg_header = dec_hdr bs\<rparr>" "m = DatabaseMetadata_deserialize (slice bs 0 kMetaSize)"
    and "hasMagic m" "hasValidVersion m" "0 < unat (meta_page_count m)" "unat (meta_page_count m) \<le> unat i" "unat i < dm_page_count (bpm_disk b)"
  shows "\<exists>b' d. flushPage b 0 = (Ok, b') \<and> openDatabase (snd (closeDatabase (bpm_disk b'))) = (Ok, d) \<and>
    dm_page_count d = unat (meta_page_count m) \<and> readPage d i pg = (InvalidArg, pg, d)"
proof -
  let ?d = "bpm_disk b" and ?pg = "fr_page (frames b ! f)"
  have wf: "wf_Page ?pg" "page_table b 0 = Some f" "f < length (frames b)" using assms(1) by (auto simp: resident_def)
  have D: "dm_is_open ?d" "dm_stream ?d" "dm_good ?d" "dm_faults ?d = []" "0 < dm_page_count ?d" "dm_page_count ?d * kPageSize \<le> length (file_bytes ?d)"
    using assms(4) by (auto simp: dm_ok_def dm_file_ok_def)
  have D6: "kPageSize \<le> length (file_bytes ?d)" using D(5,6) by (cases "dm_page_count ?d") auto
  let ?d1 = "?d\<lparr>dm_file := Some (file_write (file_bytes ?d) 0 bs)\<rparr>"
  have "flushed ?pg = ?pg" using wf(1) assms(5) by (intro flushed_back) simp_all
  then have "writePage ?d 0 ?pg = (Ok, ?pg, ?d1)"
    using D wf(1) assms(5)
    by (simp add: writePage_def write_page_header_eq wf_Page_def flushed_def stream_write_def next_fault_def)
  then have fl: "flushPage b 0 = (Ok, upd_frame f frame_markClean (upd_frame f (\<lambda>x. x\<lparr>fr_page := ?pg\<rparr>) (b\<lparr>bpm_disk := ?d1\<rparr>)))"
    using assms(2,3) wf by (simp add: flushPage_def)
  have len: "length bs = kPageSize" using wf(1) assms(5) by (simp add: wf_Page_def)
  have fb: "file_bytes ?d1 = file_write (file_bytes ?d) 0 bs" "length (file_bytes ?d1) = length (file_bytes ?d)"
    using D6 len by (simp_all add: file_bytes_def length_file_write)
  have sl: "slice (file_bytes ?d1) 0 kMetaSize = slice bs 0 kMetaSize"
    using D6 len unfolding fb by (simp add: file_write_def slice_overwrite_inside kMetaSize_def page_consts)
  let ?n = "unat (meta_page_count m)"
  have n: "?n \<le> dm_page_count ?d" "dm_page_count ?d < 2 ^ 32" using assms(4,10,11) by (auto simp: dm_ok_def dm_file_ok_def)
  have "?n * kPageSize \<le> length (file_bytes ?d)" by (rule order.trans [OF mult_le_mono1 [OF n(1)] D(6)])
  then have ok: "dm_ok (?d1\<lparr>dm_page_count := ?n\<rparr>)"
    using D(1-4) n fb(2) sl assms(6-9)
    by (simp add: dm_ok_def dm_file_ok_def disk_meta_def file_bytes_def)
  have "closeDatabase ?d1 = closeDatabase (?d1\<lparr>dm_page_count := ?n\<rparr>)"
    using D(1-4) by (simp add: closeDatabase_def stream_flush_def)
  then have "openDatabase (snd (closeDatabase ?d1)) = (Ok, ?d1\<lparr>dm_page_count := ?n\<rparr>)" using reopen [OF ok] by simp
  moreover have "readPage (?d1\<lparr>dm_page_count := ?n\<rparr>) i pg = (InvalidArg, pg, ?d1\<lparr>dm_page_count := ?n\<rparr>)"
    using assms(10) D(1) by (simp add: readPage_def)
  ultimately show ?thesis using fl by simp
qed

definition sample_metadata :: DatabaseMetadata where
  "sample_metadata = \<lparr>magic = kDbMagic, version = kFormatVersion, reserved0 = 0, page_size = 4096, meta_page_count = 1,
     free_page_ptr = kInvalidPageId, reserved1 = 0, uuid = replicate 16 0, created_at = 0, reserved2 = 0\<rparr>"

definition sample_page0 :: "byte list" where
  "sample_page0 = DatabaseMetadata_bytes sample_metadata @ replicate 4032 0"

definition sample_stale_pool :: BufferPoolManager where
  "sample_stale_pool = sample_meta_pool\<lparr>frames := [default_BufferFrame\<lparr>fr_page_id := 0, fr_valid := True, fr_dirty := True,
     fr_page := \<lparr>pg_data = sample_page0, pg_header = dec_hdr sample_page0\<rparr>\<rparr>]\<rparr>"

theorem stale_page_count_witness:
  "\<exists>b' d. flushPage sample_stale_pool 0 = (Ok, b') \<and> openDatabase (snd (closeDatabase (bpm_disk b'))) = (Ok, d) \<and>
    dm_page_count d = 1 \<and> readPage d 1 default_Page = (InvalidArg, default_Page, d)"
proof -
  have wf: "wf_Metadata sample_metadata" by (simp add: wf_Metadata_def sample_metadata_def kDbMagic_def)
  then have len: "length sample_page0 = kPageSize" by (simp add: sample_page0_def kMetaSize_def page_consts)
  have "slice sample_page0 0 kMetaSize = DatabaseMetadata_bytes sample_metadata"
    using wf by (simp add: sample_page0_def slice_append_left)
  then have m: "DatabaseMetadata_deserialize (slice sample_page0 0 kMetaSize) = sample_metadata" by (simp add: Metadata_roundtrip wf)
  have disk: "bpm_disk sample_stale_pool = one_page_db" by (simp add: sample_stale_pool_def sample_meta_pool_def mk_BufferPoolManager_def)
  have "dm_pages one_page_db 1 \<noteq> None" using sample_pool_ok(2) by (simp add: sample_pool_def mk_BufferPoolManager_def)
  then have cnt: "unat (1 :: PageId) < dm_page_count one_page_db" by (auto simp: dm_pages_def data_page_def split: if_splits)
  have res: "resident sample_stale_pool 0"
    using sample_meta_pool_resident len by (simp add: resident_def sample_stale_pool_def sample_meta_pool_def wf_Page_def default_BufferFrame_def)
  show ?thesis
    using stale_page_count [OF res, of sample_page0 sample_metadata 1 default_Page] m disk cnt one_page_db_ok(1)
    by (simp add: sample_stale_pool_def default_BufferFrame_def) (simp add: sample_metadata_def hasMagic_def hasValidVersion_def)
qed

end
