(* ===== verification/Values.thy ===== *)
theory Values
  imports Prelude "HOL-Library.Signed_Division"
begin

text \<open>
  SQL values: \<^verbatim>\<open>include/executor/value.hpp\<close> and \<^verbatim>\<open>src/executor/value.cpp\<close>.

  A \<open>Value\<close> is a variant of nothing, a 32-bit integer, a boolean or a string (its bytes).  An
  exception is the left summand of the result.  Integer arithmetic is done on \<open>int\<close>; where the
  C++ operator overflows, its behaviour is undefined, and the result is \<open>SignedOverflow\<close>; the other undefined
  behaviours (a null pointer or a dangling reference followed, an index out of range) are \<open>UndefinedBehaviour\<close>.
\<close>

datatype TypeId = TypeNull | TypeInteger | TypeBoolean | TypeVarchar

datatype Value = VNull | VInt int | VBool bool | VStr "byte list"

datatype exn = RuntimeError string | InvalidArgument string | BadVariantAccess | OutOfRange | UndefinedBehaviour | SignedOverflow

text \<open>These two are no exceptions: nothing catches them.\<close>

definition no_exception :: "exn \<Rightarrow> bool" where
  "no_exception x = (case x of UndefinedBehaviour \<Rightarrow> True | SignedOverflow \<Rightarrow> True | _ \<Rightarrow> False)"

lemma no_exception_simps [simp]: "no_exception UndefinedBehaviour" "no_exception SignedOverflow" "\<not> no_exception (RuntimeError s)"
  "\<not> no_exception (InvalidArgument s)" "\<not> no_exception BadVariantAccess" "\<not> no_exception OutOfRange"
  by (simp_all add: no_exception_def)

definition getType :: "Value \<Rightarrow> TypeId" where
  "getType v = (case v of VInt _ \<Rightarrow> TypeInteger | VBool _ \<Rightarrow> TypeBoolean | VStr _ \<Rightarrow> TypeVarchar | VNull \<Rightarrow> TypeNull)"

definition isNull :: "Value \<Rightarrow> bool" where
  "isNull v = (getType v = TypeNull)"

definition getAsInteger :: "Value \<Rightarrow> exn + int" where
  "getAsInteger v = (case v of VInt i \<Rightarrow> Inr i | _ \<Rightarrow> Inl BadVariantAccess)"

definition getAsBoolean :: "Value \<Rightarrow> exn + bool" where
  "getAsBoolean v = (case v of VBool b \<Rightarrow> Inr b | _ \<Rightarrow> Inl BadVariantAccess)"

definition getAsVarchar :: "Value \<Rightarrow> exn + byte list" where
  "getAsVarchar v = (case v of VStr s \<Rightarrow> Inr s | _ \<Rightarrow> Inl BadVariantAccess)"

text \<open>Continuing after a computation that may throw.\<close>

definition try_bind :: "'e + 'a \<Rightarrow> ('a \<Rightarrow> 'e + 'b) \<Rightarrow> 'e + 'b" where
  "try_bind r k = (case r of Inl e \<Rightarrow> Inl e | Inr x \<Rightarrow> k x)"

lemma try_bind_simps [simp]: "try_bind (Inl e) k = Inl e" "try_bind (Inr x) k = k x"
  by (simp_all add: try_bind_def)

lemma try_bind_Inr: "try_bind r k = Inr y \<longleftrightarrow> (\<exists>x. r = Inr x \<and> k x = Inr y)"
  by (cases r) auto

definition int32 :: "int \<Rightarrow> bool" where
  "int32 i = (- (2 ^ 31) \<le> i \<and> i < 2 ^ 31)"

definition checked :: "int \<Rightarrow> exn + Value" where
  "checked i = (if int32 i then Inr (VInt i) else Inl SignedOverflow)"

definition value_add :: "Value \<Rightarrow> Value \<Rightarrow> exn + Value" where
  "value_add a b = (if isNull a \<or> isNull b then Inr VNull
     else if getType a = TypeInteger \<and> getType b = TypeInteger then
       try_bind (getAsInteger a) (\<lambda>x. try_bind (getAsInteger b) (\<lambda>y. checked (x + y)))
     else Inl (RuntimeError ''Unsupported type for addition''))"

definition value_subtract :: "Value \<Rightarrow> Value \<Rightarrow> exn + Value" where
  "value_subtract a b = (if isNull a \<or> isNull b then Inr VNull
     else if getType a = TypeInteger \<and> getType b = TypeInteger then
       try_bind (getAsInteger a) (\<lambda>x. try_bind (getAsInteger b) (\<lambda>y. checked (x - y)))
     else Inl (RuntimeError ''Unsupported type for subtraction''))"

definition value_multiply :: "Value \<Rightarrow> Value \<Rightarrow> exn + Value" where
  "value_multiply a b = (if isNull a \<or> isNull b then Inr VNull
     else if getType a = TypeInteger \<and> getType b = TypeInteger then
       try_bind (getAsInteger a) (\<lambda>x. try_bind (getAsInteger b) (\<lambda>y. checked (x * y)))
     else Inl (RuntimeError ''Unsupported type for multiplication''))"

text \<open>C++ division truncates towards zero; the quotient of the least integer by -1 overflows, and so does the remainder.\<close>

definition value_divide :: "Value \<Rightarrow> Value \<Rightarrow> exn + Value" where
  "value_divide a b = (if isNull a \<or> isNull b then Inr VNull
     else if getType a = TypeInteger \<and> getType b = TypeInteger then
       try_bind (getAsInteger b) (\<lambda>denom.
         if denom = 0 then Inl (RuntimeError ''Division by zero'')
         else try_bind (getAsInteger a) (\<lambda>x. checked (x sdiv denom)))
     else Inl (RuntimeError ''Unsupported type for division''))"

definition value_modulo :: "Value \<Rightarrow> Value \<Rightarrow> exn + Value" where
  "value_modulo a b = (if isNull a \<or> isNull b then Inr VNull
     else if getType a = TypeInteger \<and> getType b = TypeInteger then
       try_bind (getAsInteger b) (\<lambda>denom.
         if denom = 0 then Inl (RuntimeError ''Modulo by zero'')
         else try_bind (getAsInteger a) (\<lambda>x.
           if int32 (x sdiv denom) then checked (x smod denom) else Inl SignedOverflow))
     else Inl (RuntimeError ''Unsupported type for modulo''))"

text \<open>\<open>std::string\<close> compares byte by byte as unsigned characters, a proper prefix first.\<close>

fun bytes_less :: "byte list \<Rightarrow> byte list \<Rightarrow> bool" where
  "bytes_less [] [] = False"
| "bytes_less [] (y # ys) = True"
| "bytes_less (x # xs) [] = False"
| "bytes_less (x # xs) (y # ys) = (x < y \<or> x = y \<and> bytes_less xs ys)"

text \<open>The operator \<open><\<close> of the variant, on two values of one type.\<close>

fun variant_less :: "Value \<Rightarrow> Value \<Rightarrow> bool" where
  "variant_less (VInt a) (VInt b) = (a < b)"
| "variant_less (VBool a) (VBool b) = (\<not> a \<and> b)"
| "variant_less (VStr a) (VStr b) = bytes_less a b"
| "variant_less _ _ = False"

definition compareEquals :: "Value \<Rightarrow> Value \<Rightarrow> exn + Value" where
  "compareEquals a b = (if isNull a \<or> isNull b then Inr VNull
     else if getType a \<noteq> getType b then Inr (VBool False) else Inr (VBool (a = b)))"

definition compareNotEquals :: "Value \<Rightarrow> Value \<Rightarrow> exn + Value" where
  "compareNotEquals a b = (if isNull a \<or> isNull b then Inr VNull
     else if getType a \<noteq> getType b then Inr (VBool True) else Inr (VBool (a \<noteq> b)))"

definition type_mismatch :: exn where "type_mismatch = RuntimeError ''Type mismatch in comparison''"

definition compareLessThan :: "Value \<Rightarrow> Value \<Rightarrow> exn + Value" where
  "compareLessThan a b = (if isNull a \<or> isNull b then Inr VNull
     else if getType a \<noteq> getType b then Inl type_mismatch else Inr (VBool (variant_less a b)))"

definition compareLessThanEquals :: "Value \<Rightarrow> Value \<Rightarrow> exn + Value" where
  "compareLessThanEquals a b = (if isNull a \<or> isNull b then Inr VNull
     else if getType a \<noteq> getType b then Inl type_mismatch else Inr (VBool (\<not> variant_less b a)))"

definition compareGreaterThan :: "Value \<Rightarrow> Value \<Rightarrow> exn + Value" where
  "compareGreaterThan a b = (if isNull a \<or> isNull b then Inr VNull
     else if getType a \<noteq> getType b then Inl type_mismatch else Inr (VBool (variant_less b a)))"

definition compareGreaterThanEquals :: "Value \<Rightarrow> Value \<Rightarrow> exn + Value" where
  "compareGreaterThanEquals a b = (if isNull a \<or> isNull b then Inr VNull
     else if getType a \<noteq> getType b then Inl type_mismatch else Inr (VBool (\<not> variant_less a b)))"

lemmas value_simps = getType_def isNull_def getAsInteger_def getAsBoolean_def getAsVarchar_def

subsection \<open>Ranges\<close>

definition value_wf :: "Value \<Rightarrow> bool" where
  "value_wf v = (case v of VInt i \<Rightarrow> int32 i | VStr s \<Rightarrow> length s < 2 ^ 32 | _ \<Rightarrow> True)"

lemma checked_wf: "checked i = Inr v \<Longrightarrow> v = VInt i \<and> int32 i"
  by (simp add: checked_def split: if_splits)

lemmas arithmetic_defs = value_add_def value_subtract_def value_multiply_def value_divide_def value_modulo_def

lemmas comparison_defs = compareEquals_def compareNotEquals_def compareLessThan_def compareLessThanEquals_def
  compareGreaterThan_def compareGreaterThanEquals_def

lemma arithmetic_type:
  assumes "f \<in> {value_add, value_subtract, value_multiply, value_divide, value_modulo}" "f a b = Inr v"
  shows "v = VNull \<or> (\<exists>i. v = VInt i \<and> int32 i)"
  using assms by (cases a; cases b) (auto simp: arithmetic_defs value_simps dest!: checked_wf split: if_splits)

lemma comparison_type:
  assumes "f \<in> {compareEquals, compareNotEquals, compareLessThan, compareLessThanEquals, compareGreaterThan, compareGreaterThanEquals}"
    "f a b = Inr v"
  shows "v = VNull \<or> (\<exists>c. v = VBool c)"
  using assms by (auto simp: comparison_defs split: if_splits)

lemma sdiv_abs: "\<bar>(a :: int) sdiv b\<bar> = \<bar>a\<bar> div \<bar>b\<bar> \<or> a sdiv b = 0"
proof -
  have "0 \<le> \<bar>a\<bar> div \<bar>b\<bar>" by (cases "b = 0") (simp_all add: pos_imp_zdiv_nonneg_iff)
  then show ?thesis unfolding signed_divide_int_def abs_mult by (auto simp: sgn_if)
qed

lemma sdiv_le_abs: "\<bar>(a :: int) sdiv b\<bar> \<le> \<bar>a\<bar>"
proof -
  have "\<bar>a\<bar> div \<bar>b\<bar> \<le> \<bar>a\<bar>"
    by (cases "b = 0") (simp_all add: int_div_less_self div_le_dividend zdiv_mono2 [of "\<bar>a\<bar>" 1 "\<bar>b\<bar>", simplified])
  then show ?thesis using sdiv_abs [of a b] by auto
qed

lemma sdiv_bound:
  assumes "int32 a" "b \<noteq> 0" "\<not> (a = - (2 ^ 31) \<and> b = - 1)"
  shows "int32 (a sdiv b)"
proof (cases "a = - (2 ^ 31)")
  case False
  then show ?thesis using assms(1) sdiv_le_abs [of a b] by (auto simp: int32_def)
next
  case True
  show ?thesis
  proof (cases "b = 1")
    case False
    then have "2 \<le> \<bar>b\<bar>" using assms True by auto
    then have "\<bar>a\<bar> div \<bar>b\<bar> \<le> \<bar>a\<bar> div 2" by (intro zdiv_mono2) auto
    then show ?thesis using sdiv_abs [of a b] True by (auto simp: int32_def)
  qed (use True in \<open>simp add: int32_def\<close>)
qed

lemma smod_bound: "(b :: int) \<noteq> 0 \<Longrightarrow> \<bar>a smod b\<bar> < \<bar>b\<bar>"
  by (auto simp: smod_int_alt_def abs_mult sgn_if)

lemma smod_sign:
  assumes "(b :: int) \<noteq> 0"
  shows "a smod b = 0 \<or> sgn (a smod b) = sgn a"
proof -
  have "0 \<le> \<bar>a\<bar> mod \<bar>b\<bar>" using assms by simp
  then have "sgn (\<bar>a\<bar> mod \<bar>b\<bar>) = 1 \<or> \<bar>a\<bar> mod \<bar>b\<bar> = 0" by (simp only: sgn_if) simp
  then show ?thesis unfolding smod_int_alt_def by (auto simp: sgn_mult)
qed

lemma smod_le_abs: "\<bar>(a :: int) smod b\<bar> \<le> \<bar>a\<bar>"
proof (cases "b = 0")
  case False
  then have "\<bar>\<bar>a\<bar> mod \<bar>b\<bar>\<bar> \<le> \<bar>a\<bar>" by (simp add: zmod_le_nonneg_dividend)
  then show ?thesis by (auto simp: smod_int_alt_def abs_mult sgn_if)
qed (simp add: smod_int_alt_def abs_mult)

lemma bytes_less_irrefl [simp]: "\<not> bytes_less xs xs"
  by (induction xs) auto

lemma bytes_less_linear: "xs = ys \<or> bytes_less xs ys \<or> bytes_less ys xs"
  by (induction xs ys rule: bytes_less.induct) auto

lemma bytes_less_trans: "bytes_less xs ys \<Longrightarrow> bytes_less ys zs \<Longrightarrow> bytes_less xs zs"
proof (induction xs ys arbitrary: zs rule: bytes_less.induct)
  case (4 x xs y ys)
  then show ?case by (cases zs) auto
qed (auto elim: bytes_less.elims)

subsection \<open>Division and remainder\<close>

text \<open>
  C39. Dividing and taking the remainder of 32-bit integers by a non-zero integer agree with each other: unless the
  dividend is the least integer and the divisor -1 (where the operation overflows), both return
  a 32-bit integer, the remainder is smaller than the divisor in absolute value, takes the sign of the dividend,
  and quotient times divisor plus remainder is the dividend.
\<close>

theorem value_div_mod:
  assumes "int32 a" "int32 b" "b \<noteq> 0"
  shows "if a = - (2 ^ 31) \<and> b = - 1
    then value_divide (VInt a) (VInt b) = Inl SignedOverflow \<and> value_modulo (VInt a) (VInt b) = Inl SignedOverflow
    else \<exists>q r. value_divide (VInt a) (VInt b) = Inr (VInt q) \<and> value_modulo (VInt a) (VInt b) = Inr (VInt r) \<and>
      int32 q \<and> int32 r \<and> q * b + r = a \<and> \<bar>r\<bar> < \<bar>b\<bar> \<and> (r = 0 \<or> sgn r = sgn a)"
proof (cases "a = - (2 ^ 31) \<and> b = - 1")
  case False
  have "int32 (a sdiv b)" by (rule sdiv_bound [OF assms(1,3) False])
  moreover have "int32 (a smod b)"
    using assms smod_bound [of b a] by (auto simp: int32_def)
  moreover have "a smod b = 0 \<or> sgn (a smod b) = sgn a"
    by (rule smod_sign [OF assms(3)])
  ultimately show ?thesis
    using False assms smod_bound [OF assms(3), of a] sdiv_mult_smod_eq [of a b]
    by (auto simp: arithmetic_defs value_simps checked_def)
qed (simp add: arithmetic_defs value_simps checked_def int32_def)

theorem value_div_mod_witness:
  "\<exists>q r. value_divide (VInt (- 7)) (VInt 2) = Inr (VInt q) \<and> value_modulo (VInt (- 7)) (VInt 2) = Inr (VInt r) \<and>
      int32 q \<and> int32 r \<and> q * 2 + r = - 7 \<and> \<bar>r\<bar> < 2 \<and> (r = 0 \<or> sgn r = - 1)"
  using value_div_mod [of "- 7" 2] by (simp add: int32_def)

subsection \<open>The types of results\<close>

text \<open>
  Type of the operators: on arguments that are 32-bit integers, booleans, strings or null, an arithmetic operator
  that returns gives null or a 32-bit integer, it is null exactly when an argument is, and a comparison that returns gives null
  or a boolean, again null exactly when an argument is.  It throws only on arguments of other types, on a zero divisor or on overflow.
\<close>

theorem operators_typed:
  "(\<forall>f\<in>{value_add, value_subtract, value_multiply, value_divide, value_modulo}. \<forall>v. f a b = Inr v \<longrightarrow>
      (if isNull a \<or> isNull b then v = VNull else getType v = TypeInteger \<and> value_wf v \<and>
         getType a = TypeInteger \<and> getType b = TypeInteger)) \<and>
   (\<forall>f\<in>{compareEquals, compareNotEquals, compareLessThan, compareLessThanEquals, compareGreaterThan, compareGreaterThanEquals}.
      \<forall>v. f a b = Inr v \<longrightarrow> (if isNull a \<or> isNull b then v = VNull else getType v = TypeBoolean)) \<and>
   (\<forall>f\<in>{compareLessThan, compareLessThanEquals, compareGreaterThan, compareGreaterThanEquals}. \<forall>e. f a b = Inl e \<longrightarrow>
      e = type_mismatch \<and> getType a \<noteq> getType b)"
proof (intro conjI ballI allI impI)
  fix f v assume "f \<in> {value_add, value_subtract, value_multiply, value_divide, value_modulo}" "f a b = Inr v"
  then show "if isNull a \<or> isNull b then v = VNull else getType v = TypeInteger \<and> value_wf v \<and>
         getType a = TypeInteger \<and> getType b = TypeInteger"
    by (cases a; cases b) (auto simp: arithmetic_defs value_simps value_wf_def dest!: checked_wf split: if_splits)
next
  fix f v
  assume "f \<in> {compareEquals, compareNotEquals, compareLessThan, compareLessThanEquals, compareGreaterThan, compareGreaterThanEquals}"
    "f a b = Inr v"
  then show "if isNull a \<or> isNull b then v = VNull else getType v = TypeBoolean"
    by (auto simp: comparison_defs getType_def split: if_splits)
next
  fix f e
  assume "f \<in> {compareLessThan, compareLessThanEquals, compareGreaterThan, compareGreaterThanEquals}" "f a b = Inl e"
  then show "e = type_mismatch" "getType a \<noteq> getType b" by (auto simp: comparison_defs split: if_splits)
qed

theorem operators_typed_witness:
  "value_add (VInt 2) (VInt 3) = Inr (VInt 5) \<and> getType (VInt 5) = TypeInteger \<and> value_wf (VInt 5)"
proof -
  have "value_add (VInt 2) (VInt 3) = Inr (VInt 5)" by (simp add: value_add_def value_simps checked_def int32_def)
  then show ?thesis using operators_typed [of "VInt 2" "VInt 3"] by (simp add: isNull_def getType_def)
qed

subsection \<open>Comparison as an order\<close>

lemma variant_less_irrefl [simp]: "\<not> variant_less v v"
  by (cases v) auto

lemma variant_less_linear: "getType a = getType b \<Longrightarrow> a = b \<or> variant_less a b \<or> variant_less b a"
  using bytes_less_linear by (cases a; cases b) (auto simp: getType_def)

lemma variant_less_trans: "variant_less a b \<Longrightarrow> variant_less b c \<Longrightarrow> variant_less a c"
  by (cases a; cases b; cases c) (auto intro: bytes_less_trans)

lemma variant_less_asym: "variant_less a b \<Longrightarrow> \<not> variant_less b a"
  using variant_less_trans variant_less_irrefl by blast

text \<open>
  On values of one type that are not null the comparisons are those of one linear order: exactly one of less, equal
  and greater is true; less-or-equal is less or equal, greater-or-equal its dual, not-equal the negation of equal; and less is transitive.
\<close>

theorem comparison_linear_order:
  assumes "getType a = getType b" "\<not> isNull a"
  shows "\<exists>l e g. compareLessThan a b = Inr (VBool l) \<and> compareEquals a b = Inr (VBool e) \<and> compareGreaterThan a b = Inr (VBool g) \<and>
      (l \<and> \<not> e \<and> \<not> g \<or> \<not> l \<and> e \<and> \<not> g \<or> \<not> l \<and> \<not> e \<and> g) \<and> (e \<longleftrightarrow> a = b) \<and>
      compareLessThanEquals a b = Inr (VBool (l \<or> e)) \<and> compareGreaterThanEquals a b = Inr (VBool (g \<or> e)) \<and>
      compareNotEquals a b = Inr (VBool (\<not> e)) \<and>
      (l \<longrightarrow> compareLessThan b c = Inr (VBool True) \<longrightarrow> compareLessThan a c = Inr (VBool True))"
proof -
  have "\<not> isNull b" using assms by (simp add: isNull_def)
  moreover have "variant_less a b \<Longrightarrow> \<not> variant_less b a" "variant_less b c \<Longrightarrow> getType b = getType c"
    using variant_less_asym by (blast, (cases b; cases c; simp add: getType_def))
  ultimately show ?thesis
    using assms variant_less_linear [OF assms(1)] variant_less_trans
    by (auto simp: comparison_defs split: if_splits)
qed

theorem comparison_linear_order_witness:
  "compareLessThan (VStr [97]) (VStr [97, 98]) = Inr (VBool True) \<and> compareLessThanEquals (VStr [97]) (VStr [97, 98]) = Inr (VBool True)"
proof -
  have "compareLessThan (VStr [97]) (VStr [97, 98]) = Inr (VBool True)" by (simp add: comparison_defs isNull_def getType_def)
  then show ?thesis
    using comparison_linear_order [of "VStr [97]" "VStr [97, 98]" VNull] by (auto simp: isNull_def getType_def)
qed

end
