(* ===== verification/Expressions.thy ===== *)
theory Expressions
  imports Pages Schemas Values
begin

text \<open>
  Expressions over rows (\<^verbatim>\<open>include/executor/expression.hpp\<close> and its subclasses,
  \<^verbatim>\<open>src/executor/column_value_expression.cpp\<close>) and the encoding of rows the executors
  use.

  A pair of pointers to a tuple and its schema is an option of the pair, and dereferencing a null pointer
  is \<open>UndefinedBehaviour\<close>.  The subclasses are the constructors of \<open>Expression\<close>; the two
  constructors of \<open>LogicalExpression\<close>, which check the number of children, are
  \<open>ELogic\<close> and \<open>ENot\<close>.  An \<open>Expression\<close> stands for what a \<open>unique_ptr\<close> holds, so there is one more
  constructor, \<open>ENullPtr\<close>, for the null pointer.  \<open>clone\<close> is a deep copy, which a value is anyway.
\<close>

datatype TupleSource = SourceLeft | SourceRight

datatype ArithmeticType = Add | Subtract | Multiply | Divide | Modulo

datatype ComparisonType = Equal | NotEqual | LessThan | LessThanOrEqual | GreaterThan | GreaterThanOrEqual

datatype LogicalType = LogicalAnd | LogicalOr

datatype Expression =
    EConst Value
  | EColumn nat "TupleSource option"
  | EParam nat Value bool
  | EArith ArithmeticType Expression Expression
  | EComp ComparisonType Expression Expression
  | ELogic LogicalType Expression Expression
  | ENot Expression
  | ENullPtr

subsection \<open>Columns\<close>

definition deser_failed :: exn where "deser_failed = RuntimeError ''Deserialization failed''"

definition read_column :: "Column \<Rightarrow> Deserializer \<Rightarrow> exn + Value" where
  "read_column c d = (case col_type c of
     ColInteger \<Rightarrow> (case readInt32 d 0 of (st, v, _) \<Rightarrow> if st \<noteq> Ok then Inl deser_failed else Inr (VInt v))
   | ColBoolean \<Rightarrow> (case readBool d False of (st, v, _) \<Rightarrow> if st \<noteq> Ok then Inl deser_failed else Inr (VBool v))
   | ColVarchar \<Rightarrow> (case readString d [] of (st, v, _) \<Rightarrow> if st \<noteq> Ok then Inl deser_failed else Inr (VStr v))
   | _ \<Rightarrow> Inl (RuntimeError ''Unsupported column type''))"

definition skip_column :: "Column \<Rightarrow> Deserializer \<Rightarrow> exn + Deserializer" where
  "skip_column c d = (case col_type c of
     ColInteger \<Rightarrow> (case readInt32 d 0 of (st, _, d1) \<Rightarrow> if st \<noteq> Ok then Inl deser_failed else Inr d1)
   | ColBoolean \<Rightarrow> (case readBool d False of (st, _, d1) \<Rightarrow> if st \<noteq> Ok then Inl deser_failed else Inr d1)
   | ColVarchar \<Rightarrow> (case readString d [] of (st, _, d1) \<Rightarrow> if st \<noteq> Ok then Inl deser_failed else Inr d1)
   | ColFloat \<Rightarrow> Inl (RuntimeError ''Float not supported in deserialization skip'')
   | ColOther _ \<Rightarrow> Inr d)"

fun column_loop :: "nat \<Rightarrow> Schema \<Rightarrow> Deserializer \<Rightarrow> exn + Value" where
  "column_loop i [] d = Inl (RuntimeError ''Should not reach here'')"
| "column_loop 0 (c # cs) d = read_column c d"
| "column_loop (Suc i) (c # cs) d = try_bind (skip_column c d) (column_loop i cs)"

definition column_evaluate :: "nat \<Rightarrow> Tuple \<Rightarrow> Schema \<Rightarrow> exn + Value" where
  "column_evaluate i t sch = (if i \<ge> getColumnCount sch then Inl (RuntimeError ''Column index out of bounds'')
     else column_loop i sch (mk_Deserializer t))"

subsection \<open>Evaluation\<close>

type_synonym side = "(Tuple \<times> Schema) option"

text \<open>A \<open>unique_ptr\<close> that the code tests for null.\<close>

definition expr_ptr :: "Expression \<Rightarrow> Expression option" where
  "expr_ptr e = (if e = ENullPtr then None else Some e)"

definition deref_column :: "nat \<Rightarrow> side \<Rightarrow> exn + Value" where
  "deref_column i s = (case s of None \<Rightarrow> Inl UndefinedBehaviour | Some (t, sch) \<Rightarrow> column_evaluate i t sch)"

definition arith_eval :: "ArithmeticType \<Rightarrow> Value \<Rightarrow> Value \<Rightarrow> exn + Value" where
  "arith_eval op a b = (case op of Add \<Rightarrow> value_add a b | Subtract \<Rightarrow> value_subtract a b | Multiply \<Rightarrow> value_multiply a b
     | Divide \<Rightarrow> value_divide a b | Modulo \<Rightarrow> value_modulo a b)"

definition comp_eval :: "ComparisonType \<Rightarrow> Value \<Rightarrow> Value \<Rightarrow> exn + Value" where
  "comp_eval op a b = (case op of Equal \<Rightarrow> compareEquals a b | NotEqual \<Rightarrow> compareNotEquals a b | LessThan \<Rightarrow> compareLessThan a b
     | LessThanOrEqual \<Rightarrow> compareLessThanEquals a b | GreaterThan \<Rightarrow> compareGreaterThan a b
     | GreaterThanOrEqual \<Rightarrow> compareGreaterThanEquals a b)"

text \<open>\<open>&&\<close> and \<open>||\<close> do not evaluate their right operand when the left one decides.\<close>

definition logic_eval :: "LogicalType \<Rightarrow> Value \<Rightarrow> Value \<Rightarrow> exn + Value" where
  "logic_eval op a b = (if isNull a \<or> isNull b then Inr VNull
     else try_bind (getAsBoolean a) (\<lambda>x. case op of
       LogicalAnd \<Rightarrow> if \<not> x then Inr (VBool False) else try_bind (getAsBoolean b) (\<lambda>y. Inr (VBool y))
     | LogicalOr \<Rightarrow> if x then Inr (VBool True) else try_bind (getAsBoolean b) (\<lambda>y. Inr (VBool y))))"

definition not_eval :: "Value \<Rightarrow> exn + Value" where
  "not_eval v = (if isNull v then Inr VNull else try_bind (getAsBoolean v) (\<lambda>x. Inr (VBool (\<not> x))))"

definition param_eval :: "Value \<Rightarrow> bool \<Rightarrow> exn + Value" where
  "param_eval v bound = (if \<not> bound then Inl (RuntimeError ''Parameter value not bound'') else Inr v)"

fun evaluateJoin :: "Expression \<Rightarrow> side \<Rightarrow> side \<Rightarrow> exn + Value" where
  "evaluateJoin (EConst v) l r = (if l = None \<and> r = None then Inl UndefinedBehaviour else Inr v)"
| "evaluateJoin (EParam i v bound) l r = (if l = None \<and> r = None then Inl UndefinedBehaviour else param_eval v bound)"
| "evaluateJoin (EColumn i src) l r = (case src of
     Some SourceLeft \<Rightarrow> deref_column i l
   | Some SourceRight \<Rightarrow> deref_column i r
   | None \<Rightarrow> deref_column i (if l \<noteq> None then l else r))"
| "evaluateJoin (EArith op a b) l r = try_bind (evaluateJoin a l r) (\<lambda>x. try_bind (evaluateJoin b l r) (\<lambda>y. arith_eval op x y))"
| "evaluateJoin (EComp op a b) l r = try_bind (evaluateJoin a l r) (\<lambda>x. try_bind (evaluateJoin b l r) (\<lambda>y. comp_eval op x y))"
| "evaluateJoin (ELogic op a b) l r = try_bind (evaluateJoin a l r) (\<lambda>x. try_bind (evaluateJoin b l r) (\<lambda>y. logic_eval op x y))"
| "evaluateJoin (ENot a) l r = try_bind (evaluateJoin a l r) not_eval"
| "evaluateJoin ENullPtr l r = Inl UndefinedBehaviour"

definition evaluate :: "Expression \<Rightarrow> Tuple \<Rightarrow> Schema \<Rightarrow> exn + Value" where
  "evaluate e t sch = (case e of
     EConst v \<Rightarrow> Inr v
   | EColumn i _ \<Rightarrow> column_evaluate i t sch
   | EParam _ v bound \<Rightarrow> param_eval v bound
   | _ \<Rightarrow> evaluateJoin e (Some (t, sch)) None)"

fun bindParameters :: "Value list \<Rightarrow> Expression \<Rightarrow> Expression" where
  "bindParameters ps (EParam i v bound) = (if i < length ps then EParam i (ps ! i) True else EParam i v bound)"
| "bindParameters ps (EArith op a b) = EArith op (bindParameters ps a) (bindParameters ps b)"
| "bindParameters ps (EComp op a b) = EComp op (bindParameters ps a) (bindParameters ps b)"
| "bindParameters ps (ELogic op a b) = ELogic op (bindParameters ps a) (bindParameters ps b)"
| "bindParameters ps (ENot a) = ENot (bindParameters ps a)"
| "bindParameters ps (EConst v) = EConst v"
| "bindParameters ps ENullPtr = ENullPtr"
| "bindParameters ps (EColumn i src) = EColumn i src"

subsection \<open>Rows\<close>

text \<open>
  Building a row (\<open>ProjectionExecutor::next\<close> and the other executors): the values are written one after the other
  into a buffer of 1024 bytes, and the status of each write is ignored.  A \<open>Float\<close> column writes nothing.
\<close>

definition write_column :: "Column \<Rightarrow> Value \<Rightarrow> Serializer \<Rightarrow> exn + Serializer" where
  "write_column c v s = (case col_type c of
     ColInteger \<Rightarrow> try_bind (getAsInteger v) (\<lambda>i. Inr (snd (writeInt32 s i)))
   | ColBoolean \<Rightarrow> try_bind (getAsBoolean v) (\<lambda>x. Inr (snd (writeBool s x)))
   | ColVarchar \<Rightarrow> try_bind (getAsVarchar v) (\<lambda>x. Inr (snd (writeString s x)))
   | _ \<Rightarrow> Inr s)"

fun write_row :: "Schema \<Rightarrow> Value list \<Rightarrow> Serializer \<Rightarrow> exn + Serializer" where
  "write_row cs [] s = Inr s"
| "write_row [] (v # vs) s = Inl OutOfRange"
| "write_row (c # cs) (v # vs) s = try_bind (write_column c v s) (write_row cs vs)"

definition row_buffer :: Serializer where
  "row_buffer = mk_Serializer (replicate 1024 0)"

definition row_of :: "Serializer \<Rightarrow> Tuple" where
  "row_of s = take (ser_position s) (ser_buffer s)"

definition build_row :: "Schema \<Rightarrow> Value list \<Rightarrow> exn + Tuple" where
  "build_row sch vs = try_bind (write_row sch vs row_buffer) (\<lambda>s. Inr (row_of s))"

subsection \<open>Reading a row back\<close>

definition value_fits :: "Column \<Rightarrow> Value \<Rightarrow> bool" where
  "value_fits c v = (case (col_type c, v) of (ColInteger, VInt i) \<Rightarrow> int32 i | (ColBoolean, VBool _) \<Rightarrow> True
     | (ColVarchar, VStr s) \<Rightarrow> small s | _ \<Rightarrow> False)"

definition value_bytes :: "Value \<Rightarrow> byte list" where
  "value_bytes v = (case v of VInt i \<Rightarrow> bytes_of_u32 (word_of_int i) | VBool x \<Rightarrow> [if x then 1 else 0] | VStr s \<Rightarrow> string_bytes s | VNull \<Rightarrow> [])"

definition row_bytes :: "Value list \<Rightarrow> byte list" where
  "row_bytes vs = concat (map value_bytes vs)"

text \<open>The tuple holds the values, in the types of the schema.\<close>

definition encodes :: "Schema \<Rightarrow> Value list \<Rightarrow> Tuple \<Rightarrow> bool" where
  "encodes sch vs t = (list_all2 value_fits sch vs \<and> t = row_bytes vs)"

lemma row_bytes_simps [simp]: "row_bytes [] = []" "row_bytes (v # vs) = value_bytes v @ row_bytes vs"
    "row_bytes (vs @ ws) = row_bytes vs @ row_bytes ws"
  by (simp_all add: row_bytes_def)

lemma encodes_append: "encodes s1 v1 t1 \<Longrightarrow> encodes s2 v2 t2 \<Longrightarrow> encodes (s1 @ s2) (v1 @ v2) (t1 @ t2)"
  by (auto simp: encodes_def list_all2_appendI)

lemma value_fits_cases:
  assumes "value_fits c v"
  obtains (int) i where "col_type c = ColInteger" "v = VInt i" "int32 i"
  | (bool) x where "col_type c = ColBoolean" "v = VBool x"
  | (str) s where "col_type c = ColVarchar" "v = VStr s" "small s"
  using assms by (auto simp: value_fits_def split: prod.splits ColumnType.splits Value.splits)

lemma sint_word_of_int: "int32 i \<Longrightarrow> sint (word_of_int i :: u32) = i"
  by (auto simp: int32_def signed_of_int signed_take_bit_int_eq_self)

lemma read_column_back:
  assumes "value_fits c v" "ahead d (value_bytes v)"
  shows "read_column c d = Inr v \<and> skip_column c d = Inr (des_skip d (length (value_bytes v)))"
  using assms(1)
proof (cases rule: value_fits_cases)
  case (int i)
  then have "readUInt32 d 0 = (Ok, word_of_int i, des_skip d 4)" using assms(2) by (simp add: value_bytes_def read_ahead)
  with int show ?thesis by (simp add: read_column_def skip_column_def readInt32_def value_bytes_def sint_word_of_int)
next
  case (bool x)
  then have "readUInt8 d 0 = (Ok, if x then 1 else 0, des_skip d (Suc 0))"
    using assms(2) read_ahead(2) [of d "if x then 1 else 0"] by (simp add: value_bytes_def)
  with bool show ?thesis by (simp add: read_column_def skip_column_def readBool_def value_bytes_def)
next
  case (str s)
  then have "readString d [] = (Ok, s, des_skip d (length (string_bytes s)))"
    using assms(2) by (intro readString_ahead) (simp_all add: value_bytes_def)
  with str show ?thesis by (simp add: read_column_def skip_column_def value_bytes_def)
qed

lemma column_loop_back:
  assumes "list_all2 value_fits sch vs" "ahead d (row_bytes vs)" "i < length vs"
  shows "column_loop i sch d = Inr (vs ! i)"
  using assms
proof (induction i sch d arbitrary: vs rule: column_loop.induct)
  case (2 c cs d)
  then obtain v ws where vs: "vs = v # ws" "value_fits c v" by (auto simp: list_all2_Cons1)
  then show ?case using 2 read_column_back [of c v d] ahead_append(1) [of d "value_bytes v"] by auto
next
  case (3 i c cs d)
  then obtain v ws where vs: "vs = v # ws" "value_fits c v" "list_all2 value_fits cs ws" by (auto simp: list_all2_Cons1)
  then have "skip_column c d = Inr (des_skip d (length (value_bytes v)))" "ahead (des_skip d (length (value_bytes v))) (row_bytes ws)"
    using 3 read_column_back [of c v d] ahead_append [of d "value_bytes v"] by auto
  then show ?case using 3 vs by simp
qed simp

lemma column_evaluate_encodes:
  assumes "encodes sch vs t" "i < length vs"
  shows "column_evaluate i t sch = Inr (vs ! i)"
proof -
  have "length sch = length vs" using assms(1) by (auto simp: encodes_def dest: list_all2_lengthD)
  moreover have "ahead (mk_Deserializer t) (row_bytes vs)"
    using assms(1) by (simp add: encodes_def ahead_def mk_Deserializer_def)
  ultimately show ?thesis
    using assms column_loop_back [of sch vs "mk_Deserializer t" i] by (simp add: column_evaluate_def encodes_def getColumnCount_def)
qed

lemma write_column_put:
  assumes "value_fits c v" "ser_cursor s + length (value_bytes v) \<le> length (ser_buffer s)"
  shows "write_column c v s = Inr (ser_put s (value_bytes v))"
  using assms(1)
proof (cases rule: value_fits_cases)
  case (str x)
  have "ser_wf s" using assms(2) by (simp add: ser_wf_def)
  then have "writeString s x = (Ok, ser_put s (string_bytes x))" using str assms(2) strc.write_iff by (simp add: value_bytes_def)
  with str show ?thesis by (simp add: write_column_def getAsVarchar_def value_bytes_def)
qed (use assms(2) in \<open>simp_all add: write_column_def value_simps value_bytes_def write_defs writeRaw_put\<close>)

lemma write_row_put:
  assumes "list_all2 value_fits sch vs" "ser_cursor s + length (row_bytes vs) \<le> length (ser_buffer s)"
  shows "write_row sch vs s = Inr (ser_put s (row_bytes vs))"
  using assms
proof (induction sch vs s rule: write_row.induct)
  case (3 c cs v vs s)
  then have "write_column c v s = Inr (ser_put s (value_bytes v))" by (intro write_column_put) auto
  with 3 show ?case by (simp add: ser_put_append add.assoc)
qed simp_all

lemma build_row_encodes:
  assumes "list_all2 value_fits sch vs" "length (row_bytes vs) \<le> 1024"
  shows "build_row sch vs = Inr (row_bytes vs)" "encodes sch vs (row_bytes vs)"
proof -
  have "write_row sch vs row_buffer = Inr (ser_put row_buffer (row_bytes vs))"
    by (rule write_row_put [OF assms(1)]) (use assms(2) in \<open>simp add: row_buffer_def mk_Serializer_def\<close>)
  then show "build_row sch vs = Inr (row_bytes vs)"
    by (simp add: build_row_def row_of_def ser_position_def row_buffer_def ser_put_mk overwrite_def)
  show "encodes sch vs (row_bytes vs)" using assms(1) by (simp add: encodes_def)
qed

subsection \<open>Properties\<close>

text \<open>
  A row is read back column by column: if the values have the types of the schema and their encoding takes at most 1024
  bytes, building the row succeeds and evaluating column \<open>i\<close> on it gives the \<open>i\<close>-th value; an index
  beyond the schema throws.
\<close>

theorem row_roundtrip:
  assumes "list_all2 value_fits sch vs" "length (row_bytes vs) \<le> 1024"
  shows "\<exists>t. build_row sch vs = Inr t \<and>
    (\<forall>i src. evaluate (EColumn i src) t sch =
       (if i < length vs then Inr (vs ! i) else Inl (RuntimeError ''Column index out of bounds'')))"
proof -
  have "length sch = length vs" using assms(1) by (rule list_all2_lengthD)
  then show ?thesis using build_row_encodes [OF assms] column_evaluate_encodes [of sch vs "row_bytes vs"]
    by (auto simp: evaluate_def) (simp add: column_evaluate_def getColumnCount_def)
qed

definition sample_schema :: Schema where
  "sample_schema = [\<lparr>col_name = [97], col_type = ColInteger\<rparr>, \<lparr>col_name = [98], col_type = ColVarchar\<rparr>]"

lemma sample_row_fits: "list_all2 value_fits sample_schema [VInt 7, VStr [104, 105]]" "length (row_bytes [VInt 7, VStr [104, 105]]) \<le> 1024"
  by (simp_all add: sample_schema_def value_fits_def int32_def small_def value_bytes_def string_bytes_def)

theorem row_roundtrip_witness:
  "\<exists>t. build_row sample_schema [VInt 7, VStr [104, 105]] = Inr t \<and> evaluate (EColumn 1 None) t sample_schema = Inr (VStr [104, 105])"
  using row_roundtrip [OF sample_row_fits] by auto

text \<open>
  A value that does not fit in the row buffer is dropped without an error: for a string of more than 1020 bytes in a single
  \<open>Varchar\<close> column, the row is built "successfully" but holds only the length prefix, and reading the column
  throws.
\<close>

lemma row_buffer_size [simp]: "length (ser_buffer row_buffer) = 1024" "ser_cursor row_buffer = 0"
  by (simp_all only: row_buffer_def mk_Serializer_def Serializer.simps length_replicate)

theorem row_overflow:
  assumes "1020 < length s" "small s" "col_type c = ColVarchar"
  shows "\<exists>t. build_row [c] [VStr s] = Inr t \<and> length t = 4 \<and> column_evaluate 0 t [c] = Inl deser_failed"
proof -
  let ?p = "bytes_of_u32 (word_of_nat (length s))" and ?n = "word_of_nat (length s) :: u32"
  have "writeUInt32 row_buffer ?n = (Ok, ser_put row_buffer ?p)" by (simp add: writeUInt32_def writeRaw_put)
  moreover have "writeRaw (ser_put row_buffer ?p) s = (IoError, ser_put row_buffer ?p)"
    using assms(1) by (simp add: writeRaw_def)
  ultimately have "writeString row_buffer s = (IoError, ser_put row_buffer ?p)"
    using assms(1,2) by (auto simp: writeString_def small_def and_then_def)
  then have b: "build_row [c] [VStr s] = Inr ?p"
    using assms(3) by (simp add: build_row_def write_column_def value_simps row_of_def ser_position_def overwrite_def)
  have "ahead (mk_Deserializer ?p) ?p" by (simp add: ahead_def mk_Deserializer_def)
  then have "readUInt32 (mk_Deserializer ?p) 0 = (Ok, ?n, des_skip (mk_Deserializer ?p) 4)" by (rule read_ahead)
  then have "fst (readString (mk_Deserializer ?p) []) = IoError"
    using assms(1) unat_small [OF assms(2)] by (auto simp: readString_def des_skip_def mk_Deserializer_def)
  then show ?thesis
    using b assms(3) by (cases "readString (mk_Deserializer ?p) []") (simp add: column_evaluate_def getColumnCount_def read_column_def)
qed

theorem row_overflow_witness:
  "\<exists>t. build_row [\<lparr>col_name = [], col_type = ColVarchar\<rparr>] [VStr (replicate 1021 0)] = Inr t \<and> length t = 4"
proof -
  have "1020 < length (replicate 1021 0 :: byte list)" "small (replicate 1021 0 :: byte list)"
    unfolding small_def length_replicate by simp_all
  from row_overflow [OF this, of "\<lparr>col_name = [], col_type = ColVarchar\<rparr>"] show ?thesis by simp blast
qed

subsection \<open>Typing\<close>

definition type_of_column :: "Column \<Rightarrow> TypeId" where
  "type_of_column c = (case col_type c of ColInteger \<Rightarrow> TypeInteger | ColBoolean \<Rightarrow> TypeBoolean | ColVarchar \<Rightarrow> TypeVarchar | _ \<Rightarrow> TypeNull)"

definition has_type :: "Value \<Rightarrow> TypeId \<Rightarrow> bool" where
  "has_type v ty = (v = VNull \<or> getType v = ty \<and> value_wf v)"

text \<open>The types under which an expression is used by a statement that was bound correctly.\<close>

fun typed :: "Schema \<Rightarrow> Expression \<Rightarrow> TypeId \<Rightarrow> bool" where
  "typed sch (EConst v) ty = has_type v ty"
| "typed sch (EParam i v bound) ty = (bound \<and> has_type v ty)"
| "typed sch (EColumn i src) ty = (i < length sch \<and> type_of_column (sch ! i) = ty \<and> src \<noteq> Some SourceRight)"
| "typed sch (EArith op a b) ty = (ty = TypeInteger \<and> typed sch a TypeInteger \<and> typed sch b TypeInteger)"
| "typed sch (EComp op a b) ty = (ty = TypeBoolean \<and>
     (typed sch a TypeInteger \<and> typed sch b TypeInteger \<or> typed sch a TypeBoolean \<and> typed sch b TypeBoolean \<or>
      typed sch a TypeVarchar \<and> typed sch b TypeVarchar))"
| "typed sch (ELogic op a b) ty = (ty = TypeBoolean \<and> typed sch a TypeBoolean \<and> typed sch b TypeBoolean)"
| "typed sch (ENot a) ty = (ty = TypeBoolean \<and> typed sch a TypeBoolean)"
| "typed sch ENullPtr ty = False"

definition run_time_error :: "exn \<Rightarrow> bool" where
  "run_time_error x = (x \<in> {RuntimeError ''Division by zero'', RuntimeError ''Modulo by zero'', SignedOverflow})"

definition ok_result :: "exn + Value \<Rightarrow> TypeId \<Rightarrow> bool" where
  "ok_result r ty = (case r of Inl x \<Rightarrow> run_time_error x | Inr v \<Rightarrow> has_type v ty)"

lemma ok_result_simps [simp]: "ok_result (Inl x) ty = run_time_error x" "ok_result (Inr v) ty = has_type v ty"
  by (simp_all add: ok_result_def)

lemma ok_result_bind:
  "ok_result r ty1 \<Longrightarrow> (\<And>v. has_type v ty1 \<Longrightarrow> ok_result (k v) ty) \<Longrightarrow> ok_result (try_bind r k) ty"
  by (cases r) auto

lemma has_type_cases:
  "has_type v TypeInteger \<longleftrightarrow> v = VNull \<or> (\<exists>i. v = VInt i \<and> int32 i)"
  "has_type v TypeBoolean \<longleftrightarrow> v = VNull \<or> (\<exists>x. v = VBool x)"
  "has_type v TypeVarchar \<longleftrightarrow> v = VNull \<or> (\<exists>s. v = VStr s \<and> length s < 2 ^ 32)"
  by (cases v; auto simp: has_type_def getType_def value_wf_def)+

lemma checked_ok: "ok_result (checked i) TypeInteger"
  by (simp add: checked_def has_type_cases run_time_error_def)

lemma arith_ok: "has_type x TypeInteger \<Longrightarrow> has_type y TypeInteger \<Longrightarrow> ok_result (arith_eval op x y) TypeInteger"
  by (cases op) (auto simp: arith_eval_def arithmetic_defs value_simps has_type_cases checked_ok run_time_error_def)

lemma comp_ok:
  "has_type x ty \<Longrightarrow> has_type y ty \<Longrightarrow> ok_result (comp_eval op x y) TypeBoolean"
  by (cases op) (auto simp: comp_eval_def comparison_defs isNull_def getType_def has_type_def value_wf_def)

lemma logic_ok: "has_type x TypeBoolean \<Longrightarrow> has_type y TypeBoolean \<Longrightarrow> ok_result (logic_eval op x y) TypeBoolean"
  by (cases op) (auto simp: logic_eval_def value_simps has_type_cases)

lemma not_ok: "has_type x TypeBoolean \<Longrightarrow> ok_result (not_eval x) TypeBoolean"
  by (auto simp: not_eval_def value_simps has_type_cases)

lemma column_ok:
  assumes "encodes sch vs t" "i < length sch"
  shows "ok_result (column_evaluate i t sch) (type_of_column (sch ! i))"
proof -
  have len: "length sch = length vs" and fits: "value_fits (sch ! i) (vs ! i)"
    using assms by (auto simp: encodes_def list_all2_conv_all_nth)
  then show ?thesis using column_evaluate_encodes [OF assms(1), of i] assms(2)
    by (auto elim!: value_fits_cases simp: type_of_column_def has_type_cases small_def)
qed

lemma evaluateJoin_ok:
  assumes "encodes sch vs t" "typed sch e ty"
  shows "ok_result (evaluateJoin e (Some (t, sch)) None) ty"
  using assms(2)
proof (induction e arbitrary: ty)
  case (EColumn i src)
  then show ?case using column_ok [OF assms(1)] by (auto simp: deref_column_def split: option.splits TupleSource.splits)
next
  case (EComp op a b)
  then obtain ty' where "typed sch a ty'" "typed sch b ty'" "ty = TypeBoolean" by auto
  with EComp.IH show ?case by (auto intro!: ok_result_bind [of _ ty'] comp_ok)
next
  case (EArith op a b)
  then show ?case by (auto intro!: ok_result_bind [of _ TypeInteger] arith_ok)
qed (auto simp: param_eval_def intro!: ok_result_bind [of _ TypeBoolean] logic_ok not_ok)

text \<open>
  C36. Type soundness of expressions: evaluating a well-typed expression on a row of its schema gives a value of its type
  (or null), or fails only for a zero divisor or an arithmetic overflow.  In particular no access to a variant of
  the wrong alternative, no type mismatch and no failing deserialization can happen.
\<close>

theorem expression_type_sound:
  assumes "encodes sch vs t" "typed sch e ty"
  shows "case evaluate e t sch of Inl x \<Rightarrow> run_time_error x | Inr v \<Rightarrow> has_type v ty"
  using evaluateJoin_ok [OF assms] assms(2) column_ok [OF assms(1)]
  by (cases e) (auto simp: evaluate_def ok_result_def param_eval_def)

theorem expression_type_sound_witness:
  "case evaluate (EComp LessThan (EArith Add (EColumn 0 None) (EConst (VInt 1))) (EConst (VInt 9))) (row_bytes [VInt 7, VStr [104, 105]]) sample_schema
   of Inl x \<Rightarrow> run_time_error x | Inr v \<Rightarrow> has_type v TypeBoolean"
  by (rule expression_type_sound [OF build_row_encodes(2) [OF sample_row_fits]])
    (simp add: sample_schema_def type_of_column_def has_type_cases int32_def)

end
