(* ===== verification/ConstantFolding.thy ===== *)
theory ConstantFolding
  imports Expressions
begin

text \<open>
  Constant folding of expressions (\<^verbatim>\<open>src/optimizer/constant_folding_rule.cpp\<close>:
  \<open>safeEvaluate\<close>, \<open>isConstant\<close>, \<open>foldExpression\<close>).  \<open>safeEvaluate\<close> turns an exception into null;
  undefined behaviour (an overflow) is no exception and stays.
\<close>

definition safeEvaluate :: "Expression \<Rightarrow> exn + Value" where
  "safeEvaluate e = (case evaluate e [] [] of Inr v \<Rightarrow> Inr v
     | Inl x \<Rightarrow> if no_exception x then Inl x else Inr VNull)"

fun isConstant :: "Expression \<Rightarrow> bool" where
  "isConstant (EConst v) = True"
| "isConstant (EColumn i src) = False"
| "isConstant (EParam i v bound) = False"
| "isConstant (EArith op a b) = (isConstant a \<and> isConstant b)"
| "isConstant (EComp op a b) = (isConstant a \<and> isConstant b)"
| "isConstant (ELogic op a b) = (isConstant a \<and> isConstant b)"
| "isConstant (ENot a) = isConstant a"
| "isConstant ENullPtr = False"

definition fold_node :: "Expression \<Rightarrow> exn + Expression" where
  "fold_node e = try_bind (safeEvaluate e) (\<lambda>v. Inr (EConst v))"

text \<open>
  One constant operand \<open>c\<close> of \<open>AND\<close> or \<open>OR\<close>, the other operand being \<open>x\<close>: the result, or nothing when the
  operand is null and the expression is left alone.
\<close>

definition short_circuit :: "LogicalType \<Rightarrow> Expression \<Rightarrow> Expression \<Rightarrow> exn + Expression option" where
  "short_circuit op c x = try_bind (safeEvaluate c) (\<lambda>v.
     if isNull v then Inr None
     else try_bind (getAsBoolean v) (\<lambda>y. Inr (Some (case op of
         LogicalAnd \<Rightarrow> if \<not> y then EConst (VBool False) else x
       | LogicalOr \<Rightarrow> if y then EConst (VBool True) else x))))"

text \<open>
  For \<open>AND\<close> with a constant right operand the source first evaluates the left one as well and ignores
  the value; on the dummy row that evaluation can only throw, which \<open>safeEvaluate\<close> swallows, or overflow.
\<close>

definition fold_logic :: "LogicalType \<Rightarrow> Expression \<Rightarrow> Expression \<Rightarrow> exn + Expression" where
  "fold_logic op a b =
    (if isConstant a \<and> isConstant b then fold_node (ELogic op a b)
     else try_bind (if isConstant a then short_circuit op a b else Inr None) (\<lambda>r1.
       case r1 of Some e \<Rightarrow> Inr e
       | None \<Rightarrow> try_bind (if isConstant b
             then try_bind (if op = LogicalAnd then safeEvaluate a else Inr VNull) (\<lambda>_. short_circuit op b a) else Inr None) (\<lambda>r2.
           case r2 of Some e \<Rightarrow> Inr e | None \<Rightarrow> Inr (ELogic op a b))))"

fun foldExpression :: "Expression \<Rightarrow> exn + Expression" where
  "foldExpression (EConst v) = Inr (EConst v)"
| "foldExpression (EColumn i src) = Inr (EColumn i src)"
| "foldExpression (EParam i v bound) = Inr (EParam i v bound)"
| "foldExpression (EArith op a b) = try_bind (foldExpression a) (\<lambda>a'. try_bind (foldExpression b) (\<lambda>b'.
     if isConstant a' \<and> isConstant b' then fold_node (EArith op a' b') else Inr (EArith op a' b')))"
| "foldExpression (EComp op a b) = try_bind (foldExpression a) (\<lambda>a'. try_bind (foldExpression b) (\<lambda>b'.
     if isConstant a' \<and> isConstant b' then fold_node (EComp op a' b') else Inr (EComp op a' b')))"
| "foldExpression (ELogic op a b) = try_bind (foldExpression a) (\<lambda>a'. try_bind (foldExpression b) (\<lambda>b'. fold_logic op a' b'))"
| "foldExpression (ENot a) = try_bind (foldExpression a) (\<lambda>a'. if isConstant a' then fold_node (ENot a') else Inr (ENot a'))"
| "foldExpression ENullPtr = Inr ENullPtr"

subsection \<open>Constants do not depend on the row\<close>

lemma constant_eval:
  "isConstant e \<Longrightarrow> l \<noteq> None \<or> r \<noteq> None \<Longrightarrow> evaluateJoin e l r = evaluate e [] []"
proof (induction e)
  case (EArith op a b)
  then show ?case by (cases a; cases b) (auto simp: evaluate_def)
next
  case (EComp op a b)
  then show ?case by (cases a; cases b) (auto simp: evaluate_def)
next
  case (ELogic op a b)
  then show ?case by (cases a; cases b) (auto simp: evaluate_def)
next
  case (ENot a)
  then show ?case by (cases a) (auto simp: evaluate_def)
qed (auto simp: evaluate_def)

text \<open>
  On the dummy row an expression that refers to no right row and evaluates on the real rows either gives the
  same value or throws.
\<close>

fun no_right :: "Expression \<Rightarrow> bool" where
  "no_right (EColumn i src) = (src \<noteq> Some SourceRight)"
| "no_right (EArith op a b) = (no_right a \<and> no_right b)"
| "no_right (EComp op a b) = (no_right a \<and> no_right b)"
| "no_right (ELogic op a b) = (no_right a \<and> no_right b)"
| "no_right (ENot a) = no_right a"
| "no_right (EConst v) = True"
| "no_right (EParam i v bound) = True"
| "no_right ENullPtr = True"

definition like_or_throws :: "exn + Value \<Rightarrow> Value \<Rightarrow> bool" where
  "like_or_throws r v = (case r of Inr w \<Rightarrow> w = v | Inl x \<Rightarrow> \<not> no_exception x)"

lemma like_or_throws_bind:
  "like_or_throws r x \<Longrightarrow> k x = Inr v \<or> like_or_throws (k x) v \<Longrightarrow> like_or_throws (try_bind r k) v"
  by (cases r) (auto simp: like_or_throws_def)

lemma dummy_row:
  "no_right e \<Longrightarrow> evaluateJoin e l r = Inr v \<Longrightarrow> like_or_throws (evaluateJoin e (Some ([], [])) None) v"
proof (induction e arbitrary: v)
  case (EColumn i src)
  then show ?case
    by (auto simp: deref_column_def column_evaluate_def getColumnCount_def like_or_throws_def split: option.splits TupleSource.splits)
qed (auto simp: try_bind_Inr like_or_throws_def param_eval_def split: if_splits intro!: like_or_throws_bind [unfolded like_or_throws_def])

lemma evaluate_dummy:
  assumes "no_right e" "evaluateJoin e l r = Inr v"
  shows "like_or_throws (evaluate e [] []) v"
proof (cases e)
  case (EColumn i src)
  then show ?thesis by (simp add: evaluate_def column_evaluate_def getColumnCount_def like_or_throws_def)
qed (use assms dummy_row [OF assms] in \<open>auto simp: evaluate_def like_or_throws_def param_eval_def split: if_splits\<close>)

lemma safeEvaluate_ok: "no_right e \<Longrightarrow> evaluateJoin e l r = Inr v \<Longrightarrow> \<exists>w. safeEvaluate e = Inr w"
  using evaluate_dummy [of e l r v] by (auto simp: safeEvaluate_def like_or_throws_def split: sum.splits)

lemma safeEvaluate_constant:
  assumes "isConstant e" "l \<noteq> None \<or> r \<noteq> None" "evaluateJoin e l r = Inr v"
  shows "safeEvaluate e = Inr v"
  using assms(3) constant_eval [OF assms(1,2)] by (simp add: safeEvaluate_def)

subsection \<open>Folding preserves the value\<close>

text \<open>The operands of every \<open>AND\<close> and \<open>OR\<close> evaluate to booleans: neither null nor of another type.\<close>

fun bool_operands :: "Expression \<Rightarrow> side \<Rightarrow> side \<Rightarrow> bool" where
  "bool_operands (EArith op a b) l r = (bool_operands a l r \<and> bool_operands b l r)"
| "bool_operands (EComp op a b) l r = (bool_operands a l r \<and> bool_operands b l r)"
| "bool_operands (ELogic op a b) l r = (bool_operands a l r \<and> bool_operands b l r \<and>
     (case evaluateJoin a l r of Inr (VBool _) \<Rightarrow> True | _ \<Rightarrow> False) \<and> (case evaluateJoin b l r of Inr (VBool _) \<Rightarrow> True | _ \<Rightarrow> False))"
| "bool_operands (ENot a) l r = bool_operands a l r"
| "bool_operands _ l r = True"

definition fold_result :: "exn + Expression \<Rightarrow> side \<Rightarrow> side \<Rightarrow> Value \<Rightarrow> bool" where
  "fold_result f l r v = (\<exists>e'. f = Inr e' \<and> no_right e' \<and> evaluateJoin e' l r = Inr v)"

lemma fold_node_result:
  "isConstant e \<Longrightarrow> l \<noteq> None \<or> r \<noteq> None \<Longrightarrow> evaluateJoin e l r = Inr v \<Longrightarrow> fold_result (fold_node e) l r v"
  by (auto simp: fold_result_def fold_node_def safeEvaluate_constant)

lemma short_circuit_left:
  assumes "isConstant c" "l \<noteq> None \<or> r \<noteq> None" "evaluateJoin c l r = Inr (VBool y)"
  shows "short_circuit op c x = Inr (Some (case op of LogicalAnd \<Rightarrow> if y then x else EConst (VBool False)
     | LogicalOr \<Rightarrow> if y then EConst (VBool True) else x))"
  using safeEvaluate_constant [OF assms] by (cases op) (simp_all add: short_circuit_def value_simps)

lemma fold_logic_result:
  assumes "l \<noteq> None \<or> r \<noteq> None" "no_right a" "no_right b" "evaluateJoin a l r = Inr (VBool x)" "evaluateJoin b l r = Inr (VBool y)"
  shows "fold_result (fold_logic op a b) l r (VBool (case op of LogicalAnd \<Rightarrow> x \<and> y | LogicalOr \<Rightarrow> x \<or> y))"
proof -
  have v: "evaluateJoin (ELogic op a b) l r = Inr (VBool (case op of LogicalAnd \<Rightarrow> x \<and> y | LogicalOr \<Rightarrow> x \<or> y))"
    using assms(4,5) by (cases op) (auto simp: logic_eval_def value_simps)
  obtain w where w: "safeEvaluate a = Inr w" using safeEvaluate_ok [OF assms(2,4)] by auto
  consider "isConstant a" "isConstant b" | "isConstant a" "\<not> isConstant b" | "\<not> isConstant a" "isConstant b" | "\<not> isConstant a" "\<not> isConstant b"
    by blast
  then show ?thesis
  proof cases
    case 1
    then show ?thesis using fold_node_result [OF _ assms(1) v] by (simp add: fold_logic_def)
  next
    case 2
    then show ?thesis using assms short_circuit_left [OF 2(1) assms(1,4), of op b]
      by (cases op) (auto simp: fold_logic_def fold_result_def)
  next
    case 3
    then show ?thesis using assms w short_circuit_left [OF 3(2) assms(1,5), of op a]
      by (cases op) (auto simp: fold_logic_def fold_result_def)
  next
    case 4
    then show ?thesis using assms v by (simp add: fold_logic_def fold_result_def)
  qed
qed

lemma fold_expression_result:
  assumes "l \<noteq> None \<or> r \<noteq> None"
  shows "no_right e \<Longrightarrow> bool_operands e l r \<Longrightarrow> evaluateJoin e l r = Inr v \<Longrightarrow> fold_result (foldExpression e) l r v"
proof (induction e arbitrary: v)
  case (EArith op a b)
  then obtain x y where xy: "evaluateJoin a l r = Inr x" "evaluateJoin b l r = Inr y" "arith_eval op x y = Inr v" by (auto simp: try_bind_Inr)
  obtain a' where a': "foldExpression a = Inr a'" "no_right a'" "evaluateJoin a' l r = Inr x"
    using EArith.IH(1) [OF _ _ xy(1)] EArith.prems by (auto simp: fold_result_def)
  obtain b' where b': "foldExpression b = Inr b'" "no_right b'" "evaluateJoin b' l r = Inr y"
    using EArith.IH(2) [OF _ _ xy(2)] EArith.prems by (auto simp: fold_result_def)
  show ?case using a' b' xy(3) fold_node_result [OF _ assms, of "EArith op a' b'" v] by (auto simp: fold_result_def)
next
  case (EComp op a b)
  then obtain x y where xy: "evaluateJoin a l r = Inr x" "evaluateJoin b l r = Inr y" "comp_eval op x y = Inr v" by (auto simp: try_bind_Inr)
  obtain a' where a': "foldExpression a = Inr a'" "no_right a'" "evaluateJoin a' l r = Inr x"
    using EComp.IH(1) [OF _ _ xy(1)] EComp.prems by (auto simp: fold_result_def)
  obtain b' where b': "foldExpression b = Inr b'" "no_right b'" "evaluateJoin b' l r = Inr y"
    using EComp.IH(2) [OF _ _ xy(2)] EComp.prems by (auto simp: fold_result_def)
  show ?case using a' b' xy(3) fold_node_result [OF _ assms, of "EComp op a' b'" v] by (auto simp: fold_result_def)
next
  case (ELogic op a b)
  then obtain x y where xy: "evaluateJoin a l r = Inr (VBool x)" "evaluateJoin b l r = Inr (VBool y)"
    by (auto split: sum.splits Value.splits)
  have v: "v = VBool (case op of LogicalAnd \<Rightarrow> x \<and> y | LogicalOr \<Rightarrow> x \<or> y)"
    using ELogic.prems(3) xy by (cases op) (auto simp: logic_eval_def value_simps split: if_splits)
  obtain a' where a': "foldExpression a = Inr a'" "no_right a'" "evaluateJoin a' l r = Inr (VBool x)"
    using ELogic.IH(1) [OF _ _ xy(1)] ELogic.prems by (auto simp: fold_result_def)
  obtain b' where b': "foldExpression b = Inr b'" "no_right b'" "evaluateJoin b' l r = Inr (VBool y)"
    using ELogic.IH(2) [OF _ _ xy(2)] ELogic.prems by (auto simp: fold_result_def)
  show ?case using a' b' fold_logic_result [OF assms a'(2) b'(2) a'(3) b'(3), of op] by (simp add: v)
next
  case (ENot a)
  then obtain x where x: "evaluateJoin a l r = Inr x" "not_eval x = Inr v" by (auto simp: try_bind_Inr)
  obtain a' where a': "foldExpression a = Inr a'" "no_right a'" "evaluateJoin a' l r = Inr x"
    using ENot.IH [OF _ _ x(1)] ENot.prems by (auto simp: fold_result_def)
  show ?case using a' x(2) fold_node_result [OF _ assms, of "ENot a'" v] by (auto simp: fold_result_def)
qed (use assms in \<open>auto simp: fold_result_def\<close>)

text \<open>No operation all of whose operands are constants remains.\<close>

fun fully_folded :: "Expression \<Rightarrow> bool" where
  "fully_folded (EArith op a b) = (fully_folded a \<and> fully_folded b \<and> \<not> (isConstant a \<and> isConstant b))"
| "fully_folded (EComp op a b) = (fully_folded a \<and> fully_folded b \<and> \<not> (isConstant a \<and> isConstant b))"
| "fully_folded (ELogic op a b) = (fully_folded a \<and> fully_folded b \<and> \<not> (isConstant a \<and> isConstant b))"
| "fully_folded (ENot a) = (fully_folded a \<and> \<not> isConstant a)"
| "fully_folded _ = True"

lemma fold_node_folded: "fold_node e = Inr e' \<Longrightarrow> \<exists>v. e' = EConst v"
  by (auto simp: fold_node_def try_bind_Inr)

lemma fold_logic_folded:
  "fold_logic op a b = Inr e' \<Longrightarrow> fully_folded a \<Longrightarrow> fully_folded b \<Longrightarrow> fully_folded e'"
  by (auto simp: fold_logic_def try_bind_Inr short_circuit_def dest!: fold_node_folded split: if_splits option.splits LogicalType.splits)

lemma fold_expression_folded: "foldExpression e = Inr e' \<Longrightarrow> fully_folded e'"
  by (induction e arbitrary: e') (auto simp: try_bind_Inr fold_logic_folded dest!: fold_node_folded split: if_splits)

text \<open>
  C37. Constant folding preserves meaning: for an expression over the left or the only row that evaluates to a value and
  in which the operands of every \<open>AND\<close> and \<open>OR\<close> evaluate to booleans, \<open>foldExpression\<close> succeeds, the folded
  expression evaluates to the same value on that row, and no operation on constants only remains in it.
\<close>

theorem folding_preserves_value:
  assumes "no_right e" "bool_operands e (Some (t, sch)) r" "evaluateJoin e (Some (t, sch)) r = Inr v"
  shows "\<exists>e'. foldExpression e = Inr e' \<and> evaluateJoin e' (Some (t, sch)) r = Inr v \<and> fully_folded e'"
  using fold_expression_result [OF _ assms] fold_expression_folded by (auto simp: fold_result_def)

theorem folding_preserves_value_witness:
  "\<exists>e'. foldExpression (ELogic LogicalAnd (EComp LessThan (EColumn 0 None) (EArith Add (EConst (VInt 4)) (EConst (VInt 5)))) (EConst (VBool True))) = Inr e' \<and>
     evaluateJoin e' (Some (row_bytes [VInt 7, VStr [104, 105]], sample_schema)) None = Inr (VBool True) \<and> fully_folded e'"
proof -
  let ?t = "row_bytes [VInt 7, VStr [104, 105]]"
  let ?e = "ELogic LogicalAnd (EComp LessThan (EColumn 0 None) (EArith Add (EConst (VInt 4)) (EConst (VInt 5)))) (EConst (VBool True))"
  have "column_evaluate 0 ?t sample_schema = Inr (VInt 7)"
    using column_evaluate_encodes [OF build_row_encodes(2) [OF sample_row_fits], of 0] by simp
  then have "bool_operands ?e (Some (?t, sample_schema)) None" "evaluateJoin ?e (Some (?t, sample_schema)) None = Inr (VBool True)"
    by (simp_all add: deref_column_def arith_eval_def value_add_def comp_eval_def compareLessThan_def value_simps checked_def int32_def logic_eval_def)
  then show ?thesis by (intro folding_preserves_value) auto
qed

text \<open>
  Folding is not transparent for null: the executor evaluates \<open>NOT (FALSE AND c = NULL)\<close> to null, after folding it is
  true, and a filter keeps the row.
\<close>

theorem folding_changes_null:
  "encodes sch vs t \<Longrightarrow> 0 < length vs \<Longrightarrow>
   (let e = ENot (ELogic LogicalAnd (EConst (VBool False)) (EComp Equal (EColumn 0 None) (EConst VNull))) in
    evaluate e t sch = Inr VNull \<and> (\<exists>e'. foldExpression e = Inr e' \<and> evaluate e' t sch = Inr (VBool True)))"
  using column_evaluate_encodes [of sch vs t 0]
  by (simp add: evaluate_def deref_column_def comp_eval_def compareEquals_def value_simps logic_eval_def not_eval_def
      fold_logic_def short_circuit_def safeEvaluate_def fold_node_def)

text \<open>
  Folding \<open>right.c = 5 AND TRUE\<close> in a join predicate dereferences a null pointer: the left operand is evaluated on the
  dummy row although it is not constant.
\<close>

theorem folding_join_predicate:
  "foldExpression (ELogic LogicalAnd (EComp Equal (EColumn 0 (Some SourceRight)) (EConst (VInt 5))) (EConst (VBool True))) = Inl UndefinedBehaviour"
  by (simp add: fold_logic_def safeEvaluate_def evaluate_def deref_column_def)

end
