(* ===== verification/Executors.thy ===== *)
theory Executors
  imports Expressions
begin

text \<open>
  The executors that transform rows: \<^verbatim>\<open>src/executor/values_executor.cpp\<close>,
  \<^verbatim>\<open>filter_executor.cpp\<close>, \<^verbatim>\<open>having_executor.cpp\<close>, \<^verbatim>\<open>projection_executor.cpp\<close>,
  \<^verbatim>\<open>limit_executor.cpp\<close>, \<^verbatim>\<open>nested_loop_join_executor.cpp\<close>.

  An executor is its state with the operations \<open>init\<close> and \<open>next\<close>; the pointer to a child is the
  child's state inside the parent's, together with the child's operations as arguments.  A call returns the
  exception it throws or its result; \<open>None\<close> is a call that does not return.  \<open>next\<close> gives the row with
  its record identifier, or nothing for \<open>false\<close>.

  The interface \<open>executor\<close> says what a child promises its parent: \<open>init\<close> throws or starts
  a fixed sequence of rows, \<open>next\<close> returns them one by one, and then reports the end, again and
  again, or throws.  Each executor is shown to keep the promise when its children do, for the
  behaviour that a function on row sequences describes.
\<close>

type_synonym row = "Tuple \<times> RID"

type_synonym 'a result = "(exn + 'a) option"

type_synonym 's init_op = "'s \<Rightarrow> 's result"

type_synonym 's next_op = "'s \<Rightarrow> (row option \<times> 's) result"

definition then_do :: "'a result \<Rightarrow> ('a \<Rightarrow> 'b result) \<Rightarrow> 'b result" where
  "then_do r k = Option.bind r (\<lambda>x. case x of Inl e \<Rightarrow> Some (Inl e) | Inr y \<Rightarrow> k y)"

definition return :: "'a \<Rightarrow> 'a result" where
  "return x = Some (Inr x)"

definition throws :: "exn \<Rightarrow> 'a result" where
  "throws e = Some (Inl e)"

lemma then_do_simps [simp]:
  "then_do (Some (Inl e)) k = Some (Inl e)" "then_do (Some (Inr x)) k = k x" "then_do None k = None"
  "then_do (return x) k = k x" "then_do (throws e) k = throws e"
  by (simp_all add: then_do_def return_def throws_def)

lemma return_inject [simp]: "return x = return y \<longleftrightarrow> x = y" "throws e = throws e' \<longleftrightarrow> e = e'"
    "return x \<noteq> throws e" "throws e \<noteq> return x"
  by (simp_all add: return_def throws_def)

lemma then_do_mono [partial_function_mono]:
  assumes "mono_option B" "\<And>y. mono_option (\<lambda>f. C y f)"
  shows "mono_option (\<lambda>f. then_do (B f) (\<lambda>y. C y f))"
  unfolding then_do_def
proof (rule bind_mono [OF assms(1)])
  show "mono_option (\<lambda>f. case y of Inl e \<Rightarrow> Some (Inl e) | Inr z \<Rightarrow> C z f)" for y
    by (cases y) (simp_all add: assms(2) option.const_mono)
qed

subsection \<open>Values\<close>

record ValuesExecutor =
  val_values :: "Expression list list"
  val_schema :: Schema
  val_cursor :: nat

definition values_init :: "ValuesExecutor init_op" where
  "values_init s = return (s\<lparr>val_cursor := 0\<rparr>)"

text \<open>Each expression is evaluated, on a dummy row, just before its value is written.\<close>

fun values_row :: "Schema \<Rightarrow> Expression list \<Rightarrow> Serializer \<Rightarrow> exn + Serializer" where
  "values_row cs [] s = Inr s"
| "values_row cs (e # es) s = try_bind (evaluate e [] []) (\<lambda>v.
     case cs of [] \<Rightarrow> Inl OutOfRange | c # cs' \<Rightarrow> try_bind (write_column c v s) (values_row cs' es))"

definition values_next :: "ValuesExecutor next_op" where
  "values_next s = (if val_cursor s \<ge> length (val_values s) then return (None, s)
     else case values_row (val_schema s) (val_values s ! val_cursor s) row_buffer of
       Inl e \<Rightarrow> throws e
     | Inr ser \<Rightarrow> return (Some (row_of ser, default_RID), s\<lparr>val_cursor := val_cursor s + 1\<rparr>))"

subsection \<open>Filter and Having\<close>

definition passes :: "Expression \<Rightarrow> Schema \<Rightarrow> row \<Rightarrow> exn + bool" where
  "passes p sch r = try_bind (evaluate p (fst r) sch) (\<lambda>v. if \<not> isNull v then getAsBoolean v else Inr False)"

partial_function (option) filter_next :: "'s next_op \<Rightarrow> Expression \<Rightarrow> Schema \<Rightarrow> 's next_op" where
  "filter_next child p sch s = then_do (child s) (\<lambda>(r, s1). case r of
     None \<Rightarrow> return (None, s1)
   | Some row \<Rightarrow> (case passes p sch row of
       Inl e \<Rightarrow> throws e
     | Inr b \<Rightarrow> if b then return (Some row, s1) else filter_next child p sch s1))"

definition filter_init :: "'s init_op \<Rightarrow> 's init_op" where
  "filter_init child_init s = child_init s"

text \<open>\<open>HavingExecutor\<close> lets every row through when it has no predicate.\<close>

definition having_next :: "'s next_op \<Rightarrow> Expression option \<Rightarrow> Schema \<Rightarrow> 's next_op" where
  "having_next child p sch s = (case p of None \<Rightarrow> child s | Some q \<Rightarrow> filter_next child q sch s)"

subsection \<open>Projection\<close>

fun eval_all :: "Expression list \<Rightarrow> Tuple \<Rightarrow> Schema \<Rightarrow> exn + Value list" where
  "eval_all [] t sch = Inr []"
| "eval_all (e # es) t sch = try_bind (evaluate e t sch) (\<lambda>v. try_bind (eval_all es t sch) (\<lambda>vs. Inr (v # vs)))"

definition project_row :: "Expression list \<Rightarrow> Schema \<Rightarrow> Schema \<Rightarrow> row \<Rightarrow> exn + row" where
  "project_row es child_sch out_sch r = try_bind (eval_all es (fst r) child_sch) (\<lambda>vs.
     try_bind (build_row out_sch vs) (\<lambda>t. Inr (t, snd r)))"

definition projection_next :: "'s next_op \<Rightarrow> Expression list \<Rightarrow> Schema \<Rightarrow> Schema \<Rightarrow> 's next_op" where
  "projection_next child es child_sch out_sch s = then_do (child s) (\<lambda>(r, s1). case r of
     None \<Rightarrow> return (None, s1)
   | Some row \<Rightarrow> (case project_row es child_sch out_sch row of Inl e \<Rightarrow> throws e | Inr row' \<Rightarrow> return (Some row', s1)))"

subsection \<open>Limit\<close>

fun skip_rows :: "'s next_op \<Rightarrow> nat \<Rightarrow> 's \<Rightarrow> 's result" where
  "skip_rows child 0 s = return s"
| "skip_rows child (Suc n) s = then_do (child s) (\<lambda>(r, s1). case r of None \<Rightarrow> return s1 | Some _ \<Rightarrow> skip_rows child n s1)"

definition limit_init :: "'s init_op \<Rightarrow> 's next_op \<Rightarrow> nat \<Rightarrow> ('s \<times> nat) init_op" where
  "limit_init child_init child offset s = then_do (child_init (fst s)) (\<lambda>s1.
     then_do (skip_rows child offset s1) (\<lambda>s2. return (s2, 0)))"

definition limit_next :: "'s next_op \<Rightarrow> nat \<Rightarrow> ('s \<times> nat) next_op" where
  "limit_next child limit s = (if snd s \<ge> limit then return (None, s)
     else then_do (child (fst s)) (\<lambda>(r, s1). case r of
       None \<Rightarrow> return (None, (s1, snd s))
     | Some row \<Rightarrow> return (Some row, (s1, snd s + 1))))"

subsection \<open>Nested loop join\<close>

record ('l, 'r) NestedLoopJoin =
  nl_left :: 'l
  nl_right :: 'r
  nl_has_more :: bool
  nl_current :: row

text \<open>
  The two children share the execution context \<open>'w\<close>, which each call may change:
  \<open>left_has_more_ = left_child_->next(&current_left_tuple_, &current_left_rid_)\<close>
\<close>

definition nl_advance :: "('l \<times> 'w) next_op \<Rightarrow> (('l, 'r) NestedLoopJoin \<times> 'w) init_op" where
  "nl_advance left x = then_do (left (nl_left (fst x), snd x)) (\<lambda>(r, (l1, w1)). return (case r of
     None \<Rightarrow> ((fst x)\<lparr>nl_left := l1, nl_has_more := False\<rparr>, w1)
   | Some row \<Rightarrow> ((fst x)\<lparr>nl_left := l1, nl_has_more := True, nl_current := row\<rparr>, w1)))"

definition nlj_init :: "('l \<times> 'w) init_op \<Rightarrow> ('l \<times> 'w) next_op \<Rightarrow> ('r \<times> 'w) init_op \<Rightarrow> (('l, 'r) NestedLoopJoin \<times> 'w) init_op" where
  "nlj_init left_init left right_init x = then_do (left_init (nl_left (fst x), snd x)) (\<lambda>(l1, w1).
     then_do (right_init (nl_right (fst x), w1)) (\<lambda>(r1, w2). nl_advance left ((fst x)\<lparr>nl_left := l1, nl_right := r1\<rparr>, w2)))"

definition join_match :: "Expression option \<Rightarrow> Schema \<Rightarrow> Schema \<Rightarrow> row \<Rightarrow> row \<Rightarrow> exn + bool" where
  "join_match p ls rs l r = (case p of None \<Rightarrow> Inr True
     | Some q \<Rightarrow> try_bind (evaluateJoin q (Some (fst l, ls)) (Some (fst r, rs))) (\<lambda>v.
         if isNull v then Inr False else getAsBoolean v))"

definition combine_rows :: "row \<Rightarrow> row \<Rightarrow> row" where
  "combine_rows l r = (fst l @ fst r, snd l)"

partial_function (option) nlj_next :: "('l \<times> 'w) next_op \<Rightarrow> ('r \<times> 'w) init_op \<Rightarrow> ('r \<times> 'w) next_op \<Rightarrow> Expression option \<Rightarrow> Schema \<Rightarrow> Schema \<Rightarrow>
    (('l, 'r) NestedLoopJoin \<times> 'w) next_op" where
  "nlj_next left right_init right p ls rs x =
    (if \<not> nl_has_more (fst x) then return (None, x)
     else then_do (right (nl_right (fst x), snd x)) (\<lambda>(r, (r1, w1)). case r of
       Some row \<Rightarrow> (case join_match p ls rs (nl_current (fst x)) row of
           Inl e \<Rightarrow> throws e
         | Inr m \<Rightarrow> if m then return (Some (combine_rows (nl_current (fst x)) row), ((fst x)\<lparr>nl_right := r1\<rparr>, w1))
                    else nlj_next left right_init right p ls rs ((fst x)\<lparr>nl_right := r1\<rparr>, w1))
     | None \<Rightarrow> then_do (nl_advance left ((fst x)\<lparr>nl_right := r1\<rparr>, w1)) (\<lambda>(s2, w2).
         if nl_has_more s2
         then then_do (right_init (nl_right s2, w2)) (\<lambda>(r2, w3). nlj_next left right_init right p ls rs (s2\<lparr>nl_right := r2\<rparr>, w3))
         else nlj_next left right_init right p ls rs (s2, w2))))"

text \<open>An executor that does not use the context, as a child in it.\<close>

definition lift_init :: "'c init_op \<Rightarrow> ('c \<times> 'w) init_op" where
  "lift_init ini s = then_do (ini (fst s)) (\<lambda>c1. return (c1, snd s))"

definition lift_next :: "'c next_op \<Rightarrow> ('c \<times> 'w) next_op" where
  "lift_next nxt s = then_do (nxt (fst s)) (\<lambda>(r, c1). return (r, (c1, snd s)))"

subsection \<open>Driving an executor\<close>

text \<open>The loop of the shell: the rows in order, and the exception that ended it, if any.\<close>

partial_function (option) fetch_rows :: "'s next_op \<Rightarrow> 's \<Rightarrow> row list \<Rightarrow> (row list \<times> exn option) option" where
  "fetch_rows nxt s acc = Option.bind (nxt s) (\<lambda>r. case r of
     Inl e \<Rightarrow> Some (acc, Some e)
   | Inr (None, _) \<Rightarrow> Some (acc, None)
   | Inr (Some row, s1) \<Rightarrow> fetch_rows nxt s1 (acc @ [row]))"

definition run_query :: "'s init_op \<Rightarrow> 's next_op \<Rightarrow> 's \<Rightarrow> (row list \<times> exn option) option" where
  "run_query ini nxt s = Option.bind (ini s) (\<lambda>r. case r of Inl e \<Rightarrow> Some ([], Some e) | Inr s1 \<Rightarrow> fetch_rows nxt s1 [])"

subsection \<open>The contract\<close>

datatype behaviour = InitThrows exn | Rows "row list" "exn option"

locale executor =
  fixes ini :: "'s init_op" and nxt :: "'s next_op"
    and inv :: "'s \<Rightarrow> bool" and pending :: "'s \<Rightarrow> row list \<Rightarrow> exn option \<Rightarrow> bool"
    and beh :: behaviour
  assumes init_throws: "inv s \<Longrightarrow> beh = InitThrows e \<Longrightarrow> ini s = throws e"
    and init_rows: "inv s \<Longrightarrow> beh = Rows xs f \<Longrightarrow> \<exists>s1. ini s = return s1 \<and> pending s1 xs f"
    and next_row: "pending s (x # xs) f \<Longrightarrow> \<exists>s1. nxt s = return (Some x, s1) \<and> pending s1 xs f"
    and next_end: "pending s [] None \<Longrightarrow> \<exists>s1. nxt s = return (None, s1) \<and> pending s1 [] None"
    and next_throws: "pending s [] (Some e) \<Longrightarrow> nxt s = throws e"
    and pending_inv: "pending s xs f \<Longrightarrow> inv s"
begin

lemma fetch_pending: "pending s xs f \<Longrightarrow> fetch_rows nxt s acc = Some (acc @ xs, f)"
proof (induction xs arbitrary: s acc)
  case Nil
  then show ?case
  proof (cases f)
    case None
    then show ?thesis using next_end [of s] Nil by (subst fetch_rows.simps) (auto simp: return_def)
  next
    case (Some e)
    then show ?thesis using next_throws [of s e] Nil by (subst fetch_rows.simps) (auto simp: throws_def)
  qed
next
  case (Cons x xs)
  then obtain s1 where "nxt s = return (Some x, s1)" "pending s1 xs f" using next_row by blast
  then show ?case using Cons.IH [of s1 "acc @ [x]"] by (subst fetch_rows.simps) (simp add: return_def)
qed

lemma run_beh: "inv s \<Longrightarrow> run_query ini nxt s = Some (case beh of InitThrows e \<Rightarrow> ([], Some e) | Rows xs f \<Rightarrow> (xs, f))"
  using init_throws [of s] init_rows [of s] fetch_pending [of _ _ _ "[]"]
  by (cases beh) (auto simp: run_query_def throws_def return_def)

lemma skip_pending:
  assumes "pending s xs f"
  shows "(\<exists>s1. skip_rows nxt n s = return s1 \<and> pending s1 (drop n xs) f \<and> (n \<le> length xs \<or> f = None)) \<or>
    (\<exists>e. skip_rows nxt n s = throws e \<and> f = Some e \<and> length xs < n)"
  using assms
proof (induction n arbitrary: s xs)
  case (Suc n)
  show ?case
  proof (cases xs)
    case Nil
    then show ?thesis using Suc.prems next_end [of s] next_throws [of s] by (cases f) auto
  next
    case (Cons x ys)
    then obtain s1 where "nxt s = return (Some x, s1)" "pending s1 ys f" using Suc.prems next_row by blast
    then show ?thesis using Suc.IH [of s1 ys] Cons by simp
  qed
qed auto

end

subsection \<open>Row by row: filter, having, projection\<close>

text \<open>What one call of \<open>next\<close> does when the rows \<open>ys\<close> and then the end \<open>g\<close> are due.\<close>

definition outcome :: "'s next_op \<Rightarrow> ('s \<Rightarrow> row list \<Rightarrow> exn option \<Rightarrow> bool) \<Rightarrow> 's \<Rightarrow> row list \<Rightarrow> exn option \<Rightarrow> bool" where
  "outcome n pend s ys g = (case ys of
     y # zs \<Rightarrow> \<exists>s1. n s = return (Some y, s1) \<and> pend s1 zs g
   | [] \<Rightarrow> (case g of None \<Rightarrow> \<exists>s1. n s = return (None, s1) \<and> pend s1 [] None | Some e \<Rightarrow> n s = throws e))"

lemma outcome_cong: "n s = n s' \<Longrightarrow> outcome n pend s ys g = outcome n pend s' ys g"
  by (auto simp: outcome_def split: list.splits option.splits)

lemma executorI:
  assumes "\<And>s e. ivt s \<Longrightarrow> beh = InitThrows e \<Longrightarrow> ini s = throws e"
    "\<And>s xs f. ivt s \<Longrightarrow> beh = Rows xs f \<Longrightarrow> \<exists>s1. ini s = return s1 \<and> pend s1 xs f"
    "\<And>s ys g. pend s ys g \<Longrightarrow> outcome nxt pend s ys g"
    "\<And>s ys g. pend s ys g \<Longrightarrow> ivt s"
  shows "executor ini nxt ivt pend beh"
proof (rule executor.intro)
  show "\<exists>s1. nxt s = return (Some x, s1) \<and> pend s1 xs f" if "pend s (x # xs) f" for s x xs f
    using assms(3) [OF that] by (simp add: outcome_def)
  show "\<exists>s1. nxt s = return (None, s1) \<and> pend s1 [] None" if "pend s [] None" for s
    using assms(3) [OF that] by (simp add: outcome_def)
  show "nxt s = throws e" if "pend s [] (Some e)" for s e
    using assms(3) [OF that] by (simp add: outcome_def)
qed (use assms in blast)+

text \<open>What a row becomes: an exception, nothing, or a row.\<close>

fun trans_rows :: "(row \<Rightarrow> exn + row option) \<Rightarrow> row list \<Rightarrow> exn option \<Rightarrow> row list \<times> exn option" where
  "trans_rows k [] f = ([], f)"
| "trans_rows k (x # xs) f = (case k x of
     Inl e \<Rightarrow> ([], Some e)
   | Inr None \<Rightarrow> trans_rows k xs f
   | Inr (Some y) \<Rightarrow> (case trans_rows k xs f of (ys, g) \<Rightarrow> (y # ys, g)))"

definition beh_map :: "(row list \<Rightarrow> exn option \<Rightarrow> row list \<times> exn option) \<Rightarrow> behaviour \<Rightarrow> behaviour" where
  "beh_map h b = (case b of InitThrows e \<Rightarrow> InitThrows e | Rows xs f \<Rightarrow> (case h xs f of (ys, g) \<Rightarrow> Rows ys g))"

definition pending_via :: "('s \<Rightarrow> row list \<Rightarrow> exn option \<Rightarrow> bool) \<Rightarrow> (row list \<Rightarrow> exn option \<Rightarrow> row list \<times> exn option) \<Rightarrow> 's \<Rightarrow> row list \<Rightarrow> exn option \<Rightarrow> bool" where
  "pending_via pend h s ys g = (\<exists>xs f. pend s xs f \<and> h xs f = (ys, g))"

lemma pending_viaI: "pend s xs f \<Longrightarrow> h xs f = (ys, g) \<Longrightarrow> pending_via pend h s ys g"
  by (auto simp: pending_via_def)

definition filter_row :: "Expression \<Rightarrow> Schema \<Rightarrow> row \<Rightarrow> exn + row option" where
  "filter_row p sch r = try_bind (passes p sch r) (\<lambda>b. Inr (if b then Some r else None))"

definition projection_row :: "Expression list \<Rightarrow> Schema \<Rightarrow> Schema \<Rightarrow> row \<Rightarrow> exn + row option" where
  "projection_row es cs os r = try_bind (project_row es cs os r) (\<lambda>r'. Inr (Some r'))"

context executor
begin

lemma via_init_throws: "inv s \<Longrightarrow> beh_map h beh = InitThrows e \<Longrightarrow> ini s = throws e"
  using init_throws by (auto simp: beh_map_def split: behaviour.splits prod.splits)

lemma via_init_rows:
  assumes "inv s" "beh_map h beh = Rows ys g"
  shows "\<exists>s1. ini s = return s1 \<and> pending_via pending h s1 ys g"
proof -
  obtain xs f where b: "beh = Rows xs f" "h xs f = (ys, g)"
    using assms(2) by (auto simp: beh_map_def split: behaviour.splits prod.splits)
  obtain s1 where "ini s = return s1" "pending s1 xs f" using init_rows [OF assms(1) b(1)] by blast
  then show ?thesis using b(2) by (auto simp: pending_via_def)
qed

text \<open>An operator whose \<open>next\<close> pulls rows from the child until one is kept.\<close>

lemma via_executor:
  assumes ini: "\<And>s. ini' s = ini s"
    and step: "\<And>s. nxt' s = then_do (nxt s) (\<lambda>(r, s1). case r of None \<Rightarrow> return (None, s1)
      | Some x \<Rightarrow> (case k x of Inl e \<Rightarrow> throws e | Inr None \<Rightarrow> nxt' s1 | Inr (Some y) \<Rightarrow> return (Some y, s1)))"
  shows "executor ini' nxt' inv (pending_via pending (trans_rows k)) (beh_map (trans_rows k) beh)"
proof (rule executorI)
  have *: "outcome nxt' (pending_via pending (trans_rows k)) s ys g" if "pending s xs f" "trans_rows k xs f = (ys, g)" for s xs f ys g
    using that
  proof (induction xs arbitrary: s)
    case Nil
    then show ?case
      using next_end [of s] next_throws [of s]
      by (cases f) (auto simp: step [of s] outcome_def intro!: pending_viaI [of _ _ "[]" None])
  next
    case (Cons x xs)
    obtain s1 where s1: "nxt s = return (Some x, s1)" "pending s1 xs f" using Cons.prems next_row by blast
    show ?case
    proof (cases "k x")
      case (Inl e)
      then show ?thesis using Cons.prems(2) s1 by (auto simp: step [of s] outcome_def)
    next
      case (Inr o1)
      show ?thesis
      proof (cases o1)
        case None
        then have eq: "nxt' s = nxt' s1" "trans_rows k xs f = (ys, g)" using s1(1) Inr Cons.prems(2) by (simp_all add: step [of s])
        show ?thesis unfolding outcome_cong [of nxt', OF eq(1)] by (rule Cons.IH [OF s1(2) eq(2)])
      next
        case (Some y)
        then show ?thesis using Cons.prems(2) s1 Inr by (auto simp: step [of s] outcome_def intro: pending_viaI split: prod.splits)
      qed
    qed
  qed
  show "outcome nxt' (pending_via pending (trans_rows k)) s ys g" if "pending_via pending (trans_rows k) s ys g" for s ys g
    using that * by (auto simp: pending_via_def)
  show "inv s" if "pending_via pending (trans_rows k) s ys g" for s ys g
    using that pending_inv by (auto simp: pending_via_def)
qed (use via_init_throws via_init_rows [of _ "trans_rows k"] ini in auto)

lemma filter_executor:
  "executor (filter_init ini) (filter_next nxt p sch) inv (pending_via pending (trans_rows (filter_row p sch))) (beh_map (trans_rows (filter_row p sch)) beh)"
  by (rule via_executor, simp add: filter_init_def, subst filter_next.simps)
    (auto simp: filter_row_def intro!: arg_cong2 [of _ _ _ _ then_do] split: option.splits sum.splits)

lemma projection_executor:
  "executor (filter_init ini) (projection_next nxt es cs os) inv (pending_via pending (trans_rows (projection_row es cs os)))
     (beh_map (trans_rows (projection_row es cs os)) beh)"
  by (rule via_executor, simp add: filter_init_def)
    (auto simp: projection_next_def projection_row_def intro!: arg_cong2 [of _ _ _ _ then_do] split: option.splits sum.splits)

lemma having_executor:
  "executor (filter_init ini) (having_next nxt p sch) inv
     (pending_via pending (case p of None \<Rightarrow> Pair | Some q \<Rightarrow> trans_rows (filter_row q sch)))
     (beh_map (case p of None \<Rightarrow> Pair | Some q \<Rightarrow> trans_rows (filter_row q sch)) beh)"
proof (cases p)
  case None
  have "filter_init ini = ini" "having_next nxt None sch = nxt" by (auto simp: filter_init_def having_next_def)
  moreover have "pending_via pending Pair = pending" by (auto simp: pending_via_def fun_eq_iff)
  moreover have "beh_map Pair beh = beh" by (simp add: beh_map_def split: behaviour.splits)
  ultimately show ?thesis using None executor_axioms by simp
next
  case (Some q)
  have "having_next nxt (Some q) sch = filter_next nxt q sch" by (auto simp: having_next_def)
  then show ?thesis using Some filter_executor by simp
qed

end

subsection \<open>Limit and offset\<close>

definition limit_rows :: "nat \<Rightarrow> row list \<Rightarrow> exn option \<Rightarrow> row list \<times> exn option" where
  "limit_rows n xs f = (take n xs, if n \<le> length xs then None else f)"

definition limit_beh :: "nat \<Rightarrow> nat \<Rightarrow> behaviour \<Rightarrow> behaviour" where
  "limit_beh limit offset b = (case b of InitThrows e \<Rightarrow> InitThrows e
     | Rows xs f \<Rightarrow> (if length xs < offset \<and> f \<noteq> None then InitThrows (the f)
         else case limit_rows limit (drop offset xs) f of (ys, g) \<Rightarrow> Rows ys g))"

context executor
begin

lemma limit_executor:
  "executor (limit_init ini nxt offset) (limit_next nxt limit) (\<lambda>s. inv (fst s))
     (\<lambda>s. pending_via pending (limit_rows (limit - snd s)) (fst s)) (limit_beh limit offset beh)"
proof
  show "limit_init ini nxt offset s = throws e" if i: "inv (fst s)" and b: "limit_beh limit offset beh = InitThrows e" for s e
  proof (cases beh)
    case (Rows xs f)
    then obtain s1 where s1: "ini (fst s) = return s1" "pending s1 xs f" using init_rows [OF i] by blast
    have "f = Some e" "length xs < offset"
      using b Rows by (auto simp: limit_beh_def split: if_splits prod.splits)
    then show ?thesis using skip_pending [OF s1(2), of offset] s1(1) by (auto simp: limit_init_def)
  qed (use that init_throws in \<open>simp add: limit_init_def limit_beh_def\<close>)
next
  show "\<exists>s1. limit_init ini nxt offset s = return s1 \<and> pending_via pending (limit_rows (limit - snd s1)) (fst s1) ys g"
    if i: "inv (fst s)" and b: "limit_beh limit offset beh = Rows ys g" for s ys g
  proof (cases beh)
    case (Rows xs f)
    then obtain s1 where s1: "ini (fst s) = return s1" "pending s1 xs f" using init_rows [OF i] by blast
    have "length xs < offset \<longrightarrow> f = None" "limit_rows limit (drop offset xs) f = (ys, g)"
      using b Rows by (auto simp: limit_beh_def split: if_splits prod.splits)
    then show ?thesis using skip_pending [OF s1(2), of offset] s1(1)
      by (auto simp: limit_init_def intro!: pending_viaI)
  qed (use that in \<open>simp add: limit_beh_def\<close>)
next
  fix s x ys g
  assume "pending_via pending (limit_rows (limit - snd s)) (fst s) (x # ys) g"
  then obtain xs f where xs: "pending (fst s) xs f" "limit_rows (limit - snd s) xs f = (x # ys, g)" by (auto simp: pending_via_def)
  then obtain zs where zs: "xs = x # zs" "snd s < limit" "limit_rows (limit - (snd s + 1)) zs f = (ys, g)"
    by (cases xs; cases "limit - snd s") (auto simp: limit_rows_def diff_Suc)
  then obtain s1 where "nxt (fst s) = return (Some x, s1)" "pending s1 zs f" using xs(1) next_row by blast
  then show "\<exists>s1. limit_next nxt limit s = return (Some x, s1) \<and> pending_via pending (limit_rows (limit - snd s1)) (fst s1) ys g"
    using zs by (auto simp: limit_next_def intro!: pending_viaI)
next
  fix s
  assume "pending_via pending (limit_rows (limit - snd s)) (fst s) [] None"
  then obtain xs f where xs: "pending (fst s) xs f" "limit_rows (limit - snd s) xs f = ([], None)" by (auto simp: pending_via_def)
  show "\<exists>s1. limit_next nxt limit s = return (None, s1) \<and> pending_via pending (limit_rows (limit - snd s1)) (fst s1) [] None"
  proof (cases "snd s < limit")
    case True
    then have "xs = []" "f = None" using xs(2) by (auto simp: limit_rows_def split: if_splits)
    then show ?thesis using True xs next_end [of "fst s"] by (auto simp: limit_next_def intro!: pending_viaI)
  next
    case False
    then show ?thesis using xs by (auto simp: limit_next_def intro!: pending_viaI)
  qed
next
  fix s e
  assume "pending_via pending (limit_rows (limit - snd s)) (fst s) [] (Some e)"
  then obtain xs f where xs: "pending (fst s) xs f" "limit_rows (limit - snd s) xs f = ([], Some e)" by (auto simp: pending_via_def)
  then have "xs = []" "f = Some e" "snd s < limit" by (auto simp: limit_rows_def split: if_splits)
  then show "limit_next nxt limit s = throws e" using xs next_throws [of "fst s"] by (simp add: limit_next_def)
next
  show "inv (fst s)" if "pending_via pending (limit_rows (limit - snd s)) (fst s) ys g" for s ys g
    using that pending_inv by (auto simp: pending_via_def)
qed

end

subsection \<open>Nested loop join\<close>

definition match_row :: "Expression option \<Rightarrow> Schema \<Rightarrow> Schema \<Rightarrow> row \<Rightarrow> row \<Rightarrow> exn + row option" where
  "match_row p ls rs l r = try_bind (join_match p ls rs l r) (\<lambda>b. Inr (if b then Some (combine_rows l r) else None))"

definition then_rows :: "row list \<times> exn option \<Rightarrow> row list \<times> exn option \<Rightarrow> row list \<times> exn option" where
  "then_rows a b = (if snd a = None then (fst a @ fst b, snd b) else a)"

lemma then_rows_Cons: "then_rows (case t of (ys, g) \<Rightarrow> (y # ys, g)) b = (case then_rows t b of (ys, g) \<Rightarrow> (y # ys, g))"
  by (cases t) (simp add: then_rows_def)

text \<open>For every left row in order, the right rows in order.\<close>

fun join_rows :: "(row \<Rightarrow> row \<Rightarrow> exn + row option) \<Rightarrow> row list \<Rightarrow> exn option \<Rightarrow> row list \<Rightarrow> exn option \<Rightarrow> row list \<times> exn option" where
  "join_rows m rs rf [] lf = ([], lf)"
| "join_rows m rs rf (l # ls) lf = then_rows (trans_rows (m l) rs rf) (join_rows m rs rf ls lf)"

definition nlj_beh :: "(row \<Rightarrow> row \<Rightarrow> exn + row option) \<Rightarrow> behaviour \<Rightarrow> behaviour \<Rightarrow> behaviour" where
  "nlj_beh m lb rb = (case lb of InitThrows e \<Rightarrow> InitThrows e
     | Rows ls lf \<Rightarrow> (case rb of InitThrows e \<Rightarrow> InitThrows e
       | Rows rs rf \<Rightarrow> (case (ls, lf) of ([], Some e) \<Rightarrow> InitThrows e
           | _ \<Rightarrow> (case join_rows m rs rf ls lf of (ys, g) \<Rightarrow> Rows ys g))))"

definition nlj_pending :: "'w \<Rightarrow> ('l \<times> 'w \<Rightarrow> bool) \<Rightarrow> ('l \<times> 'w \<Rightarrow> row list \<Rightarrow> exn option \<Rightarrow> bool) \<Rightarrow> ('r \<times> 'w \<Rightarrow> bool) \<Rightarrow>
    ('r \<times> 'w \<Rightarrow> row list \<Rightarrow> exn option \<Rightarrow> bool) \<Rightarrow>
    behaviour \<Rightarrow> (row \<Rightarrow> row \<Rightarrow> exn + row option) \<Rightarrow> ('l, 'r) NestedLoopJoin \<times> 'w \<Rightarrow> row list \<Rightarrow> exn option \<Rightarrow> bool" where
  "nlj_pending w linv lpend rinv rpend rbeh m x ys g = (snd x = w \<and> (if nl_has_more (fst x)
   then \<exists>ls lf rs rs0 rf. lpend (nl_left (fst x), w) ls lf \<and> rpend (nl_right (fst x), w) rs rf \<and> rbeh = Rows rs0 rf \<and>
     then_rows (trans_rows (m (nl_current (fst x))) rs rf) (join_rows m rs0 rf ls lf) = (ys, g)
   else ys = [] \<and> g = None \<and> linv (nl_left (fst x), w) \<and> rinv (nl_right (fst x), w)))"

lemma nlj_pending_end:
  "\<not> nl_has_more s \<Longrightarrow> linv (nl_left s, w) \<Longrightarrow> rinv (nl_right s, w) \<Longrightarrow> nlj_pending w linv lpend rinv rpend rbeh m (s, w) [] None"
  by (simp add: nlj_pending_def)

lemma nlj_pending_more:
  "nl_has_more s \<Longrightarrow> lpend (nl_left s, w) ls lf \<Longrightarrow> rpend (nl_right s, w) rs rf \<Longrightarrow> rbeh = Rows rs0 rf \<Longrightarrow>
   then_rows (trans_rows (m (nl_current s)) rs rf) (join_rows m rs0 rf ls lf) = (ys, g) \<Longrightarrow>
   nlj_pending w linv lpend rinv rpend rbeh m (s, w) ys g"
  by (auto simp: nlj_pending_def)

text \<open>An executor that leaves the shared context as it is.\<close>

locale context_executor = executor ini nxt inv pending beh
  for ini :: "('c \<times> 'w) init_op" and nxt inv pending beh and w :: 'w +
  assumes inv_context: "inv s \<Longrightarrow> snd s = w"
begin

lemma start: "inv (s, w) \<Longrightarrow> beh = Rows xs f \<Longrightarrow> \<exists>s1. ini (s, w) = return (s1, w) \<and> pending (s1, w) xs f"
  using init_rows [of "(s, w)"] pending_inv inv_context by (metis prod.collapse)

lemma row: "pending (s, w) (x # xs) f \<Longrightarrow> \<exists>s1. nxt (s, w) = return (Some x, (s1, w)) \<and> pending (s1, w) xs f"
  using next_row [of "(s, w)"] pending_inv inv_context by (metis prod.collapse)

lemma finished: "pending (s, w) [] None \<Longrightarrow> \<exists>s1. nxt (s, w) = return (None, (s1, w)) \<and> pending (s1, w) [] None"
  using next_end [of "(s, w)"] pending_inv inv_context by (metis prod.collapse)

end

definition lift_inv :: "('c \<Rightarrow> bool) \<Rightarrow> 'w \<Rightarrow> 'c \<times> 'w \<Rightarrow> bool" where
  "lift_inv iv w s = (iv (fst s) \<and> snd s = w)"

definition lift_pending :: "('c \<Rightarrow> row list \<Rightarrow> exn option \<Rightarrow> bool) \<Rightarrow> 'w \<Rightarrow> 'c \<times> 'w \<Rightarrow> row list \<Rightarrow> exn option \<Rightarrow> bool" where
  "lift_pending pend w s ys g = (pend (fst s) ys g \<and> snd s = w)"

context executor
begin

lemma lift_executor: "context_executor (lift_init ini) (lift_next nxt) (lift_inv inv w) (lift_pending pending w) beh w"
proof (rule context_executor.intro)
  show "executor (lift_init ini) (lift_next nxt) (lift_inv inv w) (lift_pending pending w) beh"
    by (rule executor.intro) (use init_throws init_rows next_row next_end next_throws pending_inv in
      \<open>fastforce simp: lift_init_def lift_next_def lift_inv_def lift_pending_def\<close>)+
qed (simp add: context_executor_axioms_def lift_inv_def)

end

locale two_executors = l: context_executor lini lnxt linv lpend lbeh w + r: context_executor rini rnxt rinv rpend rbeh w
  for lini :: "('l \<times> 'w) init_op" and lnxt linv lpend lbeh and rini :: "('r \<times> 'w) init_op" and rnxt rinv rpend rbeh and w :: 'w
begin

abbreviation "npend \<equiv> nlj_pending w linv lpend rinv rpend rbeh"

lemma nl_advance_pending:
  assumes "lpend (nl_left s, w) ls lf"
  shows "case ls of
     l # ls' \<Rightarrow> \<exists>l1. nl_advance lnxt (s, w) = return (s\<lparr>nl_left := l1, nl_has_more := True, nl_current := l\<rparr>, w) \<and> lpend (l1, w) ls' lf
   | [] \<Rightarrow> (case lf of None \<Rightarrow> \<exists>l1. nl_advance lnxt (s, w) = return (s\<lparr>nl_left := l1, nl_has_more := False\<rparr>, w) \<and> lpend (l1, w) [] None
       | Some e \<Rightarrow> nl_advance lnxt (s, w) = throws e)"
  using assms l.row [of "nl_left s"] l.finished [of "nl_left s"] l.next_throws [of "(nl_left s, w)"]
  by (cases ls; cases lf) (fastforce simp: nl_advance_def)+

abbreviation "nlj p lsch rsch \<equiv> nlj_next lnxt rini rnxt p lsch rsch"

text \<open>The right input is exhausted: go on with the next left row.\<close>

lemma nlj_right_end:
  assumes "nl_has_more s" "rpend (nl_right s, w) [] None"
  obtains r1 where "rpend (r1, w) [] None" "nlj p lsch rsch (s, w) = then_do (nl_advance lnxt (s\<lparr>nl_right := r1\<rparr>, w)) (\<lambda>(s2, w2).
      if nl_has_more s2 then then_do (rini (nl_right s2, w2)) (\<lambda>(r2, w3). nlj p lsch rsch (s2\<lparr>nl_right := r2\<rparr>, w3)) else return (None, (s2, w2)))"
proof -
  obtain r1 where r1: "rnxt (nl_right s, w) = return (None, (r1, w))" "rpend (r1, w) [] None" using r.finished [OF assms(2)] by blast
  have "nlj p lsch rsch (s2, w2) = return (None, (s2, w2))" if "\<not> nl_has_more s2" for s2 w2
    using that by (subst nlj_next.simps) simp
  then have "nlj p lsch rsch (s, w) = then_do (nl_advance lnxt (s\<lparr>nl_right := r1\<rparr>, w)) (\<lambda>(s2, w2).
      if nl_has_more s2 then then_do (rini (nl_right s2, w2)) (\<lambda>(r2, w3). nlj p lsch rsch (s2\<lparr>nl_right := r2\<rparr>, w3)) else return (None, (s2, w2)))"
    using assms(1) r1(1) by (subst nlj_next.simps) (auto intro!: arg_cong2 [of _ _ _ _ then_do])
  then show thesis using r1(2) that by blast
qed

text \<open>From the right rows still to come to the exhausted right input.\<close>

lemma nlj_right_rows:
  assumes m: "m = match_row p lsch rsch"
    and at_end: "\<And>s ys g. nl_has_more s \<Longrightarrow> lpend (nl_left s, w) ls lf \<Longrightarrow> rpend (nl_right s, w) [] rf \<Longrightarrow>
      then_rows ([], rf) (join_rows m rs0 rf ls lf) = (ys, g) \<Longrightarrow> outcome (nlj p lsch rsch) (npend m) (s, w) ys g"
    and s: "nl_has_more s" "lpend (nl_left s, w) ls lf" "rpend (nl_right s, w) rs rf" "rbeh = Rows rs0 rf"
    "then_rows (trans_rows (m (nl_current s)) rs rf) (join_rows m rs0 rf ls lf) = (ys, g)"
  shows "outcome (nlj p lsch rsch) (npend m) (s, w) ys g"
  using s
proof (induction rs arbitrary: s)
  case (Cons x rs)
  obtain r1 where r1: "rnxt (nl_right s, w) = return (Some x, (r1, w))" "rpend (r1, w) rs rf" using Cons.prems(3) r.row by blast
  let ?s = "s\<lparr>nl_right := r1\<rparr>"
  have mx: "m (nl_current s) x = Inr (if b then Some (combine_rows (nl_current s) x) else None)"
    if "join_match p lsch rsch (nl_current s) x = Inr b" for b
    using that by (simp add: m match_row_def)
  show ?case
  proof (cases "join_match p lsch rsch (nl_current s) x")
    case (Inl e)
    then have "nlj p lsch rsch (s, w) = throws e" "ys = []" "g = Some e"
      using Cons.prems r1(1) by (subst nlj_next.simps, simp_all add: m match_row_def then_rows_def)
    then show ?thesis by (simp add: outcome_def)
  next
    case (Inr b)
    show ?thesis
    proof (cases b)
      case True
      then have "nlj p lsch rsch (s, w) = return (Some (combine_rows (nl_current s) x), (?s, w))"
        using Inr Cons.prems(1) r1(1) by (subst nlj_next.simps) simp
      moreover obtain zs where "ys = combine_rows (nl_current s) x # zs"
          "then_rows (trans_rows (m (nl_current s)) rs rf) (join_rows m rs0 rf ls lf) = (zs, g)"
        using Cons.prems(5) True mx [OF Inr] by (auto simp: then_rows_Cons split: prod.splits)
      ultimately show ?thesis using Cons.prems r1(2) by (auto simp: outcome_def nlj_pending_def)
    next
      case False
      then have eq: "nlj p lsch rsch (s, w) = nlj p lsch rsch (?s, w)" using Inr Cons.prems(1) r1(1) by (subst nlj_next.simps) simp
      show ?thesis unfolding outcome_cong [of "nlj p lsch rsch", OF eq]
        by (rule Cons.IH) (use Cons.prems r1(2) mx [OF Inr] False in auto)
    qed
  qed
qed (use at_end in simp)

lemma nlj_right_fails:
  assumes "nl_has_more s" "rpend (nl_right s, w) [] (Some e)" "then_rows ([], Some e) t = (ys, g)"
  shows "outcome (nlj p lsch rsch) (npend m) (s, w) ys g"
  using assms r.next_throws [OF assms(2)] by (subst outcome_def, subst nlj_next.simps) (auto simp: then_rows_def)

lemma nlj_outcome:
  assumes m: "m = match_row p lsch rsch" and "nl_has_more s" "lpend (nl_left s, w) ls lf" "rpend (nl_right s, w) rs rf" "rbeh = Rows rs0 rf"
    "then_rows (trans_rows (m (nl_current s)) rs rf) (join_rows m rs0 rf ls lf) = (ys, g)"
  shows "outcome (nlj p lsch rsch) (npend m) (s, w) ys g"
  using assms(2-)
proof (induction ls arbitrary: rs s ys g)
  case Nil
  show ?case
  proof (rule nlj_right_rows [OF m _ Nil.prems])
    fix s :: "('l, 'r) NestedLoopJoin" and ys g
    assume s: "nl_has_more s" "lpend (nl_left s, w) [] lf" "rpend (nl_right s, w) [] rf" "then_rows ([], rf) (join_rows m rs0 rf [] lf) = (ys, g)"
    show "outcome (nlj p lsch rsch) (npend m) (s, w) ys g"
    proof (cases rf)
      case None
      obtain r1 where r1: "rpend (r1, w) [] None" "nlj p lsch rsch (s, w) = then_do (nl_advance lnxt (s\<lparr>nl_right := r1\<rparr>, w)) (\<lambda>(s2, w2).
          if nl_has_more s2 then then_do (rini (nl_right s2, w2)) (\<lambda>(r2, w3). nlj p lsch rsch (s2\<lparr>nl_right := r2\<rparr>, w3)) else return (None, (s2, w2)))"
        by (rule nlj_right_end [OF s(1)]) (use s(3) None in simp)
      then show ?thesis
        using nl_advance_pending [of "s\<lparr>nl_right := r1\<rparr>" "[]" lf] s None r.pending_inv [OF r1(1)] l.pending_inv [of _ "[]" None]
        by (cases lf) (auto simp: outcome_def then_rows_def intro!: nlj_pending_end)
    qed (use nlj_right_fails s in blast)
  qed
next
  case (Cons l ls)
  show ?case
  proof (rule nlj_right_rows [OF m _ Cons.prems])
    fix s :: "('l, 'r) NestedLoopJoin" and ys g
    assume s: "nl_has_more s" "lpend (nl_left s, w) (l # ls) lf" "rpend (nl_right s, w) [] rf" "then_rows ([], rf) (join_rows m rs0 rf (l # ls) lf) = (ys, g)"
    show "outcome (nlj p lsch rsch) (npend m) (s, w) ys g"
    proof (cases rf)
      case None
      obtain r1 where r1: "rpend (r1, w) [] None" "nlj p lsch rsch (s, w) = then_do (nl_advance lnxt (s\<lparr>nl_right := r1\<rparr>, w)) (\<lambda>(s2, w2).
          if nl_has_more s2 then then_do (rini (nl_right s2, w2)) (\<lambda>(r2, w3). nlj p lsch rsch (s2\<lparr>nl_right := r2\<rparr>, w3)) else return (None, (s2, w2)))"
        by (rule nlj_right_end [OF s(1)]) (use s(3) None in simp)
      obtain l1 where l1: "nl_advance lnxt (s\<lparr>nl_right := r1\<rparr>, w) = return (s\<lparr>nl_right := r1, nl_left := l1, nl_has_more := True, nl_current := l\<rparr>, w)"
          "lpend (l1, w) ls lf"
        using nl_advance_pending [of "s\<lparr>nl_right := r1\<rparr>" "l # ls" lf] s(2) by auto
      obtain r2 where r2: "rini (r1, w) = return (r2, w)" "rpend (r2, w) rs0 rf" using r.start [OF r.pending_inv [OF r1(1)] Cons.prems(4)] by blast
      let ?s = "s\<lparr>nl_left := l1, nl_has_more := True, nl_current := l, nl_right := r2\<rparr>"
      have eq: "nlj p lsch rsch (s, w) = nlj p lsch rsch (?s, w)" using r1(2) l1(1) r2(1) by simp
      show ?thesis unfolding outcome_cong [of "nlj p lsch rsch", OF eq]
        by (rule Cons.IH) (use l1(2) r2(2) s(4) None Cons.prems(4) in \<open>auto simp: then_rows_def\<close>)
    qed (use nlj_right_fails s in blast)
  qed
qed

lemma nlj_executor:
  "context_executor (nlj_init lini lnxt rini) (nlj p lsch rsch) (\<lambda>x. snd x = w \<and> linv (nl_left (fst x), w) \<and> rinv (nl_right (fst x), w))
     (npend (match_row p lsch rsch)) (nlj_beh (match_row p lsch rsch) lbeh rbeh) w"
proof (rule context_executor.intro, rule executorI)
  let ?m = "match_row p lsch rsch" and ?inv = "\<lambda>x :: ('l, 'r) NestedLoopJoin \<times> 'w. snd x = w \<and> linv (nl_left (fst x), w) \<and> rinv (nl_right (fst x), w)"
  show "outcome (nlj p lsch rsch) (npend ?m) x ys g" if n: "npend ?m x ys g" for x ys g
  proof -
    obtain s where x: "x = (s, w)" using n by (cases x) (simp add: nlj_pending_def)
    show ?thesis
    proof (cases "nl_has_more s")
      case True
      then obtain ls lf rs rs0 rf where "lpend (nl_left s, w) ls lf" "rpend (nl_right s, w) rs rf" "rbeh = Rows rs0 rf"
          "then_rows (trans_rows (?m (nl_current s)) rs rf) (join_rows ?m rs0 rf ls lf) = (ys, g)"
        using n x unfolding nlj_pending_def by auto
      then show ?thesis unfolding x by (rule nlj_outcome [OF refl True])
    next
      case False
      then have "nlj p lsch rsch (s, w) = return (None, (s, w))" by (subst nlj_next.simps) simp
      then show ?thesis using n False x by (auto simp: nlj_pending_def outcome_def)
    qed
  qed
  show "?inv x" if "npend ?m x ys g" for x ys g
    using that l.pending_inv r.pending_inv by (auto simp: nlj_pending_def split: if_splits)
  show "nlj_init lini lnxt rini x = throws e" if i: "?inv x" and b: "nlj_beh ?m lbeh rbeh = InitThrows e" for x e
    using i b l.init_throws [of "(nl_left (fst x), w)"] r.init_throws [of "(nl_right (fst x), w)"] l.start [of "nl_left (fst x)"] r.start [of "nl_right (fst x)"]
      l.next_throws
    by (fastforce simp: nlj_init_def nlj_beh_def nl_advance_def split: behaviour.splits list.splits option.splits prod.splits)
  fix x ys g
  assume i: "?inv x" and b: "nlj_beh ?m lbeh rbeh = Rows ys g"
  then obtain ls lf rs rf where L: "lbeh = Rows ls lf" and R: "rbeh = Rows rs rf" and J: "join_rows ?m rs rf ls lf = (ys, g)"
      and E: "ls = [] \<longrightarrow> lf = None"
    by (auto simp: nlj_beh_def split: behaviour.splits list.splits option.splits prod.splits)
  obtain s where x: "x = (s, w)" using i by (cases x) simp
  obtain l1 r1 where l1: "lini (nl_left s, w) = return (l1, w)" "lpend (l1, w) ls lf" and r1: "rini (nl_right s, w) = return (r1, w)" "rpend (r1, w) rs rf"
    using l.start [OF _ L] r.start [OF _ R] i x by fastforce
  show "\<exists>s1. nlj_init lini lnxt rini x = return s1 \<and> npend ?m s1 ys g"
    using nl_advance_pending [of "s\<lparr>nl_left := l1, nl_right := r1\<rparr>" ls lf] l1 r1 R J E l.pending_inv r.pending_inv [OF r1(2)] x
    by (cases ls) (auto simp: nlj_init_def intro!: nlj_pending_end nlj_pending_more)
qed (simp add: context_executor_axioms_def)

end

subsection \<open>Values\<close>

fun values_rows :: "Schema \<Rightarrow> Expression list list \<Rightarrow> row list \<times> exn option" where
  "values_rows sch [] = ([], None)"
| "values_rows sch (es # ess) = (case values_row sch es row_buffer of
     Inl e \<Rightarrow> ([], Some e)
   | Inr s \<Rightarrow> (case values_rows sch ess of (ys, g) \<Rightarrow> ((row_of s, default_RID) # ys, g)))"

definition values_inv :: "Expression list list \<Rightarrow> Schema \<Rightarrow> ValuesExecutor \<Rightarrow> bool" where
  "values_inv ess sch s = (val_values s = ess \<and> val_schema s = sch)"

definition values_pending :: "Expression list list \<Rightarrow> Schema \<Rightarrow> ValuesExecutor \<Rightarrow> row list \<Rightarrow> exn option \<Rightarrow> bool" where
  "values_pending ess sch s ys g = (values_inv ess sch s \<and> values_rows sch (drop (val_cursor s) ess) = (ys, g))"

definition values_beh :: "Expression list list \<Rightarrow> Schema \<Rightarrow> behaviour" where
  "values_beh ess sch = (case values_rows sch ess of (ys, g) \<Rightarrow> Rows ys g)"

interpretation vals: executor values_init values_next "values_inv ess sch" "values_pending ess sch" "values_beh ess sch" for ess sch
proof (rule executorI)
  fix s ys g
  assume p: "values_pending ess sch s ys g"
  then have i: "values_inv ess sch s" by (simp add: values_pending_def)
  show "outcome values_next (values_pending ess sch) s ys g"
  proof (cases "val_cursor s < length ess")
    case True
    then have "drop (val_cursor s) ess = ess ! val_cursor s # drop (Suc (val_cursor s)) ess" by (rule Cons_nth_drop_Suc [symmetric])
    then show ?thesis using p i True
      by (auto simp: values_pending_def values_inv_def outcome_def values_next_def split: sum.splits prod.splits)
  next
    case False
    then show ?thesis using p i by (auto simp: values_pending_def values_inv_def outcome_def values_next_def)
  qed
qed (auto simp: values_init_def values_beh_def values_pending_def values_inv_def split: prod.splits)

text \<open>The operators over such a child, and the join of two of them.\<close>

interpretation filtered_values: executor "filter_init values_init" "filter_next values_next p sch'" "values_inv ess sch"
    "pending_via (values_pending ess sch) (trans_rows (filter_row p sch'))" "beh_map (trans_rows (filter_row p sch')) (values_beh ess sch)"
  for ess sch p sch'
  by (rule vals.filter_executor)

interpretation limited_values: executor "limit_init values_init values_next offset" "limit_next values_next limit"
    "\<lambda>s. values_inv ess sch (fst s)" "\<lambda>s. pending_via (values_pending ess sch) (limit_rows (limit - snd s)) (fst s)"
    "limit_beh limit offset (values_beh ess sch)"
  for ess sch offset limit
  by (rule vals.limit_executor)

interpretation value_pairs: two_executors "lift_init values_init" "lift_next values_next" "lift_inv (values_inv ess1 sch1) w"
    "lift_pending (values_pending ess1 sch1) w" "values_beh ess1 sch1"
    "lift_init values_init" "lift_next values_next" "lift_inv (values_inv ess2 sch2) w" "lift_pending (values_pending ess2 sch2) w" "values_beh ess2 sch2" w
  for ess1 sch1 ess2 sch2 w
  by (rule two_executors.intro) (rule vals.lift_executor)+

lemma eval_write_values:
  "eval_all es [] [] = Inr vs \<Longrightarrow> values_row sch es s = write_row sch vs s"
proof (induction es arbitrary: vs sch s)
  case (Cons e es)
  then obtain v ws where v: "evaluate e [] [] = Inr v" "eval_all es [] [] = Inr ws" "vs = v # ws" by (auto simp: try_bind_Inr)
  show ?case
  proof (cases sch)
    case (Cons c cs)
    then show ?thesis using v Cons.IH [OF v(2)] by (cases "write_column c v s") simp_all
  qed (use v in simp)
qed simp

subsection \<open>Properties\<close>

lemma trans_rows_pure:
  "(\<And>x. x \<in> set xs \<Longrightarrow> k x = Inr (h x)) \<Longrightarrow> trans_rows k xs f = (List.map_filter h xs, f)"
  by (induction xs) (auto simp: List.map_filter_def split: option.splits)

text \<open>
  A filter, a having clause and a projection over any executor that keeps the contract: running the query gives, in the order of the child, the
  rows that pass the predicate (are computed by the expressions).  Evaluation that throws ends the query with that exception after the rows before
  it, and an exception of the child is passed on; in every case the run ends.
\<close>

theorem row_operators_run:
  assumes "executor ini nxt iv pend (Rows xs f)" "iv s"
  shows "run_query (filter_init ini) (filter_next nxt p sch) s = Some (trans_rows (filter_row p sch) xs f) \<and>
    run_query (filter_init ini) (having_next nxt (Some p) sch) s = Some (trans_rows (filter_row p sch) xs f) \<and>
    run_query (filter_init ini) (having_next nxt None sch) s = Some (xs, f) \<and>
    run_query (filter_init ini) (projection_next nxt es sch out) s = Some (trans_rows (projection_row es sch out) xs f) \<and>
    ((\<forall>x\<in>set xs. passes p sch x = Inr (b x)) \<longrightarrow> trans_rows (filter_row p sch) xs f = (filter b xs, f))"
proof (intro conjI impI)
  note E = executor.filter_executor [OF assms(1)] executor.having_executor [OF assms(1)] executor.projection_executor [OF assms(1)]
  note R = executor.run_beh [OF E(1) assms(2)] executor.run_beh [OF E(2) assms(2)] executor.run_beh [OF E(3) assms(2)]
  show "run_query (filter_init ini) (filter_next nxt p sch) s = Some (trans_rows (filter_row p sch) xs f)"
    "run_query (filter_init ini) (having_next nxt (Some p) sch) s = Some (trans_rows (filter_row p sch) xs f)"
    "run_query (filter_init ini) (having_next nxt None sch) s = Some (xs, f)"
    "run_query (filter_init ini) (projection_next nxt es sch out) s = Some (trans_rows (projection_row es sch out) xs f)"
    unfolding R by (simp_all add: beh_map_def split: prod.splits)
  assume "\<forall>x\<in>set xs. passes p sch x = Inr (b x)"
  then have "trans_rows (filter_row p sch) xs f = (List.map_filter (\<lambda>x. if b x then Some x else None) xs, f)"
    by (intro trans_rows_pure) (simp add: filter_row_def)
  moreover have "List.map_filter (\<lambda>x. if b x then Some x else None) xs = filter b xs"
    by (induction xs) (auto simp: List.map_filter_def)
  ultimately show "trans_rows (filter_row p sch) xs f = (filter b xs, f)" by simp
qed

text \<open>Two rows of one integer column, as \<open>VALUES (1), (2)\<close>.\<close>

definition int_schema :: Schema where
  "int_schema = [\<lparr>col_name = [97], col_type = ColInteger\<rparr>]"

definition sample_values :: "Expression list list" where
  "sample_values = [[EConst (VInt 1)], [EConst (VInt 2)]]"

definition int_row :: "int \<Rightarrow> row" where
  "int_row i = (row_bytes [VInt i], default_RID)"

definition sample_exec :: ValuesExecutor where
  "sample_exec = \<lparr>val_values = sample_values, val_schema = int_schema, val_cursor = 0\<rparr>"

lemma int_row_encodes: "int32 i \<Longrightarrow> encodes int_schema [VInt i] (fst (int_row i))"
  by (simp add: encodes_def int_schema_def value_fits_def int_row_def)

lemma values_int_row: "int32 i \<Longrightarrow> values_row int_schema [EConst (VInt i)] row_buffer = Inr (ser_put row_buffer (row_bytes [VInt i]))"
  using write_row_put [of int_schema "[VInt i]" row_buffer] eval_write_values [of "[EConst (VInt i)]" "[VInt i]" int_schema row_buffer]
  by (simp add: int_schema_def value_fits_def value_bytes_def evaluate_def)

lemma sample_values_rows: "values_rows int_schema sample_values = ([int_row 1, int_row 2], None)"
proof -
  have "row_of (ser_put row_buffer (row_bytes [VInt i])) = row_bytes [VInt i]" for i
    by (simp add: row_of_def ser_position_def overwrite_def)
  then show ?thesis
    using values_int_row [of 1] values_int_row [of 2] by (simp add: sample_values_def int_row_def int32_def del: values_row.simps row_bytes_simps)
qed

lemma sample_executor:
  "executor values_init values_next (values_inv sample_values int_schema) (values_pending sample_values int_schema) (Rows [int_row 1, int_row 2] None)"
  "values_inv sample_values int_schema sample_exec"
  using vals.executor_axioms [of sample_values int_schema] sample_values_rows
  by (simp_all add: values_beh_def values_inv_def sample_exec_def)

theorem row_operators_run_witness:
  "run_query (filter_init values_init) (filter_next values_next (EConst (VBool True)) int_schema) sample_exec =
    Some ([int_row 1, int_row 2], None)"
  using row_operators_run [OF sample_executor, of "EConst (VBool True)" int_schema "[]" "[]" "\<lambda>_. True"]
  by (simp add: passes_def evaluate_def value_simps)

text \<open>
  \<open>LIMIT n OFFSET m\<close> over any executor that keeps the contract returns the rows \<open>m\<close> to \<open>m + n - 1\<close> of the child, in order; it
  reports an exception of the child only if the child throws before the limit is reached.
\<close>

theorem limit_offset_run:
  assumes "executor ini nxt iv pend (Rows xs f)" "iv s"
  shows "run_query (limit_init ini nxt offset) (limit_next nxt limit) (s, c) =
    Some (take limit (drop offset xs), if offset + limit \<le> length xs then None
      else if offset \<le> length xs \<or> f = None then (if limit = 0 then None else f) else f)"
proof -
  note E = executor.limit_executor [OF assms(1), of offset limit]
  show ?thesis using executor.run_beh [OF E, of "(s, c)"] assms(2)
    by (auto simp: limit_beh_def limit_rows_def split: prod.splits)
qed

theorem limit_offset_run_witness:
  "run_query (limit_init values_init values_next 1) (limit_next values_next 5) (sample_exec, 0) = Some ([int_row 2], None)"
  using limit_offset_run [OF sample_executor, of 1 5 0] by simp

lemma join_rows_pure:
  assumes "\<And>l r. l \<in> set ls \<Longrightarrow> r \<in> set rs \<Longrightarrow> join_match p lsch rsch l r = Inr (b l r)"
  shows "join_rows (match_row p lsch rsch) rs None ls None =
    (concat (map (\<lambda>l. map (combine_rows l) (filter (b l) rs)) ls), None)"
  using assms
proof (induction ls)
  case (Cons l ls)
  have "trans_rows (match_row p lsch rsch l) rs None = (List.map_filter (\<lambda>r. if b l r then Some (combine_rows l r) else None) rs, None)"
    by (rule trans_rows_pure) (simp add: match_row_def Cons.prems)
  moreover have "List.map_filter (\<lambda>r. if b l r then Some (combine_rows l r) else None) rs = map (combine_rows l) (filter (b l) rs)"
    by (induction rs) (auto simp: List.map_filter_def)
  ultimately show ?case using Cons by (simp add: then_rows_def)
qed simp

text \<open>
  The nested loop join of two executors that keep the contract and leave the shared context unchanged is the reference join: for every left row in order, the right rows in order that
  satisfy the predicate, each combined with the left row by concatenation; and the values of a combined
  row are those of the left row followed by those of the right row.
\<close>

theorem nested_loop_join_run:
  assumes "context_executor lini lnxt linv lpend (Rows ls None) w" "context_executor rini rnxt rinv rpend (Rows rs None) w"
    and "\<forall>l\<in>set ls. \<forall>r\<in>set rs. join_match p lsch rsch l r = Inr (b l r)" "linv (nl_left s, w)" "rinv (nl_right s, w)"
  shows "run_query (nlj_init lini lnxt rini) (nlj_next lnxt rini rnxt p lsch rsch) (s, w) =
      Some (concat (map (\<lambda>l. map (combine_rows l) (filter (b l) rs)) ls), None) \<and>
    (\<forall>l vl r vr. encodes lsch vl (fst l) \<longrightarrow> encodes rsch vr (fst r) \<longrightarrow> encodes (lsch @ rsch) (vl @ vr) (fst (combine_rows l r)))"
proof -
  note t = two_executors.nlj_executor [OF two_executors.intro [OF assms(1,2)], of p lsch rsch]
  have J: "join_rows (match_row p lsch rsch) rs None ls None = (concat (map (\<lambda>l. map (combine_rows l) (filter (b l) rs)) ls), None)"
    by (rule join_rows_pure) (use assms(3) in blast)
  have "run_query (nlj_init lini lnxt rini) (nlj_next lnxt rini rnxt p lsch rsch) (s, w) =
      Some (concat (map (\<lambda>l. map (combine_rows l) (filter (b l) rs)) ls), None)"
    using executor.run_beh [OF context_executor.axioms(1) [OF t], of "(s, w)"] assms(4,5) J
    by (cases ls) (simp_all add: nlj_beh_def)
  then show ?thesis by (auto simp: combine_rows_def encodes_append)
qed

theorem nested_loop_join_run_witness:
  "run_query (nlj_init (lift_init values_init) (lift_next values_next) (lift_init values_init))
     (nlj_next (lift_next values_next) (lift_init values_init) (lift_next values_next) None int_schema int_schema)
     (\<lparr>nl_left = sample_exec, nl_right = sample_exec, nl_has_more = False, nl_current = int_row 0\<rparr>, ()) =
   Some ([combine_rows (int_row 1) (int_row 1), combine_rows (int_row 1) (int_row 2),
          combine_rows (int_row 2) (int_row 1), combine_rows (int_row 2) (int_row 2)], None)"
proof -
  note e = executor.lift_executor [OF sample_executor(1), of "()"]
  show ?thesis
    using nested_loop_join_run [OF e e, of None int_schema int_schema "\<lambda>_ _. True"
        "\<lparr>nl_left = sample_exec, nl_right = sample_exec, nl_has_more = False, nl_current = int_row 0\<rparr>"] sample_executor(2)
    by (simp add: join_match_def lift_inv_def)
qed

text \<open>
  A join predicate that refers to a column of the right table by its index in the combined schema, which is what the
  binder produces, is evaluated on the left row alone: the join throws as soon as both inputs have a row.
\<close>

theorem join_right_column_throws:
  assumes "context_executor lini lnxt linv lpend (Rows (l # ls) lf) w" "context_executor rini rnxt rinv rpend (Rows (r # rs) rf) w"
    and "encodes lsch vl (fst l)" "vl \<noteq> []" "linv (nl_left s, w)" "rinv (nl_right s, w)"
  shows "run_query (nlj_init lini lnxt rini)
      (nlj_next lnxt rini rnxt (Some (EComp op (EColumn 0 None) (EColumn (length lsch) None))) lsch rsch) (s, w) =
    Some ([], Some (RuntimeError ''Column index out of bounds''))"
proof -
  let ?p = "Some (EComp op (EColumn 0 None) (EColumn (length lsch) None))"
  note t = two_executors.nlj_executor [OF two_executors.intro [OF assms(1,2)], of ?p lsch rsch]
  have "join_match ?p lsch rsch l r = Inl (RuntimeError ''Column index out of bounds'')"
    using column_evaluate_encodes [OF assms(3), of 0] assms(4)
    by (simp add: join_match_def deref_column_def) (simp add: column_evaluate_def getColumnCount_def)
  then show ?thesis
    using executor.run_beh [OF context_executor.axioms(1) [OF t], of "(s, w)"] assms(5,6)
    by (simp add: nlj_beh_def match_row_def then_rows_def)
qed

end
