(* ===== verification/Sorting.thy ===== *)
theory Sorting
  imports Executors "HOL-Library.Multiset"
begin

text \<open>
  The sorting executors: \<^verbatim>\<open>src/executor/sort_executor.cpp\<close>,
  \<^verbatim>\<open>order_by_executor.cpp\<close>, \<^verbatim>\<open>top_k_executor.cpp\<close>.  They read all rows of the child in \<open>init\<close>.

  \<open>std::sort\<close>, \<open>std::stable_sort\<close> and the heap of \<open>std::priority_queue\<close> are arguments; the
  predicates \<open>sorts\<close>, \<open>sorts_stably\<close> and \<open>heap_laws\<close> state what the C++ standard promises of
  them when the comparison is a strict weak order that does not throw.
\<close>

subsection \<open>Reading all rows of a child\<close>

partial_function (option) drain :: "'s next_op \<Rightarrow> 's \<Rightarrow> row list \<Rightarrow> (row list \<times> 's) result" where
  "drain child s acc = then_do (child s) (\<lambda>(r, s1). case r of
     None \<Rightarrow> return (acc, s1)
   | Some row \<Rightarrow> drain child s1 (acc @ [row]))"

datatype OrderByDirection = ASC | DESC

type_synonym order_bys = "(OrderByDirection \<times> Expression) list"

fun compare_rows :: "order_bys \<Rightarrow> Schema \<Rightarrow> row \<Rightarrow> row \<Rightarrow> exn + bool" where
  "compare_rows [] sch a b = Inr False"
| "compare_rows ((dir, e) # obs) sch a b =
    try_bind (evaluate e (fst a) sch) (\<lambda>va.
    try_bind (evaluate e (fst b) sch) (\<lambda>vb.
    try_bind (try_bind (compareEquals va vb) getAsBoolean) (\<lambda>eq.
      if eq then compare_rows obs sch a b
      else if dir = ASC then try_bind (compareLessThan va vb) getAsBoolean
      else try_bind (compareGreaterThan va vb) getAsBoolean)))"

subsection \<open>Sort and Order By\<close>

record 's SortExecutor =
  so_child :: 's
  so_tuples :: "row list"
  so_idx :: nat

type_synonym sorter = "(row \<Rightarrow> row \<Rightarrow> exn + bool) \<Rightarrow> row list \<Rightarrow> exn + row list"

definition sort_init :: "sorter \<Rightarrow> order_bys \<Rightarrow> Schema \<Rightarrow> 's init_op \<Rightarrow> 's next_op \<Rightarrow> 's SortExecutor init_op" where
  "sort_init sorter obs sch ini child s = then_do (ini (so_child s)) (\<lambda>c1.
     then_do (drain child c1 []) (\<lambda>(rows, c2).
       case sorter (compare_rows obs sch) rows of
         Inl e \<Rightarrow> throws e
       | Inr sorted_tuples \<Rightarrow> return \<lparr>so_child = c2, so_tuples = sorted_tuples, so_idx = 0\<rparr>))"

definition sort_next :: "'s SortExecutor next_op" where
  "sort_next s = (if so_idx s < length (so_tuples s)
     then return (Some (so_tuples s ! so_idx s), s\<lparr>so_idx := so_idx s + 1\<rparr>)
     else return (None, s))"

text \<open>\<open>OrderByExecutor\<close> is the same with \<open>std::stable_sort\<close>; its \<open>next\<close>, and that of \<open>TopKExecutor\<close>, test for the end first.\<close>

definition order_by_init :: "sorter \<Rightarrow> order_bys \<Rightarrow> Schema \<Rightarrow> 's init_op \<Rightarrow> 's next_op \<Rightarrow> 's SortExecutor init_op" where
  "order_by_init stable_sorter obs sch ini child s = then_do (ini (so_child s)) (\<lambda>c1.
     then_do (drain child c1 []) (\<lambda>(rows, c2).
       case stable_sorter (compare_rows obs sch) rows of
         Inl e \<Rightarrow> throws e
       | Inr sorted_tuples \<Rightarrow> return \<lparr>so_child = c2, so_tuples = sorted_tuples, so_idx = 0\<rparr>))"

definition order_by_next :: "'s SortExecutor next_op" where
  "order_by_next s = (if so_idx s \<ge> length (so_tuples s) then return (None, s)
     else return (Some (so_tuples s ! so_idx s), s\<lparr>so_idx := so_idx s + 1\<rparr>))"

definition top_k_next :: "'s SortExecutor next_op" where
  "top_k_next s = (if so_idx s \<ge> length (so_tuples s) then return (None, s)
     else return (Some (so_tuples s ! so_idx s), s\<lparr>so_idx := so_idx s + 1\<rparr>))"

lemma order_by_is_sort: "order_by_init = sort_init" "order_by_next = sort_next" "top_k_next = sort_next"
  by (auto simp: fun_eq_iff order_by_init_def sort_init_def order_by_next_def top_k_next_def sort_next_def)

subsection \<open>Top k\<close>

text \<open>\<open>pq.push\<close>, and \<open>pq.top()\<close> with \<open>pq.pop()\<close>: the row removed and the rows that stay.\<close>

type_synonym row_lt = "row \<Rightarrow> row \<Rightarrow> exn + bool"

type_synonym pusher = "row_lt \<Rightarrow> row \<Rightarrow> row list \<Rightarrow> exn + row list"

type_synonym popper = "row_lt \<Rightarrow> row list \<Rightarrow> exn + row \<times> row list"

definition push_bounded :: "pusher \<Rightarrow> popper \<Rightarrow> row_lt \<Rightarrow> nat \<Rightarrow> row \<Rightarrow> row list \<Rightarrow> exn + row list" where
  "push_bounded push pop lt capacity row pq = try_bind (push lt row pq) (\<lambda>pq1.
     if length pq1 > capacity then try_bind (pop lt pq1) (\<lambda>(_, pq2). Inr pq2) else Inr pq1)"

partial_function (option) top_k_fill :: "pusher \<Rightarrow> popper \<Rightarrow> row_lt \<Rightarrow> nat \<Rightarrow> 's next_op \<Rightarrow> 's \<Rightarrow> row list \<Rightarrow> (row list \<times> 's) result" where
  "top_k_fill push pop lt capacity child s pq = then_do (child s) (\<lambda>(r, s1). case r of
     None \<Rightarrow> return (pq, s1)
   | Some row \<Rightarrow> (case push_bounded push pop lt capacity row pq of
       Inl e \<Rightarrow> throws e
     | Inr pq1 \<Rightarrow> top_k_fill push pop lt capacity child s1 pq1))"

fun pop_all :: "popper \<Rightarrow> row_lt \<Rightarrow> nat \<Rightarrow> row list \<Rightarrow> exn + row list" where
  "pop_all pop lt 0 pq = Inr []"
| "pop_all pop lt (Suc n) pq = try_bind (pop lt pq) (\<lambda>(x, pq1). try_bind (pop_all pop lt n pq1) (\<lambda>xs. Inr (x # xs)))"

text \<open>\<open>capacity\<close> is a sum of \<open>size_t\<close>; \<open>while (!pq.empty())\<close> runs once per element.\<close>

definition top_k_init :: "pusher \<Rightarrow> popper \<Rightarrow> order_bys \<Rightarrow> Schema \<Rightarrow> nat \<Rightarrow> nat \<Rightarrow> 's init_op \<Rightarrow> 's next_op \<Rightarrow> 's SortExecutor init_op" where
  "top_k_init push pop obs sch limit offset ini child s = then_do (ini (so_child s)) (\<lambda>c1.
     if limit = 0 then return \<lparr>so_child = c1, so_tuples = [], so_idx = 0\<rparr>
     else let lt = compare_rows obs sch; capacity = (limit + offset) mod 2 ^ 64 in
       then_do (top_k_fill push pop lt capacity child c1 []) (\<lambda>(pq, c2).
         case pop_all pop lt (length pq) pq of
           Inl e \<Rightarrow> throws e
         | Inr temp \<Rightarrow> return \<lparr>so_child = c2, so_tuples = take limit (drop offset (rev temp)), so_idx = 0\<rparr>))"

subsection \<open>What the standard library promises\<close>

definition strict_weak_order :: "('a \<Rightarrow> 'a \<Rightarrow> bool) \<Rightarrow> 'a set \<Rightarrow> bool" where
  "strict_weak_order c A = ((\<forall>x\<in>A. \<not> c x x) \<and> (\<forall>x\<in>A. \<forall>y\<in>A. \<forall>z\<in>A. c x y \<longrightarrow> c y z \<longrightarrow> c x z) \<and>
     (\<forall>x\<in>A. \<forall>y\<in>A. \<forall>z\<in>A. c x z \<longrightarrow> c x y \<or> c y z))"

definition compares :: "(row \<Rightarrow> row \<Rightarrow> exn + bool) \<Rightarrow> (row \<Rightarrow> row \<Rightarrow> bool) \<Rightarrow> row set \<Rightarrow> bool" where
  "compares lt c A = (strict_weak_order c A \<and> (\<forall>x\<in>A. \<forall>y\<in>A. lt x y = Inr (c x y)))"

definition ordered :: "(row \<Rightarrow> row \<Rightarrow> bool) \<Rightarrow> row list \<Rightarrow> bool" where
  "ordered c ys = sorted_wrt (\<lambda>x y. \<not> c y x) ys"

definition sorts :: "sorter \<Rightarrow> bool" where
  "sorts sorter = (\<forall>lt c xs. compares lt c (set xs) \<longrightarrow>
     (\<exists>ys. sorter lt xs = Inr ys \<and> mset ys = mset xs \<and> ordered c ys))"

definition same_class :: "(row \<Rightarrow> row \<Rightarrow> bool) \<Rightarrow> row \<Rightarrow> row \<Rightarrow> bool" where
  "same_class c x y = (\<not> c x y \<and> \<not> c y x)"

definition sorts_stably :: "sorter \<Rightarrow> bool" where
  "sorts_stably sorter = (\<forall>lt c xs. compares lt c (set xs) \<longrightarrow>
     (\<exists>ys. sorter lt xs = Inr ys \<and> mset ys = mset xs \<and> ordered c ys \<and>
       (\<forall>x\<in>set xs. filter (same_class c x) ys = filter (same_class c x) xs)))"

text \<open>\<open>hp\<close> is the heap property of the underlying vector for the given order.\<close>

definition heap_laws :: "((row \<Rightarrow> row \<Rightarrow> bool) \<Rightarrow> row list \<Rightarrow> bool) \<Rightarrow> pusher \<Rightarrow> popper \<Rightarrow> bool" where
  "heap_laws hp push pop = (\<forall>lt c. hp c [] \<and> (\<forall>pq x. compares lt c (insert x (set pq)) \<longrightarrow> hp c pq \<longrightarrow>
       (\<exists>pq1. push lt x pq = Inr pq1 \<and> mset pq1 = add_mset x (mset pq) \<and> hp c pq1)) \<and>
     (\<forall>pq. compares lt c (set pq) \<longrightarrow> hp c pq \<longrightarrow> pq \<noteq> [] \<longrightarrow>
       (\<exists>x pq1. pop lt pq = Inr (x, pq1) \<and> mset pq = add_mset x (mset pq1) \<and> (\<forall>y\<in>set pq. \<not> c x y) \<and> hp c pq1)))"

text \<open>Implementations that keep the promises.\<close>

fun insert_row :: "(row \<Rightarrow> row \<Rightarrow> exn + bool) \<Rightarrow> row \<Rightarrow> row list \<Rightarrow> exn + row list" where
  "insert_row lt x [] = Inr [x]"
| "insert_row lt x (y # ys) = try_bind (lt y x) (\<lambda>b. if b then try_bind (insert_row lt x ys) (\<lambda>zs. Inr (y # zs)) else Inr (x # y # ys))"

fun insertion_sort :: "sorter" where
  "insertion_sort lt [] = Inr []"
| "insertion_sort lt (x # xs) = try_bind (insertion_sort lt xs) (insert_row lt x)"

definition pop_last :: "popper" where
  "pop_last lt pq = Inr (last pq, butlast pq)"

lemma compares_subset: "compares lt c A \<Longrightarrow> B \<subseteq> A \<Longrightarrow> compares lt c B"
  unfolding compares_def strict_weak_order_def by (meson subsetD)

lemma compares_swo:
  assumes "compares lt c A"
  shows "x \<in> A \<Longrightarrow> \<not> c x x" "x \<in> A \<Longrightarrow> y \<in> A \<Longrightarrow> z \<in> A \<Longrightarrow> c x z \<Longrightarrow> c x y \<or> c y z"
    "x \<in> A \<Longrightarrow> y \<in> A \<Longrightarrow> c x y \<Longrightarrow> \<not> c y x" "x \<in> A \<Longrightarrow> y \<in> A \<Longrightarrow> lt x y = Inr (c x y)"
  using assms unfolding compares_def strict_weak_order_def by (blast, blast, blast, blast)

lemma insert_row_ok:
  assumes "compares lt c A" "x \<in> A" "set ys \<subseteq> A" "ordered c ys"
  shows "\<exists>zs. insert_row lt x ys = Inr zs \<and> mset zs = add_mset x (mset ys) \<and> ordered c zs \<and>
    (\<forall>w\<in>A. filter (same_class c w) zs = filter (same_class c w) (x # ys))"
  using assms(3,4)
proof (induction ys)
  case (Cons y ys)
  note S = compares_swo [OF assms(1)]
  have y: "y \<in> A" "set ys \<subseteq> A" using Cons.prems by auto
  show ?case
  proof (cases "c y x")
    case True
    obtain zs where zs: "insert_row lt x ys = Inr zs" "mset zs = add_mset x (mset ys)" "ordered c zs"
        "\<forall>w\<in>A. filter (same_class c w) zs = filter (same_class c w) (x # ys)"
      using Cons.IH Cons.prems by (auto simp: ordered_def)
    have set: "set zs = insert x (set ys)" using zs(2) by (metis set_mset_add_mset_insert set_mset_mset)
    have "ordered c (y # zs)"
      using zs(3) Cons.prems(2) S(3) [OF y(1) assms(2) True] by (auto simp: ordered_def set)
    moreover have "\<not> (same_class c w y \<and> same_class c w x)" if "w \<in> A" for w
      using S(2) [OF y(1) that assms(2) True] by (auto simp: same_class_def)
    then have "filter (same_class c w) (y # zs) = filter (same_class c w) (x # y # ys)" if "w \<in> A" for w
      using zs(4) that by auto
    ultimately show ?thesis using True S(4) [OF y(1) assms(2)] zs by auto
  next
    case False
    have "\<not> c z x" if "z \<in> set ys" for z
      using S(2) [of z y x] False Cons.prems that y assms(2) by (auto simp: ordered_def)
    then have "ordered c (x # y # ys)" using Cons.prems(2) False by (auto simp: ordered_def)
    then show ?thesis using False S(4) [OF y(1) assms(2)] by auto
  qed
qed (auto simp: ordered_def)

lemma insertion_sort_ok:
  assumes "compares lt c A" "set xs \<subseteq> A"
  shows "\<exists>ys. insertion_sort lt xs = Inr ys \<and> mset ys = mset xs \<and> ordered c ys \<and>
    (\<forall>w\<in>A. filter (same_class c w) ys = filter (same_class c w) xs)"
  using assms(2)
proof (induction xs)
  case (Cons x xs)
  then obtain ys where ys: "insertion_sort lt xs = Inr ys" "mset ys = mset xs" "ordered c ys"
      "\<forall>w\<in>A. filter (same_class c w) ys = filter (same_class c w) xs" by auto
  have "set ys \<subseteq> A" using ys(2) Cons.prems by (metis mset_eq_setD set_subset_Cons subset_trans)
  from insert_row_ok [OF assms(1) _ this ys(3), of x] Cons.prems ys show ?case by auto
qed (auto simp: ordered_def)

lemma insertion_sort_stable: "sorts_stably insertion_sort"
  unfolding sorts_stably_def using insertion_sort_ok by blast

lemma stable_sorts: "sorts_stably sorter \<Longrightarrow> sorts sorter"
  unfolding sorts_stably_def sorts_def by blast

lemma ordered_last:
  assumes "ordered c ys" "y \<in> set ys" "\<And>x. x \<in> set ys \<Longrightarrow> \<not> c x x"
  shows "\<not> c (last ys) y"
  using assms by (induction ys) (auto simp: ordered_def split: if_splits)

lemma sorted_list_heap: "heap_laws ordered insert_row pop_last"
  unfolding heap_laws_def
proof (intro allI conjI impI)
  fix lt c x pq
  show "ordered c []" by (simp add: ordered_def)
  show "\<exists>pq1. insert_row lt x pq = Inr pq1 \<and> mset pq1 = add_mset x (mset pq) \<and> ordered c pq1"
    if "compares lt c (insert x (set pq))" "ordered c pq"
    using insert_row_ok [OF that(1) _ _ that(2), of x] by auto
  assume c: "compares lt c (set pq)" and o: "ordered c pq" and ne: "pq \<noteq> []"
  have "mset pq = add_mset (last pq) (mset (butlast pq))"
    using ne by (metis append_butlast_last_id mset.simps mset_append union_commute add_mset_add_single)
  moreover have "\<forall>y\<in>set pq. \<not> c (last pq) y"
    using ordered_last [OF o] compares_swo(1) [OF c] by auto
  moreover have "ordered c (butlast pq)" using o ne by (metis ordered_def append_butlast_last_id sorted_wrt_append)
  ultimately show "\<exists>x pq1. pop_last lt pq = Inr (x, pq1) \<and> mset pq = add_mset x (mset pq1) \<and> (\<forall>y\<in>set pq. \<not> c x y) \<and> ordered c pq1"
    by (auto simp: pop_last_def)
qed

subsection \<open>The comparison of rows\<close>

text \<open>Lexicographic comparison of the values of the sort expressions.\<close>

fun key_less :: "OrderByDirection list \<Rightarrow> Value list \<Rightarrow> Value list \<Rightarrow> bool" where
  "key_less (d # ds) (a # as) (b # bs) = (if a = b then key_less ds as bs else if d = ASC then variant_less a b else variant_less b a)"
| "key_less _ _ _ = False"

definition keys_typed :: "TypeId list \<Rightarrow> Value list \<Rightarrow> bool" where
  "keys_typed tys ks = list_all2 (\<lambda>ty v. getType v = ty \<and> ty \<noteq> TypeNull) tys ks"

definition row_less :: "order_bys \<Rightarrow> Schema \<Rightarrow> row \<Rightarrow> row \<Rightarrow> bool" where
  "row_less obs sch a b = (case (eval_all (map snd obs) (fst a) sch, eval_all (map snd obs) (fst b) sch) of
     (Inr ka, Inr kb) \<Rightarrow> key_less (map fst obs) ka kb | _ \<Rightarrow> False)"

text \<open>The sort expressions evaluate on every row, to values of fixed types that are not null.\<close>

definition sortable :: "order_bys \<Rightarrow> Schema \<Rightarrow> TypeId list \<Rightarrow> row list \<Rightarrow> bool" where
  "sortable obs sch tys rows = (\<forall>r\<in>set rows. \<exists>ks. eval_all (map snd obs) (fst r) sch = Inr ks \<and> keys_typed tys ks)"

lemma compare_rows_keys:
  assumes "eval_all (map snd obs) (fst a) sch = Inr ka" "eval_all (map snd obs) (fst b) sch = Inr kb" "keys_typed tys ka" "keys_typed tys kb"
  shows "compare_rows obs sch a b = Inr (key_less (map fst obs) ka kb)"
  using assms
proof (induction obs arbitrary: ka kb tys)
  case (Cons ob obs)
  obtain dir e where ob: "ob = (dir, e)" by (cases ob)
  from Cons.prems ob obtain va as where a: "ka = va # as" "evaluate e (fst a) sch = Inr va" "eval_all (map snd obs) (fst a) sch = Inr as"
    by (auto simp: try_bind_Inr)
  from Cons.prems ob obtain vb bs where b: "kb = vb # bs" "evaluate e (fst b) sch = Inr vb" "eval_all (map snd obs) (fst b) sch = Inr bs"
    by (auto simp: try_bind_Inr)
  have keys: "list_all2 (\<lambda>ty v. getType v = ty \<and> ty \<noteq> TypeNull) tys (va # as)" "list_all2 (\<lambda>ty v. getType v = ty \<and> ty \<noteq> TypeNull) tys (vb # bs)"
    using Cons.prems(3,4) by (simp_all only: a(1) b(1) keys_typed_def)
  then obtain ty tys' where ty: "tys = ty # tys'" "getType va = ty" "getType vb = ty" "ty \<noteq> TypeNull" "keys_typed tys' as" "keys_typed tys' bs"
    by (cases tys) (simp_all add: keys_typed_def)
  have "compare_rows obs sch a b = Inr (key_less (map fst obs) as bs)"
    by (rule Cons.IH [OF a(3) b(3) ty(5,6)])
  moreover have "compareEquals va vb = Inr (VBool (va = vb))" "compareLessThan va vb = Inr (VBool (variant_less va vb))"
      "compareGreaterThan va vb = Inr (VBool (variant_less vb va))"
    using ty(2-4) by (simp_all add: comparison_defs isNull_def)
  ultimately show ?case unfolding ob a(1) b(1) using a(2) b(2) by (simp add: getAsBoolean_def)
qed (simp add: keys_typed_def)

lemma key_less_irrefl [simp]: "\<not> key_less ds k k"
proof (induction ds arbitrary: k)
  case (Cons d ds)
  then show ?case by (cases k) auto
qed simp

definition dir_less :: "OrderByDirection \<Rightarrow> Value \<Rightarrow> Value \<Rightarrow> bool" where
  "dir_less d a b = (if d = ASC then variant_less a b else variant_less b a)"

lemma dir_less_order:
  "dir_less d a b \<Longrightarrow> dir_less d b c \<Longrightarrow> dir_less d a c" "\<not> dir_less d a a"
  "getType a = getType b \<Longrightarrow> a = b \<or> dir_less d a b \<or> dir_less d b a"
  using variant_less_linear [of a b] variant_less_trans by (auto simp: dir_less_def split: if_splits)

lemma key_less_typed:
  assumes "keys_typed tys a" "keys_typed tys b" "keys_typed tys c"
  shows "key_less ds a b \<Longrightarrow> key_less ds b c \<Longrightarrow> key_less ds a c" "key_less ds a c \<Longrightarrow> key_less ds a b \<or> key_less ds b c"
proof -
  have "(key_less ds a b \<longrightarrow> key_less ds b c \<longrightarrow> key_less ds a c) \<and> (key_less ds a c \<longrightarrow> key_less ds a b \<or> key_less ds b c)"
    using assms
  proof (induction ds arbitrary: a b c tys)
    case (Cons d ds)
    show ?case
    proof (cases tys)
      case Nil
      then show ?thesis using Cons.prems by (simp add: keys_typed_def)
    next
      case (Cons ty tys')
      then obtain x as y bs z cs where abc: "a = x # as" "b = y # bs" "c = z # cs" "getType x = ty" "getType y = ty" "getType z = ty"
          "keys_typed tys' as" "keys_typed tys' bs" "keys_typed tys' cs"
        using Cons.prems by (auto simp: keys_typed_def list_all2_Cons1)
      have IH: "key_less ds as bs \<longrightarrow> key_less ds bs cs \<longrightarrow> key_less ds as cs" "key_less ds as cs \<longrightarrow> key_less ds as bs \<or> key_less ds bs cs"
        using Cons.IH [OF abc(7,8,9)] by auto
      have eq: "key_less (d # ds) (u # us) (v # vs) = (if u = v then key_less ds us vs else dir_less d u v)" for u us v vs
        by (simp add: dir_less_def)
      show ?thesis unfolding abc(1-3) eq
      proof (cases "x = y"; cases "y = z")
        assume ne: "x \<noteq> y" "y \<noteq> z"
        have "dir_less d x y \<Longrightarrow> dir_less d y z \<Longrightarrow> dir_less d x z \<and> x \<noteq> z" using dir_less_order(1,2) by blast
        moreover have "dir_less d x z \<Longrightarrow> dir_less d x y \<or> dir_less d y z"
          using dir_less_order(1) [of d y x z] dir_less_order(3) [of x y d] ne abc(4-6) by auto
        moreover have "x = z \<Longrightarrow> dir_less d x y \<or> dir_less d y z" using dir_less_order(3) [of x y d] ne abc(4-6) by auto
        ultimately show "((if x = y then key_less ds as bs else dir_less d x y) \<longrightarrow> (if y = z then key_less ds bs cs else dir_less d y z) \<longrightarrow>
            (if x = z then key_less ds as cs else dir_less d x z)) \<and>
          ((if x = z then key_less ds as cs else dir_less d x z) \<longrightarrow> (if x = y then key_less ds as bs else dir_less d x y) \<or> (if y = z then key_less ds bs cs else dir_less d y z))"
          using ne by (cases "x = z") auto
      qed (use IH in simp_all)
    qed
  qed simp
  then show "key_less ds a b \<Longrightarrow> key_less ds b c \<Longrightarrow> key_less ds a c" "key_less ds a c \<Longrightarrow> key_less ds a b \<or> key_less ds b c" by auto
qed

lemma rows_compared:
  assumes "sortable obs sch tys rows"
  shows "compares (compare_rows obs sch) (row_less obs sch) (set rows)"
proof -
  have k: "\<exists>ks. eval_all (map snd obs) (fst r) sch = Inr ks \<and> keys_typed tys ks" if "r \<in> set rows" for r
    using assms that by (simp add: sortable_def)
  define key where "key r = projr (eval_all (map snd obs) (fst r) sch)" for r :: row
  have key: "eval_all (map snd obs) (fst r) sch = Inr (key r)" "keys_typed tys (key r)" if "r \<in> set rows" for r
    using k [OF that] by (auto simp: key_def)
  have less: "row_less obs sch x y = key_less (map fst obs) (key x) (key y)" if "x \<in> set rows" "y \<in> set rows" for x y
    using key(1) that by (simp add: row_less_def)
  have "\<forall>x\<in>set rows. \<not> row_less obs sch x x" by (simp add: less)
  moreover have "\<forall>x\<in>set rows. \<forall>y\<in>set rows. compare_rows obs sch x y = Inr (row_less obs sch x y)"
    using compare_rows_keys [OF key(1) key(1) key(2) key(2)] by (simp add: less)
  moreover have "row_less obs sch x z" if r: "x \<in> set rows" "y \<in> set rows" "z \<in> set rows" and l: "row_less obs sch x y" "row_less obs sch y z" for x y z
    using key_less_typed(1) [OF key(2) [OF r(1)] key(2) [OF r(2)] key(2) [OF r(3)], of "map fst obs"] l r by (simp add: less)
  then have "\<forall>x\<in>set rows. \<forall>y\<in>set rows. \<forall>z\<in>set rows. row_less obs sch x y \<longrightarrow> row_less obs sch y z \<longrightarrow> row_less obs sch x z"
    by blast
  moreover have "row_less obs sch x y \<or> row_less obs sch y z" if r: "x \<in> set rows" "y \<in> set rows" "z \<in> set rows" and l: "row_less obs sch x z" for x y z
    using key_less_typed(2) [OF key(2) [OF r(1)] key(2) [OF r(2)] key(2) [OF r(3)], of "map fst obs"] l r by (simp add: less)
  then have "\<forall>x\<in>set rows. \<forall>y\<in>set rows. \<forall>z\<in>set rows. row_less obs sch x z \<longrightarrow> row_less obs sch x y \<or> row_less obs sch y z"
    by blast
  ultimately show ?thesis unfolding compares_def strict_weak_order_def by (intro conjI)
qed

subsection \<open>Executors that read the whole child first\<close>

definition listed_pending :: "('s \<Rightarrow> bool) \<Rightarrow> 's SortExecutor \<Rightarrow> row list \<Rightarrow> exn option \<Rightarrow> bool" where
  "listed_pending iv s ys g = (iv (so_child s) \<and> g = None \<and> ys = drop (so_idx s) (so_tuples s))"

lemma listed_executor:
  assumes "\<And>(s :: 'a SortExecutor) e. iv (so_child s) \<Longrightarrow> beh = InitThrows e \<Longrightarrow> ini s = throws e"
    "\<And>(s :: 'a SortExecutor) xs f. iv (so_child s) \<Longrightarrow> beh = Rows xs f \<Longrightarrow> f = None \<and> (\<exists>c. iv c \<and> ini s = return \<lparr>so_child = c, so_tuples = xs, so_idx = 0\<rparr>)"
  shows "executor ini sort_next (\<lambda>s. iv (so_child s)) (listed_pending iv) beh"
proof (rule executorI)
  fix s :: "'a SortExecutor" and ys g
  assume p: "listed_pending iv s ys g"
  show "outcome sort_next (listed_pending iv) s ys g"
  proof (cases "so_idx s < length (so_tuples s)")
    case True
    then show ?thesis using p by (simp add: listed_pending_def outcome_def sort_next_def Cons_nth_drop_Suc [symmetric])
  next
    case False
    then show ?thesis using p by (simp add: listed_pending_def outcome_def sort_next_def)
  qed
next
  fix s :: "'a SortExecutor" and xs f
  assume "iv (so_child s)" "beh = Rows xs f"
  from assms(2) [OF this] show "\<exists>s1. ini s = return s1 \<and> listed_pending iv s1 xs f"
    by (auto simp: listed_pending_def)
qed (use assms(1) in \<open>auto simp: listed_pending_def\<close>)

text \<open>An executor whose rows are a function of all rows of the child.\<close>

definition gather_beh :: "(row list \<Rightarrow> exn + row list) \<Rightarrow> behaviour \<Rightarrow> behaviour" where
  "gather_beh h b = (case b of InitThrows e \<Rightarrow> InitThrows e
     | Rows xs f \<Rightarrow> (case f of Some e \<Rightarrow> InitThrows e | None \<Rightarrow> (case h xs of Inl e \<Rightarrow> InitThrows e | Inr ys \<Rightarrow> Rows ys None)))"

fun push_rows :: "pusher \<Rightarrow> popper \<Rightarrow> row_lt \<Rightarrow> nat \<Rightarrow> row list \<Rightarrow> row list \<Rightarrow> exn + row list" where
  "push_rows push pop lt cap pq [] = Inr pq"
| "push_rows push pop lt cap pq (x # xs) = try_bind (push_bounded push pop lt cap x pq) (\<lambda>pq1. push_rows push pop lt cap pq1 xs)"

definition top_k_rows :: "pusher \<Rightarrow> popper \<Rightarrow> order_bys \<Rightarrow> Schema \<Rightarrow> nat \<Rightarrow> nat \<Rightarrow> row list \<Rightarrow> exn + row list" where
  "top_k_rows push pop obs sch limit offset xs = try_bind (push_rows push pop (compare_rows obs sch) ((limit + offset) mod 2 ^ 64) [] xs) (\<lambda>pq.
     try_bind (pop_all pop (compare_rows obs sch) (length pq) pq) (\<lambda>temp. Inr (take limit (drop offset (rev temp)))))"

context executor
begin

lemma drain_rows: "pending s xs None \<Longrightarrow> \<exists>s1. drain nxt s acc = return (acc @ xs, s1) \<and> pending s1 [] None"
proof (induction xs arbitrary: s acc)
  case Nil
  then show ?case using next_end [of s] by (subst drain.simps) auto
next
  case (Cons x xs)
  then obtain s1 where "nxt s = return (Some x, s1)" "pending s1 xs None" using next_row by blast
  then show ?case using Cons.IH [of s1 "acc @ [x]"] by (subst drain.simps) auto
qed

lemma drain_throws: "pending s xs (Some e) \<Longrightarrow> drain nxt s acc = throws e"
proof (induction xs arbitrary: s acc)
  case Nil
  then show ?case using next_throws [of s] by (subst drain.simps) auto
next
  case (Cons x xs)
  then obtain s1 where "nxt s = return (Some x, s1)" "pending s1 xs (Some e)" using next_row by blast
  then show ?case using Cons.IH [of s1 "acc @ [x]"] by (subst drain.simps) auto
qed

lemma sort_executor:
  "executor (sort_init sorter obs sch ini nxt) sort_next (\<lambda>s. inv (so_child s)) (listed_pending inv) (gather_beh (sorter (compare_rows obs sch)) beh)"
proof (rule listed_executor)
  fix s :: "'s SortExecutor" and e
  assume i: "inv (so_child s)" and b: "gather_beh (sorter (compare_rows obs sch)) beh = InitThrows e"
  show "sort_init sorter obs sch ini nxt s = throws e"
  proof (cases beh)
    case (InitThrows e')
    then show ?thesis using b init_throws [OF i InitThrows] by (simp add: gather_beh_def sort_init_def)
  next
    case (Rows xs f)
    then obtain s1 where s1: "ini (so_child s) = return s1" "pending s1 xs f" using init_rows [OF i] by blast
    show ?thesis
    proof (cases f)
      case None
      then obtain s2 where "drain nxt s1 [] = return (xs, s2)" using drain_rows [of s1 xs "[]"] s1 by auto
      then show ?thesis using b s1 Rows None by (auto simp: gather_beh_def sort_init_def split: sum.splits)
    next
      case (Some e')
      then show ?thesis using b s1 Rows drain_throws [of s1 xs e' "[]"] by (auto simp: gather_beh_def sort_init_def)
    qed
  qed
next
  fix s :: "'s SortExecutor" and ys f
  assume i: "inv (so_child s)" and "gather_beh (sorter (compare_rows obs sch)) beh = Rows ys f"
  then obtain xs where b: "beh = Rows xs None" "sorter (compare_rows obs sch) xs = Inr ys" "f = None"
    by (auto simp: gather_beh_def split: behaviour.splits option.splits sum.splits)
  obtain s1 where s1: "ini (so_child s) = return s1" "pending s1 xs None" using init_rows [OF i b(1)] by blast
  obtain s2 where "drain nxt s1 [] = return (xs, s2)" "pending s2 [] None" using drain_rows [OF s1(2), of "[]"] by auto
  then show "f = None \<and> (\<exists>c. inv c \<and> sort_init sorter obs sch ini nxt s = return \<lparr>so_child = c, so_tuples = ys, so_idx = 0\<rparr>)"
    using b s1(1) pending_inv by (auto simp: sort_init_def)
qed

lemma top_k_fill_rows:
  "pending s xs None \<Longrightarrow> push_rows push pop lt cap pq xs = Inr pq' \<Longrightarrow>
    \<exists>s1. top_k_fill push pop lt cap nxt s pq = return (pq', s1) \<and> pending s1 [] None"
proof (induction xs arbitrary: s pq)
  case Nil
  then show ?case using next_end [of s] by (subst top_k_fill.simps) auto
next
  case (Cons x xs)
  obtain s1 where "nxt s = return (Some x, s1)" "pending s1 xs None" using Cons.prems(1) next_row by blast
  then show ?case using Cons.IH [of s1] Cons.prems(2) by (subst top_k_fill.simps) (auto simp: try_bind_Inr)
qed

lemma top_k_fill_run:
  assumes "beh = Rows xs None" "inv (so_child s)" "0 < limit" "top_k_rows push pop obs sch limit offset xs = Inr ys"
  shows "run_query (top_k_init push pop obs sch limit offset ini nxt) sort_next s = Some (ys, None)"
proof -
  let ?b = "Rows ys None"
  obtain s1 where s1: "ini (so_child s) = return s1" "pending s1 xs None" using init_rows [OF assms(2,1)] by blast
  obtain pq temp where pq: "push_rows push pop (compare_rows obs sch) ((limit + offset) mod 2 ^ 64) [] xs = Inr pq"
      "pop_all pop (compare_rows obs sch) (length pq) pq = Inr temp" "ys = take limit (drop offset (rev temp))"
    using assms(4) by (auto simp: top_k_rows_def try_bind_Inr)
  obtain s2 where s2: "top_k_fill push pop (compare_rows obs sch) ((limit + offset) mod 2 ^ 64) nxt s1 [] = return (pq, s2)" "pending s2 [] None"
    using top_k_fill_rows [OF s1(2) pq(1)] by blast
  have "executor (\<lambda>_. return \<lparr>so_child = s2, so_tuples = ys, so_idx = 0\<rparr>) sort_next (\<lambda>s. inv (so_child s)) (listed_pending inv) ?b"
    by (rule listed_executor) (use pending_inv [OF s2(2)] in auto)
  from executor.run_beh [OF this, of s] assms(2)
  have "run_query (\<lambda>_. return \<lparr>so_child = s2, so_tuples = ys, so_idx = 0\<rparr>) sort_next s = Some (ys, None)" by simp
  moreover have "top_k_init push pop obs sch limit offset ini nxt s = return \<lparr>so_child = s2, so_tuples = ys, so_idx = 0\<rparr>"
    using s1(1) s2(1) pq(2,3) assms(3) by (simp add: top_k_init_def)
  ultimately show ?thesis by (simp add: run_query_def)
qed

end

subsection \<open>The bounded heap keeps the smallest rows\<close>

lemma heap_pushD:
  "heap_laws hp push pop \<Longrightarrow> compares lt c A \<Longrightarrow> insert x (set pq) \<subseteq> A \<Longrightarrow> hp c pq \<Longrightarrow>
    \<exists>pq1. push lt x pq = Inr pq1 \<and> mset pq1 = add_mset x (mset pq) \<and> hp c pq1"
  unfolding heap_laws_def using compares_subset by blast

lemma heap_popD:
  "heap_laws hp push pop \<Longrightarrow> compares lt c A \<Longrightarrow> set pq \<subseteq> A \<Longrightarrow> hp c pq \<Longrightarrow> pq \<noteq> [] \<Longrightarrow>
    \<exists>x pq1. pop lt pq = Inr (x, pq1) \<and> mset pq = add_mset x (mset pq1) \<and> (\<forall>y\<in>set pq. \<not> c x y) \<and> hp c pq1"
  unfolding heap_laws_def using compares_subset by blast

text \<open>\<open>pq\<close> holds the \<open>cap\<close> first rows of some ordering of the rows seen, \<open>D\<close> the others.\<close>

definition keeps_smallest :: "(row \<Rightarrow> row \<Rightarrow> bool) \<Rightarrow> nat \<Rightarrow> row list \<Rightarrow> row multiset \<Rightarrow> bool" where
  "keeps_smallest c cap pq D = (length pq \<le> cap \<and> (D \<noteq> {#} \<longrightarrow> length pq = cap) \<and> (\<forall>d\<in>#D. \<forall>y\<in>set pq. \<not> c d y))"

lemma push_bounded_keeps:
  assumes h: "heap_laws hp push pop" "compares lt c A" and k: "keeps_smallest c cap pq D" "hp c pq"
    and A: "x \<in> A" "set pq \<subseteq> A" "set_mset D \<subseteq> A"
  shows "\<exists>pq1 D1. push_bounded push pop lt cap x pq = Inr pq1 \<and> mset pq1 + D1 = add_mset x (mset pq + D) \<and>
    keeps_smallest c cap pq1 D1 \<and> hp c pq1"
proof -
  obtain pq1 where p1: "push lt x pq = Inr pq1" "mset pq1 = add_mset x (mset pq)" "hp c pq1"
    using heap_pushD [OF h] k(2) A by blast
  have len: "length pq1 = Suc (length pq)" and set1: "set pq1 = insert x (set pq)"
    using p1(2) by (metis size_mset size_add_mset, metis set_mset_mset set_mset_add_mset_insert)
  show ?thesis
  proof (cases "length pq1 > cap")
    case False
    then have "D = {#}" "length pq1 \<le> cap" using k(1) len by (auto simp: keeps_smallest_def)
    then show ?thesis using p1 False by (auto simp: push_bounded_def keeps_smallest_def)
  next
    case True
    obtain y pq2 where p2: "pop lt pq1 = Inr (y, pq2)" "mset pq1 = add_mset y (mset pq2)" "\<forall>z\<in>set pq1. \<not> c y z" "hp c pq2"
      using heap_popD [OF h, of pq1] p1(3) A set1 len by force
    have set2: "set pq1 = insert y (set pq2)" using p2(2) by (metis set_mset_mset set_mset_add_mset_insert)
    have "length pq2 = cap" using p2(2) True k(1) len by (metis keeps_smallest_def size_mset size_add_mset less_Suc_eq_le le_antisym Suc_inject)
    moreover have "\<not> c d z" if d: "d \<in># add_mset y D" and z: "z \<in> set pq2" for d z
    proof (cases "d = y")
      case False
      then have dD: "d \<in># D" using d by simp
      show ?thesis
      proof
        assume cdz: "c d z"
        then have "z \<notin> set pq" using k(1) dD by (auto simp: keeps_smallest_def)
        then have zx: "z = x" using z set1 set2 by auto
        have "y \<in> insert x (set pq)" using set1 set2 by auto
        moreover have "\<not> c y x" using p2(3) set1 by auto
        moreover have "c d y \<or> c y x" using compares_swo(2) [OF h(2), of d y x] cdz zx dD A calculation(1) by auto
        ultimately have "c d y" "y = x" using k(1) dD by (auto simp: keeps_smallest_def)
        then have "mset pq = mset pq2" using p1(2) p2(2) by simp
        then show False using \<open>z \<notin> set pq\<close> z by (metis mset_eq_setD)
      qed
    qed (use p2(3) set2 z in auto)
    ultimately have "keeps_smallest c cap pq2 (add_mset y D)" by (auto simp: keeps_smallest_def)
    moreover have "mset pq2 + add_mset y D = add_mset x (mset pq + D)" using p1(2) p2(2) by simp
    moreover have "push_bounded push pop lt cap x pq = Inr pq2" using p1(1) p2(1) True by (simp add: push_bounded_def)
    ultimately show ?thesis using p2(4) by blast
  qed
qed

lemma push_rows_keeps:
  assumes h: "heap_laws hp push pop" "compares lt c A"
    and "keeps_smallest c cap pq D" "hp c pq" "set xs \<subseteq> A" "set pq \<subseteq> A" "set_mset D \<subseteq> A"
  shows "\<exists>pq1 D1. push_rows push pop lt cap pq xs = Inr pq1 \<and> mset pq1 + D1 = mset xs + mset pq + D \<and> keeps_smallest c cap pq1 D1 \<and> hp c pq1"
  using assms(3-)
proof (induction xs arbitrary: pq D)
  case (Cons x xs)
  obtain pq1 D1 where p: "push_bounded push pop lt cap x pq = Inr pq1" "mset pq1 + D1 = add_mset x (mset pq + D)"
      "keeps_smallest c cap pq1 D1" "hp c pq1"
    using push_bounded_keeps [OF h Cons.prems(1,2), of x] Cons.prems by auto
  have "set pq1 \<union> set_mset D1 = insert x (set pq \<union> set_mset D)"
    using arg_cong [OF p(2), of set_mset] by simp
  then have "set pq1 \<subseteq> A" "set_mset D1 \<subseteq> A" using Cons.prems by auto
  from Cons.IH [OF p(3,4) _ this] Cons.prems obtain pq2 D2 where
    "push_rows push pop lt cap pq1 xs = Inr pq2" "mset pq2 + D2 = mset xs + mset pq1 + D1" "keeps_smallest c cap pq2 D2" "hp c pq2" by auto
  then show ?case using p(1,2) by (auto simp: ac_simps)
qed auto

lemma pop_all_ordered:
  assumes "heap_laws hp push pop" "compares lt c A" "hp c pq" "set pq \<subseteq> A"
  shows "\<exists>temp. pop_all pop lt (length pq) pq = Inr temp \<and> mset temp = mset pq \<and> ordered c (rev temp)"
  using assms(3,4)
proof (induction "length pq" arbitrary: pq)
  case 0
  then show ?case by (simp add: ordered_def)
next
  case (Suc n)
  then obtain x pq1 where p: "pop lt pq = Inr (x, pq1)" "mset pq = add_mset x (mset pq1)" "\<forall>y\<in>set pq. \<not> c x y" "hp c pq1"
    using heap_popD [OF assms(1,2), of pq] by force
  have n: "n = length pq1" using p(2) Suc.hyps(2) by (metis size_mset size_add_mset Suc_inject)
  have sub: "set pq = insert x (set pq1)" using p(2) by (metis set_mset_mset set_mset_add_mset_insert)
  then obtain temp where t: "pop_all pop lt n pq1 = Inr temp" "mset temp = mset pq1" "ordered c (rev temp)"
    using Suc.hyps(1) [OF n p(4)] Suc.prems n by auto
  have "set temp = set pq1" using t(2) by (rule mset_eq_setD)
  then have "ordered c (rev (x # temp))" using t(3) p(3) sub by (auto simp: ordered_def sorted_wrt_append)
  then show ?case using p(1,2) t(1,2) by (auto simp flip: Suc.hyps(2))
qed

lemma top_k_rows_first:
  assumes h: "heap_laws hp push pop" "compares (compare_rows obs sch) c (set xs)" and "limit + offset < 2 ^ 64"
  shows "\<exists>ys. mset ys = mset xs \<and> ordered c ys \<and> top_k_rows push pop obs sch limit offset xs = Inr (take limit (drop offset ys))"
proof -
  let ?lt = "compare_rows obs sch" and ?cap = "limit + offset"
  have "hp c []" using h(1) by (simp add: heap_laws_def)
  then obtain pq D where p: "push_rows push pop ?lt ?cap [] xs = Inr pq" "mset pq + D = mset xs" "keeps_smallest c ?cap pq D" "hp c pq"
    using push_rows_keeps [OF h, of ?cap "[]" "{#}" xs] by (auto simp: keeps_smallest_def)
  have sets: "set pq \<union> set_mset D = set xs" using arg_cong [OF p(2), of set_mset] by simp
  then obtain temp where t: "pop_all pop ?lt (length pq) pq = Inr temp" "mset temp = mset pq" "ordered c (rev temp)"
    using pop_all_ordered [OF h p(4)] by auto
  obtain ds0 where ds0: "mset ds0 = D" by (metis ex_mset)
  then have "set ds0 \<subseteq> set xs" by (metis Un_upper2 set_mset_mset sets)
  from insertion_sort_ok [OF h(2) this] obtain ds where ds: "mset ds = D" "ordered c ds" using ds0 by auto
  have st: "set temp = set pq" "set ds = set_mset D" "length temp = length pq"
    using t(2) ds(1) by (auto dest: mset_eq_setD mset_eq_length)
  have "ordered c (rev temp @ ds)"
    using t(3) ds(2) p(3) st by (auto simp: ordered_def sorted_wrt_append keeps_smallest_def)
  moreover have "mset (rev temp @ ds) = mset xs" using t(2) ds(1) p(2) by simp
  moreover have "take limit (drop offset (rev temp @ ds)) = take limit (drop offset (rev temp))"
  proof (cases "D = {#}")
    case False
    then have "length temp = ?cap" using p(3) st by (simp add: keeps_smallest_def)
    then show ?thesis by simp
  qed (use ds(1) in simp)
  moreover have "?cap mod 2 ^ 64 = ?cap" using assms(3) by simp
  ultimately show ?thesis using p(1) t(1) by (intro exI [of _ "rev temp @ ds"]) (simp add: top_k_rows_def)
qed

interpretation sorted_values: executor "sort_init sorter obs sch' values_init values_next" sort_next "\<lambda>s. values_inv ess sch (so_child s)"
    "listed_pending (values_inv ess sch)" "gather_beh (sorter (compare_rows obs sch')) (values_beh ess sch)"
  for sorter obs sch' ess sch
  by (rule vals.sort_executor)

subsection \<open>Properties\<close>

text \<open>
  C34. \<open>ORDER BY\<close> over an executor that keeps the contract, where the sort expressions have values of fixed types and none is null: the query ends
  without an exception and its rows are a permutation of the child's rows, ordered lexicographically by the sort
  expressions, each in its direction, and rows with equal keys keep the order of the child.  The comparison
  passed to \<open>std::stable_sort\<close> is a strict weak order there.  With \<open>std::sort\<close> all but the last holds.
\<close>

theorem order_by_run:
  assumes "executor ini nxt iv pend (Rows xs None)" "iv (so_child s)" "sortable obs sch tys xs" "sorts_stably stable_sort" "sorts unstable_sort"
  shows "(\<exists>ys. run_query (order_by_init stable_sort obs sch ini nxt) order_by_next s = Some (ys, None) \<and> mset ys = mset xs \<and>
      ordered (row_less obs sch) ys \<and> (\<forall>x\<in>set xs. filter (same_class (row_less obs sch) x) ys = filter (same_class (row_less obs sch) x) xs)) \<and>
    (\<exists>ys. run_query (sort_init unstable_sort obs sch ini nxt) sort_next s = Some (ys, None) \<and> mset ys = mset xs \<and> ordered (row_less obs sch) ys)"
proof -
  let ?lt = "compare_rows obs sch" and ?c = "row_less obs sch"
  have c: "compares ?lt ?c (set xs)" by (rule rows_compared [OF assms(3)])
  have run: "run_query (sort_init sorter obs sch ini nxt) sort_next s = Some (ys, None)" if "sorter ?lt xs = Inr ys" for sorter ys
    using executor.run_beh [OF executor.sort_executor [OF assms(1), of sorter obs sch], of s] assms(2) that by (simp add: gather_beh_def)
  obtain ys where "stable_sort ?lt xs = Inr ys" "mset ys = mset xs" "ordered ?c ys" "\<forall>x\<in>set xs. filter (same_class ?c x) ys = filter (same_class ?c x) xs"
    using assms(4) c unfolding sorts_stably_def by blast
  moreover obtain zs where "unstable_sort ?lt xs = Inr zs" "mset zs = mset xs" "ordered ?c zs"
    using assms(5) c unfolding sorts_def by blast
  ultimately show ?thesis using run [of stable_sort ys] run [of unstable_sort zs] by (simp only: order_by_is_sort) blast
qed

lemma int_row_column: "int32 i \<Longrightarrow> eval_all [EColumn 0 None] (fst (int_row i)) int_schema = Inr [VInt i]"
  using column_evaluate_encodes [OF int_row_encodes, of i 0] by (simp add: evaluate_def)

lemma sample_sortable: "sortable [(d, EColumn 0 None)] int_schema [TypeInteger] [int_row 1, int_row 2]"
  using int_row_column [of 1] int_row_column [of 2] by (simp add: sortable_def keys_typed_def int32_def getType_def)

theorem order_by_run_witness:
  "\<exists>ys. run_query (order_by_init insertion_sort [(DESC, EColumn 0 None)] int_schema values_init values_next) order_by_next
      \<lparr>so_child = sample_exec, so_tuples = [], so_idx = 0\<rparr> = Some (ys, None) \<and>
    mset ys = {#int_row 1, int_row 2#} \<and> ordered (row_less [(DESC, EColumn 0 None)] int_schema) ys"
  using order_by_run [OF sample_executor(1) _ sample_sortable [of DESC] insertion_sort_stable stable_sorts [OF insertion_sort_stable],
      of "\<lparr>so_child = sample_exec, so_tuples = [], so_idx = 0\<rparr>"] sample_executor(2) by auto

text \<open>
  C35. The bounded heap of \<open>ORDER BY ... LIMIT n OFFSET m\<close> gives the rows \<open>m\<close> to \<open>m + n - 1\<close> of an ordered permutation of all rows of the
  child, although it never holds more than \<open>m + n\<close> rows, as long as that sum does not overflow \<open>size_t\<close>.
\<close>

theorem top_k_run:
  assumes "executor ini nxt iv pend (Rows xs None)" "iv (so_child s)" "sortable obs sch tys xs" "heap_laws hp push pop"
    and "0 < limit" "limit + offset < 2 ^ 64"
  shows "\<exists>ys. mset ys = mset xs \<and> ordered (row_less obs sch) ys \<and>
    run_query (top_k_init push pop obs sch limit offset ini nxt) top_k_next s = Some (take limit (drop offset ys), None)"
proof -
  obtain ys where "mset ys = mset xs" "ordered (row_less obs sch) ys" "top_k_rows push pop obs sch limit offset xs = Inr (take limit (drop offset ys))"
    using top_k_rows_first [OF assms(4) rows_compared [OF assms(3)] assms(6)] by blast
  then show ?thesis unfolding order_by_is_sort using executor.top_k_fill_run [OF assms(1) refl assms(2,5)] by blast
qed

theorem top_k_run_witness:
  "\<exists>ys. mset ys = {#int_row 1, int_row 2#} \<and> ordered (row_less [(ASC, EColumn 0 None)] int_schema) ys \<and>
    run_query (top_k_init insert_row pop_last [(ASC, EColumn 0 None)] int_schema 1 0 values_init values_next) top_k_next
      \<lparr>so_child = sample_exec, so_tuples = [], so_idx = 0\<rparr> = Some (take 1 ys, None)"
  using top_k_run [OF sample_executor(1) _ sample_sortable [of ASC] sorted_list_heap, of "\<lparr>so_child = sample_exec, so_tuples = [], so_idx = 0\<rparr>" 1 0]
    sample_executor(2) by simp

text \<open>
  The sum wraps: with the largest limit and an offset of one the capacity is zero, and every row is dropped.
\<close>

lemma top_k_capacity_wraps:
  assumes "executor ini nxt iv pend (Rows xs None)" "iv (so_child s)" "sortable obs sch tys xs" "heap_laws hp push pop" "offset > 0"
  shows "run_query (top_k_init push pop obs sch (2 ^ 64 - offset) offset ini nxt) top_k_next s = Some ([], None) \<or> offset \<ge> 2 ^ 64"
proof (rule disjCI)
  assume o: "\<not> offset \<ge> 2 ^ 64"
  let ?c = "row_less obs sch" and ?lt = "compare_rows obs sch"
  have cap: "(2 ^ 64 - offset + offset) mod 2 ^ 64 = 0" using o by simp
  have "hp ?c []" using assms(4) by (simp add: heap_laws_def)
  then obtain pq D where p: "push_rows push pop ?lt 0 [] xs = Inr pq" "keeps_smallest ?c 0 pq D"
    using push_rows_keeps [OF assms(4) rows_compared [OF assms(3)], of 0 "[]" "{#}" xs] by (auto simp: keeps_smallest_def)
  then have "top_k_rows push pop obs sch (2 ^ 64 - offset) offset xs = Inr []"
    using cap by (simp add: top_k_rows_def keeps_smallest_def)
  then show "run_query (top_k_init push pop obs sch (2 ^ 64 - offset) offset ini nxt) top_k_next s = Some ([], None)"
    unfolding order_by_is_sort using executor.top_k_fill_run [OF assms(1) refl assms(2)] o by simp
qed

end
