(* ===== verification/HashJoin.thy ===== *)
theory HashJoin
  imports Executors
begin

text \<open>
  The hash join: \<^verbatim>\<open>src/executor/hash_join_executor.cpp\<close> and \<^verbatim>\<open>include/executor/hash_join_executor.hpp\<close>.

  The unordered map is a map from key values to the tuples of the right input in order.  \<open>ValueEqual\<close>
  is equality on the keys that are stored and looked up, none of which is null.  The join is shown to be an
  executor that keeps the contract, and its rows to be those of the nested loop join on the equality
  of the keys.
\<close>

definition ValueEqual :: "Value \<Rightarrow> Value \<Rightarrow> exn + bool" where
  "ValueEqual a b = (if isNull a \<or> isNull b then Inr False else try_bind (compareEquals a b) getAsBoolean)"

lemma ValueEqual_eq: "\<not> isNull a \<Longrightarrow> ValueEqual a b = Inr (a = b)"
  by (auto simp: ValueEqual_def compareEquals_def value_simps split: Value.splits)

type_synonym hash_table = "Value \<rightharpoonup> Tuple list"

record ('l, 'r) HashJoin =
  hj_left :: 'l
  hj_right :: 'r
  hj_table :: hash_table
  hj_has_more :: bool
  hj_current :: row
  hj_idx :: nat

definition hash_key :: "Expression \<Rightarrow> Schema \<Rightarrow> row \<Rightarrow> exn + Value" where
  "hash_key e sch r = evaluateJoin e None (Some (fst r, sch))"

definition probe_key :: "Expression \<Rightarrow> Schema \<Rightarrow> row \<Rightarrow> exn + Value" where
  "probe_key e sch l = evaluateJoin e (Some (fst l, sch)) None"

text \<open>\<open>hash_table_[key].push_back(right_tuple)\<close> for a key that is not null.\<close>

definition hash_put :: "Value \<Rightarrow> Tuple \<Rightarrow> hash_table \<Rightarrow> hash_table" where
  "hash_put key t ht = (if \<not> isNull key then ht(key \<mapsto> (case ht key of None \<Rightarrow> [] | Some ts \<Rightarrow> ts) @ [t]) else ht)"

partial_function (option) hash_build :: "Expression \<Rightarrow> Schema \<Rightarrow> 'r next_op \<Rightarrow> 'r \<Rightarrow> hash_table \<Rightarrow> (hash_table \<times> 'r) result" where
  "hash_build e sch right s ht = then_do (right s) (\<lambda>(r, s1). case r of
     None \<Rightarrow> return (ht, s1)
   | Some row \<Rightarrow> (case hash_key e sch row of
       Inl x \<Rightarrow> throws x
     | Inr key \<Rightarrow> hash_build e sch right s1 (hash_put key (fst row) ht)))"

text \<open>As in the nested loop join, the children share the context \<open>'w\<close>.\<close>

definition hj_advance :: "('l \<times> 'w) next_op \<Rightarrow> (('l, 'r) HashJoin \<times> 'w) init_op" where
  "hj_advance left x = then_do (left (hj_left (fst x), snd x)) (\<lambda>(r, (l1, w1)). return (case r of
     None \<Rightarrow> ((fst x)\<lparr>hj_left := l1, hj_has_more := False, hj_idx := 0\<rparr>, w1)
   | Some row \<Rightarrow> ((fst x)\<lparr>hj_left := l1, hj_has_more := True, hj_current := row, hj_idx := 0\<rparr>, w1)))"

definition hj_init :: "Expression \<Rightarrow> Schema \<Rightarrow> ('l \<times> 'w) init_op \<Rightarrow> ('l \<times> 'w) next_op \<Rightarrow> ('r \<times> 'w) init_op \<Rightarrow> ('r \<times> 'w) next_op \<Rightarrow>
    (('l, 'r) HashJoin \<times> 'w) init_op" where
  "hj_init rk rsch left_init left right_init right x = then_do (left_init (hj_left (fst x), snd x)) (\<lambda>(l1, w1).
     then_do (right_init (hj_right (fst x), w1)) (\<lambda>(r1, w2).
     then_do (hash_build rk rsch right (r1, w2) Map.empty) (\<lambda>(ht, (r2, w3)).
     hj_advance left ((fst x)\<lparr>hj_left := l1, hj_right := r2, hj_table := ht\<rparr>, w3))))"

text \<open>The tuples under the key; \<open>find\<close> is not called for a null key.\<close>

definition hj_bucket :: "hash_table \<Rightarrow> Value \<Rightarrow> Tuple list" where
  "hj_bucket ht key = (if \<not> isNull key then (case ht key of None \<Rightarrow> [] | Some ts \<Rightarrow> ts) else [])"

partial_function (option) hj_next :: "Expression \<Rightarrow> Schema \<Rightarrow> ('l \<times> 'w) next_op \<Rightarrow> (('l, 'r) HashJoin \<times> 'w) next_op" where
  "hj_next lk lsch left x = (if \<not> hj_has_more (fst x) then return (None, x)
     else case probe_key lk lsch (hj_current (fst x)) of
       Inl e \<Rightarrow> throws e
     | Inr key \<Rightarrow> if hj_idx (fst x) < length (hj_bucket (hj_table (fst x)) key)
         then return (Some (fst (hj_current (fst x)) @ hj_bucket (hj_table (fst x)) key ! hj_idx (fst x), snd (hj_current (fst x))),
           ((fst x)\<lparr>hj_idx := hj_idx (fst x) + 1\<rparr>, snd x))
         else then_do (hj_advance left x) (hj_next lk lsch left))"

subsection \<open>The table built from the right rows\<close>

fun build_table :: "Expression \<Rightarrow> Schema \<Rightarrow> row list \<Rightarrow> hash_table \<Rightarrow> exn + hash_table" where
  "build_table e sch [] ht = Inr ht"
| "build_table e sch (r # rs) ht = try_bind (hash_key e sch r) (\<lambda>key. build_table e sch rs (hash_put key (fst r) ht))"

lemma bucket_put: "hj_bucket (hash_put k t ht) key = hj_bucket ht key @ (if key = k \<and> \<not> isNull k then [t] else [])"
  by (auto simp: hj_bucket_def hash_put_def split: option.splits)

lemma bucket_build:
  assumes "\<And>r. r \<in> set rs \<Longrightarrow> hash_key e sch r = Inr (k r)"
  shows "\<exists>ht'. build_table e sch rs ht = Inr ht' \<and>
    (\<forall>key. hj_bucket ht' key = hj_bucket ht key @ map fst (filter (\<lambda>r. key = k r \<and> \<not> isNull key) rs))"
  using assms
proof (induction rs arbitrary: ht)
  case (Cons r rs)
  then show ?case using Cons.IH [of "hash_put (k r) (fst r) ht"] by (fastforce simp: bucket_put)
qed simp

subsection \<open>The join as an executor\<close>

definition bucket_rows :: "row \<Rightarrow> Tuple list \<Rightarrow> row list" where
  "bucket_rows l ts = map (\<lambda>t. (fst l @ t, snd l)) ts"

fun hj_rows :: "Expression \<Rightarrow> Schema \<Rightarrow> hash_table \<Rightarrow> row list \<Rightarrow> exn option \<Rightarrow> row list \<times> exn option" where
  "hj_rows lk lsch ht [] f = ([], f)"
| "hj_rows lk lsch ht (l # ls) f = (case probe_key lk lsch l of
     Inl e \<Rightarrow> ([], Some e)
   | Inr key \<Rightarrow> (case hj_rows lk lsch ht ls f of (ys, g) \<Rightarrow> (bucket_rows l (hj_bucket ht key) @ ys, g)))"

text \<open>What is due from a state that holds a left row: the rest of its bucket, then the rows of the left rows to come.\<close>

definition hj_due :: "Expression \<Rightarrow> Schema \<Rightarrow> hash_table \<Rightarrow> row \<Rightarrow> nat \<Rightarrow> row list \<Rightarrow> exn option \<Rightarrow> row list \<times> exn option" where
  "hj_due lk lsch ht l i ls f = (case probe_key lk lsch l of
     Inl e \<Rightarrow> ([], Some e)
   | Inr key \<Rightarrow> (case hj_rows lk lsch ht ls f of (ys, g) \<Rightarrow> (bucket_rows l (drop i (hj_bucket ht key)) @ ys, g)))"

lemma hj_due_start: "hj_due lk lsch ht l 0 ls f = hj_rows lk lsch ht (l # ls) f"
  by (auto simp: hj_due_def split: sum.splits)

definition hj_pending :: "'w \<Rightarrow> ('l \<times> 'w \<Rightarrow> bool) \<Rightarrow> ('l \<times> 'w \<Rightarrow> row list \<Rightarrow> exn option \<Rightarrow> bool) \<Rightarrow> ('r \<times> 'w \<Rightarrow> bool) \<Rightarrow> Expression \<Rightarrow> Schema \<Rightarrow>
    ('l, 'r) HashJoin \<times> 'w \<Rightarrow> row list \<Rightarrow> exn option \<Rightarrow> bool" where
  "hj_pending w linv lpend rinv lk lsch x ys g = (snd x = w \<and> linv (hj_left (fst x), w) \<and> rinv (hj_right (fst x), w) \<and>
     (if hj_has_more (fst x) then \<exists>ls lf. lpend (hj_left (fst x), w) ls lf \<and>
        hj_due lk lsch (hj_table (fst x)) (hj_current (fst x)) (hj_idx (fst x)) ls lf = (ys, g)
      else ys = [] \<and> g = None))"

definition hj_beh :: "Expression \<Rightarrow> Schema \<Rightarrow> Expression \<Rightarrow> Schema \<Rightarrow> behaviour \<Rightarrow> behaviour \<Rightarrow> behaviour" where
  "hj_beh lk lsch rk rsch lb rb = (case lb of InitThrows e \<Rightarrow> InitThrows e | Rows ls lf \<Rightarrow>
     (case rb of InitThrows e \<Rightarrow> InitThrows e | Rows rs rf \<Rightarrow>
     (case build_table rk rsch rs Map.empty of Inl e \<Rightarrow> InitThrows e | Inr ht \<Rightarrow>
     (case rf of Some e \<Rightarrow> InitThrows e | None \<Rightarrow>
     (if ls = [] \<and> lf \<noteq> None then InitThrows (the lf)
      else case hj_rows lk lsch ht ls lf of (ys, g) \<Rightarrow> Rows ys g)))))"

context executor
begin

lemma hash_build_rows:
  assumes "pending s rs f"
  shows "case build_table e sch rs ht of
     Inl x \<Rightarrow> hash_build e sch nxt s ht = throws x
   | Inr ht' \<Rightarrow> (case f of Some x \<Rightarrow> hash_build e sch nxt s ht = throws x
       | None \<Rightarrow> \<exists>s1. hash_build e sch nxt s ht = return (ht', s1) \<and> pending s1 [] None)"
  using assms
proof (induction rs arbitrary: s ht)
  case Nil
  then show ?case using next_end [of s] next_throws [of s] by (cases f) (auto simp: hash_build.simps)
next
  case (Cons r rs)
  then obtain s1 where s1: "nxt s = return (Some r, s1)" "pending s1 rs f" using next_row by blast
  show ?case
  proof (cases "hash_key e sch r")
    case (Inl x)
    then have "hash_build e sch nxt s ht = throws x" using s1(1) by (subst hash_build.simps) simp
    then show ?thesis using Inl by simp
  next
    case (Inr key)
    then have "hash_build e sch nxt s ht = hash_build e sch nxt s1 (hash_put key (fst r) ht)" using s1(1) by (subst hash_build.simps) simp
    then show ?thesis using Inr Cons.IH [OF s1(2), of "hash_put key (fst r) ht"] by (simp split: sum.splits option.splits)
  qed
qed

end

context two_executors
begin

abbreviation "hpend lk lsch \<equiv> hj_pending w linv lpend rinv lk lsch"

lemma hj_advance_cases:
  assumes "lpend (hj_left s, w) ls lf"
  obtains l ls' l1 where "ls = l # ls'" "hj_advance lnxt (s, w) = return (s\<lparr>hj_left := l1, hj_has_more := True, hj_current := l, hj_idx := 0\<rparr>, w)"
    "lpend (l1, w) ls' lf"
  | l1 where "ls = []" "lf = None" "hj_advance lnxt (s, w) = return (s\<lparr>hj_left := l1, hj_has_more := False, hj_idx := 0\<rparr>, w)" "lpend (l1, w) [] None"
  | e where "ls = []" "lf = Some e" "hj_advance lnxt (s, w) = throws e"
  using assms l.row [of "hj_left s"] l.finished [of "hj_left s"] l.next_throws [of "(hj_left s, w)"]
  by (cases ls; cases lf) (fastforce simp: hj_advance_def)+

lemma hj_step:
  assumes "lpend (hj_left s, w) ls lf" "rinv (hj_right s, w)" "hj_has_more s"
    and due: "hj_due lk lsch (hj_table s) (hj_current s) (hj_idx s) ls lf = (ys, g)"
    and at_end: "hj_next lk lsch lnxt (s, w) = then_do (hj_advance lnxt (s, w)) (hj_next lk lsch lnxt) \<Longrightarrow>
      hj_rows lk lsch (hj_table s) ls lf = (ys, g) \<Longrightarrow> outcome (hj_next lk lsch lnxt) (hpend lk lsch) (s, w) ys g"
  shows "outcome (hj_next lk lsch lnxt) (hpend lk lsch) (s, w) ys g"
proof (cases "probe_key lk lsch (hj_current s)")
  case (Inl e)
  then have "hj_next lk lsch lnxt (s, w) = throws e" using assms(3) by (subst hj_next.simps) simp
  then show ?thesis using Inl due by (auto simp: hj_due_def outcome_def)
next
  case (Inr key)
  let ?ts = "hj_bucket (hj_table s) key"
  obtain zs h where zs: "hj_rows lk lsch (hj_table s) ls lf = (zs, h)" by (cases "hj_rows lk lsch (hj_table s) ls lf")
  have ys: "ys = bucket_rows (hj_current s) (drop (hj_idx s) ?ts) @ zs" "g = h"
    using due Inr zs by (auto simp: hj_due_def)
  show ?thesis
  proof (cases "hj_idx s < length ?ts")
    case True
    let ?s1 = "s\<lparr>hj_idx := hj_idx s + 1\<rparr>"
    let ?x = "(fst (hj_current s) @ ?ts ! hj_idx s, snd (hj_current s))"
    have "hj_next lk lsch lnxt (s, w) = return (Some ?x, (?s1, w))" using assms(3) Inr True by (subst hj_next.simps) simp
    moreover have "ys = ?x # (bucket_rows (hj_current s) (drop (Suc (hj_idx s)) ?ts) @ zs)"
      using ys True by (simp add: bucket_rows_def Cons_nth_drop_Suc [symmetric])
    moreover have "hpend lk lsch (?s1, w) (bucket_rows (hj_current s) (drop (Suc (hj_idx s)) ?ts) @ zs) g"
      using assms(1-3) l.pending_inv [OF assms(1)] Inr zs ys(2) by (simp add: hj_pending_def hj_due_def) (rule exI, rule exI, rule conjI, assumption, simp)
    ultimately show ?thesis by (simp add: outcome_def)
  next
    case False
    have "hj_next lk lsch lnxt (s, w) = then_do (hj_advance lnxt (s, w)) (hj_next lk lsch lnxt)"
      using assms(3) Inr False by (subst hj_next.simps) simp
    then show ?thesis using at_end zs ys False by (simp add: bucket_rows_def)
  qed
qed

lemma hj_exhausted: "\<not> hj_has_more (fst x) \<Longrightarrow> hj_next lk lsch left x = return (None, x)"
  by (subst hj_next.simps) simp

lemma hj_next_outcome:
  "lpend (hj_left s, w) ls lf \<Longrightarrow> rinv (hj_right s, w) \<Longrightarrow> hj_has_more s \<Longrightarrow>
    hj_due lk lsch (hj_table s) (hj_current s) (hj_idx s) ls lf = (ys, g) \<Longrightarrow> outcome (hj_next lk lsch lnxt) (hpend lk lsch) (s, w) ys g"
proof (induction ls arbitrary: s)
  case Nil
  show ?case
  proof (rule hj_step [OF Nil])
    assume n: "hj_next lk lsch lnxt (s, w) = then_do (hj_advance lnxt (s, w)) (hj_next lk lsch lnxt)" and "hj_rows lk lsch (hj_table s) [] lf = (ys, g)"
    then have e: "ys = []" "g = lf" by simp_all
    show "outcome (hj_next lk lsch lnxt) (hpend lk lsch) (s, w) ys g"
      using Nil(1) by (rule hj_advance_cases)
        (use n e Nil(2) l.pending_inv in \<open>auto simp: outcome_def hj_exhausted hj_pending_def\<close>)
  qed
next
  case (Cons l ls)
  show ?case
  proof (rule hj_step [OF Cons.prems])
    assume n: "hj_next lk lsch lnxt (s, w) = then_do (hj_advance lnxt (s, w)) (hj_next lk lsch lnxt)"
      and r: "hj_rows lk lsch (hj_table s) (l # ls) lf = (ys, g)"
    obtain l1 where l0: "lnxt (hj_left s, w) = return (Some l, (l1, w))" "lpend (l1, w) ls lf" using l.row [OF Cons.prems(1)] by blast
    then have l1: "hj_advance lnxt (s, w) = return (s\<lparr>hj_left := l1, hj_has_more := True, hj_current := l, hj_idx := 0\<rparr>, w)"
      by (simp_all add: hj_advance_def)
    let ?s1 = "s\<lparr>hj_left := l1, hj_has_more := True, hj_current := l, hj_idx := 0\<rparr>"
    have e: "hj_next lk lsch lnxt (s, w) = hj_next lk lsch lnxt (?s1, w)" unfolding n l1 by simp
    have "outcome (hj_next lk lsch lnxt) (hpend lk lsch) (?s1, w) ys g"
      by (rule Cons.IH) (use l0(2) Cons.prems(2) r in \<open>simp_all add: hj_due_start del: hj_rows.simps\<close>)
    then show "outcome (hj_next lk lsch lnxt) (hpend lk lsch) (s, w) ys g" by (simp only: outcome_cong [OF e])
  qed
qed

lemma hash_build_shared:
  assumes "rpend (r1, w) rs None" "build_table rk rsch rs ht = Inr ht'"
  shows "\<exists>r2. hash_build rk rsch rnxt (r1, w) ht = return (ht', (r2, w)) \<and> rpend (r2, w) [] None"
proof -
  obtain s1 where s1: "hash_build rk rsch rnxt (r1, w) ht = return (ht', s1)" "rpend s1 [] None"
    using r.hash_build_rows [OF assms(1), of rk rsch ht] assms(2) by auto
  then have "s1 = (fst s1, w)" using r.inv_context [OF r.pending_inv [OF s1(2)]] by (cases s1) simp
  with s1 show ?thesis by metis
qed

lemma hash_join_executor:
  "context_executor (hj_init rk rsch lini lnxt rini rnxt) (hj_next lk lsch lnxt) (\<lambda>x. snd x = w \<and> linv (hj_left (fst x), w) \<and> rinv (hj_right (fst x), w))
    (hpend lk lsch) (hj_beh lk lsch rk rsch lbeh rbeh) w"
proof (rule context_executor.intro, rule executorI)
  let ?inv = "\<lambda>x :: ('l, 'r) HashJoin \<times> 'w. snd x = w \<and> linv (hj_left (fst x), w) \<and> rinv (hj_right (fst x), w)"
  show "outcome (hj_next lk lsch lnxt) (hpend lk lsch) x ys g" if h: "hpend lk lsch x ys g" for x ys g
  proof -
    obtain s where x: "x = (s, w)" using h by (cases x) (simp add: hj_pending_def)
    show ?thesis unfolding x using h x hj_next_outcome [of s] hj_exhausted [of "(s, w)"]
      by (cases "hj_has_more s") (auto simp: hj_pending_def outcome_def)
  qed
  show "?inv x" if "hpend lk lsch x ys g" for x ys g using that by (auto simp: hj_pending_def)
  show "hj_init rk rsch lini lnxt rini rnxt x = throws e" if i: "?inv x" and b: "hj_beh lk lsch rk rsch lbeh rbeh = InitThrows e" for x e
  proof (cases lbeh)
    case (InitThrows y)
    then show ?thesis using b l.init_throws [OF _ InitThrows, of "(hj_left (fst x), w)"] i by (simp add: hj_beh_def hj_init_def)
  next
    case L: (Rows ls lf)
    obtain l1 where l1: "lini (hj_left (fst x), w) = return (l1, w)" "lpend (l1, w) ls lf" using l.start [OF _ L] i by blast
    show ?thesis
    proof (cases rbeh)
      case (InitThrows y)
      then show ?thesis using b L l1 r.init_throws [OF _ InitThrows, of "(hj_right (fst x), w)"] i by (simp add: hj_beh_def hj_init_def)
    next
      case R: (Rows rs rf)
      obtain r1 where r1: "rini (hj_right (fst x), w) = return (r1, w)" "rpend (r1, w) rs rf" using r.start [OF _ R] i by blast
      note B = r.hash_build_rows [OF r1(2), of rk rsch Map.empty]
      have adv: "lf = Some e \<Longrightarrow> ls = [] \<Longrightarrow> hj_advance lnxt ((fst x)\<lparr>hj_left := l1, hj_right := r2, hj_table := ht\<rparr>, w) = throws e" for r2 ht
        using l.next_throws [of "(l1, w)"] l1(2) by (simp add: hj_advance_def)
      show ?thesis
      proof (cases "build_table rk rsch rs Map.empty")
        case (Inl y)
        then show ?thesis using b L R i l1(1) r1(1) B by (simp add: hj_beh_def hj_init_def)
      next
        case (Inr ht)
        show ?thesis
        proof (cases rf)
          case None
          then obtain r2 where "hash_build rk rsch rnxt (r1, w) Map.empty = return (ht, (r2, w))" using hash_build_shared [OF _ Inr] r1(2) by blast
          then show ?thesis using b L R i l1(1) r1(1) Inr None adv by (auto simp: hj_beh_def hj_init_def split: if_splits prod.splits)
        qed (use b L R i l1(1) r1(1) B Inr in \<open>simp add: hj_beh_def hj_init_def\<close>)
      qed
    qed
  qed
  fix x :: "('l, 'r) HashJoin \<times> 'w" and ys g
  assume i: "?inv x" and "hj_beh lk lsch rk rsch lbeh rbeh = Rows ys g"
  then obtain ls lf rs ht where L: "lbeh = Rows ls lf" and R: "rbeh = Rows rs None" and H: "build_table rk rsch rs Map.empty = Inr ht"
      and E: "ls = [] \<longrightarrow> lf = None" and J: "hj_rows lk lsch ht ls lf = (ys, g)"
    by (auto simp: hj_beh_def split: behaviour.splits sum.splits option.splits if_splits prod.splits)
  obtain l1 where l1: "lini (hj_left (fst x), w) = return (l1, w)" "lpend (l1, w) ls lf" using l.start [OF _ L] i by blast
  obtain r1 where r1: "rini (hj_right (fst x), w) = return (r1, w)" "rpend (r1, w) rs None" using r.start [OF _ R] i by blast
  obtain r2 where r2: "hash_build rk rsch rnxt (r1, w) Map.empty = return (ht, (r2, w))" "rpend (r2, w) [] None"
    using hash_build_shared [OF r1(2) H] by blast
  let ?s = "(fst x)\<lparr>hj_left := l1, hj_right := r2, hj_table := ht\<rparr>"
  have "\<exists>s1. hj_advance lnxt (?s, w) = return s1 \<and> hpend lk lsch s1 ys g"
  proof (rule hj_advance_cases [of ?s ls lf])
    fix l ls' l2
    assume "ls = l # ls'" "hj_advance lnxt (?s, w) = return (?s\<lparr>hj_left := l2, hj_has_more := True, hj_current := l, hj_idx := 0\<rparr>, w)" "lpend (l2, w) ls' lf"
    then show ?thesis using J r.pending_inv [OF r2(2)] l.pending_inv by (auto simp: hj_pending_def hj_due_start simp del: hj_rows.simps)
  qed (use l1(2) J E r.pending_inv [OF r2(2)] l.pending_inv in \<open>auto simp: hj_pending_def\<close>)
  then show "\<exists>s1. hj_init rk rsch lini lnxt rini rnxt x = return s1 \<and> hpend lk lsch s1 ys g"
    using l1(1) r1(1) r2(1) i by (simp add: hj_init_def)
qed (simp add: context_executor_axioms_def)

end

interpretation hash_joined_values: context_executor "hj_init rk rsch (lift_init values_init) (lift_next values_next) (lift_init values_init) (lift_next values_next)"
    "hj_next lk lsch (lift_next values_next)"
    "\<lambda>x. snd x = w \<and> lift_inv (values_inv ess1 sch1) w (hj_left (fst x), w) \<and> lift_inv (values_inv ess2 sch2) w (hj_right (fst x), w)"
    "hj_pending w (lift_inv (values_inv ess1 sch1) w) (lift_pending (values_pending ess1 sch1) w) (lift_inv (values_inv ess2 sch2) w) lk lsch"
    "hj_beh lk lsch rk rsch (values_beh ess1 sch1) (values_beh ess2 sch2)" w
  for rk rsch lk lsch ess1 sch1 ess2 sch2 w
  by (rule value_pairs.hash_join_executor)

subsection \<open>Properties\<close>

text \<open>Expressions that read only one side of the join.\<close>

fun reads_left :: "Expression \<Rightarrow> bool" where
  "reads_left (EColumn i src) = (src \<noteq> Some SourceRight)"
| "reads_left (EArith op a b) = (reads_left a \<and> reads_left b)"
| "reads_left (EComp op a b) = (reads_left a \<and> reads_left b)"
| "reads_left (ELogic op a b) = (reads_left a \<and> reads_left b)"
| "reads_left (ENot a) = reads_left a"
| "reads_left _ = True"

fun reads_right :: "Expression \<Rightarrow> bool" where
  "reads_right (EColumn i src) = (src = Some SourceRight)"
| "reads_right (EArith op a b) = (reads_right a \<and> reads_right b)"
| "reads_right (EComp op a b) = (reads_right a \<and> reads_right b)"
| "reads_right (ELogic op a b) = (reads_right a \<and> reads_right b)"
| "reads_right (ENot a) = reads_right a"
| "reads_right _ = True"

lemma evaluateJoin_left: "reads_left e \<Longrightarrow> evaluateJoin e (Some l) r = evaluateJoin e (Some l) None"
  by (induction e) (auto split: option.splits TupleSource.splits)

lemma evaluateJoin_right: "reads_right e \<Longrightarrow> evaluateJoin e l (Some r) = evaluateJoin e None (Some r)"
  by (induction e) (auto split: option.splits TupleSource.splits)

lemma hj_rows_reference:
  assumes "\<And>l. l \<in> set ls \<Longrightarrow> probe_key lk lsch l = Inr (kl l)"
    "\<And>key. hj_bucket ht key = map fst (filter (\<lambda>r. key = kr r \<and> \<not> isNull key) rs)"
  shows "hj_rows lk lsch ht ls None = (concat (map (\<lambda>l. map (combine_rows l) (filter (\<lambda>r. kl l = kr r \<and> \<not> isNull (kl l)) rs)) ls), None)"
  using assms(1) by (induction ls) (auto simp: assms(2) bucket_rows_def combine_rows_def comp_def)

lemma hash_join_beh:
  assumes kl: "\<And>l. l \<in> set ls \<Longrightarrow> probe_key lk lsch l = Inr (kl l)" and kr: "\<And>r. r \<in> set rs \<Longrightarrow> hash_key rk rsch r = Inr (kr r)"
  shows "hj_beh lk lsch rk rsch (Rows ls None) (Rows rs None) =
    Rows (concat (map (\<lambda>l. map (combine_rows l) (filter (\<lambda>r. kl l = kr r \<and> \<not> isNull (kl l)) rs)) ls)) None"
proof -
  have "hj_bucket Map.empty key = []" for key by (simp add: hj_bucket_def)
  then obtain ht where ht: "build_table rk rsch rs Map.empty = Inr ht"
      "\<And>key. hj_bucket ht key = map fst (filter (\<lambda>r. key = kr r \<and> \<not> isNull key) rs)"
    using bucket_build [of rs rk rsch kr Map.empty] kr by auto
  then show ?thesis using hj_rows_reference [of ls lk lsch kl ht kr rs] kl by (simp add: hj_beh_def)
qed

lemma hash_join_reference:
  assumes "context_executor lini lnxt linv lpend (Rows ls None) w" "context_executor rini rnxt rinv rpend (Rows rs None) w"
    and kl: "\<forall>l\<in>set ls. probe_key lk lsch l = Inr (kl l)" and kr: "\<forall>r\<in>set rs. hash_key rk rsch r = Inr (kr r)"
    and i: "linv (hj_left s, w)" "rinv (hj_right s, w)"
  shows "run_query (hj_init rk rsch lini lnxt rini rnxt) (hj_next lk lsch lnxt) (s, w) =
    Some (concat (map (\<lambda>l. map (combine_rows l) (filter (\<lambda>r. kl l = kr r \<and> \<not> isNull (kl l)) rs)) ls), None)"
  using executor.run_beh [OF context_executor.axioms(1) [OF two_executors.hash_join_executor [OF two_executors.intro [OF assms(1,2)], of rk rsch lk lsch]],
      of "(s, w)"] i hash_join_beh [of ls lk lsch kl rs rk rsch kr] kl kr by simp

text \<open>
  C32. The hash join of two executors that keep the contract and leave the shared context unchanged returns exactly the rows of the nested loop join on the
  equality of the two keys, in the same order: for every left row in order, the right rows in order whose key is equal
  and not null.  The left key reads only the left row, the right key only the right row, and both evaluate without exception.
\<close>

theorem hash_join_is_nested_loop:
  assumes "context_executor lini lnxt linv lpend (Rows ls None) w" "context_executor rini rnxt rinv rpend (Rows rs None) w"
    and "reads_left lk" "reads_right rk" "\<forall>l\<in>set ls. probe_key lk lsch l = Inr (kl l)" "\<forall>r\<in>set rs. hash_key rk rsch r = Inr (kr r)"
    and "linv (hj_left s, w)" "rinv (hj_right s, w)" "linv (nl_left n, w)" "rinv (nl_right n, w)"
  shows "run_query (hj_init rk rsch lini lnxt rini rnxt) (hj_next lk lsch lnxt) (s, w) =
      run_query (nlj_init lini lnxt rini) (nlj_next lnxt rini rnxt (Some (EComp Equal lk rk)) lsch rsch) (n, w) \<and>
    run_query (hj_init rk rsch lini lnxt rini rnxt) (hj_next lk lsch lnxt) (s, w) =
      Some (concat (map (\<lambda>l. map (combine_rows l) (filter (\<lambda>r. kl l = kr r \<and> \<not> isNull (kl l)) rs)) ls), None)"
proof -
  have "join_match (Some (EComp Equal lk rk)) lsch rsch l r = Inr (kl l = kr r \<and> \<not> isNull (kl l))" if "l \<in> set ls" "r \<in> set rs" for l r
  proof -
    have "evaluateJoin (EComp Equal lk rk) (Some (fst l, lsch)) (Some (fst r, rsch)) = compareEquals (kl l) (kr r)"
      using assms(5,6) that evaluateJoin_left [OF assms(3), of "(fst l, lsch)" "Some (fst r, rsch)"]
        evaluateJoin_right [OF assms(4), of "Some (fst l, lsch)" "(fst r, rsch)"]
      by (simp add: probe_key_def hash_key_def comp_eval_def)
    then show ?thesis by (auto simp: join_match_def compareEquals_def value_simps split: Value.splits)
  qed
  then have "join_rows (match_row (Some (EComp Equal lk rk)) lsch rsch) rs None ls None =
      (concat (map (\<lambda>l. map (combine_rows l) (filter (\<lambda>r. kl l = kr r \<and> \<not> isNull (kl l)) rs)) ls), None)"
    by (intro join_rows_pure) blast
  then show ?thesis
    using hash_join_reference [OF assms(1,2,5,6,7,8)]
      executor.run_beh [OF context_executor.axioms(1) [OF two_executors.nlj_executor [OF two_executors.intro [OF assms(1,2)], of "Some (EComp Equal lk rk)" lsch rsch]],
        of "(n, w)"] assms(9,10)
    by (cases ls) (simp_all add: nlj_beh_def)
qed

lemma int_row_key:
  "int32 i \<Longrightarrow> probe_key (EColumn 0 (Some SourceLeft)) int_schema (int_row i) = Inr (VInt i)"
  "int32 i \<Longrightarrow> hash_key (EColumn 0 (Some SourceRight)) int_schema (int_row i) = Inr (VInt i)"
  using column_evaluate_encodes [OF int_row_encodes, of i 0] by (simp_all add: probe_key_def hash_key_def deref_column_def)

theorem hash_join_is_nested_loop_witness:
  "run_query (hj_init (EColumn 0 (Some SourceRight)) int_schema (lift_init values_init) (lift_next values_next) (lift_init values_init) (lift_next values_next))
      (hj_next (EColumn 0 (Some SourceLeft)) int_schema (lift_next values_next))
      (\<lparr>hj_left = sample_exec, hj_right = sample_exec, hj_table = Map.empty, hj_has_more = False, hj_current = int_row 0, hj_idx = 0\<rparr>, ()) =
    Some ([combine_rows (int_row 1) (int_row 1), combine_rows (int_row 2) (int_row 2)], None)"
proof -
  let ?k = "\<lambda>r. if r = int_row 1 then VInt 1 else VInt 2"
  let ?s = "\<lparr>hj_left = sample_exec, hj_right = sample_exec, hj_table = Map.empty, hj_has_more = False, hj_current = int_row 0, hj_idx = 0\<rparr>"
  let ?n = "\<lparr>nl_left = sample_exec, nl_right = sample_exec, nl_has_more = False, nl_current = int_row 0\<rparr>"
  have ne: "int_row 2 \<noteq> int_row 1"
  proof
    assume "int_row 2 = int_row 1"
    then have "VInt 2 = VInt 1" using int_row_key(1) [of 1] int_row_key(1) [of 2] by (simp add: int32_def)
    then show False by simp
  qed
  note e = executor.lift_executor [OF sample_executor(1), of "()"]
  show ?thesis
    using ne hash_join_is_nested_loop [THEN conjunct2, OF e e, of "EColumn 0 (Some SourceLeft)" "EColumn 0 (Some SourceRight)"
        int_schema ?k int_schema ?k ?s ?n] sample_executor(2) int_row_key [of 1] int_row_key [of 2]
    by (simp add: int32_def value_simps lift_inv_def)
qed

end
