(* ===== verification/Aggregation.thy ===== *)
theory Aggregation
  imports Sorting
begin

text \<open>
  Grouping and aggregates: \<^verbatim>\<open>src/executor/aggregation_hash_table.cpp\<close>,
  \<^verbatim>\<open>include/executor/aggregation_hash_table.hpp\<close>, \<^verbatim>\<open>src/executor/aggregation_executor.cpp\<close>.

  The unordered map is a list of entries with distinct keys; the order in which it is iterated
  is a function that permutes the entries, an argument of \<open>init\<close>.  Integer
  overflow is \<open>SignedOverflow\<close>, as in \<open>Values\<close>, and an index past the end of a vector is \<open>UndefinedBehaviour\<close>.
\<close>

datatype AggregateType = CountStar | Count | Sum | Min | Max | Avg

record AggregateState =
  as_value :: Value
  as_count :: int

type_synonym AggregateKey = "Value list"

type_synonym agg_table = "(AggregateKey \<times> AggregateState list) list"

definition empty_state :: AggregateState where
  "empty_state = \<lparr>as_value = VNull, as_count = 0\<rparr>"

text \<open>\<open>AggregateKey::operator==\<close>: nulls are equal to each other.\<close>

fun AggregateKey_eq :: "AggregateKey \<Rightarrow> AggregateKey \<Rightarrow> exn + bool" where
  "AggregateKey_eq [] [] = Inr True"
| "AggregateKey_eq (a # as) (b # bs) = (if isNull a \<and> isNull b then AggregateKey_eq as bs
     else if isNull a \<or> isNull b then Inr False
     else try_bind (try_bind (compareEquals a b) getAsBoolean) (\<lambda>eq. if \<not> eq then Inr False else AggregateKey_eq as bs))"
| "AggregateKey_eq _ _ = Inr False"

lemma AggregateKey_eq_correct: "length k = length k' \<Longrightarrow> AggregateKey_eq k k' = Inr (k = k')"
  by (induction k k' rule: AggregateKey_eq.induct) (auto simp: compareEquals_def value_simps split: Value.splits)

definition init_state :: "AggregateType \<Rightarrow> Value \<Rightarrow> AggregateState" where
  "init_state ty v = (case ty of
     CountStar \<Rightarrow> empty_state\<lparr>as_value := VInt 1\<rparr>
   | Count \<Rightarrow> empty_state\<lparr>as_value := VInt (if \<not> isNull v then 1 else 0)\<rparr>
   | Avg \<Rightarrow> if \<not> isNull v then \<lparr>as_value = v, as_count = 1\<rparr> else empty_state
   | _ \<Rightarrow> if \<not> isNull v then empty_state\<lparr>as_value := v\<rparr> else empty_state)"

fun initializeState :: "AggregateType list \<Rightarrow> Value list \<Rightarrow> exn + AggregateState list" where
  "initializeState [] vs = Inr []"
| "initializeState (ty # tys) [] = Inl UndefinedBehaviour"
| "initializeState (ty # tys) (v # vs) = try_bind (initializeState tys vs) (\<lambda>sts. Inr (init_state ty v # sts))"

definition set_value :: "AggregateState \<Rightarrow> exn + Value \<Rightarrow> exn + AggregateState" where
  "set_value st r = try_bind r (\<lambda>v. Inr (st\<lparr>as_value := v\<rparr>))"

definition combine_state :: "AggregateType \<Rightarrow> AggregateState \<Rightarrow> Value \<Rightarrow> exn + AggregateState" where
  "combine_state ty st v = (case ty of
     CountStar \<Rightarrow> set_value st (value_add (as_value st) (VInt 1))
   | Count \<Rightarrow> if \<not> isNull v then set_value st (value_add (as_value st) (VInt 1)) else Inr st
   | Sum \<Rightarrow> if \<not> isNull v then
       (if isNull (as_value st) then Inr (st\<lparr>as_value := v\<rparr>) else set_value st (value_add (as_value st) v)) else Inr st
   | Min \<Rightarrow> if \<not> isNull v then
       (if isNull (as_value st) then Inr (st\<lparr>as_value := v\<rparr>)
        else try_bind (try_bind (compareLessThan v (as_value st)) getAsBoolean) (\<lambda>b. Inr (if b then st\<lparr>as_value := v\<rparr> else st))) else Inr st
   | Max \<Rightarrow> if \<not> isNull v then
       (if isNull (as_value st) then Inr (st\<lparr>as_value := v\<rparr>)
        else try_bind (try_bind (compareGreaterThan v (as_value st)) getAsBoolean) (\<lambda>b. Inr (if b then st\<lparr>as_value := v\<rparr> else st))) else Inr st
   | Avg \<Rightarrow> if \<not> isNull v then
       (if isNull (as_value st) then Inr (st\<lparr>as_value := v, as_count := 1\<rparr>)
        else try_bind (set_value st (value_add (as_value st) v)) (\<lambda>st1.
          if int32 (as_count st + 1) then Inr (st1\<lparr>as_count := as_count st + 1\<rparr>) else Inl SignedOverflow)) else Inr st)"

fun combineState :: "AggregateType list \<Rightarrow> AggregateState list \<Rightarrow> Value list \<Rightarrow> exn + AggregateState list" where
  "combineState [] sts vs = Inr sts"
| "combineState (ty # tys) (st # sts) (v # vs) = try_bind (combine_state ty st v) (\<lambda>st1.
     try_bind (combineState tys sts vs) (\<lambda>sts1. Inr (st1 # sts1)))"
| "combineState (ty # tys) _ _ = Inl UndefinedBehaviour"

text \<open>\<open>ht_.contains\<close>, and \<open>ht_[agg_key]\<close> in place or as a new entry.\<close>

fun insertCombine :: "AggregateType list \<Rightarrow> AggregateKey \<Rightarrow> Value list \<Rightarrow> agg_table \<Rightarrow> exn + agg_table" where
  "insertCombine tys key vs [] = try_bind (initializeState tys vs) (\<lambda>sts. Inr [(key, sts)])"
| "insertCombine tys key vs ((k, sts) # ht) = (if k = key
     then try_bind (combineState tys sts vs) (\<lambda>sts1. Inr ((k, sts1) # ht))
     else try_bind (insertCombine tys key vs ht) (\<lambda>ht1. Inr ((k, sts) # ht1)))"

definition state_value :: "AggregateType \<Rightarrow> AggregateState \<Rightarrow> exn + Value" where
  "state_value ty st = (if ty = Avg then
       (if isNull (as_value st) \<or> as_count st = 0 then Inr VNull
        else try_bind (getAsInteger (as_value st)) (\<lambda>i. checked (i sdiv as_count st)))
     else Inr (as_value st))"

fun iterator_value :: "AggregateType list \<Rightarrow> AggregateState list \<Rightarrow> exn + Value list" where
  "iterator_value [] sts = Inr []"
| "iterator_value (ty # tys) [] = Inl UndefinedBehaviour"
| "iterator_value (ty # tys) (st # sts) = try_bind (state_value ty st) (\<lambda>v. try_bind (iterator_value tys sts) (\<lambda>vs. Inr (v # vs)))"

subsection \<open>The executor\<close>

record 's AggregationExecutor =
  ag_child :: 's
  ag_entries :: agg_table
  ag_pos :: nat
  ag_successful :: bool

definition agg_row :: "Expression list \<Rightarrow> Expression list \<Rightarrow> AggregateType list \<Rightarrow> Schema \<Rightarrow> row \<Rightarrow> agg_table \<Rightarrow> exn + agg_table" where
  "agg_row gbs aggs tys sch r ht = try_bind (eval_all gbs (fst r) sch) (\<lambda>key.
     try_bind (eval_all aggs (fst r) sch) (\<lambda>vs. insertCombine tys key vs ht))"

partial_function (option) agg_build :: "(row \<Rightarrow> agg_table \<Rightarrow> exn + agg_table) \<Rightarrow> 's next_op \<Rightarrow> 's \<Rightarrow> bool \<Rightarrow> agg_table \<Rightarrow> ((bool \<times> agg_table) \<times> 's) result" where
  "agg_build put child s has_tuples ht = then_do (child s) (\<lambda>(r, s1). case r of
     None \<Rightarrow> return ((has_tuples, ht), s1)
   | Some row \<Rightarrow> (case put row ht of Inl e \<Rightarrow> throws e | Inr ht1 \<Rightarrow> agg_build put child s1 True ht1))"

definition agg_init :: "(agg_table \<Rightarrow> agg_table) \<Rightarrow> Expression list \<Rightarrow> Expression list \<Rightarrow> AggregateType list \<Rightarrow> Schema \<Rightarrow>
    's init_op \<Rightarrow> 's next_op \<Rightarrow> 's AggregationExecutor init_op" where
  "agg_init iteration gbs aggs tys sch ini child s = then_do (ini (ag_child s)) (\<lambda>c1.
     then_do (agg_build (agg_row gbs aggs tys sch) child c1 False []) (\<lambda>((has_tuples, ht), c2).
       return \<lparr>ag_child = c2, ag_entries = iteration ht, ag_pos = 0, ag_successful = \<not> (\<not> has_tuples \<and> gbs = [])\<rparr>))"

text \<open>A null is written as 0, false or the empty string.\<close>

definition write_agg_column :: "Column \<Rightarrow> Value \<Rightarrow> Serializer \<Rightarrow> exn + Serializer" where
  "write_agg_column c v s = (case col_type c of
     ColInteger \<Rightarrow> try_bind (if isNull v then Inr 0 else getAsInteger v) (\<lambda>i. Inr (snd (writeInt32 s i)))
   | ColBoolean \<Rightarrow> try_bind (if isNull v then Inr False else getAsBoolean v) (\<lambda>x. Inr (snd (writeBool s x)))
   | ColVarchar \<Rightarrow> try_bind (if isNull v then Inr [] else getAsVarchar v) (\<lambda>x. Inr (snd (writeString s x)))
   | _ \<Rightarrow> Inr s)"

fun write_agg_row :: "Schema \<Rightarrow> Value list \<Rightarrow> Serializer \<Rightarrow> exn + Serializer" where
  "write_agg_row cs [] s = Inr s"
| "write_agg_row [] (v # vs) s = Inl OutOfRange"
| "write_agg_row (c # cs) (v # vs) s = try_bind (write_agg_column c v s) (write_agg_row cs vs)"

definition emit_row :: "Schema \<Rightarrow> Value list \<Rightarrow> exn + row" where
  "emit_row out vs = try_bind (write_agg_row out vs row_buffer) (\<lambda>s. Inr (row_of s, default_RID))"

definition default_values :: "Expression list \<Rightarrow> AggregateType list \<Rightarrow> Value list" where
  "default_values gbs tys = map (\<lambda>_. VNull) gbs @ map (\<lambda>_. VInt 0) tys"

definition entry_values :: "AggregateType list \<Rightarrow> AggregateKey \<times> AggregateState list \<Rightarrow> exn + Value list" where
  "entry_values tys entry = try_bind (iterator_value tys (snd entry)) (\<lambda>vs. Inr (fst entry @ vs))"

definition agg_next :: "Expression list \<Rightarrow> AggregateType list \<Rightarrow> Schema \<Rightarrow> 's AggregationExecutor next_op" where
  "agg_next gbs tys out s = (if \<not> ag_successful s
     then (case emit_row out (default_values gbs tys) of Inl e \<Rightarrow> throws e | Inr row \<Rightarrow> return (Some row, s\<lparr>ag_successful := True\<rparr>))
     else if ag_pos s \<ge> length (ag_entries s) then return (None, s)
     else (case try_bind (entry_values tys (ag_entries s ! ag_pos s)) (emit_row out) of
       Inl e \<Rightarrow> throws e | Inr row \<Rightarrow> return (Some row, s\<lparr>ag_pos := ag_pos s + 1\<rparr>)))"

subsection \<open>What an aggregate of a column is\<close>

definition nonnull :: "Value list \<Rightarrow> Value list" where
  "nonnull vs = filter (\<lambda>v. \<not> isNull v) vs"

fun int_of :: "Value \<Rightarrow> int" where
  "int_of (VInt i) = i"
| "int_of _ = 0"

definition column_total :: "Value list \<Rightarrow> int" where
  "column_total vs = sum_list (map int_of (nonnull vs))"

definition aggregate_of :: "AggregateType \<Rightarrow> Value list \<Rightarrow> Value \<Rightarrow> bool" where
  "aggregate_of ty vs v = (case ty of
     CountStar \<Rightarrow> v = VInt (int (length vs))
   | Count \<Rightarrow> v = VInt (int (length (nonnull vs)))
   | Sum \<Rightarrow> v = (if nonnull vs = [] then VNull else VInt (column_total vs))
   | Avg \<Rightarrow> v = (if nonnull vs = [] then VNull else VInt (column_total vs sdiv int (length (nonnull vs))))
   | Min \<Rightarrow> (if nonnull vs = [] then v = VNull else v \<in> set (nonnull vs) \<and> (\<forall>w\<in>set (nonnull vs). \<not> variant_less w v))
   | Max \<Rightarrow> (if nonnull vs = [] then v = VNull else v \<in> set (nonnull vs) \<and> (\<forall>w\<in>set (nonnull vs). \<not> variant_less v w)))"

text \<open>The values an aggregate can be taken of: integers with no overflow for sums, one type for extrema.\<close>

definition aggregable :: "AggregateType \<Rightarrow> Value list \<Rightarrow> bool" where
  "aggregable ty vs = (length vs < 2 ^ 31 \<and> (case ty of
     CountStar \<Rightarrow> True | Count \<Rightarrow> True
   | Min \<Rightarrow> (\<forall>v\<in>set (nonnull vs). \<forall>w\<in>set (nonnull vs). getType v = getType w)
   | Max \<Rightarrow> (\<forall>v\<in>set (nonnull vs). \<forall>w\<in>set (nonnull vs). getType v = getType w)
   | _ \<Rightarrow> (\<forall>v\<in>set (nonnull vs). getType v = TypeInteger) \<and> sum_list (map (\<lambda>v. \<bar>int_of v\<bar>) (nonnull vs)) < 2 ^ 31))"

definition state_of :: "AggregateType \<Rightarrow> Value list \<Rightarrow> AggregateState \<Rightarrow> bool" where
  "state_of ty vs st = (if ty = Avg
     then as_value st = (if nonnull vs = [] then VNull else VInt (column_total vs)) \<and> as_count st = int (length (nonnull vs))
     else aggregate_of ty vs (as_value st))"

lemma nonnull_simps [simp]: "nonnull [] = []" "nonnull (vs @ ws) = nonnull vs @ nonnull ws" "nonnull (v # vs) = (if isNull v then nonnull vs else v # nonnull vs)"
  by (simp_all add: nonnull_def)

lemma total_simps [simp]: "column_total [] = 0" "column_total (vs @ ws) = column_total vs + column_total ws" "column_total (v # vs) = (if isNull v then column_total vs else int_of v + column_total vs)"
  by (simp_all add: column_total_def)

lemma total_null [simp]: "nonnull vs = [] \<Longrightarrow> column_total vs = 0"
  by (simp add: column_total_def)

lemma length_nonnull: "length (nonnull vs) \<le> length vs"
  by (simp add: nonnull_def)

lemma total_abs: "\<bar>column_total vs\<bar> \<le> sum_list (map (\<lambda>v. \<bar>int_of v\<bar>) (nonnull vs))"
  by (induction vs) auto

lemma total_int32: "aggregable ty vs \<Longrightarrow> ty = Sum \<or> ty = Avg \<Longrightarrow> int32 (column_total vs)"
  using total_abs [of vs] by (auto simp: aggregable_def int32_def)

lemma VInt_of: "getType v = TypeInteger \<Longrightarrow> v = VInt (int_of v)"
  by (cases v) (simp_all add: getType_def)

lemma not_null_VInt [simp]: "\<not> isNull (VInt i)" "isNull VNull"
  by (simp_all add: value_simps)

lemma aggregable_prefix: "aggregable ty (vs @ ws) \<Longrightarrow> aggregable ty vs"
proof -
  have "0 \<le> sum_list (map (\<lambda>v. \<bar>int_of v\<bar>) (nonnull ws))" by (rule sum_list_nonneg) auto
  then show "aggregable ty (vs @ ws) \<Longrightarrow> aggregable ty vs" by (cases ty) (auto simp: aggregable_def)
qed

lemma nonnull_not_null: "v \<in> set (nonnull vs) \<Longrightarrow> \<not> isNull v"
  by (simp add: nonnull_def)

lemma init_state_of: "aggregable ty [v] \<Longrightarrow> state_of ty [v] (init_state ty v)"
  using VInt_of [of v]
  by (cases ty) (auto simp: state_of_def aggregate_of_def init_state_def empty_state_def aggregable_def)

lemma value_add_VInt: "int32 (i + j) \<Longrightarrow> value_add (VInt i) (VInt j) = Inr (VInt (i + j))"
  by (simp add: value_add_def value_simps checked_def)

lemma sum_step:
  assumes "aggregable ty (vs @ [v])" "ty = Sum \<or> ty = Avg" "\<not> isNull v" "nonnull vs \<noteq> []"
  shows "value_add (VInt (column_total vs)) v = Inr (VInt (column_total (vs @ [v])))"
proof -
  have "v = VInt (int_of v)" using assms by (intro VInt_of) (auto simp: aggregable_def)
  moreover have "int32 (column_total vs + int_of v)" using total_int32 [OF assms(1,2)] assms(3) by simp
  ultimately show ?thesis using value_add_VInt [of "column_total vs" "int_of v"] assms(3) by simp
qed

lemma combine_state_of:
  assumes "aggregable ty (vs @ [v])" "state_of ty vs st"
  shows "\<exists>st'. combine_state ty st v = Inr st' \<and> state_of ty (vs @ [v]) st'"
proof -
  have len: "int32 (int (length vs) + 1)" "int32 (int (length (nonnull vs)) + 1)"
    using assms(1) length_nonnull [of vs] by (auto simp: aggregable_def int32_def)
  show ?thesis
  proof (cases ty)
    case CountStar
    then show ?thesis using assms(2) len value_add_VInt [of "int (length vs)" 1]
      by (simp add: state_of_def aggregate_of_def combine_state_def set_value_def add.commute)
  next
    case Count
    then show ?thesis using assms(2) len value_add_VInt [of "int (length (nonnull vs))" 1]
      by (simp add: state_of_def aggregate_of_def combine_state_def set_value_def add.commute)
  next
    case Sum
    then show ?thesis using assms sum_step [OF assms(1)] VInt_of [of v]
      by (auto simp: state_of_def aggregate_of_def combine_state_def set_value_def aggregable_def)
  next
    case Avg
    then show ?thesis using assms sum_step [OF assms(1)] VInt_of [of v] len
      by (auto simp: state_of_def aggregate_of_def combine_state_def set_value_def aggregable_def add.commute)
  next
    case Min
    then show ?thesis using assms nonnull_not_null [of "as_value st" vs]
      by (auto simp: state_of_def aggregate_of_def combine_state_def aggregable_def compareLessThan_def value_simps(4) dest: variant_less_trans)
  next
    case Max
    then show ?thesis using assms nonnull_not_null [of "as_value st" vs]
      by (auto simp: state_of_def aggregate_of_def combine_state_def aggregable_def compareGreaterThan_def value_simps(4) dest: variant_less_trans)
  qed
qed

lemma state_value_of:
  assumes "aggregable ty vs" "state_of ty vs st"
  shows "\<exists>v. state_value ty st = Inr v \<and> aggregate_of ty vs v"
proof (cases "ty = Avg \<and> nonnull vs \<noteq> []")
  case True
  then have n: "0 < int (length (nonnull vs))" by simp
  have "int32 (column_total vs sdiv int (length (nonnull vs)))"
    by (rule sdiv_bound) (use total_int32 [OF assms(1)] True n assms(1) length_nonnull [of vs] in \<open>auto simp: aggregable_def int32_def\<close>)
  then show ?thesis using True assms(2) by (auto simp: state_value_def state_of_def aggregate_of_def getAsInteger_def checked_def)
next
  case False
  then show ?thesis using assms(2) by (cases "ty = Avg") (auto simp: state_value_def state_of_def aggregate_of_def [of Avg])
qed

subsection \<open>The table of the rows seen\<close>

definition group_column :: "(AggregateKey \<times> Value list) list \<Rightarrow> AggregateKey \<Rightarrow> nat \<Rightarrow> Value list" where
  "group_column kvs key i = map (\<lambda>(_, vs). vs ! i) (filter (\<lambda>(k, _). k = key) kvs)"

definition table_of :: "AggregateType list \<Rightarrow> (AggregateKey \<times> Value list) list \<Rightarrow> agg_table \<Rightarrow> bool" where
  "table_of tys kvs ht = (distinct (map fst ht) \<and> set (map fst ht) = fst ` set kvs \<and>
     (\<forall>(k, sts)\<in>set ht. length sts = length tys \<and> (\<forall>i<length tys. state_of (tys ! i) (group_column kvs k i) (sts ! i))))"

definition aggregable_rows :: "AggregateType list \<Rightarrow> (AggregateKey \<times> Value list) list \<Rightarrow> bool" where
  "aggregable_rows tys kvs = ((\<forall>(k, vs)\<in>set kvs. length vs = length tys) \<and>
     (\<forall>k. \<forall>i<length tys. aggregable (tys ! i) (group_column kvs k i)))"

lemma group_column_append: "group_column (kvs @ [(k, vs)]) key i = group_column kvs key i @ (if k = key then [vs ! i] else [])"
  by (simp add: group_column_def)

lemma initializeState_of:
  assumes "length vs = length tys" "\<And>i. i < length tys \<Longrightarrow> aggregable (tys ! i) [vs ! i]"
  shows "\<exists>sts. initializeState tys vs = Inr sts \<and> length sts = length tys \<and> (\<forall>i<length tys. state_of (tys ! i) [vs ! i] (sts ! i))"
  using assms
proof (induction tys vs rule: initializeState.induct)
  case (3 ty tys v vs)
  have "\<And>i. i < length tys \<Longrightarrow> aggregable (tys ! i) [vs ! i]" using 3(3) [of "Suc _"] by auto
  then obtain sts where "initializeState tys vs = Inr sts" "length sts = length tys" "\<forall>i<length tys. state_of (tys ! i) [vs ! i] (sts ! i)"
    using 3 by auto
  then show ?case using init_state_of [of ty v] 3(3) [of 0] by (auto simp: nth_Cons')
qed auto

lemma combineState_of:
  assumes "length vs = length tys" "length sts = length tys"
    "\<And>i. i < length tys \<Longrightarrow> aggregable (tys ! i) (f i @ [vs ! i])" "\<And>i. i < length tys \<Longrightarrow> state_of (tys ! i) (f i) (sts ! i)"
  shows "\<exists>sts'. combineState tys sts vs = Inr sts' \<and> length sts' = length tys \<and> (\<forall>i<length tys. state_of (tys ! i) (f i @ [vs ! i]) (sts' ! i))"
  using assms
proof (induction tys sts vs arbitrary: f rule: combineState.induct)
  case (2 ty tys st sts v vs)
  obtain st' where st': "combine_state ty st v = Inr st'" "state_of ty (f 0 @ [v]) st'"
    using combine_state_of [of ty "f 0" v st] 2(4) [of 0] 2(5) [of 0] by auto
  obtain sts' where "combineState tys sts vs = Inr sts'" "length sts' = length tys" "\<forall>i<length tys. state_of (tys ! i) (f (Suc i) @ [vs ! i]) (sts' ! i)"
    using 2(1) [of "\<lambda>i. f (Suc i)"] 2(2,3) 2(4) [of "Suc _"] 2(5) [of "Suc _"] by auto
  then show ?case using st' by (auto simp: less_Suc_eq_0_disj)
qed auto

lemma insertCombine_of:
  assumes "aggregable_rows tys (kvs @ [(key, vs)])"
    and "distinct (map fst ht)" "\<forall>(k, sts)\<in>set ht. length sts = length tys \<and> (\<forall>i<length tys. state_of (tys ! i) (group_column kvs k i) (sts ! i))"
    and "key \<notin> set (map fst ht) \<Longrightarrow> \<forall>i. group_column kvs key i = []"
  shows "\<exists>ht'. insertCombine tys key vs ht = Inr ht' \<and> distinct (map fst ht') \<and> set (map fst ht') = insert key (set (map fst ht)) \<and>
    (\<forall>(k, sts)\<in>set ht'. length sts = length tys \<and> (\<forall>i<length tys. state_of (tys ! i) (group_column (kvs @ [(key, vs)]) k i) (sts ! i)))"
  using assms(2-)
proof (induction ht)
  case Nil
  have "aggregable (tys ! i) [vs ! i]" if "i < length tys" for i
    using assms(1) that Nil(3) by (auto simp: aggregable_rows_def group_column_append dest!: spec [of _ key] split: if_splits)
  moreover have "length vs = length tys" using assms(1) by (simp add: aggregable_rows_def)
  ultimately show ?case using initializeState_of [of vs tys] Nil(3) by (auto simp: group_column_append)
next
  case (Cons e ht)
  obtain k sts where e: "e = (k, sts)" by (cases e)
  have ag: "aggregable (tys ! i) (group_column kvs key i @ [vs ! i])" if "i < length tys" for i
    using assms(1) that by (auto simp: aggregable_rows_def group_column_append dest!: spec [of _ key])
  have len: "length vs = length tys" using assms(1) by (simp add: aggregable_rows_def)
  show ?case
  proof (cases "k = key")
    case True
    then obtain sts' where "combineState tys sts vs = Inr sts'" "length sts' = length tys" "\<forall>i<length tys. state_of (tys ! i) (group_column kvs key i @ [vs ! i]) (sts' ! i)"
      using combineState_of [OF len, of sts "group_column kvs key"] ag Cons.prems(2) e by auto
    moreover have "\<forall>(k', _)\<in>set ht. k' \<noteq> key" using Cons.prems(1) e True by force
    ultimately show ?thesis using True e Cons.prems(1,2) by (auto simp: group_column_append)
  next
    case False
    then obtain ht' where "insertCombine tys key vs ht = Inr ht'" "distinct (map fst ht')" "set (map fst ht') = insert key (set (map fst ht))"
        "\<forall>(k, sts)\<in>set ht'. length sts = length tys \<and> (\<forall>i<length tys. state_of (tys ! i) (group_column (kvs @ [(key, vs)]) k i) (sts ! i))"
      using Cons.IH Cons.prems e by auto
    then show ?thesis using False e Cons.prems(1,2) by (auto simp: group_column_append image_iff)
  qed
qed

lemma table_of_insert:
  assumes "aggregable_rows tys (kvs @ [(key, vs)])" "table_of tys kvs ht"
  shows "\<exists>ht'. insertCombine tys key vs ht = Inr ht' \<and> table_of tys (kvs @ [(key, vs)]) ht'"
proof -
  have "\<forall>i. group_column kvs key i = []" if "key \<notin> set (map fst ht)"
  proof -
    have "key \<notin> fst ` set kvs" using assms(2) that by (simp add: table_of_def)
    then show ?thesis by (auto simp: group_column_def filter_empty_conv image_iff)
  qed
  moreover have t: "distinct (map fst ht)" "set (map fst ht) = fst ` set kvs"
      "\<forall>(k, sts)\<in>set ht. length sts = length tys \<and> (\<forall>i<length tys. state_of (tys ! i) (group_column kvs k i) (sts ! i))"
    using assms(2) by (simp_all add: table_of_def)
  ultimately show ?thesis using insertCombine_of [OF assms(1) t(1,3)] by (simp add: table_of_def t(2) del: set_map)
qed

lemma aggregable_rows_prefix:
  assumes "aggregable_rows tys (kvs @ kvs')"
  shows "aggregable_rows tys kvs"
proof -
  have "group_column (kvs @ kvs') k i = group_column kvs k i @ group_column kvs' k i" for k i by (simp add: group_column_def)
  then show ?thesis using assms aggregable_prefix by (fastforce simp: aggregable_rows_def)
qed

subsection \<open>The executor keeps the contract\<close>

fun put_rows :: "(row \<Rightarrow> agg_table \<Rightarrow> exn + agg_table) \<Rightarrow> row list \<Rightarrow> agg_table \<Rightarrow> exn + agg_table" where
  "put_rows put [] ht = Inr ht"
| "put_rows put (r # rs) ht = try_bind (put r ht) (put_rows put rs)"

lemma put_rows_table:
  assumes "\<And>r. r \<in> set xs \<Longrightarrow> eval_all gbs (fst r) sch = Inr (gk r) \<and> eval_all aggs (fst r) sch = Inr (av r)"
    and "aggregable_rows tys (kvs @ map (\<lambda>r. (gk r, av r)) xs)" "table_of tys kvs ht"
  shows "\<exists>ht'. put_rows (agg_row gbs aggs tys sch) xs ht = Inr ht' \<and> table_of tys (kvs @ map (\<lambda>r. (gk r, av r)) xs) ht'"
  using assms
proof (induction xs arbitrary: kvs ht)
  case (Cons r xs)
  have "aggregable_rows tys (kvs @ [(gk r, av r)])"
    using Cons.prems(2) aggregable_rows_prefix [of tys "kvs @ [(gk r, av r)]" "map (\<lambda>r. (gk r, av r)) xs"] by simp
  then obtain ht1 where "insertCombine tys (gk r) (av r) ht = Inr ht1" "table_of tys (kvs @ [(gk r, av r)]) ht1"
    using table_of_insert Cons.prems(3) by blast
  then show ?case using Cons.IH [of "kvs @ [(gk r, av r)]" ht1] Cons.prems(1,2) by (auto simp: agg_row_def)
qed simp

text \<open>Rows written one after the other, up to the first that throws.\<close>

fun emit_rows :: "('a \<Rightarrow> exn + row) \<Rightarrow> 'a list \<Rightarrow> row list \<times> exn option" where
  "emit_rows h [] = ([], None)"
| "emit_rows h (x # xs) = (case h x of Inl e \<Rightarrow> ([], Some e) | Inr y \<Rightarrow> (case emit_rows h xs of (ys, g) \<Rightarrow> (y # ys, g)))"

definition entry_row :: "AggregateType list \<Rightarrow> Schema \<Rightarrow> AggregateKey \<times> AggregateState list \<Rightarrow> exn + row" where
  "entry_row tys out entry = try_bind (entry_values tys entry) (emit_row out)"

definition agg_due :: "Expression list \<Rightarrow> AggregateType list \<Rightarrow> Schema \<Rightarrow> bool \<Rightarrow> agg_table \<Rightarrow> row list \<times> exn option" where
  "agg_due gbs tys out successful es = (if successful then emit_rows (entry_row tys out) es
     else case emit_row out (default_values gbs tys) of Inl e \<Rightarrow> ([], Some e)
       | Inr y \<Rightarrow> (case emit_rows (entry_row tys out) es of (ys, g) \<Rightarrow> (y # ys, g)))"

definition agg_pending :: "('s \<Rightarrow> bool) \<Rightarrow> Expression list \<Rightarrow> AggregateType list \<Rightarrow> Schema \<Rightarrow> 's AggregationExecutor \<Rightarrow> row list \<Rightarrow> exn option \<Rightarrow> bool" where
  "agg_pending iv gbs tys out s ys g = (iv (ag_child s) \<and> agg_due gbs tys out (ag_successful s) (drop (ag_pos s) (ag_entries s)) = (ys, g))"

definition agg_beh :: "(agg_table \<Rightarrow> agg_table) \<Rightarrow> Expression list \<Rightarrow> Expression list \<Rightarrow> AggregateType list \<Rightarrow> Schema \<Rightarrow> Schema \<Rightarrow> behaviour \<Rightarrow> behaviour" where
  "agg_beh iteration gbs aggs tys sch out b = (case b of InitThrows e \<Rightarrow> InitThrows e
     | Rows xs f \<Rightarrow> (case put_rows (agg_row gbs aggs tys sch) xs [] of Inl e \<Rightarrow> InitThrows e
       | Inr ht \<Rightarrow> (case f of Some e \<Rightarrow> InitThrows e
         | None \<Rightarrow> (case agg_due gbs tys out (xs \<noteq> [] \<or> gbs \<noteq> []) (iteration ht) of (ys, g) \<Rightarrow> Rows ys g))))"

lemma agg_next_outcome:
  assumes "agg_pending iv gbs tys out s ys g"
  shows "outcome (agg_next gbs tys out) (agg_pending iv gbs tys out) s ys g"
proof (cases "ag_successful s \<and> ag_pos s < length (ag_entries s)")
  case True
  then have "drop (ag_pos s) (ag_entries s) = ag_entries s ! ag_pos s # drop (Suc (ag_pos s)) (ag_entries s)"
    by (simp add: Cons_nth_drop_Suc)
  then show ?thesis using assms True
    by (auto simp: agg_pending_def agg_due_def agg_next_def entry_row_def outcome_def split: sum.splits prod.splits)
next
  case False
  then show ?thesis using assms
    by (auto simp: agg_pending_def agg_due_def agg_next_def outcome_def split: sum.splits prod.splits if_splits)
qed

context executor
begin

lemma agg_build_rows:
  assumes "pending s xs f"
  shows "case put_rows put xs ht of
     Inl e \<Rightarrow> agg_build put nxt s has ht = throws e
   | Inr ht' \<Rightarrow> (case f of Some e \<Rightarrow> agg_build put nxt s has ht = throws e
       | None \<Rightarrow> \<exists>s1. agg_build put nxt s has ht = return ((has \<or> xs \<noteq> [], ht'), s1) \<and> pending s1 [] None)"
  using assms
proof (induction xs arbitrary: s ht has)
  case Nil
  then show ?case using next_end [of s] next_throws [of s] by (cases f) (auto simp: agg_build.simps)
next
  case (Cons r rs)
  then obtain s1 where s1: "nxt s = return (Some r, s1)" "pending s1 rs f" using next_row by blast
  show ?case
  proof (cases "put r ht")
    case (Inl x)
    then have "agg_build put nxt s has ht = throws x" using s1(1) by (subst agg_build.simps) simp
    then show ?thesis using Inl by simp
  next
    case (Inr ht1)
    then have "agg_build put nxt s has ht = agg_build put nxt s1 True ht1" using s1(1) by (subst agg_build.simps) simp
    then show ?thesis using Inr Cons.IH [OF s1(2), of True ht1] by (simp split: sum.splits option.splits)
  qed
qed

lemma aggregation_executor:
  "executor (agg_init iteration gbs aggs tys sch ini nxt) (agg_next gbs tys out) (\<lambda>s. inv (ag_child s)) (agg_pending inv gbs tys out)
    (agg_beh iteration gbs aggs tys sch out beh)"
proof (rule executorI)
  fix s :: "'s AggregationExecutor" and e
  assume i: "inv (ag_child s)" and b: "agg_beh iteration gbs aggs tys sch out beh = InitThrows e"
  show "agg_init iteration gbs aggs tys sch ini nxt s = throws e"
  proof (cases beh)
    case (InitThrows x)
    then show ?thesis using b init_throws [OF i InitThrows] by (simp add: agg_beh_def agg_init_def)
  next
    case (Rows xs f)
    obtain c1 where "ini (ag_child s) = return c1" "pending c1 xs f" using init_rows [OF i Rows] by blast
    then show ?thesis using b Rows agg_build_rows [of c1 xs f "agg_row gbs aggs tys sch" False "[]"]
      by (auto simp: agg_beh_def agg_init_def split: sum.splits option.splits prod.splits)
  qed
next
  fix s :: "'s AggregationExecutor" and ys g
  assume i: "inv (ag_child s)" and b: "agg_beh iteration gbs aggs tys sch out beh = Rows ys g"
  then obtain xs ht where x: "beh = Rows xs None" "put_rows (agg_row gbs aggs tys sch) xs [] = Inr ht"
      "agg_due gbs tys out (xs \<noteq> [] \<or> gbs \<noteq> []) (iteration ht) = (ys, g)"
    by (auto simp: agg_beh_def split: behaviour.splits sum.splits option.splits prod.splits)
  obtain c1 where c1: "ini (ag_child s) = return c1" "pending c1 xs None" using init_rows [OF i x(1)] by blast
  then obtain c2 where "agg_build (agg_row gbs aggs tys sch) nxt c1 False [] = return ((xs \<noteq> [], ht), c2)" "pending c2 [] None"
    using agg_build_rows [of c1 xs None "agg_row gbs aggs tys sch" False "[]"] x(2) by auto
  then show "\<exists>s1. agg_init iteration gbs aggs tys sch ini nxt s = return s1 \<and> agg_pending inv gbs tys out s1 ys g"
    using c1(1) x(3) pending_inv by (auto simp: agg_init_def agg_pending_def)
qed (auto simp: agg_pending_def intro: agg_next_outcome)

end

interpretation aggregated_values: executor "agg_init iteration gbs aggs tys sch' values_init values_next" "agg_next gbs tys out"
    "\<lambda>s. values_inv ess sch (ag_child s)" "agg_pending (values_inv ess sch) gbs tys out" "agg_beh iteration gbs aggs tys sch' out (values_beh ess sch)"
  for iteration gbs aggs tys sch' out ess sch
  by (rule vals.aggregation_executor)

subsection \<open>Properties\<close>

lemma write_agg_row_nonnull: "list_all2 value_fits out vs \<Longrightarrow> write_agg_row out vs s = write_row out vs s"
proof (induction out vs arbitrary: s rule: list_all2_induct)
  case (Cons c cs v vs)
  have "\<not> isNull v" using Cons.hyps(1) by (auto simp: value_fits_def isNull_def getType_def split: Value.splits ColumnType.splits)
  then have "write_agg_column c v s = write_column c v s" by (simp add: write_agg_column_def write_column_def split: ColumnType.splits)
  then show ?case using Cons.IH by (simp add: try_bind_def split: sum.splits)
qed simp

lemma emit_row_fits:
  "list_all2 value_fits out vs \<Longrightarrow> length (row_bytes vs) \<le> 1024 \<Longrightarrow> emit_row out vs = Inr (row_bytes vs, default_RID)"
  using build_row_encodes [of out vs] by (auto simp: emit_row_def write_agg_row_nonnull build_row_def try_bind_Inr encodes_def)

lemma iterator_value_of:
  assumes "length sts = length tys" "\<And>i. i < length tys \<Longrightarrow> aggregable (tys ! i) (f i) \<and> state_of (tys ! i) (f i) (sts ! i)"
  shows "\<exists>rs. iterator_value tys sts = Inr rs \<and> length rs = length tys \<and> (\<forall>i<length tys. aggregate_of (tys ! i) (f i) (rs ! i))"
  using assms
proof (induction tys sts arbitrary: f rule: iterator_value.induct)
  case (3 ty tys st sts)
  obtain v where v: "state_value ty st = Inr v" "aggregate_of ty (f 0) v" using state_value_of [of ty "f 0" st] 3(3) [of 0] by auto
  obtain rs where "iterator_value tys sts = Inr rs" "length rs = length tys" "\<forall>i<length tys. aggregate_of (tys ! i) (f (Suc i)) (rs ! i)"
    using 3(1) [of "\<lambda>i. f (Suc i)"] 3(2) 3(3) [of "Suc _"] by auto
  then show ?case using v by (auto simp: less_Suc_eq_0_disj)
qed auto

text \<open>The results of a list of entries.\<close>

lemma entries_results:
  assumes "\<And>k sts. (k, sts) \<in> set es \<Longrightarrow> \<exists>rs. iterator_value tys sts = Inr rs \<and> P k rs"
  shows "\<exists>groups. map fst groups = map fst es \<and> (\<forall>(k, rs)\<in>set groups. P k rs) \<and>
    emit_rows (entry_row tys out) es = emit_rows (\<lambda>(k, rs). emit_row out (k @ rs)) groups"
  using assms
proof (induction es)
  case (Cons e es)
  obtain k sts where e: "e = (k, sts)" by (cases e)
  then obtain rs where rs: "iterator_value tys sts = Inr rs" "P k rs" using Cons.prems [of k sts] by auto
  obtain groups where "map fst groups = map fst es" "\<forall>(k, rs)\<in>set groups. P k rs"
      "emit_rows (entry_row tys out) es = emit_rows (\<lambda>(k, rs). emit_row out (k @ rs)) groups"
    using Cons.IH Cons.prems by auto
  moreover have "entry_row tys out e = emit_row out (k @ rs)" using e rs(1) by (simp add: entry_row_def entry_values_def)
  ultimately show ?case using e rs(2) by (intro exI [of _ "(k, rs) # groups"]) (simp split: sum.splits)
qed simp

text \<open>
  C33. \<open>GROUP BY\<close> with aggregates over an executor that keeps the contract, where the expressions evaluate and no sum overflows: the query returns
  one row per distinct group key (two nulls are one key), holding the key and, for each aggregate, its value over the rows
  of that group: the number of rows, the number, sum, truncated average, least or greatest of the values that
  are not null, and null when there is none.  Without \<open>GROUP BY\<close> an empty input gives one row of zeros.
\<close>

theorem aggregation_run:
  assumes "executor ini nxt iv pend (Rows xs None)" "iv (ag_child s)" "\<And>ht. mset (iteration ht) = mset ht"
    and "\<forall>r\<in>set xs. eval_all gbs (fst r) sch = Inr (gk r) \<and> eval_all aggs (fst r) sch = Inr (av r)"
    and "aggregable_rows tys (map (\<lambda>r. (gk r, av r)) xs)"
  shows "(xs \<noteq> [] \<or> gbs \<noteq> [] \<longrightarrow> (\<exists>groups. distinct (map fst groups) \<and> set (map fst groups) = gk ` set xs \<and>
        (\<forall>(k, rs)\<in>set groups. length rs = length tys \<and>
          (\<forall>i<length tys. aggregate_of (tys ! i) (map (\<lambda>r. av r ! i) (filter (\<lambda>r. gk r = k) xs)) (rs ! i))) \<and>
        run_query (agg_init iteration gbs aggs tys sch ini nxt) (agg_next gbs tys out) s = Some (emit_rows (\<lambda>(k, rs). emit_row out (k @ rs)) groups))) \<and>
    (xs = [] \<and> gbs = [] \<longrightarrow>
      run_query (agg_init iteration gbs aggs tys sch ini nxt) (agg_next gbs tys out) s = Some (emit_rows (emit_row out) [map (\<lambda>_. VInt 0) tys]))"
proof -
  let ?kvs = "map (\<lambda>r. (gk r, av r)) xs"
  let ?run = "run_query (agg_init iteration gbs aggs tys sch ini nxt) (agg_next gbs tys out) s"
  have col: "group_column ?kvs k i = map (\<lambda>r. av r ! i) (filter (\<lambda>r. gk r = k) xs)" for k i
    by (simp add: group_column_def filter_map comp_def)
  have "table_of tys [] []" by (simp add: table_of_def)
  then obtain ht where ht: "put_rows (agg_row gbs aggs tys sch) xs [] = Inr ht" "table_of tys ?kvs ht"
    using put_rows_table [of xs gbs sch gk aggs av tys "[]" "[]"] assms(4,5) by auto
  have run: "?run = Some (agg_due gbs tys out (xs \<noteq> [] \<or> gbs \<noteq> []) (iteration ht))"
    using executor.run_beh [OF executor.aggregation_executor [OF assms(1), of iteration gbs aggs tys sch out], of s] assms(2) ht(1)
    by (auto simp: agg_beh_def split: prod.splits)
  have fsts: "mset (map fst (iteration ht)) = mset (map fst ht)" by (simp add: assms(3))
  have entries: "set (iteration ht) = set ht" "distinct (map fst (iteration ht))" "set (map fst (iteration ht)) = gk ` set xs"
    using assms(3) ht(2) mset_eq_imp_distinct_iff [OF fsts] mset_eq_setD [OF fsts]
    by (auto simp: table_of_def image_image dest: mset_eq_setD)
  have "\<exists>rs. iterator_value tys sts = Inr rs \<and> length rs = length tys \<and>
      (\<forall>i<length tys. aggregate_of (tys ! i) (map (\<lambda>r. av r ! i) (filter (\<lambda>r. gk r = k) xs)) (rs ! i))" if "(k, sts) \<in> set (iteration ht)" for k sts
    using iterator_value_of [of sts tys "group_column ?kvs k"] ht(2) assms(5) that entries(1)
    by (auto simp: table_of_def aggregable_rows_def col)
  then obtain groups where g: "map fst groups = map fst (iteration ht)"
      "\<forall>(k, rs)\<in>set groups. length rs = length tys \<and> (\<forall>i<length tys. aggregate_of (tys ! i) (map (\<lambda>r. av r ! i) (filter (\<lambda>r. gk r = k) xs)) (rs ! i))"
      "emit_rows (entry_row tys out) (iteration ht) = emit_rows (\<lambda>(k, rs). emit_row out (k @ rs)) groups"
    using entries_results [of "iteration ht" tys "\<lambda>k rs. length rs = length tys \<and>
        (\<forall>i<length tys. aggregate_of (tys ! i) (map (\<lambda>r. av r ! i) (filter (\<lambda>r. gk r = k) xs)) (rs ! i))" out] by blast
  show ?thesis
  proof (intro conjI impI)
    assume "xs \<noteq> [] \<or> gbs \<noteq> []"
    then have "?run = Some (emit_rows (\<lambda>(k, rs). emit_row out (k @ rs)) groups)" using run g(3) by (simp add: agg_due_def)
    then show "\<exists>groups. distinct (map fst groups) \<and> set (map fst groups) = gk ` set xs \<and>
        (\<forall>(k, rs)\<in>set groups. length rs = length tys \<and>
          (\<forall>i<length tys. aggregate_of (tys ! i) (map (\<lambda>r. av r ! i) (filter (\<lambda>r. gk r = k) xs)) (rs ! i))) \<and>
        ?run = Some (emit_rows (\<lambda>(k, rs). emit_row out (k @ rs)) groups)"
      using g(1,2) entries(2,3) by (intro exI [of _ groups] conjI) (simp_all only:)
  next
    assume e: "xs = [] \<and> gbs = []"
    then have "iteration ht = []" using entries(1) ht(2) by (simp add: table_of_def)
    then show "?run = Some (emit_rows (emit_row out) [map (\<lambda>_. VInt 0) tys])"
      using run e by (auto simp: agg_due_def default_values_def split: sum.splits)
  qed
qed

theorem aggregation_run_witness:
  "run_query (agg_init rev [] [EConst (VInt 0), EColumn 0 None] [CountStar, Avg] int_schema values_init values_next)
      (agg_next [] [CountStar, Avg] (int_schema @ int_schema)) \<lparr>ag_child = sample_exec, ag_entries = [], ag_pos = 0, ag_successful = False\<rparr> =
    Some ([(row_bytes [VInt 2, VInt 1], default_RID)], None)"
proof -
  let ?s = "\<lparr>ag_child = sample_exec, ag_entries = [], ag_pos = 0, ag_successful = False\<rparr>"
  let ?av = "\<lambda>r. if r = int_row 1 then [VInt 0, VInt 1] else [VInt 0, VInt 2]"
  let ?run = "run_query (agg_init rev [] [EConst (VInt 0), EColumn 0 None] [CountStar, Avg] int_schema values_init values_next)
      (agg_next [] [CountStar, Avg] (int_schema @ int_schema)) ?s"
  have ev: "evaluate (EColumn 0 None) (fst (int_row 1)) int_schema = Inr (VInt 1)" "evaluate (EColumn 0 None) (fst (int_row 2)) int_schema = Inr (VInt 2)"
    using int_row_column [of 1] int_row_column [of 2] by (auto simp: int32_def try_bind_Inr)
  then have ne: "int_row 2 \<noteq> int_row 1" by auto
  have rows: "\<forall>r\<in>set [int_row 1, int_row 2]. eval_all [] (fst r) int_schema = Inr [] \<and>
      eval_all [EConst (VInt 0), EColumn 0 None] (fst r) int_schema = Inr (?av r)"
    using ev ne by (simp add: evaluate_def [of "EConst _"])
  have ok: "aggregable_rows [CountStar, Avg] (map (\<lambda>r. ([], ?av r)) [int_row 1, int_row 2])"
    using ne by (auto simp: aggregable_rows_def group_column_def aggregable_def less_Suc_eq value_simps)
  obtain groups where g: "distinct (map fst groups)" "set (map fst groups) = {[]}"
      "\<forall>(k, rs)\<in>set groups. length rs = 2 \<and> (\<forall>i<2. aggregate_of ([CountStar, Avg] ! i) (map (\<lambda>r. ?av r ! i) (filter (\<lambda>r. [] = k) [int_row 1, int_row 2])) (rs ! i))"
      "?run = Some (emit_rows (\<lambda>(k, rs). emit_row (int_schema @ int_schema) (k @ rs)) groups)"
    using aggregation_run [OF sample_executor(1), of ?s rev "[]" int_schema "\<lambda>_. []" "[EConst (VInt 0), EColumn 0 None]" ?av "[CountStar, Avg]" "int_schema @ int_schema"]
      sample_executor(2) rows ok by (auto simp: numeral_2_eq_2)
  then obtain rs where rs: "groups = [([], rs)]" by (cases groups; cases "tl groups") auto
  then have "rs = [VInt 2, VInt 1]"
    using g(3) ne by (auto simp: aggregate_of_def less_Suc_eq numeral_2_eq_2 length_Suc_conv value_simps all_conj_distrib)
  moreover have "emit_row (int_schema @ int_schema) [VInt 2, VInt 1] = Inr (row_bytes [VInt 2, VInt 1], default_RID)"
    by (rule emit_row_fits) (simp_all add: int_schema_def value_fits_def int32_def value_bytes_def)
  ultimately show ?thesis using g(4) rs by (simp del: row_bytes_simps)
qed

end
