(* ===== verification/Scans.thy ===== *)
theory Scans
  imports Executors TableHeap BPlusTree LockManager Mvcc LogManager
begin

text \<open>
  The executors that read tables: \<^verbatim>\<open>src/executor/seq_scan_executor.cpp\<close>,
  \<^verbatim>\<open>src/executor/index_scan_executor.cpp\<close>, and what all executors of a statement share,
  \<^verbatim>\<open>src/executor/executor_context.cpp\<close>.

  The context holds references to one object of each component; here it is a record of
  their states, threaded through the calls next to the state of the executor itself.  The disk manager of the context is
  the one the buffer pool uses.  A call that waits for a lock, or does not end, does not return.
\<close>

record ExecutorContext =
  ec_txn :: Transaction
  ec_bpm :: BufferPoolManager
  ec_mvcc :: MvccManager
  ec_locks :: LockTable
  ec_log :: LogManager

definition ec_disk :: "ExecutorContext \<Rightarrow> DiskManager" where
  "ec_disk c = bpm_disk (ec_bpm c)"

definition with_disk :: "DiskManager \<Rightarrow> ExecutorContext \<Rightarrow> ExecutorContext" where
  "with_disk d c = c\<lparr>ec_bpm := (ec_bpm c)\<lparr>bpm_disk := d\<rparr>\<rparr>"

type_synonym 'c shared = "'c \<times> ExecutorContext"

definition returns :: "'a option \<Rightarrow> 'a result" where
  "returns x = map_option Inr x"

lemma returns_simps [simp]: "returns (Some x) = return x" "returns None = None"
  by (simp_all add: returns_def return_def)

lemma with_disk_simps [simp]: "ec_disk (with_disk d c) = d" "with_disk (ec_disk c) c = c" "with_disk d (with_disk d' c) = with_disk d c"
    "ec_txn (with_disk d c) = ec_txn c" "ec_mvcc (with_disk d c) = ec_mvcc c" "ec_locks (with_disk d c) = ec_locks c" "ec_log (with_disk d c) = ec_log c"
  by (simp_all add: ec_disk_def with_disk_def)

definition size_t_max :: nat where "size_t_max = 2 ^ 64 - 1"

subsection \<open>Sequential scan\<close>

record SeqScanExecutor =
  ss_heap :: "TableHeap option"
  ss_iter :: "HeapIterator option"
  ss_emitted :: nat
  ss_skipped :: nat

definition seq_scan_init :: "TableInfo \<Rightarrow> SeqScanExecutor shared init_op" where
  "seq_scan_init ti s = then_do (returns (TableHeap_open (ec_disk (snd s)) (ti_heap_root_page ti))) (\<lambda>(h, d1).
     case h of
       Some heap \<Rightarrow> then_do (returns (TableHeap_begin d1 heap)) (\<lambda>(it, d2).
         return (\<lparr>ss_heap = Some heap, ss_iter = Some it, ss_emitted = 0, ss_skipped = 0\<rparr>, with_disk d2 (snd s)))
     | None \<Rightarrow> return (\<lparr>ss_heap = None, ss_iter = None, ss_emitted = 0, ss_skipped = 0\<rparr>, with_disk d1 (snd s)))"

text \<open>The visible version of a record, or the stored tuple when it has no versions.\<close>

definition visible_tuple :: "ExecutorContext \<Rightarrow> RID \<Rightarrow> Tuple \<Rightarrow> Tuple option" where
  "visible_tuple c rid heap_tuple =
    (if versionCount (ec_mvcc c) rid > 0 then mvcc_read (ec_mvcc c) (ec_txn c) rid else Some heap_tuple)"

definition passes_opt :: "Expression option \<Rightarrow> Schema \<Rightarrow> row \<Rightarrow> exn + bool" where
  "passes_opt p sch r = (case p of None \<Rightarrow> Inr True | Some e \<Rightarrow> passes e sch r)"

partial_function (option) scan_loop :: "Expression option \<Rightarrow> Schema \<Rightarrow> nat \<Rightarrow> HeapIterator \<Rightarrow> SeqScanExecutor shared next_op" where
  "scan_loop p sch offset it s =
    (if HeapIterator_eq it end_iterator then return (None, ((fst s)\<lparr>ss_iter := Some it\<rparr>, snd s))
     else then_do (returns (HeapIterator_deref it)) (\<lambda>heap_tuple.
       then_do (returns (HeapIterator_next (ec_disk (snd s)) it)) (\<lambda>(it1, d1).
         case visible_tuple (snd s) (getRID it) heap_tuple of
           None \<Rightarrow> scan_loop p sch offset it1 (fst s, with_disk d1 (snd s))
         | Some t \<Rightarrow> (case passes_opt p sch (t, getRID it) of
             Inl e \<Rightarrow> throws e
           | Inr b \<Rightarrow>
               if \<not> b then scan_loop p sch offset it1 (fst s, with_disk d1 (snd s))
               else if ss_skipped (fst s) < offset
               then scan_loop p sch offset it1 ((fst s)\<lparr>ss_skipped := ss_skipped (fst s) + 1\<rparr>, with_disk d1 (snd s))
               else return (Some (t, getRID it), ((fst s)\<lparr>ss_iter := Some it1, ss_emitted := ss_emitted (fst s) + 1\<rparr>, with_disk d1 (snd s)))))))"

definition seq_scan_next :: "TableInfo \<Rightarrow> Expression option \<Rightarrow> nat \<Rightarrow> nat \<Rightarrow> SeqScanExecutor shared next_op" where
  "seq_scan_next ti p limit offset s = (case (ss_heap (fst s), ss_iter (fst s)) of
     (Some heap, Some it) \<Rightarrow>
       if limit \<noteq> size_t_max \<and> limit > 0 \<and> ss_emitted (fst s) \<ge> limit then return (None, s)
       else if limit = 0 then return (None, s)
       else scan_loop p (ti_schema ti) offset it s
   | _ \<Rightarrow> return (None, s))"

subsection \<open>Index scan\<close>

record IndexScanExecutor =
  ix_tree :: "BPlusTree option"
  ix_heap :: "TableHeap option"
  ix_iter :: "BPlusTreeIterator option"
  ix_done :: bool
  ix_emitted :: nat
  ix_skipped :: nat

definition open_index :: "TableInfo \<Rightarrow> BPlusTree option" where
  "open_index ti = (if ti_index_root_page ti \<noteq> kInvalidPageId then Some (bt_open mk_BPlusTree (ti_index_root_page ti)) else None)"

text \<open>Where the iteration starts; \<open>bplus_tree_->end()\<close> on an empty optional is undefined.\<close>

definition index_start :: "BPlusTree option \<Rightarrow> Expression option \<Rightarrow> BufferPoolManager \<Rightarrow> (BPlusTreeIterator \<times> BufferPoolManager) result" where
  "index_start tree p b = (case tree of
     None \<Rightarrow> throws UndefinedBehaviour
   | Some t \<Rightarrow> (case p of
       Some (EComp op _ (EConst v)) \<Rightarrow> (case getAsInteger v of
           Inl e \<Rightarrow> throws e
         | Inr i \<Rightarrow>
             if op = Equal \<or> op = GreaterThan \<or> op = GreaterThanOrEqual then returns (bt_begin_key t b i)
             else if op = LessThan \<or> op = LessThanOrEqual then returns (bt_begin t b)
             else return (end_BPlusTreeIterator, b))
     | _ \<Rightarrow> return (end_BPlusTreeIterator, b)))"

text \<open>Assigning the new iterator drops the page guard of the old one.\<close>

definition drop_iterator :: "BPlusTreeIterator option \<Rightarrow> BufferPoolManager \<Rightarrow> BufferPoolManager option" where
  "drop_iterator it b = (case it of None \<Rightarrow> Some b | Some i \<Rightarrow> reset_guard b (it_guard i))"

definition index_scan_init :: "TableInfo \<Rightarrow> Expression option \<Rightarrow> IndexScanExecutor shared init_op" where
  "index_scan_init ti p s = then_do (returns (TableHeap_open (ec_disk (snd s)) (ti_heap_root_page ti))) (\<lambda>(h, d1).
     let c1 = with_disk d1 (snd s) in
     then_do (index_start (open_index ti) p (ec_bpm c1)) (\<lambda>(it, b2).
     then_do (returns (drop_iterator (ix_iter (fst s)) b2)) (\<lambda>b3.
       return (\<lparr>ix_tree = open_index ti, ix_heap = h, ix_iter = Some it, ix_done = False, ix_emitted = 0, ix_skipped = 0\<rparr>, c1\<lparr>ec_bpm := b3\<rparr>))))"

definition index_tuple :: "ExecutorContext \<Rightarrow> TableHeap \<Rightarrow> RID \<Rightarrow> (Tuple option \<times> ExecutorContext) result" where
  "index_tuple c heap rid =
    (if versionCount (ec_mvcc c) rid > 0 then return (mvcc_read (ec_mvcc c) (ec_txn c) rid, c)
     else then_do (returns (TableHeap_readTuple (ec_disk c) heap rid [])) (\<lambda>(st, t, d1).
       return (if st \<noteq> Ok then None else Some t, with_disk d1 c)))"

text \<open>A comparison with an upper bound ends the scan at the first row that fails it.\<close>

definition stops_at_failure :: "Expression option \<Rightarrow> bool" where
  "stops_at_failure p = (case p of Some (EComp op _ _) \<Rightarrow> op = Equal \<or> op = LessThan \<or> op = LessThanOrEqual | _ \<Rightarrow> False)"

definition index_passes :: "Expression option \<Rightarrow> Schema \<Rightarrow> Tuple \<Rightarrow> exn + bool" where
  "index_passes p sch t = (case p of None \<Rightarrow> Inr True | Some e \<Rightarrow> try_bind (evaluate e t sch) getAsBoolean)"

partial_function (option) index_loop :: "Expression option \<Rightarrow> Schema \<Rightarrow> nat \<Rightarrow> TableHeap \<Rightarrow> BPlusTreeIterator \<Rightarrow> IndexScanExecutor shared next_op" where
  "index_loop p sch offset heap it s =
    (if it_eq it end_BPlusTreeIterator then return (None, ((fst s)\<lparr>ix_iter := Some it, ix_done := True\<rparr>, snd s))
     else let rid = snd (it_deref it) in
       then_do (returns (it_next (ec_bpm (snd s)) it)) (\<lambda>(it1, b1).
       then_do (index_tuple ((snd s)\<lparr>ec_bpm := b1\<rparr>) heap rid) (\<lambda>(r, c1).
         case r of
           None \<Rightarrow> index_loop p sch offset heap it1 (fst s, c1)
         | Some t \<Rightarrow> (case index_passes p sch t of
             Inl e \<Rightarrow> throws e
           | Inr b \<Rightarrow>
               if \<not> b then
                 (if stops_at_failure p then return (None, ((fst s)\<lparr>ix_iter := Some it1, ix_done := True\<rparr>, c1))
                  else index_loop p sch offset heap it1 (fst s, c1))
               else if ix_skipped (fst s) < offset
               then index_loop p sch offset heap it1 ((fst s)\<lparr>ix_skipped := ix_skipped (fst s) + 1\<rparr>, c1)
               else return (Some (t, rid), ((fst s)\<lparr>ix_iter := Some it1, ix_emitted := ix_emitted (fst s) + 1\<rparr>, c1))))))"

definition index_scan_next :: "TableInfo \<Rightarrow> Expression option \<Rightarrow> nat \<Rightarrow> nat \<Rightarrow> IndexScanExecutor shared next_op" where
  "index_scan_next ti p limit offset s =
    (if ix_done (fst s) \<or> ix_tree (fst s) = None then return (None, s)
     else case (ix_heap (fst s), ix_iter (fst s)) of
       (Some heap, Some it) \<Rightarrow>
         if limit \<noteq> size_t_max \<and> limit > 0 \<and> ix_emitted (fst s) \<ge> limit then return (None, s)
         else if limit = 0 then return (None, s)
         else index_loop p (ti_schema ti) offset heap it s
     | _ \<Rightarrow> return (None, s))"

subsection \<open>Reading does not change the disk\<close>

lemma readPage_same:
  assumes "dm_ok d" "wf_Page p" "readPage d i p = (st, q, d')"
  shows "d' = d"
  using assms readPage_ok [of d i p] readPage_out_of_range [of d i p] by (cases "unat i < dm_page_count d") (auto simp: not_less)

lemma loadPage_same: "dm_ok d \<Longrightarrow> loadPage d it i = (it', d') \<Longrightarrow> d' = d"
  using readPage_same [of d default_Page i] by (auto simp: loadPage_def split: prod.splits if_splits)

lemma advance_same:
  assumes "advanceToNextValid d it = Some r"
  shows "dm_ok d \<longrightarrow> snd r = d"
proof (rule advanceToNextValid.raw_induct [OF _ assms])
  fix adv d it r
  assume 1: "\<And>d it r. adv d it = Some r \<Longrightarrow> dm_ok d \<longrightarrow> snd r = d"
    "(if current_page_id it = kInvalidPageId then Some (it, d)
      else case cached_page it of None \<Rightarrow> Some (it, d)
       | Some page \<Rightarrow> Option.bind (skip_slots page [unat (current_slot_id it)..<unat (SlottedPage_slotCount page)]) (\<lambda>r. case r of
           Some i \<Rightarrow> Some (it\<lparr>current_slot_id := word_of_nat i\<rparr>, d)
         | None \<Rightarrow> (let it1 = it\<lparr>current_page_id := getNextPageId page, current_slot_id := 0\<rparr>;
             (it2, d2) = (if current_page_id it1 \<noteq> kInvalidPageId then loadPage d it1 (current_page_id it1) else (it1\<lparr>cached_page := None\<rparr>, d))
             in adv d2 it2))) = Some r"
  show "dm_ok d \<longrightarrow> snd r = d"
  proof
    assume ok: "dm_ok d"
    show "snd r = d"
    proof (cases "current_page_id it = kInvalidPageId \<or> cached_page it = None")
      case True
      then show ?thesis using 1(2) by (auto split: if_splits)
    next
      case False
      then obtain page where page: "current_page_id it \<noteq> kInvalidPageId" "cached_page it = Some page" by auto
      let ?it = "it\<lparr>current_page_id := getNextPageId page, current_slot_id := 0\<rparr>"
      obtain it2 d2 where ld: "(if getNextPageId page \<noteq> kInvalidPageId then loadPage d ?it (getNextPageId page) else (?it\<lparr>cached_page := None\<rparr>, d)) = (it2, d2)"
        by fastforce
      then have d2: "d2 = d" using loadPage_same [OF ok] by (auto split: if_splits)
      obtain w where w: "skip_slots page [unat (current_slot_id it)..<unat (SlottedPage_slotCount page)] = Some w"
        using 1(2) page by (auto simp: bind_eq_Some_conv)
      show ?thesis
      proof (cases w)
        case None
        then have "adv d2 it2 = Some r" using 1(2) page w ld by (simp add: Let_def split: if_splits)
        then show ?thesis using 1(1) d2 ok by blast
      next
        case (Some i)
        then show ?thesis using 1(2) page w by auto
      qed
    qed
  qed
qed

lemma iterator_next_same: "HeapIterator_next d it = Some (it', d') \<Longrightarrow> dm_ok d \<Longrightarrow> d' = d"
  using advance_same [of d] by (force simp: HeapIterator_next_def split: if_splits)

lemma begin_same: "TableHeap_begin d h = Some (it, d') \<Longrightarrow> dm_ok d \<Longrightarrow> d' = d"
  using loadPage_same [of d] advance_same
  by (force simp: TableHeap_begin_def mk_HeapIterator_def Let_def split: if_splits prod.splits)

lemma collect_step:
  assumes "heap_collect d it = Some rs" "dm_ok d"
  shows "(rs = [] \<and> HeapIterator_eq it end_iterator) \<or>
    (\<exists>t it1 rs'. rs = (getRID it, t) # rs' \<and> \<not> HeapIterator_eq it end_iterator \<and> HeapIterator_deref it = Some t \<and>
      HeapIterator_next d it = Some (it1, d) \<and> heap_collect d it1 = Some rs')"
  using assms iterator_next_same [of d it] heap_collect.simps [of d it]
  by (auto simp: bind_eq_Some_conv split: if_splits)

subsection \<open>The sequential scan keeps the contract\<close>

text \<open>What a stored record contributes to the scan of a context.\<close>

definition scan_row :: "ExecutorContext \<Rightarrow> Expression option \<Rightarrow> Schema \<Rightarrow> row \<Rightarrow> exn + row option" where
  "scan_row c p sch r = (case visible_tuple c (snd r) (fst r) of
     None \<Rightarrow> Inr None
   | Some t \<Rightarrow> try_bind (passes_opt p sch (t, snd r)) (\<lambda>b. Inr (if b then Some (t, snd r) else None)))"

definition stored_rows :: "(RID \<times> Tuple) list \<Rightarrow> row list" where
  "stored_rows rs = map (\<lambda>(rid, t). (t, rid)) rs"

definition cut_rows :: "nat \<Rightarrow> nat \<Rightarrow> row list \<times> exn option \<Rightarrow> row list \<times> exn option" where
  "cut_rows limit offset r = (if limit = size_t_max then (drop offset (fst r), snd r)
     else if limit = 0 then ([], None) else limit_rows limit (drop offset (fst r)) (snd r))"

text \<open>What is due when some rows were returned and some skipped.\<close>

definition scan_due :: "ExecutorContext \<Rightarrow> Expression option \<Rightarrow> Schema \<Rightarrow> nat \<Rightarrow> nat \<Rightarrow> SeqScanExecutor \<Rightarrow> (RID \<times> Tuple) list \<Rightarrow> row list \<times> exn option" where
  "scan_due c p sch limit offset s rs = (case trans_rows (scan_row c p sch) (stored_rows rs) None of (ys, g) \<Rightarrow>
     if limit = size_t_max then (drop (offset - ss_skipped s) ys, g)
     else if limit \<le> ss_emitted s then ([], None)
     else limit_rows (limit - ss_emitted s) (drop (offset - ss_skipped s) ys) g)"

definition scan_pending :: "ExecutorContext \<Rightarrow> TableInfo \<Rightarrow> Expression option \<Rightarrow> nat \<Rightarrow> nat \<Rightarrow> SeqScanExecutor shared \<Rightarrow> row list \<Rightarrow> exn option \<Rightarrow> bool" where
  "scan_pending c ti p limit offset s ys g = (snd s = c \<and> dm_ok (ec_disk c) \<and> ss_heap (fst s) \<noteq> None \<and>
     (ss_skipped (fst s) < offset \<longrightarrow> ss_emitted (fst s) = 0) \<and>
     (\<exists>it rs. ss_iter (fst s) = Some it \<and> heap_collect (ec_disk c) it = Some rs \<and>
       scan_due c p (ti_schema ti) limit offset (fst s) rs = (ys, g)))"

definition heap_beh :: "ExecutorContext \<Rightarrow> TableInfo \<Rightarrow> Expression option \<Rightarrow> nat \<Rightarrow> nat \<Rightarrow> (RID \<times> Tuple) list \<Rightarrow> behaviour" where
  "heap_beh c ti p limit offset rs = (case cut_rows limit offset (trans_rows (scan_row c p (ti_schema ti)) (stored_rows rs) None) of (ys, g) \<Rightarrow> Rows ys g)"

lemma stored_rows_simps [simp]: "stored_rows [] = []" "stored_rows ((rid, t) # rs) = (t, rid) # stored_rows rs"
  by (simp_all add: stored_rows_def)

lemma outcome_const: "n s = v \<Longrightarrow> outcome (\<lambda>_. v) pend s0 ys g = outcome n pend s ys g"
  by (auto simp: outcome_def split: list.splits option.splits)

lemma scan_loop_outcome:
  assumes ok: "dm_ok (ec_disk c)" and lim: "limit = size_t_max \<or> ss_emitted s < limit"
    and it: "heap_collect (ec_disk c) it = Some rs" and h: "ss_heap s \<noteq> None" and sk: "ss_skipped s < offset \<longrightarrow> ss_emitted s = 0"
    and due: "scan_due c p (ti_schema ti) limit offset s rs = (ys, g)"
  shows "outcome (\<lambda>_. scan_loop p (ti_schema ti) offset it (s, c)) (scan_pending c ti p limit offset) s0 ys g"
  using assms(2-)
proof (induction rs arbitrary: it s)
  case Nil
  then have "HeapIterator_eq it end_iterator" using collect_step [OF Nil.prems(2) ok] by auto
  then have "scan_loop p (ti_schema ti) offset it (s, c) = return (None, (s\<lparr>ss_iter := Some it\<rparr>, c))"
    by (subst scan_loop.simps) simp
  moreover have "ys = []" "g = None" using Nil.prems(1,5) by (auto simp: scan_due_def limit_rows_def split: if_splits)
  moreover have "scan_pending c ti p limit offset (s\<lparr>ss_iter := Some it\<rparr>, c) [] None"
    using Nil.prems ok by (auto simp: scan_pending_def scan_due_def limit_rows_def)
  ultimately show ?case by (simp add: outcome_def)
next
  case (Cons r rs)
  obtain t it1 where st: "r = (getRID it, t)" "\<not> HeapIterator_eq it end_iterator" "HeapIterator_deref it = Some t"
      "HeapIterator_next (ec_disk c) it = Some (it1, ec_disk c)" "heap_collect (ec_disk c) it1 = Some rs"
    using collect_step [OF Cons.prems(2) ok] by auto
  let ?loop = "scan_loop p (ti_schema ti) offset"
  have unf: "?loop it (s, c) = (case visible_tuple c (getRID it) t of
           None \<Rightarrow> ?loop it1 (s, c)
         | Some t \<Rightarrow> (case passes_opt p (ti_schema ti) (t, getRID it) of
             Inl e \<Rightarrow> throws e
           | Inr b \<Rightarrow>
               if \<not> b then ?loop it1 (s, c)
               else if ss_skipped s < offset then ?loop it1 (s\<lparr>ss_skipped := ss_skipped s + 1\<rparr>, c)
               else return (Some (t, getRID it), (s\<lparr>ss_iter := Some it1, ss_emitted := ss_emitted s + 1\<rparr>, c))))"
    using st(2-4) by (subst scan_loop.simps) (simp split: option.splits sum.splits)
  obtain zs h where zs: "trans_rows (scan_row c p (ti_schema ti)) (stored_rows rs) None = (zs, h)" by fastforce
  show ?case
  proof (cases "scan_row c p (ti_schema ti) (t, getRID it)")
    case (Inl e)
    then have "?loop it (s, c) = throws e" using unf by (auto simp: scan_row_def try_bind_def split: option.splits sum.splits)
    moreover have "ys = []" "g = Some e"
      using Cons.prems(1,5) Inl st(1) by (auto simp: scan_due_def limit_rows_def split: if_splits)
    ultimately show ?thesis by (simp add: outcome_def)
  next
    case (Inr w)
    show ?thesis
    proof (cases w)
      case None
      then have "?loop it (s, c) = ?loop it1 (s, c)"
        using unf Inr by (auto simp: scan_row_def try_bind_Inr split: option.splits sum.splits if_splits)
      moreover have "scan_due c p (ti_schema ti) limit offset s rs = (ys, g)" using Cons.prems(5) st(1) Inr None by (simp add: scan_due_def)
      ultimately show ?thesis using Cons.IH [OF Cons.prems(1) st(5) Cons.prems(3,4)] by simp
    next
      case (Some x)
      then have x: "visible_tuple c (getRID it) t = Some (fst x)" "snd x = getRID it" "passes_opt p (ti_schema ti) x = Inr True"
        using Inr by (auto simp: scan_row_def try_bind_Inr split: option.splits if_splits)
      have rows: "trans_rows (scan_row c p (ti_schema ti)) (stored_rows (r # rs)) None = (x # zs, h)"
        using st(1) Inr Some zs by simp
      show ?thesis
      proof (cases "ss_skipped s < offset")
        case True
        let ?s = "s\<lparr>ss_skipped := ss_skipped s + 1\<rparr>"
        have "?loop it (s, c) = ?loop it1 (?s, c)" using unf x True by (cases x) simp
        moreover have "drop (offset - ss_skipped s) (x # zs) = drop (offset - Suc (ss_skipped s)) zs"
          using Suc_diff_Suc [OF True] by (metis drop_Suc_Cons)
        then have "scan_due c p (ti_schema ti) limit offset ?s rs = (ys, g)"
          using Cons.prems(5) rows zs by (auto simp: scan_due_def simp del: trans_rows.simps drop_Suc_Cons split: if_splits)
        moreover have "outcome (\<lambda>_. ?loop it1 (?s, c)) (scan_pending c ti p limit offset) s0 ys g"
          by (rule Cons.IH) (use Cons.prems st(5) \<open>scan_due c p (ti_schema ti) limit offset ?s rs = (ys, g)\<close> True in auto)
        ultimately show ?thesis by simp
      next
        case False
        let ?s = "s\<lparr>ss_iter := Some it1, ss_emitted := ss_emitted s + 1\<rparr>"
        have nx: "?loop it (s, c) = return (Some x, (?s, c))" using unf x False by (cases x) simp
        obtain ys' where ys: "ys = x # ys'" "scan_due c p (ti_schema ti) limit offset ?s rs = (ys', g)"
          using Cons.prems(1,5) rows zs False
            Suc_diff_Suc [of "ss_emitted s" limit, symmetric]
          by (cases "limit = size_t_max"; cases "limit = Suc (ss_emitted s)")
            (auto simp: scan_due_def limit_rows_def simp del: trans_rows.simps)
        have "scan_pending c ti p limit offset (?s, c) ys' g"
          using ok Cons.prems(3) False st(5) ys(2) by (simp add: scan_pending_def)
        then show ?thesis using nx ys(1) by (simp add: outcome_def)
      qed
    qed
  qed
qed

lemma seq_scan_executor:
  assumes "heap_ok (ec_disk c) h ids" "ti_heap_root_page ti = first_page_id h"
  shows "executor (seq_scan_init ti) (seq_scan_next ti p limit offset) (\<lambda>s. snd s = c) (scan_pending c ti p limit offset)
    (heap_beh c ti p limit offset (heap_records (dm_pages (ec_disk c)) ids))"
proof (rule executorI)
  have ok: "dm_ok (ec_disk c)" using assms(1) by (simp add: heap_ok_def)
  fix s ys g
  show "outcome (seq_scan_next ti p limit offset) (scan_pending c ti p limit offset) s ys g" if pend: "scan_pending c ti p limit offset s ys g"
  proof -
    obtain e x where s: "s = (e, c)" and e: "ss_heap e = Some x" using pend by (cases s) (auto simp: scan_pending_def)
    obtain it rs where it: "ss_iter e = Some it" "heap_collect (ec_disk c) it = Some rs" "scan_due c p (ti_schema ti) limit offset e rs = (ys, g)"
        "ss_skipped e < offset \<longrightarrow> ss_emitted e = 0"
      using pend s by (auto simp: scan_pending_def)
    show ?thesis
    proof (cases "limit = size_t_max \<or> ss_emitted e < limit")
      case True
      have "size_t_max \<noteq> 0" by (simp add: size_t_max_def)
      then have nx: "seq_scan_next ti p limit offset s = scan_loop p (ti_schema ti) offset it (e, c)"
        using True s e it(1) by (auto simp: seq_scan_next_def)
      have "outcome (\<lambda>_. scan_loop p (ti_schema ti) offset it (e, c)) (scan_pending c ti p limit offset) s ys g"
        by (rule scan_loop_outcome [OF ok True it(2) _ it(4,3)]) (simp add: e)
      then show ?thesis by (simp only: outcome_const [of "seq_scan_next ti p limit offset" s, OF nx])
    next
      case False
      then have "seq_scan_next ti p limit offset s = return (None, s)" using s e it(1) by (auto simp: seq_scan_next_def)
      moreover have "ys = []" "g = None" using False it(3) by (auto simp: scan_due_def split: prod.splits)
      ultimately show ?thesis using pend by (simp add: outcome_def)
    qed
  qed
  show "snd s = c" if "scan_pending c ti p limit offset s ys g" using that by (simp add: scan_pending_def)
  obtain it d1 where it: "TableHeap_begin (ec_disk c) h = Some (it, d1)" "heap_collect d1 it = Some (heap_records (dm_pages (ec_disk c)) ids)"
    using heap_iteration_spec [OF assms(1)] by (auto simp: bind_eq_Some_conv)
  then have d1: "d1 = ec_disk c" using begin_same ok by blast
  let ?e = "\<lparr>ss_heap = Some h, ss_iter = Some it, ss_emitted = 0, ss_skipped = 0\<rparr>"
  assume i: "snd s = c" and b: "heap_beh c ti p limit offset (heap_records (dm_pages (ec_disk c)) ids) = Rows ys g"
  have "seq_scan_init ti s = return (?e, c)"
    using i heap_open_spec [OF assms(1)] it(1) d1 by (simp add: seq_scan_init_def assms(2))
  moreover have "scan_pending c ti p limit offset (?e, c) ys g"
    using ok it(2) d1 b by (auto simp: scan_pending_def heap_beh_def cut_rows_def scan_due_def split: prod.splits if_splits)
  ultimately show "\<exists>s1. seq_scan_init ti s = return s1 \<and> scan_pending c ti p limit offset s1 ys g" by blast
qed (auto simp: heap_beh_def split: prod.splits)

subsection \<open>Properties\<close>

definition visible_rows :: "ExecutorContext \<Rightarrow> (RID \<times> Tuple) list \<Rightarrow> row list" where
  "visible_rows c rs = List.map_filter (\<lambda>(rid, t). map_option (\<lambda>x. (x, rid)) (visible_tuple c rid t)) rs"

lemma visible_rows_simps [simp]: "visible_rows c [] = []"
    "visible_rows c ((rid, t) # rs) = (case visible_tuple c rid t of None \<Rightarrow> visible_rows c rs | Some x \<Rightarrow> (x, rid) # visible_rows c rs)"
  by (auto simp: visible_rows_def List.map_filter_def split: option.splits)

lemma scan_rows_visible:
  "trans_rows (scan_row c None sch) (stored_rows rs) None = (visible_rows c rs, None)"
  "trans_rows (scan_row c (Some p) sch) (stored_rows rs) None = trans_rows (filter_row p sch) (visible_rows c rs) None"
proof (induction rs)
  case (Cons r rs)
  obtain rid t where r: "r = (rid, t)" by (cases r)
  case 1
  then show ?case using Cons.IH(1) r by (auto simp: scan_row_def passes_opt_def split: option.splits)
  case 2
  then show ?case using Cons.IH(2) r by (auto simp: scan_row_def passes_opt_def filter_row_def try_bind_def split: option.splits sum.splits)
qed simp_all

text \<open>
  A sequential scan of a table whose heap is well-formed ends and returns, in heap order, the rows visible to the transaction (for a record with
  versions the one \<open>MvccManager::read\<close> gives, otherwise the stored tuple) that satisfy the predicate, from
  the offset on and up to the limit.  A predicate, limit and offset handed to the scan give exactly what separate filter and limit executors
  over the plain scan give: this is what the rules of the optimizer that push them down rely on.
\<close>

theorem seq_scan_run:
  assumes "heap_ok (ec_disk c) h ids" "ti_heap_root_page ti = first_page_id h"
  shows "run_query (seq_scan_init ti) (seq_scan_next ti (Some p) limit offset) (s, c) =
      Some (cut_rows limit offset (trans_rows (filter_row p (ti_schema ti)) (visible_rows c (heap_records (dm_pages (ec_disk c)) ids)) None)) \<and>
    run_query (seq_scan_init ti) (seq_scan_next ti None limit offset) (s, c) =
      Some (cut_rows limit offset (visible_rows c (heap_records (dm_pages (ec_disk c)) ids), None)) \<and>
    (0 < limit \<and> limit < size_t_max \<longrightarrow>
      run_query (seq_scan_init ti) (seq_scan_next ti (Some p) limit offset) (s, c) =
      run_query (limit_init (filter_init (seq_scan_init ti)) (filter_next (seq_scan_next ti None size_t_max 0) p (ti_schema ti)) offset)
        (limit_next (filter_next (seq_scan_next ti None size_t_max 0) p (ti_schema ti)) limit) ((s', c), n))"
proof -
  let ?rs = "heap_records (dm_pages (ec_disk c)) ids" and ?sch = "ti_schema ti"
  have run: "run_query (seq_scan_init ti) (seq_scan_next ti q limit offset) (s, c) = Some (cut_rows limit offset (trans_rows (scan_row c q ?sch) (stored_rows ?rs) None))" for q
    using executor.run_beh [OF seq_scan_executor [OF assms, of q limit offset], of "(s, c)"] by (simp add: heap_beh_def split: prod.splits)
  have E: "executor (seq_scan_init ti) (seq_scan_next ti None size_t_max 0) (\<lambda>s. snd s = c) (scan_pending c ti None size_t_max 0) (Rows (visible_rows c ?rs) None)"
    using seq_scan_executor [OF assms, of None size_t_max 0] by (simp add: heap_beh_def scan_rows_visible cut_rows_def)
  note F = executor.limit_executor [OF executor.filter_executor [OF E, of p ?sch], of offset limit]
  obtain ys g where ys: "trans_rows (filter_row p ?sch) (visible_rows c ?rs) None = (ys, g)" by fastforce
  have "run_query (limit_init (filter_init (seq_scan_init ti)) (filter_next (seq_scan_next ti None size_t_max 0) p ?sch) offset)
      (limit_next (filter_next (seq_scan_next ti None size_t_max 0) p ?sch) limit) ((s', c), n) = Some (limit_rows limit (drop offset ys) g)" if "0 < limit"
    using executor.run_beh [OF F, of "((s', c), n)"] that ys by (auto simp: beh_map_def limit_beh_def limit_rows_def)
  moreover have "cut_rows limit offset (ys, g) = limit_rows limit (drop offset ys) g" if "0 < limit \<and> limit < size_t_max"
    using that by (simp add: cut_rows_def)
  ultimately show ?thesis using run [of "Some p"] run [of None] ys by (simp add: scan_rows_visible)
qed

lemma single_record_of:
  assumes "t \<noteq> []" "length t \<le> 4048"
  shows "\<exists>rid h d ids. heap_ok d h ids \<and> heap_records (dm_pages d) ids = [(rid, t)]"
proof -
  obtain rid h d ids where h: "heap_ok d h ids" "heap_lookup (dm_pages d) ids = [rid \<mapsto> t]" using one_record_heap_of [OF assms] by blast
  let ?rs = "heap_records (dm_pages d) ids"
  have rs: "distinct (map fst ?rs)" "set ?rs = {(rid, t)}"
    using heap_records_set [of "dm_pages d" "first_page_id h" ids] h by (auto simp: heap_ok_def split: if_splits)
  then have "length ?rs = 1" using distinct_card [of ?rs] by (simp add: distinct_map)
  with rs(2) have "?rs = [(rid, t)]" by (cases ?rs) auto
  with h(1) show ?thesis by blast
qed

lemma single_record: "\<exists>rid h d ids. heap_ok d h ids \<and> heap_records (dm_pages d) ids = [(rid, [1, 2, 3])]"
  by (rule single_record_of) simp_all

definition fresh_context :: "DiskManager \<Rightarrow> ExecutorContext" where
  "fresh_context d = \<lparr>ec_txn = mk_Transaction 1, ec_bpm = mk_BufferPoolManager 4 d, ec_mvcc = Map.empty, ec_locks = Map.empty, ec_log = mk_LogManager\<rparr>"

lemma fresh_context_simps [simp]: "ec_disk (fresh_context d) = d" "ec_mvcc (fresh_context d) = Map.empty" "ec_locks (fresh_context d) = Map.empty"
    "ec_txn (fresh_context d) = mk_Transaction 1" "ec_log (fresh_context d) = mk_LogManager"
  by (simp_all add: fresh_context_def ec_disk_def mk_BufferPoolManager_def)

theorem seq_scan_run_witness:
  "\<exists>rid c ti s. run_query (seq_scan_init ti) (seq_scan_next ti (Some (EConst (VBool True))) 1 0) (s, c) = Some ([([1, 2, 3], rid)], None)"
proof -
  obtain rid h d ids where h: "heap_ok d h ids" "heap_records (dm_pages d) ids = [(rid, [1, 2, 3])]" using single_record by blast
  let ?c = "fresh_context d" and ?ti = "default_TableInfo\<lparr>ti_heap_root_page := first_page_id h\<rparr>"
  have "run_query (seq_scan_init ?ti) (seq_scan_next ?ti (Some (EConst (VBool True))) 1 0) (s, ?c) = Some ([([1, 2, 3], rid)], None)" for s
    using seq_scan_run [of ?c h ids ?ti "EConst (VBool True)" 1 0 s] h
    by (simp add: visible_tuple_def versionCount_def filter_row_def passes_def evaluate_def value_simps cut_rows_def limit_rows_def size_t_max_def)
  then show ?thesis by blast
qed

text \<open>
  An index scan of a table without an index evaluates \<open>bplus_tree_->end()\<close> on an empty optional.
\<close>

theorem index_scan_without_index:
  assumes "heap_ok (ec_disk c) h ids" "ti_heap_root_page ti = first_page_id h" "ti_index_root_page ti = kInvalidPageId"
  shows "index_scan_init ti p (s, c) = throws UndefinedBehaviour"
  using heap_open_spec [OF assms(1)] assms(2,3) by (simp add: index_scan_init_def open_index_def index_start_def)

text \<open>The row an index scan returns is one its predicate accepts.\<close>

lemma then_do_Some: "then_do r k = Some y \<longleftrightarrow> (\<exists>e. r = throws e \<and> y = Inl e) \<or> (\<exists>v. r = return v \<and> k v = Some y)"
  by (cases r) (auto simp: then_do_def throws_def return_def split: sum.splits)

lemma index_loop_passes:
  assumes "index_loop p sch offset heap it s = Some x"
  shows "\<forall>t rid s'. x = Inr (Some (t, rid), s') \<longrightarrow> index_passes p sch t = Inr True"
proof (rule index_loop.raw_induct [OF _ assms], goal_cases)
  case (1 f p sch offset heap it s x)
  show ?case
  proof (intro allI impI)
    fix t rid s'
    assume x: "x = Inr (Some (t, rid), s')"
    have IH: "f p' sch' o' h' it' s1 = Some (Inr (Some (t, rid), s')) \<Longrightarrow> index_passes p' sch' t = Inr True" for p' sch' o' h' it' s1
      using 1(1) by blast
    have "\<not> it_eq it end_BPlusTreeIterator" using 1(2) x by (auto simp: return_def)
    then obtain it1 b1 r c1 where k: "(case r of
           None \<Rightarrow> f p sch offset heap it1 (fst s, c1)
         | Some t \<Rightarrow> (case index_passes p sch t of
             Inl e \<Rightarrow> throws e
           | Inr b \<Rightarrow>
               if \<not> b then
                 (if stops_at_failure p then return (None, ((fst s)\<lparr>ix_iter := Some it1, ix_done := True\<rparr>, c1))
                  else f p sch offset heap it1 (fst s, c1))
               else if ix_skipped (fst s) < offset
               then f p sch offset heap it1 ((fst s)\<lparr>ix_skipped := ix_skipped (fst s) + 1\<rparr>, c1)
               else return (Some (t, snd (it_deref it)), ((fst s)\<lparr>ix_iter := Some it1, ix_emitted := ix_emitted (fst s) + 1\<rparr>, c1)))) = Some (Inr (Some (t, rid), s'))"
      using 1(2) x by (auto simp: Let_def then_do_Some)
    show "index_passes p sch t = Inr True"
    proof (cases r)
      case None
      then show ?thesis using k IH by simp
    next
      case (Some t1)
      then show ?thesis using k IH by (cases "index_passes p sch t1") (auto simp: throws_def return_def split: if_splits)
    qed
  qed
qed

end
