(* ===== verification/Modification.thy ===== *)
theory Modification
  imports Scans
begin

text \<open>
  The executors that change tables: \<^verbatim>\<open>src/executor/insert_executor.cpp\<close>,
  \<^verbatim>\<open>update_executor.cpp\<close>, \<^verbatim>\<open>delete_executor.cpp\<close>.

  Each drains its child in one call of \<open>next\<close>, changing the heap, the lock table, the version chains, the
  index and the log for every row, and returns one row with the number of rows changed.  A child works on its
  own state next to the shared context.
\<close>

text \<open>\<open>lock_mgr->lockExclusive\<close>, whose result is not used; a call that has to wait does not return.\<close>

definition lock_row :: "RID \<Rightarrow> ExecutorContext \<Rightarrow> ExecutorContext result" where
  "lock_row rid c = (case lockExclusive (ec_locks c) (ec_txn c) rid of
     (Waiting, _, _) \<Rightarrow> None
   | (Returned _, tbl, x) \<Rightarrow> return (c\<lparr>ec_locks := tbl, ec_txn := x\<rparr>))"

definition log_row :: "LogRecord \<Rightarrow> ExecutorContext \<Rightarrow> ExecutorContext" where
  "log_row r c = c\<lparr>ec_log := snd (snd (log_append (ec_log c) r))\<rparr>"

text \<open>The key of the primary index: the first column, as a 64-bit integer.\<close>

definition index_key :: "TableInfo \<Rightarrow> Tuple \<Rightarrow> exn + int" where
  "index_key ti t = try_bind (evaluate (EColumn 0 None) t (ti_schema ti)) getAsInteger"

definition index_insert :: "int \<Rightarrow> RID \<Rightarrow> BPlusTree \<times> ExecutorContext \<Rightarrow> (BPlusTree \<times> ExecutorContext) result" where
  "index_insert key rid s = then_do (returns (bt_insert (fst s) (ec_bpm (snd s)) key rid)) (\<lambda>(_, tree, b). return (tree, (snd s)\<lparr>ec_bpm := b\<rparr>))"

definition index_remove :: "int \<Rightarrow> BPlusTree \<times> ExecutorContext \<Rightarrow> (BPlusTree \<times> ExecutorContext) result" where
  "index_remove key s = then_do (returns (bt_remove (fst s) (ec_bpm (snd s)) key)) (\<lambda>(_, tree, b). return (tree, (snd s)\<lparr>ec_bpm := b\<rparr>))"

text \<open>\<open>count\<close> is an \<open>int32_t\<close>, written into a buffer of eight bytes.\<close>

definition count_row :: "int \<Rightarrow> Tuple" where
  "count_row n = row_of (snd (writeInt32 (mk_Serializer (replicate 8 0)) n))"

definition bump :: "int \<Rightarrow> int result" where
  "bump n = (if int32 (n + 1) then return (n + 1) else throws SignedOverflow)"

subsection \<open>Insert\<close>

record 'c InsertExecutor =
  in_child :: 'c
  in_heap :: "TableHeap option"
  in_tree :: "BPlusTree option"
  in_done :: bool

definition insert_init :: "TableInfo \<Rightarrow> 'c shared init_op \<Rightarrow> 'c InsertExecutor shared init_op" where
  "insert_init ti ini s = then_do (ini (in_child (fst s), snd s)) (\<lambda>(c1, x1).
     then_do (returns (TableHeap_open (ec_disk x1) (ti_heap_root_page ti))) (\<lambda>(h, d1).
       return (\<lparr>in_child = c1, in_heap = h, in_tree = open_index ti, in_done = False\<rparr>, with_disk d1 x1)))"

text \<open>One row: whether it was counted, and the heap, index and context after it.\<close>

definition insert_tuple :: "TableInfo \<Rightarrow> Tuple \<Rightarrow> TableHeap \<Rightarrow> BPlusTree option \<Rightarrow> ExecutorContext \<Rightarrow>
    (bool \<times> TableHeap \<times> BPlusTree option \<times> ExecutorContext) result" where
  "insert_tuple ti t h tree x = then_do (returns (TableHeap_insertTuple (ec_disk x) h t default_RID)) (\<lambda>(st, rid, h1, d1).
     if st \<noteq> Ok then return (False, h1, tree, with_disk d1 x)
     else then_do (lock_row rid (with_disk d1 x)) (\<lambda>x2.
       case mvcc_insert (ec_mvcc x2) (ec_txn x2) rid t of (ok, m) \<Rightarrow>
         let x3 = x2\<lparr>ec_mvcc := m\<rparr> in
         if \<not> ok then return (False, h1, tree, x3)
         else then_do (case tree of
             None \<Rightarrow> return (None, x3)
           | Some bt \<Rightarrow> (case index_key ti t of
               Inl e \<Rightarrow> throws e
             | Inr key \<Rightarrow> then_do (index_insert key rid (bt, x3)) (\<lambda>(bt1, x4). return (Some bt1, x4)))) (\<lambda>(tree1, x4).
           return (True, h1, tree1, log_row (mk_LogRecord_tuple (txn_id (ec_txn x4)) INSERT kInvalidLSN rid t) x4))))"

partial_function (option) insert_rows :: "TableInfo \<Rightarrow> 'c shared next_op \<Rightarrow> 'c \<Rightarrow> TableHeap \<Rightarrow> BPlusTree option \<Rightarrow> ExecutorContext \<Rightarrow> int \<Rightarrow>
    (int \<times> 'c \<times> TableHeap \<times> BPlusTree option \<times> ExecutorContext) result" where
  "insert_rows ti child s h tree x count = then_do (child (s, x)) (\<lambda>(r, (s1, x1)). case r of
     None \<Rightarrow> return (count, s1, h, tree, x1)
   | Some row \<Rightarrow> then_do (insert_tuple ti (fst row) h tree x1) (\<lambda>(counted, h1, tree1, x2).
       then_do (if counted then bump count else return count) (\<lambda>count1. insert_rows ti child s1 h1 tree1 x2 count1)))"

definition insert_next :: "TableInfo \<Rightarrow> 'c shared next_op \<Rightarrow> 'c InsertExecutor shared next_op" where
  "insert_next ti child s = (case in_heap (fst s) of
     None \<Rightarrow> return (None, s)
   | Some h \<Rightarrow>
       if in_done (fst s) then return (None, s)
       else then_do (insert_rows ti child (in_child (fst s)) h (in_tree (fst s)) (snd s) 0) (\<lambda>(count, c1, h1, tree1, x1).
         return (Some (count_row count, default_RID), (\<lparr>in_child = c1, in_heap = Some h1, in_tree = tree1, in_done = True\<rparr>, x1))))"

subsection \<open>Update and delete\<close>

record 'c ModifyExecutor =
  mo_child :: 'c
  mo_tree :: "BPlusTree option"
  mo_done :: bool

definition modify_init :: "TableInfo \<Rightarrow> 'c shared init_op \<Rightarrow> 'c ModifyExecutor shared init_op" where
  "modify_init ti ini s = then_do (ini (mo_child (fst s), snd s)) (\<lambda>(c1, x1).
     return (\<lparr>mo_child = c1, mo_tree = open_index ti, mo_done = False\<rparr>, x1))"

definition first_key :: "Value list \<Rightarrow> exn + int" where
  "first_key vs = (case vs of [] \<Rightarrow> Inl UndefinedBehaviour | v # _ \<Rightarrow> getAsInteger v)"

definition reindex :: "TableInfo \<Rightarrow> row \<Rightarrow> Value list \<Rightarrow> BPlusTree option \<Rightarrow> ExecutorContext \<Rightarrow> (BPlusTree option \<times> ExecutorContext) result" where
  "reindex ti row vs tree x = (case tree of
     None \<Rightarrow> return (None, x)
   | Some bt \<Rightarrow> (case try_bind (index_key ti (fst row)) (\<lambda>old_key. try_bind (first_key vs) (\<lambda>new_key. Inr (old_key, new_key))) of
       Inl e \<Rightarrow> throws e
     | Inr (old_key, new_key) \<Rightarrow>
         if old_key \<noteq> new_key
         then then_do (index_remove old_key (bt, x)) (\<lambda>s1. then_do (index_insert new_key (snd row) s1) (\<lambda>(bt2, x2). return (Some bt2, x2)))
         else return (Some bt, x)))"

definition update_tuple :: "TableInfo \<Rightarrow> Expression list \<Rightarrow> row \<Rightarrow> BPlusTree option \<Rightarrow> ExecutorContext \<Rightarrow>
    (bool \<times> BPlusTree option \<times> ExecutorContext) result" where
  "update_tuple ti targets row tree x = then_do (lock_row (snd row) x) (\<lambda>x1.
     case try_bind (eval_all targets (fst row) (ti_schema ti)) (\<lambda>vs. try_bind (build_row (ti_schema ti) vs) (\<lambda>t. Inr (vs, t))) of
       Inl e \<Rightarrow> throws e
     | Inr (vs, tuple1) \<Rightarrow> (case mvcc_update (ec_mvcc x1) (ec_txn x1) (snd row) tuple1 of (ok, m) \<Rightarrow>
         let x2 = x1\<lparr>ec_mvcc := m\<rparr> in
         if \<not> ok then return (False, tree, x2)
         else then_do (reindex ti row vs tree x2) (\<lambda>(tree1, x3).
           return (True, tree1, log_row (mk_LogRecord_update (txn_id (ec_txn x3)) UPDATE kInvalidLSN (snd row) (fst row) tuple1) x3))))"

definition delete_tuple :: "TableInfo \<Rightarrow> row \<Rightarrow> BPlusTree option \<Rightarrow> ExecutorContext \<Rightarrow>
    (bool \<times> BPlusTree option \<times> ExecutorContext) result" where
  "delete_tuple ti row tree x = then_do (lock_row (snd row) x) (\<lambda>x1.
     case mvcc_remove (ec_mvcc x1) (ec_txn x1) (snd row) of (ok, m) \<Rightarrow>
       let x2 = x1\<lparr>ec_mvcc := m\<rparr> in
       if \<not> ok then return (False, tree, x2)
       else then_do (case tree of
           None \<Rightarrow> return (None, x2)
         | Some bt \<Rightarrow> (case index_key ti (fst row) of
             Inl e \<Rightarrow> throws e
           | Inr key \<Rightarrow> then_do (index_remove key (bt, x2)) (\<lambda>(bt1, x3). return (Some bt1, x3)))) (\<lambda>(tree1, x3).
         return (True, tree1, log_row (mk_LogRecord_tuple (txn_id (ec_txn x3)) DELETE kInvalidLSN (snd row) (fst row)) x3)))"

partial_function (option) modify_rows :: "(row \<Rightarrow> BPlusTree option \<Rightarrow> ExecutorContext \<Rightarrow> (bool \<times> BPlusTree option \<times> ExecutorContext) result) \<Rightarrow>
    'c shared next_op \<Rightarrow> 'c \<Rightarrow> BPlusTree option \<Rightarrow> ExecutorContext \<Rightarrow> int \<Rightarrow> (int \<times> 'c \<times> BPlusTree option \<times> ExecutorContext) result" where
  "modify_rows modify child s tree x count = then_do (child (s, x)) (\<lambda>(r, (s1, x1)). case r of
     None \<Rightarrow> return (count, s1, tree, x1)
   | Some row \<Rightarrow> then_do (modify row tree x1) (\<lambda>(counted, tree1, x2).
       then_do (if counted then bump count else return count) (\<lambda>count1. modify_rows modify child s1 tree1 x2 count1)))"

definition modify_next :: "(row \<Rightarrow> BPlusTree option \<Rightarrow> ExecutorContext \<Rightarrow> (bool \<times> BPlusTree option \<times> ExecutorContext) result) \<Rightarrow>
    'c shared next_op \<Rightarrow> 'c ModifyExecutor shared next_op" where
  "modify_next modify child s = (if mo_done (fst s) then return (None, s)
     else then_do (modify_rows modify child (mo_child (fst s)) (mo_tree (fst s)) (snd s) 0) (\<lambda>(count, c1, tree1, x1).
       return (Some (count_row count, default_RID), (\<lparr>mo_child = c1, mo_tree = tree1, mo_done = True\<rparr>, x1))))"

definition update_next :: "TableInfo \<Rightarrow> Expression list \<Rightarrow> 'c shared next_op \<Rightarrow> 'c ModifyExecutor shared next_op" where
  "update_next ti targets child = modify_next (update_tuple ti targets) child"

definition delete_next :: "TableInfo \<Rightarrow> 'c shared next_op \<Rightarrow> 'c ModifyExecutor shared next_op" where
  "delete_next ti child = modify_next (delete_tuple ti) child"

subsection \<open>Locks\<close>

text \<open>The transaction of the context gets the lock on the record without waiting.\<close>

definition lockable :: "ExecutorContext \<Rightarrow> RID \<Rightarrow> bool" where
  "lockable c rid = (txn_state (ec_txn c) \<noteq> ABORTED \<and>
     (rid \<in> exclusive_lock_set (ec_txn c) \<or> rid \<notin> shared_lock_set (ec_txn c) \<and> request_queue (queue_of (ec_locks c) rid) = []))"

text \<open>Another transaction holds the lock, or once held it and never released it.\<close>

definition lock_taken :: "ExecutorContext \<Rightarrow> RID \<Rightarrow> bool" where
  "lock_taken c rid = (txn_state (ec_txn c) \<noteq> ABORTED \<and> rid \<notin> exclusive_lock_set (ec_txn c) \<and> rid \<notin> shared_lock_set (ec_txn c) \<and>
     (\<exists>r\<in>set (request_queue (queue_of (ec_locks c) rid)). req_txn r \<noteq> txn_id (ec_txn c) \<and> granted r))"

text \<open>What locking a record keeps.\<close>

definition locked_from :: "RID \<Rightarrow> ExecutorContext \<Rightarrow> ExecutorContext \<Rightarrow> bool" where
  "locked_from rid c c' = (ec_bpm c' = ec_bpm c \<and> ec_mvcc c' = ec_mvcc c \<and> ec_log c' = ec_log c \<and>
     ec_txn c' = (ec_txn c)\<lparr>exclusive_lock_set := insert rid (exclusive_lock_set (ec_txn c))\<rparr> \<and>
     (\<forall>r. r \<noteq> rid \<longrightarrow> queue_of (ec_locks c') r = queue_of (ec_locks c) r) \<and>
     (rid \<notin> exclusive_lock_set (ec_txn c) \<longrightarrow> (\<exists>q\<in>set (request_queue (queue_of (ec_locks c') rid)). req_txn q = txn_id (ec_txn c) \<and> granted q)))"

lemma lock_row_free: "lockable c rid \<Longrightarrow> \<exists>c'. lock_row rid c = return c' \<and> locked_from rid c c'"
proof (cases "rid \<in> exclusive_lock_set (ec_txn c)")
  case True
  moreover assume "lockable c rid"
  ultimately have "lock_row rid c = return c" by (simp add: lock_row_def lockExclusive_def lockable_def)
  then show ?thesis using True by (intro exI [of _ c]) (simp add: locked_from_def insert_absorb)
next
  case False
  assume "lockable c rid"
  then have "rid \<notin> shared_lock_set (ec_txn c)" "request_queue (queue_of (ec_locks c) rid) = []" "txn_state (ec_txn c) \<noteq> ABORTED"
    using False by (auto simp: lockable_def)
  then show ?thesis using False
    by (simp add: lock_row_def lockExclusive_def lockExclusive_wake_def Let_def canGrantExclusive_def mk_LockRequest_def
        locked_from_def grantLock_def queue_of_def [of "_(_ := _)"])
      (simp add: queue_of_def)
qed

lemma lock_row_blocked: "lock_taken c rid \<Longrightarrow> lock_row rid c = None"
  by (auto simp: lock_taken_def lock_row_def lockExclusive_def lockExclusive_wake_def Let_def canGrantExclusive_def list_ex_iff
      queue_of_def [of "_(_ := _)"])

subsection \<open>Rows from a source\<close>

text \<open>The same tables, transaction and versions, except for the versions of one record.\<close>

definition agree_except :: "RID \<Rightarrow> ExecutorContext \<Rightarrow> ExecutorContext \<Rightarrow> bool" where
  "agree_except rid c c' = (ec_bpm c' = ec_bpm c \<and> txn_id (ec_txn c') = txn_id (ec_txn c) \<and> begin_ts (ec_txn c') = begin_ts (ec_txn c) \<and>
     (\<forall>r. r \<noteq> rid \<longrightarrow> ec_mvcc c' r = ec_mvcc c r))"

fun run_rows :: "(row \<Rightarrow> BPlusTree option \<Rightarrow> ExecutorContext \<Rightarrow> (bool \<times> BPlusTree option \<times> ExecutorContext) result) \<Rightarrow>
    row list \<Rightarrow> BPlusTree option \<Rightarrow> ExecutorContext \<Rightarrow> int \<Rightarrow> (int \<times> BPlusTree option \<times> ExecutorContext) result" where
  "run_rows f [] tree c n = return (n, tree, c)"
| "run_rows f (y # ys) tree c n = then_do (f y tree c) (\<lambda>(counted, tree1, c1).
     then_do (if counted then bump n else return n) (\<lambda>n1. run_rows f ys tree1 c1 n1))"

text \<open>
  What an executor that changes rows needs of its child: a change to the versions of a row already returned
  does not disturb the rows to come.
\<close>

locale row_source =
  fixes nxt :: "'c shared next_op" and due :: "'c \<Rightarrow> ExecutorContext \<Rightarrow> row list \<Rightarrow> bool"
  assumes source_row: "due s c (y # ys) \<Longrightarrow> \<exists>s1. nxt (s, c) = return (Some y, (s1, c)) \<and> (\<forall>c'. agree_except (snd y) c c' \<longrightarrow> due s1 c' ys)"
    and source_end: "due s c [] \<Longrightarrow> \<exists>s1. nxt (s, c) = return (None, (s1, c))"
begin

lemma modify_rows_run:
  assumes local: "\<And>y c ok tree' c'. y \<in> Y \<Longrightarrow> f y tree c = return (ok, tree', c') \<Longrightarrow> tree' = tree \<and> agree_except (snd y) c c'"
  shows "set ys \<subseteq> Y \<Longrightarrow> due s c ys \<Longrightarrow> run_rows f ys tree c n = return (m, tree', c') \<Longrightarrow> \<exists>s1. modify_rows f nxt s tree c n = return (m, s1, tree', c')"
proof (induction ys arbitrary: s c n)
  case Nil
  then show ?case using source_end [of s c] by (subst modify_rows.simps) auto
next
  case (Cons y ys)
  obtain s1 where s1: "nxt (s, c) = return (Some y, (s1, c))" "\<And>c'. agree_except (snd y) c c' \<Longrightarrow> due s1 c' ys"
    using source_row [OF Cons.prems(2)] by blast
  have sub: "y \<in> Y" "set ys \<subseteq> Y" using Cons.prems(1) by auto
  obtain ok tree1 c1 where f: "f y tree c = return (ok, tree1, c1)"
    using Cons.prems(3) by (cases "f y tree c"; cases "the (f y tree c)") (auto simp: return_def throws_def)
  have l: "tree1 = tree" "agree_except (snd y) c c1" using local [OF sub(1) f] by auto
  obtain n1 where n1: "(if ok then bump n else return n) = return n1" using Cons.prems(3) f by (auto simp: bump_def split: if_splits)
  have "run_rows f ys tree c1 n1 = return (m, tree', c')" using Cons.prems(3) f l(1) n1 by simp
  then obtain s2 where "modify_rows f nxt s1 tree c1 n1 = return (m, s2, tree', c')" using Cons.IH [OF sub(2)] s1(2) l(2) by blast
  then show ?case using s1(1) f l(1) n1 by (subst modify_rows.simps) simp
qed

lemma modify_blocked:
  assumes "due s c (y # ys)" "f y tree c = None"
  shows "modify_rows f nxt s tree c n = None"
  using source_row [OF assms(1)] assms(2) by (subst modify_rows.simps) auto

lemma modify_rows_stuck:
  assumes local: "\<And>y c ok tree' c'. y \<in> Y \<Longrightarrow> f y tree c = return (ok, tree', c') \<Longrightarrow> tree' = tree \<and> agree_except (snd y) c c'"
  shows "set ys \<subseteq> Y \<Longrightarrow> due s c ys \<Longrightarrow> run_rows f ys tree c n = None \<Longrightarrow> modify_rows f nxt s tree c n = None"
proof (induction ys arbitrary: s c n)
  case (Cons y ys)
  show ?case
  proof (cases "f y tree c = None")
    case True
    then show ?thesis by (rule modify_blocked [OF Cons.prems(2)])
  next
    case False
    obtain s1 where s1: "nxt (s, c) = return (Some y, (s1, c))" "\<And>c'. agree_except (snd y) c c' \<Longrightarrow> due s1 c' ys"
      using source_row [OF Cons.prems(2)] by blast
    have sub: "y \<in> Y" "set ys \<subseteq> Y" using Cons.prems(1) by auto
    obtain ok tree1 c1 where f: "f y tree c = return (ok, tree1, c1)"
      using Cons.prems(3) False by (cases "f y tree c"; cases "the (f y tree c)") (auto simp: return_def throws_def)
    have l: "tree1 = tree" "agree_except (snd y) c c1" using local [OF sub(1) f] by auto
    obtain n1 where n1: "(if ok then bump n else return n) = return n1"
      using Cons.prems(3) f by (auto simp: bump_def throws_def return_def then_do_def split: if_splits)
    have "run_rows f ys tree c1 n1 = None" using Cons.prems(3) f l(1) n1 by simp
    then have "modify_rows f nxt s1 tree c1 n1 = None" using Cons.IH [OF sub(2)] s1(2) l(2) by blast
    then show ?thesis using s1(1) f l(1) n1 by (subst modify_rows.simps) simp
  qed
qed (simp add: return_def)

end

definition scan_source :: "TableInfo \<Rightarrow> Expression option \<Rightarrow> SeqScanExecutor \<Rightarrow> ExecutorContext \<Rightarrow> row list \<Rightarrow> bool" where
  "scan_source ti p s c ys = (ss_heap s \<noteq> None \<and> dm_ok (ec_disk c) \<and> (\<exists>it rs. ss_iter s = Some it \<and> heap_collect (ec_disk c) it = Some rs \<and>
     distinct (map fst rs) \<and> trans_rows (scan_row c p (ti_schema ti)) (stored_rows rs) None = (ys, None)))"

lemma visible_agree: "agree_except rid c c' \<Longrightarrow> r \<noteq> rid \<Longrightarrow> visible_tuple c' r t = visible_tuple c r t"
  by (auto simp: agree_except_def visible_tuple_def versionCount_def mvcc_read_def snapshotOf_def split: option.splits)

lemma scan_row_agree: "agree_except rid c c' \<Longrightarrow> r \<noteq> rid \<Longrightarrow> scan_row c' p sch (t, r) = scan_row c p sch (t, r)"
  by (simp add: scan_row_def visible_agree)

lemma scan_rows_agree:
  "agree_except rid c c' \<Longrightarrow> rid \<notin> fst ` set rs \<Longrightarrow> trans_rows (scan_row c' p sch) (stored_rows rs) None = trans_rows (scan_row c p sch) (stored_rows rs) None"
  by (induction rs) (auto simp: scan_row_agree split: sum.splits option.splits)

lemma scan_loop_source:
  assumes "dm_ok (ec_disk c)"
  shows "heap_collect (ec_disk c) it = Some rs \<Longrightarrow> distinct (map fst rs) \<Longrightarrow> trans_rows (scan_row c p sch) (stored_rows rs) None = (ys, None) \<Longrightarrow>
    case ys of
      [] \<Rightarrow> \<exists>it1. scan_loop p sch 0 it (s, c) = return (None, (s\<lparr>ss_iter := Some it1\<rparr>, c))
    | y # zs \<Rightarrow> \<exists>it1 rs1. scan_loop p sch 0 it (s, c) = return (Some y, (s\<lparr>ss_iter := Some it1, ss_emitted := ss_emitted s + 1\<rparr>, c)) \<and>
        heap_collect (ec_disk c) it1 = Some rs1 \<and> distinct (map fst rs1) \<and> snd y \<notin> fst ` set rs1 \<and>
        trans_rows (scan_row c p sch) (stored_rows rs1) None = (zs, None)"
proof (induction rs arbitrary: it ys)
  case Nil
  then have "HeapIterator_eq it end_iterator" using collect_step [OF Nil(1) assms] by auto
  then show ?case using Nil(3) by (subst scan_loop.simps) auto
next
  case (Cons r rs)
  obtain t it1 where st: "r = (getRID it, t)" "\<not> HeapIterator_eq it end_iterator" "HeapIterator_deref it = Some t"
      "HeapIterator_next (ec_disk c) it = Some (it1, ec_disk c)" "heap_collect (ec_disk c) it1 = Some rs"
    using collect_step [OF Cons.prems(1) assms] by auto
  have d: "distinct (map fst rs)" "getRID it \<notin> fst ` set rs" using Cons.prems(2) st(1) by auto
  obtain w where w: "scan_row c p sch (t, getRID it) = Inr w" using Cons.prems(3) st(1) by (auto split: sum.splits)
  show ?case
  proof (cases w)
    case None
    then have "scan_loop p sch 0 it (s, c) = scan_loop p sch 0 it1 (s, c)"
      using w st(2-4) by (subst scan_loop.simps) (auto simp: scan_row_def try_bind_Inr split: option.splits sum.splits if_splits)
    moreover have "trans_rows (scan_row c p sch) (stored_rows rs) None = (ys, None)" using Cons.prems(3) st(1) w None by simp
    ultimately show ?thesis using Cons.IH [OF st(5) d(1)] by (auto split: list.splits)
  next
    case (Some x)
    then have x: "visible_tuple c (getRID it) t = Some (fst x)" "snd x = getRID it" "passes_opt p sch x = Inr True"
      using w by (auto simp: scan_row_def try_bind_Inr split: option.splits if_splits)
    then have "scan_loop p sch 0 it (s, c) = return (Some x, (s\<lparr>ss_iter := Some it1, ss_emitted := ss_emitted s + 1\<rparr>, c))"
      using st(2-4) by (cases x, subst scan_loop.simps) simp
    moreover obtain zs where "ys = x # zs" "trans_rows (scan_row c p sch) (stored_rows rs) None = (zs, None)"
      using Cons.prems(3) st(1) w Some by (auto split: prod.splits)
    ultimately show ?thesis using st(5) d x(2) by auto
  qed
qed

interpretation scan_rows: row_source "seq_scan_next ti p size_t_max 0" "scan_source ti p" for ti p
proof
  fix s c y ys
  have nx: "seq_scan_next ti p size_t_max 0 (s, c) = scan_loop p (ti_schema ti) 0 it (s, c)" if "ss_heap s \<noteq> None" "ss_iter s = Some it" for it
    using that by (auto simp: seq_scan_next_def size_t_max_def)
  show "\<exists>s1. seq_scan_next ti p size_t_max 0 (s, c) = return (None, (s1, c))" if "scan_source ti p s c []"
    using that nx scan_loop_source [of c _ _ p "ti_schema ti" "[]" s] by (fastforce simp: scan_source_def)
  assume "scan_source ti p s c (y # ys)"
  then obtain it rs where s: "ss_heap s \<noteq> None" "dm_ok (ec_disk c)" "ss_iter s = Some it" "heap_collect (ec_disk c) it = Some rs"
      "distinct (map fst rs)" "trans_rows (scan_row c p (ti_schema ti)) (stored_rows rs) None = (y # ys, None)"
    by (auto simp: scan_source_def)
  obtain it1 rs1 where r: "scan_loop p (ti_schema ti) 0 it (s, c) = return (Some y, (s\<lparr>ss_iter := Some it1, ss_emitted := ss_emitted s + 1\<rparr>, c))"
      "heap_collect (ec_disk c) it1 = Some rs1" "distinct (map fst rs1)" "snd y \<notin> fst ` set rs1"
      "trans_rows (scan_row c p (ti_schema ti)) (stored_rows rs1) None = (ys, None)"
    using scan_loop_source [OF s(2,4-6), of s] by auto
  let ?s1 = "s\<lparr>ss_iter := Some it1, ss_emitted := ss_emitted s + 1\<rparr>"
  have "scan_source ti p ?s1 c' ys" if a: "agree_except (snd y) c c'" for c'
  proof -
    have "ec_disk c' = ec_disk c" using a by (simp add: agree_except_def ec_disk_def)
    then show ?thesis using s(1,2) r(2,3,5) scan_rows_agree [OF a r(4)] by (simp add: scan_source_def)
  qed
  then show "\<exists>s1. seq_scan_next ti p size_t_max 0 (s, c) = return (Some y, (s1, c)) \<and> (\<forall>c'. agree_except (snd y) c c' \<longrightarrow> scan_source ti p s1 c' ys)"
    using nx [OF s(1,3)] r(1) by auto
qed

lemma scan_source_init:
  assumes "heap_ok (ec_disk c) h ids" "ti_heap_root_page ti = first_page_id h"
    and "trans_rows (scan_row c p (ti_schema ti)) (stored_rows (heap_records (dm_pages (ec_disk c)) ids)) None = (ys, None)"
  shows "\<exists>s1. seq_scan_init ti (s, c) = return (s1, c) \<and> scan_source ti p s1 c ys"
proof -
  have ok: "dm_ok (ec_disk c)" using assms(1) by (simp add: heap_ok_def)
  obtain it d1 where it: "TableHeap_begin (ec_disk c) h = Some (it, d1)" "heap_collect d1 it = Some (heap_records (dm_pages (ec_disk c)) ids)"
    using heap_iteration_spec [OF assms(1)] by (auto simp: bind_eq_Some_conv)
  have d1: "d1 = ec_disk c" by (rule begin_same [OF it(1) ok])
  have "distinct (map fst (heap_records (dm_pages (ec_disk c)) ids))"
    using heap_records_set [of "dm_pages (ec_disk c)" "first_page_id h" ids] assms(1) by (simp add: heap_ok_def)
  then show ?thesis
    using heap_open_spec [OF assms(1)] it d1 ok assms(2,3) by (auto simp: seq_scan_init_def scan_source_def)
qed

subsection \<open>The effect of the changes\<close>

text \<open>Update and delete of one row when there is no index: lock, push a version, log.\<close>

definition change_step :: "(row \<Rightarrow> byte list) \<Rightarrow> bool \<Rightarrow> (txn_id_t \<Rightarrow> row \<Rightarrow> LogRecord) \<Rightarrow> row \<Rightarrow> ExecutorContext \<Rightarrow>
    (bool \<times> BPlusTree option \<times> ExecutorContext) result" where
  "change_step payload deleted rec y c = then_do (lock_row (snd y) c) (\<lambda>c1.
     let t = txn_id (ec_txn c1); ch = chain_of (ec_mvcc c1) (snd y) in
     if writable t ch then return (True, None, log_row (rec t y) (c1\<lparr>ec_mvcc := (ec_mvcc c1)(snd y \<mapsto> push t (payload y) deleted ch)\<rparr>))
     else return (False, None, c1))"

definition delete_record :: "txn_id_t \<Rightarrow> row \<Rightarrow> LogRecord" where
  "delete_record t y = mk_LogRecord_tuple t DELETE kInvalidLSN (snd y) (fst y)"

definition update_record :: "(row \<Rightarrow> Tuple) \<Rightarrow> txn_id_t \<Rightarrow> row \<Rightarrow> LogRecord" where
  "update_record payload t y = mk_LogRecord_update t UPDATE kInvalidLSN (snd y) (fst y) (payload y)"

lemma then_do_cong: "(\<And>v. r = return v \<Longrightarrow> k v = k' v) \<Longrightarrow> then_do r k = then_do r k'"
  by (cases r; cases "the r") (auto simp: then_do_def return_def)

lemma delete_no_index: "delete_tuple ti y None c = change_step (\<lambda>_. []) True delete_record y c"
  unfolding delete_tuple_def change_step_def
  by (rule then_do_cong) (simp add: mvcc_remove_chain delete_record_def log_row_def Let_def)

lemma update_no_index:
  assumes "try_bind (eval_all targets (fst y) (ti_schema ti)) (build_row (ti_schema ti)) = Inr (payload y)"
  shows "update_tuple ti targets y None c = change_step payload False (update_record payload) y c"
proof -
  obtain vs where "eval_all targets (fst y) (ti_schema ti) = Inr vs" "build_row (ti_schema ti) vs = Inr (payload y)"
    using assms by (auto simp: try_bind_Inr)
  then show ?thesis unfolding update_tuple_def change_step_def
    by (intro then_do_cong) (simp add: mvcc_update_chain update_record_def log_row_def reindex_def Let_def)
qed

lemma change_step_spec:
  assumes "lockable c (snd y)"
  obtains c' where "change_step payload deleted rec y c = return (writable (txn_id (ec_txn c)) (chain_of (ec_mvcc c) (snd y)), None, c')"
    "agree_except (snd y) c c'" "\<And>r. r \<noteq> snd y \<Longrightarrow> lockable c r \<Longrightarrow> lockable c' r"
    "chain_of (ec_mvcc c') (snd y) = (if writable (txn_id (ec_txn c)) (chain_of (ec_mvcc c) (snd y))
       then push (txn_id (ec_txn c)) (payload y) deleted (chain_of (ec_mvcc c) (snd y)) else chain_of (ec_mvcc c) (snd y))"
    "ec_log c' = (if writable (txn_id (ec_txn c)) (chain_of (ec_mvcc c) (snd y))
       then snd (snd (log_append (ec_log c) (rec (txn_id (ec_txn c)) y))) else ec_log c)"
proof -
  obtain c1 where c1: "lock_row (snd y) c = return c1" "locked_from (snd y) c c1" using lock_row_free [OF assms] by blast
  let ?t = "txn_id (ec_txn c)" and ?ch = "chain_of (ec_mvcc c) (snd y)"
  let ?c' = "if writable ?t ?ch then log_row (rec ?t y) (c1\<lparr>ec_mvcc := (ec_mvcc c1)(snd y \<mapsto> push ?t (payload y) deleted ?ch)\<rparr>) else c1"
  have "change_step payload deleted rec y c = return (writable ?t ?ch, None, ?c')"
    using c1 by (simp add: change_step_def Let_def locked_from_def)
  moreover have "agree_except (snd y) c ?c'" "\<And>r. r \<noteq> snd y \<Longrightarrow> lockable c r \<Longrightarrow> lockable ?c' r"
    using c1(2) by (auto simp: agree_except_def locked_from_def log_row_def lockable_def)
  moreover have "chain_of (ec_mvcc ?c') (snd y) = (if writable ?t ?ch then push ?t (payload y) deleted ?ch else ?ch)"
    "ec_log ?c' = (if writable ?t ?ch then snd (snd (log_append (ec_log c) (rec ?t y))) else ec_log c)"
    using c1(2) by (simp_all add: log_row_def locked_from_def)
  ultimately show thesis using that by blast
qed

text \<open>The context after the rows \<open>W\<close> got a new version each.\<close>

definition changed :: "(row \<Rightarrow> byte list) \<Rightarrow> bool \<Rightarrow> (txn_id_t \<Rightarrow> row \<Rightarrow> LogRecord) \<Rightarrow> row list \<Rightarrow> ExecutorContext \<Rightarrow> ExecutorContext \<Rightarrow> bool" where
  "changed payload deleted rec W c c' = (let t = txn_id (ec_txn c) in
     ec_bpm c' = ec_bpm c \<and> txn_id (ec_txn c') = t \<and> begin_ts (ec_txn c') = begin_ts (ec_txn c) \<and>
     (\<forall>r. r \<notin> snd ` set W \<longrightarrow> chain_of (ec_mvcc c') r = chain_of (ec_mvcc c) r) \<and>
     (\<forall>y\<in>set W. chain_of (ec_mvcc c') (snd y) = push t (payload y) deleted (chain_of (ec_mvcc c) (snd y))) \<and>
     ec_log c' = foldl (\<lambda>l y. snd (snd (log_append l (rec t y)))) (ec_log c) W)"

lemma changedD:
  assumes "changed payload deleted rec W c c'"
  shows "y \<in> set W \<Longrightarrow> chain_of (ec_mvcc c') (snd y) = push (txn_id (ec_txn c)) (payload y) deleted (chain_of (ec_mvcc c) (snd y))"
    "r \<notin> snd ` set W \<Longrightarrow> chain_of (ec_mvcc c') r = chain_of (ec_mvcc c) r"
    "txn_id (ec_txn c') = txn_id (ec_txn c)" "begin_ts (ec_txn c') = begin_ts (ec_txn c)"
  using assms unfolding changed_def Let_def by blast+

lemma run_rows_change:
  assumes "\<And>y c. y \<in> set ys \<Longrightarrow> f y None c = change_step payload deleted rec y c"
    and "distinct (map snd ys)" "\<forall>y\<in>set ys. lockable c (snd y)" "0 \<le> n" "n + int (length ys) < 2 ^ 31"
  shows "\<exists>c'. run_rows f ys None c n = return (n + int (length (filter (\<lambda>y. writable (txn_id (ec_txn c)) (chain_of (ec_mvcc c) (snd y))) ys)), None, c') \<and>
    changed payload deleted rec (filter (\<lambda>y. writable (txn_id (ec_txn c)) (chain_of (ec_mvcc c) (snd y))) ys) c c'"
  using assms
proof (induction ys arbitrary: c n)
  case Nil
  then show ?case by (simp add: changed_def)
next
  case (Cons y ys)
  let ?t = "txn_id (ec_txn c)" and ?w = "\<lambda>c y. writable (txn_id (ec_txn c)) (chain_of (ec_mvcc c) (snd y))"
  obtain c1 where c1: "change_step payload deleted rec y c = return (?w c y, None, c1)" "agree_except (snd y) c c1"
      "\<And>r. r \<noteq> snd y \<Longrightarrow> lockable c r \<Longrightarrow> lockable c1 r"
      "chain_of (ec_mvcc c1) (snd y) = (if ?w c y then push ?t (payload y) deleted (chain_of (ec_mvcc c) (snd y)) else chain_of (ec_mvcc c) (snd y))"
      "ec_log c1 = (if ?w c y then snd (snd (log_append (ec_log c) (rec ?t y))) else ec_log c)"
    using change_step_spec [of c y payload deleted rec] Cons.prems(3) by auto
  let ?n = "if ?w c y then n + 1 else n"
  have n1: "(if ?w c y then bump n else return n) = return ?n" using Cons.prems(4,5) by (simp add: bump_def int32_def)
  have ne: "snd z \<noteq> snd y" if "z \<in> set ys" for z using Cons.prems(2) that by (metis distinct.simps(2) image_eqI list.map(2) set_map)
  have lk: "\<forall>z\<in>set ys. lockable c1 (snd z)"
  proof
    fix z
    assume z: "z \<in> set ys"
    show "lockable c1 (snd z)" by (rule c1(3) [OF ne [OF z]]) (use Cons.prems(3) z in simp)
  qed
  have same: "txn_id (ec_txn c1) = ?t" "r \<noteq> snd y \<Longrightarrow> chain_of (ec_mvcc c1) r = chain_of (ec_mvcc c) r" for r
    using c1(2) by (auto simp: agree_except_def chain_of_def)
  have W: "filter (?w c1) ys = filter (?w c) ys"
    by (rule filter_cong) (use same ne in simp_all)
  have "\<exists>c'. run_rows f ys None c1 ?n = return (?n + int (length (filter (?w c1) ys)), None, c') \<and> changed payload deleted rec (filter (?w c1) ys) c1 c'"
    by (rule Cons.IH) (use Cons.prems lk in auto)
  then obtain c' where c': "run_rows f ys None c1 ?n = return (?n + int (length (filter (?w c) ys)), None, c')"
      "changed payload deleted rec (filter (?w c) ys) c1 c'" unfolding W by blast
  have ny: "snd y \<notin> snd ` set (filter (?w c) ys)" using Cons.prems(2) by auto
  have "run_rows f (y # ys) None c n = return (n + int (length (filter (?w c) (y # ys))), None, c')"
    using c1(1) n1 c'(1) Cons.prems(1) by simp
  moreover have "changed payload deleted rec (filter (?w c) (y # ys)) c c'"
  proof -
    have old: "chain_of (ec_mvcc c') (snd z) = push ?t (payload z) deleted (chain_of (ec_mvcc c) (snd z))" if "z \<in> set (filter (?w c) ys)" for z
      using changedD(1) [OF c'(2) that] same ne that by simp
    have new: "chain_of (ec_mvcc c') (snd y) = chain_of (ec_mvcc c1) (snd y)" using changedD(2) [OF c'(2) ny] .
    have rest: "chain_of (ec_mvcc c') r = chain_of (ec_mvcc c) r" if "r \<notin> snd ` set (filter (?w c) ys)" "r \<noteq> snd y" for r
      using changedD(2) [OF c'(2) that(1)] that(2) same(2) by simp
    have "ec_bpm c' = ec_bpm c" "begin_ts (ec_txn c') = begin_ts (ec_txn c)" "txn_id (ec_txn c') = ?t"
      using c'(2) c1(2) by (simp_all add: changed_def agree_except_def Let_def)
    moreover have "\<forall>z\<in>set (filter (?w c) (y # ys)). chain_of (ec_mvcc c') (snd z) = push ?t (payload z) deleted (chain_of (ec_mvcc c) (snd z))"
      using old new c1(4) by simp
    moreover have "\<forall>r. r \<notin> snd ` set (filter (?w c) (y # ys)) \<longrightarrow> chain_of (ec_mvcc c') r = chain_of (ec_mvcc c) r"
    proof (intro allI impI)
      fix r
      assume r: "r \<notin> snd ` set (filter (?w c) (y # ys))"
      show "chain_of (ec_mvcc c') r = chain_of (ec_mvcc c) r"
      proof (cases "r = snd y")
        case True
        then have "\<not> ?w c y" using r by auto
        then show ?thesis using True new c1(4) by simp
      next
        case False
        then show ?thesis using rest r by (simp split: if_splits)
      qed
    qed
    moreover have "ec_log c' = foldl (\<lambda>l y. snd (snd (log_append l (rec ?t y)))) (ec_log c) (filter (?w c) (y # ys))"
      using c'(2) c1(5) same(1) by (simp add: changed_def Let_def)
    ultimately show ?thesis unfolding changed_def Let_def by blast
  qed
  ultimately show ?case by blast
qed

lemma change_step_local:
  assumes "change_step payload deleted rec y c = return (ok, tree', c')"
  shows "tree' = None \<and> agree_except (snd y) c c'"
proof -
  obtain c1 where c1: "lock_row (snd y) c = return c1"
    using assms by (cases "lock_row (snd y) c"; cases "the (lock_row (snd y) c)") (auto simp: change_step_def return_def)
  then have "ec_bpm c1 = ec_bpm c" "ec_mvcc c1 = ec_mvcc c" "txn_id (ec_txn c1) = txn_id (ec_txn c)" "begin_ts (ec_txn c1) = begin_ts (ec_txn c)"
    by (auto simp: lock_row_def lockExclusive_def lockExclusive_wake_def Let_def return_def split: CallResult.splits prod.splits if_splits)
  then show ?thesis using assms c1 by (auto simp: change_step_def Let_def agree_except_def log_row_def split: if_splits)
qed

definition write_target :: "ExecutorContext \<Rightarrow> row \<Rightarrow> bool" where
  "write_target c y = writable (txn_id (ec_txn c)) (chain_of (ec_mvcc c) (snd y))"

context row_source
begin

lemma modify_next_change:
  assumes f: "\<And>y c. y \<in> set ys \<Longrightarrow> f y None c = change_step payload deleted rec y c"
    and "due (mo_child e) c ys" "\<not> mo_done e" "mo_tree e = None" "distinct (map snd ys)" "\<forall>y\<in>set ys. lockable c (snd y)" "length ys < 2 ^ 31"
  shows "\<exists>e' c'. modify_next f nxt (e, c) = return (Some (count_row (int (length (filter (write_target c) ys))), default_RID), (e', c')) \<and>
    changed payload deleted rec (filter (write_target c) ys) c c'"
proof -
  obtain c' where c': "run_rows f ys None c 0 = return (int (length (filter (write_target c) ys)), None, c')"
      "changed payload deleted rec (filter (write_target c) ys) c c'"
    using run_rows_change [of ys f payload deleted rec c 0] assms unfolding write_target_def by auto
  have "tree' = None \<and> agree_except (snd y) c c'" if "y \<in> set ys" "f y None c = return (ok, tree', c')" for y c ok tree' c'
    using change_step_local that f by metis
  then obtain s1 where "modify_rows f nxt (mo_child e) None c 0 = return (int (length (filter (write_target c) ys)), s1, None, c')"
    using modify_rows_run [of "set ys" f None, OF _ order_refl assms(2) c'(1)] by blast
  then show ?thesis using assms(3,4) c'(2) by (auto simp: modify_next_def)
qed

end

lemma visible_chain:
  "visible_tuple c r t = (if chain_of (ec_mvcc c) r = [] then Some t else read_chain (snapshotOf (ec_txn c)) (txn_id (ec_txn c)) (chain_of (ec_mvcc c) r))"
  by (simp add: visible_tuple_def versionCount_def mvcc_read_def chain_of_def split: option.splits)

text \<open>What the transaction sees of a record after its own changes.\<close>

lemma visible_changed:
  assumes "changed payload deleted rec W c c'" "\<forall>y\<in>set W. write_target c y"
  shows "y \<in> set W \<Longrightarrow> visible_tuple c' (snd y) t = (if deleted then None else Some (payload y))"
    "r \<notin> snd ` set W \<Longrightarrow> visible_tuple c' r t = visible_tuple c r t"
proof -
  show "visible_tuple c' (snd y) t = (if deleted then None else Some (payload y))" if "y \<in> set W"
    using changedD(1) [OF assms(1) that] changedD(3) [OF assms(1)] assms(2) that
      read_own_push [of "txn_id (ec_txn c)" "chain_of (ec_mvcc c) (snd y)" "snapshotOf (ec_txn c')" "payload y" deleted]
    by (auto simp: visible_chain write_target_def push_def writable_def split: list.splits)
  show "visible_tuple c' r t = visible_tuple c r t" if "r \<notin> snd ` set W"
    using changedD(2) [OF assms(1) that] changedD(3,4) [OF assms(1)] by (simp add: visible_chain snapshotOf_def)
qed

lemma scan_rows_distinct:
  assumes "trans_rows (scan_row c p sch) (stored_rows rs) None = (ys, None)" "distinct (map fst rs)"
  shows "distinct (map snd ys) \<and> snd ` set ys \<subseteq> fst ` set rs"
  using assms
proof (induction rs arbitrary: ys)
  case (Cons r rs)
  obtain rid t where r: "r = (rid, t)" by (cases r)
  obtain w where w: "scan_row c p sch (t, rid) = Inr w" using Cons.prems(1) r by (auto split: sum.splits)
  show ?case
  proof (cases w)
    case None
    then show ?thesis using Cons r w by auto
  next
    case (Some x)
    then have "snd x = rid" using w by (auto simp: scan_row_def try_bind_Inr split: option.splits if_splits)
    moreover obtain zs where "ys = x # zs" "trans_rows (scan_row c p sch) (stored_rows rs) None = (zs, None)"
      using Cons.prems(1) r w Some by (auto split: prod.splits)
    ultimately show ?thesis using Cons.IH [of zs] Cons.prems(2) r by auto
  qed
qed simp

text \<open>A statement that changes the rows a scan returns.\<close>

lemma modify_scan:
  assumes "heap_ok (ec_disk c) h ids" "ti_heap_root_page ti = first_page_id h" "ti_index_root_page ti = kInvalidPageId"
    and rows: "trans_rows (scan_row c p (ti_schema ti)) (stored_rows (heap_records (dm_pages (ec_disk c)) ids)) None = (ys, None)"
    and "\<forall>y\<in>set ys. lockable c (snd y)" "length ys < 2 ^ 31"
    and f: "\<And>y c. y \<in> set ys \<Longrightarrow> f y None c = change_step payload deleted rec y c"
  shows "\<exists>e1 e' c'. modify_init ti (seq_scan_init ti) (e, c) = return (e1, c) \<and>
    modify_next f (seq_scan_next ti p size_t_max 0) (e1, c) = return (Some (count_row (int (length (filter (write_target c) ys))), default_RID), (e', c')) \<and>
    changed payload deleted rec (filter (write_target c) ys) c c'"
proof -
  obtain s1 where s1: "seq_scan_init ti (mo_child e, c) = return (s1, c)" "scan_source ti p s1 c ys"
    using scan_source_init [OF assms(1,2) rows] by blast
  let ?e1 = "\<lparr>mo_child = s1, mo_tree = None, mo_done = False\<rparr>"
  have "distinct (map snd ys)"
    using scan_rows_distinct [OF rows] heap_records_set [of "dm_pages (ec_disk c)" "first_page_id h" ids] assms(1) by (simp add: heap_ok_def)
  then obtain e' c' where "modify_next f (seq_scan_next ti p size_t_max 0) (?e1, c) = return (Some (count_row (int (length (filter (write_target c) ys))), default_RID), (e', c'))"
      "changed payload deleted rec (filter (write_target c) ys) c c'"
    using scan_rows.modify_next_change [of ys f payload deleted rec ti p ?e1 c] f s1(2) assms(5,6) by auto
  moreover have "modify_init ti (seq_scan_init ti) (e, c) = return (?e1, c)"
    using s1(1) assms(3) by (simp add: modify_init_def open_index_def)
  ultimately show ?thesis by blast
qed

subsection \<open>Insertion of rows\<close>

lemma stream_counts [simp]: "dm_page_count (stream_write d off bs) = dm_page_count d" "dm_page_count (stream_clear d) = dm_page_count d"
    "dm_page_count (snd (stream_read d off n)) = dm_page_count d"
  by (simp_all add: stream_write_def stream_read_def stream_clear_def next_fault_def Let_def split: list.splits prod.splits option.splits)

lemma write_count: "writePage d i p = (st, q, d') \<Longrightarrow> dm_page_count d' = dm_page_count d"
  by (auto simp: writePage_def Let_def split: if_splits)

lemma read_count: "stream_read d off n = (bs, d') \<Longrightarrow> dm_page_count d' = dm_page_count d"
  using stream_counts(3) [of d off n] by simp

lemma alloc_count: "allocatePage d out = (st, n, d') \<Longrightarrow> dm_page_count d' \<le> Suc (dm_page_count d)"
  by (auto simp: allocatePage_def Let_def dest!: read_count split: if_splits prod.splits)

lemma insert_loop_count:
  assumes "insert_loop d t cur page = Some r"
  shows "dm_page_count (snd r) = dm_page_count d \<and> (\<forall>st. fst r = Inl (st, None) \<longrightarrow> st = IoError)"
proof (rule insert_loop.raw_induct [OF _ assms], goal_cases)
  case (1 f d t cur page r)
  show ?case
  proof (cases "cur = kInvalidPageId")
    case False
    obtain st page1 d1 where rd: "readPage d cur page = (st, page1, d1)" by (cases "readPage d cur page") auto
    have c1: "dm_page_count d1 = dm_page_count d" using readPage_unchanged [OF rd] by simp
    show ?thesis
    proof (cases "st = Ok")
      case True
      then obtain full st2 sid page2 where k: "SlottedPage_isFull page1 (length t) = Some full"
          "(if full then Some (IoError, kInvalidSlotId, page1) else SlottedPage_insertTuple page1 t kInvalidSlotId) = Some (st2, sid, page2)"
        using 1(2) False rd by (auto simp: bind_eq_Some_conv)
      show ?thesis
      proof (cases "st2 = Ok")
        case st2: True
        then show ?thesis using 1(2) False rd True k c1 write_count by (auto split: prod.splits if_splits)
      next
        case st2: False
        show ?thesis
        proof (cases "getNextPageId page2 = kInvalidPageId")
          case True
          then show ?thesis using 1(2) False rd \<open>st = Ok\<close> k c1 st2 by auto
        next
          case nx: False
          then have "f d1 t (getNextPageId page2) page2 = Some r" using 1(2) False rd \<open>st = Ok\<close> k st2 by simp
          then show ?thesis using 1(1) c1 by metis
        qed
      qed
    qed (use 1(2) False rd c1 in auto)
  qed (use 1(2) in auto)
qed

lemma insertTuple_counts:
  assumes "TableHeap_insertTuple d h t rid0 = Some (Ok, rid, h', d')"
  shows "heap_tuple_count h' = heap_tuple_count h + 1 \<and> dm_page_count d' \<le> Suc (dm_page_count d)"
proof -
  obtain r d1 where r: "t \<noteq> []" "insert_loop d t (first_page_id h) default_Page = Some (r, d1)"
    using assms by (auto simp: TableHeap_insertTuple_def bind_eq_Some_conv split: if_splits)
  note c = insert_loop_count [OF r(2), simplified]
  show ?thesis
  proof (cases r)
    case (Inl x)
    then show ?thesis using assms r c by (cases x; cases "snd x") (auto simp: TableHeap_insertTuple_def)
  next
    case (Inr y)
    obtain cur page where y: "y = (cur, page)" by (cases y)
    obtain st new_id d2 where al: "allocatePage d1 kInvalidPageId = (st, new_id, d2)" by (cases "allocatePage d1 kInvalidPageId") auto
    have c2: "dm_page_count d2 \<le> Suc (dm_page_count d)" using alloc_count [OF al] c by simp
    obtain st2 q d3 where w: "(if cur \<noteq> kInvalidPageId then writePage d2 cur (setNextPageId page new_id) else (Ok, page, d2)) = (st2, q, d3)"
      by (cases "if cur \<noteq> kInvalidPageId then writePage d2 cur (setNextPageId page new_id) else (Ok, page, d2)") auto
    have c3: "dm_page_count d3 = dm_page_count d2" using w write_count by (auto split: if_splits)
    let ?np = "setPrevPageId (snd (SlottedPage_initialize (mk_Page (mk_PageHeader new_id Table)))) cur"
    have ok: "st = Ok" "st2 = Ok" using assms r Inr y al w by (auto simp: TableHeap_insertTuple_def Let_def split: if_splits)
    obtain st3 sid np1 where i: "SlottedPage_insertTuple ?np t kInvalidSlotId = Some (st3, sid, np1)"
      using assms r Inr y al w ok by (auto simp: TableHeap_insertTuple_def Let_def bind_eq_Some_conv)
    have "st3 = Ok" using assms r Inr y al w ok i by (auto simp: TableHeap_insertTuple_def Let_def split: if_splits)
    moreover obtain st4 q4 d4 where w4: "writePage d3 new_id np1 = (st4, q4, d4)" by (cases "writePage d3 new_id np1") auto
    ultimately have "st4 = Ok" "d' = d4" "heap_tuple_count h' = heap_tuple_count h + 1"
      using assms r Inr y al w ok i by (auto simp: TableHeap_insertTuple_def Let_def split: if_splits)
    then show ?thesis using write_count [OF w4] c2 c3 by simp
  qed
qed
text \<open>The context, and the pages of the heap, after the records \<open>rts\<close> were inserted.\<close>

definition insert_record :: "txn_id_t \<Rightarrow> RID \<times> Tuple \<Rightarrow> LogRecord" where
  "insert_record t p = mk_LogRecord_tuple t INSERT kInvalidLSN (fst p) (snd p)"

definition inserted :: "ExecutorContext \<Rightarrow> PageId list \<Rightarrow> (RID \<times> Tuple) list \<Rightarrow> ExecutorContext \<Rightarrow> PageId list \<Rightarrow> bool" where
  "inserted c ids rts c' ids' = (distinct (map fst rts) \<and> (\<forall>p\<in>set rts. heap_lookup (dm_pages (ec_disk c)) ids (fst p) = None) \<and>
     heap_lookup (dm_pages (ec_disk c')) ids' = heap_lookup (dm_pages (ec_disk c)) ids ++ map_of rts \<and>
     (\<forall>r. r \<notin> fst ` set rts \<longrightarrow> chain_of (ec_mvcc c') r = chain_of (ec_mvcc c) r \<and> queue_of (ec_locks c') r = queue_of (ec_locks c) r) \<and>
     (\<forall>p\<in>set rts. chain_of (ec_mvcc c') (fst p) = [mk_TupleVersion (txn_id (ec_txn c)) (snd p) False]) \<and>
     (\<forall>p\<in>set rts. fst p \<notin> exclusive_lock_set (ec_txn c) \<longrightarrow>
        (\<exists>q\<in>set (request_queue (queue_of (ec_locks c') (fst p))). req_txn q = txn_id (ec_txn c) \<and> granted q)) \<and>
     ec_txn c' = (ec_txn c)\<lparr>exclusive_lock_set := exclusive_lock_set (ec_txn c) \<union> fst ` set rts\<rparr> \<and>
     ec_log c' = foldl (\<lambda>l p. snd (snd (log_append l (insert_record (txn_id (ec_txn c)) p)))) (ec_log c) rts)"

lemma inserted_Nil [simp]: "inserted c ids [] c ids"
  by (simp add: inserted_def)

lemma inserted_Cons:
  assumes "inserted c ids [(r, t)] c1 ids1" "inserted c1 ids1 rts c2 ids2"
  shows "inserted c ids ((r, t) # rts) c2 ids2"
proof -
  have L: "heap_lookup (dm_pages (ec_disk c1)) ids1 = (heap_lookup (dm_pages (ec_disk c)) ids)(r \<mapsto> t)" "heap_lookup (dm_pages (ec_disk c)) ids r = None"
    using assms(1) by (auto simp: inserted_def)
  have ne: "fst p \<noteq> r" "heap_lookup (dm_pages (ec_disk c)) ids (fst p) = None" if "p \<in> set rts" for p
    using assms(2) that L(1) by (auto simp: inserted_def split: if_splits)
  then have r: "r \<notin> fst ` set rts" by auto
  have look: "heap_lookup (dm_pages (ec_disk c2)) ids2 = heap_lookup (dm_pages (ec_disk c)) ids ++ map_of ((r, t) # rts)"
    using assms(2) L r by (auto simp: inserted_def map_add_def fun_eq_iff map_of_eq_None_iff split: option.splits)
  have txn: "ec_txn c1 = (ec_txn c)\<lparr>exclusive_lock_set := exclusive_lock_set (ec_txn c) \<union> {r}\<rparr>"
    "ec_txn c2 = (ec_txn c1)\<lparr>exclusive_lock_set := exclusive_lock_set (ec_txn c1) \<union> fst ` set rts\<rparr>"
    using assms by (simp_all add: inserted_def)
  show ?thesis unfolding inserted_def
  proof (intro conjI ballI allI impI)
    show "distinct (map fst ((r, t) # rts))" using assms(2) r by (simp add: inserted_def)
    show "heap_lookup (dm_pages (ec_disk c)) ids (fst p) = None" if "p \<in> set ((r, t) # rts)" for p using that ne(2) [of p] L(2) by auto
    show "heap_lookup (dm_pages (ec_disk c2)) ids2 = heap_lookup (dm_pages (ec_disk c)) ids ++ map_of ((r, t) # rts)" by (rule look)
    show "chain_of (ec_mvcc c2) q = chain_of (ec_mvcc c) q" "queue_of (ec_locks c2) q = queue_of (ec_locks c) q" if "q \<notin> fst ` set ((r, t) # rts)" for q
      using assms that by (auto simp: inserted_def)
    show "chain_of (ec_mvcc c2) (fst p) = [mk_TupleVersion (txn_id (ec_txn c)) (snd p) False]" if "p \<in> set ((r, t) # rts)" for p
      using assms that r txn(1) by (auto simp: inserted_def)
    show "\<exists>q\<in>set (request_queue (queue_of (ec_locks c2) (fst p))). req_txn q = txn_id (ec_txn c) \<and> granted q"
      if "p \<in> set ((r, t) # rts)" "fst p \<notin> exclusive_lock_set (ec_txn c)" for p
      using assms that r ne(1) txn(1) by (auto simp: inserted_def)
    show "ec_txn c2 = (ec_txn c)\<lparr>exclusive_lock_set := exclusive_lock_set (ec_txn c) \<union> fst ` set ((r, t) # rts)\<rparr>"
      using txn by (simp add: insert_commute Un_commute)
    show "ec_log c2 = foldl (\<lambda>l p. snd (snd (log_append l (insert_record (txn_id (ec_txn c)) p)))) (ec_log c) ((r, t) # rts)"
      using assms txn(1) by (simp add: inserted_def)
  qed
qed

text \<open>Records not in the heap have no versions, and their locks are free.\<close>

definition fresh_records :: "ExecutorContext \<Rightarrow> PageId list \<Rightarrow> bool" where
  "fresh_records c ids = (\<forall>r. heap_lookup (dm_pages (ec_disk c)) ids r = None \<longrightarrow> chain_of (ec_mvcc c) r = [] \<and> lockable c r)"

lemma inserted_fresh:
  assumes "inserted c ids rts c' ids'" "fresh_records c ids"
  shows "fresh_records c' ids'"
  unfolding fresh_records_def
proof (intro allI impI)
  fix r
  assume "heap_lookup (dm_pages (ec_disk c')) ids' r = None"
  then have "heap_lookup (dm_pages (ec_disk c)) ids r = None" "r \<notin> fst ` set rts"
    using assms(1) by (auto simp: inserted_def map_of_eq_None_iff)
  then show "chain_of (ec_mvcc c') r = [] \<and> lockable c' r"
    using assms by (auto simp: fresh_records_def inserted_def lockable_def)
qed

lemma heap_insert_one:
  assumes "heap_ok d h ids" "heap_tuple_count h + 1 < 2 ^ 64" "dm_room d" "t \<noteq> []" "length t \<le> 4048"
  obtains rid h' d' ids' where "TableHeap_insertTuple d h t rid0 = Some (Ok, rid, h', d')" "heap_ok d' h' ids'"
    "heap_lookup (dm_pages d) ids rid = None" "heap_lookup (dm_pages d') ids' = (heap_lookup (dm_pages d) ids)(rid \<mapsto> t)"
    "first_page_id h' = first_page_id h" "heap_tuple_count h' = heap_tuple_count h + 1" "dm_page_count d' \<le> Suc (dm_page_count d)"
proof -
  have first: "first_page_id h' = first_page_id h" if "heap_ok d' h' (ids @ zs)" for d' h' zs
    using that assms(1) by (cases ids) (auto simp: heap_ok_def)
  obtain rid h' d' zs where r: "TableHeap_insertTuple d h t rid0 = Some (Ok, rid, h', d')" "heap_ok d' h' (ids @ zs)"
      "heap_lookup (dm_pages d) ids rid = None" "heap_lookup (dm_pages d') (ids @ zs) = (heap_lookup (dm_pages d) ids)(rid \<mapsto> t)"
  proof (cases "find (\<lambda>x. fits (the (dm_pages d x)) t) ids")
    case None
    then show thesis using insert_into_new [OF assms None, of rid0] that by blast
  next
    case (Some x)
    then show thesis using insert_into_existing [OF assms(1,2,4) Some, of rid0] that [of _ _ _ "[]"] by auto
  qed
  show thesis using that [OF r first [OF r(2)]] insertTuple_counts [OF r(1)] by blast
qed

lemma insert_tuple_one:
  assumes "heap_ok (ec_disk x) h ids" "heap_tuple_count h + 1 < 2 ^ 64" "dm_room (ec_disk x)" "t \<noteq> []" "length t \<le> 4048" "fresh_records x ids"
  obtains rid h' x' ids' where "insert_tuple ti t h None x = return (True, h', None, x')" "heap_ok (ec_disk x') h' ids'"
    "inserted x ids [(rid, t)] x' ids'" "first_page_id h' = first_page_id h" "heap_tuple_count h' = heap_tuple_count h + 1"
    "dm_page_count (ec_disk x') \<le> Suc (dm_page_count (ec_disk x))"
proof -
  obtain rid h' d' ids' where r: "TableHeap_insertTuple (ec_disk x) h t default_RID = Some (Ok, rid, h', d')" "heap_ok d' h' ids'"
    "heap_lookup (dm_pages (ec_disk x)) ids rid = None" "heap_lookup (dm_pages d') ids' = (heap_lookup (dm_pages (ec_disk x)) ids)(rid \<mapsto> t)"
    "first_page_id h' = first_page_id h" "heap_tuple_count h' = heap_tuple_count h + 1" "dm_page_count d' \<le> Suc (dm_page_count (ec_disk x))"
    by (rule heap_insert_one [OF assms(1-5)])
  let ?x1 = "with_disk d' x"
  have fr: "chain_of (ec_mvcc x) rid = []" "lockable ?x1 rid" using assms(6) r(3) by (auto simp: fresh_records_def lockable_def)
  obtain x2 where x2: "lock_row rid ?x1 = return x2" "locked_from rid ?x1 x2" using lock_row_free [OF fr(2)] by blast
  then have x2': "ec_disk x2 = d'" "ec_mvcc x2 = ec_mvcc x" "txn_id (ec_txn x2) = txn_id (ec_txn x)" "ec_log x2 = ec_log x"
    by (auto simp: locked_from_def ec_disk_def with_disk_def)
  let ?x' = "log_row (insert_record (txn_id (ec_txn x)) (rid, t)) (x2\<lparr>ec_mvcc := (ec_mvcc x)(rid \<mapsto> [mk_TupleVersion (txn_id (ec_txn x)) t False])\<rparr>)"
  have "insert_tuple ti t h None x = return (True, h', None, ?x')"
    using r(1) x2(1) x2' fr(1) by (simp add: insert_tuple_def mvcc_insert_chain insertable_def Let_def insert_record_def)
  moreover have d: "ec_disk ?x' = d'" using x2'(1) by (simp add: log_row_def ec_disk_def)
  moreover have "inserted x ids [(rid, t)] ?x' ids'"
    using r(3,4) x2(2) x2' d by (auto simp: inserted_def locked_from_def log_row_def with_disk_def map_add_def fun_eq_iff)
  ultimately show thesis using that [of h' ?x' ids' rid] r(2,5,6,7) by simp
qed

context executor
begin

lemma insert_rows_run:
  "pending s xs None \<Longrightarrow> heap_ok (ec_disk x) h ids \<Longrightarrow> fresh_records x ids \<Longrightarrow> \<forall>r\<in>set xs. fst r \<noteq> [] \<and> length (fst r) \<le> 4048 \<Longrightarrow>
    heap_tuple_count h + length xs < 2 ^ 64 \<Longrightarrow> dm_page_count (ec_disk x) + length xs + 1 < 2 ^ 32 \<Longrightarrow> 0 \<le> n \<Longrightarrow> n + int (length xs) < 2 ^ 31 \<Longrightarrow>
    \<exists>s1 h' x' ids' rts. insert_rows ti (lift_next nxt) s h None x n = return (n + int (length xs), s1, h', None, x') \<and> map snd rts = map fst xs \<and>
      heap_ok (ec_disk x') h' ids' \<and> inserted x ids rts x' ids' \<and> first_page_id h' = first_page_id h"
proof (induction xs arbitrary: s x h ids n)
  case Nil
  obtain s1 where "nxt s = return (None, s1)" using next_end [OF Nil(1)] by blast
  then have "insert_rows ti (lift_next nxt) s h None x n = return (n, s1, h, None, x)"
    by (subst insert_rows.simps) (simp add: lift_next_def)
  then show ?case using Nil(2) by (intro exI [of _ s1] exI [of _ h] exI [of _ x] exI [of _ ids] exI [of _ "[]"]) simp
next
  case (Cons y ys)
  obtain s1 where s1: "nxt s = return (Some y, s1)" "pending s1 ys None" using next_row [OF Cons.prems(1)] by blast
  have room: "dm_room (ec_disk x)" using Cons.prems(6) by (simp add: dm_room_def)
  obtain rid h1 x1 ids1 where i: "insert_tuple ti (fst y) h None x = return (True, h1, None, x1)" "heap_ok (ec_disk x1) h1 ids1"
    "inserted x ids [(rid, fst y)] x1 ids1" "first_page_id h1 = first_page_id h" "heap_tuple_count h1 = heap_tuple_count h + 1"
    "dm_page_count (ec_disk x1) \<le> Suc (dm_page_count (ec_disk x))"
    by (rule insert_tuple_one [OF Cons.prems(2) _ room _ _ Cons.prems(3), of "fst y" ti]) (use Cons.prems(4,5) in auto)
  have b: "bump n = return (n + 1)" using Cons.prems(7,8) by (simp add: bump_def int32_def)
  have "\<exists>s2 h' x' ids' rts. insert_rows ti (lift_next nxt) s1 h1 None x1 (n + 1) = return (n + 1 + int (length ys), s2, h', None, x') \<and> map snd rts = map fst ys \<and>
      heap_ok (ec_disk x') h' ids' \<and> inserted x1 ids1 rts x' ids' \<and> first_page_id h' = first_page_id h1"
    by (rule Cons.IH [OF s1(2) i(2) inserted_fresh [OF i(3) Cons.prems(3)]]) (use Cons.prems i(5,6) in auto)
  then obtain s2 h' x' ids' rts where k: "insert_rows ti (lift_next nxt) s1 h1 None x1 (n + 1) = return (n + 1 + int (length ys), s2, h', None, x')"
      "map snd rts = map fst ys" "heap_ok (ec_disk x') h' ids'" "inserted x1 ids1 rts x' ids'" "first_page_id h' = first_page_id h1"
    by blast
  have "insert_rows ti (lift_next nxt) s h None x n = return (n + int (length (y # ys)), s2, h', None, x')"
    using s1(1) i(1) b k(1) by (subst insert_rows.simps) (simp add: lift_next_def add.assoc)
  moreover have "map snd ((rid, fst y) # rts) = map fst (y # ys)" using k(2) by simp
  ultimately show ?case using k(3,5) i(4) inserted_Cons [OF i(3) k(4)] by metis
qed

end

subsection \<open>Properties\<close>

lemma inserted_visible:
  assumes "inserted c ids rts c' ids'" "p \<in> set rts"
  shows "visible_tuple c' (fst p) t = Some (snd p)"
    "txn_id y \<noteq> txn_id (ec_txn c) \<Longrightarrow> visible_tuple (c'\<lparr>ec_txn := y\<rparr>) (fst p) t = None"
    "visible_tuple (c'\<lparr>ec_mvcc := mvcc_commit (ec_mvcc c') (ec_txn c'), ec_txn := y\<rparr>) (fst p) t =
      (if txn_id (ec_txn c) \<le> begin_ts y \<and> begin_ts y < kTxnIdInfinity then Some (snd p) else None)"
    "visible_tuple (c'\<lparr>ec_mvcc := mvcc_abort (ec_mvcc c') (ec_txn c'), ec_txn := y\<rparr>) (fst p) t = Some t"
proof -
  have ch: "chain_of (ec_mvcc c') (fst p) = [mk_TupleVersion (txn_id (ec_txn c)) (snd p) False]" and x: "txn_id (ec_txn c') = txn_id (ec_txn c)"
    using assms by (simp_all add: inserted_def)
  show "visible_tuple c' (fst p) t = Some (snd p)" by (simp add: visible_chain ch x)
  show "txn_id y \<noteq> txn_id (ec_txn c) \<Longrightarrow> visible_tuple (c'\<lparr>ec_txn := y\<rparr>) (fst p) t = None"
    by (auto simp: visible_chain ch isVisibleTo_def)
  show "visible_tuple (c'\<lparr>ec_mvcc := mvcc_commit (ec_mvcc c') (ec_txn c'), ec_txn := y\<rparr>) (fst p) t =
      (if txn_id (ec_txn c) \<le> begin_ts y \<and> begin_ts y < kTxnIdInfinity then Some (snd p) else None)"
    by (simp add: visible_chain ch x commit_chain_def isVisibleTo_def snapshotOf_def)
  show "visible_tuple (c'\<lparr>ec_mvcc := mvcc_abort (ec_mvcc c') (ec_txn c'), ec_txn := y\<rparr>) (fst p) t = Some t"
    by (simp add: visible_chain ch x abort_chain_def)
qed

text \<open>
  C29. \<open>INSERT\<close> of the rows of a child into a table without an index, with enough room: every row is stored under a fresh record identifier, nothing
  else in the heap changes, each new record gets one uncommitted version and an exclusive lock of the transaction, and the log
  gets one record per row, in order; the statement returns the number of rows.  The transaction itself sees the rows, others do not; after commit
  exactly the transactions whose snapshot is not older see them.
\<close>

theorem insert_run:
  assumes "executor ini nxt iv pend (Rows xs None)" "iv (in_child e)" "heap_ok (ec_disk c) h ids" "ti_heap_root_page ti = first_page_id h"
    and "ti_index_root_page ti = kInvalidPageId" "fresh_records c ids" "\<forall>r\<in>set xs. fst r \<noteq> [] \<and> length (fst r) \<le> 4048"
    and "heap_tuple_count h + length xs < 2 ^ 64" "dm_page_count (ec_disk c) + length xs + 1 < 2 ^ 32" "length xs < 2 ^ 31"
  shows "\<exists>e1 e' c' h' ids' rts. insert_init ti (lift_init ini) (e, c) = return (e1, c) \<and>
    insert_next ti (lift_next nxt) (e1, c) = return (Some (count_row (int (length xs)), default_RID), (e', c')) \<and>
    map snd rts = map fst xs \<and> heap_ok (ec_disk c') h' ids' \<and> first_page_id h' = first_page_id h \<and> inserted c ids rts c' ids' \<and>
    (\<forall>p\<in>set rts. visible_tuple c' (fst p) (snd p) = Some (snd p) \<and>
      (\<forall>y. txn_id y \<noteq> txn_id (ec_txn c) \<longrightarrow> visible_tuple (c'\<lparr>ec_txn := y\<rparr>) (fst p) (snd p) = None) \<and>
      (\<forall>y. visible_tuple (c'\<lparr>ec_mvcc := mvcc_commit (ec_mvcc c') (ec_txn c'), ec_txn := y\<rparr>) (fst p) (snd p) =
        (if txn_id (ec_txn c) \<le> begin_ts y \<and> begin_ts y < kTxnIdInfinity then Some (snd p) else None)))"
proof -
  obtain s1 where s1: "ini (in_child e) = return s1" "pend s1 xs None" using executor.init_rows [OF assms(1,2) refl] by blast
  let ?e1 = "\<lparr>in_child = s1, in_heap = Some h, in_tree = None, in_done = False\<rparr>"
  have "insert_init ti (lift_init ini) (e, c) = return (?e1, c)"
    using s1(1) heap_open_spec [OF assms(3)] assms(4,5) by (simp add: insert_init_def lift_init_def open_index_def)
  moreover obtain s2 h' c' ids' rts where k: "insert_rows ti (lift_next nxt) s1 h None c 0 = return (int (length xs), s2, h', None, c')"
      "map snd rts = map fst xs" "heap_ok (ec_disk c') h' ids'" "inserted c ids rts c' ids'" "first_page_id h' = first_page_id h"
    using executor.insert_rows_run [OF assms(1) s1(2) assms(3,6-9), of 0 ti] assms(10) by auto
  moreover have "insert_next ti (lift_next nxt) (?e1, c) = return (Some (count_row (int (length xs)), default_RID),
      (\<lparr>in_child = s2, in_heap = Some h', in_tree = None, in_done = True\<rparr>, c'))"
    using k(1) by (simp add: insert_next_def)
  ultimately show ?thesis using inserted_visible [OF k(4)] by blast
qed

lemma create_count: "dm_page_count (snd (TableHeap_create d)) \<le> Suc (dm_page_count d)"
  by (auto simp: TableHeap_create_def Let_def dest!: alloc_count write_count split: prod.splits)

theorem insert_run_witness:
  "\<exists>ti e1 e' c' ids' rts. insert_next ti (lift_next values_next) (e1, fresh_context fresh_heap_db) = return (Some (count_row 2, default_RID), (e', c')) \<and>
    map snd rts = [row_bytes [VInt 1], row_bytes [VInt 2]] \<and> inserted (fresh_context fresh_heap_db) [fresh_heap_id] rts c' ids'"
proof -
  let ?c = "fresh_context fresh_heap_db" and ?ti = "default_TableInfo\<lparr>ti_heap_root_page := first_page_id fresh_heap\<rparr>"
  have room: "dm_page_count fresh_heap_db + 2 + 1 < 2 ^ 32" using create_count [of fresh_db] fresh_db_ok(2) by (simp add: fresh_heap_db_def)
  have fr: "fresh_records ?c [fresh_heap_id]"
    by (simp add: fresh_records_def chain_of_def lockable_def queue_of_def mk_Transaction_def mk_LockRequestQueue_def)
  have len: "\<forall>r\<in>set [int_row 1, int_row 2]. fst r \<noteq> [] \<and> length (fst r) \<le> 4048" by code_simp
  let ?e = "\<lparr>in_child = sample_exec, in_heap = None, in_tree = None, in_done = False\<rparr>"
  have prem: "values_inv sample_values int_schema (in_child ?e)" "heap_ok (ec_disk ?c) fresh_heap [fresh_heap_id]"
      "ti_heap_root_page ?ti = first_page_id fresh_heap" "ti_index_root_page ?ti = kInvalidPageId"
      "heap_tuple_count fresh_heap + length [int_row 1, int_row 2] < 2 ^ 64" "dm_page_count (ec_disk ?c) + length [int_row 1, int_row 2] + 1 < 2 ^ 32"
      "length [int_row 1, int_row 2] < 2 ^ 31"
    using sample_executor(2) fresh_heap_ok room by (simp_all add: default_TableInfo_def)
  obtain e1 e' c' ids' rts where "insert_next ?ti (lift_next values_next) (e1, ?c) = return (Some (count_row (int (length [int_row 1, int_row 2])), default_RID), (e', c'))"
      "map snd rts = map fst [int_row 1, int_row 2]" "inserted ?c [fresh_heap_id] rts c' ids'"
    using insert_run [OF sample_executor(1) prem(1-4) fr len prem(5-7)] by blast
  then have "insert_next ?ti (lift_next values_next) (e1, ?c) = return (Some (count_row 2, default_RID), (e', c'))"
      "map snd rts = [row_bytes [VInt 1], row_bytes [VInt 2]]" "inserted ?c [fresh_heap_id] rts c' ids'"
    by (simp_all add: int_row_def)
  then show ?thesis by (intro exI conjI)
qed

text \<open>
  \<open>DELETE\<close> over a sequential scan of a table without an index whose rows can be locked: the statement deletes each row the scan
  returns whose newest version is not deleted and is committed or the transaction's own, returns their number, and logs them in scan order.
  The transaction no longer sees the deleted rows; every other record, and the heap, are unchanged.
\<close>

theorem delete_run:
  assumes "heap_ok (ec_disk c) h ids" "ti_heap_root_page ti = first_page_id h" "ti_index_root_page ti = kInvalidPageId"
    and "trans_rows (scan_row c p (ti_schema ti)) (stored_rows (heap_records (dm_pages (ec_disk c)) ids)) None = (ys, None)"
    and "\<forall>y\<in>set ys. lockable c (snd y)" "length ys < 2 ^ 31"
  shows "\<exists>e1 e' c'. modify_init ti (seq_scan_init ti) (e, c) = return (e1, c) \<and>
    delete_next ti (seq_scan_next ti p size_t_max 0) (e1, c) = return (Some (count_row (int (length (filter (write_target c) ys))), default_RID), (e', c')) \<and>
    changed (\<lambda>_. []) True delete_record (filter (write_target c) ys) c c' \<and>
    (\<forall>r t. visible_tuple c' r t = (if r \<in> snd ` set (filter (write_target c) ys) then None else visible_tuple c r t))"
proof -
  obtain e1 e' c' where "modify_init ti (seq_scan_init ti) (e, c) = return (e1, c)"
      "delete_next ti (seq_scan_next ti p size_t_max 0) (e1, c) = return (Some (count_row (int (length (filter (write_target c) ys))), default_RID), (e', c'))"
      and ch: "changed (\<lambda>_. []) True delete_record (filter (write_target c) ys) c c'"
    using modify_scan [OF assms, of "delete_tuple ti" "\<lambda>_. []" True delete_record e] delete_no_index unfolding delete_next_def by blast
  moreover have "visible_tuple c' r t = (if r \<in> snd ` set (filter (write_target c) ys) then None else visible_tuple c r t)" for r t
    using visible_changed [OF ch] by auto
  ultimately show ?thesis by blast
qed

definition own_row_context :: "DiskManager \<Rightarrow> RID \<Rightarrow> ExecutorContext" where
  "own_row_context d rid = (fresh_context d)\<lparr>ec_mvcc := [rid \<mapsto> [mk_TupleVersion 1 [7] False]]\<rparr>"

lemma own_row_simps [simp]: "ec_disk (own_row_context d rid) = d" "chain_of (ec_mvcc (own_row_context d rid)) rid = [mk_TupleVersion 1 [7] False]"
    "ec_txn (own_row_context d rid) = mk_Transaction 1" "lockable (own_row_context d rid) r" "write_target (own_row_context d rid) (t, rid)"
  by (simp_all add: own_row_context_def fresh_context_def ec_disk_def mk_BufferPoolManager_def chain_of_def lockable_def queue_of_def mk_Transaction_def
      mk_LockRequestQueue_def write_target_def writable_def mk_TupleVersion_def)

lemma own_row_scan: "trans_rows (scan_row (own_row_context d rid) None sch) (stored_rows [(rid, t)]) None = ([([7], rid)], None)"
  by (simp add: scan_row_def visible_chain passes_opt_def)

theorem delete_run_witness:
  "\<exists>d rid ti e1 e' c'. delete_next ti (seq_scan_next ti None size_t_max 0) (e1, own_row_context d rid) = return (Some (count_row 1, default_RID), (e', c')) \<and>
    visible_tuple (own_row_context d rid) rid [1, 2, 3] = Some [7] \<and> visible_tuple c' rid [1, 2, 3] = None"
proof -
  obtain rid h d ids where h: "heap_ok d h ids" "heap_records (dm_pages d) ids = [(rid, [1, 2, 3])]" using single_record by blast
  let ?c = "own_row_context d rid" and ?ti = "default_TableInfo\<lparr>ti_heap_root_page := first_page_id h\<rparr>"
  obtain e1 e' c' where "delete_next ?ti (seq_scan_next ?ti None size_t_max 0) (e1, ?c) = return (Some (count_row 1, default_RID), (e', c'))"
      "visible_tuple c' rid [1, 2, 3] = None"
    using delete_run [of ?c h ids ?ti None "[([7], rid)]" "\<lparr>mo_child = \<lparr>ss_heap = None, ss_iter = None, ss_emitted = 0, ss_skipped = 0\<rparr>, mo_tree = None, mo_done = False\<rparr>"]
      h own_row_scan [of d rid "[]"] by (auto simp: default_TableInfo_def)
  moreover have "visible_tuple ?c rid [1, 2, 3] = Some [7]" by (simp add: visible_chain)
  ultimately show ?thesis by (intro exI conjI)
qed

text \<open>
  C30. \<open>UPDATE\<close> over a sequential scan of a table without an index whose rows can be locked and whose target expressions evaluate: every row
  the scan returns that the transaction may write gets the new tuple as its newest version, the statement returns their number and
  logs the old and new tuples in scan order; the transaction sees the new tuples, and every other record, and the heap, are unchanged.
\<close>

theorem update_run:
  assumes "heap_ok (ec_disk c) h ids" "ti_heap_root_page ti = first_page_id h" "ti_index_root_page ti = kInvalidPageId"
    and "trans_rows (scan_row c p (ti_schema ti)) (stored_rows (heap_records (dm_pages (ec_disk c)) ids)) None = (ys, None)"
    and "\<forall>y\<in>set ys. lockable c (snd y)" "length ys < 2 ^ 31"
    and targets: "\<forall>y\<in>set ys. try_bind (eval_all targets (fst y) (ti_schema ti)) (build_row (ti_schema ti)) = Inr (payload y)"
  shows "\<exists>e1 e' c'. modify_init ti (seq_scan_init ti) (e, c) = return (e1, c) \<and>
    update_next ti targets (seq_scan_next ti p size_t_max 0) (e1, c) = return (Some (count_row (int (length (filter (write_target c) ys))), default_RID), (e', c')) \<and>
    changed payload False (update_record payload) (filter (write_target c) ys) c c' \<and>
    (\<forall>y\<in>set ys. write_target c y \<longrightarrow> (\<forall>t. visible_tuple c' (snd y) t = Some (payload y))) \<and>
    (\<forall>r t. r \<notin> snd ` set (filter (write_target c) ys) \<longrightarrow> visible_tuple c' r t = visible_tuple c r t)"
proof -
  have u: "update_tuple ti targets y None c = change_step payload False (update_record payload) y c" if "y \<in> set ys" for y c
    using update_no_index targets that by blast
  obtain e1 e' c' where "modify_init ti (seq_scan_init ti) (e, c) = return (e1, c)"
      "update_next ti targets (seq_scan_next ti p size_t_max 0) (e1, c) = return (Some (count_row (int (length (filter (write_target c) ys))), default_RID), (e', c'))"
      and ch: "changed payload False (update_record payload) (filter (write_target c) ys) c c'"
    using modify_scan [OF assms(1-6), of "update_tuple ti targets" payload False "update_record payload" e] u unfolding update_next_def by blast
  moreover have "visible_tuple c' (snd y) t = Some (payload y)" if "y \<in> set ys" "write_target c y" for y t
    using visible_changed(1) [OF ch, of y t] that by simp
  moreover have "visible_tuple c' r t = visible_tuple c r t" if "r \<notin> snd ` set (filter (write_target c) ys)" for r t
    using visible_changed(2) [OF ch _ that] by simp
  ultimately show ?thesis by blast
qed

theorem update_run_witness:
  "\<exists>d rid ti e1 e' c'. update_next ti [EConst (VInt 5)] (seq_scan_next ti None size_t_max 0) (e1, own_row_context d rid) =
      return (Some (count_row 1, default_RID), (e', c')) \<and> visible_tuple c' rid [1, 2, 3] = Some (row_bytes [VInt 5])"
proof -
  obtain rid h d ids where h: "heap_ok d h ids" "heap_records (dm_pages d) ids = [(rid, [1, 2, 3])]" using single_record by blast
  let ?c = "own_row_context d rid" and ?ti = "default_TableInfo\<lparr>ti_heap_root_page := first_page_id h, ti_schema := int_schema\<rparr>"
  have t: "try_bind (eval_all [EConst (VInt 5)] [7] int_schema) (build_row int_schema) = Inr (row_bytes [VInt 5])" by code_simp
  obtain e1 e' c' where "update_next ?ti [EConst (VInt 5)] (seq_scan_next ?ti None size_t_max 0) (e1, ?c) = return (Some (count_row 1, default_RID), (e', c'))"
      "visible_tuple c' rid [1, 2, 3] = Some (row_bytes [VInt 5])"
    using update_run [of ?c h ids ?ti None "[([7], rid)]" "[EConst (VInt 5)]" "\<lambda>_. row_bytes [VInt 5]"
        "\<lparr>mo_child = \<lparr>ss_heap = None, ss_iter = None, ss_emitted = 0, ss_skipped = 0\<rparr>, mo_tree = None, mo_done = False\<rparr>"]
      h own_row_scan [of d rid int_schema] t by (auto simp: default_TableInfo_def)
  then show ?thesis by (intro exI conjI)
qed

subsection \<open>Locks and versions left behind\<close>

lemma change_step_blocked: "lock_taken c (snd y) \<Longrightarrow> change_step payload deleted rec y c = None"
  by (simp add: change_step_def lock_row_blocked)

lemma change_step_taken:
  assumes "lockable c (snd y)" "change_step payload deleted rec y c = return (ok, tree', c')" "r \<noteq> snd y"
  shows "lock_taken c r \<Longrightarrow> lock_taken c' r" "lockable c r \<Longrightarrow> lockable c' r"
proof -
  obtain c1 where c1: "lock_row (snd y) c = return c1" "locked_from (snd y) c c1" using lock_row_free [OF assms(1)] by blast
  then have "ec_txn c' = ec_txn c1" "ec_locks c' = ec_locks c1"
    using assms(2) by (auto simp: change_step_def Let_def log_row_def split: if_splits)
  then show "lock_taken c r \<Longrightarrow> lock_taken c' r" "lockable c r \<Longrightarrow> lockable c' r"
    using c1(2) assms(3) by (auto simp: locked_from_def lock_taken_def lockable_def)
qed

lemma run_rows_blocked:
  assumes f: "\<And>y c. f y None c = change_step payload deleted rec y c"
  shows "distinct (map snd ys) \<Longrightarrow> \<forall>y\<in>set ys. lockable c (snd y) \<or> lock_taken c (snd y) \<Longrightarrow> \<exists>y\<in>set ys. lock_taken c (snd y) \<Longrightarrow>
    0 \<le> n \<Longrightarrow> n + int (length ys) < 2 ^ 31 \<Longrightarrow> run_rows f ys None c n = None"
proof (induction ys arbitrary: c n)
  case (Cons y ys)
  show ?case
  proof (cases "lock_taken c (snd y)")
    case True
    then show ?thesis by (simp add: f change_step_blocked)
  next
    case False
    then have lk: "lockable c (snd y)" using Cons.prems(2) by simp
    obtain c1 where c1: "change_step payload deleted rec y c = return (writable (txn_id (ec_txn c)) (chain_of (ec_mvcc c) (snd y)), None, c1)"
      using change_step_spec [OF lk] by metis
    let ?n = "if writable (txn_id (ec_txn c)) (chain_of (ec_mvcc c) (snd y)) then n + 1 else n"
    have ne: "snd z \<noteq> snd y" if "z \<in> set ys" for z using Cons.prems(1) that by (metis distinct.simps(2) image_eqI list.map(2) set_map)
    note t = change_step_taken [OF lk c1]
    have "run_rows f ys None c1 ?n = None"
    proof (rule Cons.IH)
      show "\<forall>z\<in>set ys. lockable c1 (snd z) \<or> lock_taken c1 (snd z)"
      proof
        fix z
        assume z: "z \<in> set ys"
        show "lockable c1 (snd z) \<or> lock_taken c1 (snd z)" using t [OF ne [OF z]] Cons.prems(2) z by auto
      qed
      obtain z where z: "z \<in> set ys" "lock_taken c (snd z)" using Cons.prems(3) False by auto
      show "\<exists>z\<in>set ys. lock_taken c1 (snd z)" using t(1) [OF ne [OF z(1)] z(2)] z(1) by blast
    qed (use Cons.prems in auto)
    moreover have "(if writable (txn_id (ec_txn c)) (chain_of (ec_mvcc c) (snd y)) then bump n else return n) = return ?n"
      using Cons.prems(4,5) by (simp add: bump_def int32_def)
    ultimately show ?thesis by (simp add: f c1)
  qed
qed simp

lemma inserted_taken:
  assumes "inserted c ids rts c' ids'" "p \<in> set rts" "fst p \<notin> exclusive_lock_set (ec_txn c)"
    and "txn_id x \<noteq> txn_id (ec_txn c)" "txn_state x \<noteq> ABORTED" "exclusive_lock_set x = {}" "shared_lock_set x = {}"
  shows "lock_taken (c'\<lparr>ec_mvcc := m, ec_txn := x\<rparr>) (fst p)"
proof -
  obtain q where "q \<in> set (request_queue (queue_of (ec_locks c') (fst p)))" "req_txn q = txn_id (ec_txn c)" "granted q"
    using assms(1-3) by (auto simp: inserted_def)
  then show ?thesis using assms(4-7) by (auto simp: lock_taken_def intro!: bexI [of _ q])
qed

text \<open>
  C31. No statement releases its locks: neither commit nor abort calls \<^verbatim>\<open>LockManager::releaseAll\<close>.  After an \<open>INSERT\<close> by a transaction
  that held no locks and its commit, a \<open>DELETE\<close> by another transaction whose scan returns one of the inserted rows never returns.  The
  table has no index.
\<close>

theorem delete_waits_for_committed_insert:
  assumes ins: "inserted c ids rts c' ids'" and "exclusive_lock_set (ec_txn c) = {}"
    and x: "txn_id x \<noteq> txn_id (ec_txn c)" "txn_state x \<noteq> ABORTED" "exclusive_lock_set x = {}" "shared_lock_set x = {}"
    and c2: "c2 = c'\<lparr>ec_mvcc := mvcc_commit (ec_mvcc c') (ec_txn c'), ec_txn := x\<rparr>"
    and "heap_ok (ec_disk c') h ids'" "ti_heap_root_page ti = first_page_id h" "ti_index_root_page ti = kInvalidPageId"
    and rows: "trans_rows (scan_row c2 p (ti_schema ti)) (stored_rows (heap_records (dm_pages (ec_disk c')) ids')) None = (ys, None)"
    and "length ys < 2 ^ 31" "\<forall>y\<in>set ys. lockable c2 (snd y) \<or> lock_taken c2 (snd y)" "y \<in> set ys" "snd y \<in> fst ` set rts"
  shows "\<exists>e1. modify_init ti (seq_scan_init ti) (e, c2) = return (e1, c2) \<and> delete_next ti (seq_scan_next ti p size_t_max 0) (e1, c2) = None"
proof -
  have d: "ec_disk c2 = ec_disk c'" using c2 by (simp add: ec_disk_def)
  obtain s1 where s1: "seq_scan_init ti (mo_child e, c2) = return (s1, c2)" "scan_source ti p s1 c2 ys"
    using scan_source_init [of c2 h ids' ti p ys "mo_child e"] assms d by auto
  let ?e1 = "\<lparr>mo_child = s1, mo_tree = None, mo_done = False\<rparr>"
  have dist: "distinct (map snd ys)"
    using scan_rows_distinct [OF rows] heap_records_set [of "dm_pages (ec_disk c')" "first_page_id h" ids'] assms(8) by (simp add: heap_ok_def)
  obtain q where q: "q \<in> set rts" "fst q = snd y" using assms(15) by auto
  have "lock_taken c2 (snd y)" using inserted_taken [OF ins q(1) _ x, of "mvcc_commit (ec_mvcc c') (ec_txn c')"] assms(2) q(2) c2 by simp
  then have stuck: "run_rows (delete_tuple ti) ys None c2 0 = None"
    using run_rows_blocked [of "delete_tuple ti" "\<lambda>_. []" True delete_record ys c2 0] delete_no_index dist assms(12-14) by auto
  have "tree' = None \<and> agree_except (snd y) c c'" if "delete_tuple ti y None c = return (ok, tree', c')" for y c ok tree' c'
    using change_step_local that delete_no_index by metis
  then have "modify_rows (delete_tuple ti) (seq_scan_next ti p size_t_max 0) s1 None c2 0 = None"
    using scan_rows.modify_rows_stuck [of "set ys" "delete_tuple ti" None, OF _ order_refl s1(2) stuck] by blast
  then have "delete_next ti (seq_scan_next ti p size_t_max 0) (?e1, c2) = None" by (simp add: delete_next_def modify_next_def)
  moreover have "modify_init ti (seq_scan_init ti) (e, c2) = return (?e1, c2)"
    using s1(1) assms(10) by (simp add: modify_init_def open_index_def)
  ultimately show ?thesis by blast
qed

lemma one_lookup_records:
  assumes "heap_ok d h ids" "heap_lookup (dm_pages d) ids = [rid \<mapsto> t]"
  shows "heap_records (dm_pages d) ids = [(rid, t)]"
proof -
  let ?rs = "heap_records (dm_pages d) ids"
  have rs: "distinct (map fst ?rs)" "set ?rs = {(rid, t)}"
    using heap_records_set [of "dm_pages d" "first_page_id h" ids] assms by (auto simp: heap_ok_def split: if_splits)
  then have "length ?rs = 1" using distinct_card [of ?rs] by (simp add: distinct_map)
  with rs(2) show ?thesis by (cases ?rs) auto
qed

lemma one_inserted:
  obtains rid h c' ids' where "inserted (fresh_context fresh_heap_db) [fresh_heap_id] [(rid, [1, 2, 3])] c' ids'" "heap_ok (ec_disk c') h ids'"
    "heap_records (dm_pages (ec_disk c')) ids' = [(rid, [1, 2, 3])]"
proof -
  let ?c = "fresh_context fresh_heap_db"
  have fr: "fresh_records ?c [fresh_heap_id]"
    by (simp add: fresh_records_def chain_of_def lockable_def queue_of_def mk_Transaction_def mk_LockRequestQueue_def)
  have a: "heap_ok (ec_disk ?c) fresh_heap [fresh_heap_id]" "heap_tuple_count fresh_heap + 1 < 2 ^ 64" "dm_room (ec_disk ?c)"
    using fresh_heap_ok by simp_all
  obtain rid h' c' ids' where i: "heap_ok (ec_disk c') h' ids'" "inserted ?c [fresh_heap_id] [(rid, [1, 2, 3])] c' ids'"
    by (rule insert_tuple_one [OF a _ _ fr, of "[1, 2, 3]"]) simp_all
  then have "heap_lookup (dm_pages (ec_disk c')) ids' = [rid \<mapsto> [1, 2, 3]]" using fresh_heap_ok(3) by (simp add: inserted_def)
  with one_lookup_records [OF i(1)] i that show thesis by blast
qed

theorem delete_waits_for_committed_insert_witness:
  "\<exists>c2 ti e1. delete_next ti (seq_scan_next ti None size_t_max 0) (e1, c2) = None"
proof -
  obtain rid h c' ids' where i: "inserted (fresh_context fresh_heap_db) [fresh_heap_id] [(rid, [1, 2, 3])] c' ids'" "heap_ok (ec_disk c') h ids'"
    "heap_records (dm_pages (ec_disk c')) ids' = [(rid, [1, 2, 3])]" by (rule one_inserted)
  let ?x = "(mk_Transaction 2)\<lparr>begin_ts := 2\<rparr>" and ?ti = "default_TableInfo\<lparr>ti_heap_root_page := first_page_id h\<rparr>"
  let ?c2 = "c'\<lparr>ec_mvcc := mvcc_commit (ec_mvcc c') (ec_txn c'), ec_txn := ?x\<rparr>"
  have tk: "lock_taken ?c2 rid" using inserted_taken [OF i(1), of "(rid, [1, 2, 3])" ?x] by (simp add: mk_Transaction_def)
  have "visible_tuple ?c2 rid [1, 2, 3] = Some [1, 2, 3]" using inserted_visible(3) [OF i(1), of "(rid, [1, 2, 3])" ?x "[1, 2, 3]"]
    by (simp add: mk_Transaction_def kTxnIdInfinity_def)
  then have rows: "trans_rows (scan_row ?c2 None []) (stored_rows [(rid, [1, 2, 3])]) None = ([([1, 2, 3], rid)], None)"
    by (simp add: scan_row_def passes_opt_def)
  have "\<exists>e1. modify_init ?ti (seq_scan_init ?ti) (e, ?c2) = return (e1, ?c2) \<and> delete_next ?ti (seq_scan_next ?ti None size_t_max 0) (e1, ?c2) = None" for e
    using delete_waits_for_committed_insert [OF i(1), of ?x ?c2 h ?ti None "[([1, 2, 3], rid)]" "([1, 2, 3], rid)" e] i(2,3) rows tk
    by (simp add: mk_Transaction_def default_TableInfo_def)
  then show ?thesis by blast
qed

text \<open>
  A row whose insertion was rolled back is visible to every later scan: abort empties its version chain, and a record without a chain is taken
  to be committed.
\<close>

theorem aborted_insert_visible:
  assumes "inserted c ids rts c' ids'" "(rid, t) \<in> set rts"
  shows "visible_tuple (c'\<lparr>ec_mvcc := mvcc_abort (ec_mvcc c') (ec_txn c'), ec_txn := x\<rparr>) rid t = Some t"
  using inserted_visible(4) [OF assms, of x t] by simp

theorem aborted_insert_visible_witness:
  "\<exists>rid c'. visible_tuple (c'\<lparr>ec_mvcc := mvcc_abort (ec_mvcc c') (ec_txn c'), ec_txn := mk_Transaction 2\<rparr>) rid [1, 2, 3] = Some [1, 2, 3]"
proof -
  obtain rid h c' ids' where i: "inserted (fresh_context fresh_heap_db) [fresh_heap_id] [(rid, [1, 2, 3])] c' ids'" by (rule one_inserted)
  show ?thesis using aborted_insert_visible [OF i, of rid "[1, 2, 3]" "mk_Transaction 2"] by auto
qed

end
