(* ===== verification/Plans.thy ===== *)
theory Plans
  imports Modification Sorting HashJoin Aggregation Catalog
begin

text \<open>
  Plans: the logical and physical plan nodes (\<^verbatim>\<open>include/planner/*_plan.hpp\<close>), the physical
  planner (\<^verbatim>\<open>src/planner/physical_planner.cpp\<close>) and the executor factory
  (\<^verbatim>\<open>src/planner/executor_factory.cpp\<close>).

  A node and its subclass are one constructor, with the output schema first and the children last; the vector of
  children has the length the planner gives it.  A null \<open>unique_ptr<Expression>\<close> is \<open>ENullPtr\<close>.  An executor object is split
  into what the factory builds (\<open>Executor\<close>) and the part that changes while it runs (\<open>ExecState\<close>); its operations are
  those of the executors' own theories, on that part and the shared context.  Timing statistics are not modelled.
\<close>

subsection \<open>Plan nodes\<close>

type_synonym name = "byte list"

datatype LogicalPlanNode =
    LSeqScan Schema name name Expression Expression Expression
  | LFilter Schema Expression LogicalPlanNode
  | LProjection Schema "Expression list" LogicalPlanNode
  | LSort Schema "(Expression \<times> bool) list" LogicalPlanNode
  | LOrderBy Schema "(Expression \<times> bool) list" LogicalPlanNode
  | LLimit Schema Expression Expression LogicalPlanNode
  | LValues Schema "Expression list list"
  | LInsert Schema name LogicalPlanNode
  | LUpdate Schema name "(name \<times> Expression) list" LogicalPlanNode
  | LDelete Schema name LogicalPlanNode
  | LIndexScan Schema name name Expression Expression Expression
  | LNestedLoopJoin Schema Expression LogicalPlanNode LogicalPlanNode
  | LHashJoin Schema Expression Expression LogicalPlanNode LogicalPlanNode
  | LAggregation Schema "Expression list" "Expression list" "AggregateType list" LogicalPlanNode
  | LHaving Schema Expression LogicalPlanNode
  | LTopK Schema "(Expression \<times> bool) list" Expression Expression LogicalPlanNode

fun getOutputSchema :: "LogicalPlanNode \<Rightarrow> Schema" where
  "getOutputSchema (LSeqScan sch _ _ _ _ _) = sch"
| "getOutputSchema (LFilter sch _ _) = sch"
| "getOutputSchema (LProjection sch _ _) = sch"
| "getOutputSchema (LSort sch _ _) = sch"
| "getOutputSchema (LOrderBy sch _ _) = sch"
| "getOutputSchema (LLimit sch _ _ _) = sch"
| "getOutputSchema (LValues sch _) = sch"
| "getOutputSchema (LInsert sch _ _) = sch"
| "getOutputSchema (LUpdate sch _ _ _) = sch"
| "getOutputSchema (LDelete sch _ _) = sch"
| "getOutputSchema (LIndexScan sch _ _ _ _ _) = sch"
| "getOutputSchema (LNestedLoopJoin sch _ _ _) = sch"
| "getOutputSchema (LHashJoin sch _ _ _ _) = sch"
| "getOutputSchema (LAggregation sch _ _ _ _) = sch"
| "getOutputSchema (LHaving sch _ _) = sch"
| "getOutputSchema (LTopK sch _ _ _ _) = sch"

datatype PhysicalPlan =
    PSeqScan Schema name name Expression nat nat
  | PFilter Schema Expression PhysicalPlan
  | PProjection Schema "Expression list" PhysicalPlan
  | PSort Schema order_bys PhysicalPlan
  | POrderBy Schema order_bys PhysicalPlan
  | PLimit Schema nat nat PhysicalPlan
  | PValues Schema "Expression list list"
  | PInsert Schema name PhysicalPlan
  | PUpdate Schema name "Expression list" PhysicalPlan
  | PDelete Schema name PhysicalPlan
  | PIndexScan Schema name name Expression nat nat
  | PNestedLoopJoin Schema Expression PhysicalPlan PhysicalPlan
  | PHashJoin Schema Expression Expression PhysicalPlan PhysicalPlan
  | PAggregation Schema "Expression list" "Expression list" "AggregateType list" PhysicalPlan
  | PHaving Schema Expression PhysicalPlan
  | PTopK Schema order_bys nat nat PhysicalPlan

subsection \<open>The physical planner\<close>

text \<open>\<open>clone\<close> calls itself on the children without testing them.\<close>

fun clone :: "Expression \<Rightarrow> exn + Expression" where
  "clone ENullPtr = Inl UndefinedBehaviour"
| "clone (EArith op a b) = try_bind (clone a) (\<lambda>a'. try_bind (clone b) (\<lambda>b'. Inr (EArith op a' b')))"
| "clone (EComp op a b) = try_bind (clone a) (\<lambda>a'. try_bind (clone b) (\<lambda>b'. Inr (EComp op a' b')))"
| "clone (ELogic op a b) = try_bind (clone a) (\<lambda>a'. try_bind (clone b) (\<lambda>b'. Inr (ELogic op a' b')))"
| "clone (ENot a) = try_bind (clone a) (\<lambda>a'. Inr (ENot a'))"
| "clone e = Inr e"

text \<open>\<open>limit = val.getAsInteger()\<close> converts an \<open>int32_t\<close> to \<open>size_t\<close>.\<close>

definition limit_value :: "Expression \<Rightarrow> nat \<Rightarrow> exn + nat" where
  "limit_value e absent = (if e = ENullPtr then Inr absent
     else try_bind (try_bind (evaluate e [] []) getAsInteger) (\<lambda>i. Inr (nat (i mod 2 ^ 64))))"

fun order_keys :: "(Expression \<times> bool) list \<Rightarrow> exn + order_bys" where
  "order_keys [] = Inr []"
| "order_keys ((e, asc) # obs) = try_bind (clone e) (\<lambda>e'. try_bind (order_keys obs) (\<lambda>obs'. Inr ((if asc then ASC else DESC, e') # obs')))"

text \<open>The first clause for a column is moved out of the list, which leaves a null pointer.\<close>

fun take_clause :: "name \<Rightarrow> (name \<times> Expression) list \<Rightarrow> (Expression \<times> (name \<times> Expression) list) option" where
  "take_clause nm [] = None"
| "take_clause nm ((n, e) # cls) = (if n = nm then Some (e, (n, ENullPtr) # cls)
     else map_option (\<lambda>(x, cls'). (x, (n, e) # cls')) (take_clause nm cls))"

fun update_targets :: "nat \<Rightarrow> Schema \<Rightarrow> (name \<times> Expression) list \<Rightarrow> Expression list" where
  "update_targets i [] cls = []"
| "update_targets i (c # cs) cls = (case take_clause (col_name c) cls of
     None \<Rightarrow> EColumn i None # update_targets (i + 1) cs cls
   | Some (e, cls') \<Rightarrow> e # update_targets (i + 1) cs cls')"

definition text_of :: "name \<Rightarrow> string" where
  "text_of bs = map (\<lambda>b. char_of (unat b)) bs"

definition table_of_name :: "CatalogManager \<Rightarrow> name \<Rightarrow> exn + TableInfo" where
  "table_of_name cat nm = (case getTable cat nm of (_, Some ti) \<Rightarrow> Inr ti | (_, None) \<Rightarrow> Inl (RuntimeError (''Table not found: '' @ text_of nm)))"

fun planNode :: "CatalogManager \<Rightarrow> LogicalPlanNode \<Rightarrow> exn + PhysicalPlan" where
  "planNode cat (LSeqScan sch nm al p lim off) = try_bind (limit_value lim size_t_max) (\<lambda>l. try_bind (limit_value off 0) (\<lambda>m.
     Inr (PSeqScan sch nm al p l m)))"
| "planNode cat (LFilter sch p c) = try_bind (planNode cat c) (\<lambda>c'. Inr (PFilter sch p c'))"
| "planNode cat (LProjection sch es c) = try_bind (planNode cat c) (\<lambda>c'. Inr (PProjection sch es c'))"
| "planNode cat (LSort sch obs c) = try_bind (order_keys obs) (\<lambda>ks. try_bind (planNode cat c) (\<lambda>c'. Inr (PSort sch ks c')))"
| "planNode cat (LOrderBy sch obs c) = try_bind (order_keys obs) (\<lambda>ks. try_bind (planNode cat c) (\<lambda>c'. Inr (POrderBy sch ks c')))"
| "planNode cat (LLimit sch lim off c) = try_bind (limit_value lim 0) (\<lambda>l. try_bind (limit_value off 0) (\<lambda>m.
     try_bind (planNode cat c) (\<lambda>c'. Inr (PLimit sch l m c'))))"
| "planNode cat (LValues sch vs) = Inr (PValues sch vs)"
| "planNode cat (LInsert sch nm c) = try_bind (planNode cat c) (\<lambda>c'. Inr (PInsert sch nm c'))"
| "planNode cat (LUpdate sch nm cls c) = try_bind (table_of_name cat nm) (\<lambda>ti.
     try_bind (planNode cat c) (\<lambda>c'. Inr (PUpdate sch nm (update_targets 0 (ti_schema ti) cls) c')))"
| "planNode cat (LDelete sch nm c) = try_bind (planNode cat c) (\<lambda>c'. Inr (PDelete sch nm c'))"
| "planNode cat (LIndexScan sch nm al p lim off) = try_bind (limit_value lim size_t_max) (\<lambda>l. try_bind (limit_value off 0) (\<lambda>m.
     Inr (PIndexScan sch nm al p l m)))"
| "planNode cat (LNestedLoopJoin sch p l r) = try_bind (planNode cat l) (\<lambda>l'. try_bind (planNode cat r) (\<lambda>r'. Inr (PNestedLoopJoin sch p l' r')))"
| "planNode cat (LHashJoin sch lk rk l r) = try_bind (planNode cat l) (\<lambda>l'. try_bind (planNode cat r) (\<lambda>r'. Inr (PHashJoin sch lk rk l' r')))"
| "planNode cat (LAggregation sch gbs aggs tys c) = try_bind (planNode cat c) (\<lambda>c'. Inr (PAggregation sch gbs aggs tys c'))"
| "planNode cat (LHaving sch p c) = try_bind (planNode cat c) (\<lambda>c'. Inr (PHaving sch p c'))"
| "planNode cat (LTopK sch obs lim off c) = try_bind (limit_value lim 0) (\<lambda>l. try_bind (limit_value off 0) (\<lambda>m.
     try_bind (order_keys obs) (\<lambda>ks. try_bind (planNode cat c) (\<lambda>c'. Inr (PTopK sch ks l m c')))))"

subsection \<open>The executor factory\<close>

datatype Executor =
    XSeqScan TableInfo "Expression option" nat nat
  | XIndexScan TableInfo "Expression option" nat nat
  | XFilter Expression Executor
  | XProjection "Expression list" Schema Executor
  | XSort order_bys Executor
  | XOrderBy order_bys Executor
  | XLimit nat nat Executor
  | XValues "Expression list list" Schema
  | XInsert TableInfo Executor
  | XUpdate TableInfo "Expression list" Executor
  | XDelete TableInfo Executor
  | XNestedLoopJoin "Expression option" Executor Executor
  | XHashJoin Expression Expression Executor Executor
  | XAggregation "Expression list" "Expression list" "AggregateType list" Schema Executor
  | XHaving Executor
  | XTopK order_bys nat nat Executor

definition clone_ptr :: "Expression \<Rightarrow> exn + Expression" where
  "clone_ptr e = (if e = ENullPtr then Inr ENullPtr else clone e)"

fun clone_all :: "(Expression \<Rightarrow> exn + Expression) \<Rightarrow> Expression list \<Rightarrow> exn + Expression list" where
  "clone_all cl [] = Inr []"
| "clone_all cl (e # es) = try_bind (cl e) (\<lambda>e'. try_bind (clone_all cl es) (\<lambda>es'. Inr (e' # es')))"

fun clone_keys :: "order_bys \<Rightarrow> exn + order_bys" where
  "clone_keys [] = Inr []"
| "clone_keys ((d, e) # obs) = try_bind (clone e) (\<lambda>e'. try_bind (clone_keys obs) (\<lambda>obs'. Inr ((d, e') # obs')))"

text \<open>
  The children first.  \<open>HavingExecutor\<close> gets a pointer to the plan node, which is destroyed when \<open>createExecutor\<close> returns;
  its predicate is not part of the executor.
\<close>

fun createExecutor :: "CatalogManager \<Rightarrow> PhysicalPlan \<Rightarrow> exn + Executor" where
  "createExecutor cat (PSeqScan sch nm al p l m) = try_bind (table_of_name cat nm) (\<lambda>ti. Inr (XSeqScan ti (expr_ptr p) l m))"
| "createExecutor cat (PFilter sch p c) = try_bind (createExecutor cat c) (\<lambda>x. Inr (XFilter p x))"
| "createExecutor cat (PProjection sch es c) = try_bind (createExecutor cat c) (\<lambda>x. Inr (XProjection es sch x))"
| "createExecutor cat (PSort sch obs c) = try_bind (createExecutor cat c) (\<lambda>x. Inr (XSort obs x))"
| "createExecutor cat (POrderBy sch obs c) = try_bind (createExecutor cat c) (\<lambda>x. try_bind (clone_keys obs) (\<lambda>obs'. Inr (XOrderBy obs' x)))"
| "createExecutor cat (PLimit sch l m c) = try_bind (createExecutor cat c) (\<lambda>x. Inr (XLimit l m x))"
| "createExecutor cat (PValues sch vs) = Inr (XValues vs sch)"
| "createExecutor cat (PInsert sch nm c) = try_bind (createExecutor cat c) (\<lambda>x. try_bind (table_of_name cat nm) (\<lambda>ti. Inr (XInsert ti x)))"
| "createExecutor cat (PUpdate sch nm es c) = try_bind (createExecutor cat c) (\<lambda>x. try_bind (table_of_name cat nm) (\<lambda>ti. Inr (XUpdate ti es x)))"
| "createExecutor cat (PDelete sch nm c) = try_bind (createExecutor cat c) (\<lambda>x. try_bind (table_of_name cat nm) (\<lambda>ti. Inr (XDelete ti x)))"
| "createExecutor cat (PIndexScan sch nm al p l m) = try_bind (table_of_name cat nm) (\<lambda>ti. Inr (XIndexScan ti (expr_ptr p) l m))"
| "createExecutor cat (PNestedLoopJoin sch p l r) = try_bind (createExecutor cat l) (\<lambda>xl. try_bind (createExecutor cat r) (\<lambda>xr.
     try_bind (clone_ptr p) (\<lambda>p'. Inr (XNestedLoopJoin (expr_ptr p') xl xr))))"
| "createExecutor cat (PHashJoin sch lk rk l r) = try_bind (createExecutor cat l) (\<lambda>xl. try_bind (createExecutor cat r) (\<lambda>xr.
     try_bind (clone_ptr lk) (\<lambda>lk'. try_bind (clone_ptr rk) (\<lambda>rk'. Inr (XHashJoin lk' rk' xl xr)))))"
| "createExecutor cat (PAggregation sch gbs aggs tys c) = try_bind (createExecutor cat c) (\<lambda>x. try_bind (clone_all clone gbs) (\<lambda>gbs'.
     try_bind (clone_all clone_ptr aggs) (\<lambda>aggs'. Inr (XAggregation gbs' aggs' tys sch x))))"
| "createExecutor cat (PHaving sch p c) = try_bind (createExecutor cat c) (\<lambda>x. Inr (XHaving x))"
| "createExecutor cat (PTopK sch obs l m c) = try_bind (createExecutor cat c) (\<lambda>x. try_bind (clone_keys obs) (\<lambda>obs'. Inr (XTopK obs' l m x)))"

definition count_schema :: Schema where
  "count_schema = [\<lparr>col_name = [99, 111, 117, 110, 116], col_type = ColInteger\<rparr>]"

fun outputSchema :: "Executor \<Rightarrow> Schema" where
  "outputSchema (XSeqScan ti _ _ _) = ti_schema ti"
| "outputSchema (XIndexScan ti _ _ _) = ti_schema ti"
| "outputSchema (XFilter _ x) = outputSchema x"
| "outputSchema (XProjection _ sch _) = sch"
| "outputSchema (XSort _ x) = outputSchema x"
| "outputSchema (XOrderBy _ x) = outputSchema x"
| "outputSchema (XLimit _ _ x) = outputSchema x"
| "outputSchema (XValues _ sch) = sch"
| "outputSchema (XInsert _ _) = count_schema"
| "outputSchema (XUpdate _ _ _) = count_schema"
| "outputSchema (XDelete _ _) = count_schema"
| "outputSchema (XNestedLoopJoin _ l r) = outputSchema l @ outputSchema r"
| "outputSchema (XHashJoin _ _ l r) = outputSchema l @ outputSchema r"
| "outputSchema (XAggregation _ _ _ sch _) = sch"
| "outputSchema (XHaving x) = outputSchema x"
| "outputSchema (XTopK _ _ _ x) = outputSchema x"

subsection \<open>Running an executor\<close>

datatype ExecState =
    SSeqScan SeqScanExecutor
  | SIndexScan IndexScanExecutor
  | SValues ValuesExecutor
  | SPass ExecState
  | SLimit ExecState nat
  | SSort ExecState "row list" nat
  | SNestedLoop ExecState ExecState bool row
  | SHash ExecState ExecState hash_table bool row nat
  | SAgg ExecState agg_table nat bool
  | SInsert ExecState "TableHeap option" "BPlusTree option" bool
  | SModify ExecState "BPlusTree option" bool

text \<open>The state of a new executor.\<close>

fun new_state :: "Executor \<Rightarrow> ExecState" where
  "new_state (XSeqScan _ _ _ _) = SSeqScan \<lparr>ss_heap = None, ss_iter = None, ss_emitted = 0, ss_skipped = 0\<rparr>"
| "new_state (XIndexScan _ _ _ _) = SIndexScan \<lparr>ix_tree = None, ix_heap = None, ix_iter = None, ix_done = False, ix_emitted = 0, ix_skipped = 0\<rparr>"
| "new_state (XFilter _ x) = SPass (new_state x)"
| "new_state (XProjection _ _ x) = SPass (new_state x)"
| "new_state (XSort _ x) = SSort (new_state x) [] 0"
| "new_state (XOrderBy _ x) = SSort (new_state x) [] 0"
| "new_state (XLimit _ _ x) = SLimit (new_state x) 0"
| "new_state (XValues vs sch) = SValues \<lparr>val_values = vs, val_schema = sch, val_cursor = 0\<rparr>"
| "new_state (XInsert _ x) = SInsert (new_state x) None None False"
| "new_state (XUpdate _ _ x) = SModify (new_state x) None False"
| "new_state (XDelete _ x) = SModify (new_state x) None False"
| "new_state (XNestedLoopJoin _ l r) = SNestedLoop (new_state l) (new_state r) False ([], default_RID)"
| "new_state (XHashJoin _ _ l r) = SHash (new_state l) (new_state r) Map.empty False ([], default_RID) 0"
| "new_state (XAggregation _ _ _ _ x) = SAgg (new_state x) [] 0 False"
| "new_state (XHaving x) = SPass (new_state x)"
| "new_state (XTopK _ _ _ x) = SSort (new_state x) [] 0"

text \<open>
  Operations on the state of one executor, as operations on the state of any: \<open>get\<close> selects the state of the right kind and
  \<open>put\<close> wraps it up again.  A state of the wrong kind does not occur.
\<close>

definition via_init :: "(ExecState shared \<Rightarrow> 'a option) \<Rightarrow> ('a \<Rightarrow> ExecState shared) \<Rightarrow> 'a init_op \<Rightarrow> ExecState shared init_op" where
  "via_init get put ini s = (case get s of None \<Rightarrow> throws UndefinedBehaviour | Some a \<Rightarrow> then_do (ini a) (\<lambda>a1. return (put a1)))"

definition via_next :: "(ExecState shared \<Rightarrow> 'a option) \<Rightarrow> ('a \<Rightarrow> ExecState shared) \<Rightarrow> 'a next_op \<Rightarrow> ExecState shared next_op" where
  "via_next get put nxt s = (case get s of None \<Rightarrow> throws UndefinedBehaviour
     | Some a \<Rightarrow> then_do (nxt a) (\<lambda>(r, a1). return (r, put a1)))"

definition get_seq :: "ExecState shared \<Rightarrow> SeqScanExecutor shared option" where
  "get_seq s = (case fst s of SSeqScan e \<Rightarrow> Some (e, snd s) | _ \<Rightarrow> None)"

definition put_seq :: "SeqScanExecutor shared \<Rightarrow> ExecState shared" where
  "put_seq a = (SSeqScan (fst a), snd a)"

definition get_index :: "ExecState shared \<Rightarrow> IndexScanExecutor shared option" where
  "get_index s = (case fst s of SIndexScan e \<Rightarrow> Some (e, snd s) | _ \<Rightarrow> None)"

definition put_index :: "IndexScanExecutor shared \<Rightarrow> ExecState shared" where
  "put_index a = (SIndexScan (fst a), snd a)"

definition get_values :: "ExecState shared \<Rightarrow> ValuesExecutor shared option" where
  "get_values s = (case fst s of SValues e \<Rightarrow> Some (e, snd s) | _ \<Rightarrow> None)"

definition put_values :: "ValuesExecutor shared \<Rightarrow> ExecState shared" where
  "put_values a = (SValues (fst a), snd a)"

definition get_pass :: "ExecState shared \<Rightarrow> ExecState shared option" where
  "get_pass s = (case fst s of SPass t \<Rightarrow> Some (t, snd s) | _ \<Rightarrow> None)"

definition put_pass :: "ExecState shared \<Rightarrow> ExecState shared" where
  "put_pass a = (SPass (fst a), snd a)"

definition get_limit :: "ExecState shared \<Rightarrow> (ExecState shared \<times> nat) option" where
  "get_limit s = (case fst s of SLimit t n \<Rightarrow> Some ((t, snd s), n) | _ \<Rightarrow> None)"

definition put_limit :: "ExecState shared \<times> nat \<Rightarrow> ExecState shared" where
  "put_limit a = (SLimit (fst (fst a)) (snd a), snd (fst a))"

definition get_sort :: "ExecState shared \<Rightarrow> ExecState shared SortExecutor option" where
  "get_sort s = (case fst s of SSort t rows i \<Rightarrow> Some \<lparr>so_child = (t, snd s), so_tuples = rows, so_idx = i\<rparr> | _ \<Rightarrow> None)"

definition put_sort :: "ExecState shared SortExecutor \<Rightarrow> ExecState shared" where
  "put_sort a = (SSort (fst (so_child a)) (so_tuples a) (so_idx a), snd (so_child a))"

definition get_loop :: "ExecState shared \<Rightarrow> (ExecState, ExecState) NestedLoopJoin shared option" where
  "get_loop s = (case fst s of SNestedLoop l r m row \<Rightarrow> Some (\<lparr>nl_left = l, nl_right = r, nl_has_more = m, nl_current = row\<rparr>, snd s) | _ \<Rightarrow> None)"

definition put_loop :: "(ExecState, ExecState) NestedLoopJoin shared \<Rightarrow> ExecState shared" where
  "put_loop a = (SNestedLoop (nl_left (fst a)) (nl_right (fst a)) (nl_has_more (fst a)) (nl_current (fst a)), snd a)"

definition get_hash :: "ExecState shared \<Rightarrow> (ExecState, ExecState) HashJoin shared option" where
  "get_hash s = (case fst s of SHash l r ht m row i \<Rightarrow>
     Some (\<lparr>hj_left = l, hj_right = r, hj_table = ht, hj_has_more = m, hj_current = row, hj_idx = i\<rparr>, snd s) | _ \<Rightarrow> None)"

definition put_hash :: "(ExecState, ExecState) HashJoin shared \<Rightarrow> ExecState shared" where
  "put_hash a = (SHash (hj_left (fst a)) (hj_right (fst a)) (hj_table (fst a)) (hj_has_more (fst a)) (hj_current (fst a)) (hj_idx (fst a)), snd a)"

definition get_agg :: "ExecState shared \<Rightarrow> ExecState shared AggregationExecutor option" where
  "get_agg s = (case fst s of SAgg t es i b \<Rightarrow> Some \<lparr>ag_child = (t, snd s), ag_entries = es, ag_pos = i, ag_successful = b\<rparr> | _ \<Rightarrow> None)"

definition put_agg :: "ExecState shared AggregationExecutor \<Rightarrow> ExecState shared" where
  "put_agg a = (SAgg (fst (ag_child a)) (ag_entries a) (ag_pos a) (ag_successful a), snd (ag_child a))"

definition get_insert :: "ExecState shared \<Rightarrow> ExecState InsertExecutor shared option" where
  "get_insert s = (case fst s of SInsert t h bt d \<Rightarrow> Some (\<lparr>in_child = t, in_heap = h, in_tree = bt, in_done = d\<rparr>, snd s) | _ \<Rightarrow> None)"

definition put_insert :: "ExecState InsertExecutor shared \<Rightarrow> ExecState shared" where
  "put_insert a = (SInsert (in_child (fst a)) (in_heap (fst a)) (in_tree (fst a)) (in_done (fst a)), snd a)"

definition get_modify :: "ExecState shared \<Rightarrow> ExecState ModifyExecutor shared option" where
  "get_modify s = (case fst s of SModify t bt d \<Rightarrow> Some (\<lparr>mo_child = t, mo_tree = bt, mo_done = d\<rparr>, snd s) | _ \<Rightarrow> None)"

definition put_modify :: "ExecState ModifyExecutor shared \<Rightarrow> ExecState shared" where
  "put_modify a = (SModify (mo_child (fst a)) (mo_tree (fst a)) (mo_done (fst a)), snd a)"

lemmas state_defs = get_seq_def put_seq_def get_index_def put_index_def get_values_def put_values_def get_pass_def put_pass_def
  get_limit_def put_limit_def get_sort_def put_sort_def get_loop_def put_loop_def get_hash_def put_hash_def get_agg_def put_agg_def
  get_insert_def put_insert_def get_modify_def put_modify_def

lemma get_put [simp]:
  "get_seq (put_seq a) = Some a" "get_index (put_index b) = Some b" "get_values (put_values c) = Some c" "get_pass (put_pass d) = Some d"
  "get_limit (put_limit e) = Some e" "get_sort (put_sort f) = Some f" "get_loop (put_loop g) = Some g" "get_hash (put_hash h) = Some h"
  "get_agg (put_agg i) = Some i" "get_insert (put_insert j) = Some j" "get_modify (put_modify k) = Some k"
  by (simp_all add: state_defs prod_eq_iff)

text \<open>The algorithms of the C++ library the executors call.\<close>

record library =
  lib_sort :: sorter
  lib_stable_sort :: sorter
  lib_push :: pusher
  lib_pop :: popper
  lib_iteration :: "agg_table \<Rightarrow> agg_table"

text \<open>\<open>HavingExecutor::next\<close> reads the destroyed plan node as soon as there is a row.\<close>

definition dangling_next :: "'s next_op \<Rightarrow> 's next_op" where
  "dangling_next child s = then_do (child s) (\<lambda>(r, s1). case r of None \<Rightarrow> return (None, s1) | Some row \<Rightarrow> throws UndefinedBehaviour)"

fun exec_ops :: "library \<Rightarrow> Executor \<Rightarrow> ExecState shared init_op \<times> ExecState shared next_op" where
  "exec_ops lib (XSeqScan ti p l m) = (via_init get_seq put_seq (seq_scan_init ti), via_next get_seq put_seq (seq_scan_next ti p l m))"
| "exec_ops lib (XIndexScan ti p l m) = (via_init get_index put_index (index_scan_init ti p), via_next get_index put_index (index_scan_next ti p l m))"
| "exec_ops lib (XFilter p x) = (case exec_ops lib x of (ini, nxt) \<Rightarrow>
     (via_init get_pass put_pass (filter_init ini), via_next get_pass put_pass (filter_next nxt p (outputSchema x))))"
| "exec_ops lib (XProjection es sch x) = (case exec_ops lib x of (ini, nxt) \<Rightarrow>
     (via_init get_pass put_pass (filter_init ini), via_next get_pass put_pass (projection_next nxt es (outputSchema x) sch)))"
| "exec_ops lib (XSort obs x) = (case exec_ops lib x of (ini, nxt) \<Rightarrow>
     (via_init get_sort put_sort (sort_init (lib_sort lib) obs (outputSchema x) ini nxt), via_next get_sort put_sort sort_next))"
| "exec_ops lib (XOrderBy obs x) = (case exec_ops lib x of (ini, nxt) \<Rightarrow>
     (via_init get_sort put_sort (order_by_init (lib_stable_sort lib) obs (outputSchema x) ini nxt), via_next get_sort put_sort order_by_next))"
| "exec_ops lib (XLimit l m x) = (case exec_ops lib x of (ini, nxt) \<Rightarrow>
     (via_init get_limit put_limit (limit_init ini nxt m), via_next get_limit put_limit (limit_next nxt l)))"
| "exec_ops lib (XValues vs sch) = (via_init get_values put_values (lift_init values_init), via_next get_values put_values (lift_next values_next))"
| "exec_ops lib (XInsert ti x) = (case exec_ops lib x of (ini, nxt) \<Rightarrow>
     (via_init get_insert put_insert (insert_init ti ini), via_next get_insert put_insert (insert_next ti nxt)))"
| "exec_ops lib (XUpdate ti es x) = (case exec_ops lib x of (ini, nxt) \<Rightarrow>
     (via_init get_modify put_modify (modify_init ti ini), via_next get_modify put_modify (update_next ti es nxt)))"
| "exec_ops lib (XDelete ti x) = (case exec_ops lib x of (ini, nxt) \<Rightarrow>
     (via_init get_modify put_modify (modify_init ti ini), via_next get_modify put_modify (delete_next ti nxt)))"
| "exec_ops lib (XNestedLoopJoin p l r) = (case (exec_ops lib l, exec_ops lib r) of ((li, ln), (ri, rn)) \<Rightarrow>
     (via_init get_loop put_loop (nlj_init li ln ri), via_next get_loop put_loop (nlj_next ln ri rn p (outputSchema l) (outputSchema r))))"
| "exec_ops lib (XHashJoin lk rk l r) = (case (exec_ops lib l, exec_ops lib r) of ((li, ln), (ri, rn)) \<Rightarrow>
     (via_init get_hash put_hash (hj_init rk (outputSchema r) li ln ri rn), via_next get_hash put_hash (hj_next lk (outputSchema l) ln)))"
| "exec_ops lib (XAggregation gbs aggs tys sch x) = (case exec_ops lib x of (ini, nxt) \<Rightarrow>
     (via_init get_agg put_agg (agg_init (lib_iteration lib) gbs aggs tys (outputSchema x) ini nxt), via_next get_agg put_agg (agg_next gbs tys sch)))"
| "exec_ops lib (XHaving x) = (case exec_ops lib x of (ini, nxt) \<Rightarrow>
     (via_init get_pass put_pass (filter_init ini), via_next get_pass put_pass (dangling_next nxt)))"
| "exec_ops lib (XTopK obs l m x) = (case exec_ops lib x of (ini, nxt) \<Rightarrow>
     (via_init get_sort put_sort (top_k_init (lib_push lib) (lib_pop lib) obs (outputSchema x) l m ini nxt), via_next get_sort put_sort top_k_next))"

text \<open>What the shell does with an executor: the rows in order, and the exception that ended the query, if any.\<close>

definition run_executor :: "library \<Rightarrow> Executor \<Rightarrow> ExecutorContext \<Rightarrow> (row list \<times> exn option) option" where
  "run_executor lib x c = run_query (fst (exec_ops lib x)) (snd (exec_ops lib x)) (new_state x, c)"

subsection \<open>What a read-only plan returns\<close>

text \<open>
  The meaning of an executor as a function of the stored records: \<open>store\<close> gives the records of a heap by the page it starts with.
\<close>

type_synonym store = "PageId \<Rightarrow> (RID \<times> Tuple) list"

definition dangling_rows :: "row list \<Rightarrow> exn option \<Rightarrow> row list \<times> exn option" where
  "dangling_rows xs f = (if xs = [] then ([], f) else ([], Some UndefinedBehaviour))"

definition top_k_beh :: "pusher \<Rightarrow> popper \<Rightarrow> order_bys \<Rightarrow> Schema \<Rightarrow> nat \<Rightarrow> nat \<Rightarrow> behaviour \<Rightarrow> behaviour" where
  "top_k_beh psh pp obs sch limit offset b = (case b of InitThrows e \<Rightarrow> InitThrows e
     | Rows xs f \<Rightarrow> if limit = 0 then Rows [] None
       else (case push_rows psh pp (compare_rows obs sch) ((limit + offset) mod 2 ^ 64) [] xs of
         Inl e \<Rightarrow> InitThrows e
       | Inr pq \<Rightarrow> (case f of Some e \<Rightarrow> InitThrows e
         | None \<Rightarrow> (case pop_all pp (compare_rows obs sch) (length pq) pq of
             Inl e \<Rightarrow> InitThrows e
           | Inr temp \<Rightarrow> Rows (take limit (drop offset (rev temp))) None))))"

fun exec_beh :: "library \<Rightarrow> ExecutorContext \<Rightarrow> store \<Rightarrow> Executor \<Rightarrow> behaviour" where
  "exec_beh lib c st (XSeqScan ti p l m) = heap_beh c ti p l m (st (ti_heap_root_page ti))"
| "exec_beh lib c st (XFilter p x) = beh_map (trans_rows (filter_row p (outputSchema x))) (exec_beh lib c st x)"
| "exec_beh lib c st (XProjection es sch x) = beh_map (trans_rows (projection_row es (outputSchema x) sch)) (exec_beh lib c st x)"
| "exec_beh lib c st (XSort obs x) = gather_beh (lib_sort lib (compare_rows obs (outputSchema x))) (exec_beh lib c st x)"
| "exec_beh lib c st (XOrderBy obs x) = gather_beh (lib_stable_sort lib (compare_rows obs (outputSchema x))) (exec_beh lib c st x)"
| "exec_beh lib c st (XLimit l m x) = limit_beh l m (exec_beh lib c st x)"
| "exec_beh lib c st (XValues vs sch) = values_beh vs sch"
| "exec_beh lib c st (XNestedLoopJoin p l r) = nlj_beh (match_row p (outputSchema l) (outputSchema r)) (exec_beh lib c st l) (exec_beh lib c st r)"
| "exec_beh lib c st (XHashJoin lk rk l r) = hj_beh lk (outputSchema l) rk (outputSchema r) (exec_beh lib c st l) (exec_beh lib c st r)"
| "exec_beh lib c st (XAggregation gbs aggs tys sch x) = agg_beh (lib_iteration lib) gbs aggs tys (outputSchema x) sch (exec_beh lib c st x)"
| "exec_beh lib c st (XHaving x) = beh_map dangling_rows (exec_beh lib c st x)"
| "exec_beh lib c st (XTopK obs l m x) = top_k_beh (lib_push lib) (lib_pop lib) obs (outputSchema x) l m (exec_beh lib c st x)"
| "exec_beh lib c st _ = Rows [] None"

text \<open>Plans that neither change rows nor use an index, on tables whose heaps are well-formed.\<close>

fun reads_only :: "Executor \<Rightarrow> bool" where
  "reads_only (XIndexScan _ _ _ _) = False"
| "reads_only (XInsert _ _) = False"
| "reads_only (XUpdate _ _ _) = False"
| "reads_only (XDelete _ _) = False"
| "reads_only (XFilter _ x) = reads_only x"
| "reads_only (XProjection _ _ x) = reads_only x"
| "reads_only (XSort _ x) = reads_only x"
| "reads_only (XOrderBy _ x) = reads_only x"
| "reads_only (XLimit _ _ x) = reads_only x"
| "reads_only (XNestedLoopJoin _ l r) = (reads_only l \<and> reads_only r)"
| "reads_only (XHashJoin _ _ l r) = (reads_only l \<and> reads_only r)"
| "reads_only (XAggregation _ _ _ _ x) = reads_only x"
| "reads_only (XHaving x) = reads_only x"
| "reads_only (XTopK _ _ _ x) = reads_only x"
| "reads_only _ = True"

fun scanned :: "Executor \<Rightarrow> TableInfo set" where
  "scanned (XSeqScan ti _ _ _) = {ti}"
| "scanned (XFilter _ x) = scanned x"
| "scanned (XProjection _ _ x) = scanned x"
| "scanned (XSort _ x) = scanned x"
| "scanned (XOrderBy _ x) = scanned x"
| "scanned (XLimit _ _ x) = scanned x"
| "scanned (XNestedLoopJoin _ l r) = scanned l \<union> scanned r"
| "scanned (XHashJoin _ _ l r) = scanned l \<union> scanned r"
| "scanned (XAggregation _ _ _ _ x) = scanned x"
| "scanned (XHaving x) = scanned x"
| "scanned (XTopK _ _ _ x) = scanned x"
| "scanned _ = {}"

definition stored :: "ExecutorContext \<Rightarrow> store \<Rightarrow> TableInfo \<Rightarrow> bool" where
  "stored c st ti = (\<exists>h ids. heap_ok (ec_disk c) h ids \<and> ti_heap_root_page ti = first_page_id h \<and>
     st (ti_heap_root_page ti) = heap_records (dm_pages (ec_disk c)) ids)"

subsection \<open>The contract through the wrapping\<close>

definition via_inv :: "(ExecState shared \<Rightarrow> 'a option) \<Rightarrow> ('a \<Rightarrow> bool) \<Rightarrow> ExecutorContext \<Rightarrow> ExecState shared \<Rightarrow> bool" where
  "via_inv get iv c s = (snd s = c \<and> (\<exists>a. get s = Some a \<and> iv a))"

definition via_pending :: "(ExecState shared \<Rightarrow> 'a option) \<Rightarrow> ('a \<Rightarrow> row list \<Rightarrow> exn option \<Rightarrow> bool) \<Rightarrow> ExecutorContext \<Rightarrow>
    ExecState shared \<Rightarrow> row list \<Rightarrow> exn option \<Rightarrow> bool" where
  "via_pending get pend c s ys g = (snd s = c \<and> (\<exists>a. get s = Some a \<and> pend a ys g))"

lemma via_executor_contract:
  assumes "executor ini nxt iv pend beh" "\<And>a. get (put a) = Some a" "\<And>a. iv a \<Longrightarrow> snd (put a) = c"
  shows "context_executor (via_init get put ini) (via_next get put nxt) (via_inv get iv c) (via_pending get pend c) beh c"
proof (rule context_executor.intro, rule executorI)
  note E = assms(1)
  show "via_init get put ini s = throws e" if "via_inv get iv c s" "beh = InitThrows e" for s e
    using that executor.init_throws [OF E] by (auto simp: via_inv_def via_init_def)
  show "\<exists>s1. via_init get put ini s = return s1 \<and> via_pending get pend c s1 xs f" if s: "via_inv get iv c s" and b: "beh = Rows xs f" for s xs f
  proof -
    obtain a where a: "get s = Some a" "iv a" using s by (auto simp: via_inv_def)
    obtain a1 where "ini a = return a1" "pend a1 xs f" using executor.init_rows [OF E a(2) b] by blast
    then show ?thesis using a(1) assms(2,3) executor.pending_inv [OF E] by (auto simp: via_init_def via_pending_def)
  qed
  show "outcome (via_next get put nxt) (via_pending get pend c) s ys g" if s: "via_pending get pend c s ys g" for s ys g
  proof -
    obtain a where a: "get s = Some a" "pend a ys g" using s by (auto simp: via_pending_def)
    have nx: "via_next get put nxt s = then_do (nxt a) (\<lambda>(r, a1). return (r, put a1))" using a(1) by (simp add: via_next_def)
    have p: "via_pending get pend c (put a1) zs h" if "pend a1 zs h" for a1 zs h
      using that assms(2,3) executor.pending_inv [OF E that] by (auto simp: via_pending_def)
    show ?thesis
    proof (cases ys)
      case (Cons y zs)
      then obtain a1 where "nxt a = return (Some y, a1)" "pend a1 zs g" using executor.next_row [OF E] a(2) by blast
      then show ?thesis using Cons nx p by (auto simp: outcome_def)
    next
      case Nil
      show ?thesis
      proof (cases g)
        case None
        then obtain a1 where "nxt a = return (None, a1)" "pend a1 [] None" using executor.next_end [OF E] a(2) Nil by blast
        then show ?thesis using Nil None nx p by (auto simp: outcome_def)
      next
        case (Some e)
        then have "nxt a = throws e" using executor.next_throws [OF E] a(2) Nil by blast
        then show ?thesis using Nil Some nx by (simp add: outcome_def)
      qed
    qed
  qed
  show "via_inv get iv c s" if "via_pending get pend c s ys g" for s ys g
    using that executor.pending_inv [OF E] by (auto simp: via_inv_def via_pending_def)
qed (simp add: context_executor_axioms_def via_inv_def)

context executor
begin

lemma dangling_executor: "executor (filter_init ini) (dangling_next nxt) inv (pending_via pending dangling_rows) (beh_map dangling_rows beh)"
proof (rule executorI)
  fix s ys g
  assume "pending_via pending dangling_rows s ys g"
  then obtain xs f where x: "pending s xs f" "dangling_rows xs f = (ys, g)" by (auto simp: pending_via_def)
  show "outcome (dangling_next nxt) (pending_via pending dangling_rows) s ys g"
  proof (cases xs)
    case Nil
    then show ?thesis using x next_end [of s] next_throws [of s]
      by (cases f) (auto simp: dangling_rows_def dangling_next_def outcome_def intro!: pending_viaI [of _ _ "[]" None])
  next
    case (Cons z zs)
    then show ?thesis using x next_row [of s z zs f] by (auto simp: dangling_rows_def dangling_next_def outcome_def)
  qed
next
  show "inv s" if "pending_via pending dangling_rows s ys g" for s ys g using that pending_inv by (auto simp: pending_via_def)
qed (use via_init_throws via_init_rows [of _ dangling_rows] in \<open>auto simp: filter_init_def\<close>)

lemma top_k_fill_cases:
  assumes "pending s xs f"
  shows "case push_rows psh pp lt cap pq xs of
     Inl e \<Rightarrow> top_k_fill psh pp lt cap nxt s pq = throws e
   | Inr pq' \<Rightarrow> (case f of Some e \<Rightarrow> top_k_fill psh pp lt cap nxt s pq = throws e
       | None \<Rightarrow> \<exists>s1. top_k_fill psh pp lt cap nxt s pq = return (pq', s1) \<and> pending s1 [] None)"
  using assms
proof (induction xs arbitrary: s pq)
  case Nil
  then show ?case using next_end [of s] next_throws [of s] by (cases f) (auto simp: top_k_fill.simps)
next
  case (Cons x xs)
  obtain s1 where s1: "nxt s = return (Some x, s1)" "pending s1 xs f" using Cons.prems next_row by blast
  show ?case
  proof (cases "push_bounded psh pp lt cap x pq")
    case (Inl e)
    then have "top_k_fill psh pp lt cap nxt s pq = throws e" using s1(1) by (subst top_k_fill.simps) simp
    then show ?thesis using Inl by simp
  next
    case (Inr pq1)
    then have "top_k_fill psh pp lt cap nxt s pq = top_k_fill psh pp lt cap nxt s1 pq1" using s1(1) by (subst top_k_fill.simps) simp
    then show ?thesis using Inr Cons.IH [OF s1(2), of pq1] by (simp split: sum.splits option.splits)
  qed
qed

lemma top_k_executor:
  "executor (top_k_init psh pp obs sch limit offset ini nxt) sort_next (\<lambda>s. inv (so_child s)) (listed_pending inv)
    (top_k_beh psh pp obs sch limit offset beh)"
proof (rule listed_executor)
  fix s :: "'s SortExecutor" and e
  assume i: "inv (so_child s)" and b: "top_k_beh psh pp obs sch limit offset beh = InitThrows e"
  show "top_k_init psh pp obs sch limit offset ini nxt s = throws e"
  proof (cases beh)
    case (InitThrows e')
    then show ?thesis using b init_throws [OF i InitThrows] by (simp add: top_k_beh_def top_k_init_def)
  next
    case (Rows xs f)
    then obtain s1 where s1: "ini (so_child s) = return s1" "pending s1 xs f" using init_rows [OF i] by blast
    show ?thesis
      using b Rows s1(1) top_k_fill_cases [OF s1(2), of psh pp "compare_rows obs sch" "(limit + offset) mod 2 ^ 64" "[]"]
      by (auto simp: top_k_beh_def top_k_init_def Let_def split: sum.splits option.splits if_splits)
  qed
next
  fix s :: "'s SortExecutor" and ys f
  assume i: "inv (so_child s)" and b: "top_k_beh psh pp obs sch limit offset beh = Rows ys f"
  then obtain xs h where x: "beh = Rows xs h" by (auto simp: top_k_beh_def split: behaviour.splits)
  obtain s1 where s1: "ini (so_child s) = return s1" "pending s1 xs h" using init_rows [OF i x] by blast
  show "f = None \<and> (\<exists>c. inv c \<and> top_k_init psh pp obs sch limit offset ini nxt s = return \<lparr>so_child = c, so_tuples = ys, so_idx = 0\<rparr>)"
    using b x s1(1) pending_inv [OF s1(2)] pending_inv top_k_fill_cases [OF s1(2), of psh pp "compare_rows obs sch" "(limit + offset) mod 2 ^ 64" "[]"]
    by (fastforce simp: top_k_beh_def top_k_init_def Let_def split: sum.splits option.splits if_splits)
qed

end

text \<open>\<open>runs_as\<close>: the executor keeps its contract with the rows \<open>exec_beh\<close> gives, and leaves the context alone.\<close>

definition runs_as :: "library \<Rightarrow> ExecutorContext \<Rightarrow> store \<Rightarrow> Executor \<Rightarrow> bool" where
  "runs_as lib c st x = (\<exists>iv pend. context_executor (fst (exec_ops lib x)) (snd (exec_ops lib x)) iv pend (exec_beh lib c st x) c \<and> iv (new_state x, c))"

lemma runs_asI:
  assumes "executor ini nxt iv pend (exec_beh lib c st x)" "exec_ops lib x = (via_init get put ini, via_next get put nxt)"
    "get (new_state x, c) = Some a" "iv a" "\<And>a. get (put a) = Some a" "\<And>a. iv a \<Longrightarrow> snd (put a) = c"
  shows "runs_as lib c st x"
  unfolding runs_as_def assms(2) fst_conv snd_conv
  by (intro exI conjI, rule via_executor_contract [OF assms(1,5,6)]) (auto simp: via_inv_def assms(3,4))

lemma runs_asE:
  assumes "runs_as lib c st x"
  obtains ini nxt iv pend where "exec_ops lib x = (ini, nxt)" "context_executor ini nxt iv pend (exec_beh lib c st x) c"
    "executor ini nxt iv pend (exec_beh lib c st x)" "iv (new_state x, c)"
proof -
  obtain iv pend where E: "context_executor (fst (exec_ops lib x)) (snd (exec_ops lib x)) iv pend (exec_beh lib c st x) c" "iv (new_state x, c)"
    using assms by (auto simp: runs_as_def)
  show ?thesis by (rule that [OF _ E(1) context_executor.axioms(1) [OF E(1)] E(2)]) simp_all
qed

lemma runs_as_unary:
  assumes "runs_as lib c st x"
  shows "runs_as lib c st (XFilter p x)" "runs_as lib c st (XProjection es sch x)" "runs_as lib c st (XSort obs x)"
    "runs_as lib c st (XOrderBy obs x)" "runs_as lib c st (XLimit l m x)" "runs_as lib c st (XAggregation gbs aggs tys sch x)"
    "runs_as lib c st (XHaving x)" "runs_as lib c st (XTopK obs l m x)"
proof -
  obtain ini nxt iv pend where o: "exec_ops lib x = (ini, nxt)" and C: "context_executor ini nxt iv pend (exec_beh lib c st x) c"
    and E: "executor ini nxt iv pend (exec_beh lib c st x)"
    and n: "iv (new_state x, c)" by (rule runs_asE [OF assms])
  note w = context_executor.inv_context [OF C]
  show "runs_as lib c st (XFilter p x)"
    by (rule runs_asI [where get = get_pass and put = put_pass and a = "(new_state x, c)" and x = "XFilter p x", unfolded exec_beh.simps, OF executor.filter_executor [OF E]])
      (simp_all add: o n w state_defs)
  show "runs_as lib c st (XProjection es sch x)"
    by (rule runs_asI [where get = get_pass and put = put_pass and a = "(new_state x, c)" and x = "XProjection es sch x", unfolded exec_beh.simps, OF executor.projection_executor [OF E]])
      (simp_all add: o n w state_defs)
  show "runs_as lib c st (XHaving x)"
    by (rule runs_asI [where get = get_pass and put = put_pass and a = "(new_state x, c)" and x = "XHaving x", unfolded exec_beh.simps, OF executor.dangling_executor [OF E]])
      (simp_all add: o n w state_defs)
  show "runs_as lib c st (XSort obs x)"
    by (rule runs_asI [where get = get_sort and put = put_sort and a = "\<lparr>so_child = (new_state x, c), so_tuples = [], so_idx = 0\<rparr>" and x = "XSort obs x", unfolded exec_beh.simps,
      OF executor.sort_executor [OF E, of "lib_sort lib" obs "outputSchema x"]]) (simp_all add: o n w state_defs)
  show "runs_as lib c st (XOrderBy obs x)"
    by (rule runs_asI [where get = get_sort and put = put_sort and a = "\<lparr>so_child = (new_state x, c), so_tuples = [], so_idx = 0\<rparr>" and x = "XOrderBy obs x", unfolded exec_beh.simps,
      OF executor.sort_executor [OF E, of "lib_stable_sort lib" obs "outputSchema x"]]) (simp_all add: o n w state_defs order_by_is_sort)
  show "runs_as lib c st (XTopK obs l m x)"
    by (rule runs_asI [where get = get_sort and put = put_sort and a = "\<lparr>so_child = (new_state x, c), so_tuples = [], so_idx = 0\<rparr>" and x = "XTopK obs l m x", unfolded exec_beh.simps,
      OF executor.top_k_executor [OF E]]) (simp_all add: o n w state_defs order_by_is_sort)
  show "runs_as lib c st (XLimit l m x)"
    by (rule runs_asI [where get = get_limit and put = put_limit and a = "((new_state x, c), 0)" and x = "XLimit l m x", unfolded exec_beh.simps,
      OF executor.limit_executor [OF E]]) (simp_all add: o n w state_defs)
  show "runs_as lib c st (XAggregation gbs aggs tys sch x)"
    by (rule runs_asI [where get = get_agg and put = put_agg and a = "\<lparr>ag_child = (new_state x, c), ag_entries = [], ag_pos = 0, ag_successful = False\<rparr>"
      and x = "XAggregation gbs aggs tys sch x", unfolded exec_beh.simps, OF executor.aggregation_executor [OF E]]) (simp_all add: o n w state_defs)
qed

lemma runs_as_binary:
  assumes "runs_as lib c st l" "runs_as lib c st r"
  shows "runs_as lib c st (XNestedLoopJoin p l r)" "runs_as lib c st (XHashJoin lk rk l r)"
proof -
  obtain li ln liv lp where l: "exec_ops lib l = (li, ln)" "context_executor li ln liv lp (exec_beh lib c st l) c" "executor li ln liv lp (exec_beh lib c st l)" "liv (new_state l, c)"
    by (rule runs_asE [OF assms(1)])
  obtain ri rn riv rp where r: "exec_ops lib r = (ri, rn)" "context_executor ri rn riv rp (exec_beh lib c st r) c" "executor ri rn riv rp (exec_beh lib c st r)" "riv (new_state r, c)"
    by (rule runs_asE [OF assms(2)])
  note two = two_executors.intro [OF l(2) r(2)]
  show "runs_as lib c st (XNestedLoopJoin p l r)"
    by (rule runs_asI [where get = get_loop and put = put_loop and x = "XNestedLoopJoin p l r"
      and a = "(\<lparr>nl_left = new_state l, nl_right = new_state r, nl_has_more = False, nl_current = ([], default_RID)\<rparr>, c)", unfolded exec_beh.simps,
      OF context_executor.axioms(1) [OF two_executors.nlj_executor [OF two]]]) (simp_all add: l r state_defs prod_eq_iff)
  show "runs_as lib c st (XHashJoin lk rk l r)"
    by (rule runs_asI [where get = get_hash and put = put_hash and x = "XHashJoin lk rk l r"
      and a = "(\<lparr>hj_left = new_state l, hj_right = new_state r, hj_table = Map.empty, hj_has_more = False, hj_current = ([], default_RID), hj_idx = 0\<rparr>, c)",
      unfolded exec_beh.simps, OF context_executor.axioms(1) [OF two_executors.hash_join_executor [OF two]]]) (simp_all add: l r state_defs prod_eq_iff)
qed

lemma runs_as_scan:
  assumes "stored c st ti"
  shows "runs_as lib c st (XSeqScan ti p l m)"
proof -
  obtain h ids where h: "heap_ok (ec_disk c) h ids" "ti_heap_root_page ti = first_page_id h" "st (ti_heap_root_page ti) = heap_records (dm_pages (ec_disk c)) ids"
    using assms by (auto simp: stored_def)
  show ?thesis
    by (rule runs_asI [where get = get_seq and put = put_seq and c = c and st = st and lib = lib and x = "XSeqScan ti p l m"
      and a = "(\<lparr>ss_heap = None, ss_iter = None, ss_emitted = 0, ss_skipped = 0\<rparr>, c)", unfolded exec_beh.simps, unfolded h(3), OF seq_scan_executor [OF h(1,2)]])
      (simp_all add: state_defs)
qed

lemma runs_as_values: "runs_as lib c st (XValues vs sch)"
  by (rule runs_asI [where get = get_values and put = put_values and x = "XValues vs sch"
    and a = "(\<lparr>val_values = vs, val_schema = sch, val_cursor = 0\<rparr>, c)", unfolded exec_beh.simps, OF context_executor.axioms(1) [OF vals.lift_executor]])
    (auto simp: state_defs lift_inv_def values_inv_def)

lemma exec_contract: "reads_only x \<Longrightarrow> (\<And>ti. ti \<in> scanned x \<Longrightarrow> stored c st ti) \<Longrightarrow> runs_as lib c st x"
  by (induction x) (auto intro!: runs_as_unary runs_as_binary runs_as_scan runs_as_values)

subsection \<open>The meaning of a logical plan\<close>

text \<open>The columns of the rows a plan returns: a scan returns all columns of its table, whatever the schema of the node.\<close>

fun row_schema :: "CatalogManager \<Rightarrow> LogicalPlanNode \<Rightarrow> Schema" where
  "row_schema cat (LSeqScan sch nm al p lim off) = (case table_of_name cat nm of Inr ti \<Rightarrow> ti_schema ti | Inl _ \<Rightarrow> [])"
| "row_schema cat (LIndexScan sch nm al p lim off) = (case table_of_name cat nm of Inr ti \<Rightarrow> ti_schema ti | Inl _ \<Rightarrow> [])"
| "row_schema cat (LFilter sch p c) = row_schema cat c"
| "row_schema cat (LProjection sch es c) = sch"
| "row_schema cat (LSort sch obs c) = row_schema cat c"
| "row_schema cat (LOrderBy sch obs c) = row_schema cat c"
| "row_schema cat (LLimit sch lim off c) = row_schema cat c"
| "row_schema cat (LValues sch vs) = sch"
| "row_schema cat (LInsert sch nm c) = count_schema"
| "row_schema cat (LUpdate sch nm cls c) = count_schema"
| "row_schema cat (LDelete sch nm c) = count_schema"
| "row_schema cat (LNestedLoopJoin sch p l r) = row_schema cat l @ row_schema cat r"
| "row_schema cat (LHashJoin sch lk rk l r) = row_schema cat l @ row_schema cat r"
| "row_schema cat (LAggregation sch gbs aggs tys c) = sch"
| "row_schema cat (LHaving sch p c) = row_schema cat c"
| "row_schema cat (LTopK sch obs lim off c) = row_schema cat c"

definition count_of :: "Expression \<Rightarrow> nat \<Rightarrow> nat" where
  "count_of e absent = (case limit_value e absent of Inr n \<Rightarrow> n | Inl _ \<Rightarrow> absent)"

definition sort_keys :: "(Expression \<times> bool) list \<Rightarrow> order_bys" where
  "sort_keys obs = map (\<lambda>(e, asc). (if asc then ASC else DESC, e)) obs"

fun plan_beh :: "library \<Rightarrow> ExecutorContext \<Rightarrow> store \<Rightarrow> CatalogManager \<Rightarrow> LogicalPlanNode \<Rightarrow> behaviour" where
  "plan_beh lib c st cat (LSeqScan sch nm al p lim off) = (case table_of_name cat nm of
     Inr ti \<Rightarrow> heap_beh c ti (expr_ptr p) (count_of lim size_t_max) (count_of off 0) (st (ti_heap_root_page ti)) | Inl e \<Rightarrow> InitThrows e)"
| "plan_beh lib c st cat (LFilter sch p x) = beh_map (trans_rows (filter_row p (row_schema cat x))) (plan_beh lib c st cat x)"
| "plan_beh lib c st cat (LProjection sch es x) = beh_map (trans_rows (projection_row es (row_schema cat x) sch)) (plan_beh lib c st cat x)"
| "plan_beh lib c st cat (LSort sch obs x) = gather_beh (lib_sort lib (compare_rows (sort_keys obs) (row_schema cat x))) (plan_beh lib c st cat x)"
| "plan_beh lib c st cat (LOrderBy sch obs x) = gather_beh (lib_stable_sort lib (compare_rows (sort_keys obs) (row_schema cat x))) (plan_beh lib c st cat x)"
| "plan_beh lib c st cat (LLimit sch lim off x) = limit_beh (count_of lim 0) (count_of off 0) (plan_beh lib c st cat x)"
| "plan_beh lib c st cat (LValues sch vs) = values_beh vs sch"
| "plan_beh lib c st cat (LNestedLoopJoin sch p l r) =
     nlj_beh (match_row (expr_ptr p) (row_schema cat l) (row_schema cat r)) (plan_beh lib c st cat l) (plan_beh lib c st cat r)"
| "plan_beh lib c st cat (LHashJoin sch lk rk l r) =
     hj_beh lk (row_schema cat l) rk (row_schema cat r) (plan_beh lib c st cat l) (plan_beh lib c st cat r)"
| "plan_beh lib c st cat (LAggregation sch gbs aggs tys x) =
     agg_beh (lib_iteration lib) gbs aggs tys (row_schema cat x) sch (plan_beh lib c st cat x)"
| "plan_beh lib c st cat (LHaving sch p x) = beh_map dangling_rows (plan_beh lib c st cat x)"
| "plan_beh lib c st cat (LTopK sch obs lim off x) =
     top_k_beh (lib_push lib) (lib_pop lib) (sort_keys obs) (row_schema cat x) (count_of lim 0) (count_of off 0) (plan_beh lib c st cat x)"
| "plan_beh lib c st cat _ = Rows [] None"

lemma clone_same: "clone e = Inr e' \<Longrightarrow> e' = e"
  by (induction e arbitrary: e') (auto simp: try_bind_Inr)

lemma clone_ptr_same: "clone_ptr e = Inr e' \<Longrightarrow> e' = e"
  by (auto simp: clone_ptr_def clone_same split: if_splits)

lemma clone_all_same: "(\<And>e e'. cl e = Inr e' \<Longrightarrow> e' = e) \<Longrightarrow> clone_all cl es = Inr es' \<Longrightarrow> es' = es"
  by (induction es arbitrary: es') (auto simp: try_bind_Inr)

lemma clone_lists_same: "clone_all clone es = Inr es' \<Longrightarrow> es' = es" "clone_all clone_ptr es = Inr es' \<Longrightarrow> es' = es"
  using clone_all_same [of clone] clone_all_same [of clone_ptr] clone_same clone_ptr_same by blast+

lemma clone_keys_same: "clone_keys ks = Inr ks' \<Longrightarrow> ks' = ks"
  by (induction ks arbitrary: ks' rule: clone_keys.induct) (auto simp: try_bind_Inr dest: clone_same)

lemma order_keys_sort: "order_keys obs = Inr ks \<Longrightarrow> ks = sort_keys obs"
  by (induction obs arbitrary: ks rule: order_keys.induct) (auto simp: try_bind_Inr sort_keys_def dest: clone_same)

lemmas clones_same = clone_ptr_same clone_lists_same clone_keys_same order_keys_sort

lemma built_schema:
  "planNode cat lp = Inr pp \<Longrightarrow> createExecutor cat pp = Inr x \<Longrightarrow> outputSchema x = row_schema cat lp"
  by (induction lp arbitrary: pp x) (auto simp: try_bind_Inr)

lemma built_meaning:
  "planNode cat lp = Inr pp \<Longrightarrow> createExecutor cat pp = Inr x \<Longrightarrow> reads_only x \<Longrightarrow> exec_beh lib c st x = plan_beh lib c st cat lp"
  by (induction lp arbitrary: pp x) (auto simp: try_bind_Inr count_of_def built_schema dest!: clones_same)

subsection \<open>Properties\<close>

text \<open>
  C26. A query runs to its end and returns what its plan means: for a plan of scans, filters, projections, sorts, limits,
  joins and aggregations that the physical planner and the executor factory accept, over tables with well-formed heaps,
  the tree of executors built for it yields exactly the rows (or the exception) that the relational meaning \<open>plan_beh\<close> of the
  logical plan gives for the stored records, whatever library algorithms sort and hash.
\<close>

theorem query_run:
  assumes "planNode cat lp = Inr pp" "createExecutor cat pp = Inr x" "reads_only x" "\<forall>ti \<in> scanned x. stored c st ti"
  shows "run_executor lib x c = Some (case plan_beh lib c st cat lp of InitThrows e \<Rightarrow> ([], Some e) | Rows xs f \<Rightarrow> (xs, f))"
proof -
  have "runs_as lib c st x" using exec_contract [OF assms(3)] assms(4) by blast
  then obtain ini nxt iv pend where "exec_ops lib x = (ini, nxt)" and E: "executor ini nxt iv pend (exec_beh lib c st x)" "iv (new_state x, c)"
    by (rule runs_asE)
  then show ?thesis using executor.run_beh [OF E] built_meaning [OF assms(1-3)] by (simp add: run_executor_def)
qed

text \<open>\<open>SELECT * FROM t, (VALUES (1), (2)) LIMIT 1 OFFSET 1\<close>, for a table with one record.\<close>

definition sample_plan :: LogicalPlanNode where
  "sample_plan = LLimit int_schema (EConst (VInt 1)) (EConst (VInt 1))
     (LNestedLoopJoin int_schema ENullPtr (LSeqScan int_schema [116] [116] ENullPtr ENullPtr ENullPtr) (LValues int_schema sample_values))"

definition sample_tree :: "TableInfo \<Rightarrow> Executor" where
  "sample_tree ti = XLimit 1 1 (XNestedLoopJoin None (XSeqScan ti None size_t_max 0) (XValues sample_values int_schema))"

lemma sample_tree_made:
  assumes "map_of (cat_tables cat) [116] = Some ti"
  shows "\<exists>pp. planNode cat sample_plan = Inr pp \<and> createExecutor cat pp = Inr (sample_tree ti)"
  using assms by (simp add: sample_plan_def sample_tree_def limit_value_def evaluate_def getAsInteger_def table_of_name_def getTable_def clone_ptr_def expr_ptr_def)

text \<open>Library algorithms with the documented behaviour, and the iteration order of a table that keeps its order of insertion.\<close>

definition sample_library :: library where
  "sample_library = \<lparr>lib_sort = insertion_sort, lib_stable_sort = insertion_sort, lib_push = insert_row, lib_pop = pop_last, lib_iteration = id\<rparr>"

theorem query_run_witness:
  "\<exists>rid c ti cat pp. planNode cat sample_plan = Inr pp \<and> createExecutor cat pp = Inr (sample_tree ti) \<and>
     run_executor sample_library (sample_tree ti) c = Some ([combine_rows ([1, 2, 3], rid) (int_row 2)], None)"
proof -
  obtain rid h d ids where h: "heap_ok d h ids" "heap_records (dm_pages d) ids = [(rid, [1, 2, 3])]" using single_record by blast
  let ?c = "fresh_context d" and ?ti = "default_TableInfo\<lparr>ti_heap_root_page := first_page_id h\<rparr>"
  let ?cat = "\<lparr>cat_tables = [([116], ?ti)], next_table_id = 0\<rparr>" and ?st = "\<lambda>_. [(rid, [1, 2, 3])]"
  obtain pp where pp: "planNode ?cat sample_plan = Inr pp" "createExecutor ?cat pp = Inr (sample_tree ?ti)"
    using sample_tree_made [of ?cat ?ti] by auto
  have scan: "heap_beh ?c ?ti None size_t_max 0 [(rid, [1, 2, 3])] = Rows [([1, 2, 3], rid)] None"
    by (simp add: heap_beh_def scan_row_def passes_opt_def cut_rows_def visible_tuple_def versionCount_def)
  have vals: "values_beh sample_values int_schema = Rows [int_row 1, int_row 2] None" using sample_values_rows by (simp add: values_beh_def)
  have beh: "plan_beh sample_library ?c ?st ?cat sample_plan = Rows [combine_rows ([1, 2, 3], rid) (int_row 2)] None"
    using scan by (simp add: sample_plan_def table_of_name_def getTable_def count_of_def limit_value_def evaluate_def getAsInteger_def expr_ptr_def vals nlj_beh_def match_row_def join_match_def then_rows_def limit_beh_def limit_rows_def)
  have "\<forall>ti' \<in> scanned (sample_tree ?ti). stored ?c ?st ti'" using h by (simp add: sample_tree_def stored_def) metis
  then have "run_executor sample_library (sample_tree ?ti) ?c = Some ([combine_rows ([1, 2, 3], rid) (int_row 2)], None)"
    using query_run [OF pp, of ?c ?st sample_library] beh by (simp add: sample_tree_def)
  then show ?thesis using pp by blast
qed


end
