(* ===== verification/Optimizer.thy ===== *)
theory Optimizer
  imports Plans ConstantFolding
begin

text \<open>
  The rule-based optimizer: \<^verbatim>\<open>src/optimizer/\<close> (\<open>RuleExecutor\<close>, \<open>HamDBOptimizer\<close> and the rules).

  A rule rewrites a logical plan.  Most rules first rewrite the children and then the node, which is \<open>bottom_up\<close>;
  the rule executor does the same with the whole list of rules and records their names.  The decision of the
  cost-based rule, which compares two \<open>double\<close> estimates, is a parameter: what is shown of that rule holds for
  every cost model.
\<close>

subsection \<open>Expressions\<close>

fun SplitConjuncts :: "Expression \<Rightarrow> Expression list" where
  "SplitConjuncts ENullPtr = []"
| "SplitConjuncts (ELogic LogicalAnd a b) = SplitConjuncts a @ SplitConjuncts b"
| "SplitConjuncts e = [e]"

fun CombineConjuncts :: "Expression list \<Rightarrow> Expression" where
  "CombineConjuncts [] = ENullPtr"
| "CombineConjuncts (e # es) = foldl (ELogic LogicalAnd) e es"

fun GetColumns :: "Expression \<Rightarrow> nat list" where
  "GetColumns (EColumn i src) = [i]"
| "GetColumns (EArith op a b) = GetColumns a @ GetColumns b"
| "GetColumns (EComp op a b) = GetColumns a @ GetColumns b"
| "GetColumns (ELogic op a b) = GetColumns a @ GetColumns b"
| "GetColumns (ENot a) = GetColumns a"
| "GetColumns _ = []"

text \<open>\<open>getColIdx() + offset\<close> is computed in \<open>uint32_t\<close>; the new column has no tuple source.\<close>

fun ShiftExpression :: "Expression \<Rightarrow> int \<Rightarrow> Expression" where
  "ShiftExpression (EColumn i src) k = EColumn (nat ((int i + k) mod 2 ^ 32)) None"
| "ShiftExpression (EArith op a b) k = EArith op (ShiftExpression a k) (ShiftExpression b k)"
| "ShiftExpression (EComp op a b) k = EComp op (ShiftExpression a k) (ShiftExpression b k)"
| "ShiftExpression (ELogic op a b) k = ELogic op (ShiftExpression a k) (ShiftExpression b k)"
| "ShiftExpression (ENot a) k = ENot (ShiftExpression a k)"
| "ShiftExpression e k = e"

text \<open>Expressions with columns, all of them of the left or of the right input of a join whose left input has \<open>n\<close> columns.\<close>

definition only_left :: "nat \<Rightarrow> Expression \<Rightarrow> bool" where
  "only_left n e = (GetColumns e \<noteq> [] \<and> list_all (\<lambda>c. c < n) (GetColumns e))"

definition only_right :: "nat \<Rightarrow> Expression \<Rightarrow> bool" where
  "only_right n e = (GetColumns e \<noteq> [] \<and> list_all (\<lambda>c. n \<le> c) (GetColumns e))"

subsection \<open>Predicate pushdown\<close>

text \<open>The conjuncts of a filter for the left input, for the right input (as expressions over it), and the others.\<close>

definition left_conjuncts :: "nat \<Rightarrow> Expression \<Rightarrow> Expression list" where
  "left_conjuncts n p = filter (only_left n) (SplitConjuncts p)"

definition right_conjuncts :: "nat \<Rightarrow> Expression \<Rightarrow> Expression list" where
  "right_conjuncts n p = map (\<lambda>e. ShiftExpression e (- int n)) (filter (only_right n) (SplitConjuncts p))"

definition remain_conjuncts :: "nat \<Rightarrow> Expression \<Rightarrow> Expression list" where
  "remain_conjuncts n p = filter (\<lambda>e. \<not> only_left n e \<and> \<not> only_right n e) (SplitConjuncts p)"

text \<open>\<open>PredicatePushdownRule::apply\<close> of a filter, given its schema, predicate and child.\<close>

fun pushFilter :: "Schema \<Rightarrow> Expression \<Rightarrow> LogicalPlanNode \<Rightarrow> LogicalPlanNode" where
  "pushFilter sch p (LSeqScan s nm al q lim off) = LSeqScan s nm al (if q \<noteq> ENullPtr then ELogic LogicalAnd q p else p) lim off"
| "pushFilter sch p (LNestedLoopJoin s q l r) = (let n = getColumnCount (getOutputSchema l);
     lc = left_conjuncts n p; rc = right_conjuncts n p; rest = remain_conjuncts n p;
     l' = (if lc = [] then l else pushFilter (getOutputSchema l) (CombineConjuncts lc) l);
     r' = (if rc = [] then r else pushFilter (getOutputSchema r) (CombineConjuncts rc) r);
     join = LNestedLoopJoin s q l' r'
   in if rest = [] then join else LFilter sch (CombineConjuncts rest) join)"
| "pushFilter sch p (LHashJoin s lk rk l r) = (let n = getColumnCount (getOutputSchema l);
     lc = left_conjuncts n p; rc = right_conjuncts n p; rest = remain_conjuncts n p;
     l' = (if lc = [] then l else pushFilter (getOutputSchema l) (CombineConjuncts lc) l);
     r' = (if rc = [] then r else pushFilter (getOutputSchema r) (CombineConjuncts rc) r);
     join = LHashJoin s lk rk l' r'
   in if rest = [] then join else LFilter sch (CombineConjuncts rest) join)"
| "pushFilter sch p c = LFilter sch p c"

definition PredicatePushdownRule :: "LogicalPlanNode \<Rightarrow> LogicalPlanNode" where
  "PredicatePushdownRule plan = (case plan of LFilter sch p c \<Rightarrow> pushFilter sch p c | _ \<Rightarrow> plan)"

subsection \<open>Projection pruning\<close>

definition collectColumns :: "Expression \<Rightarrow> nat set" where
  "collectColumns e = set (GetColumns e)"

definition columns_of :: "Expression list \<Rightarrow> nat set" where
  "columns_of es = set (concat (map GetColumns es))"

definition pruned_schema :: "nat set \<Rightarrow> Schema \<Rightarrow> Schema" where
  "pruned_schema req sch = (let kept = map snd (filter (\<lambda>(i, c). i \<in> req) (zip [0..<length sch] sch))
     in if kept = [] \<and> sch \<noteq> [] then [hd sch] else kept)"

definition is_wildcard :: "Expression list \<Rightarrow> Schema \<Rightarrow> bool" where
  "is_wildcard es sch = (length es = getColumnCount sch \<and>
     list_all (\<lambda>(i, e). case e of EColumn j _ \<Rightarrow> j = i | _ \<Rightarrow> False) (zip [0..<length es] es))"

fun rewriteTopDown :: "LogicalPlanNode \<Rightarrow> nat set \<Rightarrow> LogicalPlanNode" where
  "rewriteTopDown (LProjection sch es c) req = LProjection sch es
     (rewriteTopDown c (if is_wildcard es (getOutputSchema c) then {0..<getColumnCount (getOutputSchema c)} else columns_of es))"
| "rewriteTopDown (LFilter sch p c) req = LFilter sch p (rewriteTopDown c (req \<union> collectColumns p))"
| "rewriteTopDown (LHaving sch p c) req = LHaving sch p (rewriteTopDown c (req \<union> collectColumns p))"
| "rewriteTopDown (LAggregation sch gbs aggs tys c) req = LAggregation sch gbs aggs tys (rewriteTopDown c (columns_of gbs \<union> columns_of aggs))"
| "rewriteTopDown (LNestedLoopJoin sch p l r) req = (let cr = req \<union> collectColumns p; n = getColumnCount (getOutputSchema l) in
     LNestedLoopJoin sch p (rewriteTopDown l {c \<in> cr. c < n}) (rewriteTopDown r ((\<lambda>c. c - n) ` {c \<in> cr. n \<le> c})))"
| "rewriteTopDown (LHashJoin sch lk rk l r) req = (let cr = req \<union> collectColumns lk \<union> collectColumns rk; n = getColumnCount (getOutputSchema l) in
     LHashJoin sch lk rk (rewriteTopDown l {c \<in> cr. c < n}) (rewriteTopDown r ((\<lambda>c. c - n) ` {c \<in> cr. n \<le> c})))"
| "rewriteTopDown (LSort sch obs c) req = LSort sch obs (rewriteTopDown c (req \<union> columns_of (map fst obs)))"
| "rewriteTopDown (LOrderBy sch obs c) req = LOrderBy sch obs (rewriteTopDown c (req \<union> columns_of (map fst obs)))"
| "rewriteTopDown (LLimit sch lim off c) req = LLimit sch lim off (rewriteTopDown c (req \<union> collectColumns lim \<union> collectColumns off))"
| "rewriteTopDown (LSeqScan sch nm al p lim off) req = (let sch' = pruned_schema (req \<union> collectColumns p) sch in
     if getColumnCount sch' = getColumnCount sch then LSeqScan sch nm al p lim off else LSeqScan sch' nm al p ENullPtr ENullPtr)"
| "rewriteTopDown (LIndexScan sch nm al p lim off) req = (let sch' = pruned_schema (req \<union> collectColumns p) sch in
     if getColumnCount sch' = getColumnCount sch then LIndexScan sch nm al p lim off else LIndexScan sch' nm al p ENullPtr ENullPtr)"
| "rewriteTopDown (LValues sch vs) req = LValues sch vs"
| "rewriteTopDown (LInsert sch nm c) req = LInsert sch nm (rewriteTopDown c req)"
| "rewriteTopDown (LUpdate sch nm cls c) req = LUpdate sch nm cls (rewriteTopDown c req)"
| "rewriteTopDown (LDelete sch nm c) req = LDelete sch nm (rewriteTopDown c req)"
| "rewriteTopDown (LTopK sch obs lim off c) req = LTopK sch obs lim off (rewriteTopDown c req)"

definition ProjectionPruningRule :: "LogicalPlanNode \<Rightarrow> LogicalPlanNode" where
  "ProjectionPruningRule plan = (case plan of LInsert _ _ _ \<Rightarrow> plan | LUpdate _ _ _ _ \<Rightarrow> plan | LDelete _ _ _ \<Rightarrow> plan | LValues _ _ \<Rightarrow> plan
     | _ \<Rightarrow> rewriteTopDown plan {0..<getColumnCount (getOutputSchema plan)})"

subsection \<open>Constant folding\<close>

fun fold_all :: "Expression list \<Rightarrow> exn + Expression list" where
  "fold_all [] = Inr []"
| "fold_all (e # es) = try_bind (foldExpression e) (\<lambda>e'. try_bind (fold_all es) (\<lambda>es'. Inr (e' # es')))"

fun fold_keys :: "(Expression \<times> bool) list \<Rightarrow> exn + (Expression \<times> bool) list" where
  "fold_keys [] = Inr []"
| "fold_keys ((e, asc) # obs) = try_bind (foldExpression e) (\<lambda>e'. try_bind (fold_keys obs) (\<lambda>obs'. Inr ((e', asc) # obs')))"

fun fold_clauses :: "(name \<times> Expression) list \<Rightarrow> exn + (name \<times> Expression) list" where
  "fold_clauses [] = Inr []"
| "fold_clauses ((n, e) # cls) = try_bind (foldExpression e) (\<lambda>e'. try_bind (fold_clauses cls) (\<lambda>cls'. Inr ((n, e') # cls')))"

fun fold_values :: "Expression list list \<Rightarrow> exn + Expression list list" where
  "fold_values [] = Inr []"
| "fold_values (row # rows) = try_bind (fold_all row) (\<lambda>row'. try_bind (fold_values rows) (\<lambda>rows'. Inr (row' # rows')))"

fun ConstantFoldingRule :: "LogicalPlanNode \<Rightarrow> exn + LogicalPlanNode" where
  "ConstantFoldingRule (LSeqScan sch nm al p lim off) = try_bind (foldExpression p) (\<lambda>p'. Inr (LSeqScan sch nm al p' lim off))"
| "ConstantFoldingRule (LNestedLoopJoin sch p l r) = try_bind (foldExpression p) (\<lambda>p'. Inr (LNestedLoopJoin sch p' l r))"
| "ConstantFoldingRule (LHashJoin sch lk rk l r) = try_bind (foldExpression lk) (\<lambda>lk'. try_bind (foldExpression rk) (\<lambda>rk'. Inr (LHashJoin sch lk' rk' l r)))"
| "ConstantFoldingRule (LIndexScan sch nm al p lim off) = try_bind (foldExpression p) (\<lambda>p'. Inr (LIndexScan sch nm al p' lim off))"
| "ConstantFoldingRule (LFilter sch p c) = try_bind (foldExpression p) (\<lambda>p'. Inr (LFilter sch p' c))"
| "ConstantFoldingRule (LProjection sch es c) = try_bind (fold_all es) (\<lambda>es'. Inr (LProjection sch es' c))"
| "ConstantFoldingRule (LSort sch obs c) = try_bind (fold_keys obs) (\<lambda>obs'. Inr (LSort sch obs' c))"
| "ConstantFoldingRule (LOrderBy sch obs c) = try_bind (fold_keys obs) (\<lambda>obs'. Inr (LOrderBy sch obs' c))"
| "ConstantFoldingRule (LLimit sch lim off c) = try_bind (foldExpression lim) (\<lambda>lim'. try_bind (foldExpression off) (\<lambda>off'. Inr (LLimit sch lim' off' c)))"
| "ConstantFoldingRule (LValues sch vs) = try_bind (fold_values vs) (\<lambda>vs'. Inr (LValues sch vs'))"
| "ConstantFoldingRule (LUpdate sch nm cls c) = try_bind (fold_clauses cls) (\<lambda>cls'. Inr (LUpdate sch nm cls' c))"
| "ConstantFoldingRule (LInsert sch nm c) = Inr (LInsert sch nm c)"
| "ConstantFoldingRule (LDelete sch nm c) = Inr (LDelete sch nm c)"
| "ConstantFoldingRule (LAggregation sch gbs aggs tys c) = try_bind (fold_all gbs) (\<lambda>gbs'. try_bind (fold_all aggs) (\<lambda>aggs'. Inr (LAggregation sch gbs' aggs' tys c)))"
| "ConstantFoldingRule (LHaving sch p c) = try_bind (foldExpression p) (\<lambda>p'. Inr (LHaving sch p' c))"
| "ConstantFoldingRule (LTopK sch obs lim off c) = try_bind (foldExpression lim) (\<lambda>lim'. try_bind (foldExpression off) (\<lambda>off'.
     try_bind (fold_keys obs) (\<lambda>obs'. Inr (LTopK sch obs' lim' off' c))))"

subsection \<open>Rules that rewrite the children first\<close>

fun bottom_up :: "(LogicalPlanNode \<Rightarrow> LogicalPlanNode) \<Rightarrow> LogicalPlanNode \<Rightarrow> LogicalPlanNode" where
  "bottom_up f (LFilter sch p c) = f (LFilter sch p (bottom_up f c))"
| "bottom_up f (LProjection sch es c) = f (LProjection sch es (bottom_up f c))"
| "bottom_up f (LSort sch obs c) = f (LSort sch obs (bottom_up f c))"
| "bottom_up f (LOrderBy sch obs c) = f (LOrderBy sch obs (bottom_up f c))"
| "bottom_up f (LLimit sch lim off c) = f (LLimit sch lim off (bottom_up f c))"
| "bottom_up f (LInsert sch nm c) = f (LInsert sch nm (bottom_up f c))"
| "bottom_up f (LUpdate sch nm cls c) = f (LUpdate sch nm cls (bottom_up f c))"
| "bottom_up f (LDelete sch nm c) = f (LDelete sch nm (bottom_up f c))"
| "bottom_up f (LNestedLoopJoin sch p l r) = f (LNestedLoopJoin sch p (bottom_up f l) (bottom_up f r))"
| "bottom_up f (LHashJoin sch lk rk l r) = f (LHashJoin sch lk rk (bottom_up f l) (bottom_up f r))"
| "bottom_up f (LAggregation sch gbs aggs tys c) = f (LAggregation sch gbs aggs tys (bottom_up f c))"
| "bottom_up f (LHaving sch p c) = f (LHaving sch p (bottom_up f c))"
| "bottom_up f (LTopK sch obs lim off c) = f (LTopK sch obs lim off (bottom_up f c))"
| "bottom_up f plan = f plan"

text \<open>An index scan for a comparison of the first column with a constant; a limit of the old scan is not carried over.\<close>

definition index_step :: "CatalogManager \<Rightarrow> LogicalPlanNode \<Rightarrow> LogicalPlanNode" where
  "index_step cat plan = (case plan of
     LSeqScan sch nm al (EComp op (EColumn i src) (EConst v)) lim off \<Rightarrow>
       if op \<noteq> NotEqual \<and> i = 0
       then (case getTable cat nm of (Ok, Some ti) \<Rightarrow>
           if ti_index_root_page ti \<noteq> kInvalidPageId then LIndexScan sch nm al (EComp op (EColumn i src) (EConst v)) ENullPtr ENullPtr else plan
         | _ \<Rightarrow> plan)
       else plan
   | _ \<Rightarrow> plan)"

definition IndexScanRule :: "CatalogManager \<Rightarrow> LogicalPlanNode \<Rightarrow> LogicalPlanNode" where
  "IndexScanRule cat = bottom_up (index_step cat)"

text \<open>The first conjunct that equates an expression of the left input with one of the right input, and the other conjuncts.\<close>

definition equi_keys :: "nat \<Rightarrow> Expression \<Rightarrow> (Expression \<times> Expression) option" where
  "equi_keys n e = (case e of EComp Equal a b \<Rightarrow>
       if only_left n a \<and> only_right n b then Some (a, ShiftExpression b (- int n))
       else if only_right n a \<and> only_left n b then Some (b, ShiftExpression a (- int n)) else None
     | _ \<Rightarrow> None)"

fun find_equi :: "nat \<Rightarrow> Expression list \<Rightarrow> (Expression \<times> Expression \<times> Expression list) option" where
  "find_equi n [] = None"
| "find_equi n (e # es) = (case equi_keys n e of Some (lk, rk) \<Rightarrow> Some (lk, rk, es)
     | None \<Rightarrow> map_option (\<lambda>(lk, rk, cs). (lk, rk, e # cs)) (find_equi n es))"

definition join_step :: "LogicalPlanNode \<Rightarrow> LogicalPlanNode" where
  "join_step plan = (case plan of
     LNestedLoopJoin sch p l r \<Rightarrow> (case find_equi (getColumnCount (getOutputSchema l)) (SplitConjuncts p) of
         Some (lk, rk, rest) \<Rightarrow> if rest \<noteq> [] then LFilter sch (CombineConjuncts rest) (LHashJoin sch lk rk l r) else LHashJoin sch lk rk l r
       | None \<Rightarrow> LNestedLoopJoin sch (CombineConjuncts (SplitConjuncts p)) l r)
   | _ \<Rightarrow> plan)"

definition JoinSelectionRule :: "LogicalPlanNode \<Rightarrow> LogicalPlanNode" where
  "JoinSelectionRule = bottom_up join_step"

definition cloneShiftedColumn :: "nat \<Rightarrow> int \<Rightarrow> Expression" where
  "cloneShiftedColumn i k = EColumn (nat ((int i + k) mod 2 ^ 32)) None"

fun extractEquiKeys :: "Expression \<Rightarrow> nat \<Rightarrow> (Expression \<times> Expression) option" where
  "extractEquiKeys (ELogic LogicalAnd a b) n = (case extractEquiKeys a n of Some ks \<Rightarrow> Some ks | None \<Rightarrow> extractEquiKeys b n)"
| "extractEquiKeys (EComp Equal (EColumn i _) (EColumn j _)) n =
     (if i < n \<and> n \<le> j then Some (cloneShiftedColumn i 0, cloneShiftedColumn j (- int n))
      else if n \<le> i \<and> j < n then Some (cloneShiftedColumn j 0, cloneShiftedColumn i (- int n)) else None)"
| "extractEquiKeys e n = None"

text \<open>\<open>cheaper\<close> tells whether the cost model prefers the hash join for a node.\<close>

definition cost_step :: "(LogicalPlanNode \<Rightarrow> bool) \<Rightarrow> LogicalPlanNode \<Rightarrow> LogicalPlanNode" where
  "cost_step cheaper plan = (case plan of
     LNestedLoopJoin sch p l r \<Rightarrow> (case extractEquiKeys p (getColumnCount (getOutputSchema l)) of
         Some (lk, rk) \<Rightarrow> if cheaper plan then LHashJoin sch lk rk l r else plan
       | None \<Rightarrow> plan)
   | _ \<Rightarrow> plan)"

definition CostBasedJoinRule :: "(LogicalPlanNode \<Rightarrow> bool) \<Rightarrow> LogicalPlanNode \<Rightarrow> LogicalPlanNode" where
  "CostBasedJoinRule cheaper = bottom_up (cost_step cheaper)"

definition top_k_step :: "LogicalPlanNode \<Rightarrow> LogicalPlanNode" where
  "top_k_step plan = (case plan of LLimit sch lim off (LOrderBy _ obs c) \<Rightarrow> LTopK sch obs lim off c | _ \<Rightarrow> plan)"

definition TopKOptimizationRule :: "LogicalPlanNode \<Rightarrow> LogicalPlanNode" where
  "TopKOptimizationRule = bottom_up top_k_step"

text \<open>The walk from a sort down to an index scan that yields the rows in the order of its first column.\<close>

fun index_ordered :: "nat \<Rightarrow> LogicalPlanNode \<Rightarrow> bool" where
  "index_ordered i (LProjection sch es c) = (i < length es \<and> (case es ! i of EColumn j _ \<Rightarrow> index_ordered j c | _ \<Rightarrow> False))"
| "index_ordered i (LFilter sch p c) = index_ordered i c"
| "index_ordered i (LIndexScan _ _ _ _ _ _) = (i = 0)"
| "index_ordered i _ = False"

definition can_eliminate :: "(Expression \<times> bool) list \<Rightarrow> LogicalPlanNode \<Rightarrow> bool" where
  "can_eliminate obs c = (case obs of [(EColumn i _, asc)] \<Rightarrow> asc \<and> index_ordered i c | _ \<Rightarrow> False)"

text \<open>The walk from a limit down to the scan that takes it over.\<close>

fun limit_scan :: "Expression \<Rightarrow> Expression \<Rightarrow> LogicalPlanNode \<Rightarrow> LogicalPlanNode option" where
  "limit_scan lim off (LProjection sch es c) = map_option (LProjection sch es) (limit_scan lim off c)"
| "limit_scan lim off (LFilter sch p c) = map_option (LFilter sch p) (limit_scan lim off c)"
| "limit_scan lim off (LSeqScan sch nm al p _ _) = Some (LSeqScan sch nm al p lim off)"
| "limit_scan lim off (LIndexScan sch nm al p _ _) = Some (LIndexScan sch nm al p lim off)"
| "limit_scan lim off _ = None"

definition sort_limit_step :: "LogicalPlanNode \<Rightarrow> LogicalPlanNode" where
  "sort_limit_step plan = (case plan of
     LSort sch obs c \<Rightarrow> if can_eliminate obs c then c else plan
   | LOrderBy sch obs c \<Rightarrow> if can_eliminate obs c then c else plan
   | LLimit sch lim off c \<Rightarrow> (case limit_scan lim off c of Some c' \<Rightarrow> c' | None \<Rightarrow> plan)
   | _ \<Rightarrow> plan)"

definition SortLimitRule :: "LogicalPlanNode \<Rightarrow> LogicalPlanNode" where
  "SortLimitRule = bottom_up sort_limit_step"

subsection \<open>The rule executor\<close>

type_synonym plan_rule = "LogicalPlanNode \<Rightarrow> exn + LogicalPlanNode"

fun apply_rules :: "(string \<times> plan_rule) list \<Rightarrow> LogicalPlanNode \<times> string list \<Rightarrow> exn + LogicalPlanNode \<times> string list" where
  "apply_rules [] s = Inr s"
| "apply_rules ((nm, rule) # rules) (plan, applied) = try_bind (rule plan) (\<lambda>plan'.
     apply_rules rules (plan', if nm \<in> set applied then applied else applied @ [nm]))"

text \<open>\<open>RuleExecutor::optimize\<close>: a node with one child, then a node with two.\<close>

definition one_child :: "(LogicalPlanNode \<times> 's \<Rightarrow> exn + LogicalPlanNode \<times> 's) \<Rightarrow> (LogicalPlanNode \<Rightarrow> LogicalPlanNode) \<Rightarrow>
    exn + LogicalPlanNode \<times> 's \<Rightarrow> exn + LogicalPlanNode \<times> 's" where
  "one_child step node r = try_bind r (\<lambda>(c, s). step (node c, s))"

fun optimize :: "(string \<times> plan_rule) list \<Rightarrow> LogicalPlanNode \<Rightarrow> string list \<Rightarrow> exn + LogicalPlanNode \<times> string list" where
  "optimize rs (LFilter sch p c) s = one_child (apply_rules rs) (LFilter sch p) (optimize rs c s)"
| "optimize rs (LProjection sch es c) s = one_child (apply_rules rs) (LProjection sch es) (optimize rs c s)"
| "optimize rs (LSort sch obs c) s = one_child (apply_rules rs) (LSort sch obs) (optimize rs c s)"
| "optimize rs (LOrderBy sch obs c) s = one_child (apply_rules rs) (LOrderBy sch obs) (optimize rs c s)"
| "optimize rs (LLimit sch lim off c) s = one_child (apply_rules rs) (LLimit sch lim off) (optimize rs c s)"
| "optimize rs (LInsert sch nm c) s = one_child (apply_rules rs) (LInsert sch nm) (optimize rs c s)"
| "optimize rs (LUpdate sch nm cls c) s = one_child (apply_rules rs) (LUpdate sch nm cls) (optimize rs c s)"
| "optimize rs (LDelete sch nm c) s = one_child (apply_rules rs) (LDelete sch nm) (optimize rs c s)"
| "optimize rs (LAggregation sch gbs aggs tys c) s = one_child (apply_rules rs) (LAggregation sch gbs aggs tys) (optimize rs c s)"
| "optimize rs (LHaving sch p c) s = one_child (apply_rules rs) (LHaving sch p) (optimize rs c s)"
| "optimize rs (LTopK sch obs lim off c) s = one_child (apply_rules rs) (LTopK sch obs lim off) (optimize rs c s)"
| "optimize rs (LNestedLoopJoin sch p l r) s = try_bind (optimize rs l s) (\<lambda>(l', s1).
     one_child (apply_rules rs) (LNestedLoopJoin sch p l') (optimize rs r s1))"
| "optimize rs (LHashJoin sch lk rk l r) s = try_bind (optimize rs l s) (\<lambda>(l', s1).
     one_child (apply_rules rs) (LHashJoin sch lk rk l') (optimize rs r s1))"
| "optimize rs plan s = apply_rules rs (plan, s)"

definition HamDBOptimizer :: "CatalogManager option \<Rightarrow> (LogicalPlanNode \<Rightarrow> bool) \<Rightarrow> (string \<times> plan_rule) list" where
  "HamDBOptimizer cat cheaper =
     [(''PredicatePushdownRule'', \<lambda>p. Inr (PredicatePushdownRule p)), (''ProjectionPruningRule'', \<lambda>p. Inr (ProjectionPruningRule p)),
      (''ConstantFoldingRule'', ConstantFoldingRule)] @
     (case cat of None \<Rightarrow> [] | Some c \<Rightarrow> [(''IndexScanRule'', \<lambda>p. Inr (IndexScanRule c p))]) @
     [(''JoinSelectionRule'', \<lambda>p. Inr (JoinSelectionRule p)), (''CostBasedJoinRule'', \<lambda>p. Inr (CostBasedJoinRule cheaper p)),
      (''TopKOptimizationRule'', \<lambda>p. Inr (TopKOptimizationRule p)), (''SortLimitRule'', \<lambda>p. Inr (SortLimitRule p))]"

subsection \<open>Conjuncts\<close>

fun no_arith :: "Expression \<Rightarrow> bool" where
  "no_arith (EArith op a b) = False"
| "no_arith (EComp op a b) = (no_arith a \<and> no_arith b)"
| "no_arith (ELogic op a b) = (no_arith a \<and> no_arith b)"
| "no_arith (ENot a) = no_arith a"
| "no_arith _ = True"

text \<open>An expression of type \<open>ty\<close> over the schema whose evaluation cannot fail.\<close>

definition safe :: "Schema \<Rightarrow> Expression \<Rightarrow> TypeId \<Rightarrow> bool" where
  "safe sch e ty = (typed sch e ty \<and> no_arith e)"

lemma safe_simps [simp]:
  "safe sch (EComp op a b) ty \<longleftrightarrow> ty = TypeBoolean \<and> (\<exists>t. t \<in> {TypeInteger, TypeBoolean, TypeVarchar} \<and> safe sch a t \<and> safe sch b t)"
  "safe sch (ELogic lop a b) ty \<longleftrightarrow> ty = TypeBoolean \<and> safe sch a TypeBoolean \<and> safe sch b TypeBoolean"
  "safe sch (ENot a) ty \<longleftrightarrow> ty = TypeBoolean \<and> safe sch a TypeBoolean"
  "safe sch (EArith aop a b) ty = False" "safe sch ENullPtr ty = False"
  "safe sch (EConst v) ty \<longleftrightarrow> has_type v ty" "safe sch (EParam i v bound) ty \<longleftrightarrow> bound \<and> has_type v ty"
  "safe sch (EColumn i src) ty \<longleftrightarrow> i < length sch \<and> type_of_column (sch ! i) = ty \<and> src \<noteq> Some SourceRight"
  by (auto simp: safe_def)

lemma comp_value: "has_type x ty \<Longrightarrow> has_type y ty \<Longrightarrow> \<exists>v. comp_eval op x y = Inr v \<and> has_type v TypeBoolean"
  by (cases op) (auto simp: comp_eval_def comparison_defs isNull_def getType_def has_type_def value_wf_def)

lemma logic_value: "has_type x TypeBoolean \<Longrightarrow> has_type y TypeBoolean \<Longrightarrow> \<exists>v. logic_eval op x y = Inr v \<and> has_type v TypeBoolean"
  by (cases op) (auto simp: logic_eval_def value_simps has_type_cases)

lemma not_value: "has_type x TypeBoolean \<Longrightarrow> \<exists>v. not_eval x = Inr v \<and> has_type v TypeBoolean"
  by (auto simp: not_eval_def value_simps has_type_cases)

lemma safe_value:
  assumes "encodes sch vs t"
  shows "safe sch e ty \<Longrightarrow> \<exists>v. evaluateJoin e (Some (t, sch)) None = Inr v \<and> has_type v ty"
proof (induction e arbitrary: ty)
  case (EColumn i src)
  then have "\<exists>v. column_evaluate i t sch = Inr v" using column_evaluate_encodes [OF assms, of i] assms by (auto simp: encodes_def dest: list_all2_lengthD)
  then show ?case using EColumn column_ok [OF assms, of i] by (auto simp: deref_column_def split: option.splits TupleSource.splits)
next
  case (EComp op a b)
  then obtain t' where "safe sch a t'" "safe sch b t'" "ty = TypeBoolean" by auto
  with EComp.IH comp_value show ?case by fastforce
next
  case (ELogic op a b)
  then show ?case using logic_value by fastforce
next
  case (ENot a)
  then show ?case using not_value by fastforce
qed (auto simp: param_eval_def)

text \<open>\<open>holds\<close>: the predicate is true of the row, so that a filter keeps it.\<close>

definition holds :: "Expression \<Rightarrow> Schema \<Rightarrow> Tuple \<Rightarrow> bool" where
  "holds e sch t = (evaluateJoin e (Some (t, sch)) None = Inr (VBool True))"

lemma evaluate_is_join: "safe sch e ty \<Longrightarrow> evaluate e t sch = evaluateJoin e (Some (t, sch)) None"
  by (cases e) (auto simp: evaluate_def deref_column_def split: option.splits TupleSource.splits)

lemma passes_holds:
  assumes "encodes sch vs (fst r)" "safe sch e TypeBoolean"
  shows "passes e sch r = Inr (holds e sch (fst r))"
  using safe_value [OF assms] evaluate_is_join [OF assms(2), of "fst r"] by (auto simp: passes_def holds_def has_type_cases value_simps)

lemma holds_and:
  assumes "encodes sch vs t" "safe sch a TypeBoolean" "safe sch b TypeBoolean"
  shows "holds (ELogic LogicalAnd a b) sch t \<longleftrightarrow> holds a sch t \<and> holds b sch t"
  using safe_value [OF assms(1,2)] safe_value [OF assms(1,3)] by (auto simp: holds_def logic_eval_def has_type_cases value_simps split: if_splits)

lemma split_safe: "safe sch e TypeBoolean \<Longrightarrow> c \<in> set (SplitConjuncts e) \<Longrightarrow> safe sch c TypeBoolean"
  by (induction e rule: SplitConjuncts.induct) auto

fun is_atom :: "Expression \<Rightarrow> bool" where
  "is_atom ENullPtr = False"
| "is_atom (ELogic LogicalAnd a b) = False"
| "is_atom _ = True"

lemma split_atoms: "c \<in> set (SplitConjuncts e) \<Longrightarrow> is_atom c"
  by (induction e rule: SplitConjuncts.induct) auto

lemma atom_split: "is_atom c \<Longrightarrow> SplitConjuncts c = [c]"
  by (cases c rule: is_atom.cases) auto

lemma shift_atom [simp]: "is_atom (ShiftExpression c k) = is_atom c"
  by (cases c rule: is_atom.cases) auto

lemma split_nonempty: "safe sch e TypeBoolean \<Longrightarrow> SplitConjuncts e \<noteq> []"
  by (induction e rule: SplitConjuncts.induct) auto

lemma holds_split:
  assumes "encodes sch vs t"
  shows "safe sch e TypeBoolean \<Longrightarrow> holds e sch t \<longleftrightarrow> (\<forall>c \<in> set (SplitConjuncts e). holds c sch t)"
  by (induction e rule: SplitConjuncts.induct) (auto simp: holds_and [OF assms])

lemma combine_safe: "es \<noteq> [] \<Longrightarrow> (\<And>e. e \<in> set es \<Longrightarrow> safe sch e TypeBoolean) \<Longrightarrow> safe sch (CombineConjuncts es) TypeBoolean"
proof (cases es)
  case (Cons e es')
  assume "\<And>e. e \<in> set es \<Longrightarrow> safe sch e TypeBoolean"
  then have "safe sch e TypeBoolean" "\<And>x. x \<in> set es' \<Longrightarrow> safe sch x TypeBoolean" using Cons by auto
  then have "safe sch (foldl (ELogic LogicalAnd) e es') TypeBoolean" by (induction es' arbitrary: e) auto
  then show ?thesis by (simp add: Cons)
qed simp

lemma split_combine: "(\<And>e. e \<in> set es \<Longrightarrow> is_atom e) \<Longrightarrow> SplitConjuncts (CombineConjuncts es) = es"
proof (cases es)
  case (Cons e es')
  have "(\<And>x. x \<in> set es' \<Longrightarrow> is_atom x) \<Longrightarrow> SplitConjuncts (foldl (ELogic LogicalAnd) e es') = SplitConjuncts e @ es'" for e
    by (induction es' arbitrary: e) (auto simp: atom_split)
  then show "(\<And>e. e \<in> set es \<Longrightarrow> is_atom e) \<Longrightarrow> ?thesis" by (simp add: Cons atom_split)
qed simp

lemma combine_clone: "safe sch e ty \<Longrightarrow> clone e = Inr e"
  by (induction e arbitrary: ty) auto

subsection \<open>One side of a join\<close>

lemma column_sides:
  assumes "encodes ls vl lt" "encodes rs vr rt"
  shows "i < length ls \<Longrightarrow> column_evaluate i (lt @ rt) (ls @ rs) = column_evaluate i lt ls"
    "length ls \<le> i \<Longrightarrow> i < length ls + length rs \<Longrightarrow> column_evaluate i (lt @ rt) (ls @ rs) = column_evaluate (i - length ls) rt rs"
proof -
  have len: "length vl = length ls" "length vr = length rs" using assms by (auto simp: encodes_def dest: list_all2_lengthD)
  note e = column_evaluate_encodes [OF encodes_append [OF assms], of i]
  show "i < length ls \<Longrightarrow> column_evaluate i (lt @ rt) (ls @ rs) = column_evaluate i lt ls"
    using e column_evaluate_encodes [OF assms(1), of i] len by (simp add: nth_append)
  show "length ls \<le> i \<Longrightarrow> i < length ls + length rs \<Longrightarrow> column_evaluate i (lt @ rt) (ls @ rs) = column_evaluate (i - length ls) rt rs"
    using e column_evaluate_encodes [OF assms(2), of "i - length ls"] len by (simp add: nth_append)
qed

lemma safe_left: "safe (ls @ rs) e ty \<Longrightarrow> list_all (\<lambda>c. c < length ls) (GetColumns e) \<Longrightarrow> safe ls e ty"
  by (induction e arbitrary: ty) (auto simp: nth_append)

lemma evaluate_left_side:
  assumes "encodes ls vl lt" "encodes rs vr rt"
  shows "safe (ls @ rs) e ty \<Longrightarrow> list_all (\<lambda>c. c < length ls) (GetColumns e) \<Longrightarrow>
    evaluateJoin e (Some (lt @ rt, ls @ rs)) None = evaluateJoin e (Some (lt, ls)) None"
proof (induction e arbitrary: ty)
  case (EColumn i src)
  then show ?case using column_sides(1) [OF assms, of i] by (auto simp: deref_column_def split: option.splits TupleSource.splits)
qed auto

lemma shift_back: "n \<le> i \<Longrightarrow> i < 2 ^ 32 \<Longrightarrow> nat ((int i + - int n) mod 2 ^ 32) = i - n"
  by (simp add: mod_pos_pos_trivial nat_diff_distrib)

lemma safe_right:
  assumes "length ls + length rs < 2 ^ 32"
  shows "safe (ls @ rs) e ty \<Longrightarrow> list_all (\<lambda>c. length ls \<le> c) (GetColumns e) \<Longrightarrow> safe rs (ShiftExpression e (- int (length ls))) ty"
proof (induction e arbitrary: ty)
  case (EColumn i src)
  then show ?case using shift_back [of "length ls" i] assms by (auto simp: nth_append)
qed auto

lemma evaluate_right_side:
  assumes "encodes ls vl lt" "encodes rs vr rt" "length ls + length rs < 2 ^ 32"
  shows "safe (ls @ rs) e ty \<Longrightarrow> list_all (\<lambda>c. length ls \<le> c) (GetColumns e) \<Longrightarrow>
    evaluateJoin e (Some (lt @ rt, ls @ rs)) None = evaluateJoin (ShiftExpression e (- int (length ls))) (Some (rt, rs)) None"
proof (induction e arbitrary: ty)
  case (EColumn i src)
  then show ?case using column_sides(2) [OF assms(1,2), of i] shift_back [of "length ls" i] assms(3)
    by (auto simp: deref_column_def split: option.splits TupleSource.splits)
qed auto


subsection \<open>What a plan denotes\<close>

definition build :: "CatalogManager \<Rightarrow> LogicalPlanNode \<Rightarrow> exn + Executor" where
  "build cat plan = try_bind (planNode cat plan) (createExecutor cat)"

definition well_encoded :: "Schema \<Rightarrow> row list \<Rightarrow> bool" where
  "well_encoded sch rows = (\<forall>r \<in> set rows. \<exists>vs. encodes sch vs (fst r))"

text \<open>
  The plan is executed by a tree of reading executors that returns the rows without an exception; the rows have the
  schema of the plan.
\<close>

definition denotes :: "library \<Rightarrow> ExecutorContext \<Rightarrow> store \<Rightarrow> CatalogManager \<Rightarrow> LogicalPlanNode \<Rightarrow> row list \<Rightarrow> bool" where
  "denotes lib c st cat plan rows = (well_encoded (getOutputSchema plan) rows \<and>
     (\<exists>x. build cat plan = Inr x \<and> reads_only x \<and> (\<forall>ti \<in> scanned x. stored c st ti) \<and>
        exec_beh lib c st x = Rows rows None \<and> outputSchema x = getOutputSchema plan))"

lemma denotesE:
  assumes "denotes lib c st cat plan rows"
  obtains x pp where "planNode cat plan = Inr pp" "createExecutor cat pp = Inr x" "reads_only x" "\<forall>ti \<in> scanned x. stored c st ti"
    "exec_beh lib c st x = Rows rows None" "outputSchema x = getOutputSchema plan" "well_encoded (getOutputSchema plan) rows"
  using assms by (auto simp: denotes_def build_def try_bind_Inr)

text \<open>\<open>returns\<close>: the same without a promise about the encoding of the rows.\<close>

definition returns_rows :: "library \<Rightarrow> ExecutorContext \<Rightarrow> store \<Rightarrow> CatalogManager \<Rightarrow> LogicalPlanNode \<Rightarrow> row list \<Rightarrow> bool" where
  "returns_rows lib c st cat plan rows = (\<exists>x. build cat plan = Inr x \<and> reads_only x \<and> (\<forall>ti \<in> scanned x. stored c st ti) \<and> exec_beh lib c st x = Rows rows None)"

lemma returns_run:
  assumes "returns_rows lib c st cat plan rows"
  shows "\<exists>x. build cat plan = Inr x \<and> run_executor lib x c = Some (rows, None)"
proof -
  obtain x where x: "build cat plan = Inr x" "reads_only x" "\<forall>ti \<in> scanned x. stored c st ti" "exec_beh lib c st x = Rows rows None"
    using assms by (auto simp: returns_rows_def)
  have "runs_as lib c st x" using exec_contract [OF x(2)] x(3) by blast
  then obtain ini nxt iv pend where "exec_ops lib x = (ini, nxt)" and E: "executor ini nxt iv pend (exec_beh lib c st x)" "iv (new_state x, c)"
    by (rule runs_asE)
  then show ?thesis using executor.run_beh [OF E] x by (auto simp: run_executor_def)
qed

lemma denotes_returns: "denotes lib c st cat plan rows \<Longrightarrow> returns_rows lib c st cat plan rows"
  by (auto simp: denotes_def returns_rows_def)

lemmas denotes_run = returns_run [OF denotes_returns]

lemma well_encoded_filter: "well_encoded sch rows \<Longrightarrow> well_encoded sch (filter P rows)"
  by (auto simp: well_encoded_def)

lemma filter_rows_pure:
  assumes "well_encoded sch rows" "safe sch p TypeBoolean"
  shows "trans_rows (filter_row p sch) rows None = (filter (\<lambda>r. holds p sch (fst r)) rows, None)"
proof -
  have "trans_rows (filter_row p sch) rows None = (List.map_filter (\<lambda>r. if holds p sch (fst r) then Some r else None) rows, None)"
    by (rule trans_rows_pure) (use assms passes_holds in \<open>fastforce simp: filter_row_def well_encoded_def\<close>)
  moreover have "List.map_filter (\<lambda>r. if P r then Some r else None) xs = filter P xs" for P and xs :: "row list"
    by (induction xs) (simp_all add: List.map_filter_def)
  ultimately show ?thesis by simp
qed

lemma denotes_filter:
  assumes "denotes lib c st cat child rows" "sch = getOutputSchema child" "safe sch p TypeBoolean"
  shows "denotes lib c st cat (LFilter sch p child) (filter (\<lambda>r. holds p sch (fst r)) rows)"
proof -
  obtain x pp where x: "planNode cat child = Inr pp" "createExecutor cat pp = Inr x" "reads_only x" "\<forall>ti \<in> scanned x. stored c st ti"
    "exec_beh lib c st x = Rows rows None" "outputSchema x = getOutputSchema child" "well_encoded (getOutputSchema child) rows"
    using assms(1) by (rule denotesE)
  then show ?thesis using filter_rows_pure [of sch rows p] assms(2,3)
    by (simp add: denotes_def build_def beh_map_def well_encoded_filter)
qed

definition join_of :: "(row \<Rightarrow> row \<Rightarrow> bool) \<Rightarrow> row list \<Rightarrow> row list \<Rightarrow> row list" where
  "join_of m ls rs = concat (map (\<lambda>l. map (combine_rows l) (filter (m l) rs)) ls)"

lemma well_encoded_join: "well_encoded s1 ls \<Longrightarrow> well_encoded s2 rs \<Longrightarrow> well_encoded (s1 @ s2) (join_of m ls rs)"
  by (fastforce simp: well_encoded_def join_of_def combine_rows_def dest: encodes_append)

lemma denotes_product:
  assumes "denotes lib c st cat l ls" "denotes lib c st cat r rs" "sch = getOutputSchema l @ getOutputSchema r"
  shows "denotes lib c st cat (LNestedLoopJoin sch ENullPtr l r) (join_of (\<lambda>_ _. True) ls rs)"
proof -
  obtain x px where x: "planNode cat l = Inr px" "createExecutor cat px = Inr x" "reads_only x" "\<forall>ti \<in> scanned x. stored c st ti"
    "exec_beh lib c st x = Rows ls None" "outputSchema x = getOutputSchema l" "well_encoded (getOutputSchema l) ls" using assms(1) by (rule denotesE)
  obtain y py where y: "planNode cat r = Inr py" "createExecutor cat py = Inr y" "reads_only y" "\<forall>ti \<in> scanned y. stored c st ti"
    "exec_beh lib c st y = Rows rs None" "outputSchema y = getOutputSchema r" "well_encoded (getOutputSchema r) rs" using assms(2) by (rule denotesE)
  have "join_rows (match_row None (outputSchema x) (outputSchema y)) rs None ls None = (join_of (\<lambda>_ _. True) ls rs, None)"
    unfolding join_of_def by (rule join_rows_pure) (simp add: join_match_def)
  then have "nlj_beh (match_row None (outputSchema x) (outputSchema y)) (Rows ls None) (Rows rs None) = Rows (join_of (\<lambda>_ _. True) ls rs) None"
    by (cases ls) (simp_all add: nlj_beh_def)
  then show ?thesis using x y assms(3) well_encoded_join [OF x(7) y(7)]
    by (auto simp: denotes_def build_def clone_ptr_def expr_ptr_def)
qed

lemma denotes_hash:
  assumes "denotes lib c st cat l ls" "denotes lib c st cat r rs" "sch = getOutputSchema l @ getOutputSchema r"
    and keys: "clone lk = Inr lk" "clone rk = Inr rk" "\<And>a. a \<in> set ls \<Longrightarrow> probe_key lk (getOutputSchema l) a = Inr (kl a)"
    "\<And>b. b \<in> set rs \<Longrightarrow> hash_key rk (getOutputSchema r) b = Inr (kr b)"
  shows "denotes lib c st cat (LHashJoin sch lk rk l r) (join_of (\<lambda>a b. kl a = kr b \<and> \<not> isNull (kl a)) ls rs)"
proof -
  obtain x px where x: "planNode cat l = Inr px" "createExecutor cat px = Inr x" "reads_only x" "\<forall>ti \<in> scanned x. stored c st ti"
    "exec_beh lib c st x = Rows ls None" "outputSchema x = getOutputSchema l" "well_encoded (getOutputSchema l) ls" using assms(1) by (rule denotesE)
  obtain y py where y: "planNode cat r = Inr py" "createExecutor cat py = Inr y" "reads_only y" "\<forall>ti \<in> scanned y. stored c st ti"
    "exec_beh lib c st y = Rows rs None" "outputSchema y = getOutputSchema r" "well_encoded (getOutputSchema r) rs" using assms(2) by (rule denotesE)
  have "hj_beh lk (outputSchema x) rk (outputSchema y) (Rows ls None) (Rows rs None) = Rows (join_of (\<lambda>a b. kl a = kr b \<and> \<not> isNull (kl a)) ls rs) None"
    unfolding join_of_def by (rule hash_join_beh) (use keys x(6) y(6) in auto)
  moreover have "clone_ptr lk = Inr lk" "clone_ptr rk = Inr rk" using keys by (simp_all add: clone_ptr_def)
  ultimately show ?thesis using x y assms(3) well_encoded_join [OF x(7) y(7)] by (auto simp: denotes_def build_def)
qed

lemma denotes_scan:
  assumes "table_of_name cat nm = Inr ti" "ti_schema ti = sch" "stored c st ti" "well_encoded sch (visible_rows c (st (ti_heap_root_page ti)))"
    "q = ENullPtr \<or> safe sch q TypeBoolean"
  shows "denotes lib c st cat (LSeqScan sch nm al q ENullPtr ENullPtr)
    (filter (\<lambda>r. q = ENullPtr \<or> holds q sch (fst r)) (visible_rows c (st (ti_heap_root_page ti))))"
proof (cases "q = ENullPtr")
  case True
  then show ?thesis using assms
    by (simp add: denotes_def build_def limit_value_def expr_ptr_def heap_beh_def scan_rows_visible cut_rows_def)
next
  case False
  then show ?thesis using assms filter_rows_pure [OF assms(4), of q]
    by (simp add: denotes_def build_def limit_value_def expr_ptr_def heap_beh_def scan_rows_visible cut_rows_def well_encoded_filter)
qed

subsection \<open>Pushing a predicate down\<close>

lemma filter_join:
  assumes "\<And>a b. a \<in> set ls \<Longrightarrow> b \<in> set rs \<Longrightarrow> P (combine_rows a b) \<longleftrightarrow> Pl a \<and> Pr b \<and> R (combine_rows a b)"
  shows "filter P (join_of m ls rs) = filter R (join_of m (filter Pl ls) (filter Pr rs))"
  using assms
proof (induction ls)
  case (Cons a ls)
  have "filter P (map (combine_rows a) (filter (m a) zs)) =
      (if Pl a then filter R (map (combine_rows a) (filter (m a) (filter Pr zs))) else [])" if "set zs \<subseteq> set rs" for zs
    using that by (induction zs) (auto simp: Cons.prems)
  then show ?case using Cons by (simp add: join_of_def)
qed (simp add: join_of_def)

lemma push_schema [simp]: "sch = getOutputSchema c \<Longrightarrow> getOutputSchema (pushFilter sch p c) = sch"
  by (cases c) (simp_all add: Let_def)

lemma combined_encoded: "encodes ls va (fst a) \<Longrightarrow> encodes rs vb (fst b) \<Longrightarrow> encodes (ls @ rs) (va @ vb) (fst (combine_rows a b))"
  by (simp add: combine_rows_def encodes_append)

lemma holds_sides:
  assumes "encodes ls va (fst a)" "encodes rs vb (fst b)" "length ls + length rs < 2 ^ 32" "safe (ls @ rs) p TypeBoolean"
  shows "holds p (ls @ rs) (fst (combine_rows a b)) \<longleftrightarrow>
    (\<forall>c \<in> set (left_conjuncts (length ls) p). holds c ls (fst a)) \<and> (\<forall>c \<in> set (right_conjuncts (length ls) p). holds c rs (fst b)) \<and>
    (\<forall>c \<in> set (remain_conjuncts (length ls) p). holds c (ls @ rs) (fst (combine_rows a b)))"
proof -
  let ?n = "length ls" and ?t = "fst (combine_rows a b)"
  have t: "?t = fst a @ fst b" by (simp add: combine_rows_def)
  have l: "holds c (ls @ rs) ?t \<longleftrightarrow> holds c ls (fst a)" if "c \<in> set (SplitConjuncts p)" "only_left ?n c" for c
    using evaluate_left_side [OF assms(1,2) split_safe [OF assms(4) that(1)]] that(2) by (simp add: holds_def only_left_def t)
  have r: "holds c (ls @ rs) ?t \<longleftrightarrow> holds (ShiftExpression c (- int ?n)) rs (fst b)" if "c \<in> set (SplitConjuncts p)" "only_right ?n c" for c
    using evaluate_right_side [OF assms(1-3) split_safe [OF assms(4) that(1)]] that(2) by (simp add: holds_def only_right_def t)
  have "holds p (ls @ rs) ?t \<longleftrightarrow> (\<forall>c \<in> set (SplitConjuncts p). holds c (ls @ rs) ?t)"
    by (rule holds_split [OF combined_encoded [OF assms(1,2)] assms(4)])
  then show ?thesis using l r by (auto simp: left_conjuncts_def right_conjuncts_def remain_conjuncts_def)
qed

lemma sides_safe:
  assumes "safe (ls @ rs) p TypeBoolean" "length ls + length rs < 2 ^ 32"
  shows "c \<in> set (left_conjuncts (length ls) p) \<Longrightarrow> safe ls c TypeBoolean \<and> is_atom c"
    "c \<in> set (right_conjuncts (length ls) p) \<Longrightarrow> safe rs c TypeBoolean \<and> is_atom c"
    "c \<in> set (remain_conjuncts (length ls) p) \<Longrightarrow> safe (ls @ rs) c TypeBoolean \<and> is_atom c"
  using split_safe [OF assms(1)] split_atoms [of _ p] safe_left [of ls rs _ TypeBoolean] safe_right [OF assms(2), of _ TypeBoolean]
  by (auto simp: left_conjuncts_def right_conjuncts_def remain_conjuncts_def only_left_def only_right_def)

lemma combined_holds:
  assumes "encodes sch vs t" "es \<noteq> []" "\<And>e. e \<in> set es \<Longrightarrow> safe sch e TypeBoolean \<and> is_atom e"
  shows "holds (CombineConjuncts es) sch t \<longleftrightarrow> (\<forall>c \<in> set es. holds c sch t)"
  using holds_split [OF assms(1) combine_safe [OF assms(2)]] assms(3) split_combine [of es] by simp

lemma push_combined:
  assumes "well_encoded sch rows" "\<And>e. e \<in> set es \<Longrightarrow> safe sch e TypeBoolean \<and> is_atom e" "sch = getOutputSchema l"
    and "denotes lib c st cat l rows" "\<And>q. safe sch q TypeBoolean \<Longrightarrow> denotes lib c st cat (psh q) (filter (\<lambda>r. holds q sch (fst r)) rows)"
  shows "denotes lib c st cat (if es = [] then l else psh (CombineConjuncts es)) (filter (\<lambda>r. \<forall>e \<in> set es. holds e sch (fst r)) rows)"
proof (cases "es = []")
  case False
  have "filter (\<lambda>r. holds (CombineConjuncts es) sch (fst r)) rows = filter (\<lambda>r. \<forall>e \<in> set es. holds e sch (fst r)) rows"
    by (rule filter_cong [OF refl]) (use assms(1) combined_holds [OF _ False] assms(2) in \<open>fastforce simp: well_encoded_def\<close>)
  then show ?thesis using False assms(5) [OF combine_safe [OF False]] assms(2) by simp
qed (use assms in simp)

lemma push_join:
  fixes p :: Expression and ls :: Schema
  defines "lc \<equiv> left_conjuncts (length ls) p" and "rc \<equiv> right_conjuncts (length ls) p" and "rest \<equiv> remain_conjuncts (length ls) p"
  assumes p: "safe (ls @ rs) p TypeBoolean" "length ls + length rs < 2 ^ 32" and s: "getOutputSchema l = ls" "getOutputSchema r = rs"
    and d: "denotes lib c st cat l xs" "denotes lib c st cat r ys"
    and IH: "\<And>q. safe ls q TypeBoolean \<Longrightarrow> denotes lib c st cat (pushFilter ls q l) (filter (\<lambda>r. holds q ls (fst r)) xs)"
      "\<And>q. safe rs q TypeBoolean \<Longrightarrow> denotes lib c st cat (pushFilter rs q r) (filter (\<lambda>r. holds q rs (fst r)) ys)"
    and J: "\<And>l' r' xs' ys'. denotes lib c st cat l' xs' \<Longrightarrow> getOutputSchema l' = ls \<Longrightarrow> set xs' \<subseteq> set xs \<Longrightarrow> denotes lib c st cat r' ys' \<Longrightarrow>
      getOutputSchema r' = rs \<Longrightarrow> set ys' \<subseteq> set ys \<Longrightarrow> denotes lib c st cat (join l' r') (join_of m xs' ys')" "\<And>l' r'. getOutputSchema (join l' r') = ls @ rs"
    and l': "l' = (if lc = [] then l else pushFilter ls (CombineConjuncts lc) l)" and r': "r' = (if rc = [] then r else pushFilter rs (CombineConjuncts rc) r)"
  shows "denotes lib c st cat (if rest = [] then join l' r' else LFilter (ls @ rs) (CombineConjuncts rest) (join l' r'))
    (filter (\<lambda>t. holds p (ls @ rs) (fst t)) (join_of m xs ys))"
proof -
  have w: "well_encoded ls xs" "well_encoded rs ys" using d s by (auto simp: denotes_def)
  let ?xs = "filter (\<lambda>r. \<forall>e \<in> set lc. holds e ls (fst r)) xs" and ?ys = "filter (\<lambda>r. \<forall>e \<in> set rc. holds e rs (fst r)) ys"
  note safe = sides_safe [OF p, folded lc_def rc_def rest_def]
  have L: "denotes lib c st cat l' ?xs" unfolding l' by (rule push_combined [OF w(1) safe(1) s(1) [symmetric] d(1) IH(1)])
  have R: "denotes lib c st cat r' ?ys" unfolding r' by (rule push_combined [OF w(2) safe(2) s(2) [symmetric] d(2) IH(2)])
  have join: "denotes lib c st cat (join l' r') (join_of m ?xs ?ys)"
    by (rule J(1) [OF L _ _ R]) (use s in \<open>auto simp: l' r'\<close>)
  have D: "denotes lib c st cat (if rest = [] then join l' r' else LFilter (ls @ rs) (CombineConjuncts rest) (join l' r'))
      (filter (\<lambda>t. \<forall>e \<in> set rest. holds e (ls @ rs) (fst t)) (join_of m ?xs ?ys))"
    by (rule push_combined [where sch = "ls @ rs"], rule well_encoded_join)
      (use w safe(3) join J(2) denotes_filter [OF join] in \<open>auto simp: well_encoded_filter\<close>)
  have "holds p (ls @ rs) (fst (combine_rows a b)) \<longleftrightarrow> (\<forall>e \<in> set lc. holds e ls (fst a)) \<and> (\<forall>e \<in> set rc. holds e rs (fst b)) \<and>
      (\<forall>e \<in> set rest. holds e (ls @ rs) (fst (combine_rows a b)))" if "a \<in> set xs" "b \<in> set ys" for a b
    using w that holds_sides [OF _ _ p(2,1), of _ a _ b] unfolding well_encoded_def lc_def rc_def rest_def by blast
  then show ?thesis using D by (simp add: filter_join)
qed

text \<open>
  The plans the rule is applied to: scans of encoded rows without a limit, cross products and hash joins with the
  combined schema, over any other plan that returns rows.
\<close>

fun pushable :: "library \<Rightarrow> ExecutorContext \<Rightarrow> store \<Rightarrow> CatalogManager \<Rightarrow> LogicalPlanNode \<Rightarrow> bool" where
  "pushable lib c st cat (LSeqScan sch nm al q lim off) = (lim = ENullPtr \<and> off = ENullPtr \<and> (q = ENullPtr \<or> safe sch q TypeBoolean) \<and>
     (\<exists>ti. table_of_name cat nm = Inr ti \<and> ti_schema ti = sch \<and> stored c st ti \<and> well_encoded sch (visible_rows c (st (ti_heap_root_page ti)))))"
| "pushable lib c st cat (LNestedLoopJoin sch p l r) = (p = ENullPtr \<and> sch = getOutputSchema l @ getOutputSchema r \<and> length sch < 2 ^ 32 \<and>
     pushable lib c st cat l \<and> pushable lib c st cat r)"
| "pushable lib c st cat (LHashJoin sch lk rk l r) = (sch = getOutputSchema l @ getOutputSchema r \<and> length sch < 2 ^ 32 \<and>
     clone lk = Inr lk \<and> clone rk = Inr rk \<and> (\<forall>vs t. encodes (getOutputSchema l) vs t \<longrightarrow> (\<exists>v. evaluateJoin lk (Some (t, getOutputSchema l)) None = Inr v)) \<and>
     (\<forall>vs t. encodes (getOutputSchema r) vs t \<longrightarrow> (\<exists>v. evaluateJoin rk None (Some (t, getOutputSchema r)) = Inr v)) \<and>
     pushable lib c st cat l \<and> pushable lib c st cat r)"
| "pushable lib c st cat plan = (\<exists>rows. denotes lib c st cat plan rows)"

lemma scan_safe_and: "encodes sch vs t \<Longrightarrow> q = ENullPtr \<or> safe sch q TypeBoolean \<Longrightarrow> safe sch p TypeBoolean \<Longrightarrow>
    holds (if q \<noteq> ENullPtr then ELogic LogicalAnd q p else p) sch t \<longleftrightarrow> (q = ENullPtr \<or> holds q sch t) \<and> holds p sch t"
  by (auto simp: holds_and)

lemma push_scan:
  assumes "pushable lib c st cat (LSeqScan sch nm al q lim off)"
  shows "\<exists>rows. denotes lib c st cat (LSeqScan sch nm al q lim off) rows \<and> (\<forall>p. safe sch p TypeBoolean \<longrightarrow>
    denotes lib c st cat (pushFilter sch p (LSeqScan sch nm al q lim off)) (filter (\<lambda>r. holds p sch (fst r)) rows))"
proof -
  obtain ti where ti: "table_of_name cat nm = Inr ti" "ti_schema ti = sch" "stored c st ti" "well_encoded sch (visible_rows c (st (ti_heap_root_page ti)))"
    and q: "q = ENullPtr \<or> safe sch q TypeBoolean" "lim = ENullPtr" "off = ENullPtr" using assms by auto
  let ?vis = "visible_rows c (st (ti_heap_root_page ti))"
  have "denotes lib c st cat (pushFilter sch p (LSeqScan sch nm al q lim off))
      (filter (\<lambda>r. holds p sch (fst r)) (filter (\<lambda>r. q = ENullPtr \<or> holds q sch (fst r)) ?vis))" if p: "safe sch p TypeBoolean" for p
  proof -
    let ?q = "if q \<noteq> ENullPtr then ELogic LogicalAnd q p else p"
    have "?q = ENullPtr \<or> safe sch ?q TypeBoolean" "?q \<noteq> ENullPtr" using q p by auto
    then have "denotes lib c st cat (LSeqScan sch nm al ?q ENullPtr ENullPtr) (filter (\<lambda>r. holds ?q sch (fst r)) ?vis)"
      using denotes_scan [OF ti, of ?q lib al] by simp
    moreover have "filter (\<lambda>r. holds ?q sch (fst r)) ?vis = filter (\<lambda>r. holds p sch (fst r)) (filter (\<lambda>r. q = ENullPtr \<or> holds q sch (fst r)) ?vis)"
      using ti(4) scan_safe_and [OF _ q(1) p] unfolding filter_filter by (intro filter_cong) (auto simp: well_encoded_def)
    ultimately show ?thesis using q by simp
  qed
  then show ?thesis using denotes_scan [OF ti q(1), of lib al] q by blast
qed

lemma hash_keys_exist:
  assumes "well_encoded ls xs" "well_encoded rs ys" "\<forall>vs t. encodes ls vs t \<longrightarrow> (\<exists>v. evaluateJoin lk (Some (t, ls)) None = Inr v)"
    "\<forall>vs t. encodes rs vs t \<longrightarrow> (\<exists>v. evaluateJoin rk None (Some (t, rs)) = Inr v)"
  shows "\<exists>kl kr. (\<forall>a \<in> set xs. probe_key lk ls a = Inr (kl a)) \<and> (\<forall>b \<in> set ys. hash_key rk rs b = Inr (kr b))"
proof -
  have "\<exists>kl. \<forall>a \<in> set xs. probe_key lk ls a = Inr (kl a)"
    using assms(1,3) unfolding well_encoded_def probe_key_def by (intro bchoice) blast
  moreover have "\<exists>kr. \<forall>b \<in> set ys. hash_key rk rs b = Inr (kr b)"
    using assms(2,4) unfolding well_encoded_def hash_key_def by (intro bchoice) blast
  ultimately show ?thesis by blast
qed

lemma push_denotes:
  "pushable lib c st cat plan \<Longrightarrow> \<exists>rows. denotes lib c st cat plan rows \<and>
    (\<forall>p. safe (getOutputSchema plan) p TypeBoolean \<longrightarrow>
       denotes lib c st cat (pushFilter (getOutputSchema plan) p plan) (filter (\<lambda>r. holds p (getOutputSchema plan) (fst r)) rows))"
proof (induction plan)
  case (LSeqScan sch nm al q lim off)
  then show ?case using push_scan by simp
next
  case (LNestedLoopJoin sch q l r)
  let ?ls = "getOutputSchema l" and ?rs = "getOutputSchema r"
  have prem: "q = ENullPtr" "sch = ?ls @ ?rs" "length ?ls + length ?rs < 2 ^ 32" using LNestedLoopJoin.prems by auto
  obtain xs where xs: "denotes lib c st cat l xs"
    "\<And>p. safe ?ls p TypeBoolean \<Longrightarrow> denotes lib c st cat (pushFilter ?ls p l) (filter (\<lambda>r. holds p ?ls (fst r)) xs)"
    using LNestedLoopJoin.IH(1) LNestedLoopJoin.prems by auto
  obtain ys where ys: "denotes lib c st cat r ys"
    "\<And>p. safe ?rs p TypeBoolean \<Longrightarrow> denotes lib c st cat (pushFilter ?rs p r) (filter (\<lambda>r. holds p ?rs (fst r)) ys)"
    using LNestedLoopJoin.IH(2) LNestedLoopJoin.prems by auto
  have J: "denotes lib c st cat (LNestedLoopJoin sch q l' r') (join_of (\<lambda>_ _. True) xs' ys')" if "denotes lib c st cat l' xs'" "getOutputSchema l' = ?ls"
      "set xs' \<subseteq> set xs" "denotes lib c st cat r' ys'" "getOutputSchema r' = ?rs" "set ys' \<subseteq> set ys" for l' r' xs' ys'
    using denotes_product [OF that(1,4)] that prem by simp
  have "denotes lib c st cat (pushFilter sch p (LNestedLoopJoin sch q l r)) (filter (\<lambda>r. holds p sch (fst r)) (join_of (\<lambda>_ _. True) xs ys))"
    if "safe sch p TypeBoolean" for p
  proof -
    have "safe (?ls @ ?rs) p TypeBoolean" "\<And>l' r'. getOutputSchema (LNestedLoopJoin sch q l' r') = ?ls @ ?rs" using that prem(2) by simp_all
    note push_join [where join = "LNestedLoopJoin sch q" and m = "\<lambda>_ _. True", OF this(1) prem(3) refl refl xs(1) ys(1) xs(2) ys(2) J this(2) refl refl, folded prem(2)]
    then show ?thesis unfolding pushFilter.simps Let_def getColumnCount_def .
  qed
  then show ?case using J [OF xs(1) refl subset_refl ys(1) refl subset_refl] by auto
next
  case (LHashJoin sch lk rk l r)
  let ?ls = "getOutputSchema l" and ?rs = "getOutputSchema r"
  have prem: "sch = ?ls @ ?rs" "length ?ls + length ?rs < 2 ^ 32" "clone lk = Inr lk" "clone rk = Inr rk" using LHashJoin.prems by auto
  obtain xs where xs: "denotes lib c st cat l xs"
    "\<And>p. safe ?ls p TypeBoolean \<Longrightarrow> denotes lib c st cat (pushFilter ?ls p l) (filter (\<lambda>r. holds p ?ls (fst r)) xs)"
    using LHashJoin.IH(1) LHashJoin.prems by auto
  obtain ys where ys: "denotes lib c st cat r ys"
    "\<And>p. safe ?rs p TypeBoolean \<Longrightarrow> denotes lib c st cat (pushFilter ?rs p r) (filter (\<lambda>r. holds p ?rs (fst r)) ys)"
    using LHashJoin.IH(2) LHashJoin.prems by auto
  have "well_encoded ?ls xs" "well_encoded ?rs ys" using xs(1) ys(1) by (auto simp: denotes_def)
  then obtain kl kr where k: "\<And>a. a \<in> set xs \<Longrightarrow> probe_key lk ?ls a = Inr (kl a)" "\<And>b. b \<in> set ys \<Longrightarrow> hash_key rk ?rs b = Inr (kr b)"
    using hash_keys_exist [of ?ls xs ?rs ys lk rk] LHashJoin.prems by auto
  let ?m = "\<lambda>a b. kl a = kr b \<and> \<not> isNull (kl a)"
  have J: "denotes lib c st cat (LHashJoin sch lk rk l' r') (join_of ?m xs' ys')" if "denotes lib c st cat l' xs'" "getOutputSchema l' = ?ls" "set xs' \<subseteq> set xs"
      "denotes lib c st cat r' ys'" "getOutputSchema r' = ?rs" "set ys' \<subseteq> set ys" for l' r' xs' ys'
    by (rule denotes_hash [OF that(1,4) _ prem(3,4)]) (use that k prem(1) in auto)
  have "denotes lib c st cat (pushFilter sch p (LHashJoin sch lk rk l r)) (filter (\<lambda>r. holds p sch (fst r)) (join_of ?m xs ys))"
    if "safe sch p TypeBoolean" for p
  proof -
    have "safe (?ls @ ?rs) p TypeBoolean" "\<And>l' r'. getOutputSchema (LHashJoin sch lk rk l' r') = ?ls @ ?rs" using that prem(1) by simp_all
    note push_join [where join = "LHashJoin sch lk rk" and m = ?m, OF this(1) prem(2) refl refl xs(1) ys(1) xs(2) ys(2) J this(2) refl refl, folded prem(1)]
    then show ?thesis unfolding pushFilter.simps Let_def getColumnCount_def .
  qed
  then show ?case using J [OF xs(1) refl subset_refl ys(1) refl subset_refl] by auto
qed (use denotes_filter in fastforce)+

subsection \<open>Selecting a hash join\<close>

lemma shifted_on_right: "evaluateJoin (ShiftExpression e k) None (Some x) = evaluateJoin (ShiftExpression e k) (Some x) None"
  by (induction e) auto

lemma equals_holds:
  assumes "has_type x ty" "has_type y ty"
  shows "comp_eval Equal x y = Inr (VBool True) \<longleftrightarrow> x = y \<and> \<not> isNull x"
  using assms by (cases x; cases y) (auto simp: comp_eval_def compareEquals_def value_simps has_type_def getType_def)

lemma equi_keys_cases:
  assumes "equi_keys n e = Some (lk, rk)"
  obtains a b where "e = EComp Equal a b" "only_left n a" "only_right n b" "lk = a" "rk = ShiftExpression b (- int n)"
  | a b where "e = EComp Equal a b" "only_right n a" "only_left n b" "lk = b" "rk = ShiftExpression a (- int n)"
  using assms by (auto simp: equi_keys_def split: Expression.splits ComparisonType.splits if_splits)

lemma find_equi_split:
  "find_equi n es = Some (lk, rk, rest) \<Longrightarrow> \<exists>e. equi_keys n e = Some (lk, rk) \<and> set es = insert e (set rest)"
proof (induction es arbitrary: rest)
  case (Cons x es)
  show ?case
  proof (cases "equi_keys n x")
    case None
    then obtain rest' where r: "find_equi n es = Some (lk, rk, rest')" "rest = x # rest'" using Cons.prems by (auto split: option.splits)
    then obtain e where "equi_keys n e = Some (lk, rk)" "set es = insert e (set rest')" using Cons.IH by blast
    then show ?thesis using r by (intro exI [of _ e]) auto
  qed (use Cons.prems in auto)
qed simp

lemma equi_keys_hold:
  assumes "equi_keys (length ls) e = Some (lk, rk)" "safe (ls @ rs) e TypeBoolean" "length ls + length rs < 2 ^ 32"
  shows "\<exists>ty. safe ls lk ty \<and> safe rs rk ty \<and> (\<forall>va lt vb rt x y. encodes ls va lt \<longrightarrow> encodes rs vb rt \<longrightarrow>
    evaluateJoin lk (Some (lt, ls)) None = Inr x \<longrightarrow> evaluateJoin rk None (Some (rt, rs)) = Inr y \<longrightarrow>
    (holds e (ls @ rs) (lt @ rt) \<longleftrightarrow> x = y \<and> \<not> isNull x))"
  using assms(1)
proof (cases rule: equi_keys_cases)
  case (1 a b)
  obtain ty where ty: "safe (ls @ rs) a ty" "safe (ls @ rs) b ty" using assms(2) 1(1) by auto
  have s: "safe ls lk ty" "safe rs rk ty"
    using safe_left [OF ty(1)] safe_right [OF assms(3) ty(2)] 1 by (auto simp: only_left_def only_right_def)
  moreover have "holds e (ls @ rs) (lt @ rt) \<longleftrightarrow> x = y \<and> \<not> isNull x" if e: "encodes ls va lt" "encodes rs vb rt"
      and xy: "evaluateJoin lk (Some (lt, ls)) None = Inr x" "evaluateJoin rk None (Some (rt, rs)) = Inr y" for va lt vb rt x y
  proof -
    have "evaluateJoin a (Some (lt @ rt, ls @ rs)) None = Inr x" "evaluateJoin b (Some (lt @ rt, ls @ rs)) None = Inr y"
      using xy 1 evaluate_left_side [OF e ty(1)] evaluate_right_side [OF e assms(3) ty(2)] shifted_on_right
      by (auto simp: only_left_def only_right_def)
    moreover have "has_type x ty" "has_type y ty" using safe_value [OF e(1) s(1)] safe_value [OF e(2) s(2)] xy 1 shifted_on_right by auto
    ultimately show ?thesis using equals_holds by (simp add: holds_def 1(1))
  qed
  ultimately show ?thesis by blast
next
  case (2 a b)
  obtain ty where ty: "safe (ls @ rs) a ty" "safe (ls @ rs) b ty" using assms(2) 2(1) by auto
  have s: "safe ls lk ty" "safe rs rk ty"
    using safe_left [OF ty(2)] safe_right [OF assms(3) ty(1)] 2 by (auto simp: only_left_def only_right_def)
  moreover have "holds e (ls @ rs) (lt @ rt) \<longleftrightarrow> x = y \<and> \<not> isNull x" if e: "encodes ls va lt" "encodes rs vb rt"
      and xy: "evaluateJoin lk (Some (lt, ls)) None = Inr x" "evaluateJoin rk None (Some (rt, rs)) = Inr y" for va lt vb rt x y
  proof -
    have "evaluateJoin b (Some (lt @ rt, ls @ rs)) None = Inr x" "evaluateJoin a (Some (lt @ rt, ls @ rs)) None = Inr y"
      using xy 2 evaluate_left_side [OF e ty(2)] evaluate_right_side [OF e assms(3) ty(1)] shifted_on_right
      by (auto simp: only_left_def only_right_def)
    moreover have "has_type x ty" "has_type y ty" using safe_value [OF e(1) s(1)] safe_value [OF e(2) s(2)] xy 2 shifted_on_right by auto
    ultimately show ?thesis using equals_holds [of y ty x] by (auto simp: holds_def 2(1))
  qed
  ultimately show ?thesis by blast
qed

lemma join_step_denotes:
  assumes d: "denotes lib c st cat l xs" "denotes lib c st cat r ys" and s: "getOutputSchema l = ls" "getOutputSchema r = rs"
    and p: "safe (ls @ rs) p TypeBoolean" "length ls + length rs < 2 ^ 32" and f: "find_equi (length ls) (SplitConjuncts p) = Some (lk, rk, rest)"
  shows "denotes lib c st cat (join_step (LNestedLoopJoin (ls @ rs) p l r)) (filter (\<lambda>t. holds p (ls @ rs) (fst t)) (join_of (\<lambda>_ _. True) xs ys))"
proof -
  obtain e where e: "equi_keys (length ls) e = Some (lk, rk)" "e \<in> set (SplitConjuncts p)" "set (SplitConjuncts p) = insert e (set rest)"
    using find_equi_split [OF f] by blast
  have w: "well_encoded ls xs" "well_encoded rs ys" using d s by (auto simp: denotes_def)
  obtain ty where ty: "safe ls lk ty" "safe rs rk ty" and
    eq: "\<And>va lt vb rt x y. encodes ls va lt \<Longrightarrow> encodes rs vb rt \<Longrightarrow> evaluateJoin lk (Some (lt, ls)) None = Inr x \<Longrightarrow>
      evaluateJoin rk None (Some (rt, rs)) = Inr y \<Longrightarrow> holds e (ls @ rs) (lt @ rt) \<longleftrightarrow> x = y \<and> \<not> isNull x"
    using equi_keys_hold [OF e(1) split_safe [OF p(1) e(2)] p(2)] by blast
  have shift: "\<exists>b k. rk = ShiftExpression b k" using e(1) by (cases rule: equi_keys_cases) auto
  have "\<exists>v. evaluateJoin lk (Some (t, ls)) None = Inr v" if "encodes ls vs t" for vs t using safe_value [OF that ty(1)] by blast
  moreover have "\<exists>v. evaluateJoin rk None (Some (t, rs)) = Inr v" if "encodes rs vs t" for vs t
    using safe_value [OF that ty(2)] shift shifted_on_right by metis
  ultimately obtain kl kr where k: "\<forall>a \<in> set xs. probe_key lk ls a = Inr (kl a)" "\<forall>b \<in> set ys. hash_key rk rs b = Inr (kr b)"
    using hash_keys_exist [OF w, of lk rk] by blast
  let ?m = "\<lambda>a b. kl a = kr b \<and> \<not> isNull (kl a)"
  have H: "denotes lib c st cat (LHashJoin (ls @ rs) lk rk l r) (join_of ?m xs ys)"
    by (rule denotes_hash [OF d]) (use k s combine_clone ty in auto)
  have rest: "safe (ls @ rs) x TypeBoolean \<and> is_atom x" if "x \<in> set rest" for x using that e(3) split_safe [OF p(1)] split_atoms by blast
  have D: "denotes lib c st cat (if rest = [] then LHashJoin (ls @ rs) lk rk l r else LFilter (ls @ rs) (CombineConjuncts rest) (LHashJoin (ls @ rs) lk rk l r))
      (filter (\<lambda>t. \<forall>x \<in> set rest. holds x (ls @ rs) (fst t)) (join_of ?m xs ys))"
    by (rule push_combined [where sch = "ls @ rs", OF well_encoded_join [OF w] rest _ H]) (simp_all add: denotes_filter [OF H])
  have "join_of ?m xs ys = filter (\<lambda>t. holds e (ls @ rs) (fst t)) (join_of (\<lambda>_ _. True) xs ys)"
  proof -
    have "holds e (ls @ rs) (fst (combine_rows a b)) \<longleftrightarrow> ?m a b" if "a \<in> set xs" "b \<in> set ys" for a b
      using that w eq k by (fastforce simp: well_encoded_def combine_rows_def probe_key_def hash_key_def)
    then have "filter (\<lambda>t. holds e (ls @ rs) (fst t)) (map (combine_rows a) ys) = map (combine_rows a) (filter (?m a) ys)" if "a \<in> set xs" for a
      using that by (simp add: filter_map comp_def cong: filter_cong)
    then show ?thesis by (simp add: join_of_def filter_concat cong: map_cong)
  qed
  moreover have "holds p (ls @ rs) (fst t) \<longleftrightarrow> holds e (ls @ rs) (fst t) \<and> (\<forall>x \<in> set rest. holds x (ls @ rs) (fst t))" if "t \<in> set (join_of (\<lambda>_ _. True) xs ys)" for t
    using that well_encoded_join [OF w, of "\<lambda>_ _. True"] holds_split [OF _ p(1)] e(3) by (fastforce simp: well_encoded_def)
  ultimately have "filter (\<lambda>t. \<forall>x \<in> set rest. holds x (ls @ rs) (fst t)) (join_of ?m xs ys) = filter (\<lambda>t. holds p (ls @ rs) (fst t)) (join_of (\<lambda>_ _. True) xs ys)"
    by (auto intro!: filter_cong simp: conj_commute)
  then show ?thesis using D f s by (auto simp: join_step_def getColumnCount_def split: if_splits)
qed

text \<open>After the selection of hash joins nothing is left for the cost-based rule.\<close>

fun no_equi :: "LogicalPlanNode \<Rightarrow> bool" where
  "no_equi (LFilter sch p c) = no_equi c"
| "no_equi (LProjection sch es c) = no_equi c"
| "no_equi (LSort sch obs c) = no_equi c"
| "no_equi (LOrderBy sch obs c) = no_equi c"
| "no_equi (LLimit sch lim off c) = no_equi c"
| "no_equi (LInsert sch nm c) = no_equi c"
| "no_equi (LUpdate sch nm cls c) = no_equi c"
| "no_equi (LDelete sch nm c) = no_equi c"
| "no_equi (LNestedLoopJoin sch p l r) = (extractEquiKeys p (length (getOutputSchema l)) = None \<and> no_equi l \<and> no_equi r)"
| "no_equi (LHashJoin sch lk rk l r) = (no_equi l \<and> no_equi r)"
| "no_equi (LAggregation sch gbs aggs tys c) = no_equi c"
| "no_equi (LHaving sch p c) = no_equi c"
| "no_equi (LTopK sch obs lim off c) = no_equi c"
| "no_equi _ = True"

lemma extract_none: "find_equi n es = None \<Longrightarrow> (\<And>e. e \<in> set es \<Longrightarrow> is_atom e) \<Longrightarrow> extractEquiKeys (CombineConjuncts es) n = None"
proof -
  assume none: "find_equi n es = None" and atoms: "\<And>e. e \<in> set es \<Longrightarrow> is_atom e"
  have one: "extractEquiKeys e n = None" if "equi_keys n e = None" "is_atom e" for e
    using that by (cases "(e, n)" rule: extractEquiKeys.cases) (auto simp: equi_keys_def only_left_def only_right_def split: if_splits)
  have all: "\<forall>e \<in> set es. extractEquiKeys e n = None"
    using none atoms by (induction es) (auto simp: one split: option.splits)
  have "extractEquiKeys e n = None \<Longrightarrow> \<forall>x \<in> set es'. extractEquiKeys x n = None \<Longrightarrow> extractEquiKeys (foldl (ELogic LogicalAnd) e es') n = None" for e es'
    by (induction es' arbitrary: e) auto
  then show ?thesis using all by (cases es) auto
qed

lemma join_selection_no_equi: "no_equi (JoinSelectionRule plan)"
  unfolding JoinSelectionRule_def
  by (induction plan) (auto simp: join_step_def getColumnCount_def extract_none split_atoms split: option.splits)

lemma cost_identity: "no_equi plan \<Longrightarrow> bottom_up (cost_step cheaper) plan = plan"
  by (induction plan) (auto simp: cost_step_def getColumnCount_def)

subsection \<open>Pruning\<close>

text \<open>The executor factory takes the schema of a scan from the catalog, not from the plan.\<close>

fun erase :: "PhysicalPlan \<Rightarrow> PhysicalPlan" where
  "erase (PSeqScan sch nm al p l m) = PSeqScan [] nm al p l m"
| "erase (PIndexScan sch nm al p l m) = PIndexScan [] nm al p l m"
| "erase (PFilter sch p c) = PFilter sch p (erase c)"
| "erase (PProjection sch es c) = PProjection sch es (erase c)"
| "erase (PSort sch obs c) = PSort sch obs (erase c)"
| "erase (POrderBy sch obs c) = POrderBy sch obs (erase c)"
| "erase (PLimit sch l m c) = PLimit sch l m (erase c)"
| "erase (PValues sch vs) = PValues sch vs"
| "erase (PInsert sch nm c) = PInsert sch nm (erase c)"
| "erase (PUpdate sch nm es c) = PUpdate sch nm es (erase c)"
| "erase (PDelete sch nm c) = PDelete sch nm (erase c)"
| "erase (PNestedLoopJoin sch p l r) = PNestedLoopJoin sch p (erase l) (erase r)"
| "erase (PHashJoin sch lk rk l r) = PHashJoin sch lk rk (erase l) (erase r)"
| "erase (PAggregation sch gbs aggs tys c) = PAggregation sch gbs aggs tys (erase c)"
| "erase (PHaving sch p c) = PHaving sch p (erase c)"
| "erase (PTopK sch obs l m c) = PTopK sch obs l m (erase c)"

fun scans_unlimited :: "LogicalPlanNode \<Rightarrow> bool" where
  "scans_unlimited (LSeqScan sch nm al p lim off) = (lim = ENullPtr \<and> off = ENullPtr)"
| "scans_unlimited (LIndexScan sch nm al p lim off) = (lim = ENullPtr \<and> off = ENullPtr)"
| "scans_unlimited (LFilter sch p c) = scans_unlimited c"
| "scans_unlimited (LProjection sch es c) = scans_unlimited c"
| "scans_unlimited (LSort sch obs c) = scans_unlimited c"
| "scans_unlimited (LOrderBy sch obs c) = scans_unlimited c"
| "scans_unlimited (LLimit sch lim off c) = scans_unlimited c"
| "scans_unlimited (LInsert sch nm c) = scans_unlimited c"
| "scans_unlimited (LUpdate sch nm cls c) = scans_unlimited c"
| "scans_unlimited (LDelete sch nm c) = scans_unlimited c"
| "scans_unlimited (LNestedLoopJoin sch p l r) = (scans_unlimited l \<and> scans_unlimited r)"
| "scans_unlimited (LHashJoin sch lk rk l r) = (scans_unlimited l \<and> scans_unlimited r)"
| "scans_unlimited (LAggregation sch gbs aggs tys c) = scans_unlimited c"
| "scans_unlimited (LHaving sch p c) = scans_unlimited c"
| "scans_unlimited (LTopK sch obs lim off c) = scans_unlimited c"
| "scans_unlimited (LValues sch vs) = True"

lemma erase_executor: "createExecutor cat (erase pp) = createExecutor cat pp"
  by (induction pp) simp_all

definition same_plan :: "exn + PhysicalPlan \<Rightarrow> exn + PhysicalPlan \<Rightarrow> bool" where
  "same_plan a b = (map_sum id erase a = map_sum id erase b)"

lemma same_plan_bind:
  assumes "same_plan a b" "\<And>x y. erase x = erase y \<Longrightarrow> same_plan (k x) (h y)"
  shows "same_plan (try_bind a k) (try_bind b h)"
  using assms by (cases a; cases b) (auto simp: same_plan_def)

lemma same_plan_refl [simp]: "same_plan a a"
  by (simp add: same_plan_def)

lemma same_plan_Inr [simp]: "same_plan (Inr x) (Inr y) \<longleftrightarrow> erase x = erase y"
  by (simp add: same_plan_def)

lemma same_plan_under: "(\<And>v. same_plan (k v) (h v)) \<Longrightarrow> same_plan (try_bind r k) (try_bind r h)"
  by (cases r) auto

lemma prune_same: "scans_unlimited plan \<Longrightarrow> same_plan (planNode cat (rewriteTopDown plan req)) (planNode cat plan)"
proof (induction plan arbitrary: req)
  case (LSeqScan sch nm al p lim off)
  then show ?case by (simp add: Let_def limit_value_def same_plan_def)
next
  case (LIndexScan sch nm al p lim off)
  then show ?case by (simp add: Let_def limit_value_def same_plan_def)
qed (auto simp: Let_def intro!: same_plan_bind same_plan_under)

lemma same_plan_build: "same_plan (planNode cat p) (planNode cat q) \<Longrightarrow> build cat p = build cat q"
  using erase_executor by (cases "planNode cat p"; cases "planNode cat q") (auto simp: same_plan_def build_def, metis)

subsection \<open>Limits\<close>

text \<open>Projections, and nothing else, over a scan that has no limit yet.\<close>

fun limitable :: "LogicalPlanNode \<Rightarrow> bool" where
  "limitable (LProjection sch es c) = limitable c"
| "limitable (LSeqScan sch nm al p lim off) = (lim = ENullPtr \<and> off = ENullPtr)"
| "limitable _ = False"

lemma trans_rows_each:
  assumes "\<And>x. k x \<noteq> Inr None"
  shows "trans_rows k xs None = (ys, None) \<longleftrightarrow> list_all2 (\<lambda>x y. k x = Inr (Some y)) xs ys"
proof (induction xs arbitrary: ys)
  case (Cons x xs)
  show ?case
  proof (cases "k x")
    case (Inr r)
    then obtain y where r: "r = Some y" using assms [of x] by (cases r) auto
    obtain zs g where z: "trans_rows k xs None = (zs, g)" by fastforce
    have "(case trans_rows k xs None of (zs, g) \<Rightarrow> (y # zs, g)) = (ys, None) \<longleftrightarrow> (\<exists>zs'. ys = y # zs' \<and> trans_rows k xs None = (zs', None))"
      using z by auto
    then show ?thesis using Cons Inr r by (auto simp: list_all2_Cons1)
  qed (auto simp: list_all2_Cons1)
qed auto

lemma projection_row_some: "projection_row es cs os r \<noteq> Inr None"
  by (auto simp: projection_row_def try_bind_Inr)

lemma trans_rows_end: "trans_rows k xs f = (ys, None) \<Longrightarrow> f = None"
  by (induction xs arbitrary: ys) (auto split: sum.splits option.splits prod.splits)

lemma trans_rows_window:
  "trans_rows (projection_row es cs os) xs None = (ys, None) \<Longrightarrow>
   trans_rows (projection_row es cs os) (take l (drop m xs)) None = (take l (drop m ys), None)"
  unfolding trans_rows_each [OF projection_row_some] by (intro list_all2_takeI list_all2_dropI)

lemma window_returns:
  assumes "limit_value lim size_t_max = Inr l" "limit_value off 0 = Inr m" "0 < l" "l < size_t_max"
  shows "limitable plan \<Longrightarrow> build cat plan = Inr x \<Longrightarrow> reads_only x \<Longrightarrow> exec_beh lib c st x = Rows ys None \<Longrightarrow>
    \<exists>plan' x'. limit_scan lim off plan = Some plan' \<and> build cat plan' = Inr x' \<and> reads_only x' \<and> scanned x' = scanned x \<and>
      outputSchema x' = outputSchema x \<and> exec_beh lib c st x' = Rows (take l (drop m ys)) None"
proof (induction plan arbitrary: x ys)
  case (LSeqScan sch nm al p lim' off')
  then obtain ti where ti: "table_of_name cat nm = Inr ti" "x = XSeqScan ti (expr_ptr p) size_t_max 0"
    by (auto simp: build_def limit_value_def try_bind_Inr)
  obtain zs g where z: "trans_rows (scan_row c (expr_ptr p) (ti_schema ti)) (stored_rows (st (ti_heap_root_page ti))) None = (zs, g)" by fastforce
  then have "zs = ys" "g = None" using LSeqScan.prems(4) ti(2) by (auto simp: heap_beh_def cut_rows_def)
  then show ?case using assms ti z by (simp add: build_def heap_beh_def cut_rows_def limit_rows_def)
next
  case (LProjection sch es plan)
  obtain pp y where y: "planNode cat plan = Inr pp" "createExecutor cat pp = Inr y" "x = XProjection es sch y"
    using LProjection.prems(2) by (auto simp: build_def try_bind_Inr)
  obtain zs where zs: "exec_beh lib c st y = Rows zs None" "trans_rows (projection_row es (outputSchema y) sch) zs None = (ys, None)"
    using LProjection.prems(4) y(3) trans_rows_end by (fastforce simp: beh_map_def split: behaviour.splits prod.splits)
  obtain plan' x' where "limit_scan lim off plan = Some plan'" "build cat plan' = Inr x'" "reads_only x'" "scanned x' = scanned y"
      "outputSchema x' = outputSchema y" "exec_beh lib c st x' = Rows (take l (drop m zs)) None"
    using LProjection.IH [of y zs] LProjection.prems y zs(1) by (auto simp: build_def)
  then show ?case using y(3) trans_rows_window [OF zs(2), of l m] by (auto simp: build_def beh_map_def try_bind_Inr)
qed auto

subsection \<open>Properties\<close>

text \<open>
  C27. Predicate pushdown preserves the result of a query: a filter with a well-typed predicate without arithmetic over scans,
  cross products and hash joins (in any nesting, above any plans that return rows) returns exactly the same rows in the same order
  after \<open>PredicatePushdownRule\<close>, which splits the predicate, moves the conjuncts of one input of a join into that input
  (renumbering the columns of the right input), merges them into scans, and keeps the others above the join.
\<close>

theorem pushdown_preserves_rows:
  assumes "pushable lib c st cat child" "sch = getOutputSchema child" "safe sch p TypeBoolean"
  shows "\<exists>x y rows. build cat (LFilter sch p child) = Inr x \<and> run_executor lib x c = Some (rows, None) \<and>
    build cat (PredicatePushdownRule (LFilter sch p child)) = Inr y \<and> run_executor lib y c = Some (rows, None)"
proof -
  obtain rows where "denotes lib c st cat child rows" "denotes lib c st cat (pushFilter sch p child) (filter (\<lambda>r. holds p sch (fst r)) rows)"
    using push_denotes [OF assms(1)] assms(2,3) by blast
  then show ?thesis
    using denotes_run [OF denotes_filter [OF _ assms(2,3)]] denotes_run by (fastforce simp: PredicatePushdownRule_def)
qed

text \<open>\<open>VALUES (1), (2)\<close> as a plan.\<close>

definition sample_node :: LogicalPlanNode where
  "sample_node = LValues int_schema sample_values"

definition scan_catalog :: "PageId \<Rightarrow> CatalogManager" where
  "scan_catalog root = \<lparr>cat_tables = [([116], default_TableInfo\<lparr>ti_heap_root_page := root\<rparr>)], next_table_id = 0\<rparr>"

lemma sample_denotes: "denotes lib c st cat sample_node [int_row 1, int_row 2]"
proof -
  have "well_encoded int_schema [int_row 1, int_row 2]"
    using int_row_encodes [of 1] int_row_encodes [of 2] by (auto simp: well_encoded_def int32_def)
  then show ?thesis using sample_values_rows by (simp add: denotes_def build_def sample_node_def values_beh_def)
qed

definition two_ints :: Schema where
  "two_ints = int_schema @ int_schema"

definition sample_predicate :: Expression where
  "sample_predicate = ELogic LogicalAnd (EComp Equal (EColumn 0 None) (EColumn 1 None)) (EComp LessThan (EConst (VInt 1)) (EColumn 1 None))"

lemma sample_safe: "safe two_ints sample_predicate TypeBoolean"
  by (auto simp: sample_predicate_def two_ints_def int_schema_def type_of_column_def has_type_cases int32_def)

theorem pushdown_preserves_rows_witness:
  "\<exists>x y rows. build (scan_catalog 0) (LFilter two_ints sample_predicate (LNestedLoopJoin two_ints ENullPtr sample_node sample_node)) = Inr x \<and>
     run_executor sample_library x (fresh_context fresh_db) = Some (rows, None) \<and>
     build (scan_catalog 0) (LFilter two_ints (EComp Equal (EColumn 0 None) (EColumn 1 None)) (LNestedLoopJoin two_ints ENullPtr sample_node
       (LFilter int_schema (EComp LessThan (EConst (VInt 1)) (EColumn 0 None)) sample_node))) = Inr y \<and> run_executor sample_library y (fresh_context fresh_db) = Some (rows, None)"
proof -
  let ?child = "LNestedLoopJoin two_ints ENullPtr sample_node sample_node"
  have "pushable sample_library (fresh_context fresh_db) st (scan_catalog 0) sample_node" for st using sample_denotes [of sample_library "fresh_context fresh_db" st "scan_catalog 0"] by (auto simp: sample_node_def)
  then have P: "pushable sample_library (fresh_context fresh_db) st (scan_catalog 0) ?child" for st by (simp add: two_ints_def sample_node_def) (simp add: int_schema_def)
  have "PredicatePushdownRule (LFilter two_ints sample_predicate ?child) = LFilter two_ints (EComp Equal (EColumn 0 None) (EColumn 1 None))
      (LNestedLoopJoin two_ints ENullPtr sample_node (LFilter int_schema (EComp LessThan (EConst (VInt 1)) (EColumn 0 None)) sample_node))"
    by (simp add: PredicatePushdownRule_def sample_predicate_def sample_node_def left_conjuncts_def right_conjuncts_def remain_conjuncts_def
        only_left_def only_right_def getColumnCount_def int_schema_def)
  then show ?thesis using pushdown_preserves_rows [OF P _ sample_safe] by (simp add: sample_node_def two_ints_def)
qed

text \<open>
  C28. Join selection: a nested loop join whose predicate contains an equation between the two inputs becomes a hash join with a
  filter for the other conjuncts, and the new plan returns exactly the pairs of rows (left rows in order, right rows in order
  below each) on which the whole predicate is true.
\<close>

theorem join_selection_rows:
  assumes "denotes lib c st cat l xs" "denotes lib c st cat r ys" "sch = getOutputSchema l @ getOutputSchema r" "length sch < 2 ^ 32"
    and "safe sch p TypeBoolean" "find_equi (length (getOutputSchema l)) (SplitConjuncts p) \<noteq> None"
  shows "\<exists>x. build cat (join_step (LNestedLoopJoin sch p l r)) = Inr x \<and>
    run_executor lib x c = Some (filter (\<lambda>t. passes p sch t = Inr True) (concat (map (\<lambda>a. map (combine_rows a) ys) xs)), None)"
proof -
  let ?ls = "getOutputSchema l" and ?rs = "getOutputSchema r"
  obtain lk rk rest where f: "find_equi (length ?ls) (SplitConjuncts p) = Some (lk, rk, rest)" using assms(6) by auto
  have w: "well_encoded sch (join_of (\<lambda>_ _. True) xs ys)" using assms(1-3) well_encoded_join by (auto simp: denotes_def)
  have "filter (\<lambda>t. holds p sch (fst t)) (join_of (\<lambda>_ _. True) xs ys) = filter (\<lambda>t. passes p sch t = Inr True) (join_of (\<lambda>_ _. True) xs ys)"
    using w passes_holds [OF _ assms(5)] by (intro filter_cong) (auto simp: well_encoded_def)
  moreover have "denotes lib c st cat (join_step (LNestedLoopJoin sch p l r)) (filter (\<lambda>t. holds p sch (fst t)) (join_of (\<lambda>_ _. True) xs ys))"
    using join_step_denotes [OF assms(1,2) refl refl _ _ f] assms(3-5) by simp
  ultimately show ?thesis using denotes_run by (fastforce simp: join_of_def)
qed

theorem join_selection_rows_witness:
  "\<exists>x. build (scan_catalog 0) (LFilter two_ints (EComp LessThan (EConst (VInt 1)) (EColumn 1 None))
      (LHashJoin two_ints (EColumn 0 None) (EColumn 0 None) sample_node sample_node)) = Inr x \<and>
    run_executor sample_library x (fresh_context fresh_db) = Some (filter (\<lambda>t. passes sample_predicate two_ints t = Inr True)
      (concat (map (\<lambda>a. map (combine_rows a) [int_row 1, int_row 2]) [int_row 1, int_row 2])), None)"
proof -
  have "join_step (LNestedLoopJoin two_ints sample_predicate sample_node sample_node) =
      LFilter two_ints (EComp LessThan (EConst (VInt 1)) (EColumn 1 None)) (LHashJoin two_ints (EColumn 0 None) (EColumn 0 None) sample_node sample_node)"
    by (simp add: join_step_def sample_predicate_def sample_node_def equi_keys_def only_left_def only_right_def getColumnCount_def int_schema_def)
  moreover have "find_equi (length (getOutputSchema sample_node)) (SplitConjuncts sample_predicate) \<noteq> None"
    by (simp add: sample_predicate_def sample_node_def equi_keys_def only_left_def only_right_def int_schema_def)
  moreover have "two_ints = getOutputSchema sample_node @ getOutputSchema sample_node" "length two_ints < 2 ^ 32"
    by (simp_all add: two_ints_def sample_node_def int_schema_def)
  ultimately show ?thesis
    using join_selection_rows [where lib = sample_library and c = "fresh_context fresh_db" and cat = "scan_catalog 0" and st = "\<lambda>_. []", OF sample_denotes sample_denotes _ _ sample_safe] by simp
qed

text \<open>
  The cost-based join rule never changes a plan: whatever the cost model prefers, after \<open>JoinSelectionRule\<close> (which runs before it)
  no nested loop join with an equation between columns of its two inputs is left.
\<close>

theorem cost_rule_is_dead: "CostBasedJoinRule cheaper (JoinSelectionRule plan) = JoinSelectionRule plan"
  using cost_identity [OF join_selection_no_equi] by (simp add: CostBasedJoinRule_def)

text \<open>
  Projection pruning has no effect on execution: as long as no scan carries a limit, the executors built for the
  pruned plan are those of the original one (or the same exception is thrown).
\<close>

theorem pruning_is_invisible: "scans_unlimited plan \<Longrightarrow> build cat (ProjectionPruningRule plan) = build cat plan"
  using same_plan_build [OF prune_same] by (cases plan) (simp_all add: ProjectionPruningRule_def del: rewriteTopDown.simps)

theorem pruning_is_invisible_witness:
  "build (scan_catalog 0) (LProjection int_schema [EColumn 1 None] (LSeqScan [two_ints ! 1] [116] [116] ENullPtr ENullPtr ENullPtr)) =
   build (scan_catalog 0) (LProjection int_schema [EColumn 1 None] (LSeqScan two_ints [116] [116] ENullPtr ENullPtr ENullPtr))"
proof -
  let ?p = "LProjection int_schema [EColumn 1 None] (LSeqScan two_ints [116] [116] ENullPtr ENullPtr ENullPtr)"
  have "ProjectionPruningRule ?p = LProjection int_schema [EColumn 1 None] (LSeqScan [two_ints ! 1] [116] [116] ENullPtr ENullPtr ENullPtr)"
    by (simp add: ProjectionPruningRule_def is_wildcard_def columns_of_def collectColumns_def pruned_schema_def getColumnCount_def two_ints_def int_schema_def)
  then show ?thesis using pruning_is_invisible [of ?p "scan_catalog 0"] by simp
qed

text \<open>
  A limit moved into a scan below projections gives the same rows as the limit node, if the limit is positive and
  representable and the query does not fail.
\<close>

theorem limit_pushdown_rows:
  assumes "limitable child" "returns_rows lib c st cat child ys" "lim \<noteq> ENullPtr" "limit_value lim 0 = Inr l" "limit_value off 0 = Inr m"
    and "0 < l" "l < size_t_max"
  shows "\<exists>x y. build cat (LLimit sch lim off child) = Inr x \<and> run_executor lib x c = Some (take l (drop m ys), None) \<and>
    build cat (sort_limit_step (LLimit sch lim off child)) = Inr y \<and> run_executor lib y c = Some (take l (drop m ys), None)"
proof -
  obtain x where x: "build cat child = Inr x" "reads_only x" "\<forall>ti \<in> scanned x. stored c st ti" "exec_beh lib c st x = Rows ys None"
    using assms(2) by (auto simp: returns_rows_def)
  have l: "limit_value lim size_t_max = Inr l" using assms(3,4) by (simp add: limit_value_def)
  obtain plan' x' where p: "limit_scan lim off child = Some plan'" "build cat plan' = Inr x'" "reads_only x'" "scanned x' = scanned x"
      "exec_beh lib c st x' = Rows (take l (drop m ys)) None"
    using window_returns [OF l assms(5-7) assms(1) x(1,2,4)] by blast
  have "returns_rows lib c st cat (sort_limit_step (LLimit sch lim off child)) (take l (drop m ys))"
    using p x(3) by (auto simp: returns_rows_def sort_limit_step_def)
  moreover have "returns_rows lib c st cat (LLimit sch lim off child) (take l (drop m ys))"
    using x assms(4,5) by (auto simp: returns_rows_def build_def try_bind_Inr limit_beh_def limit_rows_def)
  ultimately show ?thesis using returns_run by blast
qed

definition sample_scan :: "Expression \<Rightarrow> Expression \<Rightarrow> LogicalPlanNode" where
  "sample_scan lim off = LSeqScan int_schema [116] [116] ENullPtr lim off"

lemma sample_scan_returns:
  assumes "heap_ok d h ids" "heap_records (dm_pages d) ids = rs"
  shows "returns_rows lib (fresh_context d) (\<lambda>_. rs) (scan_catalog (first_page_id h)) (sample_scan ENullPtr ENullPtr) (stored_rows rs)"
proof -
  let ?ti = "default_TableInfo\<lparr>ti_heap_root_page := first_page_id h\<rparr>"
  have "stored (fresh_context d) (\<lambda>_. rs) ?ti" using assms by (simp add: stored_def) metis
  moreover have "visible_rows (fresh_context d) rs = stored_rows rs"
    by (induction rs) (auto simp: visible_tuple_def versionCount_def stored_rows_def)
  ultimately show ?thesis
    by (simp add: returns_rows_def build_def sample_scan_def scan_catalog_def limit_value_def table_of_name_def getTable_def expr_ptr_def heap_beh_def
        scan_rows_visible cut_rows_def)
qed

theorem limit_pushdown_rows_witness:
  "\<exists>d root rid y. build (scan_catalog root) (sample_scan (EConst (VInt 1)) (EConst (VInt 0))) = Inr y \<and>
     run_executor sample_library y (fresh_context d) = Some ([([1, 2, 3], rid)], None)"
proof -
  obtain rid h d ids where h: "heap_ok d h ids" "heap_records (dm_pages d) ids = [(rid, [1, 2, 3])]" using single_record by blast
  have v: "limit_value (EConst (VInt 1)) 0 = Inr 1" "limit_value (EConst (VInt 0)) 0 = Inr 0"
    by (simp_all add: limit_value_def evaluate_def getAsInteger_def)
  have "sort_limit_step (LLimit sch (EConst (VInt 1)) (EConst (VInt 0)) (sample_scan ENullPtr ENullPtr)) = sample_scan (EConst (VInt 1)) (EConst (VInt 0))" for sch
    by (simp add: sort_limit_step_def sample_scan_def)
  then show ?thesis
    using limit_pushdown_rows [where lib = sample_library and sch = int_schema, OF _ sample_scan_returns [OF h] _ v] by (auto simp: sample_scan_def size_t_max_def stored_rows_def)
qed

text \<open>
  The rule also moves a limit below a filter, where it counts the rows before they are filtered: a query whose first row fails the
  condition and whose second row satisfies it returns no row under \<open>LIMIT 1\<close>.
\<close>

theorem limit_below_filter:
  fixes al :: name
  assumes "table_of_name cat nm = Inr ti" "ti_schema ti = sch" "stored c st ti" "visible_rows c (st (ti_heap_root_page ti)) = [r1, r2]"
    and "well_encoded sch [r1, r2]" "safe sch p TypeBoolean" "\<not> holds p sch (fst r1)" "holds p sch (fst r2)"
  defines "plan \<equiv> LLimit sch (EConst (VInt 1)) (EConst (VInt 0)) (LFilter sch p (LSeqScan sch nm al ENullPtr ENullPtr ENullPtr))"
  shows "returns_rows lib c st cat plan [r2] \<and> returns_rows lib c st cat (sort_limit_step plan) []"
proof -
  have v: "limit_value (EConst (VInt 1)) n = Inr 1" "limit_value (EConst (VInt 0)) n = Inr 0" for n
    by (simp_all add: limit_value_def evaluate_def getAsInteger_def)
  have f: "trans_rows (filter_row p sch) [r1, r2] None = ([r2], None)" "trans_rows (filter_row p sch) [r1] None = ([], None)"
    using filter_rows_pure [OF assms(5,6)] filter_rows_pure [of sch "[r1]" p] assms(5-8) by (simp_all add: well_encoded_def)
  have n: "limit_value ENullPtr n = Inr n" for n by (simp add: limit_value_def)
  have "exec_beh lib c st (XSeqScan ti None size_t_max 0) = Rows [r1, r2] None" "exec_beh lib c st (XSeqScan ti None 1 0) = Rows [r1] None"
    using assms(4) by (simp_all add: heap_beh_def scan_rows_visible cut_rows_def limit_rows_def size_t_max_def)
  then show ?thesis using assms(1-3) v n f
    by (simp add: plan_def returns_rows_def build_def sort_limit_step_def expr_ptr_def limit_beh_def limit_rows_def beh_map_def del: exec_beh.simps(1))
qed

end
