(* ===== verification/Lexer.thy ===== *)
theory Lexer
  imports Prelude
begin

text \<open>
  The lexer of SQL text: \<^verbatim>\<open>src/parser/lexer.cpp\<close>, \<^verbatim>\<open>include/parser/lexer.hpp\<close> and
  \<^verbatim>\<open>include/parser/token.hpp\<close>.

  The pair of \<open>source_\<close> and \<open>current_\<close> is kept as what is left of the source, and the text between \<open>start_\<close> and \<open>current_\<close> is
  computed from the source that was left when the token began.  The character classes are those of the "C" locale.
\<close>

subsection \<open>Tokens\<close>

datatype TokenType =
    TSelect | TInsert | TUpdate | TDelete | TFrom | TWhere
  | TAnd | TOr | TNot | TLimit | TOffset | TOrder | TBy | TAsc | TDesc
  | TValues | TInto | TSet | TCreate | TTable | TExplain | TAnalyze | TJoin | TInner | TOn
  | TInt | TBoolean | TVarchar | TPrimary | TKey
  | TPrepare | TExecute | TDeallocate | TAs | TGroup | THaving
  | TIdentifier
  | TInteger | TString | TBoolLiteral | TNullLiteral
  | TPlus | TMinus | TAsterisk | TSlash | TModulo
  | TEquals | TNotEquals | TLess | TLessEquals | TGreater | TGreaterEquals
  | TComma | TLeftParen | TRightParen | TSemicolon | TDot | TQuestionMark
  | TEof | TInvalid

record Token =
  tok_type :: TokenType
  lexeme :: string
  tok_line :: nat
  tok_column :: nat

definition mk_Token :: "TokenType \<Rightarrow> string \<Rightarrow> nat \<Rightarrow> nat \<Rightarrow> Token" where
  "mk_Token ty lx line col = \<lparr>tok_type = ty, lexeme = lx, tok_line = line, tok_column = col\<rparr>"

subsection \<open>Characters\<close>

definition code :: "char \<Rightarrow> nat" where
  "code c = of_char c"

definition isdigit :: "char \<Rightarrow> bool" where
  "isdigit c = (48 \<le> code c \<and> code c \<le> 57)"

definition isalpha :: "char \<Rightarrow> bool" where
  "isalpha c = (65 \<le> code c \<and> code c \<le> 90 \<or> 97 \<le> code c \<and> code c \<le> 122)"

definition isalnum :: "char \<Rightarrow> bool" where
  "isalnum c = (isalpha c \<or> isdigit c)"

definition toupper :: "char \<Rightarrow> char" where
  "toupper c = (if 97 \<le> code c \<and> code c \<le> 122 then char_of (code c - 32) else c)"

definition tolower :: "char \<Rightarrow> char" where
  "tolower c = (if 65 \<le> code c \<and> code c \<le> 90 then char_of (code c + 32) else c)"

definition newline :: char where
  "newline = CHR 0x0A"

definition quote :: char where
  "quote = CHR 0x27"

subsection \<open>Positions in the source\<close>

record Lexer =
  lx_rest :: string
  lx_line :: nat
  lx_column :: nat

definition mk_Lexer :: "string \<Rightarrow> Lexer" where
  "mk_Lexer src = \<lparr>lx_rest = src, lx_line = 1, lx_column = 1\<rparr>"

definition isAtEnd :: "Lexer \<Rightarrow> bool" where
  "isAtEnd l = (lx_rest l = [])"

definition peek :: "Lexer \<Rightarrow> char" where
  "peek l = (case lx_rest l of [] \<Rightarrow> CHR 0x00 | c # cs \<Rightarrow> c)"

definition peekNext :: "Lexer \<Rightarrow> char" where
  "peekNext l = (case lx_rest l of c # d # cs \<Rightarrow> d | _ \<Rightarrow> CHR 0x00)"

text \<open>\<open>advance\<close> is called only before the end; the character it returns is \<open>peek\<close>.\<close>

definition advance :: "Lexer \<Rightarrow> Lexer" where
  "advance l = (case lx_rest l of [] \<Rightarrow> l | c # cs \<Rightarrow>
     if c = newline then \<lparr>lx_rest = cs, lx_line = lx_line l + 1, lx_column = 1\<rparr>
     else \<lparr>lx_rest = cs, lx_line = lx_line l, lx_column = lx_column l + 1\<rparr>)"

lemma advance_rest [simp]: "lx_rest (advance l) = tl (lx_rest l)"
  by (simp add: advance_def split: list.splits)

lemma lexer_simps [simp]: "lx_rest l = c # cs \<Longrightarrow> peek l = c" "lx_rest l = [] \<Longrightarrow> isAtEnd l" "lx_rest l = c # cs \<Longrightarrow> \<not> isAtEnd l"
  "lx_rest (mk_Lexer s) = s"
  by (simp_all add: peek_def isAtEnd_def mk_Lexer_def)

subsection \<open>Loops\<close>

function skip_while :: "(char \<Rightarrow> bool) \<Rightarrow> Lexer \<Rightarrow> Lexer" where
  "skip_while P l = (if \<not> isAtEnd l \<and> P (peek l) then skip_while P (advance l) else l)"
  by auto
termination by (relation "measure (\<lambda>(P, l). length (lx_rest l))") (auto simp: isAtEnd_def)

declare skip_while.simps [simp del]

lemma skip_while_rest [simp]: "lx_rest (skip_while P l) = dropWhile P (lx_rest l)"
  by (induction P l rule: skip_while.induct) (subst skip_while.simps, auto simp: isAtEnd_def peek_def split: list.splits)

text \<open>The rest of a block comment, after its opening.\<close>

function skip_block :: "Lexer \<Rightarrow> Lexer" where
  "skip_block l = (if isAtEnd l then l
     else if peek l = CHR ''*'' \<and> peekNext l = CHR ''/'' then advance (advance l)
     else skip_block (advance l))"
  by auto
termination by (relation "measure (\<lambda>l. length (lx_rest l))") (auto simp: isAtEnd_def)

declare skip_block.simps [simp del]

lemma skip_block_length: "length (lx_rest (skip_block l)) \<le> length (lx_rest l)"
  by (induction l rule: skip_block.induct) (subst skip_block.simps, auto simp: isAtEnd_def)

definition is_space :: "char \<Rightarrow> bool" where
  "is_space c = (c = CHR '' '' \<or> c = CHR 0x0D \<or> c = CHR 0x09 \<or> c = newline)"

function skipWhitespace :: "Lexer \<Rightarrow> Lexer" where
  "skipWhitespace l = (
     if \<not> isAtEnd l \<and> is_space (peek l) then skipWhitespace (advance l)
     else if \<not> isAtEnd l \<and> peek l = CHR ''-'' \<and> peekNext l = CHR ''-'' then skipWhitespace (skip_while (\<lambda>c. c \<noteq> newline) l)
     else if \<not> isAtEnd l \<and> peek l = CHR ''/'' \<and> peekNext l = CHR ''*'' then skipWhitespace (skip_block (advance (advance l)))
     else l)"
  by auto
termination
proof (relation "measure (\<lambda>l. length (lx_rest l))", goal_cases)
  case (3 l)
  then show ?case
    using length_dropWhile_le [of "\<lambda>c. c \<noteq> newline" "tl (lx_rest l)"] by (cases "lx_rest l") (auto simp: newline_def)
next
  case (4 l)
  then show ?case using skip_block_length [of "advance (advance l)"] by (cases "lx_rest l") auto
qed (auto simp: isAtEnd_def)

declare skipWhitespace.simps [simp del]

lemma skipWhitespace_length: "length (lx_rest (skipWhitespace l)) \<le> length (lx_rest l)"
proof (induction l rule: skipWhitespace.induct)
  case (1 l)
  show ?case
    using 1 skip_block_length [of "advance (advance l)"] length_dropWhile_le [of "\<lambda>c. c \<noteq> newline" "lx_rest l"]
    by (subst skipWhitespace.simps) (auto intro: order_trans)
qed

subsection \<open>Tokens of the source\<close>

text \<open>The text from where the token began.\<close>

definition lexeme_from :: "Lexer \<Rightarrow> Lexer \<Rightarrow> string" where
  "lexeme_from start l = take (length (lx_rest start) - length (lx_rest l)) (lx_rest start)"

definition keyword_table :: "(string \<times> TokenType) list" where
  "keyword_table = [(''SELECT'', TSelect), (''INSERT'', TInsert), (''UPDATE'', TUpdate), (''SET'', TSet), (''DELETE'', TDelete), (''FROM'', TFrom),
     (''WHERE'', TWhere), (''AND'', TAnd), (''OR'', TOr), (''NOT'', TNot), (''LIMIT'', TLimit), (''OFFSET'', TOffset), (''ORDER'', TOrder),
     (''BY'', TBy), (''ASC'', TAsc), (''DESC'', TDesc), (''VALUES'', TValues), (''INTO'', TInto), (''CREATE'', TCreate), (''TABLE'', TTable),
     (''JOIN'', TJoin), (''INNER'', TInner), (''ON'', TOn), (''EXPLAIN'', TExplain), (''ANALYZE'', TAnalyze), (''INT'', TInt),
     (''BOOLEAN'', TBoolean), (''VARCHAR'', TVarchar), (''PRIMARY'', TPrimary), (''KEY'', TKey), (''NULL'', TNullLiteral),
     (''TRUE'', TBoolLiteral), (''FALSE'', TBoolLiteral), (''PREPARE'', TPrepare), (''EXECUTE'', TExecute), (''DEALLOCATE'', TDeallocate),
     (''AS'', TAs), (''GROUP'', TGroup), (''HAVING'', THaving)]"

definition word_type :: "string \<Rightarrow> TokenType" where
  "word_type w = (case map_of keyword_table (map toupper w) of Some ty \<Rightarrow> ty | None \<Rightarrow> TIdentifier)"

definition is_word :: "char \<Rightarrow> bool" where
  "is_word c = (isalnum c \<or> c = CHR ''_'')"

text \<open>After the opening quote: the value, or nothing when the string does not end.\<close>

function string_loop :: "string \<Rightarrow> Lexer \<Rightarrow> string option \<times> Lexer" where
  "string_loop value l = (if isAtEnd l then (None, l)
     else if peek l = quote then
       (if peekNext l = quote then string_loop (value @ [quote]) (advance (advance l)) else (Some value, advance l))
     else string_loop (value @ [peek l]) (advance l))"
  by auto
termination by (relation "measure (\<lambda>(v, l). length (lx_rest l))") (auto simp: isAtEnd_def)

declare string_loop.simps [simp del]

lemma string_loop_length: "length (lx_rest (snd (string_loop v l))) \<le> length (lx_rest l)"
proof (induction v l rule: string_loop.induct)
  case (1 v l)
  then show ?case by (subst string_loop.simps) (auto intro: order_trans)
qed

definition one_or_two :: "Lexer \<Rightarrow> TokenType \<Rightarrow> string \<Rightarrow> TokenType \<Rightarrow> string \<Rightarrow> (TokenType \<times> string) \<times> Lexer" where
  "one_or_two l1 ty1 lx1 ty2 lx2 = (if peek l1 = CHR ''='' then ((ty2, lx2), advance l1) else ((ty1, lx1), l1))"

text \<open>The switch of \<open>nextToken\<close>: type and text of the token that begins with \<open>c\<close>, and the lexer after it (\<open>l1\<close> is the lexer after \<open>c\<close>).\<close>

definition symbol :: "char \<Rightarrow> Lexer \<Rightarrow> (TokenType \<times> string) \<times> Lexer" where
  "symbol c l1 =
    (if c = CHR ''('' then ((TLeftParen, ''(''), l1)
     else if c = CHR '')'' then ((TRightParen, '')''), l1)
     else if c = CHR '','' then ((TComma, '',''), l1)
     else if c = CHR '';'' then ((TSemicolon, '';''), l1)
     else if c = CHR ''.'' then ((TDot, ''.''), l1)
     else if c = CHR ''+'' then ((TPlus, ''+''), l1)
     else if c = CHR ''-'' then ((TMinus, ''-''), l1)
     else if c = CHR ''*'' then ((TAsterisk, ''*''), l1)
     else if c = CHR ''/'' then ((TSlash, ''/''), l1)
     else if c = CHR ''%'' then ((TModulo, ''%''), l1)
     else if c = CHR ''='' then ((TEquals, ''=''), l1)
     else if c = CHR ''!'' then one_or_two l1 TInvalid ''Invalid character'' TNotEquals ''!=''
     else if c = CHR ''<'' then one_or_two l1 TLess ''<'' TLessEquals ''<=''
     else if c = CHR ''>'' then one_or_two l1 TGreater ''>'' TGreaterEquals ''>=''
     else if c = quote then (case string_loop [] l1 of
         (Some v, l2) \<Rightarrow> ((TString, v), l2) | (None, l2) \<Rightarrow> ((TInvalid, ''Unterminated string''), l2))
     else if c = CHR ''?'' then ((TQuestionMark, ''?''), l1)
     else ((TInvalid, ''Invalid character: '' @ [c]), l1))"

definition nextToken :: "Lexer \<Rightarrow> Token \<times> Lexer" where
  "nextToken l = (let start = skipWhitespace l; tok = (\<lambda>ty lx. mk_Token ty lx (lx_line start) (lx_column start)) in
     if isAtEnd start then (tok TEof [], start)
     else let c = peek start; l1 = advance start in
       if isalpha c \<or> c = CHR ''_'' then let l2 = skip_while is_word l1; w = lexeme_from start l2 in (tok (word_type w) w, l2)
       else if isdigit c then let l2 = skip_while isdigit l1 in (tok TInteger (lexeme_from start l2), l2)
       else case symbol c l1 of ((ty, lx), l2) \<Rightarrow> (tok ty lx, l2))"

lemma symbol_length: "length (lx_rest (snd (symbol c l1))) \<le> length (lx_rest l1)"
  using string_loop_length [of "[]" l1] by (auto simp: symbol_def one_or_two_def split: prod.splits option.splits)

lemma word_type_not_eof [simp]: "word_type w \<noteq> TEof" "word_type w \<noteq> TInvalid"
proof -
  have "(k, ty) \<in> set keyword_table \<Longrightarrow> ty \<noteq> TEof \<and> ty \<noteq> TInvalid" for k ty by (auto simp: keyword_table_def)
  then show "word_type w \<noteq> TEof" "word_type w \<noteq> TInvalid" by (auto simp: word_type_def split: option.splits dest!: map_of_SomeD)
qed

lemma symbol_not_eof: "fst (fst (symbol c l1)) \<noteq> TEof"
  by (auto simp: symbol_def one_or_two_def split: prod.splits option.splits)

lemma nextToken_shorter:
  assumes "nextToken l = (t, l')"
  shows "length (lx_rest l') \<le> length (lx_rest l)" "tok_type t \<noteq> TEof \<Longrightarrow> length (lx_rest l') < length (lx_rest l)"
    "tok_type t = TEof \<longleftrightarrow> lx_rest (skipWhitespace l) = []"
proof -
  let ?s = "skipWhitespace l"
  have s: "length (lx_rest ?s) \<le> length (lx_rest l)" by (rule skipWhitespace_length)
  have drop: "length (dropWhile P (tl (lx_rest ?s))) \<le> length (tl (lx_rest ?s))" for P by (rule length_dropWhile_le)
  have *: "length (lx_rest l') \<le> length (lx_rest ?s) \<and> (tok_type t \<noteq> TEof \<longrightarrow> length (lx_rest l') < length (lx_rest ?s)) \<and>
      (tok_type t = TEof \<longleftrightarrow> lx_rest ?s = [])"
  proof (cases "lx_rest ?s")
    case Nil
    then show ?thesis using assms by (auto simp: nextToken_def mk_Token_def Let_def)
  next
    case (Cons c cs)
    then show ?thesis
      using assms drop [of is_word] drop [of isdigit] symbol_length [of c "advance ?s"] symbol_not_eof [of c "advance ?s"]
      by (auto simp: nextToken_def mk_Token_def Let_def split: if_splits prod.splits)
  qed
  with s show "length (lx_rest l') \<le> length (lx_rest l)" "tok_type t \<noteq> TEof \<Longrightarrow> length (lx_rest l') < length (lx_rest l)"
    "tok_type t = TEof \<longleftrightarrow> lx_rest ?s = []" by auto
qed

function tokenize :: "Lexer \<Rightarrow> Token list" where
  "tokenize l = (case nextToken l of (t, l1) \<Rightarrow> if tok_type t = TEof then [t] else t # tokenize l1)"
  by auto
termination by (relation "measure (\<lambda>l. length (lx_rest l))") (auto dest: nextToken_shorter(2) [OF sym])

declare tokenize.simps [simp del]

subsection \<open>Positions\<close>

text \<open>Line and column after a text, counted from one.\<close>

definition position :: "string \<Rightarrow> nat \<times> nat" where
  "position s = (1 + count_list s newline, 1 + length (takeWhile (\<lambda>c. c \<noteq> newline) (rev s)))"

lemma position_snoc: "position (s @ [c]) = (if c = newline then (fst (position s) + 1, 1) else (fst (position s), snd (position s) + 1))"
  by (simp add: position_def)

definition reached :: "string \<Rightarrow> Lexer \<Rightarrow> bool" where
  "reached src l = (\<exists>pre. src = pre @ lx_rest l \<and> position pre = (lx_line l, lx_column l))"

lemma reached_mk: "reached src (mk_Lexer src)"
  by (simp add: reached_def mk_Lexer_def position_def)

lemma reached_advance: "reached src l \<Longrightarrow> reached src (advance l)"
proof -
  assume "reached src l"
  then obtain pre where pre: "src = pre @ lx_rest l" "position pre = (lx_line l, lx_column l)" by (auto simp: reached_def)
  show ?thesis
  proof (cases "lx_rest l")
    case (Cons c cs)
    then have "src = (pre @ [c]) @ lx_rest (advance l)" "position (pre @ [c]) = (lx_line (advance l), lx_column (advance l))"
      using pre by (simp_all add: position_snoc advance_def)
    then show ?thesis unfolding reached_def by blast
  qed (use \<open>reached src l\<close> in \<open>simp add: advance_def\<close>)
qed

lemma reached_skip_while: "reached src l \<Longrightarrow> reached src (skip_while P l)"
  by (induction P l rule: skip_while.induct) (subst skip_while.simps, auto intro: reached_advance)

lemma reached_skip_block: "reached src l \<Longrightarrow> reached src (skip_block l)"
  by (induction l rule: skip_block.induct) (subst skip_block.simps, auto intro: reached_advance)

lemma reached_skipWhitespace: "reached src l \<Longrightarrow> reached src (skipWhitespace l)"
  by (induction l rule: skipWhitespace.induct)
    (subst skipWhitespace.simps, simp add: reached_advance reached_skip_while reached_skip_block)

lemma reached_string_loop: "reached src l \<Longrightarrow> reached src (snd (string_loop v l))"
  by (induction v l rule: string_loop.induct) (subst string_loop.simps, auto intro: reached_advance)

lemma reached_symbol: "reached src l \<Longrightarrow> reached src (snd (symbol c l))"
  using reached_string_loop [of src l "[]"]
  by (auto simp: symbol_def one_or_two_def intro: reached_advance split: prod.splits option.splits)

definition placed :: "string \<Rightarrow> Token \<Rightarrow> bool" where
  "placed src t = (\<exists>pre post. src = pre @ post \<and> position pre = (tok_line t, tok_column t) \<and>
     (tok_type t \<notin> {TString, TInvalid} \<longrightarrow> (\<exists>more. post = lexeme t @ more)))"

lemma lexeme_from_prefix: "\<exists>more. lx_rest start = lexeme_from start l @ more"
  by (metis lexeme_from_def append_take_drop_id)

lemma symbol_prefix:
  assumes "symbol c l1 = ((ty, lx), l2)" "ty \<notin> {TString, TInvalid}"
  shows "\<exists>more. c # lx_rest l1 = lx @ more"
  using assms by (cases "lx_rest l1") (auto simp: symbol_def one_or_two_def peek_def split: if_splits prod.splits option.splits)

lemma nextToken_placed:
  assumes "reached src l" "nextToken l = (t, l')"
  shows "placed src t" "reached src l'"
proof -
  let ?s = "skipWhitespace l"
  have s: "reached src ?s" by (rule reached_skipWhitespace [OF assms(1)])
  then obtain pre where pre: "src = pre @ lx_rest ?s" "position pre = (lx_line ?s, lx_column ?s)" by (auto simp: reached_def)
  have "reached src l' \<and> tok_line t = lx_line ?s \<and> tok_column t = lx_column ?s \<and>
      (tok_type t \<notin> {TString, TInvalid} \<longrightarrow> (\<exists>more. lx_rest ?s = lexeme t @ more))"
  proof (cases "lx_rest ?s")
    case Nil
    then show ?thesis using assms(2) s by (auto simp: nextToken_def mk_Token_def Let_def)
  next
    case (Cons c cs)
    note a = reached_advance [OF s]
    have "reached src (snd (symbol c (advance ?s)))" by (rule reached_symbol [OF a])
    then show ?thesis
      using assms(2) Cons reached_skip_while [OF a] lexeme_from_prefix [of ?s] symbol_prefix [of c "advance ?s"]
      by (auto simp: nextToken_def mk_Token_def Let_def split: if_splits prod.splits)
  qed
  then show "placed src t" "reached src l'" using pre by (auto simp: placed_def)
qed

lemma tokenize_placed: "reached src l \<Longrightarrow> t \<in> set (tokenize l) \<Longrightarrow> placed src t"
proof (induction l rule: tokenize.induct)
  case (1 l)
  obtain u l1 where u: "nextToken l = (u, l1)" by fastforce
  show ?case using 1(1) [OF u [symmetric]] 1(2,3) nextToken_placed [OF 1(2) u] u by (subst (asm) tokenize.simps) (auto split: if_splits)
qed

lemma tokenize_eof: "\<exists>ts t. tokenize l = ts @ [t] \<and> tok_type t = TEof \<and> (\<forall>u \<in> set ts. tok_type u \<noteq> TEof)"
proof (induction l rule: tokenize.induct)
  case (1 l)
  obtain u l1 where u: "nextToken l = (u, l1)" by fastforce
  show ?case
  proof (cases "tok_type u = TEof")
    case True
    then show ?thesis using u by (subst tokenize.simps) simp
  next
    case False
    then obtain ts t where "tokenize l1 = ts @ [t]" "tok_type t = TEof" "\<forall>u \<in> set ts. tok_type u \<noteq> TEof" using 1 [OF u [symmetric]] by auto
    then show ?thesis using False u by (subst tokenize.simps) (auto intro!: exI [of _ "u # ts"])
  qed
qed

subsection \<open>Text that the lexer splits as intended\<close>

definition symbol_table :: "(TokenType \<times> string) list" where
  "symbol_table = [(TLeftParen, ''(''), (TRightParen, '')''), (TComma, '',''), (TSemicolon, '';''), (TDot, ''.''), (TPlus, ''+''), (TMinus, ''-''),
     (TAsterisk, ''*''), (TSlash, ''/''), (TModulo, ''%''), (TEquals, ''=''), (TNotEquals, ''!=''), (TLess, ''<''), (TLessEquals, ''<=''),
     (TGreater, ''>''), (TGreaterEquals, ''>=''), (TQuestionMark, ''?'')]"

definition is_name :: "string \<Rightarrow> bool" where
  "is_name w = (w \<noteq> [] \<and> (isalpha (hd w) \<or> hd w = CHR ''_'') \<and> list_all is_word w)"

text \<open>A type and a text a token can have.\<close>

definition ok_token :: "TokenType \<times> string \<Rightarrow> bool" where
  "ok_token t = (case t of (ty, lx) \<Rightarrow>
     if ty = TInteger then lx \<noteq> [] \<and> list_all isdigit lx
     else ty = TString \<or> is_name lx \<and> word_type lx = ty \<or> t \<in> set symbol_table)"

text \<open>A quote inside a string literal is doubled.\<close>

definition escape :: "string \<Rightarrow> string" where
  "escape v = concat (map (\<lambda>c. if c = quote then [quote, quote] else [c]) v)"

definition token_text :: "TokenType \<times> string \<Rightarrow> string" where
  "token_text t = (if fst t = TString then quote # escape (snd t) @ [quote] else snd t)"

text \<open>The text after a token does not continue it.\<close>

definition follows :: "TokenType \<times> string \<Rightarrow> string \<Rightarrow> bool" where
  "follows t rest = (rest = [] \<or> (case t of (ty, lx) \<Rightarrow>
     if ty = TString then hd rest \<noteq> quote
     else if ty = TMinus then hd rest \<noteq> CHR ''-''
     else if ty = TSlash then hd rest \<noteq> CHR ''*''
     else if ty = TLess \<or> ty = TGreater then hd rest \<noteq> CHR ''=''
     else t \<in> set symbol_table \<or> \<not> is_word (hd rest)))"

inductive lexes :: "string \<Rightarrow> (TokenType \<times> string) list \<Rightarrow> bool" where
  lexes_end: "lexes [] []"
| lexes_space: "lexes s ts \<Longrightarrow> lexes (CHR '' '' # s) ts"
| lexes_token: "ok_token t \<Longrightarrow> follows t s \<Longrightarrow> lexes s ts \<Longrightarrow> lexes (token_text t @ s) (t # ts)"

lemma skipWhitespace_stays:
  assumes "lx_rest l = c # cs" "\<not> is_space c" "c = CHR ''-'' \<longrightarrow> cs = [] \<or> hd cs \<noteq> CHR ''-''" "c = CHR ''/'' \<longrightarrow> cs = [] \<or> hd cs \<noteq> CHR ''*''"
  shows "skipWhitespace l = l"
  using assms by (subst skipWhitespace.simps) (auto simp: peekNext_def split: list.splits)

lemma skipWhitespace_space: "lx_rest l = CHR '' '' # s \<Longrightarrow> skipWhitespace l = skipWhitespace (advance l)"
  by (subst skipWhitespace.simps) (simp add: is_space_def)

lemma word_not_special: "is_word c \<Longrightarrow> \<not> is_space c \<and> c \<noteq> CHR ''-'' \<and> c \<noteq> CHR ''/''"
  by (auto simp: is_word_def isalnum_def isalpha_def isdigit_def is_space_def code_def newline_def)

lemma dropWhile_stop: "list_all P xs \<Longrightarrow> s = [] \<or> \<not> P (hd s) \<Longrightarrow> dropWhile P (xs @ s) = s"
  by (induction xs) (auto simp: dropWhile_eq_self_iff)

lemma string_loop_value:
  "lx_rest l = escape v @ quote # s \<Longrightarrow> s = [] \<or> hd s \<noteq> quote \<Longrightarrow>
   \<exists>l2. string_loop acc l = (Some (acc @ v), l2) \<and> lx_rest l2 = s"
proof (induction v arbitrary: acc l)
  case Nil
  then show ?case by (subst string_loop.simps) (auto simp: escape_def peekNext_def quote_def split: list.splits)
next
  case (Cons c v)
  let ?l = "if c = quote then advance (advance l) else advance l"
  have "string_loop acc l = string_loop (acc @ [c]) ?l" "lx_rest ?l = escape v @ quote # s"
    using Cons.prems(1) by (subst string_loop.simps, auto simp: escape_def peekNext_def split: if_splits)
  then show ?case using Cons.IH [of ?l "acc @ [c]"] Cons.prems(2) by simp
qed

definition shape :: "Token \<Rightarrow> TokenType \<times> string" where
  "shape t = (tok_type t, lexeme t)"

lemma shape_mk [simp]: "shape (mk_Token ty lx a b) = (ty, lx)"
  by (simp add: shape_def mk_Token_def)

definition lexed :: "Lexer \<Rightarrow> TokenType \<times> string \<Rightarrow> string \<Rightarrow> bool" where
  "lexed l t s = (\<exists>tok l'. nextToken l = (tok, l') \<and> shape tok = t \<and> lx_rest l' = s)"

lemma lexed_word:
  assumes "lx_rest l = w @ s" "is_name w" "s = [] \<or> \<not> is_word (hd s)"
  shows "lexed l (word_type w, w) s"
proof -
  obtain c cs where w: "w = c # cs" "isalpha c \<or> c = CHR ''_''" "list_all is_word cs" "is_word c"
    using assms(2) by (cases w) (auto simp: is_name_def)
  have "skipWhitespace l = l" by (rule skipWhitespace_stays [of _ c "cs @ s"]) (use assms(1) w word_not_special [OF w(4)] in auto)
  moreover have "dropWhile is_word (cs @ s) = s" by (rule dropWhile_stop [OF w(3) assms(3)])
  ultimately show ?thesis using assms(1) w by (simp add: lexed_def nextToken_def Let_def lexeme_from_def)
qed

lemma lexed_integer:
  assumes "lx_rest l = w @ s" "w \<noteq> []" "list_all isdigit w" "s = [] \<or> \<not> isdigit (hd s)"
  shows "lexed l (TInteger, w) s"
proof -
  obtain c cs where w: "w = c # cs" "isdigit c" "list_all isdigit cs" using assms(2,3) by (cases w) auto
  have word: "is_word c" "\<not> isalpha c" "c \<noteq> CHR ''_''" using w(2) by (auto simp: is_word_def isalnum_def isalpha_def isdigit_def code_def)
  have "skipWhitespace l = l" by (rule skipWhitespace_stays [of _ c "cs @ s"]) (use assms(1) w word_not_special [OF word(1)] in auto)
  moreover have "dropWhile isdigit (cs @ s) = s" by (rule dropWhile_stop [OF w(3) assms(4)])
  ultimately show ?thesis using assms(1) w word by (simp add: lexed_def nextToken_def Let_def lexeme_from_def)
qed

lemma symbol_two:
  assumes "(ty, c # cs) \<in> set symbol_table" "lx_rest l1 = cs @ s" "follows (ty, c # cs) s"
  shows "\<exists>l2. symbol c l1 = ((ty, c # cs), l2) \<and> lx_rest l2 = s"
proof -
  have one: ?thesis if "ty \<in> {TLeftParen, TRightParen, TComma, TSemicolon, TDot, TPlus, TMinus, TAsterisk, TSlash, TModulo, TEquals, TQuestionMark}"
    using that assms(1,2) unfolding symbol_table_def by (elim insertE emptyE) (simp_all add: symbol_def quote_def)
  have two: ?thesis if "ty \<in> {TNotEquals, TLessEquals, TGreaterEquals}"
    using that assms(1,2) unfolding symbol_table_def by (elim insertE emptyE) (simp_all add: symbol_def one_or_two_def)
  have less: ?thesis if "ty \<in> {TLess, TGreater}"
    using that assms unfolding symbol_table_def
    by (elim insertE emptyE) (cases s; simp add: symbol_def one_or_two_def peek_def follows_def)+
  have "ty \<in> {TLeftParen, TRightParen, TComma, TSemicolon, TDot, TPlus, TMinus, TAsterisk, TSlash, TModulo, TEquals, TQuestionMark} \<union>
      {TNotEquals, TLessEquals, TGreaterEquals} \<union> {TLess, TGreater}" using assms(1) by (auto simp: symbol_table_def)
  then show ?thesis using one two less by blast
qed

lemma lexed_symbol:
  assumes "lx_rest l = lx @ s" "t = (ty, lx)" "t \<in> set symbol_table" "follows t s"
  shows "lexed l t s"
proof -
  obtain c cs where lx: "lx = c # cs" using assms(2,3) by (auto simp: symbol_table_def)
  have sp: "\<not> is_space c" "\<not> isalpha c" "\<not> isdigit c" "c \<noteq> CHR ''_''"
    using assms(2,3) lx by (auto simp: symbol_table_def is_space_def isalpha_def isdigit_def code_def newline_def)
  have stay: "skipWhitespace l = l"
    by (rule skipWhitespace_stays [of _ c "cs @ s"]) (use assms lx sp(1) in \<open>auto simp: symbol_table_def follows_def\<close>)
  have rest: "lx_rest (advance l) = cs @ s" using assms(1) lx by simp
  have "\<exists>l2. symbol c (advance l) = ((ty, lx), l2) \<and> lx_rest l2 = s"
    using symbol_two [of ty c cs "advance l" s] assms(2-4) lx rest by simp
  then show ?thesis using stay assms(1,2) lx sp by (auto simp: lexed_def nextToken_def Let_def)
qed

lemma lexed_string:
  assumes "lx_rest l = quote # escape v @ quote # s" "s = [] \<or> hd s \<noteq> quote"
  shows "lexed l (TString, v) s"
proof -
  have stay: "skipWhitespace l = l"
    by (rule skipWhitespace_stays [OF assms(1)]) (simp_all add: quote_def is_space_def newline_def)
  obtain l2 where "string_loop [] (advance l) = (Some v, l2)" "lx_rest l2 = s" using string_loop_value [of "advance l" v s "[]"] assms by auto
  then have "symbol quote (advance l) = ((TString, v), l2)" by (simp add: symbol_def quote_def)
  then show ?thesis using stay assms(1) \<open>lx_rest l2 = s\<close>
    by (simp add: lexed_def nextToken_def Let_def isalpha_def isdigit_def code_def quote_def)
qed

lemma word_type_symbol: "word_type w \<notin> fst ` set symbol_table"
proof -
  have "(k, ty) \<in> set keyword_table \<Longrightarrow> ty \<notin> fst ` set symbol_table" for k ty by (auto simp: keyword_table_def symbol_table_def)
  moreover have "TIdentifier \<notin> fst ` set symbol_table" by (simp add: symbol_table_def)
  ultimately show ?thesis by (auto simp: word_type_def split: option.splits dest!: map_of_SomeD)
qed

lemma ok_token_not_eof: "ok_token t \<Longrightarrow> fst t \<noteq> TEof \<and> fst t \<noteq> TInvalid"
  by (cases t) (auto simp: ok_token_def symbol_table_def split: if_splits)

lemma lexes_ok: "lexes s ts \<Longrightarrow> t \<in> set ts \<Longrightarrow> ok_token t"
  by (induction rule: lexes.induct) auto

lemma lexed_token:
  assumes "lx_rest l = token_text t @ s" "ok_token t" "follows t s"
  shows "lexed l t s"
proof -
  obtain ty lx where t: "t = (ty, lx)" by (cases t)
  consider "ty = TInteger" | "ty = TString" | "t \<in> set symbol_table" "ty \<noteq> TString" | "is_name lx" "word_type lx = ty" "t \<notin> set symbol_table" "ty \<noteq> TString" "ty \<noteq> TInteger"
    using assms(2) t by (auto simp: ok_token_def split: if_splits)
  then show ?thesis
  proof cases
    case 1
    then have "s = [] \<or> \<not> isdigit (hd s)" using assms(3) t by (auto simp: follows_def symbol_table_def is_word_def isalnum_def)
    then show ?thesis using 1 assms t lexed_integer [of l lx s] by (simp add: ok_token_def token_text_def)
  next
    case 2
    then show ?thesis using assms t lexed_string [of l lx s] by (auto simp: ok_token_def token_text_def follows_def)
  next
    case 3
    then show ?thesis using assms t lexed_symbol [of l lx s t ty] by (auto simp: token_text_def)
  next
    case 4
    then have "ty \<noteq> TMinus" "ty \<noteq> TSlash" "ty \<noteq> TLess" "ty \<noteq> TGreater"
      using word_type_symbol [of lx] by (auto simp: symbol_table_def)
    then have "s = [] \<or> \<not> is_word (hd s)" using assms(3) t 4 by (auto simp: follows_def split: if_splits)
    then show ?thesis using 4 assms(1) t lexed_word [of l lx s] by (simp add: token_text_def)
  qed
qed

lemma lexes_next: "lexes s ts \<Longrightarrow> lx_rest l = s \<Longrightarrow>
  case ts of [] \<Rightarrow> lexed l (TEof, []) [] | t # ts' \<Rightarrow> \<exists>s'. lexed l t s' \<and> lexes s' ts'"
proof (induction arbitrary: l rule: lexes.induct)
  case lexes_end
  then have "skipWhitespace l = l" by (subst skipWhitespace.simps) simp
  with lexes_end show ?case by (simp add: lexed_def nextToken_def Let_def)
next
  case (lexes_space s ts)
  then have "nextToken l = nextToken (advance l)" by (simp add: nextToken_def skipWhitespace_space)
  then have "lexed l = lexed (advance l)" by (simp add: lexed_def fun_eq_iff)
  then show ?case using lexes_space.IH [of "advance l"] lexes_space.prems by (cases ts) simp_all
next
  case (lexes_token t s ts)
  then show ?case using lexed_token [of l t s] by auto
qed

lemma tokenize_lexes: "lexes (lx_rest l) ts \<Longrightarrow> map shape (tokenize l) = ts @ [(TEof, [])]"
proof (induction l arbitrary: ts rule: tokenize.induct)
  case (1 l)
  obtain u l1 where u: "nextToken l = (u, l1)" by fastforce
  show ?case
  proof (cases ts)
    case Nil
    then show ?thesis using lexes_next [OF 1(2) refl] u by (subst tokenize.simps) (auto simp: lexed_def shape_def)
  next
    case (Cons t ts')
    then have t: "shape u = t" "lexes (lx_rest l1) ts'" using lexes_next [OF 1(2) refl] u by (auto simp: lexed_def)
    have "ok_token t" using lexes_ok [OF 1(2)] Cons by simp
    then have "tok_type u \<noteq> TEof" using t(1) ok_token_not_eof [of t] by (auto simp: shape_def)
    then show ?thesis using 1(1) [OF u [symmetric] _ t(2)] t(1) u Cons by (subst tokenize.simps) simp
  qed
qed

subsection \<open>Properties\<close>

text \<open>
  Positions of tokens: the list of tokens of any text ends with its only end-of-file token, and every token carries the
  line and the column, counted from one, at which it begins in the text; what a token other than a string literal
  or an error spells is the text found there.
\<close>

theorem tokens_placed:
  "(\<exists>ts t. tokenize (mk_Lexer src) = ts @ [t] \<and> tok_type t = TEof \<and> TEof \<notin> tok_type ` set ts) \<and> list_all (placed src) (tokenize (mk_Lexer src))"
  using tokenize_placed [OF reached_mk] tokenize_eof [of "mk_Lexer src"] by (fastforce simp: list_all_iff)

text \<open>
  C25. Printing and tokenizing: a list of words, numbers, symbols and string literals (any text between quotes, its quotes doubled),
  written one after the other with a space behind each, is read back as exactly these tokens.
\<close>

theorem tokenize_print:
  assumes "list_all ok_token ts"
  shows "map shape (tokenize (mk_Lexer (concat (map (\<lambda>t. token_text t @ '' '') ts)))) = ts @ [(TEof, [])]"
proof -
  have "follows t (CHR '' '' # s)" for t s
    by (auto simp: follows_def quote_def is_word_def isalnum_def isalpha_def isdigit_def code_def split: prod.splits)
  then have "lexes (concat (map (\<lambda>t. token_text t @ '' '') ts)) ts"
    using assms by (induction ts) (auto intro: lexes_end lexes_space lexes_token [of _ "CHR '' '' # _"])
  then show ?thesis by (intro tokenize_lexes) simp
qed

theorem tokenize_print_witness:
  "map shape (tokenize (mk_Lexer (''Select it_ '' @ [quote, quote, quote, quote] @ '' >= 10 ''))) =
     [(TSelect, ''Select''), (TIdentifier, ''it_''), (TString, [quote]), (TGreaterEquals, ''>=''), (TInteger, ''10''), (TEof, [])]"
proof -
  let ?ts = "[(TSelect, ''Select''), (TIdentifier, ''it_''), (TString, [quote]), (TGreaterEquals, ''>=''), (TInteger, ''10'')]"
  have "list_all ok_token ?ts" by code_simp
  then show ?thesis using tokenize_print [of ?ts] by (simp add: token_text_def escape_def)
qed

end
