(* ===== verification/Parser.thy ===== *)
theory Parser
  imports Lexer
begin

text \<open>
  The recursive descent parser and the syntax trees: \<^verbatim>\<open>src/parser/parser.cpp\<close>, \<^verbatim>\<open>src/parser/ast/expression.cpp\<close>,
  \<^verbatim>\<open>src/parser/ast/statement.cpp\<close> and their headers.

  A parsing function takes the state of the parser and gives the tree with the state after it, or the exception it throws.
  The recursion of the source is bounded by fuel, and \<open>None\<close> stands for fuel that has run out; \<open>parse_total\<close> below shows that
  more fuel than there are characters in the text is always enough, and \<open>parse_fuel\<close> that more of it changes nothing.
\<close>

subsection \<open>Syntax trees\<close>

datatype ConstantType = CInteger | CString | CBoolean | CNull

datatype BinaryOp = OpAdd | OpSubtract | OpMultiply | OpDivide | OpModulo | OpEquals | OpNotEquals | OpLess | OpLessEquals | OpGreater | OpGreaterEquals | OpAnd | OpOr

datatype UnaryOp = OpNot | OpPlus | OpMinus

datatype AggregateKind = AggCountStar | AggCount | AggSum | AggMin | AggMax | AggAvg

datatype AstExpression =
    AConstant ConstantType string
  | AColumn string string
  | AStar
  | ABinary BinaryOp AstExpression AstExpression
  | AUnary UnaryOp AstExpression
  | AAggregate AggregateKind "AstExpression option"
  | AParameter

datatype TableReference =
    BaseTable string string
  | JoinTable TableReference TableReference "AstExpression option"

record SelectStatement =
  select_list :: "AstExpression list"
  select_table :: "TableReference option"
  select_where :: "AstExpression option"
  group_by :: "AstExpression list"
  having_clause :: "AstExpression option"
  order_by :: "(AstExpression \<times> bool) list"
  select_limit :: "AstExpression option"
  select_offset :: "AstExpression option"

datatype Statement =
    SelectStmt SelectStatement
  | InsertStmt string "AstExpression list list"
  | UpdateStmt string "(string \<times> AstExpression) list" "AstExpression option"
  | DeleteStmt string "AstExpression option"
  | ValuesStmt "AstExpression list list"
  | ExplainStmt "Statement option" bool
  | PrepareStmt string "Statement option"
  | ExecuteStmt string "AstExpression list"
  | DeallocateStmt string

subsection \<open>Printing\<close>

fun binary_op_string :: "BinaryOp \<Rightarrow> string" where
  "binary_op_string OpAdd = ''+''"
| "binary_op_string OpSubtract = ''-''"
| "binary_op_string OpMultiply = ''*''"
| "binary_op_string OpDivide = ''/''"
| "binary_op_string OpModulo = ''%''"
| "binary_op_string OpEquals = ''=''"
| "binary_op_string OpNotEquals = ''!=''"
| "binary_op_string OpLess = ''<''"
| "binary_op_string OpLessEquals = ''<=''"
| "binary_op_string OpGreater = ''>''"
| "binary_op_string OpGreaterEquals = ''>=''"
| "binary_op_string OpAnd = ''AND''"
| "binary_op_string OpOr = ''OR''"

fun unary_op_string :: "UnaryOp \<Rightarrow> string" where
  "unary_op_string OpNot = ''NOT ''"
| "unary_op_string OpPlus = ''+''"
| "unary_op_string OpMinus = ''-''"

fun aggregate_name :: "AggregateKind \<Rightarrow> string" where
  "aggregate_name AggCount = ''COUNT''"
| "aggregate_name AggSum = ''SUM''"
| "aggregate_name AggMin = ''MIN''"
| "aggregate_name AggMax = ''MAX''"
| "aggregate_name AggAvg = ''AVG''"
| "aggregate_name AggCountStar = []"

fun expr_string :: "AstExpression \<Rightarrow> string" where
  "expr_string (AConstant ty v) = (if ty = CString then [quote] @ v @ [quote] else v)"
| "expr_string (AColumn col tab) = (if tab = [] then col else tab @ ''.'' @ col)"
| "expr_string AStar = ''*''"
| "expr_string (ABinary op l r) = ''('' @ expr_string l @ '' '' @ binary_op_string op @ '' '' @ expr_string r @ '')''"
| "expr_string (AUnary op x) = ''('' @ unary_op_string op @ expr_string x @ '')''"
| "expr_string (AAggregate AggCountStar child) = ''COUNT(*)''"
| "expr_string (AAggregate k (Some x)) = aggregate_name k @ ''('' @ expr_string x @ '')''"
| "expr_string (AAggregate k None) = aggregate_name k @ ''('' @ [] @ '')''"
| "expr_string AParameter = ''?''"

text \<open>The loops that write a separator after each element but the last.\<close>

fun comma_separated :: "string list \<Rightarrow> string" where
  "comma_separated [] = []"
| "comma_separated [x] = x"
| "comma_separated (x # y # xs) = x @ '', '' @ comma_separated (y # xs)"

definition clause :: "string \<Rightarrow> AstExpression option \<Rightarrow> string" where
  "clause w x = (case x of None \<Rightarrow> [] | Some e \<Rightarrow> w @ expr_string e)"

fun table_string :: "TableReference \<Rightarrow> string" where
  "table_string (BaseTable nm al) = (if al = [] then nm else nm @ '' AS '' @ al)"
| "table_string (JoinTable l r cond) = table_string l @ '' JOIN '' @ table_string r @ clause '' ON '' cond"

definition select_string :: "SelectStatement \<Rightarrow> string" where
  "select_string s = ''SELECT '' @ comma_separated (map expr_string (select_list s)) @
     (case select_table s of None \<Rightarrow> [] | Some t \<Rightarrow> '' FROM '' @ table_string t) @
     clause '' WHERE '' (select_where s) @
     (if group_by s = [] then [] else '' GROUP BY '' @ comma_separated (map expr_string (group_by s))) @
     clause '' HAVING '' (having_clause s) @
     (if order_by s = [] then [] else '' ORDER BY '' @
        comma_separated (map (\<lambda>(e, asc). expr_string e @ (if asc then '' ASC'' else '' DESC'')) (order_by s))) @
     clause '' LIMIT '' (select_limit s) @ clause '' OFFSET '' (select_offset s)"

definition values_string :: "AstExpression list list \<Rightarrow> string" where
  "values_string vs = comma_separated (map (\<lambda>row. ''('' @ comma_separated (map expr_string row) @ '')'') vs)"

fun statement_string :: "Statement \<Rightarrow> string" where
  "statement_string (SelectStmt s) = select_string s"
| "statement_string (InsertStmt nm vs) = ''INSERT INTO '' @ nm @ '' VALUES '' @ values_string vs"
| "statement_string (UpdateStmt nm sets wh) =
     ''UPDATE '' @ nm @ '' SET '' @ comma_separated (map (\<lambda>(col, e). col @ '' = '' @ expr_string e) sets) @ clause '' WHERE '' wh"
| "statement_string (DeleteStmt nm wh) = ''DELETE FROM '' @ nm @ clause '' WHERE '' wh"
| "statement_string (ValuesStmt vs) = ''VALUES '' @ values_string vs"
| "statement_string (ExplainStmt None an) = ''EXPLAIN '' @ (if an then ''ANALYZE '' else [])"
| "statement_string (ExplainStmt (Some s) an) = ''EXPLAIN '' @ (if an then ''ANALYZE '' else []) @ statement_string s"
| "statement_string (PrepareStmt nm None) = ''PREPARE '' @ nm @ '' AS ''"
| "statement_string (PrepareStmt nm (Some s)) = ''PREPARE '' @ nm @ '' AS '' @ statement_string s"
| "statement_string (ExecuteStmt nm ps) =
     ''EXECUTE '' @ nm @ (if ps = [] then [] else ''('' @ comma_separated (map expr_string ps) @ '')'')"
| "statement_string (DeallocateStmt nm) = ''DEALLOCATE '' @ nm"

subsection \<open>The state of the parser\<close>

record Parser =
  ps_lexer :: Lexer
  current_token :: Token
  previous_token :: Token

datatype ParserError = ParserError string nat nat

type_synonym 'a parse = "Parser \<Rightarrow> (ParserError + 'a \<times> Parser) option"

definition yield :: "'a \<Rightarrow> 'a parse" where
  "yield x p = Some (Inr (x, p))"

definition pbind :: "'a parse \<Rightarrow> ('a \<Rightarrow> 'b parse) \<Rightarrow> 'b parse" where
  "pbind f g p = (case f p of None \<Rightarrow> None | Some (Inl e) \<Rightarrow> Some (Inl e) | Some (Inr (x, p')) \<Rightarrow> g x p')"

definition perror :: "Token \<Rightarrow> string \<Rightarrow> 'a parse" where
  "perror t msg p = Some (Inl (ParserError (msg @ '' at '' @ [quote] @ lexeme t @ [quote]) (tok_line t) (tok_column t)))"

definition error_here :: "string \<Rightarrow> 'a parse" where
  "error_here msg p = perror (current_token p) msg p"

text \<open>The loop of \<open>Parser::advance\<close> runs once: it leaves by the break or by the exception.\<close>

definition parser_advance :: "unit parse" where
  "parser_advance p = (case nextToken (ps_lexer p) of (t, l) \<Rightarrow>
     let p' = p\<lparr>previous_token := current_token p, ps_lexer := l, current_token := t\<rparr> in
     if tok_type t \<noteq> TInvalid then yield () p' else perror t (lexeme t) p')"

definition check :: "TokenType \<Rightarrow> Parser \<Rightarrow> bool" where
  "check ty p = (if tok_type (current_token p) = TEof then ty = TEof else tok_type (current_token p) = ty)"

definition match_token :: "TokenType \<Rightarrow> bool parse" where
  "match_token ty p = (if check ty p then pbind parser_advance (\<lambda>_. yield True) p else yield False p)"

definition consume :: "TokenType \<Rightarrow> string \<Rightarrow> unit parse" where
  "consume ty msg p = (if check ty p then parser_advance p else error_here msg p)"

definition previous_lexeme :: "string parse" where
  "previous_lexeme p = yield (lexeme (previous_token p)) p"

definition mk_Parser :: "string \<Rightarrow> (ParserError + Parser) option" where
  "mk_Parser src = (let t = mk_Token TEof [] 0 0 in
     case parser_advance \<lparr>ps_lexer = mk_Lexer src, current_token = t, previous_token = t\<rparr> of
       None \<Rightarrow> None | Some (Inl e) \<Rightarrow> Some (Inl e) | Some (Inr (_, p)) \<Rightarrow> Some (Inr p))"

text \<open>An \<open>if (match(ty)) ...\<close> with what follows it on either branch, and one with an expression below it.\<close>

definition if_match :: "TokenType \<Rightarrow> 'a parse \<Rightarrow> 'a parse \<Rightarrow> 'a parse" where
  "if_match ty f g = pbind (match_token ty) (\<lambda>b. if b then f else g)"

definition optional :: "TokenType \<Rightarrow> 'a parse \<Rightarrow> 'a option parse" where
  "optional ty f = if_match ty (pbind f (\<lambda>x. yield (Some x))) (yield None)"

text \<open>\<open>do { ... } while (match(TokenType::Comma))\<close>\<close>

fun comma_list :: "nat \<Rightarrow> 'a parse \<Rightarrow> 'a list parse" where
  "comma_list 0 item = (\<lambda>p. None)"
| "comma_list (Suc n) item = pbind item (\<lambda>x. if_match TComma (pbind (comma_list n item) (\<lambda>xs. yield (x # xs))) (yield [x]))"

subsection \<open>Expressions\<close>

text \<open>The chain of \<open>if (match(...)) ... else if ...\<close> of a loop over binary operators.\<close>

fun match_op :: "(TokenType \<times> BinaryOp) list \<Rightarrow> BinaryOp option parse" where
  "match_op [] = yield None"
| "match_op ((ty, op) # ops) = if_match ty (yield (Some op)) (match_op ops)"

fun binary_loop :: "nat \<Rightarrow> (TokenType \<times> BinaryOp) list \<Rightarrow> AstExpression parse \<Rightarrow> AstExpression \<Rightarrow> AstExpression parse" where
  "binary_loop 0 ops sub expr = (\<lambda>p. None)"
| "binary_loop (Suc n) ops sub expr = pbind (match_op ops) (\<lambda>found. case found of
     None \<Rightarrow> yield expr | Some op \<Rightarrow> pbind sub (\<lambda>right. binary_loop n ops sub (ABinary op expr right)))"

definition binary_level :: "(TokenType \<times> BinaryOp) list \<Rightarrow> nat \<Rightarrow> AstExpression parse \<Rightarrow> AstExpression parse" where
  "binary_level ops n sub = pbind sub (binary_loop n ops sub)"

definition parseFactor :: "nat \<Rightarrow> AstExpression parse \<Rightarrow> AstExpression parse" where
  "parseFactor n unary = binary_level [(TAsterisk, OpMultiply), (TSlash, OpDivide), (TModulo, OpModulo)] n unary"

definition parseTerm :: "nat \<Rightarrow> AstExpression parse \<Rightarrow> AstExpression parse" where
  "parseTerm n unary = binary_level [(TPlus, OpAdd), (TMinus, OpSubtract)] n (parseFactor n unary)"

definition parseComparison :: "nat \<Rightarrow> AstExpression parse \<Rightarrow> AstExpression parse" where
  "parseComparison n unary = binary_level [(TEquals, OpEquals), (TNotEquals, OpNotEquals), (TLess, OpLess), (TLessEquals, OpLessEquals),
     (TGreater, OpGreater), (TGreaterEquals, OpGreaterEquals)] n (parseTerm n unary)"

definition parseAnd :: "nat \<Rightarrow> AstExpression parse \<Rightarrow> AstExpression parse" where
  "parseAnd n unary = binary_level [(TAnd, OpAnd)] n (parseComparison n unary)"

definition parseOr :: "nat \<Rightarrow> AstExpression parse \<Rightarrow> AstExpression parse" where
  "parseOr n unary = binary_level [(TOr, OpOr)] n (parseAnd n unary)"

definition parsePrimary :: "AstExpression parse \<Rightarrow> AstExpression parse" where
  "parsePrimary expression =
     if_match TInteger (pbind previous_lexeme (\<lambda>v. yield (AConstant CInteger v)))
     (if_match TString (pbind previous_lexeme (\<lambda>v. yield (AConstant CString v)))
     (if_match TBoolLiteral (pbind previous_lexeme (\<lambda>v. yield (AConstant CBoolean (map tolower v))))
     (if_match TNullLiteral (yield (AConstant CNull ''null''))
     (if_match TAsterisk (yield AStar)
     (if_match TQuestionMark (yield AParameter)
     (if_match TIdentifier (pbind previous_lexeme (\<lambda>name.
        if_match TDot
          (pbind (consume TIdentifier (''Expected column name after '' @ [quote] @ ''.'' @ [quote])) (\<lambda>_.
           pbind previous_lexeme (\<lambda>col. yield (AColumn col name))))
          (yield (AColumn name []))))
     (if_match TLeftParen
        (pbind expression (\<lambda>e. pbind (consume TRightParen (''Expected '' @ [quote] @ '')'' @ [quote] @ '' after expression'')) (\<lambda>_. yield e)))
        (error_here ''Expected expression'')))))))) "

fun parseUnary :: "nat \<Rightarrow> AstExpression parse" where
  "parseUnary 0 = (\<lambda>p. None)"
| "parseUnary (Suc n) =
     if_match TNot (pbind (parseUnary n) (\<lambda>e. yield (AUnary OpNot e)))
     (if_match TPlus (pbind (parseUnary n) (\<lambda>e. yield (AUnary OpPlus e)))
     (if_match TMinus (pbind (parseUnary n) (\<lambda>e. yield (AUnary OpMinus e)))
     (parsePrimary (parseOr n (parseUnary n)))))"

definition parseExpression :: "nat \<Rightarrow> AstExpression parse" where
  "parseExpression n = parseOr n (parseUnary n)"

subsection \<open>Statements\<close>

text \<open>The name and the alias of a table, for the first table and for a table in a join.\<close>

definition base_table :: "string \<Rightarrow> TableReference parse" where
  "base_table msg = pbind (consume TIdentifier msg) (\<lambda>_. pbind previous_lexeme (\<lambda>name.
     if_match TAs
       (pbind (consume TIdentifier ''Expected table alias'') (\<lambda>_. pbind previous_lexeme (\<lambda>al. yield (BaseTable name al))))
       (if_match TIdentifier (pbind previous_lexeme (\<lambda>al. yield (BaseTable name al))) (yield (BaseTable name [])))))"

definition previous_is :: "TokenType \<Rightarrow> bool parse" where
  "previous_is ty p = yield (tok_type (previous_token p) = ty) p"

definition match_join :: "bool parse" where
  "match_join = if_match TInner (yield True) (match_token TJoin)"

fun join_loop :: "nat \<Rightarrow> TableReference \<Rightarrow> TableReference parse" where
  "join_loop 0 current = (\<lambda>p. None)"
| "join_loop (Suc n) current = pbind match_join (\<lambda>b. if \<not> b then yield current else
     pbind (previous_is TInner) (\<lambda>inner.
     pbind (if inner then consume TJoin ''Expected JOIN after INNER'' else yield ()) (\<lambda>_.
     pbind (base_table ''Expected table name in JOIN'') (\<lambda>right.
     pbind (optional TOn (parseExpression n)) (\<lambda>cond.
     join_loop n (JoinTable current right cond))))))"

definition parseTableReference :: "nat \<Rightarrow> TableReference parse" where
  "parseTableReference n = pbind (base_table ''Expected table name'') (join_loop n)"

definition parse_group_by :: "nat \<Rightarrow> AstExpression list parse" where
  "parse_group_by n = if_match TGroup
     (pbind (consume TBy (''Expected '' @ [quote] @ ''BY'' @ [quote] @ '' after '' @ [quote] @ ''GROUP'' @ [quote])) (\<lambda>_. comma_list n (parseExpression n)))
     (yield [])"

definition order_item :: "nat \<Rightarrow> (AstExpression \<times> bool) parse" where
  "order_item n = pbind (parseExpression n) (\<lambda>e. if_match TDesc (yield (e, False)) (pbind (match_token TAsc) (\<lambda>_. yield (e, True))))"

definition parse_order_by :: "nat \<Rightarrow> (AstExpression \<times> bool) list parse" where
  "parse_order_by n = if_match TOrder
     (pbind (consume TBy (''Expected '' @ [quote] @ ''BY'' @ [quote] @ '' after '' @ [quote] @ ''ORDER'' @ [quote])) (\<lambda>_. comma_list n (order_item n)))
     (yield [])"

definition parseSelect :: "nat \<Rightarrow> Statement parse" where
  "parseSelect n =
     pbind (comma_list n (parseExpression n)) (\<lambda>sl.
     pbind (optional TFrom (parseTableReference n)) (\<lambda>t.
     pbind (optional TWhere (parseExpression n)) (\<lambda>wh.
     pbind (parse_group_by n) (\<lambda>gb.
     pbind (optional THaving (parseExpression n)) (\<lambda>hv.
     pbind (parse_order_by n) (\<lambda>ob.
     pbind (optional TLimit (parseExpression n)) (\<lambda>lim.
     pbind (optional TOffset (parseExpression n)) (\<lambda>off.
     yield (SelectStmt \<lparr>select_list = sl, select_table = t, select_where = wh, group_by = gb, having_clause = hv, order_by = ob,
       select_limit = lim, select_offset = off\<rparr>)))))))))"

definition values_tuple :: "nat \<Rightarrow> AstExpression list parse" where
  "values_tuple n = pbind (consume TLeftParen (''Expected '' @ [quote] @ ''('' @ [quote] @ '' in VALUES'')) (\<lambda>_.
     pbind (comma_list n (parseExpression n)) (\<lambda>row.
     pbind (consume TRightParen (''Expected '' @ [quote] @ '')'' @ [quote] @ '' in VALUES'')) (\<lambda>_. yield row)))"

definition parseValuesList :: "nat \<Rightarrow> AstExpression list list parse" where
  "parseValuesList n = comma_list n (values_tuple n)"

text \<open>\<open>consume(TokenType::Identifier, msg)\<close> and the lexeme it has read.\<close>

definition consume_name :: "string \<Rightarrow> string parse" where
  "consume_name msg = pbind (consume TIdentifier msg) (\<lambda>_. previous_lexeme)"

definition parseInsert :: "nat \<Rightarrow> Statement parse" where
  "parseInsert n = pbind (match_token TInto) (\<lambda>_. pbind (consume_name ''Expected table name'') (\<lambda>name.
     pbind (consume TValues ''Expected VALUES clause'') (\<lambda>_. pbind (parseValuesList n) (\<lambda>vs. yield (InsertStmt name vs)))))"

definition set_clause :: "nat \<Rightarrow> (string \<times> AstExpression) parse" where
  "set_clause n = pbind (consume_name ''Expected column name'') (\<lambda>col.
     pbind (consume TEquals (''Expected '' @ [quote] @ ''='' @ [quote] @ '' after column name'')) (\<lambda>_.
     pbind (parseExpression n) (\<lambda>e. yield (col, e))))"

definition parseUpdate :: "nat \<Rightarrow> Statement parse" where
  "parseUpdate n = pbind (consume_name ''Expected table name'') (\<lambda>name.
     pbind (consume TSet ''Expected SET clause'') (\<lambda>_. pbind (comma_list n (set_clause n)) (\<lambda>sets.
     pbind (optional TWhere (parseExpression n)) (\<lambda>wh. yield (UpdateStmt name sets wh)))))"

definition parseDelete :: "nat \<Rightarrow> Statement parse" where
  "parseDelete n = pbind (match_token TFrom) (\<lambda>_. pbind (consume_name ''Expected table name'') (\<lambda>name.
     pbind (optional TWhere (parseExpression n)) (\<lambda>wh. yield (DeleteStmt name wh))))"

definition parseValues :: "nat \<Rightarrow> Statement parse" where
  "parseValues n = pbind (parseValuesList n) (\<lambda>vs. yield (ValuesStmt vs))"

definition parseExplain :: "Statement parse \<Rightarrow> Statement parse" where
  "parseExplain statement = pbind (match_token TAnalyze) (\<lambda>an. pbind statement (\<lambda>s. yield (ExplainStmt (Some s) an)))"

definition parsePrepare :: "Statement parse \<Rightarrow> Statement parse" where
  "parsePrepare statement = pbind (consume_name ''Expected prepared statement name'') (\<lambda>name.
     pbind (consume TAs ''Expected AS after prepared statement name'') (\<lambda>_. pbind statement (\<lambda>s. yield (PrepareStmt name (Some s)))))"

definition parameter_list :: "nat \<Rightarrow> AstExpression list parse" where
  "parameter_list n p = (if check TRightParen p then yield [] p else comma_list n (parseExpression n) p)"

definition parseExecute :: "nat \<Rightarrow> Statement parse" where
  "parseExecute n = pbind (consume_name ''Expected prepared statement name'') (\<lambda>name.
     if_match TLeftParen
       (pbind (parameter_list n) (\<lambda>ps.
        pbind (consume TRightParen (''Expected '' @ [quote] @ '')'' @ [quote] @ '' after parameters'')) (\<lambda>_. yield (ExecuteStmt name ps))))
       (yield (ExecuteStmt name [])))"

definition parseDeallocate :: "Statement parse" where
  "parseDeallocate = pbind (match_token TPrepare) (\<lambda>_. pbind (consume_name ''Expected prepared statement name'') (\<lambda>name. yield (DeallocateStmt name)))"

fun parseStatement :: "nat \<Rightarrow> Statement parse" where
  "parseStatement 0 = (\<lambda>p. None)"
| "parseStatement (Suc n) =
     if_match TSelect (parseSelect n)
     (if_match TInsert (parseInsert n)
     (if_match TUpdate (parseUpdate n)
     (if_match TDelete (parseDelete n)
     (if_match TValues (parseValues n)
     (if_match TExplain (parseExplain (parseStatement n))
     (if_match TPrepare (parsePrepare (parseStatement n))
     (if_match TExecute (parseExecute n)
     (if_match TDeallocate parseDeallocate
     (error_here ''Expected statement'')))))))))"

text \<open>\<open>Parser(source).parseStatement()\<close>, and the fuel that suffices for it.\<close>

definition parse_with :: "nat \<Rightarrow> string \<Rightarrow> (ParserError + Statement) option" where
  "parse_with n src = (case mk_Parser src of None \<Rightarrow> None | Some (Inl e) \<Rightarrow> Some (Inl e)
     | Some (Inr p) \<Rightarrow> map_option (map_sum id fst) (parseStatement n p))"

definition parse :: "string \<Rightarrow> (ParserError + Statement) option" where
  "parse src = parse_with (Suc (length src)) src"

lemmas parser_defs = parsePrimary_def parseFactor_def parseTerm_def parseComparison_def parseAnd_def parseOr_def parseExpression_def
  base_table_def match_join_def parseTableReference_def parse_group_by_def order_item_def parse_order_by_def parseSelect_def values_tuple_def
  parseValuesList_def consume_name_def parseInsert_def set_clause_def parseUpdate_def parseDelete_def parseValues_def parseExplain_def
  parsePrepare_def parseExecute_def parseDeallocate_def

subsection \<open>Enough fuel\<close>

text \<open>A bound on the tokens that are left, the current one included.\<close>

definition remaining :: "Parser \<Rightarrow> nat" where
  "remaining p = length (lx_rest (ps_lexer p)) + (if tok_type (current_token p) = TEof then 0 else 1)"

definition within :: "nat \<Rightarrow> 'a parse \<Rightarrow> bool" where
  "within n f = (\<forall>p. remaining p < n \<longrightarrow> (\<exists>r. f p = Some r \<and> (\<forall>x p'. r = Inr (x, p') \<longrightarrow> remaining p' \<le> remaining p)))"

definition eats :: "nat \<Rightarrow> 'a parse \<Rightarrow> bool" where
  "eats n f = (\<forall>p. remaining p < n \<longrightarrow> (\<exists>r. f p = Some r \<and> (\<forall>x p'. r = Inr (x, p') \<longrightarrow> remaining p' < remaining p)))"

lemma withinD: "within n f \<Longrightarrow> remaining p < n \<Longrightarrow> \<exists>r. f p = Some r \<and> (\<forall>x p'. r = Inr (x, p') \<longrightarrow> remaining p' \<le> remaining p)"
  by (simp add: within_def)

lemma eatsD: "eats n f \<Longrightarrow> remaining p < n \<Longrightarrow> \<exists>r. f p = Some r \<and> (\<forall>x p'. r = Inr (x, p') \<longrightarrow> remaining p' < remaining p)"
  by (simp add: eats_def)

lemma eats_within: "eats n f \<Longrightarrow> within n f"
  by (auto simp: within_def eats_def) (meson less_imp_le)

lemma within_less: "within n f \<Longrightarrow> m \<le> n \<Longrightarrow> within m f"
  by (simp add: within_def)

lemma eats_less: "eats n f \<Longrightarrow> m \<le> n \<Longrightarrow> eats m f"
  by (simp add: eats_def)

lemma eats_0 [simp]: "eats 0 f" "within 0 f"
  by (simp_all add: eats_def within_def)

lemma within_yield [intro!]: "within n (yield x)"
  by (simp add: within_def yield_def)

lemma within_name [intro!]: "within n previous_lexeme" "within n (previous_is ty)"
  by (simp_all add: within_def previous_lexeme_def previous_is_def yield_def)

lemma eats_error [intro!]: "eats n (error_here msg)"
  by (simp add: eats_def error_here_def perror_def)

lemma pbind_within: "within n f \<Longrightarrow> (\<And>x. within n (g x)) \<Longrightarrow> within n (pbind f g)"
proof (unfold within_def [of n "pbind f g"], intro allI impI)
  fix p assume f: "within n f" and g: "\<And>x. within n (g x)" and p: "remaining p < n"
  obtain r where r: "f p = Some r" "\<forall>x p'. r = Inr (x, p') \<longrightarrow> remaining p' \<le> remaining p" using withinD [OF f p] by blast
  show "\<exists>r. pbind f g p = Some r \<and> (\<forall>x p'. r = Inr (x, p') \<longrightarrow> remaining p' \<le> remaining p)"
  proof (cases r)
    case (Inr s)
    obtain x q where s: "s = (x, q)" by (cases s)
    then obtain u where "g x q = Some u" "\<forall>y p'. u = Inr (y, p') \<longrightarrow> remaining p' \<le> remaining q" using withinD [OF g, of q x] r Inr p by fastforce
    then show ?thesis using r Inr s by (fastforce simp: pbind_def)
  qed (use r in \<open>simp add: pbind_def\<close>)
qed

lemma eats_then: "eats (Suc n) f \<Longrightarrow> (\<And>x. within n (g x)) \<Longrightarrow> eats (Suc n) (pbind f g)"
proof (unfold eats_def [of "Suc n" "pbind f g"], intro allI impI)
  fix p assume f: "eats (Suc n) f" and g: "\<And>x. within n (g x)" and p: "remaining p < Suc n"
  obtain r where r: "f p = Some r" "\<forall>x p'. r = Inr (x, p') \<longrightarrow> remaining p' < remaining p" using eatsD [OF f p] by blast
  show "\<exists>r. pbind f g p = Some r \<and> (\<forall>x p'. r = Inr (x, p') \<longrightarrow> remaining p' < remaining p)"
  proof (cases r)
    case (Inr s)
    obtain x q where s: "s = (x, q)" by (cases s)
    then obtain u where "g x q = Some u" "\<forall>y p'. u = Inr (y, p') \<longrightarrow> remaining p' \<le> remaining q" using withinD [OF g, of q x] r Inr p by fastforce
    moreover have "remaining q < remaining p" using r Inr s by simp
    ultimately show ?thesis using r Inr s by (fastforce simp: pbind_def)
  qed (use r in \<open>simp add: pbind_def\<close>)
qed

lemma eats_pbind: "eats n f \<Longrightarrow> (\<And>x. within n (g x)) \<Longrightarrow> eats n (pbind f g)"
  using eats_then [of "n - 1" f g] within_less [of n _ "n - 1"] by (cases n) auto

lemma advance_remaining:
  assumes "parser_advance p = Some (Inr (x, p'))"
  shows "remaining p' \<le> remaining p" "tok_type (current_token p) \<noteq> TEof \<Longrightarrow> remaining p' < remaining p"
proof -
  obtain t l where n: "nextToken (ps_lexer p) = (t, l)" by fastforce
  have p': "p' = p\<lparr>previous_token := current_token p, ps_lexer := l, current_token := t\<rparr>"
    using assms n by (simp add: parser_advance_def Let_def yield_def perror_def split: if_splits)
  show "remaining p' \<le> remaining p" "tok_type (current_token p) \<noteq> TEof \<Longrightarrow> remaining p' < remaining p"
    using nextToken_shorter(1,2) [OF n] by (auto simp: p' remaining_def)
qed

lemma advance_some: "\<exists>r. parser_advance p = Some r"
  by (simp add: parser_advance_def Let_def yield_def perror_def split: prod.splits)

lemma check_type: "ty \<noteq> TEof \<Longrightarrow> check ty p \<longleftrightarrow> tok_type (current_token p) = ty"
  by (auto simp: check_def)

lemma match_remaining:
  assumes "ty \<noteq> TEof"
  shows "\<exists>r. match_token ty p = Some r \<and> (\<forall>b p'. r = Inr (b, p') \<longrightarrow> (if b then remaining p' < remaining p else p' = p))"
proof (cases "check ty p")
  case True
  obtain r where r: "parser_advance p = Some r" using advance_some by blast
  then show ?thesis
    using True assms advance_remaining(2) [of p] check_type [OF assms] by (cases r) (auto simp: match_token_def pbind_def yield_def)
qed (simp add: match_token_def yield_def)

lemma eats_consume [intro!]: "ty \<noteq> TEof \<Longrightarrow> eats n (consume ty msg)"
proof (unfold eats_def, intro allI impI)
  fix p assume ty: "ty \<noteq> TEof"
  show "\<exists>r. consume ty msg p = Some r \<and> (\<forall>x p'. r = Inr (x, p') \<longrightarrow> remaining p' < remaining p)"
  proof (cases "check ty p")
    case True
    then show ?thesis using advance_some [of p] advance_remaining(2) [of p] ty check_type [OF ty, of p] by (auto simp: consume_def)
  qed (simp add: consume_def error_here_def perror_def)
qed

lemma within_match [intro!]: "ty \<noteq> TEof \<Longrightarrow> within n (match_token ty)"
  unfolding within_def by (metis match_remaining less_imp_le order.refl)

lemma if_match_cases:
  assumes "ty \<noteq> TEof"
  obtains e where "if_match ty f g p = Some (Inl e)" | p' where "if_match ty f g p = f p'" "remaining p' < remaining p" | "if_match ty f g p = g p"
proof -
  obtain r where r: "match_token ty p = Some r" "\<forall>b p'. r = Inr (b, p') \<longrightarrow> (if b then remaining p' < remaining p else p' = p)"
    using match_remaining [OF assms] by blast
  show ?thesis
  proof (cases r)
    case (Inl e)
    then show ?thesis using r that(1) by (simp add: if_match_def pbind_def)
  next
    case (Inr s)
    obtain b q where s: "s = (b, q)" by (cases s)
    have k: "if_match ty f g p = (if b then f else g) q" using r(1) Inr s by (simp add: if_match_def pbind_def)
    have "if b then remaining q < remaining p else q = p" using r(2) Inr s by simp
    then show ?thesis using k that(2) [of q] that(3) by (cases b) simp_all
  qed
qed

lemma eats_if_match: "ty \<noteq> TEof \<Longrightarrow> within n f \<Longrightarrow> eats (Suc n) g \<Longrightarrow> eats (Suc n) (if_match ty f g)"
proof (unfold eats_def [of "Suc n" "if_match ty f g"], intro allI impI)
  fix p assume ty: "ty \<noteq> TEof" and f: "within n f" and g: "eats (Suc n) g" and p: "remaining p < Suc n"
  show "\<exists>r. if_match ty f g p = Some r \<and> (\<forall>x p'. r = Inr (x, p') \<longrightarrow> remaining p' < remaining p)"
    using if_match_cases [OF ty, of f g p]
  proof cases
    case (2 p')
    then show ?thesis using withinD [OF f, of p'] p by (metis le_less_trans less_Suc_eq_le less_le_trans)
  qed (use eatsD [OF g p] in auto)
qed

lemma within_if_match: "ty \<noteq> TEof \<Longrightarrow> within n f \<Longrightarrow> within n g \<Longrightarrow> within n (if_match ty f g)"
proof (unfold within_def [of n "if_match ty f g"], intro allI impI)
  fix p assume ty: "ty \<noteq> TEof" and f: "within n f" and g: "within n g" and p: "remaining p < n"
  show "\<exists>r. if_match ty f g p = Some r \<and> (\<forall>x p'. r = Inr (x, p') \<longrightarrow> remaining p' \<le> remaining p)"
    using if_match_cases [OF ty, of f g p]
  proof cases
    case (2 p')
    then show ?thesis using withinD [OF f, of p'] p by (metis le_trans less_imp_le less_trans)
  qed (use withinD [OF g p] in auto)
qed

lemma within_optional: "ty \<noteq> TEof \<Longrightarrow> within n f \<Longrightarrow> within n (optional ty f)"
  unfolding optional_def by (intro within_if_match pbind_within within_yield)

lemma eats_comma_list: "eats N item \<Longrightarrow> n \<le> N \<Longrightarrow> eats n (comma_list n item)"
proof (induction n)
  case (Suc n)
  have "within n (comma_list n item)" using Suc by (simp add: eats_within)
  then have "within n (if_match TComma (pbind (comma_list n item) (\<lambda>xs. yield (x # xs))) (yield [x]))" for x
    by (intro within_if_match pbind_within) auto
  then show ?case using eats_less [OF Suc.prems] by (simp add: eats_then)
qed simp

lemma match_op_remaining:
  "TEof \<notin> fst ` set ops \<Longrightarrow>
   \<exists>r. match_op ops p = Some r \<and> (\<forall>x p'. r = Inr (x, p') \<longrightarrow> (if x = None then p' = p else remaining p' < remaining p))"
proof (induction ops)
  case (Cons a ops)
  obtain ty op where a: "a = (ty, op)" by (cases a)
  then have "ty \<noteq> TEof" using Cons.prems by auto
  then show ?case
  proof (cases rule: if_match_cases [of ty "yield (Some op)" "match_op ops" p])
    case (2 p')
    then show ?thesis using a by (simp add: yield_def)
  qed (use Cons a in auto)
qed (simp add: yield_def)

lemma within_binary_loop: "TEof \<notin> fst ` set ops \<Longrightarrow> eats N sub \<Longrightarrow> n \<le> N \<Longrightarrow> within n (binary_loop n ops sub e)"
proof (induction n arbitrary: e)
  case (Suc n)
  show ?case unfolding within_def
  proof (intro allI impI)
    fix p assume p: "remaining p < Suc n"
    obtain r where r: "match_op ops p = Some r" "\<forall>x p'. r = Inr (x, p') \<longrightarrow> (if x = None then p' = p else remaining p' < remaining p)"
      using match_op_remaining [OF Suc.prems(1)] by blast
    have W: "within n (pbind sub (\<lambda>right. binary_loop n ops sub (ABinary op e right)))" for op
      using Suc eats_within eats_less [of N sub n] by (intro pbind_within) auto
    show "\<exists>r. binary_loop (Suc n) ops sub e p = Some r \<and> (\<forall>x p'. r = Inr (x, p') \<longrightarrow> remaining p' \<le> remaining p)"
    proof (cases r)
      case (Inr s)
      obtain x q where s: "s = (x, q)" by (cases s)
      show ?thesis
      proof (cases x)
        case None
        then have "q = p" "match_op ops p = Some (Inr (None, q))" using r Inr s by simp_all
        then show ?thesis by (simp add: pbind_def yield_def)
      next
        case (Some op)
        then have "remaining q < remaining p" "binary_loop (Suc n) ops sub e p = pbind sub (\<lambda>right. binary_loop n ops sub (ABinary op e right)) q"
          using r Inr s by (simp_all add: pbind_def [of "match_op ops"])
        then show ?thesis using withinD [OF W, of q op] p by (metis le_trans less_Suc_eq_le less_imp_le less_le_trans)
      qed
    qed (use r in \<open>simp add: pbind_def\<close>)
  qed
qed simp

lemma eats_level: "eats n sub \<Longrightarrow> TEof \<notin> fst ` set ops \<Longrightarrow> eats n (binary_level ops n sub)"
  unfolding binary_level_def by (intro eats_pbind within_binary_loop [of ops n sub n]) auto

lemma eats_parseOr: "eats n u \<Longrightarrow> eats n (parseOr n u)"
  unfolding parseOr_def parseAnd_def parseComparison_def parseTerm_def parseFactor_def by (intro eats_level) auto

lemma eats_parseUnary: "eats n (parseUnary n)"
proof (induction n)
  case (Suc n)
  note u = eats_within [OF Suc] eats_within [OF eats_parseOr [OF Suc]]
  show ?case unfolding parseUnary.simps parsePrimary_def
    by (intro eats_if_match within_if_match pbind_within within_yield within_name eats_error eats_within [OF eats_consume] u) auto
qed simp

lemma eats_parseExpression: "eats n (parseExpression n)"
  unfolding parseExpression_def by (rule eats_parseOr [OF eats_parseUnary])

lemmas within_parseExpression = eats_within [OF eats_parseExpression]

lemma eats_base_table: "eats n (base_table msg)"
  unfolding base_table_def by (intro eats_pbind within_if_match pbind_within within_yield within_name eats_consume eats_within [OF eats_consume]) auto

lemma match_join_remaining:
  "\<exists>r. match_join p = Some r \<and> (\<forall>b p'. r = Inr (b, p') \<longrightarrow> (if b then remaining p' < remaining p else p' = p))"
proof -
  have "TInner \<noteq> TEof" by simp
  then show ?thesis
    using match_remaining [of TJoin p] by (cases rule: if_match_cases [of TInner "yield True" "match_token TJoin" p]) (auto simp: match_join_def yield_def)
qed

lemma within_join_loop: "n \<le> N \<Longrightarrow> within n (join_loop n t)"
proof (induction n arbitrary: t)
  case (Suc n)
  let ?k = "pbind (previous_is TInner) (\<lambda>inner. pbind (if inner then consume TJoin ''Expected JOIN after INNER'' else yield ()) (\<lambda>_.
     pbind (base_table ''Expected table name in JOIN'') (\<lambda>right. pbind (optional TOn (parseExpression n)) (\<lambda>cond. join_loop n (JoinTable t right cond)))))"
  have "within n (if b then consume TJoin ''Expected JOIN after INNER'' else yield ())" for b :: bool using eats_within [OF eats_consume] by auto
  then have W: "within n ?k"
    using Suc by (intro pbind_within within_name within_optional within_parseExpression eats_within [OF eats_base_table]) auto
  show ?case unfolding within_def
  proof (intro allI impI)
    fix p assume p: "remaining p < Suc n"
    obtain r where r: "match_join p = Some r" "\<forall>b p'. r = Inr (b, p') \<longrightarrow> (if b then remaining p' < remaining p else p' = p)"
      using match_join_remaining by blast
    show "\<exists>r. join_loop (Suc n) t p = Some r \<and> (\<forall>x p'. r = Inr (x, p') \<longrightarrow> remaining p' \<le> remaining p)"
    proof (cases r)
      case (Inr s)
      obtain b q where s: "s = (b, q)" by (cases s)
      have d: "if b then remaining q < remaining p else q = p" "match_join p = Some (Inr (b, q))" using r Inr s by simp_all
      show ?thesis
      proof (cases b)
        case False
        then have "q = p" "match_join p = Some (Inr (False, q))" using d by simp_all
        then show ?thesis by (simp add: pbind_def yield_def)
      next
        case True
        then have "remaining q < remaining p" "join_loop (Suc n) t p = ?k q" using d by (simp_all add: pbind_def [of match_join])
        then show ?thesis using withinD [OF W, of q] p by (metis le_trans less_Suc_eq_le less_imp_le less_le_trans)
      qed
    qed (use r in \<open>simp add: pbind_def\<close>)
  qed
qed simp

lemma eats_consume_name: "eats n (consume_name msg)"
  unfolding consume_name_def by (intro eats_pbind within_name eats_consume) simp

lemma eats_order_item: "eats n (order_item n)"
  unfolding order_item_def by (intro eats_pbind eats_parseExpression within_if_match within_yield pbind_within within_match) auto

lemma eats_values_tuple: "eats n (values_tuple n)"
  unfolding values_tuple_def
  by (intro eats_pbind eats_consume pbind_within eats_within [OF eats_comma_list [OF eats_parseExpression order.refl]]
    eats_within [OF eats_consume] within_yield) auto

lemma eats_set_clause: "eats n (set_clause n)"
  unfolding set_clause_def by (intro eats_pbind eats_consume_name pbind_within eats_within [OF eats_consume] within_yield within_parseExpression) simp

lemma within_parameter_list: "within n (parameter_list n)"
  using withinD [OF eats_within [OF eats_comma_list [OF eats_parseExpression order.refl]]]
  by (auto simp: within_def parameter_list_def yield_def)

lemmas within_parts = within_parseExpression eats_within [OF eats_comma_list [OF eats_parseExpression order.refl]]
  eats_within [OF eats_comma_list [OF eats_order_item order.refl]] eats_within [OF eats_comma_list [OF eats_values_tuple order.refl]]
  eats_within [OF eats_comma_list [OF eats_set_clause order.refl]] eats_within [OF eats_consume_name] eats_within [OF eats_consume]
  eats_within [OF eats_base_table] within_join_loop [OF order.refl] within_parameter_list

lemmas within_rules = pbind_within within_if_match within_optional within_yield within_match

lemma within_statements:
  "within n (parseSelect n)" "within n (parseInsert n)" "within n (parseUpdate n)" "within n (parseDelete n)" "within n (parseValues n)"
  "within n (parseExecute n)" "within n parseDeallocate"
  unfolding parseSelect_def parse_group_by_def parse_order_by_def parseTableReference_def parseInsert_def parseUpdate_def parseDelete_def
    parseValues_def parseValuesList_def parseExecute_def parseDeallocate_def
  by (intro within_rules within_parts; simp)+

lemma eats_parseStatement: "eats n (parseStatement n)"
proof (induction n)
  case (Suc n)
  have "within n (parseExplain (parseStatement n))" "within n (parsePrepare (parseStatement n))"
    unfolding parseExplain_def parsePrepare_def using eats_within [OF Suc] by (intro within_rules within_parts; simp)+
  then show ?case unfolding parseStatement.simps by (intro eats_if_match within_statements eats_error) auto
qed simp

lemma mk_Parser_remaining: "\<exists>r. mk_Parser src = Some r \<and> (\<forall>p. r = Inr p \<longrightarrow> remaining p \<le> length src)"
proof -
  let ?p = "\<lparr>ps_lexer = mk_Lexer src, current_token = mk_Token TEof [] 0 0, previous_token = mk_Token TEof [] 0 0\<rparr>"
  obtain r where r: "parser_advance ?p = Some r" using advance_some by blast
  moreover have "remaining ?p = length src" by (simp add: remaining_def mk_Token_def)
  ultimately show ?thesis using advance_remaining(1) [of ?p] by (cases r) (auto simp: mk_Parser_def)
qed

lemma parse_with_some: "length src < n \<Longrightarrow> \<exists>r. parse_with n src = Some r"
proof -
  assume n: "length src < n"
  obtain r where r: "mk_Parser src = Some r" "\<forall>p. r = Inr p \<longrightarrow> remaining p \<le> length src" using mk_Parser_remaining by blast
  show ?thesis
  proof (cases r)
    case (Inr p)
    then obtain u where "parseStatement n p = Some u" using n r(2) eatsD [OF eats_parseStatement [of n], of p] by auto
    then show ?thesis using r(1) Inr by (simp add: parse_with_def)
  qed (use r in \<open>simp add: parse_with_def\<close>)
qed


subsection \<open>More fuel changes nothing\<close>

definition extends :: "'a parse \<Rightarrow> 'a parse \<Rightarrow> bool" where
  "extends f g = (\<forall>p r. f p = Some r \<longrightarrow> g p = Some r)"

lemma extendsD: "extends f g \<Longrightarrow> f p = Some r \<Longrightarrow> g p = Some r"
  by (simp add: extends_def)

lemma extends_refl: "extends f f"
  by (simp add: extends_def)

lemma extends_trans: "extends f g \<Longrightarrow> extends g h \<Longrightarrow> extends f h"
  by (simp add: extends_def)

lemma extends_none: "extends (\<lambda>p. None) f"
  by (simp add: extends_def)

lemma extends_pbind: "extends f f' \<Longrightarrow> (\<And>x. extends (g x) (g' x)) \<Longrightarrow> extends (pbind f g) (pbind f' g')"
  by (fastforce simp: extends_def pbind_def split: option.splits sum.splits prod.splits)

lemma extends_if: "extends f f' \<Longrightarrow> extends g g' \<Longrightarrow> extends (if b then f else g) (if b then f' else g')"
  by simp

lemma extends_if_match: "extends f f' \<Longrightarrow> extends g g' \<Longrightarrow> extends (if_match ty f g) (if_match ty f' g')"
  unfolding if_match_def by (intro extends_pbind extends_refl extends_if)

lemma extends_optional: "extends f f' \<Longrightarrow> extends (optional ty f) (optional ty f')"
  unfolding optional_def by (intro extends_if_match extends_pbind extends_refl)

lemma extends_comma_list: "extends item item' \<Longrightarrow> extends (comma_list n item) (comma_list (Suc n) item')"
proof (induction n)
  case (Suc n)
  then show ?case by (subst comma_list.simps(2) [of n], subst comma_list.simps(2) [of "Suc n"],
      intro extends_pbind extends_if_match extends_refl) auto
qed (simp add: extends_none)

lemma extends_binary_loop: "extends sub sub' \<Longrightarrow> extends (binary_loop n ops sub e) (binary_loop (Suc n) ops sub' e)"
proof (induction n arbitrary: e)
  case (Suc n)
  have "extends (case found of None \<Rightarrow> yield e | Some op \<Rightarrow> pbind sub (\<lambda>right. binary_loop n ops sub (ABinary op e right)))
     (case found of None \<Rightarrow> yield e | Some op \<Rightarrow> pbind sub' (\<lambda>right. binary_loop (Suc n) ops sub' (ABinary op e right)))" for found
    using Suc by (cases found) (auto intro!: extends_pbind extends_refl simp del: binary_loop.simps)
  then show ?case by (subst binary_loop.simps(2) [of n], subst binary_loop.simps(2) [of "Suc n"],
      intro extends_pbind extends_refl)
qed (simp add: extends_none)

lemma extends_parseOr: "extends u u' \<Longrightarrow> extends (parseOr n u) (parseOr (Suc n) u')"
  unfolding parseOr_def parseAnd_def parseComparison_def parseTerm_def parseFactor_def binary_level_def
  by (intro extends_pbind extends_binary_loop)

lemma extends_parseUnary: "extends (parseUnary n) (parseUnary (Suc n))"
proof (induction n)
  case (Suc n)
  show ?case by (subst parseUnary.simps(2) [of n], subst parseUnary.simps(2) [of "Suc n"], unfold parsePrimary_def,
      intro extends_if_match extends_pbind extends_refl extends_parseOr Suc)
qed (simp add: extends_none)

lemma extends_parseExpression: "extends (parseExpression n) (parseExpression (Suc n))"
  unfolding parseExpression_def by (rule extends_parseOr [OF extends_parseUnary])

lemma extends_join_loop: "extends (join_loop n t) (join_loop (Suc n) t)"
proof (induction n arbitrary: t)
  case (Suc n)
  show ?case by (subst join_loop.simps(2) [of n], subst join_loop.simps(2) [of "Suc n"],
      intro extends_pbind extends_if extends_refl extends_optional extends_parseExpression Suc)
qed (simp add: extends_none)

lemma extends_parameter_list: "extends (parameter_list n) (parameter_list (Suc n))"
  using extends_comma_list [OF extends_parseExpression, of n n] by (simp add: extends_def parameter_list_def del: comma_list.simps)

lemmas extends_rules = extends_pbind extends_if_match extends_optional extends_comma_list extends_parseExpression extends_join_loop
  extends_parameter_list

lemma extends_statements:
  "extends (parseSelect n) (parseSelect (Suc n))" "extends (parseInsert n) (parseInsert (Suc n))" "extends (parseUpdate n) (parseUpdate (Suc n))"
  "extends (parseDelete n) (parseDelete (Suc n))" "extends (parseValues n) (parseValues (Suc n))" "extends (parseExecute n) (parseExecute (Suc n))"
  unfolding parseSelect_def parse_group_by_def parse_order_by_def order_item_def parseTableReference_def parseInsert_def parseUpdate_def set_clause_def
    parseDelete_def parseValues_def parseValuesList_def values_tuple_def parseExecute_def
  by (intro extends_rules extends_refl)+

lemma extends_parseStatement: "extends (parseStatement n) (parseStatement (Suc n))"
proof (induction n)
  case (Suc n)
  show ?case by (subst parseStatement.simps(2) [of n], subst parseStatement.simps(2) [of "Suc n"], unfold parseExplain_def parsePrepare_def,
      intro extends_if_match extends_pbind extends_statements extends_refl Suc)
qed (simp add: extends_none)

lemma parseStatement_more: "n \<le> m \<Longrightarrow> extends (parseStatement n) (parseStatement m)"
  by (induction m rule: dec_induct) (auto simp del: parseStatement.simps intro: extends_refl extends_trans [OF _ extends_parseStatement])

lemma parse_with_more: "parse_with n src = Some r \<Longrightarrow> n \<le> m \<Longrightarrow> parse_with m src = Some r"
  using extendsD [OF parseStatement_more] unfolding parse_with_def by (auto simp del: parseStatement.simps split: option.splits sum.splits)

text \<open>
  C21. The parser always returns: whatever the text, \<open>parseStatement\<close> gives a tree or throws a \<open>ParserError\<close> within the fuel
  \<open>length src + 1\<close>, and with any larger fuel the result is the same.
\<close>

theorem parse_total: "\<exists>r. parse src = Some r \<and> (\<forall>n. parse_with (Suc (length src) + n) src = Some r)"
proof -
  obtain r where "parse_with (Suc (length src)) src = Some r" using parse_with_some [of src "Suc (length src)"] by auto
  then show ?thesis using parse_with_more [of "Suc (length src)" src] unfolding parse_def by (metis le_add1)
qed

subsection \<open>Trees that are printed and read back\<close>

definition ident :: "string \<Rightarrow> bool" where
  "ident w = (is_name w \<and> word_type w = TIdentifier)"

text \<open>
  The trees the parser can build, except for string literals with a quote (printed without doubling it).
  The parser has no syntax for aggregates.
\<close>

fun good_expr :: "AstExpression \<Rightarrow> bool" where
  "good_expr (AConstant CInteger v) = (v \<noteq> [] \<and> list_all isdigit v)"
| "good_expr (AConstant CString v) = (quote \<notin> set v)"
| "good_expr (AConstant CBoolean v) = (v = ''true'' \<or> v = ''false'')"
| "good_expr (AConstant CNull v) = (v = ''null'')"
| "good_expr (AColumn col tab) = (ident col \<and> (tab = [] \<or> ident tab))"
| "good_expr AStar = True"
| "good_expr (ABinary op l r) = (good_expr l \<and> good_expr r)"
| "good_expr (AUnary op x) = good_expr x"
| "good_expr (AAggregate k x) = False"
| "good_expr AParameter = True"

fun good_table :: "TableReference \<Rightarrow> bool" where
  "good_table (BaseTable nm al) = (ident nm \<and> (al = [] \<or> ident al))"
| "good_table (JoinTable l (BaseTable nm al) cond) = (good_table l \<and> ident nm \<and> (al = [] \<or> ident al) \<and> pred_option good_expr cond)"
| "good_table (JoinTable l (JoinTable l2 r2 c2) cond) = False"

definition good_select :: "SelectStatement \<Rightarrow> bool" where
  "good_select s = (select_list s \<noteq> [] \<and> list_all good_expr (select_list s) \<and> pred_option good_table (select_table s) \<and>
     pred_option good_expr (select_where s) \<and> list_all good_expr (group_by s) \<and> pred_option good_expr (having_clause s) \<and>
     list_all (\<lambda>(e, asc). good_expr e) (order_by s) \<and> pred_option good_expr (select_limit s) \<and> pred_option good_expr (select_offset s))"

definition good_values :: "AstExpression list list \<Rightarrow> bool" where
  "good_values vs = (vs \<noteq> [] \<and> list_all (\<lambda>row. row \<noteq> [] \<and> list_all good_expr row) vs)"

fun good_statement :: "Statement \<Rightarrow> bool" where
  "good_statement (SelectStmt s) = good_select s"
| "good_statement (InsertStmt nm vs) = (ident nm \<and> good_values vs)"
| "good_statement (UpdateStmt nm sets wh) =
     (ident nm \<and> sets \<noteq> [] \<and> list_all (\<lambda>(col, e). ident col \<and> good_expr e) sets \<and> pred_option good_expr wh)"
| "good_statement (DeleteStmt nm wh) = (ident nm \<and> pred_option good_expr wh)"
| "good_statement (ValuesStmt vs) = good_values vs"
| "good_statement (ExplainStmt None an) = False"
| "good_statement (ExplainStmt (Some s) an) = good_statement s"
| "good_statement (PrepareStmt nm None) = False"
| "good_statement (PrepareStmt nm (Some s)) = (ident nm \<and> good_statement s)"
| "good_statement (ExecuteStmt nm ps) = (ident nm \<and> list_all good_expr ps)"
| "good_statement (DeallocateStmt nm) = ident nm"

subsection \<open>The tokens of printed trees\<close>

type_synonym token = "TokenType \<times> string"

fun op_token :: "BinaryOp \<Rightarrow> TokenType" where
  "op_token OpAdd = TPlus"
| "op_token OpSubtract = TMinus"
| "op_token OpMultiply = TAsterisk"
| "op_token OpDivide = TSlash"
| "op_token OpModulo = TModulo"
| "op_token OpEquals = TEquals"
| "op_token OpNotEquals = TNotEquals"
| "op_token OpLess = TLess"
| "op_token OpLessEquals = TLessEquals"
| "op_token OpGreater = TGreater"
| "op_token OpGreaterEquals = TGreaterEquals"
| "op_token OpAnd = TAnd"
| "op_token OpOr = TOr"

fun unary_token :: "UnaryOp \<Rightarrow> token" where
  "unary_token OpNot = (TNot, ''NOT'')"
| "unary_token OpPlus = (TPlus, ''+'')"
| "unary_token OpMinus = (TMinus, ''-'')"

fun expr_tokens :: "AstExpression \<Rightarrow> token list" where
  "expr_tokens (AConstant CInteger v) = [(TInteger, v)]"
| "expr_tokens (AConstant CString v) = [(TString, v)]"
| "expr_tokens (AConstant CBoolean v) = [(TBoolLiteral, v)]"
| "expr_tokens (AConstant CNull v) = [(TNullLiteral, v)]"
| "expr_tokens (AColumn col tab) = (if tab = [] then [(TIdentifier, col)] else [(TIdentifier, tab), (TDot, ''.''), (TIdentifier, col)])"
| "expr_tokens AStar = [(TAsterisk, ''*'')]"
| "expr_tokens (ABinary op l r) =
     (TLeftParen, ''('') # expr_tokens l @ (op_token op, binary_op_string op) # expr_tokens r @ [(TRightParen, '')'')]"
| "expr_tokens (AUnary op x) = (TLeftParen, ''('') # unary_token op # expr_tokens x @ [(TRightParen, '')'')]"
| "expr_tokens (AAggregate k x) = []"
| "expr_tokens AParameter = [(TQuestionMark, ''?'')]"

fun comma_tokens :: "token list list \<Rightarrow> token list" where
  "comma_tokens [] = []"
| "comma_tokens [x] = x"
| "comma_tokens (x # y # xs) = x @ (TComma, '','') # comma_tokens (y # xs)"

definition clause_tokens :: "token \<Rightarrow> AstExpression option \<Rightarrow> token list" where
  "clause_tokens t x = (case x of None \<Rightarrow> [] | Some e \<Rightarrow> t # expr_tokens e)"

definition base_tokens :: "string \<Rightarrow> string \<Rightarrow> token list" where
  "base_tokens nm al = (TIdentifier, nm) # (if al = [] then [] else [(TAs, ''AS''), (TIdentifier, al)])"

fun table_tokens :: "TableReference \<Rightarrow> token list" where
  "table_tokens (BaseTable nm al) = base_tokens nm al"
| "table_tokens (JoinTable l r cond) = table_tokens l @ (TJoin, ''JOIN'') # table_tokens r @ clause_tokens (TOn, ''ON'') cond"

definition from_tokens :: "TableReference option \<Rightarrow> token list" where
  "from_tokens t = (case t of None \<Rightarrow> [] | Some t \<Rightarrow> (TFrom, ''FROM'') # table_tokens t)"

definition group_tokens :: "AstExpression list \<Rightarrow> token list" where
  "group_tokens gs = (if gs = [] then [] else (TGroup, ''GROUP'') # (TBy, ''BY'') # comma_tokens (map expr_tokens gs))"

definition order_token :: "AstExpression \<times> bool \<Rightarrow> token list" where
  "order_token = (\<lambda>(e, asc). expr_tokens e @ [if asc then (TAsc, ''ASC'') else (TDesc, ''DESC'')])"

definition order_tokens :: "(AstExpression \<times> bool) list \<Rightarrow> token list" where
  "order_tokens obs = (if obs = [] then [] else (TOrder, ''ORDER'') # (TBy, ''BY'') # comma_tokens (map order_token obs))"

definition select_tokens :: "SelectStatement \<Rightarrow> token list" where
  "select_tokens s = (TSelect, ''SELECT'') # comma_tokens (map expr_tokens (select_list s)) @ from_tokens (select_table s) @
     clause_tokens (TWhere, ''WHERE'') (select_where s) @ group_tokens (group_by s) @ clause_tokens (THaving, ''HAVING'') (having_clause s) @
     order_tokens (order_by s) @ clause_tokens (TLimit, ''LIMIT'') (select_limit s) @ clause_tokens (TOffset, ''OFFSET'') (select_offset s)"

definition row_tokens :: "AstExpression list \<Rightarrow> token list" where
  "row_tokens row = (TLeftParen, ''('') # comma_tokens (map expr_tokens row) @ [(TRightParen, '')'')]"

definition set_tokens :: "string \<times> AstExpression \<Rightarrow> token list" where
  "set_tokens = (\<lambda>(col, e). (TIdentifier, col) # (TEquals, ''='') # expr_tokens e)"

fun statement_tokens :: "Statement \<Rightarrow> token list" where
  "statement_tokens (SelectStmt s) = select_tokens s"
| "statement_tokens (InsertStmt nm vs) =
     [(TInsert, ''INSERT''), (TInto, ''INTO''), (TIdentifier, nm), (TValues, ''VALUES'')] @ comma_tokens (map row_tokens vs)"
| "statement_tokens (UpdateStmt nm sets wh) =
     [(TUpdate, ''UPDATE''), (TIdentifier, nm), (TSet, ''SET'')] @ comma_tokens (map set_tokens sets) @ clause_tokens (TWhere, ''WHERE'') wh"
| "statement_tokens (DeleteStmt nm wh) = [(TDelete, ''DELETE''), (TFrom, ''FROM''), (TIdentifier, nm)] @ clause_tokens (TWhere, ''WHERE'') wh"
| "statement_tokens (ValuesStmt vs) = (TValues, ''VALUES'') # comma_tokens (map row_tokens vs)"
| "statement_tokens (ExplainStmt s an) =
     (TExplain, ''EXPLAIN'') # (if an then [(TAnalyze, ''ANALYZE'')] else []) @ (case s of None \<Rightarrow> [] | Some s \<Rightarrow> statement_tokens s)"
| "statement_tokens (PrepareStmt nm s) =
     [(TPrepare, ''PREPARE''), (TIdentifier, nm), (TAs, ''AS'')] @ (case s of None \<Rightarrow> [] | Some s \<Rightarrow> statement_tokens s)"
| "statement_tokens (ExecuteStmt nm ps) = [(TExecute, ''EXECUTE''), (TIdentifier, nm)] @
     (if ps = [] then [] else (TLeftParen, ''('') # comma_tokens (map expr_tokens ps) @ [(TRightParen, '')'')])"
| "statement_tokens (DeallocateStmt nm) = [(TDeallocate, ''DEALLOCATE''), (TIdentifier, nm)]"

subsection \<open>Printed trees are split into their tokens\<close>

text \<open>What may follow a printed tree, and printed text before any text and before such text.\<close>

definition breaks :: "string \<Rightarrow> bool" where
  "breaks s = (s = [] \<or> hd s \<in> {CHR '' '', CHR '','', CHR '')''})"

definition prefixes :: "string \<Rightarrow> token list \<Rightarrow> bool" where
  "prefixes a A = (\<forall>s ts. lexes s ts \<longrightarrow> lexes (a @ s) (A @ ts))"

definition prints :: "string \<Rightarrow> token list \<Rightarrow> bool" where
  "prints a A = (\<forall>s ts. breaks s \<longrightarrow> lexes s ts \<longrightarrow> lexes (a @ s) (A @ ts))"

lemma prefixes_append: "prefixes a A \<Longrightarrow> prefixes b B \<Longrightarrow> prefixes (a @ b) (A @ B)"
  by (simp add: prefixes_def)

lemma prefix_prints: "prefixes a A \<Longrightarrow> prints b B \<Longrightarrow> prints (a @ b) (A @ B)"
  by (simp add: prefixes_def prints_def)

lemma breaks_append: "breaks b \<Longrightarrow> b \<noteq> [] \<or> breaks s \<Longrightarrow> breaks (b @ s)"
  by (cases b) (auto simp: breaks_def)

lemma prints_prefix: "prints a A \<Longrightarrow> prefixes b B \<Longrightarrow> breaks b \<Longrightarrow> b \<noteq> [] \<Longrightarrow> prefixes (a @ b) (A @ B)"
  by (simp add: prefixes_def prints_def breaks_append)

lemma prints_append: "prints a A \<Longrightarrow> prints b B \<Longrightarrow> breaks b \<Longrightarrow> prints (a @ b) (A @ B)"
  by (simp add: prints_def breaks_append)

lemma prefixes_prints: "prefixes a A \<Longrightarrow> prints a A"
  by (simp add: prefixes_def prints_def)

lemma prints_nil: "prints [] []"
  by (simp add: prints_def)

lemma prefixes_space: "prefixes '' '' []"
  by (simp add: prefixes_def lexes_space)

lemma prefixes_symbol:
  assumes "(ty, lx) \<in> set symbol_table" "ty \<noteq> TMinus" "ty \<noteq> TSlash" "ty \<noteq> TLess" "ty \<noteq> TGreater"
  shows "prefixes lx [(ty, lx)]"
proof -
  have "ty \<noteq> TString" "ty \<noteq> TInteger" using assms(1) by (auto simp: symbol_table_def)
  then show ?thesis using assms lexes_token [of "(ty, lx)"] by (auto simp: prefixes_def ok_token_def token_text_def follows_def)
qed

lemma breaks_follows: "breaks s \<Longrightarrow> follows t s"
  by (cases t) (auto simp: breaks_def follows_def quote_def is_word_def isalnum_def isalpha_def isdigit_def code_def)

lemma prints_token: "ok_token t \<Longrightarrow> prints (token_text t) [t]"
  using lexes_token [of t] breaks_follows by (auto simp: prints_def)

lemma prints_space: "prints a A \<Longrightarrow> prefixes (a @ '' '') A"
  using prints_prefix [OF _ prefixes_space] by (fastforce simp: breaks_def)

definition keyword :: "TokenType \<Rightarrow> string \<Rightarrow> bool" where
  "keyword ty w = (is_name w \<and> word_type w = ty \<and> ty \<noteq> TString \<and> ty \<noteq> TInteger)"

lemma keyword_ok: "keyword ty w \<Longrightarrow> ok_token (ty, w)"
  by (auto simp: keyword_def ok_token_def)

lemma prints_keyword: "keyword ty w \<Longrightarrow> prints w [(ty, w)]"
  using prints_token [OF keyword_ok, of ty w] by (simp add: token_text_def keyword_def)

lemma prints_ident: "ident w \<Longrightarrow> prints w [(TIdentifier, w)]"
  by (rule prints_keyword) (simp add: keyword_def ident_def)

lemma keyword_facts [simp]:
  "keyword TSelect ''SELECT''" "keyword TInsert ''INSERT''" "keyword TInto ''INTO''" "keyword TValues ''VALUES''" "keyword TUpdate ''UPDATE''"
  "keyword TSet ''SET''" "keyword TDelete ''DELETE''" "keyword TFrom ''FROM''" "keyword TWhere ''WHERE''" "keyword TGroup ''GROUP''"
  "keyword TBy ''BY''" "keyword THaving ''HAVING''" "keyword TOrder ''ORDER''" "keyword TAsc ''ASC''" "keyword TDesc ''DESC''"
  "keyword TLimit ''LIMIT''" "keyword TOffset ''OFFSET''" "keyword TJoin ''JOIN''" "keyword TOn ''ON''" "keyword TAs ''AS''"
  "keyword TExplain ''EXPLAIN''" "keyword TAnalyze ''ANALYZE''" "keyword TPrepare ''PREPARE''" "keyword TExecute ''EXECUTE''"
  "keyword TDeallocate ''DEALLOCATE''" "keyword TAnd ''AND''" "keyword TOr ''OR''" "keyword TNot ''NOT''"
  "keyword TBoolLiteral ''true''" "keyword TBoolLiteral ''false''" "keyword TNullLiteral ''null''"
  by code_simp+

text \<open>A keyword with a space behind it, and with one on either side.\<close>

lemma prefixes_keyword: "keyword ty w \<Longrightarrow> prefixes (w @ '' '') [(ty, w)]"
  by (rule prints_space [OF prints_keyword])

lemma prefixes_inner: "keyword ty w \<Longrightarrow> prefixes ('' '' @ w @ '' '') [(ty, w)]"
  using prefixes_append [OF prefixes_space prefixes_keyword] by simp

lemma prints_comma:
  assumes "\<forall>x \<in> set xs. prints (f x) (g x)"
  shows "prints (comma_separated (map f xs)) (comma_tokens (map g xs))"
proof -
  have c: "prefixes '', '' [(TComma, '','')]"
    using prefixes_append [OF prefixes_symbol [of TComma "'','' "] prefixes_space] by (simp add: symbol_table_def)
  show ?thesis using assms
  proof (induction xs rule: induct_list012)
    case (3 x y xs)
    then have "prints (f x) (g x)" "prints (comma_separated (map f (y # xs))) (comma_tokens (map g (y # xs)))" by simp_all
    from prints_append [OF this(1) prefix_prints [OF c this(2)]] show ?case by (simp add: breaks_def)
  qed (simp_all add: prints_nil)
qed

lemma prefixes_chars: "prefixes ''('' [(TLeftParen, ''('')]" "prefixes '')'' [(TRightParen, '')'')]" "prefixes ''.'' [(TDot, ''.'')]"
  "prefixes ''?'' [(TQuestionMark, ''?'')]" "prefixes ''*'' [(TAsterisk, ''*'')]" "prefixes ''+'' [(TPlus, ''+'')]"
  by (rule prefixes_symbol; simp add: symbol_table_def)+

lemma prefixes_operator: "prefixes ('' '' @ binary_op_string op @ '' '') [(op_token op, binary_op_string op)]"
proof -
  have "prints (binary_op_string op) [(op_token op, binary_op_string op)]"
  proof (cases "op = OpAnd \<or> op = OpOr")
    case True
    then show ?thesis by (auto intro!: prints_keyword)
  next
    case False
    then show ?thesis using prints_token [of "(op_token op, binary_op_string op)"]
      by (cases op) (simp_all add: ok_token_def token_text_def symbol_table_def)
  qed
  from prefixes_append [OF prefixes_space prints_space [OF this]] show ?thesis by simp
qed

lemma expr_string_begins: "good_expr e \<Longrightarrow> \<exists>c cs. expr_string e = c # cs \<and> c \<noteq> CHR ''-''"
proof (induction e rule: good_expr.induct)
  case (1 v)
  then show ?case by (cases v) (auto simp: isdigit_def code_def)
next
  case (5 col tab)
  have "ident w \<Longrightarrow> \<exists>c cs. w = c # cs \<and> c \<noteq> CHR ''-''" for w
    by (cases w) (auto simp: ident_def is_name_def isalpha_def code_def)
  then show ?case using 5 by fastforce
qed (auto simp: quote_def)

lemma unary_prints: "good_expr x \<Longrightarrow> prints (expr_string x) A \<Longrightarrow> prints (unary_op_string op @ expr_string x) (unary_token op # A)"
proof (cases op)
  case OpNot
  assume "prints (expr_string x) A"
  then show ?thesis using prefix_prints [OF prefixes_keyword [of TNot "''NOT''"]] OpNot by simp
next
  case OpPlus
  assume "prints (expr_string x) A"
  then show ?thesis using prefix_prints [OF prefixes_chars(6)] OpPlus by simp
next
  case OpMinus
  assume e: "good_expr x" and P: "prints (expr_string x) A"
  obtain c cs where "expr_string x = c # cs" "c \<noteq> CHR ''-''" using expr_string_begins [OF e] by blast
  then have "follows (TMinus, ''-'') (expr_string x @ s)" "ok_token (TMinus, ''-'')" for s
    by (simp_all add: follows_def ok_token_def symbol_table_def)
  then show ?thesis using P OpMinus lexes_token [of "(TMinus, ''-'')" "expr_string x @ s" for s] by (simp add: prints_def token_text_def)
qed

lemma prints_expr: "good_expr e \<Longrightarrow> prints (expr_string e) (expr_tokens e)"
proof (induction e rule: good_expr.induct)
  case (1 v)
  then show ?case using prints_token [of "(TInteger, v)"] by (simp add: ok_token_def token_text_def)
next
  case (2 v)
  then have "escape v = v" by (induction v) (auto simp: escape_def)
  then show ?case using prints_token [of "(TString, v)"] by (simp add: ok_token_def token_text_def)
next
  case (3 v)
  then show ?case by (auto intro!: prints_keyword)
next
  case (4 v)
  then show ?case by (auto intro!: prints_keyword)
next
  case (5 col tab)
  show ?case
  proof (cases "tab = []")
    case False
    have "prefixes ''.'' [(TDot, ''.'')]" by (rule prefixes_chars)
    moreover have "lexes s ts \<Longrightarrow> lexes (tab @ CHR ''.'' # s) ((TIdentifier, tab) # (TDot, ''.'') # ts)" for s ts
      using 5 False lexes_token [of "(TIdentifier, tab)" "CHR ''.'' # s" "(TDot, ''.'') # ts"] prefixes_chars(3)
      by (auto simp: prefixes_def ok_token_def ident_def token_text_def follows_def is_word_def isalnum_def isalpha_def isdigit_def code_def)
    moreover have "prints col [(TIdentifier, col)]" using 5 prints_ident by simp
    ultimately show ?thesis using False by (simp add: prints_def)
  qed (use 5 prints_ident in simp)
next
  case (7 op l r)
  then have "prints (expr_string l) (expr_tokens l)" "prints (expr_string r) (expr_tokens r)" by simp_all
  from prefix_prints [OF prefixes_chars(1) prints_append [OF this(1) prefix_prints [OF prefixes_operator [of op]
    prints_append [OF this(2) prefixes_prints [OF prefixes_chars(2)]]]]]
  show ?case by (simp add: breaks_def)
next
  case (8 op x)
  then have "prints (unary_op_string op @ expr_string x) (unary_token op # expr_tokens x)" by (simp add: unary_prints)
  from prefix_prints [OF prefixes_chars(1) prints_append [OF this prefixes_prints [OF prefixes_chars(2)]]]
  show ?case by (simp add: breaks_def)
qed (use prefixes_prints [OF prefixes_chars(4)] prefixes_prints [OF prefixes_chars(5)] in auto)

lemma prints_exprs: "list_all good_expr es \<Longrightarrow> prints (comma_separated (map expr_string es)) (comma_tokens (map expr_tokens es))"
  by (rule prints_comma) (auto simp: list_all_iff prints_expr)

lemma prints_clause:
  assumes "keyword ty w" "pred_option good_expr x"
  shows "prints (clause ('' '' @ w @ '' '') x) (clause_tokens (ty, w) x)" "breaks (clause ('' '' @ w @ '' '') x)"
proof -
  show "prints (clause ('' '' @ w @ '' '') x) (clause_tokens (ty, w) x)"
    using prefix_prints [OF prefixes_inner [OF assms(1)] prints_expr] assms(2) by (cases x) (simp_all add: clause_def clause_tokens_def prints_nil)
qed (cases x; simp add: clause_def breaks_def)

lemma prints_base: "ident nm \<Longrightarrow> al = [] \<or> ident al \<Longrightarrow> prints (table_string (BaseTable nm al)) (base_tokens nm al)"
  using prints_append [OF prints_ident prefix_prints [OF prefixes_inner [of TAs "''AS''"] prints_ident], of nm al] prints_ident
  by (auto simp: base_tokens_def breaks_def)

lemma prints_table: "good_table t \<Longrightarrow> prints (table_string t) (table_tokens t)"
proof (induction t rule: good_table.induct)
  case (1 nm al)
  then show ?case using prints_base by simp
next
  case (2 l nm al cond)
  have "prints (table_string (BaseTable nm al) @ clause '' ON '' cond) (base_tokens nm al @ clause_tokens (TOn, ''ON'') cond)"
    using 2 prints_append [OF prints_base prints_clause [of TOn "''ON''"]] by simp
  from prints_append [OF _ prefix_prints [OF prefixes_inner [of TJoin "''JOIN''"] this]] 2
  show ?case by (simp add: breaks_def)
qed simp

lemma breaks_then: "breaks b \<Longrightarrow> breaks s \<Longrightarrow> breaks (b @ s)"
  by (simp add: breaks_append)

lemma prints_select:
  assumes "good_select s"
  shows "prints (select_string s) (select_tokens s)"
proof -
  have sel: "prints (comma_separated (map expr_string (select_list s))) (comma_tokens (map expr_tokens (select_list s)))"
    using assms by (auto simp: good_select_def intro: prints_exprs)
  have from_part: "prints (case select_table s of None \<Rightarrow> [] | Some t \<Rightarrow> '' FROM '' @ table_string t) (from_tokens (select_table s))"
      "breaks (case select_table s of None \<Rightarrow> [] | Some t \<Rightarrow> '' FROM '' @ table_string t)"
    using assms prefix_prints [OF prefixes_inner [of TFrom "''FROM''"] prints_table]
    by (cases "select_table s"; simp add: good_select_def from_tokens_def prints_nil breaks_def)+
  have group: "prints (if group_by s = [] then [] else '' GROUP BY '' @ comma_separated (map expr_string (group_by s))) (group_tokens (group_by s))"
      "breaks (if group_by s = [] then [] else '' GROUP BY '' @ comma_separated (map expr_string (group_by s)))"
    using assms prefix_prints [OF prefixes_append [OF prefixes_inner [of TGroup "''GROUP''"] prefixes_keyword [of TBy "''BY''"]] prints_exprs]
    by (simp_all add: good_select_def group_tokens_def prints_nil breaks_def)
  have item: "prints (expr_string e @ (if asc then '' ASC'' else '' DESC'')) (order_token (e, asc))" if "good_expr e" for e asc
    using prints_append [OF prints_expr [OF that] prefix_prints [OF prefixes_space prints_keyword [of TAsc "''ASC''"]]]
      prints_append [OF prints_expr [OF that] prefix_prints [OF prefixes_space prints_keyword [of TDesc "''DESC''"]]]
    by (simp add: order_token_def breaks_def)
  let ?items = "comma_separated (map (\<lambda>(e, asc). expr_string e @ (if asc then '' ASC'' else '' DESC'')) (order_by s))"
  have "prints ?items (comma_tokens (map order_token (order_by s)))"
    using assms item by (intro prints_comma) (auto simp: good_select_def list_all_iff)
  then have order: "prints (if order_by s = [] then [] else '' ORDER BY '' @ ?items) (order_tokens (order_by s))"
      "breaks (if order_by s = [] then [] else '' ORDER BY '' @ ?items)"
    using prefix_prints [OF prefixes_append [OF prefixes_inner [of TOrder "''ORDER''"] prefixes_keyword [of TBy "''BY''"]]]
    by (simp_all add: order_tokens_def prints_nil breaks_def)
  have clauses: "prints (clause '' WHERE '' (select_where s)) (clause_tokens (TWhere, ''WHERE'') (select_where s))"
      "prints (clause '' HAVING '' (having_clause s)) (clause_tokens (THaving, ''HAVING'') (having_clause s))"
      "prints (clause '' LIMIT '' (select_limit s)) (clause_tokens (TLimit, ''LIMIT'') (select_limit s))"
      "prints (clause '' OFFSET '' (select_offset s)) (clause_tokens (TOffset, ''OFFSET'') (select_offset s))"
    using assms prints_clause(1) [of TWhere "''WHERE''"] prints_clause(1) [of THaving "''HAVING''"]
      prints_clause(1) [of TLimit "''LIMIT''"] prints_clause(1) [of TOffset "''OFFSET''"] by (simp_all add: good_select_def)
  have breaks: "breaks (clause '' WHERE '' x)" "breaks (clause '' HAVING '' x)" "breaks (clause '' LIMIT '' x)" "breaks (clause '' OFFSET '' x)" for x
    by (cases x; simp add: clause_def breaks_def)+
  have "prefixes ''SELECT '' [(TSelect, ''SELECT'')]" using prefixes_keyword [of TSelect "''SELECT''"] by simp
  note s1 = prints_append [OF clauses(3,4) breaks(4)] and b1 = breaks_then [OF breaks(3,4)]
  note s2 = prints_append [OF order(1) s1 b1] and b2 = breaks_then [OF order(2) b1]
  note s3 = prints_append [OF clauses(2) s2 b2] and b3 = breaks_then [OF breaks(2) b2]
  note s4 = prints_append [OF group(1) s3 b3] and b4 = breaks_then [OF group(2) b3]
  note s5 = prints_append [OF clauses(1) s4 b4] and b5 = breaks_then [OF breaks(1) b4]
  note s6 = prints_append [OF from_part(1) s5 b5] and b6 = breaks_then [OF from_part(2) b5]
  from prefix_prints [OF \<open>prefixes ''SELECT '' _\<close> prints_append [OF sel s6 b6]] show ?thesis
    by (simp only: select_string_def select_tokens_def append_Cons append_Nil)
qed

lemma prints_values: "good_values vs \<Longrightarrow> prints (values_string vs) (comma_tokens (map row_tokens vs))"
proof -
  have "prints (''('' @ comma_separated (map expr_string row) @ '')'') (row_tokens row)" if "list_all good_expr row" for row
    using prefix_prints [OF prefixes_chars(1) prints_append [OF prints_exprs [OF that] prefixes_prints [OF prefixes_chars(2)]]]
    by (simp add: row_tokens_def breaks_def)
  then show "good_values vs \<Longrightarrow> ?thesis" unfolding values_string_def by (intro prints_comma) (auto simp: good_values_def list_all_iff)
qed

lemma prefixes_named: "keyword ty w \<Longrightarrow> prefixes a A \<Longrightarrow> ident nm \<Longrightarrow> prefixes (a @ nm @ '' '' @ w @ '' '') (A @ [(TIdentifier, nm), (ty, w)])"
  using prefixes_append [OF _ prints_prefix [OF prints_ident prefixes_inner [of ty w]]] by (simp add: breaks_def)

lemma prints_statement: "good_statement s \<Longrightarrow> prints (statement_string s) (statement_tokens s)"
proof (induction s rule: good_statement.induct)
  case (1 s)
  then show ?case using prints_select by simp
next
  case (2 nm vs)
  have "prefixes ''INSERT INTO '' [(TInsert, ''INSERT''), (TInto, ''INTO'')]"
    using prefixes_append [OF prefixes_keyword [of TInsert "''INSERT''"] prefixes_keyword [of TInto "''INTO''"]] by simp
  from prefix_prints [OF prefixes_named [of TValues "''VALUES''", OF _ this] prints_values] 2 show ?case by simp
next
  case (3 nm sets wh)
  have item: "prints (col @ '' = '' @ expr_string e) (set_tokens (col, e))" if "ident col" "good_expr e" for col e
    using prints_append [OF prints_ident [OF that(1)] prefix_prints [OF prefixes_operator [of OpEquals] prints_expr [OF that(2)]]]
    by (simp add: set_tokens_def breaks_def)
  have "prints (comma_separated (map (\<lambda>(col, e). col @ '' = '' @ expr_string e) sets)) (comma_tokens (map set_tokens sets))"
    using 3 item by (intro prints_comma) (auto simp: list_all_iff)
  moreover have "prints (clause '' WHERE '' wh) (clause_tokens (TWhere, ''WHERE'') wh)" "breaks (clause '' WHERE '' wh)"
    using 3 prints_clause [of TWhere "''WHERE''" wh] by simp_all
  ultimately have "prints (comma_separated (map (\<lambda>(col, e). col @ '' = '' @ expr_string e) sets) @ clause '' WHERE '' wh)
      (comma_tokens (map set_tokens sets) @ clause_tokens (TWhere, ''WHERE'') wh)" by (rule prints_append)
  from prefix_prints [OF prefixes_named [of TSet "''SET''", OF _ prefixes_keyword [of TUpdate "''UPDATE''"]] this] 3 show ?case by simp
next
  case (4 nm wh)
  have "prefixes ''DELETE FROM '' [(TDelete, ''DELETE''), (TFrom, ''FROM'')]"
    using prefixes_append [OF prefixes_keyword [of TDelete "''DELETE''"] prefixes_keyword [of TFrom "''FROM''"]] by simp
  from prefix_prints [OF this prints_append [OF prints_ident prints_clause [of TWhere "''WHERE''" wh]]] 4 show ?case by simp
next
  case (5 vs)
  then show ?case using prefix_prints [OF prefixes_keyword [of TValues "''VALUES''"] prints_values] by simp
next
  case (7 s an)
  then have "prints ((if an then ''ANALYZE '' else []) @ statement_string s) ((if an then [(TAnalyze, ''ANALYZE'')] else []) @ statement_tokens s)"
    using prefix_prints [OF prefixes_keyword [of TAnalyze "''ANALYZE''"]] by simp
  from prefix_prints [OF prefixes_keyword [of TExplain "''EXPLAIN''"] this] show ?case by simp
next
  case (9 nm s)
  then have "prints (statement_string s) (statement_tokens s)" "ident nm" by simp_all
  from prefix_prints [OF prefixes_named [of TAs "''AS''", OF _ prefixes_keyword [of TPrepare "''PREPARE''"] this(2)] this(1)] show ?case by simp
next
  case (10 nm ps)
  then have "prints (''('' @ comma_separated (map expr_string ps) @ '')'') ((TLeftParen, ''('') # comma_tokens (map expr_tokens ps) @ [(TRightParen, '')'')])"
    using prefix_prints [OF prefixes_chars(1) prints_append [OF prints_exprs prefixes_prints [OF prefixes_chars(2)]]] by (simp add: breaks_def)
  have name: "lexes (CHR ''('' # s) ts \<Longrightarrow> lexes (nm @ CHR ''('' # s) ((TIdentifier, nm) # ts)" for s ts
    using 10 lexes_token [of "(TIdentifier, nm)" "CHR ''('' # s" ts]
    by (auto simp: ok_token_def ident_def token_text_def follows_def is_word_def isalnum_def isalpha_def isdigit_def code_def)
  show ?case
  proof (cases "ps = []")
    case True
    then show ?thesis using 10 prefix_prints [OF prefixes_keyword [of TExecute "''EXECUTE''"] prints_ident] by simp
  next
    case False
    have "prints (nm @ ''('' @ comma_separated (map expr_string ps) @ '')'')
        ((TIdentifier, nm) # (TLeftParen, ''('') # comma_tokens (map expr_tokens ps) @ [(TRightParen, '')'')])"
      using name \<open>prints (''('' @ _ @ _) _\<close> by (simp add: prints_def)
    from prefix_prints [OF prefixes_keyword [of TExecute "''EXECUTE''"] this] False show ?thesis by simp
  qed
next
  case (11 nm)
  then show ?case using prefix_prints [OF prefixes_keyword [of TDeallocate "''DEALLOCATE''"] prints_ident] by simp
qed simp_all

subsection \<open>Reading tokens\<close>

text \<open>What the parser has still to read: the current token and those the lexer will find.\<close>

definition stream :: "Parser \<Rightarrow> token list \<Rightarrow> bool" where
  "stream p ts = (case ts of
     [] \<Rightarrow> shape (current_token p) = (TEof, []) \<and> lexes (lx_rest (ps_lexer p)) []
   | t # us \<Rightarrow> shape (current_token p) = t \<and> ok_token t \<and> lexes (lx_rest (ps_lexer p)) us)"

definition first :: "token list \<Rightarrow> TokenType" where
  "first ts = (case ts of [] \<Rightarrow> TEof | t # us \<Rightarrow> fst t)"

text \<open>With enough fuel \<open>f\<close> reads the tokens \<open>ts\<close> up to \<open>us\<close> and gives \<open>x\<close>.\<close>

definition reads :: "(nat \<Rightarrow> 'a parse) \<Rightarrow> token list \<Rightarrow> 'a \<Rightarrow> token list \<Rightarrow> bool" where
  "reads f ts x us = (\<forall>p. stream p ts \<longrightarrow> (\<exists>p' N. stream p' us \<and> (\<forall>n \<ge> N. f n p = Some (Inr (x, p')))))"

lemma first_simps [simp]: "first [] = TEof" "first (t # ts) = fst t"
  by (simp_all add: first_def)

lemma first_append: "first (ts @ us) = (if ts = [] then first us else first ts)"
  by (cases ts) simp_all

lemma stream_check: "stream p ts \<Longrightarrow> check ty p \<longleftrightarrow> first ts = ty"
  using ok_token_not_eof [of "hd ts"] by (cases ts) (auto simp: stream_def shape_def check_def)

lemma stream_from: "lexes (lx_rest l) ts \<Longrightarrow> nextToken l = (u, l') \<Longrightarrow> stream \<lparr>ps_lexer = l', current_token = u, previous_token = v\<rparr> ts \<and> tok_type u \<noteq> TInvalid"
  using lexes_next [of "lx_rest l" ts l] lexes_ok [of "lx_rest l" ts "hd ts"] ok_token_not_eof [of "hd ts"]
  by (cases ts) (auto simp: lexed_def stream_def shape_def lexes_end)

lemma advance_stream:
  assumes "stream p (t # ts)"
  shows "\<exists>p'. parser_advance p = Some (Inr ((), p')) \<and> stream p' ts \<and> shape (previous_token p') = t"
proof -
  obtain u l where n: "nextToken (ps_lexer p) = (u, l)" by fastforce
  have "lexes (lx_rest (ps_lexer p)) ts" "shape (current_token p) = t" using assms by (simp_all add: stream_def)
  then show ?thesis using stream_from [OF _ n, of ts "current_token p"] n
    by (cases p) (auto simp: parser_advance_def Let_def yield_def)
qed

lemma readsI: "(\<And>p. stream p ts \<Longrightarrow> \<exists>p' N. stream p' us \<and> (\<forall>n \<ge> N. f n p = Some (Inr (x, p')))) \<Longrightarrow> reads f ts x us"
  by (simp add: reads_def)

lemma reads_yield: "reads (\<lambda>n. yield x) ts x ts"
  by (auto simp: reads_def yield_def)

lemma reads_pbind:
  assumes "reads f ts x us" "reads (\<lambda>n. g n x) us y vs"
  shows "reads (\<lambda>n. pbind (f n) (g n)) ts y vs"
proof (rule readsI)
  fix p assume "stream p ts"
  then obtain p' N where p': "stream p' us" "\<forall>n \<ge> N. f n p = Some (Inr (x, p'))" using assms(1) by (auto simp: reads_def)
  then obtain q M where "stream q vs" "\<forall>n \<ge> M. g n x p' = Some (Inr (y, q))" using assms(2) by (auto simp: reads_def)
  then show "\<exists>p' N. stream p' vs \<and> (\<forall>n \<ge> N. pbind (f n) (g n) p = Some (Inr (y, p')))"
    using p'(2) by (intro exI [of _ q] exI [of _ "max N M"]) (simp add: pbind_def)
qed

lemma reads_Suc: "reads (\<lambda>n. f (Suc n)) ts x us \<Longrightarrow> reads f ts x us"
proof (rule readsI)
  fix p assume "reads (\<lambda>n. f (Suc n)) ts x us" "stream p ts"
  then obtain p' N where p': "stream p' us" "\<forall>n \<ge> N. f (Suc n) p = Some (Inr (x, p'))" by (auto simp: reads_def)
  then have "\<forall>n \<ge> Suc N. f n p = Some (Inr (x, p'))" by (metis Suc_le_D Suc_le_mono)
  then show "\<exists>p' N. stream p' us \<and> (\<forall>n \<ge> N. f n p = Some (Inr (x, p')))" using p'(1) by blast
qed

lemma reads_later: "reads f ts x us \<Longrightarrow> reads (\<lambda>n. f (n + k)) ts x us"
  unfolding reads_def by (meson trans_le_add1)

lemma reads_token: "reads (\<lambda>n. match_token ty) ((ty, lx) # ts) True ts"
proof (rule readsI)
  fix p assume s: "stream p ((ty, lx) # ts)"
  then show "\<exists>p' N. stream p' ts \<and> (\<forall>n \<ge> N. match_token ty p = Some (Inr (True, p')))"
    using advance_stream [OF s] stream_check [OF s, of ty] by (auto simp: match_token_def pbind_def yield_def)
qed

lemma reads_no_token: "first ts \<noteq> ty \<Longrightarrow> reads (\<lambda>n. match_token ty) ts False ts"
  using stream_check by (fastforce simp: reads_def match_token_def yield_def)

lemma reads_match: "reads f ts x us \<Longrightarrow> reads (\<lambda>n. if_match ty (f n) (g n)) ((ty, lx) # ts) x us"
  unfolding if_match_def by (rule reads_pbind [OF reads_token]) simp

lemma reads_skip: "first ts \<noteq> ty \<Longrightarrow> reads g ts x us \<Longrightarrow> reads (\<lambda>n. if_match ty (f n) (g n)) ts x us"
  unfolding if_match_def by (rule reads_pbind [OF reads_no_token]) simp_all

lemma reads_consume: "reads (\<lambda>n. consume ty msg) ((ty, lx) # ts) () ts"
proof (rule readsI)
  fix p assume s: "stream p ((ty, lx) # ts)"
  then show "\<exists>p' N. stream p' ts \<and> (\<forall>n \<ge> N. consume ty msg p = Some (Inr ((), p')))"
    using advance_stream [OF s] stream_check [OF s, of ty] by (auto simp: consume_def)
qed

text \<open>A token of which the text is used.\<close>

lemma reads_name:
  assumes "reads (\<lambda>n. g n lx) ts x us"
  shows "reads (\<lambda>n. if_match ty (pbind previous_lexeme (g n)) (h n)) ((ty, lx) # ts) x us"
proof (rule readsI)
  fix p assume s: "stream p ((ty, lx) # ts)"
  obtain p' where p': "parser_advance p = Some (Inr ((), p'))" "stream p' ts" "shape (previous_token p') = (ty, lx)" using advance_stream [OF s] by blast
  have "if_match ty (pbind previous_lexeme (g n)) (h n) p = g n lx p'" for n
    using p' stream_check [OF s, of ty] by (simp add: if_match_def match_token_def pbind_def previous_lexeme_def yield_def shape_def)
  then show "\<exists>p' N. stream p' us \<and> (\<forall>n \<ge> N. if_match ty (pbind previous_lexeme (g n)) (h n) p = Some (Inr (x, p')))"
    using assms p'(2) by (simp add: reads_def)
qed

lemma reads_consume_lexeme:
  assumes "reads (\<lambda>n. g n lx) ts x us"
  shows "reads (\<lambda>n. pbind (consume ty msg) (\<lambda>_. pbind previous_lexeme (g n))) ((ty, lx) # ts) x us"
proof (rule readsI)
  fix p assume s: "stream p ((ty, lx) # ts)"
  obtain p' where p': "parser_advance p = Some (Inr ((), p'))" "stream p' ts" "shape (previous_token p') = (ty, lx)" using advance_stream [OF s] by blast
  have "pbind (consume ty msg) (\<lambda>_. pbind previous_lexeme (g n)) p = g n lx p'" for n
    using p' stream_check [OF s, of ty] by (simp add: consume_def pbind_def previous_lexeme_def yield_def shape_def)
  then show "\<exists>p' N. stream p' us \<and> (\<forall>n \<ge> N. pbind (consume ty msg) (\<lambda>_. pbind previous_lexeme (g n)) p = Some (Inr (x, p')))"
    using assms p'(2) by (simp add: reads_def)
qed

lemma reads_consume_name: "reads (\<lambda>n. consume_name msg) ((TIdentifier, lx) # ts) lx ts"
proof -
  have "pbind previous_lexeme yield = previous_lexeme" by (simp add: fun_eq_iff pbind_def previous_lexeme_def yield_def)
  then show ?thesis
    using reads_consume_lexeme [where g = "\<lambda>n. yield" and lx = lx and ts = ts and ty = TIdentifier and msg = msg, OF reads_yield]
    by (simp add: consume_name_def)
qed

lemma reads_optional: "reads f ts x us \<Longrightarrow> reads (\<lambda>n. optional ty (f n)) ((ty, lx) # ts) (Some x) us"
  unfolding optional_def by (rule reads_match, rule reads_pbind, assumption, rule reads_yield)

lemma reads_no_optional: "first ts \<noteq> ty \<Longrightarrow> reads (\<lambda>n. optional ty (f n)) ts None ts"
  unfolding optional_def by (rule reads_skip, assumption, rule reads_yield)

text \<open>A list of items, if every item is read in front of a comma and in front of what follows the list.\<close>

lemma reads_comma_list:
  assumes "xs \<noteq> []" "\<forall>x \<in> set xs. \<forall>us. P us \<longrightarrow> reads item (g x @ us) x us" "P us" "\<And>us. P ((TComma, '','') # us)" "first us \<noteq> TComma"
  shows "reads (\<lambda>n. comma_list n (item (n + k))) (comma_tokens (map g xs) @ us) xs us"
  using assms(1,2)
proof (induction xs arbitrary: k rule: induct_list012)
  case (2 x)
  have "reads (\<lambda>n. item (Suc n + k)) (g x @ us) x us" using reads_later [of item _ _ _ "Suc k"] 2 assms(3) by simp
  from reads_pbind [OF this reads_skip [OF assms(5) reads_yield]]
  have "reads (\<lambda>n. comma_list (Suc n) (item (Suc n + k))) (g x @ us) [x] us" by simp
  then show ?case using reads_Suc [where f = "\<lambda>n. comma_list n (item (n + k))"] by simp
next
  case (3 x y xs)
  let ?ts = "comma_tokens (map g (y # xs)) @ us"
  have x: "reads (\<lambda>n. item (Suc n + k)) (g x @ (TComma, '','') # ?ts) x ((TComma, '','') # ?ts)"
    using reads_later [of item _ _ _ "Suc k"] 3 assms(4) by simp
  have r: "reads (\<lambda>n. comma_list n (item (n + Suc k))) ?ts (y # xs) us" using 3(2) [of "Suc k"] 3(4) by simp
  from reads_pbind [OF x reads_match [OF reads_pbind [OF r reads_yield]]]
  have "reads (\<lambda>n. comma_list (Suc n) (item (Suc n + k))) (g x @ (TComma, '','') # ?ts) (x # y # xs) us" by simp
  then show ?case using reads_Suc [where f = "\<lambda>n. comma_list n (item (n + k))"] by simp
qed simp

subsection \<open>Expressions are read back\<close>

lemma reads_match_op: "map_of ops ty = Some op \<Longrightarrow> reads (\<lambda>n. match_op ops) ((ty, lx) # ts) (Some op) ts"
proof (induction ops)
  case (Cons a ops)
  then show ?case using reads_match [OF reads_yield] reads_skip [OF _ Cons.IH] by (cases a) (auto split: if_splits)
qed simp

lemma reads_no_op: "first ts \<notin> fst ` set ops \<Longrightarrow> reads (\<lambda>n. match_op ops) ts None ts"
proof (induction ops)
  case (Cons a ops)
  then show ?case using reads_skip [OF _ Cons.IH] by (cases a) auto
qed (simp add: reads_yield)

lemma reads_loop_end:
  assumes "first us \<notin> fst ` set ops"
  shows "reads (\<lambda>n. binary_loop (Suc n) ops (sub n) e) us e us"
  using reads_pbind [OF reads_no_op [OF assms], where g = "\<lambda>n found. case found of None \<Rightarrow> yield e
      | Some op \<Rightarrow> pbind (sub n) (\<lambda>right. binary_loop n ops (sub n) (ABinary op e right))" and y = e and vs = us] reads_yield [of e us]
  by simp

lemma reads_level_end:
  assumes "reads sub ts e us" "first us \<notin> fst ` set ops"
  shows "reads (\<lambda>n. binary_level ops n (sub n)) ts e us"
proof -
  have "reads (\<lambda>n. binary_loop n ops (sub n) e) us e us"
    using reads_loop_end [OF assms(2), of "\<lambda>n. sub (Suc n)" e] by (intro reads_Suc [where f = "\<lambda>n. binary_loop n ops (sub n) e"])
  then show ?thesis unfolding binary_level_def by (rule reads_pbind [OF assms(1)])
qed

lemma reads_level_op:
  assumes "reads sub ts l ((ty, lx) # us)" "map_of ops ty = Some op" "reads sub us r vs" "first vs \<notin> fst ` set ops"
  shows "reads (\<lambda>n. binary_level ops n (sub n)) ts (ABinary op l r) vs"
proof -
  have sub: "reads (\<lambda>n. sub (Suc (Suc n))) us r vs" using reads_later [OF assms(3), of 2] by simp
  have loop: "reads (\<lambda>n. binary_loop (Suc n) ops (sub (Suc (Suc n))) (ABinary op l r)) vs (ABinary op l r) vs" by (rule reads_loop_end [OF assms(4)])
  have "reads (\<lambda>n. binary_loop (Suc (Suc n)) ops (sub (Suc (Suc n))) l) ((ty, lx) # us) (ABinary op l r) vs"
    by (subst binary_loop.simps(2), rule reads_pbind, rule reads_match_op [OF assms(2)], simp only: option.case, rule reads_pbind, rule sub, rule loop)
  then have "reads (\<lambda>n. binary_loop n ops (sub n) l) ((ty, lx) # us) (ABinary op l r) vs"
    by (intro reads_Suc [where f = "\<lambda>n. binary_loop n ops (sub n) l"] reads_Suc [where f = "\<lambda>n. binary_loop (Suc n) ops (sub (Suc n)) l"])
  then show ?thesis unfolding binary_level_def by (rule reads_pbind [OF assms(1)])
qed

text \<open>Tokens that may follow an expression.\<close>

definition operators :: "TokenType set" where
  "operators = {TAsterisk, TSlash, TModulo, TPlus, TMinus, TEquals, TNotEquals, TLess, TLessEquals, TGreater, TGreaterEquals, TAnd, TOr}"

definition ends :: "token list \<Rightarrow> bool" where
  "ends us = (first us \<noteq> TDot \<and> first us \<notin> operators)"

lemma parseExpression_eq: "parseExpression = (\<lambda>n. parseOr n (parseUnary n))"
  by (simp add: fun_eq_iff parseExpression_def)

lemma reads_expression:
  assumes "reads parseUnary ts e us" "ends us"
  shows "reads parseExpression ts e us"
  using assms(2) unfolding parseExpression_eq parseOr_def parseAnd_def parseComparison_def parseTerm_def parseFactor_def
  by (intro reads_level_end assms(1)) (auto simp: ends_def operators_def)

lemma reads_binary:
  assumes "reads parseUnary ts l ((op_token op, lx) # us)" "reads parseUnary us r vs" "ends vs"
  shows "reads parseExpression ts (ABinary op l r) vs"
proof -
  note unf = parseExpression_def parseOr_def parseAnd_def parseComparison_def parseTerm_def parseFactor_def
  have v: "first vs \<notin> operators" using assms(3) by (simp add: ends_def)
  let ?f = "\<lambda>n. parseFactor n (parseUnary n)" and ?t = "\<lambda>n. parseTerm n (parseUnary n)"
  let ?c = "\<lambda>n. parseComparison n (parseUnary n)" and ?a = "\<lambda>n. parseAnd n (parseUnary n)" and ?o = "\<lambda>n. parseOr n (parseUnary n)"
  have up: "reads ?f ts' x us' \<Longrightarrow> first us' \<notin> {TPlus, TMinus} \<Longrightarrow> reads ?t ts' x us'"
    "reads ?t ts' x us' \<Longrightarrow> first us' \<notin> {TEquals, TNotEquals, TLess, TLessEquals, TGreater, TGreaterEquals} \<Longrightarrow> reads ?c ts' x us'"
    "reads ?c ts' x us' \<Longrightarrow> first us' \<noteq> TAnd \<Longrightarrow> reads ?a ts' x us'" "reads ?a ts' x us' \<Longrightarrow> first us' \<noteq> TOr \<Longrightarrow> reads ?o ts' x us'"
    "reads parseUnary ts' x us' \<Longrightarrow> first us' \<notin> {TAsterisk, TSlash, TModulo} \<Longrightarrow> reads ?f ts' x us'" for ts' us' x
    unfolding unf by (rule reads_level_end; simp)+
  have at: "reads ?f ts (ABinary op l r) vs" if "op \<in> {OpMultiply, OpDivide, OpModulo}"
    using that v unfolding parseFactor_def by (intro reads_level_op [OF assms(1) _ assms(2)]) (auto simp: operators_def)
  have "reads ?t ts (ABinary op l r) vs" if "op \<in> {OpAdd, OpSubtract}"
    using that v unfolding parseTerm_def by (intro reads_level_op [OF up(5) [OF assms(1)] _ up(5) [OF assms(2)]]) (auto simp: operators_def)
  with at have at: "reads ?t ts (ABinary op l r) vs" if "op \<in> {OpMultiply, OpDivide, OpModulo, OpAdd, OpSubtract}"
    using that v up(1) [of ts "ABinary op l r" vs] by (auto simp: operators_def)
  have "reads ?c ts (ABinary op l r) vs" if "op \<in> {OpEquals, OpNotEquals, OpLess, OpLessEquals, OpGreater, OpGreaterEquals}"
    using that v unfolding parseComparison_def
    by (intro reads_level_op [OF up(1) [OF up(5) [OF assms(1)]] _ up(1) [OF up(5) [OF assms(2)]]]) (auto simp: operators_def)
  with at have at: "reads ?c ts (ABinary op l r) vs" if "op \<noteq> OpAnd" "op \<noteq> OpOr"
    using that v up(2) [of ts "ABinary op l r" vs] by (cases op) (auto simp: operators_def)
  have "reads ?a ts (ABinary op l r) vs" if "op = OpAnd"
    using that v unfolding parseAnd_def
    by (intro reads_level_op [OF up(2) [OF up(1) [OF up(5) [OF assms(1)]]] _ up(2) [OF up(1) [OF up(5) [OF assms(2)]]]]) (auto simp: operators_def)
  with at have at: "reads ?a ts (ABinary op l r) vs" if "op \<noteq> OpOr"
    using that v up(3) [of ts "ABinary op l r" vs] by (cases "op = OpAnd") (auto simp: operators_def)
  have "reads ?o ts (ABinary op l r) vs" if "op = OpOr"
    using that v unfolding parseOr_def
    by (intro reads_level_op [OF up(3) [OF up(2) [OF up(1) [OF up(5) [OF assms(1)]]]] _ up(3) [OF up(2) [OF up(1) [OF up(5) [OF assms(2)]]]]])
      (auto simp: operators_def)
  with at have "reads ?o ts (ABinary op l r) vs"
    using v up(4) [of ts "ABinary op l r" vs] by (cases "op = OpOr") (auto simp: operators_def)
  then show ?thesis by (simp add: parseExpression_eq)
qed

lemma reads_parens:
  assumes "reads parseExpression ts e ((TRightParen, '')'') # us)"
  shows "reads parseUnary ((TLeftParen, ''('') # ts) e us"
proof (rule reads_Suc)
  have e: "reads (\<lambda>n. parseOr n (parseUnary n)) ts e ((TRightParen, '')'') # us)" using assms by (simp add: parseExpression_eq)
  show "reads (\<lambda>n. parseUnary (Suc n)) ((TLeftParen, ''('') # ts) e us" unfolding parseUnary.simps parsePrimary_def
    by ((rule reads_match | rule reads_skip, (simp; fail))+, rule reads_pbind, rule e, rule reads_pbind, rule reads_consume, rule reads_yield)
qed

lemma reads_unary_op:
  assumes "reads parseUnary ts e us"
  shows "reads parseUnary (unary_token op # ts) (AUnary op e) us"
proof (rule reads_Suc)
  show "reads (\<lambda>n. parseUnary (Suc n)) (unary_token op # ts) (AUnary op e) us" unfolding parseUnary.simps
    by (cases op; simp only: unary_token.simps; (rule reads_match | rule reads_skip, (simp; fail))+; rule reads_pbind, rule assms, rule reads_yield)
qed

lemma reads_atoms:
  "reads parseUnary ((TInteger, v) # us) (AConstant CInteger v) us"
  "reads parseUnary ((TString, v) # us) (AConstant CString v) us"
  "reads parseUnary ((TBoolLiteral, v) # us) (AConstant CBoolean (map tolower v)) us"
  "reads parseUnary ((TNullLiteral, v) # us) (AConstant CNull ''null'') us"
  "reads parseUnary ((TAsterisk, v) # us) AStar us"
  "reads parseUnary ((TQuestionMark, v) # us) AParameter us"
  "first us \<noteq> TDot \<Longrightarrow> reads parseUnary ((TIdentifier, v) # us) (AColumn v []) us"
  "reads parseUnary ((TIdentifier, w) # (TDot, d) # (TIdentifier, v) # us) (AColumn v w) us"
  by (rule reads_Suc, unfold parseUnary.simps parsePrimary_def,
    (rule reads_name | rule reads_consume_lexeme | rule reads_match | rule reads_skip, (simp; fail) | rule reads_skip, assumption)+, rule reads_yield)+

lemma reads_unary: "good_expr e \<Longrightarrow> first us \<noteq> TDot \<Longrightarrow> reads parseUnary (expr_tokens e @ us) e us"
proof (induction e arbitrary: us rule: good_expr.induct)
  case (3 v)
  have "map tolower ''true'' = ''true''" "map tolower ''false'' = ''false''" by code_simp+
  then show ?case using 3 reads_atoms(3) [of v us] by auto
next
  case (7 op l r)
  have r: "reads parseUnary (expr_tokens r @ (TRightParen, '')'') # us) r ((TRightParen, '')'') # us)" using 7 by simp
  have "op_token op \<noteq> TDot" by (cases op) simp_all
  then have "reads parseUnary (expr_tokens l @ (op_token op, binary_op_string op) # expr_tokens r @ (TRightParen, '')'') # us) l
      ((op_token op, binary_op_string op) # expr_tokens r @ (TRightParen, '')'') # us)" using 7 by simp
  from reads_parens [OF reads_binary [OF this r]] show ?case by (simp add: ends_def operators_def)
next
  case (8 op x)
  have "reads parseUnary (expr_tokens x @ (TRightParen, '')'') # us) x ((TRightParen, '')'') # us)" using 8 by simp
  from reads_parens [OF reads_expression [OF reads_unary_op [OF this]]] show ?case by (simp add: ends_def operators_def)
qed (auto intro: reads_atoms)

lemma reads_expr: "good_expr e \<Longrightarrow> ends us \<Longrightarrow> reads parseExpression (expr_tokens e @ us) e us"
  by (rule reads_expression [OF reads_unary]) (auto simp: ends_def)

subsection \<open>Statements are read back\<close>

lemma first_expr: "good_expr e \<Longrightarrow> first (expr_tokens e @ us) \<in> {TInteger, TString, TBoolLiteral, TNullLiteral, TIdentifier, TAsterisk, TQuestionMark, TLeftParen}"
  by (induction e rule: good_expr.induct) auto

lemma reads_exprs:
  assumes "es \<noteq> []" "list_all good_expr es" "ends us" "first us \<noteq> TComma"
  shows "reads (\<lambda>n. comma_list n (parseExpression n)) (comma_tokens (map expr_tokens es) @ us) es us"
  using reads_comma_list [where P = ends and k = 0 and g = expr_tokens and item = parseExpression, OF assms(1) _ assms(3) _ assms(4)] assms(2) reads_expr
  by (simp add: list_all_iff ends_def operators_def)

text \<open>What follows a clause, depending on which clauses there are.\<close>

lemma first_clause [simp]: "first (clause_tokens t x @ us) = (if x = None then first us else fst t)"
  by (cases x) (simp_all add: clause_tokens_def)

lemma first_from [simp]: "first (from_tokens t @ us) = (if t = None then first us else TFrom)"
  by (cases t) (simp_all add: from_tokens_def)

lemma first_group [simp]: "first (group_tokens gs @ us) = (if gs = [] then first us else TGroup)"
  by (simp add: group_tokens_def)

lemma first_order [simp]: "first (order_tokens obs @ us) = (if obs = [] then first us else TOrder)"
  by (simp add: order_tokens_def)

lemma reads_clause:
  assumes "pred_option good_expr x" "ends us" "first us \<noteq> ty"
  shows "reads (\<lambda>n. optional ty (parseExpression n)) (clause_tokens (ty, w) x @ us) x us"
  using assms reads_optional [OF reads_expr] reads_no_optional [of us ty parseExpression] by (cases x) (auto simp: clause_tokens_def)

lemma reads_base:
  assumes "first us \<noteq> TAs" "first us \<noteq> TIdentifier"
  shows "reads (\<lambda>n. base_table msg) (base_tokens nm al @ us) (BaseTable nm al) us"
proof (cases "al = []")
  case True
  then show ?thesis using assms unfolding base_table_def base_tokens_def
    by (simp, intro reads_consume_lexeme reads_skip reads_yield) auto
next
  case False
  then show ?thesis unfolding base_table_def base_tokens_def
    by simp (rule reads_consume_lexeme, rule reads_match, rule reads_consume_lexeme, rule reads_yield)
qed

lemma reads_join:
  assumes "reads g us x vs"
  shows "reads (\<lambda>n. pbind match_join (\<lambda>b. if \<not> b then f n else pbind (previous_is TInner) (\<lambda>inner.
    pbind (if inner then c else yield ()) (\<lambda>_. g n)))) ((TJoin, lx) # us) x vs"
proof (rule readsI)
  fix p assume s: "stream p ((TJoin, lx) # us)"
  obtain p' where p': "parser_advance p = Some (Inr ((), p'))" "stream p' us" "shape (previous_token p') = (TJoin, lx)" using advance_stream [OF s] by blast
  have "pbind match_join (\<lambda>b. if \<not> b then f n else pbind (previous_is TInner) (\<lambda>inner. pbind (if inner then c else yield ()) (\<lambda>_. g n))) p = g n p'" for n
    using p' stream_check [OF s, of TInner] stream_check [OF s, of TJoin]
    by (simp add: match_join_def if_match_def match_token_def pbind_def previous_is_def yield_def shape_def)
  then show "\<exists>p' N. stream p' vs \<and> (\<forall>n \<ge> N. pbind match_join (\<lambda>b. if \<not> b then f n else pbind (previous_is TInner) (\<lambda>inner.
      pbind (if inner then c else yield ()) (\<lambda>_. g n))) p = Some (Inr (x, p')))"
    using assms p'(2) by (simp add: reads_def)
qed

lemma reads_no_join:
  assumes "first us \<noteq> TJoin" "first us \<noteq> TInner"
  shows "reads (\<lambda>n. join_loop n t) us t us"
proof (rule reads_Suc, unfold join_loop.simps, rule reads_pbind)
  show "reads (\<lambda>n. match_join) us False us" unfolding match_join_def by (rule reads_skip [OF assms(2) reads_no_token [OF assms(1)]])
qed (simp add: reads_yield)

definition after_table :: "TokenType \<Rightarrow> bool" where
  "after_table ty = (ty \<notin> {TAs, TIdentifier, TOn, TDot} \<union> operators)"

lemma reads_table_then:
  "good_table t \<Longrightarrow> after_table (first us) \<Longrightarrow> reads (\<lambda>n. join_loop n t) us x vs \<Longrightarrow> reads parseTableReference (table_tokens t @ us) x vs"
proof (induction t arbitrary: us x vs rule: good_table.induct)
  case (1 nm al)
  have "reads (\<lambda>n. base_table ''Expected table name'') (base_tokens nm al @ us) (BaseTable nm al) us" using 1(2) by (intro reads_base) (auto simp: after_table_def)
  from reads_pbind [OF this, where g = join_loop] 1(3) show ?case by (simp add: parseTableReference_def [abs_def])
next
  case (2 l nm al cond)
  have f: "first (clause_tokens (TOn, ''ON'') cond @ us) \<noteq> TAs" "first (clause_tokens (TOn, ''ON'') cond @ us) \<noteq> TIdentifier"
    using 2(3) by (auto simp: after_table_def)
  have c: "reads (\<lambda>n. optional TOn (parseExpression n)) (clause_tokens (TOn, ''ON'') cond @ us) cond us"
    using 2(2,3) by (intro reads_clause) (auto simp: after_table_def ends_def)
  have "reads (\<lambda>n. join_loop (Suc n) l) ((TJoin, ''JOIN'') # base_tokens nm al @ clause_tokens (TOn, ''ON'') cond @ us) x vs"
    unfolding join_loop.simps by (rule reads_join, rule reads_pbind, rule reads_base [OF f], rule reads_pbind, rule c, rule 2(4))
  then have "reads (\<lambda>n. join_loop n l) ((TJoin, ''JOIN'') # base_tokens nm al @ clause_tokens (TOn, ''ON'') cond @ us) x vs" by (rule reads_Suc)
  then show ?case using 2(1) [of "(TJoin, ''JOIN'') # base_tokens nm al @ clause_tokens (TOn, ''ON'') cond @ us"] 2(2)
    by (simp add: after_table_def operators_def)
qed simp

lemma reads_from:
  assumes "pred_option good_table t" "after_table (first us)" "first us \<notin> {TJoin, TInner, TFrom}"
  shows "reads (\<lambda>n. optional TFrom (parseTableReference n)) (from_tokens t @ us) t us"
proof (cases t)
  case (Some t')
  have "reads parseTableReference (table_tokens t' @ us) t' us" using assms Some by (intro reads_table_then reads_no_join) auto
  then show ?thesis using reads_optional Some by (simp add: from_tokens_def)
qed (use assms(3) reads_no_optional [of us TFrom parseTableReference] in \<open>simp add: from_tokens_def\<close>)

lemma reads_group:
  assumes "list_all good_expr gs" "ends us" "first us \<noteq> TComma" "first us \<noteq> TGroup"
  shows "reads parse_group_by (group_tokens gs @ us) gs us"
proof (cases "gs = []")
  case True
  then show ?thesis using assms(4) unfolding parse_group_by_def [abs_def] group_tokens_def by simp (intro reads_skip reads_yield)
next
  case False
  from reads_exprs [OF this assms(1-3)] show ?thesis using False unfolding parse_group_by_def [abs_def] group_tokens_def
    by simp (rule reads_match, rule reads_pbind, rule reads_consume)
qed

lemma reads_order_item:
  assumes "good_expr (fst ob)"
  shows "reads order_item (order_token ob @ us) ob us"
proof -
  obtain e asc where ob: "ob = (e, asc)" by (cases ob)
  have e: "reads parseExpression (expr_tokens e @ t # us) e (t # us)" if "fst t = TAsc \<or> fst t = TDesc" for t
    using assms ob that by (intro reads_expr) (auto simp: ends_def operators_def)
  show ?thesis
  proof (cases asc)
    case True
    then show ?thesis unfolding order_item_def [abs_def] ob order_token_def
      by simp (rule reads_pbind, rule e, simp, rule reads_skip, simp, rule reads_pbind, rule reads_token, rule reads_yield)
  next
    case False
    then show ?thesis unfolding order_item_def [abs_def] ob order_token_def
      by simp (rule reads_pbind, rule e, simp, rule reads_match, rule reads_yield)
  qed
qed

lemma reads_order:
  assumes "list_all (\<lambda>(e, asc). good_expr e) obs" "first us \<noteq> TComma" "first us \<noteq> TOrder"
  shows "reads parse_order_by (order_tokens obs @ us) obs us"
proof (cases "obs = []")
  case True
  then show ?thesis using assms(3) unfolding parse_order_by_def [abs_def] order_tokens_def by simp (intro reads_skip reads_yield)
next
  case False
  have "reads (\<lambda>n. comma_list n (order_item n)) (comma_tokens (map order_token obs) @ us) obs us"
    using reads_comma_list [where P = "\<lambda>_. True" and k = 0 and g = order_token and item = order_item, OF False _ _ _ assms(2)] assms(1) reads_order_item
    by (fastforce simp: list_all_iff)
  then show ?thesis using False unfolding parse_order_by_def [abs_def] order_tokens_def
    by simp (rule reads_match, rule reads_pbind, rule reads_consume)
qed

lemma ends_clauses: "first us \<in> {TEof, TOffset, TLimit, TOrder, THaving, TGroup, TWhere, TFrom} \<Longrightarrow> ends us"
  by (auto simp: ends_def operators_def)

lemma reads_select:
  assumes "good_select s"
  shows "reads parseSelect (tl (select_tokens s)) (SelectStmt s) []"
proof -
  define t8 where "t8 = clause_tokens (TOffset, ''OFFSET'') (select_offset s)"
  define t7 where "t7 = clause_tokens (TLimit, ''LIMIT'') (select_limit s) @ t8"
  define t6 where "t6 = order_tokens (order_by s) @ t7"
  define t5 where "t5 = clause_tokens (THaving, ''HAVING'') (having_clause s) @ t6"
  define t4 where "t4 = group_tokens (group_by s) @ t5"
  define t3 where "t3 = clause_tokens (TWhere, ''WHERE'') (select_where s) @ t4"
  define t2 where "t2 = from_tokens (select_table s) @ t3"
  have f8: "first t8 \<in> {TEof, TOffset}" using first_clause [of _ _ "[]"] by (simp add: t8_def)
  have f7: "first t7 \<in> {TEof, TOffset, TLimit}" using f8 by (auto simp: t7_def)
  have f6: "first t6 \<in> {TEof, TOffset, TLimit, TOrder}" using f7 by (auto simp: t6_def)
  have f5: "first t5 \<in> {TEof, TOffset, TLimit, TOrder, THaving}" using f6 by (auto simp: t5_def)
  have f4: "first t4 \<in> {TEof, TOffset, TLimit, TOrder, THaving, TGroup}" using f5 by (auto simp: t4_def)
  have f3: "first t3 \<in> {TEof, TOffset, TLimit, TOrder, THaving, TGroup, TWhere}" using f4 by (auto simp: t3_def)
  have f2: "first t2 \<in> {TEof, TOffset, TLimit, TOrder, THaving, TGroup, TWhere, TFrom}" using f3 by (auto simp: t2_def)
  have ends: "ends t2" "ends t4" "ends t5" "ends t6" "ends t8" "ends []" by (rule ends_clauses; insert f2 f4 f5 f6 f8, simp, blast?)+
  note good = assms [unfolded good_select_def]
  have r8: "reads (\<lambda>n. optional TOffset (parseExpression n)) t8 (select_offset s) []"
    using reads_clause [OF _ ends(6), of "select_offset s" TOffset "''OFFSET''"] good by (simp add: t8_def)
  have r7: "reads (\<lambda>n. optional TLimit (parseExpression n)) t7 (select_limit s) t8" using f8 good ends by (auto simp: t7_def intro: reads_clause)
  have r6: "reads parse_order_by t6 (order_by s) t7" unfolding t6_def using f7 good by (intro reads_order) auto
  have r5: "reads (\<lambda>n. optional THaving (parseExpression n)) t5 (having_clause s) t6" using f6 good ends by (auto simp: t5_def intro: reads_clause)
  have r4: "reads parse_group_by t4 (group_by s) t5" unfolding t4_def using f5 good ends by (intro reads_group) auto
  have r3: "reads (\<lambda>n. optional TWhere (parseExpression n)) t3 (select_where s) t4" using f4 good ends by (auto simp: t3_def intro: reads_clause)
  have r2: "reads (\<lambda>n. optional TFrom (parseTableReference n)) t2 (select_table s) t3"
    unfolding t2_def using f3 good by (intro reads_from) (auto simp: after_table_def operators_def)
  have r1: "reads (\<lambda>n. comma_list n (parseExpression n)) (comma_tokens (map expr_tokens (select_list s)) @ t2) (select_list s) t2"
    using f2 good ends by (intro reads_exprs) auto
  have "tl (select_tokens s) = comma_tokens (map expr_tokens (select_list s)) @ t2"
    by (simp add: select_tokens_def t2_def t3_def t4_def t5_def t6_def t7_def t8_def)
  moreover have "\<lparr>select_list = select_list s, select_table = select_table s, select_where = select_where s, group_by = group_by s,
      having_clause = having_clause s, order_by = order_by s, select_limit = select_limit s, select_offset = select_offset s\<rparr> = s" by simp
  ultimately show ?thesis unfolding parseSelect_def [abs_def]
    by (simp only:) (rule reads_pbind, rule r1, rule reads_pbind, rule r2, rule reads_pbind, rule r3, rule reads_pbind, rule r4, rule reads_pbind, rule r5,
      rule reads_pbind, rule r6, rule reads_pbind, rule r7, rule reads_pbind, rule r8,
      simp only:, rule reads_yield)
qed

lemma reads_values_list:
  assumes "good_values vs"
  shows "reads parseValuesList (comma_tokens (map row_tokens vs)) vs []"
proof -
  have row: "reads values_tuple (row_tokens r @ us) r us" if "r \<noteq> [] \<and> list_all good_expr r" for r us
  proof -
    have "ends ((TRightParen, '')'') # us)" "first ((TRightParen, '')'') # us) \<noteq> TComma" by (simp_all add: ends_def operators_def)
    then have l: "reads (\<lambda>n. comma_list n (parseExpression n)) (comma_tokens (map expr_tokens r) @ (TRightParen, '')'') # us) r ((TRightParen, '')'') # us)"
      using that by (intro reads_exprs) simp_all
    show ?thesis unfolding values_tuple_def [abs_def] row_tokens_def
      by simp (rule reads_pbind, rule reads_consume, rule reads_pbind, rule l, rule reads_pbind, rule reads_consume, rule reads_yield)
  qed
  have "reads (\<lambda>n. comma_list n (values_tuple (n + 0))) (comma_tokens (map row_tokens vs) @ []) vs []"
    using assms row by (intro reads_comma_list [where P = "\<lambda>_. True"]) (auto simp: good_values_def list_all_iff)
  then show ?thesis by (simp add: parseValuesList_def [abs_def])
qed

lemma reads_where:
  assumes "pred_option good_expr wh"
  shows "reads (\<lambda>n. optional TWhere (parseExpression n)) (clause_tokens (TWhere, ''WHERE'') wh) wh []"
  using reads_clause [OF assms, of "[]" TWhere "''WHERE''"] by (simp add: ends_def operators_def)

lemma reads_set_clause:
  assumes "good_expr (snd c)" "ends us"
  shows "reads set_clause (set_tokens c @ us) c us"
proof -
  obtain col e where c: "c = (col, e)" by (cases c)
  show ?thesis unfolding set_clause_def [abs_def] set_tokens_def c
    by simp (rule reads_pbind, rule reads_consume_name, rule reads_pbind, rule reads_consume, rule reads_pbind, rule reads_expr,
      use assms c reads_yield in auto)
qed

lemma reads_update:
  assumes "good_statement (UpdateStmt nm sets wh)"
  shows "reads parseUpdate (tl (statement_tokens (UpdateStmt nm sets wh))) (UpdateStmt nm sets wh) []"
proof -
  let ?us = "clause_tokens (TWhere, ''WHERE'') wh"
  have f: "first ?us \<in> {TEof, TWhere}" using first_clause [of _ wh "[]"] by simp
  have "reads (\<lambda>n. comma_list n (set_clause (n + 0))) (comma_tokens (map set_tokens sets) @ ?us) sets ?us"
    using assms f reads_set_clause by (intro reads_comma_list [where P = ends]) (auto simp: list_all_iff ends_def operators_def split: prod.splits)
  then have sets: "reads (\<lambda>n. comma_list n (set_clause n)) (comma_tokens (map set_tokens sets) @ ?us) sets ?us" by simp
  have wh: "pred_option good_expr wh" using assms by simp
  show ?thesis unfolding parseUpdate_def [abs_def]
    by simp (rule reads_pbind, rule reads_consume_name, rule reads_pbind, rule reads_consume, rule reads_pbind, rule sets,
      rule reads_pbind, rule reads_where [OF wh], rule reads_yield)
qed

lemma reads_execute:
  assumes "list_all good_expr ps"
  shows "reads parseExecute (tl (statement_tokens (ExecuteStmt nm ps))) (ExecuteStmt nm ps) []"
proof (cases "ps = []")
  case True
  then show ?thesis unfolding parseExecute_def [abs_def] by simp (rule reads_pbind, rule reads_consume_name, rule reads_skip, simp, rule reads_yield)
next
  case False
  let ?ts = "comma_tokens (map expr_tokens ps) @ [(TRightParen, '')'')]"
  have list: "reads (\<lambda>n. comma_list n (parseExpression n)) ?ts ps [(TRightParen, '')'')]"
    using False assms by (intro reads_exprs) (auto simp: ends_def operators_def)
  obtain e es where "ps = e # es" using False by (cases ps) auto
  then obtain us where us: "?ts = expr_tokens e @ us" by (cases es) auto
  have "good_expr e" using assms \<open>ps = e # es\<close> by simp
  then have "first ?ts \<noteq> TRightParen" unfolding us using first_expr [of e us] by auto
  then have "reads parameter_list ?ts ps [(TRightParen, '')'')]"
    using list stream_check [of _ ?ts TRightParen] by (simp add: reads_def parameter_list_def)
  then show ?thesis using False unfolding parseExecute_def [abs_def]
    by simp (rule reads_pbind, rule reads_consume_name, rule reads_match, rule reads_pbind, assumption, rule reads_pbind, rule reads_consume, rule reads_yield)
qed

lemma first_statement: "good_statement s \<Longrightarrow> first (statement_tokens s) \<in> {TSelect, TInsert, TUpdate, TDelete, TValues, TExplain, TPrepare, TExecute, TDeallocate}"
  by (cases s) (auto simp: select_tokens_def)

lemma reads_statement: "good_statement s \<Longrightarrow> reads parseStatement (statement_tokens s) s []"
proof (induction s rule: good_statement.induct)
  case (1 s)
  have "statement_tokens (SelectStmt s) = (TSelect, ''SELECT'') # tl (select_tokens s)" by (simp add: select_tokens_def)
  then show ?case using reads_select [of s] 1
    by (intro reads_Suc [where f = parseStatement]) (simp only: parseStatement.simps good_statement.simps reads_match)
next
  case (2 nm vs)
  have "reads parseInsert (tl (statement_tokens (InsertStmt nm vs))) (InsertStmt nm vs) []" unfolding parseInsert_def [abs_def]
    by simp (rule reads_pbind, rule reads_token, rule reads_pbind, rule reads_consume_name, rule reads_pbind, rule reads_consume,
      rule reads_pbind, rule reads_values_list, use 2 reads_yield in auto)
  then show ?case by (intro reads_Suc [where f = parseStatement]) (simp, rule reads_skip, simp, rule reads_match)
next
  case (3 nm sets wh)
  show ?case using reads_update [OF 3]
    by (intro reads_Suc [where f = parseStatement]) (simp, (rule reads_match | rule reads_skip, (simp; fail))+)
next
  case (4 nm wh)
  then have wh: "pred_option good_expr wh" by simp
  have "reads parseDelete (tl (statement_tokens (DeleteStmt nm wh))) (DeleteStmt nm wh) []" unfolding parseDelete_def [abs_def]
    by simp (rule reads_pbind, rule reads_token, rule reads_pbind, rule reads_consume_name, rule reads_pbind, rule reads_where [OF wh], rule reads_yield)
  then show ?case by (intro reads_Suc [where f = parseStatement]) (simp, (rule reads_match | rule reads_skip, (simp; fail))+)
next
  case (5 vs)
  have "reads parseValues (comma_tokens (map row_tokens vs)) (ValuesStmt vs) []" unfolding parseValues_def [abs_def]
    by (rule reads_pbind, rule reads_values_list, use 5 reads_yield in auto)
  then show ?case by (intro reads_Suc [where f = parseStatement]) (simp, (rule reads_match | rule reads_skip, (simp; fail))+)
next
  case (7 s an)
  then have s: "reads parseStatement (statement_tokens s) s []" and "first (statement_tokens s) \<noteq> TAnalyze"
    using first_statement [of s] by auto
  then have "reads (\<lambda>n. match_token TAnalyze) ((if an then [(TAnalyze, ''ANALYZE'')] else []) @ statement_tokens s) an (statement_tokens s)"
    using reads_token reads_no_token by simp
  then have "reads (\<lambda>n. parseExplain (parseStatement n)) ((if an then [(TAnalyze, ''ANALYZE'')] else []) @ statement_tokens s) (ExplainStmt (Some s) an) []"
    unfolding parseExplain_def by (rule reads_pbind) (rule reads_pbind, rule s, rule reads_yield)
  then show ?case by (intro reads_Suc [where f = parseStatement]) (simp only: parseStatement.simps statement_tokens.simps option.case,
    (rule reads_match | rule reads_skip, (simp; fail))+)
next
  case (9 nm s)
  then have s: "reads parseStatement (statement_tokens s) s []" by simp
  have "reads (\<lambda>n. parsePrepare (parseStatement n)) ((TIdentifier, nm) # (TAs, ''AS'') # statement_tokens s) (PrepareStmt nm (Some s)) []"
    unfolding parsePrepare_def by (rule reads_pbind, rule reads_consume_name, rule reads_pbind, rule reads_consume, rule reads_pbind, rule s, rule reads_yield)
  then show ?case by (intro reads_Suc [where f = parseStatement]) (simp, (rule reads_match | rule reads_skip, (simp; fail))+)
next
  case (10 nm ps)
  have t: "statement_tokens (ExecuteStmt nm ps) = (TExecute, ''EXECUTE'') # tl (statement_tokens (ExecuteStmt nm ps))" by simp
  show ?case
    by (intro reads_Suc [where f = parseStatement]) (subst t, simp only: parseStatement.simps, (rule reads_match | rule reads_skip, (simp; fail))+,
      rule reads_execute, use 10 in simp)
next
  case (11 nm)
  have "reads (\<lambda>n. parseDeallocate) [(TIdentifier, nm)] (DeallocateStmt nm) []" unfolding parseDeallocate_def
    by (rule reads_pbind, rule reads_no_token, simp, rule reads_pbind, rule reads_consume_name, rule reads_yield)
  then show ?case by (intro reads_Suc [where f = parseStatement]) (simp, (rule reads_match | rule reads_skip, (simp; fail))+)
qed simp_all

lemma parse_reads:
  assumes "prints src ts" "reads parseStatement ts s us"
  shows "parse src = Some (Inr s)"
proof -
  obtain u l where n: "nextToken (mk_Lexer src) = (u, l)" by fastforce
  have "lexes (lx_rest (mk_Lexer src)) ts" using assms(1) lexes_end by (force simp: prints_def breaks_def)
  from stream_from [OF this n] obtain p where p: "mk_Parser src = Some (Inr p)" "stream p ts"
    using n by (auto simp: mk_Parser_def parser_advance_def Let_def yield_def)
  obtain p' N where "\<forall>n \<ge> N. parseStatement n p = Some (Inr (s, p'))" using assms(2) p(2) by (auto simp: reads_def)
  then have "parse_with (Suc (length src) + N) src = Some (Inr s)" using p(1) by (simp add: parse_with_def del: parseStatement.simps)
  moreover obtain r where "parse src = Some r" "\<forall>n. parse_with (Suc (length src) + n) src = Some r"
    using parse_with_some [of src "Suc (length src)"] parse_with_more unfolding parse_def by (metis lessI le_add1)
  ultimately show ?thesis by simp
qed

text \<open>
  C20. Printing and parsing: parsing the text that \<open>toString\<close> prints for a statement gives back the statement, for every statement
  the parser can build from names that are not keywords and string literals without quotes.
\<close>

theorem parse_print: "good_statement s \<Longrightarrow> parse (statement_string s) = Some (Inr s)"
  by (rule parse_reads [OF prints_statement reads_statement])

theorem parse_print_witness:
  "parse ''SELECT (a + t.b), * FROM t AS x JOIN u ON (x.k = u.k) WHERE (NOT (a < 10)) ORDER BY b DESC LIMIT 5'' = Some (Inr (SelectStmt
     \<lparr>select_list = [ABinary OpAdd (AColumn ''a'' []) (AColumn ''b'' ''t''), AStar],
      select_table = Some (JoinTable (BaseTable ''t'' ''x'') (BaseTable ''u'' []) (Some (ABinary OpEquals (AColumn ''k'' ''x'') (AColumn ''k'' ''u'')))),
      select_where = Some (AUnary OpNot (ABinary OpLess (AColumn ''a'' []) (AConstant CInteger ''10''))),
      group_by = [], having_clause = None, order_by = [(AColumn ''b'' [], False)],
      select_limit = Some (AConstant CInteger ''5''), select_offset = None\<rparr>))"
proof -
  let ?s = "SelectStmt
     \<lparr>select_list = [ABinary OpAdd (AColumn ''a'' []) (AColumn ''b'' ''t''), AStar],
      select_table = Some (JoinTable (BaseTable ''t'' ''x'') (BaseTable ''u'' []) (Some (ABinary OpEquals (AColumn ''k'' ''x'') (AColumn ''k'' ''u'')))),
      select_where = Some (AUnary OpNot (ABinary OpLess (AColumn ''a'' []) (AConstant CInteger ''10''))),
      group_by = [], having_clause = None, order_by = [(AColumn ''b'' [], False)],
      select_limit = Some (AConstant CInteger ''5''), select_offset = None\<rparr>"
  have "ident ''a''" "ident ''b''" "ident ''t''" "ident ''x''" "ident ''u''" "ident ''k''" by code_simp+
  then have "good_statement ?s" by (simp add: good_select_def isdigit_def code_def)
  then show ?thesis using parse_print [of ?s] by (simp add: select_string_def clause_def)
qed

text \<open>
  The parser never checks that the text ends behind the statement: a misspelt \<open>WHERE\<close> is taken for the end, and the statement is
  one that deletes every row.
\<close>

theorem trailing_tokens_ignored:
  assumes "ident nm" "ident w"
  shows "parse (''DELETE FROM '' @ nm @ '' '' @ w) = Some (Inr (DeleteStmt nm None))"
proof (rule parse_reads)
  have "prefixes ''DELETE FROM '' [(TDelete, ''DELETE''), (TFrom, ''FROM'')]"
    using prefixes_append [OF prefixes_keyword [of TDelete "''DELETE''"] prefixes_keyword [of TFrom "''FROM''"]] by simp
  from prefix_prints [OF this prefix_prints [OF prints_space [OF prints_ident [OF assms(1)]] prints_ident [OF assms(2)]]]
  show "prints (''DELETE FROM '' @ nm @ '' '' @ w) [(TDelete, ''DELETE''), (TFrom, ''FROM''), (TIdentifier, nm), (TIdentifier, w)]" by simp
  have "reads parseDelete [(TFrom, ''FROM''), (TIdentifier, nm), (TIdentifier, w)] (DeleteStmt nm None) [(TIdentifier, w)]" unfolding parseDelete_def [abs_def]
    by (rule reads_pbind, rule reads_token, rule reads_pbind, rule reads_consume_name, rule reads_pbind, rule reads_no_optional, simp, rule reads_yield)
  then show "reads parseStatement [(TDelete, ''DELETE''), (TFrom, ''FROM''), (TIdentifier, nm), (TIdentifier, w)] (DeleteStmt nm None) [(TIdentifier, w)]"
    by (intro reads_Suc [where f = parseStatement]) (simp only: parseStatement.simps, (rule reads_match | rule reads_skip, (simp; fail))+)
qed

end
