(* ===== verification/Binder.thy ===== *)
theory Binder
  imports Parser Plans
begin

text \<open>
  The binder: \<^verbatim>\<open>src/binder/binder.cpp\<close>, \<^verbatim>\<open>include/binder/binder.hpp\<close>,
  \<^verbatim>\<open>include/binder/bound_expression.hpp\<close> and \<^verbatim>\<open>include/binder/bound_statement.hpp\<close>.

  A bound expression holds the executor's expression with its type.  An operation of the binder takes the state of the binder and gives a
  result or the exception it throws, with the state after it.  The strings of the syntax trees are turned into bytes here, as the
  catalog and the executors hold them.
\<close>

subsection \<open>Bound trees\<close>

datatype BoundExpression =
    BoundConstant Expression TypeId
  | BoundColumnRef Expression TypeId name name
  | BoundArithmetic Expression TypeId
  | BoundComparison Expression TypeId
  | BoundLogical Expression TypeId
  | BoundParameter Expression TypeId nat
  | BoundAggregate Expression TypeId AggregateType

fun bound_type :: "BoundExpression \<Rightarrow> TypeId" where
  "bound_type (BoundConstant e ty) = ty"
| "bound_type (BoundColumnRef e ty tab col) = ty"
| "bound_type (BoundArithmetic e ty) = ty"
| "bound_type (BoundComparison e ty) = ty"
| "bound_type (BoundLogical e ty) = ty"
| "bound_type (BoundParameter e ty i) = ty"
| "bound_type (BoundAggregate e ty k) = ty"

text \<open>\<open>takeExpr\<close> gives a null pointer for an aggregate.\<close>

fun takeExpr :: "BoundExpression \<Rightarrow> Expression" where
  "takeExpr (BoundConstant e ty) = e"
| "takeExpr (BoundColumnRef e ty tab col) = e"
| "takeExpr (BoundArithmetic e ty) = e"
| "takeExpr (BoundComparison e ty) = e"
| "takeExpr (BoundLogical e ty) = e"
| "takeExpr (BoundParameter e ty i) = e"
| "takeExpr (BoundAggregate e ty k) = ENullPtr"

datatype BoundTableReference =
    BoundBaseTable name name Schema
  | BoundJoinTable BoundTableReference BoundTableReference "BoundExpression option"

record BoundSelect =
  bs_table :: "BoundTableReference option"
  bs_select_list :: "BoundExpression list"
  bs_where :: "BoundExpression option"
  bs_group_bys :: "BoundExpression list"
  bs_having :: "BoundExpression option"
  bs_order_by :: "(BoundExpression \<times> bool) list"
  bs_limit :: "BoundExpression option"
  bs_offset :: "BoundExpression option"

datatype BoundStatement =
    BoundSelectStatement BoundSelect
  | BoundInsertStatement name "BoundExpression list list"
  | BoundUpdateStatement name "(name \<times> BoundExpression) list" "BoundExpression option"
  | BoundDeleteStatement name "BoundExpression option"
  | BoundValuesStatement "BoundExpression list list"

subsection \<open>The state of the binder\<close>

record TableContext =
  tc_name :: name
  tc_alias :: name
  tc_schema :: Schema
  tc_offset :: nat

record Binder =
  ctx_tables :: "TableContext list"
  combined_schema :: "Schema option"
  parameter_types :: "TypeId list"

definition mk_Binder :: Binder where
  "mk_Binder = \<lparr>ctx_tables = [], combined_schema = None, parameter_types = []\<rparr>"

type_synonym 'a binding = "Binder \<Rightarrow> (exn + 'a) \<times> Binder"

definition bound :: "'a \<Rightarrow> 'a binding" where
  "bound x s = (Inr x, s)"

definition bind_throws :: "exn \<Rightarrow> 'a binding" where
  "bind_throws e s = (Inl e, s)"

definition lifted :: "exn + 'a \<Rightarrow> 'a binding" where
  "lifted r s = (r, s)"

definition then_bind :: "'a binding \<Rightarrow> ('a \<Rightarrow> 'b binding) \<Rightarrow> 'b binding" where
  "then_bind f g s = (case f s of (Inl e, s') \<Rightarrow> (Inl e, s') | (Inr x, s') \<Rightarrow> g x s')"

definition binder_error :: "string \<Rightarrow> exn" where
  "binder_error msg = RuntimeError msg"

definition ensure :: "bool \<Rightarrow> string \<Rightarrow> unit binding" where
  "ensure ok msg = (if ok then bound () else bind_throws (binder_error msg))"

fun bind_each :: "('a \<Rightarrow> 'b binding) \<Rightarrow> 'a list \<Rightarrow> 'b list binding" where
  "bind_each f [] = bound []"
| "bind_each f (x # xs) = then_bind (f x) (\<lambda>y. then_bind (bind_each f xs) (\<lambda>ys. bound (y # ys)))"

definition bind_optional :: "('a \<Rightarrow> 'b binding) \<Rightarrow> 'a option \<Rightarrow> 'b option binding" where
  "bind_optional f x = (case x of None \<Rightarrow> bound None | Some y \<Rightarrow> then_bind (f y) (\<lambda>z. bound (Some z)))"

subsection \<open>Text and numbers\<close>

definition bytes_of :: "string \<Rightarrow> name" where
  "bytes_of s = map (\<lambda>c. word_of_nat (code c)) s"

definition isspace :: "char \<Rightarrow> bool" where
  "isspace c = (c = CHR '' '' \<or> 9 \<le> code c \<and> code c \<le> 13)"

definition digits_value :: "string \<Rightarrow> int" where
  "digits_value ds = foldl (\<lambda>v c. 10 * v + (int (code c) - 48)) 0 ds"

text \<open>\<open>std::stoi\<close>: leading blanks and a sign, then as many digits as there are.\<close>

definition stoi :: "string \<Rightarrow> exn + int" where
  "stoi s = (let s1 = dropWhile isspace s; sign = s1 \<noteq> [] \<and> (hd s1 = CHR ''-'' \<or> hd s1 = CHR ''+'');
       ds = takeWhile isdigit (if sign then tl s1 else s1); n = digits_value ds; i = (if sign \<and> hd s1 = CHR ''-'' then - n else n) in
     if ds = [] then Inl (InvalidArgument ''stoi'') else if int32 i then Inr i else Inl OutOfRange)"

subsection \<open>Expressions\<close>

definition columnTypeToTypeId :: "ColumnType \<Rightarrow> exn + TypeId" where
  "columnTypeToTypeId t = (case t of ColInteger \<Rightarrow> Inr TypeInteger | ColBoolean \<Rightarrow> Inr TypeBoolean | ColVarchar \<Rightarrow> Inr TypeVarchar
     | _ \<Rightarrow> Inl (binder_error ''Unsupported column type''))"

definition bindParameter :: "BoundExpression binding" where
  "bindParameter s = (let i = length (parameter_types s) in
     (Inr (BoundParameter (EParam i VNull False) TypeNull i), s\<lparr>parameter_types := parameter_types s @ [TypeNull]\<rparr>))"

definition bindConstant :: "ConstantType \<Rightarrow> string \<Rightarrow> exn + BoundExpression" where
  "bindConstant ty v = (case ty of
     CInteger \<Rightarrow> try_bind (stoi v) (\<lambda>i. Inr (BoundConstant (EConst (VInt i)) TypeInteger))
   | CString \<Rightarrow> Inr (BoundConstant (EConst (VStr (bytes_of v))) TypeVarchar)
   | CBoolean \<Rightarrow> Inr (BoundConstant (EConst (VBool (v = ''true''))) TypeBoolean)
   | CNull \<Rightarrow> Inr (BoundConstant (EConst VNull) TypeNull))"

text \<open>
  The loop over the columns of a schema, from position \<open>i\<close> on: \<open>found\<close> is the column found so far, with its type and table.
\<close>

fun find_column :: "name \<Rightarrow> nat \<Rightarrow> name \<Rightarrow> Schema \<Rightarrow> nat \<Rightarrow> (nat \<times> name \<times> TypeId) option \<Rightarrow> exn + (nat \<times> name \<times> TypeId) option" where
  "find_column tab offset col [] i found = Inr found"
| "find_column tab offset col (c # cs) i found =
     (if col_name c = col then
        if found \<noteq> None then Inl (binder_error (''Ambiguous column: '' @ text_of col))
        else try_bind (columnTypeToTypeId (col_type c)) (\<lambda>ty. find_column tab offset col cs (i + 1) (Some (offset + i, tab, ty)))
      else find_column tab offset col cs (i + 1) found)"

fun find_in_tables :: "name \<Rightarrow> name \<Rightarrow> TableContext list \<Rightarrow> bool \<Rightarrow> (nat \<times> name \<times> TypeId) option \<Rightarrow> exn + bool \<times> (nat \<times> name \<times> TypeId) option" where
  "find_in_tables tab col [] table_found found = Inr (table_found, found)"
| "find_in_tables tab col (tc # tcs) table_found found =
     (if tc_name tc = tab \<or> tc_alias tc = tab
      then try_bind (find_column (tc_name tc) (tc_offset tc) col (tc_schema tc) 0 found) (find_in_tables tab col tcs True)
      else find_in_tables tab col tcs table_found found)"

definition bindColumnValue :: "name \<Rightarrow> name \<Rightarrow> Binder \<Rightarrow> exn + BoundExpression" where
  "bindColumnValue col tab s = (case combined_schema s of
     None \<Rightarrow> Inl (binder_error ''Column reference without a table'')
   | Some sch \<Rightarrow> try_bind
       (if tab \<noteq> [] then try_bind (find_in_tables tab col (ctx_tables s) False None) (\<lambda>(table_found, found).
            if \<not> table_found then Inl (binder_error (''Unknown table or alias: '' @ text_of tab)) else Inr found)
        else find_column [] 0 col sch 0 None)
       (\<lambda>found. case found of None \<Rightarrow> Inl (binder_error (''Unknown column: '' @ text_of col))
          | Some (i, found_table, ty) \<Rightarrow> Inr (BoundColumnRef (EColumn i None) ty found_table col)))"

definition aggregate_type :: "AggregateKind \<Rightarrow> AggregateType" where
  "aggregate_type k = (case k of AggCountStar \<Rightarrow> CountStar | AggCount \<Rightarrow> Count | AggSum \<Rightarrow> Sum | AggMin \<Rightarrow> Min | AggMax \<Rightarrow> Max | AggAvg \<Rightarrow> Avg)"

definition bindAggregate :: "AggregateKind \<Rightarrow> BoundExpression option \<Rightarrow> BoundExpression" where
  "bindAggregate k child = (let child_type = (case child of None \<Rightarrow> TypeInteger | Some b \<Rightarrow> bound_type b) in
     BoundAggregate (case child of None \<Rightarrow> ENullPtr | Some b \<Rightarrow> takeExpr b)
       (if k = AggCountStar \<or> k = AggCount then TypeInteger else child_type) (aggregate_type k))"

definition is_param :: "BoundExpression \<Rightarrow> bool" where
  "is_param b = (case b of BoundParameter _ _ _ \<Rightarrow> True | _ \<Rightarrow> False)"

text \<open>\<open>setType\<close> on a parameter, with the entry of \<open>parameter_types_\<close>.\<close>

definition set_param_type :: "BoundExpression \<Rightarrow> TypeId \<Rightarrow> BoundExpression binding" where
  "set_param_type b ty s = (case b of
     BoundParameter e _ i \<Rightarrow> (Inr (BoundParameter e ty i), s\<lparr>parameter_types := (parameter_types s)[i := ty]\<rparr>)
   | _ \<Rightarrow> (Inr b, s))"

fun binary_expression :: "BinaryOp \<Rightarrow> BoundExpression \<Rightarrow> BoundExpression \<Rightarrow> BoundExpression" where
  "binary_expression OpAdd l r = BoundArithmetic (EArith Add (takeExpr l) (takeExpr r)) (bound_type l)"
| "binary_expression OpSubtract l r = BoundArithmetic (EArith Subtract (takeExpr l) (takeExpr r)) (bound_type l)"
| "binary_expression OpMultiply l r = BoundArithmetic (EArith Multiply (takeExpr l) (takeExpr r)) (bound_type l)"
| "binary_expression OpDivide l r = BoundArithmetic (EArith Divide (takeExpr l) (takeExpr r)) (bound_type l)"
| "binary_expression OpModulo l r = BoundArithmetic (EArith Modulo (takeExpr l) (takeExpr r)) (bound_type l)"
| "binary_expression OpEquals l r = BoundComparison (EComp Equal (takeExpr l) (takeExpr r)) TypeBoolean"
| "binary_expression OpNotEquals l r = BoundComparison (EComp NotEqual (takeExpr l) (takeExpr r)) TypeBoolean"
| "binary_expression OpLess l r = BoundComparison (EComp LessThan (takeExpr l) (takeExpr r)) TypeBoolean"
| "binary_expression OpLessEquals l r = BoundComparison (EComp LessThanOrEqual (takeExpr l) (takeExpr r)) TypeBoolean"
| "binary_expression OpGreater l r = BoundComparison (EComp GreaterThan (takeExpr l) (takeExpr r)) TypeBoolean"
| "binary_expression OpGreaterEquals l r = BoundComparison (EComp GreaterThanOrEqual (takeExpr l) (takeExpr r)) TypeBoolean"
| "binary_expression OpAnd l r = BoundLogical (ELogic LogicalAnd (takeExpr l) (takeExpr r)) TypeBoolean"
| "binary_expression OpOr l r = BoundLogical (ELogic LogicalOr (takeExpr l) (takeExpr r)) TypeBoolean"

definition bindBinary :: "BinaryOp \<Rightarrow> BoundExpression \<Rightarrow> BoundExpression \<Rightarrow> BoundExpression binding" where
  "bindBinary op l r =
     then_bind (if is_param l \<and> \<not> is_param r then set_param_type l (bound_type r) else bound l) (\<lambda>l.
     then_bind (if is_param r \<and> \<not> is_param l then set_param_type r (bound_type l) else bound r) (\<lambda>r.
     then_bind (ensure (\<not> (bound_type l \<noteq> bound_type r \<and> bound_type l \<noteq> TypeNull \<and> bound_type r \<noteq> TypeNull)) ''Type mismatch in binary expression'') (\<lambda>_.
     bound (binary_expression op l r))))"

definition bindUnary :: "UnaryOp \<Rightarrow> BoundExpression \<Rightarrow> exn + BoundExpression" where
  "bindUnary op child = (case op of
     OpNot \<Rightarrow> if bound_type child \<noteq> TypeBoolean \<and> bound_type child \<noteq> TypeNull then Inl (binder_error ''NOT requires a boolean expression'')
       else Inr (BoundLogical (ENot (takeExpr child)) TypeBoolean)
   | OpMinus \<Rightarrow> if bound_type child \<noteq> TypeInteger \<and> bound_type child \<noteq> TypeNull then Inl (binder_error ''Unary minus requires an integer expression'')
       else Inr (BoundArithmetic (EArith Subtract (EConst (VInt 0)) (takeExpr child)) (bound_type child))
   | OpPlus \<Rightarrow> if bound_type child \<noteq> TypeInteger \<and> bound_type child \<noteq> TypeNull then Inl (binder_error ''Unary plus requires an integer expression'')
       else Inr child)"

fun bindExpression :: "AstExpression \<Rightarrow> BoundExpression binding" where
  "bindExpression AParameter = bindParameter"
| "bindExpression (AConstant ty v) = lifted (bindConstant ty v)"
| "bindExpression (AColumn col tab) = (\<lambda>s. (bindColumnValue (bytes_of col) (bytes_of tab) s, s))"
| "bindExpression (ABinary op l r) = then_bind (bindExpression l) (\<lambda>l'. then_bind (bindExpression r) (bindBinary op l'))"
| "bindExpression (AUnary op x) = then_bind (bindExpression x) (\<lambda>x'. lifted (bindUnary op x'))"
| "bindExpression (AAggregate k None) = bound (bindAggregate k None)"
| "bindExpression (AAggregate k (Some x)) = then_bind (bindExpression x) (\<lambda>x'. bound (bindAggregate k (Some x')))"
| "bindExpression AStar = bind_throws (binder_error ''Unknown expression type'')"

subsection \<open>Statements\<close>

text \<open>An expression whose type must be boolean.\<close>

definition bind_condition :: "string \<Rightarrow> AstExpression \<Rightarrow> BoundExpression binding" where
  "bind_condition msg e = then_bind (bindExpression e) (\<lambda>b. then_bind (ensure (bound_type b = TypeBoolean) msg) (\<lambda>_. bound b))"

definition bind_table :: "CatalogManager \<Rightarrow> string \<Rightarrow> exn + TableInfo" where
  "bind_table cat nm = (case getTable cat (bytes_of nm) of (Ok, Some ti) \<Rightarrow> Inr ti | _ \<Rightarrow> Inl (binder_error (''Unknown table: '' @ nm)))"

fun bindTableReference :: "CatalogManager \<Rightarrow> TableReference \<Rightarrow> Schema \<Rightarrow> (BoundTableReference \<times> Schema) binding" where
  "bindTableReference cat (BaseTable nm al) cols = then_bind (lifted (bind_table cat nm)) (\<lambda>ti s.
     (Inr (BoundBaseTable (bytes_of nm) (bytes_of al) (ti_schema ti), cols @ ti_schema ti),
      s\<lparr>ctx_tables := ctx_tables s @ [\<lparr>tc_name = bytes_of nm, tc_alias = bytes_of al, tc_schema = ti_schema ti, tc_offset = length cols\<rparr>]\<rparr>))"
| "bindTableReference cat (JoinTable l r cond) cols =
     then_bind (bindTableReference cat l cols) (\<lambda>(l', cols1).
     then_bind (bindTableReference cat r cols1) (\<lambda>(r', cols2).
     then_bind (\<lambda>s. (Inr (), s\<lparr>combined_schema := Some cols2\<rparr>)) (\<lambda>_.
     then_bind (bind_optional (bind_condition ''JOIN condition must be of boolean type'') cond) (\<lambda>cond'.
     bound (BoundJoinTable l' r' cond', cols2)))))"

fun star_columns :: "nat \<Rightarrow> Schema \<Rightarrow> exn + BoundExpression list" where
  "star_columns i [] = Inr []"
| "star_columns i (c # cs) = try_bind (columnTypeToTypeId (col_type c)) (\<lambda>ty. try_bind (star_columns (i + 1) cs) (\<lambda>bs.
     Inr (BoundColumnRef (EColumn i None) ty [] (col_name c) # bs)))"

definition bind_item :: "AstExpression \<Rightarrow> BoundExpression list binding" where
  "bind_item e s = (if e = AStar then
     (case combined_schema s of None \<Rightarrow> (Inl (binder_error ''SELECT * with no table specified''), s) | Some sch \<Rightarrow> (star_columns 0 sch, s))
   else then_bind (bindExpression e) (\<lambda>b. bound [b]) s)"

definition is_aggregate :: "BoundExpression \<Rightarrow> bool" where
  "is_aggregate b = (case b of BoundAggregate _ _ _ \<Rightarrow> True | _ \<Rightarrow> False)"

definition is_constant :: "BoundExpression \<Rightarrow> bool" where
  "is_constant b = (case b of BoundConstant _ _ \<Rightarrow> True | _ \<Rightarrow> False)"

definition same_column :: "BoundExpression \<Rightarrow> BoundExpression \<Rightarrow> bool" where
  "same_column a b = (case (a, b) of (BoundColumnRef _ _ t1 c1, BoundColumnRef _ _ t2 c2) \<Rightarrow> c1 = c2 \<and> t1 = t2 | _ \<Rightarrow> False)"

definition check_grouping :: "BoundExpression list \<Rightarrow> BoundExpression list \<Rightarrow> bool" where
  "check_grouping items groups = (list_ex is_aggregate items \<or> groups \<noteq> [] \<longrightarrow>
     list_all (\<lambda>e. is_aggregate e \<or> list_ex (same_column e) groups \<or> is_constant e \<or> is_param e) items)"

fun validateHaving :: "AstExpression list \<Rightarrow> AstExpression \<Rightarrow> bool \<Rightarrow> bool" where
  "validateHaving gs (AAggregate k None) in_agg = True"
| "validateHaving gs (AAggregate k (Some x)) in_agg = validateHaving gs x True"
| "validateHaving gs (AColumn col tab) in_agg = (in_agg \<or> AColumn col tab \<in> set gs)"
| "validateHaving gs (ABinary op l r) in_agg = (validateHaving gs l in_agg \<and> validateHaving gs r in_agg)"
| "validateHaving gs (AUnary op x) in_agg = validateHaving gs x in_agg"
| "validateHaving gs e in_agg = True"

definition bind_order_item :: "AstExpression \<times> bool \<Rightarrow> (BoundExpression \<times> bool) binding" where
  "bind_order_item = (\<lambda>(e, asc). then_bind (bindExpression e) (\<lambda>b. bound (b, asc)))"

definition set_schema :: "Schema option \<Rightarrow> unit binding" where
  "set_schema sch s = (Inr (), s\<lparr>combined_schema := sch\<rparr>)"

definition clear_tables :: "unit binding" where
  "clear_tables s = (Inr (), s\<lparr>ctx_tables := []\<rparr>)"

definition clear_context :: "unit binding" where
  "clear_context s = (Inr (), s\<lparr>ctx_tables := [], combined_schema := None\<rparr>)"

definition bind_from :: "CatalogManager \<Rightarrow> TableReference option \<Rightarrow> BoundTableReference option binding" where
  "bind_from cat t = (case t of None \<Rightarrow> then_bind (set_schema None) (\<lambda>_. bound None)
     | Some t \<Rightarrow> then_bind (bindTableReference cat t []) (\<lambda>(t', cols). then_bind (set_schema (Some cols)) (\<lambda>_. bound (Some t'))))"

definition bind_having :: "AstExpression list \<Rightarrow> AstExpression \<Rightarrow> BoundExpression binding" where
  "bind_having gs e = then_bind (ensure (validateHaving gs e False) ''Non-grouped/non-aggregate columns rejected in HAVING'') (\<lambda>_.
     bind_condition ''HAVING clause must be of boolean type'' e)"

definition bindSelect :: "CatalogManager \<Rightarrow> SelectStatement \<Rightarrow> BoundStatement binding" where
  "bindSelect cat st =
     then_bind clear_tables (\<lambda>_.
     then_bind (bind_from cat (select_table st)) (\<lambda>tab.
     then_bind (bind_each bind_item (select_list st)) (\<lambda>items.
     then_bind (bind_each bindExpression (group_by st)) (\<lambda>groups.
     then_bind (ensure (check_grouping (concat items) groups) ''Selected column must be in GROUP BY clause or be an aggregate function'') (\<lambda>_.
     then_bind (bind_optional (bind_condition ''WHERE clause must be of boolean type'') (select_where st)) (\<lambda>wh.
     then_bind (bind_optional (bind_having (group_by st)) (having_clause st)) (\<lambda>hv.
     then_bind (bind_each bind_order_item (order_by st)) (\<lambda>ob.
     then_bind (bind_optional bindExpression (select_limit st)) (\<lambda>lim.
     then_bind (bind_optional bindExpression (select_offset st)) (\<lambda>off.
     then_bind clear_context (\<lambda>_.
     bound (BoundSelectStatement \<lparr>bs_table = tab, bs_select_list = concat items, bs_where = wh, bs_group_bys = groups, bs_having = hv,
       bs_order_by = ob, bs_limit = lim, bs_offset = off\<rparr>))))))))))))"

text \<open>A value for a column of a table: a parameter takes the type of the column.\<close>

definition bind_assigned :: "string \<Rightarrow> Column \<Rightarrow> BoundExpression \<Rightarrow> BoundExpression binding" where
  "bind_assigned msg c b = then_bind (lifted (columnTypeToTypeId (col_type c))) (\<lambda>expected.
     if is_param b then set_param_type b expected
     else then_bind (ensure (\<not> (bound_type b \<noteq> expected \<and> bound_type b \<noteq> TypeNull)) msg) (\<lambda>_. bound b))"

definition bind_insert_value :: "Column \<times> AstExpression \<Rightarrow> BoundExpression binding" where
  "bind_insert_value = (\<lambda>(c, e). then_bind (bindExpression e) (bind_assigned ''Type mismatch in INSERT statement'' c))"

definition bind_insert_row :: "Schema \<Rightarrow> AstExpression list \<Rightarrow> BoundExpression list binding" where
  "bind_insert_row sch row = then_bind (ensure (length row = getColumnCount sch) ''Insert values count mismatch'') (\<lambda>_.
     bind_each bind_insert_value (zip sch row))"

definition bindInsert :: "CatalogManager \<Rightarrow> string \<Rightarrow> AstExpression list list \<Rightarrow> BoundStatement binding" where
  "bindInsert cat nm rows = then_bind (lifted (bind_table cat nm)) (\<lambda>ti.
     then_bind (bind_each (bind_insert_row (ti_schema ti)) rows) (\<lambda>vs. bound (BoundInsertStatement (bytes_of nm) vs)))"

definition set_single_table :: "string \<Rightarrow> Schema \<Rightarrow> unit binding" where
  "set_single_table nm sch s =
     (Inr (), s\<lparr>ctx_tables := [\<lparr>tc_name = bytes_of nm, tc_alias = [], tc_schema = sch, tc_offset = 0\<rparr>], combined_schema := Some sch\<rparr>)"

definition bind_set_clause :: "Schema \<Rightarrow> string \<times> AstExpression \<Rightarrow> (name \<times> BoundExpression) binding" where
  "bind_set_clause sch = (\<lambda>(col, e). then_bind (bindExpression e) (\<lambda>b.
     case find (\<lambda>c. col_name c = bytes_of col) sch of
       None \<Rightarrow> bind_throws (binder_error (''Unknown column in SET clause: '' @ col))
     | Some c \<Rightarrow> then_bind (bind_assigned ''Type mismatch in UPDATE statement'' c b) (\<lambda>b'. bound (bytes_of col, b'))))"

definition bindUpdate :: "CatalogManager \<Rightarrow> string \<Rightarrow> (string \<times> AstExpression) list \<Rightarrow> AstExpression option \<Rightarrow> BoundStatement binding" where
  "bindUpdate cat nm sets wh = then_bind (lifted (bind_table cat nm)) (\<lambda>ti.
     then_bind (set_single_table nm (ti_schema ti)) (\<lambda>_.
     then_bind (bind_each (bind_set_clause (ti_schema ti)) sets) (\<lambda>sets'.
     then_bind (bind_optional (bind_condition ''WHERE clause must be of boolean type'') wh) (\<lambda>wh'.
     then_bind clear_context (\<lambda>_. bound (BoundUpdateStatement (bytes_of nm) sets' wh'))))))"

definition bindDelete :: "CatalogManager \<Rightarrow> string \<Rightarrow> AstExpression option \<Rightarrow> BoundStatement binding" where
  "bindDelete cat nm wh = then_bind (lifted (bind_table cat nm)) (\<lambda>ti.
     then_bind (set_single_table nm (ti_schema ti)) (\<lambda>_.
     then_bind (bind_optional (bind_condition ''WHERE clause must be of boolean type'') wh) (\<lambda>wh'.
     then_bind clear_context (\<lambda>_. bound (BoundDeleteStatement (bytes_of nm) wh')))))"

definition bindValues :: "AstExpression list list \<Rightarrow> BoundStatement binding" where
  "bindValues rows = then_bind (bind_each (bind_each bindExpression) rows) (\<lambda>vs. bound (BoundValuesStatement vs))"

definition bind_statement :: "CatalogManager \<Rightarrow> Statement \<Rightarrow> BoundStatement binding" where
  "bind_statement cat st = (case st of
     SelectStmt s \<Rightarrow> bindSelect cat s
   | InsertStmt nm vs \<Rightarrow> bindInsert cat nm vs
   | UpdateStmt nm sets wh \<Rightarrow> bindUpdate cat nm sets wh
   | DeleteStmt nm wh \<Rightarrow> bindDelete cat nm wh
   | ValuesStmt vs \<Rightarrow> bindValues vs
   | _ \<Rightarrow> bind_throws (binder_error ''Unknown statement type''))"

subsection \<open>The binder as a type checker\<close>

lemma then_bind_Inr: "then_bind f g s = (Inr y, s') \<longleftrightarrow> (\<exists>x s1. f s = (Inr x, s1) \<and> g x s1 = (Inr y, s'))"
  by (auto simp: then_bind_def split: prod.splits sum.splits)

lemma binding_simps [simp]:
  "bound x s = (Inr y, s') \<longleftrightarrow> y = x \<and> s' = s" "bind_throws e s = (Inr y, s') \<longleftrightarrow> False" "lifted r s = (Inr y, s') \<longleftrightarrow> r = Inr y \<and> s' = s"
  "ensure ok msg s = (Inr u, s') \<longleftrightarrow> ok \<and> s' = s"
  by (auto simp: bound_def bind_throws_def lifted_def ensure_def)

text \<open>The tables in scope are parts of the combined schema.\<close>

definition context_ok :: "Schema \<Rightarrow> Binder \<Rightarrow> bool" where
  "context_ok sch s = ((combined_schema s = None \<or> combined_schema s = Some sch) \<and>
     (\<forall>tc \<in> set (ctx_tables s). take (length (tc_schema tc)) (drop (tc_offset tc) sch) = tc_schema tc))"

definition of_type :: "Value \<Rightarrow> TypeId \<Rightarrow> bool" where
  "of_type v ty = (v = VNull \<or> getType v = ty)"

text \<open>
  The parameters from number \<open>n\<close> on have the types of \<open>ptys\<close>, and the values an expression can have on a row for such parameters.
\<close>

definition fit_params :: "nat \<Rightarrow> TypeId list \<Rightarrow> Value list \<Rightarrow> bool" where
  "fit_params n ptys ps = (\<forall>i. n \<le> i \<longrightarrow> i < length ptys \<longrightarrow> i < length ps \<and> of_type (ps ! i) (ptys ! i))"

definition gives :: "Schema \<Rightarrow> nat \<Rightarrow> TypeId list \<Rightarrow> Expression \<Rightarrow> TypeId \<Rightarrow> bool" where
  "gives sch n ptys e ty = (\<forall>ps vs t v. fit_params n ptys ps \<longrightarrow> encodes sch vs t \<longrightarrow>
     evaluateJoin (bindParameters ps e) (Some (t, sch)) None = Inr v \<longrightarrow> of_type v ty)"

lemma givesI: "(\<And>ps vs t v. fit_params n ptys ps \<Longrightarrow> encodes sch vs t \<Longrightarrow> evaluateJoin (bindParameters ps e) (Some (t, sch)) None = Inr v \<Longrightarrow> of_type v ty) \<Longrightarrow>
    gives sch n ptys e ty"
  by (simp add: gives_def)

lemma givesD: "gives sch n ptys e ty \<Longrightarrow> fit_params n ptys ps \<Longrightarrow> encodes sch vs t \<Longrightarrow>
    evaluateJoin (bindParameters ps e) (Some (t, sch)) None = Inr v \<Longrightarrow> of_type v ty"
  by (simp add: gives_def)

definition bound_ok :: "Schema \<Rightarrow> nat \<Rightarrow> TypeId list \<Rightarrow> BoundExpression \<Rightarrow> bool" where
  "bound_ok sch n ptys b = (gives sch n ptys (takeExpr b) (bound_type b) \<and>
     (\<forall>e ty i. b = BoundParameter e ty i \<longrightarrow> n \<le> i \<and> i < length ptys \<and> e = EParam i VNull False) \<and>
     (\<forall>i src. takeExpr b = EColumn i src \<longrightarrow> src = None))"

lemma gives_mono:
  assumes "gives sch n ptys e ty" "length ptys \<le> length ptys'" "\<forall>i. n \<le> i \<longrightarrow> i < length ptys \<longrightarrow> ptys' ! i = ptys ! i" "n' \<le> n"
  shows "gives sch n' ptys' e ty"
proof (rule givesI)
  fix ps vs t v assume "fit_params n' ptys' ps" and e: "encodes sch vs t" "evaluateJoin (bindParameters ps e) (Some (t, sch)) None = Inr v"
  then have "fit_params n ptys ps" using assms(2-4) unfolding fit_params_def by (metis order.trans order.strict_trans2)
  then show "of_type v ty" using givesD [OF assms(1) _ e] by simp
qed

lemma of_type_null [simp]: "of_type VNull ty"
  by (simp add: of_type_def)

lemma arith_of_type: "of_type x ty \<Longrightarrow> arith_eval op x y = Inr v \<Longrightarrow> of_type v ty"
  by (cases op) (auto simp: arith_eval_def arithmetic_defs value_simps checked_def of_type_def try_bind_Inr split: if_splits Value.splits)

lemma comp_of_type: "comp_eval op x y = Inr v \<Longrightarrow> of_type v TypeBoolean"
  by (cases op) (auto simp: comp_eval_def comparison_defs of_type_def getType_def split: if_splits)

lemma logic_of_type: "logic_eval op x y = Inr v \<Longrightarrow> of_type v TypeBoolean"
  by (cases op) (auto simp: logic_eval_def of_type_def getType_def try_bind_Inr split: if_splits)

lemma not_of_type: "not_eval x = Inr v \<Longrightarrow> of_type v TypeBoolean"
  by (auto simp: not_eval_def of_type_def getType_def try_bind_Inr split: if_splits)

lemma gives_arith: "gives sch n ptys a ty \<Longrightarrow> gives sch n ptys (EArith op a b) ty"
proof (rule givesI)
  fix ps vs t v assume a: "gives sch n ptys a ty" and p: "fit_params n ptys ps" "encodes sch vs t"
    and "evaluateJoin (bindParameters ps (EArith op a b)) (Some (t, sch)) None = Inr v"
  then obtain x y where "evaluateJoin (bindParameters ps a) (Some (t, sch)) None = Inr x" "arith_eval op x y = Inr v"
    by (auto simp: try_bind_Inr)
  then show "of_type v ty" using givesD [OF a p] arith_of_type by blast
qed

lemma gives_operations: "gives sch n ptys (EComp cop a b) TypeBoolean" "gives sch n ptys (ELogic lop a b) TypeBoolean" "gives sch n ptys (ENot a) TypeBoolean"
  unfolding gives_def by (auto simp: try_bind_Inr intro: comp_of_type logic_of_type not_of_type)

lemma gives_const: "of_type v ty \<Longrightarrow> gives sch n ptys (EConst v) ty"
  by (simp add: gives_def)

lemma gives_param: "n \<le> i \<Longrightarrow> i < length ptys \<Longrightarrow> gives sch n ptys (EParam i v f) (ptys ! i)"
  by (auto simp: gives_def fit_params_def param_eval_def)

lemma supported_type: "columnTypeToTypeId (col_type c) = Inr ty \<Longrightarrow> type_of_column c = ty \<and> ty \<noteq> TypeNull"
  by (auto simp: columnTypeToTypeId_def type_of_column_def split: ColumnType.splits)

lemma gives_column:
  assumes "i < length sch" "type_of_column (sch ! i) = ty"
  shows "gives sch n ptys (EColumn i None) ty"
  unfolding gives_def
proof (intro allI impI)
  fix ps vs t v assume e: "encodes sch vs t" and "evaluateJoin (bindParameters ps (EColumn i None)) (Some (t, sch)) None = Inr v"
  moreover have "i < length vs" "value_fits (sch ! i) (vs ! i)" using e assms(1) by (auto simp: encodes_def dest: list_all2_lengthD list_all2_nthD)
  ultimately have "v = vs ! i" using column_evaluate_encodes [OF e] by (simp add: deref_column_def)
  then show "of_type v ty" using \<open>value_fits _ _\<close> assms(2)
    by (auto simp: value_fits_def type_of_column_def of_type_def getType_def split: ColumnType.splits Value.splits)
qed

lemma find_column_sound:
  "find_column tab offset col cs i found = Inr (Some (j, nm, ty)) \<Longrightarrow>
   found = Some (j, nm, ty) \<or> (\<exists>k < length cs. j = offset + i + k \<and> nm = tab \<and> col_name (cs ! k) = col \<and> columnTypeToTypeId (col_type (cs ! k)) = Inr ty)"
proof (induction cs arbitrary: i found)
  case (Cons c cs)
  show ?case
  proof (cases "col_name c = col")
    case True
    then obtain ty' where "columnTypeToTypeId (col_type c) = Inr ty'" "find_column tab offset col cs (i + 1) (Some (offset + i, tab, ty')) = Inr (Some (j, nm, ty))"
      using Cons.prems by (auto simp: try_bind_Inr split: if_splits)
    then show ?thesis using Cons.IH [of "i + 1"] True by (cases "found = None") (fastforce simp: less_Suc_eq_0_disj)+
  next
    case False
    then show ?thesis using Cons.IH [of "i + 1" found] Cons.prems by (fastforce simp: less_Suc_eq_0_disj)
  qed
qed simp

lemma find_in_tables_sound:
  "find_in_tables tab col tcs tf found = Inr (tf', Some (j, nm, ty)) \<Longrightarrow>
   found = Some (j, nm, ty) \<or> (\<exists>tc \<in> set tcs. \<exists>k < length (tc_schema tc). j = tc_offset tc + k \<and> columnTypeToTypeId (col_type (tc_schema tc ! k)) = Inr ty)"
proof (induction tcs arbitrary: tf found)
  case (Cons tc tcs)
  show ?case
  proof (cases "tc_name tc = tab \<or> tc_alias tc = tab")
    case True
    then obtain f where f: "find_column (tc_name tc) (tc_offset tc) col (tc_schema tc) 0 found = Inr f" "find_in_tables tab col tcs True f = Inr (tf', Some (j, nm, ty))"
      using Cons.prems by (auto simp: try_bind_Inr)
    show ?thesis using Cons.IH [OF f(2)] find_column_sound [of "tc_name tc" "tc_offset tc" col "tc_schema tc" 0 found j nm ty] f(1) by auto
  next
    case False
    then show ?thesis using Cons.IH [of tf found] Cons.prems by auto
  qed
qed simp

lemma slice_nth:
  assumes "take (length ys) (drop m xs) = ys" "k < length ys"
  shows "m + k < length xs \<and> xs ! (m + k) = ys ! k"
proof -
  have "length ys = min (length ys) (length xs - m)" using arg_cong [OF assms(1), of length] by simp
  then have "m + k < length xs" using assms(2) by simp
  moreover have "ys ! k = drop m xs ! k" using assms by (metis nth_take)
  ultimately show ?thesis by simp
qed

lemma bound_column_ok:
  assumes "context_ok sch s" "bindColumnValue col tab s = Inr b"
  shows "bound_ok sch n ptys b"
proof -
  have c: "combined_schema s = Some sch" using assms by (auto simp: context_ok_def bindColumnValue_def)
  then obtain j nm ty where b: "b = BoundColumnRef (EColumn j None) ty nm col" and
    f: "if tab = [] then find_column [] 0 col sch 0 None = Inr (Some (j, nm, ty)) else \<exists>tf. find_in_tables tab col (ctx_tables s) False None = Inr (tf, Some (j, nm, ty))"
    using assms(2) by (auto simp: bindColumnValue_def try_bind_Inr split: if_splits option.splits)
  have "j < length sch \<and> columnTypeToTypeId (col_type (sch ! j)) = Inr ty"
  proof (cases "tab = []")
    case True
    then show ?thesis using f find_column_sound [of "[]" 0 col sch 0 None j nm ty] by auto
  next
    case False
    then obtain tc k where k: "tc \<in> set (ctx_tables s)" "k < length (tc_schema tc)" "j = tc_offset tc + k" "columnTypeToTypeId (col_type (tc_schema tc ! k)) = Inr ty"
      using f find_in_tables_sound [of tab col "ctx_tables s" False None] by auto
    have "take (length (tc_schema tc)) (drop (tc_offset tc) sch) = tc_schema tc" using assms(1) k(1) by (simp add: context_ok_def)
    from slice_nth [OF this k(2)] have "j < length sch" "sch ! j = tc_schema tc ! k" using k(3) by simp_all
    then show ?thesis using k(4) by simp
  qed
  then have "gives sch n ptys (EColumn j None) ty" using supported_type by (intro gives_column) auto
  then show ?thesis using b by (simp add: bound_ok_def)
qed

text \<open>What an operation of the binder leaves as it is.\<close>

definition keeps :: "Binder \<Rightarrow> Binder \<Rightarrow> bool" where
  "keeps s s' = (ctx_tables s' = ctx_tables s \<and> combined_schema s' = combined_schema s \<and>
     length (parameter_types s) \<le> length (parameter_types s') \<and> take (length (parameter_types s)) (parameter_types s') = parameter_types s)"

abbreviation params :: "Binder \<Rightarrow> nat" where
  "params s \<equiv> length (parameter_types s)"

lemma keeps_refl [simp]: "keeps s s"
  by (simp add: keeps_def)

lemma keeps_nth: "keeps s s' \<Longrightarrow> i < params s \<Longrightarrow> parameter_types s' ! i = parameter_types s ! i"
  unfolding keeps_def by (metis nth_take)

lemma keeps_trans: "keeps s s1 \<Longrightarrow> keeps s1 s2 \<Longrightarrow> keeps s s2"
  unfolding keeps_def by (metis order.trans min.absorb1 take_take)

lemma keeps_context: "keeps s s' \<Longrightarrow> context_ok sch s \<Longrightarrow> context_ok sch s'"
  by (simp add: keeps_def context_ok_def)

lemma bound_ok_mono:
  assumes "bound_ok sch n (parameter_types s) b" "keeps s s'" "n' \<le> n"
  shows "bound_ok sch n' (parameter_types s') b"
proof -
  have l: "params s \<le> params s'" using assms(2) by (simp add: keeps_def)
  have "gives sch n' (parameter_types s') (takeExpr b) (bound_type b)"
    using assms(1) keeps_nth [OF assms(2)] by (intro gives_mono [OF _ l _ assms(3)]) (auto simp: bound_ok_def)
  then show ?thesis using assms(1,3) l unfolding bound_ok_def by (metis order.trans order.strict_trans2)
qed

lemma bound_okI: "gives sch n ptys (takeExpr b) (bound_type b) \<Longrightarrow> \<not> is_param b \<Longrightarrow> (\<And>i src. takeExpr b \<noteq> EColumn i src) \<Longrightarrow> bound_ok sch n ptys b"
  by (simp add: bound_ok_def is_param_def split: BoundExpression.splits)

lemma set_param_keeps:
  assumes "bound_ok sch (params s) (parameter_types s1) b" "keeps s s1" "set_param_type b ty s1 = (Inr b', s2)"
  shows "keeps s s2" "length (parameter_types s2) = length (parameter_types s1)"
    "is_param b \<Longrightarrow> bound_ok sch (params s) (parameter_types s2) b' \<and> bound_type b' = ty" "is_param b' = is_param b"
    "ctx_tables s2 = ctx_tables s1" "combined_schema s2 = combined_schema s1"
    "\<forall>j < params s. parameter_types s2 ! j = parameter_types s1 ! j"
proof -
  show "keeps s s2" "length (parameter_types s2) = length (parameter_types s1)" "is_param b' = is_param b"
      "ctx_tables s2 = ctx_tables s1" "combined_schema s2 = combined_schema s1" "\<forall>j < params s. parameter_types s2 ! j = parameter_types s1 ! j"
    using assms by (auto simp: set_param_type_def keeps_def bound_ok_def is_param_def split: BoundExpression.splits)
  assume "is_param b"
  then obtain e t i where b: "b = BoundParameter e t i" by (auto simp: is_param_def split: BoundExpression.splits)
  then have i: "params s \<le> i" "i < params s1" "e = EParam i VNull False" using assms(1) by (auto simp: bound_ok_def)
  have "b' = BoundParameter e ty i" "parameter_types s2 = (parameter_types s1)[i := ty]" using assms(3) b by (auto simp: set_param_type_def)
  then show "bound_ok sch (params s) (parameter_types s2) b' \<and> bound_type b' = ty"
    using i gives_param [of "params s" i "(parameter_types s1)[i := ty]" sch VNull False] by (simp add: bound_ok_def)
qed

lemma binary_expression_ok: "gives sch n ptys (takeExpr l) (bound_type l) \<Longrightarrow> bound_ok sch n ptys (binary_expression op l r)"
  by (rule bound_okI; cases op) (auto simp: is_param_def intro: gives_arith gives_operations)

lemma bindBinary_ok:
  assumes l: "bound_ok sch (params s) (parameter_types s1) l" "keeps s s1" and r: "bound_ok sch (params s1) (parameter_types s2) r" "keeps s1 s2"
    and b: "bindBinary op l r s2 = (Inr b, s3)"
  shows "keeps s s3 \<and> bound_ok sch (params s) (parameter_types s3) b"
proof -
  have s2: "keeps s s2" by (rule keeps_trans [OF l(2) r(2)])
  have l2: "bound_ok sch (params s) (parameter_types s2) l" by (rule bound_ok_mono [OF l(1) r(2) order.refl])
  obtain l' sl where l': "(if is_param l \<and> \<not> is_param r then set_param_type l (bound_type r) else bound l) s2 = (Inr l', sl)"
      and rest: "then_bind (if is_param r \<and> \<not> is_param l' then set_param_type r (bound_type l') else bound r) (\<lambda>r.
        then_bind (ensure (\<not> (bound_type l' \<noteq> bound_type r \<and> bound_type l' \<noteq> TypeNull \<and> bound_type r \<noteq> TypeNull)) ''Type mismatch in binary expression'')
          (\<lambda>_. bound (binary_expression op l' r))) sl = (Inr b, s3)"
    using b by (auto simp: bindBinary_def then_bind_Inr)
  obtain r' where r': "(if is_param r \<and> \<not> is_param l' then set_param_type r (bound_type l') else bound r) sl = (Inr r', s3)" "b = binary_expression op l' r'"
    using rest by (auto simp: then_bind_Inr)
  show ?thesis
  proof (cases "is_param l \<and> \<not> is_param r")
    case True
    then have set: "set_param_type l (bound_type r) s2 = (Inr l', sl)" "sl = s3" using l' r'(1) by (auto simp: bound_def)
    have "keeps s s3" "bound_ok sch (params s) (parameter_types s3) l'" using set_param_keeps(1,3) [OF l2 s2 set(1)] True set(2) by auto
    then show ?thesis using r'(2) binary_expression_ok by (auto simp: bound_ok_def)
  next
    case False
    then have ls: "l' = l" "sl = s2" using l' by (auto simp: bound_def)
    have k: "keeps s1 s3"
    proof (cases "is_param r \<and> \<not> is_param l'")
      case True
      then show ?thesis using r' set_param_keeps(1) [OF r] ls by auto
    next
      case False
      then show ?thesis using r'(1) r(2) ls by (auto simp: bound_def)
    qed
    have "bound_ok sch (params s) (parameter_types s3) l" by (rule bound_ok_mono [OF l(1) k order.refl])
    then show ?thesis using r'(2) ls keeps_trans [OF l(2) k] binary_expression_ok by (auto simp: bound_ok_def)
  qed
qed

lemma bindConstant_ok: "bindConstant ty v = Inr b \<Longrightarrow> bound_ok sch n ptys b"
  by (auto simp: bindConstant_def try_bind_Inr of_type_def getType_def is_param_def split: ConstantType.splits intro!: bound_okI gives_const)

lemma bindUnary_ok:
  assumes "bindUnary op c = Inr b" "bound_ok sch n ptys c"
  shows "bound_ok sch n ptys b"
proof -
  have "gives sch n ptys (EArith Subtract (EConst (VInt 0)) e) TypeInteger" for e
    by (intro gives_arith gives_const) (simp add: of_type_def getType_def)
  moreover have "gives sch n ptys (EArith Subtract (EConst (VInt 0)) e) TypeNull" if "gives sch n ptys e TypeNull" for e
  proof (rule givesI)
    fix ps vs t v assume p: "fit_params n ptys ps" "encodes sch vs t" and "evaluateJoin (bindParameters ps (EArith Subtract (EConst (VInt 0)) e)) (Some (t, sch)) None = Inr v"
    then obtain y where y: "evaluateJoin (bindParameters ps e) (Some (t, sch)) None = Inr y" "arith_eval Subtract (VInt 0) y = Inr v" by (auto simp: try_bind_Inr)
    then have "y = VNull" using givesD [OF that p y(1)] by (cases y) (auto simp: of_type_def getType_def)
    then show "of_type v TypeNull" using y(2) by (simp add: arith_eval_def value_subtract_def isNull_def getType_def of_type_def)
  qed
  ultimately have "op \<noteq> OpPlus \<Longrightarrow> ?thesis" using assms
    by (auto simp: bindUnary_def is_param_def bound_ok_def [of sch n ptys c] split: UnaryOp.splits if_splits intro!: bound_okI gives_operations)
  moreover have "op = OpPlus \<Longrightarrow> b = c" using assms(1) by (simp add: bindUnary_def split: if_splits)
  ultimately show ?thesis using assms(2) by blast
qed

lemma bindExpression_ok:
  "bindExpression e s = (Inr b, s') \<Longrightarrow> context_ok sch s \<Longrightarrow> keeps s s' \<and> bound_ok sch (params s) (parameter_types s') b"
proof (induction e arbitrary: s b s' rule: bindExpression.induct)
  case 1
  then have "b = BoundParameter (EParam (params s) VNull False) TypeNull (params s)" "s' = s\<lparr>parameter_types := parameter_types s @ [TypeNull]\<rparr>"
    by (auto simp: bindParameter_def Let_def)
  then show ?case using gives_param [of "params s" "params s" "parameter_types s @ [TypeNull]" sch VNull False] by (simp add: keeps_def bound_ok_def)
next
  case (2 ty v)
  then show ?case using bindConstant_ok by auto
next
  case (3 col tab)
  then show ?case using bound_column_ok by auto
next
  case (4 op l r)
  then obtain l' s1 r' s2 where l: "bindExpression l s = (Inr l', s1)" and r: "bindExpression r s1 = (Inr r', s2)" and b: "bindBinary op l' r' s2 = (Inr b, s')"
    by (auto simp: then_bind_Inr)
  have L: "keeps s s1" "bound_ok sch (params s) (parameter_types s1) l'" using 4(1) [OF l 4(4)] by auto
  have "keeps s1 s2" "bound_ok sch (params s1) (parameter_types s2) r'" using 4(2) [OF r keeps_context [OF L(1) 4(4)]] by auto
  then show ?case using bindBinary_ok [OF L(2,1) _ _ b] by simp
next
  case (5 op x)
  then show ?case using bindUnary_ok by (fastforce simp: then_bind_Inr)
next
  case (6 k)
  then show ?case by (auto simp: bindAggregate_def Let_def is_param_def gives_def intro!: bound_okI)
next
  case (7 k x)
  then show ?case by (fastforce simp: then_bind_Inr bindAggregate_def Let_def is_param_def gives_def intro!: bound_okI)
qed simp

lemma bound_evaluate:
  assumes "bound_ok sch 0 ptys b" "fit_params 0 ptys ps" "encodes sch vs t" "evaluate (bindParameters ps (takeExpr b)) t sch = Inr v"
  shows "of_type v (bound_type b)"
proof -
  have "evaluateJoin (bindParameters ps (takeExpr b)) (Some (t, sch)) None = Inr v"
    using assms(1,4) by (cases "takeExpr b") (auto simp: evaluate_def deref_column_def bound_ok_def split: if_splits)
  then show ?thesis using assms by (auto simp: bound_ok_def intro: givesD)
qed

text \<open>
  C22. The binder is a sound type checker: if it accepts an expression on the columns of a schema, then on every row of the schema, with
  values of the inferred types for the parameters, the expression it builds can only give NULL or a value of the type it reports.
\<close>

theorem binder_type_sound:
  assumes "bindExpression e s = (Inr b, s')" "context_ok sch s" "parameter_types s = []"
    and "list_all2 of_type ps (parameter_types s')" "encodes sch vs t" "evaluate (bindParameters ps (takeExpr b)) t sch = Inr v"
  shows "v = VNull \<or> getType v = bound_type b"
proof -
  have ok: "bound_ok sch 0 (parameter_types s') b" using bindExpression_ok [OF assms(1,2)] assms(3) by simp
  have "fit_params 0 (parameter_types s') ps" using assms(4) by (auto simp: fit_params_def list_all2_conv_all_nth)
  then have "of_type v (bound_type b)" using bound_evaluate [OF ok _ assms(5,6)] by simp
  then show ?thesis by (simp add: of_type_def)
qed

theorem binder_type_sound_witness:
  "\<exists>b s' v t. bindExpression (ABinary OpAdd (AColumn ''a'' []) AParameter) (mk_Binder\<lparr>combined_schema := Some sample_schema\<rparr>) = (Inr b, s') \<and>
     evaluate (bindParameters [VInt 1] (takeExpr b)) t sample_schema = Inr v \<and> (v = VNull \<or> getType v = bound_type b)"
proof -
  let ?s = "mk_Binder\<lparr>combined_schema := Some sample_schema\<rparr>" and ?e = "ABinary OpAdd (AColumn ''a'' []) AParameter"
  let ?b = "BoundArithmetic (EArith Add (EColumn 0 None) (EParam 0 VNull False)) TypeInteger"
  let ?t = "row_bytes [VInt 7, VStr [104, 105]]"
  have b: "bindExpression ?e ?s = (Inr ?b, ?s\<lparr>parameter_types := [TypeInteger]\<rparr>)"
    by (simp add: then_bind_def bindColumnValue_def bytes_of_def code_def mk_Binder_def sample_schema_def columnTypeToTypeId_def bindParameter_def bindBinary_def
        is_param_def set_param_type_def bound_def ensure_def)
  have e: "encodes sample_schema [VInt 7, VStr [104, 105]] ?t" using build_row_encodes [OF sample_row_fits] by simp
  have v: "evaluate (bindParameters [VInt 1] (takeExpr ?b)) ?t sample_schema = Inr (VInt 8)"
    using column_evaluate_encodes [OF e, of 0]
    by (simp add: evaluate_def deref_column_def param_eval_def arith_eval_def value_add_def isNull_def getType_def getAsInteger_def checked_def int32_def)
  have "context_ok sample_schema ?s" by (simp add: context_ok_def mk_Binder_def)
  from binder_type_sound [OF b this _ _ e v] b v show ?thesis by (auto simp: mk_Binder_def of_type_def getType_def)
qed

subsection \<open>Names of columns\<close>

text \<open>The columns a name can stand for, with the table and the type.\<close>

fun matching :: "name \<Rightarrow> nat \<Rightarrow> name \<Rightarrow> Schema \<Rightarrow> (nat \<times> name \<times> TypeId) list" where
  "matching tab i col [] = []"
| "matching tab i col (c # cs) = (if col_name c = col then [(i, tab, type_of_column c)] else []) @ matching tab (i + 1) col cs"

definition candidates :: "name \<Rightarrow> name \<Rightarrow> TableContext list \<Rightarrow> Schema \<Rightarrow> (nat \<times> name \<times> TypeId) list" where
  "candidates col tab tcs sch = (if tab = [] then matching [] 0 col sch
     else concat (map (\<lambda>tc. matching (tc_name tc) (tc_offset tc) col (tc_schema tc)) (filter (\<lambda>tc. tc_name tc = tab \<or> tc_alias tc = tab) tcs)))"

definition unique :: "exn \<Rightarrow> 'a list \<Rightarrow> exn + 'a option" where
  "unique err xs = (case xs of [] \<Rightarrow> Inr None | [x] \<Rightarrow> Inr (Some x) | _ \<Rightarrow> Inl err)"

definition supported :: "Schema \<Rightarrow> bool" where
  "supported sch = list_all (\<lambda>c. col_type c \<in> {ColInteger, ColBoolean, ColVarchar}) sch"

definition the_list :: "'a option \<Rightarrow> 'a list" where
  "the_list x = (case x of None \<Rightarrow> [] | Some y \<Rightarrow> [y])"

lemma supported_column: "col_type c \<in> {ColInteger, ColBoolean, ColVarchar} \<Longrightarrow> columnTypeToTypeId (col_type c) = Inr (type_of_column c)"
  by (auto simp: columnTypeToTypeId_def type_of_column_def)

lemma unique_more: "unique err (x # y # zs) = Inl err" "unique err [x] = Inr (Some x)" "unique err [] = Inr None"
  by (simp_all add: unique_def)

lemma find_column_unique:
  "supported cs \<Longrightarrow> find_column tab offset col cs i found = unique (binder_error (''Ambiguous column: '' @ text_of col)) (the_list found @ matching tab (offset + i) col cs)"
proof (induction cs arbitrary: i found)
  case Nil
  then show ?case by (cases found) (simp_all add: the_list_def unique_more)
next
  case (Cons c cs)
  then have c: "columnTypeToTypeId (col_type c) = Inr (type_of_column c)" "supported cs" using supported_column by (auto simp: supported_def)
  show ?case using Cons.IH [OF c(2), of "i + 1"] c(1) by (cases found) (simp_all add: the_list_def unique_more)
qed

lemma unique_the_list: "unique err xs = Inr f \<Longrightarrow> the_list f = xs"
  by (cases xs rule: remdups_adj.cases) (auto simp: unique_def the_list_def)

lemma unique_append: "unique err xs = Inl e \<Longrightarrow> unique err (xs @ ys) = Inl e"
  by (cases xs rule: remdups_adj.cases) (auto simp: unique_def)

lemma find_in_tables_unique:
  assumes "\<forall>tc \<in> set tcs. supported (tc_schema tc)" "tab \<noteq> []"
  defines "here \<equiv> \<lambda>tc. tc_name tc = tab \<or> tc_alias tc = tab"
  shows "find_in_tables tab col tcs tf found = try_bind (unique (binder_error (''Ambiguous column: '' @ text_of col)) (the_list found @
     concat (map (\<lambda>tc. matching (tc_name tc) (tc_offset tc) col (tc_schema tc)) (filter here tcs)))) (\<lambda>f. Inr (tf \<or> list_ex here tcs, f))"
  using assms(1)
proof (induction tcs arbitrary: tf found)
  case Nil
  then show ?case by (cases found) (simp_all add: the_list_def unique_more)
next
  case (Cons tc tcs)
  let ?e = "binder_error (''Ambiguous column: '' @ text_of col)"
  have f: "find_column (tc_name tc) (tc_offset tc) col (tc_schema tc) 0 found = unique ?e (the_list found @ matching (tc_name tc) (tc_offset tc) col (tc_schema tc))"
    using find_column_unique Cons.prems by simp
  show ?case
  proof (cases "here tc")
    case True
    show ?thesis
    proof (cases "unique ?e (the_list found @ matching (tc_name tc) (tc_offset tc) col (tc_schema tc))")
      case (Inl x)
      then show ?thesis using True f unique_append [OF Inl] by (simp add: here_def)
    next
      case (Inr g)
      then show ?thesis using True f Cons unique_the_list [OF Inr] by (simp add: here_def)
    qed
  next
    case False
    then show ?thesis using Cons by (simp add: here_def)
  qed
qed

text \<open>
  C24. Resolution of names: a column name, with or without a table, is bound exactly when one column in scope has this name
  (under a table with this name or alias), and then to its position in the combined schema and its type; otherwise the
  exception says whether the table or the column is unknown or the name is ambiguous.
\<close>

theorem column_resolution:
  assumes "combined_schema s = Some sch" "supported sch" "\<forall>tc \<in> set (ctx_tables s). supported (tc_schema tc)"
  shows "bindColumnValue col tab s =
    (if tab \<noteq> [] \<and> \<not> list_ex (\<lambda>tc. tc_name tc = tab \<or> tc_alias tc = tab) (ctx_tables s) then Inl (binder_error (''Unknown table or alias: '' @ text_of tab))
     else case candidates col tab (ctx_tables s) sch of
       [] \<Rightarrow> Inl (binder_error (''Unknown column: '' @ text_of col))
     | [(i, t, ty)] \<Rightarrow> Inr (BoundColumnRef (EColumn i None) ty t col)
     | _ \<Rightarrow> Inl (binder_error (''Ambiguous column: '' @ text_of col)))"
proof (cases "tab = []")
  case True
  then show ?thesis using assms(1) find_column_unique [OF assms(2), of "[]" 0 col 0 None]
    by (cases "matching [] 0 col sch" rule: remdups_adj.cases) (auto simp: bindColumnValue_def candidates_def unique_def the_list_def)
next
  case False
  show ?thesis
  proof (cases "list_ex (\<lambda>tc. tc_name tc = tab \<or> tc_alias tc = tab) (ctx_tables s)")
    case True
    have "find_in_tables tab col (ctx_tables s) False None =
        try_bind (unique (binder_error (''Ambiguous column: '' @ text_of col)) (candidates col tab (ctx_tables s) sch)) (\<lambda>f. Inr (True, f))"
      using find_in_tables_unique [OF assms(3) False, of col False None] True False by (simp add: candidates_def the_list_def)
    then show ?thesis using True False assms(1)
      by (cases "candidates col tab (ctx_tables s) sch" rule: remdups_adj.cases) (simp_all add: bindColumnValue_def unique_more split: prod.splits)
  next
    case none: False
    then have "filter (\<lambda>tc. tc_name tc = tab \<or> tc_alias tc = tab) (ctx_tables s) = []" by (auto simp: filter_empty_conv list_ex_iff)
    then show ?thesis using False none assms(1) find_in_tables_unique [OF assms(3) False, of col False None]
      by (simp add: bindColumnValue_def unique_def the_list_def)
  qed
qed

theorem column_resolution_witness:
  "bindColumnValue [97] [116] (mk_Binder\<lparr>combined_schema := Some sample_schema,
     ctx_tables := [\<lparr>tc_name = [116], tc_alias = [], tc_schema = sample_schema, tc_offset = 0\<rparr>]\<rparr>) = Inr (BoundColumnRef (EColumn 0 None) TypeInteger [116] [97])"
proof -
  have "supported sample_schema" by (simp add: supported_def sample_schema_def)
  then show ?thesis
    using column_resolution [of "mk_Binder\<lparr>combined_schema := Some sample_schema,
      ctx_tables := [\<lparr>tc_name = [116], tc_alias = [], tc_schema = sample_schema, tc_offset = 0\<rparr>]\<rparr>" sample_schema "[97]" "[116]"]
    by (simp add: candidates_def sample_schema_def type_of_column_def)
qed

end
