(* ===== verification/Planner.thy ===== *)
theory Planner
  imports Binder
begin

text \<open>
  The logical planner: \<^verbatim>\<open>src/planner/planner.cpp\<close>.  It turns a bound statement into a logical plan; every
  bound expression is moved out of the statement once.
\<close>

subsection \<open>Names and types of columns\<close>

function decimal :: "nat \<Rightarrow> string" where
  "decimal n = (if n < 10 then [char_of (48 + n)] else decimal (n div 10) @ [char_of (48 + n mod 10)])"
  by auto
termination by (relation "measure id") auto

declare decimal.simps [simp del]

definition numbered :: "string \<Rightarrow> nat \<Rightarrow> name" where
  "numbered s n = bytes_of (s @ decimal n)"

definition typeIdToColumnType :: "TypeId \<Rightarrow> exn + ColumnType" where
  "typeIdToColumnType ty = (case ty of TypeInteger \<Rightarrow> Inr ColInteger | TypeBoolean \<Rightarrow> Inr ColBoolean | TypeVarchar \<Rightarrow> Inr ColVarchar
     | _ \<Rightarrow> Inl (RuntimeError ''Unsupported TypeId to ColumnType conversion''))"

definition new_column :: "name \<Rightarrow> TypeId \<Rightarrow> exn + Column" where
  "new_column nm ty = try_bind (typeIdToColumnType ty) (\<lambda>ct. Inr \<lparr>col_name = nm, col_type = ct\<rparr>)"

definition take_ptr :: "BoundExpression option \<Rightarrow> Expression" where
  "take_ptr b = (case b of None \<Rightarrow> ENullPtr | Some b \<Rightarrow> takeExpr b)"

subsection \<open>Tables and joins\<close>

definition plan_join :: "Schema \<Rightarrow> Expression \<Rightarrow> LogicalPlanNode \<Rightarrow> LogicalPlanNode \<Rightarrow> exn + LogicalPlanNode" where
  "plan_join sch p l r = (case p of
     EComp Equal a b \<Rightarrow> try_bind (clone a) (\<lambda>a'. try_bind (clone b) (\<lambda>b'. Inr (LHashJoin sch a' b' l r)))
   | _ \<Rightarrow> Inr (LNestedLoopJoin sch p l r))"

fun planTableReference :: "BoundTableReference \<Rightarrow> exn + LogicalPlanNode" where
  "planTableReference (BoundBaseTable nm al sch) = Inr (LSeqScan sch nm al ENullPtr ENullPtr ENullPtr)"
| "planTableReference (BoundJoinTable l r cond) = try_bind (planTableReference l) (\<lambda>l'. try_bind (planTableReference r) (\<lambda>r'.
     plan_join (getOutputSchema l' @ getOutputSchema r') (take_ptr cond) l' r'))"

subsection \<open>Aggregation\<close>

fun group_columns :: "nat \<Rightarrow> BoundExpression list \<Rightarrow> exn + Schema" where
  "group_columns i [] = Inr []"
| "group_columns i (b # bs) = try_bind (new_column (numbered ''group_by_'' i) (bound_type b)) (\<lambda>c.
     try_bind (group_columns (i + 1) bs) (\<lambda>cs. Inr (c # cs)))"

text \<open>
  The aggregates of the select list, one for each kind: the expressions, the kinds and the columns found so far are extended.
\<close>

fun collect_aggregates :: "BoundExpression list \<Rightarrow> Expression list \<Rightarrow> AggregateType list \<Rightarrow> Schema \<Rightarrow> exn + Expression list \<times> AggregateType list \<times> Schema" where
  "collect_aggregates [] aggs tys cols = Inr (aggs, tys, cols)"
| "collect_aggregates (BoundAggregate child ty k # bs) aggs tys cols =
     (if k \<in> set tys then collect_aggregates bs aggs tys cols
      else try_bind (if child = ENullPtr then Inr ENullPtr else clone child) (\<lambda>child'.
           try_bind (new_column (numbered ''agg_'' (length aggs)) ty) (\<lambda>c.
           collect_aggregates bs (aggs @ [child']) (tys @ [k]) (cols @ [c]))))"
| "collect_aggregates (b # bs) aggs tys cols = collect_aggregates bs aggs tys cols"

definition plan_aggregation :: "BoundSelect \<Rightarrow> LogicalPlanNode \<Rightarrow> exn + LogicalPlanNode" where
  "plan_aggregation st node = try_bind (group_columns 0 (bs_group_bys st)) (\<lambda>gcols.
     try_bind (collect_aggregates (bs_select_list st) [] [] gcols) (\<lambda>(aggs, tys, cols).
     Inr (LAggregation cols (map takeExpr (bs_group_bys st)) aggs tys node)))"

text \<open>The position of the first match, or zero.\<close>

fun position_of :: "('a \<Rightarrow> bool) \<Rightarrow> 'a list \<Rightarrow> nat option" where
  "position_of P [] = None"
| "position_of P (x # xs) = (if P x then Some 0 else map_option Suc (position_of P xs))"

definition or_zero :: "nat option \<Rightarrow> nat" where
  "or_zero i = (case i of None \<Rightarrow> 0 | Some i \<Rightarrow> i)"

text \<open>
  An aggregate or a grouped column as a column of the aggregation.  The node is cast to an aggregation node without a test.
\<close>

definition aggregate_column :: "LogicalPlanNode \<Rightarrow> AggregateType \<Rightarrow> exn + Expression" where
  "aggregate_column node k = (case node of
     LAggregation _ gbs _ tys _ \<Rightarrow> Inr (EColumn (length gbs + or_zero (position_of (\<lambda>t. t = k) tys)) None)
   | _ \<Rightarrow> Inl UndefinedBehaviour)"

definition grouped_column :: "BoundExpression list \<Rightarrow> BoundExpression \<Rightarrow> Expression" where
  "grouped_column groups b = EColumn (or_zero (position_of (same_column b) groups)) None"

definition rewrite_output :: "LogicalPlanNode \<Rightarrow> BoundExpression list \<Rightarrow> BoundExpression \<Rightarrow> exn + Expression" where
  "rewrite_output node groups b = (case b of
     BoundAggregate _ _ k \<Rightarrow> aggregate_column node k
   | BoundColumnRef _ _ _ _ \<Rightarrow> Inr (grouped_column groups b)
   | _ \<Rightarrow> Inr (takeExpr b))"

subsection \<open>SELECT\<close>

definition column_title :: "nat \<Rightarrow> BoundExpression \<Rightarrow> name" where
  "column_title i b = (case b of BoundColumnRef _ _ _ col \<Rightarrow> col | _ \<Rightarrow> numbered ''expr'' i)"

definition is_grouped :: "BoundSelect \<Rightarrow> bool" where
  "is_grouped st = (list_ex is_aggregate (bs_select_list st) \<or> bs_group_bys st \<noteq> [])"

fun plan_items :: "BoundSelect \<Rightarrow> LogicalPlanNode \<Rightarrow> nat \<Rightarrow> BoundExpression list \<Rightarrow> exn + Schema \<times> Expression list" where
  "plan_items st node i [] = Inr ([], [])"
| "plan_items st node i (b # bs) = try_bind (new_column (column_title i b) (bound_type b)) (\<lambda>c.
     try_bind (if is_grouped st then rewrite_output node (bs_group_bys st) b else Inr (takeExpr b)) (\<lambda>e.
     try_bind (plan_items st node (i + 1) bs) (\<lambda>(cs, es). Inr (c # cs, e # es))))"

definition plan_filter :: "BoundExpression option \<Rightarrow> LogicalPlanNode \<Rightarrow> LogicalPlanNode" where
  "plan_filter wh node = (case wh of None \<Rightarrow> node | Some b \<Rightarrow> LFilter (getOutputSchema node) (takeExpr b) node)"

definition plan_having :: "BoundSelect \<Rightarrow> LogicalPlanNode \<Rightarrow> exn + LogicalPlanNode" where
  "plan_having st node = (case bs_having st of None \<Rightarrow> Inr node
     | Some b \<Rightarrow> try_bind (rewrite_output node (bs_group_bys st) b) (\<lambda>e. Inr (LHaving (getOutputSchema node) e node)))"

definition plan_projection :: "BoundSelect \<Rightarrow> LogicalPlanNode \<Rightarrow> exn + LogicalPlanNode" where
  "plan_projection st node = (if bs_select_list st = [] then Inr node
     else try_bind (plan_items st node 0 (bs_select_list st)) (\<lambda>(sch, es). Inr (LProjection sch es node)))"

definition plan_order :: "BoundSelect \<Rightarrow> LogicalPlanNode \<Rightarrow> LogicalPlanNode" where
  "plan_order st node = (if bs_order_by st = [] then node
     else LOrderBy (getOutputSchema node) (map (\<lambda>(b, asc). (takeExpr b, asc)) (bs_order_by st)) node)"

definition plan_limit :: "BoundSelect \<Rightarrow> LogicalPlanNode \<Rightarrow> LogicalPlanNode" where
  "plan_limit st node = (if bs_limit st = None \<and> bs_offset st = None then node
     else LLimit (getOutputSchema node) (take_ptr (bs_limit st)) (take_ptr (bs_offset st)) node)"

definition planSelect :: "BoundSelect \<Rightarrow> exn + LogicalPlanNode" where
  "planSelect st =
     try_bind (case bs_table st of Some t \<Rightarrow> planTableReference t | None \<Rightarrow> Inr (LValues [] [])) (\<lambda>n0.
     let n1 = plan_filter (bs_where st) n0 in
     try_bind (if is_grouped st then plan_aggregation st n1 else Inr n1) (\<lambda>n2.
     try_bind (plan_having st n2) (\<lambda>n3.
     try_bind (plan_projection st n3) (\<lambda>n4.
     Inr (plan_limit st (plan_order st n4))))))"

subsection \<open>Other statements\<close>

definition affected_rows :: Schema where
  "affected_rows = [\<lparr>col_name = bytes_of ''affected_rows'', col_type = ColInteger\<rparr>]"

definition planInsert :: "CatalogManager \<Rightarrow> name \<Rightarrow> BoundExpression list list \<Rightarrow> exn + LogicalPlanNode" where
  "planInsert cat nm rows = try_bind (table_of_name cat nm) (\<lambda>ti.
     Inr (LInsert affected_rows nm (LValues (ti_schema ti) (map (map takeExpr) rows))))"

definition planUpdate :: "CatalogManager \<Rightarrow> name \<Rightarrow> (name \<times> BoundExpression) list \<Rightarrow> BoundExpression option \<Rightarrow> exn + LogicalPlanNode" where
  "planUpdate cat nm sets wh = try_bind (table_of_name cat nm) (\<lambda>ti.
     Inr (LUpdate affected_rows nm (map (\<lambda>(col, b). (col, takeExpr b)) sets)
       (plan_filter wh (LSeqScan (ti_schema ti) nm [] ENullPtr ENullPtr ENullPtr))))"

definition planDelete :: "CatalogManager \<Rightarrow> name \<Rightarrow> BoundExpression option \<Rightarrow> exn + LogicalPlanNode" where
  "planDelete cat nm wh = try_bind (table_of_name cat nm) (\<lambda>ti.
     Inr (LDelete affected_rows nm (plan_filter wh (LSeqScan (ti_schema ti) nm [] ENullPtr ENullPtr ENullPtr))))"

fun value_columns :: "nat \<Rightarrow> BoundExpression list \<Rightarrow> exn + Schema" where
  "value_columns i [] = Inr []"
| "value_columns i (b # bs) = try_bind (new_column (numbered ''val'' i) (bound_type b)) (\<lambda>c.
     try_bind (value_columns (i + 1) bs) (\<lambda>cs. Inr (c # cs)))"

definition planValues :: "BoundExpression list list \<Rightarrow> exn + LogicalPlanNode" where
  "planValues rows = try_bind (case rows of [] \<Rightarrow> Inr [] | row # _ \<Rightarrow> value_columns 0 row) (\<lambda>sch. Inr (LValues sch (map (map takeExpr) rows)))"

definition plan_statement :: "CatalogManager \<Rightarrow> BoundStatement \<Rightarrow> exn + LogicalPlanNode" where
  "plan_statement cat b = (case b of
     BoundSelectStatement st \<Rightarrow> planSelect st
   | BoundInsertStatement nm rows \<Rightarrow> planInsert cat nm rows
   | BoundUpdateStatement nm sets wh \<Rightarrow> planUpdate cat nm sets wh
   | BoundDeleteStatement nm wh \<Rightarrow> planDelete cat nm wh
   | BoundValuesStatement rows \<Rightarrow> planValues rows)"

subsection \<open>The numbering of columns\<close>

text \<open>The tables in scope are slices of the columns collected so far.\<close>

definition tables_in :: "Schema \<Rightarrow> Binder \<Rightarrow> bool" where
  "tables_in cols s = (\<forall>tc \<in> set (ctx_tables s). tc_offset tc + length (tc_schema tc) \<le> length cols \<and>
     take (length (tc_schema tc)) (drop (tc_offset tc) cols) = tc_schema tc)"

lemma tables_in_more: "tables_in cols s \<Longrightarrow> tables_in (cols @ extra) s"
  by (auto simp: tables_in_def)

lemma bind_condition_ok:
  assumes "bind_condition msg e s = (Inr b, s')" "context_ok sch s"
  shows "keeps s s' \<and> bound_ok sch (params s) (parameter_types s') b \<and> bound_type b = TypeBoolean"
  using assms bindExpression_ok [of e s b s' sch] by (auto simp: bind_condition_def then_bind_Inr)

lemma bind_optional_ok:
  assumes "bind_optional f x s = (Inr y, s')" "\<And>z b s2. f z s = (Inr b, s2) \<Longrightarrow> keeps s s2"
  shows "keeps s s'"
  using assms by (auto simp: bind_optional_def then_bind_Inr split: option.splits)

lemma plan_join_schema: "plan_join sch p l r = Inr n \<Longrightarrow> getOutputSchema n = sch"
  by (cases p) (auto simp: plan_join_def try_bind_Inr split: ComparisonType.splits)

lemma join_schema: "planTableReference (BoundJoinTable l r cond) = Inr n \<Longrightarrow>
    \<exists>l' r'. planTableReference l = Inr l' \<and> planTableReference r = Inr r' \<and> getOutputSchema n = getOutputSchema l' @ getOutputSchema r'"
  using plan_join_schema by (fastforce simp: try_bind_Inr)

lemma bindTableReference_columns:
  "bindTableReference cat t cols s = (Inr (t', cols'), s') \<Longrightarrow> tables_in cols s \<Longrightarrow>
   \<exists>extra. cols' = cols @ extra \<and> tables_in cols' s' \<and> params s \<le> params s' \<and> (\<forall>n. planTableReference t' = Inr n \<longrightarrow> getOutputSchema n = extra)"
proof (induction cat t cols arbitrary: s t' cols' s' rule: bindTableReference.induct)
  case (1 cat nm al cols)
  then obtain ti where "bind_table cat nm = Inr ti" and b: "t' = BoundBaseTable (bytes_of nm) (bytes_of al) (ti_schema ti)" "cols' = cols @ ti_schema ti"
    "s' = s\<lparr>ctx_tables := ctx_tables s @ [\<lparr>tc_name = bytes_of nm, tc_alias = bytes_of al, tc_schema = ti_schema ti, tc_offset = length cols\<rparr>]\<rparr>"
    by (auto simp: then_bind_Inr)
  have "tables_in cols' s'" using tables_in_more [OF 1(2), of "ti_schema ti"] b by (auto simp: tables_in_def)
  then show ?case using b by simp
next
  case (2 cat l r cond cols)
  obtain l' cols1 s1 r' s2 cond' where l: "bindTableReference cat l cols s = (Inr (l', cols1), s1)" and r: "bindTableReference cat r cols1 s1 = (Inr (r', cols'), s2)"
    and c: "bind_optional (bind_condition ''JOIN condition must be of boolean type'') cond (s2\<lparr>combined_schema := Some cols'\<rparr>) = (Inr cond', s')"
    and t': "t' = BoundJoinTable l' r' cond'"
    using 2(3) by (auto simp: then_bind_Inr)
  obtain more1 where m1: "cols1 = cols @ more1" "tables_in cols1 s1" "params s \<le> params s1" "\<forall>n. planTableReference l' = Inr n \<longrightarrow> getOutputSchema n = more1"
    using 2(1) [OF l 2(4)] by blast
  obtain more2 where m2: "cols' = cols1 @ more2" "tables_in cols' s2" "params s1 \<le> params s2" "\<forall>n. planTableReference r' = Inr n \<longrightarrow> getOutputSchema n = more2"
    using 2(2) [OF r m1(2)] by blast
  have ctx: "context_ok cols' (s2\<lparr>combined_schema := Some cols'\<rparr>)" using m2(2) by (auto simp: context_ok_def tables_in_def)
  have "keeps (s2\<lparr>combined_schema := Some cols'\<rparr>) s'" using bind_optional_ok [OF c] bind_condition_ok [OF _ ctx] by blast
  then have "tables_in cols' s'" "params s2 \<le> params s'" using m2(2) by (auto simp: keeps_def tables_in_def)
  moreover have "getOutputSchema n = more1 @ more2" if "planTableReference t' = Inr n" for n
    using join_schema [of l' r' cond' n] that m1(4) m2(4) t' by auto
  ultimately show ?case using m1 m2 by (intro exI [of _ "more1 @ more2"]) auto
qed

text \<open>After \<open>FROM\<close>, names are resolved in the schema of the plan for the tables.\<close>

lemma bind_from_context:
  assumes "bind_from cat (Some t) s = (Inr tab, s')" "ctx_tables s = []"
  obtains t' cols where "tab = Some t'" "context_ok cols s'" "\<And>n. planTableReference t' = Inr n \<Longrightarrow> getOutputSchema n = cols"
proof -
  obtain t' cols s1 where t: "bindTableReference cat t [] s = (Inr (t', cols), s1)" "tab = Some t'" "s' = s1\<lparr>combined_schema := Some cols\<rparr>"
    using assms(1) by (auto simp: bind_from_def then_bind_Inr set_schema_def)
  have "tables_in [] s" using assms(2) by (simp add: tables_in_def)
  from bindTableReference_columns [OF t(1) this] show ?thesis
    using t(2,3) by (intro that) (auto simp: context_ok_def tables_in_def)
qed

lemma bind_each_keeps:
  assumes "bind_each f xs s = (Inr ys, s')" "P s" "\<And>x s1 y s2. f x s1 = (Inr y, s2) \<Longrightarrow> P s1 \<Longrightarrow> keeps s1 s2" "\<And>s1 s2. keeps s1 s2 \<Longrightarrow> P s1 \<Longrightarrow> P s2"
  shows "keeps s s'"
  using assms(1,2)
proof (induction xs arbitrary: s ys)
  case (Cons x xs)
  then obtain y s1 ys' where s1: "f x s = (Inr y, s1)" "bind_each f xs s1 = (Inr ys', s')" by (auto simp: then_bind_Inr)
  have "keeps s s1" by (rule assms(3) [OF s1(1) Cons.prems(2)])
  then show ?case using Cons.IH [OF s1(2) assms(4) [OF _ Cons.prems(2)]] keeps_trans by blast
qed simp

lemma bind_item_keeps: "bind_item e s = (Inr bs, s') \<Longrightarrow> context_ok sch s \<Longrightarrow> keeps s s'"
  using bindExpression_ok [of e s _ s' sch] by (fastforce simp: bind_item_def then_bind_Inr split: if_splits option.splits)

lemma bind_order_item_keeps: "bind_order_item x s = (Inr b, s') \<Longrightarrow> context_ok sch s \<Longrightarrow> keeps s s'"
  using bindExpression_ok [of "fst x" s _ s' sch] by (cases x) (fastforce simp: bind_order_item_def then_bind_Inr)

text \<open>The states of the binder while it binds a query on the tables of \<open>n\<close>.\<close>

lemma bindSelect_states:
  assumes "bindSelect cat st mk_Binder = (Inr (BoundSelectStatement bs), s')" "bs_table bs = Some t" "planTableReference t = Inr n"
  obtains s1 items s2 s3 s4 where "context_ok (getOutputSchema n) s1" "bind_each bind_item (select_list st) s1 = (Inr items, s2)" "bs_select_list bs = concat items"
    "context_ok (getOutputSchema n) s3" "bind_optional (bind_condition ''WHERE clause must be of boolean type'') (select_where st) s3 = (Inr (bs_where bs), s4)"
    "keeps s2 s4" "\<And>b. bound_ok (getOutputSchema n) 0 (parameter_types s4) b \<Longrightarrow> bound_ok (getOutputSchema n) 0 (parameter_types s') b"
proof -
  obtain s1 items s2 groups s3 s4 hv s5 ob s6 lim s7 off s8
    where f: "bind_from cat (select_table st) (mk_Binder\<lparr>ctx_tables := []\<rparr>) = (Inr (Some t), s1)"
      and i: "bind_each bind_item (select_list st) s1 = (Inr items, s2)" "bs_select_list bs = concat items"
      and g: "bind_each bindExpression (group_by st) s2 = (Inr groups, s3)"
      and wh: "bind_optional (bind_condition ''WHERE clause must be of boolean type'') (select_where st) s3 = (Inr (bs_where bs), s4)"
      and h: "bind_optional (bind_having (group_by st)) (having_clause st) s4 = (Inr hv, s5)"
      and o: "bind_each bind_order_item (order_by st) s5 = (Inr ob, s6)"
      and l: "bind_optional bindExpression (select_limit st) s6 = (Inr lim, s7)" "bind_optional bindExpression (select_offset st) s7 = (Inr off, s8)"
      and s': "parameter_types s' = parameter_types s8"
    using assms(1,2) by (auto simp: bindSelect_def then_bind_Inr clear_tables_def clear_context_def)
  obtain tab where "select_table st = Some tab" using f by (cases "select_table st") (auto simp: bind_from_def then_bind_Inr set_schema_def)
  then obtain cols where c1: "context_ok cols s1" "getOutputSchema n = cols"
    using bind_from_context [of cat tab "mk_Binder\<lparr>ctx_tables := []\<rparr>" "Some t" s1] f assms(3) by auto
  have "keeps s1 s2" by (rule bind_each_keeps [where P = "context_ok cols", OF i(1) c1(1)]) (auto intro: bind_item_keeps keeps_context)
  then have c2: "context_ok cols s2" using c1 keeps_context by blast
  have k3: "keeps s2 s3" by (rule bind_each_keeps [where P = "context_ok cols", OF g c2]) (auto dest: bindExpression_ok intro: keeps_context)
  then have c3: "context_ok cols s3" using c2 keeps_context by blast
  have k4: "keeps s3 s4" using bind_optional_ok [OF wh] bind_condition_ok [OF _ c3] by fastforce
  then have c4: "context_ok cols s4" using c3 keeps_context by blast
  have k5: "keeps s4 s5" using bind_optional_ok [OF h] bind_condition_ok [OF _ c4] by (fastforce simp: bind_having_def then_bind_Inr)
  then have c5: "context_ok cols s5" using c4 keeps_context by blast
  have k6: "keeps s5 s6" by (rule bind_each_keeps [where P = "context_ok cols", OF o c5]) (auto intro: bind_order_item_keeps keeps_context)
  then have c6: "context_ok cols s6" using c5 keeps_context by blast
  have k7: "keeps s6 s7" using bind_optional_ok [OF l(1)] bindExpression_ok [OF _ c6] by blast
  then have c7: "context_ok cols s7" using c6 keeps_context by blast
  have "keeps s7 s8" using bind_optional_ok [OF l(2)] bindExpression_ok [OF _ c7] by blast
  then have "keeps s4 s8" using k5 k6 k7 keeps_trans by blast
  then show thesis using that [OF _ i _ wh] c1 c3 keeps_trans [OF k3 k4] bound_ok_mono [of cols 0 s4 _ s8 0] s' by simp
qed

lemma fit_all: "list_all2 of_type ps ptys \<Longrightarrow> fit_params 0 ptys ps"
  by (auto simp: fit_params_def list_all2_conv_all_nth)

text \<open>
  C23. Conditions of queries: if the binder accepts a query with a table and a WHERE clause, then the condition in the plan can only give
  NULL or a boolean on every row of the tables the plan reads, for parameters of the inferred types, so the filter never
  reads a value of another type.
\<close>

theorem where_is_boolean:
  assumes "bindSelect cat st mk_Binder = (Inr (BoundSelectStatement bs), s')" "bs_table bs = Some t" "bs_where bs = Some w" "planTableReference t = Inr n"
    and "list_all2 of_type ps (parameter_types s')" "encodes (getOutputSchema n) vs row"
    and "evaluate (bindParameters ps (takeExpr w)) row (getOutputSchema n) = Inr v"
  shows "v = VNull \<or> (\<exists>b. v = VBool b)"
proof -
  obtain s1 items s2 s3 s4 where c: "context_ok (getOutputSchema n) s3" and wh: "bind_optional (bind_condition ''WHERE clause must be of boolean type'') (select_where st) s3 = (Inr (bs_where bs), s4)"
    and k: "\<And>b. bound_ok (getOutputSchema n) 0 (parameter_types s4) b \<Longrightarrow> bound_ok (getOutputSchema n) 0 (parameter_types s') b"
    using bindSelect_states [OF assms(1,2,4)] by metis
  have w: "bound_ok (getOutputSchema n) (params s3) (parameter_types s4) w \<and> bound_type w = TypeBoolean"
    using wh bind_condition_ok [OF _ c] assms(3) by (auto simp: bind_optional_def then_bind_Inr split: option.splits)
  then have "bound_ok (getOutputSchema n) 0 (parameter_types s') w" using bound_ok_mono [OF _ keeps_refl, of _ "params s3" s4 w 0] k by simp
  then have "of_type v TypeBoolean" using bound_evaluate [OF _ fit_all [OF assms(5)] assms(6,7)] w by simp
  then show ?thesis by (cases v) (auto simp: of_type_def getType_def)
qed

definition planner_catalog :: CatalogManager where
  "planner_catalog = \<lparr>cat_tables = [([116], default_TableInfo\<lparr>ti_schema := sample_schema\<rparr>)], next_table_id = 1\<rparr>"

definition simple_select :: "AstExpression list \<Rightarrow> AstExpression option \<Rightarrow> (AstExpression \<times> bool) list \<Rightarrow> SelectStatement" where
  "simple_select items wh ob = \<lparr>select_list = items, select_table = Some (BaseTable ''t'' []), select_where = wh, group_by = [], having_clause = None,
     order_by = ob, select_limit = None, select_offset = None\<rparr>"

lemmas bind_simps = bindSelect_def then_bind_def clear_tables_def bind_from_def bind_table_def getTable_def set_schema_def bound_def lifted_def ensure_def
  bind_item_def bind_optional_def bind_condition_def bindColumnValue_def bindBinary_def is_param_def set_param_type_def bindParameter_def clear_context_def
  check_grouping_def is_aggregate_def is_constant_def bind_order_item_def mk_Binder_def bytes_of_def code_def columnTypeToTypeId_def

theorem where_is_boolean_witness:
  "\<exists>bs s' w row v. bindSelect planner_catalog (simple_select [AStar] (Some (ABinary OpLess (AColumn ''a'' []) AParameter)) []) mk_Binder =
       (Inr (BoundSelectStatement bs), s') \<and> bs_where bs = Some w \<and>
     evaluate (bindParameters [VInt 9] (takeExpr w)) row sample_schema = Inr v \<and> (v = VNull \<or> (\<exists>b. v = VBool b))"
proof -
  let ?w = "BoundComparison (EComp LessThan (EColumn 0 None) (EParam 0 VNull False)) TypeBoolean" and ?row = "row_bytes [VInt 7, VStr [104, 105]]"
  let ?items = "[BoundColumnRef (EColumn 0 None) TypeInteger [] [97], BoundColumnRef (EColumn 1 None) TypeVarchar [] [98]]"
  let ?bs = "\<lparr>bs_table = Some (BoundBaseTable [116] [] sample_schema), bs_select_list = ?items, bs_where = Some ?w, bs_group_bys = [], bs_having = None,
    bs_order_by = [], bs_limit = None, bs_offset = None\<rparr>"
  have b: "bindSelect planner_catalog (simple_select [AStar] (Some (ABinary OpLess (AColumn ''a'' []) AParameter)) []) mk_Binder =
      (Inr (BoundSelectStatement ?bs), \<lparr>ctx_tables = [], combined_schema = None, parameter_types = [TypeInteger]\<rparr>)"
    by (simp add: bind_simps simple_select_def planner_catalog_def sample_schema_def)
  have e: "encodes sample_schema [VInt 7, VStr [104, 105]] ?row" using build_row_encodes [OF sample_row_fits] by simp
  have v: "evaluate (bindParameters [VInt 9] (takeExpr ?w)) ?row sample_schema = Inr (VBool True)"
    using column_evaluate_encodes [OF e, of 0]
    by (simp add: evaluate_def deref_column_def param_eval_def comp_eval_def compareLessThan_def isNull_def getType_def)
  have "VBool True = VNull \<or> (\<exists>b. VBool True = VBool b)"
    by (rule where_is_boolean [OF b, of "BoundBaseTable [116] [] sample_schema" ?w _ "[VInt 9]" "[VInt 7, VStr [104, 105]]" ?row])
      (use e v in \<open>auto simp: of_type_def getType_def\<close>)
  then show ?thesis using b v by fastforce
qed

subsection \<open>The output of a query\<close>

lemma new_column_type: "new_column nm ty = Inr c \<Longrightarrow> col_name c = nm \<and> columnTypeToTypeId (col_type c) = Inr ty"
  by (auto simp: new_column_def try_bind_Inr typeIdToColumnType_def columnTypeToTypeId_def split: TypeId.splits)

lemma plan_items_columns:
  "plan_items st node i bs = Inr (sch, es) \<Longrightarrow>
   length sch = length bs \<and> length es = length bs \<and> map col_name sch = map (\<lambda>(j, b). column_title j b) (enumerate i bs) \<and>
   map (\<lambda>c. columnTypeToTypeId (col_type c)) sch = map (\<lambda>b. Inr (bound_type b)) bs \<and> (\<not> is_grouped st \<longrightarrow> es = map takeExpr bs)"
proof (induction bs arbitrary: i sch es)
  case (Cons b bs)
  then obtain c cs e es' where c: "new_column (column_title i b) (bound_type b) = Inr c" "plan_items st node (i + 1) bs = Inr (cs, es')" "sch = c # cs" "es = e # es'"
      "(if is_grouped st then rewrite_output node (bs_group_bys st) b else Inr (takeExpr b)) = Inr e"
    by (auto simp: try_bind_Inr)
  show ?case using Cons.IH [OF c(2)] new_column_type [OF c(1)] c(3-5) by auto
qed simp

text \<open>
  What the text of a query asks for: a star stands for the columns of the tables, an item that is a column (with any number of plus signs) has the name
  of the column, and any other one a number, its position in the output.
\<close>

fun asked_title :: "AstExpression \<Rightarrow> name option" where
  "asked_title (AColumn col tab) = Some (bytes_of col)"
| "asked_title (AUnary OpPlus x) = asked_title x"
| "asked_title x = None"

fun asked_titles :: "name list \<Rightarrow> nat \<Rightarrow> AstExpression list \<Rightarrow> name list" where
  "asked_titles cols i [] = []"
| "asked_titles cols i (e # es) = (if e = AStar then cols @ asked_titles cols (i + length cols) es
     else (case asked_title e of Some nm \<Rightarrow> nm | None \<Rightarrow> bytes_of (''expr'' @ decimal i)) # asked_titles cols (i + 1) es)"

fun projected :: "LogicalPlanNode \<Rightarrow> Expression list" where
  "projected (LProjection sch es c) = es"
| "projected (LOrderBy sch obs c) = projected c"
| "projected (LLimit sch l m c) = projected c"
| "projected n = []"

lemma set_param_kind: "set_param_type b ty s = (Inr b', s') \<Longrightarrow> is_param b' = is_param b"
  by (auto simp: set_param_type_def is_param_def split: BoundExpression.splits)

lemma asked_title_bound:
  "bindExpression e s = (Inr b, s') \<Longrightarrow> asked_title e = (case b of BoundColumnRef _ _ _ col \<Rightarrow> Some col | _ \<Rightarrow> None)"
proof (induction e arbitrary: s b s' rule: bindExpression.induct)
  case (3 col tab)
  then show ?case by (auto simp: bindColumnValue_def try_bind_Inr split: option.splits)
next
  case (4 op l r)
  then show ?case by (cases op) (auto simp: then_bind_Inr bindBinary_def)
next
  case (5 op x)
  then show ?case by (cases op) (auto simp: then_bind_Inr bindUnary_def split: if_splits)
qed (auto simp: then_bind_Inr bindParameter_def bindConstant_def bindAggregate_def Let_def try_bind_Inr split: ConstantType.splits)

lemma star_columns_ok:
  assumes "star_columns i cs = Inr bs" "cs = drop i sch"
  shows "length bs = length cs \<and> (\<forall>k. map (\<lambda>(j, b). column_title j b) (enumerate k bs) = map col_name cs) \<and> (\<forall>b \<in> set bs. bound_ok sch n ptys b)"
  using assms
proof (induction i cs arbitrary: bs rule: star_columns.induct)
  case (2 i c cs)
  obtain ty bs' where b: "columnTypeToTypeId (col_type c) = Inr ty" "star_columns (i + 1) cs = Inr bs'" "bs = BoundColumnRef (EColumn i None) ty [] (col_name c) # bs'"
    using 2(2) by (auto simp: try_bind_Inr)
  have d: "i < length sch" "sch ! i = c" "cs = drop (i + 1) sch"
    using 2(3) by (metis drop_all list.distinct(1) not_le, metis nth_via_drop, metis drop_Suc list.sel(3) tl_drop Suc_eq_plus1)
  have "gives sch n ptys (EColumn i None) ty" using d supported_type [OF b(1)] by (intro gives_column) auto
  then have "bound_ok sch n ptys (BoundColumnRef (EColumn i None) ty [] (col_name c))" by (simp add: bound_ok_def)
  then show ?case using 2(1) [OF b(2) d(3)] b(3) by (simp add: column_title_def)
qed simp

lemma enumerate_append: "enumerate i (xs @ ys) = enumerate i xs @ enumerate (i + length xs) ys"
  by (induction xs arbitrary: i) simp_all

lemma bind_items_ok:
  assumes "bind_each bind_item es s = (Inr items, s')" "context_ok sch s"
  shows "keeps s s' \<and> (\<forall>b \<in> set (concat items). bound_ok sch 0 (parameter_types s') b) \<and>
    map (\<lambda>(j, b). column_title j b) (enumerate i (concat items)) = asked_titles (map col_name sch) i es"
  using assms
proof (induction es arbitrary: s items i)
  case (Cons e es)
  then obtain bs s1 items' where b: "bind_item e s = (Inr bs, s1)" "bind_each bind_item es s1 = (Inr items', s')" "items = bs # items'"
    by (auto simp: then_bind_Inr)
  have k: "keeps s s1" by (rule bind_item_keeps [OF b(1) Cons.prems(2)])
  note IH = Cons.IH [OF b(2) keeps_context [OF k Cons.prems(2)]]
  show ?case
  proof (cases "e = AStar")
    case True
    then have "star_columns 0 sch = Inr bs" "s1 = s" using b(1) Cons.prems(2) by (auto simp: bind_item_def context_ok_def split: option.splits)
    then have S: "length bs = length sch" "\<And>k. map (\<lambda>(j, b). column_title j b) (enumerate k bs) = map col_name sch"
        "\<And>b. b \<in> set bs \<Longrightarrow> bound_ok sch 0 (parameter_types s') b"
      using star_columns_ok [of 0 sch bs sch 0 "parameter_types s'"] by simp_all
    show ?thesis using S IH [of "i + length sch"] keeps_trans [OF k] True b(3) by (simp add: enumerate_append) blast
  next
    case False
    then obtain b' where b': "bindExpression e s = (Inr b', s1)" "bs = [b']" using b(1) by (auto simp: bind_item_def then_bind_Inr)
    have "bound_ok sch 0 (parameter_types s') b'" using bindExpression_ok [OF b'(1) Cons.prems(2)] IH bound_ok_mono by blast
    moreover have "column_title i b' = (case asked_title e of Some nm \<Rightarrow> nm | None \<Rightarrow> bytes_of (''expr'' @ decimal i))"
      using asked_title_bound [OF b'(1)] by (simp add: column_title_def numbered_def split: BoundExpression.splits)
    ultimately show ?thesis using IH [of "i + 1"] keeps_trans [OF k] False b(3) b'(2) by simp
  qed
qed simp

text \<open>
  C40. The columns of a query: if the binder accepts a query on tables and the planner gives a plan for it, then the output columns of the plan are
  those that the text of the query asks for, with the names of the columns of the tables, in the order of the select list; the projection has one expression for
  each of them, the bound expressions of the items if the query is not grouped; and then every value that the expression of a column can have, on any row
  of the tables and for parameters of the inferred types, is NULL or of the declared type of the column.
\<close>

theorem select_output:
  assumes "bindSelect cat st mk_Binder = (Inr (BoundSelectStatement bs), s')" "bs_table bs = Some t" "bs_select_list bs \<noteq> []"
    and "planTableReference t = Inr n" "planSelect bs = Inr plan"
  shows "map col_name (getOutputSchema plan) = asked_titles (map col_name (getOutputSchema n)) 0 (select_list st) \<and>
    length (projected plan) = length (getOutputSchema plan) \<and> (\<not> is_grouped bs \<longrightarrow> projected plan = map takeExpr (bs_select_list bs) \<and>
    (\<forall>i ps vs row v. i < length (projected plan) \<longrightarrow> list_all2 of_type ps (parameter_types s') \<longrightarrow> encodes (getOutputSchema n) vs row \<longrightarrow>
       evaluate (bindParameters ps (projected plan ! i)) row (getOutputSchema n) = Inr v \<longrightarrow>
       (\<exists>ty. columnTypeToTypeId (col_type (getOutputSchema plan ! i)) = Inr ty \<and> of_type v ty)))"
proof -
  let ?items = "bs_select_list bs" and ?cols = "getOutputSchema n"
  obtain n3 n4 where p: "plan_projection bs n3 = Inr n4" "plan = plan_limit bs (plan_order bs n4)" using assms(5) by (auto simp: planSelect_def try_bind_Inr Let_def)
  then obtain sch es where e: "plan_items bs n3 0 ?items = Inr (sch, es)" "n4 = LProjection sch es n3"
    using assms(3) by (auto simp: plan_projection_def try_bind_Inr)
  then have out: "getOutputSchema plan = sch" "projected plan = es" using p(2) by (simp_all add: plan_limit_def plan_order_def)
  note P = plan_items_columns [OF e(1)]
  obtain s1 items s2 s3 s4 where s: "context_ok ?cols s1" "bind_each bind_item (select_list st) s1 = (Inr items, s2)" "?items = concat items" "keeps s2 s4"
    "\<And>b. bound_ok ?cols 0 (parameter_types s4) b \<Longrightarrow> bound_ok ?cols 0 (parameter_types s') b"
    using bindSelect_states [OF assms(1,2,4)] by metis
  note B = bind_items_ok [OF s(2,1)]
  have ok: "bound_ok ?cols 0 (parameter_types s') b" if "b \<in> set ?items" for b
    using B [of 0] that s(3) by (intro s(5) bound_ok_mono [OF _ s(4) order.refl]) metis
  have "\<exists>ty. columnTypeToTypeId (col_type (sch ! i)) = Inr ty \<and> of_type v ty"
    if "\<not> is_grouped bs" "i < length es" "list_all2 of_type ps (parameter_types s')" "encodes ?cols vs row" "evaluate (bindParameters ps (es ! i)) row ?cols = Inr v"
    for i ps vs row v
  proof -
    have i: "i < length ?items" "es ! i = takeExpr (?items ! i)" using P that(1,2) by simp_all
    have "map (\<lambda>c. columnTypeToTypeId (col_type c)) sch ! i = Inr (bound_type (?items ! i))" using P i(1) by simp
    moreover have "map (\<lambda>c. columnTypeToTypeId (col_type c)) sch ! i = columnTypeToTypeId (col_type (sch ! i))" using P i(1) by (intro nth_map) simp
    ultimately have "columnTypeToTypeId (col_type (sch ! i)) = Inr (bound_type (?items ! i))" by simp
    moreover have "of_type v (bound_type (?items ! i))"
      by (rule bound_evaluate [OF ok [OF nth_mem [OF i(1)]] fit_all [OF that(3)] that(4)]) (use that(5) i(2) in simp)
    ultimately show ?thesis by blast
  qed
  then show ?thesis using P B [of 0] s(3) out by auto
qed

text \<open>\<open>SELECT *, +b, a < ? FROM t\<close>\<close>

theorem select_output_witness:
  "\<exists>bs s' plan. bindSelect planner_catalog (simple_select [AStar, AUnary OpPlus (AColumn ''a'' []), ABinary OpLess (AColumn ''a'' []) AParameter] None []) mk_Binder =
       (Inr (BoundSelectStatement bs), s') \<and> planSelect bs = Inr plan \<and>
     map col_name (getOutputSchema plan) = [bytes_of ''a'', bytes_of ''b'', bytes_of ''a'', bytes_of ''expr3''] \<and>
     columnTypeToTypeId (col_type (getOutputSchema plan ! 3)) = Inr TypeBoolean"
proof -
  let ?q = "simple_select [AStar, AUnary OpPlus (AColumn ''a'' []), ABinary OpLess (AColumn ''a'' []) AParameter] None []"
  let ?less = "EComp LessThan (EColumn 0 None) (EParam 0 VNull False)" and ?t = "BoundBaseTable [116] [] sample_schema"
  let ?items = "[BoundColumnRef (EColumn 0 None) TypeInteger [] [97], BoundColumnRef (EColumn 1 None) TypeVarchar [] [98],
    BoundColumnRef (EColumn 0 None) TypeInteger [] [97], BoundComparison ?less TypeBoolean]"
  let ?bs = "\<lparr>bs_table = Some ?t, bs_select_list = ?items, bs_where = None, bs_group_bys = [], bs_having = None,
    bs_order_by = [], bs_limit = None, bs_offset = None\<rparr>" and ?row = "row_bytes [VInt 7, VStr [104, 105]]"
  let ?s' = "\<lparr>ctx_tables = [], combined_schema = None, parameter_types = [TypeInteger]\<rparr>"
  have b: "bindSelect planner_catalog ?q mk_Binder = (Inr (BoundSelectStatement ?bs), ?s')"
    by (simp add: bind_simps simple_select_def planner_catalog_def sample_schema_def bindUnary_def)
  have g: "\<not> is_grouped ?bs" by (simp add: is_grouped_def is_aggregate_def)
  obtain plan where plan: "planSelect ?bs = Inr plan" "length (projected plan) = 4"
    by (simp add: planSelect_def plan_filter_def is_grouped_def is_aggregate_def plan_having_def plan_projection_def new_column_def typeIdToColumnType_def
      plan_order_def plan_limit_def)
  have sl: "select_list ?q = [AStar, AUnary OpPlus (AColumn ''a'' []), ABinary OpLess (AColumn ''a'' []) AParameter]" by (simp add: simple_select_def)
  have o: "map col_name (getOutputSchema plan) = asked_titles (map col_name sample_schema) 0 (select_list ?q) \<and>
      length (projected plan) = length (getOutputSchema plan) \<and> (\<not> is_grouped ?bs \<longrightarrow> projected plan = map takeExpr ?items \<and>
      (\<forall>i ps vs row v. i < length (projected plan) \<longrightarrow> list_all2 of_type ps [TypeInteger] \<longrightarrow> encodes sample_schema vs row \<longrightarrow>
         evaluate (bindParameters ps (projected plan ! i)) row sample_schema = Inr v \<longrightarrow>
         (\<exists>ty. columnTypeToTypeId (col_type (getOutputSchema plan ! i)) = Inr ty \<and> of_type v ty)))"
    using select_output [OF b, of ?t "LSeqScan sample_schema [116] [] ENullPtr ENullPtr ENullPtr" plan] plan by simp
  have t: "map col_name (getOutputSchema plan) = [bytes_of ''a'', bytes_of ''b'', bytes_of ''a'', bytes_of ''expr3'']"
    using o unfolding sl by (simp add: sample_schema_def bytes_of_def code_def decimal.simps)
  have e: "encodes sample_schema [VInt 7, VStr [104, 105]] ?row" using build_row_encodes [OF sample_row_fits] by simp
  have v: "evaluate (bindParameters [VInt 9] ?less) ?row sample_schema = Inr (VBool True)"
    using column_evaluate_encodes [OF e, of 0]
    by (simp add: evaluate_def deref_column_def param_eval_def comp_eval_def compareLessThan_def isNull_def getType_def)
  have "projected plan ! 3 = ?less" using o g by simp
  then obtain ty where "columnTypeToTypeId (col_type (getOutputSchema plan ! 3)) = Inr ty" "of_type (VBool True) ty"
    using conjunct2 [OF mp [OF conjunct2 [OF conjunct2 [OF o]] g], rule_format, of 3 "[VInt 9]" "[VInt 7, VStr [104, 105]]" ?row "VBool True"] plan(2) e v
    by (auto simp: of_type_def getType_def)
  then have "columnTypeToTypeId (col_type (getOutputSchema plan ! 3)) = Inr TypeBoolean" by (simp add: of_type_def getType_def)
  then show ?thesis by (intro exI conjI) (rule b, rule plan(1), rule t)
qed

subsection \<open>Plans that differ from the query\<close>

text \<open>
  The keys of \<open>ORDER BY\<close> are numbered in the schema of the tables but evaluated on the rows of the projection: \<open>SELECT b FROM t ORDER BY a\<close>
  is planned as a sort on column 0 of rows that only hold \<open>b\<close>.
\<close>

theorem order_by_below_projection:
  "\<exists>bs s'. bindSelect planner_catalog (simple_select [AColumn ''b'' []] None [(AColumn ''a'' [], True)]) mk_Binder = (Inr (BoundSelectStatement bs), s') \<and>
     planSelect bs = Inr (LOrderBy [sample_schema ! 1] [(EColumn 0 None, True)]
       (LProjection [sample_schema ! 1] [EColumn 1 None] (LSeqScan sample_schema [116] [] ENullPtr ENullPtr ENullPtr)))"
proof -
  let ?bs = "\<lparr>bs_table = Some (BoundBaseTable [116] [] sample_schema), bs_select_list = [BoundColumnRef (EColumn 1 None) TypeVarchar [] [98]], bs_where = None,
    bs_group_bys = [], bs_having = None, bs_order_by = [(BoundColumnRef (EColumn 0 None) TypeInteger [] [97], True)], bs_limit = None, bs_offset = None\<rparr>"
  have "bindSelect planner_catalog (simple_select [AColumn ''b'' []] None [(AColumn ''a'' [], True)]) mk_Binder =
      (Inr (BoundSelectStatement ?bs), \<lparr>ctx_tables = [], combined_schema = None, parameter_types = []\<rparr>)"
    by (simp add: bind_simps simple_select_def planner_catalog_def sample_schema_def)
  moreover have "planSelect ?bs = Inr (LOrderBy [sample_schema ! 1] [(EColumn 0 None, True)]
      (LProjection [sample_schema ! 1] [EColumn 1 None] (LSeqScan sample_schema [116] [] ENullPtr ENullPtr ENullPtr)))"
    by (simp add: planSelect_def plan_filter_def is_grouped_def is_aggregate_def plan_having_def plan_projection_def new_column_def typeIdToColumnType_def
        column_title_def plan_order_def plan_limit_def sample_schema_def)
  ultimately show ?thesis by blast
qed

text \<open>
  A join on an equation becomes a hash join whose right key keeps its number in the schema of both tables; on the rows of the right table
  this column is another one, or there is none.
\<close>

theorem equi_join_key_not_shifted:
  assumes "i < length ls" "j < length rs" "length rs \<le> length ls + j"
  shows "planTableReference (BoundJoinTable (BoundBaseTable t al ls) (BoundBaseTable u bl rs)
       (Some (BoundComparison (EComp Equal (EColumn i None) (EColumn (length ls + j) None)) TypeBoolean))) =
     Inr (LHashJoin (ls @ rs) (EColumn i None) (EColumn (length ls + j) None)
       (LSeqScan ls t al ENullPtr ENullPtr ENullPtr) (LSeqScan rs u bl ENullPtr ENullPtr ENullPtr)) \<and>
     hash_key (EColumn (length ls + j) None) rs row = Inl (RuntimeError ''Column index out of bounds'')"
  using assms by (cases row) (simp add: plan_join_def take_ptr_def hash_key_def evaluate_def deref_column_def column_evaluate_def getColumnCount_def)

text \<open>A query without tables is planned on an empty list of rows and returns none.\<close>

theorem select_without_table:
  assumes "bs_table st = None" "bs_where st = None" "\<not> is_grouped st" "bs_having st = None" "bs_select_list st \<noteq> []" "bs_order_by st = []"
    "bs_limit st = None" "bs_offset st = None" "planSelect st = Inr n"
  shows "\<exists>sch es. n = LProjection sch es (LValues [] [])"
  using assms by (auto simp: planSelect_def try_bind_Inr plan_filter_def plan_having_def plan_projection_def plan_order_def plan_limit_def)

end
