(* ===== verification/Wire.thy ===== *)
theory Wire
  imports Catalog Values
begin

text \<open>
  The wire protocol of the server: \<^verbatim>\<open>src/server/wire_protocol.cpp\<close> and
  \<^verbatim>\<open>include/server/wire_protocol.hpp\<close>.

  A payload is the bytes of a \<^verbatim>\<open>std::string\<close>; reading takes an offset and gives the value with the offset
  behind it, or the exception thrown.  \<open>MessageType\<close> is an enumeration over \<^verbatim>\<open>uint8_t\<close>, so every byte is a value of it.
  The type of a column is the number of its \<open>TypeId\<close>, since the reader casts any byte to the enumeration (a plain \<^verbatim>\<open>char\<close> is signed).
\<close>

subsection \<open>Messages\<close>

type_synonym MessageType = byte

definition QueryRequest :: MessageType where "QueryRequest = 1"
definition QueryResponse :: MessageType where "QueryResponse = 2"
definition ErrorResponse :: MessageType where "ErrorResponse = 3"

record ColumnMetadata =
  cm_name :: "byte list"
  cm_type :: int

record RequestMessage =
  rq_version :: byte
  rq_type :: MessageType
  rq_id :: int
  rq_query :: "byte list"

record ResponseMessage =
  rs_version :: byte
  rs_type :: MessageType
  rs_id :: int
  rs_success :: bool
  rs_error :: "byte list"
  rs_columns :: "ColumnMetadata list"
  rs_rows :: "Value list list"

definition type_code :: "TypeId \<Rightarrow> int" where
  "type_code ty = (case ty of TypeNull \<Rightarrow> 0 | TypeInteger \<Rightarrow> 1 | TypeBoolean \<Rightarrow> 2 | TypeVarchar \<Rightarrow> 3)"

subsection \<open>Numbers and strings\<close>

definition put_int32 :: "int \<Rightarrow> byte list" where
  "put_int32 v = bytes_of_u32 (word_of_int v)"

definition get_int32 :: "byte list \<Rightarrow> nat \<Rightarrow> exn + int \<times> nat" where
  "get_int32 data offset = (if offset + 4 > length data then Inl (RuntimeError ''Invalid payload size'')
     else Inr (sint (u32_of_bytes (slice data offset 4)), offset + 4))"

definition put_string :: "byte list \<Rightarrow> byte list" where
  "put_string val = put_int32 (sint (word_of_nat (length val) :: u32)) @ val"

definition get_string :: "byte list \<Rightarrow> nat \<Rightarrow> exn + byte list \<times> nat" where
  "get_string data offset = try_bind (get_int32 data offset) (\<lambda>(len, offset).
     if len < 0 \<or> int offset + len > int (length data) then Inl (RuntimeError ''Invalid string length'')
     else Inr (slice data offset (nat len), offset + nat len))"

subsection \<open>Requests\<close>

definition serializeRequest :: "RequestMessage \<Rightarrow> byte list" where
  "serializeRequest req = [rq_version req, rq_type req] @ put_int32 (rq_id req) @ put_string (rq_query req)"

definition deserializeRequest :: "byte list \<Rightarrow> exn + RequestMessage" where
  "deserializeRequest data = (if length data < 2 then Inl (RuntimeError ''Invalid request payload size'')
     else try_bind (get_int32 data 2) (\<lambda>(i, offset). try_bind (get_string data offset) (\<lambda>(q, offset).
       Inr \<lparr>rq_version = data ! 0, rq_type = data ! 1, rq_id = i, rq_query = q\<rparr>)))"

subsection \<open>Responses\<close>

definition put_column :: "ColumnMetadata \<Rightarrow> byte list" where
  "put_column c = put_string (cm_name c) @ [word_of_int (cm_type c)]"

definition put_value :: "Value \<Rightarrow> byte list" where
  "put_value v = (case v of VNull \<Rightarrow> [1] | VInt i \<Rightarrow> 0 # put_int32 i | VBool b \<Rightarrow> [0, if b then 1 else 0] | VStr s \<Rightarrow> 0 # put_string s)"

definition put_columns :: "ColumnMetadata list \<Rightarrow> byte list" where
  "put_columns cs = concat (map put_column cs)"

definition put_row :: "Value list \<Rightarrow> byte list" where
  "put_row vs = concat (map put_value vs)"

definition put_rows :: "Value list list \<Rightarrow> byte list" where
  "put_rows rs = concat (map put_row rs)"

lemma put_lists [simp]:
  "put_columns [] = []" "put_columns (c # cs) = put_column c @ put_columns cs" "put_row [] = []" "put_row (v # vs) = put_value v @ put_row vs"
  "put_rows [] = []" "put_rows (r # rs) = put_row r @ put_rows rs"
  by (simp_all add: put_columns_def put_row_def put_rows_def)

definition serializeResponse :: "ResponseMessage \<Rightarrow> byte list" where
  "serializeResponse res = [rs_version res, rs_type res] @ put_int32 (rs_id res) @ [if rs_success res then 1 else 0] @
     (if \<not> rs_success res then put_string (rs_error res)
      else put_int32 (sint (word_of_nat (length (rs_columns res)) :: u32)) @ put_columns (rs_columns res) @
        put_int32 (sint (word_of_nat (length (rs_rows res)) :: u32)) @ put_rows (rs_rows res))"

fun get_columns :: "nat \<Rightarrow> byte list \<Rightarrow> nat \<Rightarrow> exn + ColumnMetadata list \<times> nat" where
  "get_columns 0 data offset = Inr ([], offset)"
| "get_columns (Suc n) data offset = try_bind (get_string data offset) (\<lambda>(nm, offset).
     if offset \<ge> length data then Inl (RuntimeError ''Invalid type id'')
     else try_bind (get_columns n data (offset + 1)) (\<lambda>(cs, offset'). Inr (\<lparr>cm_name = nm, cm_type = sint (data ! offset)\<rparr> # cs, offset')))"

definition get_value :: "int \<Rightarrow> byte list \<Rightarrow> nat \<Rightarrow> exn + Value \<times> nat" where
  "get_value ty data offset = (if offset \<ge> length data then Inl (RuntimeError ''Invalid null flag'')
     else if data ! offset \<noteq> 0 then Inr (VNull, offset + 1)
     else if ty = type_code TypeInteger then try_bind (get_int32 data (offset + 1)) (\<lambda>(i, offset). Inr (VInt i, offset))
     else if ty = type_code TypeBoolean then
       if offset + 1 \<ge> length data then Inl (RuntimeError ''Invalid bool flag'') else Inr (VBool (data ! (offset + 1) \<noteq> 0), offset + 2)
     else if ty = type_code TypeVarchar then try_bind (get_string data (offset + 1)) (\<lambda>(s, offset). Inr (VStr s, offset))
     else Inr (VNull, offset + 1))"

fun get_row :: "ColumnMetadata list \<Rightarrow> byte list \<Rightarrow> nat \<Rightarrow> exn + Value list \<times> nat" where
  "get_row [] data offset = Inr ([], offset)"
| "get_row (c # cs) data offset = try_bind (get_value (cm_type c) data offset) (\<lambda>(v, offset).
     try_bind (get_row cs data offset) (\<lambda>(vs, offset). Inr (v # vs, offset)))"

fun get_rows :: "nat \<Rightarrow> ColumnMetadata list \<Rightarrow> byte list \<Rightarrow> nat \<Rightarrow> exn + Value list list \<times> nat" where
  "get_rows 0 cs data offset = Inr ([], offset)"
| "get_rows (Suc n) cs data offset = try_bind (get_row cs data offset) (\<lambda>(r, offset).
     try_bind (get_rows n cs data offset) (\<lambda>(rs, offset). Inr (r # rs, offset)))"

definition deserializeResponse :: "byte list \<Rightarrow> exn + ResponseMessage" where
  "deserializeResponse data = (if length data < 2 then Inl (RuntimeError ''Invalid response payload size'')
     else try_bind (get_int32 data 2) (\<lambda>(i, offset).
       if offset \<ge> length data then Inl (RuntimeError ''Invalid bool'')
       else let res = \<lparr>rs_version = data ! 0, rs_type = data ! 1, rs_id = i, rs_success = data ! offset \<noteq> 0, rs_error = [], rs_columns = [], rs_rows = []\<rparr> in
         if data ! offset = 0 then try_bind (get_string data (offset + 1)) (\<lambda>(msg, offset). Inr (res\<lparr>rs_error := msg\<rparr>))
         else try_bind (get_int32 data (offset + 1)) (\<lambda>(num_cols, offset).
           try_bind (get_columns (nat num_cols) data offset) (\<lambda>(cs, offset).
           try_bind (get_int32 data offset) (\<lambda>(num_rows, offset).
           try_bind (get_rows (nat num_rows) cs data offset) (\<lambda>(rs, offset). Inr (res\<lparr>rs_columns := cs, rs_rows := rs\<rparr>)))))))"

subsection \<open>Reading what was written\<close>

text \<open>\<open>at data offset xs\<close>: the unread bytes are \<open>xs\<close>.\<close>

definition at :: "byte list \<Rightarrow> nat \<Rightarrow> byte list \<Rightarrow> bool" where
  "at data offset xs = (offset \<le> length data \<and> drop offset data = xs)"

lemma at_skip: "at data offset (xs @ ys) \<Longrightarrow> at data (offset + length xs) ys"
  unfolding at_def by (metis append_eq_conv_conj drop_drop add.commute length_append length_drop le_add1 le_diff_conv2)

lemma at_slice: "at data offset (xs @ ys) \<Longrightarrow> slice data offset (length xs) = xs"
  by (simp add: at_def slice_def)

lemma at_next: "at data offset (x # xs) \<Longrightarrow> offset < length data \<and> data ! offset = x \<and> at data (offset + 1) xs"
  using at_skip [of data offset "[x]" xs] by (cases "offset < length data") (auto simp: at_def simp flip: Cons_nth_drop_Suc)

lemma at_room: "at data offset (xs @ ys) \<Longrightarrow> offset + length xs \<le> length data"
  by (metis at_def at_skip)

lemma length_put_int32 [simp]: "length (put_int32 v) = 4"
  by (simp add: put_int32_def bytes_of_u32_def)

lemma sint_int32: "int32 v \<Longrightarrow> sint (word_of_int v :: u32) = v"
  by (simp add: sint_sbintrunc' signed_take_bit_int_eq_self int32_def)

lemma sint_is_int32: "int32 (sint (w :: u32))"
  using sint_range_size [of w] by (simp add: int32_def word_size)

lemma get_int32_put: "at data offset (put_int32 v @ ys) \<Longrightarrow> int32 v \<Longrightarrow> get_int32 data offset = Inr (v, offset + 4) \<and> at data (offset + 4) ys"
  using at_room [of data offset "put_int32 v" ys] at_slice [of data offset "put_int32 v" ys] at_skip [of data offset "put_int32 v" ys]
  by (simp add: get_int32_def put_int32_def u32_roundtrip sint_int32)

lemma length_code: "n < 2 ^ 31 \<Longrightarrow> sint (word_of_nat n :: u32) = int n"
  using sint_int32 [of "int n"] by (simp add: int32_def)

lemma count_int32: "n < 2 ^ 31 \<Longrightarrow> int32 (int n)"
  by (simp add: int32_def)

lemma get_string_put:
  assumes "at data offset (put_string s @ ys)" "length s < 2 ^ 31"
  shows "get_string data offset = Inr (s, offset + 4 + length s) \<and> at data (offset + 4 + length s) ys"
proof -
  have l: "get_int32 data offset = Inr (int (length s), offset + 4)" "at data (offset + 4) (s @ ys)"
    using get_int32_put [of data offset "int (length s)" "s @ ys"] assms by (simp_all add: put_string_def length_code count_int32)
  then show ?thesis using at_room [OF l(2)] at_slice [OF l(2)] at_skip [OF l(2)] by (simp add: get_string_def)
qed

definition column_wf :: "ColumnMetadata \<Rightarrow> bool" where
  "column_wf c = (length (cm_name c) < 2 ^ 31 \<and> - 128 \<le> cm_type c \<and> cm_type c < 128)"

lemma get_columns_put:
  assumes "at data offset (put_columns cs @ ys)" "list_all column_wf cs"
  shows "\<exists>offset'. get_columns (length cs) data offset = Inr (cs, offset') \<and> at data offset' ys"
  using assms
proof (induction cs arbitrary: offset)
  case (Cons c cs)
  have s: "get_string data offset = Inr (cm_name c, offset + 4 + length (cm_name c))"
      "at data (offset + 4 + length (cm_name c)) (word_of_int (cm_type c) # put_columns cs @ ys)"
    using get_string_put [of data offset "cm_name c" "[word_of_int (cm_type c)] @ put_columns cs @ ys"] Cons.prems
    by (simp_all add: put_column_def column_wf_def)
  have "sint (word_of_int (cm_type c) :: byte) = cm_type c"
    using Cons.prems(2) by (simp add: column_wf_def sint_sbintrunc' signed_take_bit_int_eq_self)
  then show ?case using s(1) at_next [OF s(2)] Cons.IH [of "offset + 4 + length (cm_name c) + 1"] Cons.prems(2) by auto
qed simp

text \<open>A value as the reader of a column with this type expects it.\<close>

definition value_sendable :: "ColumnMetadata \<Rightarrow> Value \<Rightarrow> bool" where
  "value_sendable c v = (case v of VNull \<Rightarrow> True | VInt i \<Rightarrow> cm_type c = type_code TypeInteger \<and> int32 i
     | VBool b \<Rightarrow> cm_type c = type_code TypeBoolean | VStr s \<Rightarrow> cm_type c = type_code TypeVarchar \<and> length s < 2 ^ 31)"

lemma get_value_put:
  assumes "at data offset (put_value v @ ys)" "value_sendable c v"
  shows "\<exists>offset'. get_value (cm_type c) data offset = Inr (v, offset') \<and> at data offset' ys"
proof (cases v)
  case VNull
  then show ?thesis using at_next [of data offset 1 ys] assms by (simp add: put_value_def get_value_def)
next
  case (VInt i)
  then show ?thesis
    using at_next [of data offset 0 "put_int32 i @ ys"] get_int32_put [of data "offset + 1" i ys] assms
    by (auto simp: put_value_def get_value_def value_sendable_def)
next
  case (VBool b)
  then show ?thesis
    using at_next [of data offset 0 "(if b then 1 else 0) # ys"] at_next [of data "offset + 1" "if b then 1 else 0" ys] assms
    by (auto simp: put_value_def get_value_def value_sendable_def type_code_def)
next
  case (VStr s)
  then show ?thesis
    using at_next [of data offset 0 "put_string s @ ys"] get_string_put [of data "offset + 1" s ys] assms
    by (auto simp: put_value_def get_value_def value_sendable_def type_code_def)
qed

lemma get_row_put:
  assumes "at data offset (put_row vs @ ys)" "list_all2 value_sendable cs vs"
  shows "\<exists>offset'. get_row cs data offset = Inr (vs, offset') \<and> at data offset' ys"
  using assms(2,1)
proof (induction cs vs arbitrary: offset rule: list_all2_induct)
  case (Cons c cs v vs)
  then obtain k where k: "get_value (cm_type c) data offset = Inr (v, k)" "at data k (put_row vs @ ys)"
    using get_value_put [of data offset v "put_row vs @ ys" c] by auto
  then show ?case using Cons.IH [OF k(2)] by auto
qed simp

lemma get_rows_put:
  assumes "at data offset (put_rows rs @ ys)" "list_all (list_all2 value_sendable cs) rs"
  shows "\<exists>offset'. get_rows (length rs) cs data offset = Inr (rs, offset') \<and> at data offset' ys"
  using assms
proof (induction rs arbitrary: offset)
  case (Cons r rs)
  then obtain k where k: "get_row cs data offset = Inr (r, k)" "at data k (put_rows rs @ ys)"
    using get_row_put [of data offset r "put_rows rs @ ys" cs] by auto
  then show ?case using Cons.IH [OF k(2)] Cons.prems(2) by auto
qed simp

subsection \<open>The protocol\<close>

definition request_wf :: "RequestMessage \<Rightarrow> bool" where
  "request_wf req = (int32 (rq_id req) \<and> length (rq_query req) < 2 ^ 31)"

definition response_wf :: "ResponseMessage \<Rightarrow> bool" where
  "response_wf res = (int32 (rs_id res) \<and>
     (if rs_success res then rs_error res = [] \<and> length (rs_columns res) < 2 ^ 31 \<and> length (rs_rows res) < 2 ^ 31 \<and>
        list_all column_wf (rs_columns res) \<and> list_all (list_all2 value_sendable (rs_columns res)) (rs_rows res)
      else rs_columns res = [] \<and> rs_rows res = [] \<and> length (rs_error res) < 2 ^ 31))"

lemma get_int32_Inr:
  assumes "get_int32 data offset = Inr (v, offset')"
  shows "int32 v" "offset' = offset + 4" "offset' \<le> length data" "slice data offset 4 = put_int32 v"
proof -
  have v: "v = sint (u32_of_bytes (slice data offset 4))" "offset' = offset + 4" "offset' \<le> length data"
    using assms by (auto simp: get_int32_def split: if_splits)
  then show "int32 v" "offset' = offset + 4" "offset' \<le> length data" "slice data offset 4 = put_int32 v"
    using sint_is_int32 u32_bytes_back [of "slice data offset 4"] by (auto simp: put_int32_def)
qed

lemma slice_append: "slice data i m @ slice data (i + m) n = slice data i (m + n)"
  by (simp add: slice_def take_add add.commute)

lemma get_string_Inr:
  assumes "get_string data offset = Inr (s, offset')"
  shows "length s < 2 ^ 31" "offset' = offset + (4 + length s)" "offset' \<le> length data" "slice data offset (4 + length s) = put_string s"
proof -
  obtain len k where l: "get_int32 data offset = Inr (len, k)" "0 \<le> len" "int k + len \<le> int (length data)"
      "s = slice data k (nat len)" "offset' = k + nat len"
    using assms by (auto simp: get_string_def try_bind_Inr split: if_splits)
  note i = get_int32_Inr [OF l(1)]
  have n: "length s = nat len" using l(2-4) by auto
  then have len: "length s < 2 ^ 31" "sint (word_of_nat (length s) :: u32) = len" using l(2) i(1) length_code [of "length s"] by (auto simp: int32_def)
  have "put_string s = put_int32 len @ slice data (offset + 4) (length s)"
    using len n l(4) i(2) by (simp add: put_string_def)
  then show "length s < 2 ^ 31" "offset' = offset + (4 + length s)" "offset' \<le> length data" "slice data offset (4 + length s) = put_string s"
    using len(1) n l i(2,4) by (auto simp flip: slice_append)
qed

text \<open>
  The request decoder accepts exactly the encodings of requests, whatever follows them: it returns a request if and only if the
  payload starts with the bytes \<open>serializeRequest\<close> writes for it and its number and text are in range.
\<close>

theorem request_exact:
  "deserializeRequest data = Inr req \<longleftrightarrow> request_wf req \<and> (\<exists>rest. data = serializeRequest req @ rest)"
proof
  assume "deserializeRequest data = Inr req"
  then obtain i o1 q o2 where d: "2 \<le> length data" "get_int32 data 2 = Inr (i, o1)" "get_string data o1 = Inr (q, o2)"
      and req: "req = \<lparr>rq_version = data ! 0, rq_type = data ! 1, rq_id = i, rq_query = q\<rparr>"
    by (auto simp: deserializeRequest_def try_bind_Inr not_less split: if_splits)
  note i = get_int32_Inr [OF d(2)] and q = get_string_Inr [OF d(3)]
  have "slice data 0 2 = [data ! 0, data ! 1]" using d(1) by (cases data rule: remdups_adj.cases) (auto simp: slice_def)
  then have "slice data 0 2 @ slice data 2 4 @ slice data 6 (4 + length q) = serializeRequest req"
    using i(2,4) q(4) req by (simp add: serializeRequest_def)
  then have "slice data 0 (2 + 4 + (4 + length q)) = serializeRequest req"
    using slice_append [of data 0 2 4, unfolded add_0] slice_append [of data 0 6 "4 + length q", unfolded add_0] by (simp flip: append_assoc)
  then have "data = serializeRequest req @ drop (2 + 4 + (4 + length q)) data" unfolding slice_def drop_0 by (metis append_take_drop_id)
  then show "request_wf req \<and> (\<exists>rest. data = serializeRequest req @ rest)" using i(1) q(1) req by (auto simp: request_wf_def)
next
  assume "request_wf req \<and> (\<exists>rest. data = serializeRequest req @ rest)"
  then obtain rest where wf: "request_wf req" and data: "data = serializeRequest req @ rest" by blast
  have "at data 2 (put_int32 (rq_id req) @ put_string (rq_query req) @ rest)" by (simp add: at_def data serializeRequest_def)
  then have i: "get_int32 data 2 = Inr (rq_id req, 6)" "at data 6 (put_string (rq_query req) @ rest)"
    using get_int32_put [of data 2 "rq_id req"] wf by (auto simp: request_wf_def)
  then show "deserializeRequest data = Inr req"
    using get_string_put [OF i(2)] wf by (auto simp: deserializeRequest_def request_wf_def data serializeRequest_def)
qed

text \<open>
  Responses: what a client reads from the bytes of a response, whatever follows them, is the response, if its rows have the columns'
  types and its counts and lengths are below 2 to the 31.
\<close>

theorem response_roundtrip:
  assumes "response_wf res"
  shows "deserializeResponse (serializeResponse res @ rest) = Inr res"
proof -
  let ?d = "serializeResponse res @ rest" and ?n = "\<lambda>xs. put_int32 (sint (word_of_nat (length xs) :: u32))"
  let ?body = "if \<not> rs_success res then put_string (rs_error res)
      else ?n (rs_columns res) @ put_columns (rs_columns res) @ ?n (rs_rows res) @ put_rows (rs_rows res)"
  have "at ?d 2 (put_int32 (rs_id res) @ (if rs_success res then 1 else 0) # ?body @ rest)" by (simp add: at_def serializeResponse_def)
  then have i: "get_int32 ?d 2 = Inr (rs_id res, 6)" "at ?d 6 ((if rs_success res then 1 else 0) # ?body @ rest)"
    using get_int32_put [of ?d 2 "rs_id res"] assms by (auto simp: response_wf_def)
  have f: "6 < length ?d" "?d ! 6 = (if rs_success res then 1 else 0)" "at ?d 7 (?body @ rest)" using at_next [OF i(2)] by auto
  have h: "\<not> length ?d < 2" "?d ! 0 = rs_version res" "?d ! 1 = rs_type res" by (simp_all add: serializeResponse_def)
  show ?thesis
  proof (cases "rs_success res")
    case False
    then have "get_string ?d 7 = Inr (rs_error res, 11 + length (rs_error res))"
      using get_string_put [of ?d 7 "rs_error res" rest] f(3) assms by (simp add: response_wf_def)
    then show ?thesis using False assms i(1) f(1,2) h by (simp add: deserializeResponse_def response_wf_def)
  next
    case True
    then have wf: "length (rs_columns res) < 2 ^ 31" "length (rs_rows res) < 2 ^ 31" "list_all column_wf (rs_columns res)"
        "list_all (list_all2 value_sendable (rs_columns res)) (rs_rows res)" "rs_error res = []" using assms by (auto simp: response_wf_def)
    have c: "get_int32 ?d 7 = Inr (int (length (rs_columns res)), 11)"
        "at ?d 11 (put_columns (rs_columns res) @ ?n (rs_rows res) @ put_rows (rs_rows res) @ rest)"
      using get_int32_put [of ?d 7 "int (length (rs_columns res))"] f(3) True wf(1) by (auto simp: length_code count_int32)
    obtain k where k: "get_columns (length (rs_columns res)) ?d 11 = Inr (rs_columns res, k)"
        "at ?d k (?n (rs_rows res) @ put_rows (rs_rows res) @ rest)" using get_columns_put [OF c(2) wf(3)] by blast
    have r: "get_int32 ?d k = Inr (int (length (rs_rows res)), k + 4)" "at ?d (k + 4) (put_rows (rs_rows res) @ rest)"
      using get_int32_put [of ?d k "int (length (rs_rows res))"] k(2) wf(2) by (auto simp: length_code count_int32)
    obtain k' where "get_rows (length (rs_rows res)) (rs_columns res) ?d (k + 4) = Inr (rs_rows res, k')" using get_rows_put [OF r(2) wf(4)] by blast
    then show ?thesis using True i(1) f(1,2) h c(1) k(1) r(1) wf(5) by (simp add: deserializeResponse_def)
  qed
qed

definition sample_response :: ResponseMessage where
  "sample_response = \<lparr>rs_version = 1, rs_type = QueryResponse, rs_id = 7, rs_success = True, rs_error = [],
     rs_columns = [\<lparr>cm_name = [97], cm_type = type_code TypeInteger\<rparr>, \<lparr>cm_name = [98], cm_type = type_code TypeVarchar\<rparr>],
     rs_rows = [[VInt (- 5), VStr [104, 105]], [VNull, VStr []]]\<rparr>"

theorem response_roundtrip_witness: "deserializeResponse (serializeResponse sample_response @ [9]) = Inr sample_response"
proof -
  have "response_wf sample_response"
    by (simp add: response_wf_def sample_response_def int32_def column_wf_def value_sendable_def type_code_def)
  then show ?thesis by (rule response_roundtrip)
qed

text \<open>
  The reader takes the types from the columns: a value of another type is misread, although the response carries no error.
\<close>

theorem response_misread:
  "deserializeResponse (serializeResponse (sample_response\<lparr>rs_columns := [\<lparr>cm_name = [97], cm_type = type_code TypeInteger\<rparr>], rs_rows := [[VStr [104, 105]]]\<rparr>)) =
     Inr (sample_response\<lparr>rs_columns := [\<lparr>cm_name = [97], cm_type = type_code TypeInteger\<rparr>], rs_rows := [[VInt 2]]\<rparr>)"
  by code_simp

end
