(* ===== verification/Shell.thy ===== *)
theory Shell
  imports Planner Optimizer Wire
begin

text \<open>
  The shell: \<^verbatim>\<open>src/shell/shell.cpp\<close> (\<open>initDB\<close>, \<open>executeSQLStructured\<close>, and from \<open>executeSQL\<close> the statements
  \<open>PREPARE\<close> and \<open>DEALLOCATE\<close>) and the prepared statements (\<^verbatim>\<open>src/prepared/\<close>).  The meta commands,
  the script splitter, the printing of \<open>EXPLAIN\<close> and of result tables, and the sessions of the server are not modelled.

  A statement goes through the parser, the binder, the planner, the optimizer, the physical planner, the executor factory and the
  executors, within a transaction of its own.  \<open>None\<close> as the result of an operation means that it does not return or that its behaviour is
  undefined; an exception becomes the error message of the result.  An exception that an executor throws leaves no trace in the
  model of what the executors had changed by then, so the state after it is unknown (\<open>None\<close> in the second component); the source commits nothing in
  that case and never ends the transaction.  The destructors of the executors are not modelled.
\<close>

subsection \<open>Prepared statements\<close>

record PreparedStatement =
  prep_name :: string
  physical_plan :: PhysicalPlan
  prep_types :: "TypeId list"

type_synonym PreparedStatementManager = "string \<Rightarrow> PreparedStatement option"

definition addStatement :: "PreparedStatementManager \<Rightarrow> PreparedStatement \<Rightarrow> PreparedStatementManager" where
  "addStatement m p = m(prep_name p \<mapsto> p)"

definition getStatement :: "PreparedStatementManager \<Rightarrow> string \<Rightarrow> PreparedStatement option" where
  "getStatement m nm = m nm"

definition removeStatement :: "PreparedStatementManager \<Rightarrow> string \<Rightarrow> PreparedStatementManager" where
  "removeStatement m nm = m(nm := None)"

definition clear_statements :: "PreparedStatementManager \<Rightarrow> PreparedStatementManager" where
  "clear_statements m = Map.empty"

text \<open>Each null pointer stays one, except among the grouping expressions, which are cloned without a test.\<close>

fun clone_ptr_keys :: "order_bys \<Rightarrow> exn + order_bys" where
  "clone_ptr_keys [] = Inr []"
| "clone_ptr_keys ((d, e) # obs) = try_bind (clone_ptr e) (\<lambda>e'. try_bind (clone_ptr_keys obs) (\<lambda>obs'. Inr ((d, e') # obs')))"

fun clone_rows :: "Expression list list \<Rightarrow> exn + Expression list list" where
  "clone_rows [] = Inr []"
| "clone_rows (row # rows) = try_bind (clone_all clone_ptr row) (\<lambda>row'. try_bind (clone_rows rows) (\<lambda>rows'. Inr (row' # rows')))"

fun clonePhysicalPlan :: "PhysicalPlan \<Rightarrow> exn + PhysicalPlan" where
  "clonePhysicalPlan (PSeqScan sch nm al p l m) = try_bind (clone_ptr p) (\<lambda>p'. Inr (PSeqScan sch nm al p' l m))"
| "clonePhysicalPlan (PFilter sch p c) = try_bind (clone_ptr p) (\<lambda>p'. try_bind (clonePhysicalPlan c) (\<lambda>c'. Inr (PFilter sch p' c')))"
| "clonePhysicalPlan (PProjection sch es c) = try_bind (clone_all clone_ptr es) (\<lambda>es'. try_bind (clonePhysicalPlan c) (\<lambda>c'. Inr (PProjection sch es' c')))"
| "clonePhysicalPlan (PSort sch obs c) = try_bind (clone_ptr_keys obs) (\<lambda>obs'. try_bind (clonePhysicalPlan c) (\<lambda>c'. Inr (PSort sch obs' c')))"
| "clonePhysicalPlan (POrderBy sch obs c) = try_bind (clone_ptr_keys obs) (\<lambda>obs'. try_bind (clonePhysicalPlan c) (\<lambda>c'. Inr (POrderBy sch obs' c')))"
| "clonePhysicalPlan (PLimit sch l m c) = try_bind (clonePhysicalPlan c) (\<lambda>c'. Inr (PLimit sch l m c'))"
| "clonePhysicalPlan (PValues sch vs) = try_bind (clone_rows vs) (\<lambda>vs'. Inr (PValues sch vs'))"
| "clonePhysicalPlan (PInsert sch nm c) = try_bind (clonePhysicalPlan c) (\<lambda>c'. Inr (PInsert sch nm c'))"
| "clonePhysicalPlan (PUpdate sch nm es c) = try_bind (clone_all clone_ptr es) (\<lambda>es'. try_bind (clonePhysicalPlan c) (\<lambda>c'. Inr (PUpdate sch nm es' c')))"
| "clonePhysicalPlan (PDelete sch nm c) = try_bind (clonePhysicalPlan c) (\<lambda>c'. Inr (PDelete sch nm c'))"
| "clonePhysicalPlan (PIndexScan sch nm al p l m) = try_bind (clone_ptr p) (\<lambda>p'. Inr (PIndexScan sch nm al p' l m))"
| "clonePhysicalPlan (PNestedLoopJoin sch p l r) = try_bind (clone_ptr p) (\<lambda>p'. try_bind (clonePhysicalPlan l) (\<lambda>l'.
     try_bind (clonePhysicalPlan r) (\<lambda>r'. Inr (PNestedLoopJoin sch p' l' r'))))"
| "clonePhysicalPlan (PHashJoin sch lk rk l r) = try_bind (clone_ptr lk) (\<lambda>lk'. try_bind (clone_ptr rk) (\<lambda>rk'. try_bind (clonePhysicalPlan l) (\<lambda>l'.
     try_bind (clonePhysicalPlan r) (\<lambda>r'. Inr (PHashJoin sch lk' rk' l' r')))))"
| "clonePhysicalPlan (PAggregation sch gbs aggs tys c) = try_bind (clone_all clone gbs) (\<lambda>gbs'. try_bind (clone_all clone_ptr aggs) (\<lambda>aggs'.
     try_bind (clonePhysicalPlan c) (\<lambda>c'. Inr (PAggregation sch gbs' aggs' tys c'))))"
| "clonePhysicalPlan (PHaving sch p c) = try_bind (clone_ptr p) (\<lambda>p'. try_bind (clonePhysicalPlan c) (\<lambda>c'. Inr (PHaving sch p' c')))"
| "clonePhysicalPlan (PTopK sch obs l m c) = try_bind (clone_ptr_keys obs) (\<lambda>obs'. try_bind (clonePhysicalPlan c) (\<lambda>c'. Inr (PTopK sch obs' l m c')))"

text \<open>The parameters of an aggregation are not bound: the switch of the source has no case for it.\<close>

fun bindPhysicalPlan :: "Value list \<Rightarrow> PhysicalPlan \<Rightarrow> PhysicalPlan" where
  "bindPhysicalPlan ps (PSeqScan sch nm al p l m) = PSeqScan sch nm al (bindParameters ps p) l m"
| "bindPhysicalPlan ps (PFilter sch p c) = PFilter sch (bindParameters ps p) (bindPhysicalPlan ps c)"
| "bindPhysicalPlan ps (PProjection sch es c) = PProjection sch (map (bindParameters ps) es) (bindPhysicalPlan ps c)"
| "bindPhysicalPlan ps (PSort sch obs c) = PSort sch (map (\<lambda>(d, e). (d, bindParameters ps e)) obs) (bindPhysicalPlan ps c)"
| "bindPhysicalPlan ps (POrderBy sch obs c) = POrderBy sch (map (\<lambda>(d, e). (d, bindParameters ps e)) obs) (bindPhysicalPlan ps c)"
| "bindPhysicalPlan ps (PLimit sch l m c) = PLimit sch l m (bindPhysicalPlan ps c)"
| "bindPhysicalPlan ps (PValues sch vs) = PValues sch (map (map (bindParameters ps)) vs)"
| "bindPhysicalPlan ps (PInsert sch nm c) = PInsert sch nm (bindPhysicalPlan ps c)"
| "bindPhysicalPlan ps (PUpdate sch nm es c) = PUpdate sch nm (map (bindParameters ps) es) (bindPhysicalPlan ps c)"
| "bindPhysicalPlan ps (PDelete sch nm c) = PDelete sch nm (bindPhysicalPlan ps c)"
| "bindPhysicalPlan ps (PIndexScan sch nm al p l m) = PIndexScan sch nm al (bindParameters ps p) l m"
| "bindPhysicalPlan ps (PNestedLoopJoin sch p l r) = PNestedLoopJoin sch (bindParameters ps p) (bindPhysicalPlan ps l) (bindPhysicalPlan ps r)"
| "bindPhysicalPlan ps (PHashJoin sch lk rk l r) =
     PHashJoin sch (bindParameters ps lk) (bindParameters ps rk) (bindPhysicalPlan ps l) (bindPhysicalPlan ps r)"
| "bindPhysicalPlan ps (PAggregation sch gbs aggs tys c) = PAggregation sch gbs aggs tys (bindPhysicalPlan ps c)"
| "bindPhysicalPlan ps (PHaving sch p c) = PHaving sch (bindParameters ps p) (bindPhysicalPlan ps c)"
| "bindPhysicalPlan ps (PTopK sch obs l m c) = PTopK sch (map (\<lambda>(d, e). (d, bindParameters ps e)) obs) l m (bindPhysicalPlan ps c)"

subsection \<open>The shell\<close>

record Shell =
  sh_catalog :: CatalogManager
  sh_bpm :: BufferPoolManager
  sh_mvcc :: MvccManager
  sh_locks :: LockTable
  sh_log :: LogManager
  sh_txns :: TransactionManager
  sh_prepared :: PreparedStatementManager

text \<open>
  What the shell uses of code outside the model: the algorithms of the C++ library, the decision of the cost model, and the texts of
  the library's own exceptions.
\<close>

record environment =
  env_lib :: library
  env_cheaper :: "LogicalPlanNode \<Rightarrow> bool"
  env_what :: "exn \<Rightarrow> string"

definition what :: "environment \<Rightarrow> exn \<Rightarrow> string" where
  "what env x = (case x of RuntimeError msg \<Rightarrow> msg | InvalidArgument msg \<Rightarrow> msg | _ \<Rightarrow> env_what env x)"

definition initDB :: "u64 \<Rightarrow> u64 \<Rightarrow> u64 \<Rightarrow> DiskManager \<Rightarrow> Shell option" where
  "initDB hi lo now d =
    (let (st, d1) = openDatabase d;
         d2 = (if st \<noteq> Ok then snd (openDatabase (snd (createDatabase hi lo now d1))) else d1)
     in map_option (\<lambda>(cat, b). \<lparr>sh_catalog = cat, sh_bpm = b, sh_mvcc = Map.empty, sh_locks = Map.empty, sh_log = mk_LogManager,
          sh_txns = mk_TransactionManager, sh_prepared = Map.empty\<rparr>) (mk_CatalogManager (mk_BufferPoolManager 128 d2)))"

subsection \<open>From a statement to a physical plan\<close>

text \<open>Binder, planner, optimizer (with an empty list of applied rules) and physical planner; the types are those of the parameters.\<close>

definition compile_statement :: "environment \<Rightarrow> CatalogManager \<Rightarrow> Statement \<Rightarrow> exn + PhysicalPlan \<times> TypeId list" where
  "compile_statement env cat stmt = (case bind_statement cat stmt mk_Binder of
     (Inl e, _) \<Rightarrow> Inl e
   | (Inr st, binder) \<Rightarrow> try_bind (plan_statement cat st) (\<lambda>logical.
       try_bind (optimize (HamDBOptimizer (Some cat) (env_cheaper env)) logical []) (\<lambda>(optimized, rules).
       try_bind (planNode cat optimized) (\<lambda>physical. Inr (physical, parameter_types binder)))))"

text \<open>
  The arguments of \<open>EXECUTE\<close>, each bound by a new binder and evaluated on an empty row: the values, or the message for a value of a wrong type.
\<close>

fun bind_arguments :: "AstExpression list \<Rightarrow> TypeId list \<Rightarrow> exn + string + Value list" where
  "bind_arguments [] tys = Inr (Inr [])"
| "bind_arguments (e # es) tys = (case bindExpression e mk_Binder of
     (Inl x, _) \<Rightarrow> Inl x
   | (Inr b, _) \<Rightarrow> try_bind (evaluate (takeExpr b) [] []) (\<lambda>v. case tys of
       [] \<Rightarrow> Inl UndefinedBehaviour
     | ty # tys' \<Rightarrow> if getType v \<noteq> ty \<and> getType v \<noteq> TypeNull then Inr (Inl ''Type mismatch for parameter'')
         else try_bind (bind_arguments es tys') (\<lambda>r. Inr (map_sum id ((#) v) r))))"

definition execute_prepared :: "PreparedStatementManager \<Rightarrow> string \<Rightarrow> AstExpression list \<Rightarrow> exn + string + PhysicalPlan" where
  "execute_prepared m nm args = (case getStatement m nm of
     None \<Rightarrow> Inr (Inl (''Prepared statement '' @ [quote] @ nm @ [quote] @ '' not found''))
   | Some prepared \<Rightarrow>
       if length (prep_types prepared) \<noteq> length args then Inr (Inl (''Parameter count mismatch for '' @ nm))
       else try_bind (bind_arguments args (prep_types prepared)) (\<lambda>r. case r of
         Inl msg \<Rightarrow> Inr (Inl msg)
       | Inr vs \<Rightarrow> try_bind (clonePhysicalPlan (physical_plan prepared)) (\<lambda>plan. Inr (Inr (bindPhysicalPlan vs plan)))))"

definition plan_of_statement :: "environment \<Rightarrow> Shell \<Rightarrow> Statement \<Rightarrow> exn + string + PhysicalPlan" where
  "plan_of_statement env sh stmt = (case stmt of
     ExecuteStmt nm args \<Rightarrow> execute_prepared (sh_prepared sh) nm args
   | _ \<Rightarrow> try_bind (compile_statement env (sh_catalog sh) stmt) (\<lambda>(plan, tys). Inr (Inr plan)))"

subsection \<open>Running a plan\<close>

record ExecutionResult =
  er_success :: bool
  error_message :: string
  er_columns :: "ColumnMetadata list"
  er_rows :: "Value list list"

definition failure :: "string \<Rightarrow> ExecutionResult" where
  "failure msg = \<lparr>er_success = False, error_message = msg, er_columns = [], er_rows = []\<rparr>"

definition column_metadata :: "Schema \<Rightarrow> ColumnMetadata list" where
  "column_metadata sch = map (\<lambda>c. \<lparr>cm_name = col_name c, cm_type = type_code (case col_type c of
     ColInteger \<Rightarrow> TypeInteger | ColBoolean \<Rightarrow> TypeBoolean | ColVarchar \<Rightarrow> TypeVarchar | _ \<Rightarrow> TypeNull)\<rparr>) sch"

definition column_values :: "Schema \<Rightarrow> Tuple \<Rightarrow> exn + Value list" where
  "column_values sch t = eval_all (map (\<lambda>i. EColumn i None) [0..<getColumnCount sch]) t sch"

text \<open>The rows fetched, and how the loop ended: with an exception, or in a state.\<close>

partial_function (option) fetch_values :: "'s next_op \<Rightarrow> Schema \<Rightarrow> 's \<Rightarrow> Value list list \<Rightarrow> (Value list list \<times> (exn + 's)) option" where
  "fetch_values nxt sch s rows = Option.bind (nxt s) (\<lambda>r. case r of
     Inl e \<Rightarrow> Some (rows, Inl e)
   | Inr (None, s1) \<Rightarrow> Some (rows, Inr s1)
   | Inr (Some row, s1) \<Rightarrow> (case column_values sch (fst row) of
       Inl e \<Rightarrow> Some (rows, Inl e)
     | Inr vs \<Rightarrow> fetch_values nxt sch s1 (rows @ [vs])))"

text \<open>What a caught exception gives; undefined behaviour is no exception.\<close>

definition caught :: "environment \<Rightarrow> ExecutionResult \<Rightarrow> exn \<Rightarrow> Shell option \<Rightarrow> (ExecutionResult \<times> Shell option) option" where
  "caught env res x sh = (if no_exception x then None else Some (res\<lparr>er_success := False, error_message := what env x\<rparr>, sh))"

definition exec_context :: "Shell \<Rightarrow> Transaction \<Rightarrow> ExecutorContext" where
  "exec_context sh txn = \<lparr>ec_txn = txn, ec_bpm = sh_bpm sh, ec_mvcc = sh_mvcc sh, ec_locks = sh_locks sh, ec_log = sh_log sh\<rparr>"

text \<open>The components after the last row, and the two commits.\<close>

definition end_statement :: "Shell \<Rightarrow> txn_id_t \<Rightarrow> ExecutorContext \<Rightarrow> Shell" where
  "end_statement sh t c = sh\<lparr>sh_bpm := ec_bpm c, sh_locks := ec_locks c, sh_log := ec_log c, sh_mvcc := mvcc_commit (ec_mvcc c) (ec_txn c),
     sh_txns := fst (tm_commit ((sh_txns sh)\<lparr>active_txns := (active_txns (sh_txns sh))(t \<mapsto> ec_txn c)\<rparr>) (Some t))\<rparr>"

definition run_plan :: "environment \<Rightarrow> Shell \<Rightarrow> PhysicalPlan \<Rightarrow> (ExecutionResult \<times> Shell option) option" where
  "run_plan env sh plan = (let (t, txns) = tm_begin (sh_txns sh); sh1 = sh\<lparr>sh_txns := txns\<rparr> in
     case getTransaction txns t of None \<Rightarrow> None | Some txn \<Rightarrow>
     (case createExecutor (sh_catalog sh) plan of Inl e \<Rightarrow> caught env (failure []) e (Some sh1) | Inr x \<Rightarrow>
     (case fst (exec_ops (env_lib env) x) (new_state x, exec_context sh1 txn) of
       None \<Rightarrow> None
     | Some (Inl e) \<Rightarrow> caught env (failure []) e None
     | Some (Inr s) \<Rightarrow> let sch = outputSchema x; res = (failure [])\<lparr>er_columns := column_metadata sch\<rparr> in
         (case fetch_values (snd (exec_ops (env_lib env) x)) sch s [] of
           None \<Rightarrow> None
         | Some (rows, Inl e) \<Rightarrow> caught env (res\<lparr>er_rows := rows\<rparr>) e None
         | Some (rows, Inr (_, c)) \<Rightarrow> Some (res\<lparr>er_success := True, er_rows := rows\<rparr>, Some (end_statement sh1 t c))))))"

definition executeSQLStructured :: "environment \<Rightarrow> Shell \<Rightarrow> string \<Rightarrow> (ExecutionResult \<times> Shell option) option" where
  "executeSQLStructured env sh query = (case parse query of
     None \<Rightarrow> None
   | Some (Inl (ParserError msg line column)) \<Rightarrow> Some (failure msg, Some sh)
   | Some (Inr stmt) \<Rightarrow> (case plan_of_statement env sh stmt of
       Inl e \<Rightarrow> caught env (failure []) e (Some sh)
     | Inr (Inl msg) \<Rightarrow> Some (failure msg, Some sh)
     | Inr (Inr plan) \<Rightarrow> run_plan env sh plan))"

text \<open>\<open>PREPARE\<close> and \<open>DEALLOCATE\<close>, which only \<open>executeSQL\<close> accepts.\<close>

definition prepare_statement :: "environment \<Rightarrow> Shell \<Rightarrow> string \<Rightarrow> Statement option \<Rightarrow> exn + Shell" where
  "prepare_statement env sh nm query = (case query of None \<Rightarrow> Inl UndefinedBehaviour | Some stmt \<Rightarrow>
     try_bind (compile_statement env (sh_catalog sh) stmt) (\<lambda>(plan, tys).
     Inr (sh\<lparr>sh_prepared := addStatement (sh_prepared sh) \<lparr>prep_name = nm, physical_plan = plan, prep_types = tys\<rparr>\<rparr>)))"

definition deallocate_statement :: "Shell \<Rightarrow> string \<Rightarrow> Shell" where
  "deallocate_statement sh nm = sh\<lparr>sh_prepared := removeStatement (sh_prepared sh) nm\<rparr>"

subsection \<open>Prepared statements are what was prepared\<close>

lemma clone_ptr_keys_same: "clone_ptr_keys ks = Inr ks' \<Longrightarrow> ks' = ks"
  by (induction ks arbitrary: ks' rule: clone_ptr_keys.induct) (auto simp: try_bind_Inr dest: clone_ptr_same)

lemma clone_rows_same: "clone_rows rs = Inr rs' \<Longrightarrow> rs' = rs"
  by (induction rs arbitrary: rs') (auto simp: try_bind_Inr dest: clone_lists_same)

text \<open>A clone that succeeds is a copy.\<close>

theorem clone_plan_same: "clonePhysicalPlan p = Inr p' \<Longrightarrow> p' = p"
  by (induction p arbitrary: p')
    (auto simp: try_bind_Inr dest!: clone_ptr_same clone_lists_same clone_ptr_keys_same clone_rows_same)

text \<open>
  An aggregation of a prepared statement keeps its parameters unbound, whatever arguments \<open>EXECUTE\<close> has, and its first row makes it throw.
\<close>

theorem aggregate_parameters_unbound:
  "bindPhysicalPlan ps (PAggregation sch [] [EParam i v False] tys c) = PAggregation sch [] [EParam i v False] tys (bindPhysicalPlan ps c) \<and>
   agg_row [] [EParam i v False] tys rsch r ht = Inl (RuntimeError ''Parameter value not bound'')"
  by (simp add: agg_row_def evaluate_def param_eval_def)

subsection \<open>Fetching the rows of an executor\<close>

context context_executor
begin

lemma fetch_values_pending:
  assumes "pending (s, w) xs None" "list_all2 (\<lambda>r vs. column_values sch (fst r) = Inr vs) xs vss"
  shows "\<exists>s1. fetch_values nxt sch (s, w) rows = Some (rows @ vss, Inr (s1, w))"
  using assms(2,1)
proof (induction xs vss arbitrary: s rows rule: list_all2_induct)
  case Nil
  then obtain s1 where "nxt (s, w) = return (None, (s1, w))" using finished by blast
  then show ?case by (subst fetch_values.simps) (simp add: return_def)
next
  case (Cons x xs vs vss)
  then obtain s1 where s1: "nxt (s, w) = return (Some x, (s1, w))" "pending (s1, w) xs None" using row by blast
  then show ?case using Cons.IH [OF s1(2), of "rows @ [vs]"] Cons.hyps(1) by (subst fetch_values.simps) (simp add: return_def)
qed

end

lemma column_values_encodes: "encodes sch vs t \<Longrightarrow> column_values sch t = Inr vs"
proof -
  assume a: "encodes sch vs t"
  then have len: "length sch = length vs" by (auto simp: encodes_def dest: list_all2_lengthD)
  have "eval_all (map (\<lambda>i. EColumn i None) is) t sch = Inr (map (\<lambda>i. vs ! i) is)" if "set is \<subseteq> {..<length vs}" for "is"
    using that column_evaluate_encodes [OF a] by (induction "is") (auto simp: evaluate_def)
  from this [of "[0..<length vs]"] show ?thesis by (simp add: column_values_def getColumnCount_def len map_nth atLeast0LessThan)
qed

end
