(* ===== verification/Queries.thy ===== *)
theory Queries
  imports Shell
begin

text \<open>
  A query from its text to the rows of its result: the whole of \<^verbatim>\<open>Shell::executeSQLStructured\<close>, optimizer and transaction
  included, for \<open>SELECT * FROM t WHERE e\<close>.
\<close>

subsection \<open>SELECT * FROM t WHERE e\<close>

definition star_query :: "string \<Rightarrow> AstExpression \<Rightarrow> SelectStatement" where
  "star_query nm e = \<lparr>select_list = [AStar], select_table = Some (BaseTable nm []), select_where = Some e, group_by = [], having_clause = None,
     order_by = [], select_limit = None, select_offset = None\<rparr>"

definition star_items :: "Schema \<Rightarrow> BoundExpression list" where
  "star_items sch = map (\<lambda>(i, c). BoundColumnRef (EColumn i None) (type_of_column c) [] (col_name c)) (enumerate 0 sch)"

text \<open>The binder when it comes to the expressions of a query on one table.\<close>

definition table_scope :: "name \<Rightarrow> Schema \<Rightarrow> Binder" where
  "table_scope nm sch = \<lparr>ctx_tables = [\<lparr>tc_name = nm, tc_alias = [], tc_schema = sch, tc_offset = 0\<rparr>], combined_schema = Some sch, parameter_types = []\<rparr>"

lemma parse_star_query:
  assumes "ident nm" "good_expr e"
  shows "parse (''SELECT * FROM '' @ nm @ '' WHERE '' @ expr_string e) = Some (Inr (SelectStmt (star_query nm e)))"
proof -
  have g: "good_statement (SelectStmt (star_query nm e))" using assms by (simp add: good_select_def star_query_def)
  have "statement_string (SelectStmt (star_query nm e)) = ''SELECT * FROM '' @ nm @ '' WHERE '' @ expr_string e"
    by (simp add: select_string_def star_query_def clause_def)
  then show ?thesis using parse_reads [OF prints_statement [OF g] reads_statement [OF g]] by (simp only:)
qed

lemma star_columns_supported:
  "supported sch \<Longrightarrow> star_columns i sch = Inr (map (\<lambda>(i, c). BoundColumnRef (EColumn i None) (type_of_column c) [] (col_name c)) (enumerate i sch))"
  by (induction sch arbitrary: i) (auto simp: supported_def supported_column)

lemma star_items_plain: "b \<in> set (star_items sch) \<Longrightarrow> \<not> is_aggregate b"
  by (auto simp: star_items_def is_aggregate_def)

lemma bind_star_query:
  assumes "getTable cat (bytes_of nm) = (Ok, Some ti)" "supported (ti_schema ti)"
    and "bindExpression e (table_scope (bytes_of nm) (ti_schema ti)) = (Inr b, s')" "bound_type b = TypeBoolean"
  shows "\<exists>s''. bind_statement cat (SelectStmt (star_query nm e)) mk_Binder = (Inr (BoundSelectStatement
     \<lparr>bs_table = Some (BoundBaseTable (bytes_of nm) [] (ti_schema ti)), bs_select_list = star_items (ti_schema ti), bs_where = Some b, bs_group_bys = [],
      bs_having = None, bs_order_by = [], bs_limit = None, bs_offset = None\<rparr>), s'')"
proof -
  have "bytes_of [] = []" by (simp add: bytes_of_def)
  then have scope: "mk_Binder\<lparr>ctx_tables := [\<lparr>tc_name = bytes_of nm, tc_alias = bytes_of [], tc_schema = ti_schema ti, tc_offset = 0\<rparr>], combined_schema := Some (ti_schema ti)\<rparr> =
      table_scope (bytes_of nm) (ti_schema ti)" by (simp add: mk_Binder_def table_scope_def)
  have star: "star_columns 0 (ti_schema ti) = Inr (star_items (ti_schema ti))" using star_columns_supported [OF assms(2), of 0] by (simp add: star_items_def)
  have g: "check_grouping (star_items (ti_schema ti)) []" using star_items_plain by (auto simp: check_grouping_def list_ex_iff)
  have c: "combined_schema (table_scope (bytes_of nm) (ti_schema ti)) = Some (ti_schema ti)" by (simp add: table_scope_def)
  show ?thesis
    using assms(1,3,4) scope star g c \<open>bytes_of [] = []\<close>
    by (simp add: bind_statement_def star_query_def bindSelect_def then_bind_def clear_tables_def bind_from_def bind_table_def set_schema_def bound_def lifted_def
        ensure_def bind_item_def bind_optional_def bind_condition_def clear_context_def mk_Binder_def)
qed

lemma plan_star_items:
  assumes "supported sch" "\<not> is_grouped st"
  shows "plan_items st node i (map (\<lambda>(i, c). BoundColumnRef (EColumn i None) (type_of_column c) [] (col_name c)) (enumerate j sch)) =
    Inr (sch, map (\<lambda>i. EColumn i None) [j..<j + length sch])"
  using assms(1)
proof (induction sch arbitrary: i j)
  case (Cons c cs)
  then have "new_column (col_name c) (type_of_column c) = Inr c" by (auto simp: supported_def new_column_def typeIdToColumnType_def type_of_column_def)
  then show ?case using Cons assms(2) by (simp add: supported_def column_title_def upt_conv_Cons del: upt_Suc)
qed simp

lemma plan_star_query:
  assumes "supported sch" "sch \<noteq> []"
  shows "plan_statement cat (BoundSelectStatement \<lparr>bs_table = Some (BoundBaseTable nm [] sch), bs_select_list = star_items sch, bs_where = Some b, bs_group_bys = [],
      bs_having = None, bs_order_by = [], bs_limit = None, bs_offset = None\<rparr>) =
    Inr (LProjection sch (map (\<lambda>i. EColumn i None) [0..<length sch]) (LFilter sch (takeExpr b) (LSeqScan sch nm [] ENullPtr ENullPtr ENullPtr)))"
proof -
  let ?st = "\<lparr>bs_table = Some (BoundBaseTable nm [] sch), bs_select_list = star_items sch, bs_where = Some b, bs_group_bys = [],
      bs_having = None, bs_order_by = [], bs_limit = None, bs_offset = None\<rparr>"
  have g: "\<not> is_grouped ?st" using star_items_plain by (auto simp: is_grouped_def list_ex_iff)
  have "star_items sch \<noteq> []" using assms(2) by (cases sch) (simp_all add: star_items_def)
  then show ?thesis using plan_star_items [OF assms(1) g, of _ 0 0] g
    by (simp add: plan_statement_def planSelect_def plan_filter_def plan_having_def plan_projection_def plan_order_def plan_limit_def star_items_def)
qed

text \<open>Projecting a row on all its columns.\<close>

lemma project_all:
  assumes "encodes sch vs (fst r)" "length (fst r) \<le> 1024"
  shows "project_row (map (\<lambda>i. EColumn i None) [0..<length sch]) sch sch r = Inr r"
proof -
  have len: "length sch = length vs" and fits: "list_all2 value_fits sch vs" and t: "fst r = row_bytes vs"
    using assms(1) by (auto simp: encodes_def dest: list_all2_lengthD)
  have "eval_all (map (\<lambda>i. EColumn i None) is) (fst r) sch = Inr (map (\<lambda>i. vs ! i) is)" if "set is \<subseteq> {..<length vs}" for "is"
    using that column_evaluate_encodes [OF assms(1)] by (induction "is") (auto simp: evaluate_def)
  from this [of "[0..<length sch]"] have "eval_all (map (\<lambda>i. EColumn i None) [0..<length sch]) (fst r) sch = Inr vs"
    using len by (simp add: map_nth atLeast0LessThan)
  moreover have "build_row sch vs = Inr (fst r)" using build_row_encodes(1) [OF fits] assms(2) t by simp
  ultimately show ?thesis by (simp add: project_row_def)
qed

lemma trans_projection_all:
  assumes "well_encoded sch rows" "\<forall>r \<in> set rows. length (fst r) \<le> 1024"
  shows "trans_rows (projection_row (map (\<lambda>i. EColumn i None) [0..<length sch]) sch sch) rows None = (rows, None)"
  using assms
proof (induction rows)
  case (Cons r rows)
  then obtain vs where "encodes sch vs (fst r)" by (auto simp: well_encoded_def)
  then show ?case using Cons project_all [of sch vs r] by (simp add: projection_row_def well_encoded_def)
qed simp

subsection \<open>What the optimizer makes of it\<close>

text \<open>Folding an expression that cannot fail gives one that cannot fail either.\<close>

lemma comp_not_undefined: "comp_eval op x y = Inl z \<Longrightarrow> \<not> no_exception z"
  by (cases op) (auto simp: comp_eval_def comparison_defs type_mismatch_def split: if_splits)

lemma logic_not_undefined: "logic_eval op x y = Inl z \<Longrightarrow> \<not> no_exception z"
  by (cases x; cases y; cases op) (auto simp: logic_eval_def value_simps split: if_splits)

lemma not_not_undefined: "not_eval x = Inl z \<Longrightarrow> \<not> no_exception z"
  by (cases x) (auto simp: not_eval_def value_simps)

lemmas eval_not_undefined = comp_not_undefined logic_not_undefined not_not_undefined

lemma try_bind_Inl: "try_bind r k = Inl z \<longleftrightarrow> r = Inl z \<or> (\<exists>x. r = Inr x \<and> k x = Inl z)"
  by (cases r) auto

lemma dummy_not_undefined: "safe sch e ty \<Longrightarrow> evaluateJoin e (Some ([], [])) None = Inl z \<Longrightarrow> \<not> no_exception z"
proof (induction e arbitrary: ty z)
  case (EColumn i src)
  then show ?case by (auto simp: deref_column_def column_evaluate_def getColumnCount_def split: option.splits TupleSource.splits)
next
  case (EComp op a b)
  then obtain t where "safe sch a t" "safe sch b t" by auto
  with EComp show ?case using eval_not_undefined(1) by (fastforce simp: try_bind_Inl)
next
  case (ELogic op a b)
  then show ?case using eval_not_undefined(2) by (fastforce simp: try_bind_Inl)
next
  case (ENot a)
  then show ?case using eval_not_undefined(3) by (fastforce simp: try_bind_Inl)
qed (auto simp: param_eval_def split: if_splits)

lemma safeEvaluate_safe:
  assumes "safe sch e ty"
  shows "\<exists>w. safeEvaluate e = Inr w"
proof (cases "evaluate e [] []")
  case (Inl z)
  have "evaluate e [] [] = evaluateJoin e (Some ([], [])) None"
    using assms by (cases e) (auto simp: evaluate_def deref_column_def split: option.splits TupleSource.splits)
  then have "\<not> no_exception z" using Inl dummy_not_undefined [OF assms, of z] by metis
  then show ?thesis using Inl by (simp add: safeEvaluate_def)
qed (simp add: safeEvaluate_def)

lemma constant_safe: "isConstant e \<Longrightarrow> safe sch e ty \<Longrightarrow> safe [] e ty"
proof (induction e arbitrary: ty)
  case (EComp op a b)
  then show ?case by (simp only: isConstant.simps safe_simps) blast
qed auto

lemma safeEvaluate_typed:
  assumes "isConstant e" "safe sch e ty"
  shows "\<exists>v. safeEvaluate e = Inr v \<and> has_type v ty"
proof -
  have "encodes [] [] []" by (simp add: encodes_def)
  from safe_value [OF this constant_safe [OF assms]] obtain v where "evaluateJoin e (Some ([], [])) None = Inr v" "has_type v ty" by blast
  then show ?thesis using safeEvaluate_constant [OF assms(1)] by blast
qed

lemma fold_node_safe: "isConstant e \<Longrightarrow> safe sch e ty \<Longrightarrow> \<exists>e'. fold_node e = Inr e' \<and> safe sch e' ty"
  using safeEvaluate_typed [of e sch ty] by (auto simp: fold_node_def)

lemma short_circuit_safe:
  assumes "isConstant c" "safe sch c TypeBoolean" "safe sch x TypeBoolean"
  shows "\<exists>r. short_circuit op c x = Inr r \<and> (\<forall>e. r = Some e \<longrightarrow> safe sch e TypeBoolean)"
proof -
  obtain v where v: "safeEvaluate c = Inr v" "v = VNull \<or> (\<exists>y. v = VBool y)"
    using safeEvaluate_typed [OF assms(1,2)] by (auto simp: has_type_cases)
  then show ?thesis using assms(3) by (cases op) (auto simp: short_circuit_def value_simps has_type_cases)
qed

lemma fold_logic_safe:
  assumes "safe sch a TypeBoolean" "safe sch b TypeBoolean"
  shows "\<exists>e'. fold_logic op a b = Inr e' \<and> safe sch e' TypeBoolean"
proof (cases "isConstant a \<and> isConstant b")
  case True
  then show ?thesis using fold_node_safe [of "ELogic op a b" sch TypeBoolean] assms by (simp add: fold_logic_def)
next
  case False
  obtain w where w: "safeEvaluate a = Inr w" using safeEvaluate_safe [OF assms(1)] by blast
  obtain r1 where r1: "(if isConstant a then short_circuit op a b else Inr None) = Inr r1" "\<forall>e. r1 = Some e \<longrightarrow> safe sch e TypeBoolean"
    using short_circuit_safe [OF _ assms, of op] by (cases "isConstant a") auto
  obtain r2 where r2: "(if isConstant b then try_bind (if op = LogicalAnd then safeEvaluate a else Inr VNull) (\<lambda>_. short_circuit op b a) else Inr None) = Inr r2"
      "\<forall>e. r2 = Some e \<longrightarrow> safe sch e TypeBoolean"
    using short_circuit_safe [OF _ assms(2,1), of op] w by (cases "isConstant b"; cases op) auto
  show ?thesis unfolding fold_logic_def if_not_P [OF False] r1(1) using r1(2) r2 assms by (cases r1; cases r2) (simp_all add: try_bind_simps)
qed

lemma fold_safe: "safe sch e ty \<Longrightarrow> \<exists>e'. foldExpression e = Inr e' \<and> safe sch e' ty"
proof (induction e arbitrary: ty)
  case (EComp op a b)
  obtain t where t: "t \<in> {TypeInteger, TypeBoolean, TypeVarchar}" "safe sch a t" "safe sch b t" and ty: "ty = TypeBoolean"
    using EComp.prems unfolding safe_simps by blast
  obtain a' b' where f: "foldExpression a = Inr a'" "safe sch a' t" "foldExpression b = Inr b'" "safe sch b' t"
    using EComp.IH(1) [OF t(2)] EComp.IH(2) [OF t(3)] by blast
  have "safe sch (EComp op a' b') TypeBoolean" unfolding safe_simps using t(1) f by blast
  then show ?case using f ty fold_node_safe [of "EComp op a' b'" sch TypeBoolean] by (cases "isConstant a' \<and> isConstant b'") auto
next
  case (ELogic op a b)
  have ab: "safe sch a TypeBoolean" "safe sch b TypeBoolean" and ty: "ty = TypeBoolean" using ELogic.prems by simp_all
  obtain a' b' where f: "foldExpression a = Inr a'" "safe sch a' TypeBoolean" "foldExpression b = Inr b'" "safe sch b' TypeBoolean"
    using ELogic.IH(1) [OF ab(1)] ELogic.IH(2) [OF ab(2)] by blast
  then show ?case using fold_logic_safe [of sch a' b' op] ty by simp
next
  case (ENot a)
  have a: "safe sch a TypeBoolean" and ty: "ty = TypeBoolean" using ENot.prems by simp_all
  obtain a' where f: "foldExpression a = Inr a'" "safe sch a' TypeBoolean" using ENot.IH [OF a] by blast
  then show ?case using fold_node_safe [of "ENot a'" sch TypeBoolean] ty by (cases "isConstant a'") simp_all
qed auto

lemma safe_no_right: "safe sch e ty \<Longrightarrow> no_right e"
proof (induction e arbitrary: ty)
  case (EComp op a b)
  then show ?case by (simp only: safe_simps no_right.simps) blast
qed auto

text \<open>The folded condition keeps the same rows where no operand of \<open>AND\<close> and \<open>OR\<close> is null.\<close>

lemma fold_holds:
  assumes "safe sch p TypeBoolean" "foldExpression p = Inr p'" "encodes sch vs t" "bool_operands p (Some (t, sch)) None"
  shows "holds p' sch t = holds p sch t"
proof -
  obtain v where v: "evaluateJoin p (Some (t, sch)) None = Inr v" using safe_value [OF assms(3,1)] by blast
  have "fold_result (foldExpression p) (Some (t, sch)) None v"
    by (rule fold_expression_result [OF _ safe_no_right [OF assms(1)] assms(4) v]) simp
  then show ?thesis using assms(2) v by (simp add: fold_result_def holds_def)
qed

text \<open>A comparison of the first column with a constant, for which the optimizer chooses the index of the table if there is one.\<close>

definition first_column_test :: "Expression \<Rightarrow> bool" where
  "first_column_test p = (case p of EComp op (EColumn i src) (EConst v) \<Rightarrow> op \<noteq> NotEqual \<and> i = 0 | _ \<Rightarrow> False)"

lemma index_step_scan:
  assumes "getTable cat nm = (Ok, Some ti)" "ti_index_root_page ti = kInvalidPageId \<or> \<not> first_column_test p"
  shows "index_step cat (LSeqScan sch nm al p lim off) = LSeqScan sch nm al p lim off"
proof (cases "first_column_test p")
  case True
  then obtain op i src v where "p = EComp op (EColumn i src) (EConst v)" by (auto simp: first_column_test_def split: Expression.splits)
  then show ?thesis using assms True by (simp add: index_step_def)
next
  case False
  show ?thesis
  proof (cases p)
    case (EComp op a c)
    then show ?thesis using False by (cases a; cases c) (auto simp: index_step_def first_column_test_def)
  qed (simp_all add: index_step_def)
qed

lemma index_step_projection [simp]: "index_step cat (LProjection sch es c) = LProjection sch es c"
  by (simp add: index_step_def)

lemma pruned_all: "{0..<length sch} \<subseteq> req \<Longrightarrow> pruned_schema req sch = sch"
proof -
  assume a: "{0..<length sch} \<subseteq> req"
  have "filter (\<lambda>(i, c). i \<in> req) (zip [0..<length sch] sch) = zip [0..<length sch] sch"
    using a by (intro filter_True) (auto dest!: set_zip_leftD)
  then show ?thesis by (simp add: pruned_schema_def Let_def)
qed

definition all_columns :: "Schema \<Rightarrow> Expression list" where
  "all_columns sch = map (\<lambda>i. EColumn i None) [0..<length sch]"

lemma wildcard_all: "is_wildcard (all_columns sch) sch"
  by (auto simp: is_wildcard_def all_columns_def getColumnCount_def list_all_iff in_set_zip)

lemma fold_all_columns: "fold_all (all_columns sch) = Inr (all_columns sch)"
proof -
  have "fold_all (map (\<lambda>i. EColumn i None) is) = Inr (map (\<lambda>i. EColumn i None) is)" for "is" by (induction "is") auto
  then show ?thesis by (simp add: all_columns_def)
qed

lemma apply_rules_scan:
  assumes "getTable cat nm = (Ok, Some ti)" "ti_index_root_page ti = kInvalidPageId \<or> \<not> first_column_test p'"
    and "PredicatePushdownRule plan = LSeqScan sch nm al p ENullPtr ENullPtr" "foldExpression p = Inr p'"
  shows "\<exists>names'. apply_rules (HamDBOptimizer (Some cat) cheaper) (plan, names) = Inr (LSeqScan sch nm al p' ENullPtr ENullPtr, names')"
  using assms pruned_all [of sch "{0..<length sch} \<union> collectColumns p"]
  by (simp add: HamDBOptimizer_def ProjectionPruningRule_def getColumnCount_def IndexScanRule_def index_step_scan JoinSelectionRule_def join_step_def
      CostBasedJoinRule_def cost_step_def TopKOptimizationRule_def top_k_step_def SortLimitRule_def sort_limit_step_def Let_def)

lemma apply_rules_projection:
  assumes "getTable cat nm = (Ok, Some ti)" "ti_index_root_page ti = kInvalidPageId \<or> \<not> first_column_test p"
  shows "\<exists>names'. apply_rules (HamDBOptimizer (Some cat) cheaper) (LProjection sch (all_columns sch) (LSeqScan sch nm al p ENullPtr ENullPtr), names) =
    Inr (LProjection sch (all_columns sch) (LSeqScan sch nm al p ENullPtr ENullPtr), names')"
  using assms pruned_all [of sch "{0..<length sch} \<union> collectColumns p"] wildcard_all [of sch] fold_all_columns [of sch]
  by (simp add: HamDBOptimizer_def PredicatePushdownRule_def ProjectionPruningRule_def getColumnCount_def IndexScanRule_def index_step_scan
      JoinSelectionRule_def join_step_def CostBasedJoinRule_def cost_step_def TopKOptimizationRule_def top_k_step_def SortLimitRule_def sort_limit_step_def Let_def)

lemma optimize_star_query:
  assumes "getTable cat nm = (Ok, Some ti)" "ti_index_root_page ti = kInvalidPageId \<or> \<not> first_column_test p'" "foldExpression p = Inr p'"
  shows "\<exists>names. optimize (HamDBOptimizer (Some cat) cheaper)
      (LProjection sch (all_columns sch) (LFilter sch p (LSeqScan sch nm [] ENullPtr ENullPtr ENullPtr))) [] =
    Inr (LProjection sch (all_columns sch) (LSeqScan sch nm [] p' ENullPtr ENullPtr), names)"
proof -
  have nt: "\<not> first_column_test ENullPtr" by (simp add: first_column_test_def)
  obtain n1 where n1: "apply_rules (HamDBOptimizer (Some cat) cheaper) (LSeqScan sch nm [] ENullPtr ENullPtr ENullPtr, []) =
      Inr (LSeqScan sch nm [] ENullPtr ENullPtr ENullPtr, n1)"
    using apply_rules_scan [OF assms(1) disjI2 [OF nt], of "LSeqScan sch nm [] ENullPtr ENullPtr ENullPtr" sch "[]" ENullPtr cheaper "[]"]
    by (auto simp: PredicatePushdownRule_def)
  obtain n2 where n2: "apply_rules (HamDBOptimizer (Some cat) cheaper) (LFilter sch p (LSeqScan sch nm [] ENullPtr ENullPtr ENullPtr), n1) =
      Inr (LSeqScan sch nm [] p' ENullPtr ENullPtr, n2)"
    using apply_rules_scan [OF assms(1,2) _ assms(3), of "LFilter sch p (LSeqScan sch nm [] ENullPtr ENullPtr ENullPtr)" sch "[]" cheaper n1]
    by (auto simp: PredicatePushdownRule_def)
  obtain n3 where n3: "apply_rules (HamDBOptimizer (Some cat) cheaper) (LProjection sch (all_columns sch) (LSeqScan sch nm [] p' ENullPtr ENullPtr), n2) =
      Inr (LProjection sch (all_columns sch) (LSeqScan sch nm [] p' ENullPtr ENullPtr), n3)"
    using apply_rules_projection [OF assms(1,2)] by blast
  show ?thesis using n1 n2 n3 by (simp add: one_child_def)
qed

subsection \<open>The query\<close>

lemma trans_projection_columns:
  assumes "well_encoded sch rows" "\<forall>r \<in> set rows. length (fst r) \<le> 1024"
  shows "trans_rows (projection_row (all_columns sch) sch sch) rows None = (rows, None)"
  using trans_projection_all [OF assms] by (simp add: all_columns_def)

text \<open>A plan whose executors only read, run by the shell: its rows come back as values, and only the transaction leaves a trace.\<close>

lemma run_reading_plan:
  assumes "tm_begin (sh_txns sh) = (t, txns)" "getTransaction txns t = Some txn"
    and "createExecutor (sh_catalog sh) plan = Inr x" "reads_only x" "\<forall>ti \<in> scanned x. stored (exec_context sh txn) st ti"
    and "exec_beh (env_lib env) (exec_context sh txn) st x = Rows rows None" "list_all2 (\<lambda>r vs. encodes (outputSchema x) vs (fst r)) rows vss"
  shows "run_plan env sh plan = Some (\<lparr>er_success = True, error_message = [], er_columns = column_metadata (outputSchema x), er_rows = vss\<rparr>,
    Some (sh\<lparr>sh_mvcc := mvcc_commit (sh_mvcc sh) txn, sh_txns := fst (tm_commit txns (Some t))\<rparr>))"
proof -
  let ?c = "exec_context sh txn"
  have c: "exec_context (sh\<lparr>sh_txns := txns\<rparr>) txn = ?c" by (simp add: exec_context_def)
  have "runs_as (env_lib env) ?c st x" using exec_contract [OF assms(4)] assms(5) by blast
  then obtain ini nxt iv pend where o: "exec_ops (env_lib env) x = (ini, nxt)"
    and E: "context_executor ini nxt iv pend (exec_beh (env_lib env) ?c st x) ?c" and i: "iv (new_state x, ?c)" by (rule runs_asE)
  obtain s where s: "ini (new_state x, ?c) = return (s, ?c)" "pend (s, ?c) rows None"
    using context_executor.start [OF E i assms(6)] by blast
  have "list_all2 (\<lambda>r vs. column_values (outputSchema x) (fst r) = Inr vs) rows vss"
    using assms(7) column_values_encodes by (auto elim!: list_all2_mono)
  then obtain s1 where f: "fetch_values nxt (outputSchema x) (s, ?c) [] = Some (vss, Inr (s1, ?c))"
    using context_executor.fetch_values_pending [OF E s(2), of "outputSchema x" vss "[]"] by auto
  have "txns\<lparr>active_txns := (active_txns txns)(t \<mapsto> txn)\<rparr> = txns" using assms(2) by (simp add: getTransaction_def fun_upd_idem)
  then have "end_statement (sh\<lparr>sh_txns := txns\<rparr>) t ?c = sh\<lparr>sh_mvcc := mvcc_commit (sh_mvcc sh) txn, sh_txns := fst (tm_commit txns (Some t))\<rparr>"
    by (simp add: end_statement_def exec_context_def)
  then show ?thesis using assms(1-3) s(1) f c o by (simp add: run_plan_def Let_def return_def failure_def)
qed

text \<open>
  C1. A query from its text to its result, through all of \<open>executeSQLStructured\<close>.  Take a table with a well-formed heap whose rows, as the
  transaction that begins sees them, encode the values \<open>vss\<close>, and the text \<open>SELECT * FROM t WHERE e\<close> for a printed expression \<open>e\<close> that
  the binder finds to be a condition without arithmetic, in which no operand of \<open>AND\<close> and \<open>OR\<close> is null on these rows.  Then the statement is parsed,
  bound, planned, optimized (the condition is pushed into the scan and folded), executed and committed: it succeeds, its columns are those of
  the table, and its rows are exactly the rows of \<open>vss\<close> on which the condition that the user wrote, not the folded one, is true, in the order
  of the table; nothing stored, no lock and no log record changes, and the transaction is committed.  (As in the table heap, the pages are those behind the
  buffer pool, whose fetches are transparent.)  The table has no index, or the folded
  condition is not a comparison of its first column with a constant, for which the optimizer chooses an index scan.
\<close>

theorem select_where_run:
  assumes "ident nm" "good_expr e" "getTable (sh_catalog sh) (bytes_of nm) = (Ok, Some ti)" "supported (ti_schema ti)" "ti_schema ti \<noteq> []"
    and "bindExpression e (table_scope (bytes_of nm) (ti_schema ti)) = (Inr b, s')" "bound_type b = TypeBoolean" "safe (ti_schema ti) (takeExpr b) TypeBoolean"
    and "ti_index_root_page ti = kInvalidPageId \<or> (\<forall>p. foldExpression (takeExpr b) = Inr p \<longrightarrow> \<not> first_column_test p)"
    and "tm_begin (sh_txns sh) = (t, txns)" "getTransaction txns t = Some txn"
    and "heap_ok (bpm_disk (sh_bpm sh)) h ids" "ti_heap_root_page ti = first_page_id h"
    and "visible_rows (exec_context sh txn) (heap_records (dm_pages (bpm_disk (sh_bpm sh))) ids) = zip (map row_bytes vss) rids" "length rids = length vss"
    and "\<forall>vs \<in> set vss. list_all2 value_fits (ti_schema ti) vs \<and> length (row_bytes vs) \<le> 1024 \<and> bool_operands (takeExpr b) (Some (row_bytes vs, ti_schema ti)) None"
  shows "executeSQLStructured env sh (''SELECT * FROM '' @ nm @ '' WHERE '' @ expr_string e) =
    Some (\<lparr>er_success = True, error_message = [], er_columns = map (\<lambda>c. \<lparr>cm_name = col_name c, cm_type = type_code (type_of_column c)\<rparr>) (ti_schema ti),
        er_rows = filter (\<lambda>vs. evaluate (takeExpr b) (row_bytes vs) (ti_schema ti) = Inr (VBool True)) vss\<rparr>,
      Some (sh\<lparr>sh_mvcc := mvcc_commit (sh_mvcc sh) txn, sh_txns := fst (tm_commit txns (Some t))\<rparr>))"
proof -
  let ?sch = "ti_schema ti" and ?p = "takeExpr b" and ?cat = "sh_catalog sh" and ?c = "exec_context sh txn" and ?nm = "bytes_of nm"
  let ?st = "\<lambda>_. heap_records (dm_pages (bpm_disk (sh_bpm sh))) ids" and ?lib = "env_lib env"
  define rows where "rows = zip (map row_bytes vss) rids"
  define kept where "kept = filter (\<lambda>vs. evaluate ?p (row_bytes vs) ?sch = Inr (VBool True)) vss"
  have tab: "table_of_name ?cat ?nm = Inr ti" using assms(3) by (simp add: table_of_name_def)
  have enc: "encodes ?sch vs (row_bytes vs)" if "vs \<in> set vss" for vs using assms(16) that by (auto simp: encodes_def)
  have row: "\<exists>vs \<in> set vss. fst r = row_bytes vs" if "r \<in> set rows" for r using that set_zip_leftD [of "fst r" "snd r" "map row_bytes vss" rids] by (auto simp: rows_def)
  have well: "well_encoded ?sch rows" using row enc by (fastforce simp: well_encoded_def)
  have st: "stored ?c ?st ti" using assms(12,13) by (auto simp: stored_def exec_context_def ec_disk_def)
  obtain p' where p': "foldExpression ?p = Inr p'" "safe ?sch p' TypeBoolean" using fold_safe [OF assms(8)] by blast
  have ne: "p' \<noteq> ENullPtr" using p'(2) by auto
  have hold: "holds p' ?sch (row_bytes vs) = (evaluate ?p (row_bytes vs) ?sch = Inr (VBool True))" if "vs \<in> set vss" for vs
    using fold_holds [OF assms(8) p'(1) enc [OF that]] assms(16) that evaluate_is_join [OF assms(8), of "row_bytes vs"] by (simp add: holds_def)
  let ?scan = "LSeqScan ?sch ?nm [] p' ENullPtr ENullPtr" and ?kept = "filter (\<lambda>r. holds p' ?sch (fst r)) rows"
  have "denotes ?lib ?c ?st ?cat ?scan ?kept"
    using denotes_scan [OF tab refl st, of p' ?lib "[]"] assms(14) well p'(2) ne by (simp add: rows_def)
  then obtain x pp where x: "planNode ?cat ?scan = Inr pp" "createExecutor ?cat pp = Inr x" "reads_only x" "\<forall>ti \<in> scanned x. stored ?c ?st ti"
    "exec_beh ?lib ?c ?st x = Rows ?kept None" "outputSchema x = ?sch" "well_encoded ?sch ?kept" by (rule denotesE) auto
  have len: "\<forall>r \<in> set ?kept. length (fst r) \<le> 1024" using row assms(16) by fastforce
  let ?plan = "PProjection ?sch (all_columns ?sch) pp" and ?y = "XProjection (all_columns ?sch) ?sch x"
  have vals: "list_all2 (\<lambda>r vs. encodes ?sch vs (fst r)) ?kept kept"
  proof -
    have "list_all2 (\<lambda>r vs. encodes ?sch vs (fst r)) (filter (\<lambda>r. holds p' ?sch (fst r)) (zip (map row_bytes us) ks))
        (filter (\<lambda>vs. evaluate ?p (row_bytes vs) ?sch = Inr (VBool True)) us)" if "length ks = length us" "set us \<subseteq> set vss" for us ks
      using that hold enc by (induction ks us rule: list_induct2) auto
    from this [OF assms(15) subset_refl] show ?thesis by (simp add: rows_def kept_def)
  qed
  have "run_plan env sh ?plan = Some (\<lparr>er_success = True, error_message = [], er_columns = column_metadata (outputSchema ?y), er_rows = kept\<rparr>,
      Some (sh\<lparr>sh_mvcc := mvcc_commit (sh_mvcc sh) txn, sh_txns := fst (tm_commit txns (Some t))\<rparr>))"
    by (rule run_reading_plan [OF assms(10,11), where st = ?st and rows = ?kept])
      (use x vals trans_projection_columns [OF x(7) len] in \<open>simp_all add: beh_map_def\<close>)
  moreover have "column_metadata ?sch = map (\<lambda>c. \<lparr>cm_name = col_name c, cm_type = type_code (type_of_column c)\<rparr>) ?sch"
    using assms(4) by (auto simp: column_metadata_def type_of_column_def supported_def)
  moreover have "plan_of_statement env sh (SelectStmt (star_query nm e)) = Inr (Inr ?plan)"
  proof -
    obtain s'' where s: "bind_statement ?cat (SelectStmt (star_query nm e)) mk_Binder = (Inr (BoundSelectStatement
       \<lparr>bs_table = Some (BoundBaseTable ?nm [] ?sch), bs_select_list = star_items ?sch, bs_where = Some b, bs_group_bys = [],
        bs_having = None, bs_order_by = [], bs_limit = None, bs_offset = None\<rparr>), s'')" using bind_star_query [OF assms(3,4,6,7)] by blast
    have "ti_index_root_page ti = kInvalidPageId \<or> \<not> first_column_test p'" using assms(9) p'(1) by blast
    from optimize_star_query [OF assms(3) this p'(1), of "env_cheaper env" ?sch] obtain names where
      "optimize (HamDBOptimizer (Some ?cat) (env_cheaper env)) (LProjection ?sch (all_columns ?sch) (LFilter ?sch ?p (LSeqScan ?sch ?nm [] ENullPtr ENullPtr ENullPtr))) [] =
       Inr (LProjection ?sch (all_columns ?sch) ?scan, names)" by blast
    then show ?thesis using s plan_star_query [OF assms(4,5), of ?cat ?nm b] x(1)
      by (simp add: plan_of_statement_def compile_statement_def all_columns_def)
  qed
  moreover have "outputSchema ?y = ?sch" by simp
  ultimately show ?thesis using parse_star_query [OF assms(1,2)]
    by (simp only: executeSQLStructured_def option.case sum.case kept_def)
qed

lemma sample_row_heap: "\<exists>rid h d ids. heap_ok d h ids \<and> heap_records (dm_pages d) ids = [(rid, row_bytes [VInt 7, VStr [104, 105]])]"
  by (rule single_record_of) (simp_all add: value_bytes_def string_bytes_def bytes_of_u32_def)

text \<open>The table of the example has an index; the condition is one that the optimizer leaves to the sequential scan.\<close>

theorem select_where_run_witness:
  "\<exists>env sh sh'. executeSQLStructured env sh ''SELECT * FROM t WHERE (9 > a)'' =
    Some (\<lparr>er_success = True, error_message = [], er_columns = [\<lparr>cm_name = [97], cm_type = type_code TypeInteger\<rparr>, \<lparr>cm_name = [98], cm_type = type_code TypeVarchar\<rparr>],
      er_rows = [[VInt 7, VStr [104, 105]]]\<rparr>, Some sh')"
proof -
  let ?vs = "[VInt 7, VStr [104, 105]]" and ?row = "row_bytes [VInt 7, VStr [104, 105]]"
  let ?e = "ABinary OpGreater (AConstant CInteger ''9'') (AColumn ''a'' [])" and ?p = "EComp GreaterThan (EConst (VInt 9)) (EColumn 0 None)"
  obtain rid h d ids where h: "heap_ok d h ids" "heap_records (dm_pages d) ids = [(rid, ?row)]" using sample_row_heap by blast
  let ?ti = "default_TableInfo\<lparr>ti_schema := sample_schema, ti_heap_root_page := first_page_id h, ti_index_root_page := 5\<rparr>"
  let ?env = "\<lparr>env_lib = sample_library, env_cheaper = (\<lambda>_. False), env_what = (\<lambda>_. [])\<rparr>"
  let ?sh = "\<lparr>sh_catalog = \<lparr>cat_tables = [([116], ?ti)], next_table_id = 1\<rparr>, sh_bpm = mk_BufferPoolManager 4 d, sh_mvcc = Map.empty, sh_locks = Map.empty,
    sh_log = mk_LogManager, sh_txns = mk_TransactionManager, sh_prepared = Map.empty\<rparr>"
  let ?txn = "(mk_Transaction 0)\<lparr>begin_ts := 0\<rparr>" and ?b = "BoundComparison ?p TypeBoolean"
  have n: "ident ''t''" "ident ''a''" by code_simp+
  have e: "good_expr ?e" using n by (simp add: isdigit_def code_def)
  have t: "bytes_of ''t'' = [116]" by (simp add: bytes_of_def code_def)
  have disk: "bpm_disk (sh_bpm ?sh) = d" by (simp add: mk_BufferPoolManager_def)
  have table: "getTable (sh_catalog ?sh) (bytes_of ''t'') = (Ok, Some ?ti)" by (simp add: t getTable_def)
  have sup: "supported (ti_schema ?ti)" "ti_schema ?ti \<noteq> []" by (simp_all add: supported_def sample_schema_def)
  have b: "bindExpression ?e (table_scope (bytes_of ''t'') (ti_schema ?ti)) = (Inr ?b, table_scope (bytes_of ''t'') sample_schema)"
    by (simp add: then_bind_def table_scope_def bindColumnValue_def sample_schema_def bytes_of_def code_def columnTypeToTypeId_def lifted_def bindConstant_def stoi_def
        isspace_def isdigit_def digits_value_def int32_def bindBinary_def is_param_def bound_def ensure_def)
  have p: "safe (ti_schema ?ti) (takeExpr ?b) TypeBoolean"
    by (simp add: safe_def sample_schema_def type_of_column_def has_type_def getType_def value_wf_def int32_def)
  have idx: "ti_index_root_page ?ti = kInvalidPageId \<or> (\<forall>p. foldExpression (takeExpr ?b) = Inr p \<longrightarrow> \<not> first_column_test p)"
    by (simp add: first_column_test_def)
  have begins: "tm_begin (sh_txns ?sh) = (0, \<lparr>next_txn_id = 1, active_txns = [0 \<mapsto> ?txn]\<rparr>)" by (simp add: tm_begin_def mk_TransactionManager_def Let_def)
  have active: "getTransaction \<lparr>next_txn_id = 1, active_txns = [0 \<mapsto> ?txn]\<rparr> 0 = Some ?txn" by (simp add: getTransaction_def)
  have rows: "visible_rows (exec_context ?sh ?txn) (heap_records (dm_pages (bpm_disk (sh_bpm ?sh))) ids) = zip (map row_bytes [?vs]) [rid]"
    unfolding disk h(2) by (simp add: visible_tuple_def versionCount_def exec_context_def)
  have enc: "encodes sample_schema ?vs ?row" using build_row_encodes [OF sample_row_fits] by simp
  have true: "evaluate (takeExpr ?b) ?row sample_schema = Inr (VBool True)"
    using column_evaluate_encodes [OF enc, of 0]
    by (simp add: evaluate_def deref_column_def comp_eval_def compareGreaterThan_def value_simps)
  have good: "\<forall>vs \<in> set [?vs]. list_all2 value_fits (ti_schema ?ti) vs \<and> length (row_bytes vs) \<le> 1024 \<and>
      bool_operands (takeExpr ?b) (Some (row_bytes vs, ti_schema ?ti)) None"
    using sample_row_fits by simp
  obtain q sh' where q: "q = ''SELECT * FROM '' @ ''t'' @ '' WHERE '' @ expr_string ?e"
    and r: "executeSQLStructured ?env ?sh q = Some (\<lparr>er_success = True, error_message = [],
        er_columns = map (\<lambda>c. \<lparr>cm_name = col_name c, cm_type = type_code (type_of_column c)\<rparr>) (ti_schema ?ti),
        er_rows = filter (\<lambda>vs. evaluate (takeExpr ?b) (row_bytes vs) (ti_schema ?ti) = Inr (VBool True)) [?vs]\<rparr>, Some sh')"
    using select_where_run [OF n(1) e table sup b _ p idx begins active _ _ rows _ good, of h ?env] h(1) disk by simp
  have "map (\<lambda>c. \<lparr>cm_name = col_name c, cm_type = type_code (type_of_column c)\<rparr>) (ti_schema ?ti) =
      [\<lparr>cm_name = [97], cm_type = type_code TypeInteger\<rparr>, \<lparr>cm_name = [98], cm_type = type_code TypeVarchar\<rparr>]"
    by (simp add: sample_schema_def type_of_column_def)
  moreover have "filter (\<lambda>vs. evaluate (takeExpr ?b) (row_bytes vs) (ti_schema ?ti) = Inr (VBool True)) [?vs] = [?vs]" using true by simp
  moreover have "q = ''SELECT * FROM t WHERE (9 > a)''" using q by simp
  ultimately show ?thesis using r by (simp only:) blast
qed

end
