(* ===== verification/Spec2Isabelle.thy ===== *)
theory Spec2Isabelle
  imports Prelude Common Serde Pages SlottedPage DiskManager TableHeap
    LRUKReplacer BufferPool Transactions LockManager Mvcc LogRecords LogManager Recovery
    BTreePage BTreeLeaf BTreeInternal BPlusTree Schemas Catalog
    Values Expressions ConstantFolding Executors Sorting HashJoin Aggregation Scans Modification
    Plans Optimizer Lexer Parser Binder Planner Wire Shell Queries
begin

text \<open>
  HamDB, a relational database engine in C++: a verification of its storage, concurrency, logging, indexing
  and execution layers, and of the way of a statement from its text to the rows of its result.

  \<^bold>\<open>The program.\<close>  A database is one file of 4096-byte pages.  \<^verbatim>\<open>DiskManager\<close> reads and writes
  pages; page 0 holds the database metadata and, behind it, the catalog.  \<^verbatim>\<open>SlottedPage\<close> stores
  tuples in the body of a page and \<^verbatim>\<open>TableHeap\<close> chains such pages.  \<^verbatim>\<open>BufferPoolManager\<close> caches
  pages in frames, choosing victims with \<^verbatim>\<open>LRUKReplacer\<close>, and clients hold pages through guards.
  The B+ tree of an index lives in pages fetched through guards.  \<^verbatim>\<open>LockManager\<close> and
  \<^verbatim>\<open>MvccManager\<close> coordinate transactions, \<^verbatim>\<open>LogManager\<close> and \<^verbatim>\<open>RecoveryManager\<close> log and replay
  changes.  A statement is a text.  The lexer and the parser turn it into a syntax tree, the binder
  resolves names and types, the planner makes a logical plan, the optimizer rewrites it, the physical planner and the executor factory
  turn it into a tree of executors that pull rows from their children and evaluate expressions on them.  The shell runs all of
  this within a transaction.

  \<^bold>\<open>Theories and sources\<close> (paths below \<^verbatim>\<open>src/\<close> of the repository, headers in the matching place
  below \<^verbatim>\<open>include/\<close>):
  \<^item> \<open>Prelude\<close>: byte buffers (\<open>slice\<close>, \<open>overwrite\<close>), little-endian codecs, the interfaces
    \<open>byte_codec\<close> and \<open>state_machine\<close>.  \<open>Common\<close>: \<^verbatim>\<open>common/enums\<close>, \<^verbatim>\<open>common/constants\<close>.
  \<^item> \<open>Serde\<close>: \<^verbatim>\<open>utils/serializer.cpp\<close>, \<^verbatim>\<open>utils/deserializer.cpp\<close>; round trip of any sequence of writes.
  \<^item> \<open>Pages\<close>, \<open>SlottedPage\<close>: \<^verbatim>\<open>storage/page.cpp\<close>, \<^verbatim>\<open>rid.cpp\<close>, \<^verbatim>\<open>tuple.cpp\<close>, \<^verbatim>\<open>tuple_slot.cpp\<close>,
    \<^verbatim>\<open>slotted_page.cpp\<close>; every page operation refines an operation on a list of optional tuples.
  \<^item> \<open>DiskManager\<close>: \<^verbatim>\<open>storage/disk_manager.cpp\<close>, \<^verbatim>\<open>database_metadata.cpp\<close>; the interface
    \<open>page_store\<close>.  \<open>TableHeap\<close>: \<^verbatim>\<open>storage/table_heap.cpp\<close>, \<^verbatim>\<open>heap_iterator.cpp\<close>; insertion as a
    map update, termination and completeness of scans.
  \<^item> \<open>LRUKReplacer\<close>, \<open>BufferPool\<close>: \<^verbatim>\<open>buffer/\<close>; the interface \<open>replacer\<close>, the pool invariant
    \<open>bpm_ok\<close>, transparency of fetching and eviction, durability of flushing, balance of pins.
  \<^item> \<open>Transactions\<close>, \<open>LockManager\<close>, \<open>Mvcc\<close>: \<^verbatim>\<open>transaction/\<close>; step relations over all
    interleavings, mutual exclusion, progress, repeatable reads, abort.
  \<^item> \<open>LogRecords\<close>, \<open>LogManager\<close>, \<open>Recovery\<close>: \<^verbatim>\<open>wal/\<close>; round trip of records, the durable
    prefix, redo and undo.
  \<^item> \<open>BTreePage\<close>, \<open>BTreeLeaf\<close>, \<open>BTreeInternal\<close>, \<open>BPlusTree\<close>: \<^verbatim>\<open>index/\<close>; the interfaces
    \<open>bounded_map\<close> and \<open>entry_codec\<close>, node operations, search of a tree and changes within a leaf.
  \<^item> \<open>Schemas\<close>, \<open>Catalog\<close>: \<^verbatim>\<open>catalog/schema.cpp\<close>, \<^verbatim>\<open>table_info.cpp\<close>, \<^verbatim>\<open>catalog_manager.cpp\<close>;
    the interface \<open>field_codec\<close>, saving and loading the catalog.
  \<^item> \<open>Values\<close>, \<open>Expressions\<close>, \<open>ConstantFolding\<close>: \<^verbatim>\<open>executor/value.cpp\<close>, the expression classes,
    \<^verbatim>\<open>optimizer/constant_folding_rule.cpp\<close>; type soundness, rows, meaning of folding.
  \<^item> \<open>Executors\<close>: \<^verbatim>\<open>executor/\<close> values, filter, having, projection, limit and nested loop join; the
    interface \<open>executor\<close> between a parent and its children (\<open>context_executor\<close>, \<open>two_executors\<close>), kept by every
    operator.  \<open>Sorting\<close> (sort, order by, top k), \<open>HashJoin\<close> and \<open>Aggregation\<close> against list specifications.
  \<^item> \<open>Scans\<close>, \<open>Modification\<close>: the sequential and the index scan, \<open>INSERT\<close>, \<open>UPDATE\<close> and \<open>DELETE\<close>, over the table
    heap, the version chains, the locks and the log; the interface \<open>row_source\<close>.  What a statement leaves behind is proved for
    tables without an index.
  \<^item> \<open>Plans\<close>: the plan nodes, \<^verbatim>\<open>planner/physical_planner.cpp\<close>, \<^verbatim>\<open>planner/executor_factory.cpp\<close>; the relational meaning of
    a plan (\<open>plan_beh\<close>) is what its executors return.  \<open>Optimizer\<close>: \<^verbatim>\<open>optimizer/\<close>, every rule and the rule executor; pushdown, join
    selection and limits against that meaning.
  \<^item> \<open>Lexer\<close>, \<open>Parser\<close>: \<^verbatim>\<open>parser/\<close>; printing and reading back of tokens and of statements, totality.
  \<^item> \<open>Binder\<close>, \<open>Planner\<close>: \<^verbatim>\<open>binder/binder.cpp\<close>, \<^verbatim>\<open>planner/planner.cpp\<close>; name resolution, types of expressions and
    parameters, conditions and output columns of queries.
  \<^item> \<open>Wire\<close>: \<^verbatim>\<open>server/wire_protocol.cpp\<close>; requests are recognised exactly, responses are read back.
  \<^item> \<open>Shell\<close>, \<open>Queries\<close>: \<^verbatim>\<open>shell/shell.cpp\<close> (\<open>initDB\<close>, \<open>executeSQLStructured\<close>, \<open>PREPARE\<close>, \<open>DEALLOCATE\<close>),
    \<^verbatim>\<open>prepared/\<close>; a query from its text to its result, through every component above.

  \<^bold>\<open>Conventions.\<close>  Objects are records and operations return the changed record.  Machine integers
  are words, or integers where the text of a theory says so; undefined behaviour is a value of the result.
  A status code or an exception is part of the result.  \<open>None\<close> as the whole result of a
  storage operation is an uncaught exception or a read outside a buffer, and of a loop that it does not
  return; theorems show \<open>Some\<close>.  Loops that may run forever are partial functions,
  and their termination is proved where it is claimed.  Only the parser, which is mutually recursive, uses fuel: the length of the text
  plus one, which is proved to be enough for every text.  The operating system is an oracle of input/output
  faults.  Mutexes make an operation one step; calls that wait on a condition variable are split
  at the wait.  The iteration order of hash maps is an argument that may be any permutation.

  The table heap works on the pages behind the buffer pool, which is justified by the transparency of fetching and eviction; the B+ tree, the
  catalog and recovery go through the pool and its guards.  Pin counts are natural numbers, and C++ integers of 32 bits in the source.

  \<^bold>\<open>Not modelled.\<close>  The cost model and the cardinality estimator compute floating-point estimates: the decision that rests on them is
  an argument of the optimizer.  The algorithms of the C++ library (sorting, heaps, iteration of hash maps) are arguments with the promises of
  the standard.  The state that an executor leaves when it throws, and the destructors of executors, are not modelled, nor is the buffering of
  file streams between a write and a flush.  Statistics, the printing of tokens and plans (\<open>EXPLAIN\<close>), the console (REPL, meta commands, scripts, table
  printer), sockets, threads and the sessions of the server are input and output around the modelled parts.  Allocation failure is not modelled.
\<close>

end
